(* ===== verification/Pdnsd_Prelude.thy ===== *)
theory Pdnsd_Prelude
  imports Main "HOL-Library.Word" "HOL-Library.Monad_Syntax"
begin

text \<open>
  Shared vocabulary of the development: bytes and buffers, the failure convention, the
  character classes of the C library, and generic lemmas on lists, options and words.

  A C pointer into a byte buffer is an index into a list of bytes. Every read goes through
  \<open>rd\<close> and every write through \<open>wr\<close>; both return \<open>None\<close> outside the buffer. A model
  function of type \<open>'a option\<close> therefore returns \<open>None\<close> exactly when the code would
  access memory outside the buffers it is given (or fail an assertion), and a theorem that
  it returns \<open>Some\<close> includes memory safety. An error the code reports is a value inside
  \<open>Some\<close>.
\<close>

unbundle bit_operations_syntax

type_synonym byte = "8 word"
type_synonym bytes = "byte list"

named_theorems c_simps \<open>unfolding rules for the C-level primitives\<close>
named_theorems buf_simps \<open>simplification of buffer reads and writes\<close>

subsection \<open>Buffers\<close>

definition rd :: "'a list \<Rightarrow> nat \<Rightarrow> 'a option" where
  "rd b i = (if i < length b then Some (b ! i) else None)"

definition wr :: "'a list \<Rightarrow> nat \<Rightarrow> 'a \<Rightarrow> 'a list option" where
  "wr b i v = (if i < length b then Some (b[i := v]) else None)"

text \<open>\<open>memcpy\<close> of a byte string to offset \<open>i\<close> of a buffer.\<close>

definition wr_all :: "'a list \<Rightarrow> nat \<Rightarrow> 'a list \<Rightarrow> 'a list option" where
  "wr_all b i vs = (if i + length vs \<le> length b
     then Some (take i b @ vs @ drop (i + length vs) b) else None)"

text \<open>Reading \<open>n\<close> bytes from offset \<open>i\<close>.\<close>

definition rd_all :: "'a list \<Rightarrow> nat \<Rightarrow> nat \<Rightarrow> 'a list option" where
  "rd_all b i n = (if i + n \<le> length b then Some (take n (drop i b)) else None)"

lemma rd_Some_iff: "rd b i = Some x \<longleftrightarrow> i < length b \<and> b ! i = x"
  by (auto simp: rd_def)

lemma rd_lessD: "rd b i = Some x \<Longrightarrow> i < length b"
  by (simp add: rd_Some_iff)

lemma rd_None_iff: "rd b i = None \<longleftrightarrow> length b \<le> i"
  by (auto simp: rd_def)

lemma rd_in [buf_simps]: "i < length b \<Longrightarrow> rd b i = Some (b ! i)"
  by (simp add: rd_def)

lemma rd_append_left [buf_simps]: "i < length xs \<Longrightarrow> rd (xs @ ys) i = rd xs i"
  by (simp add: rd_def nth_append)

lemma rd_append_right [buf_simps]: "rd (xs @ ys) (length xs + i) = rd ys i"
  by (simp add: rd_def)

lemma rd_append_right0 [buf_simps]: "rd (xs @ ys) (length xs) = rd ys 0"
  by (simp add: rd_def nth_append)

lemma rd_Cons_0 [simp]: "rd (x # xs) 0 = Some x"
  by (simp add: rd_def)

lemma rd_Cons_Suc [simp]: "rd (x # xs) (Suc i) = rd xs i"
  by (simp add: rd_def)

lemma wr_Some_iff: "wr b i v = Some b' \<longleftrightarrow> i < length b \<and> b' = b[i := v]"
  by (auto simp: wr_def)

lemma wr_in [buf_simps]: "i < length b \<Longrightarrow> wr b i v = Some (b[i := v])"
  by (simp add: wr_def)

lemma wr_length: "wr b i v = Some b' \<Longrightarrow> length b' = length b"
  by (auto simp: wr_def split: if_splits)

lemma wr_all_length: "wr_all b i vs = Some b' \<Longrightarrow> length b' = length b"
  by (auto simp: wr_all_def split: if_splits)

lemma take_update_append: "i < length b \<Longrightarrow> take (Suc i) (b[i := v]) = take i b @ [v]"
  by (simp add: take_Suc_conv_app_nth)

subsection \<open>Results of partial computations\<close>

text \<open>
  \<open>returns m P\<close>: the computation does not fail, and its result satisfies \<open>P\<close>. It is the
  weakest precondition of the option monad and composes along \<open>bind\<close>.
\<close>

definition returns :: "'a option \<Rightarrow> ('a \<Rightarrow> bool) \<Rightarrow> bool" where
  "returns m P = (case m of None \<Rightarrow> False | Some x \<Rightarrow> P x)"

lemma returns_Some [simp]: "returns (Some x) P = P x"
  by (simp add: returns_def)

lemma returns_None [simp]: "returns None P = False"
  by (simp add: returns_def)

lemma returns_bind [simp]: "returns (Option.bind m f) P = returns m (\<lambda>x. returns (f x) P)"
  by (cases m) simp_all

lemma returns_mono: "returns m P \<Longrightarrow> (\<And>x. P x \<Longrightarrow> Q x) \<Longrightarrow> returns m Q"
  by (cases m) simp_all

lemma returns_conj: "returns m (\<lambda>x. P x \<and> Q x) \<longleftrightarrow> returns m P \<and> returns m Q"
  by (cases m) auto

lemma returnsE: "returns m P \<Longrightarrow> (\<And>x. m = Some x \<Longrightarrow> P x \<Longrightarrow> thesis) \<Longrightarrow> thesis"
  by (cases m) auto

lemma returns_pair: "returns m (\<lambda>(x, y). P x y) \<Longrightarrow> \<exists>x y. m = Some (x, y) \<and> P x y"
  by (cases m) auto

lemma returnsI: "m = Some x \<Longrightarrow> P x \<Longrightarrow> returns m P"
  by simp

subsection \<open>Characters\<close>

text \<open>
  The character classes of the C locale (the program never calls \<open>setlocale\<close>).
\<close>

definition tolower :: "byte \<Rightarrow> byte" where
  "tolower c = (if 65 \<le> c \<and> c \<le> 90 then c + 32 else c)"

definition toupper :: "byte \<Rightarrow> byte" where
  "toupper c = (if 97 \<le> c \<and> c \<le> 122 then c - 32 else c)"

definition isgraph :: "byte \<Rightarrow> bool" where
  "isgraph c \<longleftrightarrow> 33 \<le> c \<and> c \<le> 126"

definition isprint :: "byte \<Rightarrow> bool" where
  "isprint c \<longleftrightarrow> 32 \<le> c \<and> c \<le> 126"

definition isspace :: "byte \<Rightarrow> bool" where
  "isspace c \<longleftrightarrow> c = 32 \<or> (9 \<le> c \<and> c \<le> 13)"

definition chr :: "char \<Rightarrow> byte" where
  "chr c = of_nat (of_char c)"

definition str :: "string \<Rightarrow> bytes" where
  "str s = map chr s"

lemma unat_of_nat_byte [simp]: "n < 256 \<Longrightarrow> unat (of_nat n :: byte) = n"
  by (simp add: unat_of_nat)

lemma of_nat_byte_eq_0 [simp]: "n < 256 \<Longrightarrow> (of_nat n = (0 :: byte)) = (n = 0)"
  by (simp add: word_unat_eq_iff unat_of_nat)

lemma unat_byte_less [simp]: "unat (b :: byte) < 256"
  using unsigned_less [where w = b and ?'a = nat] by simp

lemma byte_all_cases:
  assumes "\<And>n. n < 256 \<Longrightarrow> P (of_nat n)"
  shows "P (c :: byte)"
  using assms [of "unat c"] by simp

lemma unat_pos_iff: "(0 < unat (b :: byte)) = (b \<noteq> 0)"
  by (simp add: unat_gt_0)

text \<open>Folding to lower and to upper case identify the same characters.\<close>

lemma tolower_unat: "unat (tolower c) = (if 65 \<le> unat c \<and> unat c \<le> 90 then unat c + 32 else unat c)"
  by (auto simp: tolower_def word_le_nat_alt unat_word_ariths)

lemma toupper_unat: "unat (toupper c) = (if 97 \<le> unat c \<and> unat c \<le> 122 then unat c - 32 else unat c)"
  by (auto simp: toupper_def word_le_nat_alt unat_sub)

lemma toupper_eq_iff_tolower_eq: "(toupper a = toupper b) = (tolower a = tolower b)"
proof -
  have "(unat (toupper a) = unat (toupper b)) = (unat (tolower a) = unat (tolower b))"
    by (auto simp: toupper_unat tolower_unat)
  then show ?thesis by (simp only: word_unat_eq_iff)
qed

lemma tolower_idem [simp]: "tolower (tolower c) = tolower c"
  by (rule word_unat_eq_iff [THEN iffD2]) (auto simp: tolower_unat)

end
