(* ===== verification/Names.thy ===== *)
theory Names
  imports Pdnsd_Prelude
begin

text \<open>
  Domain names in transport format (\<open>helpers.h\<close>, \<open>helpers.c\<close> and \<open>domain_match\<close> of
  \<open>dns.c\<close>): a length byte before every label, and a zero byte at the end. The routines
  are modelled on raw buffers; the lemmas relate them to lists of labels by the encoding
  \<open>enc\<close>.
\<close>

subsection \<open>Label lists and their encoding\<close>

definition DNSNAMEBUFSIZE :: nat where
  "DNSNAMEBUFSIZE = 256"

definition enc_label :: "bytes \<Rightarrow> bytes" where
  "enc_label l = of_nat (length l) # l"

definition enc_labels :: "bytes list \<Rightarrow> bytes" where
  "enc_labels ls = concat (map enc_label ls)"

definition enc :: "bytes list \<Rightarrow> bytes" where
  "enc ls = enc_labels ls @ [0]"

text \<open>Labels that a length byte can describe, and labels and names of the DNS.\<close>

definition labels_ok :: "bytes list \<Rightarrow> bool" where
  "labels_ok ls \<longleftrightarrow> (\<forall>l \<in> set ls. 0 < length l \<and> length l < 256)"

definition dns_labels :: "bytes list \<Rightarrow> bool" where
  "dns_labels ls \<longleftrightarrow> (\<forall>l \<in> set ls. 0 < length l \<and> length l \<le> 63)"

definition dns_name :: "bytes list \<Rightarrow> bool" where
  "dns_name ls \<longleftrightarrow> dns_labels ls \<and> length (enc ls) \<le> DNSNAMEBUFSIZE"

text \<open>Names are compared without regard to case.\<close>

definition fold_case :: "bytes list \<Rightarrow> bytes list" where
  "fold_case ls = map (map tolower) ls"

subsection \<open>The inline routines of helpers.h\<close>

function rhnlen_loop :: "bytes \<Rightarrow> nat \<Rightarrow> nat option" where
  "rhnlen_loop rhn i = do {
     lb \<leftarrow> rd rhn i;
     if lb = 0 then Some (i + 1) else rhnlen_loop rhn (i + 1 + unat lb)
   }"
  by pat_completeness auto
termination
  by (relation "measure (\<lambda>(rhn, i). length rhn - i)") (auto simp: rd_Some_iff)

definition rhnlen :: "bytes \<Rightarrow> nat option" where
  "rhnlen rhn = rhnlen_loop rhn 0"

text \<open>Pointers into the buffer are returned as offsets from \<open>nm\<close>.\<close>

fun skipsegs :: "bytes \<Rightarrow> nat \<Rightarrow> nat \<Rightarrow> nat option" where
  "skipsegs nm p 0 = Some p"
| "skipsegs nm p (Suc k) = do {
     lb \<leftarrow> rd nm p;
     if lb = 0 then Some p else skipsegs nm (p + unat lb + 1) k
   }"

function skiprhn :: "bytes \<Rightarrow> nat \<Rightarrow> nat option" where
  "skiprhn rhn p = do {
     lb \<leftarrow> rd rhn p;
     if lb = 0 then Some (p + 1) else skiprhn rhn (p + 1 + unat lb)
   }"
  by pat_completeness auto
termination
  by (relation "measure (\<lambda>(rhn, p). length rhn - p)") (auto simp: rd_Some_iff)

function rhnsegcnt_loop :: "bytes \<Rightarrow> nat \<Rightarrow> nat \<Rightarrow> nat option" where
  "rhnsegcnt_loop rhn p res = do {
     lb \<leftarrow> rd rhn p;
     if lb = 0 then Some res else rhnsegcnt_loop rhn (p + unat lb + 1) (res + 1)
   }"
  by pat_completeness auto
termination
  by (relation "measure (\<lambda>(rhn, p, res). length rhn - p)") (auto simp: rd_Some_iff)

definition rhnsegcnt :: "bytes \<Rightarrow> nat option" where
  "rhnsegcnt rhn = rhnsegcnt_loop rhn 0 0"

text \<open>The inner \<open>do ... while(--lb)\<close> of \<open>rhnicmp\<close>; \<open>None\<close> inside: the names differ.\<close>

fun rhnicmp_chars :: "bytes \<Rightarrow> bytes \<Rightarrow> nat \<Rightarrow> nat \<Rightarrow> nat option option" where
  "rhnicmp_chars a b i 0 = Some (Some i)"
| "rhnicmp_chars a b i (Suc lb) = do {
     x \<leftarrow> rd a i;
     y \<leftarrow> rd b i;
     if tolower x \<noteq> tolower y then Some None else rhnicmp_chars a b (i + 1) lb
   }"

lemma rhnicmp_chars_index: "rhnicmp_chars a b i n = Some (Some i') \<Longrightarrow> i' = i + n"
  by (induction n arbitrary: i) (fastforce split: bind_splits if_splits)+

function rhnicmp_loop :: "bytes \<Rightarrow> bytes \<Rightarrow> nat \<Rightarrow> bool option" where
  "rhnicmp_loop a b i = do {
     lb \<leftarrow> rd a i;
     lb' \<leftarrow> rd b i;
     if lb \<noteq> lb' then Some False
     else if lb = 0 then Some True
     else do {
       r \<leftarrow> rhnicmp_chars a b (i + 1) (unat lb);
       case r of None \<Rightarrow> Some False | Some i' \<Rightarrow> rhnicmp_loop a b i'
     }
   }"
  by pat_completeness auto
termination
  by (relation "measure (\<lambda>(a, b, i). length a - i)") (auto dest!: rhnicmp_chars_index simp: rd_Some_iff)

definition rhnicmp :: "bytes \<Rightarrow> bytes \<Rightarrow> bool option" where
  "rhnicmp a b = rhnicmp_loop a b 0"

declare rhnlen_loop.simps [simp del] skiprhn.simps [simp del] rhnsegcnt_loop.simps [simp del]
  rhnicmp_loop.simps [simp del]

subsection \<open>Copying and checking names\<close>

text \<open>
  \<open>rhncpy\<close> copies into a buffer at offset \<open>d\<close>; a source longer than \<open>DNSNAMEBUFSIZE\<close>
  fails the assertion, which ends the program.
\<close>

definition rhncpy :: "bytes \<Rightarrow> nat \<Rightarrow> bytes \<Rightarrow> (nat \<times> bytes) option" where
  "rhncpy dst d src = do {
     len \<leftarrow> rhnlen src;
     if DNSNAMEBUFSIZE < len then None
     else do {
       s \<leftarrow> rd_all src 0 len;
       dst' \<leftarrow> wr_all dst d s;
       Some (len, dst')
     }
   }"

function isnormal_loop :: "bytes \<Rightarrow> nat \<Rightarrow> nat \<Rightarrow> bool option" where
  "isnormal_loop rhn maxlen i =
     (if maxlen \<le> i then Some False
      else do {
        lb \<leftarrow> rd rhn i;
        if lb = 0 then Some True
        else if 0x3f < lb then Some False
        else isnormal_loop rhn maxlen (i + 1 + unat lb)
      })"
  by pat_completeness auto
termination
  by (relation "measure (\<lambda>(rhn, maxlen, i). maxlen - i)") (auto simp: rd_Some_iff)

declare isnormal_loop.simps [simp del]

definition isnormalencdomname :: "bytes \<Rightarrow> nat \<Rightarrow> bool option" where
  "isnormalencdomname rhn maxlen =
     isnormal_loop rhn (if DNSNAMEBUFSIZE < maxlen then DNSNAMEBUFSIZE else maxlen) 0"

subsection \<open>From dotted notation to transport format\<close>

definition dot :: byte where
  "dot = 46"

text \<open>
  The inner loop of \<open>str2rhn\<close>: copy characters up to a dot or the terminating zero.
  \<open>Inl\<close>: the function returns 0 from inside the loop.
\<close>

function str2rhn_inner :: "bytes \<Rightarrow> bytes \<Rightarrow> nat \<Rightarrow> nat \<Rightarrow> (bytes + nat \<times> bytes) option" where
  "str2rhn_inner s rhn jlim j = do {
     c \<leftarrow> rd s j;
     if c \<noteq> 0 \<and> c \<noteq> dot
     then (if jlim \<le> j then Some (Inl rhn)
           else do { rhn' \<leftarrow> wr rhn (j + 1) c; str2rhn_inner s rhn' jlim (j + 1) })
     else Some (Inr (j, rhn))
   }"
  by pat_completeness auto
termination
  by (relation "measure (\<lambda>(s, rhn, jlim, j). length s - j)") (auto simp: rd_Some_iff)

declare str2rhn_inner.simps [simp del]

lemma str2rhn_inner_ge: "str2rhn_inner s rhn jlim j = Some (Inr (j', rhn')) \<Longrightarrow> j \<le> j' \<and> j' < length s"
proof (induction s rhn jlim j rule: str2rhn_inner.induct)
  case (1 s rhn jlim j)
  from "1.prems" show ?case
    by (subst (asm) str2rhn_inner.simps)
      (auto split: bind_splits if_splits dest: "1.IH" dest: rd_lessD)
qed

definition name_jlim :: "nat \<Rightarrow> nat" where
  "name_jlim i = (if DNSNAMEBUFSIZE - 2 < i + 63 then DNSNAMEBUFSIZE - 2 else i + 63)"

function str2rhn_outer :: "bytes \<Rightarrow> bytes \<Rightarrow> nat \<Rightarrow> (bool \<times> bytes) option" where
  "str2rhn_outer s rhn i = do {
     r \<leftarrow> str2rhn_inner s rhn (name_jlim i) i;
     case r of
       Inl rhn1 \<Rightarrow> Some (False, rhn1)
     | Inr (j, rhn1) \<Rightarrow> do {
         c \<leftarrow> rd s j;
         if c = 0
         then do { rhn2 \<leftarrow> wr rhn1 i 0; Some (\<not> (i < j \<or> i = 0), rhn2) }
         else if j \<le> i then Some (False, rhn1)
         else do { rhn2 \<leftarrow> wr rhn1 i (of_nat (j - i)); str2rhn_outer s rhn2 (j + 1) }
       }
   }"
  by pat_completeness auto
termination
  by (relation "measure (\<lambda>(s, rhn, i). length s - i)") (auto dest!: str2rhn_inner_ge)

declare str2rhn_outer.simps [simp del]

definition str2rhn :: "bytes \<Rightarrow> bytes \<Rightarrow> (bool \<times> bytes) option" where
  "str2rhn s rhn = do {
     c0 \<leftarrow> rd s 0;
     if c0 = dot
     then do {
       c1 \<leftarrow> rd s 1;
       if c1 = 0 then do { rhn' \<leftarrow> wr rhn 0 0; Some (True, rhn') }
       else str2rhn_outer s rhn 0
     }
     else str2rhn_outer s rhn 0
   }"

text \<open>\<open>parsestr2rhn\<close> does not look beyond the first \<open>len\<close> characters.\<close>

datatype name_err = ElementTooLong | EmptyElement | EmptyName

function parse_inner :: "bytes \<Rightarrow> nat \<Rightarrow> bytes \<Rightarrow> nat \<Rightarrow> nat \<Rightarrow> (bytes + nat \<times> bytes) option" where
  "parse_inner s len rhn jlim j =
     (if \<not> j < len then Some (Inr (j, rhn))
      else do {
        c \<leftarrow> rd s j;
        if c \<noteq> 0 \<and> c \<noteq> dot
        then (if jlim \<le> j then Some (Inl rhn)
              else do { rhn' \<leftarrow> wr rhn (j + 1) c; parse_inner s len rhn' jlim (j + 1) })
        else Some (Inr (j, rhn))
      })"
  by pat_completeness auto
termination
  by (relation "measure (\<lambda>(s, len, rhn, jlim, j). len - j)") auto

declare parse_inner.simps [simp del]

lemma parse_inner_ge: "parse_inner s len rhn jlim j = Some (Inr (j', rhn')) \<Longrightarrow> j \<le> j'"
proof (induction s len rhn jlim j rule: parse_inner.induct)
  case (1 s len rhn jlim j)
  from "1.prems" show ?case
    by (subst (asm) parse_inner.simps)
      (auto split: bind_splits if_splits dest: "1.IH" [simplified])
qed

text \<open>
  The condition \<open>j < len \<and> str[j]\<close>, with the short circuit of the C operator.
\<close>

definition more_chars :: "bytes \<Rightarrow> nat \<Rightarrow> nat \<Rightarrow> bool option" where
  "more_chars s len j = (if j < len then do { c \<leftarrow> rd s j; Some (c \<noteq> 0) } else Some False)"

definition parse_finish :: "bytes \<Rightarrow> nat \<Rightarrow> (name_err option \<times> bytes) option" where
  "parse_finish rhn i = do {
     rhn' \<leftarrow> wr rhn i 0;
     Some (if i = 0 then Some EmptyName else None, rhn')
   }"

function parse_outer :: "bytes \<Rightarrow> nat \<Rightarrow> bytes \<Rightarrow> nat \<Rightarrow> (name_err option \<times> bytes) option" where
  "parse_outer s len rhn i = do {
     r \<leftarrow> parse_inner s len rhn (name_jlim i) i;
     case r of
       Inl rhn1 \<Rightarrow> Some (Some ElementTooLong, rhn1)
     | Inr (j, rhn1) \<Rightarrow>
         if j \<le> i
         then do {
           more \<leftarrow> more_chars s len j;
           if more then Some (Some EmptyElement, rhn1) else parse_finish rhn1 i
         }
         else do {
           rhn2 \<leftarrow> wr rhn1 i (of_nat (j - i));
           more \<leftarrow> more_chars s len j;
           if more then parse_outer s len rhn2 (j + 1) else parse_finish rhn2 (j + 1)
         }
   }"
  by pat_completeness auto
termination
  by (relation "measure (\<lambda>(s, len, rhn, i). len - i)")
    (auto dest!: parse_inner_ge simp: more_chars_def split: if_splits)

declare parse_outer.simps [simp del]

definition parsestr2rhn :: "bytes \<Rightarrow> nat \<Rightarrow> bytes \<Rightarrow> (name_err option \<times> bytes) option" where
  "parsestr2rhn s len rhn = do {
     root \<leftarrow> (if 0 < len then do {
                 c0 \<leftarrow> rd s 0;
                 if c0 = dot
                 then (if len = 1 then Some True else do { c1 \<leftarrow> rd s 1; Some (c1 = 0) })
                 else Some False }
              else Some False);
     if root then do { rhn' \<leftarrow> wr rhn 0 0; Some (None, rhn') }
     else parse_outer s len rhn 0
   }"

subsection \<open>From transport format to dotted notation\<close>

text \<open>The three octal digits that \<open>snprintf\<close> prints for the format \<open>\%03o\<close>.\<close>

definition octal3 :: "byte \<Rightarrow> bytes" where
  "octal3 c = [92, 48 + drop_bit 6 c, 48 + (drop_bit 3 c AND 7), 48 + (c AND 7)]"

definition backslash :: byte where
  "backslash = 92"

definition special_char :: "byte \<Rightarrow> bool" where
  "special_char c \<longleftrightarrow> c = dot \<or> c = backslash \<or> c = 34"

text \<open>
  One character; \<open>Inl (j, str)\<close>: jump to the label \<open>overflow\<close>. \<open>snprintf\<close> with room for
  \<open>rem\<close> bytes writes at most \<open>rem - 1\<close> characters and a zero.
\<close>

definition rhn2str_char ::
    "byte \<Rightarrow> nat \<Rightarrow> nat \<Rightarrow> bytes \<Rightarrow> (bytes + nat \<times> bytes) option" where
  "rhn2str_char c sz j out =
     (if isgraph c then
        (if special_char c then do {
           out1 \<leftarrow> wr out j backslash;
           if sz \<le> j + 1 + 2 then Some (Inl out1)
           else do { out2 \<leftarrow> wr out1 (j + 1) c; Some (Inr (j + 2, out2)) }
         }
         else do { out1 \<leftarrow> wr out j c; Some (Inr (j + 1, out1)) })
      else do {
        let rem = sz - 1 - j;
        out1 \<leftarrow> wr_all out j (take (rem - 1) (octal3 c) @ [0]);
        if rem \<le> 4 then do { out2 \<leftarrow> wr out1 j dot; Some (Inl out2) }
        else Some (Inr (j + 4, out1))
      })"

fun rhn2str_label ::
    "bytes \<Rightarrow> nat \<Rightarrow> nat \<Rightarrow> nat \<Rightarrow> nat \<Rightarrow> bytes \<Rightarrow> (bytes + nat \<times> nat \<times> bytes) option" where
  "rhn2str_label rhn sz 0 i j out = Some (Inr (i, j, out))"
| "rhn2str_label rhn sz (Suc lb) i j out =
     (if sz \<le> j + 2 then Some (Inl out)
      else do {
        c \<leftarrow> rd rhn i;
        r \<leftarrow> rhn2str_char c sz j out;
        case r of
          Inl out1 \<Rightarrow> Some (Inl out1)
        | Inr (j1, out1) \<Rightarrow> rhn2str_label rhn sz lb (i + 1) j1 out1
      })"

lemma rhn2str_label_index:
  "rhn2str_label rhn sz lb i j out = Some (Inr (i', j', out')) \<Longrightarrow> i' = i + lb"
  by (induction rhn sz lb i j out rule: rhn2str_label.induct)
    (auto split: bind_splits if_splits sum.splits)

text \<open>The code after the label \<open>overflow\<close>: trailing dots.\<close>

definition rhn2str_overflow :: "nat \<Rightarrow> bytes \<Rightarrow> bytes option" where
  "rhn2str_overflow sz out = do {
     o0 \<leftarrow> wr out (sz - 1) 0;
     if sz - 1 > 0 then do {
       o1 \<leftarrow> wr o0 (sz - 2) dot;
       if sz - 2 > 0 then do {
         o2 \<leftarrow> wr o1 (sz - 3) dot;
         if sz - 3 > 0 then wr o2 (sz - 4) dot else Some o2
       } else Some o1
     } else Some o0
   }"

function rhn2str_loop :: "bytes \<Rightarrow> nat \<Rightarrow> byte \<Rightarrow> nat \<Rightarrow> nat \<Rightarrow> bytes \<Rightarrow> bytes option" where
  "rhn2str_loop rhn sz lb i j out = do {
     r \<leftarrow> rhn2str_label rhn sz (unat lb) i j out;
     case r of
       Inl out1 \<Rightarrow> rhn2str_overflow sz out1
     | Inr (i1, j1, out1) \<Rightarrow> do {
         out2 \<leftarrow> wr out1 j1 dot;
         lb1 \<leftarrow> rd rhn i1;
         if lb1 = 0 then wr out2 (j1 + 1) 0
         else rhn2str_loop rhn sz lb1 (i1 + 1) (j1 + 1) out2
       }
   }"
  by pat_completeness auto
termination
  by (relation "measure (\<lambda>(rhn, sz, lb, i, j, out). length rhn - i)")
    (auto dest!: rhn2str_label_index simp: rd_Some_iff)

declare rhn2str_loop.simps [simp del]

text \<open>The outer \<open>None\<close> is a memory error, the inner one the returned \<open>NULL\<close>.\<close>

definition rhn2str :: "bytes \<Rightarrow> bytes \<Rightarrow> nat \<Rightarrow> bytes option option" where
  "rhn2str rhn out sz =
     (if sz = 0 then Some None
      else do {
        lb \<leftarrow> rd rhn 0;
        out' \<leftarrow> (if lb = 0
                 then (if 2 \<le> sz then do { o1 \<leftarrow> wr out 0 dot; wr o1 1 0 } else wr out 0 0)
                 else rhn2str_loop rhn sz lb 1 0 out);
        Some (Some out')
      })"

end
