(* ===== verification/Names_Correct.thy ===== *)
theory Names_Correct
  imports Names
begin

text \<open>
  Correctness of the name routines: on the encoding \<open>enc ls\<close> of a list of labels, followed
  by anything, they compute the obvious functions of \<open>ls\<close>.
\<close>

subsection \<open>The encoding\<close>

lemma enc_Nil [simp]: "enc [] = [0]"
  by (simp add: enc_def enc_labels_def)

lemma enc_Cons [simp]: "enc (l # ls) = of_nat (length l) # l @ enc ls"
  by (simp add: enc_def enc_labels_def enc_label_def)

lemma enc_labels_Nil [simp]: "enc_labels [] = []"
  by (simp add: enc_labels_def)

lemma enc_labels_Cons [simp]: "enc_labels (l # ls) = of_nat (length l) # l @ enc_labels ls"
  by (simp add: enc_labels_def enc_label_def)

lemma enc_labels_append [simp]: "enc_labels (xs @ ys) = enc_labels xs @ enc_labels ys"
  by (induction xs) simp_all

lemma enc_append: "enc (xs @ ys) = enc_labels xs @ enc ys"
  by (simp add: enc_def)

lemma length_enc: "length (enc ls) = length (enc_labels ls) + 1"
  by (simp add: enc_def)

lemma labels_ok_simps [simp]:
  "labels_ok []"
  "labels_ok (l # ls) \<longleftrightarrow> 0 < length l \<and> length l < 256 \<and> labels_ok ls"
  "labels_ok (xs @ ys) \<longleftrightarrow> labels_ok xs \<and> labels_ok ys"
  by (auto simp: labels_ok_def)

lemma dns_labels_simps [simp]:
  "dns_labels []"
  "dns_labels (l # ls) \<longleftrightarrow> 0 < length l \<and> length l \<le> 63 \<and> dns_labels ls"
  "dns_labels (xs @ ys) \<longleftrightarrow> dns_labels xs \<and> dns_labels ys"
  by (auto simp: dns_labels_def)

lemma dns_labels_ok: "dns_labels ls \<Longrightarrow> labels_ok ls"
  by (induction ls) simp_all

lemma dns_name_labels_ok: "dns_name ls \<Longrightarrow> labels_ok ls"
  by (simp add: dns_name_def dns_labels_ok)

lemma fold_case_simps [simp]:
  "fold_case [] = []"
  "fold_case (l # ls) = map tolower l # fold_case ls"
  "fold_case (xs @ ys) = fold_case xs @ fold_case ys"
  by (simp_all add: fold_case_def)

lemma rd_len_byte [buf_simps]: "rd (p @ x # y) (length p) = Some x"
  by (simp add: rd_def)

lemma rd_at: "length p = i \<Longrightarrow> rd (p @ x # y) i = Some x"
  by (auto simp: rd_def)

lemma of_nat_byte_inj: "of_nat m = (of_nat n :: byte) \<Longrightarrow> m < 256 \<Longrightarrow> n < 256 \<Longrightarrow> m = n"
  by (metis unat_of_nat_byte)

text \<open>A buffer offset right behind the first label, as the loops reach it.\<close>

lemma enc_shift: "p @ enc (l # ls) @ r = (p @ enc_label l) @ enc ls @ r"
  by (simp add: enc_label_def)

text \<open>Encodings are prefix-free, so the label list of a buffer is unique.\<close>

lemma enc_inj:
  "labels_ok a \<Longrightarrow> labels_ok b \<Longrightarrow> enc a @ r = enc b @ r' \<Longrightarrow> a = b \<and> r = r'"
proof (induction a arbitrary: b)
  case Nil
  then show ?case by (cases b) auto
next
  case (Cons l a)
  show ?case
  proof (cases b)
    case Nil
    with Cons.prems show ?thesis by simp
  next
    case (Cons m b')
    with Cons.prems have "of_nat (length l) = (of_nat (length m) :: byte)"
      and eq: "l @ enc a @ r = m @ enc b' @ r'" by simp_all
    with Cons.prems Cons have "length l = length m" by (auto dest: of_nat_byte_inj)
    with eq Cons.prems Cons Cons.IH [of b'] show ?thesis by simp
  qed
qed

subsection \<open>Lengths and segments\<close>

lemma rhnlen_loop_enc:
  "labels_ok ls \<Longrightarrow> rhnlen_loop (p @ enc ls @ r) (length p) = Some (length p + length (enc ls))"
proof (induction ls arbitrary: p)
  case Nil
  then show ?case by (subst rhnlen_loop.simps) (simp add: rd_len_byte)
next
  case (Cons l ls)
  from Cons.prems Cons.IH [of "p @ enc_label l"] show ?case
    by (subst rhnlen_loop.simps) (simp add: rd_len_byte enc_label_def algebra_simps)
qed

lemma rhnlen_enc [simp]: "labels_ok ls \<Longrightarrow> rhnlen (enc ls @ r) = Some (length (enc ls))"
  using rhnlen_loop_enc [of ls "[]" r] by (simp add: rhnlen_def)

lemma rhnlen_enc0 [simp]: "labels_ok ls \<Longrightarrow> rhnlen (enc ls) = Some (length (enc ls))"
  using rhnlen_enc [of ls "[]"] by simp

lemma skiprhn_enc:
  "labels_ok ls \<Longrightarrow> skiprhn (p @ enc ls @ r) (length p) = Some (length p + length (enc ls))"
proof (induction ls arbitrary: p)
  case Nil
  then show ?case by (subst skiprhn.simps) (simp add: rd_len_byte)
next
  case (Cons l ls)
  from Cons.prems Cons.IH [of "p @ enc_label l"] show ?case
    by (subst skiprhn.simps) (simp add: rd_len_byte enc_label_def algebra_simps)
qed

lemma rhnsegcnt_loop_enc:
  "labels_ok ls \<Longrightarrow> rhnsegcnt_loop (p @ enc ls @ r) (length p) n = Some (n + length ls)"
proof (induction ls arbitrary: p n)
  case Nil
  then show ?case by (subst rhnsegcnt_loop.simps) (simp add: rd_len_byte)
next
  case (Cons l ls)
  from Cons.prems Cons.IH [of "p @ enc_label l" "n + 1"] show ?case
    by (subst rhnsegcnt_loop.simps) (simp add: rd_len_byte enc_label_def algebra_simps)
qed

lemma rhnsegcnt_enc [simp]: "labels_ok ls \<Longrightarrow> rhnsegcnt (enc ls @ r) = Some (length ls)"
  using rhnsegcnt_loop_enc [of ls "[]" r 0] by (simp add: rhnsegcnt_def)

lemma rhnsegcnt_enc0 [simp]: "labels_ok ls \<Longrightarrow> rhnsegcnt (enc ls) = Some (length ls)"
  using rhnsegcnt_enc [of ls "[]"] by simp

lemma skipsegs_enc_gen:
  "labels_ok ls \<Longrightarrow>
   skipsegs (p @ enc ls @ r) (length p) k = Some (length p + length (enc_labels (take k ls)))"
proof (induction k arbitrary: p ls)
  case 0
  then show ?case by simp
next
  case (Suc k)
  show ?case
  proof (cases ls)
    case Nil
    then show ?thesis by (simp add: rd_len_byte)
  next
    case (Cons l ls')
    with Suc.prems Suc.IH [of ls' "p @ enc_label l"] show ?thesis
      by (simp add: rd_len_byte enc_label_def algebra_simps)
  qed
qed

lemma skipsegs_enc:
  "labels_ok ls \<Longrightarrow> skipsegs (enc ls @ r) 0 k = Some (length (enc_labels (take k ls)))"
  using skipsegs_enc_gen [of ls "[]" r k] by simp

lemma drop_enc_labels:
  "drop (length (enc_labels (take k ls))) (enc ls @ r) = enc (drop k ls) @ r"
proof -
  have "enc ls = enc_labels (take k ls) @ enc (drop k ls)"
    by (simp flip: enc_append)
  then show ?thesis by simp
qed

subsection \<open>Comparison\<close>

lemma rhnicmp_chars_eq:
  assumes "length x = n" and "length y = n" and "length p = i" and "length q = i"
  shows "rhnicmp_chars (p @ x @ r) (q @ y @ s) i n =
     Some (if map tolower x = map tolower y then Some (i + n) else None)"
  using assms
proof (induction n arbitrary: i p q x y)
  case 0
  then show ?case by simp
next
  case (Suc n)
  then obtain a x' b y' where xy: "x = a # x'" "y = b # y'" "length x' = n" "length y' = n"
    by (metis length_Suc_conv)
  from Suc.IH [OF xy(3,4), of "p @ [a]" "i + 1" "q @ [b]"] Suc.prems(3,4) show ?case
    by (auto simp: xy(1,2) rd_at)
qed

lemma rd_enc_head:
  "length q = i \<Longrightarrow> rd (q @ enc b @ s) i = Some (hd (enc b))"
  by (cases b) (simp_all add: rd_at)

lemma hd_enc_0: "labels_ok b \<Longrightarrow> (hd (enc b) = 0) = (b = [])"
  by (cases b) auto

lemma rhnicmp_loop_enc:
  assumes "length p = i" and "length q = i" and "labels_ok a" and "labels_ok b"
  shows "rhnicmp_loop (p @ enc a @ r) (q @ enc b @ s) i = Some (fold_case a = fold_case b)"
  using assms
proof (induction a arbitrary: p q b i)
  case Nil
  then show ?case
    using hd_enc_0 [of b]
    by (subst rhnicmp_loop.simps) (auto simp: rd_at rd_enc_head fold_case_def simp del: enc_Cons)
next
  case (Cons l a)
  note hds = rd_enc_head [OF Cons.prems(1), of "l # a" r] rd_enc_head [OF Cons.prems(2), of b s]
  show ?case
  proof (cases b)
    case Nil
    with Cons.prems hds show ?thesis by (subst rhnicmp_loop.simps) simp
  next
    case b: (Cons m b')
    show ?thesis
    proof (cases "length l = length m")
      case False
      then have "of_nat (length l) \<noteq> (of_nat (length m) :: byte)"
        using Cons.prems b by (auto dest: of_nat_byte_inj)
      moreover have "map tolower l \<noteq> map tolower m" using False by (metis length_map)
      ultimately show ?thesis
        using hds b by (subst rhnicmp_loop.simps) simp
    next
      case True
      have chars: "rhnicmp_chars (p @ enc (l # a) @ r) (q @ enc b @ s) (i + 1) (length l) =
          Some (if map tolower l = map tolower m then Some (i + 1 + length l) else None)"
        using rhnicmp_chars_eq [OF refl True [symmetric], of "p @ [of_nat (length l)]" "i + 1"
            "q @ [of_nat (length m)]" "enc a @ r" "enc b' @ s"] Cons.prems(1,2) by (simp add: b)
      have ih: "rhnicmp_loop (p @ enc (l # a) @ r) (q @ enc b @ s) (i + 1 + length l) =
          Some (fold_case a = fold_case b')"
        using Cons.IH [of "p @ enc_label l" "i + 1 + length l" "q @ enc_label m" b']
          Cons.prems True b by (simp add: enc_label_def)
      have len: "hd (enc (l # a)) = of_nat (length l)" "hd (enc b) = of_nat (length l)"
        "unat (of_nat (length l) :: byte) = length l" "of_nat (length l) \<noteq> (0 :: byte)"
        using Cons.prems(3) b True by simp_all
      have "fold_case (l # a) = fold_case b \<longleftrightarrow>
          map tolower l = map tolower m \<and> fold_case a = fold_case b'" by (simp add: b)
      then show ?thesis
        by (subst rhnicmp_loop.simps,
            simp only: hds len chars ih bind.bind_lunit simp_thms if_True if_False
              option.case split: if_split, simp)
    qed
  qed
qed

lemma rhnicmp_enc [simp]:
  "labels_ok a \<Longrightarrow> labels_ok b \<Longrightarrow> rhnicmp (enc a @ r) (enc b @ s) = Some (fold_case a = fold_case b)"
  using rhnicmp_loop_enc [of "[]" 0 "[]" a b r s] by (simp add: rhnicmp_def)

lemma rhnicmp_enc0 [simp]:
  "labels_ok a \<Longrightarrow> labels_ok b \<Longrightarrow> rhnicmp (enc a) (enc b) = Some (fold_case a = fold_case b)"
  using rhnicmp_enc [of a b "[]" "[]"] by simp

subsection \<open>Recognising wire-format names\<close>

lemma isnormal_loop_sound:
  "isnormal_loop rhn m i = Some True \<Longrightarrow>
   \<exists>ls r. dns_labels ls \<and> i \<le> length rhn \<and> drop i rhn = enc ls @ r \<and> i + length (enc ls) \<le> m"
proof (induction rhn m i rule: isnormal_loop.induct)
  case (1 rhn m i)
  from "1.prems" obtain lb where im: "i < m" and lb: "rd rhn i = Some lb"
    and rest: "lb = 0 \<or> lb \<noteq> 0 \<and> \<not> 0x3f < lb \<and> isnormal_loop rhn m (i + 1 + unat lb) = Some True"
    by (subst (asm) isnormal_loop.simps) (auto split: bind_splits if_splits)
  have i: "i < length rhn" "rhn ! i = lb" using lb by (simp_all add: rd_Some_iff)
  show ?case
  proof (cases "lb = 0")
    case True
    then have "drop i rhn = enc [] @ drop (Suc i) rhn" using i Cons_nth_drop_Suc [of i rhn] by simp
    moreover have "i + length (enc []) \<le> m" using im by simp
    ultimately show ?thesis using i(1) by (intro exI [of _ "[]"] exI [of _ "drop (Suc i) rhn"]) auto
  next
    case False
    with rest have *: "\<not> 0x3f < lb" "isnormal_loop rhn m (i + 1 + unat lb) = Some True" by auto
    obtain ls r where ls: "dns_labels ls" "i + 1 + unat lb \<le> length rhn"
      "drop (i + 1 + unat lb) rhn = enc ls @ r" "i + 1 + unat lb + length (enc ls) \<le> m"
      using "1.IH" im lb False * by auto
    define l where "l = take (unat lb) (drop (i + 1) rhn)"
    have len: "length l = unat lb" using ls(2) by (simp add: l_def)
    have "unat lb \<le> 63" using *(1) by (simp add: word_less_nat_alt)
    moreover have "0 < unat lb" using False by (simp add: unat_pos_iff)
    moreover have "drop i rhn = enc (l # ls) @ r"
    proof -
      have "drop i rhn = lb # l @ drop (i + 1 + unat lb) rhn"
        using i by (simp add: Cons_nth_drop_Suc [symmetric] l_def)
          (metis add.commute append_take_drop_id drop_drop add_Suc)
      then show ?thesis using ls(3) len by simp
    qed
    ultimately show ?thesis using ls len i(1)
      by (intro exI [of _ "l # ls"] exI [of _ r]) simp
  qed
qed

lemma isnormal_loop_complete:
  "dns_labels ls \<Longrightarrow> length p = i \<Longrightarrow> i + length (enc ls) \<le> m \<Longrightarrow>
   isnormal_loop (p @ enc ls @ r) m i = Some True"
proof (induction ls arbitrary: p i)
  case Nil
  then show ?case by (subst isnormal_loop.simps) (simp add: rd_at)
next
  case (Cons l ls)
  have "\<not> 0x3f < (of_nat (length l) :: byte)"
    using Cons.prems by (simp add: word_less_nat_alt)
  with Cons.prems Cons.IH [of "p @ enc_label l" "i + 1 + length l"] show ?case
    by (subst isnormal_loop.simps) (simp add: rd_at enc_label_def)
qed

lemma isnormal_loop_total: "m \<le> length rhn \<Longrightarrow> isnormal_loop rhn m i \<noteq> None"
proof (induction rhn m i rule: isnormal_loop.induct)
  case (1 rhn m i)
  then show ?case
    by (subst isnormal_loop.simps) (auto simp: rd_in)
qed

lemma isnormalencdomname_iff:
  assumes "maxlen \<le> length rhn"
  shows "isnormalencdomname rhn maxlen =
    Some (\<exists>ls r. rhn = enc ls @ r \<and> dns_name ls \<and> length (enc ls) \<le> maxlen)"
proof -
  define m where "m = (if DNSNAMEBUFSIZE < maxlen then DNSNAMEBUFSIZE else maxlen)"
  have m: "m \<le> length rhn" "\<And>n. n \<le> m \<longleftrightarrow> n \<le> DNSNAMEBUFSIZE \<and> n \<le> maxlen"
    using assms by (auto simp: m_def)
  obtain b where b: "isnormal_loop rhn m 0 = Some b"
    using isnormal_loop_total [OF m(1)] by blast
  have "b \<longleftrightarrow> (\<exists>ls r. rhn = enc ls @ r \<and> dns_name ls \<and> length (enc ls) \<le> maxlen)"
  proof
    assume b
    with b isnormal_loop_sound [of rhn m 0] show "\<exists>ls r. rhn = enc ls @ r \<and> dns_name ls \<and> length (enc ls) \<le> maxlen"
      by (auto simp: m dns_name_def)
  next
    assume "\<exists>ls r. rhn = enc ls @ r \<and> dns_name ls \<and> length (enc ls) \<le> maxlen"
    then obtain ls r where "rhn = enc ls @ r" "dns_labels ls" "length (enc ls) \<le> m"
      by (auto simp: m dns_name_def)
    with isnormal_loop_complete [of ls "[]" 0 m r] b show b by simp
  qed
  with b show ?thesis by (simp add: isnormalencdomname_def m_def)
qed

end
