(* ===== verification/Names_Text.thy ===== *)
theory Names_Text
  imports Names_Correct
begin

text \<open>
  Correctness of the conversions between dotted notation and transport format:
  \<open>str2rhn\<close> and \<open>parsestr2rhn\<close> accept exactly the dotted texts of valid names, never write
  outside a buffer of \<open>DNSNAMEBUFSIZE\<close> bytes, and leave the encoding in it; \<open>rhn2str\<close> stays
  inside its buffer and inverts \<open>str2rhn\<close> on names of plain characters.
\<close>

subsection \<open>Dotted texts\<close>

definition text_char :: "byte \<Rightarrow> bool" where
  "text_char c \<longleftrightarrow> c \<noteq> 0 \<and> c \<noteq> dot"

definition text_labels :: "bytes list \<Rightarrow> bool" where
  "text_labels ls \<longleftrightarrow> (\<forall>l \<in> set ls. \<forall>c \<in> set l. text_char c)"

definition dotted :: "bytes list \<Rightarrow> bytes" where
  "dotted ls = concat (map (\<lambda>l. l @ [dot]) ls)"

text \<open>The text of a name; the root domain is a single dot.\<close>

definition name_text :: "bytes list \<Rightarrow> bytes" where
  "name_text ls = (if ls = [] then [dot] else dotted ls)"

lemma dotted_simps [simp]:
  "dotted [] = []"
  "dotted (l # ls) = l @ dot # dotted ls"
  by (simp_all add: dotted_def)

lemma text_labels_simps [simp]:
  "text_labels []"
  "text_labels (l # ls) \<longleftrightarrow> (\<forall>c \<in> set l. text_char c) \<and> text_labels ls"
  by (simp_all add: text_labels_def)

lemma dot_neq_0 [simp]: "dot \<noteq> 0" "0 \<noteq> dot"
  by (simp_all add: dot_def)

lemma not_text_char [simp]: "\<not> text_char 0" "\<not> text_char dot"
  by (simp_all add: text_char_def)

text \<open>A text that goes on from offset \<open>i\<close> of a name buffer: the labels still to come.\<close>

definition continues :: "nat \<Rightarrow> bytes \<Rightarrow> bytes list \<Rightarrow> bool" where
  "continues i cs ls \<longleftrightarrow> dns_labels ls \<and> text_labels ls \<and> cs = dotted ls
     \<and> i + length (enc ls) \<le> DNSNAMEBUFSIZE"

lemma continues_Nil [simp]: "continues i cs [] \<longleftrightarrow> cs = [] \<and> i < DNSNAMEBUFSIZE"
  by (auto simp: continues_def)

lemma continues_Cons:
  "continues i cs (l # ls) \<longleftrightarrow> 0 < length l \<and> length l \<le> 63 \<and> (\<forall>c \<in> set l. text_char c) \<and>
     (\<exists>cs'. cs = l @ dot # cs' \<and> continues (i + 1 + length l) cs' ls)"
  by (auto simp: continues_def)

lemma continues_empty [simp]: "continues i [] ls \<longleftrightarrow> ls = [] \<and> i < DNSNAMEBUFSIZE"
  by (cases ls) (auto simp: continues_Cons)

lemma not_continues_dot [simp]: "\<not> continues i (dot # cs) ls"
  by (cases ls) (auto simp: continues_Cons neq_Nil_conv Cons_eq_append_conv)

text \<open>Splitting off the run of text characters of the next label is unambiguous.\<close>

lemma run_unique:
  assumes "\<forall>c \<in> set l. text_char c" and "\<forall>c \<in> set m. text_char c"
    and "l @ a # x = m @ b # y" and "\<not> text_char a" and "\<not> text_char b"
  shows "l = m \<and> a = b \<and> x = y"
  using assms
proof (induction l arbitrary: m)
  case Nil
  then show ?case by (cases m) auto
next
  case (Cons c l)
  then show ?case by (cases m) auto
qed

lemma run_end:
  assumes "\<forall>c \<in> set l. text_char c" and "l = m @ dot # y"
  shows False
  using assms by simp

lemma run_split:
  obtains l rest where "cs = l @ rest" "\<forall>c \<in> set l. text_char c"
    "rest = [] \<or> (\<exists>c rest'. rest = c # rest' \<and> \<not> text_char c)"
proof
  show "cs = takeWhile text_char cs @ dropWhile text_char cs" by simp
  show "\<forall>c \<in> set (takeWhile text_char cs). text_char c" by (auto dest: set_takeWhileD)
  show "dropWhile text_char cs = [] \<or> (\<exists>c rest'. dropWhile text_char cs = c # rest' \<and> \<not> text_char c)"
    by (metis hd_dropWhile list.collapse)
qed

subsection \<open>str2rhn\<close>

text \<open>What the inner loop leaves: the run of characters one byte further on.\<close>

definition put_run :: "bytes \<Rightarrow> nat \<Rightarrow> bytes \<Rightarrow> bytes" where
  "put_run rhn i l = take (i + 1) rhn @ l @ drop (i + 1 + length l) rhn"

lemma put_run_length [simp]: "i + length l < length rhn \<Longrightarrow> length (put_run rhn i l) = length rhn"
  by (simp add: put_run_def)

lemma put_run_Nil [simp]: "put_run rhn i [] = rhn"
  by (simp add: put_run_def)

lemma put_run_Cons:
  "Suc i < length rhn \<Longrightarrow> put_run (rhn[Suc i := c]) (Suc i) l = put_run rhn i (c # l)"
  by (simp add: put_run_def take_Suc_conv_app_nth)

lemma put_run_update:
  assumes "i + length l < length rhn"
  shows "(put_run rhn i l)[i := v] = take i rhn @ v # l @ drop (i + 1 + length l) rhn"
proof -
  have "put_run rhn i l = take i rhn @ rhn ! i # l @ drop (i + 1 + length l) rhn"
    using assms by (simp add: put_run_def take_Suc_conv_app_nth)
  with assms show ?thesis by (simp add: list_update_append)
qed

lemma take_put_run:
  "i + length l < length rhn \<Longrightarrow>
   take (i + 1 + length l) ((put_run rhn i l)[i := v]) = take i rhn @ v # l"
  by (simp add: put_run_update)

lemma str2rhn_inner_ok:
  assumes "length p = i" and "\<forall>c \<in> set l. text_char c" and "\<not> text_char e"
    and "l = [] \<or> i + length l \<le> jlim" and "i + length l < length rhn"
  shows "str2rhn_inner (p @ l @ e # r) rhn jlim i = Some (Inr (i + length l, put_run rhn i l))"
  using assms
proof (induction l arbitrary: p i rhn)
  case Nil
  then show ?case by (subst str2rhn_inner.simps) (auto simp: rd_at text_char_def)
next
  case (Cons c l)
  have "c \<noteq> 0" "c \<noteq> dot" using Cons.prems(2) by (auto simp: text_char_def)
  moreover have "str2rhn_inner ((p @ [c]) @ l @ e # r) (rhn[i + 1 := c]) jlim (i + 1) =
      Some (Inr (i + 1 + length l, put_run (rhn[i + 1 := c]) (i + 1) l))"
    using Cons.prems by (intro Cons.IH) auto
  ultimately show ?case
    using Cons.prems by (subst str2rhn_inner.simps) (simp add: rd_at wr_in put_run_Cons)
qed

lemma str2rhn_inner_long:
  assumes "length p = i" and "\<forall>c \<in> set l. text_char c" and "l \<noteq> []"
    and "jlim < i + length l" and "jlim < length rhn"
  shows "\<exists>rhn'. str2rhn_inner (p @ l @ r) rhn jlim i = Some (Inl rhn') \<and> length rhn' = length rhn"
  using assms
proof (induction l arbitrary: p i rhn)
  case Nil
  then show ?case by simp
next
  case (Cons c l)
  have c: "c \<noteq> 0" "c \<noteq> dot" using Cons.prems(2) by (auto simp: text_char_def)
  show ?case
  proof (cases "jlim \<le> i")
    case True
    with c Cons.prems show ?thesis by (subst str2rhn_inner.simps) (simp add: rd_at)
  next
    case False
    with Cons.prems have "l \<noteq> []" by auto
    with Cons.prems False Cons.IH [of "p @ [c]" "i + 1" "rhn[i + 1 := c]"] c show ?thesis
      by (subst str2rhn_inner.simps) (simp add: rd_at wr_in)
  qed
qed

text \<open>
  The outer loop, from any offset: it never fails, it accepts exactly if the rest of the
  text is the text of labels that fit, and then it has appended their encoding.
\<close>

definition outcome :: "nat \<Rightarrow> bytes \<Rightarrow> bytes \<Rightarrow> bool \<times> bytes \<Rightarrow> bool" where
  "outcome i cs rhn = (\<lambda>(ok, rhn'). length rhn' = length rhn \<and>
     (if ok then \<exists>ls. continues i cs ls \<and> (i = 0 \<longrightarrow> ls \<noteq> []) \<and>
                   take (i + length (enc ls)) rhn' = take i rhn @ enc ls
      else \<not> (\<exists>ls. continues i cs ls \<and> (i = 0 \<longrightarrow> ls \<noteq> []))))"

lemma name_jlim_bounds: "name_jlim i \<le> i + 63" "name_jlim i \<le> 254" "name_jlim i = i + 63 \<or> name_jlim i = 254"
  by (auto simp: name_jlim_def DNSNAMEBUFSIZE_def)

lemma continues_run:
  assumes "continues i (l @ rest) ls" and "\<forall>c \<in> set l. text_char c"
    and "rest = [] \<or> (\<exists>c rest'. rest = c # rest' \<and> \<not> text_char c)"
  shows "ls = [] \<and> l = [] \<and> rest = [] \<or>
    (\<exists>ls' cs'. ls = l # ls' \<and> l \<noteq> [] \<and> length l \<le> 63 \<and> i + length l \<le> 254 \<and> rest = dot # cs' \<and>
      continues (i + 1 + length l) cs' ls')"
proof (cases ls)
  case Nil
  with assms show ?thesis by simp
next
  case (Cons m ls')
  with assms(1) obtain cs' where m: "0 < length m" "length m \<le> 63" "\<forall>c \<in> set m. text_char c"
      "l @ rest = m @ dot # cs'" "continues (i + 1 + length m) cs' ls'"
    by (auto simp: continues_Cons)
  from assms(3) obtain c rest' where rest: "rest = c # rest'" "\<not> text_char c"
    using m(3,4) assms(2) by (metis append_Nil2 run_end)
  with m(3,4) assms(2) have "l = m \<and> c = dot \<and> rest' = cs'"
    by (intro run_unique) auto
  moreover have "i + 1 + length m + 1 \<le> 256"
    using m(5) by (auto simp: continues_def DNSNAMEBUFSIZE_def length_enc)
  ultimately show ?thesis using m rest Cons by auto
qed

lemma str2rhn_outer_outcome:
  assumes "s = p @ cs @ 0 # r" and "length p = i" and "0 \<notin> set cs"
    and "length rhn = DNSNAMEBUFSIZE" and "i < DNSNAMEBUFSIZE"
  shows "returns (str2rhn_outer s rhn i) (outcome i cs rhn)"
  using assms
proof (induction "length cs" arbitrary: p cs i rhn rule: less_induct)
  case less
  obtain l rest where l: "cs = l @ rest" "\<forall>c \<in> set l. text_char c"
      and end': "rest = [] \<or> (\<exists>c rest'. rest = c # rest' \<and> \<not> text_char c)"
    by (rule run_split)
  note run = continues_run [OF _ l(2) end', of i]
  have len: "length rhn = 256" "i < 256" using less.prems by (simp_all add: DNSNAMEBUFSIZE_def)
  show ?case
  proof (cases "l \<noteq> [] \<and> name_jlim i < i + length l")
    case True
    have "name_jlim i < length rhn" using name_jlim_bounds(2) [of i] len by simp
    then obtain rhn' where r: "str2rhn_inner s rhn (name_jlim i) i = Some (Inl rhn')" "length rhn' = length rhn"
      using str2rhn_inner_long [of p i l "name_jlim i" rhn "rest @ 0 # r"] less.prems l True by auto
    have "\<not> continues i cs ls" for ls
      using run [of ls] True name_jlim_bounds(3) [of i] l(1) by auto
    with r show ?thesis by (subst str2rhn_outer.simps) (simp add: outcome_def)
  next
    case False
    then have fit: "i + length l < length rhn" "l = [] \<or> i + length l \<le> name_jlim i"
      using name_jlim_bounds(2) [of i] len by auto
    show ?thesis
    proof (cases rest)
      case Nil
      have inner: "str2rhn_inner s rhn (name_jlim i) i = Some (Inr (i + length l, put_run rhn i l))"
        using str2rhn_inner_ok [of p i l 0 "name_jlim i" rhn r] less.prems l fit Nil by simp
      have c: "rd s (i + length l) = Some 0"
        using less.prems l Nil rd_at [of "p @ l" "i + length l" 0 r] by simp
      have w: "wr (put_run rhn i l) i 0 = Some ((put_run rhn i l)[i := 0])"
        using fit by (simp add: wr_in)
      have cont: "continues i cs ls \<longleftrightarrow> ls = [] \<and> l = []" for ls
        using run [of ls] l(1) Nil less.prems(5) by auto
      have "outcome i cs rhn (\<not> (i < i + length l \<or> i = 0), (put_run rhn i l)[i := 0])"
        using cont take_put_run [of i "[]" rhn 0] fit len
        by (cases "i = 0"; cases "l = []") (simp_all add: outcome_def)
      with inner c w show ?thesis by (subst str2rhn_outer.simps) simp
    next
      case (Cons e cs')
      with end' less.prems(3) l(1) have e: "e = dot" by (auto simp: text_char_def)
      have inner: "str2rhn_inner s rhn (name_jlim i) i = Some (Inr (i + length l, put_run rhn i l))"
        using str2rhn_inner_ok [of p i l dot "name_jlim i" rhn "cs' @ 0 # r"] less.prems l fit Cons e by simp
      have c: "rd s (i + length l) = Some dot"
        using less.prems l Cons e rd_at [of "p @ l" "i + length l" dot "cs' @ 0 # r"] by simp
      show ?thesis
      proof (cases "l = []")
        case True
        have "\<not> continues i cs ls" for ls using run [of ls] l(1) True Cons by auto
        with inner c True show ?thesis by (subst str2rhn_outer.simps) (simp add: outcome_def)
      next
        case nonempty: False
        then have bound: "i + length l \<le> 254" "length l \<le> 63"
          using fit name_jlim_bounds [of i] by auto
        let ?v = "of_nat (length l) :: byte"
        let ?rhn2 = "(put_run rhn i l)[i := ?v]"
        have w: "wr (put_run rhn i l) i ?v = Some ?rhn2" using fit by (simp add: wr_in)
        have ih: "returns (str2rhn_outer s ?rhn2 (i + length l + 1)) (outcome (i + length l + 1) cs' ?rhn2)"
          using less.prems l(1) Cons e bound fit(1)
          by (intro less.hyps [of cs' "p @ l @ [dot]"]) (auto simp: DNSNAMEBUFSIZE_def)
        have tk: "take (i + length l + 1) ?rhn2 = take i rhn @ ?v # l"
          using take_put_run [OF fit(1), of ?v] by (simp add: add.commute add.left_commute)
        have cont: "continues i cs ls \<longleftrightarrow> (\<exists>ls'. ls = l # ls' \<and> continues (i + length l + 1) cs' ls')" for ls
          using run [of ls] l Cons e nonempty bound
          by (auto simp: continues_Cons add.commute add.left_commute)
        have "outcome (i + length l + 1) cs' ?rhn2 x \<Longrightarrow> outcome i cs rhn x" for x
          using fit(1) tk by (cases x) (fastforce simp: outcome_def cont add.assoc)
        with ih have "returns (str2rhn_outer s ?rhn2 (i + length l + 1)) (outcome i cs rhn)"
          by (rule returns_mono)
        with inner c w nonempty show ?thesis by (subst str2rhn_outer.simps) simp
      qed
    qed
  qed
qed

text \<open>The names a text denotes, for a text that fits the name buffer.\<close>

definition denotes :: "bytes \<Rightarrow> bytes list \<Rightarrow> bool" where
  "denotes cs ls \<longleftrightarrow> dns_name ls \<and> text_labels ls \<and> cs = name_text ls"

lemma denotes_continues: "cs \<noteq> [dot] \<Longrightarrow> denotes cs ls \<longleftrightarrow> continues 0 cs ls \<and> ls \<noteq> []"
  by (auto simp: denotes_def continues_def dns_name_def name_text_def)

lemma denotes_root: "denotes [dot] ls \<longleftrightarrow> ls = []"
proof
  assume d: "denotes [dot] ls"
  show "ls = []"
  proof (cases ls)
    case (Cons l ls')
    with d show ?thesis
      by (cases l) (auto simp: denotes_def dns_name_def name_text_def)
  qed simp
next
  assume "ls = []"
  then show "denotes [dot] ls"
    by (simp add: denotes_def dns_name_def name_text_def DNSNAMEBUFSIZE_def)
qed

lemma dotted_inj:
  "dns_labels a \<Longrightarrow> dns_labels b \<Longrightarrow> text_labels a \<Longrightarrow> text_labels b \<Longrightarrow> dotted a = dotted b \<Longrightarrow> a = b"
proof (induction a arbitrary: b)
  case Nil
  then show ?case by (cases b) auto
next
  case (Cons l a)
  show ?case
  proof (cases b)
    case Nil
    with Cons.prems show ?thesis by simp
  next
    case (Cons m b')
    with Cons.prems have "l = m \<and> dot = dot \<and> dotted a = dotted b'"
      by (intro run_unique) auto
    with Cons Cons.prems Cons.IH [of b'] show ?thesis by simp
  qed
qed

lemma denotes_unique: "denotes cs a \<Longrightarrow> denotes cs b \<Longrightarrow> a = b"
proof (cases "cs = [dot]")
  case False
  assume "denotes cs a" "denotes cs b"
  with False show "a = b"
    by (auto simp: denotes_def name_text_def dns_name_def intro: dotted_inj split: if_splits)
qed (simp add: denotes_root)

lemma str2rhn_returns:
  assumes "0 \<notin> set cs" and "length rhn = DNSNAMEBUFSIZE"
  shows "returns (str2rhn (cs @ 0 # r) rhn) (\<lambda>(ok, rhn'). length rhn' = DNSNAMEBUFSIZE \<and>
    (if ok then \<exists>ls. denotes cs ls \<and> take (length (enc ls)) rhn' = enc ls
     else \<not> (\<exists>ls. denotes cs ls)))"
proof (cases "cs = [dot]")
  case True
  have "wr rhn 0 0 = Some (rhn[0 := 0])" "take (Suc 0) (rhn[0 := 0]) = [0]"
    using assms(2) by (auto simp: wr_in DNSNAMEBUFSIZE_def take_Suc_conv_app_nth)
  with True assms(2) show ?thesis
    by (simp add: str2rhn_def denotes_root rd_def)
next
  case False
  have "str2rhn (cs @ 0 # r) rhn = str2rhn_outer (cs @ 0 # r) rhn 0"
  proof (cases cs)
    case Nil
    then show ?thesis by (simp add: str2rhn_def)
  next
    case (Cons c cs')
    show ?thesis
    proof (cases cs')
      case Nil
      with Cons False show ?thesis by (simp add: str2rhn_def)
    next
      case (Cons c' cs'')
      with \<open>cs = c # cs'\<close> assms(1) show ?thesis by (auto simp: str2rhn_def)
    qed
  qed
  moreover have "returns (str2rhn_outer (cs @ 0 # r) rhn 0) (outcome 0 cs rhn)"
    using assms by (intro str2rhn_outer_outcome [of _ "[]"]) (auto simp: DNSNAMEBUFSIZE_def)
  ultimately show ?thesis
    using assms(2) False
    by (auto elim!: returns_mono simp: outcome_def denotes_continues split: if_splits)
qed

subsection \<open>parsestr2rhn\<close>

text \<open>
  The text of \<open>parsestr2rhn\<close> ends at the length given or at a zero, whichever comes first:
  the characters \<open>cs\<close> from offset \<open>i\<close> on.
\<close>

definition ends_at :: "bytes \<Rightarrow> nat \<Rightarrow> bytes \<Rightarrow> nat \<Rightarrow> bytes \<Rightarrow> bool" where
  "ends_at s len cs i p \<longleftrightarrow> (\<exists>r. s = p @ cs @ r \<and> length p = i \<and> 0 \<notin> set cs \<and>
     (i + length cs = len \<or> i + length cs < len \<and> (\<exists>r'. r = 0 # r')))"

lemma ends_at_step:
  "ends_at s len (l @ cs) i p \<Longrightarrow> ends_at s len cs (i + length l) (p @ l)"
  by (auto simp: ends_at_def)

lemma ends_at_more: "ends_at s len cs i p \<Longrightarrow> more_chars s len i = Some (cs \<noteq> [])"
  by (cases cs) (auto simp: ends_at_def more_chars_def rd_at)

lemma parse_inner_stop:
  "ends_at s len cs i p \<Longrightarrow> cs = [] \<or> (\<exists>c cs'. cs = c # cs' \<and> \<not> text_char c) \<Longrightarrow>
   parse_inner s len rhn jlim i = Some (Inr (i, rhn))"
  by (subst parse_inner.simps) (auto simp: ends_at_def rd_at text_char_def)

lemma parse_inner_step:
  assumes "ends_at s len (c # cs) i p" and "text_char c"
  shows "parse_inner s len rhn jlim i =
    (if jlim \<le> i then Some (Inl rhn)
     else do { rhn' \<leftarrow> wr rhn (i + 1) c; parse_inner s len rhn' jlim (i + 1) })"
proof -
  from assms(1) have "i < len" "rd s i = Some c" by (auto simp: ends_at_def rd_at)
  with assms(2) show ?thesis by (subst parse_inner.simps) (simp add: text_char_def)
qed

lemma parse_inner_ok:
  assumes "ends_at s len (l @ rest) i p" and "\<forall>c \<in> set l. text_char c"
    and "rest = [] \<or> (\<exists>c cs'. rest = c # cs' \<and> \<not> text_char c)"
    and "l = [] \<or> i + length l \<le> jlim" and "i + length l < length rhn"
  shows "parse_inner s len rhn jlim i = Some (Inr (i + length l, put_run rhn i l))"
  using assms
proof (induction l arbitrary: p i rhn)
  case Nil
  then show ?case by (simp add: parse_inner_stop)
next
  case (Cons c l)
  have "ends_at s len (l @ rest) (i + 1) (p @ [c])"
    using Cons.prems(1) ends_at_step [of s len "[c]"] by simp
  then have "parse_inner s len (rhn[i + 1 := c]) jlim (i + 1) =
      Some (Inr (i + 1 + length l, put_run (rhn[i + 1 := c]) (i + 1) l))"
    using Cons.prems by (intro Cons.IH) auto
  with Cons.prems parse_inner_step [of s len c "l @ rest" i p] show ?case
    by (simp add: wr_in put_run_Cons)
qed

lemma parse_inner_long:
  assumes "ends_at s len (l @ rest) i p" and "\<forall>c \<in> set l. text_char c" and "l \<noteq> []"
    and "jlim < i + length l" and "jlim < length rhn"
  shows "\<exists>rhn'. parse_inner s len rhn jlim i = Some (Inl rhn') \<and> length rhn' = length rhn"
  using assms
proof (induction l arbitrary: p i rhn)
  case Nil
  then show ?case by simp
next
  case (Cons c l)
  note step = parse_inner_step [of s len c "l @ rest" i p]
  show ?case
  proof (cases "jlim \<le> i")
    case True
    with step Cons.prems show ?thesis by simp
  next
    case False
    with Cons.prems have "l \<noteq> []" by auto
    moreover have "ends_at s len (l @ rest) (i + 1) (p @ [c])"
      using Cons.prems(1) ends_at_step [of s len "[c]"] by simp
    ultimately show ?thesis
      using Cons.prems False step Cons.IH [of "i + 1" "p @ [c]" "rhn[i + 1 := c]"]
      by (simp add: wr_in)
  qed
qed

text \<open>The final dot of the text may be missing.\<close>

definition parses :: "nat \<Rightarrow> bytes \<Rightarrow> bytes list \<Rightarrow> bool" where
  "parses i cs ls \<longleftrightarrow> (i = 0 \<longrightarrow> ls \<noteq> []) \<and> (continues i cs ls \<or> continues i (cs @ [dot]) ls)"

definition parse_outcome :: "nat \<Rightarrow> bytes \<Rightarrow> bytes \<Rightarrow> name_err option \<times> bytes \<Rightarrow> bool" where
  "parse_outcome i cs rhn = (\<lambda>(err, rhn'). length rhn' = length rhn \<and>
     (if err = None then \<exists>ls. parses i cs ls \<and> take (i + length (enc ls)) rhn' = take i rhn @ enc ls
      else \<not> (\<exists>ls. parses i cs ls)))"

lemma parses_run:
  assumes "\<forall>c \<in> set l. text_char c"
    and "rest = [] \<or> (\<exists>c rest'. rest = c # rest' \<and> \<not> text_char c)"
  shows "parses i (l @ rest) ls \<longleftrightarrow>
    (if l = [] then rest = [] \<and> ls = [] \<and> 0 < i \<and> i < DNSNAMEBUFSIZE
     else length l \<le> 63 \<and> i + length l \<le> 254 \<and>
       (if rest = [] then ls = [l]
        else \<exists>cs' ls'. rest = dot # cs' \<and> ls = l # ls' \<and> parses (i + 1 + length l) cs' ls'))"
    (is "?L \<longleftrightarrow> ?R")
proof
  assume ?L
  then have z: "i = 0 \<longrightarrow> ls \<noteq> []" by (simp add: parses_def)
  have d: "rest @ [dot] = [] \<or> (\<exists>c rest'. rest @ [dot] = c # rest' \<and> \<not> text_char c)"
    using assms(2) by auto
  from \<open>?L\<close> consider "continues i (l @ rest) ls" | "continues i (l @ (rest @ [dot])) ls"
    by (auto simp: parses_def)
  then show ?R
  proof cases
    case 1
    with continues_run [OF 1 assms] z show ?thesis
      by (auto simp: parses_def)
  next
    case 2
    from continues_run [OF 2 assms(1) d] consider
        "l \<noteq> []" "length l \<le> 63" "i + length l \<le> 254" "rest = []" "ls = [l]"
      | ls' cs' where "l \<noteq> []" "length l \<le> 63" "i + length l \<le> 254" "ls = l # ls'" "rest = dot # cs'"
          "continues (i + 1 + length l) (cs' @ [dot]) ls'"
      by (cases rest) auto
    then show ?thesis by cases (auto simp: parses_def)
  qed
next
  assume R: ?R
  show ?L
  proof (cases "l = []")
    case True
    with R show ?thesis by (auto simp: parses_def)
  next
    case False
    then have "0 < length l" by simp
    with R False show ?thesis using assms(1)
      by (cases "rest = []") (auto simp: parses_def continues_Cons DNSNAMEBUFSIZE_def)
  qed
qed

lemma parse_outer_outcome:
  assumes "ends_at s len cs i p" and "length rhn = DNSNAMEBUFSIZE" and "i < DNSNAMEBUFSIZE"
  shows "returns (parse_outer s len rhn i) (parse_outcome i cs rhn)"
  using assms
proof (induction "length cs" arbitrary: p cs i rhn rule: less_induct)
  case less
  obtain l rest where l: "cs = l @ rest" "\<forall>c \<in> set l. text_char c"
      and end': "rest = [] \<or> (\<exists>c rest'. rest = c # rest' \<and> \<not> text_char c)"
    by (rule run_split)
  note run = parses_run [OF l(2) end', of i, folded l(1)]
  have len: "length rhn = 256" "i < 256" using less.prems by (simp_all add: DNSNAMEBUFSIZE_def)
  have ends: "ends_at s len rest (i + length l) (p @ l)"
    using less.prems(1) l(1) ends_at_step by simp
  show ?case
  proof (cases "l \<noteq> [] \<and> name_jlim i < i + length l")
    case True
    have "name_jlim i < length rhn" using name_jlim_bounds(2) [of i] len by simp
    then obtain rhn' where r: "parse_inner s len rhn (name_jlim i) i = Some (Inl rhn')" "length rhn' = length rhn"
      using parse_inner_long [of s len l rest i p "name_jlim i" rhn] less.prems(1) l True by auto
    have "\<not> parses i cs ls" for ls
      using run [of ls] True name_jlim_bounds(3) [of i] by auto
    with r show ?thesis by (subst parse_outer.simps) (simp add: parse_outcome_def)
  next
    case False
    then have fit: "i + length l < length rhn" "l = [] \<or> i + length l \<le> name_jlim i"
      using name_jlim_bounds(2) [of i] len by auto
    have inner: "parse_inner s len rhn (name_jlim i) i = Some (Inr (i + length l, put_run rhn i l))"
      using parse_inner_ok less.prems(1) l end' fit by simp
    have more: "more_chars s len (i + length l) = Some (rest \<noteq> [])"
      by (rule ends_at_more [OF ends])
    show ?thesis
    proof (cases "l = []")
      case True
      have "parse_finish rhn i = Some (if i = 0 then Some EmptyName else None, rhn[i := 0])"
        using len by (simp add: parse_finish_def wr_in)
      moreover have "parse_outcome i cs rhn (if i = 0 then Some EmptyName else None, rhn[i := 0])" if "rest = []"
        using run True that len take_put_run [of i "[]" rhn 0]
        by (auto simp: parse_outcome_def DNSNAMEBUFSIZE_def)
      moreover have "parse_outcome i cs rhn (Some EmptyElement, rhn)" if "rest \<noteq> []"
        using run True that by (simp add: parse_outcome_def)
      ultimately show ?thesis
        using inner more True by (subst parse_outer.simps) simp
    next
      case nonempty: False
      then have bound: "i + length l \<le> 254" "length l \<le> 63"
        using fit name_jlim_bounds [of i] by auto
      let ?v = "of_nat (length l) :: byte"
      let ?rhn2 = "(put_run rhn i l)[i := ?v]"
      have w: "wr (put_run rhn i l) i ?v = Some ?rhn2" using fit by (simp add: wr_in)
      have tk: "take (i + length l + 1) ?rhn2 = take i rhn @ ?v # l"
        using take_put_run [OF fit(1), of ?v] by (simp add: add.commute add.left_commute)
      show ?thesis
      proof (cases rest)
        case Nil
        have "parse_finish ?rhn2 (i + length l + 1) = Some (None, ?rhn2[i + length l + 1 := 0])"
          using fit bound len by (simp add: parse_finish_def wr_in)
        moreover have "take (i + length l + 1 + 1) (?rhn2[i + length l + 1 := 0]) = take i rhn @ ?v # l @ [0]"
          using tk fit bound len by (simp add: take_update_append)
        ultimately show ?thesis
          using inner more w nonempty Nil run bound fit
          by (subst parse_outer.simps) (simp add: parse_outcome_def)
      next
        case (Cons e cs')
        with end' less.prems(1) l(1) have e: "e = dot" by (auto simp: text_char_def ends_at_def)
        have "ends_at s len cs' (i + length l + 1) (p @ l @ [dot])"
          using ends Cons e ends_at_step [of s len "[dot]" cs' "i + length l" "p @ l"] by simp
        then have ih: "returns (parse_outer s len ?rhn2 (i + length l + 1)) (parse_outcome (i + length l + 1) cs' ?rhn2)"
          using less.prems l(1) Cons e bound fit(1) len
          by (intro less.hyps [of cs' _ "p @ l @ [dot]"]) (auto simp: DNSNAMEBUFSIZE_def)
        have cont: "parses i cs ls \<longleftrightarrow> (\<exists>ls'. ls = l # ls' \<and> parses (i + length l + 1) cs' ls')" for ls
          using run [of ls] Cons e nonempty bound by (auto simp: add.commute add.left_commute)
        have "parse_outcome (i + length l + 1) cs' ?rhn2 x \<Longrightarrow> parse_outcome i cs rhn x" for x
          using fit(1) tk by (cases x) (fastforce simp: parse_outcome_def cont add.assoc)
        with ih have "returns (parse_outer s len ?rhn2 (i + length l + 1)) (parse_outcome i cs rhn)"
          by (rule returns_mono)
        with inner more w nonempty Cons show ?thesis by (subst parse_outer.simps) simp
      qed
    qed
  qed
qed

lemma parsestr2rhn_returns:
  assumes "ends_at s len cs 0 []" and "length rhn = DNSNAMEBUFSIZE"
  shows "returns (parsestr2rhn s len rhn) (\<lambda>(err, rhn'). length rhn' = DNSNAMEBUFSIZE \<and>
    (if err = None then \<exists>ls. (denotes cs ls \<or> denotes (cs @ [dot]) ls \<and> cs \<noteq> []) \<and>
                           take (length (enc ls)) rhn' = enc ls
     else \<not> (\<exists>ls. denotes cs ls \<or> denotes (cs @ [dot]) ls \<and> cs \<noteq> [])))"
proof (cases "cs = [dot]")
  case True
  have "wr rhn 0 0 = Some (rhn[0 := 0])" "take (Suc 0) (rhn[0 := 0]) = [0]"
    using assms(2) by (auto simp: wr_in DNSNAMEBUFSIZE_def take_Suc_conv_app_nth)
  moreover have "0 < len" "rd s 0 = Some dot" "len = 1 \<or> rd s 1 = Some 0"
    using assms(1) True by (auto simp: ends_at_def rd_def)
  ultimately show ?thesis
    using assms(2) True by (auto simp: parsestr2rhn_def denotes_root intro!: exI [of _ "[]"])
next
  case False
  have "parsestr2rhn s len rhn = parse_outer s len rhn 0"
  proof (cases cs)
    case Nil
    with assms(1) show ?thesis by (auto simp: parsestr2rhn_def ends_at_def rd_def split: bind_splits)
  next
    case (Cons c cs')
    show ?thesis
    proof (cases cs')
      case Nil
      with Cons False assms(1) show ?thesis by (auto simp: parsestr2rhn_def ends_at_def rd_def)
    next
      case (Cons c' cs'')
      with \<open>cs = c # cs'\<close> assms(1) show ?thesis by (auto simp: parsestr2rhn_def ends_at_def rd_def)
    qed
  qed
  moreover have "returns (parse_outer s len rhn 0) (parse_outcome 0 cs rhn)"
    using assms by (intro parse_outer_outcome) (auto simp: DNSNAMEBUFSIZE_def)
  moreover have "parses 0 cs ls \<longleftrightarrow> denotes cs ls \<or> denotes (cs @ [dot]) ls \<and> cs \<noteq> []" for ls
    using False denotes_continues [of cs ls] denotes_continues [of "cs @ [dot]" ls]
    by (cases "cs = []") (auto simp: parses_def denotes_def name_text_def dotted_def Cons_eq_append_conv)
  ultimately show ?thesis
    using assms(2)
    by (auto elim!: returns_mono simp: parse_outcome_def split: if_splits)
qed

subsection \<open>rhn2str\<close>

text \<open>The text \<open>rhn2str\<close> wants to write.\<close>

definition esc :: "byte \<Rightarrow> bytes" where
  "esc c = (if isgraph c then (if special_char c then [backslash, c] else [c]) else octal3 c)"

definition esc_label :: "bytes \<Rightarrow> bytes" where
  "esc_label l = concat (map esc l)"

definition esc_dotted :: "bytes list \<Rightarrow> bytes" where
  "esc_dotted ls = concat (map (\<lambda>l. esc_label l @ [dot]) ls)"

lemma esc_simps [simp]:
  "esc_label [] = []"
  "esc_label (c # l) = esc c @ esc_label l"
  "esc_dotted [] = []"
  "esc_dotted (l # ls) = esc_label l @ dot # esc_dotted ls"
  by (simp_all add: esc_label_def esc_dotted_def)

lemma esc_length: "1 \<le> length (esc c)" "length (octal3 c) = 4"
  by (simp_all add: esc_def octal3_def)

text \<open>
  \<open>grown sz j out t out'\<close>: the text \<open>t\<close> has been appended at \<open>j\<close>, and no byte at or after
  \<open>sz\<close> has changed.
\<close>

definition kept :: "nat \<Rightarrow> bytes \<Rightarrow> bytes \<Rightarrow> bool" where
  "kept sz out out' \<longleftrightarrow> length out' = length out \<and> drop sz out' = drop sz out"

definition grown :: "nat \<Rightarrow> nat \<Rightarrow> bytes \<Rightarrow> bytes \<Rightarrow> bytes \<Rightarrow> bool" where
  "grown sz j out t out' \<longleftrightarrow> kept sz out out' \<and> take (j + length t) out' = take j out @ t"

lemma kept_refl [simp]: "kept sz out out"
  by (simp add: kept_def)

lemma kept_trans: "kept sz a b \<Longrightarrow> kept sz b c \<Longrightarrow> kept sz a c"
  by (simp add: kept_def)

lemma kept_update: "kept sz out o1 \<Longrightarrow> i < sz \<Longrightarrow> kept sz out (o1[i := v])"
  by (auto simp: kept_def drop_update_cancel)

lemma grown_trans:
  "grown sz j out t o1 \<Longrightarrow> grown sz (j + length t) o1 u o2 \<Longrightarrow> grown sz j out (t @ u) o2"
  by (auto simp: grown_def add.assoc intro: kept_trans)

lemma grown_one: "j < sz \<Longrightarrow> sz \<le> length out \<Longrightarrow> grown sz j out [v] (out[j := v])"
  by (auto simp: grown_def take_update_append intro: kept_update)

lemma grown_kept: "grown sz j out t o1 \<Longrightarrow> kept sz out o1"
  by (simp add: grown_def)

lemma rhn2str_char_returns:
  assumes "j + 2 < sz" and "sz \<le> length out"
  shows "returns (rhn2str_char c sz j out) (\<lambda>r. case r of
      Inl o1 \<Rightarrow> kept sz out o1 \<and> sz \<le> j + length (esc c) + 1
    | Inr (j1, o1) \<Rightarrow> j1 = j + length (esc c) \<and> j1 + 1 < sz \<and> grown sz j out (esc c) o1)"
proof (cases "isgraph c")
  case g: True
  show ?thesis
  proof (cases "special_char c")
    case True
    have "grown sz j out ([backslash] @ [c]) (out[j := backslash, j + 1 := c])"
      using assms grown_one [of "j + 1" sz "out[j := backslash]" c]
      by (intro grown_trans [OF grown_one]) simp_all
    with g True assms show ?thesis
      by (auto simp: rhn2str_char_def esc_def wr_in intro: kept_update)
  next
    case False
    with g assms show ?thesis
      by (simp add: rhn2str_char_def esc_def wr_in grown_one)
  qed
next
  case False
  let ?rem = "sz - 1 - j"
  define t where "t = take (?rem - 1) (octal3 c) @ [0]"
  have t: "length t \<le> 5" "j + length t \<le> sz" "4 < ?rem \<Longrightarrow> t = octal3 c @ [0]"
    using assms by (auto simp: t_def octal3_def)
  define o1 where "o1 = take j out @ t @ drop (j + length t) out"
  have w: "wr_all out j t = Some o1" using t assms by (simp add: wr_all_def o1_def)
  have k: "kept sz out o1"
    using t assms by (auto simp: kept_def o1_def)
  have "take (j + 4) o1 = take j out @ octal3 c" if "4 < ?rem"
    using t(3) [OF that] assms by (simp add: o1_def octal3_def)
  moreover have "rhn2str_char c sz j out =
      (if ?rem \<le> 4 then do { o2 \<leftarrow> wr o1 j dot; Some (Inl o2) } else Some (Inr (j + 4, o1)))"
    using w False by (simp only: rhn2str_char_def Let_def t_def if_False bind.bind_lunit)
  moreover have "wr o1 j dot = Some (o1[j := dot])"
    using k assms by (simp add: wr_in kept_def)
  ultimately show ?thesis
    using k assms False by (auto simp: esc_def grown_def esc_length intro: kept_update)
qed

lemma rhn2str_label_returns:
  assumes "length p = i" and "sz \<le> length out"
  shows "returns (rhn2str_label (p @ l @ r) sz (length l) i j out) (\<lambda>r. case r of
      Inl o1 \<Rightarrow> kept sz out o1 \<and> l \<noteq> [] \<and> sz \<le> j + length (esc_label l) + 1
    | Inr (i1, j1, o1) \<Rightarrow> i1 = i + length l \<and> j1 = j + length (esc_label l) \<and>
        (l \<noteq> [] \<longrightarrow> j1 + 1 < sz) \<and> grown sz j out (esc_label l) o1)"
  using assms
proof (induction l arbitrary: p i j out)
  case Nil
  then show ?case by (simp add: grown_def)
next
  case (Cons c l)
  show ?case
  proof (cases "sz \<le> j + 2")
    case True
    then show ?thesis using esc_length(1) [of c] by simp
  next
    case False
    then have "returns (rhn2str_char c sz j out) (\<lambda>r. case r of
        Inl o1 \<Rightarrow> kept sz out o1 \<and> sz \<le> j + length (esc c) + 1
      | Inr (j1, o1) \<Rightarrow> j1 = j + length (esc c) \<and> j1 + 1 < sz \<and> grown sz j out (esc c) o1)"
      using Cons.prems(2) by (intro rhn2str_char_returns) auto
    then obtain x where x: "rhn2str_char c sz j out = Some x" "case x of
        Inl o1 \<Rightarrow> kept sz out o1 \<and> sz \<le> j + length (esc c) + 1
      | Inr (j1, o1) \<Rightarrow> j1 = j + length (esc c) \<and> j1 + 1 < sz \<and> grown sz j out (esc c) o1"
      by (rule returnsE)
    show ?thesis
    proof (cases x)
      case (Inl o1)
      with x False Cons.prems show ?thesis by (simp add: rd_at)
    next
      case (Inr y)
      then obtain o1 where y: "x = Inr (j + length (esc c), o1)" "j + length (esc c) + 1 < sz"
          "grown sz j out (esc c) o1"
        using x(2) by (cases y) auto
      then have "sz \<le> length o1" using Cons.prems(2) by (simp add: grown_def kept_def)
      note ih = Cons.IH [of "p @ [c]" "i + 1" o1 "j + length (esc c)", OF _ this]
      have "returns (rhn2str_label ((p @ [c]) @ l @ r) sz (length l) (i + 1) (j + length (esc c)) o1)
         (\<lambda>r. case r of
            Inl o2 \<Rightarrow> kept sz out o2 \<and> sz \<le> j + length (esc_label (c # l)) + 1
          | Inr (i1, j1, o2) \<Rightarrow> i1 = i + length (c # l) \<and> j1 = j + length (esc_label (c # l)) \<and>
              j1 + 1 < sz \<and> grown sz j out (esc_label (c # l)) o2)"
        using Cons.prems(1) y(2)
        by (intro returns_mono [OF ih])
          (auto split: sum.splits intro: kept_trans [OF grown_kept [OF y(3)]] grown_trans [OF y(3)])
      with x(1) y(1) False Cons.prems(1) show ?thesis
        by (auto simp: rd_at elim!: returns_mono split: sum.splits)
    qed
  qed
qed

text \<open>After an overflow the buffer ends in dots and a zero.\<close>

definition dots_end :: "nat \<Rightarrow> bytes \<Rightarrow> bool" where
  "dots_end sz out \<longleftrightarrow> out ! (sz - 1) = 0 \<and> (\<forall>k < sz - 1. sz \<le> k + 4 \<longrightarrow> out ! k = dot)"

lemma rhn2str_overflow_returns:
  assumes "kept sz out o1" and "0 < sz" and "sz \<le> length out"
  shows "returns (rhn2str_overflow sz o1) (\<lambda>o2. kept sz out o2 \<and> dots_end sz o2)"
proof -
  have len: "sz \<le> length o1" using assms by (simp add: kept_def)
  with assms(2) have ne: "o1 \<noteq> []" by auto
  consider "sz = 1" | "sz = 2" | "sz = 3" | "4 \<le> sz" using assms(2) by linarith
  then show ?thesis
    using assms len ne
    by cases (auto simp: rhn2str_overflow_def wr_in dots_end_def nth_list_update intro!: kept_update)
qed

lemma rhn2str_loop_returns:
  assumes "labels_ok (l # ls)" and "length p = i" and "sz \<le> length out" and "0 < sz"
  shows "returns (rhn2str_loop (p @ l @ enc ls @ r) sz (of_nat (length l)) i j out) (\<lambda>o1.
    kept sz out o1 \<and>
    (if j + length (esc_dotted (l # ls)) < sz
     then grown sz j out (esc_dotted (l # ls) @ [0]) o1 else dots_end sz o1))"
  using assms
proof (induction ls arbitrary: p l i j out)
  case Nil
  have "returns (rhn2str_label (p @ l @ enc [] @ r) sz (length l) i j out) (\<lambda>x. case x of
      Inl o1 \<Rightarrow> kept sz out o1 \<and> l \<noteq> [] \<and> sz \<le> j + length (esc_label l) + 1
    | Inr (i1, j1, o1) \<Rightarrow> i1 = i + length l \<and> j1 = j + length (esc_label l) \<and>
        (l \<noteq> [] \<longrightarrow> j1 + 1 < sz) \<and> grown sz j out (esc_label l) o1)"
    using Nil.prems by (intro rhn2str_label_returns) auto
  then obtain x where x: "rhn2str_label (p @ l @ enc [] @ r) sz (length l) i j out = Some x" "case x of
      Inl o1 \<Rightarrow> kept sz out o1 \<and> l \<noteq> [] \<and> sz \<le> j + length (esc_label l) + 1
    | Inr (i1, j1, o1) \<Rightarrow> i1 = i + length l \<and> j1 = j + length (esc_label l) \<and>
        (l \<noteq> [] \<longrightarrow> j1 + 1 < sz) \<and> grown sz j out (esc_label l) o1"
    by (rule returnsE)
  show ?case
  proof (cases x)
    case (Inl o1)
    then have "returns (rhn2str_overflow sz o1) (\<lambda>o2. kept sz out o2 \<and> dots_end sz o2)"
      using x(2) Nil.prems by (intro rhn2str_overflow_returns) auto
    with Inl x Nil.prems(1) show ?thesis by (subst rhn2str_loop.simps) (auto elim!: returns_mono)
  next
    case (Inr y)
    then obtain o1 where y: "x = Inr (i + length l, j + length (esc_label l), o1)"
        "j + length (esc_label l) + 1 < sz" "grown sz j out (esc_label l) o1"
      using x(2) Nil.prems(1) by (cases y) auto
    have len: "sz \<le> length o1" using y(3) Nil.prems(3) by (simp add: grown_def kept_def)
    let ?j = "j + length (esc_label l)"
    have "grown sz j out (esc_label l @ [dot]) (o1[?j := dot])"
      using y len by (intro grown_trans [OF y(3)] grown_one) auto
    then have "grown sz j out ((esc_label l @ [dot]) @ [0]) (o1[?j := dot, ?j + 1 := 0])"
      using y len by (intro grown_trans) (auto intro!: grown_one)
    moreover have "rd (p @ l @ enc [] @ r) (i + length l) = Some 0"
      using Nil.prems(2) rd_at [of "p @ l"] by simp
    ultimately show ?thesis
      using x(1) y(1,2) len Nil.prems(1)
      by (subst rhn2str_loop.simps) (auto simp: wr_in dest: grown_kept)
  qed
next
  case (Cons m ls)
  let ?b = "p @ l @ enc (m # ls) @ r"
  have "returns (rhn2str_label ?b sz (length l) i j out) (\<lambda>x. case x of
      Inl o1 \<Rightarrow> kept sz out o1 \<and> l \<noteq> [] \<and> sz \<le> j + length (esc_label l) + 1
    | Inr (i1, j1, o1) \<Rightarrow> i1 = i + length l \<and> j1 = j + length (esc_label l) \<and>
        (l \<noteq> [] \<longrightarrow> j1 + 1 < sz) \<and> grown sz j out (esc_label l) o1)"
    using Cons.prems by (intro rhn2str_label_returns) auto
  then obtain x where x: "rhn2str_label ?b sz (length l) i j out = Some x" "case x of
      Inl o1 \<Rightarrow> kept sz out o1 \<and> l \<noteq> [] \<and> sz \<le> j + length (esc_label l) + 1
    | Inr (i1, j1, o1) \<Rightarrow> i1 = i + length l \<and> j1 = j + length (esc_label l) \<and>
        (l \<noteq> [] \<longrightarrow> j1 + 1 < sz) \<and> grown sz j out (esc_label l) o1"
    by (rule returnsE)
  show ?case
  proof (cases x)
    case (Inl o1)
    then have "returns (rhn2str_overflow sz o1) (\<lambda>o2. kept sz out o2 \<and> dots_end sz o2)"
      using x(2) Cons.prems by (intro rhn2str_overflow_returns) auto
    with Inl x Cons.prems(1) show ?thesis by (subst rhn2str_loop.simps) (auto elim!: returns_mono)
  next
    case (Inr y)
    then obtain o1 where y: "x = Inr (i + length l, j + length (esc_label l), o1)"
        "j + length (esc_label l) + 1 < sz" "grown sz j out (esc_label l) o1"
      using x(2) Cons.prems(1) by (cases y) auto
    have len: "sz \<le> length o1" using y(3) Cons.prems(3) by (simp add: grown_def kept_def)
    let ?j = "j + length (esc_label l)"
    have g: "grown sz j out (esc_label l @ [dot]) (o1[?j := dot])"
      using y len by (intro grown_trans [OF y(3)] grown_one) auto
    have "rd ?b (i + length l) = Some (of_nat (length m))"
      using Cons.prems(2) rd_at [of "p @ l"] by simp
    moreover have "?b = (p @ l @ [of_nat (length m)]) @ m @ enc ls @ r" by simp
    moreover have "returns (rhn2str_loop ((p @ l @ [of_nat (length m)]) @ m @ enc ls @ r) sz
        (of_nat (length m)) (i + length l + 1) (?j + 1) (o1[?j := dot])) (\<lambda>o2.
        kept sz (o1[?j := dot]) o2 \<and>
        (if ?j + 1 + length (esc_dotted (m # ls)) < sz
         then grown sz (?j + 1) (o1[?j := dot]) (esc_dotted (m # ls) @ [0]) o2 else dots_end sz o2))"
      using Cons.prems len by (intro Cons.IH) auto
    moreover have "grown sz j out (esc_label l @ dot # esc_dotted (m # ls) @ [0]) o2"
      if "grown sz (?j + 1) (o1[?j := dot]) (esc_dotted (m # ls) @ [0]) o2" for o2
      using grown_trans [OF g, of "esc_dotted (m # ls) @ [0]" o2] that by simp
    ultimately show ?thesis
      using x(1) y(1,2) len Cons.prems(1) kept_trans [OF grown_kept [OF g]]
      by (subst rhn2str_loop.simps) (auto simp: wr_in elim!: returns_mono)
  qed
qed

text \<open>The whole text of a name as \<open>rhn2str\<close> writes it.\<close>

definition esc_text :: "bytes list \<Rightarrow> bytes" where
  "esc_text ls = (if ls = [] then [dot] else esc_dotted ls)"

lemma rhn2str_returns:
  assumes "labels_ok ls" and "0 < sz" and "sz \<le> length out"
  shows "returns (rhn2str (enc ls @ r) out sz) (\<lambda>res. \<exists>out'. res = Some out' \<and> kept sz out out' \<and>
    (if length (esc_text ls) < sz
     then take (length (esc_text ls) + 1) out' = esc_text ls @ [0] else dots_end sz out'))"
proof (cases ls)
  case Nil
  have "out \<noteq> []" using assms by auto
  with Nil assms show ?thesis
    by (auto simp: rhn2str_def esc_text_def wr_in dots_end_def take_Suc_conv_app_nth nth_append
        intro!: kept_update)
next
  case (Cons l ls')
  have "returns (rhn2str_loop ([of_nat (length l)] @ l @ enc ls' @ r) sz (of_nat (length l)) 1 0 out) (\<lambda>o1.
    kept sz out o1 \<and>
    (if 0 + length (esc_dotted (l # ls')) < sz
     then grown sz 0 out (esc_dotted (l # ls') @ [0]) o1 else dots_end sz o1))"
    using assms Cons by (intro rhn2str_loop_returns) auto
  with Cons assms show ?thesis
    by (auto simp: rhn2str_def esc_text_def grown_def elim!: returns_mono)
qed

subsection \<open>Names of plain characters\<close>

definition plain_char :: "byte \<Rightarrow> bool" where
  "plain_char c \<longleftrightarrow> isgraph c \<and> \<not> special_char c"

definition plain_labels :: "bytes list \<Rightarrow> bool" where
  "plain_labels ls \<longleftrightarrow> (\<forall>l \<in> set ls. \<forall>c \<in> set l. plain_char c)"

lemma plain_char_text: "plain_char c \<Longrightarrow> text_char c"
  by (auto simp: plain_char_def text_char_def special_char_def isgraph_def)

lemma plain_labels_text: "plain_labels ls \<Longrightarrow> text_labels ls"
  by (auto simp: plain_labels_def text_labels_def plain_char_text)

lemma esc_label_plain: "\<forall>c \<in> set l. plain_char c \<Longrightarrow> esc_label l = l"
  by (induction l) (auto simp: esc_def plain_char_def)

lemma esc_text_plain: "plain_labels ls \<Longrightarrow> esc_text ls = name_text ls"
proof -
  assume "plain_labels ls"
  then have "esc_dotted ls = dotted ls"
    by (induction ls) (auto simp: plain_labels_def esc_label_plain)
  then show ?thesis by (simp add: esc_text_def name_text_def)
qed

lemma length_dotted: "length (dotted ls) = length (enc_labels ls)"
  by (induction ls) auto

lemma text_labels_no_zero: "text_labels ls \<Longrightarrow> 0 \<notin> set (name_text ls)"
  by (induction ls) (auto simp: name_text_def text_char_def split: if_splits)

subsection \<open>Names with escapes\<close>

text \<open>The three digits of \<open>%03o\<close> are those of an octal numeral and determine the byte.\<close>

lemma octal_digit: "0 < (48 :: byte) + (x AND 7)" "48 + (x AND 7) \<noteq> dot" "48 + (x AND 7) \<noteq> backslash" "48 + (x AND 7) \<noteq> 34"
proof -
  have "unat (x AND 7) \<le> 7" using word_and_le1 [of x 7] by (simp add: word_le_nat_alt and.commute)
  moreover from this have "unat (48 + (x AND 7)) = 48 + unat (x AND 7)" by (subst unat_add_lem [THEN iffD1]) simp_all
  ultimately have "48 \<le> unat (48 + (x AND 7))" "unat (48 + (x AND 7)) \<le> 55" by simp_all
  moreover have "0 < d \<and> d \<noteq> dot \<and> d \<noteq> backslash \<and> d \<noteq> 34" if "48 \<le> unat d" "unat d \<le> 55" for d :: byte
    using that by (auto simp: word_less_nat_alt dot_def backslash_def)
  ultimately show "0 < 48 + (x AND 7)" "48 + (x AND 7) \<noteq> dot" "48 + (x AND 7) \<noteq> backslash" "48 + (x AND 7) \<noteq> 34" by blast+
qed

lemma octal_top: "drop_bit 6 c = drop_bit 6 c AND (7 :: byte)"
proof -
  have m: "(7 :: byte) = mask 3" by (simp add: mask_eq_exp_minus_1)
  show ?thesis unfolding m by (rule bit_word_eqI) (auto simp: bit_simps dest: bit_imp_le_length)
qed

lemma byte_octal: "c = push_bit 6 (drop_bit 6 c) OR push_bit 3 (drop_bit 3 c AND 7) OR (c AND (7 :: byte))"
proof -
  have m: "(7 :: byte) = mask 3" by (simp add: mask_eq_exp_minus_1)
  show ?thesis unfolding m
  proof (rule bit_word_eqI)
    fix n assume "n < LENGTH(8)"
    then show "bit c n = bit (push_bit 6 (drop_bit 6 c) OR push_bit 3 (drop_bit 3 c AND mask 3) OR (c AND mask 3)) n"
      by (cases "n < 3"; cases "n < 6") (auto simp: bit_simps)
  qed
qed

lemma octal3_inj: "octal3 c = octal3 d \<Longrightarrow> c = d"
  using byte_octal [of c] byte_octal [of d] by (simp add: octal3_def)

text \<open>No zero, and no dot or escape in front that could be taken for another: a prefix code.\<close>

lemma octal3_cases: "\<exists>x y z. octal3 c = [backslash, x, y, z] \<and> x \<noteq> 0 \<and> y \<noteq> 0 \<and> z \<noteq> 0 \<and> \<not> special_char x"
  using octal_digit [of "drop_bit 6 c"] octal_digit [of "drop_bit 3 c"] octal_digit [of c]
  unfolding octal3_def octal_top [symmetric] by (auto simp: backslash_def special_char_def)

lemma esc_no_zero: "0 \<notin> set (esc c)"
  using octal3_cases [of c] by (auto simp: esc_def isgraph_def backslash_def)

lemma esc_text_no_zero: "0 \<notin> set (esc_text ls)"
proof -
  have l: "0 \<notin> set (esc_label l)" for l by (induction l) (simp_all add: esc_no_zero)
  have "0 \<notin> set (esc_dotted ls)" by (induction ls) (simp_all add: l)
  then show ?thesis by (simp add: esc_text_def)
qed

lemma esc_inj:
  assumes "esc c @ u = esc d @ v"
  shows "c = d \<and> u = v"
proof -
  obtain x y z x' y' z' where o: "octal3 c = [backslash, x, y, z]" "\<not> special_char x"
    "octal3 d = [backslash, x', y', z']" "\<not> special_char x'" using octal3_cases [of c] octal3_cases [of d] by blast
  have b: "special_char backslash" by (simp add: special_char_def)
  show ?thesis
    using assms o b octal3_inj [of c d] by (auto simp: esc_def split: if_splits)
qed

lemma esc_not_dot: "esc c @ u \<noteq> dot # v"
  using octal3_cases [of c] by (auto simp: esc_def special_char_def dot_def backslash_def)

lemma esc_label_inj: "esc_label l @ dot # u = esc_label m @ dot # v \<Longrightarrow> l = m \<and> u = v"
proof (induction l arbitrary: m)
  case Nil
  then show ?case using esc_not_dot [symmetric] by (cases m) auto
next
  case (Cons c l)
  show ?case
  proof (cases m)
    case Nil
    with Cons.prems esc_not_dot show ?thesis by simp
  next
    case (Cons d m')
    with Cons.prems have "esc c @ esc_label l @ dot # u = esc d @ esc_label m' @ dot # v" by simp
    from esc_inj [OF this] Cons.IH [of m'] Cons show ?thesis by simp
  qed
qed

lemma esc_dotted_inj: "esc_dotted ls = esc_dotted ms \<Longrightarrow> ls = ms"
proof (induction ls arbitrary: ms)
  case Nil
  then show ?case by (cases ms) simp_all
next
  case (Cons l ls)
  then obtain m ms' where m: "ms = m # ms'" by (cases ms) simp_all
  with Cons.prems esc_label_inj [of l "esc_dotted ls" m "esc_dotted ms'"] Cons.IH [of ms'] show ?case by simp
qed

lemma esc_text_inj:
  assumes "esc_text ls = esc_text ms" and "dns_name ls" and "dns_name ms"
  shows "ls = ms"
proof -
  have ne: "esc_dotted ns \<noteq> [dot]" if "dns_name ns" "ns \<noteq> []" for ns
  proof -
    from that obtain c l ns' where "ns = (c # l) # ns'" by (cases ns; cases "hd ns") (auto simp: dns_name_def)
    then show ?thesis using esc_not_dot [of c "esc_label l @ dot # esc_dotted ns'" "[]"] by simp
  qed
  show ?thesis
  proof (cases "ls = [] \<or> ms = []")
    case True
    then show ?thesis using assms ne [of ls] ne [of ms] by (auto simp: esc_text_def split: if_splits)
  next
    case False
    then show ?thesis using assms(1) esc_dotted_inj by (simp add: esc_text_def)
  qed
qed

text \<open>A text without escapes is that of a plain name.\<close>

lemma esc_text_plain_iff: "esc_text ls = name_text ls \<longleftrightarrow> plain_labels ls"
proof
  assume e: "esc_text ls = name_text ls"
  have c: "length (esc c) = 1 \<longleftrightarrow> plain_char c" for c
    by (auto simp: esc_def plain_char_def octal3_def)
  have l: "length l \<le> length (esc_label l) \<and> (length (esc_label l) = length l \<longrightarrow> (\<forall>c \<in> set l. plain_char c))" for l
  proof (induction l)
    case (Cons x l)
    then show ?case using esc_length(1) [of x] c [of x] by auto
  qed simp
  have "length (dotted ls) \<le> length (esc_dotted ls) \<and> (length (esc_dotted ls) = length (dotted ls) \<longrightarrow> plain_labels ls)"
  proof (induction ls)
    case (Cons x ls)
    then show ?case using l [of x] by (auto simp: plain_labels_def)
  qed (simp add: plain_labels_def)
  moreover have "length (esc_dotted ls) = length (dotted ls)"
    using arg_cong [OF e, of length] by (cases ls) (simp_all add: esc_text_def name_text_def)
  ultimately show "plain_labels ls" by simp
qed (rule esc_text_plain)

lemma text_unique:
  fixes b :: bytes
  assumes "take (length t + 1) b = t @ [0]" and "take (length u + 1) b = u @ [0]" and "0 \<notin> set t" and "0 \<notin> set u"
  shows "t = u"
proof -
  have w: "takeWhile (\<lambda>c. c \<noteq> 0) b = v" if "take (length v + 1) b = v @ [0]" "0 \<notin> set v" for v :: bytes
  proof -
    have "b = (v @ [0]) @ drop (length v + 1) b" using that(1) append_take_drop_id by metis
    then have "takeWhile (\<lambda>c. c \<noteq> 0) b = takeWhile (\<lambda>c. c \<noteq> 0) (v @ 0 # drop (length v + 1) b)" by simp
    then show ?thesis using that(2) by (subst (asm) takeWhile_append2) auto
  qed
  show ?thesis using w [OF assms(1,3)] w [OF assms(2,4)] by simp
qed

subsection \<open>Properties\<close>

text \<open>
  C28: \<open>str2rhn\<close> on a C string never accesses memory outside the string and a name buffer of
  \<open>DNSNAMEBUFSIZE\<close> bytes. It returns 1 exactly if the string is the dotted text of a valid
  domain name (labels of 1 to 63 characters, at most 256 bytes encoded), and then the buffer
  starts with the encoding of that name; otherwise it returns 0.
\<close>

theorem str2rhn_correct:
  assumes "0 \<notin> set cs" and "length rhn = DNSNAMEBUFSIZE"
  shows "\<exists>ok rhn'. str2rhn (cs @ 0 # r) rhn = Some (ok, rhn') \<and> length rhn' = DNSNAMEBUFSIZE \<and>
    (if ok then \<exists>ls. denotes cs ls \<and> take (length (enc ls)) rhn' = enc ls
     else \<not> (\<exists>ls. denotes cs ls))"
  by (rule returns_pair [OF str2rhn_returns [OF assms, of r]])

theorem str2rhn_correct_witness:
  "0 \<notin> set (str ''ab.c.'') \<and> length (replicate 256 7 :: bytes) = DNSNAMEBUFSIZE \<and>
   (\<exists>ok rhn'. str2rhn (str ''ab.c.'' @ 0 # []) (replicate 256 7) = Some (ok, rhn') \<and> length rhn' = DNSNAMEBUFSIZE \<and>
    (if ok then \<exists>ls. denotes (str ''ab.c.'') ls \<and> take (length (enc ls)) rhn' = enc ls
     else \<not> (\<exists>ls. denotes (str ''ab.c.'') ls)))"
proof -
  have a: "0 \<notin> set (str ''ab.c.'')" by code_simp
  have b: "length (replicate 256 7 :: bytes) = DNSNAMEBUFSIZE" by (simp add: DNSNAMEBUFSIZE_def)
  from a b str2rhn_correct [OF a b, of "[]"] show ?thesis by blast
qed

text \<open>
  C27: \<open>parsestr2rhn\<close>, for a text of \<open>len\<close> characters or fewer (it ends at a zero, if one
  comes first), stays inside the text and the name buffer, returns \<open>NULL\<close> exactly if the
  text, with or without its final dot, denotes a valid domain name, and then the buffer
  starts with the encoding of that name; otherwise it returns an error message.
\<close>

theorem parsestr2rhn_correct:
  assumes "ends_at s len cs 0 []" and "length rhn = DNSNAMEBUFSIZE"
  shows "\<exists>err rhn'. parsestr2rhn s len rhn = Some (err, rhn') \<and> length rhn' = DNSNAMEBUFSIZE \<and>
    (if err = None then \<exists>ls. (denotes cs ls \<or> denotes (cs @ [dot]) ls \<and> cs \<noteq> []) \<and>
                           take (length (enc ls)) rhn' = enc ls
     else \<not> (\<exists>ls. denotes cs ls \<or> denotes (cs @ [dot]) ls \<and> cs \<noteq> []))"
  by (rule returns_pair [OF parsestr2rhn_returns [OF assms]])

theorem parsestr2rhn_correct_witness:
  "ends_at (str ''ab.c'') 4 (str ''ab.c'') 0 [] \<and>
   (\<exists>err rhn'. parsestr2rhn (str ''ab.c'') 4 (replicate 256 7) = Some (err, rhn') \<and>
     length rhn' = DNSNAMEBUFSIZE \<and>
    (if err = None then \<exists>ls. (denotes (str ''ab.c'') ls \<or> denotes (str ''ab.c'' @ [dot]) ls \<and> str ''ab.c'' \<noteq> []) \<and>
                           take (length (enc ls)) rhn' = enc ls
     else \<not> (\<exists>ls. denotes (str ''ab.c'') ls \<or> denotes (str ''ab.c'' @ [dot]) ls \<and> str ''ab.c'' \<noteq> [])))"
proof -
  have "0 \<notin> set (str ''ab.c'')" "length (str ''ab.c'') = 4" by code_simp+
  then have a: "ends_at (str ''ab.c'') 4 (str ''ab.c'') 0 []" by (simp add: ends_at_def)
  have b: "length (replicate 256 7 :: bytes) = DNSNAMEBUFSIZE" by (simp add: DNSNAMEBUFSIZE_def)
  from a parsestr2rhn_correct [OF a b] show ?thesis by blast
qed

text \<open>
  C29: \<open>rhn2str\<close>, given a name in transport format and a buffer of at least \<open>sz > 0\<close> bytes,
  never writes at or after \<open>sz\<close> and never reads past the name. If the escaped text of the
  name and a zero fit, the buffer holds exactly these; otherwise it ends in a zero and up to
  three dots.
\<close>

theorem rhn2str_bounded:
  assumes "labels_ok ls" and "0 < sz" and "sz \<le> length out"
  shows "\<exists>out'. rhn2str (enc ls @ r) out sz = Some (Some out') \<and>
    length out' = length out \<and> drop sz out' = drop sz out \<and>
    (if length (esc_text ls) < sz
     then take (length (esc_text ls) + 1) out' = esc_text ls @ [0] else dots_end sz out')"
  using rhn2str_returns [OF assms, of r] by (auto elim!: returnsE simp: kept_def)

theorem rhn2str_bounded_witness:
  "labels_ok [str ''abc''] \<and>
   (\<exists>out'. rhn2str (enc [str ''abc''] @ []) (replicate 9 1) 4 = Some (Some out') \<and>
    length out' = length (replicate 9 1 :: bytes) \<and> drop 4 out' = drop 4 (replicate 9 1) \<and>
    (if length (esc_text [str ''abc'']) < 4
     then take (length (esc_text [str ''abc'']) + 1) out' = esc_text [str ''abc''] @ [0]
     else dots_end 4 out'))"
proof -
  have a: "labels_ok [str ''abc'']" by (simp add: str_def)
  have "(4 :: nat) \<le> length (replicate 9 1 :: bytes)" by simp
  from a rhn2str_bounded [OF a _ this, of "[]"] show ?thesis by simp
qed

lemma rhn2str_text:
  assumes "dns_name ls" and "length out = DNSNAMEBUFSIZE"
  shows "\<exists>out'. rhn2str (enc ls @ r) out DNSNAMEBUFSIZE = Some (Some out') \<and> 0 \<in> set out' \<and>
    (length (esc_text ls) < DNSNAMEBUFSIZE \<longrightarrow> take (length (esc_text ls) + 1) out' = esc_text ls @ [0])"
proof -
  have "labels_ok ls" "0 < DNSNAMEBUFSIZE" "DNSNAMEBUFSIZE \<le> length out"
    using assms dns_name_labels_ok by (simp_all add: DNSNAMEBUFSIZE_def)
  from rhn2str_returns [OF this, of r] obtain out' where o: "rhn2str (enc ls @ r) out DNSNAMEBUFSIZE = Some (Some out')"
    "length out' = DNSNAMEBUFSIZE" "if length (esc_text ls) < DNSNAMEBUFSIZE
     then take (length (esc_text ls) + 1) out' = esc_text ls @ [0] else dots_end DNSNAMEBUFSIZE out'"
    using assms(2) by (auto elim!: returnsE simp: kept_def)
  have "0 \<in> set out'"
  proof (cases "length (esc_text ls) < DNSNAMEBUFSIZE")
    case True
    with o(3) have "0 \<in> set (take (length (esc_text ls) + 1) out')" by simp
    then show ?thesis by (rule in_set_takeD)
  next
    case False
    with o(3) have "out' ! (DNSNAMEBUFSIZE - 1) = 0" by (simp add: dots_end_def)
    then show ?thesis using o(2) nth_mem [of "DNSNAMEBUFSIZE - 1" out'] by (simp add: DNSNAMEBUFSIZE_def)
  qed
  with o show ?thesis by auto
qed

lemma parse_text:
  assumes "0 \<in> set b" and "length rhn = DNSNAMEBUFSIZE"
  obtains ok rhn' where "str2rhn b rhn = Some (ok, rhn')"
    "\<forall>t. take (length t + 1) b = t @ [0] \<longrightarrow> 0 \<notin> set t \<longrightarrow>
       (if ok then \<exists>ns. denotes t ns \<and> take (length (enc ns)) rhn' = enc ns else \<not> (\<exists>ns. denotes t ns))"
proof -
  from split_list_first [OF assms(1)] obtain cs q where b: "b = cs @ 0 # q" "0 \<notin> set cs" by blast
  from str2rhn_returns [OF b(2) assms(2), of q] obtain ok rhn' where s: "str2rhn (cs @ 0 # q) rhn = Some (ok, rhn')"
    "if ok then \<exists>ns. denotes cs ns \<and> take (length (enc ns)) rhn' = enc ns else \<not> (\<exists>ns. denotes cs ns)"
    by (auto elim!: returnsE)
  have cs: "t = cs" if "take (length t + 1) b = t @ [0]" "0 \<notin> set t" for t
    using text_unique [OF that(1) _ that(2) b(2)] b(1) by simp
  show thesis
  proof (rule that)
    show "str2rhn b rhn = Some (ok, rhn')" using s(1) b(1) by simp
    show "\<forall>t. take (length t + 1) b = t @ [0] \<longrightarrow> 0 \<notin> set t \<longrightarrow>
       (if ok then \<exists>ns. denotes t ns \<and> take (length (enc ns)) rhn' = enc ns else \<not> (\<exists>ns. denotes t ns))"
      using s(2) cs by blast
  qed
qed

lemma parsed_back:
  assumes "dns_name ls"
    and "if ok then \<exists>ns. denotes (esc_text ls) ns \<and> take (length (enc ns)) rhn' = enc ns else \<not> (\<exists>ns. denotes (esc_text ls) ns)"
  shows "ok \<and> take (length (enc ls)) rhn' = enc ls \<longleftrightarrow> plain_labels ls"
proof
  assume p: "plain_labels ls"
  then have d: "denotes (esc_text ls) ls" using assms(1) by (simp add: denotes_def esc_text_plain plain_labels_text)
  with assms(2) have "ok" by (cases ok) auto
  moreover from this assms(2) obtain ns where "denotes (esc_text ls) ns" "take (length (enc ns)) rhn' = enc ns" by auto
  ultimately show "ok \<and> take (length (enc ls)) rhn' = enc ls" using denotes_unique [OF d] by metis
next
  assume o: "ok \<and> take (length (enc ls)) rhn' = enc ls"
  with assms(2) obtain ns where ns: "denotes (esc_text ls) ns" "take (length (enc ns)) rhn' = enc ns" by auto
  have "enc ls @ drop (length (enc ls)) rhn' = enc ns @ drop (length (enc ns)) rhn'"
    using o ns(2) append_take_drop_id by metis
  moreover have "labels_ok ls" "labels_ok ns" using assms(1) ns(1) dns_name_labels_ok by (simp_all add: denotes_def)
  ultimately have "ls = ns" using enc_inj by blast
  with ns(1) show "plain_labels ls" by (simp add: denotes_def esc_text_plain_iff [symmetric])
qed

text \<open>
  C30: printing a valid name with \<open>rhn2str\<close> into a buffer of \<open>DNSNAMEBUFSIZE\<close> bytes and parsing what
  is there with \<open>str2rhn\<close>. The text of a plain name (only graphic characters other than dot,
  backslash and double quote) always fits. Where the text of a name fits, it tells the name
  apart from all others: no other name whose text fits leaves the same buffer. But \<open>str2rhn\<close> does
  not undo escapes, so it gives the name back exactly if the name is plain; with any other
  character in it the result is another name or a failure.
\<close>

theorem name_text_roundtrip:
  assumes "dns_name ls" and "length out = DNSNAMEBUFSIZE" and "length rhn = DNSNAMEBUFSIZE"
  shows "\<exists>out' ok rhn'. rhn2str (enc ls @ r) out DNSNAMEBUFSIZE = Some (Some out') \<and> str2rhn out' rhn = Some (ok, rhn') \<and>
    (plain_labels ls \<longrightarrow> length (esc_text ls) < DNSNAMEBUFSIZE) \<and>
    (length (esc_text ls) < DNSNAMEBUFSIZE \<longrightarrow>
      (ok \<and> take (length (enc ls)) rhn' = enc ls \<longleftrightarrow> plain_labels ls) \<and>
      (\<forall>ms. dns_name ms \<longrightarrow> length (esc_text ms) < DNSNAMEBUFSIZE \<longrightarrow>
         rhn2str (enc ms @ r) out DNSNAMEBUFSIZE = Some (Some out') \<longrightarrow> ms = ls))"
proof -
  note printed = rhn2str_text [OF _ assms(2), of _ r]
  from printed [OF assms(1)] obtain out' where out': "rhn2str (enc ls @ r) out DNSNAMEBUFSIZE = Some (Some out')" "0 \<in> set out'"
    "length (esc_text ls) < DNSNAMEBUFSIZE \<longrightarrow> take (length (esc_text ls) + 1) out' = esc_text ls @ [0]" by blast
  obtain ok rhn' where p: "str2rhn out' rhn = Some (ok, rhn')"
    "\<forall>t. take (length t + 1) out' = t @ [0] \<longrightarrow> 0 \<notin> set t \<longrightarrow>
       (if ok then \<exists>ns. denotes t ns \<and> take (length (enc ns)) rhn' = enc ns else \<not> (\<exists>ns. denotes t ns))"
    by (rule parse_text [OF out'(2) assms(3)])
  have fit: "length (esc_text ls) < DNSNAMEBUFSIZE" if "plain_labels ls"
    using that assms(1) by (simp add: esc_text_plain) (auto simp: name_text_def length_dotted dns_name_def length_enc DNSNAMEBUFSIZE_def)
  have same: "ms = ls" if "length (esc_text ls) < DNSNAMEBUFSIZE" "dns_name ms" "length (esc_text ms) < DNSNAMEBUFSIZE"
    "rhn2str (enc ms @ r) out DNSNAMEBUFSIZE = Some (Some out')" for ms
  proof -
    obtain o2 where "rhn2str (enc ms @ r) out DNSNAMEBUFSIZE = Some (Some o2)"
      "length (esc_text ms) < DNSNAMEBUFSIZE \<longrightarrow> take (length (esc_text ms) + 1) o2 = esc_text ms @ [0]"
      using printed [OF \<open>dns_name ms\<close>] by blast
    with that(3,4) have "take (length (esc_text ms) + 1) out' = esc_text ms @ [0]" by simp
    from text_unique [OF this out'(3) [rule_format, OF that(1)] esc_text_no_zero esc_text_no_zero]
    have "esc_text ms = esc_text ls" .
    then show ?thesis using esc_text_inj that(2) assms(1) by blast
  qed
  have plain: "ok \<and> take (length (enc ls)) rhn' = enc ls \<longleftrightarrow> plain_labels ls" if "length (esc_text ls) < DNSNAMEBUFSIZE"
    using p(2) [rule_format, OF out'(3) [rule_format, OF that] esc_text_no_zero] by (rule parsed_back [OF assms(1)])
  show ?thesis
  proof (rule exI [of _ out'], rule exI [of _ ok], rule exI [of _ rhn'], intro conjI impI allI)
    show "rhn2str (enc ls @ r) out DNSNAMEBUFSIZE = Some (Some out')" "str2rhn out' rhn = Some (ok, rhn')" by (rule out'(1) p(1))+
  qed (rule fit same plain; assumption)+
qed

theorem name_text_roundtrip_witness:
  "dns_name [str ''ab'', str ''c''] \<and>
   (\<exists>out' rhn'. rhn2str (enc [str ''ab'', str ''c''] @ []) (replicate 256 1) DNSNAMEBUFSIZE = Some (Some out') \<and>
    str2rhn out' (replicate 256 2) = Some (True, rhn') \<and>
    take (length (enc [str ''ab'', str ''c''])) rhn' = enc [str ''ab'', str ''c''])"
proof -
  have a: "dns_name [str ''ab'', str ''c'']" by code_simp
  have b: "plain_labels [str ''ab'', str ''c'']" by code_simp
  have c: "length (replicate 256 v :: bytes) = DNSNAMEBUFSIZE" for v by (simp add: DNSNAMEBUFSIZE_def)
  from name_text_roundtrip [OF a c [of 1] c [of 2], of "[]"] obtain out' ok rhn' where w:
    "rhn2str (enc [str ''ab'', str ''c''] @ []) (replicate 256 1) DNSNAMEBUFSIZE = Some (Some out')"
    "str2rhn out' (replicate 256 2) = Some (ok, rhn')"
    "ok \<and> take (length (enc [str ''ab'', str ''c''])) rhn' = enc [str ''ab'', str ''c'']" using b by blast
  from w(2,3) have "str2rhn out' (replicate 256 2) = Some (True, rhn')" by (simp only: simp_thms)
  with a w(1,3) show ?thesis by blast
qed

end
