(* ===== verification/Names_Match.thy ===== *)
theory Names_Match
  imports Names_Correct
begin

text \<open>
  \<open>domain_match\<close> of \<open>dns.c\<close>: the longest common suffix of two names, in whole labels and
  without regard to case.
\<close>

text \<open>
  The first loops collect the length bytes; more than 128 of them fail an assertion. The
  result is the list of length bytes and the offset of the terminating zero.
\<close>

function collect_lens :: "bytes \<Rightarrow> nat \<Rightarrow> byte list \<Rightarrow> (byte list \<times> nat) option" where
  "collect_lens nm i ls = do {
     lb \<leftarrow> rd nm i;
     if lb = 0 then Some (ls, i)
     else if \<not> length ls < 128 then None
     else collect_lens nm (i + unat lb + 1) (ls @ [lb])
   }"
  by pat_completeness auto
termination
  by (relation "measure (\<lambda>(nm, i, ls). length nm - i)") (auto simp: rd_Some_iff)

declare collect_lens.simps [simp del]

text \<open>
  The comparison of one label, character by character from its end: \<open>None\<close> inside is the
  jump to \<open>mismatch\<close>. A decrement of offset 0 would read in front of the buffer.
\<close>

fun match_chars :: "bytes \<Rightarrow> bytes \<Rightarrow> nat \<Rightarrow> nat \<Rightarrow> nat \<Rightarrow> (nat \<times> nat) option option" where
  "match_chars ms md i j 0 = Some (Some (i, j))"
| "match_chars ms md i j (Suc lb) =
     (if i = 0 \<or> j = 0 then None
      else do {
        x \<leftarrow> rd ms (i - 1);
        y \<leftarrow> rd md (j - 1);
        if tolower x \<noteq> tolower y then Some None
        else match_chars ms md (i - 1) (j - 1) lb
      })"

text \<open>The loop over \<open>k\<close>; the result is the returned count with the two offsets.\<close>

function match_loop ::
    "bytes \<Rightarrow> bytes \<Rightarrow> byte list \<Rightarrow> byte list \<Rightarrow> nat \<Rightarrow> nat \<Rightarrow> nat \<Rightarrow> nat \<Rightarrow> (nat \<times> nat \<times> nat) option" where
  "match_loop ms md ls ld n k i j =
     (if \<not> k \<le> n then Some (k - 1, i, j)
      else do {
        lb \<leftarrow> rd ls (length ls - k);
        lb' \<leftarrow> rd ld (length ld - k);
        if lb \<noteq> lb' then Some (k - 1, i, j)
        else do {
          r \<leftarrow> match_chars ms md i j (unat lb);
          case r of
            None \<Rightarrow> Some (k - 1, i, j)
          | Some (i1, j1) \<Rightarrow>
              if i1 = 0 \<or> j1 = 0 then None
              else match_loop ms md ls ld n (k + 1) (i1 - 1) (j1 - 1)
        }
      })"
  by pat_completeness auto
termination
  by (relation "measure (\<lambda>(ms, md, ls, ld, n, k, i, j). n + 1 - k)") auto

declare match_loop.simps [simp del]

definition domain_match :: "bytes \<Rightarrow> bytes \<Rightarrow> (nat \<times> nat \<times> nat) option" where
  "domain_match ms md = do {
     (ls, i) \<leftarrow> collect_lens ms 0 [];
     (ld, j) \<leftarrow> collect_lens md 0 [];
     match_loop ms md ls ld (min (length ls) (length ld)) 1 i j
   }"

subsection \<open>Specification: common suffixes of label lists\<close>

fun common_prefix :: "'a list \<Rightarrow> 'a list \<Rightarrow> nat" where
  "common_prefix (x # xs) (y # ys) = (if x = y then Suc (common_prefix xs ys) else 0)"
| "common_prefix _ _ = 0"

definition common_labels :: "bytes list \<Rightarrow> bytes list \<Rightarrow> nat" where
  "common_labels a b = common_prefix (rev (fold_case a)) (rev (fold_case b))"

lemma common_prefix_le: "common_prefix xs ys \<le> min (length xs) (length ys)"
  by (induction xs ys rule: common_prefix.induct) auto

lemma take_common_prefix: "take (common_prefix xs ys) xs = take (common_prefix xs ys) ys"
  by (induction xs ys rule: common_prefix.induct) auto

lemma common_prefix_maximal:
  "n \<le> length xs \<Longrightarrow> n \<le> length ys \<Longrightarrow> take n xs = take n ys \<Longrightarrow> n \<le> common_prefix xs ys"
proof (induction xs ys arbitrary: n rule: common_prefix.induct)
  case (1 x xs y ys)
  then show ?case by (cases n) auto
qed auto

lemma common_labels_le: "common_labels a b \<le> length a" "common_labels a b \<le> length b"
  using common_prefix_le [of "rev (fold_case a)" "rev (fold_case b)"]
  by (simp_all add: common_labels_def fold_case_def)

text \<open>The labels behind the common suffix agree, and no longer suffix does.\<close>

lemma common_labels_suffix:
  "fold_case (drop (length a - common_labels a b) a) = fold_case (drop (length b - common_labels a b) b)"
proof -
  let ?c = "common_labels a b"
  have "take ?c (rev (fold_case a)) = take ?c (rev (fold_case b))"
    unfolding common_labels_def by (rule take_common_prefix)
  then have "rev (take ?c (rev (fold_case a))) = rev (take ?c (rev (fold_case b)))" by simp
  then show ?thesis by (simp add: rev_take fold_case_def drop_map)
qed

lemma common_labels_maximal:
  assumes "n \<le> length a" and "n \<le> length b"
    and "fold_case (drop (length a - n) a) = fold_case (drop (length b - n) b)"
  shows "n \<le> common_labels a b"
proof -
  have "rev (take n (rev (fold_case a))) = rev (take n (rev (fold_case b)))"
    using assms(3) by (simp add: rev_take fold_case_def drop_map)
  then have "take n (rev (fold_case a)) = take n (rev (fold_case b))" by simp
  with assms(1,2) show ?thesis
    by (auto simp: common_labels_def fold_case_def intro: common_prefix_maximal)
qed

subsection \<open>The loops\<close>

definition len_bytes :: "bytes list \<Rightarrow> byte list" where
  "len_bytes ls = map (\<lambda>l. of_nat (length l)) ls"

lemma collect_lens_enc:
  assumes "labels_ok ls" and "length p = i" and "length acc + length ls \<le> 128"
  shows "collect_lens (p @ enc ls @ r) i acc = Some (acc @ len_bytes ls, i + length (enc_labels ls))"
  using assms
proof (induction ls arbitrary: p i acc)
  case Nil
  then show ?case by (subst collect_lens.simps) (simp add: rd_at len_bytes_def)
next
  case (Cons l ls)
  from Cons.prems Cons.IH [of "p @ enc_label l" "i + length l + 1" "acc @ [of_nat (length l)]"]
  show ?case
    by (subst collect_lens.simps) (simp add: rd_at enc_label_def len_bytes_def)
qed

lemma match_chars_labels:
  assumes "length x = n" and "length y = n" and "length p + n = i" and "length q + n = j"
  shows "match_chars (p @ x @ r) (q @ y @ s) i j n =
    Some (if map tolower x = map tolower y then Some (length p, length q) else None)"
  using assms
proof (induction n arbitrary: i j x y r s)
  case 0
  then show ?case by simp
next
  case (Suc n)
  obtain x' a where x: "x = x' @ [a]" "length x' = n"
    using Suc.prems(1) by (metis append_butlast_last_id length_append_singleton list.size(3) nat.inject nat.simps(3))
  obtain y' b where y: "y = y' @ [b]" "length y' = n"
    using Suc.prems(2) by (metis append_butlast_last_id length_append_singleton list.size(3) nat.inject nat.simps(3))
  have "rd (p @ x @ r) (i - 1) = Some a" "rd (q @ y @ s) (j - 1) = Some b"
    using rd_at [of "p @ x'" "i - 1" a r] rd_at [of "q @ y'" "j - 1" b s] Suc.prems(3,4) x y by simp_all
  moreover have "match_chars (p @ x @ r) (q @ y @ s) (i - 1) (j - 1) n =
      Some (if map tolower x' = map tolower y' then Some (length p, length q) else None)"
    using Suc.IH [of x' y' "i - 1" "j - 1" "a # r" "b # s"] Suc.prems x y by simp
  ultimately show ?case using Suc.prems(3,4) x y by auto
qed

lemma match_loop_enc:
  assumes "labels_ok (a @ c)" and "labels_ok (b @ d)" and "length c = length d"
    and "k = length c + 1"
  shows "match_loop (enc (a @ c) @ r) (enc (b @ d) @ s) (len_bytes (a @ c)) (len_bytes (b @ d))
      (min (length (a @ c)) (length (b @ d))) k (length (enc_labels a)) (length (enc_labels b)) =
    Some (length c + common_labels a b,
      length (enc_labels (take (length a - common_labels a b) a)),
      length (enc_labels (take (length b - common_labels a b) b)))"
  using assms
proof (induction a arbitrary: b c d k rule: rev_induct)
  case Nil
  then show ?case by (subst match_loop.simps) (simp add: common_labels_def)
next
  case (snoc l a)
  show ?case
  proof (cases b rule: rev_cases)
    case Nil
    with snoc.prems show ?thesis by (subst match_loop.simps) (simp add: common_labels_def)
  next
    case b: (snoc b' m)
    let ?ms = "enc ((a @ [l]) @ c) @ r" and ?md = "enc ((b' @ [m]) @ d) @ s"
    let ?ls = "len_bytes ((a @ [l]) @ c)" and ?ld = "len_bytes ((b' @ [m]) @ d)"
    have k: "k \<le> min (length ((a @ [l]) @ c)) (length ((b' @ [m]) @ d))"
      using snoc.prems by simp
    have lens: "rd ?ls (length ?ls - k) = Some (of_nat (length l))"
      "rd ?ld (length ?ld - k) = Some (of_nat (length m))"
      using snoc.prems rd_at [of "len_bytes a" "length a"] rd_at [of "len_bytes b'" "length b'"]
      by (simp_all add: len_bytes_def)
    have ok: "0 < length l" "length l < 256" "0 < length m" "length m < 256"
      using snoc.prems b by simp_all
    show ?thesis
    proof (cases "length l = length m")
      case False
      then have "of_nat (length l) \<noteq> (of_nat (length m) :: byte)"
        using ok by (auto dest: of_nat_byte_inj)
      moreover have "map tolower l \<noteq> map tolower m" using False by (metis length_map)
      then have "common_labels (a @ [l]) b = 0" by (simp add: common_labels_def b)
      ultimately show ?thesis
        using k lens snoc.prems(4) b by (subst match_loop.simps) simp
    next
      case True
      have "?ms = (enc_labels a @ [of_nat (length l)]) @ l @ enc c @ r"
        "?md = (enc_labels b' @ [of_nat (length m)]) @ m @ enc d @ s"
        by (simp_all add: enc_def)
      then have chars: "match_chars ?ms ?md (length (enc_labels (a @ [l]))) (length (enc_labels (b' @ [m]))) (length l) =
          Some (if map tolower l = map tolower m then Some (length (enc_labels a) + 1, length (enc_labels b') + 1) else None)"
        using match_chars_labels [OF refl True [symmetric], of "enc_labels a @ [of_nat (length l)]" _
          "enc_labels b' @ [of_nat (length m)]" _ "enc c @ r" "enc d @ s"] True by simp
      show ?thesis
      proof (cases "map tolower l = map tolower m")
        case False
        then have "common_labels (a @ [l]) b = 0" by (simp add: common_labels_def b)
        with False k lens snoc.prems(4) b chars ok True show ?thesis
          by (subst match_loop.simps) simp
      next
        case eq: True
        have cl: "common_labels (a @ [l]) (b' @ [m]) = Suc (common_labels a b')"
          using eq by (simp add: common_labels_def)
        have ih: "match_loop ?ms ?md ?ls ?ld (min (length ((a @ [l]) @ c)) (length ((b' @ [m]) @ d)))
            (k + 1) (length (enc_labels a)) (length (enc_labels b')) =
          Some (Suc (length c) + common_labels a b',
            length (enc_labels (take (length a - common_labels a b') a)),
            length (enc_labels (take (length b' - common_labels a b') b')))"
          using snoc.IH [of "l # c" b' "m # d" "k + 1"] snoc.prems b by simp
        have tk: "take (length (a @ [l]) - Suc n) (a @ [l]) = take (length a - n) a" for n and a :: "bytes list" and l
          by simp
        show ?thesis
          using k lens chars ok True eq cl ih b
          by (subst match_loop.simps) (simp del: enc_labels_append)
      qed
    qed
  qed
qed

lemma domain_match_enc:
  assumes "labels_ok a" and "labels_ok b" and "length a \<le> 128" and "length b \<le> 128"
  shows "domain_match (enc a @ r) (enc b @ s) =
    Some (common_labels a b,
      length (enc_labels (take (length a - common_labels a b) a)),
      length (enc_labels (take (length b - common_labels a b) b)))"
  using assms match_loop_enc [of a "[]" b "[]" 1 r s]
    collect_lens_enc [of a "[]" 0 "[]" r] collect_lens_enc [of b "[]" 0 "[]" s]
  by (simp add: domain_match_def len_bytes_def)

text \<open>A name that fits the name buffer has at most 127 labels, so the assertion holds.\<close>

lemma dns_name_segments: "dns_name a \<Longrightarrow> length a \<le> 127"
proof -
  have "labels_ok a \<Longrightarrow> 2 * length a \<le> length (enc_labels a)"
  proof (induction a)
    case (Cons l a)
    then have "1 \<le> length l" by (cases l) auto
    with Cons show ?case by simp
  qed simp
  then show "dns_name a \<Longrightarrow> length a \<le> 127"
    by (auto simp: dns_name_def length_enc DNSNAMEBUFSIZE_def dest: dns_labels_ok)
qed

subsection \<open>Properties\<close>

text \<open>
  C26: \<open>domain_match\<close> on two valid names never fails its assertions and never reads outside
  the names. It returns the number \<open>m\<close> of labels of their longest common suffix (compared
  without regard to case): the last \<open>m\<close> labels agree, no longer suffixes do, and the two
  offsets it stores are the offsets of these suffixes in the two names.
\<close>

theorem domain_match_longest_suffix:
  assumes "dns_name a" and "dns_name b"
  shows "\<exists>m. domain_match (enc a @ r) (enc b @ s) =
      Some (m, length (enc_labels (take (length a - m) a)), length (enc_labels (take (length b - m) b))) \<and>
    m \<le> length a \<and> m \<le> length b \<and>
    fold_case (drop (length a - m) a) = fold_case (drop (length b - m) b) \<and>
    (\<forall>n. m < n \<and> n \<le> length a \<and> n \<le> length b \<longrightarrow>
       fold_case (drop (length a - n) a) \<noteq> fold_case (drop (length b - n) b))"
proof (intro exI [of _ "common_labels a b"] conjI allI impI)
  show "domain_match (enc a @ r) (enc b @ s) = Some (common_labels a b,
      length (enc_labels (take (length a - common_labels a b) a)),
      length (enc_labels (take (length b - common_labels a b) b)))"
    using assms dns_name_segments [of a] dns_name_segments [of b]
    by (intro domain_match_enc) (simp_all add: dns_name_labels_ok)
  show "common_labels a b \<le> length a" "common_labels a b \<le> length b"
    by (rule common_labels_le)+
  show "fold_case (drop (length a - common_labels a b) a) = fold_case (drop (length b - common_labels a b) b)"
    by (rule common_labels_suffix)
  fix n assume "common_labels a b < n \<and> n \<le> length a \<and> n \<le> length b"
  then show "fold_case (drop (length a - n) a) \<noteq> fold_case (drop (length b - n) b)"
    using common_labels_maximal [of n a b] by auto
qed

theorem domain_match_longest_suffix_witness:
  "dns_name [str ''www'', str ''Foo'', str ''org''] \<and> dns_name [str ''foo'', str ''org''] \<and>
   (\<exists>m. domain_match (enc [str ''www'', str ''Foo'', str ''org''] @ []) (enc [str ''foo'', str ''org''] @ []) =
      Some (m, length (enc_labels (take (3 - m) [str ''www'', str ''Foo'', str ''org''])),
               length (enc_labels (take (2 - m) [str ''foo'', str ''org'']))))"
proof -
  have a: "dns_name [str ''www'', str ''Foo'', str ''org'']" by code_simp
  have b: "dns_name [str ''foo'', str ''org'']" by code_simp
  have n: "length [str ''www'', str ''Foo'', str ''org''] = 3" "length [str ''foo'', str ''org''] = 2"
    by simp_all
  show ?thesis
    using a b domain_match_longest_suffix [OF a b, of "[]" "[]", unfolded n] by blast
qed

end
