(* ===== verification/Dns_Names.thy ===== *)
theory Dns_Names
  imports Names_Match
begin

text \<open>
  \<open>decompress_name\<close> and \<open>compress_name\<close> of \<open>dns.c\<close>. A specification \<open>name_at\<close> says which
  name a message holds at an offset, following compression pointers; \<open>decompress_name\<close> is
  shown to compute it, and \<open>compress_name\<close> to write names that it reads back.
\<close>

subsection \<open>Return codes\<close>

definition RC_OK :: nat where "RC_OK = 0"
definition RC_FORMAT :: nat where "RC_FORMAT = 1"
definition RC_SERVFAIL :: nat where "RC_SERVFAIL = 2"
definition RC_NAMEERR :: nat where "RC_NAMEERR = 3"
definition RC_NOTSUPP :: nat where "RC_NOTSUPP = 4"
definition RC_REFUSED :: nat where "RC_REFUSED = 5"
definition RC_TRUNC :: nat where "RC_TRUNC = 0xfffe"

lemmas rc_defs = RC_OK_def RC_FORMAT_def RC_SERVFAIL_def RC_NAMEERR_def RC_NOTSUPP_def
  RC_REFUSED_def RC_TRUNC_def

subsection \<open>decompress_name\<close>

text \<open>The offset in a compression pointer: \<open>((lb & 0x3f) << 8) | *lptr\<close>.\<close>

definition ptr_offset :: "byte \<Rightarrow> byte \<Rightarrow> nat" where
  "ptr_offset lb b2 = unat ((push_bit 8 (ucast (lb AND 0x3f)) :: 32 word) OR ucast b2)"

text \<open>
  The loop after the label \<open>jumped\<close>. \<open>Inl\<close>: an error code; \<open>Inr\<close>: the target buffer and its
  final position.
\<close>

function dn_loop2 ::
    "bytes \<Rightarrow> nat \<Rightarrow> nat \<Rightarrow> nat \<Rightarrow> bytes \<Rightarrow> nat \<Rightarrow> (nat + bytes \<times> nat) option" where
  "dn_loop2 msg msgsz lptr hops tgt tpos = do {
     lb \<leftarrow> rd msg lptr;
     if 0x3f < lb then
       (if lb < 0xc0 then Some (Inl RC_FORMAT)
        else if msgsz \<le> lptr + 1 then Some (Inl RC_FORMAT)
        else if \<not> hops < 255 then Some (Inl RC_FORMAT)
        else do {
          b2 \<leftarrow> rd msg (lptr + 1);
          let offs = ptr_offset lb b2;
          if msgsz \<le> offs then Some (Inl RC_FORMAT)
          else dn_loop2 msg msgsz offs (hops + 1) tgt tpos
        })
     else do {
       tgt1 \<leftarrow> wr tgt tpos lb;
       if lb = 0 then Some (Inr (tgt1, tpos + 1))
       else if msgsz \<le> lptr + 1 + unat lb then Some (Inl RC_FORMAT)
       else if DNSNAMEBUFSIZE - 1 < tpos + 1 + unat lb then Some (Inl RC_FORMAT)
       else do {
         l \<leftarrow> rd_all msg (lptr + 1) (unat lb);
         tgt2 \<leftarrow> wr_all tgt1 (tpos + 1) l;
         dn_loop2 msg msgsz (lptr + 1 + unat lb) hops tgt2 (tpos + 1 + unat lb)
       }
     }
   }"
  by pat_completeness auto
termination
  by (relation "measure (\<lambda>(msg, msgsz, lptr, hops, tgt, tpos). (256 - hops) + (256 - tpos))")
    (auto simp: DNSNAMEBUFSIZE_def)

text \<open>The first loop; the result also holds the number of bytes left in the data field.\<close>

function dn_loop1 ::
    "bytes \<Rightarrow> nat \<Rightarrow> nat \<Rightarrow> nat \<Rightarrow> bytes \<Rightarrow> nat \<Rightarrow> (nat + nat \<times> bytes \<times> nat) option" where
  "dn_loop1 msg msgsz lptr newsz tgt tpos = do {
     lb \<leftarrow> rd msg lptr;
     let newsz1 = newsz - 1;
     if 0x3f < lb then
       (if lb < 0xc0 then Some (Inl RC_FORMAT)
        else if newsz1 = 0 then Some (Inl RC_TRUNC)
        else if msgsz \<le> lptr + 1 then Some (Inl RC_FORMAT)
        else do {
          b2 \<leftarrow> rd msg (lptr + 1);
          let offs = ptr_offset lb b2;
          if msgsz \<le> offs then Some (Inl RC_FORMAT)
          else do {
            r \<leftarrow> dn_loop2 msg msgsz offs 1 tgt tpos;
            Some (case r of Inl rc \<Rightarrow> Inl rc | Inr (tgt', tpos') \<Rightarrow> Inr (newsz1 - 1, tgt', tpos'))
          }
        })
     else do {
       tgt1 \<leftarrow> wr tgt tpos lb;
       if lb = 0 then Some (Inr (newsz1, tgt1, tpos + 1))
       else if newsz1 \<le> unat lb then Some (Inl RC_TRUNC)
       else if msgsz \<le> lptr + 1 + unat lb then Some (Inl RC_FORMAT)
       else if DNSNAMEBUFSIZE - 1 < tpos + 1 + unat lb then Some (Inl RC_FORMAT)
       else do {
         l \<leftarrow> rd_all msg (lptr + 1) (unat lb);
         tgt2 \<leftarrow> wr_all tgt1 (tpos + 1) l;
         dn_loop1 msg msgsz (lptr + 1 + unat lb) (newsz1 - unat lb) tgt2 (tpos + 1 + unat lb)
       }
     }
   }"
  by pat_completeness auto
termination
  by (relation "measure (\<lambda>(msg, msgsz, lptr, newsz, tgt, tpos). 256 - tpos)")
    (auto simp: DNSNAMEBUFSIZE_def)

declare dn_loop1.simps [simp del] dn_loop2.simps [simp del]

text \<open>
  The arguments \<open>src\<close> and \<open>sz\<close> are the values behind the pointers of the code; a success
  returns their new values, the target buffer and the length of the name.
\<close>

definition decompress_name ::
    "bytes \<Rightarrow> nat \<Rightarrow> nat \<Rightarrow> nat \<Rightarrow> bytes \<Rightarrow> (nat + nat \<times> nat \<times> bytes \<times> nat) option" where
  "decompress_name msg msgsz src sz tgt =
     (if sz = 0 then Some (Inl RC_TRUNC)
      else if msgsz \<le> src then Some (Inl RC_FORMAT)
      else do {
        r \<leftarrow> dn_loop1 msg msgsz src sz tgt 0;
        Some (case r of Inl rc \<Rightarrow> Inl rc
          | Inr (newsz, tgt', tpos) \<Rightarrow> Inr (src + (sz - newsz), newsz, tgt', tpos))
      })"

subsection \<open>Specification: the name at an offset of a message\<close>

text \<open>
  \<open>name_at msg h n off ls\<close>: the labels \<open>ls\<close> are read at \<open>off\<close>, taking \<open>n\<close> bytes there and
  following \<open>h\<close> pointers.
\<close>

inductive name_at :: "bytes \<Rightarrow> nat \<Rightarrow> nat \<Rightarrow> nat \<Rightarrow> bytes list \<Rightarrow> bool" for msg where
  na_end: "rd msg off = Some 0 \<Longrightarrow> name_at msg 0 1 off []"
| na_label: "rd msg off = Some (of_nat (length l)) \<Longrightarrow> 0 < length l \<Longrightarrow> length l \<le> 63 \<Longrightarrow>
    rd_all msg (off + 1) (length l) = Some l \<Longrightarrow> name_at msg h n (off + 1 + length l) ls \<Longrightarrow>
    name_at msg h (n + 1 + length l) off (l # ls)"
| na_ptr: "rd msg off = Some b1 \<Longrightarrow> 0xc0 \<le> b1 \<Longrightarrow> rd msg (off + 1) = Some b2 \<Longrightarrow>
    name_at msg h n (ptr_offset b1 b2) ls \<Longrightarrow> name_at msg (Suc h) 2 off ls"

lemma name_at_dns_labels: "name_at msg h n off ls \<Longrightarrow> dns_labels ls"
  by (induction rule: name_at.induct) auto

lemma name_at_in_msg: "name_at msg h n off ls \<Longrightarrow> 0 < n \<and> off + n \<le> length msg"
  by (induction rule: name_at.induct) (auto simp: rd_Some_iff)

lemma of_nat_le_63: "n \<le> 63 \<Longrightarrow> \<not> 0x3f < (of_nat n :: byte)"
  by (simp add: word_less_nat_alt)

lemma name_at_pointer:
  assumes "rd msg off = Some b" and "0x3f < b"
  shows "name_at msg h n off ls \<longleftrightarrow> 0xc0 \<le> b \<and> n = 2 \<and>
    (\<exists>b2 h' n'. rd msg (off + 1) = Some b2 \<and> h = Suc h' \<and> name_at msg h' n' (ptr_offset b b2) ls)"
proof
  assume "name_at msg h n off ls"
  then show "0xc0 \<le> b \<and> n = 2 \<and>
    (\<exists>b2 h' n'. rd msg (off + 1) = Some b2 \<and> h = Suc h' \<and> name_at msg h' n' (ptr_offset b b2) ls)"
    using assms by cases (auto dest: of_nat_le_63)
next
  assume "0xc0 \<le> b \<and> n = 2 \<and>
    (\<exists>b2 h' n'. rd msg (off + 1) = Some b2 \<and> h = Suc h' \<and> name_at msg h' n' (ptr_offset b b2) ls)"
  then show "name_at msg h n off ls" using assms(1) by (auto intro: na_ptr)
qed

lemma name_at_zero:
  assumes "rd msg off = Some 0"
  shows "name_at msg h n off ls \<longleftrightarrow> h = 0 \<and> n = 1 \<and> ls = []"
proof
  assume "name_at msg h n off ls"
  then show "h = 0 \<and> n = 1 \<and> ls = []" using assms by cases auto
next
  assume "h = 0 \<and> n = 1 \<and> ls = []"
  with na_end [OF assms] show "name_at msg h n off ls" by simp
qed

lemma name_at_lab:
  assumes "rd msg off = Some b" and "\<not> 0x3f < b" and "b \<noteq> 0"
  shows "name_at msg h n off ls \<longleftrightarrow>
    (\<exists>l ls' n'. rd_all msg (off + 1) (unat b) = Some l \<and> ls = l # ls' \<and> n = n' + 1 + unat b \<and>
      name_at msg h n' (off + 1 + unat b) ls')"
proof
  assume "name_at msg h n off ls"
  then show "\<exists>l ls' n'. rd_all msg (off + 1) (unat b) = Some l \<and> ls = l # ls' \<and> n = n' + 1 + unat b \<and>
      name_at msg h n' (off + 1 + unat b) ls'"
  proof cases
    case na_end
    with assms show ?thesis by simp
  next
    case (na_label l n ls)
    with assms(1) have "unat b = unat (of_nat (length l) :: byte)" by simp
    also have "\<dots> = length l" using na_label by (intro unat_of_nat_byte) simp
    finally have "unat b = length l" .
    with na_label show ?thesis by auto
  next
    case (na_ptr b1)
    have "(0x3f :: byte) < 0xc0" by simp
    with na_ptr assms(1,2) show ?thesis by (metis less_le_trans option.inject)
  qed
next
  assume "\<exists>l ls' n'. rd_all msg (off + 1) (unat b) = Some l \<and> ls = l # ls' \<and> n = n' + 1 + unat b \<and>
      name_at msg h n' (off + 1 + unat b) ls'"
  then obtain l ls' n' where l: "rd_all msg (off + 1) (unat b) = Some l" "ls = l # ls'"
    "n = n' + 1 + unat b" "name_at msg h n' (off + 1 + unat b) ls'" by blast
  then have len: "length l = unat b" by (auto simp: rd_all_def split: if_splits)
  have "unat b \<le> 63" "0 < unat b" using assms(2,3) by (simp_all add: word_less_nat_alt unat_pos_iff)
  with l len assms(1) show "name_at msg h n off ls"
    using na_label [of msg off l h n' ls'] by simp
qed

lemma name_at_unique:
  "name_at msg h n off ls \<Longrightarrow> name_at msg h' n' off ls' \<Longrightarrow> h' = h \<and> n' = n \<and> ls' = ls"
proof (induction arbitrary: h' n' ls' rule: name_at.induct)
  case (na_end off)
  then show ?case by (simp add: name_at_zero)
next
  case (na_label off l h n ls)
  have nz: "of_nat (length l) \<noteq> (0 :: byte)" using na_label.hyps(2,3) by simp
  have len: "unat (of_nat (length l) :: byte) = length l" using na_label.hyps(3) by simp
  from name_at_lab [THEN iffD1, OF na_label.hyps(1) of_nat_le_63 [OF na_label.hyps(3)] nz na_label.prems]
  obtain m ls'' n'' where "rd_all msg (off + 1) (length l) = Some m" "ls' = m # ls''"
    "n' = n'' + 1 + length l" "name_at msg h' n'' (off + 1 + length l) ls''"
    unfolding len by blast
  moreover from this have "h' = h \<and> n'' = n \<and> ls'' = ls" by (intro na_label.IH)
  ultimately show ?case using na_label.hyps(4) by simp
next
  case (na_ptr off b1 b2 h n ls)
  have "(0x3f :: byte) < 0xc0" by simp
  then have big: "0x3f < b1" using na_ptr.hyps(2) by (rule less_le_trans)
  from name_at_pointer [THEN iffD1, OF na_ptr.hyps(1) big na_ptr.prems] na_ptr.hyps(3)
  obtain h'' n'' where "h' = Suc h''" "n' = 2" "name_at msg h'' n'' (ptr_offset b1 b2) ls'"
    by auto
  moreover from this have "h'' = h \<and> n'' = n \<and> ls' = ls" by (intro na_ptr.IH)
  ultimately show ?case by simp
qed

text \<open>Appending to a message changes no name in it.\<close>

lemma rd_append_Some: "rd a i = Some x \<Longrightarrow> rd (a @ b) i = Some x"
  by (auto simp: rd_Some_iff nth_append)

lemma rd_all_append_Some: "rd_all a i n = Some x \<Longrightarrow> rd_all (a @ b) i n = Some x"
  by (auto simp: rd_all_def split: if_splits)

lemma name_at_append: "name_at a h n off ls \<Longrightarrow> name_at (a @ b) h n off ls"
proof (induction rule: name_at.induct)
  case (na_end off)
  then show ?case by (intro name_at.na_end rd_append_Some)
next
  case (na_label off l h n ls)
  then show ?case by (intro name_at.na_label rd_append_Some rd_all_append_Some)
next
  case (na_ptr off b1 b2 h n ls)
  then show ?case by (intro name_at.na_ptr rd_append_Some)
qed

subsection \<open>decompress_name computes the specification\<close>

text \<open>Writing bytes at a position of the target buffer.\<close>

definition put :: "bytes \<Rightarrow> nat \<Rightarrow> bytes \<Rightarrow> bytes" where
  "put b i vs = take i b @ vs @ drop (i + length vs) b"

lemma wr_all_put: "i + length vs \<le> length b \<Longrightarrow> wr_all b i vs = Some (put b i vs)"
  by (simp add: wr_all_def put_def)

lemma wr_put: "i < length b \<Longrightarrow> wr b i v = Some (put b i [v])"
  by (simp add: wr_def put_def upd_conv_take_nth_drop)

lemma length_put [simp]: "i + length vs \<le> length b \<Longrightarrow> length (put b i vs) = length b"
  by (simp add: put_def)

lemma put_put: "i + length vs + length ws \<le> length b \<Longrightarrow>
    put (put b i vs) (i + length vs) ws = put b i (vs @ ws)"
  by (simp add: put_def add.assoc add.commute add.left_commute)

lemma take_put: "i \<le> length b \<Longrightarrow> take (i + length vs) (put b i vs) = take i b @ vs"
  by (simp add: put_def)

definition readable :: "bytes \<Rightarrow> nat \<Rightarrow> nat \<Rightarrow> nat \<Rightarrow> nat \<Rightarrow> nat \<Rightarrow> bytes list \<Rightarrow> bool" where
  "readable msg lptr hops tpos h n ls \<longleftrightarrow> name_at msg h n lptr ls \<and> hops + h \<le> 255 \<and>
     tpos + length (enc ls) \<le> DNSNAMEBUFSIZE"

definition dn2_spec :: "bytes \<Rightarrow> nat \<Rightarrow> nat \<Rightarrow> bytes \<Rightarrow> nat \<Rightarrow> nat + bytes \<times> nat \<Rightarrow> bool" where
  "dn2_spec msg lptr hops tgt tpos r = (case r of
      Inl rc \<Rightarrow> rc = RC_FORMAT \<and> \<not> (\<exists>h n ls. readable msg lptr hops tpos h n ls)
    | Inr (tgt', tpos') \<Rightarrow> \<exists>h n ls. readable msg lptr hops tpos h n ls \<and>
        tpos' = tpos + length (enc ls) \<and> tgt' = put tgt tpos (enc ls))"

lemma readable_pointer:
  assumes "rd msg lptr = Some b" and "0x3f < b"
  shows "readable msg lptr hops tpos h n ls \<longleftrightarrow> 0xc0 \<le> b \<and> n = 2 \<and>
    (\<exists>b2 h' n'. rd msg (lptr + 1) = Some b2 \<and> h = Suc h' \<and>
       readable msg (ptr_offset b b2) (hops + 1) tpos h' n' ls)"
  by (auto simp: readable_def name_at_pointer [OF assms])

lemma readable_lab:
  assumes "rd msg lptr = Some b" and "\<not> 0x3f < b" and "b \<noteq> 0"
  shows "readable msg lptr hops tpos h n ls \<longleftrightarrow>
    (\<exists>l ls' n'. rd_all msg (lptr + 1) (unat b) = Some l \<and> ls = l # ls' \<and> n = n' + 1 + unat b \<and>
      readable msg (lptr + 1 + unat b) hops (tpos + 1 + unat b) h n' ls')"
  by (auto simp: readable_def name_at_lab [OF assms] rd_all_def)

lemma readable_bounds:
  "readable msg lptr hops tpos h n ls \<Longrightarrow> lptr < length msg \<and> tpos < DNSNAMEBUFSIZE \<and> 0 < n \<and> hops \<le> 255"
  using name_at_in_msg [of msg h n lptr ls] by (auto simp: readable_def length_enc)

lemma put_label:
  assumes "rd msg lptr = Some lb" and "rd_all msg (lptr + 1) (unat lb) = Some l"
    and "tpos + 1 + unat lb + length (enc ls) \<le> length tgt"
  shows "put (put (put tgt tpos [lb]) (tpos + 1) l) (tpos + 1 + unat lb) (enc ls) = put tgt tpos (enc (l # ls))"
proof -
  have l: "length l = unat lb" using assms(2) by (auto simp: rd_all_def split: if_splits)
  then have lb: "of_nat (length l) = lb" by simp
  have "put (put tgt tpos [lb]) (tpos + 1) l = put tgt tpos ([lb] @ l)"
    using put_put [of tpos "[lb]" l tgt] assms(3) l by simp
  moreover have "put (put tgt tpos ([lb] @ l)) (tpos + length ([lb] @ l)) (enc ls) = put tgt tpos (([lb] @ l) @ enc ls)"
    using assms(3) l by (intro put_put) simp
  ultimately show ?thesis using l lb by simp
qed

lemma dn_loop2_returns:
  assumes "length msg = msgsz" and "lptr < msgsz" and "tpos < DNSNAMEBUFSIZE"
    and "DNSNAMEBUFSIZE \<le> length tgt" and "hops \<le> 255"
  shows "returns (dn_loop2 msg msgsz lptr hops tgt tpos) (dn2_spec msg lptr hops tgt tpos)"
  using assms
proof (induction msg msgsz lptr hops tgt tpos rule: dn_loop2.induct)
  case (1 msg msgsz lptr hops tgt tpos)
  obtain lb where lb: "rd msg lptr = Some lb"
    using "1.prems" by (auto simp: rd_def)
  show ?case
  proof (cases "0x3f < lb")
    case ptr: True
    note readable = readable_pointer [OF lb ptr]
    show ?thesis
    proof (cases "0xc0 \<le> lb \<and> lptr + 1 < msgsz \<and> hops < 255")
      case False
      then have "\<not> readable msg lptr hops tpos h n ls" for h n ls
        using "1.prems"(1) by (auto simp: readable rd_Some_iff dest: readable_bounds)
      with False lb ptr show ?thesis
        by (subst dn_loop2.simps) (auto simp: dn2_spec_def not_le)
    next
      case True
      then obtain b2 where b2: "rd msg (lptr + 1) = Some b2"
        using "1.prems"(1) by (auto simp: rd_def)
      show ?thesis
      proof (cases "msgsz \<le> ptr_offset lb b2")
        case out: True
        then have "\<not> readable msg lptr hops tpos h n ls" for h n ls
          using "1.prems"(1) b2 by (auto simp: readable dest: readable_bounds)
        with out True lb ptr b2 show ?thesis
          by (subst dn_loop2.simps) (auto simp: dn2_spec_def not_le Let_def)
      next
        case inside: False
        have "returns (dn_loop2 msg msgsz (ptr_offset lb b2) (hops + 1) tgt tpos)
            (dn2_spec msg (ptr_offset lb b2) (hops + 1) tgt tpos)"
          using "1.IH"(1) [OF lb ptr _ _ _ b2 refl] True inside "1.prems" by (auto simp: not_le)
        moreover have "dn2_spec msg (ptr_offset lb b2) (hops + 1) tgt tpos r \<Longrightarrow>
            dn2_spec msg lptr hops tgt tpos r" for r
          using True b2 by (auto simp: dn2_spec_def readable split: sum.splits)
        ultimately have "returns (dn_loop2 msg msgsz (ptr_offset lb b2) (hops + 1) tgt tpos)
            (dn2_spec msg lptr hops tgt tpos)" by (rule returns_mono)
        with lb ptr b2 inside True show ?thesis
          by (subst dn_loop2.simps) (auto simp: not_le Let_def)
      qed
    qed
  next
    case lab: False
    have w: "wr tgt tpos lb = Some (put tgt tpos [lb])"
      using "1.prems" by (simp add: wr_put)
    show ?thesis
    proof (cases "lb = 0")
      case True
      with lb have "readable msg lptr hops tpos 0 1 []"
        using "1.prems" by (auto simp: readable_def name_at_zero DNSNAMEBUFSIZE_def)
      with True w lb show ?thesis
        by (subst dn_loop2.simps) (auto simp: dn2_spec_def intro!: exI)
    next
      case nz: False
      note readable = readable_lab [OF lb lab nz]
      show ?thesis
      proof (cases "lptr + 1 + unat lb < msgsz \<and> tpos + 1 + unat lb \<le> DNSNAMEBUFSIZE - 1")
        case False
        then have "\<not> readable msg lptr hops tpos h n ls" for h n ls
          using "1.prems"(1) by (auto simp: readable dest: readable_bounds)
        with False lb lab nz w show ?thesis
          by (subst dn_loop2.simps) (auto simp: dn2_spec_def not_le)
      next
        case True
        then obtain l where l: "rd_all msg (lptr + 1) (unat lb) = Some l" "length l = unat lb"
          using "1.prems"(1) by (auto simp: rd_all_def)
        define tgt2 where "tgt2 = put (put tgt tpos [lb]) (tpos + 1) l"
        have w2: "wr_all (put tgt tpos [lb]) (tpos + 1) l = Some tgt2"
          using True "1.prems" l by (simp add: wr_all_put tgt2_def DNSNAMEBUFSIZE_def)
        have len2: "length tgt2 = length tgt"
          using True "1.prems" l by (simp add: tgt2_def DNSNAMEBUFSIZE_def)
        have "returns (dn_loop2 msg msgsz (lptr + 1 + unat lb) hops tgt2 (tpos + 1 + unat lb))
            (dn2_spec msg (lptr + 1 + unat lb) hops tgt2 (tpos + 1 + unat lb))"
          using "1.IH"(2) [OF lb lab w nz _ _ l(1) w2] True "1.prems" len2
          by (auto simp: DNSNAMEBUFSIZE_def)
        moreover have "dn2_spec msg (lptr + 1 + unat lb) hops tgt2 (tpos + 1 + unat lb) r \<Longrightarrow>
            dn2_spec msg lptr hops tgt tpos r" for r
        proof (cases r)
          case (Inl rc)
          then show "dn2_spec msg (lptr + 1 + unat lb) hops tgt2 (tpos + 1 + unat lb) r \<Longrightarrow> ?thesis"
            using l by (auto simp: dn2_spec_def readable)
        next
          case (Inr x)
          assume "dn2_spec msg (lptr + 1 + unat lb) hops tgt2 (tpos + 1 + unat lb) r"
          with Inr obtain t p h n ls where x: "r = Inr (t, p)"
              "readable msg (lptr + 1 + unat lb) hops (tpos + 1 + unat lb) h n ls"
              "p = tpos + 1 + unat lb + length (enc ls)" "t = put tgt2 (tpos + 1 + unat lb) (enc ls)"
            by (cases x) (auto simp: dn2_spec_def)
          then have "readable msg lptr hops tpos h (n + 1 + unat lb) (l # ls)"
            using l by (auto simp: readable)
          moreover have "t = put tgt tpos (enc (l # ls))"
            using x(2,4) "1.prems" put_label [OF lb l(1)] by (simp add: tgt2_def readable_def)
          moreover have "p = tpos + length (enc (l # ls))" using x(3) l(2) by simp
          ultimately show ?thesis unfolding x(1) dn2_spec_def sum.case prod.case by blast
        qed
        ultimately have "returns (dn_loop2 msg msgsz (lptr + 1 + unat lb) hops tgt2 (tpos + 1 + unat lb))
            (dn2_spec msg lptr hops tgt tpos)" by (rule returns_mono)
        with lb lab nz w w2 l True show ?thesis
          by (subst dn_loop2.simps) auto
      qed
    qed
  qed
qed

text \<open>What the first loop returns: a name that also fits the data field.\<close>

definition dn1_spec :: "bytes \<Rightarrow> nat \<Rightarrow> nat \<Rightarrow> bytes \<Rightarrow> nat \<Rightarrow> nat + nat \<times> bytes \<times> nat \<Rightarrow> bool" where
  "dn1_spec msg lptr newsz tgt tpos r = (case r of
      Inl rc \<Rightarrow> (rc = RC_FORMAT \<or> rc = RC_TRUNC) \<and>
        \<not> (\<exists>h n ls. readable msg lptr 0 tpos h n ls \<and> n \<le> newsz)
    | Inr (newsz', tgt', tpos') \<Rightarrow> \<exists>h n ls. readable msg lptr 0 tpos h n ls \<and> n \<le> newsz \<and>
        newsz' = newsz - n \<and> tpos' = tpos + length (enc ls) \<and> tgt' = put tgt tpos (enc ls))"

lemma dn_loop1_returns:
  assumes "length msg = msgsz" and "lptr < msgsz" and "tpos < DNSNAMEBUFSIZE"
    and "DNSNAMEBUFSIZE \<le> length tgt" and "0 < newsz"
  shows "returns (dn_loop1 msg msgsz lptr newsz tgt tpos) (dn1_spec msg lptr newsz tgt tpos)"
  using assms
proof (induction msg msgsz lptr newsz tgt tpos rule: dn_loop1.induct)
  case (1 msg msgsz lptr newsz tgt tpos)
  obtain lb where lb: "rd msg lptr = Some lb"
    using "1.prems" by (auto simp: rd_def)
  show ?case
  proof (cases "0x3f < lb")
    case ptr: True
    note readable = readable_pointer [OF lb ptr]
    show ?thesis
    proof (cases "0xc0 \<le> lb \<and> newsz - 1 \<noteq> 0 \<and> lptr + 1 < msgsz")
      case False
      then have "\<not> (readable msg lptr 0 tpos h n ls \<and> n \<le> newsz)" for h n ls
        using "1.prems"(1) by (auto simp: readable rd_Some_iff)
      with False lb ptr show ?thesis
        by (subst dn_loop1.simps) (auto simp: dn1_spec_def not_le Let_def)
    next
      case True
      then obtain b2 where b2: "rd msg (lptr + 1) = Some b2"
        using "1.prems"(1) by (auto simp: rd_def)
      show ?thesis
      proof (cases "msgsz \<le> ptr_offset lb b2")
        case out: True
        then have "\<not> readable msg lptr 0 tpos h n ls" for h n ls
          using "1.prems"(1) b2 by (auto simp: readable dest: readable_bounds)
        with out True lb ptr b2 show ?thesis
          by (subst dn_loop1.simps) (auto simp: dn1_spec_def not_le Let_def)
      next
        case inside: False
        have "returns (dn_loop2 msg msgsz (ptr_offset lb b2) 1 tgt tpos)
            (dn2_spec msg (ptr_offset lb b2) 1 tgt tpos)"
          using inside "1.prems" by (intro dn_loop2_returns) auto
        then obtain r where r: "dn_loop2 msg msgsz (ptr_offset lb b2) 1 tgt tpos = Some r"
          "dn2_spec msg (ptr_offset lb b2) 1 tgt tpos r" by (rule returnsE)
        have "dn1_spec msg lptr newsz tgt tpos
            (case r of Inl rc \<Rightarrow> Inl rc | Inr (tgt', tpos') \<Rightarrow> Inr (newsz - 1 - 1, tgt', tpos'))"
        proof (cases r)
          case (Inl rc)
          with r(2) True b2 show ?thesis by (auto simp: dn1_spec_def dn2_spec_def readable)
        next
          case (Inr x)
          with r(2) obtain t p h n ls where x: "r = Inr (t, p)"
              "readable msg (ptr_offset lb b2) 1 tpos h n ls" "p = tpos + length (enc ls)"
              "t = put tgt tpos (enc ls)"
            by (cases x) (auto simp: dn2_spec_def)
          have "readable msg lptr 0 tpos (Suc h) 2 ls" using x(2) b2 True by (auto simp: readable)
          moreover have "2 \<le> newsz \<and> newsz - 1 - 1 = newsz - 2" using True by auto
          ultimately show ?thesis
            using x(3,4) unfolding x(1) dn1_spec_def sum.case prod.case by blast
        qed
        with r(1) lb ptr b2 inside True show ?thesis
          by (subst dn_loop1.simps) (auto simp: not_le Let_def simp del: One_nat_def)
      qed
    qed
  next
    case lab: False
    have w: "wr tgt tpos lb = Some (put tgt tpos [lb])"
      using "1.prems" by (simp add: wr_put)
    show ?thesis
    proof (cases "lb = 0")
      case True
      with lb have "readable msg lptr 0 tpos 0 1 []"
        using "1.prems" by (auto simp: readable_def name_at_zero DNSNAMEBUFSIZE_def)
      moreover have "1 \<le> newsz" using "1.prems" by simp
      ultimately have "dn1_spec msg lptr newsz tgt tpos (Inr (newsz - 1, put tgt tpos [0], tpos + 1))"
        unfolding dn1_spec_def sum.case prod.case by (intro exI [of _ 0] exI [of _ 1] exI [of _ "[]"]) simp
      with True w lb show ?thesis by (subst dn_loop1.simps) (simp add: Let_def)
    next
      case nz: False
      note readable = readable_lab [OF lb lab nz]
      show ?thesis
      proof (cases "unat lb < newsz - 1 \<and> lptr + 1 + unat lb < msgsz \<and> tpos + 1 + unat lb \<le> DNSNAMEBUFSIZE - 1")
        case False
        have "\<not> (readable msg lptr 0 tpos h n ls \<and> n \<le> newsz)" for h n ls
          using "1.prems"(1) False by (auto simp: readable dest!: readable_bounds)
        with False lb lab nz w show ?thesis
          by (subst dn_loop1.simps) (auto simp: dn1_spec_def not_le not_less Let_def)
      next
        case True
        then obtain l where l: "rd_all msg (lptr + 1) (unat lb) = Some l" "length l = unat lb"
          using "1.prems"(1) by (auto simp: rd_all_def)
        define tgt2 where "tgt2 = put (put tgt tpos [lb]) (tpos + 1) l"
        have w2: "wr_all (put tgt tpos [lb]) (tpos + 1) l = Some tgt2"
          using True "1.prems" l by (simp add: wr_all_put tgt2_def DNSNAMEBUFSIZE_def)
        have len2: "length tgt2 = length tgt"
          using True "1.prems" l by (simp add: tgt2_def DNSNAMEBUFSIZE_def)
        have "returns (dn_loop1 msg msgsz (lptr + 1 + unat lb) (newsz - 1 - unat lb) tgt2 (tpos + 1 + unat lb))
            (dn1_spec msg (lptr + 1 + unat lb) (newsz - 1 - unat lb) tgt2 (tpos + 1 + unat lb))"
          using "1.IH" [OF lb refl lab w nz _ _ _ l(1) w2] True "1.prems" len2
          by (auto simp: DNSNAMEBUFSIZE_def)
        moreover have "dn1_spec msg (lptr + 1 + unat lb) (newsz - 1 - unat lb) tgt2 (tpos + 1 + unat lb) r \<Longrightarrow>
            dn1_spec msg lptr newsz tgt tpos r" for r
        proof (cases r)
          case (Inl rc)
          then show "dn1_spec msg (lptr + 1 + unat lb) (newsz - 1 - unat lb) tgt2 (tpos + 1 + unat lb) r \<Longrightarrow> ?thesis"
            using l True by (fastforce simp: dn1_spec_def readable le_diff_conv2)
        next
          case (Inr x)
          assume "dn1_spec msg (lptr + 1 + unat lb) (newsz - 1 - unat lb) tgt2 (tpos + 1 + unat lb) r"
          with Inr obtain z t p h n ls where x: "r = Inr (z, t, p)"
              "readable msg (lptr + 1 + unat lb) 0 (tpos + 1 + unat lb) h n ls" "n \<le> newsz - 1 - unat lb"
              "z = newsz - 1 - unat lb - n"
              "p = tpos + 1 + unat lb + length (enc ls)" "t = put tgt2 (tpos + 1 + unat lb) (enc ls)"
            by (cases x) (auto simp: dn1_spec_def)
          then have "readable msg lptr 0 tpos h (n + 1 + unat lb) (l # ls)"
            using l by (auto simp: readable)
          moreover have "n + 1 + unat lb \<le> newsz \<and> z = newsz - (n + 1 + unat lb)"
            using x(3,4) True by auto
          moreover have "t = put tgt tpos (enc (l # ls))"
            using x(2,6) "1.prems" put_label [OF lb l(1)] by (simp add: tgt2_def readable_def)
          moreover have "p = tpos + length (enc (l # ls))" using x(5) l(2) by simp
          ultimately show ?thesis unfolding x(1) dn1_spec_def sum.case prod.case by blast
        qed
        ultimately have "returns (dn_loop1 msg msgsz (lptr + 1 + unat lb) (newsz - 1 - unat lb) tgt2 (tpos + 1 + unat lb))
            (dn1_spec msg lptr newsz tgt tpos)" by (rule returns_mono)
        with lb lab nz w w2 l True show ?thesis
          by (subst dn_loop1.simps) (auto simp: Let_def)
      qed
    qed
  qed
qed

text \<open>The names \<open>decompress_name\<close> accepts in a field of \<open>sz\<close> bytes.\<close>

definition field_name :: "bytes \<Rightarrow> nat \<Rightarrow> nat \<Rightarrow> nat \<Rightarrow> bytes list \<Rightarrow> bool" where
  "field_name msg src sz n ls \<longleftrightarrow> n \<le> sz \<and> dns_name ls \<and> (\<exists>h \<le> 255. name_at msg h n src ls)"

lemma field_name_readable:
  "field_name msg src sz n ls \<longleftrightarrow> n \<le> sz \<and> (\<exists>h. readable msg src 0 0 h n ls)"
  by (auto simp: field_name_def readable_def dns_name_def dest: name_at_dns_labels)

lemma decompress_name_returns:
  assumes "length msg = msgsz" and "DNSNAMEBUFSIZE \<le> length tgt"
  shows "returns (decompress_name msg msgsz src sz tgt) (\<lambda>r. case r of
      Inl rc \<Rightarrow> (rc = RC_FORMAT \<or> rc = RC_TRUNC) \<and> \<not> (\<exists>n ls. field_name msg src sz n ls)
    | Inr (src', sz', tgt', len) \<Rightarrow> \<exists>n ls. field_name msg src sz n ls \<and>
        src' = src + n \<and> sz' = sz - n \<and> len = length (enc ls) \<and>
        length tgt' = length tgt \<and> take len tgt' = enc ls)"
proof (cases "sz = 0 \<or> msgsz \<le> src")
  case True
  then have "\<not> field_name msg src sz n ls" for n ls
    using assms by (auto simp: field_name_def dest: name_at_in_msg)
  with True show ?thesis by (auto simp: decompress_name_def)
next
  case False
  have "returns (dn_loop1 msg msgsz src sz tgt 0) (dn1_spec msg src sz tgt 0)"
    using assms False by (intro dn_loop1_returns) (auto simp: DNSNAMEBUFSIZE_def)
  then obtain r where r: "dn_loop1 msg msgsz src sz tgt 0 = Some r" "dn1_spec msg src sz tgt 0 r"
    by (rule returnsE)
  show ?thesis
  proof (cases r)
    case (Inl rc)
    with r False show ?thesis
      by (auto simp: decompress_name_def dn1_spec_def field_name_readable)
  next
    case (Inr x)
    with r obtain z t p h n ls where x: "r = Inr (z, t, p)" "readable msg src 0 0 h n ls" "n \<le> sz"
        "z = sz - n" "p = length (enc ls)" "t = put tgt 0 (enc ls)"
      by (cases x) (auto simp: dn1_spec_def)
    have "length (enc ls) \<le> length tgt" using x(2) assms(2) by (simp add: readable_def)
    then have "length t = length tgt \<and> take p t = enc ls"
      using x(5,6) by (simp add: put_def)
    moreover have "field_name msg src sz n ls" using x(2,3) by (auto simp: field_name_readable)
    ultimately show ?thesis using x r(1) False by (auto simp: decompress_name_def)
  qed
qed

text \<open>
  C1: \<open>decompress_name\<close> is total and memory-safe on every message, and computes the name the
  message holds: if a name of the DNS (labels of at most 63 bytes, at most 256 bytes in all) is
  read at \<open>src\<close> with at most 255 compression pointers and takes \<open>n \<le> sz\<close> bytes there, the
  name, its length and the advanced source are returned; otherwise, in particular for a pointer
  loop, an error code is returned.
\<close>
theorem decompress_name_correct:
  assumes "DNSNAMEBUFSIZE \<le> length tgt"
  shows "returns (decompress_name msg (length msg) src sz tgt) (\<lambda>r. case r of
      Inl rc \<Rightarrow> (rc = RC_FORMAT \<or> rc = RC_TRUNC) \<and>
        \<not> (\<exists>n ls h. n \<le> sz \<and> dns_name ls \<and> h \<le> 255 \<and> name_at msg h n src ls)
    | Inr (src', sz', tgt', len) \<Rightarrow>
        \<exists>n ls h. n \<le> sz \<and> dns_name ls \<and> h \<le> 255 \<and> name_at msg h n src ls \<and>
          src' = src + n \<and> sz' = sz - n \<and> len = length (enc ls) \<and>
          length tgt' = length tgt \<and> take len tgt' = enc ls)"
  using decompress_name_returns [OF refl assms, of msg src sz]
  by (rule returns_mono) (fastforce simp: field_name_def split: sum.splits)

theorem decompress_name_correct_witness:
  "returns (decompress_name [1, 97, 0, 1, 98, 0xc0, 0] (length [1, 97, 0, 1, 98, 0xc0, 0 :: byte]) 3 4
      (replicate 256 0)) (\<lambda>r. case r of Inl rc \<Rightarrow> False
    | Inr (src', sz', tgt', len) \<Rightarrow> \<exists>ls. src' = 7 \<and> sz' = 0 \<and> take len tgt' = enc ls)"
proof -
  have "DNSNAMEBUFSIZE \<le> length (replicate 256 (0 :: byte))" by (simp add: DNSNAMEBUFSIZE_def)
  note c = decompress_name_correct [OF this, of "[1, 97, 0, 1, 98, 0xc0, 0]" 3 4]
  have e: "decompress_name [1, 97, 0, 1, 98, 0xc0, 0] (length [1, 97, 0, 1, 98, 0xc0, 0 :: byte]) 3 4
      (replicate 256 0) = Some (Inr (7, 0, [1, 98, 1, 97, 0] @ replicate 251 0, 5))" by code_simp
  from c show ?thesis unfolding e by auto
qed

text \<open>Reading the name of a field into a buffer of the size the code uses.\<close>

lemma decompress_name_at:
  assumes "ptr + sz \<le> length data"
  obtains (bad) rc where "decompress_name data (length data) ptr sz (replicate DNSNAMEBUFSIZE 0) = Some (Inl rc)" "rc = RC_FORMAT \<or> rc = RC_TRUNC"
  | (name) ptr' sz' ls b where "decompress_name data (length data) ptr sz (replicate DNSNAMEBUFSIZE 0) = Some (Inr (ptr', sz', b, length (enc ls)))"
    "dns_name ls" "rd_all b 0 (length (enc ls)) = Some (enc ls)" "ptr' + sz' = ptr + sz" "ptr \<le> ptr'"
proof -
  let ?t = "replicate DNSNAMEBUFSIZE (0 :: byte)"
  have "DNSNAMEBUFSIZE \<le> length ?t" by simp
  from decompress_name_returns [OF refl this, of data ptr sz] obtain r where
    r: "decompress_name data (length data) ptr sz ?t = Some r" "case r of
      Inl rc \<Rightarrow> (rc = RC_FORMAT \<or> rc = RC_TRUNC) \<and> \<not> (\<exists>n ls. field_name data ptr sz n ls)
    | Inr (src', sz', tgt', len) \<Rightarrow> \<exists>n ls. field_name data ptr sz n ls \<and>
        src' = ptr + n \<and> sz' = sz - n \<and> len = length (enc ls) \<and> length tgt' = length ?t \<and> take len tgt' = enc ls"
    by (auto simp: returns_def split: option.splits)
  show thesis
  proof (cases r)
    case (Inl rc)
    with r bad show thesis by simp
  next
    case (Inr x)
    obtain src' sz' b len where x: "x = (src', sz', b, len)" by (cases x)
    from r(2) obtain n ls where n: "field_name data ptr sz n ls" "src' = ptr + n" "sz' = sz - n" "len = length (enc ls)"
      "length b = DNSNAMEBUFSIZE" "take len b = enc ls" unfolding Inr x by auto
    have d: "n \<le> sz" "dns_name ls" using n(1) by (auto simp: field_name_def)
    have "rd_all b 0 (length (enc ls)) = Some (enc ls)" using n(4-6) d(2) by (simp add: rd_all_def dns_name_def)
    with r(1) Inr x n d show thesis by (intro name [of "ptr + n" "sz - n" b ls]) simp_all
  qed
qed

end
