(* ===== verification/Dns_Compress.thy ===== *)
theory Dns_Compress
  imports Dns_Names
begin

text \<open>
  \<open>compress_name\<close> of \<open>dns.c\<close>, with its list \<open>cb\<close> of names already written into the message.
  The invariant \<open>cb_inv\<close> describes the message and the list after any sequence of writes; from
  it follows that every name written is read back by \<open>decompress_name\<close>.
\<close>

subsection \<open>compress_name\<close>

text \<open>A list element \<open>compel_t\<close>: the offset \<open>index\<close> in the message and the name \<open>s\<close>.\<close>

type_synonym compel = "nat \<times> bytes"

text \<open>The loop over the list; the accumulator is \<open>(longest, lrem, coffs)\<close>.\<close>

fun find_longest :: "bytes \<Rightarrow> compel list \<Rightarrow> nat \<times> nat \<times> 32 word \<Rightarrow> (nat \<times> nat \<times> 32 word) option" where
  "find_longest nm [] acc = Some acc"
| "find_longest nm ((idx, s) # cb) (longest, lrem, coffs) = do {
     (rv, rem, to) \<leftarrow> domain_match nm s;
     let newoffs = (of_nat idx + of_nat to :: 32 word);
     find_longest nm cb
       (if longest < rv \<and> newoffs \<le> 0x3fff then (rv, rem, newoffs) else (longest, lrem, coffs))
   }"

text \<open>
  \<open>alloc\<close> is the outcome of \<open>dlist_grow\<close>; on failure that function frees the list and returns
  \<open>NULL\<close>. The result: the returned length, the output buffer and the list.
\<close>

definition compress_name ::
    "bytes \<Rightarrow> bytes \<Rightarrow> nat \<Rightarrow> compel list \<Rightarrow> bool \<Rightarrow> (nat \<times> bytes \<times> compel list) option" where
  "compress_name nm out offs cb alloc = do {
     ilen \<leftarrow> rhnlen nm;
     if \<not> ilen \<le> DNSNAMEBUFSIZE then None
     else do {
       (longest, lrem, coffs) \<leftarrow> find_longest nm cb (0, 0, 0);
       (out', rl, add) \<leftarrow>
         (if 0 < longest then
            (if \<not> lrem + 2 \<le> ilen then None
             else do {
               pre \<leftarrow> rd_all nm 0 lrem;
               o1 \<leftarrow> wr_all out 0 pre;
               o2 \<leftarrow> wr o1 lrem (0xc0 OR ucast (drop_bit 8 (coffs AND 0x3f00)));
               o3 \<leftarrow> wr o2 (lrem + 1) (ucast (coffs AND 0xff));
               Some (o3, lrem + 2, lrem \<noteq> 0)
             })
          else do {
            pre \<leftarrow> rd_all nm 0 ilen;
            o1 \<leftarrow> wr_all out 0 pre;
            Some (o1, ilen, True)
          });
       if add then
         (if alloc then do { s \<leftarrow> rd_all nm 0 ilen; Some (rl, out', cb @ [(offs, s)]) }
          else Some (0, out', []))
       else Some (rl, out', cb)
     }
   }"

subsection \<open>Compression pointers\<close>

lemma ptr_offset_arith: "ptr_offset b1 b2 = 256 * (unat b1 mod 64) + unat b2"
proof -
  have d: "push_bit 8 (ucast (b1 AND 0x3f)) AND ucast b2 = (0 :: 32 word)"
    by (rule bit_eqI) (auto simp: bit_simps dest: bit_imp_le_length)
  have e: "b1 AND 0x3f = take_bit 6 b1" by (simp add: take_bit_eq_mask mask_eq_exp_minus_1)
  have "ptr_offset b1 b2 = unat (push_bit 8 (ucast (b1 AND 0x3f)) + ucast b2 :: 32 word)"
    unfolding ptr_offset_def disjunctive_add_eq_or [OF d] ..
  also have "\<dots> = 256 * (unat b1 mod 64) + unat b2"
  proof -
    have "unat b1 mod 64 < 64" by simp
    moreover have "unat b2 < 256" by (rule unat_byte_less)
    ultimately have "256 * (unat b1 mod 64) + unat b2 < 4294967296" by linarith
    then show ?thesis
      by (simp add: e push_bit_eq_mult unat_word_ariths unsigned_take_bit_eq take_bit_eq_mod unsigned_ucast_eq)
  qed
  finally show ?thesis .
qed

lemma ptr_bytes:
  fixes coffs :: "32 word"
  assumes "coffs \<le> 0x3fff"
  shows "unat (0xc0 OR ucast (drop_bit 8 (coffs AND 0x3f00)) :: byte) = 192 + unat coffs div 256"
    and "unat (ucast (coffs AND 0xff) :: byte) = unat coffs mod 256"
proof -
  have "coffs AND 0xff = take_bit 8 coffs" by (simp add: take_bit_eq_mask mask_eq_exp_minus_1)
  then show "unat (ucast (coffs AND 0xff) :: byte) = unat coffs mod 256"
    by (simp add: unsigned_ucast_eq take_bit_eq_mod unat_mod_distrib)
  have le: "unat coffs \<le> 0x3fff" using assms by (simp add: word_le_nat_alt)
  have a: "(0x3f00 :: 32 word) = push_bit 8 (mask 6)" by (simp add: mask_eq_exp_minus_1 push_bit_eq_mult)
  have t: "drop_bit 8 (coffs AND 0x3f00) = take_bit 6 (drop_bit 8 coffs)"
    unfolding a by (rule bit_eqI) (auto simp: bit_simps dest: bit_imp_le_length)
  have u: "unat (ucast (drop_bit 8 (coffs AND 0x3f00)) :: byte) = unat coffs div 256"
    unfolding t using le by (simp add: unsigned_ucast_eq take_bit_eq_mod drop_bit_eq_div unat_mod_distrib unat_div_distrib)
  have c: "(0xc0 :: byte) = push_bit 6 (mask 2)" by (simp add: mask_eq_exp_minus_1 push_bit_eq_mult)
  have d: "0xc0 AND ucast (drop_bit 8 (coffs AND 0x3f00)) = (0 :: byte)"
    unfolding t c by (rule bit_eqI) (auto simp: bit_simps)
  show "unat (0xc0 OR ucast (drop_bit 8 (coffs AND 0x3f00)) :: byte) = 192 + unat coffs div 256"
    unfolding disjunctive_add_eq_or [OF d, symmetric] unat_word_ariths(1) u using le by simp
qed

lemma ptr_offset_encode:
  fixes coffs :: "32 word"
  assumes "coffs \<le> 0x3fff"
  shows "ptr_offset (0xc0 OR ucast (drop_bit 8 (coffs AND 0x3f00))) (ucast (coffs AND 0xff)) = unat coffs"
proof -
  have "unat coffs div 256 < 64" using assms by (auto simp: word_le_nat_alt)
  then have "(192 + unat coffs div 256) mod 64 = unat coffs div 256" by (simp add: mod_add_eq [symmetric, of 192])
  then show ?thesis unfolding ptr_offset_arith ptr_bytes [OF assms] by simp
qed

lemma ptr_byte_ge:
  fixes coffs :: "32 word"
  assumes "coffs \<le> 0x3fff"
  shows "(0xc0 :: byte) \<le> 0xc0 OR ucast (drop_bit 8 (coffs AND 0x3f00))"
  unfolding word_le_nat_alt ptr_bytes(1) [OF assms] by simp

subsection \<open>The invariant of the list\<close>

text \<open>The offset of the last \<open>m\<close> labels in an encoded name.\<close>

definition suffix_off :: "bytes list \<Rightarrow> nat \<Rightarrow> nat" where
  "suffix_off ls m = length (enc_labels (take (length ls - m) ls))"

lemma suffix_off_all [simp]: "suffix_off ls (length ls) = 0"
  by (simp add: suffix_off_def)

lemma length_enc_labels_append_le: "length (enc_labels (take i ls)) \<le> length (enc_labels ls)"
  by (metis append_take_drop_id enc_labels_append le_add1 length_append)

lemma suffix_off_mono:
  assumes "m \<le> k"
  shows "suffix_off ls k \<le> suffix_off ls m"
proof -
  have "take (length ls - k) (take (length ls - m) ls) = take (length ls - k) ls"
    using assms by (simp add: min_def)
  then show ?thesis
    unfolding suffix_off_def by (metis length_enc_labels_append_le)
qed

lemma suffix_off_lt_enc: "suffix_off ls m < length (enc ls)"
  using length_enc_labels_append_le [of "length ls - m" ls] by (simp add: suffix_off_def length_enc)

text \<open>
  A written name, with what the list does not record: its labels and the number of trailing
  labels that were replaced by a pointer.
\<close>

type_synonym written = "nat \<times> bytes list \<times> nat"

definition ent :: "written \<Rightarrow> compel" where
  "ent g = (case g of (idx, ls, c) \<Rightarrow> (idx, enc ls))"

definition same_name :: "bytes list \<Rightarrow> bytes list \<Rightarrow> bool" where
  "same_name a b \<longleftrightarrow> fold_case a = fold_case b"

definition suffix_of :: "bytes list \<Rightarrow> nat \<Rightarrow> bytes list" where
  "suffix_of ls m = drop (length ls - m) ls"

text \<open>
  A written name is readable from each label not replaced, with at most as many pointers as
  labels replaced, and the replaced labels occur in an earlier name of the list. The unreplaced
  parts lie in the message in the order of the list.
\<close>

definition written_ok :: "bytes \<Rightarrow> written list \<Rightarrow> written \<Rightarrow> bool" where
  "written_ok msg gs g = (case g of (idx, ls, c) \<Rightarrow>
     dns_name ls \<and> c \<le> length ls \<and>
     (\<forall>m. c \<le> m \<and> m \<le> length ls \<longrightarrow> (\<exists>h n ls'. h \<le> c \<and>
        name_at msg h n (idx + suffix_off ls m) ls' \<and> same_name ls' (suffix_of ls m))) \<and>
     (0 < c \<longrightarrow> (\<exists>(idx', ls', c') \<in> set gs. c \<le> common_labels ls ls')) \<and>
     (\<forall>(idx', ls', c') \<in> set gs. idx' + suffix_off ls' c' < idx))"

inductive cb_inv :: "bytes \<Rightarrow> written list \<Rightarrow> bool" for msg where
  cb_empty: "cb_inv msg []"
| cb_name: "cb_inv msg gs \<Longrightarrow> written_ok msg gs g \<Longrightarrow> cb_inv msg (gs @ [g])"

inductive_simps cb_inv_snoc: "cb_inv msg (gs @ [g])"

lemma written_ok_append: "written_ok msg gs g \<Longrightarrow> written_ok (msg @ x) gs g"
  unfolding written_ok_def by (cases g) (simp, meson name_at_append)

lemma cb_inv_append: "cb_inv msg gs \<Longrightarrow> cb_inv (msg @ x) gs"
  by (induction rule: cb_inv.induct) (auto intro: cb_inv.intros written_ok_append)

lemma cb_inv_written:
  "cb_inv msg gs \<Longrightarrow> g \<in> set gs \<Longrightarrow> \<exists>hs. (\<exists>ts. gs = hs @ g # ts) \<and> written_ok msg hs g"
proof (induction rule: cb_inv.induct)
  case (cb_name gs g')
  then show ?case by (cases "g = g'") force+
qed simp

lemma cb_inv_split: "cb_inv msg (hs @ g # ts) \<Longrightarrow> written_ok msg hs g"
proof (induction ts rule: rev_induct)
  case (snoc t ts)
  then show ?case using cb_inv_snoc [of msg "hs @ g # ts" t] by simp
qed (simp add: cb_inv_snoc)

lemma cb_inv_prefix: "cb_inv msg (hs @ ts) \<Longrightarrow> cb_inv msg hs"
  by (induction ts rule: rev_induct) (simp_all add: cb_inv_snoc flip: append_assoc)

text \<open>The names agree up to case on the labels both share.\<close>

lemma common_labels_trans:
  assumes "m \<le> common_labels a b" and "m \<le> common_labels b c"
  shows "m \<le> common_labels a c"
proof -
  have cut: "fold_case (drop (length x - m) x) = fold_case (drop (length y - m) y)"
    if "m \<le> common_labels x y" for x y
  proof -
    have "fold_case (drop (length x - m) x) = drop (common_labels x y - m) (fold_case (drop (length x - common_labels x y) x))"
      using that common_labels_le(1) [of x y] by (simp add: fold_case_def drop_map)
    also have "\<dots> = drop (common_labels x y - m) (fold_case (drop (length y - common_labels x y) y))"
      by (rule arg_cong [OF common_labels_suffix])
    also have "\<dots> = fold_case (drop (length y - m) y)"
      using that common_labels_le(2) [of x y] by (simp add: fold_case_def drop_map)
    finally show ?thesis .
  qed
  have "m \<le> length a" "m \<le> length c"
    using assms common_labels_le(1) [of a b] common_labels_le(2) [of b c] by auto
  then show ?thesis using cut [OF assms(1)] cut [OF assms(2)] by (intro common_labels_maximal) auto
qed

lemma common_labels_sym: "common_labels a b = common_labels b a"
  using common_labels_maximal [of "common_labels a b" b a] common_labels_maximal [of "common_labels b a" a b]
    common_labels_suffix [of a b] common_labels_suffix [of b a]
    common_labels_le [of a b] common_labels_le [of b a]
  by (intro antisym) auto

text \<open>The first name of the list sharing \<open>m\<close> labels with a name has them unreplaced.\<close>

lemma first_sharing:
  assumes "cb_inv msg gs" and "(idx, ls, c) \<in> set gs" and "m \<le> common_labels nm ls" and "0 < m"
  shows "\<exists>hs idx' ls' c' ts. gs = hs @ (idx', ls', c') # ts \<and> m \<le> common_labels nm ls' \<and> c' < m"
  using assms
proof (induction arbitrary: idx ls c rule: cb_inv.induct)
  case (cb_name gs g)
  show ?case
  proof (cases "\<exists>(i, l, k) \<in> set gs. m \<le> common_labels nm l")
    case True
    then obtain i l k where "(i, l, k) \<in> set gs" "m \<le> common_labels nm l" by blast
    from cb_name.IH [OF this cb_name.prems(3)] show ?thesis by (metis append_Cons append_assoc)
  next
    case none: False
    with cb_name.prems(1,2) have g: "g = (idx, ls, c)" by auto
    have "c < m"
    proof (rule ccontr)
      assume "\<not> c < m"
      then have "m \<le> c" "0 < c" using cb_name.prems(3) by auto
      with cb_name.hyps(2) obtain i l k where "(i, l, k) \<in> set gs" "m \<le> common_labels ls l"
        unfolding g written_ok_def by fastforce
      with common_labels_trans [OF cb_name.prems(2)] none show False by blast
    qed
    with g cb_name.prems(2) show ?thesis by blast
  qed
qed simp

subsection \<open>The longest usable suffix\<close>

lemma find_longest_append:
  "find_longest nm (cb @ cb') acc = Option.bind (find_longest nm cb acc) (find_longest nm cb')"
proof (induction cb arbitrary: acc)
  case (Cons e cb)
  obtain idx s longest lrem coffs where e: "e = (idx, s)" "acc = (longest, lrem, coffs)"
    by (cases e; cases acc)
  show ?case unfolding e
    by (cases "domain_match nm s") (simp_all add: Let_def Cons.IH split: prod.splits)
qed simp

text \<open>What the loop finds; \<open>m = 0\<close> when no suffix is usable.\<close>

definition usable :: "bytes list \<Rightarrow> written \<Rightarrow> bool" where
  "usable nm g = (case g of (idx, ls, c) \<Rightarrow> idx + suffix_off ls (common_labels nm ls) \<le> 0x3fff)"

definition shared :: "bytes list \<Rightarrow> written \<Rightarrow> nat" where
  "shared nm g = common_labels nm (fst (snd g))"

definition found :: "bytes list \<Rightarrow> written list \<Rightarrow> nat \<Rightarrow> nat \<Rightarrow> 32 word \<Rightarrow> bool" where
  "found nm gs m lrem coffs \<longleftrightarrow>
     (\<forall>g \<in> set gs. shared nm g \<le> m \<or> \<not> usable nm g) \<and>
     (m = 0 \<or> (\<exists>hs idx ls c ts. gs = hs @ (idx, ls, c) # ts \<and> m = common_labels nm ls \<and>
        lrem = suffix_off nm m \<and> unat coffs = idx + suffix_off ls m \<and> coffs \<le> 0x3fff \<and>
        (\<forall>g \<in> set hs. shared nm g < m \<or> \<not> usable nm g)))"

lemma find_longest_found:
  assumes "dns_name nm" and "\<forall>(idx, ls, c) \<in> set gs. dns_name ls \<and> idx + DNSNAMEBUFSIZE < 2 ^ 32"
  shows "\<exists>m lrem coffs. find_longest (enc nm) (map ent gs) (0, 0, 0) = Some (m, lrem, coffs) \<and>
    found nm gs m lrem coffs"
  using assms(2)
proof (induction gs rule: rev_induct)
  case Nil
  then show ?case by (simp add: found_def)
next
  case (snoc g gs)
  then obtain m lrem coffs where IH: "find_longest (enc nm) (map ent gs) (0, 0, 0) = Some (m, lrem, coffs)"
    "found nm gs m lrem coffs" by auto
  obtain idx ls c where g: "g = (idx, ls, c)" by (cases g)
  with snoc.prems have ls: "dns_name ls" "idx + DNSNAMEBUFSIZE < 2 ^ 32" by auto
  let ?k = "common_labels nm ls"
  have "domain_match (enc nm @ []) (enc ls @ []) = Some (?k, suffix_off nm ?k, suffix_off ls ?k)"
    using assms(1) ls(1) dns_name_segments [of nm] dns_name_segments [of ls]
    unfolding suffix_off_def by (intro domain_match_enc) (auto intro: dns_name_labels_ok)
  moreover have "suffix_off ls ?k < DNSNAMEBUFSIZE"
    using suffix_off_lt_enc [of ls ?k] ls(1) by (simp add: dns_name_def)
  moreover from this ls(2) have "idx + suffix_off ls ?k < 2 ^ 32" by linarith
  then have "unat (of_nat idx + of_nat (suffix_off ls ?k) :: 32 word) = idx + suffix_off ls ?k"
    by (simp add: unat_of_nat flip: of_nat_add)
  note u = this
  ultimately have step: "find_longest (enc nm) (map ent (gs @ [g])) (0, 0, 0) =
      Some (if m < ?k \<and> idx + suffix_off ls ?k \<le> 0x3fff
            then (?k, suffix_off nm ?k, of_nat idx + of_nat (suffix_off ls ?k)) else (m, lrem, coffs))"
    using IH(1) by (simp add: find_longest_append g ent_def Let_def word_le_nat_alt)
  show ?case
  proof (cases "m < ?k \<and> idx + suffix_off ls ?k \<le> 0x3fff")
    case True
    have before: "\<forall>g' \<in> set gs. shared nm g' < ?k \<or> \<not> usable nm g'"
      using IH(2) True by (auto simp: found_def)
    have "\<forall>g' \<in> set (gs @ [g]). shared nm g' \<le> ?k \<or> \<not> usable nm g'"
      using before by (auto simp: g shared_def)
    moreover have "gs @ [g] = gs @ (idx, ls, c) # []" using g by simp
    ultimately have "found nm (gs @ [g]) ?k (suffix_off nm ?k) (of_nat idx + of_nat (suffix_off ls ?k))"
      using before True u unfolding found_def word_le_nat_alt
      by (intro conjI disjI2 exI [of _ gs] exI [of _ idx] exI [of _ ls] exI [of _ c] exI [of _ "[]"]) simp_all
    with True step show ?thesis by auto
  next
    case False
    have new: "shared nm g \<le> m \<or> \<not> usable nm g" using False by (auto simp: shared_def usable_def g)
    have "found nm (gs @ [g]) m lrem coffs"
    proof (cases "m = 0")
      case True
      with IH(2) new show ?thesis by (simp add: found_def)
    next
      case pos: False
      with IH(2) obtain hs i l k ts where c: "gs = hs @ (i, l, k) # ts" "m = common_labels nm l"
        "lrem = suffix_off nm m" "unat coffs = i + suffix_off l m" "coffs \<le> 0x3fff"
        "\<forall>g \<in> set hs. shared nm g < m \<or> \<not> usable nm g" by (auto simp: found_def)
      then have "gs @ [g] = hs @ (i, l, k) # (ts @ [g])" by simp
      with c(2-6) IH(2) new show ?thesis unfolding found_def by (metis Un_iff empty_iff empty_set set_ConsD set_append)
    qed
    moreover have "find_longest (enc nm) (map ent (gs @ [g])) (0, 0, 0) = Some (m, lrem, coffs)"
      using step False by simp
    ultimately show ?thesis by blast
  qed
qed

text \<open>
  The suffix found lies in the unreplaced part of a name of the list, so a pointer to it is
  readable: an earlier name sharing the labels would have been taken, unless it lies behind
  offset \<open>0x3fff\<close>, and then the later one does, too.
\<close>

lemma found_readable:
  assumes "cb_inv msg gs" and "found nm gs m lrem coffs" and "0 < m"
  shows "lrem = suffix_off nm m \<and> coffs \<le> 0x3fff \<and> m \<le> length nm \<and>
    (\<exists>h n ls. h < m \<and> name_at msg h n (unat coffs) ls \<and> same_name ls (suffix_of nm m))"
proof -
  from assms(2,3) obtain hs idx ls c ts where f: "gs = hs @ (idx, ls, c) # ts" "m = common_labels nm ls"
    "lrem = suffix_off nm m" "unat coffs = idx + suffix_off ls m" "coffs \<le> 0x3fff"
    "\<forall>g \<in> set hs. shared nm g < m \<or> \<not> usable nm g"
    by (auto simp: found_def)
  have w: "written_ok msg hs (idx, ls, c)" using assms(1) unfolding f(1) by (rule cb_inv_split)
  have "c < m"
  proof (rule ccontr)
    assume "\<not> c < m"
    then have c: "m \<le> c" "0 < c" using assms(3) by auto
    with w obtain i l k where "(i, l, k) \<in> set hs" "c \<le> common_labels ls l"
      by (fastforce simp: written_ok_def)
    moreover from this c(1) have "m \<le> common_labels nm l"
      using f(2) by (intro common_labels_trans [of m nm ls l]) auto
    ultimately have i: "(i, l, k) \<in> set hs" "m \<le> common_labels nm l" by blast+
    have "cb_inv msg hs" using assms(1) unfolding f(1) by (rule cb_inv_prefix)
    from first_sharing [OF this i assms(3)] obtain hs' i' l' k' ts' where
      first: "hs = hs' @ (i', l', k') # ts'" "m \<le> common_labels nm l'" "k' < m" by blast
    then have mem: "(i', l', k') \<in> set hs" by simp
    with f(6) first(2) have "0x3fff < i' + suffix_off l' (common_labels nm l')"
      by (force simp: shared_def usable_def)
    also have "\<dots> \<le> i' + suffix_off l' k'" using first(2,3) by (simp add: suffix_off_mono)
    also have "\<dots> < idx" using w mem by (auto simp: written_ok_def)
    finally show False using f(4,5) by (simp add: word_le_nat_alt)
  qed
  have le: "m \<le> length nm" "m \<le> length ls" using f(2) common_labels_le [of nm ls] by auto
  from w \<open>c < m\<close> le(2) obtain h n ls' where r: "h \<le> c" "name_at msg h n (unat coffs) ls'" "same_name ls' (suffix_of ls m)"
    unfolding f(4) written_ok_def prod.case by (meson less_imp_le)
  have "fold_case (suffix_of ls m) = fold_case (suffix_of nm m)"
    unfolding suffix_of_def f(2) by (rule common_labels_suffix [symmetric])
  with r(3) have n: "same_name ls' (suffix_of nm m)" by (simp add: same_name_def)
  have "h < m" using r(1) \<open>c < m\<close> by simp
  show ?thesis
    by (intro conjI exI [of _ h] exI [of _ n] exI [of _ ls'] f(3,5) le(1) n r(2) \<open>h < m\<close>)
qed

subsection \<open>Written names are read back\<close>

lemma name_at_labels:
  "dns_labels as \<Longrightarrow> name_at (p @ enc_labels as @ r) h n (length p + length (enc_labels as)) ls \<Longrightarrow>
   name_at (p @ enc_labels as @ r) h (n + length (enc_labels as)) (length p) (as @ ls)"
proof (induction as arbitrary: p)
  case (Cons l as)
  let ?p = "p @ enc_label l"
  have m: "p @ enc_labels (l # as) @ r = ?p @ enc_labels as @ r" by (simp add: enc_label_def)
  have l: "0 < length l" "length l \<le> 63" using Cons.prems(1) by auto
  have tail: "name_at (p @ enc_labels (l # as) @ r) h (n + length (enc_labels as)) (length p + 1 + length l) (as @ ls)"
    using Cons.IH [of ?p] Cons.prems unfolding m by (simp add: enc_label_def add.assoc)
  have "rd (p @ enc_labels (l # as) @ r) (length p) = Some (of_nat (length l))" by (simp add: rd_len_byte)
  moreover have "rd_all (p @ enc_labels (l # as) @ r) (length p + 1) (length l) = Some l"
    by (simp add: rd_all_def)
  ultimately show ?case using na_label [OF _ l _ tail] by (simp add: add_ac)
qed simp

text \<open>
  The message after a name was written whose last \<open>m\<close> labels are at the position behind the
  others.
\<close>

lemma written_suffixes:
  assumes "dns_name ls" and "m \<le> k" and "k \<le> length ls"
    and "name_at (msg @ enc_labels (take (length ls - m) ls) @ t) h n (length msg + suffix_off ls m) ls'"
    and "same_name ls' (suffix_of ls m)"
  shows "\<exists>ls''. name_at (msg @ enc_labels (take (length ls - m) ls) @ t) h
      (n + (suffix_off ls m - suffix_off ls k)) (length msg + suffix_off ls k) ls'' \<and>
    same_name ls'' (suffix_of ls k)"
proof -
  let ?front = "take (length ls - k) ls"
  let ?mid = "drop (length ls - k) (take (length ls - m) ls)"
  have cut: "take (length ls - m) ls = ?front @ ?mid"
    using assms(2) append_take_drop_id [of "length ls - k" "take (length ls - m) ls"] by (simp add: min_absorb1)
  have "suffix_of ls k = ?mid @ suffix_of ls m"
  proof -
    have "suffix_of ls k = drop (length ls - k) (take (length ls - m) ls @ drop (length ls - m) ls)"
      by (simp add: suffix_of_def)
    also have "\<dots> = ?mid @ suffix_of ls m"
      using assms(2,3) by (simp add: suffix_of_def del: append_take_drop_id drop_take)
    finally show ?thesis .
  qed
  then have "same_name (?mid @ ls') (suffix_of ls k)"
    using assms(5) by (simp add: same_name_def fold_case_def)
  moreover have m: "msg @ enc_labels (take (length ls - m) ls) @ t = (msg @ enc_labels ?front) @ enc_labels ?mid @ t"
    by (subst cut) simp
  moreover have "suffix_off ls m = suffix_off ls k + length (enc_labels ?mid)"
    unfolding suffix_off_def by (subst cut) simp
  moreover have "dns_labels ?mid"
    using assms(1) by (auto simp: dns_name_def dns_labels_def dest!: in_set_dropD in_set_takeD)
  moreover from calculation have "name_at ((msg @ enc_labels ?front) @ enc_labels ?mid @ t) h
      (n + length (enc_labels ?mid)) (length (msg @ enc_labels ?front)) (?mid @ ls')"
    using assms(4) unfolding m by (intro name_at_labels) (simp_all add: suffix_off_def add.assoc)
  ultimately show ?thesis by (auto simp: suffix_off_def add.assoc)
qed

text \<open>What the two branches of the code write at the front of \<open>out\<close>.\<close>

lemma compress_name_full:
  assumes "dns_name ls" and "length (enc ls) \<le> length out"
    and "find_longest (enc ls) cb (0, 0, 0) = Some (0, lrem, coffs)"
  shows "\<exists>out'. compress_name (enc ls) out offs cb True =
      Some (length (enc ls), out', cb @ [(offs, enc ls)]) \<and> length out' = length out \<and>
    take (length (enc ls)) out' = enc ls"
  using assms dns_name_labels_ok [OF assms(1)]
  by (simp add: compress_name_def dns_name_def rd_all_def wr_all_def)

lemma suffix_off_room:
  assumes "dns_labels ls" and "0 < m" and "m \<le> length ls"
  shows "suffix_off ls m + 2 \<le> length (enc ls)"
proof -
  have ls: "ls = take (length ls - m) ls @ suffix_of ls m" by (simp add: suffix_of_def)
  from assms(2,3) obtain x xs where x: "suffix_of ls m = x # xs"
    by (cases "suffix_of ls m") (auto simp: suffix_of_def)
  then have "x \<in> set ls" by (metis ls Un_iff list.set_intros(1) set_append)
  then have "0 < length x" using assms(1) by (auto simp: dns_labels_def)
  moreover have "length (enc ls) = suffix_off ls m + length (enc (suffix_of ls m))"
    by (subst ls) (simp add: suffix_off_def enc_append)
  ultimately show ?thesis by (simp add: x length_enc)
qed

lemma compress_name_pointer:
  assumes "dns_name ls" and "length (enc ls) \<le> length out"
    and "find_longest (enc ls) cb (0, 0, 0) = Some (m, suffix_off ls m, coffs)"
    and "0 < m" and "m \<le> length ls"
  shows "\<exists>out'. compress_name (enc ls) out offs cb True = Some (suffix_off ls m + 2, out',
      (if suffix_off ls m \<noteq> 0 then cb @ [(offs, enc ls)] else cb)) \<and> length out' = length out \<and>
    take (suffix_off ls m + 2) out' = enc_labels (take (length ls - m) ls) @
      [0xc0 OR ucast (drop_bit 8 (coffs AND 0x3f00)), ucast (coffs AND 0xff)]"
proof -
  let ?l = "suffix_off ls m"
  let ?b1 = "0xc0 OR ucast (drop_bit 8 (coffs AND 0x3f00)) :: byte"
  let ?b2 = "ucast (coffs AND 0xff) :: byte"
  define o1 where "o1 = enc_labels (take (length ls - m) ls) @ drop ?l out"
  have room: "?l + 2 \<le> length (enc ls)"
    using assms(1,4,5) by (intro suffix_off_room) (simp_all add: dns_name_def)
  have front: "take ?l (enc ls) = enc_labels (take (length ls - m) ls)"
    unfolding enc_append [of "take (length ls - m) ls" "drop (length ls - m) ls", unfolded append_take_drop_id]
    by (simp add: suffix_off_def)
  have r: "rd_all (enc ls) 0 ?l = Some (enc_labels (take (length ls - m) ls))"
    using room front by (simp add: rd_all_def)
  have w1: "wr_all out 0 (enc_labels (take (length ls - m) ls)) = Some o1"
    using room assms(2) by (simp add: wr_all_def o1_def suffix_off_def)
  have len: "length o1 = length out" "?l + 2 \<le> length o1"
    using room assms(2) by (auto simp: o1_def suffix_off_def)
  have w2: "wr o1 ?l ?b1 = Some (o1[?l := ?b1])" using len by (simp add: wr_in)
  have w3: "wr (o1[?l := ?b1]) (?l + 1) ?b2 = Some (o1[?l := ?b1, ?l + 1 := ?b2])"
    using len by (simp add: wr_in)
  have "take ?l o1 = enc_labels (take (length ls - m) ls)" by (simp add: o1_def suffix_off_def)
  then have t: "take (?l + 2) (o1[?l := ?b1, ?l + 1 := ?b2]) = enc_labels (take (length ls - m) ls) @ [?b1, ?b2]"
    using len by (simp add: take_Suc_conv_app_nth)
  have all: "rd_all (enc ls) 0 (length (enc ls)) = Some (enc ls)" by (simp add: rd_all_def)
  have "compress_name (enc ls) out offs cb True = Some (?l + 2, o1[?l := ?b1, ?l + 1 := ?b2],
      (if ?l \<noteq> 0 then cb @ [(offs, enc ls)] else cb))"
    using assms(1,4) dns_name_labels_ok [OF assms(1)] room r w1 w2 w3 all
    by (simp add: compress_name_def assms(3) dns_name_def)
  with t len show ?thesis by simp
qed

lemma same_name_dns:
  assumes "same_name a b" and "dns_name b"
  shows "dns_name a" and "length (enc a) = length (enc b)"
proof -
  have "map (map tolower) a = map (map tolower) b" using assms(1) by (simp add: same_name_def fold_case_def)
  from arg_cong [OF this, of "map length"] have len: "map length a = map length b" by (simp add: comp_def)
  have enc_len: "length (enc x) = sum_list (map length x) + length x + 1" for x
    by (induction x) auto
  show e: "length (enc a) = length (enc b)"
    unfolding enc_len len using map_eq_imp_length_eq [OF len] by simp
  have "\<forall>n \<in> set (map length b). 0 < n \<and> n \<le> 63" using assms(2) by (auto simp: dns_name_def dns_labels_def)
  then have "dns_labels a" unfolding len [symmetric] by (auto simp: dns_labels_def)
  with e assms(2) show "dns_name a" by (simp add: dns_name_def)
qed

lemma cb_inv_index:
  assumes "cb_inv msg gs" and "(idx, ls, c) \<in> set gs"
  shows "dns_name ls \<and> idx + suffix_off ls c < length msg"
proof -
  from cb_inv_written [OF assms] obtain hs where "written_ok msg hs (idx, ls, c)" by blast
  then obtain h n ls' where "dns_name ls" "name_at msg h n (idx + suffix_off ls c) ls'"
    unfolding written_ok_def by auto
  with name_at_in_msg show ?thesis by fastforce
qed

text \<open>The new element of the list satisfies its part of the invariant.\<close>

lemma written_ok_new:
  assumes "cb_inv msg gs" and "dns_name ls" and "m \<le> length ls"
    and "name_at (msg @ enc_labels (take (length ls - m) ls) @ t) h n (length msg + suffix_off ls m) ls'"
    and "same_name ls' (suffix_of ls m)" and "h \<le> m"
    and "0 < m \<longrightarrow> (\<exists>(i, l, k) \<in> set gs. m \<le> common_labels ls l)"
  shows "written_ok (msg @ enc_labels (take (length ls - m) ls) @ t) gs (length msg, ls, m)"
proof -
  have "\<exists>h n ls''. h \<le> m \<and> name_at (msg @ enc_labels (take (length ls - m) ls) @ t) h n
      (length msg + suffix_off ls k) ls'' \<and> same_name ls'' (suffix_of ls k)"
    if "m \<le> k" "k \<le> length ls" for k
    using written_suffixes [OF assms(2) that assms(4,5)] assms(6) by blast
  moreover have "\<forall>(i, l, k) \<in> set gs. i + suffix_off l k < length msg"
    using cb_inv_index [OF assms(1)] by blast
  ultimately show ?thesis using assms(2,3,7) unfolding written_ok_def prod.case by blast
qed

lemma compress_step:
  assumes "cb_inv msg gs" and "dns_name ls" and "length (enc ls) \<le> length out"
    and "length msg + DNSNAMEBUFSIZE < 2 ^ 32"
  shows "\<exists>rl out' gs'. compress_name (enc ls) out (length msg) (map ent gs) True = Some (rl, out', map ent gs') \<and>
    length out' = length out \<and> 0 < rl \<and> rl \<le> length (enc ls) \<and> cb_inv (msg @ take rl out') gs' \<and>
    (\<exists>h ls'. h \<le> 127 \<and> name_at (msg @ take rl out') h rl (length msg) ls' \<and> same_name ls' ls)"
proof -
  have "\<forall>(idx, l, c) \<in> set gs. dns_name l \<and> idx + DNSNAMEBUFSIZE < 2 ^ 32"
    using cb_inv_index [OF assms(1)] assms(4) by fastforce
  from find_longest_found [OF assms(2) this] obtain m lrem coffs where
    f: "find_longest (enc ls) (map ent gs) (0, 0, 0) = Some (m, lrem, coffs)" "found ls gs m lrem coffs" by blast
  have sfx: "suffix_of ls (length ls) = ls" by (simp add: suffix_of_def)
  have inv: "cb_inv (msg @ x) gs" for x using assms(1) by (rule cb_inv_append)
  show ?thesis
  proof (cases "m = 0")
    case True
    from compress_name_full [OF assms(2,3) f(1) [unfolded True], of "length msg"] obtain out' where
      o: "compress_name (enc ls) out (length msg) (map ent gs) True =
        Some (length (enc ls), out', map ent gs @ [(length msg, enc ls)])"
      "length out' = length out" "take (length (enc ls)) out' = enc ls" by blast
    have msg': "msg @ take (length (enc ls)) out' = msg @ enc_labels (take (length ls - 0) ls) @ [0]"
      unfolding o(3) by (simp add: enc_def)
    have z: "name_at (msg @ enc_labels (take (length ls - 0) ls) @ [0]) 0 1 (length msg + suffix_off ls 0) []"
      by (rule na_end) (simp add: suffix_off_def rd_Some_iff nth_append)
    have "same_name [] (suffix_of ls 0)" by (simp add: same_name_def suffix_of_def)
    note z = z this
    from written_suffixes [OF assms(2) _ _ z, of "length ls"] obtain ls' where
      "name_at (msg @ take (length (enc ls)) out') 0 (length (enc ls)) (length msg) ls'" "same_name ls' ls"
      unfolding msg' sfx by (auto simp: suffix_off_def length_enc)
    moreover have "cb_inv (msg @ take (length (enc ls)) out') (gs @ [(length msg, ls, 0)])"
      using written_ok_new [OF assms(1,2) _ z] inv unfolding msg' by (intro cb_name) auto
    moreover have "map ent gs @ [(length msg, enc ls)] = map ent (gs @ [(length msg, ls, 0)])"
      by (simp add: ent_def)
    moreover have "0 < length (enc ls)" by (simp add: length_enc)
    ultimately show ?thesis using o(1,2) by (metis le0 order_refl)
  next
    case False
    then have m: "0 < m" by simp
    from found_readable [OF assms(1) f(2) m] obtain h n ls' where
      r: "lrem = suffix_off ls m" "coffs \<le> 0x3fff" "m \<le> length ls" "h < m" "name_at msg h n (unat coffs) ls'"
        "same_name ls' (suffix_of ls m)" by blast
    from f(2) m have share: "\<exists>(i, l, k) \<in> set gs. m \<le> common_labels ls l"
      by (auto simp: found_def)
    let ?t = "[0xc0 OR ucast (drop_bit 8 (coffs AND 0x3f00)), ucast (coffs AND 0xff)] :: bytes"
    let ?msg = "msg @ enc_labels (take (length ls - m) ls) @ ?t"
    from compress_name_pointer [OF assms(2,3) f(1) [unfolded r(1)] m r(3), of "length msg"] obtain out' where
      o: "compress_name (enc ls) out (length msg) (map ent gs) True = Some (suffix_off ls m + 2, out',
        (if suffix_off ls m \<noteq> 0 then map ent gs @ [(length msg, enc ls)] else map ent gs))"
      "length out' = length out" "msg @ take (suffix_off ls m + 2) out' = ?msg" by auto
    have "rd ?msg (length msg + suffix_off ls m) = Some (?t ! 0)"
      "rd ?msg (length msg + suffix_off ls m + 1) = Some (?t ! 1)"
      by (simp_all add: suffix_off_def rd_Some_iff nth_append)
    note bytes = this
    have "0xc0 \<le> ?t ! 0" unfolding nth_Cons_0 by (rule ptr_byte_ge [OF r(2)])
    moreover have "ptr_offset (?t ! 0) (?t ! 1) = unat coffs"
      unfolding nth_Cons_0 nth_Cons_Suc One_nat_def by (rule ptr_offset_encode [OF r(2)])
    ultimately have p: "name_at ?msg (Suc h) 2 (length msg + suffix_off ls m) ls'"
      using na_ptr [OF bytes(1) _ bytes(2), of h n ls'] name_at_append [OF r(5)] by simp
    note p = p r(6)
    from written_suffixes [OF assms(2) r(3) order_refl p] obtain ls'' where
      "name_at ?msg (Suc h) (suffix_off ls m + 2) (length msg) ls''" "same_name ls'' ls"
      unfolding sfx by (auto simp: add.commute)
    note reads = this
    let ?gs = "if suffix_off ls m \<noteq> 0 then gs @ [(length msg, ls, m)] else gs"
    have h: "Suc h \<le> 127" using r(3,4) dns_name_segments [OF assms(2)] by simp
    have inv': "cb_inv ?msg ?gs"
      using written_ok_new [OF assms(1,2) r(3) p] r(4) share inv by (auto intro: cb_name)
    have cb': "(if suffix_off ls m \<noteq> 0 then map ent gs @ [(length msg, enc ls)] else map ent gs) = map ent ?gs"
      by (simp add: ent_def)
    have le: "suffix_off ls m + 2 \<le> length (enc ls)"
      using assms(2) m r(3) by (intro suffix_off_room) (simp_all add: dns_name_def)
    have pos: "0 < suffix_off ls m + 2" by simp
    show ?thesis
      using o(1) [unfolded cb'] o(2) pos le inv' [folded o(3)] h reads [folded o(3)] by blast
  qed
qed

subsection \<open>Composing a message\<close>

text \<open>
  A message as the answer and query code composes it: data of any kind is appended, and names
  are written at the end with \<open>compress_name\<close>. The last component records the names written:
  offset, length and labels.
\<close>

inductive composed :: "bytes \<Rightarrow> compel list \<Rightarrow> (nat \<times> nat \<times> bytes list) list \<Rightarrow> bool" where
  start: "composed [] [] []"
| data: "composed msg cb log \<Longrightarrow> composed (msg @ x) cb log"
| name: "composed msg cb log \<Longrightarrow> dns_name ls \<Longrightarrow> length (enc ls) \<le> length out \<Longrightarrow>
    compress_name (enc ls) out (length msg) cb True = Some (rl, out', cb') \<Longrightarrow>
    composed (msg @ take rl out') cb' (log @ [(length msg, rl, ls)])"

definition logged :: "bytes \<Rightarrow> nat \<times> nat \<times> bytes list \<Rightarrow> bool" where
  "logged msg e = (case e of (off, n, ls) \<Rightarrow> dns_name ls \<and>
     (\<exists>h ls'. h \<le> 127 \<and> name_at msg h n off ls' \<and> same_name ls' ls))"

lemma logged_append: "logged msg e \<Longrightarrow> logged (msg @ x) e"
  unfolding logged_def by (cases e) (simp, meson name_at_append)

lemma composed_inv:
  "composed msg cb log \<Longrightarrow> length msg + DNSNAMEBUFSIZE < 2 ^ 32 \<Longrightarrow>
   \<exists>gs. cb = map ent gs \<and> cb_inv msg gs \<and> (\<forall>e \<in> set log. logged msg e)"
proof (induction rule: composed.induct)
  case start
  show ?case by (intro exI [of _ "[]"]) (simp add: cb_empty)
next
  case (data msg cb log x)
  then obtain gs where gs: "cb = map ent gs" "cb_inv msg gs" "\<forall>e \<in> set log. logged msg e" by auto
  then show ?case by (intro exI [of _ gs]) (simp add: cb_inv_append logged_append)
next
  case (name msg cb log ls out rl out' cb')
  then obtain gs where gs: "cb = map ent gs" "cb_inv msg gs" "\<forall>e \<in> set log. logged msg e" by auto
  have "length msg + DNSNAMEBUFSIZE < 2 ^ 32" using name.prems by simp
  from compress_step [OF gs(2) name.hyps(2,3) this] name.hyps(4) obtain gs' where
    "cb' = map ent gs'" "cb_inv (msg @ take rl out') gs'"
    "\<exists>h ls'. h \<le> 127 \<and> name_at (msg @ take rl out') h rl (length msg) ls' \<and> same_name ls' ls"
    unfolding gs(1) by auto
  then show ?case using gs(3) name.hyps(2) by (intro exI [of _ gs']) (auto simp: logged_def [of _ "(_, _, _)"] intro: logged_append)
qed

text \<open>
  C25: \<open>compress_name\<close> never fails while a message is composed: no assertion is violated, no
  byte is read or written outside the buffers, and the output is not longer than the name.
\<close>
theorem compress_name_total:
  assumes "composed msg cb log" and "length msg + DNSNAMEBUFSIZE < 2 ^ 32"
    and "dns_name ls" and "length (enc ls) \<le> length out"
  shows "\<exists>rl out' cb'. compress_name (enc ls) out (length msg) cb True = Some (rl, out', cb') \<and>
    0 < rl \<and> rl \<le> length (enc ls) \<and> length out' = length out"
proof -
  from composed_inv [OF assms(1,2)] obtain gs where gs: "cb = map ent gs" "cb_inv msg gs" by blast
  from compress_step [OF gs(2) assms(3,4,2)] show ?thesis unfolding gs(1) by blast
qed

theorem compress_name_total_witness:
  "composed [] [] [] \<and> dns_name [str ''a'', str ''org''] \<and>
   (\<exists>rl out' cb'. compress_name (enc [str ''a'', str ''org'']) (replicate 256 0) 0 [] True = Some (rl, out', cb') \<and>
      0 < rl \<and> rl \<le> 7)"
proof -
  have d: "dns_name [str ''a'', str ''org'']" by code_simp
  have e: "length (enc [str ''a'', str ''org'']) = 7" by code_simp
  have "length (enc [str ''a'', str ''org'']) \<le> length (replicate 256 (0 :: byte))" unfolding e by simp
  from compress_name_total [OF start _ d this] d start show ?thesis
    unfolding e by (auto simp: DNSNAMEBUFSIZE_def)
qed

text \<open>
  C2: every name written into a message with \<open>compress_name\<close> is read back by
  \<open>decompress_name\<close> from the finished message, whatever was appended after it: the same labels
  up to the case of letters, consuming exactly the bytes written.
\<close>
theorem compress_roundtrip:
  assumes "composed msg cb log" and "length msg + DNSNAMEBUFSIZE < 2 ^ 32"
    and "(off, n, ls) \<in> set log" and "n \<le> sz" and "DNSNAMEBUFSIZE \<le> length tgt"
  shows "\<exists>tgt' ls'. decompress_name msg (length msg) off sz tgt =
      Some (Inr (off + n, sz - n, tgt', length (enc ls))) \<and>
    take (length (enc ls)) tgt' = enc ls' \<and> fold_case ls' = fold_case ls"
proof -
  from composed_inv [OF assms(1,2)] assms(3) have "logged msg (off, n, ls)" by blast
  then obtain h ls' where l: "dns_name ls" "h \<le> 127" "name_at msg h n off ls'" "same_name ls' ls"
    unfolding logged_def prod.case by blast
  note d = same_name_dns [OF l(4,1)]
  have f: "field_name msg off sz n ls'"
    using d(1) l(2,3) assms(4) by (auto simp: field_name_def intro!: exI [of _ h])
  have unique: "n' = n \<and> ls'' = ls'" if "field_name msg off sz n' ls''" for n' ls''
    using that l(3) by (auto simp: field_name_def dest: name_at_unique)
  from decompress_name_returns [OF refl assms(5), of msg off sz] obtain r where
    r: "decompress_name msg (length msg) off sz tgt = Some r"
    "case r of Inl rc \<Rightarrow> (rc = RC_FORMAT \<or> rc = RC_TRUNC) \<and> \<not> (\<exists>n ls. field_name msg off sz n ls)
      | Inr (src', sz', tgt', len) \<Rightarrow> \<exists>n ls. field_name msg off sz n ls \<and>
        src' = off + n \<and> sz' = sz - n \<and> len = length (enc ls) \<and>
        length tgt' = length tgt \<and> take len tgt' = enc ls"
    by (rule returnsE)
  with f obtain src' sz' tgt' len where "r = Inr (src', sz', tgt', len)"
    by (cases r) auto
  with r(2) unique obtain "r = Inr (off + n, sz - n, tgt', length (enc ls'))" "take (length (enc ls')) tgt' = enc ls'"
    by auto
  then show ?thesis using r(1) d(2) l(4) by (auto simp: same_name_def)
qed

theorem compress_roundtrip_witness:
  "\<exists>msg cb tgt'. composed msg cb [(0, 7, [str ''a'', str ''org'']), (7, 4, [str ''b'', str ''ORG''])] \<and>
     decompress_name msg (length msg) 7 20 (replicate 256 0) = Some (Inr (11, 16, tgt', 7))"
proof -
  let ?a = "[str ''a'', str ''org'']" and ?b = "[str ''b'', str ''ORG'']"
  let ?out = "replicate 256 (0 :: byte)"
  have d: "dns_name ?a" "dns_name ?b" and e: "length (enc ?a) = 7" "length (enc ?b) = 7"
    by code_simp+
  have ea: "enc ?a = [1, 97, 3, 111, 114, 103, 0]" and eb: "enc ?b = [1, 98, 3, 79, 82, 71, 0]"
    by code_simp+
  have "compress_name (enc ?a) ?out (length ([] :: bytes)) [] True =
      Some (7, [1, 97, 3, 111, 114, 103, 0] @ replicate 249 0, [(0, [1, 97, 3, 111, 114, 103, 0])])" by code_simp
  from name [OF start d(1) _ this] e have c1: "composed [1, 97, 3, 111, 114, 103, 0]
      [(0, [1, 97, 3, 111, 114, 103, 0])] [(0, 7, ?a)]"
    by simp
  have l7: "length [1, 97, 3, 111, 114, 103, 0 :: byte] = 7" by simp
  have "compress_name (enc ?b) ?out (length [1, 97, 3, 111, 114, 103, 0 :: byte]) [(0, [1, 97, 3, 111, 114, 103, 0])] True =
      Some (4, [1, 98, 0xc0, 2] @ replicate 252 0, [(0, [1, 97, 3, 111, 114, 103, 0]), (7, [1, 98, 3, 79, 82, 71, 0])])"
    by code_simp
  from name [OF c1 d(2) _ this] have c2: "composed ([1, 97, 3, 111, 114, 103, 0, 1, 98, 0xc0, 2])
      [(0, [1, 97, 3, 111, 114, 103, 0]), (7, [1, 98, 3, 79, 82, 71, 0])] [(0, 7, ?a), (7, 4, ?b)]"
    unfolding l7 e by simp
  have l: "length [1, 97, 3, 111, 114, 103, 0, 1, 98, 0xc0, 2 :: byte] + DNSNAMEBUFSIZE < 2 ^ 32"
    "DNSNAMEBUFSIZE \<le> length ?out" "(7, 4, ?b) \<in> set [(0, 7, ?a), (7, 4, ?b)]" "4 \<le> (20 :: nat)"
    by (simp_all add: DNSNAMEBUFSIZE_def)
  from compress_roundtrip [OF c2 l(1,3,4,2)] obtain tgt' where
    "decompress_name [1, 97, 3, 111, 114, 103, 0, 1, 98, 0xc0, 2]
       (length [1, 97, 3, 111, 114, 103, 0, 1, 98, 0xc0, 2 :: byte]) 7 20 ?out = Some (Inr (7 + 4, 20 - 4, tgt', 7))"
    unfolding e by blast
  moreover have "7 + 4 = (11 :: nat)" "20 - 4 = (16 :: nat)" by simp_all
  ultimately show ?thesis using c2 by metis
qed

end
