(* ===== verification/Keywords.thy ===== *)
theory Keywords
  imports Pdnsd_Prelude
begin

text \<open>
  \<open>conf-keywords.h\<close>, \<open>consts.h\<close> and \<open>consts.c\<close>: the tables of the words of the configuration
  language and the binary search in them.
\<close>

subsection \<open>Keywords and constants\<close>

text \<open>
  The two enumerations. Their first element has the value 0, which \<open>binsearch_keyword\<close> returns
  for an unknown word. \<open>K_A\<close> is the element \<open>A\<close>.
\<close>

definition ERROR :: int where "ERROR = 0"
definition GLOBAL :: int where "GLOBAL = 1"
definition SERVER :: int where "SERVER = 2"
definition RR :: int where "RR = 3"
definition NEG :: int where "NEG = 4"
definition SOURCE :: int where "SOURCE = 5"
definition INCLUDE_F :: int where "INCLUDE_F = 6"
definition PERM_CACHE :: int where "PERM_CACHE = 7"
definition CACHE_DIR :: int where "CACHE_DIR = 8"
definition SERVER_PORT :: int where "SERVER_PORT = 9"
definition SERVER_IP :: int where "SERVER_IP = 10"
definition OUTGOING_IP :: int where "OUTGOING_IP = 11"
definition SCHEME_FILE :: int where "SCHEME_FILE = 12"
definition LINKDOWN_KLUGE :: int where "LINKDOWN_KLUGE = 13"
definition MAX_TTL :: int where "MAX_TTL = 14"
definition MIN_TTL :: int where "MIN_TTL = 15"
definition RUN_AS :: int where "RUN_AS = 16"
definition STRICT_SETUID :: int where "STRICT_SETUID = 17"
definition USE_NSS :: int where "USE_NSS = 18"
definition PARANOID :: int where "PARANOID = 19"
definition IGNORE_CD :: int where "IGNORE_CD = 20"
definition STATUS_CTL :: int where "STATUS_CTL = 21"
definition DAEMON :: int where "DAEMON = 22"
definition C_TCP_SERVER :: int where "C_TCP_SERVER = 23"
definition PID_FILE :: int where "PID_FILE = 24"
definition C_VERBOSITY :: int where "C_VERBOSITY = 25"
definition C_QUERY_METHOD :: int where "C_QUERY_METHOD = 26"
definition RUN_IPV4 :: int where "RUN_IPV4 = 27"
definition IPV4_6_PREFIX :: int where "IPV4_6_PREFIX = 28"
definition C_DEBUG :: int where "C_DEBUG = 29"
definition C_CTL_PERMS :: int where "C_CTL_PERMS = 30"
definition C_PROC_LIMIT :: int where "C_PROC_LIMIT = 31"
definition C_PROCQ_LIMIT :: int where "C_PROCQ_LIMIT = 32"
definition TCP_QTIMEOUT :: int where "TCP_QTIMEOUT = 33"
definition C_PAR_QUERIES :: int where "C_PAR_QUERIES = 34"
definition C_RAND_RECS :: int where "C_RAND_RECS = 35"
definition NEG_TTL :: int where "NEG_TTL = 36"
definition NEG_RRS_POL :: int where "NEG_RRS_POL = 37"
definition NEG_DOMAIN_POL :: int where "NEG_DOMAIN_POL = 38"
definition QUERY_PORT_START :: int where "QUERY_PORT_START = 39"
definition QUERY_PORT_END :: int where "QUERY_PORT_END = 40"
definition UDP_BUFSIZE :: int where "UDP_BUFSIZE = 41"
definition DELEGATION_ONLY :: int where "DELEGATION_ONLY = 42"
definition IP :: int where "IP = 43"
definition PORT :: int where "PORT = 44"
definition SCHEME :: int where "SCHEME = 45"
definition UPTEST :: int where "UPTEST = 46"
definition TIMEOUT :: int where "TIMEOUT = 47"
definition PING_TIMEOUT :: int where "PING_TIMEOUT = 48"
definition PING_IP :: int where "PING_IP = 49"
definition UPTEST_CMD :: int where "UPTEST_CMD = 50"
definition QUERY_TEST_NAME :: int where "QUERY_TEST_NAME = 51"
definition INTERVAL :: int where "INTERVAL = 52"
definition INTERFACE :: int where "INTERFACE = 53"
definition DEVICE :: int where "DEVICE = 54"
definition PURGE_CACHE :: int where "PURGE_CACHE = 55"
definition CACHING :: int where "CACHING = 56"
definition LEAN_QUERY :: int where "LEAN_QUERY = 57"
definition EDNS_QUERY :: int where "EDNS_QUERY = 58"
definition PRESET :: int where "PRESET = 59"
definition PROXY_ONLY :: int where "PROXY_ONLY = 60"
definition ROOT_SERVER :: int where "ROOT_SERVER = 61"
definition RANDOMIZE_SERVERS :: int where "RANDOMIZE_SERVERS = 62"
definition INCLUDE :: int where "INCLUDE = 63"
definition EXCLUDE :: int where "EXCLUDE = 64"
definition POLICY :: int where "POLICY = 65"
definition REJECTLIST :: int where "REJECTLIST = 66"
definition REJECTPOLICY :: int where "REJECTPOLICY = 67"
definition REJECTRECURSIVELY :: int where "REJECTRECURSIVELY = 68"
definition LABEL :: int where "LABEL = 69"
definition K_A :: int where "K_A = 70"
definition PTR :: int where "PTR = 71"
definition MX :: int where "MX = 72"
definition SOA :: int where "SOA = 73"
definition CNAME :: int where "CNAME = 74"
definition TXT :: int where "TXT = 75"
definition SPF :: int where "SPF = 76"
definition NAME :: int where "NAME = 77"
definition OWNER :: int where "OWNER = 78"
definition TTL :: int where "TTL = 79"
definition TYPES :: int where "TYPES = 80"
definition FILET :: int where "FILET = 81"
definition SERVE_ALIASES :: int where "SERVE_ALIASES = 82"
definition AUTHREC :: int where "AUTHREC = 83"
definition REVERSE :: int where "REVERSE = 84"

definition C_ERR :: int where "C_ERR = 0"
definition C_ON :: int where "C_ON = 1"
definition C_OFF :: int where "C_OFF = 2"
definition C_DEFAULT :: int where "C_DEFAULT = 3"
definition C_DISCOVER :: int where "C_DISCOVER = 4"
definition C_NONE :: int where "C_NONE = 5"
definition C_IF :: int where "C_IF = 6"
definition C_EXEC :: int where "C_EXEC = 7"
definition C_PING :: int where "C_PING = 8"
definition C_QUERY :: int where "C_QUERY = 9"
definition C_ONQUERY :: int where "C_ONQUERY = 10"
definition C_ONTIMEOUT :: int where "C_ONTIMEOUT = 11"
definition UDP_ONLY :: int where "UDP_ONLY = 12"
definition TCP_ONLY :: int where "TCP_ONLY = 13"
definition TCP_UDP :: int where "TCP_UDP = 14"
definition UDP_TCP :: int where "UDP_TCP = 15"
definition C_DEV :: int where "C_DEV = 16"
definition C_DIALD :: int where "C_DIALD = 17"
definition C_INCLUDED :: int where "C_INCLUDED = 18"
definition C_EXCLUDED :: int where "C_EXCLUDED = 19"
definition C_SIMPLE_ONLY :: int where "C_SIMPLE_ONLY = 20"
definition C_FQDN_ONLY :: int where "C_FQDN_ONLY = 21"
definition C_AUTH :: int where "C_AUTH = 22"
definition C_DOMAIN :: int where "C_DOMAIN = 23"
definition C_FAIL :: int where "C_FAIL = 24"
definition C_NEGATE :: int where "C_NEGATE = 25"

lemmas keyword_defs =
  ERROR_def GLOBAL_def SERVER_def RR_def NEG_def SOURCE_def INCLUDE_F_def PERM_CACHE_def
  CACHE_DIR_def SERVER_PORT_def SERVER_IP_def OUTGOING_IP_def SCHEME_FILE_def
  LINKDOWN_KLUGE_def MAX_TTL_def MIN_TTL_def RUN_AS_def STRICT_SETUID_def USE_NSS_def
  PARANOID_def IGNORE_CD_def STATUS_CTL_def DAEMON_def C_TCP_SERVER_def PID_FILE_def
  C_VERBOSITY_def C_QUERY_METHOD_def RUN_IPV4_def IPV4_6_PREFIX_def C_DEBUG_def C_CTL_PERMS_def
  C_PROC_LIMIT_def C_PROCQ_LIMIT_def TCP_QTIMEOUT_def C_PAR_QUERIES_def C_RAND_RECS_def
  NEG_TTL_def NEG_RRS_POL_def NEG_DOMAIN_POL_def QUERY_PORT_START_def QUERY_PORT_END_def
  UDP_BUFSIZE_def DELEGATION_ONLY_def IP_def PORT_def SCHEME_def UPTEST_def TIMEOUT_def
  PING_TIMEOUT_def PING_IP_def UPTEST_CMD_def QUERY_TEST_NAME_def INTERVAL_def INTERFACE_def
  DEVICE_def PURGE_CACHE_def CACHING_def LEAN_QUERY_def EDNS_QUERY_def PRESET_def
  PROXY_ONLY_def ROOT_SERVER_def RANDOMIZE_SERVERS_def INCLUDE_def EXCLUDE_def POLICY_def
  REJECTLIST_def REJECTPOLICY_def REJECTRECURSIVELY_def LABEL_def K_A_def PTR_def MX_def
  SOA_def CNAME_def TXT_def SPF_def NAME_def OWNER_def TTL_def TYPES_def FILET_def
  SERVE_ALIASES_def AUTHREC_def REVERSE_def

lemmas const_defs =
  C_ERR_def C_ON_def C_OFF_def C_DEFAULT_def C_DISCOVER_def C_NONE_def C_IF_def C_EXEC_def
  C_PING_def C_QUERY_def C_ONQUERY_def C_ONTIMEOUT_def UDP_ONLY_def TCP_ONLY_def TCP_UDP_def
  UDP_TCP_def C_DEV_def C_DIALD_def C_INCLUDED_def C_EXCLUDED_def C_SIMPLE_ONLY_def
  C_FQDN_ONLY_def C_AUTH_def C_DOMAIN_def C_FAIL_def C_NEGATE_def

type_synonym namevalue_t = "string \<times> int"

definition section_headers :: "namevalue_t list" where
  "section_headers = [
    (''global'', GLOBAL), (''include'', INCLUDE_F), (''neg'', NEG), (''rr'', RR),
    (''server'', SERVER), (''source'', SOURCE)]"

definition global_options :: "namevalue_t list" where
  "global_options = [
    (''cache_dir'', CACHE_DIR), (''ctl_perms'', C_CTL_PERMS), (''daemon'', DAEMON),
    (''debug'', C_DEBUG), (''delegation_only'', DELEGATION_ONLY), (''ignore_cd'', IGNORE_CD),
    (''interface'', SERVER_IP), (''ipv4_6_prefix'', IPV4_6_PREFIX),
    (''linkdown_kluge'', LINKDOWN_KLUGE), (''max_ttl'', MAX_TTL), (''min_ttl'', MIN_TTL),
    (''neg_domain_pol'', NEG_DOMAIN_POL), (''neg_rrs_pol'', NEG_RRS_POL), (''neg_ttl'', NEG_TTL),
    (''outgoing_ip'', OUTGOING_IP), (''outside_interface'', OUTGOING_IP),
    (''par_queries'', C_PAR_QUERIES), (''paranoid'', PARANOID), (''perm_cache'', PERM_CACHE),
    (''pid_file'', PID_FILE), (''proc_limit'', C_PROC_LIMIT), (''procq_limit'', C_PROCQ_LIMIT),
    (''query_method'', C_QUERY_METHOD), (''query_port_end'', QUERY_PORT_END),
    (''query_port_start'', QUERY_PORT_START), (''randomize_recs'', C_RAND_RECS),
    (''run_as'', RUN_AS), (''run_ipv4'', RUN_IPV4), (''scheme_file'', SCHEME_FILE),
    (''server_ip'', SERVER_IP), (''server_port'', SERVER_PORT), (''status_ctl'', STATUS_CTL),
    (''strict_setuid'', STRICT_SETUID), (''tcp_qtimeout'', TCP_QTIMEOUT),
    (''tcp_server'', C_TCP_SERVER), (''timeout'', TIMEOUT), (''udpbufsize'', UDP_BUFSIZE),
    (''use_nss'', USE_NSS), (''verbosity'', C_VERBOSITY)]"

definition server_options :: "namevalue_t list" where
  "server_options = [
    (''caching'', CACHING), (''device'', DEVICE), (''edns_query'', EDNS_QUERY),
    (''exclude'', EXCLUDE), (''file'', FILET), (''include'', INCLUDE), (''interface'', INTERFACE),
    (''interval'', INTERVAL), (''ip'', IP), (''label'', LABEL), (''lean_query'', LEAN_QUERY),
    (''ping_ip'', PING_IP), (''ping_timeout'', PING_TIMEOUT), (''policy'', POLICY),
    (''port'', PORT), (''preset'', PRESET), (''proxy_only'', PROXY_ONLY),
    (''purge_cache'', PURGE_CACHE), (''query_test_name'', QUERY_TEST_NAME),
    (''randomize_servers'', RANDOMIZE_SERVERS), (''reject'', REJECTLIST),
    (''reject_policy'', REJECTPOLICY), (''reject_recursively'', REJECTRECURSIVELY),
    (''root_server'', ROOT_SERVER), (''scheme'', SCHEME), (''timeout'', TIMEOUT),
    (''uptest'', UPTEST), (''uptest_cmd'', UPTEST_CMD)]"

definition rr_options :: "namevalue_t list" where
  "rr_options = [
    (''a'', K_A), (''authrec'', AUTHREC), (''cname'', CNAME), (''mx'', MX), (''name'', NAME),
    (''ns'', OWNER), (''owner'', OWNER), (''ptr'', PTR), (''reverse'', REVERSE), (''soa'', SOA),
    (''spf'', SPF), (''ttl'', TTL), (''txt'', TXT)]"

definition source_options :: "namevalue_t list" where
  "source_options = [
    (''authrec'', AUTHREC), (''file'', FILET), (''ns'', OWNER), (''owner'', OWNER),
    (''serve_aliases'', SERVE_ALIASES), (''ttl'', TTL)]"

definition include_options :: "namevalue_t list" where
  "include_options = [
    (''file'', FILET)]"

definition neg_options :: "namevalue_t list" where
  "neg_options = [
    (''name'', NAME), (''ttl'', TTL), (''types'', TYPES)]"

definition const_dic :: "namevalue_t list" where
  "const_dic = [
    (''auth'', C_AUTH), (''default'', C_DEFAULT), (''dev'', C_DEV), (''diald'', C_DIALD),
    (''discover'', C_DISCOVER), (''domain'', C_DOMAIN), (''excluded'', C_EXCLUDED),
    (''exec'', C_EXEC), (''fail'', C_FAIL), (''false'', C_OFF), (''fqdn_only'', C_FQDN_ONLY),
    (''if'', C_IF), (''included'', C_INCLUDED), (''negate'', C_NEGATE), (''no'', C_OFF),
    (''none'', C_NONE), (''off'', C_OFF), (''on'', C_ON), (''onquery'', C_ONQUERY),
    (''ontimeout'', C_ONTIMEOUT), (''ping'', C_PING), (''query'', C_QUERY),
    (''simple_only'', C_SIMPLE_ONLY), (''tcp_only'', TCP_ONLY), (''tcp_udp'', TCP_UDP),
    (''true'', C_ON), (''udp_only'', UDP_ONLY), (''udp_tcp'', UDP_TCP), (''yes'', C_ON)]"

definition const_names :: "string list" where
  "const_names = [
    ''error'', ''on'', ''off'', ''default'', ''discover'', ''none'', ''if'', ''exec'', ''ping'',
    ''query'', ''onquery'', ''ontimeout'', ''udp_only'', ''tcp_only'', ''tcp_udp'', ''udp_tcp'',
    ''dev'', ''diald'', ''included'', ''excluded'', ''simple_only'', ''fqdn_only'', ''auth'',
    ''domain'', ''fail'', ''negate'']"

subsection \<open>The search\<close>

text \<open>
  \<open>strncmp\<close> of the C library on two buffers, from offset \<open>i\<close>; the code uses only the sign of
  the result.
\<close>

fun strncmp :: "bytes \<Rightarrow> bytes \<Rightarrow> nat \<Rightarrow> nat \<Rightarrow> int option" where
  "strncmp s t i 0 = Some 0"
| "strncmp s t i (Suc n) = do {
     x \<leftarrow> rd s i;
     y \<leftarrow> rd t i;
     if x \<noteq> y then Some (uint x - uint y)
     else if x = 0 then Some 0
     else strncmp s t (i + 1) n
   }"

text \<open>A string constant in memory.\<close>

definition cstring :: "string \<Rightarrow> bytes" where
  "cstring s = str s @ [0]"

definition keyncmp :: "bytes \<Rightarrow> nat \<Rightarrow> bytes \<Rightarrow> int option" where
  "keyncmp key1 len key2 = do {
     cmp \<leftarrow> strncmp key1 key2 0 len;
     if cmp \<noteq> 0 then Some cmp
     else do { c \<leftarrow> rd key2 len; Some (- uint c) }
   }"

function binsearch_loop :: "bytes \<Rightarrow> nat \<Rightarrow> namevalue_t list \<Rightarrow> nat \<Rightarrow> nat \<Rightarrow> int option" where
  "binsearch_loop name len dic i j =
     (if i < j then do {
        let k = (i + j) div 2;
        (key, val) \<leftarrow> rd dic k;
        cmp \<leftarrow> keyncmp name len (cstring key);
        if cmp < 0 then binsearch_loop name len dic i k
        else if 0 < cmp then binsearch_loop name len dic (k + 1) j
        else Some val
      }
      else Some 0)"
  by pat_completeness auto
termination
  by (relation "measure (\<lambda>(name, len, dic, i, j). j - i)") auto

declare binsearch_loop.simps [simp del]

definition binsearch_keyword :: "bytes \<Rightarrow> nat \<Rightarrow> namevalue_t list \<Rightarrow> nat \<Rightarrow> int option" where
  "binsearch_keyword name len dic rng = binsearch_loop name len dic 0 rng"

definition lookup_keyword :: "bytes \<Rightarrow> nat \<Rightarrow> namevalue_t list \<Rightarrow> int option" where
  "lookup_keyword name len dic = binsearch_keyword name len dic (length dic)"

definition lookup_const :: "bytes \<Rightarrow> nat \<Rightarrow> int option" where
  "lookup_const name len = binsearch_keyword name len const_dic (length const_dic)"

definition const_name :: "int \<Rightarrow> string" where
  "const_name c = (if 0 \<le> c \<and> c < int (length const_names) then const_names ! nat c else ''ILLEGAL!'')"

subsection \<open>The order of the words\<close>

fun lex_cmp :: "bytes \<Rightarrow> bytes \<Rightarrow> int" where
  "lex_cmp [] [] = 0"
| "lex_cmp [] (y # ys) = - uint y"
| "lex_cmp (x # xs) [] = uint x"
| "lex_cmp (x # xs) (y # ys) = (if x = y then lex_cmp xs ys else uint x - uint y)"

lemma byte_uint:
  fixes x y :: byte
  shows "uint x = 0 \<longleftrightarrow> x = 0" "uint x = uint y \<longleftrightarrow> x = y" "0 < uint x \<longleftrightarrow> x \<noteq> 0"
proof -
  show z: "uint x = 0 \<longleftrightarrow> x = 0" by (rule uint_0_iff)
  show "uint x = uint y \<longleftrightarrow> x = y" by (rule word_uint_eq_iff [symmetric])
  show "0 < uint x \<longleftrightarrow> x \<noteq> 0" using z uint_ge_0 [of x] by linarith
qed

lemma uint_less: "uint x \<le> uint y \<Longrightarrow> x \<noteq> y \<Longrightarrow> uint x < uint (y :: byte)"
  using byte_uint(2) [of x y] by linarith

lemma lex_cmp_eq: "0 \<notin> set xs \<Longrightarrow> 0 \<notin> set ys \<Longrightarrow> lex_cmp xs ys = 0 \<longleftrightarrow> xs = ys"
  by (induction xs ys rule: lex_cmp.induct) (auto simp: byte_uint)

lemma lex_cmp_swap: "lex_cmp ys xs = - lex_cmp xs ys"
  by (induction xs ys rule: lex_cmp.induct) auto

lemma lex_cmp_trans:
  assumes "lex_cmp xs ys \<le> 0" and "lex_cmp ys zs < 0" and "0 \<notin> set xs" and "0 \<notin> set ys" and "0 \<notin> set zs"
  shows "lex_cmp xs zs < 0"
  using assms
proof (induction xs ys arbitrary: zs rule: lex_cmp.induct)
  case 1
  then show ?case by simp
next
  case (2 y ys)
  then show ?case by (cases zs) (auto simp: byte_uint split: if_splits)
next
  case (3 x xs)
  then show ?case by (simp add: byte_uint)
next
  case (4 x xs y ys)
  then show ?case by (cases zs) (auto simp: byte_uint dest: uint_less split: if_splits)
qed

lemma strncmp_lex:
  assumes "0 \<notin> set xs" and "0 \<notin> set ys" and "length q = length p"
  shows "strncmp (p @ xs @ rest) (q @ ys @ [0]) (length p) (length xs) =
    Some (if take (length xs) ys = xs then 0 else lex_cmp xs ys)"
  using assms
proof (induction xs ys arbitrary: p q rule: lex_cmp.induct)
  case (3 x xs)
  have "rd (q @ [0]) (length p) = Some 0" using 3(3) by (metis rd_append_right0 rd_Cons_0)
  then show ?case using 3(1) by (simp add: rd_append_right0)
next
  case (4 x xs y ys)
  have "rd (q @ (y # ys) @ [0]) (length p) = Some y" using 4(4) by (metis append_Cons rd_append_right0 rd_Cons_0)
  then show ?case using 4(2-) 4(1) [of "q @ [y]" "p @ [x]"] by (auto simp: rd_append_right0)
qed simp_all

lemma keyncmp_lex:
  assumes "0 \<notin> set w" and "0 \<notin> set (str k)"
  shows "keyncmp (w @ rest) (length w) (cstring k) = Some (lex_cmp w (str k))"
proof -
  have s: "strncmp (w @ rest) (cstring k) 0 (length w) =
      Some (if take (length w) (str k) = w then 0 else lex_cmp w (str k))"
    using strncmp_lex [OF assms, of "[]" "[]" rest] by (simp add: cstring_def)
  have pre: "take (length w) ys = w \<Longrightarrow> 0 \<notin> set ys \<Longrightarrow>
      rd (ys @ [0]) (length w) = Some (if length ys = length w then 0 else ys ! length w) \<and>
      lex_cmp w ys = (if length ys = length w then 0 else - int (unat (ys ! length w)))" for ys
    by (induction w ys rule: lex_cmp.induct) auto
  show ?thesis
  proof (cases "take (length w) (str k) = w")
    case True
    with s pre [OF True assms(2)] show ?thesis by (simp add: keyncmp_def cstring_def)
  next
    case False
    then have "lex_cmp w (str k) \<noteq> 0" using lex_cmp_eq [OF assms] by auto
    with s False show ?thesis by (simp add: keyncmp_def)
  qed
qed

subsection \<open>Correctness of the search\<close>

definition dict_ok :: "namevalue_t list \<Rightarrow> bool" where
  "dict_ok dic \<longleftrightarrow> (\<forall>e \<in> set dic. 0 \<notin> set (str (fst e))) \<and>
     sorted_wrt (\<lambda>d e. lex_cmp (str (fst d)) (str (fst e)) < 0) dic"

abbreviation key_at :: "namevalue_t list \<Rightarrow> nat \<Rightarrow> bytes" where
  "key_at dic k \<equiv> str (fst (dic ! k))"

lemma dict_lt: "dict_ok dic \<Longrightarrow> k < l \<Longrightarrow> l < length dic \<Longrightarrow> lex_cmp (key_at dic k) (key_at dic l) < 0"
  by (auto simp: dict_ok_def sorted_wrt_iff_nth_less)

lemma dict_nz: "dict_ok dic \<Longrightarrow> k < length dic \<Longrightarrow> 0 \<notin> set (key_at dic k)"
  by (auto simp: dict_ok_def)

text \<open>The words before \<open>i\<close> are smaller and those from \<open>j\<close> on greater than the word looked for.\<close>

lemma binsearch_loop_correct:
  assumes "dict_ok dic" and "0 \<notin> set w" and "j \<le> length dic"
    and "\<forall>k < i. lex_cmp (key_at dic k) w < 0" and "\<forall>k < length dic. j \<le> k \<longrightarrow> lex_cmp w (key_at dic k) < 0"
  shows "\<exists>v. binsearch_loop (w @ rest) (length w) dic i j = Some v \<and>
    ((\<exists>k < length dic. key_at dic k = w \<and> v = snd (dic ! k)) \<or> v = 0 \<and> (\<forall>k < length dic. key_at dic k \<noteq> w))"
  using assms(3-)
proof (induction "j - i" arbitrary: i j rule: less_induct)
  case less
  show ?case
  proof (cases "i < j")
    case False
    then have "lex_cmp (key_at dic k) w \<noteq> 0" if "k < length dic" for k
      using less.prems(2,3) lex_cmp_swap [of "key_at dic k" w] that by (cases "k < i") fastforce+
    then have "\<forall>k < length dic. key_at dic k \<noteq> w" using lex_cmp_eq assms(2) by blast
    with False show ?thesis by (simp add: binsearch_loop.simps [of _ _ _ i j])
  next
    case True
    let ?k = "(i + j) div 2"
    have k: "i \<le> ?k" "?k < j" "?k < length dic" using True less.prems(1) by auto
    note nz = dict_nz [OF assms(1) k(3)]
    have e: "dic ! ?k = (fst (dic ! ?k), snd (dic ! ?k))" by simp
    note cmp = keyncmp_lex [OF assms(2) nz, of rest]
    have run: "binsearch_loop (w @ rest) (length w) dic i j =
        (if lex_cmp w (key_at dic ?k) < 0 then binsearch_loop (w @ rest) (length w) dic i ?k
         else if 0 < lex_cmp w (key_at dic ?k) then binsearch_loop (w @ rest) (length w) dic (?k + 1) j
         else Some (snd (dic ! ?k)))"
      using True k(3) cmp
      by (subst binsearch_loop.simps) (simp add: rd_def Let_def split_beta)
    consider "lex_cmp w (key_at dic ?k) < 0" | "0 < lex_cmp w (key_at dic ?k)" | "w = key_at dic ?k"
      using lex_cmp_eq [OF assms(2) nz] by linarith
    then show ?thesis
    proof cases
      case 1
      have "lex_cmp w (key_at dic l) < 0" if "?k \<le> l" "l < length dic" for l
        using lex_cmp_trans [OF less_imp_le [OF 1] dict_lt [OF assms(1)] assms(2) nz] dict_nz [OF assms(1)] 1 that
        by (cases "l = ?k") simp_all
      with less.hyps [of ?k i] k less.prems 1 run show ?thesis by simp
    next
      case 2
      then have 2: "lex_cmp (key_at dic ?k) w < 0" using lex_cmp_swap [of "key_at dic ?k" w] by simp
      have "lex_cmp (key_at dic l) w < 0" if "l < ?k + 1" for l
        using lex_cmp_trans [OF less_imp_le [OF dict_lt [OF assms(1) _ k(3)]] 2 _ nz assms(2)]
          dict_nz [OF assms(1)] 2 that k(3)
        by (cases "l = ?k") simp_all
      with less.hyps [of j "?k + 1"] k less.prems 2 run show ?thesis
        using lex_cmp_swap [of "key_at dic ?k" w] by simp
    next
      case 3
      then have "lex_cmp w (key_at dic ?k) = 0" using lex_cmp_eq [OF assms(2) nz] by simp
      with run 3 k(3) show ?thesis by auto
    qed
  qed
qed

text \<open>The value a dictionary gives for a word; 0 for a word that is not in it.\<close>

definition dict_val :: "namevalue_t list \<Rightarrow> bytes \<Rightarrow> int" where
  "dict_val dic w = (case map_of (map (\<lambda>(k, v). (str k, v)) dic) w of None \<Rightarrow> 0 | Some v \<Rightarrow> v)"

lemma lex_cmp_irrefl: "0 \<notin> set xs \<Longrightarrow> \<not> lex_cmp xs xs < 0"
  using lex_cmp_eq [of xs xs] by simp

lemma dict_distinct: "dict_ok dic \<Longrightarrow> distinct (map fst (map (\<lambda>(k, v). (str k, v)) dic))"
  unfolding distinct_conv_nth by (auto simp: split_beta) (metis dict_lt dict_nz lex_cmp_irrefl nat_neq_iff)

lemma dict_val_nth:
  assumes "dict_ok dic" and "k < length dic" and "key_at dic k = w"
  shows "dict_val dic w = snd (dic ! k)"
proof -
  have "(w, snd (dic ! k)) \<in> set (map (\<lambda>(k, v). (str k, v)) dic)"
    using assms(2,3) by (auto simp: image_iff split_beta intro!: bexI [of _ "dic ! k"])
  then have "map_of (map (\<lambda>(k, v). (str k, v)) dic) w = Some (snd (dic ! k))"
    using map_of_eq_Some_iff [OF dict_distinct [OF assms(1)]] by blast
  then show ?thesis by (simp add: dict_val_def)
qed

lemma dict_val_none:
  assumes "\<forall>k < length dic. key_at dic k \<noteq> w"
  shows "dict_val dic w = 0"
proof -
  have "w \<noteq> str (fst e)" if "e \<in> set dic" for e using assms that by (auto simp: in_set_conv_nth)
  then have "map_of (map (\<lambda>(k, v). (str k, v)) dic) w = None"
    by (force simp: map_of_eq_None_iff image_iff split_beta)
  then show ?thesis by (simp add: dict_val_def)
qed

text \<open>The order of a table, decided on the characters of neighbouring words.\<close>

fun char_less :: "string \<Rightarrow> string \<Rightarrow> bool" where
  "char_less s [] = False"
| "char_less [] (c # cs) = True"
| "char_less (b # bs) (c # cs) = (if b = c then char_less bs cs else (of_char b :: int) < of_char c)"

lemma unat_chr [simp]: "unat (chr c) = of_char c"
  by (simp add: chr_def unat_of_nat)

lemma chr_eq [simp]: "chr b = chr c \<longleftrightarrow> b = c"
  by (metis of_char_eq_iff unat_chr)

lemma uint_chr [simp]: "uint (chr c) = of_char c"
  by (metis unat_chr of_nat_of_char uint_nat)

lemma chr_0 [simp]: "0 = chr c \<longleftrightarrow> c = CHR 0x00"
proof -
  have "chr (CHR 0x00) = 0" by code_simp
  then show ?thesis by (metis chr_eq)
qed

lemma of_char_pos [simp]: "(0 :: int) < of_char c \<longleftrightarrow> c \<noteq> CHR 0x00"
  using byte_uint(3) [of "chr c"] by (metis uint_chr chr_0)

lemma char_less_lex: "CHR 0x00 \<notin> set t \<Longrightarrow> char_less s t \<Longrightarrow> lex_cmp (str s) (str t) < 0"
  by (induction s t rule: char_less.induct) (auto simp: str_def split: if_splits)

lemma str_nz: "0 \<notin> set (str s) \<longleftrightarrow> CHR 0x00 \<notin> set s"
  by (auto simp: str_def image_iff)

lemma dict_okI:
  assumes "list_all (\<lambda>e. CHR 0x00 \<notin> set (fst e)) dic" and "successively (\<lambda>d e. char_less (fst d) (fst e)) dic"
  shows "dict_ok dic"
proof -
  have "sorted_wrt (\<lambda>d e. lex_cmp (str (fst d)) (str (fst e)) < 0) dic"
    using assms
  proof (induction dic)
    case (Cons d dic)
    then have IH: "sorted_wrt (\<lambda>d e. lex_cmp (str (fst d)) (str (fst e)) < 0) dic"
      by (auto simp: successively_Cons)
    have "lex_cmp (str (fst d)) (str (fst e)) < 0" if "e \<in> set dic" for e
    proof -
      from that obtain c cs where dic: "dic = c # cs" by (cases dic) auto
      have dc: "lex_cmp (str (fst d)) (str (fst c)) < 0"
        using Cons.prems by (intro char_less_lex) (simp_all add: dic)
      have nz: "0 \<notin> set (str (fst x))" if "x \<in> set (d # dic)" for x
        using Cons.prems(1) that by (auto simp: list_all_iff str_nz)
      show ?thesis
      proof (cases "e = c")
        case False
        with IH that have "lex_cmp (str (fst c)) (str (fst e)) < 0" by (simp add: dic)
        with lex_cmp_trans [OF less_imp_le [OF dc]] nz [of d] nz [of c] nz [of e] that
        show ?thesis by (simp add: dic)
      qed (use dc in simp)
    qed
    with IH show ?case by simp
  qed simp
  with assms(1) show ?thesis by (simp add: dict_ok_def list_all_iff str_nz)
qed

lemma binsearch_dict:
  assumes "dict_ok dic" and "0 \<notin> set w"
  shows "binsearch_keyword (w @ rest) (length w) dic (length dic) = Some (dict_val dic w)"
proof -
  from binsearch_loop_correct [OF assms, of "length dic" 0 rest] obtain v where
    "binsearch_loop (w @ rest) (length w) dic 0 (length dic) = Some v"
    "(\<exists>k < length dic. key_at dic k = w \<and> v = snd (dic ! k)) \<or> v = 0 \<and> (\<forall>k < length dic. key_at dic k \<noteq> w)"
    by auto
  with dict_val_nth [OF assms(1)] dict_val_none show ?thesis by (auto simp: binsearch_keyword_def)
qed

lemma dictionaries_ok:
  "dict_ok section_headers" "dict_ok global_options" "dict_ok server_options" "dict_ok rr_options"
  "dict_ok source_options" "dict_ok include_options" "dict_ok neg_options" "dict_ok const_dic"
  by (intro dict_okI; code_simp)+

text \<open>
  C38: the binary search finds what a linear search finds. In a dictionary whose words are in
  ascending order, \<open>binsearch_keyword\<close> returns for the first \<open>len\<close> characters of a text the
  value the dictionary gives for them, and 0 when they are no word of it; it reads no character
  of the text behind them, and none behind the end of a word. The eight tables of the program
  are in that order.
\<close>
theorem binsearch_keyword_correct:
  assumes "dic \<in> {section_headers, global_options, server_options, rr_options, source_options,
      include_options, neg_options, const_dic} \<or> dict_ok dic"
    and "0 \<notin> set w"
  shows "binsearch_keyword (w @ rest) (length w) dic (length dic) = Some (dict_val dic w)"
  using assms(1) dictionaries_ok by (intro binsearch_dict [OF _ assms(2)]) blast

theorem binsearch_keyword_correct_witness:
  "binsearch_keyword (str ''ttl = 86400'') 3 neg_options 3 = Some TTL"
proof -
  have w: "0 \<notin> set (str ''ttl'')" by code_simp
  have "binsearch_keyword (str ''ttl'' @ str '' = 86400'') (length (str ''ttl'')) neg_options (length neg_options) =
      Some (dict_val neg_options (str ''ttl''))"
    by (rule binsearch_keyword_correct [OF _ w]) simp
  moreover have "dict_val neg_options (str ''ttl'') = TTL" by code_simp
  moreover have "length neg_options = 3" "length (str ''ttl'') = 3" by code_simp+
  moreover have "str ''ttl'' @ str '' = 86400'' = str ''ttl = 86400''" by (simp add: str_def)
  ultimately show ?thesis by simp
qed

lemma const_names_dict:
  "\<forall>c \<in> set [1..25]. dict_val const_dic (str (const_name c)) = c \<and> 0 \<notin> set (str (const_name c))"
  by code_simp

text \<open>
  The names of the constants and their lookup agree. For every constant but \<open>C_ERR\<close>,
  \<open>lookup_const\<close> maps the name \<open>const_name\<close> gives back to the constant, whatever follows it.
\<close>
theorem lookup_const_name:
  assumes "C_ERR < c" and "c \<le> C_NEGATE"
  shows "lookup_const (str (const_name c) @ rest) (length (const_name c)) = Some c"
proof -
  have "c \<in> set [1..25]" using assms by (simp add: C_ERR_def C_NEGATE_def)
  with const_names_dict binsearch_dict [OF dictionaries_ok(8), of "str (const_name c)" rest]
  show ?thesis by (simp add: lookup_const_def str_def)
qed

theorem lookup_const_name_witness: "lookup_const (str ''udp_tcp;'') 7 = Some UDP_TCP"
proof -
  have "const_name UDP_TCP = ''udp_tcp''" by code_simp
  with lookup_const_name [of UDP_TCP "str '';''"] show ?thesis by (simp add: const_defs str_def eval_nat_numeral)
qed

end
