(* ===== verification/Hash.thy ===== *)
theory Hash
  imports Names_Match
begin

text \<open>
  The hash table of \<open>hash.c\<close>: the two hashes of a name, the chains ordered by the long hash, and
  the operations of the table. A cache entry is referred to by its address, a natural number;
  \<open>qn\<close> gives the name stored in the entry at an address (\<open>he->data->qname\<close>), and is undefined
  for an address that holds no entry.
\<close>

subsection \<open>The hash of a name\<close>

definition HASH_SZ :: nat where "HASH_SZ = 10"
definition HASH_NUM_BUCKETS :: nat where "HASH_NUM_BUCKETS = 1024"
definition HASH_BITMASK :: "32 word" where "HASH_BITMASK = 0x3ff"

text \<open>The inner loop over the characters of a label.\<close>

fun hash_chars :: "bytes \<Rightarrow> nat \<Rightarrow> nat \<Rightarrow> 32 word \<Rightarrow> 64 word \<Rightarrow> (nat \<times> 32 word \<times> 64 word) option" where
  "hash_chars nm i 0 s r = Some (i, s, r)"
| "hash_chars nm i (Suc lb) s r = do {
     ch \<leftarrow> rd nm i;
     let c = toupper ch;
     hash_chars nm (i + 1) lb
       (s + push_bit (i mod (HASH_SZ - 5)) (ucast c)) (r + push_bit (i mod (8 * 8 - 7)) (ucast c))
   }"

lemma hash_chars_index: "hash_chars nm i n s r = Some (j, s', r') \<Longrightarrow> j = i + n \<and> (n = 0 \<or> j \<le> length nm)"
proof (induction n arbitrary: i s r)
  case (Suc n)
  then obtain ch where ch: "rd nm i = Some ch" by (auto split: bind_splits)
  with Suc.prems have "hash_chars nm (i + 1) n
      (s + push_bit (i mod (HASH_SZ - 5)) (ucast (toupper ch)))
      (r + push_bit (i mod (8 * 8 - 7)) (ucast (toupper ch))) = Some (j, s', r')"
    by (simp add: Let_def)
  from Suc.IH [OF this] ch show ?case by (auto simp: rd_Some_iff)
qed simp

function hash_loop :: "bytes \<Rightarrow> nat \<Rightarrow> 32 word \<Rightarrow> 64 word \<Rightarrow> (32 word \<times> 64 word) option" where
  "hash_loop nm i s r = do {
     lb \<leftarrow> rd nm i;
     if lb = 0 then Some (s, r)
     else do {
       (i', s', r') \<leftarrow> hash_chars nm (i + 1) (unat lb)
         (s + push_bit (i mod (HASH_SZ - 5)) (ucast lb)) (r + push_bit (i mod (8 * 8 - 7)) (ucast lb));
       hash_loop nm i' s' r'
     }
   }"
  by pat_completeness auto
termination
  by (relation "measure (\<lambda>(nm, i, s, r). length nm - i)")
    (auto simp: rd_Some_iff dest: hash_chars_index)

declare hash_loop.simps [simp del]

text \<open>One folding step of the short hash.\<close>

definition hash_fold :: "32 word \<Rightarrow> 32 word" where
  "hash_fold s = (s AND HASH_BITMASK) + drop_bit HASH_SZ (s AND NOT HASH_BITMASK)"

definition dns_hash :: "bytes \<Rightarrow> (nat \<times> 64 word) option" where
  "dns_hash nm = do {
     (s, r) \<leftarrow> hash_loop nm 0 0 0;
     Some (unat (hash_fold (hash_fold s) AND HASH_BITMASK), r)
   }"

lemma dns_hash_bound: "dns_hash nm = Some (idx, r) \<Longrightarrow> idx < HASH_NUM_BUCKETS"
proof -
  have m: "x AND HASH_BITMASK = take_bit 10 x" for x
    by (simp add: HASH_BITMASK_def take_bit_eq_mask mask_eq_exp_minus_1)
  have "unat (take_bit 10 x :: 32 word) < 1024" for x
    by (simp add: unsigned_take_bit_eq take_bit_eq_mod unat_mod_distrib)
  then show "dns_hash nm = Some (idx, r) \<Longrightarrow> idx < HASH_NUM_BUCKETS"
    by (auto simp: dns_hash_def m HASH_NUM_BUCKETS_def split: bind_splits)
qed

text \<open>The hash of an encoded name exists and does not depend on the case of its letters.\<close>

lemma hash_chars_label:
  assumes "map tolower l = map tolower l'"
  shows "\<exists>s' r'. hash_chars (p @ l @ q) (length p) (length l) s r = Some (length p + length l, s', r') \<and>
    (length p' = length p \<longrightarrow>
      hash_chars (p' @ l' @ q') (length p) (length l) s r = Some (length p + length l, s', r'))"
  using assms
proof (induction l arbitrary: l' p p' s r)
  case Nil
  then show ?case by simp
next
  case (Cons c l)
  then obtain c' k where l': "l' = c' # k" "tolower c' = tolower c" "map tolower l = map tolower k"
    by (cases l') auto
  then have up: "toupper c' = toupper c" by (simp add: toupper_eq_iff_tolower_eq)
  from Cons.IH [OF l'(3), of "p @ [c]" "s + push_bit (length p mod (HASH_SZ - 5)) (ucast (toupper c))"
      "r + push_bit (length p mod (8 * 8 - 7)) (ucast (toupper c))" "p' @ [c']"]
  show ?case by (auto simp: l'(1) up rd_len_byte Let_def rd_at)
qed

lemma hash_loop_enc:
  assumes "labels_ok a" and "fold_case a = fold_case b"
  shows "\<exists>x. hash_loop (p @ enc a @ q) (length p) s r = Some x \<and>
    (length p' = length p \<longrightarrow> hash_loop (p' @ enc b @ q') (length p) s r = Some x)"
  using assms
proof (induction a arbitrary: b p p' s r)
  case Nil
  then show ?case
    by (subst (1 2) hash_loop.simps) (auto simp: fold_case_def rd_len_byte rd_at)
next
  case (Cons l a)
  then obtain l' b' where b: "b = l' # b'" "map tolower l' = map tolower l" "fold_case a = fold_case b'"
    by (cases b) (auto simp: fold_case_def)
  have len: "length l' = length l" using map_eq_imp_length_eq [OF b(2)] .
  have l: "0 < length l" "length l < 256" using Cons.prems(1) by auto
  let ?s = "s + push_bit (length p mod (HASH_SZ - 5)) (ucast (of_nat (length l) :: byte))"
  let ?r = "r + push_bit (length p mod (8 * 8 - 7)) (ucast (of_nat (length l) :: byte))"
  from hash_chars_label [OF b(2) [symmetric], of "p @ [of_nat (length l)]" "enc a @ q" ?s ?r
      "p' @ [of_nat (length l)]" "enc b' @ q'"]
  obtain s' r' where c:
    "hash_chars (p @ enc (l # a) @ q) (length p + 1) (length l) ?s ?r = Some (length p + 1 + length l, s', r')"
    "length p' = length p \<longrightarrow> hash_chars (p' @ enc b @ q') (length p + 1) (length l) ?s ?r = Some (length p + 1 + length l, s', r')"
    by (auto simp: b(1) len)
  from Cons.IH [OF _ b(3), of "p @ of_nat (length l) # l" s' r' "p' @ of_nat (length l) # l'"] Cons.prems(1)
  obtain x where x: "hash_loop (p @ enc (l # a) @ q) (length p + 1 + length l) s' r' = Some x"
    "length p' = length p \<longrightarrow> hash_loop (p' @ enc b @ q') (length p + 1 + length l) s' r' = Some x"
    by (auto simp: b(1) len)
  have "hash_loop (p @ enc (l # a) @ q) (length p) s r = Some x"
    by (subst hash_loop.simps) (use c x l in \<open>simp add: rd_len_byte\<close>)
  moreover have "length p' = length p \<longrightarrow> hash_loop (p' @ enc b @ q') (length p) s r = Some x"
  proof
    assume p': "length p' = length p"
    have rd0: "rd (p' @ enc b @ q') (length p) = Some (of_nat (length l))"
      using p' len by (simp add: b(1) rd_at)
    show "hash_loop (p' @ enc b @ q') (length p) s r = Some x"
      by (subst hash_loop.simps) (use c x l p' rd0 in simp)
  qed
  ultimately show ?case by blast
qed

lemma dns_hash_enc:
  assumes "labels_ok a"
  shows "\<exists>idx r. dns_hash (enc a @ q) = Some (idx, r) \<and> idx < HASH_NUM_BUCKETS \<and>
    (\<forall>b q'. fold_case a = fold_case b \<longrightarrow> dns_hash (enc b @ q') = Some (idx, r))"
proof -
  from hash_loop_enc [OF assms refl, of "[]" q 0 0] obtain s r where
    sr: "hash_loop (enc a @ q) 0 0 0 = Some (s, r)" by (metis append_Nil list.size(3) surj_pair)
  have "hash_loop (enc b @ q') 0 0 0 = Some (s, r)" if "fold_case a = fold_case b" for b q'
    using hash_loop_enc [OF assms that, of "[]" q 0 0 "[]" q'] sr by auto
  with sr show ?thesis using dns_hash_bound [of "enc a @ q"] by (auto simp: dns_hash_def)
qed

subsection \<open>The table\<close>

text \<open>
  \<open>dns_hash_ent_t\<close>; the chain of a bucket is the list of its entries. A location
  \<open>dns_hash_loc_t\<close> is a bucket, a position in its chain, where \<open>pos\<close> points to the link in
  front of that position, and the long hash.
\<close>

record dns_hash_ent =
  rhash :: "64 word"
  cdata :: nat

record dns_hash_loc =
  loc_bucket :: nat
  loc_pos :: nat
  loc_rhash :: "64 word"

type_synonym hash_table = "dns_hash_ent list list"

definition mk_dns_hash :: hash_table where
  "mk_dns_hash = replicate HASH_NUM_BUCKETS []"

text \<open>The loop over a chain, shared by \<open>dns_lookup\<close> and \<open>del_dns_hash\<close>.\<close>

fun lookup_chain ::
    "(nat \<Rightarrow> bytes option) \<Rightarrow> bytes \<Rightarrow> 64 word \<Rightarrow> dns_hash_ent list \<Rightarrow> nat \<Rightarrow> (nat option \<times> nat) option" where
  "lookup_chain qn key rh [] pos = Some (None, pos)"
| "lookup_chain qn key rh (he # ch) pos =
     (if \<not> rhash he \<le> rh then Some (None, pos)
      else if rhash he = rh then do {
        nm \<leftarrow> qn (cdata he);
        eq \<leftarrow> rhnicmp key nm;
        if eq then Some (Some (cdata he), pos) else lookup_chain qn key rh ch (pos + 1)
      }
      else lookup_chain qn key rh ch (pos + 1))"

definition dns_lookup ::
    "(nat \<Rightarrow> bytes option) \<Rightarrow> hash_table \<Rightarrow> bytes \<Rightarrow> (nat option \<times> dns_hash_loc) option" where
  "dns_lookup qn ht key = do {
     (idx, rh) \<leftarrow> dns_hash key;
     ch \<leftarrow> rd ht idx;
     (retval, pos) \<leftarrow> lookup_chain qn key rh ch 0;
     Some (retval, \<lparr>loc_bucket = idx, loc_pos = pos, loc_rhash = rh\<rparr>)
   }"

text \<open>\<open>alloc\<close>: whether \<open>malloc\<close> succeeds.\<close>

definition add_dns_hash ::
    "hash_table \<Rightarrow> nat \<Rightarrow> dns_hash_loc \<Rightarrow> bool \<Rightarrow> (bool \<times> hash_table) option" where
  "add_dns_hash ht data loc alloc =
     (if \<not> alloc then Some (False, ht)
      else do {
        ch \<leftarrow> rd ht (loc_bucket loc);
        if length ch < loc_pos loc then None
        else do {
          ht' \<leftarrow> wr ht (loc_bucket loc)
            (take (loc_pos loc) ch @ \<lparr>rhash = loc_rhash loc, cdata = data\<rparr> # drop (loc_pos loc) ch);
          Some (True, ht')
        }
      })"

definition del_dns_hash_ent :: "hash_table \<Rightarrow> dns_hash_loc \<Rightarrow> (nat \<times> hash_table) option" where
  "del_dns_hash_ent ht loc = do {
     ch \<leftarrow> rd ht (loc_bucket loc);
     he \<leftarrow> rd ch (loc_pos loc);
     ht' \<leftarrow> wr ht (loc_bucket loc) (take (loc_pos loc) ch @ drop (loc_pos loc + 1) ch);
     Some (cdata he, ht')
   }"

definition del_dns_hash ::
    "(nat \<Rightarrow> bytes option) \<Rightarrow> hash_table \<Rightarrow> bytes \<Rightarrow> (nat option \<times> hash_table) option" where
  "del_dns_hash qn ht key = do {
     (idx, rh) \<leftarrow> dns_hash key;
     ch \<leftarrow> rd ht idx;
     (retval, pos) \<leftarrow> lookup_chain qn key rh ch 0;
     case retval of
       None \<Rightarrow> Some (None, ht)
     | Some data \<Rightarrow> do {
         ht' \<leftarrow> wr ht idx (take pos ch @ drop (pos + 1) ch);
         Some (Some data, ht')
       }
   }"

text \<open>
  Freeing a bucket: \<open>del\<close> is \<open>del_cent\<close> of \<open>cache.c\<close> on the rest \<open>st\<close> of the state.
\<close>

fun del_all :: "(nat \<Rightarrow> 's \<Rightarrow> 's option) \<Rightarrow> dns_hash_ent list \<Rightarrow> 's \<Rightarrow> 's option" where
  "del_all del [] st = Some st"
| "del_all del (he # ch) st = do { st' \<leftarrow> del (cdata he) st; del_all del ch st' }"

definition free_dns_hash_bucket ::
    "(nat \<Rightarrow> 's \<Rightarrow> 's option) \<Rightarrow> nat \<Rightarrow> hash_table \<times> 's \<Rightarrow> (hash_table \<times> 's) option" where
  "free_dns_hash_bucket del i hs = do {
     ch \<leftarrow> rd (fst hs) i;
     ht' \<leftarrow> wr (fst hs) i [];
     st' \<leftarrow> del_all del ch (snd hs);
     Some (ht', st')
   }"

fun free_buckets ::
    "(nat \<Rightarrow> 's \<Rightarrow> 's option) \<Rightarrow> nat list \<Rightarrow> hash_table \<times> 's \<Rightarrow> (hash_table \<times> 's) option" where
  "free_buckets del [] hs = Some hs"
| "free_buckets del (i # is) hs = do { hs' \<leftarrow> free_dns_hash_bucket del i hs; free_buckets del is hs' }"

definition free_dns_hash ::
    "(nat \<Rightarrow> 's \<Rightarrow> 's option) \<Rightarrow> hash_table \<times> 's \<Rightarrow> (hash_table \<times> 's) option" where
  "free_dns_hash del hs = free_buckets del [0..<HASH_NUM_BUCKETS] hs"

text \<open>
  \<open>free_dns_hash_selected\<close>. An element of the include/exclude list: the domain, the flag
  \<open>exact\<close>, and whether the rule is \<open>C_INCLUDED\<close>.
\<close>

record slist =
  sl_domain :: bytes
  sl_exact :: bool
  sl_included :: bool

fun selected :: "bytes \<Rightarrow> slist list \<Rightarrow> bool option" where
  "selected nm [] = Some False"
| "selected nm (sl # sla) = do {
     (k, nrem, lrem) \<leftarrow> domain_match nm (sl_domain sl);
     if lrem = 0 \<and> (\<not> sl_exact sl \<or> nrem = 0) then Some (sl_included sl)
     else selected nm sla
   }"

fun free_selected ::
    "(nat \<Rightarrow> 's \<Rightarrow> bytes option) \<Rightarrow> (nat \<Rightarrow> 's \<Rightarrow> 's option) \<Rightarrow> slist list \<Rightarrow> dns_hash_ent list \<Rightarrow>
     's \<Rightarrow> (dns_hash_ent list \<times> 's) option" where
  "free_selected qname del sla [] st = Some ([], st)"
| "free_selected qname del sla (he # ch) st = do {
     nm \<leftarrow> qname (cdata he) st;
     sel \<leftarrow> selected nm sla;
     if sel then do { st' \<leftarrow> del (cdata he) st; free_selected qname del sla ch st' }
     else do { (ch', st') \<leftarrow> free_selected qname del sla ch st; Some (he # ch', st') }
   }"

definition free_dns_hash_selected ::
    "(nat \<Rightarrow> 's \<Rightarrow> bytes option) \<Rightarrow> (nat \<Rightarrow> 's \<Rightarrow> 's option) \<Rightarrow> slist list \<Rightarrow> nat \<Rightarrow>
     hash_table \<times> 's \<Rightarrow> (hash_table \<times> 's) option" where
  "free_dns_hash_selected qname del sla i hs = do {
     ch \<leftarrow> rd (fst hs) i;
     (ch', st') \<leftarrow> free_selected qname del sla ch (snd hs);
     ht' \<leftarrow> wr (fst hs) i ch';
     Some (ht', st')
   }"

text \<open>
  Iteration. A position \<open>dns_hash_pos_t\<close> is the bucket and the entries that follow the one
  returned (\<open>pos->ent\<close> with its successors).
\<close>

fun first_from :: "hash_table \<Rightarrow> nat \<Rightarrow> (nat \<times> nat \<times> dns_hash_ent list) option" where
  "first_from [] i = None"
| "first_from ([] # ht) i = first_from ht (i + 1)"
| "first_from ((he # ch) # ht) i = Some (cdata he, i, ch)"

definition fetch_first :: "hash_table \<Rightarrow> (nat \<times> nat \<times> dns_hash_ent list) option" where
  "fetch_first ht = first_from ht 0"

definition fetch_next ::
    "hash_table \<Rightarrow> nat \<times> dns_hash_ent list \<Rightarrow> (nat \<times> nat \<times> dns_hash_ent list) option" where
  "fetch_next ht pos = (case snd pos of
       he # ch \<Rightarrow> Some (cdata he, fst pos, ch)
     | [] \<Rightarrow> first_from (drop (fst pos + 1) ht) (fst pos + 1))"

subsection \<open>Invariant of the table\<close>

text \<open>
  Every entry of a chain refers to a live cache entry whose name hashes to that bucket and to
  the hash stored in it; the chain is ordered by that hash; no name occurs twice in the table,
  and no cache entry does.
\<close>

definition ent_ok :: "(nat \<Rightarrow> bytes option) \<Rightarrow> nat \<Rightarrow> dns_hash_ent \<Rightarrow> bool" where
  "ent_ok qn i he \<longleftrightarrow> (\<exists>ls. qn (cdata he) = Some (enc ls) \<and> dns_name ls \<and> dns_hash (enc ls) = Some (i, rhash he))"

definition names :: "bytes list \<Rightarrow> (nat \<Rightarrow> bytes option) \<Rightarrow> nat \<Rightarrow> bool" where
  "names nm qn d \<longleftrightarrow> (\<exists>ls. qn d = Some (enc ls) \<and> dns_name ls \<and> fold_case ls = fold_case nm)"

definition chain_ok :: "(nat \<Rightarrow> bytes option) \<Rightarrow> nat \<Rightarrow> dns_hash_ent list \<Rightarrow> bool" where
  "chain_ok qn i ch \<longleftrightarrow> sorted (map rhash ch) \<and> (\<forall>he \<in> set ch. ent_ok qn i he) \<and> distinct (map cdata ch)"

definition hash_data :: "hash_table \<Rightarrow> nat set" where
  "hash_data ht = (\<Union>ch \<in> set ht. cdata ` set ch)"

definition hash_ok :: "(nat \<Rightarrow> bytes option) \<Rightarrow> hash_table \<Rightarrow> bool" where
  "hash_ok qn ht \<longleftrightarrow> length ht = HASH_NUM_BUCKETS \<and> (\<forall>i < length ht. chain_ok qn i (ht ! i)) \<and>
     (\<forall>d \<in> hash_data ht. \<forall>e \<in> hash_data ht. \<forall>nm. names nm qn d \<longrightarrow> names nm qn e \<longrightarrow> d = e)"

text \<open>A cache entry of the table has the name.\<close>

definition stored :: "(nat \<Rightarrow> bytes option) \<Rightarrow> hash_table \<Rightarrow> bytes list \<Rightarrow> nat \<Rightarrow> bool" where
  "stored qn ht nm d \<longleftrightarrow> d \<in> hash_data ht \<and> names nm qn d"

text \<open>Locations: of an entry, and for a new entry of a name.\<close>

definition ent_loc :: "hash_table \<Rightarrow> dns_hash_loc \<Rightarrow> nat \<Rightarrow> bool" where
  "ent_loc ht loc d \<longleftrightarrow> loc_bucket loc < length ht \<and> loc_pos loc < length (ht ! loc_bucket loc) \<and>
     cdata (ht ! loc_bucket loc ! loc_pos loc) = d"

definition insert_loc :: "hash_table \<Rightarrow> bytes list \<Rightarrow> dns_hash_loc \<Rightarrow> bool" where
  "insert_loc ht nm loc \<longleftrightarrow> dns_hash (enc nm) = Some (loc_bucket loc, loc_rhash loc) \<and>
     loc_pos loc \<le> length (ht ! loc_bucket loc) \<and>
     (\<forall>he \<in> set (take (loc_pos loc) (ht ! loc_bucket loc)). rhash he \<le> loc_rhash loc) \<and>
     (\<forall>he \<in> set (drop (loc_pos loc) (ht ! loc_bucket loc)). loc_rhash loc \<le> rhash he)"

lemma hash_ok_length: "hash_ok qn ht \<Longrightarrow> length ht = HASH_NUM_BUCKETS"
  by (simp add: hash_ok_def)

lemma hash_ok_chain: "hash_ok qn ht \<Longrightarrow> i < HASH_NUM_BUCKETS \<Longrightarrow> chain_ok qn i (ht ! i)"
  by (simp add: hash_ok_def)

lemma hash_data_nth: "i < length ht \<Longrightarrow> he \<in> set (ht ! i) \<Longrightarrow> cdata he \<in> hash_data ht"
  by (auto simp: hash_data_def)

lemma hash_dataE:
  assumes "hash_ok qn ht" and "d \<in> hash_data ht"
  obtains i he ls where "i < length ht" "he \<in> set (ht ! i)" "cdata he = d" "qn d = Some (enc ls)" "dns_name ls"
    "dns_hash (enc ls) = Some (i, rhash he)"
proof -
  from assms(2) obtain ch he where ch: "ch \<in> set ht" "he \<in> set ch" "cdata he = d"
    by (auto simp: hash_data_def)
  from ch(1) obtain i where "i < length ht" "ch = ht ! i" by (auto simp: in_set_conv_nth)
  with ch have i: "i < length ht" "he \<in> set (ht ! i)" "cdata he = d" by simp_all
  with assms(1) have "ent_ok qn i he" by (auto simp: hash_ok_def chain_ok_def)
  with i that show ?thesis by (auto simp: ent_ok_def)
qed

lemma hash_ok_unique: "hash_ok qn ht \<Longrightarrow> stored qn ht nm d \<Longrightarrow> stored qn ht nm e \<Longrightarrow> d = e"
  by (auto simp: hash_ok_def stored_def)

lemma hash_ok_empty: "hash_ok qn mk_dns_hash \<and> hash_data mk_dns_hash = {}"
  by (auto simp: hash_ok_def mk_dns_hash_def hash_data_def chain_ok_def)

text \<open>The invariant depends only on the names of the entries of the table.\<close>

lemma hash_ok_cong:
  assumes "hash_ok qn ht" and "\<And>d. d \<in> hash_data ht \<Longrightarrow> qn' d = qn d"
  shows "hash_ok qn' ht"
proof -
  have "chain_ok qn' i (ht ! i)" if "i < length ht" for i
    using assms that hash_data_nth [OF that] by (auto simp: hash_ok_def chain_ok_def ent_ok_def)
  moreover have "names nm qn' d \<longleftrightarrow> names nm qn d" if "d \<in> hash_data ht" for nm d
    using assms(2) [OF that] by (simp add: names_def)
  ultimately show ?thesis using assms(1) unfolding hash_ok_def by blast
qed

subsection \<open>The operations on a table that satisfies the invariant\<close>

lemma dns_enc_inj: "enc a = enc b \<Longrightarrow> dns_name a \<Longrightarrow> dns_name b \<Longrightarrow> a = b"
  using enc_inj [of a b "[]" "[]"] by (simp add: dns_name_labels_ok)

lemma lookup_chain_spec:
  assumes "labels_ok nm" and "sorted (map rhash ch)" and "\<forall>he \<in> set ch. ent_ok qn i he"
  shows "\<exists>ret k. lookup_chain qn (enc nm @ q) rh ch p = Some (ret, p + k) \<and> k \<le> length ch \<and>
    (case ret of
       None \<Rightarrow> (\<forall>he \<in> set ch. \<not> (rhash he = rh \<and> names nm qn (cdata he))) \<and>
         (\<forall>he \<in> set (take k ch). rhash he \<le> rh) \<and> (\<forall>he \<in> set (drop k ch). rh \<le> rhash he)
     | Some d \<Rightarrow> k < length ch \<and> cdata (ch ! k) = d \<and> names nm qn d)"
  using assms(2,3)
proof (induction ch arbitrary: p)
  case Nil
  show ?case by (intro exI [of _ None] exI [of _ 0]) simp
next
  case (Cons he ch)
  show ?case
  proof (cases "rhash he \<le> rh")
    case False
    then have "\<forall>x \<in> set (he # ch). rh < rhash x" using Cons.prems(1) by force
    with False show ?thesis
      by (intro exI [of _ None] exI [of _ 0]) (auto intro: less_imp_le)
  next
    case le: True
    from Cons.prems(2) obtain ls where ls: "qn (cdata he) = Some (enc ls)" "dns_name ls" by (auto simp: ent_ok_def)
    have cmp: "rhnicmp (enc nm @ q) (enc ls) = Some (fold_case nm = fold_case ls)"
      using rhnicmp_enc [OF assms(1) dns_name_labels_ok [OF ls(2)], of q "[]"] by simp
    show ?thesis
    proof (cases "rhash he = rh \<and> fold_case nm = fold_case ls")
      case True
      with ls have "names nm qn (cdata he)" by (auto simp: names_def)
      with True le ls cmp show ?thesis
        by (intro exI [of _ "Some (cdata he)"] exI [of _ 0]) simp
    next
      case False
      have no: "\<not> (rhash he = rh \<and> names nm qn (cdata he))"
      proof
        assume "rhash he = rh \<and> names nm qn (cdata he)"
        then obtain ls' where "rhash he = rh" "enc ls' = enc ls" "dns_name ls'" "fold_case ls' = fold_case nm"
          using ls(1) by (auto simp: names_def)
        moreover from this have "ls' = ls" using enc_inj [of ls' ls] ls(2) by (auto dest: dns_name_labels_ok)
        ultimately show False using False by simp
      qed
      have step: "lookup_chain qn (enc nm @ q) rh (he # ch) p = lookup_chain qn (enc nm @ q) rh ch (p + 1)"
        using le False ls cmp by auto
      from Cons.IH [of "p + 1"] Cons.prems obtain ret k where IH:
        "lookup_chain qn (enc nm @ q) rh ch (p + 1) = Some (ret, p + 1 + k)" "k \<le> length ch"
        "case ret of None \<Rightarrow> (\<forall>he \<in> set ch. \<not> (rhash he = rh \<and> names nm qn (cdata he))) \<and>
           (\<forall>he \<in> set (take k ch). rhash he \<le> rh) \<and> (\<forall>he \<in> set (drop k ch). rh \<le> rhash he)
         | Some d \<Rightarrow> k < length ch \<and> cdata (ch ! k) = d \<and> names nm qn d" by auto
      show ?thesis unfolding step
        by (intro exI [of _ ret] exI [of _ "k + 1"]) (use IH le no in \<open>auto split: option.splits\<close>)
    qed
  qed
qed

lemma stored_bucket:
  assumes "hash_ok qn ht" and "stored qn ht nm d" and "dns_hash (enc nm) = Some (i, r)" and "labels_ok nm"
  shows "\<exists>he \<in> set (ht ! i). cdata he = d \<and> rhash he = r"
proof -
  from assms(2) have d: "d \<in> hash_data ht" "names nm qn d" by (auto simp: stored_def)
  from d(2) obtain ls' where ls': "qn d = Some (enc ls')" "dns_name ls'" "fold_case nm = fold_case ls'"
    by (auto simp: names_def)
  from dns_hash_enc [OF assms(4), of "[]"] assms(3) ls'(3) have h: "dns_hash (enc ls') = Some (i, r)"
    by (metis append_Nil2 option.inject)
  from hash_dataE [OF assms(1) d(1)] obtain j he ls where
    "he \<in> set (ht ! j)" "cdata he = d" "qn d = Some (enc ls)" "dns_hash (enc ls) = Some (j, rhash he)" by metis
  with ls'(1) h show ?thesis by auto
qed

lemma dns_lookup_spec:
  assumes "hash_ok qn ht" and "dns_name nm"
  shows "\<exists>ret loc. dns_lookup qn ht (enc nm @ q) = Some (ret, loc) \<and>
    (case ret of None \<Rightarrow> (\<forall>d. \<not> stored qn ht nm d) \<and> insert_loc ht nm loc
     | Some d \<Rightarrow> stored qn ht nm d \<and> ent_loc ht loc d)"
proof -
  have ok: "labels_ok nm" using assms(2) by (rule dns_name_labels_ok)
  from dns_hash_enc [OF ok, of q] obtain i r where h0: "dns_hash (enc nm @ q) = Some (i, r)" "i < HASH_NUM_BUCKETS"
    "dns_hash (enc nm @ []) = Some (i, r)" by blast
  then have h: "dns_hash (enc nm) = Some (i, r)" "i < HASH_NUM_BUCKETS" by simp_all
  note c = hash_ok_chain [OF assms(1) h(2)]
  have i: "i < length ht" using h(2) hash_ok_length [OF assms(1)] by simp
  from lookup_chain_spec [OF ok, of "ht ! i" qn i q r 0] c obtain ret k where
    l: "lookup_chain qn (enc nm @ q) r (ht ! i) 0 = Some (ret, k)" "k \<le> length (ht ! i)"
    "case ret of None \<Rightarrow> (\<forall>he \<in> set (ht ! i). \<not> (rhash he = r \<and> names nm qn (cdata he))) \<and>
         (\<forall>he \<in> set (take k (ht ! i)). rhash he \<le> r) \<and> (\<forall>he \<in> set (drop k (ht ! i)). r \<le> rhash he)
     | Some d \<Rightarrow> k < length (ht ! i) \<and> cdata (ht ! i ! k) = d \<and> names nm qn d"
    by (auto simp: chain_ok_def)
  let ?loc = "\<lparr>loc_bucket = i, loc_pos = k, loc_rhash = r\<rparr>"
  have e: "dns_lookup qn ht (enc nm @ q) = Some (ret, ?loc)" using h0(1) l(1) i by (simp add: dns_lookup_def rd_in)
  show ?thesis
  proof (cases ret)
    case None
    with l(3) have n: "\<forall>he \<in> set (ht ! i). \<not> (rhash he = r \<and> names nm qn (cdata he))" by simp
    have "\<not> stored qn ht nm d" for d
    proof
      assume st: "stored qn ht nm d"
      from stored_bucket [OF assms(1) st h(1) ok] n st show False by (auto simp: stored_def)
    qed
    moreover have "insert_loc ht nm ?loc" using h(1) l None by (simp add: insert_loc_def)
    ultimately show ?thesis using e None by auto
  next
    case (Some d)
    with l(3) have d: "k < length (ht ! i)" "cdata (ht ! i ! k) = d" "names nm qn d" by auto
    then have "d \<in> hash_data ht" using i hash_data_nth [of i ht "ht ! i ! k"] by auto
    with d i have "stored qn ht nm d \<and> ent_loc ht ?loc d" by (auto simp: stored_def ent_loc_def)
    with e Some show ?thesis by auto
  qed
qed

lemma hash_data_conv: "hash_data ht = (\<Union>j \<in> {..<length ht}. cdata ` set (ht ! j))"
proof -
  have "set ht = (!) ht ` {..<length ht}" unfolding set_conv_nth [of ht] by auto
  then show ?thesis unfolding hash_data_def by simp
qed

lemma hash_data_update:
  "i < length ht \<Longrightarrow> hash_data (ht[i := ch]) = cdata ` set ch \<union> (\<Union>j \<in> {..<length ht} - {i}. cdata ` set (ht ! j))"
  unfolding hash_data_conv by (auto simp: nth_list_update split: if_splits)

lemma chains_update:
  "\<forall>j < length ht. P j (ht ! j) \<Longrightarrow> i < length ht \<Longrightarrow> P i x \<Longrightarrow> \<forall>j < length (ht[i := x]). P j (ht[i := x] ! j)"
  by (auto simp: nth_list_update)

lemma hash_data_bucket:
  "i < length ht \<Longrightarrow> hash_data ht = cdata ` set (ht ! i) \<union> (\<Union>j \<in> {..<length ht} - {i}. cdata ` set (ht ! j))"
  unfolding hash_data_conv by blast

lemma sorted_insert_at:
  assumes "sorted xs" and "\<forall>x \<in> set (take k xs). x \<le> y" and "\<forall>x \<in> set (drop k xs). y \<le> x"
  shows "sorted (take k xs @ y # drop k xs)"
proof -
  have "sorted (take k xs @ drop k xs)" using assms(1) by simp
  then have "sorted (take k xs)" "sorted (drop k xs)" "\<forall>a \<in> set (take k xs). \<forall>b \<in> set (drop k xs). a \<le> b"
    unfolding sorted_append by blast+
  with assms(2,3) show ?thesis by (simp add: sorted_append)
qed

lemma add_dns_hash_spec:
  assumes "hash_ok qn ht" and "dns_name nm" and "insert_loc ht nm loc" and "\<forall>d. \<not> stored qn ht nm d"
    and "data \<notin> hash_data ht" and "qn data = Some (enc nm')" and "dns_name nm'" and "fold_case nm' = fold_case nm"
  shows "\<exists>ht'. add_dns_hash ht data loc True = Some (True, ht') \<and> hash_ok qn ht' \<and>
    hash_data ht' = insert data (hash_data ht)"
proof -
  let ?i = "loc_bucket loc" and ?k = "loc_pos loc" and ?he = "\<lparr>rhash = loc_rhash loc, cdata = data\<rparr>"
  let ?ch = "take ?k (ht ! ?i) @ ?he # drop ?k (ht ! ?i)"
  let ?ht = "ht[?i := ?ch]"
  have h: "dns_hash (enc nm) = Some (?i, loc_rhash loc)" using assms(3) by (simp add: insert_loc_def)
  then have i: "?i < HASH_NUM_BUCKETS" by (rule dns_hash_bound)
  then have il: "?i < length ht" using hash_ok_length [OF assms(1)] by simp
  have h': "dns_hash (enc nm') = Some (?i, loc_rhash loc)"
    using dns_hash_enc [OF dns_name_labels_ok [OF assms(2)], of "[]"] h assms(8) by (metis append_Nil2 option.inject)
  note c = hash_ok_chain [OF assms(1) i]
  have e: "add_dns_hash ht data loc True = Some (True, ?ht)"
    using il assms(3) by (simp add: add_dns_hash_def insert_loc_def rd_in wr_in not_less)
  have set_ch: "set ?ch = insert ?he (set (ht ! ?i))" by (metis set_append append_take_drop_id list.simps(15) Un_insert_right)
  have data: "hash_data ?ht = insert data (hash_data ht)"
    unfolding hash_data_update [OF il] set_ch hash_data_bucket [OF il] by simp
  have "chain_ok qn ?i ?ch"
  proof -
    have "sorted (take ?k (map rhash (ht ! ?i)) @ loc_rhash loc # drop ?k (map rhash (ht ! ?i)))"
      using c assms(3) by (intro sorted_insert_at) (auto simp: chain_ok_def insert_loc_def take_map drop_map)
    then have "sorted (map rhash ?ch)" by (simp add: take_map drop_map)
    moreover have "ent_ok qn ?i ?he" using assms(6,7) h' by (auto simp: ent_ok_def)
    then have "\<forall>he \<in> set ?ch. ent_ok qn ?i he" unfolding set_ch using c by (simp add: chain_ok_def)
    moreover have "distinct (map cdata ?ch)"
    proof -
      have nin: "data \<notin> cdata ` set (ht ! ?i)" using assms(5) hash_data_nth [OF il] by auto
      have "distinct (map cdata (take ?k (ht ! ?i) @ drop ?k (ht ! ?i)))" using c by (simp add: chain_ok_def)
      then have "distinct (map cdata (take ?k (ht ! ?i)))" "distinct (map cdata (drop ?k (ht ! ?i)))"
        "cdata ` set (take ?k (ht ! ?i)) \<inter> cdata ` set (drop ?k (ht ! ?i)) = {}"
        unfolding map_append distinct_append by simp_all
      moreover have "data \<notin> cdata ` set (take ?k (ht ! ?i))" "data \<notin> cdata ` set (drop ?k (ht ! ?i))"
        using nin by (auto dest: in_set_takeD in_set_dropD)
      ultimately show ?thesis by auto
    qed
    ultimately show ?thesis by (simp only: chain_ok_def)
  qed
  then have chains: "\<forall>j < length ?ht. chain_ok qn j (?ht ! j)"
    using assms(1) by (intro chains_update [OF _ il]) (simp_all add: hash_ok_def)
  have new: "\<not> names m qn d" if "names m qn data" "d \<in> hash_data ht" for m d
  proof
    assume d: "names m qn d"
    from that(1) obtain ls where ls: "enc nm' = enc ls" "dns_name ls" "fold_case ls = fold_case m"
      using assms(6) by (auto simp: names_def)
    then have "ls = nm'"
      using enc_inj [of nm' ls "[]" "[]"] assms(7) by (simp add: dns_name_labels_ok)
    with ls(3) assms(8) have "fold_case m = fold_case nm" by simp
    with d that(2) have "stored qn ht nm d" by (simp add: stored_def names_def)
    with assms(4) show False by blast
  qed
  have "\<forall>d \<in> hash_data ?ht. \<forall>e \<in> hash_data ?ht. \<forall>m. names m qn d \<longrightarrow> names m qn e \<longrightarrow> d = e"
    unfolding data using assms(1) new by (metis hash_ok_def insert_iff)
  with chains hash_ok_length [OF assms(1)] have "hash_ok qn ?ht" by (simp add: hash_ok_def)
  with e data show ?thesis by blast
qed

lemma ent_loc_data_once:
  assumes "hash_ok qn ht" and "ent_loc ht loc d" and "j < length ht" and "he \<in> set (ht ! j)" and "cdata he = d"
  shows "j = loc_bucket loc \<and> he = ht ! loc_bucket loc ! loc_pos loc"
proof -
  let ?i = "loc_bucket loc" and ?k = "loc_pos loc"
  have l: "?i < length ht" "?k < length (ht ! ?i)" "cdata (ht ! ?i ! ?k) = d" using assms(2) by (auto simp: ent_loc_def)
  then have "ent_ok qn ?i (ht ! ?i ! ?k)" "ent_ok qn j he"
    using assms(1,3,4) by (auto simp: hash_ok_def chain_ok_def)
  with l(3) assms(5) have j: "j = ?i" using enc_inj [of _ _ "[]" "[]"] by (auto simp: ent_ok_def)
  have "distinct (map cdata (ht ! ?i))" using assms(1) l(1) by (auto simp: hash_ok_def chain_ok_def)
  with j assms(4,5) l(2,3) have "he = ht ! ?i ! ?k"
    by (metis distinct_map inj_onD nth_mem)
  with j show ?thesis by simp
qed

lemma del_dns_hash_ent_spec:
  assumes "hash_ok qn ht" and "ent_loc ht loc d"
  shows "\<exists>ht'. del_dns_hash_ent ht loc = Some (d, ht') \<and> hash_ok qn ht' \<and> hash_data ht' = hash_data ht - {d}"
proof -
  let ?i = "loc_bucket loc" and ?k = "loc_pos loc"
  let ?ch = "take ?k (ht ! ?i) @ drop (?k + 1) (ht ! ?i)"
  have l: "?i < length ht" "?k < length (ht ! ?i)" "cdata (ht ! ?i ! ?k) = d" using assms(2) by (auto simp: ent_loc_def)
  have e: "del_dns_hash_ent ht loc = Some (d, ht[?i := ?ch])"
    using l by (simp add: del_dns_hash_ent_def rd_in wr_in)
  have split: "ht ! ?i = take ?k (ht ! ?i) @ (ht ! ?i ! ?k) # drop (?k + 1) (ht ! ?i)"
    using l(2) by (simp add: id_take_nth_drop)
  have c: "chain_ok qn ?i (ht ! ?i)" using assms(1) l(1) by (simp add: hash_ok_def)
  have once: "he \<in> set (ht ! ?i) \<Longrightarrow> cdata he = d \<Longrightarrow> he = ht ! ?i ! ?k" for he
    using ent_loc_data_once [OF assms l(1)] by blast
  have dist: "distinct (ht ! ?i)" using c by (auto simp: chain_ok_def distinct_map)
  then have "ht ! ?i ! ?k \<notin> set ?ch" by (subst (asm) split) simp
  moreover have "set (ht ! ?i) = insert (ht ! ?i ! ?k) (set ?ch)"
    using arg_cong [OF split, of set] by simp
  ultimately have "set ?ch = set (ht ! ?i) - {ht ! ?i ! ?k}" by auto
  then have data: "cdata ` set ?ch = cdata ` set (ht ! ?i) - {d}"
    using once l(3) by auto
  have "sorted (map rhash ?ch) \<and> distinct (map cdata ?ch)"
    using c by (subst (asm) split) (auto simp: chain_ok_def sorted_append)
  moreover have "set ?ch \<subseteq> set (ht ! ?i)" by (auto dest: in_set_takeD in_set_dropD)
  ultimately have "chain_ok qn ?i ?ch" using c by (auto simp: chain_ok_def)
  then have chains: "\<forall>j < length (ht[?i := ?ch]). chain_ok qn j (ht[?i := ?ch] ! j)"
    using assms(1) by (intro chains_update [OF _ l(1)]) (simp_all add: hash_ok_def)
  have "hash_data (ht[?i := ?ch]) = hash_data ht - {d}"
    unfolding hash_data_update [OF l(1)] data hash_data_bucket [OF l(1)]
    using ent_loc_data_once [OF assms] by blast
  moreover from this chains assms(1) have "hash_ok qn (ht[?i := ?ch])" by (simp add: hash_ok_def)
  ultimately show ?thesis using e by blast
qed

lemma del_dns_hash_spec:
  assumes "hash_ok qn ht" and "dns_name nm"
  shows "\<exists>ret ht'. del_dns_hash qn ht (enc nm) = Some (ret, ht') \<and> hash_ok qn ht' \<and>
    (case ret of None \<Rightarrow> (\<forall>d. \<not> stored qn ht nm d) \<and> ht' = ht
     | Some d \<Rightarrow> stored qn ht nm d \<and> hash_data ht' = hash_data ht - {d})"
proof -
  from dns_lookup_spec [OF assms, of "[]"] obtain ret loc where l: "dns_lookup qn ht (enc nm) = Some (ret, loc)"
    "case ret of None \<Rightarrow> (\<forall>d. \<not> stored qn ht nm d) \<and> insert_loc ht nm loc
     | Some d \<Rightarrow> stored qn ht nm d \<and> ent_loc ht loc d" by auto
  then obtain ch where h: "dns_hash (enc nm) = Some (loc_bucket loc, loc_rhash loc)"
    "rd ht (loc_bucket loc) = Some ch" "lookup_chain qn (enc nm) (loc_rhash loc) ch 0 = Some (ret, loc_pos loc)"
    by (auto simp: dns_lookup_def split: bind_splits)
  show ?thesis
  proof (cases ret)
    case None
    with h l assms(1) show ?thesis by (simp add: del_dns_hash_def)
  next
    case (Some d)
    with l(2) have d: "stored qn ht nm d" "ent_loc ht loc d" by auto
    from del_dns_hash_ent_spec [OF assms(1) d(2)] obtain ht' where e:
      "del_dns_hash_ent ht loc = Some (d, ht')" "hash_ok qn ht'" "hash_data ht' = hash_data ht - {d}" by blast
    have "del_dns_hash qn ht (enc nm) = Some (Some d, ht')"
      using h Some e(1) d(2) by (auto simp: del_dns_hash_def del_dns_hash_ent_def ent_loc_def split: bind_splits)
    with e d(1) show ?thesis by auto
  qed
qed

subsection \<open>Emptying and iterating\<close>

lemma del_all_append:
  "del_all del (a @ b) st = Option.bind (del_all del a st) (del_all del b)"
proof (induction a arbitrary: st)
  case (Cons he a)
  then show ?case by (cases "del (cdata he) st") simp_all
qed simp

lemma free_buckets_suffix:
  "i + n = length ht \<Longrightarrow> free_buckets del [i..<i + n] (ht, st) =
     map_option (\<lambda>st'. (take i ht @ replicate n [], st')) (del_all del (concat (drop i ht)) st)"
proof (induction n arbitrary: i ht st)
  case (Suc n)
  then have i: "i < length ht" by simp
  have upt: "[i..<i + Suc n] = i # [i + 1..<i + 1 + n]" using upt_rec [of i "i + Suc n"] by simp
  have "free_dns_hash_bucket del i (ht, st) = map_option (\<lambda>st'. (ht[i := []], st')) (del_all del (ht ! i) st)"
    using i by (cases "del_all del (ht ! i) st") (simp_all add: free_dns_hash_bucket_def rd_in wr_in)
  moreover have "concat (drop i ht) = ht ! i @ concat (drop (i + 1) ht)"
    using i by (simp add: Cons_nth_drop_Suc [symmetric])
  moreover have "take (i + 1) (ht[i := []]) = take i ht @ [[]]" using i by (simp add: take_Suc_conv_app_nth)
  ultimately show ?case
    using Suc.IH [of "i + 1" "ht[i := []]"] Suc.prems unfolding upt
    by (cases "del_all del (ht ! i) st") (simp_all add: del_all_append del: upt_Suc)
qed simp

text \<open>
  C37: \<open>free_dns_hash\<close> frees every entry of the table exactly once, in the order of the table,
  and leaves an empty table; it fails only when freeing one of the entries does.
\<close>
theorem free_dns_hash_all:
  assumes "length ht = HASH_NUM_BUCKETS"
  shows "free_dns_hash del (ht, st) = map_option (\<lambda>st'. (mk_dns_hash, st')) (del_all del (concat ht) st)"
  using free_buckets_suffix [of 0 HASH_NUM_BUCKETS ht del st] assms
  by (simp add: free_dns_hash_def mk_dns_hash_def)

theorem free_dns_hash_all_witness:
  "free_dns_hash (\<lambda>d st. Some (d # st)) (mk_dns_hash[5 := [\<lparr>rhash = 1, cdata = 7\<rparr>, \<lparr>rhash = 2, cdata = 8\<rparr>]], []) =
     Some (mk_dns_hash, [8, 7])"
proof -
  have "length (mk_dns_hash[5 := [\<lparr>rhash = 1, cdata = 7\<rparr>, \<lparr>rhash = 2, cdata = 8\<rparr>]]) = HASH_NUM_BUCKETS"
    by (simp add: mk_dns_hash_def)
  note f = free_dns_hash_all [OF this, of "\<lambda>d st. Some (d # st)" "[]"]
  have "mk_dns_hash[5 := x] = replicate 5 [] @ x # replicate 1018 []" for x :: "dns_hash_ent list"
  proof -
    have "mk_dns_hash = replicate 5 [] @ replicate 1019 []"
      unfolding mk_dns_hash_def HASH_NUM_BUCKETS_def by (subst replicate_add [symmetric]) simp
    also have "(replicate 1019 [] :: hash_table) = [] # replicate 1018 []"
      by (subst replicate_Suc [symmetric]) simp
    finally have e: "mk_dns_hash = replicate 5 [] @ [] # replicate 1018 []" .
    show ?thesis unfolding e list_update_append by simp
  qed
  then show ?thesis unfolding f by simp
qed

lemma first_from_Some:
  "first_from l i = Some (d, b, ch) \<Longrightarrow>
   i \<le> b \<and> map cdata (concat l) = d # map cdata ch @ map cdata (concat (drop (b + 1 - i) l))"
proof (induction l i rule: first_from.induct)
  case (2 ht i)
  then have "i + 1 \<le> b" "map cdata (concat ht) = d # map cdata ch @ map cdata (concat (drop (b + 1 - (i + 1)) ht))"
    by auto
  moreover from this(1) have "drop (b + 1 - i) ([] # ht) = drop (b + 1 - (i + 1)) ht" by (simp add: Suc_diff_le)
  ultimately show ?case by simp
qed auto

lemma first_from_None: "first_from l i = None \<Longrightarrow> concat l = []"
  by (induction l i rule: first_from.induct) auto

definition rest_data :: "hash_table \<Rightarrow> nat \<times> dns_hash_ent list \<Rightarrow> nat list" where
  "rest_data ht pos = map cdata (snd pos @ concat (drop (fst pos + 1) ht))"

lemma fetch_next_Some:
  assumes "fetch_next ht pos = Some (d, b, ch)"
  shows "rest_data ht pos = d # rest_data ht (b, ch)"
proof (cases "snd pos")
  case (Cons he rest)
  with assms show ?thesis by (auto simp: fetch_next_def rest_data_def)
next
  case Nil
  with assms have "first_from (drop (fst pos + 1) ht) (fst pos + 1) = Some (d, b, ch)"
    by (simp add: fetch_next_def)
  from first_from_Some [OF this] Nil show ?thesis by (simp add: rest_data_def add.commute)
qed

lemma fetch_next_None: "fetch_next ht pos = None \<Longrightarrow> rest_data ht pos = []"
  using first_from_None by (force simp: fetch_next_def rest_data_def split: list.splits)

text \<open>The loops \<open>for (ce=fetch_first(&pos); ce; ce=fetch_next(&pos))\<close> of the cache visit these entries.\<close>

function fetch_loop :: "hash_table \<Rightarrow> (nat \<times> nat \<times> dns_hash_ent list) option \<Rightarrow> nat list" where
  "fetch_loop ht None = []"
| "fetch_loop ht (Some (d, pos)) = d # fetch_loop ht (fetch_next ht pos)"
  by pat_completeness auto
termination
proof (relation "measure (\<lambda>(ht, x). case x of None \<Rightarrow> 0 | Some (d, pos) \<Rightarrow> Suc (length (rest_data ht pos)))")
  fix ht d pos
  show "((ht, fetch_next ht pos), ht, Some (d, pos)) \<in>
    measure (\<lambda>(ht, x). case x of None \<Rightarrow> 0 | Some (d, pos) \<Rightarrow> Suc (length (rest_data ht pos)))"
    using fetch_next_Some [of ht pos] by (cases "fetch_next ht pos") auto
qed simp

lemma fetch_loop_rest: "fetch_loop ht (fetch_next ht pos) = rest_data ht pos"
proof (induction "length (rest_data ht pos)" arbitrary: pos rule: less_induct)
  case less
  show ?case
  proof (cases "fetch_next ht pos")
    case None
    with fetch_next_None show ?thesis by simp
  next
    case (Some x)
    then obtain d b ch where x: "fetch_next ht pos = Some (d, b, ch)" by (cases x) auto
    from fetch_next_Some [OF x] less [of "(b, ch)"] x show ?thesis by simp
  qed
qed

text \<open>
  A loop with \<open>fetch_first\<close> and \<open>fetch_next\<close> visits every entry of the table exactly once,
  bucket by bucket, and ends.
\<close>
theorem fetch_visits_all: "fetch_loop ht (fetch_first ht) = map cdata (concat ht)"
proof (cases "fetch_first ht")
  case None
  then show ?thesis using first_from_None [of ht 0] by (simp add: fetch_first_def)
next
  case (Some x)
  then obtain d b ch where x: "fetch_first ht = Some (d, b, ch)" by (cases x) auto
  with first_from_Some [of ht 0 d b ch] show ?thesis
    by (simp add: fetch_first_def fetch_loop_rest rest_data_def)
qed

subsection \<open>The table as a map from names\<close>

text \<open>
  What the cache relies on: a map from names, without regard to case, to cache entries.
\<close>

locale name_map =
  fixes look :: "'t \<Rightarrow> bytes list \<Rightarrow> nat option option"
    and ins :: "'t \<Rightarrow> bytes list \<Rightarrow> nat \<Rightarrow> 't option"
    and del :: "'t \<Rightarrow> bytes list \<Rightarrow> 't option"
    and inv :: "'t \<Rightarrow> bool"
    and fresh :: "'t \<Rightarrow> nat \<Rightarrow> bool"
    and absm :: "'t \<Rightarrow> bytes list \<Rightarrow> nat option"
  assumes look: "inv t \<Longrightarrow> dns_name nm \<Longrightarrow> look t nm = Some (absm t (fold_case nm))"
    and ins: "inv t \<Longrightarrow> dns_name nm \<Longrightarrow> absm t (fold_case nm) = None \<Longrightarrow> fresh t d \<Longrightarrow>
      \<exists>t'. ins t nm d = Some t' \<and> inv t' \<and> absm t' = (absm t)(fold_case nm \<mapsto> d)"
    and del: "inv t \<Longrightarrow> dns_name nm \<Longrightarrow>
      \<exists>t'. del t nm = Some t' \<and> inv t' \<and> absm t' = (absm t)(fold_case nm := None)"
begin

lemma look_ins:
  assumes "inv t" and "dns_name nm" and "look t nm = Some None" and "fresh t d" and "dns_name nm'"
  shows "\<exists>t'. ins t nm d = Some t' \<and> inv t' \<and>
    look t' nm' = (if fold_case nm' = fold_case nm then Some (Some d) else look t nm')"
proof -
  have "absm t (fold_case nm) = None" using look [OF assms(1,2)] assms(3) by simp
  from ins [OF assms(1,2) this assms(4)] obtain t' where
    t': "ins t nm d = Some t'" "inv t'" "absm t' = (absm t)(fold_case nm \<mapsto> d)" by blast
  then show ?thesis using look [OF t'(2) assms(5)] look [OF assms(1,5)] by auto
qed

lemma look_del:
  assumes "inv t" and "dns_name nm" and "dns_name nm'"
  shows "\<exists>t'. del t nm = Some t' \<and> inv t' \<and>
    look t' nm' = (if fold_case nm' = fold_case nm then Some None else look t nm')"
proof -
  from del [OF assms(1,2)] obtain t' where
    t': "del t nm = Some t'" "inv t'" "absm t' = (absm t)(fold_case nm := None)" by blast
  then show ?thesis using look [OF t'(2) assms(3)] look [OF assms(1,3)] by auto
qed

lemma del_ins:
  assumes "inv t" and "dns_name nm" and "look t nm = Some None" and "fresh t d"
  shows "\<exists>t' t''. ins t nm d = Some t' \<and> del t' nm = Some t'' \<and> inv t'' \<and> absm t'' = absm t"
proof -
  have n: "absm t (fold_case nm) = None" using look [OF assms(1,2)] assms(3) by simp
  from ins [OF assms(1,2) n assms(4)] obtain t' where
    t': "ins t nm d = Some t'" "inv t'" "absm t' = (absm t)(fold_case nm \<mapsto> d)" by blast
  from del [OF t'(2) assms(2)] obtain t'' where
    "del t' nm = Some t''" "inv t''" "absm t'' = (absm t')(fold_case nm := None)" by blast
  with t' n show ?thesis by (auto simp: fun_upd_idem)
qed

end

text \<open>
  The operations as the cache uses them. The state is the name of each cache entry with the
  table; an entry is added behind a lookup that failed, at the location it returned.
\<close>

type_synonym name_table = "(nat \<Rightarrow> bytes option) \<times> hash_table"

definition nt_look :: "name_table \<Rightarrow> bytes list \<Rightarrow> nat option option" where
  "nt_look t nm = map_option fst (dns_lookup (fst t) (snd t) (enc nm))"

definition nt_ins :: "name_table \<Rightarrow> bytes list \<Rightarrow> nat \<Rightarrow> name_table option" where
  "nt_ins t nm d = do {
     (ret, loc) \<leftarrow> dns_lookup (fst t) (snd t) (enc nm);
     (ok, ht) \<leftarrow> add_dns_hash (snd t) d loc True;
     Some ((fst t)(d := Some (enc nm)), ht)
   }"

definition nt_del :: "name_table \<Rightarrow> bytes list \<Rightarrow> name_table option" where
  "nt_del t nm = do { (ret, ht) \<leftarrow> del_dns_hash (fst t) (snd t) (enc nm); Some (fst t, ht) }"

definition nt_inv :: "name_table \<Rightarrow> bool" where
  "nt_inv t \<longleftrightarrow> hash_ok (fst t) (snd t)"

definition nt_fresh :: "name_table \<Rightarrow> nat \<Rightarrow> bool" where
  "nt_fresh t d \<longleftrightarrow> d \<notin> hash_data (snd t)"

definition key_of :: "(nat \<Rightarrow> bytes option) \<Rightarrow> nat \<Rightarrow> bytes list \<Rightarrow> bool" where
  "key_of qn d key \<longleftrightarrow> (\<exists>ls. qn d = Some (enc ls) \<and> dns_name ls \<and> fold_case ls = key)"

definition nt_abs :: "name_table \<Rightarrow> bytes list \<Rightarrow> nat option" where
  "nt_abs t key = (if \<exists>d \<in> hash_data (snd t). key_of (fst t) d key
     then Some (THE d. d \<in> hash_data (snd t) \<and> key_of (fst t) d key) else None)"

lemma key_of_names: "key_of qn d (fold_case nm) = names nm qn d"
  by (simp add: key_of_def names_def)

lemma nt_abs_Some:
  assumes "nt_inv t"
  shows "nt_abs t key = Some d \<longleftrightarrow> d \<in> hash_data (snd t) \<and> key_of (fst t) d key"
proof -
  have unique: "d = e" if "d \<in> hash_data (snd t)" "e \<in> hash_data (snd t)" "key_of (fst t) d key" "key_of (fst t) e key" for d e
  proof -
    from that(3) obtain ls where "fold_case ls = key" by (auto simp: key_of_def)
    with that assms show ?thesis unfolding nt_inv_def hash_ok_def by (metis key_of_names)
  qed
  show ?thesis
  proof
    assume "nt_abs t key = Some d"
    then have ex: "\<exists>d \<in> hash_data (snd t). key_of (fst t) d key"
      and d: "d = (THE d. d \<in> hash_data (snd t) \<and> key_of (fst t) d key)"
      by (auto simp: nt_abs_def split: if_splits)
    from ex unique have "\<exists>!d. d \<in> hash_data (snd t) \<and> key_of (fst t) d key" by blast
    from theI' [OF this] d show "d \<in> hash_data (snd t) \<and> key_of (fst t) d key" by simp
  next
    assume d: "d \<in> hash_data (snd t) \<and> key_of (fst t) d key"
    then have "(THE d. d \<in> hash_data (snd t) \<and> key_of (fst t) d key) = d"
      using unique by (intro the_equality) blast+
    with d show "nt_abs t key = Some d" by (auto simp: nt_abs_def)
  qed
qed

lemma nt_abs_eqI:
  assumes "nt_inv t" and "\<And>key d. f key = Some d \<longleftrightarrow> d \<in> hash_data (snd t) \<and> key_of (fst t) d key"
  shows "nt_abs t = f"
proof
  fix key
  have "nt_abs t key = Some d \<longleftrightarrow> f key = Some d" for d
    by (simp only: nt_abs_Some [OF assms(1)] assms(2))
  then show "nt_abs t key = f key" by (metis option.exhaust)
qed

lemma nt_lookup:
  assumes "nt_inv t" and "dns_name nm"
  shows "\<exists>loc. dns_lookup (fst t) (snd t) (enc nm) = Some (nt_abs t (fold_case nm), loc) \<and>
    (nt_abs t (fold_case nm) = None \<longrightarrow> insert_loc (snd t) nm loc \<and> (\<forall>d. \<not> stored (fst t) (snd t) nm d))"
proof -
  from dns_lookup_spec [OF assms(1) [unfolded nt_inv_def] assms(2), of "[]"] obtain ret loc where
    l: "dns_lookup (fst t) (snd t) (enc nm) = Some (ret, loc)"
    "case ret of None \<Rightarrow> (\<forall>d. \<not> stored (fst t) (snd t) nm d) \<and> insert_loc (snd t) nm loc
     | Some d \<Rightarrow> stored (fst t) (snd t) nm d \<and> ent_loc (snd t) loc d" by auto
  have "ret = nt_abs t (fold_case nm)"
  proof (cases ret)
    case None
    with l(2) nt_abs_Some [OF assms(1), of "fold_case nm"] show ?thesis
      by (cases "nt_abs t (fold_case nm)") (auto simp: stored_def key_of_names)
  next
    case (Some d)
    with l(2) nt_abs_Some [OF assms(1), of "fold_case nm" d] show ?thesis
      by (auto simp: stored_def key_of_names)
  qed
  with l show ?thesis by auto
qed

lemma nt_insert:
  assumes "nt_inv t" and "dns_name nm" and "nt_abs t (fold_case nm) = None" and "nt_fresh t d"
  shows "\<exists>t'. nt_ins t nm d = Some t' \<and> nt_inv t' \<and> nt_abs t' = (nt_abs t)(fold_case nm \<mapsto> d)"
proof -
  let ?qn = "(fst t)(d := Some (enc nm))"
  from nt_lookup [OF assms(1,2)] assms(3) obtain loc where
    l: "dns_lookup (fst t) (snd t) (enc nm) = Some (None, loc)" "insert_loc (snd t) nm loc"
      "\<forall>e. \<not> stored (fst t) (snd t) nm e" by auto
  have other: "?qn e = fst t e" if "e \<in> hash_data (snd t)" for e
    using that assms(4) by (auto simp: nt_fresh_def)
  have ok: "hash_ok ?qn (snd t)"
    using assms(1) other unfolding nt_inv_def by (rule hash_ok_cong)
  have "\<not> stored ?qn (snd t) nm e" for e
    using l(3) other by (auto simp: stored_def names_def)
  from add_dns_hash_spec [OF ok assms(2) l(2) _ _ _ assms(2) refl, of d] this assms(4) obtain ht where
    a: "add_dns_hash (snd t) d loc True = Some (True, ht)" "hash_ok ?qn ht" "hash_data ht = insert d (hash_data (snd t))"
    by (auto simp: nt_fresh_def)
  have inv: "nt_inv (?qn, ht)" using a(2) by (simp add: nt_inv_def)
  have "nt_abs (?qn, ht) = (nt_abs t)(fold_case nm \<mapsto> d)"
  proof (rule nt_abs_eqI [OF inv])
    fix key e
    have "key_of ?qn d key \<longleftrightarrow> key = fold_case nm"
      using assms(2) enc_inj [of nm _ "[]" "[]"] by (auto simp: key_of_def dest: dns_name_labels_ok)
    moreover have "key_of ?qn e key = key_of (fst t) e key" if "e \<in> hash_data (snd t)" for e
      using other [OF that] by (simp add: key_of_def)
    ultimately show "((nt_abs t)(fold_case nm \<mapsto> d)) key = Some e \<longleftrightarrow>
        e \<in> hash_data (snd (?qn, ht)) \<and> key_of (fst (?qn, ht)) e key"
      using nt_abs_Some [OF assms(1), of key e] nt_abs_Some [OF assms(1), of "fold_case nm"] assms(3,4)
      unfolding snd_conv fst_conv a(3) by (auto simp: nt_fresh_def)
  qed
  with inv show ?thesis using l(1) a(1) by (simp add: nt_ins_def)
qed

lemma nt_delete:
  assumes "nt_inv t" and "dns_name nm"
  shows "\<exists>t'. nt_del t nm = Some t' \<and> nt_inv t' \<and> nt_abs t' = (nt_abs t)(fold_case nm := None)"
proof -
  from del_dns_hash_spec [OF assms(1) [unfolded nt_inv_def] assms(2)] obtain ret ht where
    d: "del_dns_hash (fst t) (snd t) (enc nm) = Some (ret, ht)" "hash_ok (fst t) ht"
      "case ret of None \<Rightarrow> (\<forall>d. \<not> stored (fst t) (snd t) nm d) \<and> ht = snd t
       | Some d \<Rightarrow> stored (fst t) (snd t) nm d \<and> hash_data ht = hash_data (snd t) - {d}" by blast
  have inv: "nt_inv (fst t, ht)" using d(2) by (simp add: nt_inv_def)
  have "nt_abs (fst t, ht) = (nt_abs t)(fold_case nm := None)"
  proof (rule nt_abs_eqI [OF inv])
    fix key e
    have k: "(e \<in> hash_data ht \<and> key_of (fst t) e key) =
        (e \<in> hash_data (snd t) \<and> key_of (fst t) e key \<and> key \<noteq> fold_case nm)"
    proof (cases ret)
      case None
      with d(3) show ?thesis by (auto simp: stored_def key_of_names)
    next
      case (Some x)
      with d(3) have x: "stored (fst t) (snd t) nm x" "hash_data ht = hash_data (snd t) - {x}" by auto
      have "key_of (fst t) x key \<longleftrightarrow> key = fold_case nm"
        using x(1) by (auto simp: stored_def names_def key_of_def dest: dns_enc_inj)
      moreover have "e \<in> hash_data (snd t) \<Longrightarrow> names nm (fst t) e \<Longrightarrow> e = x"
        using x(1) assms(1) hash_ok_unique [of "fst t" "snd t" nm e x] by (simp add: stored_def nt_inv_def)
      moreover have "key_of (fst t) e key \<Longrightarrow> key = fold_case nm \<longleftrightarrow> names nm (fst t) e"
        by (auto simp: key_of_def names_def dest: dns_enc_inj)
      ultimately show ?thesis unfolding x(2) by blast
    qed
    show "((nt_abs t)(fold_case nm := None)) key = Some e \<longleftrightarrow>
        e \<in> hash_data (snd (fst t, ht)) \<and> key_of (fst (fst t, ht)) e key"
      using nt_abs_Some [OF assms(1), of key e] k by auto
  qed
  with inv d(1) show ?thesis by (simp add: nt_del_def)
qed

interpretation nt: name_map nt_look nt_ins nt_del nt_inv nt_fresh nt_abs
proof unfold_locales
  fix t nm assume "nt_inv t" and "dns_name nm"
  then show "nt_look t nm = Some (nt_abs t (fold_case nm))"
    using nt_lookup [of t nm] by (auto simp: nt_look_def)
qed (fact nt_insert nt_delete)+

text \<open>
  C31: after a name is entered in the table at the location its failed lookup returned, a lookup
  finds it under every spelling in upper and lower case, and every other name as before.
\<close>
theorem hash_insert_lookup:
  assumes "nt_inv t" and "dns_name nm" and "nt_look t nm = Some None" and "nt_fresh t d" and "dns_name nm'"
  shows "\<exists>t'. nt_ins t nm d = Some t' \<and> nt_inv t' \<and>
    nt_look t' nm' = (if fold_case nm' = fold_case nm then Some (Some d) else nt_look t nm')"
  using assms by (rule nt.look_ins)

theorem hash_insert_lookup_witness:
  "\<exists>t'. nt_ins (\<lambda>d. None, mk_dns_hash) [str ''org''] 3 = Some t' \<and> nt_inv t' \<and>
     nt_look t' [str ''ORG''] = Some (Some 3)"
proof -
  have i: "nt_inv (\<lambda>d. None, mk_dns_hash)" "nt_fresh (\<lambda>d. None, mk_dns_hash) 3"
    using hash_ok_empty by (simp_all add: nt_inv_def nt_fresh_def)
  have n: "dns_name [str ''org'']" "dns_name [str ''ORG'']" "fold_case [str ''ORG''] = fold_case [str ''org'']"
    by code_simp+
  have "nt_abs (\<lambda>d. None, mk_dns_hash) key = None" for key
    using hash_ok_empty by (auto simp: nt_abs_def)
  then have "nt_look (\<lambda>d. None, mk_dns_hash) [str ''org''] = Some None"
    using nt.look [OF i(1) n(1)] by simp
  from hash_insert_lookup [OF i(1) n(1) this i(2) n(2)] n(3) show ?thesis by simp
qed

text \<open>
  Deleting a name from the table removes it under every spelling and nothing else; deleting
  a name that was just entered restores the table's content.
\<close>
theorem hash_delete_lookup:
  assumes "nt_inv t" and "dns_name nm" and "dns_name nm'"
  shows "\<exists>t'. nt_del t nm = Some t' \<and> nt_inv t' \<and>
    nt_look t' nm' = (if fold_case nm' = fold_case nm then Some None else nt_look t nm')"
  using assms by (rule nt.look_del)

theorem hash_delete_lookup_witness:
  "\<exists>t'. nt_del (\<lambda>d. None, mk_dns_hash) [str ''org''] = Some t' \<and> nt_look t' [str ''ORG''] = Some None"
proof -
  have i: "nt_inv (\<lambda>d. None, mk_dns_hash)" using hash_ok_empty by (simp add: nt_inv_def)
  have n: "dns_name [str ''org'']" "dns_name [str ''ORG'']" "fold_case [str ''ORG''] = fold_case [str ''org'']"
    by code_simp+
  from hash_delete_lookup [OF i n(1,2)] n(3) show ?thesis by auto
qed

text \<open>
  The short hash of a name is a bucket number, and neither hash depends on the case of the
  letters, so that spellings of one name meet in one chain at one hash.
\<close>
theorem dns_hash_caseless:
  assumes "dns_name a" and "fold_case a = fold_case b"
  shows "\<exists>idx r. dns_hash (enc a) = Some (idx, r) \<and> dns_hash (enc b) = Some (idx, r) \<and> idx < HASH_NUM_BUCKETS"
  using dns_hash_enc [OF dns_name_labels_ok [OF assms(1)], of "[]"] assms(2) by (metis append_Nil2)

theorem dns_hash_caseless_witness:
  "dns_hash (enc [str ''Org'']) = dns_hash (enc [str ''oRG''])"
proof -
  have "dns_name [str ''Org'']" "fold_case [str ''Org''] = fold_case [str ''oRG'']" by code_simp+
  from dns_hash_caseless [OF this] show ?thesis by auto
qed

end
