(* ===== verification/Rr_Types.thy ===== *)
theory Rr_Types
  imports Pdnsd_Prelude "HOL-Library.Signed_Division"
begin

text \<open>
  \<open>rr_types.h\<close> and \<open>rr_types.c\<close>: the record types, the tables that index them, the classes
  that say which types exclude each other in the cache, the lookup of a type by name, and the
  text form of a LOC record.
\<close>

subsection \<open>Record types and tables\<close>

definition T_MIN :: nat where "T_MIN = 1"
definition T_MAX :: nat where "T_MAX = 51"
definition T_NUM :: nat where "T_NUM = 51"
definition T_A :: nat where "T_A = 1"
definition T_NS :: nat where "T_NS = 2"
definition T_MD :: nat where "T_MD = 3"
definition T_MF :: nat where "T_MF = 4"
definition T_CNAME :: nat where "T_CNAME = 5"
definition T_SOA :: nat where "T_SOA = 6"
definition T_MB :: nat where "T_MB = 7"
definition T_MG :: nat where "T_MG = 8"
definition T_MR :: nat where "T_MR = 9"
definition T_NULL :: nat where "T_NULL = 10"
definition T_WKS :: nat where "T_WKS = 11"
definition T_PTR :: nat where "T_PTR = 12"
definition T_HINFO :: nat where "T_HINFO = 13"
definition T_MINFO :: nat where "T_MINFO = 14"
definition T_MX :: nat where "T_MX = 15"
definition T_TXT :: nat where "T_TXT = 16"
definition T_RP :: nat where "T_RP = 17"
definition T_AFSDB :: nat where "T_AFSDB = 18"
definition T_RT :: nat where "T_RT = 21"
definition T_NSAP_PTR :: nat where "T_NSAP_PTR = 23"
definition T_SIG :: nat where "T_SIG = 24"
definition T_PX :: nat where "T_PX = 26"
definition T_AAAA :: nat where "T_AAAA = 28"
definition T_NXT :: nat where "T_NXT = 30"
definition T_SRV :: nat where "T_SRV = 33"
definition T_NAPTR :: nat where "T_NAPTR = 35"
definition T_KX :: nat where "T_KX = 36"
definition T_OPT :: nat where "T_OPT = 41"
definition T_RRSIG :: nat where "T_RRSIG = 46"
definition T_NSEC :: nat where "T_NSEC = 47"
definition T_X25 :: nat where "T_X25 = 19"
definition T_ISDN :: nat where "T_ISDN = 20"
definition T_NSAP :: nat where "T_NSAP = 22"
definition T_KEY :: nat where "T_KEY = 25"
definition T_GPOS :: nat where "T_GPOS = 27"
definition T_LOC :: nat where "T_LOC = 29"
definition T_EID :: nat where "T_EID = 31"
definition T_NIMLOC :: nat where "T_NIMLOC = 32"
definition T_ATMA :: nat where "T_ATMA = 34"
definition T_CERT :: nat where "T_CERT = 37"
definition T_A6 :: nat where "T_A6 = 38"
definition T_DNAME :: nat where "T_DNAME = 39"
definition T_SINK :: nat where "T_SINK = 40"
definition T_APL :: nat where "T_APL = 42"
definition T_DS :: nat where "T_DS = 43"
definition T_SSHFP :: nat where "T_SSHFP = 44"
definition T_IPSECKEY :: nat where "T_IPSECKEY = 45"
definition T_DNSKEY :: nat where "T_DNSKEY = 48"
definition T_DHCID :: nat where "T_DHCID = 49"
definition T_NSEC3 :: nat where "T_NSEC3 = 50"
definition T_NSEC3PARAM :: nat where "T_NSEC3PARAM = 51"
definition T_HIP :: nat where "T_HIP = 55"
definition T_NINFO :: nat where "T_NINFO = 56"
definition T_RKEY :: nat where "T_RKEY = 57"
definition T_TALINK :: nat where "T_TALINK = 58"
definition T_SPF :: nat where "T_SPF = 99"
definition T_UINFO :: nat where "T_UINFO = 100"
definition T_UID :: nat where "T_UID = 101"
definition T_GID :: nat where "T_GID = 102"
definition T_UNSPEC :: nat where "T_UNSPEC = 103"

lemmas rr_type_defs = T_MIN_def T_MAX_def T_NUM_def
  T_A_def T_NS_def T_MD_def T_MF_def T_CNAME_def T_SOA_def T_MB_def T_MG_def
  T_MR_def T_NULL_def T_WKS_def T_PTR_def T_HINFO_def T_MINFO_def T_MX_def T_TXT_def
  T_RP_def T_AFSDB_def T_RT_def T_NSAP_PTR_def T_SIG_def T_PX_def T_AAAA_def T_NXT_def
  T_SRV_def T_NAPTR_def T_KX_def T_OPT_def T_RRSIG_def T_NSEC_def
  T_X25_def T_ISDN_def T_NSAP_def T_KEY_def T_GPOS_def T_LOC_def T_EID_def T_NIMLOC_def T_ATMA_def T_CERT_def T_A6_def T_DNAME_def T_SINK_def T_APL_def T_DS_def T_SSHFP_def T_IPSECKEY_def T_DNSKEY_def T_DHCID_def T_NSEC3_def T_NSEC3PARAM_def T_HIP_def T_NINFO_def T_RKEY_def T_TALINK_def T_SPF_def T_UINFO_def T_UID_def T_GID_def T_UNSPEC_def

definition NRRMU :: nat where "NRRMU = 8"
definition NRREXT :: nat where "NRREXT = 39"
definition NRRTOT :: nat where "NRRTOT = 47"

lemmas nrr_defs = NRRMU_def NRREXT_def NRRTOT_def

definition rrlkuptab :: "nat list" where
  "rrlkuptab = [
    0, 1, 8, 9, 2, 3, 10, 11, 12, 13, 14, 4, 15, 16, 5, 6, 17,
    18, 19, 20, 21, 22, 23, 24, 25, 26, 27, 7, 28, 29, 30, 31, 32, 33,
    34, 35, 36, 47, 48, 49, 50, 37, 38, 39, 40, 41, 42, 43, 44, 45, 46]"

definition rrmuiterlist :: "nat list" where
  "rrmuiterlist = [1, 2, 5, 6, 12, 15, 16, 28]"

definition rrcachiterlist :: "nat list" where
  "rrcachiterlist = [
    1, 2, 3, 4, 5, 6, 7, 8, 9, 10, 11, 12, 13, 14, 15, 16,
    17, 18, 19, 20, 21, 22, 23, 24, 25, 26, 27, 28, 29, 30, 31, 32,
    33, 34, 35, 36, 37, 42, 43, 44, 45, 46, 47, 48, 49, 50, 51]"

definition rrnames :: "string list" where
  "rrnames = [
    ''A'', ''NS'', ''MD'', ''MF'', ''CNAME'', ''SOA'', ''MB'', ''MG'', ''MR'', ''NULL'',
    ''WKS'', ''PTR'', ''HINFO'', ''MINFO'', ''MX'', ''TXT'', ''RP'', ''AFSDB'', ''X25'', ''ISDN'',
    ''RT'', ''NSAP'', ''NSAP_PTR'', ''SIG'', ''KEY'', ''PX'', ''GPOS'', ''AAAA'', ''LOC'', ''NXT'',
    ''EID'', ''NIMLOC'', ''SRV'', ''ATMA'', ''NAPTR'', ''KX'', ''CERT'', ''A6'', ''DNAME'', ''SINK'',
    ''OPT'', ''APL'', ''DS'', ''SSHFP'', ''IPSECKEY'', ''RRSIG'', ''NSEC'', ''DNSKEY'', ''DHCID'', ''NSEC3'',
    ''NSEC3PARAM'']"

text \<open>The classes and their standard exclusions.\<close>

definition RRCL_ALIAS :: "16 word" where "RRCL_ALIAS = 1"
definition RRCL_RECORD :: "16 word" where "RRCL_RECORD = 2"
definition RRCL_IDEM :: "16 word" where "RRCL_IDEM = 4"
definition RRCL_PTR :: "16 word" where "RRCL_PTR = 8"

definition RRX_ALIAS :: "16 word" where "RRX_ALIAS = RRCL_RECORD OR RRCL_PTR"
definition RRX_RECORD :: "16 word" where "RRX_RECORD = RRCL_ALIAS OR RRCL_PTR"
definition RRX_IDEM :: "16 word" where "RRX_IDEM = 0"
definition RRX_PTR :: "16 word" where "RRX_PTR = RRCL_ALIAS OR RRCL_RECORD"

lemmas rr_class_defs = RRCL_ALIAS_def RRCL_RECORD_def RRCL_IDEM_def RRCL_PTR_def
  RRX_ALIAS_def RRX_RECORD_def RRX_IDEM_def RRX_PTR_def

text \<open>\<open>struct rr_infos\<close>: the class and the classes it excludes, indexed by internal index.\<close>

record rr_infos =
  rr_class :: "16 word"
  rr_excludes :: "16 word"

abbreviation rri :: "16 word \<Rightarrow> 16 word \<Rightarrow> rr_infos" where
  "rri c x \<equiv> \<lparr>rr_class = c, rr_excludes = x\<rparr>"

definition rr_info :: "rr_infos list" where
  "rr_info = [
    rri RRCL_RECORD RRX_RECORD, rri RRCL_IDEM RRX_IDEM, rri RRCL_ALIAS RRX_ALIAS,
    rri RRCL_IDEM RRX_IDEM, rri RRCL_PTR RRX_PTR, rri RRCL_IDEM RRX_IDEM,
    rri RRCL_IDEM RRX_IDEM, rri RRCL_RECORD RRX_RECORD, rri RRCL_IDEM RRX_IDEM,
    rri RRCL_IDEM RRX_IDEM, rri RRCL_IDEM RRX_IDEM, rri RRCL_IDEM RRX_IDEM,
    rri RRCL_IDEM RRX_IDEM, rri RRCL_IDEM RRX_IDEM, rri RRCL_RECORD RRX_RECORD,
    rri RRCL_RECORD RRX_RECORD, rri RRCL_IDEM RRX_IDEM, rri RRCL_RECORD RRX_RECORD,
    rri RRCL_RECORD RRX_RECORD, rri RRCL_RECORD RRX_RECORD, rri RRCL_RECORD RRX_RECORD,
    rri RRCL_RECORD RRX_RECORD, rri RRCL_RECORD RRX_RECORD, rri RRCL_PTR RRX_PTR,
    rri RRCL_IDEM RRX_IDEM, rri RRCL_IDEM RRX_IDEM, rri RRCL_IDEM RRX_IDEM,
    rri RRCL_RECORD RRX_RECORD, rri RRCL_RECORD RRX_RECORD, rri RRCL_IDEM RRX_IDEM,
    rri RRCL_RECORD RRX_RECORD, rri RRCL_RECORD RRX_RECORD, rri RRCL_RECORD RRX_RECORD,
    rri RRCL_RECORD RRX_RECORD, rri RRCL_RECORD RRX_RECORD, rri RRCL_RECORD RRX_RECORD,
    rri RRCL_RECORD RRX_RECORD, rri RRCL_IDEM RRX_IDEM, rri RRCL_IDEM RRX_IDEM,
    rri RRCL_IDEM RRX_IDEM, rri RRCL_IDEM RRX_IDEM, rri RRCL_IDEM RRX_IDEM,
    rri RRCL_IDEM RRX_IDEM, rri RRCL_IDEM RRX_IDEM, rri RRCL_IDEM RRX_IDEM,
    rri RRCL_IDEM RRX_IDEM, rri RRCL_IDEM RRX_IDEM]"

subsection \<open>Use of the tables\<close>

text \<open>\<open>PDNSD_NOT_CACHED_TYPE\<close>.\<close>

definition PDNSD_NOT_CACHED_TYPE :: "int \<Rightarrow> bool" where
  "PDNSD_NOT_CACHED_TYPE type \<longleftrightarrow> type < int T_MIN \<or> int T_MAX < type \<or>
     NRRTOT \<le> rrlkuptab ! nat (type - int T_MIN)"

text \<open>The test of \<open>cr_check_add\<close> (\<open>cache.c\<close>) that sets with two indices conflict, checked both ways.\<close>

definition rr_excl :: "nat \<Rightarrow> nat \<Rightarrow> bool" where
  "rr_excl i j \<longleftrightarrow> rr_class (rr_info ! i) AND rr_excludes (rr_info ! j) \<noteq> 0"

definition rr_conflict :: "nat \<Rightarrow> nat \<Rightarrow> bool" where
  "rr_conflict idx i \<longleftrightarrow> rr_excl idx i \<or> rr_excl i idx"

text \<open>The loop of \<open>rr_tp_byname\<close>.\<close>

fun tp_byname_loop :: "string \<Rightarrow> nat \<Rightarrow> string list \<Rightarrow> int" where
  "tp_byname_loop name i [] = -1"
| "tp_byname_loop name i (r # rs) = (if name = r then int i + int T_MIN else tp_byname_loop name (i + 1) rs)"

definition rr_tp_byname :: "string \<Rightarrow> int" where
  "rr_tp_byname name = tp_byname_loop name 0 rrnames"

text \<open>Facts about the tables are decided by evaluation.\<close>

lemma table_lengths [simp]:
  "length rrlkuptab = T_NUM" "length rrnames = T_NUM" "length rr_info = NRRTOT"
  "length rrcachiterlist = NRRTOT" "length rrmuiterlist = NRRMU"
  by code_simp+

lemma rrlkuptab_distinct: "distinct rrlkuptab"
  by code_simp

lemma rrcachiterlist_index:
  "rrcachiterlist = filter (\<lambda>t. rrlkuptab ! (t - T_MIN) < NRRTOT) [T_MIN..<T_MAX + 1]"
  by code_simp

lemma rrmuiterlist_index:
  "rrmuiterlist = filter (\<lambda>t. rrlkuptab ! (t - T_MIN) < NRRMU) [T_MIN..<T_MAX + 1]"
  by code_simp

lemma rrlkuptab_bound: "\<forall>x \<in> set rrlkuptab. x < T_NUM"
  by code_simp

lemma rrnames_distinct: "distinct rrnames"
  by code_simp

lemma rr_excl_sym: "\<forall>i \<in> set [0..<NRRTOT]. \<forall>j \<in> set [0..<NRRTOT]. rr_excl i j = rr_excl j i"
  by code_simp

text \<open>
  The tables of record types agree with each other. Different types have different internal
  indices, every index below \<open>NRRTOT\<close> belongs to exactly one type, and the two iteration lists
  enumerate in ascending order the types whose index is below \<open>NRRTOT\<close> and below \<open>NRRMU\<close>.
\<close>
theorem rr_tables_consistent:
  "distinct rrlkuptab \<and> set rrlkuptab = {..<T_NUM} \<and>
   rrcachiterlist = filter (\<lambda>t. rrlkuptab ! (t - T_MIN) < NRRTOT) [T_MIN..<T_MAX + 1] \<and>
   rrmuiterlist = filter (\<lambda>t. rrlkuptab ! (t - T_MIN) < NRRMU) [T_MIN..<T_MAX + 1] \<and>
   sorted_wrt (<) rrcachiterlist \<and> sorted_wrt (<) rrmuiterlist"
proof -
  have "set rrlkuptab \<subseteq> {..<T_NUM}" using rrlkuptab_bound by auto
  moreover have "card (set rrlkuptab) = card {..<T_NUM}"
    using distinct_card [OF rrlkuptab_distinct] by simp
  ultimately have "set rrlkuptab = {..<T_NUM}" by (intro card_subset_eq) auto
  moreover have "sorted_wrt (<) rrcachiterlist" "sorted_wrt (<) rrmuiterlist" by code_simp+
  ultimately show ?thesis using rrlkuptab_distinct rrcachiterlist_index rrmuiterlist_index by blast
qed

text \<open>
  The exclusions between record types are symmetric, as the comment in the header demands,
  so that the two tests of \<open>cr_check_add\<close> agree; only aliases, address-like records and
  pointers exclude others, and no type excludes itself.
\<close>
theorem rr_exclusion_symmetric:
  assumes "i < NRRTOT" and "j < NRRTOT"
  shows "rr_excl i j = rr_excl j i \<and> rr_conflict i j = rr_excl i j \<and> \<not> rr_conflict i i"
proof -
  have s: "rr_excl i j = rr_excl j i" using rr_excl_sym assms by simp
  have "\<forall>i \<in> set [0..<NRRTOT]. \<not> rr_conflict i i" by code_simp
  then have "\<not> rr_conflict i i" using assms(1) by simp
  with s show ?thesis by (auto simp: rr_conflict_def)
qed

theorem rr_exclusion_symmetric_witness:
  "(0 :: nat) < NRRTOT \<and> 2 < NRRTOT \<and> rr_excl 0 2 = rr_excl 2 0 \<and> rr_conflict 0 2"
proof -
  have n: "0 < NRRTOT" "2 < NRRTOT" by (simp_all add: nrr_defs)
  have "rr_excl 0 2" by code_simp
  with rr_exclusion_symmetric [OF n] n show ?thesis by auto
qed

lemma tp_byname_loop_nth:
  "distinct rs \<Longrightarrow> k < length rs \<Longrightarrow> tp_byname_loop (rs ! k) i rs = int (i + k) + int T_MIN"
proof (induction rs arbitrary: i k)
  case (Cons r rs)
  then show ?case by (cases k) auto
qed simp

lemma tp_byname_loop_none: "name \<notin> set rs \<Longrightarrow> tp_byname_loop name i rs = -1"
  by (induction rs arbitrary: i) auto

text \<open>
  C40: \<open>rr_tp_byname\<close> inverts the table of names: the name of each type is mapped to the type,
  and any other string to -1.
\<close>
theorem rr_tp_byname_inverse:
  "(\<forall>t \<in> {T_MIN..T_MAX}. rr_tp_byname (rrnames ! (t - T_MIN)) = int t) \<and>
   (\<forall>name. name \<notin> set rrnames \<longrightarrow> rr_tp_byname name = -1)"
proof (intro conjI ballI allI impI)
  fix t assume "t \<in> {T_MIN..T_MAX}"
  then have "t - T_MIN < length rrnames" "t - T_MIN + T_MIN = t"
    by (auto simp: T_MIN_def T_MAX_def T_NUM_def)
  then show "rr_tp_byname (rrnames ! (t - T_MIN)) = int t"
    using tp_byname_loop_nth [OF rrnames_distinct, of "t - T_MIN" 0]
    by (simp add: rr_tp_byname_def flip: of_nat_add)
qed (simp add: rr_tp_byname_def tp_byname_loop_none)

theorem rr_tp_byname_inverse_witness:
  "rr_tp_byname ''CNAME'' = 5 \<and> rr_tp_byname ''cname'' = -1"
proof -
  have "5 \<in> {T_MIN..T_MAX}" by (simp add: T_MIN_def T_MAX_def)
  moreover have "rrnames ! (5 - T_MIN) = ''CNAME''" by code_simp
  moreover have "''cname'' \<notin> set rrnames" by code_simp
  ultimately show ?thesis using rr_tp_byname_inverse by fastforce
qed

end
