(* ===== verification/Reverse_Names.thy ===== *)
theory Reverse_Names
  imports Names_Text Rr_Types
begin

text \<open>
  \<open>a2ptrstr\<close> of \<open>dns.c\<close>: the name under which the PTR record of an address is stored.
\<close>

subsection \<open>Formatted output\<close>

text \<open>\<open>%u\<close> and \<open>%x\<close> of a byte and of a half byte.\<close>

definition digit :: "nat \<Rightarrow> byte" where
  "digit n = of_nat (48 + n)"

definition dec :: "byte \<Rightarrow> bytes" where
  "dec c = (let n = unat c in
     if n < 10 then [digit n]
     else if n < 100 then [digit (n div 10), digit (n mod 10)]
     else [digit (n div 100), digit (n div 10 mod 10), digit (n mod 10)])"

definition hex :: "byte \<Rightarrow> byte" where
  "hex c = (if c < 10 then 48 + c else 87 + c)"

text \<open>
  \<open>snprintf(buf + off, sz, ...)\<close> with the given full output: it writes at most \<open>sz - 1\<close>
  characters and a zero, and returns the full length.
\<close>

definition snprintf :: "bytes \<Rightarrow> nat \<Rightarrow> nat \<Rightarrow> bytes \<Rightarrow> (nat \<times> bytes) option" where
  "snprintf buf off sz text =
     (if sz = 0 then Some (length text, buf)
      else do { buf' \<leftarrow> wr_all buf off (take (sz - 1) text @ [0]); Some (length text, buf') })"

text \<open>\<open>strncp\<close> of \<open>helpers.h\<close> (\<open>strlcpy\<close>): the copy, and whether the source fitted.\<close>

definition strncp :: "bytes \<Rightarrow> nat \<Rightarrow> nat \<Rightarrow> bytes \<Rightarrow> (bool \<times> bytes) option" where
  "strncp buf off sz text = do {
     (n, buf') \<leftarrow> snprintf buf off sz text;
     Some (n < sz, buf')
   }"

subsection \<open>a2ptrstr\<close>

text \<open>The loop over the 16 bytes of an IPv6 address, from the last one; \<open>i\<close> bytes are left.\<close>

fun ptr6_loop :: "bytes \<Rightarrow> nat \<Rightarrow> bytes \<Rightarrow> nat \<Rightarrow> (bool \<times> bytes \<times> nat) option" where
  "ptr6_loop a 0 buf offs = Some (True, buf, offs)"
| "ptr6_loop a (Suc i) buf offs = do {
     bt \<leftarrow> rd a i;
     (n, buf') \<leftarrow> snprintf buf offs (DNSNAMEBUFSIZE - offs)
       [hex (bt AND 0xf), dot, hex (drop_bit 4 bt AND 0xf), dot];
     if DNSNAMEBUFSIZE \<le> offs + n then Some (False, buf', offs + n)
     else ptr6_loop a i buf' (offs + n)
   }"

definition a2ptrstr :: "bytes \<Rightarrow> nat \<Rightarrow> bytes \<Rightarrow> (bool \<times> bytes) option" where
  "a2ptrstr a tp buf =
     (if tp = T_A then do {
        p3 \<leftarrow> rd a 3; p2 \<leftarrow> rd a 2; p1 \<leftarrow> rd a 1; p0 \<leftarrow> rd a 0;
        (n, buf') \<leftarrow> snprintf buf 0 DNSNAMEBUFSIZE
          (dec p3 @ [dot] @ dec p2 @ [dot] @ dec p1 @ [dot] @ dec p0 @ str ''.in-addr.arpa.'');
        Some (n < DNSNAMEBUFSIZE, buf')
      }
      else if tp = T_AAAA then do {
        (ok, buf1, offs) \<leftarrow> ptr6_loop a 16 buf 0;
        if \<not> ok then Some (False, buf1)
        else strncp buf1 offs (DNSNAMEBUFSIZE - offs) (str ''ip6.arpa.'')
      }
      else Some (False, buf))"

subsection \<open>The names it makes\<close>

definition ptr_labels :: "nat \<Rightarrow> bytes \<Rightarrow> bytes list" where
  "ptr_labels tp a = (if tp = T_A
     then map dec (rev (take 4 a)) @ [str ''in-addr'', str ''arpa'']
     else concat (map (\<lambda>b. [[hex (b AND 0xf)], [hex (drop_bit 4 b AND 0xf)]]) (rev (take 16 a))) @
       [str ''ip6'', str ''arpa''])"

lemma digit_table: "\<forall>n \<in> set [0..<10]. text_char (digit n) \<and> tolower (digit n) = digit n"
  by code_simp

lemma digit_facts: "n < 10 \<Longrightarrow> text_char (digit n) \<and> tolower (digit n) = digit n"
  using digit_table by simp

lemma unat_digit: "n < 10 \<Longrightarrow> unat (digit n) = 48 + n"
  unfolding digit_def by (rule unat_of_nat_byte) linarith

lemma digit_inj: "m < 10 \<Longrightarrow> n < 10 \<Longrightarrow> digit m = digit n \<Longrightarrow> m = n"
  by (metis unat_digit add_left_cancel)

lemma dec_digits: "unat (c :: byte) div 100 < 10" "unat c < 100 \<Longrightarrow> unat c div 10 < 10"
proof -
  have "unat c < 10 * 100" using unat_byte_less [of c] by (rule less_trans) simp
  then show "unat c div 100 < 10" by (rule less_mult_imp_div_less)
  show "unat c < 100 \<Longrightarrow> unat c div 10 < 10" by (rule less_mult_imp_div_less) simp
qed

lemma dec_facts: "0 < length (dec c) \<and> length (dec c) \<le> 3 \<and> (\<forall>x \<in> set (dec c). text_char x) \<and> map tolower (dec c) = dec c"
  using dec_digits [of c] by (auto simp: dec_def Let_def digit_facts)

lemma dec_inj: "dec a = dec b \<Longrightarrow> a = b"
proof -
  assume eq: "dec a = dec b"
  have decimal: "n = 100 * (n div 100) + 10 * (n div 10 mod 10) + n mod 10" for n :: nat
  proof -
    have "n div 10 = n div 100 * 10 + n div 10 mod 10"
      using div_mult_mod_eq [of "n div 10" 10] by (simp add: div_mult2_eq [symmetric])
    with div_mult_mod_eq [of n 10] show ?thesis by linarith
  qed
  have "unat a = unat b"
  proof (cases "unat a < 10 \<or> unat b < 10")
    case True
    with eq show ?thesis by (auto simp: dec_def Let_def digit_inj split: if_splits)
  next
    case big: False
    show ?thesis
    proof (cases "unat a < 100 \<or> unat b < 100")
      case True
      with eq big have "unat a div 10 = unat b div 10 \<and> unat a mod 10 = unat b mod 10"
        using dec_digits [of a] dec_digits [of b] by (auto simp: dec_def Let_def split: if_splits dest!: digit_inj [rotated 2])
      then show ?thesis by (metis div_mult_mod_eq)
    next
      case False
      with eq big have "unat a div 100 = unat b div 100 \<and> unat a div 10 mod 10 = unat b div 10 mod 10 \<and>
          unat a mod 10 = unat b mod 10"
        using dec_digits [of a] dec_digits [of b] by (auto simp: dec_def Let_def split: if_splits dest!: digit_inj [rotated 2])
      then show ?thesis using decimal [of "unat a"] decimal [of "unat b"] by simp
    qed
  qed
  then show ?thesis by (simp only: word_unat_eq_iff)
qed

lemma hex_table: "\<forall>c \<in> set (map of_nat [0..<16]). text_char (hex c) \<and> tolower (hex c) = hex c \<and>
    unat (hex c) = (if unat c < 10 then 48 + unat c else 87 + unat c)"
  by code_simp

lemma hex_facts:
  assumes "unat c < 16"
  shows "text_char (hex c) \<and> tolower (hex c) = hex c \<and>
    unat (hex c) = (if unat c < 10 then 48 + unat c else 87 + unat c)"
proof -
  have "c = of_nat (unat c)" by simp
  with assms have "c \<in> set (map of_nat [0..<16])" by (metis atLeastLessThan_iff image_eqI le0 list.set_map set_upt)
  with hex_table show ?thesis by blast
qed

lemma nibbles: "unat (c AND 0xf :: byte) < 16" "unat (drop_bit 4 c AND 0xf :: byte) < 16"
proof -
  have "x AND 0xf = take_bit 4 x" for x :: byte by (simp add: take_bit_eq_mask mask_eq_exp_minus_1)
  then show "unat (c AND 0xf) < 16" "unat (drop_bit 4 c AND 0xf) < 16"
    by (simp_all add: take_bit_eq_mod unat_mod_distrib)
qed

lemma hex_inj:
  assumes "unat a < 16" and "unat b < 16" and "hex a = hex b"
  shows "a = b"
proof -
  have "unat a = unat b"
    using hex_facts [OF assms(1)] hex_facts [OF assms(2)] assms(3) by (auto split: if_splits)
  then show ?thesis by (simp only: word_unat_eq_iff)
qed

lemma nibbles_inj:
  assumes "a AND 0xf = b AND 0xf" and "drop_bit 4 a AND 0xf = drop_bit 4 b AND (0xf :: byte)"
  shows "a = b"
proof -
  have m: "x AND 0xf = take_bit 4 x" for x :: byte by (simp add: take_bit_eq_mask mask_eq_exp_minus_1)
  have split: "x = push_bit 4 (take_bit 4 (drop_bit 4 x)) OR take_bit 4 x" for x :: byte
    by (rule bit_eqI) (auto simp: bit_simps)
  show ?thesis using assms unfolding m by (metis split)
qed

lemma snprintf_fits:
  "length text < sz \<Longrightarrow> off + length text < length buf \<Longrightarrow>
   snprintf buf off sz text = Some (length text, take off buf @ text @ 0 # drop (off + length text + 1) buf)"
  by (simp add: snprintf_def wr_all_def)

definition nibble_text :: "bytes \<Rightarrow> bytes" where
  "nibble_text bs = concat (map (\<lambda>b. [hex (b AND 0xf), dot, hex (drop_bit 4 b AND 0xf), dot]) bs)"

lemma length_nibble_text: "length (nibble_text bs) = 4 * length bs"
  by (induction bs) (simp_all add: nibble_text_def)

lemma ptr6_loop_text:
  "i \<le> length a \<Longrightarrow> offs + 4 * i < DNSNAMEBUFSIZE \<Longrightarrow> DNSNAMEBUFSIZE \<le> length buf \<Longrightarrow>
   \<exists>buf'. ptr6_loop a i buf offs = Some (True, buf', offs + 4 * i) \<and> length buf' = length buf \<and>
     take (offs + 4 * i) buf' = take offs buf @ nibble_text (rev (take i a))"
proof (induction i arbitrary: buf offs)
  case 0
  then show ?case by (simp add: nibble_text_def)
next
  case (Suc i)
  let ?t = "[hex (a ! i AND 0xf), dot, hex (drop_bit 4 (a ! i) AND 0xf), dot]"
  let ?buf = "take offs buf @ ?t @ 0 # drop (offs + length ?t + 1) buf"
  have p: "snprintf buf offs (DNSNAMEBUFSIZE - offs) ?t = Some (4, ?buf)"
    using Suc.prems by (subst snprintf_fits) auto
  have len: "length ?buf = length buf" using Suc.prems by simp
  have t: "take (offs + 4) ?buf = take offs buf @ ?t" using Suc.prems by simp
  from Suc.IH [of "offs + 4" ?buf] Suc.prems len obtain buf' where
    IH: "ptr6_loop a i ?buf (offs + 4) = Some (True, buf', offs + 4 + 4 * i)" "length buf' = length buf"
      "take (offs + 4 + 4 * i) buf' = take offs buf @ ?t @ nibble_text (rev (take i a))"
    unfolding t by auto
  have "rev (take (Suc i) a) = a ! i # rev (take i a)"
    using Suc.prems(1) by (simp add: take_Suc_conv_app_nth)
  then have n: "nibble_text (rev (take (Suc i) a)) = ?t @ nibble_text (rev (take i a))"
    by (simp add: nibble_text_def)
  have "rd a i = Some (a ! i)" using Suc.prems(1) by (simp add: rd_in)
  with p IH Suc.prems show ?case unfolding n by (simp add: add_ac)
qed

lemma dotted_nibbles:
  "dotted (concat (map (\<lambda>b. [[hex (b AND 0xf)], [hex (drop_bit 4 b AND 0xf)]]) bs)) = nibble_text bs"
  by (induction bs) (simp_all add: nibble_text_def)

lemma dotted_append: "dotted (a @ b) = dotted a @ dotted b"
  by (simp add: dotted_def)

lemma a2ptrstr_text:
  assumes "tp = T_A \<and> 4 \<le> length a \<or> tp = T_AAAA \<and> 16 \<le> length a" and "DNSNAMEBUFSIZE \<le> length buf"
  shows "\<exists>rest. a2ptrstr a tp buf = Some (True, name_text (ptr_labels tp a) @ 0 # rest) \<and>
    length (name_text (ptr_labels tp a) @ 0 # rest) = length buf"
proof (cases "tp = T_A")
  case True
  with assms(1) obtain p0 p1 p2 p3 r where a: "a = p0 # p1 # p2 # p3 # r"
    by (auto simp: rr_type_defs Suc_le_length_iff numeral_eq_Suc)
  let ?t = "dec p3 @ [dot] @ dec p2 @ [dot] @ dec p1 @ [dot] @ dec p0 @ str ''.in-addr.arpa.''"
  have suffix: "str ''.in-addr.arpa.'' = dot # str ''in-addr'' @ dot # str ''arpa'' @ [dot]"
    "length (str ''.in-addr.arpa.'') = 14" by code_simp+
  have t: "?t = name_text (ptr_labels tp a)"
    using True by (simp add: a name_text_def ptr_labels_def suffix)
  have len: "length ?t < DNSNAMEBUFSIZE"
    using dec_facts [of p0] dec_facts [of p1] dec_facts [of p2] dec_facts [of p3]
    by (simp add: suffix(2) DNSNAMEBUFSIZE_def)
  have "snprintf buf 0 DNSNAMEBUFSIZE ?t = Some (length ?t, ?t @ 0 # drop (length ?t + 1) buf)"
    using len assms(2) by (subst snprintf_fits) auto
  then have "a2ptrstr a tp buf = Some (True, ?t @ 0 # drop (length ?t + 1) buf)"
    using True len by (simp add: a2ptrstr_def a numeral_eq_Suc)
  moreover have "length (?t @ 0 # drop (length ?t + 1) buf) = length buf" using len assms(2) by simp
  ultimately show ?thesis unfolding t by blast
next
  case False
  with assms(1) have tp: "tp = T_AAAA" "16 \<le> length a" by auto
  from ptr6_loop_text [of 16 a 0 buf] tp(2) assms(2) obtain buf1 where
    l: "ptr6_loop a 16 buf 0 = Some (True, buf1, 64)" "length buf1 = length buf"
      "take 64 buf1 = nibble_text (rev (take 16 a))"
    by (auto simp: DNSNAMEBUFSIZE_def)
  let ?s = "str ''ip6.arpa.''"
  have s: "?s = str ''ip6'' @ dot # str ''arpa'' @ [dot]" "length ?s = 9" by code_simp+
  have "snprintf buf1 64 (DNSNAMEBUFSIZE - 64) ?s = Some (9, take 64 buf1 @ ?s @ 0 # drop 74 buf1)"
    using assms(2) l(2) s(2) by (subst snprintf_fits) (auto simp: DNSNAMEBUFSIZE_def)
  then have c: "a2ptrstr a tp buf = Some (True, take 64 buf1 @ ?s @ 0 # drop 74 buf1)"
    using False tp l(1) by (simp add: a2ptrstr_def strncp_def DNSNAMEBUFSIZE_def)
  have "length (take 64 buf1 @ ?s @ 0 # drop 74 buf1) = length buf"
    using assms(2) l(2) s(2) by (simp add: DNSNAMEBUFSIZE_def)
  moreover have "take 64 buf1 @ ?s = name_text (ptr_labels tp a)"
    using False by (simp add: l(3) name_text_def ptr_labels_def dotted_append dotted_nibbles s(1))
  ultimately show ?thesis using c by (metis append_assoc)
qed

lemma fixed_labels:
  "dns_labels [str ''in-addr'', str ''arpa''] \<and> text_labels [str ''in-addr'', str ''arpa''] \<and>
   fold_case [str ''in-addr'', str ''arpa''] = [str ''in-addr'', str ''arpa'']"
  "dns_labels [str ''ip6'', str ''arpa''] \<and> text_labels [str ''ip6'', str ''arpa''] \<and>
   fold_case [str ''ip6'', str ''arpa''] = [str ''ip6'', str ''arpa'']"
  "length (enc [str ''in-addr'', str ''arpa'']) = 14" "length (enc [str ''ip6'', str ''arpa'']) = 10"
  by code_simp+

lemma length_enc_append: "length (enc (a @ b)) = length (enc a) - 1 + length (enc b)"
  by (simp add: enc_append length_enc)

lemma ptr_labels_name:
  assumes "tp = T_A \<and> 4 \<le> length a \<or> tp = T_AAAA \<and> 16 \<le> length a"
  shows "dns_name (ptr_labels tp a) \<and> text_labels (ptr_labels tp a) \<and> fold_case (ptr_labels tp a) = ptr_labels tp a"
proof (cases "tp = T_A")
  case True
  have "length (enc (map dec bs)) \<le> 4 * length bs + 1" for bs
  proof (induction bs)
    case (Cons b bs)
    then show ?case using dec_facts [of b] by simp
  qed simp
  from this [of "rev (take 4 a)"] have "length (enc (map dec (rev (take 4 a)))) \<le> 17"
    using True assms by (simp add: rr_type_defs)
  moreover have "dns_labels (map dec bs) \<and> text_labels (map dec bs) \<and> fold_case (map dec bs) = map dec bs" for bs
  proof -
    have "length (dec b) \<le> 63" "dec b \<noteq> []" for b using dec_facts [of b] by auto
    then show ?thesis using dec_facts by (auto simp: dns_labels_def text_labels_def fold_case_def)
  qed
  ultimately show ?thesis
    using True fixed_labels(1,3)
    by (simp add: ptr_labels_def dns_name_def length_enc_append dns_labels_def text_labels_def fold_case_def DNSNAMEBUFSIZE_def ball_Un)
next
  case False
  let ?n = "\<lambda>bs. concat (map (\<lambda>b. [[hex (b AND 0xf)], [hex (drop_bit 4 b AND 0xf)]]) bs)"
  have "length (enc (?n bs)) = 4 * length bs + 1" for bs
    by (induction bs) simp_all
  from this [of "rev (take 16 a)"] have "length (enc (?n (rev (take 16 a)))) = 65"
    using False assms by simp
  moreover have "dns_labels (?n bs) \<and> text_labels (?n bs) \<and> fold_case (?n bs) = ?n bs" for bs
    by (induction bs) (simp_all add: dns_labels_def text_labels_def fold_case_def hex_facts [OF nibbles(1)] hex_facts [OF nibbles(2)])
  ultimately show ?thesis
    using False fixed_labels(2,4)
    by (simp add: ptr_labels_def dns_name_def length_enc_append dns_labels_def text_labels_def fold_case_def DNSNAMEBUFSIZE_def ball_Un)
qed

lemma reverse_name:
  assumes "tp = T_A \<and> 4 \<le> length a \<or> tp = T_AAAA \<and> 16 \<le> length a" and "DNSNAMEBUFSIZE \<le> length buf"
    and "length rhn = DNSNAMEBUFSIZE"
  shows "\<exists>buf' rhn'. a2ptrstr a tp buf = Some (True, buf') \<and> str2rhn buf' rhn = Some (True, rhn') \<and>
    length rhn' = DNSNAMEBUFSIZE \<and> take (length (enc (ptr_labels tp a))) rhn' = enc (ptr_labels tp a)"
proof -
  note n = ptr_labels_name [OF assms(1)]
  from a2ptrstr_text [OF assms(1,2)] obtain rest where
    t: "a2ptrstr a tp buf = Some (True, name_text (ptr_labels tp a) @ 0 # rest)" by blast
  have d: "denotes (name_text (ptr_labels tp a)) (ptr_labels tp a)" using n by (simp add: denotes_def)
  have "0 \<notin> set (name_text (ptr_labels tp a))"
    using n by (auto simp: name_text_def dotted_def text_labels_def text_char_def dot_def)
  from str2rhn_returns [OF this assms(3), of rest] obtain ok rhn' where
    r: "str2rhn (name_text (ptr_labels tp a) @ 0 # rest) rhn = Some (ok, rhn')" "length rhn' = DNSNAMEBUFSIZE"
      "if ok then \<exists>ls. denotes (name_text (ptr_labels tp a)) ls \<and> take (length (enc ls)) rhn' = enc ls
       else \<not> (\<exists>ls. denotes (name_text (ptr_labels tp a)) ls)"
    by (elim returnsE) auto
  from r(3) d have "ok" by (auto split: if_splits)
  with r(3) obtain ls where "denotes (name_text (ptr_labels tp a)) ls" "take (length (enc ls)) rhn' = enc ls" by auto
  note ls = denotes_unique [OF this(1) d] this(2)
  show ?thesis
    by (intro exI conjI, rule t, rule r(1) [unfolded eqTrueI [OF \<open>ok\<close>]], rule r(2), rule ls(2) [unfolded ls(1)])
qed

text \<open>
  C39: the reverse name of an address. \<open>a2ptrstr\<close> of an IPv4 or IPv6 address stays inside a
  buffer of 256 bytes and yields a text that \<open>str2rhn\<close> accepts: the decimal bytes in reverse
  order under \<open>in-addr.arpa\<close>, or the hexadecimal half bytes in reverse order under \<open>ip6.arpa\<close>.
\<close>
theorem reverse_name_correct:
  assumes "tp = T_A \<and> 4 \<le> length a \<or> tp = T_AAAA \<and> 16 \<le> length a" and "DNSNAMEBUFSIZE \<le> length buf"
    and "length rhn = DNSNAMEBUFSIZE"
  shows "\<exists>buf' rhn'. a2ptrstr a tp buf = Some (True, buf') \<and> str2rhn buf' rhn = Some (True, rhn') \<and>
    take (length (enc (ptr_labels tp a))) rhn' = enc (ptr_labels tp a)"
  using reverse_name [OF assms] by blast

theorem reverse_name_correct_witness:
  "\<exists>buf' rhn'. a2ptrstr [127, 0, 0, 10] T_A (replicate 256 0) = Some (True, buf') \<and>
     str2rhn buf' (replicate 256 0) = Some (True, rhn') \<and>
     take 25 rhn' = enc [str ''10'', str ''0'', str ''0'', str ''127'', str ''in-addr'', str ''arpa'']"
proof -
  have p: "T_A = T_A \<and> 4 \<le> length [127, 0, 0, 10 :: byte] \<or> T_A = T_AAAA \<and> 16 \<le> length [127, 0, 0, 10 :: byte]"
    "DNSNAMEBUFSIZE \<le> length (replicate 256 (0 :: byte))" "length (replicate 256 (0 :: byte)) = DNSNAMEBUFSIZE"
    by (simp_all add: DNSNAMEBUFSIZE_def)
  have e: "ptr_labels T_A [127, 0, 0, 10] = [str ''10'', str ''0'', str ''0'', str ''127'', str ''in-addr'', str ''arpa'']"
    "length (enc [str ''10'', str ''0'', str ''0'', str ''127'', str ''in-addr'', str ''arpa'']) = 25" by code_simp+
  show ?thesis using reverse_name_correct [OF p] unfolding e .
qed

lemma map_inj_rev_take:
  "inj f \<Longrightarrow> map f (rev (take n a)) = map f (rev (take n b)) \<Longrightarrow> take n a = take n b"
  using map_injective by fastforce

text \<open>
  Different addresses have different reverse names, also when the case of letters is
  ignored, so that a PTR record found in the cache belongs to the address asked for.
\<close>
theorem reverse_name_injective:
  assumes "tp = T_A \<and> n = 4 \<or> tp = T_AAAA \<and> n = 16" and "length a = n" and "length b = n"
    and "fold_case (ptr_labels tp a) = fold_case (ptr_labels tp b)"
  shows "a = b"
proof -
  have eq: "ptr_labels tp a = ptr_labels tp b"
  proof -
    have "fold_case (ptr_labels tp x) = ptr_labels tp x" if "length x = n" for x
      using ptr_labels_name [of tp x] assms(1) that by auto
    with assms(2-4) show ?thesis by metis
  qed
  show ?thesis
  proof (cases "tp = T_A")
    case True
    then have "n = 4" using assms(1) by (simp add: rr_type_defs)
    with eq True have "map dec (rev (take n a)) = map dec (rev (take n b))" by (simp add: ptr_labels_def)
    moreover have "inj dec" using dec_inj by (auto simp: inj_def)
    ultimately show ?thesis using map_inj_rev_take [of dec n a b] assms(2,3) by simp
  next
    case False
    then have n: "n = 16" using assms(1) by auto
    let ?f = "\<lambda>b. [[hex (b AND 0xf)], [hex (drop_bit 4 b AND 0xf)]]"
    have inj: "concat (map ?f xs) = concat (map ?f ys) \<Longrightarrow> xs = ys" for xs ys
    proof (induction xs arbitrary: ys)
      case Nil
      then show ?case by (cases ys) auto
    next
      case (Cons x xs)
      then obtain y zs where ys: "ys = y # zs" by (cases ys) auto
      with Cons.prems have "hex (x AND 0xf) = hex (y AND 0xf)"
        "hex (drop_bit 4 x AND 0xf) = hex (drop_bit 4 y AND 0xf)" "concat (map ?f xs) = concat (map ?f zs)" by simp_all
      then have "x AND 0xf = y AND 0xf" "drop_bit 4 x AND 0xf = drop_bit 4 y AND 0xf" "xs = zs"
        by (auto intro: hex_inj nibbles Cons.IH)
      with ys nibbles_inj [of x y] show ?case by simp
    qed
    from eq False n have "concat (map ?f (rev (take n a))) = concat (map ?f (rev (take n b)))"
      by (simp add: ptr_labels_def)
    from inj [OF this] assms(2,3) show ?thesis by simp
  qed
qed

theorem reverse_name_injective_witness:
  "fold_case (ptr_labels T_A [10, 0, 0, 1]) \<noteq> fold_case (ptr_labels T_A [1, 0, 0, 10])"
  using reverse_name_injective [of T_A 4 "[10, 0, 0, 1]" "[1, 0, 0, 10]"] by auto

end
