(* ===== verification/Cache.thy ===== *)
theory Cache
  imports Hash Reverse_Names
begin

text \<open>
  The cache of \<open>cache.h\<close> and \<open>cache.c\<close>: record sets, cache entries, the list \<open>rrset_l\<close> of
  purgeable items, and the operations under the write lock. The state is a record; entries
  live in a heap indexed by address.

  Conventions. \<open>None\<close> as the result of an operation stands for undefined behaviour or a failed
  assertion: a dangling pointer, an index out of range, the wrong member of the union. The
  outcomes of \<open>malloc\<close> are taken from the list \<open>mem\<close> of the state (an empty list: success).
  \<open>time(NULL)\<close> is the field \<open>now\<close>, constant during an operation. \<open>time_t\<close>, \<open>size_t\<close> and
  \<open>long\<close> quantities are mathematical integers. Sizes are those of a 64-bit target.
\<close>

subsection \<open>Flags\<close>

type_synonym flags = "16 word"

definition CF_NEGATIVE :: flags where "CF_NEGATIVE = 1"
definition CF_LOCAL :: flags where "CF_LOCAL = 2"
definition CF_AUTH :: flags where "CF_AUTH = 4"
definition CF_NOCACHE :: flags where "CF_NOCACHE = 8"
definition CF_ADDITIONAL :: flags where "CF_ADDITIONAL = 16"
definition CF_NOPURGE :: flags where "CF_NOPURGE = 32"
definition CF_ROOTSERV :: flags where "CF_ROOTSERV = 64"

definition DF_NEGATIVE :: flags where "DF_NEGATIVE = 1"
definition DF_LOCAL :: flags where "DF_LOCAL = 2"
definition DF_AUTH :: flags where "DF_AUTH = 4"
definition DF_NOCACHE :: flags where "DF_NOCACHE = 8"
definition DF_WILD :: flags where "DF_WILD = 16"

lemmas cf_defs = CF_NEGATIVE_def CF_LOCAL_def CF_AUTH_def CF_NOCACHE_def CF_ADDITIONAL_def
  CF_NOPURGE_def CF_ROOTSERV_def
lemmas df_defs = DF_NEGATIVE_def DF_LOCAL_def DF_AUTH_def DF_NOCACHE_def DF_WILD_def

text \<open>The test \<open>fl & f\<close>.\<close>

definition has :: "flags \<Rightarrow> flags \<Rightarrow> bool" where
  "has fl f \<longleftrightarrow> fl AND f \<noteq> 0"

definition cundef :: byte where "cundef = 0xff"

definition CACHE_LAT :: int where "CACHE_LAT = 120"
definition MCSZ :: int where "MCSZ = 10240"

definition CLAT_ADJ :: "int \<Rightarrow> int" where
  "CLAT_ADJ ttl = (if ttl < CACHE_LAT then CACHE_LAT else ttl)"

subsection \<open>Data\<close>

text \<open>
  An element \<open>rr_lent_t\<close> of \<open>rrset_l\<close> is identified by the address of the entry it belongs to
  and the index of the record set, -1 (with \<open>rrset == NULL\<close>) for a negatively cached domain.
\<close>

type_synonym lent = "nat \<times> int"

text \<open>\<open>rr_set_t\<close>; the chain of \<open>rr_bucket_t\<close> is the list of their data.\<close>

record rr_set =
  rs_lent :: "lent option"
  rs_ttl :: int
  rs_ts :: int
  rs_flags :: flags
  rs_rrs :: "bytes list"

text \<open>The union of \<open>dns_cent_t\<close>: \<open>neg\<close> and \<open>rr\<close>.\<close>

datatype cent_body =
    Neg "lent option" int int
  | Recs "rr_set option list" "rr_set option list option"

record dns_cent =
  qname :: bytes
  cs :: int
  num_rrs :: "16 word"
  ce_flags :: flags
  body :: cent_body
  c_ns :: byte
  c_soa :: byte

definition sizeof_ptr :: int where "sizeof_ptr = 8"
definition sizeof_rr_bucket :: int where "sizeof_rr_bucket = 16"
definition sizeof_rr_set :: int where "sizeof_rr_set = 40"
definition sizeof_dns_cent :: int where "sizeof_dns_cent = 104"

definition sizeof_rrext :: int where "sizeof_rrext = sizeof_ptr * int NRREXT"

text \<open>
  The state: the heap of entries, the hash table, the globals of \<open>cache.c\<close>, the configuration
  the cache reads, the time and the outcomes of allocations. \<open>next_addr\<close> is the address of the
  next allocated entry.
\<close>

record cache =
  cents :: "nat \<Rightarrow> dns_cent option"
  next_addr :: nat
  hashtab :: hash_table
  rrset_l :: "lent list"
  cache_size :: int
  ent_num :: int
  insert_sort :: bool
  now :: int
  min_ttl :: int
  max_ttl :: int
  neg_ttl :: int
  perm_cache :: int
  mem :: "bool list"

text \<open>The initial values of the globals; \<open>init_cache\<close> only makes the hash table.\<close>

definition init_cache :: "int \<Rightarrow> int \<Rightarrow> int \<Rightarrow> int \<Rightarrow> int \<Rightarrow> bool list \<Rightarrow> cache" where
  "init_cache t mint maxt negt perm m =
     \<lparr>cents = (\<lambda>a. None), next_addr = 0, hashtab = mk_dns_hash, rrset_l = [], cache_size = 0, ent_num = 0,
       insert_sort = True, now = t, min_ttl = mint, max_ttl = maxt, neg_ttl = negt, perm_cache = perm, mem = m\<rparr>"

definition malloc :: "cache \<Rightarrow> bool \<times> cache" where
  "malloc st = (case mem st of [] \<Rightarrow> (True, st) | b # bs \<Rightarrow> (b, st\<lparr>mem := bs\<rparr>))"

definition qname_at :: "cache \<Rightarrow> nat \<Rightarrow> bytes option" where
  "qname_at st a = map_option qname (cents st a)"

definition timedout :: "cache \<Rightarrow> rr_set \<Rightarrow> bool" where
  "timedout st rrset \<longleftrightarrow> rs_ts rrset + CLAT_ADJ (rs_ttl rrset) < now st"

definition timedout_nxdom :: "cache \<Rightarrow> dns_cent \<Rightarrow> bool option" where
  "timedout_nxdom st c = (case body c of
     Neg l ttl ts \<Rightarrow> Some (ts + CLAT_ADJ ttl < now st) | Recs mu ext \<Rightarrow> None)"

subsection \<open>Access to the record sets of an entry\<close>

definition RRARR_LEN :: "dns_cent \<Rightarrow> nat option" where
  "RRARR_LEN c = (if has (ce_flags c) DF_NEGATIVE then Some 0
     else case body c of Neg l ttl ts \<Rightarrow> None
       | Recs mu ext \<Rightarrow> Some (if ext = None then NRRMU else NRRTOT))"

definition RRARR_INDEX_TESTEXT :: "dns_cent \<Rightarrow> nat \<Rightarrow> rr_set option option" where
  "RRARR_INDEX_TESTEXT c i = (if has (ce_flags c) DF_NEGATIVE then Some None
     else case body c of Neg l ttl ts \<Rightarrow> None
       | Recs mu ext \<Rightarrow> if i < NRRMU then rd mu i
           else case ext of None \<Rightarrow> Some None | Some e \<Rightarrow> rd e (i - NRRMU))"

definition RRARR_INDEX :: "dns_cent \<Rightarrow> nat \<Rightarrow> rr_set option option" where
  "RRARR_INDEX c i = (case body c of Neg l ttl ts \<Rightarrow> None
     | Recs mu ext \<Rightarrow> if i < NRRMU then rd mu i
         else case ext of None \<Rightarrow> None | Some e \<Rightarrow> rd e (i - NRRMU))"

text \<open>The assignment \<open>*RRARR_INDEX_PA(cent,i) = v\<close>.\<close>

definition set_slot :: "dns_cent \<Rightarrow> nat \<Rightarrow> rr_set option \<Rightarrow> dns_cent option" where
  "set_slot c i v = (case body c of Neg l ttl ts \<Rightarrow> None
     | Recs mu ext \<Rightarrow>
         if i < NRRMU then do { mu' \<leftarrow> wr mu i v; Some (c\<lparr>body := Recs mu' ext\<rparr>) }
         else case ext of None \<Rightarrow> None
           | Some e \<Rightarrow> do { e' \<leftarrow> wr e (i - NRRMU) v; Some (c\<lparr>body := Recs mu (Some e')\<rparr>) })"

definition getrrset :: "dns_cent \<Rightarrow> int \<Rightarrow> rr_set option option" where
  "getrrset c type =
     (if \<not> has (ce_flags c) DF_NEGATIVE then
        (let tpi = type - int T_MIN in
         if 0 \<le> tpi \<and> tpi < int T_NUM then do {
           idx \<leftarrow> rd rrlkuptab (nat tpi);
           case body c of Neg l ttl ts \<Rightarrow> None
             | Recs mu ext \<Rightarrow>
                 if idx < NRRMU then rd mu idx
                 else if idx - NRRMU < NRREXT then
                   (case ext of None \<Rightarrow> Some None | Some e \<Rightarrow> rd e (idx - NRRMU))
                 else Some None
         }
         else Some None)
      else Some None)"

definition getrrset_eff :: "dns_cent \<Rightarrow> nat \<Rightarrow> rr_set option option" where
  "getrrset_eff c type = do {
     idx \<leftarrow> rd rrlkuptab (type - T_MIN);
     case body c of Neg l ttl ts \<Rightarrow> None
       | Recs mu ext \<Rightarrow>
           if idx < NRRMU then rd mu idx
           else if idx - NRRMU < NRREXT then
             (case ext of None \<Rightarrow> Some None | Some e \<Rightarrow> rd e (idx - NRRMU))
           else Some None
   }"

definition have_rr :: "dns_cent \<Rightarrow> nat \<Rightarrow> bool option" where
  "have_rr c type =
     (if has (ce_flags c) DF_NEGATIVE then Some False
      else do {
        rrset \<leftarrow> getrrset_eff c type;
        Some (case rrset of None \<Rightarrow> False | Some s \<Rightarrow> rs_rrs s \<noteq> [])
      })"

text \<open>\<open>GET_RRSMU\<close>, as used by \<open>getrrset_A\<close>, \<open>getrrset_NS\<close>, \<open>getrrset_SOA\<close> and \<open>getrrset_AAAA\<close>.\<close>

definition GET_RRSMU :: "dns_cent \<Rightarrow> nat \<Rightarrow> rr_set option option" where
  "GET_RRSMU c i = (if has (ce_flags c) DF_NEGATIVE then Some None
     else case body c of Neg l ttl ts \<Rightarrow> None | Recs mu ext \<Rightarrow> rd mu i)"

definition RRMUINDEX_A :: nat where "RRMUINDEX_A = 0"
definition RRMUINDEX_NS :: nat where "RRMUINDEX_NS = 1"
definition RRMUINDEX_SOA :: nat where "RRMUINDEX_SOA = 3"
definition RRMUINDEX_AAAA :: nat where "RRMUINDEX_AAAA = 7"

text \<open>\<open>mk_flag_val\<close>, from the three fields of the server record it reads.\<close>

definition mk_flag_val :: "bool \<Rightarrow> bool \<Rightarrow> bool \<Rightarrow> flags" where
  "mk_flag_val purge_cache nocache rootserver =
     (if \<not> purge_cache then CF_NOPURGE else 0) OR (if nocache then CF_NOCACHE else 0) OR
     (if rootserver then CF_ROOTSERV else 0)"

subsection \<open>The list of purgeable items\<close>

text \<open>
  The doubly linked list is the list of its elements from \<open>rrset_l\<close> to \<open>rrset_l_tail\<close>.
  \<open>get_rrlent_ts\<close> follows the pointers of the element to the record set or the entry.
\<close>

definition get_rrlent_ts :: "cache \<Rightarrow> lent \<Rightarrow> int option" where
  "get_rrlent_ts st le = do {
     c \<leftarrow> cents st (fst le);
     if snd le < 0 then
       (case body c of Neg l ttl ts \<Rightarrow> Some ts | Recs mu ext \<Rightarrow> None)
     else do {
       s \<leftarrow> RRARR_INDEX c (nat (snd le));
       map_option rs_ts s
     }
   }"

definition remove_rrl :: "lent \<Rightarrow> cache \<Rightarrow> cache option" where
  "remove_rrl le st =
     (if le \<in> set (rrset_l st) then Some (st\<lparr>rrset_l := remove1 le (rrset_l st)\<rparr>) else None)"

text \<open>
  The search of \<open>insert_rrl\<close> from the tail towards the head, on the reversed list.
\<close>

fun back_insert :: "(lent \<Rightarrow> int option) \<Rightarrow> int \<Rightarrow> lent \<Rightarrow> lent list \<Rightarrow> lent list option" where
  "back_insert tsof ts ne [] = Some [ne]"
| "back_insert tsof ts ne (le # r) = do {
     t \<leftarrow> tsof le;
     if t \<le> ts then Some (ne # le # r)
     else do { r' \<leftarrow> back_insert tsof ts ne r; Some (le # r') }
   }"

text \<open>
  \<open>insert_rrl(rrs, cent, idx)\<close>, where \<open>rrs\<close> is the record set with index \<open>idx\<close> of the entry at
  address \<open>a\<close>, or \<open>NULL\<close> for \<open>idx = -1\<close>. The result is the returned truth value.
\<close>

definition insert_rrl :: "nat \<Rightarrow> int \<Rightarrow> cache \<Rightarrow> (bool \<times> cache) option" where
  "insert_rrl a idx st = do {
     c \<leftarrow> cents st a;
     rrs \<leftarrow> (if idx < 0 then Some None
       else do { s \<leftarrow> RRARR_INDEX c (nat idx); case s of None \<Rightarrow> None | Some x \<Rightarrow> Some (Some x) });
     if (case rrs of None \<Rightarrow> False | Some x \<Rightarrow> has (rs_flags x) CF_LOCAL) \<or> has (ce_flags c) DF_LOCAL
     then Some (True, st)
     else let (ok, st1) = malloc st in
       if \<not> ok then Some (False, st1)
       else do {
         l \<leftarrow> (if insert_sort st1 then do {
             ts \<leftarrow> get_rrlent_ts st1 (a, idx);
             r \<leftarrow> back_insert (get_rrlent_ts st1) ts (a, idx) (rev (rrset_l st1));
             Some (rev r)
           }
           else Some (rrset_l st1 @ [(a, idx)]));
         c' \<leftarrow> (case rrs of
             Some x \<Rightarrow> set_slot c (nat idx) (Some (x\<lparr>rs_lent := Some (a, idx)\<rparr>))
           | None \<Rightarrow> (case body c of Recs mu ext \<Rightarrow> None
               | Neg lt ttl ts \<Rightarrow> Some (c\<lparr>body := Neg (Some (a, idx)) ttl ts\<rparr>)));
         Some (True, st1\<lparr>rrset_l := l, cents := (cents st1)(a \<mapsto> c')\<rparr>)
       }
   }"

text \<open>
  \<open>listmerge\<close> and \<open>sort_rrl\<close>, on elements paired with their time stamps. \<open>tmp\<close> holds the used
  part of the array of sorted fragments, \<open>[]\<close> for \<open>NULL\<close>.
\<close>

fun listmerge :: "(int \<times> 'a) list \<Rightarrow> (int \<times> 'a) list \<Rightarrow> (int \<times> 'a) list" where
  "listmerge [] q = q"
| "listmerge p [] = p"
| "listmerge (p # ps) (q # qs) =
     (if fst p \<le> fst q then p # listmerge ps (q # qs) else q # listmerge (p # ps) qs)"

definition NTMPSORT :: nat where "NTMPSORT = 32"

text \<open>The inner loop over \<open>counter\<close>; \<open>n\<close> elements of the array are left.\<close>

fun carry_in :: "nat \<Rightarrow> (int \<times> 'a) list \<Rightarrow> (int \<times> 'a) list list \<Rightarrow> (int \<times> 'a) list list option" where
  "carry_in n carry [] = (if n = 0 then None else Some [carry])"
| "carry_in n carry (t # ts) =
     (if n = 0 then None
      else if t = [] then Some (carry # ts)
      else do { ts' \<leftarrow> carry_in (n - 1) (listmerge t carry) ts; Some ([] # ts') })"

fun fill_tmp :: "(int \<times> 'a) list list \<Rightarrow> (int \<times> 'a) list \<Rightarrow> (int \<times> 'a) list list option" where
  "fill_tmp tmp [] = Some tmp"
| "fill_tmp tmp (x # xs) = do { tmp' \<leftarrow> carry_in NTMPSORT [x] tmp; fill_tmp tmp' xs }"

definition sort_list :: "(int \<times> 'a) list \<Rightarrow> (int \<times> 'a) list option" where
  "sort_list l = (if length l < 2 then Some l
     else do {
       tmp \<leftarrow> fill_tmp [] l;
       case tmp of [] \<Rightarrow> None
         | t # ts \<Rightarrow> Some (foldl (\<lambda>carry counter. listmerge counter carry) t ts)
     })"

fun stamped :: "(lent \<Rightarrow> int option) \<Rightarrow> lent list \<Rightarrow> (int \<times> lent) list option" where
  "stamped tsof [] = Some []"
| "stamped tsof (le # l) = do { t \<leftarrow> tsof le; r \<leftarrow> stamped tsof l; Some ((t, le) # r) }"

definition sort_rrl :: "cache \<Rightarrow> cache option" where
  "sort_rrl st = do {
     l \<leftarrow> stamped (get_rrlent_ts st) (rrset_l st);
     r \<leftarrow> sort_list l;
     Some (st\<lparr>rrset_l := map snd r\<rparr>)
   }"

subsection \<open>Building and freeing entries\<close>

text \<open>
  These operations work on an entry that may be local to the caller or in the heap; they take
  it and return it changed.
\<close>

definition init_cent :: "bytes \<Rightarrow> int \<Rightarrow> int \<Rightarrow> flags \<Rightarrow> cache \<Rightarrow> (dns_cent option \<times> cache) option" where
  "init_cent qn ttl ts fl st = do {
     namesz \<leftarrow> rhnlen qn;
     let (ok, st1) = malloc st;
     if \<not> ok then Some (None, st1)
     else do {
       nm \<leftarrow> rd_all qn 0 namesz;
       Some (Some \<lparr>qname = nm, cs = sizeof_dns_cent + int namesz, num_rrs = 0, ce_flags = fl,
         body = (if has fl DF_NEGATIVE then Neg None ttl ts else Recs (replicate NRRMU None) None),
         c_ns = cundef, c_soa = cundef\<rparr>, st1)
     }
   }"

text \<open>The storage of the extension array: part of \<open>add_cent_rrset_by_index\<close>.\<close>

definition need_ext :: "dns_cent \<Rightarrow> nat \<Rightarrow> cache \<Rightarrow> (bool \<times> dns_cent \<times> cache) option" where
  "need_ext c idx st =
     (if idx < NRRMU then Some (True, c, st)
      else if \<not> idx - NRRMU < NRREXT then None
      else case body c of Neg l ttl ts \<Rightarrow> None
        | Recs mu (Some e) \<Rightarrow> Some (True, c, st)
        | Recs mu None \<Rightarrow>
            (let (ok, st1) = malloc st in
             if \<not> ok then Some (False, c, st1)
             else Some (True, c\<lparr>body := Recs mu (Some (replicate NRREXT None)), cs := cs c + sizeof_rrext\<rparr>, st1)))"

definition unnegate :: "dns_cent \<Rightarrow> cache \<Rightarrow> (dns_cent \<times> cache) option" where
  "unnegate c st =
     (if has (ce_flags c) DF_NEGATIVE then
        (case body c of Recs mu ext \<Rightarrow> None
         | Neg l ttl ts \<Rightarrow> do {
             st1 \<leftarrow> (case l of None \<Rightarrow> Some st | Some le \<Rightarrow> remove_rrl le st);
             Some (c\<lparr>ce_flags := ce_flags c AND NOT DF_NEGATIVE, body := Recs (replicate NRRMU None) None\<rparr>, st1)
           })
      else Some (c, st))"

definition add_cent_rrset_by_index ::
    "dns_cent \<Rightarrow> nat \<Rightarrow> int \<Rightarrow> int \<Rightarrow> flags \<Rightarrow> cache \<Rightarrow> (bool \<times> dns_cent \<times> cache) option" where
  "add_cent_rrset_by_index c idx ttl ts fl st = do {
     (c1, st1) \<leftarrow> unnegate c st;
     (ok, c2, st2) \<leftarrow> need_ext c1 idx st1;
     if \<not> ok then Some (False, c2, st2)
     else let (ok', st3) = malloc st2 in
       if \<not> ok' then do { c3 \<leftarrow> set_slot c2 idx None; Some (False, c3, st3) }
       else do {
         c3 \<leftarrow> set_slot c2 idx (Some \<lparr>rs_lent = None, rs_ttl = ttl, rs_ts = ts, rs_flags = fl, rs_rrs = []\<rparr>);
         Some (True, c3\<lparr>cs := cs c3 + sizeof_rr_set, num_rrs := num_rrs c3 + 1\<rparr>, st3)
       }
   }"

definition add_cent_rrset_by_type ::
    "dns_cent \<Rightarrow> int \<Rightarrow> int \<Rightarrow> int \<Rightarrow> flags \<Rightarrow> cache \<Rightarrow> (bool \<times> dns_cent \<times> cache) option" where
  "add_cent_rrset_by_type c type ttl ts fl st =
     (let tpi = type - int T_MIN in
      if \<not> (0 \<le> tpi \<and> tpi < int T_NUM) then None
      else do { idx \<leftarrow> rd rrlkuptab (nat tpi); add_cent_rrset_by_index c idx ttl ts fl st })"

text \<open>
  \<open>add_cent_rr_int\<close>; \<open>rtail\<close> is the position of the record behind which the new one is linked,
  \<open>None\<close> for a null pointer; the position of the new record is returned.
\<close>

definition add_cent_rr_int ::
    "dns_cent \<Rightarrow> nat \<Rightarrow> int \<Rightarrow> int \<Rightarrow> flags \<Rightarrow> bytes \<Rightarrow> nat option \<Rightarrow> cache \<Rightarrow>
     (bool \<times> dns_cent \<times> nat option \<times> cache) option" where
  "add_cent_rr_int c idx ttl ts fl data rtail st =
     (let (ok, st1) = malloc st in
      if \<not> ok then Some (False, c, rtail, st1)
      else case rtail of
        None \<Rightarrow> do {
          rrset \<leftarrow> RRARR_INDEX_TESTEXT c idx;
          (ok', c1, st2) \<leftarrow>
            (if rrset = None then add_cent_rrset_by_index c idx ttl ts fl st1 else Some (True, c, st1));
          if \<not> ok' then Some (False, c1, rtail, st2)
          else do {
            sl \<leftarrow> RRARR_INDEX c1 idx;
            s \<leftarrow> sl;
            c2 \<leftarrow> set_slot c1 idx (Some (s\<lparr>rs_rrs := data # rs_rrs s\<rparr>));
            Some (True, c2\<lparr>cs := cs c2 + (sizeof_rr_bucket + int (length data))\<rparr>, Some 0, st2)
          }
        }
      | Some k \<Rightarrow> do {
          sl \<leftarrow> RRARR_INDEX c idx;
          s \<leftarrow> sl;
          if \<not> k < length (rs_rrs s) then None
          else do {
            c2 \<leftarrow> set_slot c idx
              (Some (s\<lparr>rs_rrs := take (k + 1) (rs_rrs s) @ data # drop (k + 1) (rs_rrs s)\<rparr>));
            Some (True, c2\<lparr>cs := cs c2 + (sizeof_rr_bucket + int (length data))\<rparr>, Some (k + 1), st1)
          }
        })"

definition add_cent_rr ::
    "dns_cent \<Rightarrow> int \<Rightarrow> int \<Rightarrow> int \<Rightarrow> flags \<Rightarrow> bytes \<Rightarrow> cache \<Rightarrow> (bool \<times> dns_cent \<times> cache) option" where
  "add_cent_rr c type ttl ts fl data st =
     (if has (ce_flags c) DF_LOCAL \<and> \<not> has fl CF_LOCAL then Some (True, c, st)
      else let tpi = type - int T_MIN in
        if \<not> (0 \<le> tpi \<and> tpi < int T_NUM) then None
        else do {
          idx \<leftarrow> rd rrlkuptab (nat tpi);
          if \<not> idx < NRRTOT then None
          else do {
            rrset \<leftarrow> RRARR_INDEX_TESTEXT c idx;
            case rrset of
              None \<Rightarrow> do {
                (ok, c1, rt, st1) \<leftarrow> add_cent_rr_int c idx ttl ts fl data None st;
                Some (ok, c1, st1)
              }
            | Some s \<Rightarrow> do {
                c1 \<leftarrow> set_slot c idx (Some (s\<lparr>rs_ttl := (if ttl < rs_ttl s then ttl else rs_ttl s)\<rparr>));
                if data \<in> set (rs_rrs s) then Some (True, c1, st)
                else do {
                  (ok, c2, rt, st1) \<leftarrow> add_cent_rr_int c1 idx ttl ts fl data
                    (if rs_rrs s = [] then None else Some (length (rs_rrs s) - 1)) st;
                  Some (ok, c2, st1)
                }
              }
          }
        })"

definition rr_set_size :: "rr_set \<Rightarrow> int" where
  "rr_set_size s = sizeof_rr_set + sum_list (map (\<lambda>d. sizeof_rr_bucket + int (length d)) (rs_rrs s))"

definition del_rrset :: "rr_set \<Rightarrow> cache \<Rightarrow> (int \<times> cache) option" where
  "del_rrset s st = do {
     st1 \<leftarrow> (case rs_lent s of None \<Rightarrow> Some st | Some le \<Rightarrow> remove_rrl le st);
     Some (rr_set_size s, st1)
   }"

definition del_cent_rrset_by_index :: "dns_cent \<Rightarrow> nat \<Rightarrow> cache \<Rightarrow> (int \<times> dns_cent \<times> cache) option" where
  "del_cent_rrset_by_index c i st = do {
     sl \<leftarrow> RRARR_INDEX_TESTEXT c i;
     case sl of
       None \<Rightarrow> Some (0, c, st)
     | Some s \<Rightarrow> do {
         (rv, st1) \<leftarrow> del_rrset s st;
         c1 \<leftarrow> set_slot c i None;
         Some (rv, c1\<lparr>num_rrs := num_rrs c1 - 1, cs := cs c1 - rv, ce_flags := ce_flags c1 AND NOT DF_AUTH\<rparr>, st1)
       }
   }"

text \<open>The loops over an array of record sets in \<open>free_cent\<close> and \<open>negate_cent\<close>, with the freed size.\<close>

fun del_rrsets :: "rr_set option list \<Rightarrow> cache \<Rightarrow> (int \<times> cache) option" where
  "del_rrsets [] st = Some (0, st)"
| "del_rrsets (None # r) st = del_rrsets r st"
| "del_rrsets (Some s # r) st = do {
     (n, st1) \<leftarrow> del_rrset s st;
     (m, st2) \<leftarrow> del_rrsets r st1;
     Some (n + m, st2)
   }"

definition free_cent :: "dns_cent \<Rightarrow> cache \<Rightarrow> cache option" where
  "free_cent c st =
     (if has (ce_flags c) DF_NEGATIVE then
        (case body c of Recs mu ext \<Rightarrow> None
         | Neg l ttl ts \<Rightarrow> (case l of None \<Rightarrow> Some st | Some le \<Rightarrow> remove_rrl le st))
      else case body c of Neg l ttl ts \<Rightarrow> None
        | Recs mu ext \<Rightarrow> do {
            (n, st1) \<leftarrow> del_rrsets mu st;
            (m, st2) \<leftarrow> del_rrsets (case ext of None \<Rightarrow> [] | Some e \<Rightarrow> e) st1;
            Some st2
          })"

definition negate_cent :: "dns_cent \<Rightarrow> int \<Rightarrow> int \<Rightarrow> cache \<Rightarrow> (dns_cent \<times> cache) option" where
  "negate_cent c ttl ts st =
     (if \<not> has (ce_flags c) DF_NEGATIVE then
        (case body c of Neg l ttl' ts' \<Rightarrow> None
         | Recs mu ext \<Rightarrow> do {
             (n, st1) \<leftarrow> del_rrsets mu st;
             (m, st2) \<leftarrow> del_rrsets (case ext of None \<Rightarrow> [] | Some e \<Rightarrow> e) st1;
             Some (c\<lparr>cs := cs c - n - m - (if ext = None then 0 else sizeof_rrext), num_rrs := 0,
               ce_flags := ce_flags c OR DF_NEGATIVE, body := Neg None ttl ts\<rparr>, st2)
           })
      else case body c of Recs mu ext \<Rightarrow> None
        | Neg l ttl' ts' \<Rightarrow> Some (c\<lparr>body := Neg l ttl ts\<rparr>, st))"

text \<open>Copying: one allocation for each record set and each record.\<close>

fun copy_rrs :: "bytes list \<Rightarrow> cache \<Rightarrow> bool \<times> cache" where
  "copy_rrs [] st = (True, st)"
| "copy_rrs (rr # rrs) st = (let (ok, st1) = malloc st in if ok then copy_rrs rrs st1 else (False, st1))"

definition copy_rrset :: "rr_set \<Rightarrow> cache \<Rightarrow> rr_set option \<times> cache" where
  "copy_rrset s st = (let (ok, st1) = malloc st in
     if \<not> ok then (None, st1)
     else let (ok', st2) = copy_rrs (rs_rrs s) st1 in
       if ok' then (Some (s\<lparr>rs_lent := None\<rparr>), st2) else (None, st2))"

fun copy_rrsets :: "rr_set option list \<Rightarrow> cache \<Rightarrow> rr_set option list option \<times> cache" where
  "copy_rrsets [] st = (Some [], st)"
| "copy_rrsets (None # r) st = (case copy_rrsets r st of
     (None, st1) \<Rightarrow> (None, st1) | (Some r', st1) \<Rightarrow> (Some (None # r'), st1))"
| "copy_rrsets (Some s # r) st = (case copy_rrset s st of
     (None, st1) \<Rightarrow> (None, st1)
   | (Some s', st1) \<Rightarrow> (case copy_rrsets r st1 of
       (None, st2) \<Rightarrow> (None, st2) | (Some r', st2) \<Rightarrow> (Some (Some s' # r'), st2)))"

text \<open>
  \<open>copy_cent\<close>; the copy is returned by value. When an allocation fails, what was copied is
  freed and the result is \<open>NULL\<close>.
\<close>

definition copy_cent :: "dns_cent \<Rightarrow> cache \<Rightarrow> (dns_cent option \<times> cache) option" where
  "copy_cent c st = (let (ok, st1) = malloc st in
     if \<not> ok then Some (None, st1)
     else do {
       namesz \<leftarrow> rhnlen (qname c);
       let (ok', st2) = malloc st1;
       if \<not> ok' then Some (None, st2)
       else do {
         nm \<leftarrow> rd_all (qname c) 0 namesz;
         if has (ce_flags c) DF_NEGATIVE then
           (case body c of Recs mu ext \<Rightarrow> None
            | Neg l ttl ts \<Rightarrow> Some (Some (c\<lparr>qname := nm, body := Neg None ttl ts\<rparr>), st2))
         else (case body c of Neg l ttl ts \<Rightarrow> None
            | Recs mu None \<Rightarrow>
                (case copy_rrsets mu st2 of
                   (None, st3) \<Rightarrow> Some (None, st3)
                 | (Some mu', st3) \<Rightarrow> Some (Some (c\<lparr>qname := nm, body := Recs mu' None\<rparr>), st3))
            | Recs mu (Some e) \<Rightarrow>
                (let (ok'', st3) = malloc st2 in
                 if \<not> ok'' then Some (None, st3)
                 else case copy_rrsets mu st3 of
                   (None, st4) \<Rightarrow> Some (None, st4)
                 | (Some mu', st4) \<Rightarrow> (case copy_rrsets e st4 of
                     (None, st5) \<Rightarrow> Some (None, st5)
                   | (Some e', st5) \<Rightarrow> Some (Some (c\<lparr>qname := nm, body := Recs mu' (Some e')\<rparr>), st5))))
       }
     })"

subsection \<open>Purging an entry\<close>

definition purgeable :: "cache \<Rightarrow> rr_set \<Rightarrow> bool" where
  "purgeable st s \<longleftrightarrow> \<not> (has (rs_flags s) CF_NOPURGE \<or> has (rs_flags s) CF_LOCAL) \<and> timedout st s"

definition purge_rrset :: "dns_cent \<Rightarrow> nat \<Rightarrow> bool \<Rightarrow> cache \<Rightarrow> (bool \<times> dns_cent \<times> cache) option" where
  "purge_rrset c idx test st = do {
     rrs \<leftarrow> RRARR_INDEX_TESTEXT c idx;
     if (case rrs of None \<Rightarrow> False | Some s \<Rightarrow> purgeable st s) then
       (if test then Some (True, c, st)
        else do {
          (n, c1, st1) \<leftarrow> del_cent_rrset_by_index c idx st;
          Some (True, c1, st1\<lparr>cache_size := cache_size st1 - n\<rparr>)
        })
     else Some (False, c, st)
   }"

text \<open>
  The loop of \<open>purge_all_rrsets\<close> over \<open>i < ilim\<close>; it accumulates the number of sets deleted, the
  number remaining, and the number remaining with index at least \<open>NRRMU\<close>.
\<close>

fun purge_sets ::
    "nat list \<Rightarrow> bool \<Rightarrow> nat \<times> nat \<times> nat \<Rightarrow> dns_cent \<Rightarrow> cache \<Rightarrow>
     ((nat \<times> nat \<times> nat) \<times> dns_cent \<times> cache) option" where
  "purge_sets [] test acc c st = Some (acc, c, st)"
| "purge_sets (i # is) test (rv, numrrs, numrrext) c st = do {
     rrs \<leftarrow> RRARR_INDEX c i;
     case rrs of
       None \<Rightarrow> purge_sets is test (rv, numrrs, numrrext) c st
     | Some s \<Rightarrow>
         if purgeable st s then
           (if test then purge_sets is test (rv + 1, numrrs, numrrext) c st
            else do {
              (n, c1, st1) \<leftarrow> del_cent_rrset_by_index c i st;
              purge_sets is test (rv + 1, numrrs, numrrext) c1 (st1\<lparr>cache_size := cache_size st1 - n\<rparr>)
            })
         else purge_sets is test (rv, numrrs + 1, if NRRMU \<le> i then numrrext + 1 else numrrext) c st
   }"

definition purge_all_rrsets ::
    "dns_cent \<Rightarrow> bool \<Rightarrow> cache \<Rightarrow> (nat \<times> nat \<times> dns_cent \<times> cache) option" where
  "purge_all_rrsets c test st =
     (if has (ce_flags c) DF_NEGATIVE then Some (0, 0, c, st)
      else do {
        ilim \<leftarrow> RRARR_LEN c;
        ((rv, numrrs, numrrext), c1, st1) \<leftarrow> purge_sets [0..<ilim] test (0, 0, 0) c st;
        case body c1 of Neg l ttl ts \<Rightarrow> None
        | Recs mu ext \<Rightarrow>
            if ext \<noteq> None \<and> numrrext = 0 then
              (if test then Some (rv + 1, numrrs, c1, st1)
               else Some (rv + 1, numrrs, c1\<lparr>body := Recs mu None, cs := cs c1 - sizeof_rrext\<rparr>,
                 st1\<lparr>cache_size := cache_size st1 - sizeof_rrext\<rparr>))
            else Some (rv, numrrs, c1, st1)
      })"

text \<open>\<open>del_cent\<close> and \<open>del_cache_ent\<close> remove the entry at an address.\<close>

definition del_cent :: "nat \<Rightarrow> cache \<Rightarrow> cache option" where
  "del_cent a st = do {
     c \<leftarrow> cents st a;
     st1 \<leftarrow> free_cent c (st\<lparr>cache_size := cache_size st - cs c\<rparr>);
     Some (st1\<lparr>cents := (cents st1)(a := None), ent_num := ent_num st1 - 1\<rparr>)
   }"

definition del_cache_ent :: "nat \<Rightarrow> dns_hash_loc option \<Rightarrow> cache \<Rightarrow> cache option" where
  "del_cache_ent a loc st = (case loc of
       Some l \<Rightarrow> do {
         (data, ht) \<leftarrow> del_dns_hash_ent (hashtab st) l;
         del_cent a (st\<lparr>hashtab := ht\<rparr>)
       }
     | None \<Rightarrow> do {
         c \<leftarrow> cents st a;
         (data, ht) \<leftarrow> del_dns_hash (qname_at st) (hashtab st) (qname c);
         del_cent a (st\<lparr>hashtab := ht\<rparr>)
       })"

text \<open>
  The check of \<open>purge_cent\<close> that \<open>c_ns\<close> (or \<open>c_soa\<close>) refers to a live NS (or SOA) set: is the
  reference \<open>n\<close> of the entry \<open>c\<close> stale? \<open>i\<close> is the index of the set, which \<open>ref_set\<close> finds.
\<close>

definition ref_set :: "dns_cent \<Rightarrow> byte \<Rightarrow> nat \<Rightarrow> cache \<Rightarrow> rr_set option option" where
  "ref_set c n i st = do {
     scnt \<leftarrow> rhnsegcnt (qname c);
     if unat n = scnt then GET_RRSMU c i
     else if unat n < scnt then do {
       p \<leftarrow> skipsegs (qname c) 0 (scnt - unat n);
       (ret, loc) \<leftarrow> dns_lookup (qname_at st) (hashtab st) (drop p (qname c));
       case ret of None \<Rightarrow> Some None
         | Some a \<Rightarrow> do { ce \<leftarrow> cents st a; GET_RRSMU ce i }
     }
     else Some None
   }"

definition stale_ref :: "dns_cent \<Rightarrow> byte \<Rightarrow> nat \<Rightarrow> cache \<Rightarrow> bool option" where
  "stale_ref c n i st = do {
     rrset \<leftarrow> ref_set c n i st;
     Some (case rrset of None \<Rightarrow> True
       | Some s \<Rightarrow> rs_rrs s = [] \<or> (\<not> has (rs_flags s) CF_LOCAL \<and> timedout st s))
   }"

text \<open>\<open>purge_cent\<close> of the entry at an address; the result -1 is \<open>None\<close>.\<close>

definition purge_cent :: "nat \<Rightarrow> bool \<Rightarrow> bool \<Rightarrow> cache \<Rightarrow> (nat option \<times> cache) option" where
  "purge_cent a delete test st = do {
     c \<leftarrow> cents st a;
     (npurge, numrrs, c1, st1) \<leftarrow> purge_all_rrsets c test st;
     let st2 = st1\<lparr>cents := (cents st1)(a \<mapsto> c1)\<rparr>;
     gone \<leftarrow> (if \<not> (delete \<and> numrrs = 0) then Some False
       else if \<not> has (ce_flags c1) DF_NEGATIVE then Some True
       else if has (ce_flags c1) DF_LOCAL then Some False
       else timedout_nxdom st2 c1);
     if gone then
       (if test then Some (None, st2)
        else do { st3 \<leftarrow> del_cache_ent a None st2; Some (None, st3) })
     else if has (ce_flags c1) DF_LOCAL then Some (Some npurge, st2)
     else do {
       ns \<leftarrow> (if c_ns c1 \<noteq> cundef then stale_ref c1 (c_ns c1) RRMUINDEX_NS st2 else Some False);
       let c2 = (if ns \<and> \<not> test then c1\<lparr>c_ns := cundef\<rparr> else c1);
       let st3 = st2\<lparr>cents := (cents st2)(a \<mapsto> c2)\<rparr>;
       soa \<leftarrow> (if c_soa c2 \<noteq> cundef then stale_ref c2 (c_soa c2) RRMUINDEX_SOA st3 else Some False);
       let c3 = (if soa \<and> \<not> test then c2\<lparr>c_soa := cundef\<rparr> else c2);
       Some (Some (npurge + (if ns then 1 else 0) + (if soa then 1 else 0)),
         st3\<lparr>cents := (cents st3)(a \<mapsto> c3)\<rparr>)
     }
   }"

subsection \<open>Purging the cache\<close>

text \<open>The element behind \<open>le\<close> in the list, \<open>le->next\<close>.\<close>

definition lent_next :: "lent \<Rightarrow> lent list \<Rightarrow> lent option" where
  "lent_next le l = (case dropWhile (\<lambda>x. x \<noteq> le) l of le # x # r \<Rightarrow> Some x | _ \<Rightarrow> None)"

definition lent_first :: "lent list \<Rightarrow> lent option" where
  "lent_first l = (case l of [] \<Rightarrow> None | x # r \<Rightarrow> Some x)"

text \<open>The test of both loops that the item is local; \<open>le->rrset\<close> is followed when not null.\<close>

definition lent_local :: "lent \<Rightarrow> cache \<Rightarrow> bool option" where
  "lent_local le st = do {
     c \<leftarrow> cents st (fst le);
     l \<leftarrow> (if snd le < 0 then Some False
       else do { sl \<leftarrow> RRARR_INDEX c (nat (snd le)); s \<leftarrow> sl; Some (has (rs_flags s) CF_LOCAL) });
     Some (l \<or> has (ce_flags c) DF_LOCAL)
   }"

text \<open>The bodies of the two loops.\<close>

definition purge_step1 :: "lent \<Rightarrow> cache \<Rightarrow> cache option" where
  "purge_step1 le st = do {
     loc \<leftarrow> lent_local le st;
     if loc then Some st
     else do {
       c \<leftarrow> cents st (fst le);
       st1 \<leftarrow> (if snd le < 0 then Some st
         else do {
           (b, c1, st1) \<leftarrow> purge_rrset c (nat (snd le)) False st;
           Some (st1\<lparr>cents := (cents st1)(fst le \<mapsto> c1)\<rparr>)
         });
       ce \<leftarrow> cents st1 (fst le);
       gone \<leftarrow> (if num_rrs ce \<noteq> 0 then Some False
         else if \<not> has (ce_flags ce) DF_NEGATIVE then Some True
         else if has (ce_flags ce) DF_LOCAL then Some False
         else timedout_nxdom st1 ce);
       if gone then del_cache_ent (fst le) None st1 else Some st1
     }
   }"

definition purge_step2 :: "lent \<Rightarrow> cache \<Rightarrow> cache option" where
  "purge_step2 le st = do {
     loc \<leftarrow> lent_local le st;
     if loc then Some st
     else do {
       c \<leftarrow> cents st (fst le);
       st1 \<leftarrow> (if snd le < 0 then Some st
         else do {
           (n, c1, st1) \<leftarrow> del_cent_rrset_by_index c (nat (snd le)) st;
           Some (st1\<lparr>cents := (cents st1)(fst le \<mapsto> c1), cache_size := cache_size st1 - n\<rparr>)
         });
       ce \<leftarrow> cents st1 (fst le);
       if num_rrs ce = 0 then del_cache_ent (fst le) None st1 else Some st1
     }
   }"

text \<open>
  A loop over the list: \<open>le\<close> is the current element, whose successor is read before the body
  runs. \<open>None\<close> is also the result when the bound on the number of rounds is exceeded; the list
  length is enough because no round adds an element.
\<close>

fun purge_loop ::
    "(lent \<Rightarrow> cache \<Rightarrow> cache option) \<Rightarrow> (cache \<Rightarrow> bool) \<Rightarrow> nat \<Rightarrow> lent option \<Rightarrow> cache \<Rightarrow> cache option" where
  "purge_loop step go n None st = Some st"
| "purge_loop step go n (Some le) st =
     (if \<not> go st then Some st
      else if le \<notin> set (rrset_l st) then None
      else case n of 0 \<Rightarrow> None
        | Suc m \<Rightarrow> do { st1 \<leftarrow> step le st; purge_loop step go m (lent_next le (rrset_l st)) st1 })"

definition purge_cache :: "int \<Rightarrow> bool \<Rightarrow> cache \<Rightarrow> cache option" where
  "purge_cache sz lazy st = do {
     st1 \<leftarrow> purge_loop purge_step1 (\<lambda>s. \<not> lazy \<or> sz < cache_size s) (length (rrset_l st))
       (lent_first (rrset_l st)) st;
     if cache_size st1 \<le> sz then Some st1
     else do {
       st2 \<leftarrow> (if \<not> insert_sort st1 then do { s \<leftarrow> sort_rrl st1; Some (s\<lparr>insert_sort := True\<rparr>) }
         else Some st1);
       purge_loop purge_step2 (\<lambda>s. sz < cache_size s) (length (rrset_l st2)) (lent_first (rrset_l st2)) st2
     }
   }"

subsection \<open>Adding to the cache\<close>

text \<open>The conflicting sets of an entry, as the loops of \<open>cr_check_add\<close> select them.\<close>

definition cr_conflicts :: "nat \<Rightarrow> nat \<Rightarrow> rr_set \<Rightarrow> bool" where
  "cr_conflicts idx i s \<longleftrightarrow> \<not> has (rs_flags s) CF_NEGATIVE \<and> rr_conflict idx i"

text \<open>
  The first loop: \<open>Some None\<close> when a conflicting set is local (the function returns 0), else the
  number of conflicting sets and the sum of their remaining times.
\<close>

fun cr_scan :: "nat list \<Rightarrow> nat \<Rightarrow> dns_cent \<Rightarrow> cache \<Rightarrow> int \<times> int \<Rightarrow> (int \<times> int) option option" where
  "cr_scan [] idx c st acc = Some (Some acc)"
| "cr_scan (i # is) idx c st (ncf, nttl) = do {
     rrs \<leftarrow> RRARR_INDEX c i;
     case rrs of None \<Rightarrow> cr_scan is idx c st (ncf, nttl)
     | Some s \<Rightarrow>
         if cr_conflicts idx i s then
           (if has (rs_flags s) CF_LOCAL then Some None
            else let rttl = rs_ttl s + rs_ts s - now st in
              cr_scan is idx c st (ncf + 1, if 0 < rttl then nttl + rttl else nttl))
         else cr_scan is idx c st (ncf, nttl)
   }"

text \<open>The second loop removes the conflicting sets.\<close>

fun cr_remove :: "nat list \<Rightarrow> nat \<Rightarrow> dns_cent \<Rightarrow> cache \<Rightarrow> (dns_cent \<times> cache) option" where
  "cr_remove [] idx c st = Some (c, st)"
| "cr_remove (i # is) idx c st = do {
     rrs \<leftarrow> RRARR_INDEX c i;
     case rrs of None \<Rightarrow> cr_remove is idx c st
     | Some s \<Rightarrow>
         if cr_conflicts idx i s then do {
           (n, c1, st1) \<leftarrow> del_cent_rrset_by_index c i st;
           cr_remove is idx c1 st1
         }
         else cr_remove is idx c st
   }"

definition cr_check_add :: "dns_cent \<Rightarrow> nat \<Rightarrow> int \<Rightarrow> flags \<Rightarrow> cache \<Rightarrow> (bool \<times> dns_cent \<times> cache) option" where
  "cr_check_add c idx ttl fl st =
     (if has fl CF_NEGATIVE then Some (True, c, st)
      else do {
        ilim \<leftarrow> RRARR_LEN c;
        if has fl CF_LOCAL then do {
          (c1, st1) \<leftarrow> cr_remove [0..<ilim] idx c st;
          Some (True, c1, st1)
        }
        else if has (ce_flags c) DF_LOCAL then Some (False, c, st)
        else do {
          r \<leftarrow> cr_scan [0..<ilim] idx c st (0, 0);
          case r of None \<Rightarrow> Some (False, c, st)
          | Some (ncf, nttl) \<Rightarrow>
              if ncf = 0 then Some (True, c, st)
              else if nttl div ncf < ttl then do {
                (c1, st1) \<leftarrow> cr_remove [0..<ilim] idx c st;
                Some (True, c1, st1)
              }
              else Some (False, c, st)
        }
      })"

definition adjusted :: "cache \<Rightarrow> bool \<Rightarrow> int \<Rightarrow> int" where
  "adjusted st negative ttl =
     (let lo = (if negative \<and> neg_ttl st < min_ttl st then neg_ttl st else min_ttl st) in
      if ttl < lo then lo else if max_ttl st < ttl then max_ttl st else ttl)"

definition adjust_ttl :: "cache \<Rightarrow> rr_set \<Rightarrow> rr_set" where
  "adjust_ttl st s =
     (if has (rs_flags s) CF_NOCACHE then s\<lparr>rs_flags := rs_flags s AND NOT CF_NOCACHE, rs_ttl := 0\<rparr>
      else s\<lparr>rs_ttl := adjusted st (has (rs_flags s) CF_NEGATIVE) (rs_ttl s)\<rparr>)"

definition adjust_dom_ttl :: "cache \<Rightarrow> dns_cent \<Rightarrow> dns_cent option" where
  "adjust_dom_ttl st c = (case body c of Recs mu ext \<Rightarrow> None
     | Neg l ttl ts \<Rightarrow> Some
         (if has (ce_flags c) DF_NOCACHE
          then c\<lparr>ce_flags := ce_flags c AND NOT DF_NOCACHE, body := Neg l 0 ts\<rparr>
          else c\<lparr>body := Neg l (adjusted st True ttl) ts\<rparr>))"

text \<open>\<open>put_cent\<close>: the entry at an address after a change.\<close>

definition put_cent :: "nat \<Rightarrow> dns_cent \<Rightarrow> cache \<Rightarrow> cache" where
  "put_cent a c st = st\<lparr>cents := (cents st)(a \<mapsto> c)\<rparr>"

text \<open>
  The branch of \<open>add_cache\<close> for a name not in the cache: the loop that adjusts the TTL of the
  record sets of the copy and links them into the list, and the branch as a whole.
\<close>

fun link_sets :: "nat list \<Rightarrow> nat \<Rightarrow> cache \<Rightarrow> (bool \<times> cache) option" where
  "link_sets [] a st = Some (True, st)"
| "link_sets (i # is) a st = do {
     ce \<leftarrow> cents st a;
     rrset \<leftarrow> RRARR_INDEX ce i;
     case rrset of None \<Rightarrow> link_sets is a st
     | Some s \<Rightarrow> do {
         ce1 \<leftarrow> set_slot ce i (Some (adjust_ttl st s));
         (ok, st1) \<leftarrow> insert_rrl a (int i) (put_cent a ce1 st);
         if ok then link_sets is a st1 else Some (False, st1)
       }
   }"

definition purge_limit :: "cache \<Rightarrow> int" where
  "purge_limit st = perm_cache st * 1024 + MCSZ"

text \<open>The exit \<open>free_cent_unlock_cache_return\<close>.\<close>

definition discard_copy :: "nat \<Rightarrow> cache \<Rightarrow> cache option" where
  "discard_copy a st = do {
     ce \<leftarrow> cents st a;
     st1 \<leftarrow> free_cent ce st;
     Some (st1\<lparr>cents := (cents st1)(a := None)\<rparr>)
   }"

definition add_new :: "dns_cent \<Rightarrow> dns_hash_loc \<Rightarrow> cache \<Rightarrow> cache option" where
  "add_new cent loc st =
     (if num_rrs cent = 0 \<and> \<not> has (ce_flags cent) DF_NEGATIVE then purge_cache (purge_limit st) True st
      else do {
        (cp, st1) \<leftarrow> copy_cent cent st;
        case cp of None \<Rightarrow> Some st1
        | Some ce \<Rightarrow> do {
            let a = next_addr st1;
            let st2 = (put_cent a ce st1)\<lparr>next_addr := a + 1\<rparr>;
            (ok, st3) \<leftarrow>
              (if \<not> has (ce_flags ce) DF_NEGATIVE then do {
                 ilim \<leftarrow> RRARR_LEN ce;
                 link_sets [0..<ilim] a st2
               }
               else do {
                 ce1 \<leftarrow> adjust_dom_ttl st2 ce;
                 insert_rrl a (-1) (put_cent a ce1 st2)
               });
            if \<not> ok then discard_copy a st3
            else do {
              let (ok', st4) = malloc st3;
              (added, ht) \<leftarrow> add_dns_hash (hashtab st4) a loc ok';
              if \<not> added then discard_copy a st4
              else do {
                ce2 \<leftarrow> cents st4 a;
                let st5 = st4\<lparr>hashtab := ht, ent_num := ent_num st4 + 1, cache_size := cache_size st4 + cs ce2\<rparr>;
                purge_cache (purge_limit st5) True st5
              }
            }
          }
      })"

text \<open>
  The branch for a name in the cache. \<open>keeps_old\<close> is the test that the record set of the cache
  takes precedence over the new one.
\<close>

definition keeps_old :: "cache \<Rightarrow> rr_set \<Rightarrow> rr_set \<Rightarrow> bool" where
  "keeps_old st new old \<longleftrightarrow>
     (\<not> has (rs_flags new) CF_LOCAL \<and> has (rs_flags old) CF_LOCAL) \<or>
     (has (rs_flags new) CF_ADDITIONAL \<and>
      (\<not> has (rs_flags old) CF_ADDITIONAL \<or>
       (\<not> has (rs_flags new) CF_ROOTSERV \<and> has (rs_flags old) CF_ROOTSERV)) \<and>
      \<not> timedout st old)"

fun add_rrs ::
    "bytes list \<Rightarrow> nat \<Rightarrow> rr_set \<Rightarrow> nat option \<Rightarrow> dns_cent \<Rightarrow> cache \<Rightarrow> (bool \<times> dns_cent \<times> cache) option" where
  "add_rrs [] i s rtail c st = Some (True, c, st)"
| "add_rrs (rr # rrs) i s rtail c st = do {
     (ok, c1, rtail1, st1) \<leftarrow> add_cent_rr_int c i (rs_ttl s) (rs_ts s) (rs_flags s) rr rtail st;
     if ok then add_rrs rrs i s rtail1 c1 st1 else Some (False, c1, st1)
   }"

text \<open>The exit \<open>cleanup_cent_unlock_cache_return\<close>, up to the update of \<open>cache_size\<close>.\<close>

definition cleanup_set :: "nat \<Rightarrow> nat \<Rightarrow> cache \<Rightarrow> (bool \<times> cache) option" where
  "cleanup_set a i st = do {
     ce \<leftarrow> cents st a;
     (n, ce1, st1) \<leftarrow> del_cent_rrset_by_index ce i st;
     Some (False, put_cent a ce1 st1)
   }"

text \<open>Replacing the set with index \<open>i\<close>; \<open>False\<close> when memory ran out.\<close>

definition replace_set :: "rr_set \<Rightarrow> nat \<Rightarrow> nat \<Rightarrow> cache \<Rightarrow> (bool \<times> cache) option" where
  "replace_set s i a st = do {
     ce \<leftarrow> cents st a;
     (n, ce1, st1) \<leftarrow> del_cent_rrset_by_index ce i st;
     (ok, ce2, st2) \<leftarrow> cr_check_add ce1 i (rs_ttl s) (rs_flags s) st1;
     if \<not> ok then Some (True, put_cent a ce2 st2)
     else do {
       (ok1, ce3, st3) \<leftarrow> add_cent_rrset_by_index ce2 i (rs_ttl s) (rs_ts s) (rs_flags s) st2;
       if \<not> ok1 then Some (False, put_cent a ce3 st3)
       else do {
         (ok2, ce4, st4) \<leftarrow> add_rrs (rs_rrs s) i s None ce3 st3;
         if \<not> ok2 then cleanup_set a i (put_cent a ce4 st4)
         else do {
           sl \<leftarrow> RRARR_INDEX ce4 i;
           cerrs \<leftarrow> sl;
           ce5 \<leftarrow> set_slot ce4 i (Some (adjust_ttl st4 cerrs));
           (ok3, st5) \<leftarrow> insert_rrl a (int i) (put_cent a ce5 st4);
           if ok3 then Some (True, st5) else cleanup_set a i st5
         }
       }
     }
   }"

fun merge_sets :: "nat list \<Rightarrow> dns_cent \<Rightarrow> nat \<Rightarrow> cache \<Rightarrow> (bool \<times> cache) option" where
  "merge_sets [] cent a st = Some (True, st)"
| "merge_sets (i # is) cent a st = do {
     centrrs \<leftarrow> RRARR_INDEX cent i;
     case centrrs of None \<Rightarrow> merge_sets is cent a st
     | Some s \<Rightarrow> do {
         ce \<leftarrow> cents st a;
         cerrs \<leftarrow> RRARR_INDEX_TESTEXT ce i;
         if (case cerrs of None \<Rightarrow> False | Some old \<Rightarrow> keeps_old st s old) then merge_sets is cent a st
         else do {
           (ok, st1) \<leftarrow> replace_set s i a st;
           if ok then merge_sets is cent a st1 else Some (False, st1)
         }
       }
   }"

definition merge_ref :: "byte \<Rightarrow> byte \<Rightarrow> byte" where
  "merge_ref new old = (if new \<noteq> cundef \<and> (old = cundef \<or> old < new) then new else old)"

definition add_existing :: "dns_cent \<Rightarrow> nat \<Rightarrow> cache \<Rightarrow> cache option" where
  "add_existing cent a st = do {
     (r, st1) \<leftarrow> purge_cent a False False st;
     ce1 \<leftarrow> cents st1 a;
     let st2 = st1\<lparr>cache_size := cache_size st1 - cs ce1\<rparr>;
     ilim \<leftarrow> RRARR_LEN cent;
     (ok, st3) \<leftarrow> merge_sets [0..<ilim] cent a st2;
     ce3 \<leftarrow> cents st3 a;
     if \<not> ok then Some (st3\<lparr>cache_size := cache_size st3 + cs ce3\<rparr>)
     else do {
       let ce4 = ce3\<lparr>ce_flags := ce_flags ce3 OR (ce_flags cent AND (DF_AUTH OR DF_WILD)),
         c_ns := merge_ref (c_ns cent) (c_ns ce3), c_soa := merge_ref (c_soa cent) (c_soa ce3)\<rparr>;
       let st4 = (put_cent a ce4 st3)\<lparr>cache_size := cache_size st3 + cs ce4\<rparr>;
       purge_cache (purge_limit st4) True st4
     }
   }"

text \<open>The loop that looks for local sets before a negative entry replaces an old one.\<close>

fun any_local :: "nat list \<Rightarrow> dns_cent \<Rightarrow> bool option" where
  "any_local [] c = Some False"
| "any_local (i # is) c = do {
     rrset \<leftarrow> RRARR_INDEX c i;
     if (case rrset of None \<Rightarrow> False | Some s \<Rightarrow> has (rs_flags s) CF_LOCAL) then Some True
     else any_local is c
   }"

text \<open>
  \<open>add_cache\<close>. The jump to \<open>retry\<close> is a recursion bounded by a number of rounds; after the
  old entry was deleted the name is absent, so two rounds are enough.
\<close>

fun add_cache_rounds :: "nat \<Rightarrow> dns_cent \<Rightarrow> cache \<Rightarrow> cache option" where
  "add_cache_rounds 0 cent st = None"
| "add_cache_rounds (Suc n) cent st = do {
     (ret, loc) \<leftarrow> dns_lookup (qname_at st) (hashtab st) (qname cent);
     case ret of
       None \<Rightarrow> add_new cent loc st
     | Some a \<Rightarrow>
         if has (ce_flags cent) DF_NEGATIVE then do {
           ce \<leftarrow> cents st a;
           ilim \<leftarrow> RRARR_LEN ce;
           loc_set \<leftarrow> any_local [0..<ilim] ce;
           if loc_set then Some st
           else do { st1 \<leftarrow> del_cache_ent a (Some loc) st; add_cache_rounds n cent st1 }
         }
         else add_existing cent a st
   }"

definition add_cache :: "dns_cent \<Rightarrow> cache \<Rightarrow> cache option" where
  "add_cache cent st = add_cache_rounds 2 cent st"

subsection \<open>Deleting and changing entries\<close>

definition del_cache :: "bytes \<Rightarrow> cache \<Rightarrow> cache option" where
  "del_cache name st = do {
     (ret, ht) \<leftarrow> del_dns_hash (qname_at st) (hashtab st) name;
     case ret of None \<Rightarrow> Some st
     | Some a \<Rightarrow> del_cent a (st\<lparr>hashtab := ht\<rparr>)
   }"

fun invalidate_sets :: "nat list \<Rightarrow> dns_cent \<Rightarrow> dns_cent option" where
  "invalidate_sets [] c = Some c"
| "invalidate_sets (i # is) c = do {
     rrs \<leftarrow> RRARR_INDEX c i;
     case rrs of None \<Rightarrow> invalidate_sets is c
     | Some s \<Rightarrow> do {
         c1 \<leftarrow> set_slot c i (Some (s\<lparr>rs_ts := 0, rs_flags := rs_flags s AND NOT CF_AUTH\<rparr>));
         invalidate_sets is c1
       }
   }"

definition invalidate_record :: "bytes \<Rightarrow> cache \<Rightarrow> cache option" where
  "invalidate_record name st = do {
     (ret, loc) \<leftarrow> dns_lookup (qname_at st) (hashtab st) name;
     case ret of None \<Rightarrow> Some st
     | Some a \<Rightarrow> do {
         ce \<leftarrow> cents st a;
         ce1 \<leftarrow> (if \<not> has (ce_flags ce) DF_NEGATIVE then do {
             ilim \<leftarrow> RRARR_LEN ce;
             invalidate_sets [0..<ilim] ce
           }
           else case body ce of Recs mu ext \<Rightarrow> None
             | Neg l ttl ts \<Rightarrow> Some (ce\<lparr>body := Neg l ttl 0\<rparr>));
         Some (put_cent a (ce1\<lparr>ce_flags := ce_flags ce1 AND NOT DF_AUTH\<rparr>) st)
       }
   }"

definition set_cent_flags :: "bytes \<Rightarrow> flags \<Rightarrow> cache \<Rightarrow> (bool \<times> cache) option" where
  "set_cent_flags name fl st = do {
     (ret, loc) \<leftarrow> dns_lookup (qname_at st) (hashtab st) name;
     case ret of None \<Rightarrow> Some (False, st)
     | Some a \<Rightarrow> do {
         ce \<leftarrow> cents st a;
         Some (True, put_cent a (ce\<lparr>ce_flags := ce_flags ce OR fl\<rparr>) st)
       }
   }"

text \<open>
  \<open>empty_cache\<close> and \<open>destroy_cache\<close>, once the lock is obtained. The first gives other threads a
  chance between two buckets; this is the sequence of its own steps.
\<close>

definition on_table ::
    "(hash_table \<times> cache \<Rightarrow> (hash_table \<times> cache) option) \<Rightarrow> cache \<Rightarrow> cache option" where
  "on_table f st = do { (ht, st1) \<leftarrow> f (hashtab st, st); Some (st1\<lparr>hashtab := ht\<rparr>) }"

fun empty_buckets :: "slist list option \<Rightarrow> nat list \<Rightarrow> cache \<Rightarrow> cache option" where
  "empty_buckets sla [] st = Some st"
| "empty_buckets sla (i # is) st = do {
     st1 \<leftarrow> on_table (case sla of
         Some l \<Rightarrow> free_dns_hash_selected (\<lambda>a s. qname_at s a) del_cent l i
       | None \<Rightarrow> free_dns_hash_bucket del_cent i) st;
     empty_buckets sla is st1
   }"

definition empty_cache :: "slist list option \<Rightarrow> cache \<Rightarrow> cache option" where
  "empty_cache sla st = empty_buckets sla [0..<HASH_NUM_BUCKETS] st"

definition destroy_cache :: "cache \<Rightarrow> cache option" where
  "destroy_cache st = on_table (free_dns_hash del_cent) st"

subsection \<open>Looking up\<close>

datatype wild = NotWild | w_wild | w_neg | w_locnerr

text \<open>The name of the wildcard records of a domain: a label \<open>*\<close> in front of it.\<close>

definition wild_name :: "bytes \<Rightarrow> bytes option" where
  "wild_name nm = do {
     b0 \<leftarrow> wr (replicate DNSNAMEBUFSIZE 0) 0 1;
     b1 \<leftarrow> wr b0 1 42;
     (n, b2) \<leftarrow> rhncpy b1 2 nm;
     Some b2
   }"

text \<open>The search up the name hierarchy; \<open>p\<close> is the offset of \<open>nm\<close> in \<open>name\<close>.\<close>

function wild_up :: "bytes \<Rightarrow> nat \<Rightarrow> cache \<Rightarrow> (nat option \<times> wild) option" where
  "wild_up name p st = do {
     lb \<leftarrow> rd name p;
     if lb = 0 then Some (None, NotWild)
     else do {
       (ret, loc) \<leftarrow> dns_lookup (qname_at st) (hashtab st) (drop p name);
       case ret of
         None \<Rightarrow> wild_up name (p + unat lb + 1) st
       | Some a \<Rightarrow> do {
           ce \<leftarrow> cents st a;
           if has (ce_flags ce) DF_NEGATIVE then Some (Some a, w_neg)
           else if has (ce_flags ce) DF_WILD then do {
             buf \<leftarrow> wild_name (drop p name);
             (ret', loc') \<leftarrow> dns_lookup (qname_at st) (hashtab st) buf;
             Some (ret', if ret' = None then NotWild else w_wild)
           }
           else if has (ce_flags ce) DF_LOCAL then Some (Some a, w_locnerr)
           else Some (None, NotWild)
         }
     }
   }"
  by pat_completeness auto
termination
  by (relation "measure (\<lambda>(name, p, st). length name - p)") (auto simp: rd_Some_iff)

declare wild_up.simps [simp del]

definition find_cent :: "bytes \<Rightarrow> bool \<Rightarrow> cache \<Rightarrow> (nat option \<times> wild) option" where
  "find_cent name wild st = do {
     (ret, loc) \<leftarrow> dns_lookup (qname_at st) (hashtab st) name;
     if \<not> wild \<or> ret \<noteq> None then Some (ret, NotWild)
     else do {
       lb \<leftarrow> rd name 0;
       if lb = 0 then Some (None, NotWild) else wild_up name (unat lb + 1) st
     }
   }"

text \<open>
  \<open>lookup_cache\<close>: first under the read lock, testing whether anything must be purged; only then
  again under the write lock. The result is a copy of the entry.
\<close>

definition lookup_cache_r :: "bytes \<Rightarrow> bool \<Rightarrow> cache \<Rightarrow> (bool \<times> dns_cent option \<times> wild \<times> cache) option" where
  "lookup_cache_r name wild st = do {
     (ret, w) \<leftarrow> find_cent name wild st;
     case ret of None \<Rightarrow> Some (False, None, w, st)
     | Some a \<Rightarrow> do {
         (purge, st1) \<leftarrow> purge_cent a True True st;
         if purge = Some 0 then do {
           ce \<leftarrow> cents st1 a;
           (cp, st2) \<leftarrow> copy_cent ce st1;
           Some (False, cp, w, st2)
         }
         else Some (True, None, w, st1)
       }
   }"

definition lookup_cache_rw :: "bytes \<Rightarrow> bool \<Rightarrow> cache \<Rightarrow> (dns_cent option \<times> wild \<times> cache) option" where
  "lookup_cache_rw name wild st = do {
     (ret, w) \<leftarrow> find_cent name wild st;
     case ret of None \<Rightarrow> Some (None, w, st)
     | Some a \<Rightarrow> do {
         (purge, st1) \<leftarrow> purge_cent a True False st;
         case purge of None \<Rightarrow> Some (None, w, st1)
         | Some n \<Rightarrow> do {
             ce \<leftarrow> cents st1 a;
             (cp, st2) \<leftarrow> copy_cent ce st1;
             Some (cp, w, st2)
           }
       }
   }"

definition lookup_cache :: "bytes \<Rightarrow> bool \<Rightarrow> cache \<Rightarrow> (dns_cent option \<times> wild \<times> cache) option" where
  "lookup_cache name wild st = do {
     (purge, ret, w, st1) \<leftarrow> lookup_cache_r name wild st;
     if purge then lookup_cache_rw name wild st1 else Some (ret, w, st1)
   }"

definition lookup_cache_local_rrset :: "bytes \<Rightarrow> int \<Rightarrow> cache \<Rightarrow> (rr_set option \<times> cache) option" where
  "lookup_cache_local_rrset name type st = do {
     (ret, loc) \<leftarrow> dns_lookup (qname_at st) (hashtab st) name;
     case ret of None \<Rightarrow> Some (None, st)
     | Some a \<Rightarrow> do {
         ce \<leftarrow> cents st a;
         rrset \<leftarrow> getrrset ce type;
         case rrset of None \<Rightarrow> Some (None, st)
         | Some s \<Rightarrow> if has (rs_flags s) CF_LOCAL then Some (copy_rrset s st) else Some (None, st)
       }
   }"

text \<open>\<open>getlocalowner\<close>; the result is the offset of the owner in \<open>name\<close>.\<close>

function localowner_up :: "bytes \<Rightarrow> nat \<Rightarrow> nat \<Rightarrow> cache \<Rightarrow> nat option option" where
  "localowner_up name p tp st = do {
     lb \<leftarrow> rd name p;
     if lb = 0 then Some None
     else do {
       (ret, loc) \<leftarrow> dns_lookup (qname_at st) (hashtab st) (drop p name);
       case ret of
         None \<Rightarrow> localowner_up name (p + unat lb + 1) tp st
       | Some a \<Rightarrow> do {
           ce \<leftarrow> cents st a;
           if \<not> has (ce_flags ce) DF_LOCAL then Some None
           else do {
             have \<leftarrow> have_rr ce tp;
             if have then Some (Some p) else localowner_up name (p + unat lb + 1) tp st
           }
         }
     }
   }"
  by pat_completeness auto
termination
  by (relation "measure (\<lambda>(name, p, tp, st). length name - p)") (auto simp: rd_Some_iff)

declare localowner_up.simps [simp del]

definition getlocalowner :: "bytes \<Rightarrow> nat \<Rightarrow> cache \<Rightarrow> nat option option" where
  "getlocalowner name tp st = do {
     lb \<leftarrow> rd name 0;
     if lb = 0 then Some None else localowner_up name (unat lb + 1) tp st
   }"

subsection \<open>Reverse records\<close>

text \<open>
  \<open>add_reverse_cache\<close>: a PTR record for every address of the entry. The NS and SOA sets of the
  entry are lent to the new one while it is added; its \<open>num_rrs\<close> and \<open>cs\<close> stay as they are.
\<close>

definition lend_sets :: "dns_cent \<Rightarrow> dns_cent \<Rightarrow> dns_cent option" where
  "lend_sets cent ce = do {
     ns \<leftarrow> RRARR_INDEX cent RRMUINDEX_NS;
     ce1 \<leftarrow> set_slot ce RRMUINDEX_NS ns;
     soa \<leftarrow> RRARR_INDEX cent RRMUINDEX_SOA;
     set_slot ce1 RRMUINDEX_SOA soa
   }"

definition unlend_sets :: "dns_cent \<Rightarrow> dns_cent option" where
  "unlend_sets ce = do { ce1 \<leftarrow> set_slot ce RRMUINDEX_NS None; set_slot ce1 RRMUINDEX_SOA None }"

fun reverse_rrs :: "bytes list \<Rightarrow> nat \<Rightarrow> rr_set \<Rightarrow> dns_cent \<Rightarrow> cache \<Rightarrow> (bool \<times> cache) option" where
  "reverse_rrs [] tp s cent st = Some (True, st)"
| "reverse_rrs (rr # rrs) tp s cent st = do {
     (ok, buf) \<leftarrow> a2ptrstr rr tp (replicate DNSNAMEBUFSIZE 0);
     if \<not> ok then Some (False, st)
     else do {
       (ok1, rhn) \<leftarrow> str2rhn buf (replicate DNSNAMEBUFSIZE 0);
       if \<not> ok1 then Some (False, st)
       else do {
         (ce, st1) \<leftarrow> init_cent rhn 0 0 (ce_flags cent) st;
         case ce of None \<Rightarrow> Some (False, st1)
         | Some ce0 \<Rightarrow> do {
             n \<leftarrow> rhnlen (qname cent);
             target \<leftarrow> rd_all (qname cent) 0 n;
             (ok2, ce1, st2) \<leftarrow> add_cent_rr ce0 (int T_PTR) (rs_ttl s) (rs_ts s) (rs_flags s) target st1;
             if \<not> ok2 then do { st3 \<leftarrow> free_cent ce1 st2; Some (False, st3) }
             else do {
               ce2 \<leftarrow> lend_sets cent ce1;
               st3 \<leftarrow> add_cache ce2 st2;
               ce3 \<leftarrow> unlend_sets ce2;
               st4 \<leftarrow> free_cent ce3 st3;
               reverse_rrs rrs tp s cent st4
             }
           }
       }
     }
   }"

definition add_reverse_cache :: "dns_cent \<Rightarrow> cache \<Rightarrow> (bool \<times> cache) option" where
  "add_reverse_cache cent st = do {
     a \<leftarrow> GET_RRSMU cent RRMUINDEX_A;
     (ok, st1) \<leftarrow> (case a of None \<Rightarrow> Some (True, st) | Some s \<Rightarrow> reverse_rrs (rs_rrs s) T_A s cent st);
     if \<not> ok then Some (False, st1)
     else do {
       aaaa \<leftarrow> GET_RRSMU cent RRMUINDEX_AAAA;
       case aaaa of None \<Rightarrow> Some (True, st1) | Some s \<Rightarrow> reverse_rrs (rs_rrs s) T_AAAA s cent st1
     }
   }"

text \<open>
  \<open>add_host\<close> of \<open>dns.c\<close>: the records of a line of a hosts file. The result 1, 0 or -1 is as in
  the code; \<open>pn\<close> and \<open>rns\<close> are the name and the name server.
\<close>

definition add_local ::
    "bytes \<Rightarrow> bytes \<Rightarrow> nat \<Rightarrow> bytes \<Rightarrow> int \<Rightarrow> flags \<Rightarrow> cache \<Rightarrow> (bool \<times> cache) option" where
  "add_local pn rns tp data ttl fl st = do {
     (ce, st1) \<leftarrow> init_cent pn 0 0 fl st;
     case ce of None \<Rightarrow> Some (False, st1)
     | Some ce0 \<Rightarrow> do {
         (ok, ce1, st2) \<leftarrow> add_cent_rr ce0 (int tp) ttl 0 CF_LOCAL data st1;
         if \<not> ok then do { st3 \<leftarrow> free_cent ce1 st2; Some (False, st3) }
         else do {
           n \<leftarrow> rhnlen rns;
           rd_ns \<leftarrow> rd_all rns 0 n;
           (ok1, ce2, st3) \<leftarrow> add_cent_rr ce1 (int T_NS) ttl 0 CF_LOCAL rd_ns st2;
           if \<not> ok1 then do { st4 \<leftarrow> free_cent ce2 st3; Some (False, st4) }
           else do {
             st4 \<leftarrow> add_cache ce2 st3;
             st5 \<leftarrow> free_cent ce2 st4;
             Some (True, st5)
           }
         }
       }
   }"

definition add_host ::
    "bytes \<Rightarrow> bytes \<Rightarrow> bytes \<Rightarrow> nat \<Rightarrow> int \<Rightarrow> flags \<Rightarrow> bool \<Rightarrow> cache \<Rightarrow> (int \<times> cache) option" where
  "add_host pn rns a tp ttl fl reverse st = do {
     (ok, st1) \<leftarrow> add_local pn rns tp a ttl fl st;
     if \<not> ok then Some (0, st1)
     else if \<not> reverse then Some (1, st1)
     else do {
       (ok1, b2) \<leftarrow> a2ptrstr a tp (replicate DNSNAMEBUFSIZE 0);
       if \<not> ok1 then Some (-1, st1)
       else do {
         (ok2, rhn) \<leftarrow> str2rhn b2 (replicate DNSNAMEBUFSIZE 0);
         if \<not> ok2 then Some (-1, st1)
         else do {
           n \<leftarrow> rhnlen pn;
           rd_pn \<leftarrow> rd_all pn 0 n;
           (ok3, st2) \<leftarrow> add_local rhn rns T_PTR rd_pn ttl fl st1;
           Some (if ok3 then 1 else 0, st2)
         }
       }
     }
   }"

end
