(* ===== verification/Cache_Inv.thy ===== *)
theory Cache_Inv
  imports Cache
begin

text \<open>
  The invariant of a cache entry and the effect of the operations on entries: the accounting of
  \<open>cs\<close> and \<open>num_rrs\<close>, and the links between record sets and the list \<open>rrset_l\<close>.
\<close>

declare not_None_eq [simp del] split_paired_All [simp del] split_paired_Ex [simp del] ex_bool_eq [simp]

subsection \<open>The record sets of an entry as one list\<close>

fun slots :: "cent_body \<Rightarrow> rr_set option list" where
  "slots (Neg l ttl ts) = replicate NRRTOT None"
| "slots (Recs mu ext) = mu @ (case ext of None \<Rightarrow> replicate NRREXT None | Some e \<Rightarrow> e)"

abbreviation slot :: "dns_cent \<Rightarrow> nat \<Rightarrow> rr_set option" where
  "slot c i \<equiv> slots (body c) ! i"

fun is_neg :: "cent_body \<Rightarrow> bool" where
  "is_neg (Neg l ttl ts) = True"
| "is_neg (Recs mu ext) = False"

fun has_ext :: "cent_body \<Rightarrow> bool" where
  "has_ext (Neg l ttl ts) = False"
| "has_ext (Recs mu ext) = (ext \<noteq> None)"

fun body_ok :: "cent_body \<Rightarrow> bool" where
  "body_ok (Neg l ttl ts) = True"
| "body_ok (Recs mu ext) = (length mu = NRRMU \<and> (case ext of None \<Rightarrow> True | Some e \<Rightarrow> length e = NRREXT))"

definition sets_count :: "rr_set option list \<Rightarrow> nat" where
  "sets_count ss = length (filter (\<lambda>s. s \<noteq> None) ss)"

definition slot_size :: "rr_set option \<Rightarrow> int" where
  "slot_size s = (case s of None \<Rightarrow> 0 | Some x \<Rightarrow> rr_set_size x)"

definition sets_size :: "rr_set option list \<Rightarrow> int" where
  "sets_size ss = sum_list (map slot_size ss)"

definition ext_size :: "cent_body \<Rightarrow> int" where
  "ext_size b = (if has_ext b then sizeof_rrext else 0)"

text \<open>
  The invariant of an entry by itself: the name, the agreement of the flag \<open>DF_NEGATIVE\<close> with
  the member of the union in use, and the two counters.
\<close>

definition cent_ok :: "dns_cent \<Rightarrow> bool" where
  "cent_ok c \<longleftrightarrow> (\<exists>ls. qname c = enc ls \<and> dns_name ls) \<and> body_ok (body c) \<and>
     is_neg (body c) = has (ce_flags c) DF_NEGATIVE \<and>
     num_rrs c = of_nat (sets_count (slots (body c))) \<and>
     cs c = sizeof_dns_cent + int (length (qname c)) + ext_size (body c) + sets_size (slots (body c))"

lemma length_slots: "body_ok b \<Longrightarrow> length (slots b) = NRRTOT"
  by (cases b) (auto simp: nrr_defs split: option.splits)

lemma cent_ok_length [simp]: "cent_ok c \<Longrightarrow> length (slots (body c)) = NRRTOT"
  by (simp add: cent_ok_def length_slots)

lemma sets_count_le: "sets_count ss \<le> length ss"
  by (simp add: sets_count_def)

lemma sets_Cons [simp]:
  "sets_count (s # ss) = (if s = None then 0 else 1) + sets_count ss"
  "sets_size (s # ss) = slot_size s + sets_size ss"
  by (simp_all add: sets_count_def sets_size_def)

lemma sets_Nil [simp]: "sets_count [] = 0" "sets_size [] = 0"
  by (simp_all add: sets_count_def sets_size_def)

lemma sets_count_update:
  "i < length ss \<Longrightarrow> sets_count (ss[i := v]) + (if ss ! i = None then 0 else 1) =
     sets_count ss + (if v = None then 0 else 1)"
proof (induction ss arbitrary: i)
  case (Cons s ss)
  show ?case
  proof (cases i)
    case (Suc k)
    with Cons.IH [of k] Cons.prems show ?thesis by simp
  qed simp
qed simp

lemma sets_size_update:
  "i < length ss \<Longrightarrow> sets_size (ss[i := v]) = sets_size ss - slot_size (ss ! i) + slot_size v"
proof (induction ss arbitrary: i)
  case (Cons s ss)
  then show ?case by (cases i) auto
qed simp

lemma sets_count_0: "sets_count ss = 0 \<longleftrightarrow> (\<forall>i < length ss. ss ! i = None)"
  by (auto simp: sets_count_def filter_empty_conv all_set_conv_all_nth)

lemma sets_empty [simp]: "sets_count (replicate n None) = 0" "sets_size (replicate n None) = 0"
  by (simp_all add: sets_count_def sets_size_def slot_size_def sum_list_replicate)

lemma sets_append [simp]: "sets_count (a @ b) = sets_count a + sets_count b" "sets_size (a @ b) = sets_size a + sets_size b"
  by (simp_all add: sets_count_def sets_size_def)

lemma slot_size_nonneg: "0 \<le> slot_size s"
  by (auto simp: slot_size_def rr_set_size_def sizeof_rr_set_def sizeof_rr_bucket_def
      intro!: add_nonneg_nonneg sum_list_nonneg split: option.splits)

lemma sets_size_nonneg: "0 \<le> sets_size ss"
  unfolding sets_size_def by (rule sum_list_nonneg) (auto intro: slot_size_nonneg)

lemma cent_ok_num_rrs: "cent_ok c \<Longrightarrow> num_rrs c = 0 \<longleftrightarrow> (\<forall>i < NRRTOT. slot c i = None)"
proof -
  assume c: "cent_ok c"
  have "sets_count (slots (body c)) < 2 ^ 16"
    using sets_count_le [of "slots (body c)"] c by (simp add: nrr_defs)
  then have "(of_nat (sets_count (slots (body c))) = (0 :: 16 word)) \<longleftrightarrow> sets_count (slots (body c)) = 0"
    by (simp add: word_unat_eq_iff unat_of_nat)
  with c show ?thesis by (simp add: cent_ok_def sets_count_0 length_slots)
qed

lemma cent_ok_cs_pos: "cent_ok c \<Longrightarrow> 0 < cs c"
  using sets_size_nonneg [of "slots (body c)"]
  by (auto simp: cent_ok_def sizeof_dns_cent_def ext_size_def sizeof_rrext_def sizeof_ptr_def)

text \<open>The accessors of the code in these terms.\<close>

lemma neg_slot: "is_neg b \<Longrightarrow> i < NRRTOT \<Longrightarrow> slots b ! i = None"
  by (cases b) auto

lemma RRARR_INDEX_TESTEXT_slot [simp]:
  "cent_ok c \<Longrightarrow> i < NRRTOT \<Longrightarrow> RRARR_INDEX_TESTEXT c i = Some (slot c i)"
  by (cases "body c")
    (auto simp: cent_ok_def RRARR_INDEX_TESTEXT_def nrr_defs rd_def nth_append split: option.splits)

definition ilim :: "dns_cent \<Rightarrow> nat" where
  "ilim c = (if is_neg (body c) then 0 else if has_ext (body c) then NRRTOT else NRRMU)"

lemma ilim_le: "ilim c \<le> NRRTOT"
  by (simp add: ilim_def nrr_defs)

lemma RRARR_LEN_ilim [simp]: "cent_ok c \<Longrightarrow> RRARR_LEN c = Some (ilim c)"
  by (cases "body c") (auto simp: cent_ok_def RRARR_LEN_def ilim_def)

lemma RRARR_INDEX_slot [simp]:
  "cent_ok c \<Longrightarrow> i < ilim c \<Longrightarrow> RRARR_INDEX c i = Some (slot c i)"
  by (cases "body c")
    (auto simp: cent_ok_def RRARR_INDEX_def ilim_def nrr_defs rd_def nth_append split: option.splits if_splits)

lemma slot_beyond: "cent_ok c \<Longrightarrow> ilim c \<le> i \<Longrightarrow> i < NRRTOT \<Longrightarrow> slot c i = None"
  by (cases "body c")
    (auto simp: cent_ok_def ilim_def nrr_defs nth_append split: option.splits if_splits)

lemma slot_some_ilim: "cent_ok c \<Longrightarrow> i < NRRTOT \<Longrightarrow> slot c i \<noteq> None \<Longrightarrow> i < ilim c"
  using slot_beyond [of c i] by (meson not_le)

text \<open>Assignment to a slot.\<close>

fun body_upd :: "cent_body \<Rightarrow> nat \<Rightarrow> rr_set option \<Rightarrow> cent_body" where
  "body_upd (Neg l ttl ts) i v = Neg l ttl ts"
| "body_upd (Recs mu ext) i v =
     (if i < NRRMU then Recs (mu[i := v]) ext else Recs mu (map_option (\<lambda>e. e[i - NRRMU := v]) ext))"

lemma set_slot_upd:
  "body_ok (body c) \<Longrightarrow> i < ilim c \<Longrightarrow> set_slot c i v = Some (c\<lparr>body := body_upd (body c) i v\<rparr>)"
  by (cases "body c") (auto simp: set_slot_def ilim_def nrr_defs wr_def split: option.splits if_splits)

lemma slots_upd:
  "body_ok b \<Longrightarrow> \<not> is_neg b \<Longrightarrow> i < (if has_ext b then NRRTOT else NRRMU) \<Longrightarrow>
   slots (body_upd b i v) = (slots b)[i := v] \<and> body_ok (body_upd b i v) \<and>
   is_neg (body_upd b i v) = is_neg b \<and> has_ext (body_upd b i v) = has_ext b"
  by (cases b) (auto simp: nrr_defs list_update_append split: option.splits if_splits)

lemma ilim_upd:
  assumes "body_ok (body c)" and "i < ilim c"
  shows "slots (body_upd (body c) i v) = (slots (body c))[i := v]" "body_ok (body_upd (body c) i v)"
    "is_neg (body_upd (body c) i v) = is_neg (body c)" "has_ext (body_upd (body c) i v) = has_ext (body c)"
    "\<not> is_neg (body c)"
proof -
  show n: "\<not> is_neg (body c)" using assms(2) by (auto simp: ilim_def)
  show "slots (body_upd (body c) i v) = (slots (body c))[i := v]" "body_ok (body_upd (body c) i v)"
    "is_neg (body_upd (body c) i v) = is_neg (body c)" "has_ext (body_upd (body c) i v) = has_ext (body c)"
    using slots_upd [OF assms(1) n, of i v] assms(2) n by (auto simp: ilim_def split: if_splits)
qed

subsection \<open>Links to the list\<close>

text \<open>
  The elements of the list that belong to the entry at address \<open>a\<close>: as its record sets point
  to them, and as the list holds them.
\<close>

definition lents_of :: "nat \<Rightarrow> dns_cent \<Rightarrow> lent set" where
  "lents_of a c = {(a, int i) | i s. i < NRRTOT \<and> slot c i = Some s \<and> rs_lent s \<noteq> None} \<union>
     (case body c of Neg (Some l) ttl ts \<Rightarrow> {(a, -1)} | _ \<Rightarrow> {})"

definition ptr_ok :: "nat \<Rightarrow> dns_cent \<Rightarrow> bool" where
  "ptr_ok a c \<longleftrightarrow> (\<forall>i < NRRTOT. \<forall>s le. slot c i = Some s \<and> rs_lent s = Some le \<longrightarrow> le = (a, int i)) \<and>
     (\<forall>le ttl ts. body c = Neg (Some le) ttl ts \<longrightarrow> le = (a, -1))"

lemma ptr_okD: "ptr_ok a c \<Longrightarrow> i < NRRTOT \<Longrightarrow> slot c i = Some s \<Longrightarrow> rs_lent s = Some le \<Longrightarrow> le = (a, int i)"
  unfolding ptr_ok_def by blast

lemma ptr_okI:
  "\<not> is_neg (body c) \<Longrightarrow> (\<And>i s le. i < NRRTOT \<Longrightarrow> slot c i = Some s \<Longrightarrow> rs_lent s = Some le \<Longrightarrow> le = (a, int i)) \<Longrightarrow> ptr_ok a c"
  unfolding ptr_ok_def by (cases "body c") auto

definition mine :: "nat \<Rightarrow> lent list \<Rightarrow> lent set" where
  "mine a l = {le \<in> set l. fst le = a}"

definition others :: "nat \<Rightarrow> lent list \<Rightarrow> lent list" where
  "others a l = filter (\<lambda>le. fst le \<noteq> a) l"

text \<open>An entry at an address with its links in the list of a state.\<close>

definition cok :: "nat \<Rightarrow> dns_cent \<Rightarrow> cache \<Rightarrow> bool" where
  "cok a c st \<longleftrightarrow> cent_ok c \<and> ptr_ok a c \<and> lents_of a c = mine a (rrset_l st) \<and> distinct (rrset_l st)"

text \<open>
  What an operation on one entry may change in the state: elements of the list that belong to
  it, and the outcomes of allocations still to come (none fails once \<open>mem\<close> is empty).
\<close>

definition frame :: "nat \<Rightarrow> cache \<Rightarrow> cache \<Rightarrow> bool" where
  "frame a st st' \<longleftrightarrow> (\<exists>l m. st' = st\<lparr>rrset_l := l, mem := m\<rparr> \<and> others a l = others a (rrset_l st) \<and>
     (mem st = [] \<longrightarrow> m = []))"

lemma frame_refl [simp]: "frame a st st"
  unfolding frame_def by (intro exI [of _ "rrset_l st"] exI [of _ "mem st"]) simp

lemma frame_trans: "frame a st st' \<Longrightarrow> frame a st' st'' \<Longrightarrow> frame a st st''"
  unfolding frame_def
proof (elim exE conjE)
  fix l m l' m'
  assume "st' = st\<lparr>rrset_l := l, mem := m\<rparr>" "others a l = others a (rrset_l st)" "mem st = [] \<longrightarrow> m = []"
    "st'' = st'\<lparr>rrset_l := l', mem := m'\<rparr>" "others a l' = others a (rrset_l st')" "mem st' = [] \<longrightarrow> m' = []"
  then show "\<exists>l m. st'' = st\<lparr>rrset_l := l, mem := m\<rparr> \<and> others a l = others a (rrset_l st) \<and> (mem st = [] \<longrightarrow> m = [])"
    by (intro exI [of _ l'] exI [of _ m']) simp
qed

lemma frame_mem: "(mem st = [] \<longrightarrow> m = []) \<Longrightarrow> frame a st (st\<lparr>mem := m\<rparr>)"
  unfolding frame_def by (intro exI [of _ "rrset_l st"] exI [of _ m]) simp

lemma frame_no_failure: "frame a st st' \<Longrightarrow> mem st = [] \<Longrightarrow> mem st' = []"
  unfolding frame_def by auto

lemma malloc_mem: "malloc st = (ok, st') \<Longrightarrow> \<exists>m. st' = st\<lparr>mem := m\<rparr>"
proof (cases "mem st")
  case Nil
  assume "malloc st = (ok, st')"
  with Nil have "st' = st\<lparr>mem := []\<rparr>" by (simp add: malloc_def)
  then show ?thesis ..
next
  case (Cons b bs)
  assume "malloc st = (ok, st')"
  with Cons have "st' = st\<lparr>mem := bs\<rparr>" by (simp add: malloc_def)
  then show ?thesis ..
qed

lemma cok_mem [simp]: "cok a c (st\<lparr>mem := m\<rparr>) = cok a c st"
  by (simp add: cok_def)

lemma malloc_empty: "malloc st = (ok, st') \<Longrightarrow> mem st = [] \<Longrightarrow> ok \<and> st' = st"
  by (simp add: malloc_def)

lemma malloc_cok:
  "malloc st = (ok, st') \<Longrightarrow>
   frame a st st' \<and> cok a c st' = cok a c st \<and> rrset_l st' = rrset_l st \<and> (mem st = [] \<longrightarrow> ok)"
proof (cases "mem st")
  case Nil
  assume "malloc st = (ok, st')"
  with Nil have "ok" "st' = st" using malloc_empty by blast+
  then show ?thesis by simp
next
  case (Cons b bs)
  assume m: "malloc st = (ok, st')"
  with Cons have "st' = st\<lparr>mem := bs\<rparr>" by (simp add: malloc_def)
  then show ?thesis using Cons frame_mem [of st bs a] by simp
qed

text \<open>The entry at \<open>a\<close> is irrelevant for an entry that has no links and is not in the heap.\<close>

lemma cok_cent_ok: "cok a c st \<Longrightarrow> cent_ok c"
  by (simp add: cok_def)

lemma remove_rrl_mine:
  assumes "cok a c st" and "le \<in> lents_of a c"
  shows "remove_rrl le st = Some (st\<lparr>rrset_l := filter (\<lambda>x. x \<noteq> le) (rrset_l st)\<rparr>)"
proof -
  have "le \<in> set (rrset_l st)" "distinct (rrset_l st)" using assms by (auto simp: cok_def mine_def)
  then show ?thesis by (simp add: remove_rrl_def distinct_remove1_removeAll removeAll_filter_not_eq eq_commute [of le])
qed

subsection \<open>Replacing one record set\<close>

lemma has_clear: "g AND f = 0 \<Longrightarrow> has (fl AND NOT g) f = has fl f"
proof -
  assume "g AND f = 0"
  then have "\<not> (bit g n \<and> bit f n)" for n by (metis bit_0_eq bit_and_iff bot_apply bot_bool_def)
  then have "(fl AND NOT g) AND f = fl AND f"
    by (intro bit_eqI) (auto simp: bit_and_iff bit_not_iff dest: bit_imp_le_length)
  then show ?thesis by (simp add: has_def)
qed

lemma cent_ok_upd:
  assumes "cent_ok c" and "i < ilim c"
    and "n = num_rrs c + (if v = None then 0 else 1) - (if slot c i = None then 0 else 1)"
    and "k = cs c - slot_size (slot c i) + slot_size v"
    and "has f DF_NEGATIVE = has (ce_flags c) DF_NEGATIVE"
  shows "cent_ok (c\<lparr>body := body_upd (body c) i v, num_rrs := n, cs := k, ce_flags := f\<rparr>)"
proof -
  have b: "body_ok (body c)" using assms(1) by (simp add: cent_ok_def)
  note u = ilim_upd(1-4) [OF b assms(2), of v] ilim_upd(5) [OF b assms(2)]
  have i: "i < length (slots (body c))" using assms(1,2) ilim_le [of c] by simp
  have "sets_count ((slots (body c))[i := v]) + (if slot c i = None then 0 else 1) =
     sets_count (slots (body c)) + (if v = None then 0 else 1)" by (rule sets_count_update [OF i])
  then have "(of_nat (sets_count ((slots (body c))[i := v]) + (if slot c i = None then 0 else 1)) :: 16 word) =
     of_nat (sets_count (slots (body c)) + (if v = None then 0 else 1))" by (rule arg_cong)
  then have "(of_nat (sets_count ((slots (body c))[i := v])) :: 16 word) =
     of_nat (sets_count (slots (body c))) + (if v = None then 0 else 1) - (if slot c i = None then 0 else 1)"
    by (simp split: if_splits add: algebra_simps)
  with assms u sets_size_update [OF i, of v] show ?thesis
    by (simp add: cent_ok_def ext_size_def)
qed

definition linked :: "rr_set option \<Rightarrow> bool" where
  "linked v \<longleftrightarrow> (\<exists>s. v = Some s \<and> rs_lent s \<noteq> None)"

lemma lents_of_recs:
  "\<not> is_neg (body c) \<Longrightarrow> lents_of a c = {(a, int i) | i. i < NRRTOT \<and> linked (slot c i)}"
  by (cases "body c") (auto simp: lents_of_def linked_def)

lemma lents_of_iff: "i < NRRTOT \<Longrightarrow> (a, int i) \<in> lents_of a c \<longleftrightarrow> linked (slot c i)"
  by (cases "is_neg (body c)")
    (auto simp: lents_of_def lents_of_recs linked_def neg_slot split: cent_body.splits option.splits)

lemma lents_of_upd:
  assumes "\<not> is_neg (body c)" and "\<not> is_neg (body c')" and "slots (body c') = (slots (body c))[i := v]"
    and "i < NRRTOT" and "length (slots (body c)) = NRRTOT"
  shows "lents_of a c' = lents_of a c - {(a, int i)} \<union> (if linked v then {(a, int i)} else {})"
  using assms by (auto simp: lents_of_recs nth_list_update split: if_splits)

lemma ptr_ok_upd:
  assumes "ptr_ok a c" and "\<not> is_neg (body c')" and "slots (body c') = (slots (body c))[i := v]"
    and "length (slots (body c)) = NRRTOT" and "\<forall>s le. v = Some s \<and> rs_lent s = Some le \<longrightarrow> le = (a, int i)"
  shows "ptr_ok a c'"
proof (rule ptr_okI [OF assms(2)])
  fix j s le assume j: "j < NRRTOT" "slot c' j = Some s" "rs_lent s = Some le"
  show "le = (a, int j)"
  proof (cases "j = i")
    case True
    with j assms(3,4) have "v = Some s" by simp
    with j(3) assms(5) True show ?thesis by blast
  next
    case False
    with j assms(3) have "slot c j = Some s" by simp
    with ptr_okD [OF assms(1) j(1)] j(3) show ?thesis by simp
  qed
qed

text \<open>Deleting a record set.\<close>

abbreviation unlink :: "lent \<Rightarrow> cache \<Rightarrow> cache" where
  "unlink le st \<equiv> st\<lparr>rrset_l := filter (\<lambda>x. x \<noteq> le) (rrset_l st)\<rparr>"

lemma frame_unlink [simp]: "frame a st (unlink (a, i) st)"
  unfolding frame_def
  by (intro exI [of _ "filter (\<lambda>x. x \<noteq> (a, i)) (rrset_l st)"] exI [of _ "mem st"])
    (auto simp: others_def filter_filter intro: filter_cong)

lemma del_rrset_slot:
  assumes "cok a c st" and "i < NRRTOT" and "slot c i = Some s"
  shows "del_rrset s st = Some (rr_set_size s, unlink (a, int i) st)"
proof (cases "rs_lent s")
  case None
  then have "(a, int i) \<notin> lents_of a c" using assms(2,3) by (simp add: lents_of_iff linked_def)
  then have "(a, int i) \<notin> set (rrset_l st)" using assms(1) by (auto simp: cok_def mine_def)
  then have "filter (\<lambda>x. x \<noteq> (a, int i)) (rrset_l st) = rrset_l st" by (auto intro: filter_True)
  with None show ?thesis by (simp add: del_rrset_def)
next
  case (Some le)
  then have le: "le = (a, int i)" using assms ptr_okD [of a c i s le] by (simp add: cok_def)
  have "le \<in> lents_of a c" using assms(2,3) Some by (simp add: le lents_of_iff linked_def)
  from remove_rrl_mine [OF assms(1) this] Some show ?thesis by (simp add: del_rrset_def le)
qed

definition del_slot :: "dns_cent \<Rightarrow> nat \<Rightarrow> dns_cent" where
  "del_slot c i = (if slot c i = None then c
     else c\<lparr>body := body_upd (body c) i None, num_rrs := num_rrs c - 1, cs := cs c - slot_size (slot c i),
       ce_flags := ce_flags c AND NOT DF_AUTH\<rparr>)"

lemma cok_unlinked:
  assumes "cok a c st" and "cent_ok c'" and "\<not> is_neg (body c)" and "\<not> is_neg (body c')"
    and "slots (body c') = (slots (body c))[i := None]" and "i < NRRTOT"
  shows "cok a c' (unlink (a, int i) st)"
proof -
  have "lents_of a c' = lents_of a c - {(a, int i)}"
    using lents_of_upd [OF assms(3,4,5,6), of a] assms(1) by (simp add: linked_def cok_def)
  moreover have "mine a (filter (\<lambda>x. x \<noteq> (a, int i)) (rrset_l st)) = mine a (rrset_l st) - {(a, int i)}"
    by (auto simp: mine_def)
  moreover have "ptr_ok a c'" using assms by (intro ptr_ok_upd [OF _ assms(4,5)]) (auto simp: cok_def)
  ultimately show ?thesis using assms(1,2) by (simp add: cok_def)
qed

lemma del_slot_facts:
  assumes "cent_ok c" and "i < NRRTOT"
  shows "cent_ok (del_slot c i)" "slots (body (del_slot c i)) = (slots (body c))[i := None]"
    "qname (del_slot c i) = qname c" "cs (del_slot c i) = cs c - slot_size (slot c i)"
    "is_neg (body (del_slot c i)) = is_neg (body c)" "has_ext (body (del_slot c i)) = has_ext (body c)"
    "ilim (del_slot c i) = ilim c" "c_ns (del_slot c i) = c_ns c" "c_soa (del_slot c i) = c_soa c"
proof -
  have all: "cent_ok (del_slot c i) \<and> slots (body (del_slot c i)) = (slots (body c))[i := None] \<and>
    qname (del_slot c i) = qname c \<and> cs (del_slot c i) = cs c - slot_size (slot c i) \<and>
    is_neg (body (del_slot c i)) = is_neg (body c) \<and> has_ext (body (del_slot c i)) = has_ext (body c)"
  proof (cases "slot c i = None")
    case True
    then have "(slots (body c))[i := None] = slots (body c)" by (metis list_update_id)
    with True assms(1) show ?thesis by (simp add: del_slot_def slot_size_def)
  next
    case False
    then have i: "i < ilim c" using slot_some_ilim assms by blast
    have b: "body_ok (body c)" using assms(1) by (simp add: cent_ok_def)
    have "DF_AUTH AND DF_NEGATIVE = 0" by (simp add: df_defs)
    then have "cent_ok (del_slot c i)"
      using False unfolding del_slot_def
      by (simp only: if_False) (rule cent_ok_upd [OF assms(1) i], auto simp: has_clear slot_size_def)
    with False ilim_upd(1-4) [OF b i, of None] show ?thesis by (simp add: del_slot_def)
  qed
  then show "cent_ok (del_slot c i)" "slots (body (del_slot c i)) = (slots (body c))[i := None]"
    "qname (del_slot c i) = qname c" "cs (del_slot c i) = cs c - slot_size (slot c i)"
    "is_neg (body (del_slot c i)) = is_neg (body c)" "has_ext (body (del_slot c i)) = has_ext (body c)" by auto
  from all show "ilim (del_slot c i) = ilim c" by (simp add: ilim_def)
  show "c_ns (del_slot c i) = c_ns c" "c_soa (del_slot c i) = c_soa c" by (simp_all add: del_slot_def)
qed

lemma del_cent_rrset_spec:
  assumes "cok a c st" and "i < NRRTOT"
  shows "del_cent_rrset_by_index c i st = Some (slot_size (slot c i), del_slot c i, unlink (a, int i) st)"
    and "cok a (del_slot c i) (unlink (a, int i) st)"
proof -
  have c: "cent_ok c" using assms(1) by (rule cok_cent_ok)
  show "del_cent_rrset_by_index c i st = Some (slot_size (slot c i), del_slot c i, unlink (a, int i) st)"
  proof (cases "slot c i")
    case None
    then have "(a, int i) \<notin> lents_of a c" using assms(2) by (simp add: lents_of_iff linked_def)
    then have "(a, int i) \<notin> set (rrset_l st)" using assms(1) by (auto simp: cok_def mine_def)
    then have "filter (\<lambda>x. x \<noteq> (a, int i)) (rrset_l st) = rrset_l st" by (auto intro: filter_True)
    with None c assms(2) show ?thesis by (simp add: del_cent_rrset_by_index_def del_slot_def slot_size_def)
  next
    case (Some s)
    then have i: "i < ilim c" using slot_some_ilim [OF c assms(2)] by simp
    have b: "body_ok (body c)" using c by (simp add: cent_ok_def)
    from Some c assms(2) del_rrset_slot [OF assms Some] set_slot_upd [OF b i] show ?thesis
      by (simp add: del_cent_rrset_by_index_def del_slot_def slot_size_def)
  qed
  show "cok a (del_slot c i) (unlink (a, int i) st)"
  proof (cases "is_neg (body c)")
    case False
    with del_slot_facts [OF c assms(2)] show ?thesis
      by (intro cok_unlinked [OF assms(1) _ False _ _ assms(2)]) auto
  next
    case True
    then have n: "slot c i = None" using assms(2) by (simp add: neg_slot)
    then have "(a, int i) \<notin> lents_of a c" using assms(2) by (simp add: lents_of_iff linked_def)
    then have "(a, int i) \<notin> set (rrset_l st)" using assms(1) by (auto simp: cok_def mine_def)
    then have "filter (\<lambda>x. x \<noteq> (a, int i)) (rrset_l st) = rrset_l st" by (auto intro: filter_True)
    with n assms(1) show ?thesis by (simp add: del_slot_def)
  qed
qed

subsection \<open>Adding a record set\<close>

lemma has_cleared: "has (fl AND NOT f) f = False"
  by (simp add: has_def and.assoc)

lemma cok_same_links:
  assumes "cok a c st" and "cent_ok c'" and "\<not> is_neg (body c)" and "\<not> is_neg (body c')"
    and "slots (body c') = (slots (body c))[i := v]" and "i < NRRTOT" and "linked v = linked (slot c i)"
    and "\<forall>s le. v = Some s \<and> rs_lent s = Some le \<longrightarrow> le = (a, int i)"
  shows "cok a c' st"
proof -
  have c: "length (slots (body c)) = NRRTOT" using assms(1) by (simp add: cok_def)
  have "lents_of a c' = lents_of a c - {(a, int i)} \<union> (if linked v then {(a, int i)} else {})"
    using lents_of_upd [OF assms(3-6) c] .
  also have "\<dots> = lents_of a c" using assms(6,7) lents_of_iff [of i a c] by auto
  finally have "lents_of a c' = lents_of a c" .
  moreover have "ptr_ok a c'" using assms(1,8) c by (intro ptr_ok_upd [OF _ assms(4,5)]) (auto simp: cok_def)
  ultimately show ?thesis using assms(1,2) by (simp add: cok_def)
qed

lemma cok_same_slots:
  assumes "cok a c st" and "cent_ok c'" and "\<not> is_neg (body c)" and "\<not> is_neg (body c')"
    and "slots (body c') = slots (body c)"
  shows "cok a c' st"
proof -
  have "lents_of a c' = lents_of a c" using assms(3-5) by (simp add: lents_of_recs)
  moreover have "ptr_ok a c'"
    using assms by (intro ptr_okI) (auto simp: cok_def dest: ptr_okD)
  ultimately show ?thesis using assms(1,2) by (simp add: cok_def)
qed

text \<open>The parts of an entry that the operations on its record sets leave alone.\<close>

definition same_head :: "dns_cent \<Rightarrow> dns_cent \<Rightarrow> bool" where
  "same_head c c' \<longleftrightarrow> qname c' = qname c \<and> c_ns c' = c_ns c \<and> c_soa c' = c_soa c \<and>
     (\<forall>f. (DF_NEGATIVE OR DF_AUTH) AND f = 0 \<longrightarrow> has (ce_flags c') f = has (ce_flags c) f)"

lemma same_head_refl [simp]: "same_head c c"
  by (simp add: same_head_def)

lemma same_head_trans: "same_head c c' \<Longrightarrow> same_head c' c'' \<Longrightarrow> same_head c c''"
  by (simp add: same_head_def)

lemma same_head_simps [simp]:
  "same_head c (c'\<lparr>body := b\<rparr>) = same_head c c'" "same_head c (c'\<lparr>cs := k\<rparr>) = same_head c c'"
  "same_head c (c'\<lparr>num_rrs := n\<rparr>) = same_head c c'"
  by (simp_all add: same_head_def)

lemma mask_parts: "(DF_NEGATIVE OR DF_AUTH) AND f = 0 \<Longrightarrow> DF_NEGATIVE AND f = 0 \<and> DF_AUTH AND f = 0"
proof -
  assume a: "(DF_NEGATIVE OR DF_AUTH) AND f = 0"
  have "DF_NEGATIVE AND f = DF_NEGATIVE AND ((DF_NEGATIVE OR DF_AUTH) AND f)"
    "DF_AUTH AND f = DF_AUTH AND ((DF_NEGATIVE OR DF_AUTH) AND f)"
    by (simp_all add: and.assoc [symmetric] df_defs)
  with a show ?thesis by simp
qed

lemma same_head_clear [simp]:
  "same_head c (c\<lparr>ce_flags := ce_flags c AND NOT DF_NEGATIVE\<rparr>)" "same_head c (c\<lparr>ce_flags := ce_flags c AND NOT DF_AUTH\<rparr>)"
  by (auto simp: same_head_def has_clear dest: mask_parts)

lemma same_head_del_slot [simp]: "same_head c (del_slot c i)"
  by (auto simp: del_slot_def same_head_def has_clear dest: mask_parts)

lemma filter_unlink: "others a (filter (\<lambda>x. x \<noteq> (a, i)) l) = others a l"
  by (auto simp: others_def filter_filter intro: filter_cong)

lemma unnegate_spec:
  assumes "cok a c st"
  shows "\<exists>c' st'. unnegate c st = Some (c', st') \<and> cok a c' st' \<and> frame a st st' \<and> \<not> is_neg (body c') \<and>
    slots (body c') = slots (body c) \<and> same_head c c' \<and> cs c' = cs c"
proof (cases "is_neg (body c)")
  case False
  with assms have "unnegate c st = Some (c, st)" by (simp add: unnegate_def cok_def cent_ok_def)
  with False assms show ?thesis by simp
next
  case True
  then obtain l ttl ts where b: "body c = Neg l ttl ts" by (cases "body c") auto
  have c: "cent_ok c" using assms by (rule cok_cent_ok)
  have neg: "has (ce_flags c) DF_NEGATIVE" using True c by (simp add: cent_ok_def)
  let ?st = "unlink (a, -1) st"
  let ?c = "c\<lparr>ce_flags := ce_flags c AND NOT DF_NEGATIVE, body := Recs (replicate NRRMU None) None\<rparr>"
  have r: "(case l of None \<Rightarrow> Some st | Some le \<Rightarrow> remove_rrl le st) = Some ?st"
  proof (cases l)
    case None
    then have "(a, -1) \<notin> lents_of a c" using b by (auto simp: lents_of_def)
    then have "(a, -1) \<notin> set (rrset_l st)" using assms by (auto simp: cok_def mine_def)
    then have "filter (\<lambda>x. x \<noteq> (a, -1)) (rrset_l st) = rrset_l st" by (auto intro: filter_True)
    with None show ?thesis by simp
  next
    case (Some le)
    with assms b have "le = (a, -1)" by (simp add: cok_def ptr_ok_def)
    with Some b have "le = (a, -1)" "le \<in> lents_of a c" by (auto simp: lents_of_def)
    with Some remove_rrl_mine [OF assms] show ?thesis by simp
  qed
  have sl: "slots (body ?c) = slots (body c)" by (simp add: b nrr_defs flip: replicate_add)
  have "cent_ok ?c"
    using c b by (simp add: cent_ok_def has_cleared ext_size_def nrr_defs flip: replicate_add)
  moreover have "lents_of a ?c = {}"
    by (simp add: lents_of_recs linked_def nrr_defs flip: replicate_add)
  moreover have "mine a (rrset_l ?st) = {}"
  proof -
    have "mine a (rrset_l st) \<subseteq> {(a, -1)}"
      using assms b by (auto simp: cok_def lents_of_def split: option.splits)
    then show ?thesis by (auto simp: mine_def)
  qed
  moreover have "ptr_ok a ?c" by (rule ptr_okI) (simp_all add: nrr_defs flip: replicate_add)
  ultimately have "cok a ?c ?st" using assms by (simp add: cok_def)
  moreover have "unnegate c st = Some (?c, ?st)" using neg b r by (simp add: unnegate_def)
  moreover have "same_head c ?c" by simp
  ultimately show ?thesis using sl by (intro exI [of _ ?c] exI [of _ ?st]) simp
qed

lemma need_ext_spec:
  assumes "cok a c st" and "\<not> is_neg (body c)" and "idx < NRRTOT"
  shows "\<exists>ok c' st'. need_ext c idx st = Some (ok, c', st') \<and> cok a c' st' \<and> frame a st st' \<and> \<not> is_neg (body c') \<and>
    slots (body c') = slots (body c) \<and> same_head c c' \<and> (ok \<longrightarrow> idx < ilim c') \<and> (mem st = [] \<longrightarrow> ok)"
proof -
  from assms(2) obtain mu ext where b: "body c = Recs mu ext" by (cases "body c") auto
  show ?thesis
  proof (cases "idx < NRRMU \<or> ext \<noteq> None")
    case True
    with b have "need_ext c idx st = Some (True, c, st)"
      using assms(3) by (cases ext) (auto simp: need_ext_def nrr_defs)
    moreover have "idx < ilim c" using True b assms(3) by (auto simp: ilim_def nrr_defs)
    ultimately show ?thesis using assms by simp
  next
    case False
    then have idx: "\<not> idx < NRRMU" "ext = None" "idx - NRRMU < NRREXT" using assms(3) by (auto simp: nrr_defs)
    obtain ok st1 where m: "malloc st = (ok, st1)" by (cases "malloc st")
    from malloc_cok [OF m] have f: "frame a st st1" "cok a c st1" "mem st = [] \<longrightarrow> ok" using assms(1) by auto
    show ?thesis
    proof (cases ok)
      case False
      with m idx b have "need_ext c idx st = Some (False, c, st1)" by (simp add: need_ext_def)
      with f assms(2) False show ?thesis by simp
    next
      case True
      let ?c = "c\<lparr>body := Recs mu (Some (replicate NRREXT None)), cs := cs c + sizeof_rrext\<rparr>"
      from True m idx b have e: "need_ext c idx st = Some (True, ?c, st1)" by (simp add: need_ext_def)
      have sl: "slots (body ?c) = slots (body c)" using b idx by simp
      have "cent_ok ?c" using assms(1,2) b idx by (simp add: cok_def cent_ok_def ext_size_def)
      then have "cok a ?c st1" using sl assms(2) by (intro cok_same_slots [OF f(2)]) simp_all
      moreover have "idx < ilim ?c" using assms(3) by (simp add: ilim_def)
      ultimately show ?thesis using e sl f(1) by simp
    qed
  qed
qed

definition fresh_set :: "int \<Rightarrow> int \<Rightarrow> flags \<Rightarrow> rr_set" where
  "fresh_set ttl ts fl = \<lparr>rs_lent = None, rs_ttl = ttl, rs_ts = ts, rs_flags = fl, rs_rrs = []\<rparr>"

lemma add_cent_rrset_spec:
  assumes "cok a c st" and "i < NRRTOT" and "slot c i = None"
  shows "\<exists>ok c' st'. add_cent_rrset_by_index c i ttl ts fl st = Some (ok, c', st') \<and> cok a c' st' \<and>
    frame a st st' \<and> \<not> is_neg (body c') \<and> same_head c c' \<and>
    slots (body c') = (if ok then (slots (body c))[i := Some (fresh_set ttl ts fl)] else slots (body c)) \<and>
    (ok \<longrightarrow> i < ilim c') \<and> (mem st = [] \<longrightarrow> ok)"
proof -
  from unnegate_spec [OF assms(1)] obtain c1 st1 where u: "unnegate c st = Some (c1, st1)" "cok a c1 st1"
    "frame a st st1" "\<not> is_neg (body c1)" "slots (body c1) = slots (body c)" "same_head c c1" by blast
  from need_ext_spec [OF u(2,4) assms(2)] obtain ok c2 st2 where n: "need_ext c1 i st1 = Some (ok, c2, st2)"
    "cok a c2 st2" "frame a st1 st2" "\<not> is_neg (body c2)" "slots (body c2) = slots (body c1)" "same_head c1 c2"
    "ok \<longrightarrow> i < ilim c2" "mem st1 = [] \<longrightarrow> ok" by blast
  note f12 = frame_trans [OF u(3) n(3)] and h12 = same_head_trans [OF u(6) n(6)]
  have nf1: "mem st = [] \<longrightarrow> ok" using frame_no_failure [OF u(3)] n(8) by blast
  show ?thesis
  proof (cases ok)
    case False
    with u n have "add_cent_rrset_by_index c i ttl ts fl st = Some (False, c2, st2)"
      by (simp add: add_cent_rrset_by_index_def)
    with u n f12 h12 nf1 False show ?thesis by simp
  next
    case True
    then have i: "i < ilim c2" using n(7) by simp
    have c2: "cent_ok c2" "body_ok (body c2)" using n(2) by (simp_all add: cok_def cent_ok_def)
    have none: "slot c2 i = None" using n(5) u(5) assms(3) by simp
    obtain ok' st3 where m: "malloc st2 = (ok', st3)" by (cases "malloc st2")
    from malloc_cok [OF m] have f: "frame a st2 st3" "cok a c2 st3" "mem st2 = [] \<longrightarrow> ok'" using n(2) by auto
    note f13 = frame_trans [OF f12 f(1)]
    have nf: "mem st = [] \<longrightarrow> ok'" using frame_no_failure [OF f12] f(3) by blast
    show ?thesis
    proof (cases ok')
      case False
      let ?c = "c2\<lparr>body := body_upd (body c2) i None\<rparr>"
      have e: "add_cent_rrset_by_index c i ttl ts fl st = Some (False, ?c, st3)"
        using u n True m False set_slot_upd [OF c2(2) i] by (simp add: add_cent_rrset_by_index_def)
      note up = ilim_upd(1-4) [OF c2(2) i, of None]
      have sl: "slots (body ?c) = slots (body c2)" using up none by (simp, metis list_update_id)
      have "cent_ok (c2\<lparr>body := body_upd (body c2) i None, num_rrs := num_rrs c2, cs := cs c2, ce_flags := ce_flags c2\<rparr>)"
        using none by (intro cent_ok_upd [OF c2(1) i]) (simp_all add: slot_size_def)
      then have "cok a ?c st3" using sl up n(4) by (intro cok_same_slots [OF f(2)]) simp_all
      with e sl up n u f13 h12 nf False show ?thesis by simp
    next
      case ok': True
      let ?s = "fresh_set ttl ts fl"
      let ?c = "c2\<lparr>body := body_upd (body c2) i (Some ?s), num_rrs := num_rrs c2 + 1, cs := cs c2 + sizeof_rr_set\<rparr>"
      have e: "add_cent_rrset_by_index c i ttl ts fl st = Some (True, ?c, st3)"
        using u n True m ok' set_slot_upd [OF c2(2) i] by (simp add: add_cent_rrset_by_index_def fresh_set_def)
      note up = ilim_upd(1-4) [OF c2(2) i, of "Some ?s"]
      have "cent_ok (c2\<lparr>body := body_upd (body c2) i (Some ?s), num_rrs := num_rrs c2 + 1, cs := cs c2 + sizeof_rr_set, ce_flags := ce_flags c2\<rparr>)"
        using none by (intro cent_ok_upd [OF c2(1) i]) (simp_all add: slot_size_def rr_set_size_def fresh_set_def)
      then have "cok a ?c st3"
        using up n(4) none assms(2) f(2)
        by (intro cok_same_links [OF f(2), where v = "Some ?s" and i = i]) (simp_all add: linked_def fresh_set_def)
      moreover have "i < ilim ?c" using i up n(4) by (simp add: ilim_def)
      ultimately show ?thesis using e up n u f13 h12 by simp
    qed
  qed
qed

subsection \<open>Adding records\<close>

text \<open>The place where \<open>add_cent_rr_int\<close> links the new record.\<close>

definition link_rr :: "bytes \<Rightarrow> nat option \<Rightarrow> bytes list \<Rightarrow> bytes list" where
  "link_rr data rtail rrs = (case rtail of None \<Rightarrow> data # rrs
     | Some k \<Rightarrow> take (k + 1) rrs @ data # drop (k + 1) rrs)"

definition next_tail :: "nat option \<Rightarrow> nat" where
  "next_tail rtail = (case rtail of None \<Rightarrow> 0 | Some k \<Rightarrow> k + 1)"

lemma rr_set_size_link: "rr_set_size (s\<lparr>rs_rrs := link_rr data rtail (rs_rrs s)\<rparr>) =
    rr_set_size s + (sizeof_rr_bucket + int (length data))"
proof (cases rtail)
  case None
  then show ?thesis by (simp add: rr_set_size_def link_rr_def)
next
  case (Some k)
  have "sum_list (map f xs) = sum_list (map f (take n xs)) + sum_list (map f (drop n xs))"
    for f :: "bytes \<Rightarrow> int" and n xs
    by (metis append_take_drop_id map_append sum_list.append)
  then show ?thesis using Some by (simp add: rr_set_size_def link_rr_def)
qed

text \<open>Writing back a set with other records, the counter of bytes adapted.\<close>

lemma cok_change_rrs:
  assumes "cok a c st" and "i < NRRTOT" and "slot c i = Some s"
  shows "\<exists>c'. set_slot c i (Some (s\<lparr>rs_rrs := rrs\<rparr>)) = Some c' \<and>
    cok a (c'\<lparr>cs := cs c' + (rr_set_size (s\<lparr>rs_rrs := rrs\<rparr>) - rr_set_size s)\<rparr>) st \<and>
    slots (body c') = (slots (body c))[i := Some (s\<lparr>rs_rrs := rrs\<rparr>)] \<and> same_head c c' \<and>
    \<not> is_neg (body c') \<and> ilim c' = ilim c"
proof -
  have c: "cent_ok c" "body_ok (body c)" using assms(1) by (simp_all add: cok_def cent_ok_def)
  have i: "i < ilim c" using slot_some_ilim [OF c(1) assms(2)] assms(3) by simp
  let ?v = "Some (s\<lparr>rs_rrs := rrs\<rparr>)"
  let ?c = "c\<lparr>body := body_upd (body c) i ?v\<rparr>"
  let ?c' = "?c\<lparr>cs := cs ?c + (rr_set_size (s\<lparr>rs_rrs := rrs\<rparr>) - rr_set_size s)\<rparr>"
  note up = ilim_upd(1-4) [OF c(2) i, of ?v] ilim_upd(5) [OF c(2) i]
  have "cent_ok (c\<lparr>body := body_upd (body c) i ?v, num_rrs := num_rrs c, cs := cs ?c', ce_flags := ce_flags c\<rparr>)"
    using assms(3) by (intro cent_ok_upd [OF c(1) i]) (simp_all add: slot_size_def)
  then have "cok a ?c' st"
    using up assms ptr_okD [of a c i s]
    by (intro cok_same_links [OF assms(1), where v = ?v and i = i]) (simp_all add: linked_def cok_def)
  then show ?thesis using set_slot_upd [OF c(2) i, of ?v] up by (simp add: ilim_def)
qed

lemma add_cent_rr_int_spec:
  assumes "cok a c st" and "i < NRRTOT"
    and "case rtail of None \<Rightarrow> True | Some k \<Rightarrow> (\<exists>s. slot c i = Some s \<and> k < length (rs_rrs s))"
  shows "\<exists>ok c' rt st'. add_cent_rr_int c i ttl ts fl data rtail st = Some (ok, c', rt, st') \<and> cok a c' st' \<and>
    frame a st st' \<and> same_head c c' \<and>
    (if ok then (let s = (case slot c i of None \<Rightarrow> fresh_set ttl ts fl | Some s \<Rightarrow> s) in
        slots (body c') = (slots (body c))[i := Some (s\<lparr>rs_rrs := link_rr data rtail (rs_rrs s)\<rparr>)] \<and>
        rt = Some (next_tail rtail))
     else slots (body c') = slots (body c)) \<and> (mem st = [] \<longrightarrow> ok) \<and> (c' = c \<or> \<not> is_neg (body c'))"
proof -
  have c: "cent_ok c" using assms(1) by (rule cok_cent_ok)
  obtain ok st1 where m: "malloc st = (ok, st1)" by (cases "malloc st")
  from malloc_cok [OF m] have f: "frame a st st1" "cok a c st1" "mem st = [] \<longrightarrow> ok" using assms(1) by auto
  show ?thesis
  proof (cases ok)
    case False
    with m have "add_cent_rr_int c i ttl ts fl data rtail st = Some (False, c, rtail, st1)"
      by (simp add: add_cent_rr_int_def)
    with f False show ?thesis by simp
  next
    case ok: True
    show ?thesis
    proof (cases rtail)
      case (Some k)
      with assms(3) obtain s where s: "slot c i = Some s" "k < length (rs_rrs s)" by auto
      have i: "i < ilim c" using slot_some_ilim [OF c assms(2)] s(1) by simp
      let ?rrs = "link_rr data rtail (rs_rrs s)"
      from cok_change_rrs [OF f(2) assms(2) s(1), of ?rrs] obtain c' where c':
        "set_slot c i (Some (s\<lparr>rs_rrs := ?rrs\<rparr>)) = Some c'"
        "cok a (c'\<lparr>cs := cs c' + (rr_set_size (s\<lparr>rs_rrs := ?rrs\<rparr>) - rr_set_size s)\<rparr>) st1"
        "slots (body c') = (slots (body c))[i := Some (s\<lparr>rs_rrs := ?rrs\<rparr>)]" "same_head c c'" "\<not> is_neg (body c')" by blast
      have "add_cent_rr_int c i ttl ts fl data rtail st =
          Some (True, c'\<lparr>cs := cs c' + (sizeof_rr_bucket + int (length data))\<rparr>, Some (k + 1), st1)"
        using m ok Some s c i c'(1) by (simp add: add_cent_rr_int_def link_rr_def)
      with c' f(1) s Some show ?thesis by (simp add: rr_set_size_link next_tail_def)
    next
      case None
      obtain ok' c1 st2 where a: "(if slot c i = None then add_cent_rrset_by_index c i ttl ts fl st1 else Some (True, c, st1)) =
          Some (ok', c1, st2)" "cok a c1 st2" "frame a st1 st2" "same_head c c1"
        "slots (body c1) = (if ok' \<and> slot c i = None then (slots (body c))[i := Some (fresh_set ttl ts fl)] else slots (body c))"
        "mem st1 = [] \<longrightarrow> ok'" "c1 = c \<or> \<not> is_neg (body c1)"
      proof (cases "slot c i = None")
        case True
        from add_cent_rrset_spec [OF f(2) assms(2) True, of ttl ts fl] True that show ?thesis by fastforce
      next
        case False
        with f(2) that [of True c st1] show ?thesis by simp
      qed
      note f2 = frame_trans [OF f(1) a(3)]
      have nf: "mem st = [] \<longrightarrow> ok'" using frame_no_failure [OF f(1)] a(6) by blast
      show ?thesis
      proof (cases ok')
        case False
        with m ok None a(1) c assms(2) have "add_cent_rr_int c i ttl ts fl data rtail st = Some (False, c1, rtail, st2)"
          by (simp add: add_cent_rr_int_def)
        with a(2-5,7) f2 False nf show ?thesis by simp
      next
        case True
        let ?s = "case slot c i of None \<Rightarrow> fresh_set ttl ts fl | Some s \<Rightarrow> s"
        have s1: "slot c1 i = Some ?s" using a(5) True c assms(2) by (auto split: option.splits)
        have i1: "i < ilim c1" using slot_some_ilim [OF cok_cent_ok [OF a(2)] assms(2)] s1 by simp
        let ?rrs = "link_rr data None (rs_rrs ?s)"
        from cok_change_rrs [OF a(2) assms(2) s1, of ?rrs] obtain c' where c':
          "set_slot c1 i (Some (?s\<lparr>rs_rrs := ?rrs\<rparr>)) = Some c'"
          "cok a (c'\<lparr>cs := cs c' + (rr_set_size (?s\<lparr>rs_rrs := ?rrs\<rparr>) - rr_set_size ?s)\<rparr>) st2"
          "slots (body c') = (slots (body c1))[i := Some (?s\<lparr>rs_rrs := ?rrs\<rparr>)]" "same_head c1 c'" "\<not> is_neg (body c')" by blast
        have "add_cent_rr_int c i ttl ts fl data rtail st =
            Some (True, c'\<lparr>cs := cs c' + (sizeof_rr_bucket + int (length data))\<rparr>, Some 0, st2)"
          using m ok None a(1) True s1 c assms(2) cok_cent_ok [OF a(2)] i1 c'(1)
          by (simp add: add_cent_rr_int_def link_rr_def)
        moreover have "slots (body c') = (slots (body c))[i := Some (?s\<lparr>rs_rrs := ?rrs\<rparr>)]"
          using c'(3) a(5) True by simp
        ultimately show ?thesis using c'(2,5) same_head_trans [OF a(4) c'(4)] f2 None
          by (simp add: rr_set_size_link next_tail_def Let_def)
      qed
    qed
  qed
qed

text \<open>The loop of \<open>add_cache\<close> over the records of a set appends them in order.\<close>

lemma add_rrs_spec:
  assumes "cok a c st" and "i < NRRTOT" and "slot c i = Some s0"
    and "rtail = (if rs_rrs s0 = [] then None else Some (length (rs_rrs s0) - 1))"
  shows "\<exists>ok c' st'. add_rrs rrs i s rtail c st = Some (ok, c', st') \<and> cok a c' st' \<and> frame a st st' \<and> same_head c c' \<and>
    (\<exists>done. slots (body c') = (slots (body c))[i := Some (s0\<lparr>rs_rrs := rs_rrs s0 @ done\<rparr>)] \<and> (ok \<longrightarrow> done = rrs)) \<and>
    (mem st = [] \<longrightarrow> ok)"
  using assms
proof (induction rrs arbitrary: c st s0 rtail)
  case Nil
  have "slots (body c) = (slots (body c))[i := Some (s0\<lparr>rs_rrs := rs_rrs s0 @ []\<rparr>)]"
    using Nil.prems(3) by (metis append_Nil2 list_update_id rr_set.surjective rr_set.update_convs(5))
  with Nil show ?case by (auto intro!: exI [of _ "[]"])
next
  case (Cons rr rrs)
  have pre: "case rtail of None \<Rightarrow> True | Some k \<Rightarrow> (\<exists>s. slot c i = Some s \<and> k < length (rs_rrs s))"
    using Cons.prems(3,4) by simp
  from add_cent_rr_int_spec [OF Cons.prems(1,2) pre, of "rs_ttl s" "rs_ts s" "rs_flags s" rr] obtain ok c1 rt st1 where
    a: "add_cent_rr_int c i (rs_ttl s) (rs_ts s) (rs_flags s) rr rtail st = Some (ok, c1, rt, st1)"
      "cok a c1 st1" "frame a st st1" "same_head c c1"
      "if ok then slots (body c1) = (slots (body c))[i := Some (s0\<lparr>rs_rrs := link_rr rr rtail (rs_rrs s0)\<rparr>)] \<and>
         rt = Some (next_tail rtail) else slots (body c1) = slots (body c)"
      "mem st = [] \<longrightarrow> ok"
    unfolding Cons.prems(3) option.case Let_def by blast
  show ?case
  proof (cases ok)
    case False
    have "slots (body c1) = (slots (body c))[i := Some (s0\<lparr>rs_rrs := rs_rrs s0 @ []\<rparr>)]"
      using a(5) False Cons.prems(3) by (simp, metis list_update_id rr_set.surjective rr_set.update_convs(5))
    with a False show ?thesis by (auto intro!: exI [of _ "[]"])
  next
    case True
    have l: "link_rr rr rtail (rs_rrs s0) = rs_rrs s0 @ [rr]" "next_tail rtail = length (rs_rrs s0)"
      using Cons.prems(4) by (auto simp: link_rr_def next_tail_def)
    let ?s1 = "s0\<lparr>rs_rrs := rs_rrs s0 @ [rr]\<rparr>"
    have c: "length (slots (body c)) = NRRTOT" using Cons.prems(1) by (simp add: cok_def)
    have s1: "slot c1 i = Some ?s1" using a(5) True l(1) c Cons.prems(2) by simp
    have rt: "rt = (if rs_rrs ?s1 = [] then None else Some (length (rs_rrs ?s1) - 1))" using a(5) True l(2) by simp
    from Cons.IH [OF a(2) Cons.prems(2) s1 rt] obtain ok' c' st' where IH:
      "add_rrs rrs i s rt c1 st1 = Some (ok', c', st')" "cok a c' st'" "frame a st1 st'" "same_head c1 c'"
      "\<exists>done. slots (body c') = (slots (body c1))[i := Some (?s1\<lparr>rs_rrs := rs_rrs ?s1 @ done\<rparr>)] \<and> (ok' \<longrightarrow> done = rrs)"
      "mem st1 = [] \<longrightarrow> ok'" by blast
    have nf: "mem st = [] \<longrightarrow> ok'" using frame_no_failure [OF a(3)] IH(6) by blast
    from IH(5) obtain dn where "slots (body c') = (slots (body c))[i := Some (s0\<lparr>rs_rrs := rs_rrs s0 @ rr # dn\<rparr>)]"
      "ok' \<longrightarrow> dn = rrs" using a(5) True l(1) by auto
    moreover have "add_rrs (rr # rrs) i s rtail c st = Some (ok', c', st')" using a(1) True IH(1) by simp
    ultimately show ?thesis using IH(2) frame_trans [OF a(3) IH(3)] same_head_trans [OF a(4) IH(4)] nf by blast
  qed
qed

subsection \<open>Freeing an entry\<close>

lemma del_rrsets_spec:
  assumes "distinct (rrset_l st)"
    and "\<And>j s. j < length ss \<Longrightarrow> ss ! j = Some s \<Longrightarrow>
      rs_lent s = (if (a, int (k + j)) \<in> set (rrset_l st) then Some (a, int (k + j)) else None)"
    and "\<And>j. j < length ss \<Longrightarrow> ss ! j = None \<Longrightarrow> (a, int (k + j)) \<notin> set (rrset_l st)"
  shows "del_rrsets ss st = Some (sets_size ss,
    st\<lparr>rrset_l := filter (\<lambda>le. \<not> (fst le = a \<and> (\<exists>j < length ss. snd le = int (k + j)))) (rrset_l st)\<rparr>)"
  using assms
proof (induction ss arbitrary: k st)
  case Nil
  then show ?case by simp
next
  case (Cons x ss)
  have shift: "(\<exists>j < length (x # ss). snd le = int (k + j)) \<longleftrightarrow> snd le = int k \<or> (\<exists>j < length ss. snd le = int (Suc k + j))" for le :: lent
    by (simp only: length_Cons Ex_less_Suc2) simp
  let ?st = "unlink (a, int k) st"
  have IH: "del_rrsets ss ?st = Some (sets_size ss,
      ?st\<lparr>rrset_l := filter (\<lambda>le. \<not> (fst le = a \<and> (\<exists>j < length ss. snd le = int (Suc k + j)))) (rrset_l ?st)\<rparr>)"
  proof (rule Cons.IH)
    show "distinct (rrset_l ?st)" using Cons.prems(1) by simp
  next
    fix j s assume "j < length ss" "ss ! j = Some s"
    with Cons.prems(2) [of "Suc j" s]
    show "rs_lent s = (if (a, int (Suc k + j)) \<in> set (rrset_l ?st) then Some (a, int (Suc k + j)) else None)" by simp
  next
    fix j assume "j < length ss" "ss ! j = None"
    with Cons.prems(3) [of "Suc j"] show "(a, int (Suc k + j)) \<notin> set (rrset_l ?st)" by simp
  qed
  have all: "filter (\<lambda>le. \<not> (fst le = a \<and> (\<exists>j < length ss. snd le = int (Suc k + j)))) (rrset_l ?st) =
      filter (\<lambda>le. \<not> (fst le = a \<and> (\<exists>j < length (x # ss). snd le = int (k + j)))) (rrset_l st)"
  proof -
    have l: "rrset_l ?st = filter (\<lambda>x. x \<noteq> (a, int k)) (rrset_l st)" by simp
    show ?thesis
      unfolding l filter_filter shift by (rule filter_cong [OF refl]) (auto simp: prod_eq_iff)
  qed
  show ?case
  proof (cases x)
    case None
    then have "(a, int k) \<notin> set (rrset_l st)" using Cons.prems(3) [of 0] by simp
    then have "filter (\<lambda>x. x \<noteq> (a, int k)) (rrset_l st) = rrset_l st" by (auto intro: filter_True)
    with IH all None show ?thesis by (simp add: slot_size_def)
  next
    case (Some s)
    have "del_rrset s st = Some (rr_set_size s, ?st)"
    proof (cases "(a, int k) \<in> set (rrset_l st)")
      case True
      then have "rs_lent s = Some (a, int k)" using Cons.prems(2) [of 0 s] Some by simp
      with True Cons.prems(1) show ?thesis
        by (simp add: del_rrset_def remove_rrl_def distinct_remove1_removeAll removeAll_filter_not_eq eq_commute [of "(a, int k)"])
    next
      case False
      then have "filter (\<lambda>x. x \<noteq> (a, int k)) (rrset_l st) = rrset_l st" by (auto intro: filter_True)
      with False Cons.prems(2) [of 0 s] Some show ?thesis by (simp add: del_rrset_def)
    qed
    with IH all Some show ?thesis by (simp add: slot_size_def)
  qed
qed

lemma cok_lent:
  assumes "cok a c st" and "i < NRRTOT" and "slot c i = Some s"
  shows "rs_lent s = (if (a, int i) \<in> set (rrset_l st) then Some (a, int i) else None)"
proof -
  have "(a, int i) \<in> set (rrset_l st) \<longleftrightarrow> linked (slot c i)"
    using assms(1,2) lents_of_iff [of i a c] by (auto simp: cok_def mine_def)
  then show ?thesis using assms ptr_okD [of a c i s] by (cases "rs_lent s") (auto simp: linked_def cok_def)
qed

lemma cok_unlinked_slot:
  "cok a c st \<Longrightarrow> i < NRRTOT \<Longrightarrow> slot c i = None \<Longrightarrow> (a, int i) \<notin> set (rrset_l st)"
  using lents_of_iff [of i a c] by (auto simp: cok_def mine_def linked_def)

lemma free_cent_spec:
  assumes "cok a c st"
  shows "free_cent c st = Some (st\<lparr>rrset_l := others a (rrset_l st)\<rparr>)"
proof (cases "body c")
  case (Neg l ttl ts)
  have n: "has (ce_flags c) DF_NEGATIVE" using assms Neg by (simp add: cok_def cent_ok_def)
  have m: "mine a (rrset_l st) = (case l of None \<Rightarrow> {} | Some le \<Rightarrow> {(a, -1)})"
    using assms Neg by (auto simp: cok_def lents_of_def split: option.splits)
  show ?thesis
  proof (cases l)
    case None
    with m have "others a (rrset_l st) = rrset_l st" by (auto simp: others_def mine_def intro: filter_True)
    with n Neg None show ?thesis by (simp add: free_cent_def)
  next
    case (Some le)
    with assms Neg have le: "le = (a, -1)" by (simp add: cok_def ptr_ok_def)
    have "le \<in> lents_of a c" using Neg Some le by (simp add: lents_of_def)
    from remove_rrl_mine [OF assms this] have "remove_rrl le st = Some (unlink le st)" .
    moreover have "filter (\<lambda>x. x \<noteq> le) (rrset_l st) = others a (rrset_l st)"
      using m Some le unfolding others_def mine_def by (intro filter_cong) auto
    ultimately show ?thesis using n Neg Some by (simp add: free_cent_def)
  qed
next
  case (Recs mu ext)
  have n: "\<not> has (ce_flags c) DF_NEGATIVE" using assms Recs by (simp add: cok_def cent_ok_def)
  let ?e = "case ext of None \<Rightarrow> [] | Some e \<Rightarrow> e"
  let ?l = "rrset_l st"
  have b: "length mu = NRRMU" "length ?e = (if ext = None then 0 else NRREXT)"
    using assms Recs by (auto simp: cok_def cent_ok_def split: option.splits)
  have mu: "slot c j = mu ! j" if "j < NRRMU" for j using that b(1) Recs by (simp add: nth_append)
  have e: "slot c (NRRMU + j) = ?e ! j" if "j < length ?e" for j
    using that b(1) Recs by (auto simp: nth_append split: option.splits)
  have lt: "j < NRRMU \<Longrightarrow> j < NRRTOT" "j < length ?e \<Longrightarrow> NRRMU + j < NRRTOT" for j
    using b(2) by (auto simp: nrr_defs split: if_splits)
  let ?st1 = "st\<lparr>rrset_l := filter (\<lambda>le. \<not> (fst le = a \<and> (\<exists>j < length mu. snd le = int (0 + j)))) ?l\<rparr>"
  have d: "distinct ?l" using assms by (simp add: cok_def)
  have d1: "del_rrsets mu st = Some (sets_size mu, ?st1)"
  proof (rule del_rrsets_spec [OF d])
    fix j s assume "j < length mu" "mu ! j = Some s"
    then show "rs_lent s = (if (a, int (0 + j)) \<in> set ?l then Some (a, int (0 + j)) else None)"
      using cok_lent [OF assms lt(1)] mu b(1) by simp
  next
    fix j assume "j < length mu" "mu ! j = None"
    then show "(a, int (0 + j)) \<notin> set ?l" using cok_unlinked_slot [OF assms lt(1)] mu b(1) by simp
  qed
  have l1: "rrset_l ?st1 = filter (\<lambda>le. \<not> (fst le = a \<and> (\<exists>j < length mu. snd le = int (0 + j)))) ?l" by simp
  have keep: "(a, int (NRRMU + j)) \<in> set (rrset_l ?st1) \<longleftrightarrow> (a, int (NRRMU + j)) \<in> set ?l" for j
    using b(1) by auto
  have d2: "del_rrsets ?e ?st1 = Some (sets_size ?e,
      ?st1\<lparr>rrset_l := filter (\<lambda>le. \<not> (fst le = a \<and> (\<exists>j < length ?e. snd le = int (NRRMU + j)))) (rrset_l ?st1)\<rparr>)"
  proof (rule del_rrsets_spec)
    show "distinct (rrset_l ?st1)" using d by simp
  next
    fix j s assume "j < length ?e" "?e ! j = Some s"
    then show "rs_lent s = (if (a, int (NRRMU + j)) \<in> set (rrset_l ?st1) then Some (a, int (NRRMU + j)) else None)"
      unfolding keep using cok_lent [OF assms lt(2)] e by simp
  next
    fix j assume "j < length ?e" "?e ! j = None"
    then show "(a, int (NRRMU + j)) \<notin> set (rrset_l ?st1)"
      unfolding keep using cok_unlinked_slot [OF assms lt(2)] e by simp
  qed
  have "filter (\<lambda>le. \<not> (fst le = a \<and> (\<exists>j < length ?e. snd le = int (NRRMU + j)))) (rrset_l ?st1) = others a ?l"
    unfolding others_def l1 filter_filter
  proof (rule filter_cong [OF refl])
    fix le assume le: "le \<in> set ?l"
    have "fst le = a \<Longrightarrow> (\<exists>j < length mu. snd le = int (0 + j)) \<or> (\<exists>j < length ?e. snd le = int (NRRMU + j))"
    proof -
      assume fle: "fst le = a"
      with le assms have "le \<in> lents_of a c" by (simp add: cok_def mine_def)
      with Recs obtain i s where i: "le = (a, int i)" "i < NRRTOT" "slot c i = Some s" by (auto simp: lents_of_def)
      show ?thesis
      proof (cases "i < NRRMU")
        case True
        with i b(1) show ?thesis by auto
      next
        case False
        with i Recs b have "ext \<noteq> None" "i - NRRMU < NRREXT"
          by (auto simp: nth_append nrr_defs split: option.splits)
        with b(2) i(1) False show ?thesis by (intro disjI2 exI [of _ "i - NRRMU"]) auto
      qed
    qed
    then show "(\<not> (fst le = a \<and> (\<exists>j < length mu. snd le = int (0 + j)))) \<and>
        \<not> (fst le = a \<and> (\<exists>j < length ?e. snd le = int (NRRMU + j))) \<longleftrightarrow> fst le \<noteq> a" by blast
  qed
  with d1 d2 n Recs show ?thesis by (simp add: free_cent_def)
qed

subsection \<open>Entries outside the cache: creation and copies\<close>

definition detached :: "dns_cent \<Rightarrow> bool" where
  "detached c \<longleftrightarrow> (\<forall>a. lents_of a c = {})"

fun detach_body :: "cent_body \<Rightarrow> cent_body" where
  "detach_body (Neg l ttl ts) = Neg None ttl ts"
| "detach_body (Recs mu ext) = Recs (map (map_option (rs_lent_update (\<lambda>l. None))) mu)
     (map_option (map (map_option (rs_lent_update (\<lambda>l. None)))) ext)"

definition detach :: "dns_cent \<Rightarrow> dns_cent" where
  "detach c = c\<lparr>body := detach_body (body c)\<rparr>"

lemma slots_detach: "slots (detach_body b) = map (map_option (rs_lent_update (\<lambda>l. None))) (slots b)"
  by (cases b) (auto split: option.splits)

lemma sets_detach [simp]:
  "sets_count (map (map_option (rs_lent_update f)) ss) = sets_count ss"
  "sets_size (map (map_option (rs_lent_update f)) ss) = sets_size ss"
  by (induction ss) (auto simp: slot_size_def rr_set_size_def split: option.splits)

lemma detach_simps [simp]:
  "is_neg (detach_body b) = is_neg b" "has_ext (detach_body b) = has_ext b" "body_ok (detach_body b) = body_ok b"
  by (cases b; auto split: option.splits)+

lemma cent_ok_detach: "cent_ok c \<Longrightarrow> cent_ok (detach c)"
  by (simp add: cent_ok_def detach_def slots_detach ext_size_def)

lemma detached_iff: "body_ok (body c) \<Longrightarrow> detached c \<longleftrightarrow> (\<forall>i < NRRTOT. \<not> linked (slot c i)) \<and>
    (\<forall>l ttl ts. body c = Neg l ttl ts \<longrightarrow> l = None)"
proof (cases "body c")
  case (Neg l ttl ts)
  then show ?thesis
    by (cases l) (auto simp: detached_def lents_of_def linked_def)
next
  case (Recs mu ext)
  then show ?thesis using lents_of_recs [of c] by (auto simp: detached_def)
qed

lemma detached_detach: "body_ok (body c) \<Longrightarrow> detached (detach c)"
  by (subst detached_iff)
    (auto simp: detach_def slots_detach length_slots linked_def not_None_eq elim!: detach_body.elims)

lemma detached_cok:
  assumes "cent_ok c" and "detached c" and "distinct (rrset_l st)" and "mine a (rrset_l st) = {}"
  shows "cok a c st"
proof -
  have "lents_of a c = {}" using assms(2) by (simp add: detached_def)
  moreover have "ptr_ok a c"
  proof -
    have "body_ok (body c)" using assms(1) by (simp add: cent_ok_def)
    with assms(2) have "(\<forall>i < NRRTOT. \<not> linked (slot c i)) \<and> (\<forall>l ttl ts. body c = Neg l ttl ts \<longrightarrow> l = None)"
      by (simp add: detached_iff)
    then show ?thesis by (force simp: ptr_ok_def linked_def)
  qed
  ultimately show ?thesis using assms(1,3,4) by (simp add: cok_def)
qed

text \<open>An allocation, in the form the operations below use it.\<close>

lemma malloc_step: "\<exists>ok m. malloc st = (ok, st\<lparr>mem := m\<rparr>) \<and> (mem st = [] \<longrightarrow> ok \<and> m = [])"
proof (cases "mem st")
  case Nil
  then have "malloc st = (True, st\<lparr>mem := []\<rparr>)" by (simp add: malloc_def)
  then show ?thesis by blast
next
  case (Cons b bs)
  then have "malloc st = (b, st\<lparr>mem := bs\<rparr>)" "mem st \<noteq> []" by (simp_all add: malloc_def)
  then show ?thesis by blast
qed

lemma mem_mem [simp]: "mem (st\<lparr>mem := m\<rparr>) = m"
  by simp

lemma copy_rrs_mem: "\<exists>ok m. copy_rrs rrs st = (ok, st\<lparr>mem := m\<rparr>) \<and> (mem st = [] \<longrightarrow> ok \<and> m = [])"
proof (induction rrs arbitrary: st)
  case Nil
  have "copy_rrs [] st = (True, st\<lparr>mem := mem st\<rparr>)" by simp
  then show ?case by blast
next
  case (Cons rr rrs)
  obtain ok m where m: "malloc st = (ok, st\<lparr>mem := m\<rparr>)" "mem st = [] \<longrightarrow> ok \<and> m = []" using malloc_step by blast
  from Cons.IH [of "st\<lparr>mem := m\<rparr>"] obtain ok' m' where
    m': "copy_rrs rrs (st\<lparr>mem := m\<rparr>) = (ok', st\<lparr>mem := m\<rparr>\<lparr>mem := m'\<rparr>)" "m = [] \<longrightarrow> ok' \<and> m' = []"
    unfolding mem_mem by blast
  have "copy_rrs (rr # rrs) st = (if ok then (ok', st\<lparr>mem := m'\<rparr>) else (False, st\<lparr>mem := m\<rparr>))"
    using m m' by simp
  then show ?case using m(2) m'(2) by (cases ok; simp only: if_True if_False simp_thms option.distinct option.map option.simps; blast)
qed

lemma copy_rrset_mem: "\<exists>r m. copy_rrset s st = (r, st\<lparr>mem := m\<rparr>) \<and> (r = None \<or> r = Some (s\<lparr>rs_lent := None\<rparr>)) \<and>
    (mem st = [] \<longrightarrow> r \<noteq> None \<and> m = [])"
proof -
  obtain ok m where m: "malloc st = (ok, st\<lparr>mem := m\<rparr>)" "mem st = [] \<longrightarrow> ok \<and> m = []" using malloc_step by blast
  from copy_rrs_mem [of "rs_rrs s" "st\<lparr>mem := m\<rparr>"] obtain ok' m' where
    m': "copy_rrs (rs_rrs s) (st\<lparr>mem := m\<rparr>) = (ok', st\<lparr>mem := m\<rparr>\<lparr>mem := m'\<rparr>)" "m = [] \<longrightarrow> ok' \<and> m' = []"
    unfolding mem_mem by blast
  have "copy_rrset s st = (if \<not> ok then (None, st\<lparr>mem := m\<rparr>)
      else if ok' then (Some (s\<lparr>rs_lent := None\<rparr>), st\<lparr>mem := m'\<rparr>) else (None, st\<lparr>mem := m'\<rparr>))"
    using m(1) m'(1) by (simp add: copy_rrset_def)
  then show ?thesis using m(2) m'(2) by (cases ok; cases ok'; simp only: if_True if_False simp_thms option.distinct option.map option.simps; blast)
qed

abbreviation (input) unlent :: "rr_set option list \<Rightarrow> rr_set option list" where
  "unlent ss \<equiv> map (map_option (rs_lent_update (\<lambda>l. None))) ss"

lemma copy_rrsets_mem: "\<exists>r m. copy_rrsets ss st = (r, st\<lparr>mem := m\<rparr>) \<and>
    (r = None \<or> r = Some (unlent ss)) \<and> (mem st = [] \<longrightarrow> r \<noteq> None \<and> m = [])"
proof (induction ss arbitrary: st)
  case Nil
  have "copy_rrsets [] st = (Some (unlent []), st\<lparr>mem := mem st\<rparr>)" by simp
  then show ?case by blast
next
  case (Cons x ss)
  show ?case
  proof (cases x)
    case None
    from Cons.IH [of st] obtain r m where
      r: "copy_rrsets ss st = (r, st\<lparr>mem := m\<rparr>)" "r = None \<or> r = Some (unlent ss)"
      "mem st = [] \<longrightarrow> r \<noteq> None \<and> m = []" by blast
    show ?thesis
    proof (cases r)
      case None
      with r(1) \<open>x = None\<close> have "copy_rrsets (x # ss) st = (None, st\<lparr>mem := m\<rparr>)" by simp
      with None r(3) show ?thesis by blast
    next
      case (Some ss')
      with r(1,2) \<open>x = None\<close> have "copy_rrsets (x # ss) st = (Some (unlent (x # ss)), st\<lparr>mem := m\<rparr>)" by simp
      with Some r(3) show ?thesis by blast
    qed
  next
    case (Some s)
    from copy_rrset_mem [of s st] obtain r m where
      r: "copy_rrset s st = (r, st\<lparr>mem := m\<rparr>)" "r = None \<or> r = Some (s\<lparr>rs_lent := None\<rparr>)" "mem st = [] \<longrightarrow> r \<noteq> None \<and> m = []"
      by blast
    from Cons.IH [of "st\<lparr>mem := m\<rparr>"] obtain r' m' where
      r': "copy_rrsets ss (st\<lparr>mem := m\<rparr>) = (r', st\<lparr>mem := m\<rparr>\<lparr>mem := m'\<rparr>)"
      "r' = None \<or> r' = Some (unlent ss)" "m = [] \<longrightarrow> r' \<noteq> None \<and> m' = []"
      unfolding mem_mem by blast
    show ?thesis
    proof (cases r)
      case None
      with r(1) Some have "copy_rrsets (x # ss) st = (None, st\<lparr>mem := m\<rparr>)" by simp
      with None r(3) show ?thesis by blast
    next
      case r1: (Some s')
      then have s': "s' = s\<lparr>rs_lent := None\<rparr>" using r(2) by simp
      show ?thesis
      proof (cases r')
        case None
        with r1 r(1) r'(1) Some have "copy_rrsets (x # ss) st = (None, st\<lparr>mem := m'\<rparr>)" by simp
        with None r(3) r'(3) show ?thesis by blast
      next
        case (Some ss')
        with r1 s' r(1) r'(1,2) \<open>x = Some s\<close> have "copy_rrsets (x # ss) st = (Some (unlent (x # ss)), st\<lparr>mem := m'\<rparr>)"
          by simp
        with Some r(3) r'(3) show ?thesis by blast
      qed
    qed
  qed
qed

lemma copy_cent_spec:
  assumes "cent_ok c"
  shows "\<exists>r m. copy_cent c st = Some (r, st\<lparr>mem := m\<rparr>) \<and> (r = None \<or> r = Some (detach c)) \<and>
    (mem st = [] \<longrightarrow> r \<noteq> None \<and> m = [])"
proof -
  from assms obtain ls where nm: "qname c = enc ls" "dns_name ls" by (auto simp: cent_ok_def)
  have len: "rhnlen (qname c) = Some (length (qname c))" using nm by (simp add: dns_name_labels_ok)
  have cpy: "rd_all (qname c) 0 (length (qname c)) = Some (qname c)" by (simp add: rd_all_def)
  obtain ok m where m: "malloc st = (ok, st\<lparr>mem := m\<rparr>)" "mem st = [] \<longrightarrow> ok \<and> m = []" using malloc_step by blast
  from malloc_step [of "st\<lparr>mem := m\<rparr>"] obtain ok' m' where
    m': "malloc (st\<lparr>mem := m\<rparr>) = (ok', st\<lparr>mem := m\<rparr>\<lparr>mem := m'\<rparr>)" "m = [] \<longrightarrow> ok' \<and> m' = []" unfolding mem_mem by blast
  show ?thesis
  proof (cases "ok \<and> ok'")
    case False
    then have "copy_cent c st = Some (None, if ok then st\<lparr>mem := m'\<rparr> else st\<lparr>mem := m\<rparr>)"
      using m(1) m'(1) len by (auto simp: copy_cent_def)
    with False m(2) m'(2) show ?thesis by (cases ok; simp only: if_True if_False simp_thms option.distinct option.map option.simps; blast)
  next
    case ok: True
    show ?thesis
    proof (cases "body c")
      case (Neg l ttl ts)
      with assms have "has (ce_flags c) DF_NEGATIVE" by (simp add: cent_ok_def)
      with Neg ok m(1) m'(1) len cpy have "copy_cent c st = Some (Some (detach c), st\<lparr>mem := m'\<rparr>)"
        by (simp add: copy_cent_def detach_def)
      with m(2) m'(2) show ?thesis by blast
    next
      case (Recs mu ext)
      with assms have n: "\<not> has (ce_flags c) DF_NEGATIVE" by (simp add: cent_ok_def)
      show ?thesis
      proof (cases ext)
        case None
        from copy_rrsets_mem [of mu "st\<lparr>mem := m'\<rparr>"] obtain r m3 where
          r: "copy_rrsets mu (st\<lparr>mem := m'\<rparr>) = (r, st\<lparr>mem := m'\<rparr>\<lparr>mem := m3\<rparr>)" "r = None \<or> r = Some (unlent mu)"
          "m' = [] \<longrightarrow> r \<noteq> None \<and> m3 = []" unfolding mem_mem by blast
        have "copy_cent c st = Some (if r = None then None else Some (detach c), st\<lparr>mem := m3\<rparr>)"
          using Recs None n ok m(1) m'(1) r(1,2) len cpy by (cases r) (simp_all add: copy_cent_def detach_def)
        with r(3) m(2) m'(2) show ?thesis by (cases r; simp only: if_True if_False simp_thms option.distinct option.map option.simps; blast)
      next
        case (Some e)
        from malloc_step [of "st\<lparr>mem := m'\<rparr>"] obtain ok'' m2 where
          m2: "malloc (st\<lparr>mem := m'\<rparr>) = (ok'', st\<lparr>mem := m'\<rparr>\<lparr>mem := m2\<rparr>)" "m' = [] \<longrightarrow> ok'' \<and> m2 = []"
          unfolding mem_mem by blast
        from copy_rrsets_mem [of mu "st\<lparr>mem := m2\<rparr>"] obtain r m3 where
          r: "copy_rrsets mu (st\<lparr>mem := m2\<rparr>) = (r, st\<lparr>mem := m2\<rparr>\<lparr>mem := m3\<rparr>)" "r = None \<or> r = Some (unlent mu)"
          "m2 = [] \<longrightarrow> r \<noteq> None \<and> m3 = []" unfolding mem_mem by blast
        from copy_rrsets_mem [of e "st\<lparr>mem := m3\<rparr>"] obtain r' m4 where
          r': "copy_rrsets e (st\<lparr>mem := m3\<rparr>) = (r', st\<lparr>mem := m3\<rparr>\<lparr>mem := m4\<rparr>)" "r' = None \<or> r' = Some (unlent e)"
          "m3 = [] \<longrightarrow> r' \<noteq> None \<and> m4 = []" unfolding mem_mem by blast
        have "copy_cent c st = (if \<not> ok'' then Some (None, st\<lparr>mem := m2\<rparr>)
            else if r = None then Some (None, st\<lparr>mem := m3\<rparr>)
            else Some (if r' = None then None else Some (detach c), st\<lparr>mem := m4\<rparr>))"
          using Recs Some n ok m(1) m'(1) m2(1) r(1,2) r'(1,2) len cpy
          by (cases ok''; cases r; cases r') (simp_all add: copy_cent_def detach_def)
        with r(3) r'(3) m(2) m'(2) m2(2) show ?thesis by (cases ok''; cases r; cases r'; simp only: if_True if_False simp_thms option.distinct option.map option.simps; blast)
      qed
    qed
  qed
qed

lemma init_cent_spec:
  assumes "dns_name ls"
  shows "\<exists>r m. init_cent (enc ls @ q) ttl ts fl st = Some (r, st\<lparr>mem := m\<rparr>) \<and>
    (\<forall>c. r = Some c \<longrightarrow> cent_ok c \<and> detached c \<and> qname c = enc ls \<and> ce_flags c = fl \<and>
       slots (body c) = replicate NRRTOT None \<and> c_ns c = cundef \<and> c_soa c = cundef) \<and>
    (mem st = [] \<longrightarrow> r \<noteq> None \<and> m = [])"
proof -
  obtain ok m where m: "malloc st = (ok, st\<lparr>mem := m\<rparr>)" "mem st = [] \<longrightarrow> ok \<and> m = []" using malloc_step by blast
  have len: "rhnlen (enc ls @ q) = Some (length (enc ls))" "rd_all (enc ls @ q) 0 (length (enc ls)) = Some (enc ls)"
    using assms by (simp_all add: dns_name_labels_ok rd_all_def)
  show ?thesis
  proof (cases ok)
    case False
    with m(1) len have "init_cent (enc ls @ q) ttl ts fl st = Some (None, st\<lparr>mem := m\<rparr>)" by (simp add: init_cent_def)
    with m(2) False show ?thesis by blast
  next
    case True
    let ?c = "\<lparr>qname = enc ls, cs = sizeof_dns_cent + int (length (enc ls)), num_rrs = 0, ce_flags = fl,
         body = (if has fl DF_NEGATIVE then Neg None ttl ts else Recs (replicate NRRMU None) None),
         c_ns = cundef, c_soa = cundef\<rparr>"
    have sl: "slots (body ?c) = replicate NRRTOT None" by (simp add: nrr_defs flip: replicate_add)
    have "cent_ok ?c" using assms by (auto simp: cent_ok_def sl ext_size_def nrr_defs simp flip: replicate_add)
    moreover have "detached ?c"
      by (subst detached_iff) (auto simp: sl linked_def nrr_defs simp flip: replicate_add)
    moreover have "init_cent (enc ls @ q) ttl ts fl st = Some (Some ?c, st\<lparr>mem := m\<rparr>)"
      using True m(1) len by (simp add: init_cent_def)
    moreover have "qname ?c = enc ls" "ce_flags ?c = fl" "c_ns ?c = cundef" "c_soa ?c = cundef" by simp_all
    ultimately show ?thesis using m(2) sl by blast
  qed
qed

end
