(* ===== verification/Rr_Access.thy ===== *)
theory Rr_Access
  imports Cache_Inv
begin

text \<open>
  The macros of \<open>rr_types.h\<close> and \<open>cache.h\<close> for fixed record types. They bypass the table that maps a
  type to its place in an entry and have that place written out; here each family of macros is a
  table from types to places. The theorem of this theory compares them with the functions that
  look the place up.
\<close>

datatype rr_place = MU nat | EXT nat | Never

definition GET_RRSEXT :: "dns_cent \<Rightarrow> nat \<Rightarrow> rr_set option option" where
  "GET_RRSEXT c i = (if has (ce_flags c) DF_NEGATIVE then Some None
     else case body c of Neg l ttl ts \<Rightarrow> None
       | Recs mu ext \<Rightarrow> (case ext of None \<Rightarrow> Some None | Some e \<Rightarrow> rd e i))"

definition HAVE_RRMU :: "dns_cent \<Rightarrow> nat \<Rightarrow> bool option" where
  "HAVE_RRMU c i = (if has (ce_flags c) DF_NEGATIVE then Some False
     else case body c of Neg l ttl ts \<Rightarrow> None
       | Recs mu ext \<Rightarrow> do {
           s \<leftarrow> rd mu i;
           Some (case s of None \<Rightarrow> False | Some rrset \<Rightarrow> rs_rrs rrset \<noteq> [])
         })"

definition HAVE_RREXT :: "dns_cent \<Rightarrow> nat \<Rightarrow> bool option" where
  "HAVE_RREXT c i = (if has (ce_flags c) DF_NEGATIVE then Some False
     else case body c of Neg l ttl ts \<Rightarrow> None
       | Recs mu ext \<Rightarrow> (case ext of None \<Rightarrow> Some False | Some e \<Rightarrow> do {
           s \<leftarrow> rd e i;
           Some (case s of None \<Rightarrow> False | Some rrset \<Rightarrow> rs_rrs rrset \<noteq> [])
         }))"

definition NRRITERLIST :: "dns_cent \<Rightarrow> nat option" where
  "NRRITERLIST c = (if has (ce_flags c) DF_NEGATIVE then Some 0
     else case body c of Neg l ttl ts \<Rightarrow> None
       | Recs mu ext \<Rightarrow> Some (if ext = None then NRRMU else NRRTOT))"

definition RRITERLIST :: "dns_cent \<Rightarrow> nat list option" where
  "RRITERLIST c = (if has (ce_flags c) DF_NEGATIVE then Some []
     else case body c of Neg l ttl ts \<Rightarrow> None
       | Recs mu ext \<Rightarrow> Some (if ext = None then rrmuiterlist else rrcachiterlist))"

text \<open>The macros \<open>getrrset_A\<close>, \<open>getrrset_NS\<close>, \dots\<close>

definition getrrset_place :: "(nat \<times> rr_place) list" where
  "getrrset_place = [
    (T_A, MU 0), (T_NS, MU 1), (T_MD, EXT 0), (T_MF, EXT 1), (T_CNAME, MU 2), (T_SOA, MU 3),
    (T_MB, EXT 2), (T_MG, EXT 3), (T_MR, EXT 4), (T_NULL, EXT 5), (T_WKS, EXT 6), (T_PTR, MU 4),
    (T_HINFO, EXT 7), (T_MINFO, EXT 8), (T_MX, MU 5), (T_TXT, MU 6), (T_RP, EXT 9),
    (T_AFSDB, EXT 10), (T_X25, EXT 11), (T_ISDN, EXT 12), (T_RT, EXT 13), (T_NSAP, EXT 14),
    (T_NSAP_PTR, EXT 15), (T_SIG, EXT 16), (T_KEY, EXT 17), (T_PX, EXT 18), (T_GPOS, EXT 19),
    (T_AAAA, MU 7), (T_LOC, EXT 20), (T_NXT, EXT 21), (T_EID, EXT 22), (T_NIMLOC, EXT 23),
    (T_SRV, EXT 24), (T_ATMA, EXT 25), (T_NAPTR, EXT 26), (T_KX, EXT 27), (T_CERT, EXT 28),
    (T_APL, EXT 29), (T_DS, EXT 30), (T_SSHFP, EXT 31), (T_IPSECKEY, EXT 32), (T_RRSIG, EXT 33),
    (T_NSEC, EXT 34), (T_DNSKEY, EXT 35), (T_DHCID, EXT 36), (T_NSEC3, EXT 37),
    (T_NSEC3PARAM, EXT 38)]"

text \<open>The macros \<open>have_rr_A\<close>, \<open>have_rr_NS\<close>, \dots\<close>

definition have_rr_place :: "(nat \<times> rr_place) list" where
  "have_rr_place = [
    (T_A, MU 0), (T_NS, MU 1), (T_MD, EXT 0), (T_MF, EXT 1), (T_CNAME, MU 2), (T_SOA, MU 3),
    (T_MB, EXT 2), (T_MG, EXT 3), (T_MR, EXT 4), (T_NULL, EXT 5), (T_WKS, EXT 6), (T_PTR, MU 4),
    (T_HINFO, EXT 7), (T_MINFO, EXT 8), (T_MX, MU 5), (T_TXT, MU 6), (T_RP, EXT 9),
    (T_AFSDB, EXT 10), (T_X25, EXT 11), (T_ISDN, EXT 12), (T_RT, EXT 13), (T_NSAP, EXT 14),
    (T_NSAP_PTR, EXT 15), (T_SIG, EXT 16), (T_KEY, EXT 17), (T_PX, EXT 18), (T_GPOS, EXT 19),
    (T_AAAA, MU 7), (T_LOC, EXT 20), (T_NXT, EXT 21), (T_EID, EXT 22), (T_NIMLOC, EXT 23),
    (T_SRV, EXT 24), (T_ATMA, EXT 25), (T_NAPTR, EXT 26), (T_KX, EXT 27), (T_CERT, EXT 28),
    (T_A6, Never), (T_DNAME, Never), (T_SINK, Never), (T_OPT, Never), (T_APL, EXT 29),
    (T_DS, EXT 30), (T_SSHFP, EXT 31), (T_IPSECKEY, EXT 32), (T_RRSIG, EXT 33), (T_NSEC, EXT 34),
    (T_DNSKEY, EXT 35), (T_DHCID, EXT 36), (T_NSEC3, EXT 37), (T_NSEC3PARAM, EXT 38)]"

text \<open>The types with a macro \<open>IS_CACHED_X\<close>.\<close>

definition is_cached :: "nat list" where
  "is_cached = [
    T_A, T_NS, T_MD, T_MF, T_CNAME, T_SOA, T_MB, T_MG, T_MR, T_NULL, T_WKS, T_PTR, T_HINFO,
    T_MINFO, T_MX, T_TXT, T_RP, T_AFSDB, T_X25, T_ISDN, T_RT, T_NSAP, T_NSAP_PTR, T_SIG, T_KEY,
    T_PX, T_GPOS, T_AAAA, T_LOC, T_NXT, T_EID, T_NIMLOC, T_SRV, T_ATMA, T_NAPTR, T_KX, T_CERT,
    T_APL, T_DS, T_SSHFP, T_IPSECKEY, T_RRSIG, T_NSEC, T_DNSKEY, T_DHCID, T_NSEC3, T_NSEC3PARAM]"

definition getrrset_X :: "dns_cent \<Rightarrow> nat \<Rightarrow> rr_set option option" where
  "getrrset_X c tp = (case map_of getrrset_place tp of
     Some (MU i) \<Rightarrow> GET_RRSMU c i | Some (EXT i) \<Rightarrow> GET_RRSEXT c i | _ \<Rightarrow> None)"

definition have_rr_X :: "dns_cent \<Rightarrow> nat \<Rightarrow> bool option" where
  "have_rr_X c tp = (case map_of have_rr_place tp of
     Some (MU i) \<Rightarrow> HAVE_RRMU c i | Some (EXT i) \<Rightarrow> HAVE_RREXT c i
   | Some Never \<Rightarrow> Some False | None \<Rightarrow> None)"

text \<open>The tables agree with the index table; decided by evaluation.\<close>

definition place_ok :: "(nat \<times> rr_place) list \<Rightarrow> nat \<Rightarrow> bool" where
  "place_ok tab tp \<longleftrightarrow> (let idx = rrlkuptab ! (tp - T_MIN) in
     map_of tab tp = Some (if idx < NRRMU then MU idx else if idx < NRRTOT then EXT (idx - NRRMU) else Never))"

lemma places_ok:
  "\<forall>tp \<in> set is_cached. place_ok getrrset_place tp" "\<forall>tp \<in> set [T_MIN..<T_MAX + 1]. place_ok have_rr_place tp"
  "\<forall>tp \<in> set is_cached. T_MIN \<le> tp \<and> tp \<le> T_MAX \<and> rrlkuptab ! (tp - T_MIN) < NRRTOT"
  "is_cached = rrcachiterlist"
  by code_simp+

lemma rd_rrlkuptab:
  assumes "T_MIN \<le> tp" and "tp \<le> T_MAX"
  shows "rd rrlkuptab (tp - T_MIN) = Some (rrlkuptab ! (tp - T_MIN))"
  using assms rrlkuptab_bound by (auto simp: rd_def T_MIN_def T_MAX_def T_NUM_def)

lemma getrrset_X_eq:
  assumes "cent_ok c" and tp: "tp \<in> set is_cached"
  shows "getrrset_X c tp = getrrset c (int tp) \<and> getrrset_X c tp \<noteq> None"
proof -
  let ?i = "rrlkuptab ! (tp - T_MIN)"
  have b: "T_MIN \<le> tp" "tp \<le> T_MAX" "?i < NRRTOT" using places_ok(3) tp by auto
  have p: "place_ok getrrset_place tp" using places_ok(1) tp by blast
  have r: "rd rrlkuptab (tp - Suc 0) = Some ?i" using rd_rrlkuptab [OF b(1,2)] by (simp add: T_MIN_def)
  have t: "nat (int tp - 1) = tp - Suc 0" "0 \<le> int tp - 1" "int tp - 1 < int T_NUM"
    using b(1,2) by (auto simp: T_MIN_def T_MAX_def T_NUM_def)
  show ?thesis
  proof (cases "body c")
    case (Neg l ttl ts)
    then have "has (ce_flags c) DF_NEGATIVE" using assms(1) by (simp add: cent_ok_def)
    with p show ?thesis
      by (auto simp: getrrset_X_def getrrset_def GET_RRSMU_def GET_RRSEXT_def place_ok_def Let_def b(3))
  next
    case (Recs mu ext)
    then have c: "\<not> has (ce_flags c) DF_NEGATIVE" "length mu = NRRMU" "\<forall>e. ext = Some e \<longrightarrow> length e = NRREXT"
      using assms(1) by (auto simp: cent_ok_def)
    show ?thesis
    proof (cases "?i < NRRMU")
      case True
      with p c Recs r t show ?thesis
        by (simp add: getrrset_X_def getrrset_def GET_RRSMU_def place_ok_def Let_def T_MIN_def rd_def)
    next
      case False
      then have "?i - NRRMU < NRREXT" using b(3) by (simp add: nrr_defs)
      with False p c Recs r t b(3) show ?thesis
        by (cases ext) (simp_all add: getrrset_X_def getrrset_def GET_RRSEXT_def place_ok_def Let_def T_MIN_def rd_def)
    qed
  qed
qed

lemma have_rr_X_eq:
  assumes "cent_ok c" and tp: "tp \<in> {T_MIN..T_MAX}"
  shows "have_rr_X c tp = have_rr c tp \<and> have_rr_X c tp \<noteq> None"
proof -
  let ?i = "rrlkuptab ! (tp - T_MIN)"
  have p: "place_ok have_rr_place tp" using places_ok(2) tp by (cases "tp = T_MAX") auto
  have r: "rd rrlkuptab (tp - T_MIN) = Some ?i" using rd_rrlkuptab tp by simp
  show ?thesis
  proof (cases "body c")
    case (Neg l ttl ts)
    then have "has (ce_flags c) DF_NEGATIVE" using assms(1) by (simp add: cent_ok_def)
    with p show ?thesis
      by (auto simp: have_rr_X_def have_rr_def HAVE_RRMU_def HAVE_RREXT_def place_ok_def Let_def)
  next
    case (Recs mu ext)
    then have c: "\<not> has (ce_flags c) DF_NEGATIVE" "length mu = NRRMU" "\<forall>e. ext = Some e \<longrightarrow> length e = NRREXT"
      using assms(1) by (auto simp: cent_ok_def)
    consider "?i < NRRMU" | "\<not> ?i < NRRMU" "?i < NRRTOT" | "\<not> ?i < NRRMU" "\<not> ?i < NRRTOT" by blast
    then show ?thesis
    proof cases
      case 1
      with p c Recs r show ?thesis
        by (simp add: have_rr_X_def have_rr_def getrrset_eff_def HAVE_RRMU_def place_ok_def Let_def rd_def)
    next
      case 2
      then have "?i - NRRMU < NRREXT" by (simp add: nrr_defs)
      with 2 p c Recs r show ?thesis
        by (cases ext) (simp_all add: have_rr_X_def have_rr_def getrrset_eff_def HAVE_RREXT_def place_ok_def Let_def rd_def)
    next
      case 3
      then have "\<not> ?i - NRRMU < NRREXT" by (simp add: nrr_defs)
      with 3 p c Recs r show ?thesis
        by (simp add: have_rr_X_def have_rr_def getrrset_eff_def place_ok_def Let_def)
    qed
  qed
qed

text \<open>
  The optimised macros for a fixed record type do what the general functions do. On every
  well-formed entry, positive or negative, \<open>getrrset_X\<close> of a cached type gives what \<open>getrrset\<close>
  gives for the type, and \<open>have_rr_X\<close> of any type what \<open>have_rr\<close> gives, and both stay inside the
  arrays of the entry; the types with \<open>IS_CACHED_X\<close> are those of \<open>rrcachiterlist\<close>, and
  \<open>RRITERLIST\<close> lists as many types as there are record sets in the arrays.
\<close>
theorem fixed_type_macros:
  assumes "cent_ok c"
  shows "(\<forall>tp \<in> set is_cached. getrrset_X c tp = getrrset c (int tp) \<and> getrrset_X c tp \<noteq> None) \<and>
    (\<forall>tp \<in> {T_MIN..T_MAX}. have_rr_X c tp = have_rr c tp \<and> have_rr_X c tp \<noteq> None) \<and>
    is_cached = rrcachiterlist \<and>
    (\<exists>l. RRITERLIST c = Some l \<and> NRRITERLIST c = Some (length l) \<and> RRARR_LEN c = Some (length l))"
proof -
  have "\<exists>l. RRITERLIST c = Some l \<and> NRRITERLIST c = Some (length l) \<and> RRARR_LEN c = Some (length l)"
    using assms by (cases "body c") (auto simp: cent_ok_def RRITERLIST_def NRRITERLIST_def RRARR_LEN_def)
  with getrrset_X_eq [OF assms] have_rr_X_eq [OF assms] places_ok(4) show ?thesis by blast
qed

definition mx_entry :: dns_cent where
  "mx_entry = \<lparr>qname = [1, 97, 0], cs = sizeof_dns_cent + 3 + sizeof_rr_set, num_rrs = 1, ce_flags = 0,
     body = Recs ((replicate NRRMU None)[5 := Some \<lparr>rs_lent = None, rs_ttl = 60, rs_ts = 0, rs_flags = 0, rs_rrs = []\<rparr>]) None,
     c_ns = cundef, c_soa = cundef\<rparr>"

theorem fixed_type_macros_witness:
  "cent_ok mx_entry \<and> getrrset_X mx_entry T_MX = getrrset mx_entry 15 \<and> have_rr_X mx_entry T_DNAME = have_rr mx_entry T_DNAME"
proof -
  have n: "[1, 97, 0] = enc [[97 :: byte]]" "dns_name [[97 :: byte]]" by (simp_all add: dns_name_def DNSNAMEBUFSIZE_def)
  have "\<exists>ls. qname mx_entry = enc ls \<and> dns_name ls"
    using n by (intro exI [of _ "[[97]]"]) (simp add: mx_entry_def)
  then have "cent_ok mx_entry"
    unfolding cent_ok_def
    by (auto simp: mx_entry_def nrr_defs numeral_eq_Suc sets_count_def sets_size_def slot_size_def rr_set_size_def ext_size_def has_def DF_NEGATIVE_def)
  moreover have "T_MX \<in> set is_cached" "T_DNAME \<in> {T_MIN..T_MAX}" by code_simp+
  moreover have "int T_MX = 15" by (simp add: T_MX_def)
  ultimately show ?thesis using fixed_type_macros [of mx_entry] by metis
qed

end
