(* ===== verification/Dns_Wire.thy ===== *)
theory Dns_Wire
  imports Dns_Names
begin

text \<open>
  The format of messages (\<open>dns.h\<close>): the macros that read and write integers in network byte
  order, and the header of a message. A pointer \<open>cp\<close> is an offset in the buffer; the macros
  return it advanced.
\<close>

subsection \<open>Codes\<close>

definition C_IN :: nat where "C_IN = 1"
definition QT_MIN :: nat where "QT_MIN = 251"
definition QT_IXFR :: nat where "QT_IXFR = 251"
definition QT_AXFR :: nat where "QT_AXFR = 252"
definition QT_MAILB :: nat where "QT_MAILB = 253"
definition QT_MAILA :: nat where "QT_MAILA = 254"
definition QT_ALL :: nat where "QT_ALL = 255"
definition QT_MAX :: nat where "QT_MAX = 255"
definition RC_BADVERS :: nat where "RC_BADVERS = 16"
definition RC_NOTCACHED :: nat where "RC_NOTCACHED = 0xfffa"
definition RC_CACHED :: nat where "RC_CACHED = 0xfffb"
definition RC_STALE :: nat where "RC_STALE = 0xfffc"
definition RC_TCPREFUSED :: nat where "RC_TCPREFUSED = 0xfffd"
definition RC_FATALERR :: nat where "RC_FATALERR = 0xffff"

lemmas rc2_defs = rc_defs RC_BADVERS_def RC_NOTCACHED_def RC_CACHED_def RC_STALE_def RC_TCPREFUSED_def RC_FATALERR_def

subsection \<open>Integers\<close>

definition GETINT16 :: "bytes \<Rightarrow> nat \<Rightarrow> (16 word \<times> nat) option" where
  "GETINT16 b cp = do {
     c0 \<leftarrow> rd b cp;
     c1 \<leftarrow> rd b (cp + 1);
     Some (push_bit 8 (ucast c0) OR ucast c1, cp + 2)
   }"

definition GETINT32 :: "bytes \<Rightarrow> nat \<Rightarrow> (32 word \<times> nat) option" where
  "GETINT32 b cp = do {
     c0 \<leftarrow> rd b cp;
     c1 \<leftarrow> rd b (cp + 1);
     c2 \<leftarrow> rd b (cp + 2);
     c3 \<leftarrow> rd b (cp + 3);
     Some (push_bit 24 (ucast c0) OR push_bit 16 (ucast c1) OR push_bit 8 (ucast c2) OR ucast c3, cp + 4)
   }"

definition PUTINT16 :: "16 word \<Rightarrow> bytes \<Rightarrow> nat \<Rightarrow> (bytes \<times> nat) option" where
  "PUTINT16 s b cp = do {
     b0 \<leftarrow> wr b cp (ucast (drop_bit 8 s));
     b1 \<leftarrow> wr b0 (cp + 1) (ucast s);
     Some (b1, cp + 2)
   }"

definition PUTINT32 :: "32 word \<Rightarrow> bytes \<Rightarrow> nat \<Rightarrow> (bytes \<times> nat) option" where
  "PUTINT32 l b cp = do {
     b0 \<leftarrow> wr b cp (ucast (drop_bit 24 l));
     b1 \<leftarrow> wr b0 (cp + 1) (ucast (drop_bit 16 l));
     b2 \<leftarrow> wr b1 (cp + 2) (ucast (drop_bit 8 l));
     b3 \<leftarrow> wr b2 (cp + 3) (ucast l);
     Some (b3, cp + 4)
   }"

subsection \<open>The header of a message\<close>

text \<open>
  \<open>dns_hdr_t\<close> as the compiler lays it out on a little-endian machine: the first field of a
  group of bit fields has the lowest bits. The counters stay in network byte order, as in the
  code, which applies \<open>ntohs\<close> and \<open>htons\<close> to them.
\<close>

record dns_hdr =
  h_id :: "16 word"
  h_rd :: bool
  h_tc :: bool
  h_aa :: bool
  h_opcode :: "4 word"
  h_qr :: bool
  h_rcode :: "4 word"
  h_cd :: bool
  h_ad :: bool
  h_z :: bool
  h_ra :: bool
  h_qdcount :: "16 word"
  h_ancount :: "16 word"
  h_nscount :: "16 word"
  h_arcount :: "16 word"

definition sizeof_dns_hdr :: nat where "sizeof_dns_hdr = 12"
definition sizeof_rr_hdr_t :: nat where "sizeof_rr_hdr_t = 10"
definition sizeof_opt_pseudo_rr :: nat where "sizeof_opt_pseudo_rr = 1 + sizeof_rr_hdr_t"

text \<open>A number in network byte order in the memory of the header.\<close>

definition ntohs_at :: "bytes \<Rightarrow> nat \<Rightarrow> 16 word option" where
  "ntohs_at b i = map_option fst (GETINT16 b i)"

definition hdr_of_bytes :: "bytes \<Rightarrow> dns_hdr option" where
  "hdr_of_bytes b = do {
     i \<leftarrow> ntohs_at b 0;
     f \<leftarrow> rd b 2;
     g \<leftarrow> rd b 3;
     qd \<leftarrow> ntohs_at b 4;
     an \<leftarrow> ntohs_at b 6;
     ns \<leftarrow> ntohs_at b 8;
     ar \<leftarrow> ntohs_at b 10;
     Some \<lparr>h_id = i, h_rd = bit f 0, h_tc = bit f 1, h_aa = bit f 2, h_opcode = ucast (drop_bit 3 f),
       h_qr = bit f 7, h_rcode = ucast g, h_cd = bit g 4, h_ad = bit g 5, h_z = bit g 6, h_ra = bit g 7,
       h_qdcount = qd, h_ancount = an, h_nscount = ns, h_arcount = ar\<rparr>
   }"

definition bit_at :: "nat \<Rightarrow> bool \<Rightarrow> byte" where
  "bit_at n b = push_bit n (of_bool b)"

definition bytes_of_hdr :: "dns_hdr \<Rightarrow> bytes" where
  "bytes_of_hdr h =
     [ucast (drop_bit 8 (h_id h)), ucast (h_id h),
      bit_at 0 (h_rd h) OR bit_at 1 (h_tc h) OR bit_at 2 (h_aa h) OR push_bit 3 (ucast (h_opcode h)) OR
        bit_at 7 (h_qr h),
      ucast (h_rcode h) OR bit_at 4 (h_cd h) OR bit_at 5 (h_ad h) OR bit_at 6 (h_z h) OR bit_at 7 (h_ra h),
      ucast (drop_bit 8 (h_qdcount h)), ucast (h_qdcount h),
      ucast (drop_bit 8 (h_ancount h)), ucast (h_ancount h),
      ucast (drop_bit 8 (h_nscount h)), ucast (h_nscount h),
      ucast (drop_bit 8 (h_arcount h)), ucast (h_arcount h)]"

subsection \<open>Round trips\<close>

lemma join16: "push_bit 8 (ucast (ucast (drop_bit 8 s) :: byte)) OR ucast (ucast s :: byte) = (s :: 16 word)"
  by (rule bit_word_eqI) (auto simp: bit_simps not_less)

lemma join32: "push_bit 24 (ucast (ucast (drop_bit 24 l) :: byte)) OR push_bit 16 (ucast (ucast (drop_bit 16 l) :: byte)) OR
    push_bit 8 (ucast (ucast (drop_bit 8 l) :: byte)) OR ucast (ucast l :: byte) = (l :: 32 word)"
  (is "?w = l")
proof (rule bit_word_eqI)
  fix n assume "n < LENGTH(32)"
  then consider "n < 8" | "8 \<le> n" "n < 16" | "16 \<le> n" "n < 24" | "24 \<le> n" "n < 32" by fastforce
  then show "bit ?w n = bit l n" by cases (auto simp: bit_simps)
qed

definition be16 :: "16 word \<Rightarrow> bytes" where
  "be16 s = [ucast (drop_bit 8 s), ucast s]"

definition be32 :: "32 word \<Rightarrow> bytes" where
  "be32 l = [ucast (drop_bit 24 l), ucast (drop_bit 16 l), ucast (drop_bit 8 l), ucast l]"

lemma length_be [simp]: "length (be16 s) = 2" "length (be32 l) = 4"
  by (simp_all add: be16_def be32_def)

lemma PUTINT16_put: "cp + 2 \<le> length b \<Longrightarrow> PUTINT16 s b cp = Some (put b cp (be16 s), cp + 2)"
  using put_put [of cp "[ucast (drop_bit 8 s)]" "[ucast s]" b] by (simp add: PUTINT16_def wr_put be16_def)

lemma PUTINT32_put: "cp + 4 \<le> length b \<Longrightarrow> PUTINT32 l b cp = Some (put b cp (be32 l), cp + 4)"
  using put_put [of cp "[ucast (drop_bit 24 l)]" "[ucast (drop_bit 16 l)]" b]
    put_put [of cp "[ucast (drop_bit 24 l), ucast (drop_bit 16 l)]" "[ucast (drop_bit 8 l)]" b]
    put_put [of cp "[ucast (drop_bit 24 l), ucast (drop_bit 16 l), ucast (drop_bit 8 l)]" "[ucast l]" b]
  by (simp add: PUTINT32_def wr_put be32_def numeral_eq_Suc)

lemma GETINT16_be: "rd_all b cp 2 = Some (be16 s) \<Longrightarrow> GETINT16 b cp = Some (s, cp + 2)"
  by (auto simp: rd_all_def GETINT16_def rd_def be16_def join16 take_Suc_conv_app_nth numeral_2_eq_2 split: if_splits)

lemma rd_all_nth: "rd_all b i n = Some xs \<Longrightarrow> k < n \<Longrightarrow> rd b (i + k) = Some (xs ! k)"
  by (auto simp: rd_all_def rd_def split: if_splits)

lemma GETINT32_be: "rd_all b cp 4 = Some (be32 l) \<Longrightarrow> GETINT32 b cp = Some (l, cp + 4)"
  using rd_all_nth [of b cp 4 "be32 l" 0] rd_all_nth [of b cp 4 "be32 l" 1]
    rd_all_nth [of b cp 4 "be32 l" 2] rd_all_nth [of b cp 4 "be32 l" 3]
  by (simp add: GETINT32_def be32_def join32)

lemma rd_all_put: "cp + length vs \<le> length b \<Longrightarrow> rd_all (put b cp vs) cp (length vs) = Some vs"
  by (simp add: rd_all_def put_def)

text \<open>
  \<open>PUTINT16\<close>, \<open>PUTINT32\<close> and \<open>GETINT16\<close>, \<open>GETINT32\<close> are inverse: with room in the buffer
  the writers return, advance the pointer by the width, change only the bytes they pass over,
  and the readers return the value from there.
\<close>
theorem getint_putint:
  assumes "cp + 4 \<le> length b"
  shows "\<exists>b2 b4. PUTINT16 s b cp = Some (b2, cp + 2) \<and> GETINT16 b2 cp = Some (s, cp + 2) \<and>
    PUTINT32 l b cp = Some (b4, cp + 4) \<and> GETINT32 b4 cp = Some (l, cp + 4) \<and>
    length b2 = length b \<and> length b4 = length b \<and>
    (\<forall>i. (i < cp \<or> cp + 2 \<le> i) \<longrightarrow> rd b2 i = rd b i) \<and> (\<forall>i. (i < cp \<or> cp + 4 \<le> i) \<longrightarrow> rd b4 i = rd b i)"
proof -
  have other: "rd (put b cp vs) i = rd b i" if "cp + length vs \<le> length b" "i < cp \<or> cp + length vs \<le> i" for vs i
    using that by (auto simp: rd_def put_def nth_append not_less min_def)
  have "GETINT16 (put b cp (be16 s)) cp = Some (s, cp + 2)" "GETINT32 (put b cp (be32 l)) cp = Some (l, cp + 4)"
    using rd_all_put [of cp "be16 s" b] rd_all_put [of cp "be32 l" b] assms
    by (simp_all add: GETINT16_be GETINT32_be)
  with assms other [of "be16 s"] other [of "be32 l"] show ?thesis
    by (simp add: PUTINT16_put PUTINT32_put)
qed

theorem getint_putint_witness:
  "\<exists>b4. PUTINT32 0xdeadbeef (replicate 6 0) 1 = Some (b4, 5) \<and> GETINT32 b4 1 = Some (0xdeadbeef, 5)"
proof -
  have "1 + 4 \<le> length (replicate 6 (0 :: byte))" by simp
  from getint_putint [OF this, of 0 "0xdeadbeef"] show ?thesis by auto
qed

lemma ntohs_at_be: "rd_all b i 2 = Some (be16 s) \<Longrightarrow> ntohs_at b i = Some s"
  by (simp add: ntohs_at_def GETINT16_be)

lemma bit_nibble: "4 \<le> n \<Longrightarrow> \<not> bit (x :: 4 word) n"
  using bit_imp_le_length [of x n] by auto

lemma less_4: "n < 4 \<longleftrightarrow> n = 0 \<or> n = 1 \<or> n = 2 \<or> n = (3 :: nat)"
  by auto

lemma opcode_bits:
  "ucast (drop_bit 3 (bit_at 0 a OR bit_at 1 b OR bit_at 2 c OR push_bit 3 (ucast (x :: 4 word)) OR bit_at 7 d)) = x"
  (is "ucast ?w = x")
proof (rule bit_word_eqI)
  fix n assume "n < LENGTH(4)"
  then have "n = 0 \<or> n = 1 \<or> n = 2 \<or> n = 3" by (simp add: less_4)
  then show "bit (ucast ?w :: 4 word) n = bit x n"
    by (elim disjE) (simp_all add: bit_simps bit_at_def)
qed

lemma rcode_bits: "ucast (ucast (x :: 4 word) OR bit_at 4 a OR bit_at 5 b OR bit_at 6 c OR bit_at 7 d) = x"
  (is "ucast ?w = x")
proof (rule bit_word_eqI)
  fix n assume "n < LENGTH(4)"
  then have "n = 0 \<or> n = 1 \<or> n = 2 \<or> n = 3" by (simp add: less_4)
  then show "bit (ucast ?w :: 4 word) n = bit x n"
    by (elim disjE) (simp_all add: bit_simps bit_at_def)
qed

text \<open>
  The layout of the header is a bijection on its 12 bytes: reading back the bytes of a
  header, whatever follows them, gives the header.
\<close>
theorem hdr_roundtrip: "hdr_of_bytes (bytes_of_hdr h @ rest) = Some h"
proof -
  define f where "f = bit_at 0 (h_rd h) OR bit_at 1 (h_tc h) OR bit_at 2 (h_aa h) OR push_bit 3 (ucast (h_opcode h)) OR
    bit_at 7 (h_qr h)"
  define g where "g = ucast (h_rcode h) OR bit_at 4 (h_cd h) OR bit_at 5 (h_ad h) OR bit_at 6 (h_z h) OR bit_at 7 (h_ra h)"
  have f: "bit f 0 = h_rd h" "bit f 1 = h_tc h" "bit f 2 = h_aa h" "bit f 7 = h_qr h" "ucast (drop_bit 3 f) = h_opcode h"
    unfolding f_def by (simp_all only: opcode_bits) (simp_all add: bit_simps bit_at_def bit_nibble)
  have g: "bit g 4 = h_cd h" "bit g 5 = h_ad h" "bit g 6 = h_z h" "bit g 7 = h_ra h" "ucast g = h_rcode h"
    unfolding g_def by (simp_all only: rcode_bits) (simp_all add: bit_simps bit_at_def bit_nibble)
  have b: "bytes_of_hdr h = be16 (h_id h) @ [f, g] @ be16 (h_qdcount h) @ be16 (h_ancount h) @ be16 (h_nscount h) @
      be16 (h_arcount h)"
    by (simp add: bytes_of_hdr_def be16_def f_def g_def)
  have at: "ntohs_at (xs @ be16 s @ ys) i = Some s" if "length xs = i" for xs ys s i
    using that by (intro ntohs_at_be) (auto simp: rd_all_def)
  let ?b = "bytes_of_hdr h @ rest"
  have "ntohs_at ?b 0 = Some (h_id h)"
    using at [of "[]" 0 "h_id h"] by (simp add: b)
  moreover have "ntohs_at ?b 4 = Some (h_qdcount h)"
    using at [of "be16 (h_id h) @ [f, g]" 4 "h_qdcount h"] by (simp add: b)
  moreover have "ntohs_at ?b 6 = Some (h_ancount h)"
    using at [of "be16 (h_id h) @ [f, g] @ be16 (h_qdcount h)" 6 "h_ancount h"] by (simp add: b)
  moreover have "ntohs_at ?b 8 = Some (h_nscount h)"
    using at [of "be16 (h_id h) @ [f, g] @ be16 (h_qdcount h) @ be16 (h_ancount h)" 8 "h_nscount h"] by (simp add: b)
  moreover have "ntohs_at ?b 10 = Some (h_arcount h)"
    using at [of "be16 (h_id h) @ [f, g] @ be16 (h_qdcount h) @ be16 (h_ancount h) @ be16 (h_nscount h)" 10 "h_arcount h" rest]
    by (simp add: b)
  moreover have "rd ?b 2 = Some f" "rd ?b 3 = Some g" by (simp_all add: b rd_def be16_def)
  ultimately show ?thesis by (simp add: hdr_of_bytes_def f g del: One_nat_def)
qed

end
