(* ===== verification/Dyn_List.thy ===== *)
theory Dyn_List
  imports Pdnsd_Prelude
begin

text \<open>
  \<open>list.c\<close> and \<open>list.h\<close>: dynamic arrays (\<open>DYNAMIC_ARRAY\<close>), dynamic lists of items of different
  sizes (\<open>dlist\<close>) and linked lists (\<open>llist\<close>). Sizes are natural numbers; that they do not exceed
  the address space is not modelled.
\<close>

subsection \<open>Dynamic arrays\<close>

text \<open>
  An array: the contents of its elements, \<open>None\<close> for one not initialised yet, and the number of
  elements there is room for in its memory. \<open>None\<close> is the null pointer.
\<close>

record 'a darr =
  da_elems :: "'a option list"
  da_cap :: nat

type_synonym 'a darray = "'a darr option"

definition da_nel :: "'a darray \<Rightarrow> nat" where
  "da_nel a = (case a of None \<Rightarrow> 0 | Some d \<Rightarrow> length (da_elems d))"

definition DA_INDEX :: "'a darray \<Rightarrow> nat \<Rightarrow> 'a option" where
  "DA_INDEX a i = do { d \<leftarrow> a; e \<leftarrow> rd (da_elems d) i; e }"

definition alloc_nel :: "nat \<Rightarrow> nat" where
  "alloc_nel n = (if n = 0 then 8 else (n + 7) div 8 * 8)"

text \<open>The elements of an array whose number is changed to \<open>n\<close>.\<close>

definition set_nel :: "nat \<Rightarrow> 'a option list \<Rightarrow> 'a option list" where
  "set_nel n l = take n l @ replicate (n - length l) None"

text \<open>
  The loop that calls the clean-up routine on all elements. The routine changes the state \<open>'s\<close>.
\<close>

fun clean_all :: "('a \<Rightarrow> 's \<Rightarrow> 's option) option \<Rightarrow> 'a option list \<Rightarrow> 's \<Rightarrow> 's option" where
  "clean_all None l st = Some st"
| "clean_all (Some f) [] st = Some st"
| "clean_all (Some f) (x # l) st = do { e \<leftarrow> x; st1 \<leftarrow> f e st; clean_all (Some f) l st1 }"

text \<open>\<open>alloc\<close> says whether a call of \<open>realloc\<close> succeeds.\<close>

definition da_grow1 ::
    "('s \<Rightarrow> bool \<times> 's) \<Rightarrow> ('a \<Rightarrow> 's \<Rightarrow> 's option) option \<Rightarrow> 'a darray \<Rightarrow> 's \<Rightarrow> ('a darray \<times> 's) option" where
  "da_grow1 alloc cleanup a st = do {
     let k = da_nel a;
     (a1, st1) \<leftarrow>
       (if a = None \<or> (k \<noteq> 0 \<and> k mod 8 = 0) then
          (let (ok, st1) = alloc st in
           if ok then Some (Some \<lparr>da_elems = (case a of None \<Rightarrow> [] | Some d \<Rightarrow> da_elems d), da_cap = k + 8\<rparr>, st1)
           else case a of None \<Rightarrow> Some (None, st1)
             | Some d \<Rightarrow> do { st2 \<leftarrow> clean_all cleanup (da_elems d) st1; Some (None, st2) })
        else Some (a, st));
     case a1 of None \<Rightarrow> Some (None, st1)
     | Some d \<Rightarrow> if k + 1 \<le> da_cap d then Some (Some (d\<lparr>da_elems := set_nel (k + 1) (da_elems d)\<rparr>), st1) else None
   }"

definition da_resize ::
    "('s \<Rightarrow> bool \<times> 's) \<Rightarrow> ('a \<Rightarrow> 's \<Rightarrow> 's option) option \<Rightarrow> nat \<Rightarrow> 'a darray \<Rightarrow> 's \<Rightarrow> ('a darray \<times> 's) option" where
  "da_resize alloc cleanup n a st = do {
     let ael = (case a of None \<Rightarrow> 0 | Some d \<Rightarrow> alloc_nel (length (da_elems d)));
     let new_ael = alloc_nel n;
     (a1, st1) \<leftarrow>
       (if new_ael \<noteq> ael then
          (let (ok, st1) = alloc st in
           if ok then Some (Some \<lparr>da_elems = (case a of None \<Rightarrow> [] | Some d \<Rightarrow> da_elems d), da_cap = new_ael\<rparr>, st1)
           else case a of None \<Rightarrow> Some (None, st1)
             | Some d \<Rightarrow> do { st2 \<leftarrow> clean_all cleanup (da_elems d) st1; Some (None, st2) })
        else Some (a, st));
     case a1 of None \<Rightarrow> Some (None, st1)
     | Some d \<Rightarrow> if n \<le> da_cap d then Some (Some (d\<lparr>da_elems := set_nel n (da_elems d)\<rparr>), st1) else None
   }"

text \<open>The invariant: the room in the memory of the array is what its length says.\<close>

definition da_ok :: "'a darray \<Rightarrow> bool" where
  "da_ok a \<longleftrightarrow> (case a of None \<Rightarrow> True | Some d \<Rightarrow> da_cap d = alloc_nel (length (da_elems d)))"

lemma alloc_nel_ge: "n \<le> alloc_nel n"
  using div_mult_mod_eq [of "n + 7" 8] mod_less_divisor [of 8 "n + 7"]
  unfolding alloc_nel_def by (simp; linarith)

lemma alloc_nel_Suc: "alloc_nel (Suc k) = (if k \<noteq> 0 \<and> k mod 8 = 0 then k + 8 else alloc_nel k)"
proof -
  obtain q r where k: "k = 8 * q + r" and r: "r < 8"
    using mult_div_mod_eq [of 8 k] mod_less_divisor [of 8 k] by (metis zero_less_numeral)
  have "(8 * q + r + 7) div 8 = q + (if r = 0 then 0 else 1)"
  proof (cases "r = 0")
    case False
    then have "8 * q + r + 7 = 8 * (q + 1) + (r - 1)" "r - 1 < 8" using r by simp_all
    then have "(8 * q + r + 7) div 8 = q + 1" by (metis div_mult_self4 div_less add_0_right zero_neq_numeral)
    then show ?thesis using False by simp
  qed simp
  moreover have "(8 * q + r + 8) div 8 = q + 1" using r by simp
  moreover have "(8 * q + r) mod 8 = r" using r by simp
  ultimately show ?thesis unfolding k by (auto simp: alloc_nel_def ac_simps)
qed

lemma length_set_nel [simp]: "length (set_nel n l) = n"
  by (simp add: set_nel_def)

lemma set_nel_1 [simp]: "set_nel (Suc 0) [] = [None]"
  by (simp add: set_nel_def)

lemma set_nel_Suc [simp]: "set_nel (Suc (length l)) l = l @ [None]"
  by (simp add: set_nel_def)

lemma da_ok_None [simp]: "da_ok None"
  by (simp add: da_ok_def)

lemma set_nel_le [simp]: "n \<le> length l \<Longrightarrow> set_nel n l = take n l"
  by (simp add: set_nel_def)

lemma da_grow1_cases:
  assumes "da_ok a"
  shows "(\<exists>d st'. da_grow1 alloc cleanup a st = Some (Some d, st') \<and> da_ok (Some d) \<and>
      da_elems d = (case a of None \<Rightarrow> [] | Some d \<Rightarrow> da_elems d) @ [None] \<and>
      (st' = st \<or> alloc st = (True, st'))) \<or>
    (\<exists>st1. alloc st = (False, st1) \<and> da_grow1 alloc cleanup a st =
      (case a of None \<Rightarrow> Some (None, st1) | Some d \<Rightarrow> map_option (Pair None) (clean_all cleanup (da_elems d) st1)))"
proof (cases a)
  case None
  obtain ok st1 where "alloc st = (ok, st1)" by (cases "alloc st")
  with None show ?thesis
    by (cases ok) (auto simp: da_grow1_def da_nel_def da_ok_def alloc_nel_def set_nel_def)
next
  case (Some d)
  let ?k = "length (da_elems d)"
  have cap: "da_cap d = alloc_nel ?k" using assms Some by (simp add: da_ok_def)
  show ?thesis
  proof (cases "?k \<noteq> 0 \<and> ?k mod 8 = 0")
    case True
    obtain ok st1 where a: "alloc st = (ok, st1)" by (cases "alloc st")
    show ?thesis
    proof (cases ok)
      case True
      with a Some \<open>?k \<noteq> 0 \<and> ?k mod 8 = 0\<close> show ?thesis
        by (auto simp: da_grow1_def da_nel_def da_ok_def alloc_nel_Suc)
    next
      case False
      with a Some \<open>?k \<noteq> 0 \<and> ?k mod 8 = 0\<close> show ?thesis
        by (cases "clean_all cleanup (da_elems d) st1") (auto simp: da_grow1_def da_nel_def)
    qed
  next
    case False
    then have "?k + 1 \<le> da_cap d" using cap alloc_nel_ge [of "Suc ?k"] by (auto simp: alloc_nel_Suc)
    with False Some cap show ?thesis
      by (auto simp: da_grow1_def da_nel_def da_ok_def alloc_nel_Suc)
  qed
qed

text \<open>
  The optimised \<open>da_grow1\<close> does exactly what \<open>da_resize\<close> to one more element does, including
  the calls of \<open>realloc\<close>, their sizes and the clean-up after a failure, on every array whose memory
  has the size its length asks for; both keep that invariant, so the new element is always inside
  the memory of the array.
\<close>
theorem da_grow1_resize:
  assumes "da_ok a"
  shows "da_grow1 alloc cleanup a st = da_resize alloc cleanup (da_nel a + 1) a st \<and>
    (\<forall>a' st'. da_grow1 alloc cleanup a st = Some (a', st') \<longrightarrow> da_ok a' \<and>
       (a' \<noteq> None \<longrightarrow> da_nel a' = da_nel a + 1))"
proof
  show "da_grow1 alloc cleanup a st = da_resize alloc cleanup (da_nel a + 1) a st"
  proof (cases a)
    case None
    then show ?thesis by (cases "alloc st") (simp add: da_grow1_def da_resize_def da_nel_def alloc_nel_def Let_def)
  next
    case (Some d)
    let ?k = "length (da_elems d)"
    have "alloc_nel (Suc ?k) \<noteq> alloc_nel ?k \<longleftrightarrow> ?k \<noteq> 0 \<and> ?k mod 8 = 0"
      by (auto simp: alloc_nel_Suc) (auto simp: alloc_nel_def)
    then show ?thesis using Some
      by (cases "alloc st") (auto simp: da_grow1_def da_resize_def da_nel_def alloc_nel_Suc Let_def)
  qed
  show "\<forall>a' st'. da_grow1 alloc cleanup a st = Some (a', st') \<longrightarrow> da_ok a' \<and>
      (a' \<noteq> None \<longrightarrow> da_nel a' = da_nel a + 1)"
    using da_grow1_cases [OF assms, of alloc cleanup st]
    by (auto simp: da_nel_def split: option.splits)
qed

theorem da_grow1_resize_witness:
  "da_grow1 (\<lambda>s. (True, Suc s)) None (Some \<lparr>da_elems = replicate 8 (Some True), da_cap = 8\<rparr>) 0 =
     Some (Some \<lparr>da_elems = replicate 8 (Some True) @ [None], da_cap = 16\<rparr>, 1) \<and>
   da_resize (\<lambda>s. (True, Suc s)) None 9 (Some \<lparr>da_elems = replicate 8 (Some True), da_cap = 8\<rparr>) 0 =
     Some (Some \<lparr>da_elems = replicate 8 (Some True) @ [None], da_cap = 16\<rparr>, 1)"
proof -
  let ?a = "Some \<lparr>da_elems = replicate 8 (Some True), da_cap = 8\<rparr>"
  have ok: "da_ok ?a" and n: "da_nel ?a + 1 = 9" by (simp_all add: da_ok_def da_nel_def alloc_nel_def)
  have "da_grow1 (\<lambda>s. (True, Suc s)) None ?a 0 =
     Some (Some \<lparr>da_elems = replicate 8 (Some True) @ [None], da_cap = 16\<rparr>, 1)" by code_simp
  with da_grow1_resize [OF ok, of "\<lambda>s. (True, Suc s)" None 0] show ?thesis unfolding n by simp
qed

subsection \<open>Dynamic lists\<close>

text \<open>
  \<open>struct _dynamic_list_head\<close>: \<open>dl_w\<close> holds the words of type \<open>size_t\<close> the functions store in
  front of the items, by their offset in \<open>data\<close>; \<open>dl_cap\<close> is the size of \<open>data\<close>.
\<close>

definition sizeof_size_t :: nat where "sizeof_size_t = 8"

record dlist_head =
  dl_last :: nat
  dl_lastsz :: nat
  dl_w :: "nat \<Rightarrow> nat option"
  dl_cap :: nat

definition DLISTALIGN :: "nat \<Rightarrow> nat" where
  "DLISTALIGN len = (len + (sizeof_size_t - 1)) div sizeof_size_t * sizeof_size_t"

text \<open>Rounding up to the size of a chunk, with the mask \<open>DLISTCHUNKSIZEMASK\<close>.\<close>

definition dl_chunk :: "nat \<Rightarrow> nat" where
  "dl_chunk n = (n + 0x3ff) div 0x400 * 0x400"

definition dl_store :: "nat \<Rightarrow> nat \<Rightarrow> dlist_head \<Rightarrow> dlist_head option" where
  "dl_store off v d = (if off + sizeof_size_t \<le> dl_cap d then Some (d\<lparr>dl_w := (dl_w d)(off \<mapsto> v)\<rparr>) else None)"

definition dlist_grow :: "bool \<Rightarrow> dlist_head option \<Rightarrow> nat \<Rightarrow> dlist_head option option" where
  "dlist_grow ok a len = do {
     (sz, allocsz, a1) \<leftarrow> (case a of None \<Rightarrow> Some (0, 0, None)
       | Some d \<Rightarrow> do {
           let sz = dl_last d + dl_lastsz d;
           d1 \<leftarrow> dl_store (dl_last d) (dl_lastsz d) d;
           Some (sz, dl_chunk sz, Some d1)
         });
     let szincr = DLISTALIGN (len + sizeof_size_t);
     let newsz = sz + szincr;
     let a2 = (if allocsz < newsz then
         (if ok then Some (case a1 of
              None \<Rightarrow> \<lparr>dl_last = 0, dl_lastsz = 0, dl_w = (\<lambda>off. None), dl_cap = dl_chunk newsz\<rparr>
            | Some d \<Rightarrow> d\<lparr>dl_cap := dl_chunk newsz\<rparr>)
          else None)
       else a1);
     case a2 of None \<Rightarrow> Some None
     | Some d \<Rightarrow> do {
         d1 \<leftarrow> dl_store sz 0 (d\<lparr>dl_last := sz, dl_lastsz := szincr\<rparr>);
         Some (Some d1)
       }
   }"

text \<open>A reference to an item is its offset in \<open>data\<close>.\<close>

definition dlist_first :: "dlist_head option \<Rightarrow> nat option" where
  "dlist_first a = (case a of None \<Rightarrow> None | Some d \<Rightarrow> Some sizeof_size_t)"

definition dlist_next :: "dlist_head \<Rightarrow> nat \<Rightarrow> nat option option" where
  "dlist_next d ref = do {
     incr \<leftarrow> dl_w d (ref - sizeof_size_t);
     Some (if incr \<noteq> 0 then Some (ref + incr) else None)
   }"

definition dlist_last :: "dlist_head option \<Rightarrow> nat option" where
  "dlist_last a = (case a of None \<Rightarrow> None | Some d \<Rightarrow> Some (dl_last d + sizeof_size_t))"

text \<open>The references a walk with \<open>dlist_first\<close> and \<open>dlist_next\<close> visits, at most \<open>n\<close>.\<close>

fun dlist_walk :: "nat \<Rightarrow> dlist_head \<Rightarrow> nat option \<Rightarrow> nat list option" where
  "dlist_walk n d None = Some []"
| "dlist_walk 0 d (Some ref) = None"
| "dlist_walk (Suc n) d (Some ref) = do { nxt \<leftarrow> dlist_next d ref; refs \<leftarrow> dlist_walk n d nxt; Some (ref # refs) }"

text \<open>The references of items that take the given numbers of bytes, the first at \<open>off\<close>.\<close>

fun item_refs :: "nat \<Rightarrow> nat list \<Rightarrow> nat list" where
  "item_refs off [] = []"
| "item_refs off (s # szs) = (off + sizeof_size_t) # item_refs (off + s) szs"

text \<open>The list holds items of these sizes.\<close>

fun dl_words :: "dlist_head \<Rightarrow> nat \<Rightarrow> nat list \<Rightarrow> bool" where
  "dl_words d off [] = False"
| "dl_words d off [s] = (dl_last d = off \<and> dl_lastsz d = s \<and> dl_w d off = Some 0)"
| "dl_words d off (s # t # szs) = (dl_w d off = Some s \<and> dl_words d (off + s) (t # szs))"

definition dl_ok :: "dlist_head \<Rightarrow> nat list \<Rightarrow> bool" where
  "dl_ok d szs \<longleftrightarrow> dl_words d 0 szs \<and> (\<forall>s \<in> set szs. sizeof_size_t \<le> s) \<and> dl_cap d = dl_chunk (sum_list szs)"

lemma dl_chunk_ge: "n \<le> dl_chunk n"
  by (simp add: dl_chunk_def)

lemma dl_chunk_least: "n \<le> dl_chunk m \<Longrightarrow> dl_chunk n \<le> dl_chunk m"
proof -
  assume "n \<le> dl_chunk m"
  then have "n + 0x3ff < Suc ((m + 0x3ff) div 0x400) * 0x400" by (simp add: dl_chunk_def)
  then have "(n + 0x3ff) div 0x400 < Suc ((m + 0x3ff) div 0x400)" by (subst div_less_iff_less_mult) simp_all
  then show ?thesis by (simp add: dl_chunk_def)
qed

lemma DLISTALIGN_ge: "n \<le> DLISTALIGN n"
  by (simp add: DLISTALIGN_def sizeof_size_t_def)

lemma dl_words_last:
  "dl_words d off szs \<Longrightarrow> szs \<noteq> [] \<and> dl_last d + dl_lastsz d = off + sum_list szs \<and> off \<le> dl_last d \<and>
    dl_lastsz d = last szs"
  by (induction d off szs rule: dl_words.induct) auto

lemma dl_words_append:
  assumes "dl_words d off szs" and "\<forall>s \<in> set szs. 0 < s"
    and "dl_w d' = (dl_w d)(dl_last d \<mapsto> dl_lastsz d, dl_last d + dl_lastsz d \<mapsto> 0)"
    and "dl_last d' = dl_last d + dl_lastsz d" and "dl_lastsz d' = s'"
  shows "dl_words d' off (szs @ [s'])"
  using assms
proof (induction d off szs rule: dl_words.induct)
  case (3 d off s t szs)
  from dl_words_last [of d "off + s" "t # szs"] "3.prems"(1,2)
  have "off < dl_last d" by auto
  with 3 show ?case by simp
qed auto

lemma dl_words_walk:
  "dl_words d off szs \<Longrightarrow> \<forall>s \<in> set szs. 0 < s \<Longrightarrow> length szs \<le> n \<Longrightarrow>
    dlist_walk n d (Some (off + sizeof_size_t)) = Some (item_refs off szs)"
proof (induction d off szs arbitrary: n rule: dl_words.induct)
  case (2 d off s)
  then show ?case by (cases n) (simp_all add: dlist_next_def)
next
  case (3 d off s t szs)
  then obtain m where n: "n = Suc m" by (cases n) auto
  have "dlist_next d (off + sizeof_size_t) = Some (Some (off + s + sizeof_size_t))"
    using 3 by (simp add: dlist_next_def ac_simps)
  with 3 n show ?case by simp
qed simp

text \<open>The list after an item of the size \<open>s\<close> was linked.\<close>

definition dl_grown :: "dlist_head \<Rightarrow> nat \<Rightarrow> nat \<Rightarrow> dlist_head" where
  "dl_grown d sz s = d\<lparr>dl_last := sz, dl_lastsz := s, dl_w := (dl_w d)(sz \<mapsto> 0)\<rparr>"

lemma dl_grown_ok:
  assumes "dl_ok d szs" and "len + sizeof_size_t \<le> s"
    and d': "d' = dl_grown (d\<lparr>dl_w := (dl_w d)(dl_last d \<mapsto> dl_lastsz d), dl_cap := dl_chunk (sum_list szs + s)\<rparr>) (sum_list szs) s"
  shows "dl_ok d' (szs @ [s])" and "dlist_walk (length szs + 1) d' (dlist_first (Some d')) = Some (item_refs 0 (szs @ [s]))"
    and "dlist_last (Some d') = Some (sum_list szs + sizeof_size_t)" and "sum_list szs + sizeof_size_t + len \<le> dl_cap d'"
proof -
  have w: "dl_words d 0 szs" "\<forall>s \<in> set szs. sizeof_size_t \<le> s" using assms(1) by (simp_all add: dl_ok_def)
  have pos: "\<forall>s \<in> set szs. 0 < s" using w(2) by (auto simp: sizeof_size_t_def)
  have "dl_last d + dl_lastsz d = sum_list szs" using dl_words_last [OF w(1)] by simp
  then have ww: "dl_words d' 0 (szs @ [s])"
    by (intro dl_words_append [OF w(1) pos]) (simp_all add: d' dl_grown_def)
  have ps: "\<forall>s \<in> set (szs @ [s]). 0 < s" using pos assms(2) by (auto simp: sizeof_size_t_def)
  show "dl_ok d' (szs @ [s])" using ww w(2) assms(2) by (auto simp: dl_ok_def d' dl_grown_def)
  show "dlist_walk (length szs + 1) d' (dlist_first (Some d')) = Some (item_refs 0 (szs @ [s]))"
    using dl_words_walk [OF ww ps, of "length szs + 1"] by (simp add: dlist_first_def)
  show "dlist_last (Some d') = Some (sum_list szs + sizeof_size_t)" by (simp add: dlist_last_def d' dl_grown_def)
  show "sum_list szs + sizeof_size_t + len \<le> dl_cap d'"
    using assms(2) dl_chunk_ge [of "sum_list szs + s"] by (simp add: d' dl_grown_def)
qed

text \<open>
  A \<open>dlist\<close> grows correctly. Growing the list by an item of \<open>len\<close> bytes keeps the items that
  are there and appends one with room for \<open>len\<close> bytes behind its word; all words written are
  inside the memory of the list, whose size is kept equal to what the code computes; only when
  memory runs out the result is the null pointer. A walk with \<open>dlist_first\<close> and \<open>dlist_next\<close>
  visits every item once, in order, and ends, and \<open>dlist_last\<close> refers to the last one.
\<close>
theorem dlist_grow_correct:
  assumes "dl_ok d szs"
  shows "\<exists>r. dlist_grow ok (Some d) len = Some r \<and> (r = None \<longrightarrow> \<not> ok) \<and>
    (\<forall>d'. r = Some d' \<longrightarrow> (\<exists>s'. dl_ok d' (szs @ [s']) \<and> len + sizeof_size_t \<le> s' \<and>
       dlist_walk (length szs + 1) d' (dlist_first r) = Some (item_refs 0 (szs @ [s'])) \<and>
       dlist_last r = Some (sum_list szs + sizeof_size_t) \<and> sum_list szs + sizeof_size_t + len \<le> dl_cap d'))"
proof -
  let ?s = "DLISTALIGN (len + sizeof_size_t)"
  let ?sz = "sum_list szs"
  have w: "dl_words d 0 szs" "\<forall>s \<in> set szs. sizeof_size_t \<le> s" "dl_cap d = dl_chunk ?sz"
    using assms by (simp_all add: dl_ok_def)
  have pos: "\<forall>s \<in> set szs. 0 < s" using w(2) by (auto simp: sizeof_size_t_def)
  from dl_words_last [OF w(1)] have l: "szs \<noteq> []" "dl_last d + dl_lastsz d = ?sz" "dl_lastsz d = last szs" by simp_all
  then have "sizeof_size_t \<le> dl_lastsz d" using w(2) by simp
  then have st: "dl_last d + sizeof_size_t \<le> dl_cap d" using l(2) w(3) dl_chunk_ge [of ?sz] by linarith
  have s: "len + sizeof_size_t \<le> ?s" by (rule DLISTALIGN_ge)
  define d1 where "d1 = d\<lparr>dl_w := (dl_w d)(dl_last d \<mapsto> dl_lastsz d)\<rparr>"
  let ?grow = "\<lambda>d. dl_grown d ?sz ?s"
  have fits: "?sz + ?s \<le> dl_chunk (?sz + ?s)" by (rule dl_chunk_ge)
  have fine: "\<exists>s'. dl_ok d' (szs @ [s']) \<and> len + sizeof_size_t \<le> s' \<and>
       dlist_walk (length szs + 1) d' (dlist_first (Some d')) = Some (item_refs 0 (szs @ [s'])) \<and>
       dlist_last (Some d') = Some (?sz + sizeof_size_t) \<and> ?sz + sizeof_size_t + len \<le> dl_cap d'"
    if "d' = ?grow (d1\<lparr>dl_cap := dl_chunk (?sz + ?s)\<rparr>)" for d'
    using dl_grown_ok [OF assms s, of d'] that s by (simp add: d1_def) blast
  have store: "dl_store (dl_last d) (dl_lastsz d) d = Some d1" using st by (simp add: dl_store_def d1_def)
  show ?thesis
  proof (cases "dl_chunk ?sz < ?sz + ?s")
    case True
    show ?thesis
    proof (cases ok)
      case False
      with True store l(2) show ?thesis by (simp add: dlist_grow_def Let_def)
    next
      case ok: True
      have "?sz + sizeof_size_t \<le> dl_chunk (?sz + ?s)" using s fits by linarith
      then have "dlist_grow ok (Some d) len = Some (Some (?grow (d1\<lparr>dl_cap := dl_chunk (?sz + ?s)\<rparr>)))"
        using True ok store l(2) by (simp add: dlist_grow_def Let_def dl_store_def dl_grown_def)
      with fine show ?thesis by blast
    qed
  next
    case False
    have "dl_chunk ?sz \<le> dl_chunk (?sz + ?s)" by (simp add: dl_chunk_def div_le_mono)
    moreover have "dl_chunk (?sz + ?s) \<le> dl_chunk ?sz" using False by (intro dl_chunk_least) simp_all
    ultimately have "dl_chunk (?sz + ?s) = dl_chunk ?sz" by simp
    then have c: "d1\<lparr>dl_cap := dl_chunk (?sz + ?s)\<rparr> = d1" using w(3) by (simp add: d1_def)
    have "?sz + sizeof_size_t \<le> dl_cap d1" using s False w(3) by (simp add: d1_def)
    then have "dlist_grow ok (Some d) len = Some (Some (?grow d1))"
      using False store l(2) by (simp add: dlist_grow_def Let_def dl_store_def dl_grown_def)
    with fine [OF arg_cong [OF c [symmetric], of ?grow]] show ?thesis by blast
  qed
qed

lemma dlist_grow_new:
  "dlist_grow True None len = Some (Some \<lparr>dl_last = 0, dl_lastsz = DLISTALIGN (len + sizeof_size_t),
     dl_w = [0 \<mapsto> 0], dl_cap = dl_chunk (DLISTALIGN (len + sizeof_size_t))\<rparr>)"
proof -
  have "sizeof_size_t \<le> DLISTALIGN (len + sizeof_size_t)" using DLISTALIGN_ge [of "len + sizeof_size_t"] by simp
  moreover have "DLISTALIGN (len + sizeof_size_t) \<le> dl_chunk (DLISTALIGN (len + sizeof_size_t))" by (rule dl_chunk_ge)
  ultimately show ?thesis by (simp add: dlist_grow_def dl_store_def sizeof_size_t_def Let_def fun_eq_iff)
qed

theorem dlist_grow_correct_witness:
  "\<exists>d d'. dlist_grow True None 5 = Some (Some d) \<and> dlist_grow True (Some d) 300 = Some (Some d') \<and>
    dlist_walk 2 d' (dlist_first (Some d')) = Some [8, 24]"
proof -
  let ?d = "\<lparr>dl_last = 0, dl_lastsz = 16, dl_w = [0 \<mapsto> 0], dl_cap = 1024\<rparr>"
  have n: "dlist_grow True None 5 = Some (Some ?d)"
    using dlist_grow_new [of 5] by (simp add: DLISTALIGN_def dl_chunk_def sizeof_size_t_def)
  have "dl_ok ?d [16]" by (simp add: dl_ok_def dl_chunk_def sizeof_size_t_def)
  from dlist_grow_correct [OF this, of True 300] obtain r where
    "dlist_grow True (Some ?d) 300 = Some r" "r \<noteq> None"
    "\<forall>d'. r = Some d' \<longrightarrow> (\<exists>s'. dlist_walk 2 d' (dlist_first r) = Some (item_refs 0 ([16] @ [s'])))"
    by (auto simp: numeral_2_eq_2)
  then show ?thesis using n by (auto simp: sizeof_size_t_def)
qed

end
