(* ===== verification/Dns_Parse.thy ===== *)
theory Dns_Parse
  imports Dns_Wire Dyn_List Cache_Inv
begin

text \<open>
  \<open>rr_to_cache\<close> and \<open>rrs2cent\<close> of \<open>dns_query.c\<close>: the records of an answer of a server are decoded and
  entered into an array of cache entries. Names in the data of a record are decompressed into a
  local buffer, which is written here with contents 0 at first.
\<close>

subsection \<open>The array of entries\<close>

type_synonym cent_array = "dns_cent darray"

definition da_set :: "'a darray \<Rightarrow> nat \<Rightarrow> 'a \<Rightarrow> 'a darray option" where
  "da_set a i x = do { d \<leftarrow> a; l \<leftarrow> wr (da_elems d) i (Some x); Some (Some (d\<lparr>da_elems := l\<rparr>)) }"

definition da_list :: "'a darray \<Rightarrow> 'a option list" where
  "da_list a = (case a of None \<Rightarrow> [] | Some d \<Rightarrow> da_elems d)"

text \<open>The loop that looks for the entry of a name.\<close>

fun find_name :: "bytes \<Rightarrow> dns_cent option list \<Rightarrow> nat \<Rightarrow> nat option option" where
  "find_name oname [] i = Some None"
| "find_name oname (x # xs) i = do {
     cent \<leftarrow> x;
     eq \<leftarrow> rhnicmp (qname cent) oname;
     if eq then Some (Some i) else find_name oname xs (i + 1)
   }"

definition rr_to_cache ::
    "cent_array \<Rightarrow> bytes \<Rightarrow> int \<Rightarrow> int \<Rightarrow> bytes \<Rightarrow> flags \<Rightarrow> int \<Rightarrow> cache \<Rightarrow> (nat \<times> cent_array \<times> cache) option" where
  "rr_to_cache centa oname tp ttl data fl queryts st = do {
     let n = da_nel centa;
     r \<leftarrow> find_name oname (da_list centa) 0;
     case r of
       Some i \<Rightarrow> do {
         cent \<leftarrow> DA_INDEX centa i;
         (ok, cent1, st1) \<leftarrow> add_cent_rr cent tp ttl queryts fl data st;
         centa1 \<leftarrow> da_set centa i cent1;
         Some (if ok then RC_OK else RC_FATALERR, centa1, st1)
       }
     | None \<Rightarrow> do {
         (centa1, st1) \<leftarrow> da_grow1 malloc (Some free_cent) centa st;
         case centa1 of None \<Rightarrow> Some (RC_FATALERR, None, st1)
         | Some d \<Rightarrow> do {
             (ce, st2) \<leftarrow> init_cent oname 0 0 0 st1;
             case ce of
               None \<Rightarrow> do {
                 (centa2, st3) \<leftarrow> da_resize malloc None n centa1 st2;
                 Some (RC_FATALERR, centa2, st3)
               }
             | Some cent \<Rightarrow> do {
                 (ok, cent1, st3) \<leftarrow> add_cent_rr cent tp ttl queryts fl data st2;
                 centa2 \<leftarrow> da_set centa1 n cent1;
                 Some (if ok then RC_OK else RC_FATALERR, centa2, st3)
               }
           }
       }
   }"

subsection \<open>The data of a record\<close>

text \<open>
  For every type of record, the data that is stored, or \<open>Inl\<close> a code that \<open>rrs2cent\<close> returns.
  \<open>bptr\<close> and \<open>blcnt\<close> are the place and the length of the data in the message.
\<close>

definition dn_err :: "nat \<Rightarrow> nat" where
  "dn_err rc = (if rc = RC_TRUNC then RC_FORMAT else rc)"

text \<open>\<open>decompress_name\<close> into a buffer at an offset.\<close>

definition decompress_at ::
    "bytes \<Rightarrow> nat \<Rightarrow> nat \<Rightarrow> nat \<Rightarrow> bytes \<Rightarrow> nat \<Rightarrow> (nat + nat \<times> nat \<times> bytes \<times> nat) option" where
  "decompress_at msg msgsz bptr blcnt db off = do {
     r \<leftarrow> decompress_name msg msgsz bptr blcnt (drop off db);
     Some (case r of Inl rc \<Rightarrow> Inl (dn_err rc)
       | Inr (bptr1, blcnt1, t, len) \<Rightarrow> Inr (bptr1, blcnt1, take off db @ t, len))
   }"

definition rr_name :: "bytes \<Rightarrow> nat \<Rightarrow> nat \<Rightarrow> nat \<Rightarrow> (nat + bytes) option" where
  "rr_name msg msgsz bptr blcnt = do {
     r \<leftarrow> decompress_at msg msgsz bptr blcnt (replicate DNSNAMEBUFSIZE 0) 0;
     case r of Inl rc \<Rightarrow> Some (Inl rc)
     | Inr (bptr1, blcnt1, db, len) \<Rightarrow>
         if blcnt1 \<noteq> 0 then Some (Inl RC_FORMAT)
         else do { data \<leftarrow> rd_all db 0 len; Some (Inr data) }
   }"

definition rr_two_names :: "bytes \<Rightarrow> nat \<Rightarrow> nat \<Rightarrow> nat \<Rightarrow> (nat + bytes) option" where
  "rr_two_names msg msgsz bptr blcnt = do {
     r \<leftarrow> decompress_at msg msgsz bptr blcnt (replicate (DNSNAMEBUFSIZE + DNSNAMEBUFSIZE) 0) 0;
     case r of Inl rc \<Rightarrow> Some (Inl rc)
     | Inr (bptr1, blcnt1, db1, len1) \<Rightarrow> do {
         r' \<leftarrow> decompress_at msg msgsz bptr1 blcnt1 db1 len1;
         case r' of Inl rc \<Rightarrow> Some (Inl rc)
         | Inr (bptr2, blcnt2, db2, len2) \<Rightarrow>
             if blcnt2 \<noteq> 0 then Some (Inl RC_FORMAT)
             else do { data \<leftarrow> rd_all db2 0 (len1 + len2); Some (Inr data) }
       }
   }"

text \<open>\<open>n\<close> bytes and a name: \<open>T_MX\<close>, \<open>T_AFSDB\<close>, \<open>T_RT\<close> and \<open>T_KX\<close> with 2 bytes, \<open>T_SRV\<close> with 6.\<close>

definition rr_pref_name :: "nat \<Rightarrow> bytes \<Rightarrow> nat \<Rightarrow> nat \<Rightarrow> nat \<Rightarrow> (nat + bytes) option" where
  "rr_pref_name n msg msgsz bptr blcnt =
     (if blcnt < n then Some (Inl RC_FORMAT)
      else do {
        pref \<leftarrow> rd_all msg bptr n;
        db0 \<leftarrow> wr_all (replicate (n + DNSNAMEBUFSIZE) 0) 0 pref;
        r \<leftarrow> decompress_at msg msgsz (bptr + n) (blcnt - n) db0 n;
        case r of Inl rc \<Rightarrow> Some (Inl rc)
        | Inr (bptr1, blcnt1, db, len) \<Rightarrow>
            if blcnt1 \<noteq> 0 then Some (Inl RC_FORMAT)
            else do { data \<leftarrow> rd_all db 0 (n + len); Some (Inr data) }
      })"

definition rr_mx :: "bytes \<Rightarrow> nat \<Rightarrow> nat \<Rightarrow> nat \<Rightarrow> (nat + bytes) option" where
  "rr_mx = rr_pref_name 2"

definition rr_srv :: "bytes \<Rightarrow> nat \<Rightarrow> nat \<Rightarrow> nat \<Rightarrow> (nat + bytes) option" where
  "rr_srv = rr_pref_name 6"

definition rr_soa :: "bytes \<Rightarrow> nat \<Rightarrow> nat \<Rightarrow> nat \<Rightarrow> (nat + bytes) option" where
  "rr_soa msg msgsz bptr blcnt = do {
     r \<leftarrow> decompress_at msg msgsz bptr blcnt (replicate (DNSNAMEBUFSIZE + DNSNAMEBUFSIZE + 20) 0) 0;
     case r of Inl rc \<Rightarrow> Some (Inl rc)
     | Inr (bptr1, blcnt1, db1, len1) \<Rightarrow> do {
         r' \<leftarrow> decompress_at msg msgsz bptr1 blcnt1 db1 len1;
         case r' of Inl rc \<Rightarrow> Some (Inl rc)
         | Inr (bptr2, blcnt2, db2, len2) \<Rightarrow>
             if blcnt2 < 20 then Some (Inl RC_FORMAT)
             else do {
               tail \<leftarrow> rd_all msg bptr2 20;
               db3 \<leftarrow> wr_all db2 (len1 + len2) tail;
               if blcnt2 - 20 \<noteq> 0 then Some (Inl RC_FORMAT)
               else do { data \<leftarrow> rd_all db3 0 (len1 + len2 + 20); Some (Inr data) }
             }
       }
   }"

definition rr_px :: "bytes \<Rightarrow> nat \<Rightarrow> nat \<Rightarrow> nat \<Rightarrow> (nat + bytes) option" where
  "rr_px msg msgsz bptr blcnt =
     (if blcnt < 2 then Some (Inl RC_FORMAT)
      else do {
        pref \<leftarrow> rd_all msg bptr 2;
        db0 \<leftarrow> wr_all (replicate (2 + DNSNAMEBUFSIZE + DNSNAMEBUFSIZE) 0) 0 pref;
        r \<leftarrow> decompress_at msg msgsz (bptr + 2) (blcnt - 2) db0 2;
        case r of Inl rc \<Rightarrow> Some (Inl rc)
        | Inr (bptr1, blcnt1, db1, len1) \<Rightarrow> do {
            r' \<leftarrow> decompress_at msg msgsz bptr1 blcnt1 db1 (2 + len1);
            case r' of Inl rc \<Rightarrow> Some (Inl rc)
            | Inr (bptr2, blcnt2, db2, len2) \<Rightarrow>
                if blcnt2 \<noteq> 0 then Some (Inl RC_FORMAT)
                else do { data \<leftarrow> rd_all db2 0 (2 + len1 + len2); Some (Inr data) }
          }
      })"

definition rr_nxt :: "bytes \<Rightarrow> nat \<Rightarrow> nat \<Rightarrow> nat \<Rightarrow> (nat + bytes) option" where
  "rr_nxt msg msgsz bptr blcnt = do {
     r \<leftarrow> decompress_at msg msgsz bptr blcnt (replicate 1040 0) 0;
     case r of Inl rc \<Rightarrow> Some (Inl rc)
     | Inr (bptr1, blcnt1, db1, len) \<Rightarrow>
         if 1040 < len + blcnt1 then Some (Inl RC_FORMAT)
         else do {
           bitmap \<leftarrow> rd_all msg bptr1 blcnt1;
           db2 \<leftarrow> wr_all db1 len bitmap;
           data \<leftarrow> rd_all db2 0 (len + blcnt1);
           Some (Inr data)
         }
   }"

text \<open>The loop over the three text strings of a NAPTR record; \<open>None\<close> inside: record too short.\<close>

fun naptr_len :: "nat \<Rightarrow> bytes \<Rightarrow> nat \<Rightarrow> nat \<Rightarrow> nat \<Rightarrow> nat option option" where
  "naptr_len 0 msg bptr blcnt len = Some (Some len)"
| "naptr_len (Suc j) msg bptr blcnt len =
     (if blcnt \<le> len then Some None
      else do { c \<leftarrow> rd msg (bptr + len); naptr_len j msg bptr blcnt (len + unat c + 1) })"

definition rr_naptr :: "bytes \<Rightarrow> nat \<Rightarrow> nat \<Rightarrow> nat \<Rightarrow> (nat + bytes) option" where
  "rr_naptr msg msgsz bptr blcnt = do {
     l \<leftarrow> naptr_len 3 msg bptr blcnt 4;
     case l of None \<Rightarrow> Some (Inl RC_FORMAT)
     | Some len \<Rightarrow>
         if blcnt < len then Some (Inl RC_FORMAT)
         else do {
           hd \<leftarrow> rd_all msg bptr len;
           db0 \<leftarrow> wr_all (replicate (4 + 3 * 256 + DNSNAMEBUFSIZE) 0) 0 hd;
           r \<leftarrow> decompress_at msg msgsz (bptr + len) (blcnt - len) db0 len;
           case r of Inl rc \<Rightarrow> Some (Inl rc)
           | Inr (bptr1, blcnt1, db, len1) \<Rightarrow>
               if blcnt1 \<noteq> 0 then Some (Inl RC_FORMAT)
               else do { data \<leftarrow> rd_all db 0 (len + len1); Some (Inr data) }
         }
   }"

text \<open>
  Types whose data contains a name that should not be compressed: \<open>n\<close> bytes are in front of the
  name. It is decompressed when it is compressed nevertheless, into memory that is allocated.
\<close>

definition rr_default :: "bytes \<Rightarrow> nat \<Rightarrow> nat \<Rightarrow> (nat + bytes) option" where
  "rr_default msg ptr rdlength = do { data \<leftarrow> rd_all msg ptr rdlength; Some (Inr data) }"

definition rr_expand :: "nat \<Rightarrow> bytes \<Rightarrow> nat \<Rightarrow> nat \<Rightarrow> nat \<Rightarrow> cache \<Rightarrow> ((nat + bytes) \<times> cache) option" where
  "rr_expand n msg msgsz ptr rdlength st = do {
     normal \<leftarrow> isnormalencdomname (drop (ptr + n) msg) (rdlength - n);
     if normal then do { r \<leftarrow> rr_default msg ptr rdlength; Some (r, st) }
     else do {
       r \<leftarrow> decompress_at msg msgsz (ptr + n) (rdlength - n) (replicate DNSNAMEBUFSIZE 0) 0;
       case r of Inl rc \<Rightarrow> Some (Inl rc, st)
       | Inr (bptr, blcnt, nmbuf, len) \<Rightarrow>
           (let (ok, st1) = malloc st in
            if \<not> ok then Some (Inl RC_FATALERR, st1)
            else do {
              hd \<leftarrow> rd_all msg ptr n;
              nm \<leftarrow> rd_all nmbuf 0 len;
              rest \<leftarrow> rd_all msg bptr blcnt;
              Some (Inr (hd @ nm @ rest), st1)
            })
     }
   }"

definition rr_ipseckey :: "bytes \<Rightarrow> nat \<Rightarrow> nat \<Rightarrow> nat \<Rightarrow> cache \<Rightarrow> ((nat + bytes) \<times> cache) option" where
  "rr_ipseckey msg msgsz ptr rdlength st =
     (if rdlength < 3 then Some (Inl RC_FORMAT, st)
      else do {
        gwtp \<leftarrow> rd msg (ptr + 1);
        if gwtp = 0 then do { r \<leftarrow> rr_default msg ptr rdlength; Some (r, st) }
        else if gwtp = 1 then
          (if rdlength - 3 < 4 then Some (Inl RC_FORMAT, st)
           else do { r \<leftarrow> rr_default msg ptr rdlength; Some (r, st) })
        else if gwtp = 2 then
          (if rdlength - 3 < 16 then Some (Inl RC_FORMAT, st)
           else do { r \<leftarrow> rr_default msg ptr rdlength; Some (r, st) })
        else if gwtp = 3 then rr_expand 3 msg msgsz ptr rdlength st
        else Some (Inl RC_FORMAT, st)
      })"

definition rr_rrsig :: "bytes \<Rightarrow> nat \<Rightarrow> nat \<Rightarrow> nat \<Rightarrow> cache \<Rightarrow> ((nat + bytes) \<times> cache) option" where
  "rr_rrsig msg msgsz ptr rdlength st =
     (if rdlength < 18 then Some (Inl RC_FORMAT, st) else rr_expand 18 msg msgsz ptr rdlength st)"

definition rr_nsec :: "bytes \<Rightarrow> nat \<Rightarrow> nat \<Rightarrow> nat \<Rightarrow> cache \<Rightarrow> ((nat + bytes) \<times> cache) option" where
  "rr_nsec msg msgsz ptr rdlength st = rr_expand 0 msg msgsz ptr rdlength st"

text \<open>The \<open>switch\<close> over the type.\<close>

definition name_types :: "nat list" where
  "name_types = [T_CNAME, T_MB, T_MD, T_MF, T_MG, T_MR, T_NS, T_PTR]"

definition rr_data :: "nat \<Rightarrow> bytes \<Rightarrow> nat \<Rightarrow> nat \<Rightarrow> nat \<Rightarrow> cache \<Rightarrow> ((nat + bytes) \<times> cache) option" where
  "rr_data type msg msgsz ptr rdlength st =
     (let pure = map_option (\<lambda>r. (r, st)) in
      if type = T_A then
        (if rdlength \<noteq> 4 then Some (Inl RC_FORMAT, st) else pure (rr_default msg ptr rdlength))
      else if type \<in> set name_types then pure (rr_name msg msgsz ptr rdlength)
      else if type = T_MINFO \<or> type = T_RP then pure (rr_two_names msg msgsz ptr rdlength)
      else if type = T_MX \<or> type = T_AFSDB \<or> type = T_RT \<or> type = T_KX then pure (rr_mx msg msgsz ptr rdlength)
      else if type = T_SOA then pure (rr_soa msg msgsz ptr rdlength)
      else if type = T_AAAA then
        (if rdlength \<noteq> 16 then Some (Inl RC_FORMAT, st) else pure (rr_default msg ptr rdlength))
      else if type = T_PX then pure (rr_px msg msgsz ptr rdlength)
      else if type = T_SRV then pure (rr_srv msg msgsz ptr rdlength)
      else if type = T_NXT then pure (rr_nxt msg msgsz ptr rdlength)
      else if type = T_NAPTR then pure (rr_naptr msg msgsz ptr rdlength)
      else if type = T_IPSECKEY then rr_ipseckey msg msgsz ptr rdlength st
      else if type = T_RRSIG then rr_rrsig msg msgsz ptr rdlength st
      else if type = T_NSEC then rr_nsec msg msgsz ptr rdlength st
      else pure (rr_default msg ptr rdlength))"

subsection \<open>The records of a section\<close>

text \<open>\<open>edns_info_t\<close>.\<close>

record edns_info =
  ei_udpsize :: "16 word"
  ei_rcode :: "16 word"
  ei_version :: "16 word"
  ei_do_flg :: byte

text \<open>What \<open>rrs2cent\<close> changes through its pointers, and its variable \<open>retval\<close>.\<close>

record parse =
  p_ptr :: nat
  p_lcnt :: nat
  p_centa :: cent_array
  p_numopt :: nat
  p_ep :: edns_info
  p_retval :: nat
  p_st :: cache

text \<open>The field \<open>rcode\<close> of the header of a message.\<close>

definition msg_rcode :: "bytes \<Rightarrow> 4 word option" where
  "msg_rcode msg = map_option (\<lambda>g. ucast g) (rd msg 3)"

text \<open>The branch for an OPT pseudo-record; \<open>ttlp\<close> is the place of the TTL field.\<close>

definition rrs_opt :: "bytes \<Rightarrow> 16 word \<Rightarrow> nat \<Rightarrow> parse \<Rightarrow> parse option" where
  "rrs_opt msg class ttlp p =
     (if p_numopt p = 0 then do {
        rc \<leftarrow> msg_rcode msg;
        t0 \<leftarrow> rd msg ttlp;
        t1 \<leftarrow> rd msg (ttlp + 1);
        t2 \<leftarrow> rd msg (ttlp + 2);
        Some (p\<lparr>p_numopt := 1, p_ep := \<lparr>ei_udpsize = class,
          ei_rcode = push_bit 4 (ucast t0) OR ucast rc, ei_version = ucast t1,
          ei_do_flg = drop_bit 7 t2 AND 1\<rparr>\<rparr>)
      }
      else Some (p\<lparr>p_numopt := p_numopt p + 1\<rparr>))"

text \<open>The branch for a record that is cached; the result \<open>Some rc\<close> is returned by the function.\<close>

definition rrs_cached ::
    "bytes \<Rightarrow> nat \<Rightarrow> flags \<Rightarrow> int \<Rightarrow> bytes \<Rightarrow> nat \<Rightarrow> int \<Rightarrow> nat \<Rightarrow> parse \<Rightarrow> (nat option \<times> parse) option" where
  "rrs_cached msg msgsz fl queryts oname type ttl rdlength p = do {
     (d, st1) \<leftarrow> rr_data type msg msgsz (p_ptr p) rdlength (p_st p);
     let p1 = p\<lparr>p_st := st1\<rparr>;
     case d of Inl rc \<Rightarrow> Some (Some rc, p1)
     | Inr data \<Rightarrow> do {
         (rc, centa, st2) \<leftarrow> rr_to_cache (p_centa p1) oname (int type) ttl data fl queryts st1;
         let p2 = p1\<lparr>p_centa := centa, p_st := st2\<rparr>;
         if rc \<noteq> RC_OK then
           (if rc = RC_FATALERR then Some (Some rc, p2) else Some (None, p2\<lparr>p_retval := rc\<rparr>))
         else Some (None, p2)
       }
   }"

text \<open>One turn of the loop.\<close>

definition rrs_step :: "bytes \<Rightarrow> nat \<Rightarrow> flags \<Rightarrow> int \<Rightarrow> parse \<Rightarrow> (nat option \<times> parse) option" where
  "rrs_step msg msgsz fl queryts p = do {
     r \<leftarrow> decompress_name msg msgsz (p_ptr p) (p_lcnt p) (replicate DNSNAMEBUFSIZE 0);
     case r of Inl rc \<Rightarrow> Some (Some rc, p)
     | Inr (ptr0, lcnt0, oname, len) \<Rightarrow>
         if lcnt0 < sizeof_rr_hdr_t then Some (Some RC_TRUNC, p\<lparr>p_ptr := ptr0, p_lcnt := lcnt0\<rparr>)
         else do {
           let lcnt1 = lcnt0 - sizeof_rr_hdr_t;
           (type, ptr1) \<leftarrow> GETINT16 msg ptr0;
           (class, ttlp) \<leftarrow> GETINT16 msg ptr1;
           (ttl, ptr2) \<leftarrow> GETINT32 msg ttlp;
           (rdlength, ptr3) \<leftarrow> GETINT16 msg ptr2;
           let p1 = p\<lparr>p_ptr := ptr3, p_lcnt := lcnt1\<rparr>;
           if lcnt1 < unat rdlength then Some (Some RC_TRUNC, p1)
           else do {
             (r', p2) \<leftarrow>
               (if unat type = T_OPT then do { q \<leftarrow> rrs_opt msg class ttlp p1; Some (None, q) }
                else if \<not> (PDNSD_NOT_CACHED_TYPE (int (unat type)) \<or> unat class \<noteq> C_IN) then
                  rrs_cached msg msgsz fl queryts oname (unat type) (uint ttl) (unat rdlength) p1
                else Some (None, p1));
             case r' of Some rc \<Rightarrow> Some (Some rc, p2)
             | None \<Rightarrow> Some (None, p2\<lparr>p_lcnt := p_lcnt p2 - unat rdlength, p_ptr := p_ptr p2 + unat rdlength\<rparr>)
           }
         }
   }"

fun rrs_loop :: "nat \<Rightarrow> bytes \<Rightarrow> nat \<Rightarrow> flags \<Rightarrow> int \<Rightarrow> parse \<Rightarrow> (nat \<times> parse) option" where
  "rrs_loop 0 msg msgsz fl queryts p = Some (p_retval p, p)"
| "rrs_loop (Suc n) msg msgsz fl queryts p = do {
     (r, p1) \<leftarrow> rrs_step msg msgsz fl queryts p;
     case r of Some rc \<Rightarrow> Some (rc, p1) | None \<Rightarrow> rrs_loop n msg msgsz fl queryts p1
   }"

definition rrs2cent :: "bytes \<Rightarrow> nat \<Rightarrow> nat \<Rightarrow> flags \<Rightarrow> int \<Rightarrow> parse \<Rightarrow> (nat \<times> parse) option" where
  "rrs2cent msg msgsz recnum fl queryts p = rrs_loop recnum msg msgsz fl queryts (p\<lparr>p_retval := RC_OK\<rparr>)"

end
