(* ===== verification/Cache_Core.thy ===== *)
theory Cache_Core
  imports Cache_Inv
begin

text \<open>
  The invariant of the whole cache, and its preservation by the steps on one entry: changing an
  entry in place, allocating one, freeing one, and changing the hash table.
\<close>

subsection \<open>The invariant\<close>

text \<open>
  Entries of the heap are well formed and linked to the list; the list holds no element twice
  and none of a freed entry.
\<close>

definition heap_ok :: "cache \<Rightarrow> bool" where
  "heap_ok st \<longleftrightarrow> (\<forall>a c. cents st a = Some c \<longrightarrow> cok a c st) \<and> dom (cents st) \<subseteq> {..<next_addr st} \<and>
     distinct (rrset_l st) \<and> fst ` set (rrset_l st) \<subseteq> dom (cents st)"

definition table_ok :: "cache \<Rightarrow> bool" where
  "table_ok st \<longleftrightarrow> hash_ok (qname_at st) (hashtab st) \<and> hash_data (hashtab st) \<subseteq> dom (cents st)"

text \<open>
  \<open>C\<close> are the entries counted by \<open>ent_num\<close> and \<open>cache_size\<close>; \<open>d\<close> is the amount by which
  \<open>cache_size\<close> deviates from their sizes in the middle of an operation.
\<close>

definition total :: "nat set \<Rightarrow> cache \<Rightarrow> int" where
  "total C st = (\<Sum>a\<in>C. cs (the (cents st a)))"

definition core :: "nat set \<Rightarrow> int \<Rightarrow> cache \<Rightarrow> bool" where
  "core C d st \<longleftrightarrow> heap_ok st \<and> table_ok st \<and> C \<subseteq> dom (cents st) \<and>
     cache_size st = total C st + d \<and> ent_num st = int (card C)"

definition cache_inv :: "cache \<Rightarrow> bool" where
  "cache_inv st \<longleftrightarrow> core (dom (cents st)) 0 st \<and> hash_data (hashtab st) = dom (cents st)"

text \<open>The program starts with a cache that satisfies the invariant.\<close>

lemma init_cache_inv: "cache_inv (init_cache t mint maxt negt perm m)"
proof -
  let ?st = "init_cache t mint maxt negt perm m"
  have h: "hash_ok (qname_at ?st) mk_dns_hash" "hash_data mk_dns_hash = {}" using hash_ok_empty by blast+
  have f: "cents ?st = (\<lambda>a. None)" "hashtab ?st = mk_dns_hash" "rrset_l ?st = []" "cache_size ?st = 0" "ent_num ?st = 0"
    by (simp_all add: init_cache_def)
  then have d: "dom (cents ?st) = {}" by simp
  have "heap_ok ?st" by (simp add: heap_ok_def f)
  moreover have "table_ok ?st" using h f(2) d by (simp add: table_ok_def)
  ultimately show ?thesis unfolding cache_inv_def core_def total_def using d f h by simp
qed

lemma heap_ok_cok: "heap_ok st \<Longrightarrow> cents st a = Some c \<Longrightarrow> cok a c st"
  by (simp add: heap_ok_def)

lemma core_cok: "core C d st \<Longrightarrow> cents st a = Some c \<Longrightarrow> cok a c st"
  by (simp add: core_def heap_ok_cok)

lemma core_cent_ok: "core C d st \<Longrightarrow> cents st a = Some c \<Longrightarrow> cent_ok c"
  by (blast dest: core_cok cok_cent_ok)

lemma core_finite: "core C d st \<Longrightarrow> finite (dom (cents st))"
  by (auto simp: core_def heap_ok_def intro: finite_subset)

lemma core_finite_C: "core C d st \<Longrightarrow> finite C"
  using core_finite [of C d st] by (auto simp: core_def intro: finite_subset)

lemma core_owner: "core C d st \<Longrightarrow> le \<in> set (rrset_l st) \<Longrightarrow> \<exists>c. cents st (fst le) = Some c"
  by (auto simp: core_def heap_ok_def dom_def image_subset_iff)

lemma core_fresh: "core C d st \<Longrightarrow> cents st (next_addr st) = None"
  by (auto simp: core_def heap_ok_def dom_def not_None_eq)

text \<open>Fields the invariant does not mention.\<close>

lemma cok_simps [simp]:
  "cok a c (st\<lparr>cents := h\<rparr>) = cok a c st" "cok a c (st\<lparr>next_addr := n\<rparr>) = cok a c st"
  "cok a c (st\<lparr>hashtab := ht\<rparr>) = cok a c st" "cok a c (st\<lparr>cache_size := k\<rparr>) = cok a c st"
  "cok a c (st\<lparr>ent_num := k\<rparr>) = cok a c st" "cok a c (st\<lparr>insert_sort := b\<rparr>) = cok a c st"
  by (simp_all add: cok_def)

lemma qname_at_eq: "cents st' = cents st \<Longrightarrow> qname_at st' = qname_at st"
  by (rule ext) (simp add: qname_at_def)

lemma qname_at_simps [simp]:
  "qname_at (st\<lparr>mem := m\<rparr>) = qname_at st" "qname_at (st\<lparr>rrset_l := l\<rparr>) = qname_at st"
  "qname_at (st\<lparr>hashtab := ht\<rparr>) = qname_at st" "qname_at (st\<lparr>cache_size := k\<rparr>) = qname_at st"
  "qname_at (st\<lparr>ent_num := k\<rparr>) = qname_at st" "qname_at (st\<lparr>insert_sort := b\<rparr>) = qname_at st"
  "qname_at (st\<lparr>next_addr := n\<rparr>) = qname_at st"
  by (rule qname_at_eq, simp)+

lemma core_mem [simp]: "core C d (st\<lparr>mem := m\<rparr>) = core C d st"
  by (simp add: core_def heap_ok_def table_ok_def total_def)

lemma core_insert_sort [simp]: "core C d (st\<lparr>insert_sort := m\<rparr>) = core C d st"
  by (simp add: core_def heap_ok_def table_ok_def total_def)

lemma core_size: "core C d st \<Longrightarrow> core C (d + k) (st\<lparr>cache_size := cache_size st + k\<rparr>)"
  by (simp add: core_def heap_ok_def table_ok_def total_def)

lemma others_mine: "b \<noteq> a \<Longrightarrow> others a l' = others a l \<Longrightarrow> mine b l' = mine b l"
proof -
  assume "b \<noteq> a" and o: "others a l' = others a l"
  have "mine b k = mine b (others a k)" for k using \<open>b \<noteq> a\<close> by (auto simp: mine_def others_def)
  then show ?thesis using o by metis
qed

lemma others_owners: "others a l' = others a l \<Longrightarrow> le \<in> set l' \<Longrightarrow> fst le = a \<or> le \<in> set l"
proof -
  assume o: "others a l' = others a l" and le: "le \<in> set l'"
  show ?thesis
  proof (cases "fst le = a")
    case False
    with le have "le \<in> set (others a l')" by (simp add: others_def)
    with o have "le \<in> set (others a l)" by simp
    then show ?thesis by (simp add: others_def)
  qed simp
qed

lemma frame_cok:
  assumes "cok b c st" and "frame a st st'" and "b \<noteq> a" and "distinct (rrset_l st')"
  shows "cok b c st'"
proof -
  from assms(2) obtain l m where "st' = st\<lparr>rrset_l := l, mem := m\<rparr>" "others a l = others a (rrset_l st)"
    unfolding frame_def by blast
  with assms(1,4) others_mine [OF assms(3), of l "rrset_l st"] show ?thesis by (simp add: cok_def)
qed

text \<open>Changing an entry in place.\<close>

lemma frame_fields:
  assumes "frame a st st'"
  shows "cents st' = cents st" "next_addr st' = next_addr st" "hashtab st' = hashtab st"
    "cache_size st' = cache_size st" "ent_num st' = ent_num st" "insert_sort st' = insert_sort st"
    "now st' = now st" "min_ttl st' = min_ttl st" "max_ttl st' = max_ttl st" "neg_ttl st' = neg_ttl st"
    "perm_cache st' = perm_cache st" "others a (rrset_l st') = others a (rrset_l st)"
    "mem st = [] \<longrightarrow> mem st' = []"
proof -
  from assms obtain l m where "st' = st\<lparr>rrset_l := l, mem := m\<rparr>" "others a l = others a (rrset_l st)"
    unfolding frame_def by blast
  then show "cents st' = cents st" "next_addr st' = next_addr st" "hashtab st' = hashtab st"
    "cache_size st' = cache_size st" "ent_num st' = ent_num st" "insert_sort st' = insert_sort st"
    "now st' = now st" "min_ttl st' = min_ttl st" "max_ttl st' = max_ttl st" "neg_ttl st' = neg_ttl st"
    "perm_cache st' = perm_cache st" "others a (rrset_l st') = others a (rrset_l st)" by simp_all
  show "mem st = [] \<longrightarrow> mem st' = []" using frame_no_failure [OF assms] by blast
qed

lemma put_cent_fields [simp]:
  "cents (put_cent a c st) = (cents st)(a \<mapsto> c)" "next_addr (put_cent a c st) = next_addr st"
  "hashtab (put_cent a c st) = hashtab st" "rrset_l (put_cent a c st) = rrset_l st"
  "cache_size (put_cent a c st) = cache_size st" "ent_num (put_cent a c st) = ent_num st"
  "insert_sort (put_cent a c st) = insert_sort st" "now (put_cent a c st) = now st"
  "min_ttl (put_cent a c st) = min_ttl st" "max_ttl (put_cent a c st) = max_ttl st"
  "neg_ttl (put_cent a c st) = neg_ttl st" "perm_cache (put_cent a c st) = perm_cache st"
  "mem (put_cent a c st) = mem st"
  by (simp_all add: put_cent_def)

lemma put_cent_cok [simp]: "cok b c (put_cent a c' st) = cok b c st"
  by (simp add: cok_def)

lemma put_cent_same: "cents st a = Some c \<Longrightarrow> put_cent a c st = st"
  by (simp add: put_cent_def fun_upd_idem)

lemma put_cent_put_cent [simp]: "put_cent a c (put_cent a c' st) = put_cent a c st"
  by (simp add: put_cent_def)

lemma heap_ok_put:
  assumes "heap_ok st" and "frame a st st'" and "cok a c' st'" and "a < next_addr st"
  shows "heap_ok (put_cent a c' st')"
proof -
  note f = frame_fields [OF assms(2)]
  have d: "distinct (rrset_l st')" using assms(3) by (simp add: cok_def)
  have "cok b cb st'" if "((cents st)(a \<mapsto> c')) b = Some cb" for b cb
  proof (cases "b = a")
    case False
    with that assms(1) have "cok b cb st" by (auto simp: heap_ok_def)
    from frame_cok [OF this assms(2) False d] show ?thesis .
  qed (use that assms(3) in simp)
  moreover have "fst ` set (rrset_l st') \<subseteq> insert a (dom (cents st))"
  proof
    fix b assume "b \<in> fst ` set (rrset_l st')"
    then obtain le where "le \<in> set (rrset_l st')" "b = fst le" by blast
    with others_owners [OF f(12)] assms(1) show "b \<in> insert a (dom (cents st))" unfolding heap_ok_def by blast
  qed
  ultimately show ?thesis using assms(1,4) d by (simp add: heap_ok_def f(1,2))
qed

lemma table_ok_put:
  assumes "table_ok st" and "frame a st st'" and "cents st a = Some c" and "qname c' = qname c"
  shows "table_ok (put_cent a c' st')"
proof -
  note f = frame_fields [OF assms(2)]
  have "qname_at (put_cent a c' st') = qname_at st"
    using assms(3,4) by (rule_tac ext) (simp add: qname_at_def f(1))
  with assms(1) show ?thesis by (auto simp: table_ok_def f(1,3))
qed

lemma total_put:
  assumes "finite C" and "cents st a = Some c" and "cents st' = cents st"
  shows "total C (put_cent a c' st') = total C st + (if a \<in> C then cs c' - cs c else 0)"
proof (cases "a \<in> C")
  case True
  have "total C (put_cent a c' st') = cs c' + (\<Sum>b\<in>C - {a}. cs (the (cents st b)))"
    unfolding total_def using assms True by (subst sum.remove [OF assms(1) True]) (auto intro!: sum.cong)
  moreover have "total C st = cs c + (\<Sum>b\<in>C - {a}. cs (the (cents st b)))"
    unfolding total_def using assms True by (subst sum.remove [OF assms(1) True]) auto
  ultimately show ?thesis using True by simp
next
  case False
  then show ?thesis unfolding total_def using assms by (auto intro!: sum.cong)
qed

lemma core_put:
  assumes "core C d st" and "cents st a = Some c" and "frame a st st'" and "cok a c' st'" and "qname c' = qname c"
  shows "core C (d - (if a \<in> C then cs c' - cs c else 0)) (put_cent a c' st')"
proof -
  note f = frame_fields [OF assms(3)]
  have h: "heap_ok st" "table_ok st" using assms(1) by (simp_all add: core_def)
  have "a < next_addr st" using h(1) assms(2) by (auto simp: heap_ok_def)
  from heap_ok_put [OF h(1) assms(3,4) this] table_ok_put [OF h(2) assms(3,2,5)]
    total_put [OF core_finite_C [OF assms(1)] assms(2) f(1), of c'] assms(1,2)
  show ?thesis by (auto simp: core_def f)
qed

text \<open>The common case, where the counter \<open>cache_size\<close> changes with the size of the entry.\<close>

lemma cache_inv_put:
  assumes "cache_inv st" and "cents st a = Some c" and "frame a st st'" and "cok a c' st'" and "qname c' = qname c"
    and "cs c' = cs c"
  shows "cache_inv (put_cent a c' st')"
proof -
  from assms(1) have "core (dom (cents st)) 0 st" by (simp add: cache_inv_def)
  from core_put [OF this assms(2-5)] assms(1,2,6) frame_fields [OF assms(3)]
  show ?thesis by (auto simp: cache_inv_def insert_absorb domI)
qed

text \<open>An entry that is put in place as it is, its links unchanged.\<close>

lemma cache_inv_dom: "cache_inv st \<Longrightarrow> a \<in> hash_data (hashtab st) \<longleftrightarrow> (\<exists>c. cents st a = Some c)"
  by (auto simp: cache_inv_def dom_def)

subsection \<open>Names and lookups\<close>

lemma core_lookup:
  assumes "core C d st" and "dns_name nm"
  obtains loc where "dns_lookup (qname_at st) (hashtab st) (enc nm @ q) = Some (None, loc)"
      "\<forall>x. \<not> stored (qname_at st) (hashtab st) nm x" "insert_loc (hashtab st) nm loc"
  | a loc c where "dns_lookup (qname_at st) (hashtab st) (enc nm @ q) = Some (Some a, loc)"
      "stored (qname_at st) (hashtab st) nm a" "ent_loc (hashtab st) loc a" "cents st a = Some c" "cok a c st"
proof -
  have t: "hash_ok (qname_at st) (hashtab st)" "hash_data (hashtab st) \<subseteq> dom (cents st)"
    using assms(1) by (simp_all add: core_def table_ok_def)
  from dns_lookup_spec [OF t(1) assms(2), of q] obtain ret loc where
    l: "dns_lookup (qname_at st) (hashtab st) (enc nm @ q) = Some (ret, loc)"
      "case ret of None \<Rightarrow> (\<forall>x. \<not> stored (qname_at st) (hashtab st) nm x) \<and> insert_loc (hashtab st) nm loc
       | Some x \<Rightarrow> stored (qname_at st) (hashtab st) nm x \<and> ent_loc (hashtab st) loc x" by blast
  show ?thesis
  proof (cases ret)
    case None
    with l that(1) show ?thesis by simp
  next
    case (Some a)
    with l have s: "stored (qname_at st) (hashtab st) nm a" "ent_loc (hashtab st) loc a" by simp_all
    then have "a \<in> dom (cents st)" using t(2) by (auto simp: stored_def)
    then obtain c where c: "cents st a = Some c" by blast
    show ?thesis using that(2) [OF _ s c core_cok [OF assms(1) c]] l(1) Some by simp
  qed
qed

lemma cok_name: "cok a c st \<Longrightarrow> \<exists>ls. qname c = enc ls \<and> dns_name ls"
  by (simp add: cok_def cent_ok_def)

subsection \<open>Freeing an entry\<close>

lemma free_entry_heap:
  assumes "heap_ok st"
  shows "heap_ok (st\<lparr>rrset_l := others a (rrset_l st), cents := (cents st)(a := None)\<rparr>)"
proof -
  let ?l = "others a (rrset_l st)"
  have d: "distinct ?l" using assms by (simp add: heap_ok_def others_def)
  have "cok b cb (st\<lparr>rrset_l := ?l\<rparr>)" if "((cents st)(a := None)) b = Some cb" for b cb
  proof -
    from that have b: "b \<noteq> a" "cents st b = Some cb" by (auto split: if_splits)
    have "mine b ?l = mine b (rrset_l st)" using b(1) by (auto simp: mine_def others_def)
    moreover have "rrset_l (st\<lparr>rrset_l := ?l\<rparr>) = ?l" by simp
    ultimately show ?thesis using heap_ok_cok [OF assms b(2)] d unfolding cok_def by metis
  qed
  moreover have "fst ` set ?l \<subseteq> dom (cents st) - {a}"
    using assms by (auto simp: heap_ok_def others_def)
  ultimately show ?thesis using assms d by (auto simp: heap_ok_def)
qed

lemma free_entry_table:
  assumes "table_ok st" and "a \<notin> hash_data (hashtab st)"
  shows "table_ok (st\<lparr>rrset_l := l, cents := (cents st)(a := None)\<rparr>)"
proof -
  have "hash_ok (qname_at (st\<lparr>rrset_l := l, cents := (cents st)(a := None)\<rparr>)) (hashtab st)"
  proof (rule hash_ok_cong)
    show "hash_ok (qname_at st) (hashtab st)" using assms(1) by (simp add: table_ok_def)
    show "qname_at (st\<lparr>rrset_l := l, cents := (cents st)(a := None)\<rparr>) x = qname_at st x"
      if "x \<in> hash_data (hashtab st)" for x using that assms(2) by (auto simp: qname_at_def)
  qed
  with assms show ?thesis by (auto simp: table_ok_def)
qed

definition dropped :: "nat \<Rightarrow> cache \<Rightarrow> cache" where
  "dropped a st = st\<lparr>rrset_l := others a (rrset_l st), cents := (cents st)(a := None),
     cache_size := cache_size st - cs (the (cents st a)), ent_num := ent_num st - 1\<rparr>"

lemma dropped_fields [simp]:
  "cents (dropped a st) = (cents st)(a := None)" "hashtab (dropped a st) = hashtab st"
  "rrset_l (dropped a st) = others a (rrset_l st)" "now (dropped a st) = now st"
  "min_ttl (dropped a st) = min_ttl st" "max_ttl (dropped a st) = max_ttl st" "neg_ttl (dropped a st) = neg_ttl st"
  "perm_cache (dropped a st) = perm_cache st" "mem (dropped a st) = mem st" "next_addr (dropped a st) = next_addr st"
  "insert_sort (dropped a st) = insert_sort st"
  "cache_size (dropped a st) = cache_size st - cs (the (cents st a))"
  by (simp_all add: dropped_def)

lemma del_cent_dropped:
  assumes "cents st a = Some c" and "cok a c st"
  shows "del_cent a st = Some (dropped a st)"
  using assms free_cent_spec [of a c "st\<lparr>cache_size := cache_size st - cs c\<rparr>"]
  by (simp add: del_cent_def dropped_def)

lemma core_dropped:
  assumes "core C d st" and "a \<in> C" and "a \<notin> hash_data (hashtab st)"
  shows "core (C - {a}) d (dropped a st)"
proof -
  let ?st = "st\<lparr>rrset_l := others a (rrset_l st), cents := (cents st)(a := None)\<rparr>"
  from assms have h: "heap_ok ?st" "table_ok ?st"
    by (auto simp: core_def free_entry_heap free_entry_table)
  have fin: "finite C" by (rule core_finite_C [OF assms(1)])
  have "total C st = cs (the (cents st a)) + total (C - {a}) st"
    unfolding total_def by (rule sum.remove [OF fin assms(2)])
  moreover have "total (C - {a}) (dropped a st) = total (C - {a}) st"
    unfolding total_def by (rule sum.cong) auto
  moreover have "int (card (C - {a})) = int (card C) - 1"
    using assms(2) fin by (metis card_Diff_singleton card_gt_0_iff empty_iff int_ops(6) of_nat_1 One_nat_def Suc_leI
        of_nat_diff)
  moreover have "heap_ok (dropped a st)" "table_ok (dropped a st)"
    using h by (simp_all add: heap_ok_def table_ok_def dropped_def)
  ultimately show ?thesis
    using assms(1) unfolding core_def by (auto simp: dropped_def)
qed

text \<open>Changing the table.\<close>

lemma core_table:
  assumes "core C d st" and "hash_ok (qname_at st) ht" and "hash_data ht \<subseteq> dom (cents st)"
  shows "core C d (st\<lparr>hashtab := ht\<rparr>)"
  using assms by (simp add: core_def heap_ok_def table_ok_def total_def)

lemma del_cache_ent_spec:
  assumes "cache_inv st" and "cents st a = Some c" and "case loc of None \<Rightarrow> True | Some l \<Rightarrow> ent_loc (hashtab st) l a"
  shows "\<exists>ht. del_cache_ent a loc st = Some ((dropped a st)\<lparr>hashtab := ht\<rparr>) \<and>
    cache_inv ((dropped a st)\<lparr>hashtab := ht\<rparr>)"
proof -
  from assms(1) have inv: "core (dom (cents st)) 0 st" "hash_data (hashtab st) = dom (cents st)"
    by (simp_all add: cache_inv_def)
  have t: "hash_ok (qname_at st) (hashtab st)" using inv(1) by (simp add: core_def table_ok_def)
  have c: "cok a c st" using core_cok [OF inv(1) assms(2)] .
  have a: "a \<in> hash_data (hashtab st)" using inv(2) assms(2) by auto
  obtain ht where ht: "(case loc of Some l \<Rightarrow> map_option snd (del_dns_hash_ent (hashtab st) l)
      | None \<Rightarrow> map_option snd (del_dns_hash (qname_at st) (hashtab st) (qname c))) = Some ht"
    "hash_ok (qname_at st) ht" "hash_data ht = hash_data (hashtab st) - {a}"
  proof (cases loc)
    case None
    from cok_name [OF c] obtain ls where ls: "qname c = enc ls" "dns_name ls" by blast
    have "stored (qname_at st) (hashtab st) ls a"
      using a assms(2) ls by (auto simp: stored_def names_def qname_at_def)
    with del_dns_hash_spec [OF t ls(2)] hash_ok_unique [OF t] obtain ht where
      "del_dns_hash (qname_at st) (hashtab st) (enc ls) = Some (Some a, ht)" "hash_ok (qname_at st) ht"
      "hash_data ht = hash_data (hashtab st) - {a}" by (auto split: option.splits)
    with ls(1) None that show ?thesis by simp
  next
    case (Some l)
    with assms(3) del_dns_hash_ent_spec [OF t, of l a] that show ?thesis by auto
  qed
  have st1: "core (dom (cents st)) 0 (st\<lparr>hashtab := ht\<rparr>)"
    using core_table [OF inv(1) ht(2)] ht(3) inv(2) by auto
  have "del_cent a (st\<lparr>hashtab := ht\<rparr>) = Some (dropped a (st\<lparr>hashtab := ht\<rparr>))"
    using assms(2) c by (intro del_cent_dropped) simp_all
  moreover have "core (dom (cents st) - {a}) 0 (dropped a (st\<lparr>hashtab := ht\<rparr>))"
    using core_dropped [OF st1, of a] assms(2) ht(3) by auto
  moreover have "dropped a (st\<lparr>hashtab := ht\<rparr>) = (dropped a st)\<lparr>hashtab := ht\<rparr>" by (simp add: dropped_def)
  moreover have "del_cache_ent a loc st = del_cent a (st\<lparr>hashtab := ht\<rparr>)"
    using ht(1) assms(2) by (cases loc) (auto simp: del_cache_ent_def)
  ultimately show ?thesis using ht(3) inv(2) by (auto simp: cache_inv_def)
qed

end
