(* ===== verification/Cache_Purge.thy ===== *)
theory Cache_Purge
  imports Cache_Core
begin

text \<open>
  Purging the record sets of an entry: \<open>purge_rrset\<close> and \<open>purge_all_rrsets\<close>.
\<close>

subsection \<open>Purging the record sets of an entry\<close>

definition pslot :: "cache \<Rightarrow> dns_cent \<Rightarrow> nat \<Rightarrow> bool" where
  "pslot st c i \<longleftrightarrow> (\<exists>s. slot c i = Some s \<and> purgeable st s)"

lemma purgeable_now: "now st' = now st \<Longrightarrow> purgeable st' s = purgeable st s"
  by (simp add: purgeable_def timedout_def)

lemma pslot_now: "now st' = now st \<Longrightarrow> pslot st' c i = pslot st c i"
  using purgeable_now [of st' st] by (simp add: pslot_def)

text \<open>A change of an entry together with the counter of bytes.\<close>

abbreviation (input) shrunk_size :: "dns_cent \<Rightarrow> dns_cent \<Rightarrow> cache \<Rightarrow> cache" where
  "shrunk_size c c' st \<equiv> st\<lparr>cache_size := cache_size st - (cs c - cs c')\<rparr>"

lemma frame_size: "frame a st st' \<Longrightarrow> frame a (st\<lparr>cache_size := k\<rparr>) (st'\<lparr>cache_size := k\<rparr>)"
  unfolding frame_def
proof (elim exE conjE)
  fix l m assume "st' = st\<lparr>rrset_l := l, mem := m\<rparr>" "others a l = others a (rrset_l st)" "mem st = [] \<longrightarrow> m = []"
  then show "\<exists>l m. st'\<lparr>cache_size := k\<rparr> = st\<lparr>cache_size := k\<rparr>\<lparr>rrset_l := l, mem := m\<rparr> \<and>
      others a l = others a (rrset_l (st\<lparr>cache_size := k\<rparr>)) \<and> (mem (st\<lparr>cache_size := k\<rparr>) = [] \<longrightarrow> m = [])"
    by (intro exI [of _ l] exI [of _ m]) simp
qed

definition del_slot_if :: "bool \<Rightarrow> dns_cent \<Rightarrow> nat \<Rightarrow> dns_cent" where
  "del_slot_if b c i = (if b then del_slot c i else c)"

definition unlink_if :: "bool \<Rightarrow> nat \<Rightarrow> nat \<Rightarrow> dns_cent \<Rightarrow> cache \<Rightarrow> cache" where
  "unlink_if b a i c st = (if b then (unlink (a, int i) st)\<lparr>cache_size := cache_size st - slot_size (slot c i)\<rparr> else st)"

lemma purge_rrset_spec:
  assumes "cok a c st" and "i < NRRTOT"
  shows "purge_rrset c i test st =
      Some (pslot st c i, del_slot_if (\<not> test \<and> pslot st c i) c i, unlink_if (\<not> test \<and> pslot st c i) a i c st)"
    and "cok a (del_slot_if b c i) (unlink_if b a i c st)"
    and "frame a (shrunk_size c (del_slot_if b c i) st) (unlink_if b a i c st)"
proof -
  have c: "cent_ok c" using assms(1) by (rule cok_cent_ok)
  note d = del_cent_rrset_spec [OF assms]
  have p: "pslot st c i = (case slot c i of None \<Rightarrow> False | Some s \<Rightarrow> purgeable st s)"
    by (simp add: pslot_def split: option.splits)
  have "cache_size (unlink (a, int i) st) = cache_size st" by simp
  then show "purge_rrset c i test st =
      Some (pslot st c i, del_slot_if (\<not> test \<and> pslot st c i) c i, unlink_if (\<not> test \<and> pslot st c i) a i c st)"
    using c assms(2) d(1) by (simp add: purge_rrset_def p del_slot_if_def unlink_if_def)
  show "cok a (del_slot_if b c i) (unlink_if b a i c st)"
    using d(2) assms(1) by (simp add: del_slot_if_def unlink_if_def)
  have "frame a (st\<lparr>cache_size := cache_size st - slot_size (slot c i)\<rparr>)
      ((unlink (a, int i) st)\<lparr>cache_size := cache_size st - slot_size (slot c i)\<rparr>)" by (rule frame_size) simp
  then show "frame a (shrunk_size c (del_slot_if b c i) st) (unlink_if b a i c st)"
    using del_slot_facts(4) [OF c assms(2)] by (simp add: del_slot_if_def unlink_if_def)
qed

lemma frame_shrunk_trans:
  assumes "frame a (shrunk_size c c' st) st'" and "frame a (shrunk_size c' c'' st') st''"
  shows "frame a (shrunk_size c c'' st) st''"
proof -
  have k: "cache_size st' = cache_size st - (cs c - cs c')" using frame_fields(4) [OF assms(1)] by simp
  have e: "cache_size st' - (cs c' - cs c'') = cache_size st - (cs c - cs c'')" unfolding k by simp
  from frame_size [OF assms(1), of "cache_size st - (cs c - cs c'')"]
  have "frame a (shrunk_size c c'' st) (shrunk_size c' c'' st')" unfolding e by simp
  from frame_trans [OF this assms(2)] show ?thesis .
qed

lemma purge_sets_test:
  assumes "cent_ok c" and "\<forall>i \<in> set is. i < ilim c"
  shows "purge_sets is True (rv, n, e) c st = Some ((rv + length (filter (pslot st c) is),
    n + length (filter (\<lambda>i. slot c i \<noteq> None \<and> \<not> pslot st c i) is),
    e + length (filter (\<lambda>i. slot c i \<noteq> None \<and> \<not> pslot st c i \<and> NRRMU \<le> i) is)), c, st)"
  using assms(2)
proof (induction "is" arbitrary: rv n e)
  case (Cons i "is")
  then show ?case using assms(1) by (cases "slot c i") (auto simp: pslot_def)
qed simp

lemma purge_sets_spec:
  assumes "cok a c st" and "\<forall>i \<in> set is. i < ilim c" and "distinct is"
  shows "\<exists>c' st'. purge_sets is False (rv, n, e) c st = Some ((rv + length (filter (pslot st c) is),
      n + length (filter (\<lambda>i. slot c i \<noteq> None \<and> \<not> pslot st c i) is),
      e + length (filter (\<lambda>i. slot c i \<noteq> None \<and> \<not> pslot st c i \<and> NRRMU \<le> i) is)), c', st') \<and>
    cok a c' st' \<and> frame a (shrunk_size c c' st) st' \<and> same_head c c' \<and>
    is_neg (body c') = is_neg (body c) \<and> has_ext (body c') = has_ext (body c) \<and>
    (\<forall>j < NRRTOT. slot c' j = (if j \<in> set is \<and> pslot st c j then None else slot c j))"
  using assms
proof (induction "is" arbitrary: rv n e c st)
  case Nil
  have "st\<lparr>cache_size := cache_size st\<rparr> = st" by simp
  then show ?case using Nil.prems(1) by (intro exI [of _ c] exI [of _ st]) simp
next
  case (Cons i "is")
  have c: "cent_ok c" using Cons.prems(1) by (rule cok_cent_ok)
  have i: "i < ilim c" "i < NRRTOT" using Cons.prems(2) ilim_le [of c] by auto
  show ?case
  proof (cases "pslot st c i")
    case False
    from Cons.IH [OF Cons.prems(1), of "rv" "if slot c i = None then n else n + 1"
        "if slot c i \<noteq> None \<and> NRRMU \<le> i then e + 1 else e"] Cons.prems(2,3) obtain c' st' where IH:
      "purge_sets is False (rv, if slot c i = None then n else n + 1, if slot c i \<noteq> None \<and> NRRMU \<le> i then e + 1 else e) c st =
        Some ((rv + length (filter (pslot st c) is),
        (if slot c i = None then n else n + 1) + length (filter (\<lambda>i. slot c i \<noteq> None \<and> \<not> pslot st c i) is),
        (if slot c i \<noteq> None \<and> NRRMU \<le> i then e + 1 else e) +
          length (filter (\<lambda>i. slot c i \<noteq> None \<and> \<not> pslot st c i \<and> NRRMU \<le> i) is)), c', st')"
      "cok a c' st'" "frame a (shrunk_size c c' st) st'" "same_head c c'"
      "is_neg (body c') = is_neg (body c)" "has_ext (body c') = has_ext (body c)"
      "\<forall>j < NRRTOT. slot c' j = (if j \<in> set is \<and> pslot st c j then None else slot c j)" by (auto simp del: purge_sets.simps)
    have "purge_sets (i # is) False (rv, n, e) c st =
      purge_sets is False (rv, if slot c i = None then n else n + 1, if slot c i \<noteq> None \<and> NRRMU \<le> i then e + 1 else e) c st"
      using False c i by (cases "slot c i") (auto simp: pslot_def)
    with IH False show ?thesis by (intro exI [of _ c'] exI [of _ st']) simp
  next
    case True
    let ?c = "del_slot c i"
    let ?st = "(unlink (a, int i) st)\<lparr>cache_size := cache_size st - slot_size (slot c i)\<rparr>"
    from True obtain s where s: "slot c i = Some s" "purgeable st s" by (auto simp: pslot_def)
    note d = del_slot_facts [OF c i(2)]
    from purge_rrset_spec(2,3) [OF Cons.prems(1) i(2), of True] have c1: "cok a ?c ?st" "frame a (shrunk_size c ?c st) ?st"
      by (simp_all add: del_slot_if_def unlink_if_def)
    have n: "now ?st = now st" by simp
    have sl: "slot ?c j = slot c j" if "j \<noteq> i" for j using d(2) that by simp
    have ps: "pslot ?st ?c j = pslot st c j" if "j \<in> set is" for j
    proof -
      have "j \<noteq> i" using that Cons.prems(3) by auto
      then show ?thesis by (simp add: pslot_def purgeable_now [OF n] sl)
    qed
    from Cons.IH [OF c1(1), of "rv + 1" n e] Cons.prems(2,3) obtain c' st' where IH:
      "purge_sets is False (rv + 1, n, e) ?c ?st = Some ((rv + 1 + length (filter (pslot ?st ?c) is),
        n + length (filter (\<lambda>i. slot ?c i \<noteq> None \<and> \<not> pslot ?st ?c i) is),
        e + length (filter (\<lambda>i. slot ?c i \<noteq> None \<and> \<not> pslot ?st ?c i \<and> NRRMU \<le> i) is)), c', st')"
      "cok a c' st'" "frame a (shrunk_size ?c c' ?st) st'" "same_head ?c c'"
      "is_neg (body c') = is_neg (body ?c)" "has_ext (body c') = has_ext (body ?c)"
      "\<forall>j < NRRTOT. slot c' j = (if j \<in> set is \<and> pslot ?st ?c j then None else slot ?c j)"
      by (auto simp: d(7) simp del: purge_sets.simps)
    have "cache_size (unlink (a, int i) st) = cache_size st" by simp
    then have step: "purge_sets (i # is) False (rv, n, e) c st = purge_sets is False (rv + 1, n, e) ?c ?st"
      using s c i del_cent_rrset_spec(1) [OF Cons.prems(1) i(2)] by simp
    have f: "filter (pslot ?st ?c) is = filter (pslot st c) is"
      "filter (\<lambda>i. slot ?c i \<noteq> None \<and> \<not> pslot ?st ?c i) is = filter (\<lambda>i. slot c i \<noteq> None \<and> \<not> pslot st c i) is"
      "filter (\<lambda>i. slot ?c i \<noteq> None \<and> \<not> pslot ?st ?c i \<and> NRRMU \<le> i) is =
         filter (\<lambda>i. slot c i \<noteq> None \<and> \<not> pslot st c i \<and> NRRMU \<le> i) is"
    proof -
      have sli: "slot ?c j = slot c j" if "j \<in> set is" for j
      proof -
        have "j \<noteq> i" using that Cons.prems(3) by auto
        then show ?thesis by (rule sl)
      qed
      show "filter (pslot ?st ?c) is = filter (pslot st c) is"
        "filter (\<lambda>i. slot ?c i \<noteq> None \<and> \<not> pslot ?st ?c i) is = filter (\<lambda>i. slot c i \<noteq> None \<and> \<not> pslot st c i) is"
        "filter (\<lambda>i. slot ?c i \<noteq> None \<and> \<not> pslot ?st ?c i \<and> NRRMU \<le> i) is =
           filter (\<lambda>i. slot c i \<noteq> None \<and> \<not> pslot st c i \<and> NRRMU \<le> i) is"
        by (rule filter_cong [OF refl], simp only: ps sli)+
    qed
    have "slot c' j = (if j \<in> set (i # is) \<and> pslot st c j then None else slot c j)" if "j < NRRTOT" for j
      using IH(7) that True sl [of j] ps [of j] d(2) i(2) cok_cent_ok [OF Cons.prems(1)] by (cases "j = i") auto
    moreover have "same_head c c'" by (rule same_head_trans [OF same_head_del_slot IH(4)])
    moreover have "frame a (shrunk_size c c' st) st'" by (rule frame_shrunk_trans [OF c1(2) IH(3)])
    ultimately show ?thesis using step IH(1,2,5,6) d(5,6) True
      unfolding f by (intro exI [of _ c'] exI [of _ st']) simp
  qed
qed

text \<open>Dropping the array of extended sets once all of them are gone.\<close>

lemma drop_ext:
  assumes "cok a c st" and "body c = Recs mu (Some e)" and "\<forall>i < NRRTOT. NRRMU \<le> i \<longrightarrow> slot c i = None"
  shows "cok a (c\<lparr>body := Recs mu None, cs := cs c - sizeof_rrext\<rparr>) st"
    and "slots (Recs mu None) = slots (body c)"
proof -
  let ?c = "c\<lparr>body := Recs mu None, cs := cs c - sizeof_rrext\<rparr>"
  have c: "cent_ok c" using assms(1) by (rule cok_cent_ok)
  then have len: "length mu = NRRMU" "length e = NRREXT" using assms(2) by (auto simp: cent_ok_def)
  have "e = replicate NRREXT None"
  proof (rule nth_equalityI)
    fix j assume "j < length e"
    then have "NRRMU + j < NRRTOT" using len(2) by (simp add: nrr_defs)
    then have "slot c (NRRMU + j) = None" using assms(3) by simp
    moreover have "slot c (NRRMU + j) = e ! j" using assms(2) len(1) by (simp add: nth_append)
    ultimately show "e ! j = replicate NRREXT None ! j" using \<open>j < length e\<close> len(2) by simp
  qed (simp add: len)
  then show sl: "slots (Recs mu None) = slots (body c)" using assms(2) by simp
  have "cent_ok ?c" using c assms(2) sl len by (simp add: cent_ok_def ext_size_def)
  then show "cok a ?c st"
    by (rule cok_same_slots [OF assms(1)]) (use assms(2) sl in simp_all)
qed

lemma filter_upt_0: "length (filter P [0..<n]) = 0 \<longleftrightarrow> (\<forall>i < n. \<not> P i)"
  by (auto simp: filter_empty_conv)

lemma purge_all_rrsets_spec:
  assumes "cok a c st"
  shows "\<exists>rv n c' st'. purge_all_rrsets c test st = Some (rv, n, c', st') \<and> cok a c' st' \<and>
    frame a (shrunk_size c c' st) st' \<and> same_head c c' \<and> is_neg (body c') = is_neg (body c) \<and>
    (test \<longrightarrow> c' = c \<and> st' = st) \<and> (is_neg (body c) \<longrightarrow> c' = c) \<and>
    (\<not> test \<longrightarrow> (\<forall>i < NRRTOT. slot c' i = (if pslot st c i then None else slot c i))) \<and>
    (n = 0 \<longleftrightarrow> (\<forall>i < NRRTOT. slot c i = None \<or> pslot st c i)) \<and> (rv = 0 \<longrightarrow> (\<forall>i < NRRTOT. \<not> pslot st c i))"
proof (cases "is_neg (body c)")
  case True
  have c: "cent_ok c" using assms by (rule cok_cent_ok)
  have none: "\<forall>i < NRRTOT. slot c i = None" using True by (simp add: neg_slot)
  then have np: "\<forall>i < NRRTOT. \<not> pslot st c i" by (simp add: pslot_def)
  have "st\<lparr>cache_size := cache_size st\<rparr> = st" by simp
  then have f: "frame a (shrunk_size c c st) st" by simp
  have "purge_all_rrsets c test st = Some (0, 0, c, st)" using True c by (simp add: purge_all_rrsets_def cent_ok_def)
  with assms f none np show ?thesis
    by (intro exI [of _ 0] exI [of _ c] exI [of _ st]) simp
next
  case False
  have c: "cent_ok c" using assms by (rule cok_cent_ok)
  have n: "\<not> has (ce_flags c) DF_NEGATIVE" using False c by (simp add: cent_ok_def)
  let ?is = "[0..<ilim c]"
  let ?rv = "length (filter (pslot st c) ?is)"
  let ?n = "length (filter (\<lambda>i. slot c i \<noteq> None \<and> \<not> pslot st c i) ?is)"
  let ?e = "length (filter (\<lambda>i. slot c i \<noteq> None \<and> \<not> pslot st c i \<and> NRRMU \<le> i) ?is)"
  have beyond: "slot c i = None \<and> \<not> pslot st c i" if "ilim c \<le> i" "i < NRRTOT" for i
    using slot_beyond [OF c that] by (simp add: pslot_def)
  have st: "st\<lparr>cache_size := cache_size st\<rparr> = st" by simp
  obtain c1 st1 where p: "purge_sets ?is test (0, 0, 0) c st = Some ((?rv, ?n, ?e), c1, st1)" "cok a c1 st1"
    "frame a (shrunk_size c c1 st) st1" "same_head c c1" "is_neg (body c1) = is_neg (body c)"
    "test \<longrightarrow> c1 = c \<and> st1 = st" "has_ext (body c1) = has_ext (body c)"
    "\<not> test \<longrightarrow> (\<forall>j < NRRTOT. slot c1 j = (if pslot st c j then None else slot c j))"
  proof (cases test)
    case True
    with purge_sets_test [OF c, of ?is 0 0 0 st] that [of c st] assms show ?thesis by simp
  next
    case test: False
    from purge_sets_spec [OF assms, of ?is 0 0 0] obtain c1 st1 where
      "purge_sets ?is False (0, 0, 0) c st = Some ((?rv, ?n, ?e), c1, st1)" "cok a c1 st1"
      "frame a (shrunk_size c c1 st) st1" "same_head c c1" "is_neg (body c1) = is_neg (body c)"
      "has_ext (body c1) = has_ext (body c)"
      "\<forall>j < NRRTOT. slot c1 j = (if j \<in> set ?is \<and> pslot st c j then None else slot c j)" by auto
    moreover from this(7) beyond have "\<forall>j < NRRTOT. slot c1 j = (if pslot st c j then None else slot c j)"
      by (auto simp: not_less)
    ultimately show ?thesis using that [of c1 st1] test by simp
  qed
  have rv: "?rv = 0 \<longrightarrow> (\<forall>i < NRRTOT. \<not> pslot st c i)"
    using beyond unfolding filter_upt_0 by (meson not_less)
  have nn: "?n = 0 \<longleftrightarrow> (\<forall>i < NRRTOT. slot c i = None \<or> pslot st c i)"
    using beyond ilim_le [of c] unfolding filter_upt_0 by (meson not_less order_less_le_trans)
  have nneg: "is_neg (body c) \<longrightarrow> x = c" for x using False by simp
  from p(5) False obtain mu ext where b: "body c1 = Recs mu ext" by (cases "body c1") auto
  have run: "purge_all_rrsets c test st = (if ext \<noteq> None \<and> ?e = 0 then
      (if test then Some (?rv + 1, ?n, c1, st1)
       else Some (?rv + 1, ?n, c1\<lparr>body := Recs mu None, cs := cs c1 - sizeof_rrext\<rparr>,
         st1\<lparr>cache_size := cache_size st1 - sizeof_rrext\<rparr>)) else Some (?rv, ?n, c1, st1))"
    using n c p(1) b by (simp add: purge_all_rrsets_def)
  show ?thesis
  proof (cases "ext \<noteq> None \<and> ?e = 0 \<and> \<not> test")
    case False
    then have "purge_all_rrsets c test st = Some (if ext \<noteq> None \<and> ?e = 0 then ?rv + 1 else ?rv, ?n, c1, st1)"
      unfolding run by auto
    moreover have "(if ext \<noteq> None \<and> ?e = 0 then ?rv + 1 else ?rv) = 0 \<longrightarrow> (\<forall>i < NRRTOT. \<not> pslot st c i)"
      by (cases "ext \<noteq> None \<and> ?e = 0"; simp only: if_True if_False add_is_0 one_neq_zero simp_thms; rule rv)
    ultimately show ?thesis
      by (intro exI [of _ "if ext \<noteq> None \<and> ?e = 0 then ?rv + 1 else ?rv"] exI [of _ ?n] exI [of _ c1] exI [of _ st1] conjI)
        (rule p(2-6,8) nn nneg | assumption)+
  next
    case True
    then obtain e where ext: "ext = Some e" by (cases ext) auto
    let ?c = "c1\<lparr>body := Recs mu None, cs := cs c1 - sizeof_rrext\<rparr>"
    let ?st = "st1\<lparr>cache_size := cache_size st1 - sizeof_rrext\<rparr>"
    have "slot c1 i = None" if "i < NRRTOT" "NRRMU \<le> i" for i
    proof -
      have "?e = 0" using True by simp
      then have "slot c i = None \<or> pslot st c i"
        using that beyond [of i] unfolding filter_upt_0 by (meson not_less)
      with p(8) True that(1) show ?thesis by auto
    qed
    with drop_ext [OF p(2) b [unfolded ext]]
    have d: "cok a ?c st1" "slots (body ?c) = slots (body c1)" by auto
    have "purge_all_rrsets c test st = Some (?rv + 1, ?n, ?c, ?st)" using run True by simp
    moreover have "cok a ?c ?st" using d(1) by simp
    moreover have "frame a (shrunk_size c ?c st) ?st"
      by (rule frame_shrunk_trans [OF p(3)]) simp
    moreover have "same_head c ?c" using p(4) by simp
    moreover have "is_neg (body ?c) = is_neg (body c)" using b p(5) by simp
    moreover have "\<forall>i < NRRTOT. slot ?c i = (if pslot st c i then None else slot c i)"
      using d(2) p(8) True by simp
    moreover have "test \<longrightarrow> ?c = c \<and> ?st = st" using True by simp
    moreover have "?rv + 1 = 0 \<longrightarrow> (\<forall>i < NRRTOT. \<not> pslot st c i)" by (simp only: add_is_0 one_neq_zero simp_thms)
    moreover note impI [of "\<not> test", OF \<open>\<forall>i < NRRTOT. slot ?c i = (if pslot st c i then None else slot c i)\<close>]
    ultimately show ?thesis
      by (intro exI [of _ "?rv + 1"] exI [of _ ?n] exI [of _ ?c] exI [of _ ?st] conjI) (rule nn nneg | assumption)+
  qed
qed

end
