(* ===== verification/Cache_Purge_Ent.thy ===== *)
theory Cache_Purge_Ent
  imports Cache_Purge
begin

text \<open>
  What purging may change in the cache, and the effect of \<open>purge_cent\<close> on an entry and on the
  whole cache.
\<close>

subsection \<open>What purging may change\<close>

lemma has_or: "g AND f = 0 \<Longrightarrow> has (fl OR g) f = has fl f"
proof -
  assume "g AND f = 0"
  then have "\<not> (bit g n \<and> bit f n)" for n by (metis bit_0_eq bit_and_iff bot_apply bot_bool_def)
  then have "(fl OR g) AND f = fl AND f"
    by (intro bit_eqI) (auto simp: bit_and_iff bit_or_iff)
  then show ?thesis by (simp add: has_def)
qed

lemma cok_flags:
  assumes "cok a c st" and "has fl DF_NEGATIVE = has (ce_flags c) DF_NEGATIVE"
  shows "cok a (c\<lparr>ce_flags := fl\<rparr>) st"
proof -
  let ?c = "c\<lparr>ce_flags := fl\<rparr>"
  have "cent_ok ?c" using cok_cent_ok [OF assms(1)] assms(2) by (simp add: cent_ok_def)
  moreover have "lents_of a ?c = lents_of a c" "ptr_ok a ?c = ptr_ok a c" by (simp_all add: lents_of_def ptr_ok_def)
  ultimately show ?thesis using assms(1) by (simp add: cok_def)
qed

definition local_slot :: "dns_cent \<Rightarrow> nat \<Rightarrow> bool" where
  "local_slot c i \<longleftrightarrow> (\<exists>s. slot c i = Some s \<and> has (rs_flags s) CF_LOCAL)"

text \<open>Entries that purging never deletes.\<close>

definition kept :: "dns_cent \<Rightarrow> bool" where
  "kept c \<longleftrightarrow> (is_neg (body c) \<and> has (ce_flags c) DF_LOCAL) \<or> (\<exists>i < NRRTOT. local_slot c i)"

definition pur_ent :: "dns_cent \<Rightarrow> dns_cent \<Rightarrow> bool" where
  "pur_ent c c' \<longleftrightarrow> qname c' = qname c \<and> is_neg (body c') = is_neg (body c) \<and>
     (\<forall>f. (DF_NEGATIVE OR DF_AUTH) AND f = 0 \<longrightarrow> has (ce_flags c') f = has (ce_flags c) f) \<and>
     (\<forall>i < NRRTOT. slot c' i = slot c i \<or> slot c' i = None \<and> \<not> local_slot c i)"

definition same_conf :: "cache \<Rightarrow> cache \<Rightarrow> bool" where
  "same_conf st st' \<longleftrightarrow> now st' = now st \<and> min_ttl st' = min_ttl st \<and> max_ttl st' = max_ttl st \<and>
     neg_ttl st' = neg_ttl st \<and> perm_cache st' = perm_cache st \<and> (mem st = [] \<longrightarrow> mem st' = [])"

definition pur :: "cache \<Rightarrow> cache \<Rightarrow> bool" where
  "pur st st' \<longleftrightarrow> same_conf st st' \<and> (\<forall>a. cents st a = None \<longrightarrow> cents st' a = None) \<and>
     (\<forall>a c. cents st a = Some c \<longrightarrow> (case cents st' a of None \<Rightarrow> \<not> kept c | Some c' \<Rightarrow> pur_ent c c'))"

lemma same_conf_refl [simp]: "same_conf st st"
  by (simp add: same_conf_def)

lemma same_conf_trans: "same_conf st st' \<Longrightarrow> same_conf st' st'' \<Longrightarrow> same_conf st st''"
  by (simp add: same_conf_def)

lemma same_conf_frame: "frame a st st' \<Longrightarrow> same_conf st st'"
  by (simp add: same_conf_def frame_fields)

lemma same_conf_simps [simp]:
  "same_conf st (put_cent a c st') = same_conf st st'" "same_conf st (dropped a st') = same_conf st st'"
  "same_conf st (st'\<lparr>hashtab := ht\<rparr>) = same_conf st st'" "same_conf st (st'\<lparr>cache_size := k\<rparr>) = same_conf st st'"
  "same_conf st (st'\<lparr>insert_sort := b\<rparr>) = same_conf st st'" "same_conf st (st'\<lparr>rrset_l := l\<rparr>) = same_conf st st'"
  "same_conf (st\<lparr>cache_size := k\<rparr>) st' = same_conf st st'" "same_conf st (st'\<lparr>ent_num := k\<rparr>) = same_conf st st'"
  "same_conf st (st'\<lparr>next_addr := a\<rparr>) = same_conf st st'"
  by (simp_all add: same_conf_def)

lemma pur_ent_refl [simp]: "pur_ent c c"
  by (simp add: pur_ent_def)

lemma pur_ent_local: "pur_ent c c' \<Longrightarrow> i < NRRTOT \<Longrightarrow> local_slot c i \<Longrightarrow> slot c' i = slot c i"
  by (auto simp: pur_ent_def)

lemma df_local_mask [simp]: "(DF_NEGATIVE OR DF_AUTH) AND DF_LOCAL = 0"
  by (simp add: df_defs)

lemma pur_ent_kept: "pur_ent c c' \<Longrightarrow> kept c \<Longrightarrow> kept c'"
proof -
  assume p: "pur_ent c c'" and k: "kept c"
  have d: "has (ce_flags c') DF_LOCAL = has (ce_flags c) DF_LOCAL" "is_neg (body c') = is_neg (body c)"
    using p by (simp_all add: pur_ent_def)
  show ?thesis
  proof (cases "\<exists>i < NRRTOT. local_slot c i")
    case True
    then obtain i where i: "i < NRRTOT" "local_slot c i" by blast
    then have "local_slot c' i" using pur_ent_local [OF p i] by (simp add: local_slot_def)
    with i show ?thesis by (auto simp: kept_def)
  next
    case False
    with k d show ?thesis by (simp add: kept_def)
  qed
qed

lemma pur_ent_trans: "pur_ent c c' \<Longrightarrow> pur_ent c' c'' \<Longrightarrow> pur_ent c c''"
proof -
  assume p: "pur_ent c c'" "pur_ent c' c''"
  have "slot c'' i = slot c i \<or> slot c'' i = None \<and> \<not> local_slot c i" if "i < NRRTOT" for i
  proof -
    have 1: "slot c' i = slot c i \<or> slot c' i = None \<and> \<not> local_slot c i" using p(1) that by (simp add: pur_ent_def)
    have 2: "slot c'' i = slot c' i \<or> slot c'' i = None \<and> \<not> local_slot c' i" using p(2) that by (simp add: pur_ent_def)
    from 1 2 show ?thesis by (auto simp: local_slot_def)
  qed
  with p show ?thesis by (simp add: pur_ent_def)
qed

lemma pur_refl [simp]: "pur st st"
  by (auto simp: pur_def split: option.splits)

lemma pur_trans:
  assumes "pur st st'" and "pur st' st''"
  shows "pur st st''"
proof -
  have "case cents st'' a of None \<Rightarrow> \<not> kept c | Some c' \<Rightarrow> pur_ent c c'" if c: "cents st a = Some c" for a c
  proof (cases "cents st' a")
    case None
    then have "\<not> kept c" "cents st'' a = None" using assms c by (auto simp: pur_def split: option.splits)
    then show ?thesis by simp
  next
    case (Some c')
    with assms(1) c have p: "pur_ent c c'" by (auto simp: pur_def split: option.splits)
    show ?thesis
    proof (cases "cents st'' a")
      case None
      with assms(2) Some have "\<not> kept c'" by (auto simp: pur_def split: option.splits)
      with pur_ent_kept [OF p] None show ?thesis by auto
    next
      case (Some c'')
      with assms(2) \<open>cents st' a = Some c'\<close> have "pur_ent c' c''" by (auto simp: pur_def split: option.splits)
      with pur_ent_trans [OF p] Some show ?thesis by simp
    qed
  qed
  with assms show ?thesis unfolding pur_def by (blast intro: same_conf_trans)
qed

lemma pur_put:
  assumes "cents st a = Some c" and "cents st' = cents st" and "same_conf st st'" and "pur_ent c c'"
  shows "pur st (put_cent a c' st')"
  using assms unfolding pur_def by (auto split: option.splits)

lemma pur_drop:
  assumes "cents st a = Some c" and "\<not> kept c"
  shows "pur st ((dropped a st)\<lparr>hashtab := ht\<rparr>)"
proof -
  have s: "cents ((dropped a st)\<lparr>hashtab := ht\<rparr>) = (cents st)(a := None)" by simp
  show ?thesis unfolding pur_def s using assms by (auto split: option.splits)
qed

subsection \<open>Purging an entry\<close>

lemma GET_RRSMU_slot: "cent_ok c \<Longrightarrow> i < NRRMU \<Longrightarrow> GET_RRSMU c i = Some (slot c i)"
  by (cases "body c") (auto simp: GET_RRSMU_def cent_ok_def nrr_defs rd_def nth_append split: option.splits)

lemma dns_name_drop: "dns_name ls \<Longrightarrow> dns_name (drop k ls)"
proof -
  assume a: "dns_name ls"
  have "length (enc (drop k ls)) \<le> length (enc ls)"
    using enc_labels_append [of "take k ls" "drop k ls"] by (simp add: enc_def)
  with a show ?thesis by (auto simp: dns_name_def dns_labels_def dest: in_set_dropD)
qed

lemma drop_enc: "drop (length (enc_labels (take k ls))) (enc ls) = enc (drop k ls)"
  using enc_labels_append [of "take k ls" "drop k ls"] by (simp add: enc_def)

lemma stale_ref_total:
  assumes "core C d st" and "cent_ok c" and "i < NRRMU"
  shows "\<exists>b. stale_ref c n i st = Some b"
proof -
  from assms(2) obtain ls where ls: "qname c = enc ls" "dns_name ls" by (auto simp: cent_ok_def)
  have ok: "labels_ok ls" using ls(2) by (rule dns_name_labels_ok)
  have cnt: "rhnsegcnt (qname c) = Some (length ls)" using ls ok by simp
  have "\<exists>r. ref_set c n i st = Some r"
  proof (cases "unat n < length ls")
    case True
    let ?k = "length ls - unat n"
    have s: "skipsegs (qname c) 0 ?k = Some (length (enc_labels (take ?k ls)))"
      using skipsegs_enc [OF ok, of "[]" ?k] ls(1) by simp
    show ?thesis
    proof (rule core_lookup [OF assms(1) dns_name_drop [OF ls(2), of ?k], of "[]"])
      fix loc assume "dns_lookup (qname_at st) (hashtab st) (enc (drop ?k ls) @ []) = Some (None, loc)"
      with True s ls(1) show ?thesis by (simp add: ref_set_def ok drop_enc)
    next
      fix a loc ce assume "dns_lookup (qname_at st) (hashtab st) (enc (drop ?k ls) @ []) = Some (Some a, loc)"
        "cents st a = Some ce" "cok a ce st"
      with True s ls(1) assms(3) show ?thesis by (simp add: ref_set_def ok drop_enc GET_RRSMU_slot cok_cent_ok)
    qed
  next
    case False
    then show ?thesis using assms(2,3) cnt by (auto simp: ref_set_def GET_RRSMU_slot)
  qed
  then show ?thesis by (auto simp: stale_ref_def)
qed


lemma purgeable_not_local: "pslot st c i \<Longrightarrow> \<not> local_slot c i"
  by (auto simp: pslot_def local_slot_def purgeable_def)

lemma pur_ent_purged:
  assumes "same_head c c'" and "is_neg (body c') = is_neg (body c)"
    and "\<forall>i < NRRTOT. slot c' i = (if pslot st c i then None else slot c i)"
  shows "pur_ent c c'"
  using assms purgeable_not_local unfolding pur_ent_def same_head_def by metis

lemma cok_refs: "cok a (c\<lparr>c_ns := n\<rparr>) st = cok a c st" "cok a (c\<lparr>c_soa := n\<rparr>) st = cok a c st"
  by (simp_all add: cok_def cent_ok_def ptr_ok_def lents_of_def)

lemma pur_ent_refs: "pur_ent c (c'\<lparr>c_ns := n\<rparr>) = pur_ent c c'" "pur_ent c (c'\<lparr>c_soa := n\<rparr>) = pur_ent c c'"
  by (simp_all add: pur_ent_def)

text \<open>Clearing the stale references: the last part of \<open>purge_cent\<close>.\<close>

definition refs_cleared :: "dns_cent \<Rightarrow> dns_cent \<Rightarrow> bool" where
  "refs_cleared c c' \<longleftrightarrow> (\<exists>n m. c' = c\<lparr>c_ns := n, c_soa := m\<rparr> \<and> (n = c_ns c \<or> n = cundef) \<and> (m = c_soa c \<or> m = cundef))"

lemma cache_inv_refs:
  assumes "cache_inv st" and "cents st a = Some c" and "c' = c\<lparr>c_ns := n, c_soa := m\<rparr>"
  shows "cache_inv (put_cent a c' st)"
proof -
  have "cok a c st" using assms(1,2) core_cok by (auto simp: cache_inv_def)
  then have "cok a c' st" unfolding assms(3) cok_refs .
  then show ?thesis by (rule cache_inv_put [OF assms(1,2) frame_refl]) (simp_all add: assms(3))
qed

lemma stale_check:
  assumes "cache_inv st" and "cents st a = Some c" and "i < NRRMU"
  shows "\<exists>b. (if n \<noteq> cundef then stale_ref c n i st else Some False) = Some b"
proof -
  have "core (dom (cents st)) 0 st" using assms(1) by (simp add: cache_inv_def)
  from stale_ref_total [OF this core_cent_ok [OF this assms(2)] assms(3), of n] show ?thesis by auto
qed

lemma purge_refs_spec:
  assumes "cache_inv st" and "cents st a = Some c"
  shows "\<exists>n c'. (do {
       ns \<leftarrow> (if c_ns c \<noteq> cundef then stale_ref c (c_ns c) RRMUINDEX_NS st else Some False);
       let c2 = (if ns \<and> \<not> test then c\<lparr>c_ns := cundef\<rparr> else c);
       let st3 = st\<lparr>cents := (cents st)(a \<mapsto> c2)\<rparr>;
       soa \<leftarrow> (if c_soa c2 \<noteq> cundef then stale_ref c2 (c_soa c2) RRMUINDEX_SOA st3 else Some False);
       let c3 = (if soa \<and> \<not> test then c2\<lparr>c_soa := cundef\<rparr> else c2);
       Some (Some (npurge + (if ns then 1 else 0) + (if soa then 1 else 0)),
         st3\<lparr>cents := (cents st3)(a \<mapsto> c3)\<rparr>)
     }) = Some (Some (npurge + n :: nat), put_cent a c' st) \<and> refs_cleared c c' \<and> (test \<longrightarrow> c' = c)"
proof -
  have mu: "RRMUINDEX_NS < NRRMU" "RRMUINDEX_SOA < NRRMU" by (simp_all add: RRMUINDEX_NS_def RRMUINDEX_SOA_def nrr_defs)
  from stale_check [OF assms mu(1)] obtain ns where
    ns: "(if c_ns c \<noteq> cundef then stale_ref c (c_ns c) RRMUINDEX_NS st else Some False) = Some ns" by blast
  let ?c2 = "if ns \<and> \<not> test then c\<lparr>c_ns := cundef\<rparr> else c"
  let ?st3 = "put_cent a ?c2 st"
  have c2: "?c2 = c\<lparr>c_ns := (if ns \<and> \<not> test then cundef else c_ns c), c_soa := c_soa c\<rparr>" by simp
  have inv3: "cache_inv ?st3" by (rule cache_inv_refs [OF assms c2])
  have a3: "cents ?st3 a = Some ?c2" by simp
  from stale_check [OF inv3 a3 mu(2)] obtain soa where
    soa: "(if c_soa ?c2 \<noteq> cundef then stale_ref ?c2 (c_soa ?c2) RRMUINDEX_SOA ?st3 else Some False) = Some soa" by blast
  let ?c3 = "if soa \<and> \<not> test then ?c2\<lparr>c_soa := cundef\<rparr> else ?c2"
  have "refs_cleared c ?c3" unfolding refs_cleared_def
    by (intro exI [of _ "if ns \<and> \<not> test then cundef else c_ns c"] exI [of _ "if soa \<and> \<not> test then cundef else c_soa c"]) simp
  moreover have "test \<longrightarrow> ?c3 = c" by simp
  moreover have st3: "st\<lparr>cents := (cents st)(a \<mapsto> ?c2)\<rparr> = ?st3" by (simp add: put_cent_def)
  moreover have "?st3\<lparr>cents := (cents ?st3)(a \<mapsto> ?c3)\<rparr> = put_cent a ?c3 st" by (simp add: put_cent_def)
  ultimately show ?thesis
    unfolding ns bind.bind_lunit Let_def st3 soa
    by (intro exI [of _ "(if ns then 1 else 0) + (if soa then 1 else 0)"] exI [of _ ?c3]) simp
qed

subsection \<open>What must go\<close>

text \<open>
  The reference for purging, on the fields alone: a record set has lapsed when its time is over
  and neither \<open>CF_LOCAL\<close> nor \<open>CF_NOPURGE\<close> keeps it, and an entry when all its sets have, provided
  that, if it is negative, it is not local and its own time is over.
\<close>

definition lapsed :: "cache \<Rightarrow> rr_set \<Rightarrow> bool" where
  "lapsed st s \<longleftrightarrow> \<not> has (rs_flags s) CF_LOCAL \<and> \<not> has (rs_flags s) CF_NOPURGE \<and>
     rs_ts s + max CACHE_LAT (rs_ttl s) < now st"

definition lapsed_cent :: "cache \<Rightarrow> dns_cent \<Rightarrow> bool" where
  "lapsed_cent st c \<longleftrightarrow> (\<forall>i < NRRTOT. \<forall>s. slot c i = Some s \<longrightarrow> lapsed st s) \<and>
     (case body c of Recs mu ext \<Rightarrow> True
      | Neg l ttl ts \<Rightarrow> \<not> has (ce_flags c) DF_LOCAL \<and> ts + max CACHE_LAT ttl < now st)"

lemma CLAT_ADJ_max: "CLAT_ADJ ttl = max CACHE_LAT ttl"
  by (simp add: CLAT_ADJ_def)

lemma purgeable_lapsed: "purgeable st s = lapsed st s"
  by (auto simp: purgeable_def lapsed_def timedout_def CLAT_ADJ_max)

lemma pslot_lapsed: "pslot st c i \<longleftrightarrow> (\<exists>s. slot c i = Some s \<and> lapsed st s)"
  by (simp add: pslot_def purgeable_lapsed)

lemma all_lapsed:
  "(\<forall>i < NRRTOT. slot c i = None \<or> pslot st c i) \<longleftrightarrow> (\<forall>i < NRRTOT. \<forall>s. slot c i = Some s \<longrightarrow> lapsed st s)"
  unfolding pslot_lapsed by (metis option.exhaust option.inject option.simps(3))

text \<open>The decision of \<open>purge_cent\<close> to delete an entry, after its sets are purged.\<close>

lemma gone_lapsed:
  assumes "cent_ok c1" and "is_neg (body c1) = is_neg (body c)" and "is_neg (body c) \<longrightarrow> c1 = c" and "now st2 = now st"
    and "n = 0 \<longleftrightarrow> (\<forall>i < NRRTOT. slot c i = None \<or> pslot st c i)"
  shows "(if \<not> (delete \<and> n = 0) then Some False
       else if \<not> has (ce_flags c1) DF_NEGATIVE then Some True
       else if has (ce_flags c1) DF_LOCAL then Some False
       else timedout_nxdom st2 c1) = Some (delete \<and> lapsed_cent st c)"
proof (cases "body c")
  case (Neg l ttl ts)
  with assms(3) have "c1 = c" by simp
  moreover have "has (ce_flags c1) DF_NEGATIVE" using assms(1,2) Neg by (simp add: cent_ok_def)
  ultimately show ?thesis using Neg assms(4,5)
    unfolding lapsed_cent_def all_lapsed by (simp add: timedout_nxdom_def CLAT_ADJ_max)
next
  case (Recs mu ext)
  then have "\<not> has (ce_flags c1) DF_NEGATIVE" using assms(1,2) by (simp add: cent_ok_def)
  with Recs assms(5) show ?thesis unfolding lapsed_cent_def all_lapsed by simp
qed

lemma timedout_nxdom_neg: "is_neg (body c) \<Longrightarrow> \<exists>b. timedout_nxdom st c = Some b"
  by (cases "body c") (simp_all add: timedout_nxdom_def)

lemma purge_cent_spec:
  assumes "cache_inv st" and "cents st a = Some c"
  shows "\<exists>r st'. purge_cent a delete test st = Some (r, st') \<and> cache_inv st' \<and> pur st st' \<and>
    (\<forall>b. b \<noteq> a \<longrightarrow> cents st' b = cents st b) \<and> (test \<longrightarrow> st' = st) \<and>
    (case r of None \<Rightarrow> delete \<and> (test \<or> cents st' a = None) \<and> (\<forall>i < NRRTOT. slot c i = None \<or> pslot st c i)
     | Some n \<Rightarrow> \<exists>c'. cents st' a = Some c' \<and> pur_ent c c' \<and> (is_neg (body c) \<longrightarrow> body c' = body c) \<and> (n = 0 \<longrightarrow> (\<forall>i < NRRTOT. \<not> pslot st c i)) \<and>
        (\<not> test \<longrightarrow> (\<forall>i < NRRTOT. slot c' i = (if pslot st c i then None else slot c i)))) \<and>
    (r = None \<longleftrightarrow> delete \<and> lapsed_cent st c)"
proof -
  have co: "core (dom (cents st)) 0 st" using assms(1) by (simp add: cache_inv_def)
  note c = core_cok [OF co assms(2)]
  from purge_all_rrsets_spec [OF c, of test] obtain rv n c1 st1 where
    p: "purge_all_rrsets c test st = Some (rv, n, c1, st1)" "cok a c1 st1" "frame a (shrunk_size c c1 st) st1"
      "same_head c c1" "is_neg (body c1) = is_neg (body c)" "test \<longrightarrow> c1 = c \<and> st1 = st" "is_neg (body c) \<longrightarrow> c1 = c"
      "\<not> test \<longrightarrow> (\<forall>i < NRRTOT. slot c1 i = (if pslot st c i then None else slot c i))"
      "n = 0 \<longleftrightarrow> (\<forall>i < NRRTOT. slot c i = None \<or> pslot st c i)" "rv = 0 \<longrightarrow> (\<forall>i < NRRTOT. \<not> pslot st c i)" by blast
  let ?st2 = "put_cent a c1 st1"
  have st2: "st1\<lparr>cents := (cents st1)(a \<mapsto> c1)\<rparr> = ?st2" by (simp add: put_cent_def)
  have test2: "test \<longrightarrow> ?st2 = st" using p(6) assms(2) by (auto simp: put_cent_same)
  have inv2: "cache_inv ?st2"
  proof -
    let ?k = "- (cs c - cs c1)"
    have "shrunk_size c c1 st = st\<lparr>cache_size := cache_size st + ?k\<rparr>" by simp
    with core_size [OF co, of ?k] have "core (dom (cents st)) ?k (shrunk_size c c1 st)" by (metis add_0)
    from core_put [OF this _ p(3,2), of c] p(4) assms(2) have "core (dom (cents st)) 0 ?st2"
      by (simp add: same_head_def domI)
    moreover have "cents st1 = cents st" "hashtab st1 = hashtab st" using frame_fields [OF p(3)] by simp_all
    ultimately show ?thesis using assms by (auto simp: cache_inv_def insert_absorb domI)
  qed
  have pe: "pur_ent c c1" using p(6,8) pur_ent_purged [OF p(4,5)] by (cases test) auto
  have f1: "cents st1 = cents st" "same_conf st st1" using frame_fields(1) [OF p(3)] same_conf_frame [OF p(3)] by simp_all
  have pur2: "pur st ?st2" by (rule pur_put [OF assms(2) f1 pe])
  have c1: "cents ?st2 a = Some c1" by simp
  have cok1: "cent_ok c1" using p(2) by (rule cok_cent_ok)
  have run: "purge_cent a delete test st = do {
     gone \<leftarrow> (if \<not> (delete \<and> n = 0) then Some False
       else if \<not> has (ce_flags c1) DF_NEGATIVE then Some True
       else if has (ce_flags c1) DF_LOCAL then Some False
       else timedout_nxdom ?st2 c1);
     if gone then
       (if test then Some (None, ?st2)
        else do { st3 \<leftarrow> del_cache_ent a None ?st2; Some (None, st3) })
     else if has (ce_flags c1) DF_LOCAL then Some (Some rv, ?st2)
     else do {
       ns \<leftarrow> (if c_ns c1 \<noteq> cundef then stale_ref c1 (c_ns c1) RRMUINDEX_NS ?st2 else Some False);
       let c2 = (if ns \<and> \<not> test then c1\<lparr>c_ns := cundef\<rparr> else c1);
       let st3 = ?st2\<lparr>cents := (cents ?st2)(a \<mapsto> c2)\<rparr>;
       soa \<leftarrow> (if c_soa c2 \<noteq> cundef then stale_ref c2 (c_soa c2) RRMUINDEX_SOA st3 else Some False);
       let c3 = (if soa \<and> \<not> test then c2\<lparr>c_soa := cundef\<rparr> else c2);
       Some (Some (rv + (if ns then 1 else 0) + (if soa then 1 else 0)),
         st3\<lparr>cents := (cents st3)(a \<mapsto> c3)\<rparr>)
     }}"
    unfolding purge_cent_def assms(2) p(1) bind.bind_lunit prod.case Let_def st2 ..
  have now2: "now ?st2 = now st" using f1(2) by (simp add: same_conf_def)
  define gone where "gone = (delete \<and> lapsed_cent st c)"
  have g: "(if \<not> (delete \<and> n = 0) then Some False
       else if \<not> has (ce_flags c1) DF_NEGATIVE then Some True
       else if has (ce_flags c1) DF_LOCAL then Some False
       else timedout_nxdom ?st2 c1) = Some gone"
    unfolding gone_def by (rule gone_lapsed [OF cok1 p(5,7) now2 p(9)])
  have g2: "gone \<longrightarrow> delete \<and> n = 0 \<and> (is_neg (body c1) \<longrightarrow> \<not> has (ce_flags c1) DF_LOCAL)"
    using p(5,7,9) unfolding gone_def lapsed_cent_def all_lapsed by (auto split: cent_body.splits)
  have nb: "is_neg (body c) \<longrightarrow> body c1 = body c" using p(7) by auto
  note none = gone_def [symmetric]
  have others2: "\<forall>b. b \<noteq> a \<longrightarrow> cents ?st2 b = cents st b" using f1(1) by simp
  show ?thesis
  proof (cases gone)
    case True
    with g2 p(9) have all: "delete" "\<forall>i < NRRTOT. slot c i = None \<or> pslot st c i" by auto
    have nk: "\<not> kept c1"
    proof -
      have "\<not> local_slot c1 i" if "i < NRRTOT" for i
      proof -
        have "\<not> local_slot c i" using all(2) that purgeable_not_local by (auto simp: local_slot_def)
        moreover have "slot c1 i = slot c i \<or> slot c1 i = None" using pe that by (auto simp: pur_ent_def)
        ultimately show ?thesis by (auto simp: local_slot_def)
      qed
      with g2 True show ?thesis by (auto simp: kept_def)
    qed
    show ?thesis
    proof (cases test)
      case t: True
      have "purge_cent a delete test st = Some (None, st)"
        unfolding run g using True t test2 by simp
      with all assms(1) t show ?thesis unfolding none using True by (intro exI [of _ None] exI [of _ st]) simp
    next
      case t: False
      from del_cache_ent_spec [OF inv2 c1, of None] obtain ht where
        d: "del_cache_ent a None ?st2 = Some ((dropped a ?st2)\<lparr>hashtab := ht\<rparr>)"
          "cache_inv ((dropped a ?st2)\<lparr>hashtab := ht\<rparr>)" by auto
      have "purge_cent a delete test st = Some (None, (dropped a ?st2)\<lparr>hashtab := ht\<rparr>)"
        unfolding run g using True t d(1) by simp
      moreover have "pur st ((dropped a ?st2)\<lparr>hashtab := ht\<rparr>)"
        by (rule pur_trans [OF pur2 pur_drop [OF c1 nk]])
      moreover have "\<forall>b. b \<noteq> a \<longrightarrow> cents ((dropped a ?st2)\<lparr>hashtab := ht\<rparr>) b = cents st b" using f1(1) by simp
      ultimately show ?thesis unfolding none using all d(2) t True
        by (intro exI [of _ None] exI [of _ "(dropped a ?st2)\<lparr>hashtab := ht\<rparr>"]) simp
    qed
  next
    case False
    have rv0: "rv + k = 0 \<longrightarrow> (\<forall>i < NRRTOT. \<not> pslot st c i)" for k using p(10) by simp
    show ?thesis
    proof (cases "has (ce_flags c1) DF_LOCAL")
      case True
      have "purge_cent a delete test st = Some (Some rv, ?st2)"
        unfolding run g using False True by simp
      with inv2 pur2 others2 test2 pe p(8) rv0 [of 0] False nb show ?thesis unfolding none
        by (intro exI [of _ "Some rv"] exI [of _ ?st2]) simp
    next
      case loc: False
      from purge_refs_spec [OF inv2 c1, of test rv] obtain k c' where
        k: "purge_cent a delete test st = Some (Some (rv + k), put_cent a c' ?st2)" "refs_cleared c1 c'" "test \<longrightarrow> c' = c1"
        unfolding run g using False loc by auto
      from k(2) obtain x y where c': "c' = c1\<lparr>c_ns := x, c_soa := y\<rparr>" unfolding refs_cleared_def by blast
      have inv': "cache_inv (put_cent a c' ?st2)" by (rule cache_inv_refs [OF inv2 c1 c'])
      have pe': "pur_ent c c'" "body c' = body c1" using pe unfolding c' pur_ent_refs by simp_all
      have "pur st (put_cent a c' ?st2)" using pur_put [OF assms(2) f1 pe'(1)] by simp
      moreover have "test \<longrightarrow> put_cent a c' ?st2 = st" using k(3) test2 put_cent_put_cent [of a c1 c1 st1] by metis
      ultimately show ?thesis unfolding none using k(1) inv' others2 pe' p(8) rv0 [of k] False nb
        by (intro exI [of _ "Some (rv + k)"] exI [of _ "put_cent a c' ?st2"]) simp
    qed
  qed
qed

end
