(* ===== verification/Cache_Sort.thy ===== *)
theory Cache_Sort
  imports Cache "HOL-Library.Multiset"
begin

text \<open>
  The merge sort of \<open>sort_rrl\<close>: \<open>listmerge\<close> merges sorted lists stably, the array \<open>tmp\<close>
  behaves like a binary counter, and the result is the stably sorted list for any length the
  array has room for.
\<close>

subsection \<open>Merging\<close>

abbreviation tsorted :: "(int \<times> 'a) list \<Rightarrow> bool" where
  "tsorted l \<equiv> sorted (map fst l)"

lemma mset_listmerge [simp]: "mset (listmerge p q) = mset p + mset q"
  by (induction p q rule: listmerge.induct) auto

lemma set_listmerge [simp]: "set (listmerge p q) = set p \<union> set q"
  by (metis mset_listmerge set_mset_mset set_mset_union)

lemma length_listmerge [simp]: "length (listmerge p q) = length p + length q"
  by (metis mset_listmerge size_mset size_union)

lemma listmerge_Nil [simp]: "listmerge p [] = p"
  by (cases p) simp_all

lemma tsorted_listmerge: "tsorted p \<Longrightarrow> tsorted q \<Longrightarrow> tsorted (listmerge p q)"
  by (induction p q rule: listmerge.induct) (auto simp: not_le intro: order_trans less_imp_le)

text \<open>Stability: elements with equal stamps keep their order, those of the first list first.\<close>

abbreviation at_time :: "int \<Rightarrow> (int \<times> 'a) list \<Rightarrow> (int \<times> 'a) list" where
  "at_time t l \<equiv> filter (\<lambda>x. fst x = t) l"

lemma at_time_listmerge: "tsorted p \<Longrightarrow> tsorted q \<Longrightarrow> at_time t (listmerge p q) = at_time t p @ at_time t q"
proof (induction p q rule: listmerge.induct)
  case (3 p ps q qs)
  show ?case
  proof (cases "fst p \<le> fst q")
    case True
    with 3 show ?thesis by simp
  next
    case False
    have "at_time (fst q) (p # ps) = []"
      using False 3(3) by (auto simp: filter_empty_conv)
    with False 3 show ?thesis by (auto simp: filter_empty_conv)
  qed
qed simp_all

text \<open>A list is determined by sortedness and its parts of equal stamp.\<close>

lemma stable_unique:
  assumes "tsorted l" and "tsorted l'" and "\<forall>t. at_time t l = at_time t l'"
  shows "l = l'"
  using assms
proof (induction l arbitrary: l')
  case Nil
  then show ?case by (cases l') (auto split: if_splits)
next
  case (Cons x l)
  show ?case
  proof (cases l')
    case Nil
    have "at_time (fst x) (x # l) = at_time (fst x) l'" using Cons.prems(3) by blast
    with Nil show ?thesis by simp
  next
    case (Cons y r)
    have eq: "at_time t (x # l) = at_time t (y # r)" for t using Cons.prems(3) Cons by blast
    have "x \<in> set (at_time (fst x) (x # l))" by simp
    then have "x \<in> set (y # r)" unfolding eq by (simp only: set_filter mem_Collect_eq)
    then have "fst y \<le> fst x" using Cons.prems(2) Cons by auto
    moreover have "y \<in> set (at_time (fst y) (y # r))" by simp
    then have "y \<in> set (x # l)" unfolding eq [symmetric] by (simp only: set_filter mem_Collect_eq)
    then have "fst x \<le> fst y" using Cons.prems(1) by auto
    ultimately have f: "fst x = fst y" by simp
    have xy: "x = y" using eq [of "fst x"] f by simp
    have "at_time t l = at_time t r" for t using eq [of t] xy by (simp split: if_splits)
    with Cons.IH [of r] Cons.prems(1,2) Cons xy show ?thesis by simp
  qed
qed

subsection \<open>The array of fragments\<close>

text \<open>
  The elements in the array, in the order of the input: a fragment with a higher index holds
  earlier elements.
\<close>

definition frag_ok :: "nat \<Rightarrow> (int \<times> 'a) list list \<Rightarrow> bool" where
  "frag_ok k tmp \<longleftrightarrow> (\<forall>i < length tmp. tsorted (tmp ! i) \<and> (tmp ! i = [] \<or> length (tmp ! i) = 2 ^ (k + i)))"

fun frag_at :: "int \<Rightarrow> (int \<times> 'a) list list \<Rightarrow> (int \<times> 'a) list" where
  "frag_at t [] = []"
| "frag_at t (f # fs) = frag_at t fs @ at_time t f"

lemma frag_ok_Nil [simp]: "frag_ok k []"
  by (simp add: frag_ok_def)

lemma frag_ok_Cons [simp]:
  "frag_ok k (f # fs) \<longleftrightarrow> tsorted f \<and> (f = [] \<or> length f = 2 ^ k) \<and> frag_ok (Suc k) fs"
  by (auto simp: frag_ok_def less_Suc_eq_0_disj nth_Cons')

lemma carry_in_spec:
  assumes "frag_ok k tmp" and "tsorted carry" and "length carry = 2 ^ k" and "length tmp \<le> n"
    and "length (concat tmp) + 2 ^ k < 2 ^ (k + n)"
  shows "\<exists>tmp'. carry_in n carry tmp = Some tmp' \<and> frag_ok k tmp' \<and> length tmp' \<le> n \<and> tmp' \<noteq> [] \<and>
    length (concat tmp') = length (concat tmp) + 2 ^ k \<and> (\<forall>t. frag_at t tmp' = frag_at t tmp @ at_time t carry)"
  using assms
proof (induction tmp arbitrary: n k carry)
  case Nil
  then have "n \<noteq> 0" by (cases n) auto
  with Nil show ?case by auto
next
  case (Cons f fs)
  then obtain m where n: "n = Suc m" by (cases n) auto
  show ?case
  proof (cases "f = []")
    case True
    with Cons n show ?thesis by auto
  next
    case False
    let ?c = "listmerge f carry"
    have f: "tsorted f" "length f = 2 ^ k" "frag_ok (Suc k) fs" using Cons.prems(1) False by auto
    have "tsorted ?c" using f(1) Cons.prems(2) by (rule tsorted_listmerge)
    moreover have "length ?c = 2 ^ Suc k" using f(2) Cons.prems(3) by simp
    moreover have "length fs \<le> m" using Cons.prems(4) n by simp
    moreover have "length (concat fs) + 2 ^ Suc k < 2 ^ (Suc k + m)" using Cons.prems(5) n f(2) by simp
    ultimately obtain tmp' where IH: "carry_in m ?c fs = Some tmp'" "frag_ok (Suc k) tmp'" "length tmp' \<le> m"
      "length (concat tmp') = length (concat fs) + 2 ^ Suc k" "\<forall>t. frag_at t tmp' = frag_at t fs @ at_time t ?c"
      using Cons.IH [OF f(3), of ?c m] by blast
    with n False f(2) show ?thesis
      by (auto simp: at_time_listmerge [OF f(1) Cons.prems(2)])
  qed
qed

lemma fill_tmp_spec:
  assumes "frag_ok 0 tmp" and "length tmp \<le> NTMPSORT" and "length (concat tmp) + length xs < 2 ^ NTMPSORT"
  shows "\<exists>tmp'. fill_tmp tmp xs = Some tmp' \<and> frag_ok 0 tmp' \<and> length (concat tmp') = length (concat tmp) + length xs \<and>
    (\<forall>t. frag_at t tmp' = frag_at t tmp @ at_time t xs)"
  using assms
proof (induction xs arbitrary: tmp)
  case (Cons x xs)
  have "\<exists>tmp'. carry_in NTMPSORT [x] tmp = Some tmp' \<and> frag_ok 0 tmp' \<and> length tmp' \<le> NTMPSORT \<and> tmp' \<noteq> [] \<and>
    length (concat tmp') = length (concat tmp) + 2 ^ 0 \<and> (\<forall>t. frag_at t tmp' = frag_at t tmp @ at_time t [x])"
    by (rule carry_in_spec [OF Cons.prems(1)]) (use Cons.prems(2,3) in simp_all)
  then obtain tmp' where c: "carry_in NTMPSORT [x] tmp = Some tmp'" "frag_ok 0 tmp'" "length tmp' \<le> NTMPSORT"
    "length (concat tmp') = length (concat tmp) + 1" "\<forall>t. frag_at t tmp' = frag_at t tmp @ at_time t [x]" by auto
  from Cons.IH [OF c(2,3)] c(4) Cons.prems(3) obtain tmp'' where
    "fill_tmp tmp' xs = Some tmp''" "frag_ok 0 tmp''" "length (concat tmp'') = length (concat tmp') + length xs"
    "\<forall>t. frag_at t tmp'' = frag_at t tmp' @ at_time t xs" by auto
  with c show ?case by auto
qed simp

lemma merge_frags:
  assumes "frag_ok k tmp" and "tsorted carry"
  shows "tsorted (foldl (\<lambda>carry counter. listmerge counter carry) carry tmp) \<and>
    at_time t (foldl (\<lambda>carry counter. listmerge counter carry) carry tmp) = frag_at t tmp @ at_time t carry"
  using assms
proof (induction tmp arbitrary: carry k)
  case (Cons f fs)
  then have f: "tsorted f" "frag_ok (Suc k) fs" by simp_all
  from Cons.IH [OF f(2) tsorted_listmerge [OF f(1) Cons.prems(2)]]
  show ?case by (simp add: at_time_listmerge [OF f(1) Cons.prems(2)])
qed simp

text \<open>The specification: insertion sort of the library, by the stamps.\<close>

lemma sort_list_correct:
  assumes "length l < 2 ^ NTMPSORT"
  shows "sort_list l = Some (sort_key fst l)"
proof (cases "length l < 2")
  case True
  then have "l = [] \<or> (\<exists>x. l = [x])" by (cases l; cases "tl l") auto
  then show ?thesis using True by (auto simp: sort_list_def)
next
  case False
  from fill_tmp_spec [of "[]" l] assms obtain tmp where t: "fill_tmp [] l = Some tmp" "frag_ok 0 tmp"
    "length (concat tmp) = length l" "\<forall>t. frag_at t tmp = at_time t l" by auto
  from t(3) False obtain f fs where tmp: "tmp = f # fs" by (cases tmp) auto
  let ?r = "foldl (\<lambda>carry counter. listmerge counter carry) f fs"
  have m: "tsorted ?r \<and> at_time x ?r = frag_at x fs @ at_time x f" for x
    by (rule merge_frags [of 1]) (use t(2) tmp in simp_all)
  have "?r = sort_key fst l"
  proof (rule stable_unique)
    show "tsorted ?r" using m by blast
    show "tsorted (sort_key fst l)" by simp
    show "\<forall>x. at_time x ?r = at_time x (sort_key fst l)"
    proof
      fix x
      have "at_time x ?r = at_time x l" using m [of x] t(4) tmp by simp
      also have "\<dots> = at_time x (sort_key fst l)" by (rule sort_key_stable [symmetric])
      finally show "at_time x ?r = at_time x (sort_key fst l)" .
    qed
  qed
  then show ?thesis using False t(1) tmp by (simp add: sort_list_def)
qed

end
