(* ===== verification/Cache_Purge_All.thy ===== *)
theory Cache_Purge_All
  imports Cache_Purge_Ent Cache_Sort
begin

text \<open>
  The two loops of \<open>purge_cache\<close>: every step keeps the invariant of the cache and removes at
  most the current element from the list, so that the loops end after one pass.
\<close>

subsection \<open>Elements of the list\<close>

lemma core_lent:
  assumes "core C d st" and "le \<in> set (rrset_l st)"
  obtains c where "cents st (fst le) = Some c" "cok (fst le) c st" "snd le = -1" "is_neg (body c)"
  | c i s where "cents st (fst le) = Some c" "cok (fst le) c st" "snd le = int i" "i < NRRTOT" "slot c i = Some s"
      "\<not> is_neg (body c)"
proof -
  from core_owner [OF assms] obtain c where c: "cents st (fst le) = Some c" by blast
  note ok = core_cok [OF assms(1) c]
  then have le: "le \<in> lents_of (fst le) c" using assms(2) by (simp add: cok_def mine_def)
  show ?thesis
  proof (cases "is_neg (body c)")
    case True
    then have "le = (fst le, -1)"
      using le by (cases "body c") (auto simp: lents_of_def neg_slot split: option.splits)
    with that(1) [OF c ok _ True] show ?thesis by (metis snd_conv)
  next
    case False
    with le obtain i where i: "le = (fst le, int i)" "i < NRRTOT" "linked (slot c i)" by (auto simp: lents_of_recs)
    then obtain s where "slot c i = Some s" by (auto simp: linked_def)
    with that(2) [OF c ok _ i(2) _ False] i(1) show ?thesis by (metis snd_conv)
  qed
qed

lemma lent_local_slot:
  assumes "cents st (fst le) = Some c" and "cent_ok c" and "snd le = int i" and "i < NRRTOT" and "slot c i = Some s"
  shows "lent_local le st = Some (has (rs_flags s) CF_LOCAL \<or> has (ce_flags c) DF_LOCAL)"
  using assms slot_some_ilim [OF assms(2,4)] by (simp add: lent_local_def)

lemma lent_local_neg:
  "cents st (fst le) = Some c \<Longrightarrow> snd le = -1 \<Longrightarrow> lent_local le st = Some (has (ce_flags c) DF_LOCAL)"
  by (simp add: lent_local_def)

lemma lent_local_pur:
  assumes "cache_inv st" and "cache_inv st'" and "pur st st'" and "le \<in> set (rrset_l st)" and "le \<in> set (rrset_l st')"
  shows "lent_local le st' = lent_local le st"
proof -
  have co: "core (dom (cents st)) 0 st" "core (dom (cents st')) 0 st'" using assms(1,2) by (simp_all add: cache_inv_def)
  from core_owner [OF co(1) assms(4)] core_owner [OF co(2) assms(5)] obtain c c' where
    c: "cents st (fst le) = Some c" "cents st' (fst le) = Some c'" by blast
  with assms(3) have p: "pur_ent c c'" by (auto simp: pur_def split: option.splits)
  have d: "has (ce_flags c') DF_LOCAL = has (ce_flags c) DF_LOCAL" using p by (simp add: pur_ent_def)
  show ?thesis
  proof (rule core_lent [OF co(2) assms(5)])
    fix c1 assume "snd le = -1"
    with c d show ?thesis by (simp add: lent_local_neg)
  next
    fix c1 i s assume i: "cents st' (fst le) = Some c1" "cok (fst le) c1 st'" "snd le = int i" "i < NRRTOT" "slot c1 i = Some s"
    with c have c1: "c1 = c'" by simp
    have "slot c i = Some s" using p i(4,5) c1 by (auto simp: pur_ent_def)
    moreover have "cent_ok c" "cent_ok c'" using core_cent_ok [OF co(1) c(1)] core_cent_ok [OF co(2) c(2)] .
    ultimately show ?thesis using lent_local_slot [OF c(1) _ i(3,4)] lent_local_slot [OF c(2) _ i(3,4)] i(5) c1 d by simp
  qed
qed

lemma cache_inv_core: "cache_inv st \<Longrightarrow> core (dom (cents st)) 0 st"
  by (simp add: cache_inv_def)

lemma cache_inv_cok: "cache_inv st \<Longrightarrow> cents st a = Some c \<Longrightarrow> cok a c st"
  by (rule core_cok [OF cache_inv_core])

lemma lent_local_total: "cache_inv st \<Longrightarrow> le \<in> set (rrset_l st) \<Longrightarrow> \<exists>b. lent_local le st = Some b"
  by (rule core_lent [OF cache_inv_core], assumption+)
    (auto dest: lent_local_neg lent_local_slot cok_cent_ok)

subsection \<open>One step\<close>

text \<open>Deleting the set of an element, and the counter of bytes with it.\<close>

lemma drop_set_spec:
  assumes "cache_inv st" and "cents st a = Some c" and "i < NRRTOT" and "\<not> local_slot c i"
  shows "cache_inv (put_cent a (del_slot c i) (unlink_if True a i c st))"
    and "pur st (put_cent a (del_slot c i) (unlink_if True a i c st))"
proof -
  note co = cache_inv_core [OF assms(1)]
  note c = cache_inv_cok [OF assms(1,2)]
  note d = del_slot_facts [OF cok_cent_ok [OF c] assms(3)]
  note p = purge_rrset_spec(2,3) [OF c assms(3), of True]
  let ?st = "unlink_if True a i c st"
  have ds: "del_slot_if True c i = del_slot c i" by (simp add: del_slot_if_def)
  let ?k = "- (cs c - cs (del_slot c i))"
  have "shrunk_size c (del_slot c i) st = st\<lparr>cache_size := cache_size st + ?k\<rparr>" by simp
  with core_size [OF co, of ?k] have "core (dom (cents st)) ?k (shrunk_size c (del_slot c i) st)" by (metis add_0)
  from core_put [OF this _ p(2) [unfolded ds] p(1) [unfolded ds], of c] assms(2) d(3)
  have "core (dom (cents st)) 0 (put_cent a (del_slot c i) ?st)" by (simp add: domI)
  moreover have f: "cents ?st = cents st" "hashtab ?st = hashtab st" "same_conf st ?st"
    using frame_fields [OF p(2)] same_conf_frame [OF p(2)] by simp_all
  ultimately show "cache_inv (put_cent a (del_slot c i) ?st)"
    using assms(1,2) by (auto simp: cache_inv_def insert_absorb domI)
  have "pur_ent c (del_slot c i)"
    using d(2,3,5) assms(3,4) cok_cent_ok [OF c] same_head_del_slot [of c i]
    by (auto simp: pur_ent_def same_head_def nth_list_update)
  then show "pur st (put_cent a (del_slot c i) ?st)" by (rule pur_put [OF assms(2) f(1,3)])
qed

lemma rrset_l_unlink_if: "rrset_l (unlink_if True a i c st) = filter (\<lambda>x. x \<noteq> (a, int i)) (rrset_l st)"
  by (simp add: unlink_if_def)

text \<open>Deleting an entry without record sets takes at most its own element from the list.\<close>

lemma del_empty_spec:
  assumes "cache_inv st" and "cents st a = Some c" and "num_rrs c = 0" and "\<not> kept c"
  shows "\<exists>st'. del_cache_ent a None st = Some st' \<and> cache_inv st' \<and> pur st st' \<and>
    (\<forall>b. b \<noteq> a \<longrightarrow> cents st' b = cents st b) \<and> cents st' a = None \<and>
    rrset_l st' = (if is_neg (body c) then filter (\<lambda>x. x \<noteq> (a, -1)) (rrset_l st) else rrset_l st)"
proof -
  note c = cache_inv_cok [OF assms(1,2)]
  from del_cache_ent_spec [OF assms(1,2), of None] obtain ht where
    d: "del_cache_ent a None st = Some ((dropped a st)\<lparr>hashtab := ht\<rparr>)" "cache_inv ((dropped a st)\<lparr>hashtab := ht\<rparr>)"
    by auto
  have none: "\<forall>i < NRRTOT. slot c i = None" using cent_ok_num_rrs [OF cok_cent_ok [OF c]] assms(3) by simp
  have "mine a (rrset_l st) \<subseteq> (if is_neg (body c) then {(a, -1)} else {})"
    using c none by (cases "body c") (auto simp: cok_def lents_of_def split: option.splits)
  then have "others a (rrset_l st) = (if is_neg (body c) then filter (\<lambda>x. x \<noteq> (a, -1)) (rrset_l st) else rrset_l st)"
    by (auto simp: others_def mine_def intro!: filter_cong filter_True split: if_splits)
  with d pur_drop [OF assms(2,4)] show ?thesis by (intro exI [of _ "(dropped a st)\<lparr>hashtab := ht\<rparr>"]) simp
qed

definition step_res :: "lent \<Rightarrow> cache \<Rightarrow> cache \<Rightarrow> bool" where
  "step_res le st st' \<longleftrightarrow> cache_inv st' \<and> pur st st' \<and>
     (rrset_l st' = rrset_l st \<or> rrset_l st' = filter (\<lambda>x. x \<noteq> le) (rrset_l st)) \<and>
     (\<forall>a c. cents st a = Some c \<and> has (ce_flags c) DF_LOCAL \<longrightarrow> cents st' a = Some c)"

lemma step_res_refl: "cache_inv st \<Longrightarrow> step_res le st st"
  by (simp add: step_res_def)

lemma purge_step1_spec:
  assumes "cache_inv st" and "le \<in> set (rrset_l st)"
  shows "\<exists>st'. purge_step1 le st = Some st' \<and> step_res le st st'"
proof -
  obtain a idx where le: "le = (a, idx)" by (cases le)
  from lent_local_total [OF assms] obtain loc where loc: "lent_local le st = Some loc" by blast
  show ?thesis
  proof (cases loc)
    case True
    with loc assms(1) show ?thesis by (simp add: purge_step1_def step_res_refl)
  next
    case nl: False
    show ?thesis
    proof (rule core_lent [OF cache_inv_core [OF assms(1)] assms(2)], unfold le fst_conv snd_conv)
      fix c assume c: "cents st a = Some c" "cok a c st" "idx = -1" "is_neg (body c)"
      have nd: "\<not> has (ce_flags c) DF_LOCAL" using loc nl lent_local_neg [of st le c] c(1,3) le by simp
      have neg: "has (ce_flags c) DF_NEGATIVE" "num_rrs c = 0"
        using c(2,4) cent_ok_num_rrs [of c] by (auto simp: cok_def cent_ok_def neg_slot)
      have nk: "\<not> kept c" using nd c(4) by (auto simp: kept_def local_slot_def neg_slot)
      from timedout_nxdom_neg [OF c(4)] obtain gone where g: "timedout_nxdom st c = Some gone" by blast
      show "\<exists>st'. purge_step1 (a, idx) st = Some st' \<and> step_res (a, idx) st st'"
      proof (cases gone)
        case False
        with loc nl g c neg nd le have "purge_step1 (a, idx) st = Some st" by (simp add: purge_step1_def)
        with assms(1) show ?thesis by (simp add: step_res_refl)
      next
        case True
        from del_empty_spec [OF assms(1) c(1) neg(2) nk] obtain st' where
          d: "del_cache_ent a None st = Some st'" "cache_inv st'" "pur st st'" "\<forall>b. b \<noteq> a \<longrightarrow> cents st' b = cents st b"
            "rrset_l st' = filter (\<lambda>x. x \<noteq> (a, -1)) (rrset_l st)" using c(4) by auto
        have "purge_step1 (a, idx) st = Some st'"
          using loc nl g c neg nd le True d(1) by (simp add: purge_step1_def)
        moreover have "\<forall>b cb. cents st b = Some cb \<and> has (ce_flags cb) DF_LOCAL \<longrightarrow> cents st' b = Some cb"
          using d(4) c(1) nd by (metis option.inject)
        ultimately show ?thesis using d c(3) by (simp add: step_res_def)
      qed
    next
      fix c i s assume c: "cents st a = Some c" "cok a c st" "idx = int i" "i < NRRTOT" "slot c i = Some s" "\<not> is_neg (body c)"
      have nd: "\<not> has (rs_flags s) CF_LOCAL" "\<not> has (ce_flags c) DF_LOCAL"
        using loc nl lent_local_slot [of st le c i s] c le cok_cent_ok [OF c(2)] by simp_all
      note p = purge_rrset_spec(1) [OF c(2,4), of False]
      let ?b = "pslot st c i"
      let ?c = "del_slot_if ?b c i"
      let ?st = "put_cent a ?c (unlink_if ?b a i c st)"
      have r: "cache_inv ?st" "pur st ?st" "rrset_l ?st = rrset_l st \<or> rrset_l ?st = filter (\<lambda>x. x \<noteq> (a, int i)) (rrset_l st)"
      proof -
        have "\<not> local_slot c i" using c(5) nd(1) by (simp add: local_slot_def)
        from drop_set_spec [OF assms(1) c(1,4) this] put_cent_same [OF c(1)] assms(1)
        show "cache_inv ?st" "pur st ?st" by (auto simp: del_slot_if_def unlink_if_def)
        show "rrset_l ?st = rrset_l st \<or> rrset_l ?st = filter (\<lambda>x. x \<noteq> (a, int i)) (rrset_l st)"
          by (simp add: unlink_if_def)
      qed
      have ca: "cents ?st a = Some ?c" by simp
      have others: "\<forall>b. b \<noteq> a \<longrightarrow> cents ?st b = cents st b" by (simp add: unlink_if_def)
      have run: "purge_step1 (a, idx) st = (if num_rrs ?c = 0 then del_cache_ent a None ?st else Some ?st)"
        if "\<not> has (ce_flags ?c) DF_NEGATIVE"
        using that loc nl c p le by (simp add: purge_step1_def put_cent_def)
      have neg: "\<not> is_neg (body ?c)" using c(4,6) cok_cent_ok [OF c(2)] by (simp add: del_slot_if_def del_slot_facts)
      have okc: "cent_ok ?c" using cache_inv_cok [OF r(1) ca] by (rule cok_cent_ok)
      then have nf: "\<not> has (ce_flags ?c) DF_NEGATIVE" using neg by (simp add: cent_ok_def)
      have unt: "cents st b = Some cb \<and> has (ce_flags cb) DF_LOCAL \<Longrightarrow> b \<noteq> a" for b cb using c(1) nd(2) by auto
      show "\<exists>st'. purge_step1 (a, idx) st = Some st' \<and> step_res (a, idx) st st'"
      proof (cases "num_rrs ?c = 0")
        case False
        then have "purge_step1 (a, idx) st = Some ?st" using run [OF nf] by simp
        with r others unt c(3) show ?thesis unfolding step_res_def by metis
      next
        case True
        then have "\<not> kept ?c" using neg cent_ok_num_rrs [OF okc] by (auto simp: kept_def local_slot_def)
        from del_empty_spec [OF r(1) ca True this] neg obtain st' where
          d: "del_cache_ent a None ?st = Some st'" "cache_inv st'" "pur ?st st'" "\<forall>b. b \<noteq> a \<longrightarrow> cents st' b = cents ?st b"
            "rrset_l st' = rrset_l ?st" by auto
        have "purge_step1 (a, idx) st = Some st'" using run [OF nf] True d(1) by simp
        moreover have "pur st st'" by (rule pur_trans [OF r(2) d(3)])
        moreover have "\<forall>b cb. cents st b = Some cb \<and> has (ce_flags cb) DF_LOCAL \<longrightarrow> cents st' b = Some cb"
          using d(4) others unt by metis
        ultimately show ?thesis using d(2,5) r(3) c(3) unfolding step_res_def by metis
      qed
    qed
  qed
qed


lemma swap_upd: "(st :: cache)\<lparr>cents := h, cache_size := k\<rparr> = st\<lparr>cache_size := k, cents := h\<rparr>"
  by simp

lemma purge_step2_spec:
  assumes "cache_inv st" and "le \<in> set (rrset_l st)"
  shows "\<exists>st'. purge_step2 le st = Some st' \<and> step_res le st st' \<and>
    (le \<in> set (rrset_l st') \<longrightarrow> lent_local le st = Some True)"
proof -
  obtain a idx where le: "le = (a, idx)" by (cases le)
  from lent_local_total [OF assms] obtain loc where loc: "lent_local le st = Some loc" by blast
  show ?thesis
  proof (cases loc)
    case True
    with loc assms(1) show ?thesis by (simp add: purge_step2_def step_res_refl)
  next
    case nl: False
    show ?thesis
    proof (rule core_lent [OF cache_inv_core [OF assms(1)] assms(2)], unfold le fst_conv snd_conv)
      fix c assume c: "cents st a = Some c" "cok a c st" "idx = -1" "is_neg (body c)"
      have nd: "\<not> has (ce_flags c) DF_LOCAL" using loc nl lent_local_neg [of st le c] c(1,3) le by simp
      have n0: "num_rrs c = 0" using c(2,4) cent_ok_num_rrs [of c] by (auto simp: cok_def neg_slot)
      have nk: "\<not> kept c" using nd c(4) by (auto simp: kept_def local_slot_def neg_slot)
      from del_empty_spec [OF assms(1) c(1) n0 nk] obtain st' where
        d: "del_cache_ent a None st = Some st'" "cache_inv st'" "pur st st'" "\<forall>b. b \<noteq> a \<longrightarrow> cents st' b = cents st b"
          "rrset_l st' = filter (\<lambda>x. x \<noteq> (a, -1)) (rrset_l st)" using c(4) by auto
      have "purge_step2 (a, idx) st = Some st'"
        using loc nl c n0 le d(1) by (simp add: purge_step2_def)
      moreover have "\<forall>b cb. cents st b = Some cb \<and> has (ce_flags cb) DF_LOCAL \<longrightarrow> cents st' b = Some cb"
        using d(4) c(1) nd by (metis option.inject)
      ultimately show "\<exists>st'. purge_step2 (a, idx) st = Some st' \<and> step_res (a, idx) st st' \<and>
          ((a, idx) \<in> set (rrset_l st') \<longrightarrow> lent_local (a, idx) st = Some True)"
        using d c(3) by (simp add: step_res_def)
    next
      fix c i s assume c: "cents st a = Some c" "cok a c st" "idx = int i" "i < NRRTOT" "slot c i = Some s" "\<not> is_neg (body c)"
      have nd: "\<not> has (rs_flags s) CF_LOCAL" "\<not> has (ce_flags c) DF_LOCAL"
        using loc nl lent_local_slot [of st le c i s] c le cok_cent_ok [OF c(2)] by simp_all
      let ?c = "del_slot c i"
      let ?st = "put_cent a ?c (unlink_if True a i c st)"
      have "\<not> local_slot c i" using c(5) nd(1) by (simp add: local_slot_def)
      note r = drop_set_spec [OF assms(1) c(1,4) this]
      have l: "rrset_l ?st = filter (\<lambda>x. x \<noteq> (a, int i)) (rrset_l st)" by (simp add: rrset_l_unlink_if)
      have ca: "cents ?st a = Some ?c" by simp
      have others: "\<forall>b. b \<noteq> a \<longrightarrow> cents ?st b = cents st b" by (simp add: unlink_if_def)
      have run: "purge_step2 (a, idx) st = (if num_rrs ?c = 0 then del_cache_ent a None ?st else Some ?st)"
        using loc nl c le del_cent_rrset_spec(1) [OF c(2,4)]
        by (simp add: purge_step2_def put_cent_def unlink_if_def swap_upd)
      have neg: "\<not> is_neg (body ?c)" using c(4,6) cok_cent_ok [OF c(2)] by (simp add: del_slot_facts)
      have okc: "cent_ok ?c" using cache_inv_cok [OF r(1) ca] by (rule cok_cent_ok)
      have unt: "cents st b = Some cb \<and> has (ce_flags cb) DF_LOCAL \<Longrightarrow> b \<noteq> a" for b cb using c(1) nd(2) by auto
      have gone: "rrset_l st' = rrset_l ?st \<Longrightarrow> (a, idx) \<notin> set (rrset_l st')" for st' using l c(3) by simp
      show "\<exists>st'. purge_step2 (a, idx) st = Some st' \<and> step_res (a, idx) st st' \<and>
          ((a, idx) \<in> set (rrset_l st') \<longrightarrow> lent_local (a, idx) st = Some True)"
      proof (cases "num_rrs ?c = 0")
        case False
        then have "purge_step2 (a, idx) st = Some ?st" using run by simp
        moreover have "step_res (a, idx) st ?st" using r l others unt c(3) unfolding step_res_def by metis
        ultimately show ?thesis using gone by blast
      next
        case True
        then have "\<not> kept ?c" using neg cent_ok_num_rrs [OF okc] by (auto simp: kept_def local_slot_def)
        from del_empty_spec [OF r(1) ca True this] neg obtain st' where
          d: "del_cache_ent a None ?st = Some st'" "cache_inv st'" "pur ?st st'" "\<forall>b. b \<noteq> a \<longrightarrow> cents st' b = cents ?st b"
            "rrset_l st' = rrset_l ?st" by auto
        have "purge_step2 (a, idx) st = Some st'" using run True d(1) by simp
        moreover have "pur st st'" by (rule pur_trans [OF r(2) d(3)])
        moreover have "\<forall>b cb. cents st b = Some cb \<and> has (ce_flags cb) DF_LOCAL \<longrightarrow> cents st' b = Some cb"
          using d(4) others unt by metis
        ultimately show ?thesis using d(2,5) l c(3) gone [of st'] unfolding step_res_def by metis
      qed
    qed
  qed
qed

subsection \<open>The loops\<close>

lemma lent_next_split: "le \<notin> set xs \<Longrightarrow> lent_next le (xs @ le # ys) = lent_first ys"
proof -
  assume "le \<notin> set xs"
  then have "dropWhile (\<lambda>x. x \<noteq> le) (xs @ le # ys) = le # ys" by (induction xs) auto
  then show ?thesis by (cases ys) (simp_all add: lent_next_def lent_first_def)
qed

definition untouched :: "cache \<Rightarrow> cache \<Rightarrow> bool" where
  "untouched st st' \<longleftrightarrow> (\<forall>a c. cents st a = Some c \<and> has (ce_flags c) DF_LOCAL \<longrightarrow> cents st' a = Some c)"

lemma purge_loop_spec:
  assumes step: "\<And>le st. cache_inv st \<Longrightarrow> le \<in> set (rrset_l st) \<Longrightarrow>
      \<exists>st'. step le st = Some st' \<and> step_res le st st' \<and> (strict \<longrightarrow> le \<in> set (rrset_l st') \<longrightarrow> lent_local le st = Some True)"
    and "cache_inv st" and "rrset_l st = xs @ ys" and "length ys \<le> n"
  shows "\<exists>st'. purge_loop step go n (lent_first ys) st = Some st' \<and> cache_inv st' \<and> pur st st' \<and> untouched st st' \<and>
    length (rrset_l st') \<le> length (rrset_l st) \<and>
    (strict \<longrightarrow> \<not> go st' \<or> (\<forall>le \<in> set (rrset_l st'). le \<in> set xs \<or> lent_local le st' = Some True))"
  using assms(2-4)
proof (induction ys arbitrary: xs n st)
  case Nil
  then show ?case by (intro exI [of _ st]) (simp add: lent_first_def untouched_def)
next
  case (Cons le ys)
  show ?case
  proof (cases "go st")
    case False
    then show ?thesis using Cons.prems(1) by (intro exI [of _ st]) (simp add: lent_first_def untouched_def)
  next
    case True
    from Cons.prems(3) obtain m where n: "n = Suc m" by (cases n) auto
    have in_l: "le \<in> set (rrset_l st)" using Cons.prems(2) by simp
    have d: "distinct (rrset_l st)" using cache_inv_core [OF Cons.prems(1)] by (simp add: core_def heap_ok_def)
    then have le: "le \<notin> set xs" "le \<notin> set ys" using Cons.prems(2) by auto
    from step [OF Cons.prems(1) in_l] obtain st1 where s: "step le st = Some st1" "step_res le st st1"
      "strict \<longrightarrow> le \<in> set (rrset_l st1) \<longrightarrow> lent_local le st = Some True" by blast
    have st1: "cache_inv st1" "pur st st1" using s(2) by (simp_all add: step_res_def)
    define xs1 where "xs1 = (if rrset_l st1 = rrset_l st then xs @ [le] else xs)"
    have "filter (\<lambda>x. x \<noteq> le) xs = xs" "filter (\<lambda>x. x \<noteq> le) ys = ys" using le by (auto intro: filter_True)
    then have l1: "rrset_l st1 = xs1 @ ys"
      using s(2) Cons.prems(2) unfolding step_res_def xs1_def by auto
    have len1: "length (rrset_l st1) \<le> length (rrset_l st)" 
    proof -
      have "length xs1 \<le> length xs + 1" by (simp add: xs1_def)
      with l1 Cons.prems(2) show ?thesis by simp
    qed
    have step1: "purge_loop step go n (lent_first (le # ys)) st = purge_loop step go m (lent_first ys) st1"
      using True n s(1) in_l lent_next_split [OF le(1), of ys] Cons.prems(2) by (simp add: lent_first_def)
    from Cons.IH [OF st1(1) l1, of m] Cons.prems(3) n obtain st' where IH:
      "purge_loop step go m (lent_first ys) st1 = Some st'" "cache_inv st'" "pur st1 st'" "untouched st1 st'"
      "length (rrset_l st') \<le> length (rrset_l st1)"
      "strict \<longrightarrow> \<not> go st' \<or> (\<forall>le \<in> set (rrset_l st'). le \<in> set xs1 \<or> lent_local le st' = Some True)" by auto
    have pur: "pur st st'" by (rule pur_trans [OF st1(2) IH(3)])
    have "untouched st st'" using s(2) IH(4) unfolding untouched_def step_res_def by blast
    moreover have "le' \<in> set xs \<or> lent_local le' st' = Some True"
      if strict "le' \<in> set (rrset_l st')" "le' \<in> set xs1" for le'
    proof (cases "le' \<in> set xs")
      case False
      with that(3) have e: "le' = le" "rrset_l st1 = rrset_l st" by (auto simp: xs1_def split: if_splits)
      with s(3) that(1) in_l have "lent_local le st = Some True" by simp
      moreover have "lent_local le st' = lent_local le st"
        using lent_local_pur [OF Cons.prems(1) IH(2) pur in_l] that(2) e(1) by simp
      ultimately show ?thesis using e(1) by simp
    qed simp
    ultimately show ?thesis using step1 IH pur len1
      by (intro exI [of _ st']) (auto intro: order_trans)
  qed
qed

text \<open>Sorting the list.\<close>

lemma get_rrlent_ts_total:
  assumes "cache_inv st" and "le \<in> set (rrset_l st)"
  shows "\<exists>t. get_rrlent_ts st le = Some t"
proof (rule core_lent [OF cache_inv_core [OF assms(1)] assms(2)])
  fix c assume "cents st (fst le) = Some c" "cok (fst le) c st" "snd le = -1" "is_neg (body c)"
  then show ?thesis by (cases "body c") (simp_all add: get_rrlent_ts_def)
next
  fix c i s assume c: "cents st (fst le) = Some c" "cok (fst le) c st" "snd le = int i" "i < NRRTOT" "slot c i = Some s"
  have "i < ilim c" using slot_some_ilim [OF cok_cent_ok [OF c(2)] c(4)] c(5) by simp
  with c cok_cent_ok [OF c(2)] show ?thesis by (simp add: get_rrlent_ts_def)
qed

lemma stamped_spec:
  assumes "\<forall>le \<in> set l. \<exists>t. tsof le = Some t"
  shows "stamped tsof l = Some (map (\<lambda>le. (the (tsof le), le)) l)"
  using assms by (induction l) auto

abbreviation stamp :: "cache \<Rightarrow> lent \<Rightarrow> int" where
  "stamp st le \<equiv> the (get_rrlent_ts st le)"

lemma sort_key_map_pair: "map snd (sort_key fst (map (\<lambda>x. (f x, x)) l)) = sort_key f l"
proof -
  have "sort_key fst (map (\<lambda>x. (f x, x)) l) = map (\<lambda>x. (f x, x)) (sort_key f l)"
  proof (induction l)
    case (Cons x l)
    have "insort_key fst (f x, x) (map (\<lambda>x. (f x, x)) k) = map (\<lambda>x. (f x, x)) (insort_key f x k)" for k
      by (induction k) auto
    with Cons show ?case by simp
  qed simp
  then show ?thesis by (simp add: comp_def)
qed

lemma sort_rrl_spec:
  assumes "cache_inv st" and "length (rrset_l st) < 2 ^ NTMPSORT"
  shows "sort_rrl st = Some (st\<lparr>rrset_l := sort_key (stamp st) (rrset_l st)\<rparr>)"
proof -
  have "stamped (get_rrlent_ts st) (rrset_l st) = Some (map (\<lambda>le. (stamp st le, le)) (rrset_l st))"
    using get_rrlent_ts_total [OF assms(1)] by (intro stamped_spec) blast
  with sort_list_correct [of "map (\<lambda>le. (stamp st le, le)) (rrset_l st)"] assms(2) show ?thesis
    by (simp add: sort_rrl_def sort_key_map_pair)
qed

lemma cache_inv_perm:
  assumes "cache_inv st" and "set l = set (rrset_l st)" and "distinct l"
  shows "cache_inv (st\<lparr>rrset_l := l\<rparr>)"
proof -
  have "cok a c (st\<lparr>rrset_l := l\<rparr>) = cok a c st" for a c
    using assms(2,3) cache_inv_core [OF assms(1)] by (simp add: cok_def mine_def core_def heap_ok_def)
  with assms show ?thesis
    by (simp add: cache_inv_def core_def heap_ok_def table_ok_def total_def)
qed

lemma pur_fields:
  assumes "cents st' = cents st" and "same_conf st st'"
  shows "pur st st'"
  using assms by (auto simp: pur_def split: option.splits)

lemma purge_cache_spec:
  assumes "cache_inv st" and "length (rrset_l st) < 2 ^ NTMPSORT"
  shows "\<exists>st'. purge_cache sz lazy st = Some st' \<and> cache_inv st' \<and> pur st st' \<and> untouched st st' \<and>
    length (rrset_l st') \<le> length (rrset_l st) \<and>
    (cache_size st' \<le> sz \<or> (\<forall>le \<in> set (rrset_l st'). lent_local le st' = Some True))"
proof -
  have s1: "\<exists>st'. purge_step1 le st = Some st' \<and> step_res le st st' \<and>
      (False \<longrightarrow> le \<in> set (rrset_l st') \<longrightarrow> lent_local le st = Some True)"
    if "cache_inv st" "le \<in> set (rrset_l st)" for le st using purge_step1_spec [OF that] by simp
  have s2: "\<exists>st'. purge_step2 le st = Some st' \<and> step_res le st st' \<and>
      (True \<longrightarrow> le \<in> set (rrset_l st') \<longrightarrow> lent_local le st = Some True)"
    if "cache_inv st" "le \<in> set (rrset_l st)" for le st using purge_step2_spec [OF that] by simp
  from purge_loop_spec [where step = purge_step1, OF s1 assms(1), of "[]" "rrset_l st" "length (rrset_l st)"
      "\<lambda>s. \<not> lazy \<or> sz < cache_size s"] obtain st1 where
    l1: "purge_loop purge_step1 (\<lambda>s. \<not> lazy \<or> sz < cache_size s) (length (rrset_l st)) (lent_first (rrset_l st)) st = Some st1"
      "cache_inv st1" "pur st st1" "untouched st st1" "length (rrset_l st1) \<le> length (rrset_l st)" by auto
  show ?thesis
  proof (cases "cache_size st1 \<le> sz")
    case True
    with l1 show ?thesis by (intro exI [of _ st1]) (simp add: purge_cache_def)
  next
    case False
    obtain st2 where st2: "(if \<not> insert_sort st1 then do { s \<leftarrow> sort_rrl st1; Some (s\<lparr>insert_sort := True\<rparr>) } else Some st1) = Some st2"
      "cache_inv st2" "cents st2 = cents st1" "same_conf st1 st2" "length (rrset_l st2) = length (rrset_l st1)"
    proof (cases "insert_sort st1")
      case True
      with that [of st1] l1(2) show ?thesis by simp
    next
      case False
      let ?s = "st1\<lparr>rrset_l := sort_key (stamp st1) (rrset_l st1)\<rparr>"
      have "sort_rrl st1 = Some ?s" using sort_rrl_spec [OF l1(2)] l1(5) assms(2) by simp
      moreover have "distinct (rrset_l st1)" using cache_inv_core [OF l1(2)] by (simp add: core_def heap_ok_def)
      then have "cache_inv ?s" by (intro cache_inv_perm [OF l1(2)]) simp_all
      then have "cache_inv (?s\<lparr>insert_sort := True\<rparr>)" unfolding cache_inv_def by simp
      ultimately show ?thesis using that [of "?s\<lparr>insert_sort := True\<rparr>"] False by simp
    qed
    from purge_loop_spec [where step = purge_step2, OF s2 st2(2), of "[]" "rrset_l st2" "length (rrset_l st2)"
        "\<lambda>s. sz < cache_size s"] obtain st3 where
      l3: "purge_loop purge_step2 (\<lambda>s. sz < cache_size s) (length (rrset_l st2)) (lent_first (rrset_l st2)) st2 = Some st3"
        "cache_inv st3" "pur st2 st3" "untouched st2 st3" "length (rrset_l st3) \<le> length (rrset_l st2)"
        "\<not> sz < cache_size st3 \<or> (\<forall>le \<in> set (rrset_l st3). le \<in> set [] \<or> lent_local le st3 = Some True)" by auto
    have "pur st st3" by (rule pur_trans [OF pur_trans [OF l1(3) pur_fields [OF st2(3,4)]] l3(3)])
    moreover have "untouched st st3" using l1(4) l3(4) st2(3) by (simp add: untouched_def)
    moreover have "purge_cache sz lazy st = Some st3"
      using l1(1) False st2(1) l3(1) by (simp add: purge_cache_def)
    ultimately show ?thesis using l3 l1(5) st2(5) by (intro exI [of _ st3]) auto
  qed
qed

end
