(* ===== verification/Cache_Entry.thy ===== *)
theory Cache_Entry
  imports Cache_Purge_All
begin

text \<open>
  Steps on one entry of the heap: a change of the entry together with its elements of the list.
  \<open>insert_rrl\<close> links a record set or a negative entry into the list, \<open>cr_check_add\<close> resolves
  conflicts, \<open>replace_set\<close> and \<open>merge_sets\<close> merge new record sets into an entry.
\<close>

subsection \<open>Entry steps\<close>

definition entry_step :: "nat \<Rightarrow> cache \<Rightarrow> dns_cent \<Rightarrow> cache \<Rightarrow> bool" where
  "entry_step a st c' st' \<longleftrightarrow> (\<exists>st1. st' = put_cent a c' st1 \<and> frame a st st1 \<and> cok a c' st1)"

lemma entry_stepI: "frame a st st1 \<Longrightarrow> cok a c' st1 \<Longrightarrow> entry_step a st c' (put_cent a c' st1)"
  unfolding entry_step_def by blast

lemma entry_step_refl: "cents st a = Some c \<Longrightarrow> cok a c st \<Longrightarrow> entry_step a st c st"
  using entry_stepI [OF frame_refl, of a c st] by (simp add: put_cent_same)

lemma entry_step_fields:
  assumes "entry_step a st c' st'"
  shows "cents st' = (cents st)(a \<mapsto> c')" "hashtab st' = hashtab st" "cache_size st' = cache_size st"
    "ent_num st' = ent_num st" "next_addr st' = next_addr st" "same_conf st st'" "cok a c' st'"
    "insert_sort st' = insert_sort st" "others a (rrset_l st') = others a (rrset_l st)"
proof -
  from assms obtain st1 where s: "st' = put_cent a c' st1" "frame a st st1" "cok a c' st1"
    unfolding entry_step_def by blast
  note f = frame_fields [OF s(2)]
  show "cents st' = (cents st)(a \<mapsto> c')" "hashtab st' = hashtab st" "cache_size st' = cache_size st"
    "ent_num st' = ent_num st" "next_addr st' = next_addr st" "same_conf st st'" "cok a c' st'"
    "insert_sort st' = insert_sort st" "others a (rrset_l st') = others a (rrset_l st)"
    using s(3) f same_conf_frame [OF s(2)] by (simp_all add: s(1))
qed

lemma frame_put_cent:
  assumes "frame a (put_cent a c st) st'"
  shows "\<exists>st1. frame a st st1 \<and> (\<forall>c'. put_cent a c' st' = put_cent a c' st1) \<and> (\<forall>b c'. cok b c' st' = cok b c' st1)"
proof -
  from assms obtain l m where s: "st' = (put_cent a c st)\<lparr>rrset_l := l, mem := m\<rparr>"
    "others a l = others a (rrset_l st)" "mem st = [] \<longrightarrow> m = []" unfolding frame_def by auto
  let ?st = "st\<lparr>rrset_l := l, mem := m\<rparr>"
  have "frame a st ?st" unfolding frame_def using s(2,3) by blast
  moreover have "put_cent a c' st' = put_cent a c' ?st" for c' by (simp add: s(1) put_cent_def)
  moreover have "cok b c' st' = cok b c' ?st" for b c' by (simp add: s(1) cok_def)
  ultimately show ?thesis by blast
qed

lemma entry_step_then:
  assumes "entry_step a st c1 st1" and "frame a st1 st2" and "cok a c2 st2"
  shows "entry_step a st c2 (put_cent a c2 st2)"
proof -
  from assms(1) obtain st0 where s: "st1 = put_cent a c1 st0" "frame a st st0" unfolding entry_step_def by blast
  from frame_put_cent [OF assms(2) [unfolded s(1)]] obtain st3 where
    "frame a st0 st3" "\<forall>c'. put_cent a c' st2 = put_cent a c' st3" "\<forall>b c'. cok b c' st2 = cok b c' st3" by blast
  with assms(3) frame_trans [OF s(2)] show ?thesis unfolding entry_step_def by metis
qed

lemma entry_step_trans: "entry_step a st c1 st1 \<Longrightarrow> entry_step a st1 c2 st2 \<Longrightarrow> entry_step a st c2 st2"
proof -
  assume 1: "entry_step a st c1 st1" and "entry_step a st1 c2 st2"
  then obtain st3 where "st2 = put_cent a c2 st3" "frame a st1 st3" "cok a c2 st3" unfolding entry_step_def by blast
  with entry_step_then [OF 1] show ?thesis by simp
qed

lemma core_entry_step:
  assumes "core C d st" and "cents st a = Some c" and "entry_step a st c' st'" and "qname c' = qname c"
  shows "core C (d - (if a \<in> C then cs c' - cs c else 0)) st'"
proof -
  from assms(3) obtain st1 where "st' = put_cent a c' st1" "frame a st st1" "cok a c' st1"
    unfolding entry_step_def by blast
  with core_put [OF assms(1,2)] assms(4) show ?thesis by blast
qed

subsection \<open>Linking into the list\<close>

lemma core_rrlent_ts:
  assumes "core C d st" and "le \<in> set (rrset_l st)"
  shows "\<exists>t. get_rrlent_ts st le = Some t"
proof (rule core_lent [OF assms])
  fix c assume "cents st (fst le) = Some c" "cok (fst le) c st" "snd le = -1" "is_neg (body c)"
  then show ?thesis by (cases "body c") (simp_all add: get_rrlent_ts_def)
next
  fix c i s assume c: "cents st (fst le) = Some c" "cok (fst le) c st" "snd le = int i" "i < NRRTOT" "slot c i = Some s"
  have "i < ilim c" using slot_some_ilim [OF cok_cent_ok [OF c(2)] c(4)] c(5) by simp
  with c cok_cent_ok [OF c(2)] show ?thesis by (simp add: get_rrlent_ts_def)
qed

lemma back_insert_spec:
  assumes "\<forall>le \<in> set l. \<exists>t. tsof le = Some t"
  shows "\<exists>xs ys. l = xs @ ys \<and> back_insert tsof ts ne l = Some (xs @ ne # ys) \<and>
    (\<forall>x \<in> set xs. ts < the (tsof x)) \<and> (case ys of [] \<Rightarrow> True | y # r \<Rightarrow> the (tsof y) \<le> ts)"
  using assms
proof (induction l)
  case Nil
  show ?case by simp
next
  case (Cons le l)
  then obtain t where t: "tsof le = Some t" by auto
  show ?case
  proof (cases "t \<le> ts")
    case True
    with t show ?thesis by (intro exI [of _ "[]"] exI [of _ "le # l"]) simp
  next
    case False
    from Cons obtain xs ys where "l = xs @ ys" "back_insert tsof ts ne l = Some (xs @ ne # ys)"
      "\<forall>x \<in> set xs. ts < the (tsof x)" "case ys of [] \<Rightarrow> True | y # r \<Rightarrow> the (tsof y) \<le> ts" by auto
    with t False show ?thesis by (intro exI [of _ "le # xs"] exI [of _ ys]) simp
  qed
qed

text \<open>
  The list after an insertion: the new element has a place somewhere, and behind all elements
  that are not newer when the list is sorted.
\<close>

lemma insert_list:
  assumes "core C d st" and "get_rrlent_ts st ne = Some ts"
  shows "\<exists>xs ys. rrset_l st = xs @ ys \<and>
    (if insert_sort st then do {
       t \<leftarrow> get_rrlent_ts st ne;
       r \<leftarrow> back_insert (get_rrlent_ts st) t ne (rev (rrset_l st));
       Some (rev r)
     } else Some (rrset_l st @ [ne])) = Some (xs @ ne # ys) \<and>
    (insert_sort st \<longrightarrow> (\<forall>y \<in> set ys. ts < stamp st y) \<and> (xs \<noteq> [] \<longrightarrow> stamp st (last xs) \<le> ts))"
proof (cases "insert_sort st")
  case False
  then show ?thesis by (intro exI [of _ "rrset_l st"] exI [of _ "[]"]) simp
next
  case True
  have "\<forall>le \<in> set (rev (rrset_l st)). \<exists>t. get_rrlent_ts st le = Some t" using core_rrlent_ts [OF assms(1)] by simp
  from back_insert_spec [OF this, of ts ne] obtain xs ys where b: "rev (rrset_l st) = xs @ ys"
    "back_insert (get_rrlent_ts st) ts ne (rev (rrset_l st)) = Some (xs @ ne # ys)"
    "\<forall>x \<in> set xs. ts < stamp st x" "case ys of [] \<Rightarrow> True | y # r \<Rightarrow> stamp st y \<le> ts" by blast
  from arg_cong [OF b(1), of rev] have "rrset_l st = rev ys @ rev xs" by simp
  with True assms(2) b(2-4) show ?thesis
    by (intro exI [of _ "rev ys"] exI [of _ "rev xs"]) (simp add: last_rev split: list.splits)
qed

lemma cok_linked:
  assumes "cok a c st" and "l' = xs @ (a, k) # ys" and "rrset_l st = xs @ ys" and "(a, k) \<notin> set (rrset_l st)"
    and "cent_ok c'" and "ptr_ok a c'" and "lents_of a c' = insert (a, k) (lents_of a c)"
  shows "cok a c' (st\<lparr>rrset_l := l'\<rparr>)"
  using assms by (auto simp: cok_def mine_def)

lemma frame_linked:
  assumes "l' = xs @ (a, k) # ys" and "rrset_l st = xs @ ys" and "mem st = [] \<longrightarrow> m = []"
  shows "frame a st (st\<lparr>rrset_l := l', mem := m\<rparr>)"
  unfolding frame_def using assms by (intro exI [of _ l'] exI [of _ m]) (simp add: others_def)

lemma slots_update_same: "slot c i = Some s \<Longrightarrow> (slots (body c))[i := Some (s\<lparr>rs_lent := rs_lent s\<rparr>)] = slots (body c)"
proof -
  assume "slot c i = Some s"
  moreover have "s\<lparr>rs_lent := rs_lent s\<rparr> = s" by simp
  ultimately show ?thesis by (metis list_update_id)
qed

lemma insert_rrl_spec:
  assumes "core C d st" and "cents st a = Some c" and "i < NRRTOT" and "slot c i = Some s"
    and "(a, int i) \<notin> set (rrset_l st)"
  shows "\<exists>ok c' st'. insert_rrl a (int i) st = Some (ok, st') \<and> entry_step a st c' st' \<and> same_head c c' \<and>
    cs c' = cs c \<and> ilim c' = ilim c \<and>
    (\<exists>l. slots (body c') = (slots (body c))[i := Some (s\<lparr>rs_lent := l\<rparr>)]) \<and> (mem st = [] \<longrightarrow> ok)"
proof -
  note c = core_cok [OF assms(1,2)] and ok = core_cent_ok [OF assms(1,2)]
  have i: "i < ilim c" using slot_some_ilim [OF ok assms(3)] assms(4) by simp
  have b: "body_ok (body c)" using ok by (simp add: cent_ok_def)
  note same = slots_update_same [OF assms(4)]
  show ?thesis
  proof (cases "has (rs_flags s) CF_LOCAL \<or> has (ce_flags c) DF_LOCAL")
    case True
    then have "insert_rrl a (int i) st = Some (True, st)"
      using assms(2,4) ok i by (simp add: insert_rrl_def)
    with entry_step_refl [OF assms(2) c] same show ?thesis by (metis same_head_refl)
  next
    case nl: False
    obtain okm m where m: "malloc st = (okm, st\<lparr>mem := m\<rparr>)" "mem st = [] \<longrightarrow> okm \<and> m = []" using malloc_step by blast
    let ?st1 = "st\<lparr>mem := m\<rparr>"
    show ?thesis
    proof (cases okm)
      case False
      then have "insert_rrl a (int i) st = Some (False, ?st1)"
        using nl m(1) assms(2,4) ok i by (simp add: insert_rrl_def)
      moreover have "entry_step a st c ?st1"
        using entry_stepI [of a st ?st1 c] frame_mem [of st m a] m(2) c assms(2)
        by (simp add: put_cent_same)
      ultimately show ?thesis using same m(2) False by (metis same_head_refl)
    next
      case True
      have ts: "get_rrlent_ts ?st1 (a, int i) = Some (rs_ts s)" using assms(2,4) ok i by (simp add: get_rrlent_ts_def)
      have c1: "core C d ?st1" using assms(1) by simp
      from insert_list [OF c1 ts] obtain xs ys where l: "rrset_l ?st1 = xs @ ys"
        "(if insert_sort ?st1 then do {
           t \<leftarrow> get_rrlent_ts ?st1 (a, int i);
           r \<leftarrow> back_insert (get_rrlent_ts ?st1) t (a, int i) (rev (rrset_l ?st1));
           Some (rev r)
         } else Some (rrset_l ?st1 @ [(a, int i)])) = Some (xs @ (a, int i) # ys)" by blast
      let ?l = "xs @ (a, int i) # ys"
      let ?v = "Some (s\<lparr>rs_lent := Some (a, int i)\<rparr>)"
      let ?c = "c\<lparr>body := body_upd (body c) i ?v\<rparr>"
      note up = ilim_upd(1-4) [OF b i, of ?v] ilim_upd(5) [OF b i]
      let ?st2 = "st\<lparr>rrset_l := ?l, mem := m\<rparr>"
      have "cents ?st1 = cents st" by simp
      then have run: "insert_rrl a (int i) st = Some (True, put_cent a ?c ?st2)"
        using nl m(1) True assms(2,4) ok i l(2) set_slot_upd [OF b i, of ?v]
        by (simp add: insert_rrl_def put_cent_def del: split_paired_Ex)
      have "cent_ok (c\<lparr>body := body_upd (body c) i ?v, num_rrs := num_rrs c, cs := cs c, ce_flags := ce_flags c\<rparr>)"
        using assms(4) by (intro cent_ok_upd [OF ok i]) (simp_all add: slot_size_def rr_set_size_def)
      then have ok': "cent_ok ?c" by simp
      have "lents_of a ?c = lents_of a c - {(a, int i)} \<union> {(a, int i)}"
        using lents_of_upd [of c ?c i ?v a] up assms(3) ok by (simp add: linked_def)
      then have lents: "lents_of a ?c = insert (a, int i) (lents_of a c)" by blast
      have ptr: "ptr_ok a ?c"
      proof (rule ptr_ok_upd [where c = c and i = i and v = ?v])
        show "ptr_ok a c" using c by (simp add: cok_def)
        show "\<not> is_neg (body ?c)" "slots (body ?c) = (slots (body c))[i := ?v]" using up by simp_all
      qed (use ok in simp_all)
      have "cok a ?c (st\<lparr>rrset_l := ?l\<rparr>)"
        using l(1) by (intro cok_linked [OF c refl _ assms(5) ok' ptr lents]) simp
      then have "cok a ?c ?st2" by (simp add: cok_def)
      moreover have "frame a st ?st2" using l(1) m(2) by (intro frame_linked) simp_all
      ultimately have "entry_step a st ?c (put_cent a ?c ?st2)" by (intro entry_stepI)
      moreover have "same_head c ?c" "cs ?c = cs c" "ilim ?c = ilim c" using up(3,4) by (simp_all add: ilim_def)
      moreover have "\<exists>l. slots (body ?c) = (slots (body c))[i := Some (s\<lparr>rs_lent := l\<rparr>)]"
        using up(1) by (intro exI [of _ "Some (a, int i)"]) simp
      moreover have "mem st = [] \<longrightarrow> True" by simp
      ultimately show ?thesis using run by blast
    qed
  qed
qed

lemma insert_rrl_neg_spec:
  assumes "core C d st" and "cents st a = Some c" and "body c = Neg None ttl ts" and "(a, -1) \<notin> set (rrset_l st)"
  shows "\<exists>ok c' st' l. insert_rrl a (-1) st = Some (ok, st') \<and> entry_step a st c' st' \<and>
    c' = c\<lparr>body := Neg l ttl ts\<rparr> \<and> (mem st = [] \<longrightarrow> ok)"
proof -
  note c = core_cok [OF assms(1,2)] and ok = core_cent_ok [OF assms(1,2)]
  have same: "c\<lparr>body := Neg None ttl ts\<rparr> = c" using assms(3) by (cases c) simp
  show ?thesis
  proof (cases "has (ce_flags c) DF_LOCAL")
    case True
    then have "insert_rrl a (-1) st = Some (True, st)" using assms(2) by (simp add: insert_rrl_def)
    with entry_step_refl [OF assms(2) c] same show ?thesis by metis
  next
    case nl: False
    obtain okm m where m: "malloc st = (okm, st\<lparr>mem := m\<rparr>)" "mem st = [] \<longrightarrow> okm \<and> m = []" using malloc_step by blast
    let ?st1 = "st\<lparr>mem := m\<rparr>"
    show ?thesis
    proof (cases okm)
      case False
      then have "insert_rrl a (-1) st = Some (False, ?st1)" using nl m(1) assms(2) by (simp add: insert_rrl_def)
      moreover have "entry_step a st c ?st1"
        using entry_stepI [of a st ?st1 c] frame_mem [of st m a] m(2) c assms(2)
        by (simp add: put_cent_same)
      ultimately show ?thesis using same m(2) False by metis
    next
      case True
      have ts: "get_rrlent_ts ?st1 (a, -1) = Some ts" using assms(2,3) by (simp add: get_rrlent_ts_def)
      have c1: "core C d ?st1" using assms(1) by simp
      from insert_list [OF c1 ts] obtain xs ys where l: "rrset_l ?st1 = xs @ ys"
        "(if insert_sort ?st1 then do {
           t \<leftarrow> get_rrlent_ts ?st1 (a, -1);
           r \<leftarrow> back_insert (get_rrlent_ts ?st1) t (a, -1) (rev (rrset_l ?st1));
           Some (rev r)
         } else Some (rrset_l ?st1 @ [(a, -1)])) = Some (xs @ (a, -1) # ys)" by blast
      let ?l = "xs @ (a, -1) # ys"
      let ?c = "c\<lparr>body := Neg (Some (a, -1)) ttl ts\<rparr>"
      let ?st2 = "st\<lparr>rrset_l := ?l, mem := m\<rparr>"
      have run: "insert_rrl a (-1) st = Some (True, put_cent a ?c ?st2)"
        using nl m(1) True assms(2,3) l(2)
        by (simp add: insert_rrl_def put_cent_def del: split_paired_Ex)
      have ok': "cent_ok ?c" using ok assms(3) by (simp add: cent_ok_def ext_size_def)
      have lents: "lents_of a ?c = insert (a, -1) (lents_of a c)" using assms(3) by (simp add: lents_of_def)
      have ptr: "ptr_ok a ?c" by (simp add: ptr_ok_def)
      have "cok a ?c (st\<lparr>rrset_l := ?l\<rparr>)"
        using l(1) by (intro cok_linked [OF c refl _ assms(4) ok' ptr lents]) simp
      then have "cok a ?c ?st2" by (simp add: cok_def)
      moreover have "frame a st ?st2" using l(1) m(2) by (intro frame_linked) simp_all
      ultimately have "entry_step a st ?c (put_cent a ?c ?st2)" by (intro entry_stepI)
      with run True show ?thesis by blast
    qed
  qed
qed


text \<open>Writing back a set whose records and link are unchanged.\<close>

lemma cok_set_same:
  assumes "cok a c st" and "i < NRRTOT" and "slot c i = Some s" and "rs_lent s' = rs_lent s" and "rs_rrs s' = rs_rrs s"
  shows "\<exists>c'. set_slot c i (Some s') = Some c' \<and> cok a c' st \<and> slots (body c') = (slots (body c))[i := Some s'] \<and>
    same_head c c' \<and> cs c' = cs c \<and> ilim c' = ilim c \<and> \<not> is_neg (body c') \<and> ce_flags c' = ce_flags c"
proof -
  have c: "cent_ok c" "body_ok (body c)" using assms(1) by (simp_all add: cok_def cent_ok_def)
  have i: "i < ilim c" using slot_some_ilim [OF c(1) assms(2)] assms(3) by simp
  let ?c = "c\<lparr>body := body_upd (body c) i (Some s')\<rparr>"
  note up = ilim_upd(1-4) [OF c(2) i, of "Some s'"] ilim_upd(5) [OF c(2) i]
  have sz: "rr_set_size s' = rr_set_size s" using assms(5) by (simp add: rr_set_size_def)
  have "cent_ok (c\<lparr>body := body_upd (body c) i (Some s'), num_rrs := num_rrs c, cs := cs c, ce_flags := ce_flags c\<rparr>)"
    using assms(3) sz by (intro cent_ok_upd [OF c(1) i]) (simp_all add: slot_size_def)
  then have ok: "cent_ok ?c" by simp
  have "cok a ?c st"
  proof (rule cok_same_links [OF assms(1) ok up(5), where v = "Some s'" and i = i])
    show "\<not> is_neg (body ?c)" "slots (body ?c) = (slots (body c))[i := Some s']" using up by simp_all
    show "linked (Some s') = linked (slot c i)" using assms(3,4) by (simp add: linked_def)
    show "\<forall>s le. Some s' = Some s \<and> rs_lent s = Some le \<longrightarrow> le = (a, int i)"
      using assms(1-4) ptr_okD [of a c i s] by (auto simp: cok_def)
  qed (rule assms(2))
  then show ?thesis using set_slot_upd [OF c(2) i, of "Some s'"] up by (intro exI [of _ ?c]) (simp add: ilim_def)
qed

subsection \<open>Conflicts\<close>

definition conf :: "nat \<Rightarrow> dns_cent \<Rightarrow> nat \<Rightarrow> bool" where
  "conf idx c j \<longleftrightarrow> (\<exists>s. slot c j = Some s \<and> cr_conflicts idx j s)"

text \<open>No two positive record sets of the entry exclude each other.\<close>

definition conflict_free :: "dns_cent \<Rightarrow> bool" where
  "conflict_free c \<longleftrightarrow> (\<forall>i < NRRTOT. \<forall>j < NRRTOT. \<forall>s t. slot c i = Some s \<longrightarrow> slot c j = Some t \<longrightarrow>
     \<not> has (rs_flags s) CF_NEGATIVE \<longrightarrow> \<not> has (rs_flags t) CF_NEGATIVE \<longrightarrow> \<not> rr_conflict i j)"

lemma rr_conflict_sym: "i < NRRTOT \<Longrightarrow> j < NRRTOT \<Longrightarrow> rr_conflict i j = rr_conflict j i"
  by (auto simp: rr_conflict_def)

lemma rr_conflict_irrefl: "i < NRRTOT \<Longrightarrow> \<not> rr_conflict i i"
proof -
  assume "i < NRRTOT"
  moreover have "\<forall>i \<in> set [0..<NRRTOT]. \<not> rr_conflict i i" by code_simp
  ultimately show ?thesis by simp
qed

lemma cr_remove_spec:
  assumes "cok a c st" and "\<forall>i \<in> set is. i < ilim c" and "distinct is"
  shows "\<exists>c' st'. cr_remove is idx c st = Some (c', st') \<and> cok a c' st' \<and> frame a st st' \<and> same_head c c' \<and>
    (\<forall>j < NRRTOT. slot c' j = (if j \<in> set is \<and> conf idx c j then None else slot c j))"
  using assms
proof (induction "is" arbitrary: c st)
  case Nil
  then show ?case by (intro exI [of _ c] exI [of _ st]) simp
next
  case (Cons i "is")
  have c: "cent_ok c" using Cons.prems(1) by (rule cok_cent_ok)
  have i: "i < ilim c" "i < NRRTOT" using Cons.prems(2) ilim_le [of c] by auto
  show ?case
  proof (cases "conf idx c i")
    case False
    from Cons.IH [OF Cons.prems(1)] Cons.prems(2,3) obtain c' st' where IH:
      "cr_remove is idx c st = Some (c', st')" "cok a c' st'" "frame a st st'" "same_head c c'"
      "\<forall>j < NRRTOT. slot c' j = (if j \<in> set is \<and> conf idx c j then None else slot c j)"
      by (auto simp del: cr_remove.simps)
    have "cr_remove (i # is) idx c st = cr_remove is idx c st"
      using False c i by (cases "slot c i") (auto simp: conf_def)
    moreover have "\<forall>j < NRRTOT. slot c' j = (if j \<in> set (i # is) \<and> conf idx c j then None else slot c j)"
      using IH(5) False by auto
    ultimately show ?thesis using IH(1-4) by (intro exI [of _ c'] exI [of _ st']) simp
  next
    case True
    then obtain s where s: "slot c i = Some s" "cr_conflicts idx i s" by (auto simp: conf_def)
    let ?c = "del_slot c i" and ?st = "unlink (a, int i) st"
    note d = del_slot_facts [OF c i(2)]
    note p = del_cent_rrset_spec [OF Cons.prems(1) i(2)]
    from Cons.IH [OF p(2)] Cons.prems(2,3) obtain c' st' where IH:
      "cr_remove is idx ?c ?st = Some (c', st')" "cok a c' st'" "frame a ?st st'" "same_head ?c c'"
      "\<forall>j < NRRTOT. slot c' j = (if j \<in> set is \<and> conf idx ?c j then None else slot ?c j)"
      by (auto simp: d(7) simp del: cr_remove.simps)
    have sl: "slot ?c j = slot c j" if "j \<noteq> i" for j using d(2) that by simp
    have sli: "slot ?c i = None" using d(2) i(2) c by simp
    have "slot c' j = (if j \<in> set (i # is) \<and> conf idx c j then None else slot c j)" if "j < NRRTOT" for j
    proof (cases "j = i")
      case True
      then show ?thesis using IH(5) that sli \<open>conf idx c i\<close> by simp
    next
      case False
      then have "conf idx ?c j = conf idx c j" using sl by (simp add: conf_def)
      with False IH(5) that sl show ?thesis by simp
    qed
    moreover have "cr_remove (i # is) idx c st = cr_remove is idx ?c ?st" using s c i p(1) by simp
    moreover have "same_head c c'" by (rule same_head_trans [OF same_head_del_slot IH(4)])
    moreover have "frame a st c'' \<Longrightarrow> frame a st c''" for c'' .
    moreover have "frame a st st'" by (rule frame_trans [OF frame_unlink IH(3)])
    ultimately show ?thesis using IH(1,2) by (intro exI [of _ c'] exI [of _ st']) simp
  qed
qed

lemma cr_scan_spec:
  assumes "cent_ok c" and "\<forall>i \<in> set is. i < ilim c" and "0 \<le> ncf"
  shows "\<exists>r. cr_scan is idx c st (ncf, nttl) = Some r \<and>
    (\<forall>n t. r = Some (n, t) \<longrightarrow> ncf \<le> n \<and> (\<forall>j \<in> set is. conf idx c j \<longrightarrow> \<not> local_slot c j \<and> 0 < n))"
  using assms(2,3)
proof (induction "is" arbitrary: ncf nttl)
  case Nil
  then show ?case by simp
next
  case (Cons i "is")
  have i: "i < ilim c" using Cons.prems(1) by simp
  show ?case
  proof (cases "conf idx c i")
    case False
    have "cr_scan (i # is) idx c st (ncf, nttl) = cr_scan is idx c st (ncf, nttl)"
      using False assms(1) i by (cases "slot c i") (auto simp: conf_def)
    with Cons.IH [of ncf nttl] Cons.prems False show ?thesis by (auto simp del: cr_scan.simps)
  next
    case True
    then obtain s where s: "slot c i = Some s" "cr_conflicts idx i s" by (auto simp: conf_def)
    show ?thesis
    proof (cases "has (rs_flags s) CF_LOCAL")
      case True
      then have "cr_scan (i # is) idx c st (ncf, nttl) = Some None" using s assms(1) i by simp
      then show ?thesis by simp
    next
      case False
      let ?t = "if 0 < rs_ttl s + rs_ts s - now st then nttl + (rs_ttl s + rs_ts s - now st) else nttl"
      have e: "cr_scan (i # is) idx c st (ncf, nttl) = cr_scan is idx c st (ncf + 1, ?t)"
        using False s assms(1) i by (simp add: Let_def)
      have "\<not> local_slot c i" using False s(1) by (simp add: local_slot_def)
      with Cons.IH [of "ncf + 1" ?t] Cons.prems show ?thesis unfolding e by fastforce
    qed
  qed
qed

lemma cr_check_add_spec:
  assumes "cok a c st" and "idx < NRRTOT"
  shows "\<exists>ok c' st'. cr_check_add c idx ttl fl st = Some (ok, c', st') \<and> cok a c' st' \<and> frame a st st' \<and> same_head c c' \<and>
    (\<forall>j < NRRTOT. slot c' j = slot c j \<or> slot c' j = None \<and> conf idx c j \<and> (has fl CF_LOCAL \<or> \<not> local_slot c j)) \<and>
    (ok \<longrightarrow> \<not> has fl CF_NEGATIVE \<longrightarrow> (\<forall>j < NRRTOT. \<not> conf idx c' j))"
proof (cases "has fl CF_NEGATIVE")
  case True
  then have "cr_check_add c idx ttl fl st = Some (True, c, st)" by (simp add: cr_check_add_def)
  with assms(1) True show ?thesis by (intro exI [of _ True] exI [of _ c] exI [of _ st]) simp
next
  case pos: False
  have c: "cent_ok c" using assms(1) by (rule cok_cent_ok)
  let ?is = "[0..<ilim c]"
  have beyond: "\<not> conf idx c j" if "ilim c \<le> j" "j < NRRTOT" for j using slot_beyond [OF c that] by (simp add: conf_def)
  have less: "j < NRRTOT \<Longrightarrow> conf idx c j \<Longrightarrow> j < ilim c" for j using beyond by (meson not_le)
  from cr_remove_spec [OF assms(1), of ?is idx] obtain c' st' where
    r: "cr_remove ?is idx c st = Some (c', st')" "cok a c' st'" "frame a st st'" "same_head c c'"
      "\<forall>j < NRRTOT. slot c' j = (if j \<in> set ?is \<and> conf idx c j then None else slot c j)" by auto
  have sl: "\<forall>j < NRRTOT. slot c' j = (if conf idx c j then None else slot c j)"
    using r(5) less by auto
  then have free: "\<forall>j < NRRTOT. \<not> conf idx c' j" by (auto simp: conf_def split: if_splits)
  show ?thesis
  proof (cases "has fl CF_LOCAL")
    case True
    then have "cr_check_add c idx ttl fl st = Some (True, c', st')" using pos c r(1) by (simp add: cr_check_add_def)
    with r(2-4) sl free True show ?thesis by (intro exI [of _ True] exI [of _ c'] exI [of _ st']) simp
  next
    case nl: False
    have keep: ?thesis if "cr_check_add c idx ttl fl st = Some (ok, c, st)" "ok \<longrightarrow> (\<forall>j < NRRTOT. \<not> conf idx c j)" for ok
      using that assms(1) by (intro exI [of _ ok] exI [of _ c] exI [of _ st]) simp
    show ?thesis
    proof (cases "has (ce_flags c) DF_LOCAL")
      case True
      then have "cr_check_add c idx ttl fl st = Some (False, c, st)" using pos nl c by (simp add: cr_check_add_def)
      then show ?thesis by (rule keep) simp
    next
      case False
      from cr_scan_spec [OF c, of ?is 0 idx st 0] obtain x where
        x: "cr_scan ?is idx c st (0, 0) = Some x"
          "\<forall>n t. x = Some (n, t) \<longrightarrow> 0 \<le> n \<and> (\<forall>j \<in> set ?is. conf idx c j \<longrightarrow> \<not> local_slot c j \<and> 0 < n)" by auto
      have run: "cr_check_add c idx ttl fl st = (case x of None \<Rightarrow> Some (False, c, st)
          | Some (ncf, nttl) \<Rightarrow> if ncf = 0 then Some (True, c, st)
              else if nttl div ncf < ttl then Some (True, c', st') else Some (False, c, st))"
        using pos nl False c x(1) r(1) by (simp add: cr_check_add_def split: option.splits prod.splits)
      show ?thesis
      proof (cases x)
        case None
        with run have "cr_check_add c idx ttl fl st = Some (False, c, st)" by simp
        then show ?thesis by (rule keep) simp
      next
        case (Some p)
        then obtain n t where p: "x = Some (n, t)" by (cases p) simp
        with x(2) have nn: "\<forall>j < ilim c. conf idx c j \<longrightarrow> \<not> local_slot c j \<and> 0 < n" by auto
        show ?thesis
        proof (cases "n = 0")
          case True
          with p run have "cr_check_add c idx ttl fl st = Some (True, c, st)" by simp
          moreover have "\<forall>j < NRRTOT. \<not> conf idx c j" using True nn less by (metis less_irrefl)
          ultimately show ?thesis using keep by blast
        next
          case n: False
          show ?thesis
          proof (cases "t div n < ttl")
            case False
            with p n run have "cr_check_add c idx ttl fl st = Some (False, c, st)" by simp
            then show ?thesis by (rule keep) simp
          next
            case True
            with p n run have "cr_check_add c idx ttl fl st = Some (True, c', st')" by simp
            moreover have "\<forall>j < NRRTOT. slot c' j = slot c j \<or>
                slot c' j = None \<and> conf idx c j \<and> (has fl CF_LOCAL \<or> \<not> local_slot c j)"
              using sl nn less by metis
            ultimately show ?thesis using r(2-4) free by (intro exI [of _ True] exI [of _ c'] exI [of _ st']) simp
          qed
        qed
      qed
    qed
  qed
qed

end
