(* ===== verification/Cache_Build.thy ===== *)
theory Cache_Build
  imports Cache_Entry
begin

text \<open>
  \<open>add_cent_rr\<close>, on an entry with its links and on an entry outside the cache: what it does to
  the record sets, and that it keeps the invariant of the entry.
\<close>

definition rr_added :: "int \<Rightarrow> int \<Rightarrow> flags \<Rightarrow> bytes \<Rightarrow> bool \<Rightarrow> rr_set option \<Rightarrow> rr_set option" where
  "rr_added ttl ts fl data ok old = (case old of
     None \<Rightarrow> if ok then Some ((fresh_set ttl ts fl)\<lparr>rs_rrs := [data]\<rparr>) else None
   | Some s \<Rightarrow> Some (s\<lparr>rs_ttl := (if ttl < rs_ttl s then ttl else rs_ttl s),
       rs_rrs := (if ok \<and> data \<notin> set (rs_rrs s) then rs_rrs s @ [data] else rs_rrs s)\<rparr>))"

lemma add_cent_rr_spec:
  assumes "cok a c st" and "T_MIN \<le> tp" and "tp \<le> T_MAX" and "idx = rrlkuptab ! (tp - T_MIN)" and "idx < NRRTOT"
    and "\<not> (has (ce_flags c) DF_LOCAL \<and> \<not> has fl CF_LOCAL)"
  shows "\<exists>ok c' st'. add_cent_rr c (int tp) ttl ts fl data st = Some (ok, c', st') \<and> cok a c' st' \<and>
    frame a st st' \<and> same_head c c' \<and> (mem st = [] \<longrightarrow> ok) \<and>
    (body c' = body c \<or> \<not> is_neg (body c')) \<and> slots (body c') = (slots (body c))[idx := rr_added ttl ts fl data ok (slot c idx)]"
proof -
  note c = cok_cent_ok [OF assms(1)]
  have t: "nat (int tp - int T_MIN) = tp - T_MIN" "0 \<le> int tp - int T_MIN" "int tp - int T_MIN < int T_NUM"
    using assms(2,3) by (auto simp: T_MIN_def T_MAX_def T_NUM_def)
  have tp: "tp - T_MIN < length rrlkuptab" using assms(2,3) by (auto simp: T_MIN_def T_MAX_def T_NUM_def)
  have rd: "rd rrlkuptab (tp - T_MIN) = Some idx" using tp assms(4) by (simp add: rd_def)
  note s = assms(6)
  show ?thesis
  proof (cases "slot c idx")
    case None
    have "case None of None \<Rightarrow> True | Some k \<Rightarrow> (\<exists>s. slot c idx = Some s \<and> k < length (rs_rrs s))" by simp
    from add_cent_rr_int_spec [OF assms(1,5) this, of ttl ts fl data] obtain ok c' rt st' where
      a: "add_cent_rr_int c idx ttl ts fl data None st = Some (ok, c', rt, st')" "cok a c' st'" "frame a st st'"
        "same_head c c'" "mem st = [] \<longrightarrow> ok" "c' = c \<or> \<not> is_neg (body c')"
        "if ok then slots (body c') = (slots (body c))[idx := Some ((fresh_set ttl ts fl)\<lparr>rs_rrs := [data]\<rparr>)]
         else slots (body c') = slots (body c)"
      unfolding None option.case Let_def by (auto simp: link_rr_def fresh_set_def split: if_splits)
    have "slots (body c') = (slots (body c))[idx := rr_added ttl ts fl data ok (slot c idx)]"
      using a(7) None by (cases ok) (simp_all add: rr_added_def, metis list_update_id)
    moreover have "add_cent_rr c (int tp) ttl ts fl data st = Some (ok, c', st')"
      using s t rd assms(5) c None a(1) by (auto simp: add_cent_rr_def)
    ultimately show ?thesis using a(2-6) by blast
  next
    case (Some x)
    let ?x = "x\<lparr>rs_ttl := (if ttl < rs_ttl x then ttl else rs_ttl x)\<rparr>"
    from cok_set_same [OF assms(1,5) Some, of ?x] obtain c1 where
      c1: "set_slot c idx (Some ?x) = Some c1" "cok a c1 st" "slots (body c1) = (slots (body c))[idx := Some ?x]"
        "same_head c c1" "\<not> is_neg (body c1)" by auto
    have sl1: "slot c1 idx = Some ?x" using c1(3) assms(5) c by simp
    show ?thesis
    proof (cases "data \<in> set (rs_rrs x)")
      case True
      then have "add_cent_rr c (int tp) ttl ts fl data st = Some (True, c1, st)"
        using s t rd assms(5) c Some c1(1) by (auto simp: add_cent_rr_def)
      moreover have "slots (body c1) = (slots (body c))[idx := rr_added ttl ts fl data True (slot c idx)]"
        using c1(3) Some True by (simp add: rr_added_def)
      ultimately show ?thesis using c1(2,4,5) frame_refl by blast
    next
      case False
      let ?rt = "if rs_rrs x = [] then None else Some (length (rs_rrs x) - 1)"
      have pre: "case ?rt of None \<Rightarrow> True | Some k \<Rightarrow> (\<exists>s. slot c1 idx = Some s \<and> k < length (rs_rrs s))"
        using sl1 by simp
      from add_cent_rr_int_spec [OF c1(2) assms(5) pre, of ttl ts fl data] obtain ok c' rt st' where
        a: "add_cent_rr_int c1 idx ttl ts fl data ?rt st = Some (ok, c', rt, st')" "cok a c' st'" "frame a st st'"
          "same_head c1 c'" "mem st = [] \<longrightarrow> ok" "c' = c1 \<or> \<not> is_neg (body c')"
          "if ok then slots (body c') = (slots (body c1))[idx := Some (?x\<lparr>rs_rrs := link_rr data ?rt (rs_rrs ?x)\<rparr>)] \<and>
             rt = Some (next_tail ?rt)
           else slots (body c') = slots (body c1)"
        unfolding sl1 option.case Let_def by blast
      have l: "link_rr data ?rt (rs_rrs x) = rs_rrs x @ [data]" by (auto simp: link_rr_def)
      have "slots (body c') = (slots (body c))[idx := rr_added ttl ts fl data ok (slot c idx)]"
        using a(7) c1(3) Some False l by (cases ok) (simp_all add: rr_added_def)
      moreover have "add_cent_rr c (int tp) ttl ts fl data st = Some (ok, c', st')"
        using s t rd assms(5) c Some c1(1) False a(1) by (auto simp: add_cent_rr_def)
      ultimately show ?thesis using a(2,3,5,6) c1(5) same_head_trans [OF c1(4) a(4)] by blast
    qed
  qed
qed

text \<open>On an entry outside the cache only the outcomes of allocations are used up.\<close>

lemma fresh_owner: "\<exists>a. mine a l = {} \<and> others a l = l"
proof -
  obtain a where a: "a \<notin> set (map fst l)" by (meson ex_new_if_finite List.finite_set infinite_UNIV_nat)
  then have "\<forall>le \<in> set l. fst le \<noteq> a" by auto
  then have "mine a l = {}" "others a l = l" by (auto simp: mine_def others_def simp del: split_paired_All intro: filter_True)
  then show ?thesis by blast
qed

lemma others_all: "mine a l = {} \<Longrightarrow> others a l = l"
  unfolding mine_def others_def by (rule filter_True) blast

lemma detached_frame:
  assumes "frame a st st'" and "cok a c' st'" and "detached c'" and "mine a (rrset_l st) = {}"
  shows "\<exists>m. st' = st\<lparr>mem := m\<rparr> \<and> (mem st = [] \<longrightarrow> m = [])"
proof -
  from assms(1) obtain l m where s: "st' = st\<lparr>rrset_l := l, mem := m\<rparr>" "others a l = others a (rrset_l st)"
    "mem st = [] \<longrightarrow> m = []" unfolding frame_def by blast
  have "mine a l = {}" using assms(2,3) s(1) by (simp add: cok_def detached_def)
  then have "l = rrset_l st" using s(2) others_all assms(4) by metis
  with s(1,3) show ?thesis by auto
qed

lemma add_cent_rr_detached:
  assumes "cent_ok c" and "detached c" and "distinct (rrset_l st)"
    and "T_MIN \<le> tp" and "tp \<le> T_MAX" and "idx = rrlkuptab ! (tp - T_MIN)" and "idx < NRRTOT"
    and "\<not> (has (ce_flags c) DF_LOCAL \<and> \<not> has fl CF_LOCAL)"
  shows "\<exists>ok c' m. add_cent_rr c (int tp) ttl ts fl data st = Some (ok, c', st\<lparr>mem := m\<rparr>) \<and> cent_ok c' \<and> detached c' \<and>
    same_head c c' \<and> (mem st = [] \<longrightarrow> ok \<and> m = []) \<and>
    slots (body c') = (slots (body c))[idx := rr_added ttl ts fl data ok (slot c idx)]"
proof -
  obtain a where a: "mine a (rrset_l st) = {}" using fresh_owner by blast
  from add_cent_rr_spec [OF detached_cok [OF assms(1-3) a] assms(4-8), of ttl ts data] obtain ok c' st' where
    r: "add_cent_rr c (int tp) ttl ts fl data st = Some (ok, c', st')" "cok a c' st'" "frame a st st'" "same_head c c'"
      "mem st = [] \<longrightarrow> ok" "body c' = body c \<or> \<not> is_neg (body c')"
      "slots (body c') = (slots (body c))[idx := rr_added ttl ts fl data ok (slot c idx)]" by blast
  have b: "body_ok (body c)" "body_ok (body c')" using assms(1) cok_cent_ok [OF r(2)] by (simp_all add: cent_ok_def)
  have un: "\<forall>i < NRRTOT. \<not> linked (slot c i)" using assms(2) b(1) by (simp add: detached_iff)
  have "\<not> linked (slot c' i)" if "i < NRRTOT" for i
    using un that assms(1,7) r(7)
    by (cases "i = idx") (auto simp: linked_def rr_added_def fresh_set_def split: option.splits if_splits)
  moreover have "l = None" if "body c' = Neg l ttl' ts'" for l ttl' ts'
  proof (rule ccontr)
    assume "l \<noteq> None"
    show False
    proof (cases "body c' = body c")
      case True
      with that assms(2) b(1) \<open>l \<noteq> None\<close> show False by (simp add: detached_iff)
    next
      case False
      with that r(6) show False by simp
    qed
  qed
  ultimately have "detached c'" using b(2) by (subst detached_iff) auto
  with detached_frame [OF r(3,2) _ a] r b cok_cent_ok [OF r(2)] show ?thesis by blast
qed

end
