(* ===== verification/Dns_Parse_Correct.thy ===== *)
theory Dns_Parse_Correct
  imports Dns_Parse Cache_Build
begin

text \<open>
  What \<open>rrs2cent\<close> guarantees on any message: it stays inside the message and its buffers, and every
  record it stores has data of the form the type asks for.
\<close>

subsection \<open>Data of a record\<close>

text \<open>A string with its length in front, as in a NAPTR record.\<close>

definition char_string :: "bytes \<Rightarrow> bool" where
  "char_string s \<longleftrightarrow> s \<noteq> [] \<and> length s = unat (hd s) + 1"

text \<open>The form of the data: \<open>enc ls\<close> is an uncompressed name.\<close>

definition rdata_ok :: "nat \<Rightarrow> bytes \<Rightarrow> bool" where
  "rdata_ok type d \<longleftrightarrow>
     (type = T_A \<longrightarrow> length d = 4) \<and>
     (type = T_AAAA \<longrightarrow> length d = 16) \<and>
     (type \<in> set name_types \<longrightarrow> (\<exists>ls. dns_name ls \<and> d = enc ls)) \<and>
     (type = T_MINFO \<or> type = T_RP \<longrightarrow> (\<exists>ls ls'. dns_name ls \<and> dns_name ls' \<and> d = enc ls @ enc ls')) \<and>
     (type = T_MX \<or> type = T_AFSDB \<or> type = T_RT \<or> type = T_KX \<longrightarrow>
        (\<exists>p ls. length p = 2 \<and> dns_name ls \<and> d = p @ enc ls)) \<and>
     (type = T_SOA \<longrightarrow> (\<exists>ls ls' t. dns_name ls \<and> dns_name ls' \<and> length t = 20 \<and> d = enc ls @ enc ls' @ t)) \<and>
     (type = T_PX \<longrightarrow> (\<exists>p ls ls'. length p = 2 \<and> dns_name ls \<and> dns_name ls' \<and> d = p @ enc ls @ enc ls')) \<and>
     (type = T_SRV \<longrightarrow> (\<exists>p ls. length p = 6 \<and> dns_name ls \<and> d = p @ enc ls)) \<and>
     (type = T_NXT \<longrightarrow> (\<exists>ls t. dns_name ls \<and> d = enc ls @ t) \<and> length d \<le> 1040) \<and>
     (type = T_NAPTR \<longrightarrow> (\<exists>p a b c ls. length p = 4 \<and> char_string a \<and> char_string b \<and> char_string c \<and>
        dns_name ls \<and> d = p @ a @ b @ c @ enc ls)) \<and>
     (type = T_IPSECKEY \<longrightarrow> 3 \<le> length d \<and> d ! 1 \<le> 3 \<and> (d ! 1 = 1 \<longrightarrow> 7 \<le> length d) \<and> (d ! 1 = 2 \<longrightarrow> 19 \<le> length d) \<and>
        (d ! 1 = 3 \<longrightarrow> (\<exists>p ls t. length p = 3 \<and> dns_name ls \<and> d = p @ enc ls @ t))) \<and>
     (type = T_RRSIG \<longrightarrow> (\<exists>p ls t. length p = 18 \<and> dns_name ls \<and> d = p @ enc ls @ t)) \<and>
     (type = T_NSEC \<longrightarrow> (\<exists>ls t. dns_name ls \<and> d = enc ls @ t))"

text \<open>An error code that rejects the message, or data with a property.\<close>

definition data_or_error :: "(bytes \<Rightarrow> bool) \<Rightarrow> nat + bytes \<Rightarrow> bool" where
  "data_or_error P r = (case r of Inl rc \<Rightarrow> rc = RC_FORMAT | Inr d \<Rightarrow> P d)"

lemma data_or_error_simps [simp]:
  "data_or_error P (Inl rc) = (rc = RC_FORMAT)" "data_or_error P (Inr d) = P d"
  by (simp_all add: data_or_error_def)

lemma decompress_at_cases:
  assumes "off + DNSNAMEBUFSIZE \<le> length db"
  obtains (err) "decompress_at msg (length msg) bptr blcnt db off = Some (Inl RC_FORMAT)"
  | (ok) n ls db' where
      "decompress_at msg (length msg) bptr blcnt db off = Some (Inr (bptr + n, blcnt - n, db', length (enc ls)))"
      "n \<le> blcnt" "bptr + n \<le> length msg" "dns_name ls" "length (enc ls) \<le> DNSNAMEBUFSIZE" "length db' = length db"
      "take (off + length (enc ls)) db' = take off db @ enc ls"
proof -
  have "DNSNAMEBUFSIZE \<le> length (drop off db)" using assms by simp
  from decompress_name_returns [OF refl this, of msg bptr blcnt] obtain x where
    x: "decompress_name msg (length msg) bptr blcnt (drop off db) = Some x"
      "case x of Inl rc \<Rightarrow> (rc = RC_FORMAT \<or> rc = RC_TRUNC) \<and> \<not> (\<exists>n ls. field_name msg bptr blcnt n ls)
        | Inr (src', sz', tgt', len) \<Rightarrow> \<exists>n ls. field_name msg bptr blcnt n ls \<and>
            src' = bptr + n \<and> sz' = blcnt - n \<and> len = length (enc ls) \<and>
            length tgt' = length (drop off db) \<and> take len tgt' = enc ls"
    by (rule returnsE)
  show ?thesis
  proof (cases x)
    case (Inl rc)
    with x show ?thesis by (intro err) (auto simp: decompress_at_def dn_err_def rc_defs)
  next
    case (Inr y)
    with x(2) obtain n ls tgt where y: "y = (bptr + n, blcnt - n, tgt, length (enc ls))" "field_name msg bptr blcnt n ls"
      "length tgt = length (drop off db)" "take (length (enc ls)) tgt = enc ls" by (cases y) auto
    have "n \<le> blcnt" "dns_name ls" "bptr + n \<le> length msg"
      using y(2) name_at_in_msg by (auto simp: field_name_def)
    moreover have "decompress_at msg (length msg) bptr blcnt db off =
        Some (Inr (bptr + n, blcnt - n, take off db @ tgt, length (enc ls)))"
      using x(1) Inr y(1) by (simp add: decompress_at_def)
    moreover from this have "length (enc ls) \<le> DNSNAMEBUFSIZE" using \<open>dns_name ls\<close> by (simp add: dns_name_def)
    moreover have "length (take off db @ tgt) = length db" using y(3) assms by simp
    moreover have "take (off + length (enc ls)) (take off db @ tgt) = take off db @ enc ls"
      using y(4) assms by simp
    ultimately show ?thesis using ok [of n "take off db @ tgt" ls] by blast
  qed
qed

lemma rd_all_take: "n \<le> length b \<Longrightarrow> rd_all b 0 n = Some (take n b)"
  by (simp add: rd_all_def)

lemma rd_all_some: "i + n \<le> length b \<Longrightarrow> \<exists>v. rd_all b i n = Some v \<and> length v = n"
  by (simp add: rd_all_def)

lemma wr_all_zero: "length v \<le> length b \<Longrightarrow> wr_all b 0 v = Some (v @ drop (length v) b)"
  by (simp add: wr_all_def)

lemma rr_name_spec:
  "returns (rr_name msg (length msg) bptr blcnt) (data_or_error (\<lambda>d. \<exists>ls. dns_name ls \<and> d = enc ls))"
proof -
  have "0 + DNSNAMEBUFSIZE \<le> length (replicate DNSNAMEBUFSIZE (0 :: byte))" by simp
  then show ?thesis
    by (rule decompress_at_cases [of _ _ msg bptr blcnt]) (auto simp: rr_name_def rd_all_take)
qed

lemma rr_two_names_spec:
  "returns (rr_two_names msg (length msg) bptr blcnt)
    (data_or_error (\<lambda>d. \<exists>ls ls'. dns_name ls \<and> dns_name ls' \<and> d = enc ls @ enc ls'))"
proof -
  let ?db = "replicate (DNSNAMEBUFSIZE + DNSNAMEBUFSIZE) (0 :: byte)"
  have "0 + DNSNAMEBUFSIZE \<le> length ?db" by simp
  then show ?thesis
  proof (cases rule: decompress_at_cases [of _ _ msg bptr blcnt])
    case err
    then show ?thesis by (simp add: rr_two_names_def)
  next
    case (ok n ls db1)
    then have "length (enc ls) + DNSNAMEBUFSIZE \<le> length db1" by simp
    then show ?thesis
      by (rule decompress_at_cases [of _ _ msg "bptr + n" "blcnt - n"])
        (use ok in \<open>auto simp: rr_two_names_def rd_all_take\<close>)
  qed
qed

lemma rr_pref_name_spec:
  assumes "bptr + blcnt \<le> length msg"
  shows "returns (rr_pref_name k msg (length msg) bptr blcnt)
    (data_or_error (\<lambda>d. \<exists>p ls. length p = k \<and> dns_name ls \<and> d = p @ enc ls))"
proof (cases "blcnt < k")
  case True
  then show ?thesis by (simp add: rr_pref_name_def)
next
  case False
  then obtain p where p: "rd_all msg bptr k = Some p" "length p = k" using assms rd_all_some [of bptr k msg] by auto
  let ?db = "p @ drop k (replicate (k + DNSNAMEBUFSIZE) (0 :: byte))"
  have w: "wr_all (replicate (k + DNSNAMEBUFSIZE) 0) 0 p = Some ?db" using p(2) by (simp add: wr_all_zero)
  have "k + DNSNAMEBUFSIZE \<le> length ?db" using p(2) by simp
  then show ?thesis
    by (rule decompress_at_cases [of _ _ msg "bptr + k" "blcnt - k"])
      (use False p w in \<open>auto simp: rr_pref_name_def rd_all_take\<close>)
qed

lemma rr_soa_spec:
  assumes "bptr + blcnt \<le> length msg"
  shows "returns (rr_soa msg (length msg) bptr blcnt) (data_or_error
    (\<lambda>d. \<exists>ls ls' t. dns_name ls \<and> dns_name ls' \<and> length t = 20 \<and> d = enc ls @ enc ls' @ t))"
proof -
  let ?db = "replicate (DNSNAMEBUFSIZE + DNSNAMEBUFSIZE + 20) (0 :: byte)"
  have "0 + DNSNAMEBUFSIZE \<le> length ?db" by simp
  then show ?thesis
  proof (cases rule: decompress_at_cases [of _ _ msg bptr blcnt])
    case err
    then show ?thesis by (simp add: rr_soa_def)
  next
    case (ok n ls db1)
    then have "length (enc ls) + DNSNAMEBUFSIZE \<le> length db1" by simp
    then show ?thesis
    proof (cases rule: decompress_at_cases [of _ _ msg "bptr + n" "blcnt - n"])
      case err
      with ok show ?thesis by (simp add: rr_soa_def)
    next
      case two: (ok n' ls' db2)
      show ?thesis
      proof (cases "blcnt - n - n' < 20")
        case True
        with ok two show ?thesis by (simp add: rr_soa_def)
      next
        case False
        then have "bptr + n + n' + 20 \<le> length msg" using assms ok(2) two(2) by arith
        then obtain t where t: "rd_all msg (bptr + n + n') 20 = Some t" "length t = 20"
          using rd_all_some by blast
        let ?k = "length (enc ls) + length (enc ls')"
        have k: "?k + 20 \<le> length db2" using ok two by simp
        then have w: "wr_all db2 ?k t = Some (take ?k db2 @ t @ drop (?k + 20) db2)" using t by (simp add: wr_all_def)
        have tk: "take ?k db2 = enc ls @ enc ls'" using ok two by simp
        have "rd_all (take ?k db2 @ t @ drop (?k + 20) db2) 0 (?k + 20) = Some (enc ls @ enc ls' @ t)"
          using k t by (simp add: tk rd_all_def)
        with ok two False t w show ?thesis by (auto simp: rr_soa_def)
      qed
    qed
  qed
qed

lemma rr_px_spec:
  assumes "bptr + blcnt \<le> length msg"
  shows "returns (rr_px msg (length msg) bptr blcnt) (data_or_error
    (\<lambda>d. \<exists>p ls ls'. length p = 2 \<and> dns_name ls \<and> dns_name ls' \<and> d = p @ enc ls @ enc ls'))"
proof (cases "blcnt < 2")
  case True
  then show ?thesis by (simp add: rr_px_def)
next
  case False
  then obtain p where p: "rd_all msg bptr 2 = Some p" "length p = 2" using assms rd_all_some [of bptr 2 msg] by auto
  let ?r = "replicate (2 + DNSNAMEBUFSIZE + DNSNAMEBUFSIZE) (0 :: byte)"
  let ?db = "p @ drop 2 ?r"
  have w: "wr_all ?r 0 p = Some ?db" using p(2) by (simp add: wr_all_zero)
  have "2 + DNSNAMEBUFSIZE \<le> length ?db" using p(2) by simp
  then show ?thesis
  proof (cases rule: decompress_at_cases [of _ _ msg "bptr + 2" "blcnt - 2"])
    case err
    with False p w show ?thesis by (simp add: rr_px_def)
  next
    case (ok n ls db1)
    then have "2 + length (enc ls) + DNSNAMEBUFSIZE \<le> length db1" using p(2) by simp
    then show ?thesis
      by (rule decompress_at_cases [of _ _ msg "bptr + 2 + n" "blcnt - 2 - n"])
        (use False p w ok in \<open>auto simp: rr_px_def rd_all_take\<close>)
  qed
qed

lemma rr_nxt_spec:
  assumes "bptr + blcnt \<le> length msg"
  shows "returns (rr_nxt msg (length msg) bptr blcnt)
    (data_or_error (\<lambda>d. (\<exists>ls t. dns_name ls \<and> d = enc ls @ t) \<and> length d \<le> 1040))"
proof -
  have "0 + DNSNAMEBUFSIZE \<le> length (replicate 1040 (0 :: byte))" by (simp add: DNSNAMEBUFSIZE_def)
  then show ?thesis
  proof (cases rule: decompress_at_cases [of _ _ msg bptr blcnt])
    case err
    then show ?thesis by (simp add: rr_nxt_def)
  next
    case (ok n ls db1)
    show ?thesis
    proof (cases "1040 < length (enc ls) + (blcnt - n)")
      case True
      with ok show ?thesis by (simp add: rr_nxt_def)
    next
      case False
      obtain t where t: "rd_all msg (bptr + n) (blcnt - n) = Some t" "length t = blcnt - n"
        using assms ok(2,3) rd_all_some [of "bptr + n" "blcnt - n" msg] by auto
      have w: "wr_all db1 (length (enc ls)) t = Some (enc ls @ t @ drop (length (enc ls) + length t) db1)"
        using ok False t(2) by (simp add: wr_all_def)
      with ok False t show ?thesis by (auto simp: rr_nxt_def rd_all_def)
    qed
  qed
qed

lemma naptr_len_spec:
  assumes "bptr + blcnt \<le> length msg"
  shows "\<exists>r. naptr_len j msg bptr blcnt len = Some r \<and> (\<forall>l. r = Some l \<longrightarrow> len \<le> l \<and> l \<le> len + j * 256 \<and>
    (l \<le> blcnt \<longrightarrow> (\<exists>ss. length ss = j \<and> list_all char_string ss \<and> rd_all msg (bptr + len) (l - len) = Some (concat ss))))"
proof (induction j arbitrary: len)
  case 0
  then show ?case using assms by (auto simp: rd_all_def)
next
  case (Suc j)
  show ?case
  proof (cases "blcnt \<le> len")
    case True
    then show ?thesis by simp
  next
    case False
    then obtain c where c: "rd msg (bptr + len) = Some c" using assms by (auto simp: rd_def)
    let ?len = "len + unat c + 1"
    from Suc.IH [of ?len] obtain r where r: "naptr_len j msg bptr blcnt ?len = Some r"
      "\<forall>l. r = Some l \<longrightarrow> ?len \<le> l \<and> l \<le> ?len + j * 256 \<and>
        (l \<le> blcnt \<longrightarrow> (\<exists>ss. length ss = j \<and> list_all char_string ss \<and> rd_all msg (bptr + ?len) (l - ?len) = Some (concat ss)))"
      by blast
    have "naptr_len (Suc j) msg bptr blcnt len = Some r" using False c r(1) by simp
    moreover have "len \<le> l \<and> l \<le> len + Suc j * 256 \<and>
        (l \<le> blcnt \<longrightarrow> (\<exists>ss. length ss = Suc j \<and> list_all char_string ss \<and> rd_all msg (bptr + len) (l - len) = Some (concat ss)))"
      if l: "r = Some l" for l
    proof (intro conjI impI)
      have b: "?len \<le> l" "l \<le> ?len + j * 256" using r(2) l by blast+
      then show "len \<le> l" by simp
      have "unat c + 1 \<le> 256" using unat_byte_less [of c] by linarith
      with b(2) show "l \<le> len + Suc j * 256" by simp
      assume "l \<le> blcnt"
      with r(2) l obtain ss where ss: "length ss = j" "list_all char_string ss"
        "rd_all msg (bptr + ?len) (l - ?len) = Some (concat ss)" by blast
      let ?s = "take (unat c + 1) (drop (bptr + len) msg)"
      have in_msg: "bptr + l \<le> length msg" using \<open>l \<le> blcnt\<close> assms by simp
      have ls: "length ?s = unat c + 1" using b(1) in_msg by simp
      have hs: "hd ?s = c" using c ls by (simp add: rd_Some_iff hd_drop_conv_nth hd_take)
      have "char_string ?s" using ls hs by (auto simp: char_string_def)
      moreover have "rd_all msg (bptr + len) (l - len) = Some (?s @ concat ss)"
      proof -
        have "l - len = (unat c + 1) + (l - ?len)" using b(1) by simp
        then have "take (l - len) (drop (bptr + len) msg) = ?s @ take (l - ?len) (drop (unat c + 1) (drop (bptr + len) msg))"
          by (metis take_add)
        moreover have "take (l - ?len) (drop (unat c + 1) (drop (bptr + len) msg)) = concat ss"
          using ss(3) by (simp add: rd_all_def ac_simps split: if_splits)
        ultimately show ?thesis using in_msg b(1) by (simp add: rd_all_def)
      qed
      ultimately show "\<exists>ss. length ss = Suc j \<and> list_all char_string ss \<and> rd_all msg (bptr + len) (l - len) = Some (concat ss)"
        using ss(1,2) by (intro exI [of _ "?s # ss"]) simp
    qed
    ultimately show ?thesis by blast
  qed
qed

lemma rd_all_split: "rd_all b i n = Some v \<Longrightarrow> k \<le> n \<Longrightarrow>
  rd_all b i k = Some (take k v) \<and> rd_all b (i + k) (n - k) = Some (drop k v)"
  by (auto simp: rd_all_def min_def drop_take add.commute split: if_splits)

lemma rr_naptr_spec:
  assumes "bptr + blcnt \<le> length msg"
  shows "returns (rr_naptr msg (length msg) bptr blcnt) (data_or_error (\<lambda>d. \<exists>p a b c ls. length p = 4 \<and>
    char_string a \<and> char_string b \<and> char_string c \<and> dns_name ls \<and> d = p @ a @ b @ c @ enc ls))"
proof -
  from naptr_len_spec [OF assms, of 3 4] obtain r where r: "naptr_len 3 msg bptr blcnt 4 = Some r"
    "\<forall>l. r = Some l \<longrightarrow> 4 \<le> l \<and> l \<le> 4 + 3 * 256 \<and> (l \<le> blcnt \<longrightarrow>
      (\<exists>ss. length ss = 3 \<and> list_all char_string ss \<and> rd_all msg (bptr + 4) (l - 4) = Some (concat ss)))" by blast
  show ?thesis
  proof (cases r)
    case None
    with r(1) show ?thesis by (simp add: rr_naptr_def)
  next
    case (Some l)
    show ?thesis
    proof (cases "blcnt < l")
      case True
      with Some r(1) show ?thesis by (simp add: rr_naptr_def)
    next
      case False
      with r(2) Some obtain ss where ss: "4 \<le> l" "l \<le> 4 + 3 * 256" "length ss = 3" "list_all char_string ss"
        "rd_all msg (bptr + 4) (l - 4) = Some (concat ss)" by auto
      from ss(3) obtain a b c where abc: "ss = [a, b, c]"
        by (metis (no_types) length_0_conv length_Suc_conv numeral_3_eq_3)
      obtain h where h: "rd_all msg bptr l = Some h" "length h = l"
        using assms False rd_all_some [of bptr l msg] by auto
      from rd_all_split [OF h(1) ss(1)] ss(5) have h4: "h = take 4 h @ concat ss"
        by (metis append_take_drop_id option.inject)
      let ?R = "replicate (4 + 3 * 256 + DNSNAMEBUFSIZE) (0 :: byte)"
      let ?db = "h @ drop l ?R"
      have w: "wr_all ?R 0 h = Some ?db" using h(2) ss(2) by (simp add: wr_all_zero)
      have "l + DNSNAMEBUFSIZE \<le> length ?db" using h(2) ss(2) by simp
      then show ?thesis
      proof (cases rule: decompress_at_cases [of _ _ msg "bptr + l" "blcnt - l"])
        case err
        with r(1) Some False h(1) w show ?thesis by (simp add: rr_naptr_def)
      next
        case (ok n ls db')
        have "l + length (enc ls) \<le> length db'" using ok(5,6) h(2) ss(2) by simp
        moreover have "take (l + length (enc ls)) db' = take 4 h @ a @ b @ c @ enc ls"
          using ok(7) h(2) h4 abc by simp
        moreover have "length (take 4 h) = 4" using h(2) ss(1) by simp
        moreover have "char_string a" "char_string b" "char_string c" using ss(4) abc by simp_all
        ultimately have "\<exists>p a b c ls'. length p = 4 \<and> char_string a \<and> char_string b \<and> char_string c \<and> dns_name ls' \<and>
            take (l + length (enc ls)) db' = p @ a @ b @ c @ enc ls'" using ok(4) by blast
        moreover have "rr_naptr msg (length msg) bptr blcnt = Some (if blcnt - l - n \<noteq> 0 then Inl RC_FORMAT
            else Inr (take (l + length (enc ls)) db'))"
          using r(1) Some False h(1) w ok(1) \<open>l + length (enc ls) \<le> length db'\<close> by (simp add: rr_naptr_def rd_all_take)
        ultimately show ?thesis by simp
      qed
    qed
  qed
qed

text \<open>The types with a name behind \<open>n\<close> bytes; memory may run out.\<close>

lemma rr_expand_spec:
  assumes "ptr + rdlength \<le> length msg" and "n \<le> rdlength"
  shows "\<exists>r m. rr_expand n msg (length msg) ptr rdlength st = Some (r, st\<lparr>mem := m\<rparr>) \<and> (mem st = [] \<longrightarrow> m = []) \<and>
    (case r of Inl rc \<Rightarrow> rc = RC_FORMAT \<or> rc = RC_FATALERR \<and> mem st \<noteq> []
     | Inr d \<Rightarrow> \<exists>p ls t. rd_all msg ptr n = Some p \<and> dns_name ls \<and> d = p @ enc ls @ t)"
proof -
  let ?rest = "drop (ptr + n) msg"
  have len: "rdlength - n \<le> length ?rest" using assms by simp
  obtain v where v: "rd_all msg ptr rdlength = Some v" "length v = rdlength" using assms rd_all_some by blast
  from rd_all_split [OF v(1) assms(2)] have p: "rd_all msg ptr n = Some (take n v)"
    "rd_all msg (ptr + n) (rdlength - n) = Some (drop n v)" by simp_all
  have same: "st\<lparr>mem := mem st\<rparr> = st" by simp
  define nrm where "nrm \<longleftrightarrow> (\<exists>ls r. ?rest = enc ls @ r \<and> dns_name ls \<and> length (enc ls) \<le> rdlength - n)"
  have normal: "isnormalencdomname ?rest (rdlength - n) = Some nrm"
    unfolding nrm_def by (rule isnormalencdomname_iff [OF len])
  show ?thesis
  proof (cases nrm)
    case True
    then obtain ls r where ls: "?rest = enc ls @ r" "dns_name ls" "length (enc ls) \<le> rdlength - n"
      unfolding nrm_def by blast
    have "drop n v = enc ls @ take (rdlength - n - length (enc ls)) r"
      using p(2) ls(1,3) by (simp add: rd_all_def split: if_splits)
    then have "v = take n v @ enc ls @ take (rdlength - n - length (enc ls)) r" by (metis append_take_drop_id)
    moreover have "rr_expand n msg (length msg) ptr rdlength st = Some (Inr v, st\<lparr>mem := mem st\<rparr>)"
      using normal True v(1) by (simp add: rr_expand_def rr_default_def)
    ultimately show ?thesis using p(1) ls(2) by (intro exI [of _ "Inr v"] exI [of _ "mem st"]) auto
  next
    case False
    have "0 + DNSNAMEBUFSIZE \<le> length (replicate DNSNAMEBUFSIZE (0 :: byte))" by simp
    then show ?thesis
    proof (cases rule: decompress_at_cases [of _ _ msg "ptr + n" "rdlength - n"])
      case err
      have "rr_expand n msg (length msg) ptr rdlength st = Some (Inl RC_FORMAT, st\<lparr>mem := mem st\<rparr>)"
        using normal False err by (simp add: rr_expand_def)
      then show ?thesis by (intro exI [of _ "Inl RC_FORMAT"] exI [of _ "mem st"]) simp
    next
      case (ok k ls db')
      obtain okm m where m: "malloc st = (okm, st\<lparr>mem := m\<rparr>)" "mem st = [] \<longrightarrow> okm \<and> m = []" using malloc_step by blast
      obtain t where t: "rd_all msg (ptr + n + k) (rdlength - n - k) = Some t"
        using rd_all_some [of "ptr + n + k" "rdlength - n - k" msg] assms ok(2) by auto
      show ?thesis
      proof (cases okm)
        case True
        then have "rr_expand n msg (length msg) ptr rdlength st = Some (Inr (take n v @ enc ls @ t), st\<lparr>mem := m\<rparr>)"
          using normal False ok p(1) t m(1) by (simp add: rr_expand_def rd_all_take)
        with p(1) ok(4) m(2) show ?thesis by (intro exI [of _ "Inr (take n v @ enc ls @ t)"] exI [of _ m]) auto
      next
        case okf: False
        then have "rr_expand n msg (length msg) ptr rdlength st = Some (Inl RC_FATALERR, st\<lparr>mem := m\<rparr>)"
          using normal False ok m(1) by (simp add: rr_expand_def)
        with m(2) okf show ?thesis by (intro exI [of _ "Inl RC_FATALERR"] exI [of _ m]) auto
      qed
    qed
  qed
qed

lemmas type_num_defs = T_A_def T_AAAA_def name_types_def T_CNAME_def T_MB_def T_MD_def T_MF_def T_MG_def T_MR_def T_NS_def
  T_PTR_def T_MINFO_def T_RP_def T_MX_def T_AFSDB_def T_RT_def T_KX_def T_SOA_def T_PX_def T_SRV_def T_NXT_def T_NAPTR_def
  T_IPSECKEY_def T_RRSIG_def T_NSEC_def

lemma rr_default_spec:
  "ptr + rdlength \<le> length msg \<Longrightarrow> \<exists>d. rr_default msg ptr rdlength = Some (Inr d) \<and> length d = rdlength \<and>
    rd_all msg ptr rdlength = Some d"
  using rd_all_some [of ptr rdlength msg] by (auto simp: rr_default_def)

definition data_result :: "nat \<Rightarrow> cache \<Rightarrow> ((nat + bytes) \<times> cache) option \<Rightarrow> bool" where
  "data_result type st res \<longleftrightarrow> (\<exists>r m. res = Some (r, st\<lparr>mem := m\<rparr>) \<and> (mem st = [] \<longrightarrow> m = []) \<and>
     (case r of Inl rc \<Rightarrow> rc = RC_FORMAT \<or> rc = RC_FATALERR \<and> mem st \<noteq> [] | Inr d \<Rightarrow> rdata_ok type d))"

lemma data_result_pure:
  assumes "returns f (data_or_error P)" and "\<And>d. P d \<Longrightarrow> rdata_ok type d"
  shows "data_result type st (map_option (\<lambda>r. (r, st)) f)"
proof -
  from assms(1) obtain r where r: "f = Some r" "data_or_error P r" by (rule returnsE)
  have "map_option (\<lambda>r. (r, st)) f = Some (r, st\<lparr>mem := mem st\<rparr>)" using r(1) by simp
  moreover have "case r of Inl rc \<Rightarrow> rc = RC_FORMAT \<or> rc = RC_FATALERR \<and> mem st \<noteq> [] | Inr d \<Rightarrow> rdata_ok type d"
    using r(2) assms(2) by (auto split: sum.splits)
  ultimately show ?thesis unfolding data_result_def by blast
qed

lemma data_result_format: "data_result type st (Some (Inl RC_FORMAT, st))"
  unfolding data_result_def by (intro exI [of _ "Inl RC_FORMAT"] exI [of _ "mem st"]) simp

lemma data_result_default:
  assumes "ptr + rdlength \<le> length msg" and "\<And>d. length d = rdlength \<Longrightarrow> rd_all msg ptr rdlength = Some d \<Longrightarrow> rdata_ok type d"
  shows "data_result type st (map_option (\<lambda>r. (r, st)) (rr_default msg ptr rdlength))"
proof (rule data_result_pure [where P = "\<lambda>d. length d = rdlength \<and> rd_all msg ptr rdlength = Some d"])
  show "returns (rr_default msg ptr rdlength) (data_or_error (\<lambda>d. length d = rdlength \<and> rd_all msg ptr rdlength = Some d))"
    using rr_default_spec [OF assms(1)] by auto
qed (use assms(2) in blast)

lemma data_result_expand:
  assumes "ptr + rdlength \<le> length msg" and "n \<le> rdlength"
    and "\<And>d p ls t. rd_all msg ptr n = Some p \<Longrightarrow> length p = n \<Longrightarrow> dns_name ls \<Longrightarrow> d = p @ enc ls @ t \<Longrightarrow> rdata_ok type d"
  shows "data_result type st (rr_expand n msg (length msg) ptr rdlength st)"
proof -
  from rr_expand_spec [OF assms(1,2), of st] obtain r m where
    r: "rr_expand n msg (length msg) ptr rdlength st = Some (r, st\<lparr>mem := m\<rparr>)" "mem st = [] \<longrightarrow> m = []"
      "case r of Inl rc \<Rightarrow> rc = RC_FORMAT \<or> rc = RC_FATALERR \<and> mem st \<noteq> []
       | Inr d \<Rightarrow> \<exists>p ls t. rd_all msg ptr n = Some p \<and> dns_name ls \<and> d = p @ enc ls @ t" by blast
  have len: "length p = n" if "rd_all msg ptr n = Some p" for p
    using that by (auto simp: rd_all_def split: if_splits)
  have "case r of Inl rc \<Rightarrow> rc = RC_FORMAT \<or> rc = RC_FATALERR \<and> mem st \<noteq> [] | Inr d \<Rightarrow> rdata_ok type d"
  proof (cases r)
    case (Inr d)
    with r(3) obtain p ls t where "rd_all msg ptr n = Some p" "dns_name ls" "d = p @ enc ls @ t" by auto
    with assms(3) [of p ls d t] len Inr show ?thesis by simp
  qed (use r(3) in simp)
  with r(1,2) show ?thesis unfolding data_result_def by blast
qed

lemma ipseckey_result:
  assumes "ptr + rdlength \<le> length msg" and "type = T_IPSECKEY"
  shows "data_result type st (rr_ipseckey msg (length msg) ptr rdlength st)"
proof (cases "rdlength < 3")
  case True
  then show ?thesis by (simp add: rr_ipseckey_def data_result_format)
next
  case False
  then obtain g where g: "rd msg (ptr + 1) = Some g" using assms(1) by (auto simp: rd_def)
  have other: "rdata_ok type d" if "length d = rdlength" "rd_all msg ptr rdlength = Some d"
    "g \<in> {0, 1, 2}" "g = 1 \<longrightarrow> 7 \<le> rdlength" "g = 2 \<longrightarrow> 19 \<le> rdlength" for d
  proof -
    have "d ! 1 = g" using rd_all_nth [OF that(2), of 1] g False by simp
    moreover have "(0 :: byte) \<le> 3" "(1 :: byte) \<le> 3" "(2 :: byte) \<le> 3" by simp_all
    ultimately show ?thesis using that False unfolding rdata_ok_def assms(2) by (auto simp: type_num_defs)
  qed
  have bind: "map_option (\<lambda>r. (r, st)) (rr_default msg ptr rdlength) = do { r \<leftarrow> rr_default msg ptr rdlength; Some (r, st) }"
    by (cases "rr_default msg ptr rdlength") simp_all
  note dflt = data_result_default [OF assms(1), of type st, unfolded bind]
  consider "g = 0" | "g = 1" | "g = 2" | "g = 3" | "g \<notin> {0, 1, 2, 3}" by blast
  then show ?thesis
  proof cases
    case 1
    then have "data_result type st (do { r \<leftarrow> rr_default msg ptr rdlength; Some (r, st) })"
      using other by (intro dflt) simp
    with 1 False g show ?thesis by (simp add: rr_ipseckey_def)
  next
    case 2
    show ?thesis
    proof (cases "rdlength - 3 < 4")
      case False
      then have "data_result type st (do { r \<leftarrow> rr_default msg ptr rdlength; Some (r, st) })"
        using other 2 by (intro dflt) simp
      with 2 g show ?thesis by (simp add: rr_ipseckey_def data_result_format)
    qed (use 2 False g in \<open>simp add: rr_ipseckey_def data_result_format\<close>)
  next
    case 3
    show ?thesis
    proof (cases "rdlength - 3 < 16")
      case False
      then have "data_result type st (do { r \<leftarrow> rr_default msg ptr rdlength; Some (r, st) })"
        using other 3 by (intro dflt) simp
      with 3 g show ?thesis by (simp add: rr_ipseckey_def data_result_format)
    qed (use 3 False g in \<open>simp add: rr_ipseckey_def data_result_format\<close>)
  next
    case 4
    have "data_result type st (rr_expand 3 msg (length msg) ptr rdlength st)"
    proof (rule data_result_expand [OF assms(1)])
      fix d p ls t assume p: "rd_all msg ptr 3 = Some p" "length p = 3" "dns_name ls" "d = p @ enc ls @ t"
      have "p ! 1 = g" using rd_all_nth [OF p(1), of 1] g by simp
      then have "d ! 1 = 3" using p(2,4) 4 by (simp add: nth_append)
      then show "rdata_ok type d" using p unfolding rdata_ok_def assms(2) by (auto simp: type_num_defs)
    qed (use False in simp)
    with 4 False g show ?thesis by (simp add: rr_ipseckey_def)
  next
    case 5
    with False g show ?thesis by (simp add: rr_ipseckey_def data_result_format)
  qed
qed

lemma rr_data_spec:
  assumes "ptr + rdlength \<le> length msg"
  shows "data_result type st (rr_data type msg (length msg) ptr rdlength st)"
proof -
  note dflt = data_result_default [OF assms, of type st]
  consider "type = T_A" | "type = T_AAAA" | "type \<in> set name_types" | "type \<in> {T_MINFO, T_RP}"
    | "type \<in> {T_MX, T_AFSDB, T_RT, T_KX}" | "type = T_SOA" | "type = T_PX" | "type = T_SRV" | "type = T_NXT"
    | "type = T_NAPTR" | "type = T_IPSECKEY" | "type = T_RRSIG" | "type = T_NSEC"
    | "type \<notin> set [T_A, T_AAAA, T_MINFO, T_RP, T_MX, T_AFSDB, T_RT, T_KX, T_SOA, T_PX, T_SRV, T_NXT, T_NAPTR,
        T_IPSECKEY, T_RRSIG, T_NSEC]" "type \<notin> set name_types"
    by auto
  then show ?thesis
  proof cases
    case 1
    then show ?thesis using dflt
      by (cases "rdlength = 4") (auto simp: rr_data_def rdata_ok_def type_num_defs data_result_format)
  next
    case 2
    then show ?thesis using dflt
      by (cases "rdlength = 16") (auto simp: rr_data_def rdata_ok_def type_num_defs data_result_format)
  next
    case 3
    then have "rr_data type msg (length msg) ptr rdlength st = map_option (\<lambda>r. (r, st)) (rr_name msg (length msg) ptr rdlength)"
      by (auto simp: rr_data_def type_num_defs)
    moreover have "rdata_ok type d" if "\<exists>ls. dns_name ls \<and> d = enc ls" for d
      using 3 that by (auto simp: rdata_ok_def type_num_defs)
    ultimately show ?thesis using data_result_pure [OF rr_name_spec] by simp
  next
    case 4
    then have "rr_data type msg (length msg) ptr rdlength st = map_option (\<lambda>r. (r, st)) (rr_two_names msg (length msg) ptr rdlength)"
      by (auto simp: rr_data_def type_num_defs)
    moreover have "rdata_ok type d" if "\<exists>ls ls'. dns_name ls \<and> dns_name ls' \<and> d = enc ls @ enc ls'" for d
      using 4 that by (auto simp: rdata_ok_def type_num_defs)
    ultimately show ?thesis using data_result_pure [OF rr_two_names_spec] by simp
  next
    case 5
    then have "rr_data type msg (length msg) ptr rdlength st = map_option (\<lambda>r. (r, st)) (rr_pref_name 2 msg (length msg) ptr rdlength)"
      by (auto simp: rr_data_def rr_mx_def type_num_defs)
    moreover have "rdata_ok type d" if "\<exists>p ls. length p = 2 \<and> dns_name ls \<and> d = p @ enc ls" for d
      using 5 that by (auto simp: rdata_ok_def type_num_defs)
    ultimately show ?thesis using data_result_pure [OF rr_pref_name_spec [OF assms]] by simp
  next
    case 6
    then have "rr_data type msg (length msg) ptr rdlength st = map_option (\<lambda>r. (r, st)) (rr_soa msg (length msg) ptr rdlength)"
      by (auto simp: rr_data_def type_num_defs)
    moreover have "rdata_ok type d"
      if "\<exists>ls ls' t. dns_name ls \<and> dns_name ls' \<and> length t = 20 \<and> d = enc ls @ enc ls' @ t" for d
      using 6 that by (auto simp: rdata_ok_def type_num_defs)
    ultimately show ?thesis using data_result_pure [OF rr_soa_spec [OF assms]] by simp
  next
    case 7
    then have "rr_data type msg (length msg) ptr rdlength st = map_option (\<lambda>r. (r, st)) (rr_px msg (length msg) ptr rdlength)"
      by (auto simp: rr_data_def type_num_defs)
    moreover have "rdata_ok type d"
      if "\<exists>p ls ls'. length p = 2 \<and> dns_name ls \<and> dns_name ls' \<and> d = p @ enc ls @ enc ls'" for d
      using 7 that by (auto simp: rdata_ok_def type_num_defs)
    ultimately show ?thesis using data_result_pure [OF rr_px_spec [OF assms]] by simp
  next
    case 8
    then have "rr_data type msg (length msg) ptr rdlength st = map_option (\<lambda>r. (r, st)) (rr_pref_name 6 msg (length msg) ptr rdlength)"
      by (auto simp: rr_data_def rr_srv_def type_num_defs)
    moreover have "rdata_ok type d" if "\<exists>p ls. length p = 6 \<and> dns_name ls \<and> d = p @ enc ls" for d
      using 8 that by (auto simp: rdata_ok_def type_num_defs)
    ultimately show ?thesis using data_result_pure [OF rr_pref_name_spec [OF assms]] by simp
  next
    case 9
    then have "rr_data type msg (length msg) ptr rdlength st = map_option (\<lambda>r. (r, st)) (rr_nxt msg (length msg) ptr rdlength)"
      by (auto simp: rr_data_def type_num_defs)
    moreover have "rdata_ok type d" if "(\<exists>ls t. dns_name ls \<and> d = enc ls @ t) \<and> length d \<le> 1040" for d
      using 9 that by (auto simp: rdata_ok_def type_num_defs)
    ultimately show ?thesis using data_result_pure [OF rr_nxt_spec [OF assms]] by simp
  next
    case 10
    then have "rr_data type msg (length msg) ptr rdlength st = map_option (\<lambda>r. (r, st)) (rr_naptr msg (length msg) ptr rdlength)"
      by (auto simp: rr_data_def type_num_defs)
    moreover have "rdata_ok type d" if "\<exists>p a b c ls. length p = 4 \<and> char_string a \<and> char_string b \<and> char_string c \<and>
        dns_name ls \<and> d = p @ a @ b @ c @ enc ls" for d
      using 10 that by (simp add: rdata_ok_def type_num_defs)
    ultimately show ?thesis using data_result_pure [OF rr_naptr_spec [OF assms]] by simp
  next
    case 11
    then have "rr_data type msg (length msg) ptr rdlength st = rr_ipseckey msg (length msg) ptr rdlength st"
      by (auto simp: rr_data_def type_num_defs)
    with ipseckey_result [OF assms 11] show ?thesis by simp
  next
    case 12
    have d: "rdata_ok type d" if "length p = 18" "dns_name ls" "d = p @ enc ls @ t" for d p ls t
      using 12 that by (auto simp: rdata_ok_def type_num_defs)
    have "data_result type st (rr_rrsig msg (length msg) ptr rdlength st)"
      using d by (cases "rdlength < 18") (auto simp: rr_rrsig_def data_result_format intro!: data_result_expand [OF assms])
    with 12 show ?thesis by (auto simp: rr_data_def type_num_defs)
  next
    case 13
    have d: "rdata_ok type d" if "dns_name ls" "d = enc ls @ t" for d ls t
      using 13 that by (auto simp: rdata_ok_def type_num_defs)
    have "data_result type st (rr_nsec msg (length msg) ptr rdlength st)"
      using d unfolding rr_nsec_def by (intro data_result_expand [OF assms]) auto
    with 13 show ?thesis by (auto simp: rr_data_def type_num_defs)
  next
    case 14
    then have "rr_data type msg (length msg) ptr rdlength st = map_option (\<lambda>r. (r, st)) (rr_default msg ptr rdlength)"
      by (auto simp: rr_data_def)
    moreover have "rdata_ok type d" for d using 14 by (auto simp: rdata_ok_def)
    ultimately show ?thesis using dflt by simp
  qed
qed

end
