(* ===== verification/Dns_Parse_Cache.thy ===== *)
theory Dns_Parse_Cache
  imports Dns_Parse_Correct "HOL-Library.Sublist"
begin

text \<open>
  \<open>rr_to_cache\<close> adds a record to the set of records the array of entries holds, and \<open>rrs2cent\<close> keeps
  the array well-formed on every message.
\<close>

subsection \<open>The array of entries as a set of records\<close>

abbreviation rr_idx :: "nat \<Rightarrow> nat" where
  "rr_idx tp \<equiv> rrlkuptab ! (tp - T_MIN)"

definition cached_type :: "nat \<Rightarrow> bool" where
  "cached_type tp \<longleftrightarrow> T_MIN \<le> tp \<and> tp \<le> T_MAX \<and> rr_idx tp < NRRTOT"

definition recs_of :: "dns_cent \<Rightarrow> (nat \<times> bytes) set" where
  "recs_of c = {(tp, d). cached_type tp \<and> (\<exists>s. slot c (rr_idx tp) = Some s \<and> d \<in> set (rs_rrs s))}"

text \<open>The name of an entry, without regard to case.\<close>

definition cent_key :: "dns_cent \<Rightarrow> bytes" where
  "cent_key c = map tolower (qname c)"

definition cent_entries :: "cent_array \<Rightarrow> dns_cent list" where
  "cent_entries a = map the (da_list a)"

definition arr_recs :: "cent_array \<Rightarrow> (bytes \<times> nat \<times> bytes) set" where
  "arr_recs a = (\<Union>c \<in> set (cent_entries a). Pair (cent_key c) ` recs_of c)"

text \<open>
  The time to live of the record set of a name and type in the array, and after a record with a
  time to live is added: a set has the least one of its records.
\<close>

definition ttl_of :: "dns_cent \<Rightarrow> nat \<Rightarrow> int option" where
  "ttl_of c tp = (if cached_type tp then map_option rs_ttl (slot c (rr_idx tp)) else None)"

definition arr_ttl :: "cent_array \<Rightarrow> bytes \<Rightarrow> nat \<Rightarrow> int option" where
  "arr_ttl a k tp = (case find (\<lambda>c. cent_key c = k) (cent_entries a) of None \<Rightarrow> None | Some c \<Rightarrow> ttl_of c tp)"

definition ttl_min :: "int option \<Rightarrow> int \<Rightarrow> int" where
  "ttl_min old ttl = (case old of None \<Rightarrow> ttl | Some t \<Rightarrow> min ttl t)"

definition ttls_with :: "bytes \<Rightarrow> nat \<Rightarrow> int \<Rightarrow> (bytes \<Rightarrow> nat \<Rightarrow> int option) \<Rightarrow> bytes \<Rightarrow> nat \<Rightarrow> int option" where
  "ttls_with k tp ttl f = (\<lambda>k' tp'. if k' = k \<and> tp' = tp then Some (ttl_min (f k tp) ttl) else f k' tp')"

text \<open>The invariant of an entry the parser builds, and of the array.\<close>

definition parsed :: "dns_cent \<Rightarrow> bool" where
  "parsed c \<longleftrightarrow> cent_ok c \<and> detached c \<and> \<not> has (ce_flags c) DF_LOCAL \<and> (\<forall>(tp, d) \<in> recs_of c. rdata_ok tp d)"

definition arr_ok :: "cent_array \<Rightarrow> bool" where
  "arr_ok a \<longleftrightarrow> da_ok a \<and> (\<exists>es. da_list a = map Some es \<and> (\<forall>c \<in> set es. parsed c) \<and> distinct (map cent_key es))"

lemma cent_entries_list: "da_list a = map Some es \<Longrightarrow> cent_entries a = es"
  by (simp add: cent_entries_def comp_def)

lemma arr_ok_None [simp]: "arr_ok None"
  by (simp add: arr_ok_def da_list_def)

lemma tolower_length_byte: "n < 64 \<Longrightarrow> tolower (of_nat n) = of_nat n"
  by (auto simp: tolower_def word_le_nat_alt)

lemma lower_enc: "dns_labels ls \<Longrightarrow> map tolower (enc ls) = enc (fold_case ls)"
  by (induction ls) (auto simp: fold_case_def tolower_length_byte, simp add: tolower_def)

lemma dns_labels_fold [simp]: "dns_labels (fold_case ls) = dns_labels ls"
  by (induction ls) auto

lemma key_eq_iff:
  assumes "dns_name a" and "dns_name b"
  shows "map tolower (enc a) = map tolower (enc b) \<longleftrightarrow> fold_case a = fold_case b"
proof -
  have l: "dns_labels a" "dns_labels b" using assms by (simp_all add: dns_name_def)
  have "enc (fold_case a) = enc (fold_case b) \<longleftrightarrow> fold_case a = fold_case b"
    using enc_inj [of "fold_case a" "fold_case b" "[]" "[]"] l dns_labels_ok by auto
  then show ?thesis using l by (simp add: lower_enc)
qed

lemma rr_idx_inj: "cached_type tp \<Longrightarrow> cached_type tp' \<Longrightarrow> rr_idx tp = rr_idx tp' \<longleftrightarrow> tp = tp'"
  using rrlkuptab_distinct by (auto simp: cached_type_def T_MIN_def T_MAX_def T_NUM_def nth_eq_iff_index_eq)

text \<open>The records of an entry after \<open>add_cent_rr\<close>.\<close>

lemma recs_of_added:
  assumes "slots (body c') = (slots (body c))[rr_idx tp := rr_added ttl ts fl d ok (slot c (rr_idx tp))]"
    and "cached_type tp" and "cent_ok c"
  shows "recs_of c' = (if ok then insert (tp, d) (recs_of c) else recs_of c)"
proof -
  have "(t, x) \<in> recs_of c' \<longleftrightarrow> (t, x) \<in> recs_of c \<or> ok \<and> t = tp \<and> x = d" for t x
  proof (cases "cached_type t")
    case True
    then have i: "rr_idx t < NRRTOT" by (simp add: cached_type_def)
    show ?thesis
    proof (cases "t = tp")
      case same: True
      then have "slot c' (rr_idx t) = rr_added ttl ts fl d ok (slot c (rr_idx tp))" using assms(1,3) i by simp
      with same True show ?thesis
        by (auto simp: recs_of_def rr_added_def split: option.splits if_splits)
    next
      case False
      then have "rr_idx t \<noteq> rr_idx tp" using rr_idx_inj [OF True assms(2)] by simp
      then have "slot c' (rr_idx t) = slot c (rr_idx t)" using assms(1) by simp
      with False show ?thesis by (simp add: recs_of_def)
    qed
  next
    case False
    then show ?thesis using assms(2) by (auto simp: recs_of_def)
  qed
  then show ?thesis by (auto simp del: split_paired_All)
qed

lemma ttl_of_added:
  assumes "slots (body c') = (slots (body c))[rr_idx tp := rr_added ttl ts fl d True (slot c (rr_idx tp))]"
    and "cached_type tp" and "cent_ok c"
  shows "ttl_of c' t = (if t = tp then Some (ttl_min (ttl_of c tp) ttl) else ttl_of c t)"
proof (cases "t = tp")
  case True
  have "rr_idx tp < NRRTOT" using assms(2) by (simp add: cached_type_def)
  then have "slot c' (rr_idx tp) = rr_added ttl ts fl d True (slot c (rr_idx tp))" using assms(1,3) by simp
  with True assms(2) show ?thesis by (simp add: ttl_of_def rr_added_def fresh_set_def ttl_min_def min_def split: option.splits)
next
  case False
  show ?thesis
  proof (cases "cached_type t")
    case True
    then have "rr_idx t \<noteq> rr_idx tp" using rr_idx_inj [OF True assms(2)] False by simp
    then show ?thesis using assms(1) False by (simp add: ttl_of_def)
  qed (use False in \<open>simp add: ttl_of_def\<close>)
qed

lemma find_key_update:
  assumes "distinct (map f es)" and "i < length es" and "f x = f (es ! i)"
  shows "find (\<lambda>c. f c = k) (es[i := x]) = (if k = f (es ! i) then Some x else find (\<lambda>c. f c = k) es)"
  using assms by (induction es arbitrary: i) (auto simp: nth_Cons' split: nat.splits)

lemma find_key_nth: "distinct (map f es) \<Longrightarrow> i < length es \<Longrightarrow> find (\<lambda>c. f c = f (es ! i)) es = Some (es ! i)"
  using find_key_update [of f es i "es ! i" "f (es ! i)"] by simp

lemma find_key_append:
  assumes "\<forall>c \<in> set es. f c \<noteq> f x"
  shows "find (\<lambda>c. f c = k) (es @ [x]) = (if k = f x then Some x else find (\<lambda>c. f c = k) es)"
  using assms by (induction es) auto

lemma has_local_head: "same_head c c' \<Longrightarrow> has (ce_flags c') DF_LOCAL = has (ce_flags c) DF_LOCAL"
  by (simp add: same_head_def df_defs)

lemma add_parsed:
  assumes "parsed c" and "distinct (rrset_l st)" and "cached_type tp" and "rdata_ok tp d"
  shows "\<exists>ok c' m. add_cent_rr c (int tp) ttl ts fl d st = Some (ok, c', st\<lparr>mem := m\<rparr>) \<and> parsed c' \<and>
    qname c' = qname c \<and> (mem st = [] \<longrightarrow> ok \<and> m = []) \<and>
    recs_of c' = (if ok then insert (tp, d) (recs_of c) else recs_of c) \<and>
    (ok \<longrightarrow> (\<forall>t. ttl_of c' t = (if t = tp then Some (ttl_min (ttl_of c tp) ttl) else ttl_of c t)))"
proof -
  have t: "T_MIN \<le> tp" "tp \<le> T_MAX" "rr_idx tp < NRRTOT" using assms(3) by (simp_all add: cached_type_def)
  have c: "cent_ok c" "detached c" "\<not> (has (ce_flags c) DF_LOCAL \<and> \<not> has fl CF_LOCAL)"
    using assms(1) by (simp_all add: parsed_def)
  from add_cent_rr_detached [OF c(1,2) assms(2) t(1,2) refl t(3) c(3), of ttl ts d] obtain ok c' m where
    r: "add_cent_rr c (int tp) ttl ts fl d st = Some (ok, c', st\<lparr>mem := m\<rparr>)" "cent_ok c'" "detached c'" "same_head c c'"
      "mem st = [] \<longrightarrow> ok \<and> m = []" "slots (body c') = (slots (body c))[rr_idx tp := rr_added ttl ts fl d ok (slot c (rr_idx tp))]"
    by blast
  note recs = recs_of_added [OF r(6) assms(3) c(1)]
  have "parsed c'" using assms(1,4) r(2,3) recs has_local_head [OF r(4)] by (auto simp: parsed_def split: if_splits)
  moreover have "qname c' = qname c" using r(4) by (simp add: same_head_def)
  moreover have "ok \<longrightarrow> (\<forall>t. ttl_of c' t = (if t = tp then Some (ttl_min (ttl_of c tp) ttl) else ttl_of c t))"
    using ttl_of_added [OF _ assms(3) c(1)] r(6) by simp
  ultimately show ?thesis using r(1,5) recs by blast
qed

subsection \<open>Finding and adding an entry\<close>

lemma find_name_spec:
  assumes "\<forall>c \<in> set es. parsed c" and "dns_name ls"
  shows "\<exists>r. find_name (enc ls @ q) (map Some es) i = Some r \<and> (case r of
      None \<Rightarrow> \<forall>c \<in> set es. cent_key c \<noteq> map tolower (enc ls)
    | Some k \<Rightarrow> i \<le> k \<and> k < i + length es \<and> cent_key (es ! (k - i)) = map tolower (enc ls))"
  using assms(1)
proof (induction es arbitrary: i)
  case Nil
  then show ?case by simp
next
  case (Cons c es)
  then obtain nm where nm: "qname c = enc nm" "dns_name nm" by (auto simp: parsed_def cent_ok_def)
  have eq: "rhnicmp (qname c) (enc ls @ q) = Some (cent_key c = map tolower (enc ls))"
    using rhnicmp_enc [of nm ls "[]" q] nm assms(2) key_eq_iff [OF nm(2) assms(2)]
    by (simp add: dns_name_labels_ok cent_key_def)
  show ?case
  proof (cases "cent_key c = map tolower (enc ls)")
    case True
    with eq show ?thesis by simp
  next
    case False
    from Cons.IH [of "i + 1"] Cons.prems obtain r where r: "find_name (enc ls @ q) (map Some es) (i + 1) = Some r"
      "case r of None \<Rightarrow> \<forall>c \<in> set es. cent_key c \<noteq> map tolower (enc ls)
       | Some k \<Rightarrow> i + 1 \<le> k \<and> k < i + 1 + length es \<and> cent_key (es ! (k - (i + 1))) = map tolower (enc ls)" by auto
    with False eq show ?thesis
      by (cases r) (auto simp: nth_Cons' )
  qed
qed

lemma free_parsed: "parsed c \<Longrightarrow> distinct (rrset_l st) \<Longrightarrow> free_cent c st = Some st"
proof -
  assume p: "parsed c" and d: "distinct (rrset_l st)"
  obtain a where a: "mine a (rrset_l st) = {}" "others a (rrset_l st) = rrset_l st" using fresh_owner by blast
  have "cok a c st" using p d a(1) by (intro detached_cok) (simp_all add: parsed_def)
  from free_cent_spec [OF this] a(2) show ?thesis by simp
qed

lemma clean_parsed:
  "\<forall>c \<in> set es. parsed c \<Longrightarrow> distinct (rrset_l st) \<Longrightarrow> clean_all (Some free_cent) (map Some es) st = Some st"
  by (induction es) (simp_all add: free_parsed)

lemma da_list_cases: "(case a of None \<Rightarrow> [] | Some d \<Rightarrow> da_elems d) = da_list a"
  by (simp add: da_list_def split: option.split)

lemma grow_spec:
  assumes "arr_ok a" and "distinct (rrset_l st)"
  shows "\<exists>a' m. da_grow1 malloc (Some free_cent) a st = Some (a', st\<lparr>mem := m\<rparr>) \<and> (mem st = [] \<longrightarrow> a' \<noteq> None \<and> m = []) \<and>
    (\<forall>d. a' = Some d \<longrightarrow> da_ok a' \<and> da_elems d = da_list a @ [None])"
proof -
  from assms(1) obtain es where es: "da_ok a" "da_list a = map Some es" "\<forall>c \<in> set es. parsed c" by (auto simp: arr_ok_def)
  obtain ok m where m: "malloc st = (ok, st\<lparr>mem := m\<rparr>)" "mem st = [] \<longrightarrow> ok \<and> m = []" using malloc_step by blast
  have same: "st\<lparr>mem := mem st\<rparr> = st" by simp
  consider (grow) d st' where "da_grow1 malloc (Some free_cent) a st = Some (Some d, st')" "da_ok (Some d)"
      "da_elems d = da_list a @ [None]" "st' = st \<or> malloc st = (True, st')"
    | (fail) st1 where "malloc st = (False, st1)" "da_grow1 malloc (Some free_cent) a st =
      (case a of None \<Rightarrow> Some (None, st1) | Some d \<Rightarrow> map_option (Pair None) (clean_all (Some free_cent) (da_elems d) st1))"
    using da_grow1_cases [OF es(1), of malloc "Some free_cent" st] unfolding da_list_cases by blast
  then show ?thesis
  proof cases
    case grow
    then consider "st' = st\<lparr>mem := mem st\<rparr>" | "st' = st\<lparr>mem := m\<rparr>" "mem st = [] \<longrightarrow> m = []" using m by auto
    then show ?thesis using grow(1-3) by cases blast+
  next
    case fail
    then have st1: "st1 = st\<lparr>mem := m\<rparr>" "mem st \<noteq> []" using m by auto
    have "da_grow1 malloc (Some free_cent) a st = Some (None, st1)"
    proof (cases a)
      case None
      with fail(2) show ?thesis by simp
    next
      case (Some d)
      then have "clean_all (Some free_cent) (da_elems d) st1 = Some st1"
        using es(2,3) assms(2) clean_parsed [of es st1] st1(1) by (simp add: da_list_def)
      with fail(2) Some show ?thesis by simp
    qed
    with st1 show ?thesis by blast
  qed
qed

lemma shrink_spec:
  assumes "da_ok (Some d)" and "da_elems d = l @ [None]"
  shows "\<exists>a' m. da_resize malloc None (length l) (Some d) st = Some (a', st\<lparr>mem := m\<rparr>) \<and> (mem st = [] \<longrightarrow> m = []) \<and>
    da_ok a' \<and> (a' = None \<or> da_list a' = l)"
proof -
  obtain ok m where m: "malloc st = (ok, st\<lparr>mem := m\<rparr>)" "mem st = [] \<longrightarrow> ok \<and> m = []" using malloc_step by blast
  have cap: "da_cap d = alloc_nel (Suc (length l))" using assms by (simp add: da_ok_def)
  have le: "length l \<le> alloc_nel (length l)" "length l \<le> alloc_nel (Suc (length l))"
    using alloc_nel_ge [of "length l"] alloc_nel_ge [of "Suc (length l)"] by simp_all
  show ?thesis
  proof (cases "alloc_nel (length l) = alloc_nel (Suc (length l))")
    case True
    have "da_resize malloc None (length l) (Some d) st =
        Some (Some (d\<lparr>da_elems := l\<rparr>), st\<lparr>mem := mem st\<rparr>)"
      using assms(2) True cap le by (simp add: da_resize_def Let_def)
    moreover have "da_ok (Some (d\<lparr>da_elems := l\<rparr>))" "da_list (Some (d\<lparr>da_elems := l\<rparr>)) = l"
      using True cap by (simp_all add: da_ok_def da_list_def)
    ultimately show ?thesis by blast
  next
    case False
    show ?thesis
    proof (cases ok)
      case True
      let ?d = "d\<lparr>da_elems := l, da_cap := alloc_nel (length l)\<rparr>"
      have "da_resize malloc None (length l) (Some d) st = Some (Some ?d, st\<lparr>mem := m\<rparr>)"
        using assms(2) False m(1) True le by (simp add: da_resize_def Let_def)
      moreover have "da_ok (Some ?d)" "da_list (Some ?d) = l" by (simp_all add: da_ok_def da_list_def)
      ultimately show ?thesis using m(2) by blast
    next
      case okf: False
      have "da_resize malloc None (length l) (Some d) st = Some (None, st\<lparr>mem := m\<rparr>)"
        using assms(2) False m(1) okf by (simp add: da_resize_def Let_def)
      then show ?thesis using m(2) by (intro exI [of _ None] exI [of _ m]) simp
    qed
  qed
qed

lemma da_set_spec:
  assumes "da_list a = map Some es" and "i < length es" and "da_ok a"
  shows "\<exists>a'. da_set a i c = Some a' \<and> da_ok a' \<and> da_list a' = map Some (es[i := c]) \<and> a' \<noteq> None"
proof -
  from assms(1,2) obtain d where d: "a = Some d" "da_elems d = map Some es"
    by (cases a) (auto simp: da_list_def)
  have "da_set a i c = Some (Some (d\<lparr>da_elems := (da_elems d)[i := Some c]\<rparr>))"
    using d assms(2) by (simp add: da_set_def wr_def)
  moreover have "da_ok (Some (d\<lparr>da_elems := (da_elems d)[i := Some c]\<rparr>))"
    using assms(3) d by (simp add: da_ok_def)
  ultimately show ?thesis using d by (simp add: da_list_def map_update)
qed

lemma arr_recs_list: "da_list a = map Some es \<Longrightarrow> arr_recs a = (\<Union>c \<in> set es. Pair (cent_key c) ` recs_of c)"
  by (simp add: arr_recs_def cent_entries_list)

lemma UN_update:
  assumes "i < length es" and "f c = insert x (f (es ! i)) \<or> f c = f (es ! i) \<and> x \<in> f (es ! i)"
  shows "(\<Union>e \<in> set (es[i := c]). f e) = insert x (\<Union>e \<in> set es. f e)"
proof -
  have "(\<Union>e \<in> set l. f e) = (\<Union>k < length l. f (l ! k))" for l :: "'a list"
    by (auto simp: set_conv_nth)
  moreover have "(\<Union>k < length es. f (es[i := c] ! k)) = f c \<union> (\<Union>k \<in> {..<length es} - {i}. f (es ! k))"
    using assms(1) by (auto simp: nth_list_update split: if_splits)
  moreover have "(\<Union>k < length es. f (es ! k)) = f (es ! i) \<union> (\<Union>k \<in> {..<length es} - {i}. f (es ! k))"
    using assms(1) by auto
  ultimately show ?thesis using assms(2) by auto
qed

text \<open>How the array grows: the names it has stay in place.\<close>

definition arr_grows :: "nat \<Rightarrow> cent_array \<Rightarrow> cent_array \<Rightarrow> bool" where
  "arr_grows n a a' \<longleftrightarrow> prefix (map qname (cent_entries a)) (map qname (cent_entries a')) \<and>
     length (cent_entries a') \<le> length (cent_entries a) + n"

lemma arr_grows_refl [simp]: "arr_grows n a a"
  by (simp add: arr_grows_def)

lemma arr_grows_trans: "arr_grows m a a1 \<Longrightarrow> arr_grows n a1 a2 \<Longrightarrow> arr_grows (m + n) a a2"
  by (auto simp: arr_grows_def intro: prefix_order.trans)

text \<open>The two cases of \<open>rr_to_cache\<close>: the array knows the name, or an entry is made for it.\<close>

lemma rr_to_cache_known:
  assumes "arr_ok centa" and "distinct (rrset_l st)" and "dns_name ls" and "cached_type tp" and "rdata_ok tp d"
    and es: "da_ok centa" "da_list centa = map Some es" "\<forall>c \<in> set es. parsed c" "distinct (map cent_key es)"
    and fnd: "find_name (enc ls @ q) (map Some es) 0 = Some (Some i)"
    and i: "i < length es" "cent_key (es ! i) = map tolower (enc ls)"
  shows "\<exists>rc centa' m. rr_to_cache centa (enc ls @ q) (int tp) ttl d fl queryts st = Some (rc, centa', st\<lparr>mem := m\<rparr>) \<and>
    arr_ok centa' \<and> (mem st = [] \<longrightarrow> m = []) \<and>
    (rc = RC_OK \<and> arr_recs centa' = insert (map tolower (enc ls), tp, d) (arr_recs centa) \<and> arr_grows 1 centa centa' \<and>
       arr_ttl centa' = ttls_with (map tolower (enc ls)) tp ttl (arr_ttl centa) \<or>
     rc = RC_FATALERR \<and> mem st \<noteq> [])"
proof -
  have p: "parsed (es ! i)" using es(3) i(1) by simp
  have idx: "DA_INDEX centa i = Some (es ! i)"
    using es(2) i(1) by (cases centa) (auto simp: da_list_def DA_INDEX_def rd_def)
  from add_parsed [OF p assms(2,4,5), of ttl queryts fl] obtain ok c' m where
    a: "add_cent_rr (es ! i) (int tp) ttl queryts fl d st = Some (ok, c', st\<lparr>mem := m\<rparr>)" "parsed c'"
      "qname c' = qname (es ! i)" "mem st = [] \<longrightarrow> ok \<and> m = []"
      "recs_of c' = (if ok then insert (tp, d) (recs_of (es ! i)) else recs_of (es ! i))"
      "ok \<longrightarrow> (\<forall>t. ttl_of c' t = (if t = tp then Some (ttl_min (ttl_of (es ! i) tp) ttl) else ttl_of (es ! i) t))" by blast
  from da_set_spec [OF es(2) i(1) es(1), of c'] obtain a' where
    a': "da_set centa i c' = Some a'" "da_ok a'" "da_list a' = map Some (es[i := c'])" by blast
  have run: "rr_to_cache centa (enc ls @ q) (int tp) ttl d fl queryts st =
      Some (if ok then RC_OK else RC_FATALERR, a', st\<lparr>mem := m\<rparr>)"
    using fnd idx a(1) a'(1) es(2) by (simp add: rr_to_cache_def)
  have key: "cent_key c' = cent_key (es ! i)" using a(3) by (simp add: cent_key_def)
  then have "map cent_key (es[i := c']) = map cent_key es" using i(1) by (simp add: map_update list_update_same_conv)
  moreover have "\<forall>c \<in> set (es[i := c']). parsed c" using es(3) a(2) by (auto dest!: set_update_subset_insert [THEN subsetD])
  ultimately have ok: "arr_ok a'" using a'(2,3) es(4) unfolding arr_ok_def by metis
  show ?thesis
  proof (cases ok)
    case True
    have "arr_recs a' = insert (map tolower (enc ls), tp, d) (arr_recs centa)"
      unfolding arr_recs_list [OF a'(3)] arr_recs_list [OF es(2)]
      by (rule UN_update [OF i(1)]) (use True a(5) key i(2) in auto)
    moreover have "map qname (es[i := c']) = map qname es" using a(3) i(1) by (simp add: map_update list_update_same_conv)
    then have "arr_grows 1 centa a'" by (simp add: arr_grows_def cent_entries_list [OF a'(3)] cent_entries_list [OF es(2)])
    moreover have "arr_ttl a' = ttls_with (map tolower (enc ls)) tp ttl (arr_ttl centa)"
    proof (intro ext)
      fix k t
      show "arr_ttl a' k t = ttls_with (map tolower (enc ls)) tp ttl (arr_ttl centa) k t"
        using find_key_update [OF es(4) i(1) key, of k] find_key_nth [OF es(4) i(1)] a(6) True i(2)
        by (simp add: arr_ttl_def ttls_with_def cent_entries_list [OF a'(3)] cent_entries_list [OF es(2)])
    qed
    ultimately show ?thesis using run ok a(4) True by (intro exI [of _ RC_OK] exI [of _ a'] exI [of _ m]) simp
  next
    case False
    with run ok a(4) show ?thesis by (intro exI [of _ RC_FATALERR] exI [of _ a'] exI [of _ m]) simp
  qed
qed

lemma rr_to_cache_new:
  assumes "arr_ok centa" and "distinct (rrset_l st)" and "dns_name ls" and "cached_type tp" and "rdata_ok tp d"
    and es: "da_ok centa" "da_list centa = map Some es" "\<forall>c \<in> set es. parsed c" "distinct (map cent_key es)"
    and fnd: "find_name (enc ls @ q) (map Some es) 0 = Some None"
    and new: "\<forall>c \<in> set es. cent_key c \<noteq> map tolower (enc ls)"
  shows "\<exists>rc centa' m. rr_to_cache centa (enc ls @ q) (int tp) ttl d fl queryts st = Some (rc, centa', st\<lparr>mem := m\<rparr>) \<and>
    arr_ok centa' \<and> (mem st = [] \<longrightarrow> m = []) \<and>
    (rc = RC_OK \<and> arr_recs centa' = insert (map tolower (enc ls), tp, d) (arr_recs centa) \<and> arr_grows 1 centa centa' \<and>
       arr_ttl centa' = ttls_with (map tolower (enc ls)) tp ttl (arr_ttl centa) \<or>
     rc = RC_FATALERR \<and> mem st \<noteq> [])"
proof -
  have nel: "da_nel centa = length es" using es(2) by (auto simp: da_nel_def da_list_def split: option.splits)
  from grow_spec [OF assms(1,2)] obtain a1 m1 where
    g: "da_grow1 malloc (Some free_cent) centa st = Some (a1, st\<lparr>mem := m1\<rparr>)" "mem st = [] \<longrightarrow> a1 \<noteq> None \<and> m1 = []"
      "\<forall>d. a1 = Some d \<longrightarrow> da_ok a1 \<and> da_elems d = da_list centa @ [None]" by blast
  show ?thesis
  proof (cases a1)
    case a1: None
    have "rr_to_cache centa (enc ls @ q) (int tp) ttl d fl queryts st = Some (RC_FATALERR, None, st\<lparr>mem := m1\<rparr>)"
      using fnd g(1) a1 es(2) by (simp add: rr_to_cache_def)
    with g(2) a1 show ?thesis by (metis arr_ok_None)
  next
    case (Some dd)
    with g(3) es(2) have dd: "da_ok (Some dd)" "da_elems dd = map Some es @ [None]" by auto
    from init_cent_spec [OF assms(3), of q 0 0 0 "st\<lparr>mem := m1\<rparr>"] obtain ce m2 where
      c: "init_cent (enc ls @ q) 0 0 0 (st\<lparr>mem := m1\<rparr>) = Some (ce, st\<lparr>mem := m1\<rparr>\<lparr>mem := m2\<rparr>)"
        "\<forall>c. ce = Some c \<longrightarrow> cent_ok c \<and> detached c \<and> qname c = enc ls \<and> ce_flags c = 0 \<and> slots (body c) = replicate NRRTOT None"
        "m1 = [] \<longrightarrow> ce \<noteq> None \<and> m2 = []" unfolding mem_mem by blast
    have st2: "st\<lparr>mem := m1\<rparr>\<lparr>mem := m2\<rparr> = st\<lparr>mem := m2\<rparr>" by simp
    show ?thesis
    proof (cases ce)
      case noce: None
      from shrink_spec [OF dd, of "st\<lparr>mem := m2\<rparr>"] obtain a2 m3 where
        s: "da_resize malloc None (length (map Some es)) (Some dd) (st\<lparr>mem := m2\<rparr>) = Some (a2, st\<lparr>mem := m2\<rparr>\<lparr>mem := m3\<rparr>)"
          "m2 = [] \<longrightarrow> m3 = []" "da_ok a2" "a2 = None \<or> da_list a2 = map Some es" unfolding mem_mem by blast
      have "arr_ok a2" using s(3,4) es(3,4) by (auto simp: arr_ok_def da_list_def)
      moreover have "rr_to_cache centa (enc ls @ q) (int tp) ttl d fl queryts st = Some (RC_FATALERR, a2, st\<lparr>mem := m3\<rparr>)"
        using fnd g(1) Some es(2) c(1) noce s(1) nel by (simp add: rr_to_cache_def)
      moreover have "mem st \<noteq> []" using g(2) c(3) noce by auto
      ultimately show ?thesis by blast
    next
      case ce: (Some cent)
      with c(2) have cc: "cent_ok cent" "detached cent" "qname cent = enc ls" "ce_flags cent = 0"
        "slots (body cent) = replicate NRRTOT None" by auto
      have empty: "recs_of cent = {}" using cc(5) by (auto simp: recs_of_def cached_type_def)
      then have p: "parsed cent" using cc(1,2,4) by (simp add: parsed_def has_def)
      have "distinct (rrset_l (st\<lparr>mem := m2\<rparr>))" using assms(2) by simp
      from add_parsed [OF p this assms(4,5), of ttl queryts fl] obtain ok c' m where
        a: "add_cent_rr cent (int tp) ttl queryts fl d (st\<lparr>mem := m2\<rparr>) = Some (ok, c', st\<lparr>mem := m2\<rparr>\<lparr>mem := m\<rparr>)" "parsed c'"
          "qname c' = qname cent" "m2 = [] \<longrightarrow> ok \<and> m = []"
          "recs_of c' = (if ok then insert (tp, d) (recs_of cent) else recs_of cent)"
          "ok \<longrightarrow> (\<forall>t. ttl_of c' t = (if t = tp then Some (ttl_min (ttl_of cent tp) ttl) else ttl_of cent t))"
        unfolding mem_mem by blast
      let ?d = "dd\<lparr>da_elems := (da_elems dd)[length es := Some c']\<rparr>"
      have set1: "da_set (Some dd) (length es) c' = Some (Some ?d)" using dd(2) by (simp add: da_set_def wr_def)
      have el: "da_list (Some ?d) = map Some (es @ [c'])" using dd(2) by (simp add: da_list_def list_update_append)
      have dok: "da_ok (Some ?d)" using dd by (simp add: da_ok_def)
      have key: "cent_key c' = map tolower (enc ls)" using a(3) cc(3) by (simp add: cent_key_def)
      have "\<forall>c \<in> set (es @ [c']). parsed c" using es(3) a(2) by auto
      moreover have "distinct (map cent_key (es @ [c']))" using es(4) new key by auto
      ultimately have ok: "arr_ok (Some ?d)" using dok el unfolding arr_ok_def by metis
      have run: "rr_to_cache centa (enc ls @ q) (int tp) ttl d fl queryts st =
          Some (if ok then RC_OK else RC_FATALERR, Some ?d, st\<lparr>mem := m\<rparr>)"
        using fnd g(1) Some es(2) c(1) ce a(1) nel set1 by (simp add: rr_to_cache_def)
      have nf: "mem st = [] \<longrightarrow> ok \<and> m = []" using g(2) c(3) a(4) by auto
      show ?thesis
      proof (cases ok)
        case True
        have "arr_recs (Some ?d) = insert (map tolower (enc ls), tp, d) (arr_recs centa)"
          unfolding arr_recs_list [OF el] arr_recs_list [OF es(2)] using True a(5) key empty by auto
        moreover have "arr_grows 1 centa (Some ?d)"
          by (simp add: arr_grows_def cent_entries_list [OF el] cent_entries_list [OF es(2)])
        moreover have "arr_ttl (Some ?d) = ttls_with (map tolower (enc ls)) tp ttl (arr_ttl centa)"
        proof (intro ext)
          fix k t
          have no: "find (\<lambda>c. cent_key c = map tolower (enc ls)) es = None" using new by (simp add: find_None_iff)
          have nt: "ttl_of cent u = None" for u using cc(5) by (simp add: ttl_of_def cached_type_def)
          have "\<forall>c \<in> set es. cent_key c \<noteq> cent_key c'" using new key by simp
          from find_key_append [OF this, of k] show "arr_ttl (Some ?d) k t = ttls_with (map tolower (enc ls)) tp ttl (arr_ttl centa) k t"
            using no nt a(6) True key
            by (simp add: arr_ttl_def ttls_with_def ttl_min_def cent_entries_list [OF el] cent_entries_list [OF es(2)])
        qed
        ultimately show ?thesis using run ok nf True
          by (intro exI [of _ RC_OK] exI [of _ "Some ?d"] exI [of _ m]) simp
      next
        case False
        with run ok nf show ?thesis
          by (intro exI [of _ RC_FATALERR] exI [of _ "Some ?d"] exI [of _ m]) simp
      qed
    qed
  qed
qed

lemma rr_to_cache_spec:
  assumes "arr_ok centa" and "distinct (rrset_l st)" and "dns_name ls" and "cached_type tp" and "rdata_ok tp d"
  shows "\<exists>rc centa' m. rr_to_cache centa (enc ls @ q) (int tp) ttl d fl queryts st = Some (rc, centa', st\<lparr>mem := m\<rparr>) \<and>
    arr_ok centa' \<and> (mem st = [] \<longrightarrow> m = []) \<and>
    (rc = RC_OK \<and> arr_recs centa' = insert (map tolower (enc ls), tp, d) (arr_recs centa) \<and> arr_grows 1 centa centa' \<and>
       arr_ttl centa' = ttls_with (map tolower (enc ls)) tp ttl (arr_ttl centa) \<or>
     rc = RC_FATALERR \<and> mem st \<noteq> [])"
proof -
  from assms(1) obtain es where es: "da_ok centa" "da_list centa = map Some es" "\<forall>c \<in> set es. parsed c"
    "distinct (map cent_key es)" by (auto simp: arr_ok_def)
  from find_name_spec [OF es(3) assms(3), of q 0] obtain r where
    r: "find_name (enc ls @ q) (map Some es) 0 = Some r"
      "case r of None \<Rightarrow> \<forall>c \<in> set es. cent_key c \<noteq> map tolower (enc ls)
       | Some k \<Rightarrow> k < length es \<and> cent_key (es ! k) = map tolower (enc ls)" by (auto split: option.splits)
  show ?thesis
  proof (cases r)
    case (Some i)
    show ?thesis by (rule rr_to_cache_known [OF assms es]) (use r Some in auto)
  next
    case None
    show ?thesis by (rule rr_to_cache_new [OF assms es]) (use r None in auto)
  qed
qed

text \<open>
  C24: \<open>rr_to_cache\<close> refines insertion into a set of records. On a well-formed array of entries, for
  a valid name, a type that is cached and data of the form the type asks for, it returns and keeps
  the array well-formed, which has one entry for each name; on success the records of the array
  are those it had and the new one. The only other result is \<open>RC_FATALERR\<close>, and only when an
  allocation fails; the state of the cache is not touched but for allocations.
\<close>
theorem rr_to_cache_insert:
  assumes "arr_ok centa" and "distinct (rrset_l st)" and "dns_name ls" and "cached_type tp" and "rdata_ok tp d"
  shows "\<exists>rc centa' m. rr_to_cache centa (enc ls @ q) (int tp) ttl d fl queryts st = Some (rc, centa', st\<lparr>mem := m\<rparr>) \<and>
    arr_ok centa' \<and> (mem st = [] \<longrightarrow> m = []) \<and>
    (rc = RC_OK \<and> arr_recs centa' = insert (map tolower (enc ls), tp, d) (arr_recs centa) \<or>
     rc = RC_FATALERR \<and> mem st \<noteq> [])"
  using rr_to_cache_spec [OF assms, of q ttl fl queryts] by blast

theorem rr_to_cache_insert_witness:
  "\<exists>centa' m. rr_to_cache None [1, 97, 0] (int T_A) 60 [10, 0, 0, 1] 0 5 (init_cache 5 0 0 0 0 []) =
     Some (RC_OK, centa', (init_cache 5 0 0 0 0 [])\<lparr>mem := m\<rparr>) \<and> arr_recs centa' = {([1, 97, 0], T_A, [10, 0, 0, 1])}"
proof -
  let ?st = "init_cache 5 0 0 0 0 []"
  have n: "dns_name [[97 :: byte]]" "enc [[97 :: byte]] @ [] = [1, 97, 0]"
    by (simp_all add: dns_name_def DNSNAMEBUFSIZE_def)
  have t: "cached_type T_A" unfolding cached_type_def by code_simp
  have d: "rdata_ok T_A [10, 0, 0, 1]" by (simp add: rdata_ok_def type_num_defs)
  have st: "distinct (rrset_l ?st)" "mem ?st = []" by (simp_all add: init_cache_def)
  have low: "map tolower [1, 97, 0] = [1, 97, 0]" by code_simp
  from rr_to_cache_insert [OF arr_ok_None st(1) n(1) t d, of "[]" 60 0 5] show ?thesis
    unfolding n(2) using st(2) n(2) low by (auto simp: arr_recs_def cent_entries_def da_list_def)
qed

subsection \<open>The records of a section\<close>

definition parse_ok :: "bytes \<Rightarrow> parse \<Rightarrow> bool" where
  "parse_ok msg p \<longleftrightarrow> p_ptr p + p_lcnt p \<le> length msg \<and> arr_ok (p_centa p) \<and> distinct (rrset_l (p_st p))"

text \<open>
  What the parser may change: the outcomes of allocations, and entries are only added to. A return
  code says that the message is malformed or that an allocation failed.
\<close>

definition parse_step :: "parse \<Rightarrow> parse \<Rightarrow> bool" where
  "parse_step p p' \<longleftrightarrow> (\<exists>m. p_st p' = (p_st p)\<lparr>mem := m\<rparr> \<and> (mem (p_st p) = [] \<longrightarrow> m = [])) \<and> arr_ok (p_centa p')"

definition parse_err :: "parse \<Rightarrow> nat \<Rightarrow> bool" where
  "parse_err p rc \<longleftrightarrow> rc = RC_FORMAT \<or> rc = RC_TRUNC \<or> rc = RC_FATALERR \<and> mem (p_st p) \<noteq> []"

lemma parse_step_trans: "parse_step p p' \<Longrightarrow> parse_step p' p'' \<Longrightarrow> parse_step p p''"
  by (auto simp: parse_step_def)

lemma parse_err_step: "parse_step p p' \<Longrightarrow> parse_err p' rc \<Longrightarrow> parse_err p rc"
  by (auto simp: parse_step_def parse_err_def)

lemma parse_step_refl: "arr_ok (p_centa p) \<Longrightarrow> p_st p' = p_st p \<Longrightarrow> p_centa p' = p_centa p \<Longrightarrow> parse_step p p'"
proof -
  assume a: "arr_ok (p_centa p)" "p_st p' = p_st p" "p_centa p' = p_centa p"
  have "p_st p = (p_st p)\<lparr>mem := mem (p_st p)\<rparr>" by simp
  with a show ?thesis unfolding parse_step_def by metis
qed

lemma not_cached_type: "\<not> PDNSD_NOT_CACHED_TYPE (int t) \<Longrightarrow> cached_type t"
  by (auto simp: PDNSD_NOT_CACHED_TYPE_def cached_type_def nat_diff_distrib)

lemma rrs_cached_spec:
  assumes "p_ptr p + rdlength \<le> length msg" and "arr_ok (p_centa p)" and "distinct (rrset_l (p_st p))"
    and "dns_name ls" and "cached_type tp"
  shows "\<exists>r p'. rrs_cached msg (length msg) fl queryts (enc ls @ q) tp ttl rdlength p = Some (r, p') \<and> parse_step p p' \<and>
    (\<forall>rc. r = Some rc \<longrightarrow> parse_err p rc) \<and>
    (r \<noteq> Some RC_FATALERR \<longrightarrow> arr_grows 1 (p_centa p) (p_centa p')) \<and>
    (r = None \<longrightarrow> p_ptr p' = p_ptr p \<and> p_lcnt p' = p_lcnt p \<and> p_retval p' = p_retval p \<and>
      (\<exists>d. rdata_ok tp d \<and> arr_recs (p_centa p') = insert (map tolower (enc ls), tp, d) (arr_recs (p_centa p))))"
proof -
  let ?st = "p_st p"
  from rr_data_spec [OF assms(1), of tp ?st] obtain r m where
    r: "rr_data tp msg (length msg) (p_ptr p) rdlength ?st = Some (r, ?st\<lparr>mem := m\<rparr>)" "mem ?st = [] \<longrightarrow> m = []"
      "case r of Inl rc \<Rightarrow> rc = RC_FORMAT \<or> rc = RC_FATALERR \<and> mem ?st \<noteq> [] | Inr d \<Rightarrow> rdata_ok tp d"
    unfolding data_result_def by blast
  let ?p1 = "p\<lparr>p_st := ?st\<lparr>mem := m\<rparr>\<rparr>"
  show ?thesis
  proof (cases r)
    case (Inl rc)
    then have "rrs_cached msg (length msg) fl queryts (enc ls @ q) tp ttl rdlength p = Some (Some rc, ?p1)"
      using r(1) by (simp add: rrs_cached_def)
    moreover have "parse_step p ?p1" using r(2) assms(2) unfolding parse_step_def by auto
    moreover have "parse_err p rc" using r(3) Inl by (auto simp: parse_err_def)
    ultimately show ?thesis by (intro exI [of _ "Some rc"] exI [of _ ?p1]) simp
  next
    case (Inr d)
    then have d: "rdata_ok tp d" using r(3) by simp
    have "distinct (rrset_l (?st\<lparr>mem := m\<rparr>))" using assms(3) by simp
    from rr_to_cache_spec [OF assms(2) this assms(4,5) d, of q ttl fl queryts] obtain rc centa' m' where
      c: "rr_to_cache (p_centa p) (enc ls @ q) (int tp) ttl d fl queryts (?st\<lparr>mem := m\<rparr>) =
          Some (rc, centa', ?st\<lparr>mem := m\<rparr>\<lparr>mem := m'\<rparr>)" "arr_ok centa'" "m = [] \<longrightarrow> m' = []"
        "rc = RC_OK \<and> arr_recs centa' = insert (map tolower (enc ls), tp, d) (arr_recs (p_centa p)) \<and> arr_grows 1 (p_centa p) centa' \<and>
           arr_ttl centa' = ttls_with (map tolower (enc ls)) tp ttl (arr_ttl (p_centa p)) \<or>
         rc = RC_FATALERR \<and> m \<noteq> []"
      unfolding mem_mem by blast
    let ?p2 = "p\<lparr>p_st := ?st\<lparr>mem := m'\<rparr>, p_centa := centa'\<rparr>"
    have run: "rrs_cached msg (length msg) fl queryts (enc ls @ q) tp ttl rdlength p =
        Some (if rc = RC_OK then None else Some rc, ?p2)"
      using r(1) Inr c(1,4) by (auto simp: rrs_cached_def rc2_defs)
    have "parse_step p ?p2" using r(2) c(2,3) unfolding parse_step_def by auto
    moreover have "rc \<noteq> RC_OK \<Longrightarrow> parse_err p rc" using c(4) r(2) by (auto simp: parse_err_def)
    moreover have "rc = RC_OK \<Longrightarrow> arr_recs centa' = insert (map tolower (enc ls), tp, d) (arr_recs (p_centa p))"
      using c(4) by (auto simp: rc2_defs)
    moreover have "rc \<noteq> RC_FATALERR \<Longrightarrow> arr_grows 1 (p_centa p) centa'" using c(4) by auto
    moreover have "RC_OK \<noteq> RC_FATALERR" by (simp add: rc2_defs)
    ultimately show ?thesis using run d by (cases "rc = RC_OK") auto
  qed
qed

lemma GETINT16_some: "cp + 2 \<le> length b \<Longrightarrow> \<exists>v. GETINT16 b cp = Some (v, cp + 2)"
  by (simp add: GETINT16_def rd_def)

lemma GETINT32_some: "cp + 4 \<le> length b \<Longrightarrow> \<exists>v. GETINT32 b cp = Some (v, cp + 4)"
  by (simp add: GETINT32_def rd_def)

lemma rrs_opt_spec:
  assumes "ttlp + 3 \<le> length msg" and "4 \<le> length msg"
  shows "\<exists>ep n. rrs_opt msg class ttlp p = Some (p\<lparr>p_numopt := n, p_ep := ep\<rparr>)"
proof (cases "p_numopt p = 0")
  case True
  have "\<exists>x. rd msg ttlp = Some x" "\<exists>x. rd msg (ttlp + 1) = Some x" "\<exists>x. rd msg (ttlp + 2) = Some x" "\<exists>x. rd msg 3 = Some x"
    using assms by (simp_all add: rd_def)
  then obtain a b c g where "rd msg ttlp = Some a" "rd msg (ttlp + 1) = Some b" "rd msg (ttlp + 2) = Some c" "rd msg 3 = Some g"
    by blast
  with True show ?thesis by (auto simp: rrs_opt_def msg_rcode_def)
next
  case False
  have "p\<lparr>p_numopt := p_numopt p + 1\<rparr> = p\<lparr>p_numopt := p_numopt p + 1, p_ep := p_ep p\<rparr>" by simp
  with False show ?thesis unfolding rrs_opt_def by metis
qed

lemma rrs_step_spec:
  assumes "parse_ok msg p"
  shows "\<exists>r p'. rrs_step msg (length msg) fl queryts p = Some (r, p') \<and> parse_step p p' \<and>
    (\<forall>rc. r = Some rc \<longrightarrow> parse_err p rc) \<and> (r \<noteq> Some RC_FATALERR \<longrightarrow> arr_grows 1 (p_centa p) (p_centa p')) \<and>
    (r = None \<longrightarrow> p_ptr p' + p_lcnt p' = p_ptr p + p_lcnt p \<and> p_lcnt p' + 11 \<le> p_lcnt p \<and> p_retval p' = p_retval p \<and>
      arr_recs (p_centa p) \<subseteq> arr_recs (p_centa p'))"
proof -
  have a: "p_ptr p + p_lcnt p \<le> length msg" "arr_ok (p_centa p)" "distinct (rrset_l (p_st p))"
    using assms by (simp_all add: parse_ok_def)
  have "DNSNAMEBUFSIZE \<le> length (replicate DNSNAMEBUFSIZE (0 :: byte))" by simp
  from decompress_name_returns [OF refl this, of msg "p_ptr p" "p_lcnt p"] obtain x where
    x: "decompress_name msg (length msg) (p_ptr p) (p_lcnt p) (replicate DNSNAMEBUFSIZE 0) = Some x"
      "case x of Inl rc \<Rightarrow> (rc = RC_FORMAT \<or> rc = RC_TRUNC) \<and> \<not> (\<exists>n ls. field_name msg (p_ptr p) (p_lcnt p) n ls)
        | Inr (src', sz', tgt', len) \<Rightarrow> \<exists>n ls. field_name msg (p_ptr p) (p_lcnt p) n ls \<and>
            src' = p_ptr p + n \<and> sz' = p_lcnt p - n \<and> len = length (enc ls) \<and>
            length tgt' = length (replicate DNSNAMEBUFSIZE (0 :: byte)) \<and> take len tgt' = enc ls"
    by (rule returnsE)
  show ?thesis
  proof (cases x)
    case (Inl rc)
    then have "rrs_step msg (length msg) fl queryts p = Some (Some rc, p)" using x(1) by (simp add: rrs_step_def)
    moreover have "parse_err p rc" using x(2) Inl by (auto simp: parse_err_def)
    ultimately show ?thesis using parse_step_refl [OF a(2)] by (intro exI [of _ "Some rc"] exI [of _ p]) simp
  next
    case (Inr y)
    with x(2) obtain n ls tgt where y: "y = (p_ptr p + n, p_lcnt p - n, tgt, length (enc ls))"
      "field_name msg (p_ptr p) (p_lcnt p) n ls" "take (length (enc ls)) tgt = enc ls" by (cases y) auto
    then have tgt: "tgt = enc ls @ drop (length (enc ls)) tgt" by (metis append_take_drop_id)
    have n: "n \<le> p_lcnt p" "0 < n" "dns_name ls" using y(2) name_at_in_msg by (auto simp: field_name_def)
    let ?ptr0 = "p_ptr p + n" and ?lcnt0 = "p_lcnt p - n"
    show ?thesis
    proof (cases "?lcnt0 < 10")
      case True
      then have "rrs_step msg (length msg) fl queryts p = Some (Some RC_TRUNC, p\<lparr>p_ptr := ?ptr0, p_lcnt := ?lcnt0\<rparr>)"
        using x(1) Inr y(1) by (simp add: rrs_step_def sizeof_rr_hdr_t_def)
      moreover have "parse_err p RC_TRUNC" by (simp add: parse_err_def)
      moreover have "parse_step p (p\<lparr>p_ptr := ?ptr0, p_lcnt := ?lcnt0\<rparr>)" using a(2) by (intro parse_step_refl) simp_all
      ultimately show ?thesis by (intro exI [of _ "Some RC_TRUNC"] exI [of _ "p\<lparr>p_ptr := ?ptr0, p_lcnt := ?lcnt0\<rparr>"]) simp
    next
      case False
      then have l10: "?ptr0 + 10 \<le> length msg" using a(1) n(1) by linarith
      from GETINT16_some [of ?ptr0 msg] l10 obtain ty where ty: "GETINT16 msg ?ptr0 = Some (ty, ?ptr0 + 2)" by auto
      from GETINT16_some [of "?ptr0 + 2" msg] l10 obtain cl where cl: "GETINT16 msg (?ptr0 + 2) = Some (cl, ?ptr0 + 2 + 2)" by auto
      from GETINT32_some [of "?ptr0 + 2 + 2" msg] l10 obtain ttl where
        ttl: "GETINT32 msg (?ptr0 + 2 + 2) = Some (ttl, ?ptr0 + 2 + 2 + 4)" by auto
      from GETINT16_some [of "?ptr0 + 2 + 2 + 4" msg] l10 obtain rdl where
        rdl: "GETINT16 msg (?ptr0 + 2 + 2 + 4) = Some (rdl, ?ptr0 + 2 + 2 + 4 + 2)" by auto
      let ?p1 = "p\<lparr>p_ptr := ?ptr0 + 2 + 2 + 4 + 2, p_lcnt := ?lcnt0 - 10\<rparr>"
      let ?rd = "unat rdl"
      define body where "body = (if unat ty = T_OPT then do { q \<leftarrow> rrs_opt msg cl (?ptr0 + 2 + 2) ?p1; Some (None, q) }
                else if \<not> (PDNSD_NOT_CACHED_TYPE (int (unat ty)) \<or> unat cl \<noteq> C_IN) then
                  rrs_cached msg (length msg) fl queryts tgt (unat ty) (uint ttl) ?rd ?p1
                else Some (None, ?p1))"
      have run: "rrs_step msg (length msg) fl queryts p = (if ?lcnt0 - 10 < ?rd then Some (Some RC_TRUNC, ?p1) else do {
             (r', p2) \<leftarrow> body;
             case r' of Some rc \<Rightarrow> Some (Some rc, p2)
             | None \<Rightarrow> Some (None, p2\<lparr>p_lcnt := p_lcnt p2 - ?rd, p_ptr := p_ptr p2 + ?rd\<rparr>)
           })"
        using x(1) Inr y(1) False ty cl ttl rdl
        by (simp add: rrs_step_def sizeof_rr_hdr_t_def body_def Let_def)
      show ?thesis
      proof (cases "?lcnt0 - 10 < ?rd")
        case True
        with run have "rrs_step msg (length msg) fl queryts p = Some (Some RC_TRUNC, ?p1)" by simp
        moreover have "parse_err p RC_TRUNC" by (simp add: parse_err_def)
        moreover have "parse_step p ?p1" using a(2) by (intro parse_step_refl) simp_all
        ultimately show ?thesis by (intro exI [of _ "Some RC_TRUNC"] exI [of _ ?p1]) simp
      next
        case fits: False
        obtain r' p2 where b: "body = Some (r', p2)" "parse_step p p2" "\<forall>rc. r' = Some rc \<longrightarrow> parse_err p rc"
          "r' = None \<longrightarrow> p_ptr p2 = p_ptr ?p1 \<and> p_lcnt p2 = p_lcnt ?p1 \<and> p_retval p2 = p_retval p \<and>
             arr_recs (p_centa p) \<subseteq> arr_recs (p_centa p2)" "r' \<noteq> Some RC_FATALERR \<longrightarrow> arr_grows 1 (p_centa p) (p_centa p2)"
        proof (cases "unat ty = T_OPT")
          case True
          have "?ptr0 + 2 + 2 + 3 \<le> length msg" "4 \<le> length msg" using l10 by linarith+
          from rrs_opt_spec [OF this, of cl ?p1] obtain ep k where
            o: "rrs_opt msg cl (?ptr0 + 2 + 2) ?p1 = Some (?p1\<lparr>p_numopt := k, p_ep := ep\<rparr>)" by blast
          have "parse_step p (?p1\<lparr>p_numopt := k, p_ep := ep\<rparr>)" using a(2) by (intro parse_step_refl) simp_all
          with True o show ?thesis by (intro that [of None "?p1\<lparr>p_numopt := k, p_ep := ep\<rparr>"]) (simp_all add: body_def)
        next
          case no: False
          show ?thesis
          proof (cases "PDNSD_NOT_CACHED_TYPE (int (unat ty)) \<or> unat cl \<noteq> C_IN")
            case True
            have "parse_step p ?p1" using a(2) by (intro parse_step_refl) simp_all
            with no True show ?thesis by (intro that [of None ?p1]) (simp_all add: body_def)
          next
            case False
            have pre: "p_ptr ?p1 + ?rd \<le> length msg" "arr_ok (p_centa ?p1)" "distinct (rrset_l (p_st ?p1))"
              using fits a n(1) \<open>\<not> ?lcnt0 < 10\<close> by simp_all
            have "cached_type (unat ty)" using False not_cached_type by blast
            from rrs_cached_spec [OF pre n(3) this, of fl queryts "drop (length (enc ls)) tgt" "uint ttl"] obtain r' p2 where c:
              "rrs_cached msg (length msg) fl queryts (enc ls @ drop (length (enc ls)) tgt) (unat ty) (uint ttl) ?rd ?p1 = Some (r', p2)"
              "parse_step ?p1 p2" "\<forall>rc. r' = Some rc \<longrightarrow> parse_err ?p1 rc"
              "r' \<noteq> Some RC_FATALERR \<longrightarrow> arr_grows 1 (p_centa ?p1) (p_centa p2)"
              "r' = None \<longrightarrow> p_ptr p2 = p_ptr ?p1 \<and> p_lcnt p2 = p_lcnt ?p1 \<and> p_retval p2 = p_retval ?p1 \<and>
               (\<exists>d. rdata_ok (unat ty) d \<and> arr_recs (p_centa p2) = insert (map tolower (enc ls), unat ty, d) (arr_recs (p_centa ?p1)))"
              by blast
            have "parse_step p p2" using c(2) by (simp add: parse_step_def)
            moreover have "\<forall>rc. r' = Some rc \<longrightarrow> parse_err p rc" using c(3) by (simp add: parse_err_def)
            moreover have "body = Some (r', p2)" using no False c(1) tgt by (simp add: body_def)
            ultimately show ?thesis using c(4,5) by (intro that [of r' p2]) auto
          qed
        qed
        show ?thesis
        proof (cases r')
          case None
          let ?p3 = "p2\<lparr>p_lcnt := p_lcnt p2 - ?rd, p_ptr := p_ptr p2 + ?rd\<rparr>"
          have "rrs_step msg (length msg) fl queryts p = Some (None, ?p3)" using run fits b(1) None by simp
          moreover have "parse_step p ?p3" using b(2) by (simp add: parse_step_def)
          moreover have "p_ptr ?p3 + p_lcnt ?p3 = p_ptr p + p_lcnt p \<and> p_lcnt ?p3 + 11 \<le> p_lcnt p"
          proof -
            have e: "p_ptr p2 = ?ptr0 + 10" "p_lcnt p2 = ?lcnt0 - 10" using b(4) None by simp_all
            have "p_ptr ?p3 = ?ptr0 + 10 + ?rd" "p_lcnt ?p3 = ?lcnt0 - 10 - ?rd" by (simp_all add: e)
            with fits False n(1,2) show ?thesis by linarith
          qed
          moreover have "p_retval ?p3 = p_retval p" "arr_recs (p_centa p) \<subseteq> arr_recs (p_centa ?p3)" "arr_grows 1 (p_centa p) (p_centa ?p3)"
            using b(4,5) None by simp_all
          ultimately show ?thesis by blast
        next
          case (Some rc)
          then have "rrs_step msg (length msg) fl queryts p = Some (Some rc, p2)" using run fits b(1) by simp
          with b(2,3,5) Some show ?thesis by (intro exI [of _ r'] exI [of _ p2]) simp
        qed
      qed
    qed
  qed
qed

lemma rrs_loop_spec:
  assumes "parse_ok msg p"
  shows "\<exists>rc p'. rrs_loop n msg (length msg) fl queryts p = Some (rc, p') \<and> parse_step p p' \<and>
    (rc \<noteq> RC_FATALERR \<longrightarrow> arr_grows n (p_centa p) (p_centa p')) \<and>
    (rc = p_retval p \<and> p_ptr p' + p_lcnt p' = p_ptr p + p_lcnt p \<and> 11 * n + p_lcnt p' \<le> p_lcnt p \<and>
       arr_recs (p_centa p) \<subseteq> arr_recs (p_centa p') \<or> parse_err p rc)"
  using assms
proof (induction n arbitrary: p)
  case 0
  have "parse_step p p" using 0 by (intro parse_step_refl) (simp_all add: parse_ok_def)
  then show ?case by simp
next
  case (Suc n)
  from rrs_step_spec [OF Suc.prems, of fl queryts] obtain r p1 where
    s: "rrs_step msg (length msg) fl queryts p = Some (r, p1)" "parse_step p p1" "\<forall>rc. r = Some rc \<longrightarrow> parse_err p rc"
      "r \<noteq> Some RC_FATALERR \<longrightarrow> arr_grows 1 (p_centa p) (p_centa p1)"
      "r = None \<longrightarrow> p_ptr p1 + p_lcnt p1 = p_ptr p + p_lcnt p \<and> p_lcnt p1 + 11 \<le> p_lcnt p \<and> p_retval p1 = p_retval p \<and>
        arr_recs (p_centa p) \<subseteq> arr_recs (p_centa p1)" by blast
  show ?case
  proof (cases r)
    case (Some rc)
    have "arr_grows (Suc n) (p_centa p) (p_centa p1)" if "rc \<noteq> RC_FATALERR" using s(4) Some that by (auto simp: arr_grows_def)
    with s(1-3) Some show ?thesis by auto
  next
    case None
    have "parse_ok msg p1" using Suc.prems s(2,5) None by (auto simp: parse_ok_def parse_step_def)
    from Suc.IH [OF this] obtain rc p' where IH: "rrs_loop n msg (length msg) fl queryts p1 = Some (rc, p')" "parse_step p1 p'"
      "rc \<noteq> RC_FATALERR \<longrightarrow> arr_grows n (p_centa p1) (p_centa p')"
      "rc = p_retval p1 \<and> p_ptr p' + p_lcnt p' = p_ptr p1 + p_lcnt p1 \<and> 11 * n + p_lcnt p' \<le> p_lcnt p1 \<and>
       arr_recs (p_centa p1) \<subseteq> arr_recs (p_centa p') \<or> parse_err p1 rc" by blast
    have "rrs_loop (Suc n) msg (length msg) fl queryts p = Some (rc, p')" using s(1) None IH(1) by simp
    moreover have "parse_step p p'" by (rule parse_step_trans [OF s(2) IH(2)])
    moreover have "rc = p_retval p \<and> p_ptr p' + p_lcnt p' = p_ptr p + p_lcnt p \<and> 11 * Suc n + p_lcnt p' \<le> p_lcnt p \<and>
       arr_recs (p_centa p) \<subseteq> arr_recs (p_centa p') \<or> parse_err p rc"
      using IH(4) s(5) None parse_err_step [OF s(2)] by auto
    moreover have "rc \<noteq> RC_FATALERR \<longrightarrow> arr_grows (Suc n) (p_centa p) (p_centa p')"
      using IH(3) s(4) None arr_grows_trans [of 1 "p_centa p" "p_centa p1" n "p_centa p'"] by simp
    ultimately show ?thesis by blast
  qed
qed

text \<open>
  C4: \<open>rrs2cent\<close> is safe on every message. Whatever bytes a server sends and whatever the record
  count of the header claims, it returns without reading or writing outside the message and its
  buffers. It keeps the array of entries well-formed: one entry for each name, the counters of
  every entry right, and every record stored has data of the form its type requires, with names
  uncompressed and valid. When it returns \<open>RC_OK\<close>, all records were read, each took at least 11
  bytes, the pointer and the count of bytes left agree, and no record the array had before is lost.
  The other results are \<open>RC_FORMAT\<close>, \<open>RC_TRUNC\<close>, and \<open>RC_FATALERR\<close> after a failed allocation.
\<close>
theorem rrs2cent_correct:
  assumes "p_ptr p + p_lcnt p \<le> length msg" and "arr_ok (p_centa p)" and "distinct (rrset_l (p_st p))"
  shows "\<exists>rc p' m. rrs2cent msg (length msg) recnum fl queryts p = Some (rc, p') \<and>
    arr_ok (p_centa p') \<and> p_st p' = (p_st p)\<lparr>mem := m\<rparr> \<and>
    (rc = RC_OK \<and> p_ptr p' + p_lcnt p' = p_ptr p + p_lcnt p \<and> 11 * recnum + p_lcnt p' \<le> p_lcnt p \<and>
       arr_recs (p_centa p) \<subseteq> arr_recs (p_centa p') \<or>
     rc = RC_FORMAT \<or> rc = RC_TRUNC \<or> rc = RC_FATALERR \<and> mem (p_st p) \<noteq> [])"
proof -
  let ?p = "p\<lparr>p_retval := RC_OK\<rparr>"
  have "parse_ok msg ?p" using assms by (simp add: parse_ok_def)
  from rrs_loop_spec [OF this, of recnum fl queryts] show ?thesis
    unfolding rrs2cent_def parse_step_def parse_err_def by fastforce
qed

text \<open>A header, and an A record whose name is a compression pointer that leads to itself.\<close>

definition loop_msg :: bytes where
  "loop_msg = replicate 12 0 @ [0xc0, 12, 0, 1, 0, 1, 0, 0, 0, 60, 0, 4, 10, 0, 0, 1]"

theorem rrs2cent_correct_witness:
  "\<exists>rc p'. rrs2cent loop_msg 28 1 0 5 \<lparr>p_ptr = 12, p_lcnt = 16, p_centa = None, p_numopt = 0,
     p_ep = \<lparr>ei_udpsize = 0, ei_rcode = 0, ei_version = 0, ei_do_flg = 0\<rparr>, p_retval = 0, p_st = init_cache 5 0 0 0 0 []\<rparr> =
     Some (rc, p') \<and> arr_ok (p_centa p')"
proof -
  let ?p = "\<lparr>p_ptr = 12, p_lcnt = 16, p_centa = None, p_numopt = 0,
     p_ep = \<lparr>ei_udpsize = 0, ei_rcode = 0, ei_version = 0, ei_do_flg = 0\<rparr>, p_retval = 0, p_st = init_cache 5 0 0 0 0 []\<rparr>"
  have l: "length loop_msg = 28" by (simp add: loop_msg_def)
  have "p_ptr ?p + p_lcnt ?p \<le> length loop_msg" "arr_ok (p_centa ?p)" "distinct (rrset_l (p_st ?p))"
    by (simp_all add: l init_cache_def)
  from rrs2cent_correct [OF this, of 1 0 5] show ?thesis unfolding l by blast
qed

end
