(* ===== verification/Cache_Add.thy ===== *)
theory Cache_Add
  imports Cache_Entry
begin

text \<open>
  \<open>replace_set\<close> and \<open>merge_sets\<close>, which merge the record sets of a new entry into one of the
  cache, and \<open>link_sets\<close>, which links the sets of an entry that is new in the cache.
\<close>

subsection \<open>Replacing a record set\<close>

text \<open>A record set without its link.\<close>

abbreviation (input) unlk :: "rr_set \<Rightarrow> rr_set" where
  "unlk s \<equiv> s\<lparr>rs_lent := None\<rparr>"

lemma adjust_ttl_conf: "same_conf st st' \<Longrightarrow> adjust_ttl st' s = adjust_ttl st s"
  by (simp add: adjust_ttl_def adjusted_def same_conf_def Let_def)

lemma adjust_ttl_lent [simp]: "adjust_ttl st (s\<lparr>rs_lent := l\<rparr>) = (adjust_ttl st s)\<lparr>rs_lent := l\<rparr>"
  by (simp add: adjust_ttl_def)

lemma adjust_ttl_fields [simp]:
  "rs_rrs (adjust_ttl st s) = rs_rrs s" "rs_lent (adjust_ttl st s) = rs_lent s" "rs_ts (adjust_ttl st s) = rs_ts s"
  "has (rs_flags (adjust_ttl st s)) CF_NEGATIVE = has (rs_flags s) CF_NEGATIVE"
  "has (rs_flags (adjust_ttl st s)) CF_LOCAL = has (rs_flags s) CF_LOCAL"
proof -
  have "has (fl AND NOT CF_NOCACHE) CF_NEGATIVE = has fl CF_NEGATIVE" "has (fl AND NOT CF_NOCACHE) CF_LOCAL = has fl CF_LOCAL"
    for fl by (rule has_clear, simp add: cf_defs)+
  then show "has (rs_flags (adjust_ttl st s)) CF_NEGATIVE = has (rs_flags s) CF_NEGATIVE"
    "has (rs_flags (adjust_ttl st s)) CF_LOCAL = has (rs_flags s) CF_LOCAL" by (simp_all add: adjust_ttl_def)
qed (simp_all add: adjust_ttl_def)

text \<open>
  The effect on the sets with another index: each stays or is deleted, and a local one is deleted
  only in favour of a local set.
\<close>

definition others_kept :: "nat \<Rightarrow> flags \<Rightarrow> dns_cent \<Rightarrow> dns_cent \<Rightarrow> bool" where
  "others_kept i fl c c' \<longleftrightarrow> (\<forall>j < NRRTOT. j \<noteq> i \<longrightarrow>
     slot c' j = slot c j \<or> slot c' j = None \<and> (has fl CF_LOCAL \<or> \<not> local_slot c j))"

lemma others_keptD: "others_kept i fl c c' \<Longrightarrow> i < NRRTOT \<Longrightarrow> j < NRRTOT \<Longrightarrow> slot c' i = None \<Longrightarrow>
    slot c' j = slot c j \<or> slot c' j = None"
  by (cases "j = i") (auto simp: others_kept_def)

definition replaced :: "cache \<Rightarrow> rr_set \<Rightarrow> nat \<Rightarrow> dns_cent \<Rightarrow> dns_cent \<Rightarrow> bool" where
  "replaced st s i c c' \<longleftrightarrow> same_head c c' \<and> others_kept i (rs_flags s) c c' \<and>
     (\<forall>t. slot c' i = Some t \<longrightarrow> unlk t = unlk (adjust_ttl st s)) \<and>
     (conflict_free c \<longrightarrow> conflict_free c')"

lemma conflict_free_sub:
  assumes "conflict_free c" and "\<forall>j < NRRTOT. slot c' j = slot c j \<or> slot c' j = None"
  shows "conflict_free c'"
  unfolding conflict_free_def
proof (intro allI impI)
  fix i j s t
  assume j: "i < NRRTOT" "j < NRRTOT" "slot c' i = Some s" "slot c' j = Some t"
    "\<not> has (rs_flags s) CF_NEGATIVE" "\<not> has (rs_flags t) CF_NEGATIVE"
  then have "slot c i = Some s" "slot c j = Some t" using assms(2) by (metis option.distinct(1))+
  with assms(1) j show "\<not> rr_conflict i j" unfolding conflict_free_def by blast
qed

lemma conflict_free_place:
  assumes "conflict_free c" and "others_kept i fl c c2" and "i < NRRTOT"
    and "has fl CF_NEGATIVE \<or> (\<forall>j < NRRTOT. \<not> conf i c2 j)"
    and "\<forall>j < NRRTOT. j \<noteq> i \<longrightarrow> slot c' j = slot c2 j"
    and "\<forall>t. slot c' i = Some t \<longrightarrow> has (rs_flags t) CF_NEGATIVE = has fl CF_NEGATIVE"
  shows "conflict_free c'"
  unfolding conflict_free_def
proof (intro allI impI)
  fix j k s t
  assume j: "j < NRRTOT" "k < NRRTOT" "slot c' j = Some s" "slot c' k = Some t"
    "\<not> has (rs_flags s) CF_NEGATIVE" "\<not> has (rs_flags t) CF_NEGATIVE"
  have old: "slot c m = Some u" if "m < NRRTOT" "m \<noteq> i" "slot c' m = Some u" for m u
    using assms(2,5) that unfolding others_kept_def by (metis option.distinct(1))
  have new: "\<not> rr_conflict i m" if "m < NRRTOT" "m \<noteq> i" "slot c' m = Some u" "\<not> has (rs_flags u) CF_NEGATIVE"
      "slot c' i = Some v" "\<not> has (rs_flags v) CF_NEGATIVE" for m u v
  proof -
    have "\<not> conf i c2 m" using assms(4,6) that by auto
    moreover have "slot c2 m = Some u" using assms(5) that by simp
    ultimately show ?thesis using that(4) by (simp add: conf_def cr_conflicts_def)
  qed
  show "\<not> rr_conflict j k"
  proof (cases "j = i")
    case ji: True
    show ?thesis
    proof (cases "k = i")
      case True
      then show ?thesis using ji rr_conflict_irrefl [OF assms(3)] by simp
    next
      case False
      then show ?thesis using new [of k t s] j ji by simp
    qed
  next
    case ji: False
    show ?thesis
    proof (cases "k = i")
      case True
      then show ?thesis using new [of j s t] j ji rr_conflict_sym [OF j(1,2)] by simp
    next
      case False
      then show ?thesis using assms(1) old [OF j(1) ji j(3)] old [OF j(2) False j(4)] j
        unfolding conflict_free_def by blast
    qed
  qed
qed

lemma replacedI:
  assumes "same_head c c2" and "others_kept i (rs_flags s) c c2" and "i < NRRTOT"
    and "has (rs_flags s) CF_NEGATIVE \<or> (\<forall>j < NRRTOT. \<not> conf i c2 j)"
    and "same_head c2 c'" and "slots (body c') = (slots (body c2))[i := v]" and "length (slots (body c2)) = NRRTOT"
    and "\<forall>t. v = Some t \<longrightarrow> unlk t = unlk (adjust_ttl st s)"
  shows "replaced st s i c c'"
proof -
  have sl: "\<forall>j < NRRTOT. j \<noteq> i \<longrightarrow> slot c' j = slot c2 j" and vi: "slot c' i = v"
    using assms(3,6,7) by simp_all
  have fl: "has (rs_flags t) CF_NEGATIVE = has (rs_flags s) CF_NEGATIVE" if "v = Some t" for t
  proof -
    from assms(8) that have "unlk t = unlk (adjust_ttl st s)" by blast
    then have "rs_flags t = rs_flags (adjust_ttl st s)" by (metis rr_set.ext_inject rr_set.surjective rr_set.update_convs(1))
    then show ?thesis by simp
  qed
  have "others_kept i (rs_flags s) c c'" using assms(2) sl by (simp add: others_kept_def)
  moreover have "conflict_free c \<longrightarrow> conflict_free c'"
    using conflict_free_place [OF _ assms(2-4) sl] fl vi by blast
  ultimately show ?thesis using same_head_trans [OF assms(1,5)] assms(8) vi by (simp add: replaced_def)
qed

lemma cleanup_set_spec:
  assumes "cok a c st" and "cents st a = Some c" and "i < NRRTOT"
  shows "\<exists>st1. cleanup_set a i st = Some (False, put_cent a (del_slot c i) st1) \<and> frame a st st1 \<and>
    cok a (del_slot c i) st1"
  using del_cent_rrset_spec [OF assms(1,3)] assms(2)
  by (intro exI [of _ "unlink (a, int i) st"]) (simp add: cleanup_set_def frame_unlink)


lemma fresh_eq: "(fresh_set ttl ts fl)\<lparr>rs_rrs := rrs\<rparr> = \<lparr>rs_lent = None, rs_ttl = ttl, rs_ts = ts, rs_flags = fl, rs_rrs = rrs\<rparr>"
  by (simp add: fresh_set_def)

lemma fresh_unlk: "(fresh_set (rs_ttl s) (rs_ts s) (rs_flags s))\<lparr>rs_rrs := rs_rrs s\<rparr> = unlk s"
  by (cases s) (simp add: fresh_set_def)

text \<open>Linking a set that has just been built, after the adjustment of its TTL.\<close>

lemma link_built_spec:
  assumes "core C d st" and "cents st a = Some c" and "frame a st st4"
    and "cok a c4 st4" and "qname c4 = qname c" and "i < NRRTOT" and "slot c4 i = Some t" and "rs_lent t = None"
  shows "\<exists>c5 ok c' st'. set_slot c4 i (Some (adjust_ttl st4 t)) = Some c5 \<and>
    insert_rrl a (int i) (put_cent a c5 st4) = Some (ok, st') \<and> entry_step a st c' st' \<and> same_head c4 c' \<and>
    (\<exists>l. slots (body c') = (slots (body c4))[i := Some ((adjust_ttl st4 t)\<lparr>rs_lent := l\<rparr>)]) \<and> ilim c' = ilim c4 \<and>
    cs c' = cs c4 \<and> (mem st4 = [] \<longrightarrow> ok)"
proof -
  let ?t = "adjust_ttl st4 t"
  have "rs_lent ?t = rs_lent t" "rs_rrs ?t = rs_rrs t" by simp_all
  from cok_set_same [OF assms(4,6,7) this] obtain c5 where c5: "set_slot c4 i (Some ?t) = Some c5" "cok a c5 st4"
    "slots (body c5) = (slots (body c4))[i := Some ?t]" "same_head c4 c5" "cs c5 = cs c4" "ilim c5 = ilim c4" by blast
  let ?st5 = "put_cent a c5 st4"
  have es: "entry_step a st c5 ?st5" using assms(3) c5(2) by (rule entry_stepI)
  have "qname c5 = qname c" using c5(4) assms(5) by (simp add: same_head_def)
  from core_entry_step [OF assms(1,2) es this] obtain d' where core5: "core C d' ?st5" by blast
  have at5: "cents ?st5 a = Some c5" by simp
  have len: "length (slots (body c4)) = NRRTOT" using cok_cent_ok [OF assms(4)] by simp
  have sl: "slot c5 i = Some ?t" using c5(3) len assms(6) by simp
  have nin: "(a, int i) \<notin> set (rrset_l ?st5)" using cok_lent [OF c5(2) assms(6) sl] assms(8) by (auto split: if_splits)
  from insert_rrl_spec [OF core5 at5 assms(6) sl nin] obtain ok c' st' l where
    r: "insert_rrl a (int i) ?st5 = Some (ok, st')" "entry_step a ?st5 c' st'" "same_head c5 c'" "cs c' = cs c5"
      "ilim c' = ilim c5" "slots (body c') = (slots (body c5))[i := Some (?t\<lparr>rs_lent := l\<rparr>)]" "mem ?st5 = [] \<longrightarrow> ok" by blast
  have "slots (body c') = (slots (body c4))[i := Some (?t\<lparr>rs_lent := l\<rparr>)]" using r(6) c5(3) by simp
  then have ex: "\<exists>l. slots (body c') = (slots (body c4))[i := Some (?t\<lparr>rs_lent := l\<rparr>)]" ..
  have "entry_step a st c' st'" by (rule entry_step_trans [OF es r(2)])
  moreover have "same_head c4 c'" by (rule same_head_trans [OF c5(4) r(3)])
  moreover have "mem st4 = [] \<longrightarrow> ok" "ilim c' = ilim c4" "cs c' = cs c4" using r(4,5,7) c5(5,6) by simp_all
  ultimately show ?thesis using c5(1) r(1) ex by blast
qed


lemma replace_set_spec:
  assumes "core C d st" and "cents st a = Some c" and "i < NRRTOT"
  shows "\<exists>ok c' st'. replace_set s i a st = Some (ok, st') \<and> entry_step a st c' st' \<and> replaced st s i c c' \<and>
    (mem st = [] \<longrightarrow> ok)"
proof -
  note c = core_cok [OF assms(1,2)]
  note ok = cok_cent_ok [OF c]
  let ?c1 = "del_slot c i" and ?st1 = "unlink (a, int i) st" and ?fl = "rs_flags s"
  note del = del_cent_rrset_spec [OF c assms(3)]
  note d = del_slot_facts [OF ok assms(3)]
  have f1: "frame a st ?st1" by (rule frame_unlink)
  from cr_check_add_spec [OF del(2) assms(3), of "rs_ttl s" ?fl] obtain ok1 c2 st2 where
    cr: "cr_check_add ?c1 i (rs_ttl s) ?fl ?st1 = Some (ok1, c2, st2)" "cok a c2 st2" "frame a ?st1 st2" "same_head ?c1 c2"
      "\<forall>j < NRRTOT. slot c2 j = slot ?c1 j \<or> slot c2 j = None \<and> conf i ?c1 j \<and> (has ?fl CF_LOCAL \<or> \<not> local_slot ?c1 j)"
      "ok1 \<longrightarrow> \<not> has ?fl CF_NEGATIVE \<longrightarrow> (\<forall>j < NRRTOT. \<not> conf i c2 j)" by blast
  have f2: "frame a st st2" by (rule frame_trans [OF f1 cr(3)])
  have h2: "same_head c c2" by (rule same_head_trans [OF same_head_del_slot cr(4)])
  have len2: "length (slots (body c2)) = NRRTOT" using cok_cent_ok [OF cr(2)] by simp
  have i1: "slot ?c1 i = None" using d(2) assms(3) ok by simp
  then have i2: "slot c2 i = None" using cr(5) assms(3) by metis
  have k2: "others_kept i ?fl c c2"
    unfolding others_kept_def
  proof (intro allI impI)
    fix j assume j: "j < NRRTOT" "j \<noteq> i"
    have "slot ?c1 j = slot c j" using d(2) j by simp
    with cr(5) j show "slot c2 j = slot c j \<or> slot c2 j = None \<and> (has ?fl CF_LOCAL \<or> \<not> local_slot c j)"
      unfolding local_slot_def by metis
  qed
  have m2: "mem st = [] \<longrightarrow> mem st2 = []" using frame_no_failure [OF f2] by blast
  show ?thesis
  proof (cases ok1)
    case False
    let ?st' = "put_cent a c2 st2"
    have run: "replace_set s i a st = Some (True, ?st')"
      using assms(2) del(1) cr(1) False by (simp add: replace_set_def)
    have "\<forall>j < NRRTOT. slot c2 j = slot c j \<or> slot c2 j = None"
      using others_keptD [OF k2 assms(3) _ i2] by simp
    then have cf: "conflict_free c \<longrightarrow> conflict_free c2" using conflict_free_sub by blast
    have "replaced st s i c c2" using h2 k2 i2 cf by (simp add: replaced_def)
    with run entry_stepI [OF f2 cr(2)] show ?thesis by blast
  next
    case ok1: True
    have free: "has ?fl CF_NEGATIVE \<or> (\<forall>j < NRRTOT. \<not> conf i c2 j)" using cr(6) ok1 by blast
    note fin = replacedI [OF h2 k2 assms(3) free _ _ len2]
    from add_cent_rrset_spec [OF cr(2) assms(3) i2, of "rs_ttl s" "rs_ts s" ?fl] obtain ok2 c3 st3 where
      ar: "add_cent_rrset_by_index c2 i (rs_ttl s) (rs_ts s) ?fl st2 = Some (ok2, c3, st3)" "cok a c3 st3" "frame a st2 st3"
        "same_head c2 c3" "slots (body c3) = (if ok2 then (slots (body c2))[i := Some (fresh_set (rs_ttl s) (rs_ts s) ?fl)]
          else slots (body c2))" "ok2 \<longrightarrow> i < ilim c3" "mem st2 = [] \<longrightarrow> ok2" by blast
    have f3: "frame a st st3" by (rule frame_trans [OF f2 ar(3)])
    have len3: "length (slots (body c3)) = NRRTOT" using cok_cent_ok [OF ar(2)] by simp
    show ?thesis
    proof (cases ok2)
      case False
      have run: "replace_set s i a st = Some (False, put_cent a c3 st3)"
        using assms(2) del(1) cr(1) ok1 ar(1) False by (simp add: replace_set_def)
      have "slots (body c3) = (slots (body c2))[i := None]" using ar(5) False i2 by (metis list_update_id)
      with fin [OF ar(4)] have "replaced st s i c c3" by blast
      moreover have "mem st = [] \<longrightarrow> False" using m2 ar(7) False by blast
      ultimately show ?thesis using run entry_stepI [OF f3 ar(2)] by blast
    next
      case ok2: True
      have sl3: "slots (body c3) = (slots (body c2))[i := Some (fresh_set (rs_ttl s) (rs_ts s) ?fl)]" using ar(5) ok2 by simp
      have s3: "slot c3 i = Some (fresh_set (rs_ttl s) (rs_ts s) ?fl)" using sl3 len2 assms(3) by simp
      have tl: "None = (if rs_rrs (fresh_set (rs_ttl s) (rs_ts s) ?fl) = [] then None
          else Some (length (rs_rrs (fresh_set (rs_ttl s) (rs_ts s) ?fl)) - 1))" by (simp add: fresh_set_def)
      have nil: "rs_rrs (fresh_set ttl ts fl) @ ys = ys" for ttl ts fl ys by (simp add: fresh_set_def)
      from add_rrs_spec [OF ar(2) assms(3) s3 tl, of "rs_rrs s" s, unfolded nil] obtain ok3 c4 st4 dn where
        rr: "add_rrs (rs_rrs s) i s None c3 st3 = Some (ok3, c4, st4)" "cok a c4 st4" "frame a st3 st4" "same_head c3 c4"
          "slots (body c4) = (slots (body c3))[i := Some ((fresh_set (rs_ttl s) (rs_ts s) ?fl)\<lparr>rs_rrs := dn\<rparr>)]"
          "ok3 \<longrightarrow> dn = rs_rrs s" "mem st3 = [] \<longrightarrow> ok3" by blast
      have f4: "frame a st st4" by (rule frame_trans [OF f3 rr(3)])
      have h4: "same_head c2 c4" by (rule same_head_trans [OF ar(4) rr(4)])
      have m4: "mem st = [] \<longrightarrow> mem st4 = []" "mem st = [] \<longrightarrow> ok3"
        using frame_no_failure [OF f4] frame_no_failure [OF f3] rr(7) by blast+
      have len4: "length (slots (body c4)) = NRRTOT" using cok_cent_ok [OF rr(2)] by simp
      have sl4: "(slots (body c4))[i := v] = (slots (body c2))[i := v]" for v using rr(5) sl3 by simp
      show ?thesis
      proof (cases ok3)
        case False
        let ?st4 = "put_cent a c4 st4"
        have es: "entry_step a st c4 ?st4" using f4 rr(2) by (rule entry_stepI)
        have "cok a c4 ?st4" "cents ?st4 a = Some c4" using rr(2) by simp_all
        from cleanup_set_spec [OF this assms(3)] obtain st5 where
          cl: "cleanup_set a i ?st4 = Some (False, put_cent a (del_slot c4 i) st5)" "frame a ?st4 st5"
            "cok a (del_slot c4 i) st5" by blast
        have run: "replace_set s i a st = Some (False, put_cent a (del_slot c4 i) st5)"
          using assms(2) del(1) cr(1) ok1 ar(1) ok2 rr(1) False cl(1) by (simp add: replace_set_def)
        have "slots (body (del_slot c4 i)) = (slots (body c2))[i := None]"
          using del_slot_facts(2) [OF cok_cent_ok [OF rr(2)] assms(3)] sl4 by simp
        with fin [OF same_head_trans [OF h4 same_head_del_slot]] have "replaced st s i c (del_slot c4 i)" by blast
        with run entry_step_then [OF es cl(2,3)] m4(2) False show ?thesis by blast
      next
        case ok3: True
        let ?t = "unlk s"
        have s4: "slot c4 i = Some ?t" using rr(5,6) ok3 len3 assms(3) by (simp add: fresh_unlk)
        have qn: "qname c4 = qname c" using same_head_trans [OF h2 h4] by (simp add: same_head_def)
        from link_built_spec [OF assms(1,2) f4 rr(2) qn assms(3) s4] obtain c5 ok4 c' st' l where
          li: "set_slot c4 i (Some (adjust_ttl st4 ?t)) = Some c5" "insert_rrl a (int i) (put_cent a c5 st4) = Some (ok4, st')"
            "entry_step a st c' st'" "same_head c4 c'"
            "slots (body c') = (slots (body c4))[i := Some ((adjust_ttl st4 ?t)\<lparr>rs_lent := l\<rparr>)]" "mem st4 = [] \<longrightarrow> ok4"
          by auto
        have i4: "i < ilim c4" using slot_some_ilim [OF cok_cent_ok [OF rr(2)] assms(3)] s4 by simp
        have R: "RRARR_INDEX c4 i = Some (Some ?t)" using i4 s4 cok_cent_ok [OF rr(2)] by simp
        have adj: "unlk ((adjust_ttl st4 ?t)\<lparr>rs_lent := l\<rparr>) = unlk (adjust_ttl st s)"
          using adjust_ttl_conf [OF same_conf_frame [OF f4], of s] by simp
        have rep: "replaced st s i c c'"
          using fin [OF same_head_trans [OF h4 li(4)] li(5) [unfolded sl4]] adj by blast
        show ?thesis
        proof (cases ok4)
          case True
          then have "replace_set s i a st = Some (True, st')"
            using assms(2) del(1) cr(1) ok1 ar(1) ok2 rr(1) ok3 R li(1,2) by (simp add: replace_set_def)
          with li(3) rep show ?thesis by blast
        next
          case False
          have at: "cok a c' st'" "cents st' a = Some c'" using entry_step_fields(1,7) [OF li(3)] by simp_all
          from cleanup_set_spec [OF this assms(3)] obtain st5 where
            cl: "cleanup_set a i st' = Some (False, put_cent a (del_slot c' i) st5)" "frame a st' st5"
              "cok a (del_slot c' i) st5" by blast
          have run: "replace_set s i a st = Some (False, put_cent a (del_slot c' i) st5)"
            using assms(2) del(1) cr(1) ok1 ar(1) ok2 rr(1) ok3 R li(1,2) False cl(1) by (simp add: replace_set_def)
          have "slots (body (del_slot c' i)) = (slots (body c2))[i := None]"
            using del_slot_facts(2) [OF cok_cent_ok [OF at(1)] assms(3)] li(5) sl4 by simp
          with fin [OF same_head_trans [OF same_head_trans [OF h4 li(4)] same_head_del_slot]]
          have "replaced st s i c (del_slot c' i)" by blast
          with run entry_step_then [OF li(3) cl(2,3)] m4(1) li(6) False show ?thesis by blast
        qed
      qed
    qed
  qed
qed


subsection \<open>Merging an entry into one of the cache\<close>

definition nonlocal_cent :: "dns_cent \<Rightarrow> bool" where
  "nonlocal_cent c \<longleftrightarrow> (\<forall>j < NRRTOT. \<not> local_slot c j)"

text \<open>
  What the merge of \<open>cent\<close> into an entry may do to it: each set is kept, deleted or replaced by the
  adjusted set of \<open>cent\<close>; local sets survive sets that are not local.
\<close>

definition merged :: "cache \<Rightarrow> dns_cent \<Rightarrow> dns_cent \<Rightarrow> dns_cent \<Rightarrow> bool" where
  "merged st cent c c' \<longleftrightarrow> same_head c c' \<and>
     (\<forall>j < NRRTOT. slot c' j = slot c j \<or> slot c' j = None \<or>
        (\<exists>s t. slot cent j = Some s \<and> slot c' j = Some t \<and> unlk t = unlk (adjust_ttl st s))) \<and>
     (nonlocal_cent cent \<longrightarrow> (\<forall>j < NRRTOT. local_slot c j \<longrightarrow> slot c' j = slot c j)) \<and>
     (conflict_free c \<longrightarrow> conflict_free c')"

lemma merged_refl [simp]: "merged st cent c c"
  by (simp add: merged_def)

lemma merged_trans:
  assumes "merged st cent c c1" and "merged st1 cent c1 c2" and "same_conf st st1"
  shows "merged st cent c c2"
proof -
  have a: "adjust_ttl st1 s = adjust_ttl st s" for s using adjust_ttl_conf [OF assms(3)] .
  have "slot c2 j = slot c j \<or> slot c2 j = None \<or>
      (\<exists>s t. slot cent j = Some s \<and> slot c2 j = Some t \<and> unlk t = unlk (adjust_ttl st s))" if "j < NRRTOT" for j
    using assms(1,2) that a unfolding merged_def by metis
  moreover have "slot c2 j = slot c j" if "nonlocal_cent cent" "j < NRRTOT" "local_slot c j" for j
  proof -
    have 1: "slot c1 j = slot c j" using assms(1) that by (simp add: merged_def)
    then have "local_slot c1 j" using that(3) by (simp add: local_slot_def)
    then show ?thesis using assms(2) that(1,2) 1 by (simp add: merged_def)
  qed
  ultimately show ?thesis using assms(1,2) same_head_trans [of c c1 c2] by (simp add: merged_def)
qed

lemma replaced_merged:
  assumes "replaced st s i c c'" and "slot cent i = Some s" and "i < NRRTOT"
    and "\<not> (case slot c i of None \<Rightarrow> False | Some old \<Rightarrow> keeps_old st1 s old)"
  shows "merged st cent c c'"
proof -
  have k: "others_kept i (rs_flags s) c c'" using assms(1) by (simp add: replaced_def)
  have sl: "slot c' j = slot c j \<or> slot c' j = None \<or>
      (\<exists>s t. slot cent j = Some s \<and> slot c' j = Some t \<and> unlk t = unlk (adjust_ttl st s))" if "j < NRRTOT" for j
  proof (cases "j = i")
    case True
    show ?thesis using assms(1,2) True by (cases "slot c' i") (auto simp: replaced_def)
  next
    case False
    then show ?thesis using k that by (auto simp: others_kept_def)
  qed
  have loc: "slot c' j = slot c j" if "nonlocal_cent cent" "j < NRRTOT" "local_slot c j" for j
  proof -
    have nl: "\<not> has (rs_flags s) CF_LOCAL" using that(1) assms(2,3) by (auto simp: nonlocal_cent_def local_slot_def)
    have "j \<noteq> i"
    proof
      assume "j = i"
      with that(3) nl have "case slot c i of None \<Rightarrow> False | Some old \<Rightarrow> keeps_old st1 s old"
        by (auto simp: local_slot_def keeps_old_def)
      with assms(4) show False ..
    qed
    then show ?thesis using k that nl by (auto simp: others_kept_def)
  qed
  show ?thesis using assms(1) sl loc by (simp add: merged_def replaced_def)
qed

lemma merge_sets_spec:
  assumes "core C d st" and "cents st a = Some c" and "cent_ok cent" and "\<forall>i \<in> set is. i < ilim cent"
  shows "\<exists>ok c' st'. merge_sets is cent a st = Some (ok, st') \<and> entry_step a st c' st' \<and> merged st cent c c' \<and>
    (mem st = [] \<longrightarrow> ok)"
  using assms
proof (induction "is" arbitrary: C d c st)
  case Nil
  have "merge_sets [] cent a st = Some (True, st)" by simp
  with entry_step_refl [OF Nil.prems(2) core_cok [OF Nil.prems(1,2)]] show ?case
    by (intro exI [of _ True] exI [of _ c] exI [of _ st]) simp
next
  case (Cons i "is")
  have i: "i < ilim cent" "i < NRRTOT" using Cons.prems(4) ilim_le [of cent] by auto
  have R: "RRARR_INDEX cent i = Some (slot cent i)" using Cons.prems(3) i(1) by simp
  have T: "RRARR_INDEX_TESTEXT c i = Some (slot c i)" using core_cent_ok [OF Cons.prems(1,2)] i(2) by simp
  have rest: "\<forall>i \<in> set is. i < ilim cent" using Cons.prems(4) by simp
  note skip = Cons.IH [OF Cons.prems(1,2,3) rest]
  show ?case
  proof (cases "slot cent i")
    case None
    then have "merge_sets (i # is) cent a st = merge_sets is cent a st" using R by simp
    with skip show ?thesis by simp
  next
    case (Some s)
    show ?thesis
    proof (cases "case slot c i of None \<Rightarrow> False | Some old \<Rightarrow> keeps_old st s old")
      case True
      then have "merge_sets (i # is) cent a st = merge_sets is cent a st" using R T Some Cons.prems(2) by simp
      with skip show ?thesis by simp
    next
      case False
      from replace_set_spec [OF Cons.prems(1,2) i(2), of s] obtain ok c1 st1 where
        r: "replace_set s i a st = Some (ok, st1)" "entry_step a st c1 st1" "replaced st s i c c1" "mem st = [] \<longrightarrow> ok"
        by blast
      have m: "merged st cent c c1" by (rule replaced_merged [OF r(3) Some i(2) False])
      have run: "merge_sets (i # is) cent a st = (if ok then merge_sets is cent a st1 else Some (False, st1))"
        using R T Some False Cons.prems(2) r(1) by simp
      note f = entry_step_fields [OF r(2)]
      show ?thesis
      proof (cases ok)
        case False
        with run have "merge_sets (i # is) cent a st = Some (False, st1)" by simp
        with r(2,4) m False show ?thesis by blast
      next
        case True
        have "qname c1 = qname c" using r(3) by (simp add: replaced_def same_head_def)
        from core_entry_step [OF Cons.prems(1,2) r(2) this] obtain d1 where c1: "core C d1 st1" by blast
        have "cents st1 a = Some c1" using f(1) by simp
        from Cons.IH [OF c1 this Cons.prems(3) rest] obtain ok' c' st' where
          IH: "merge_sets is cent a st1 = Some (ok', st')" "entry_step a st1 c' st'" "merged st1 cent c1 c'"
            "mem st1 = [] \<longrightarrow> ok'" by blast
        have "mem st = [] \<longrightarrow> mem st1 = []" using f(6) by (simp add: same_conf_def)
        with IH run True entry_step_trans [OF r(2) IH(2)] merged_trans [OF m IH(3) f(6)] show ?thesis by auto
      qed
    qed
  qed
qed

subsection \<open>Linking a new entry\<close>

text \<open>The record sets of a new entry, as they are stored: adjusted.\<close>

definition adjusted_slots :: "cache \<Rightarrow> nat set \<Rightarrow> dns_cent \<Rightarrow> dns_cent \<Rightarrow> bool" where
  "adjusted_slots st I c c' \<longleftrightarrow> (\<forall>j < NRRTOT. map_option unlk (slot c' j) =
     map_option (\<lambda>s. unlk (if j \<in> I then adjust_ttl st s else s)) (slot c j))"

lemma link_sets_spec:
  assumes "core C d st" and "cents st a = Some c" and "\<forall>i \<in> set is. i < ilim c" and "distinct is"
    and "\<forall>i \<in> set is. \<not> linked (slot c i)"
  shows "\<exists>ok c' st'. link_sets is a st = Some (ok, st') \<and> entry_step a st c' st' \<and> same_head c c' \<and> cs c' = cs c \<and>
    (ok \<longrightarrow> adjusted_slots st (set is) c c') \<and> (mem st = [] \<longrightarrow> ok)"
  using assms
proof (induction "is" arbitrary: d c st)
  case Nil
  have "link_sets [] a st = Some (True, st)" by simp
  with entry_step_refl [OF Nil.prems(2) core_cok [OF Nil.prems(1,2)]] show ?case
    by (intro exI [of _ True] exI [of _ c] exI [of _ st]) (simp add: adjusted_slots_def)
next
  case (Cons i "is")
  note c = core_cok [OF Cons.prems(1,2)]
  note ok = cok_cent_ok [OF c]
  have i: "i < ilim c" "i < NRRTOT" using Cons.prems(3) ilim_le [of c] by auto
  have R: "RRARR_INDEX c i = Some (slot c i)" using ok i(1) by simp
  have rest: "\<forall>i \<in> set is. i < ilim c" "distinct is" "\<forall>i \<in> set is. \<not> linked (slot c i)" "i \<notin> set is"
    using Cons.prems(3-5) by auto
  show ?case
  proof (cases "slot c i")
    case None
    have "adjusted_slots st (set (i # is)) c c' = adjusted_slots st (set is) c c'" for c'
    proof -
      have "map_option (\<lambda>s. unlk (if j \<in> set (i # is) then adjust_ttl st s else s)) (slot c j) =
          map_option (\<lambda>s. unlk (if j \<in> set is then adjust_ttl st s else s)) (slot c j)" for j
        using None by (cases "j = i") simp_all
      then show ?thesis by (simp only: adjusted_slots_def)
    qed
    with Cons.IH [OF Cons.prems(1,2) rest(1-3)] None R Cons.prems(2) show ?thesis by simp
  next
    case (Some s)
    have nl: "rs_lent s = None" using Cons.prems(5) Some by (cases "rs_lent s") (auto simp: linked_def)
    from link_built_spec [OF Cons.prems(1,2) frame_refl c refl i(2) Some nl] obtain c5 ok1 c1 st1 l where
      li: "set_slot c i (Some (adjust_ttl st s)) = Some c5" "insert_rrl a (int i) (put_cent a c5 st) = Some (ok1, st1)"
        "entry_step a st c1 st1" "same_head c c1"
        "slots (body c1) = (slots (body c))[i := Some ((adjust_ttl st s)\<lparr>rs_lent := l\<rparr>)]" "ilim c1 = ilim c" "cs c1 = cs c"
        "mem st = [] \<longrightarrow> ok1" by blast
    have run: "link_sets (i # is) a st = (if ok1 then link_sets is a st1 else Some (False, st1))"
      using R Some Cons.prems(2) li(1,2) by simp
    note f = entry_step_fields [OF li(3)]
    show ?thesis
    proof (cases ok1)
      case False
      with run have "link_sets (i # is) a st = Some (False, st1)" by simp
      with li(3,4,7,8) False show ?thesis by blast
    next
      case True
      have "qname c1 = qname c" using li(4) by (simp add: same_head_def)
      from core_entry_step [OF Cons.prems(1,2) li(3) this] obtain d1 where c1: "core C d1 st1" by blast
      have at: "cents st1 a = Some c1" using f(1) by simp
      have sl1: "slot c1 j = (if j = i then Some ((adjust_ttl st s)\<lparr>rs_lent := l\<rparr>) else slot c j)" if "j < NRRTOT" for j
        using li(5) that ok by simp
      have lk: "\<forall>j \<in> set is. \<not> linked (slot c1 j)"
        using rest sl1 ilim_le [of c] by (metis order_less_le_trans)
      have lim: "\<forall>j \<in> set is. j < ilim c1" using rest(1) li(6) by simp
      from Cons.IH [OF c1 at lim rest(2) lk] obtain ok' c' st' where
        IH: "link_sets is a st1 = Some (ok', st')" "entry_step a st1 c' st'" "same_head c1 c'" "cs c' = cs c1"
          "ok' \<longrightarrow> adjusted_slots st1 (set is) c1 c'" "mem st1 = [] \<longrightarrow> ok'" by blast
      have adj: "adjust_ttl st1 u = adjust_ttl st u" for u by (rule adjust_ttl_conf [OF f(6)])
      have "adjusted_slots st1 (set is) c1 c' \<longrightarrow> adjusted_slots st (set (i # is)) c c'"
        unfolding adjusted_slots_def adj using sl1 Some rest(4) by auto
      moreover have "mem st = [] \<longrightarrow> mem st1 = []" using f(6) by (simp add: same_conf_def)
      moreover have "same_head c c'" by (rule same_head_trans [OF li(4) IH(3)])
      ultimately show ?thesis using IH run True entry_step_trans [OF li(3) IH(2)] li(7) by auto
    qed
  qed
qed

end
