(* ===== verification/Cache_Add_All.thy ===== *)
theory Cache_Add_All
  imports Cache_Add
begin

text \<open>
  \<open>add_cache\<close>: whatever allocation fails, it keeps the invariant of the cache; it never removes
  local data in favour of data that is not local.
\<close>

subsection \<open>Allocating and discarding an entry\<close>

definition with_new :: "nat \<Rightarrow> dns_cent \<Rightarrow> cache \<Rightarrow> cache" where
  "with_new a ce st = (put_cent a ce st)\<lparr>next_addr := a + 1\<rparr>"

lemma with_new_fields [simp]:
  "cents (with_new a ce st) = (cents st)(a \<mapsto> ce)" "next_addr (with_new a ce st) = a + 1"
  "hashtab (with_new a ce st) = hashtab st" "rrset_l (with_new a ce st) = rrset_l st"
  "cache_size (with_new a ce st) = cache_size st" "ent_num (with_new a ce st) = ent_num st"
  "mem (with_new a ce st) = mem st" "insert_sort (with_new a ce st) = insert_sort st"
  by (simp_all add: with_new_def)

lemma cok_with_new [simp]: "cok b c (with_new a ce st) = cok b c st"
  by (simp add: cok_def)

lemma same_conf_with_new [simp]: "same_conf st (with_new a ce st') = same_conf st st'"
  by (simp add: with_new_def)

lemma core_mine_fresh: "core C d st \<Longrightarrow> mine (next_addr st) (rrset_l st) = {}"
  using core_fresh [of C d st] by (auto simp: core_def heap_ok_def mine_def)

lemma core_alloc:
  assumes "core C d st" and "cent_ok ce" and "detached ce"
  shows "core C d (with_new (next_addr st) ce st)" and "cok (next_addr st) ce st"
proof -
  let ?a = "next_addr st" and ?st = "with_new (next_addr st) ce st"
  have h: "heap_ok st" "table_ok st" "C \<subseteq> dom (cents st)" using assms(1) by (simp_all add: core_def)
  have d: "distinct (rrset_l st)" using h(1) by (simp add: heap_ok_def)
  show new: "cok ?a ce st" by (rule detached_cok [OF assms(2,3) d core_mine_fresh [OF assms(1)]])
  have "heap_ok ?st" using h(1) new by (auto simp: heap_ok_def)
  moreover have fresh: "?a \<notin> dom (cents st)" using core_fresh [OF assms(1)] by auto
  have "hash_ok (qname_at ?st) (hashtab st)"
  proof (rule hash_ok_cong)
    show "hash_ok (qname_at st) (hashtab st)" using h(2) by (simp add: table_ok_def)
    show "qname_at ?st b = qname_at st b" if "b \<in> hash_data (hashtab st)" for b
      using that h(2) fresh by (auto simp: table_ok_def qname_at_def)
  qed
  then have "table_ok ?st" using h(2) by (auto simp: table_ok_def)
  moreover have "total C ?st = total C st"
    unfolding total_def using h(3) fresh by (intro sum.cong) auto
  ultimately show "core C d ?st" using assms(1) h(3) by (auto simp: core_def)
qed

lemma discard_copy_spec:
  assumes "core C d st" and "cents st a = Some c" and "a \<notin> C" and "a \<notin> hash_data (hashtab st)"
  shows "\<exists>st'. discard_copy a st = Some st' \<and> core C d st' \<and> cents st' = (cents st)(a := None) \<and>
    hashtab st' = hashtab st \<and> same_conf st st'"
proof -
  let ?st = "st\<lparr>rrset_l := others a (rrset_l st), cents := (cents st)(a := None)\<rparr>"
  have "discard_copy a st = Some ?st"
    using assms(2) free_cent_spec [OF core_cok [OF assms(1,2)]] by (simp add: discard_copy_def)
  moreover have "heap_ok ?st" "table_ok ?st"
    using assms(1,4) by (auto simp: core_def free_entry_heap free_entry_table)
  moreover have "total C ?st = total C st" unfolding total_def using assms(3) by (intro sum.cong) auto
  moreover have "C \<subseteq> dom (cents ?st)" using assms(1,3) by (auto simp: core_def)
  moreover have "same_conf st ?st" by (simp add: same_conf_def)
  ultimately show ?thesis using assms(1) by (auto simp: core_def)
qed

text \<open>A step on an entry adds at most an element for each of its sets to the list.\<close>

lemma card_lents_of: "card (lents_of a c) \<le> NRRTOT"
proof (cases "is_neg (body c)")
  case True
  then have "lents_of a c \<subseteq> {(a, -1)}" by (auto simp: lents_of_def neg_slot split: cent_body.splits option.splits)
  then have "card (lents_of a c) \<le> card {(a, - 1 :: int)}" by (intro card_mono) simp_all
  then show ?thesis by (simp add: nrr_defs)
next
  case False
  have "lents_of a c \<subseteq> (\<lambda>i. (a, int i)) ` {..<NRRTOT}" using False by (auto simp: lents_of_recs)
  then have "card (lents_of a c) \<le> card ((\<lambda>i. (a, int i)) ` {..<NRRTOT})" by (intro card_mono) simp_all
  also have "\<dots> \<le> card {..<NRRTOT}" by (rule card_image_le) simp
  finally show ?thesis by simp
qed

lemma length_entry_step:
  assumes "entry_step a st c' st'"
  shows "length (rrset_l st') \<le> length (others a (rrset_l st)) + NRRTOT"
proof -
  note f = entry_step_fields [OF assms]
  have "mine a (rrset_l st') = set (filter (\<lambda>le. fst le = a) (rrset_l st'))" by (simp add: mine_def)
  moreover have "distinct (rrset_l st')" using f(7) by (simp add: cok_def)
  ultimately have "card (mine a (rrset_l st')) = length (filter (\<lambda>le. fst le = a) (rrset_l st'))"
    by (metis distinct_card distinct_filter)
  moreover have "mine a (rrset_l st') = lents_of a c'" using f(7) by (simp add: cok_def)
  ultimately have m: "length (filter (\<lambda>le. fst le = a) (rrset_l st')) \<le> NRRTOT" using card_lents_of [of a c'] by simp
  have "length (rrset_l st') = length (filter (\<lambda>le. fst le = a) (rrset_l st')) + length (others a (rrset_l st'))"
    unfolding others_def by (rule sum_length_filter_compl [symmetric])
  then show ?thesis using m f(9) by simp
qed

lemma length_others_le: "length (others a l) \<le> length l"
  by (simp add: others_def)


subsection \<open>A name that is not in the cache\<close>

text \<open>The entry \<open>c'\<close> of the cache holds what the new entry \<open>c\<close> holds, with adjusted times to live.\<close>

definition stored_as :: "cache \<Rightarrow> dns_cent \<Rightarrow> dns_cent \<Rightarrow> bool" where
  "stored_as st c c' \<longleftrightarrow> qname c' = qname c \<and> cs c' = cs c \<and> c_ns c' = c_ns c \<and> c_soa c' = c_soa c \<and>
     adjusted_slots st UNIV c c' \<and>
     (\<forall>l ttl ts. body c = Neg l ttl ts \<longrightarrow>
        (\<exists>l'. body c' = Neg l' (if has (ce_flags c) DF_NOCACHE then 0 else adjusted st True ttl) ts))"

lemma has_clear_nocache: "has (fl AND NOT DF_NOCACHE) DF_NEGATIVE = has fl DF_NEGATIVE"
  by (rule has_clear) (simp add: df_defs)

lemma adjust_dom_spec:
  assumes "cok a c st" and "detached c" and "body c = Neg l ttl ts"
  shows "\<exists>c1. adjust_dom_ttl st c = Some c1 \<and> cok a c1 st \<and>
    body c1 = Neg None (if has (ce_flags c) DF_NOCACHE then 0 else adjusted st True ttl) ts \<and>
    qname c1 = qname c \<and> cs c1 = cs c \<and> c_ns c1 = c_ns c \<and> c_soa c1 = c_soa c"
proof -
  have ok: "cent_ok c" using assms(1) by (rule cok_cent_ok)
  have l: "l = None" using assms(2,3) ok by (simp add: detached_iff cent_ok_def)
  have m: "mine a (rrset_l st) = {}" "distinct (rrset_l st)" using assms(1,2) by (simp_all add: cok_def detached_def)
  have cok1: "cok a c1 st" if "cent_ok c1" "body c1 = Neg None t ts" for c1 t
    using that m by (intro detached_cok) (auto simp: detached_def lents_of_def)
  show ?thesis
  proof (cases "has (ce_flags c) DF_NOCACHE")
    case True
    let ?c = "c\<lparr>ce_flags := ce_flags c AND NOT DF_NOCACHE, body := Neg l 0 ts\<rparr>"
    have "cent_ok ?c" using ok assms(3) by (simp add: cent_ok_def ext_size_def has_clear_nocache)
    with True assms(3) l cok1 [of ?c 0] show ?thesis by (intro exI [of _ ?c]) (simp add: adjust_dom_ttl_def)
  next
    case False
    let ?c = "c\<lparr>body := Neg l (adjusted st True ttl) ts\<rparr>"
    have "cent_ok ?c" using ok assms(3) by (simp add: cent_ok_def ext_size_def)
    with False assms(3) l cok1 [of ?c] show ?thesis by (intro exI [of _ ?c]) (simp add: adjust_dom_ttl_def)
  qed
qed

text \<open>The part of \<open>add_new\<close> that links the copy.\<close>

definition link_new :: "nat \<Rightarrow> dns_cent \<Rightarrow> cache \<Rightarrow> (bool \<times> cache) option" where
  "link_new a ce st =
     (if \<not> has (ce_flags ce) DF_NEGATIVE then do { ilim \<leftarrow> RRARR_LEN ce; link_sets [0..<ilim] a st }
      else do { ce1 \<leftarrow> adjust_dom_ttl st ce; insert_rrl a (-1) (put_cent a ce1 st) })"

lemma link_new_neg:
  assumes "core C d st" and "cents st a = Some ce" and "detached ce" and "body ce = Neg l ttl ts"
  shows "\<exists>ok ce' st'. link_new a ce st = Some (ok, st') \<and> entry_step a st ce' st' \<and>
    (ok \<longrightarrow> stored_as st ce ce') \<and> qname ce' = qname ce \<and> (mem st = [] \<longrightarrow> ok)"
proof -
  note c = core_cok [OF assms(1,2)]
  let ?ttl = "if has (ce_flags ce) DF_NOCACHE then 0 else adjusted st True ttl"
  from adjust_dom_spec [OF c assms(3,4)] obtain c1 where c1: "adjust_dom_ttl st ce = Some c1" "cok a c1 st"
    "body c1 = Neg None ?ttl ts" "qname c1 = qname ce" "cs c1 = cs ce" "c_ns c1 = c_ns ce" "c_soa c1 = c_soa ce" by blast
  let ?st1 = "put_cent a c1 st"
  have es: "entry_step a st c1 ?st1" using c1(2) by (intro entry_stepI) simp_all
  from core_entry_step [OF assms(1,2) es c1(4)] obtain d1 where core1: "core C d1 ?st1" by blast
  have "lents_of a c1 = mine a (rrset_l ?st1)" using c1(2) by (simp add: cok_def)
  moreover have "(a, -1) \<notin> lents_of a c1" using c1(3) by (simp add: lents_of_def)
  ultimately have nin: "(a, -1) \<notin> set (rrset_l ?st1)" by (auto simp: mine_def)
  have at: "cents ?st1 a = Some c1" by simp
  from insert_rrl_neg_spec [OF core1 at c1(3) nin] obtain ok c' st' l' where
    r: "insert_rrl a (-1) ?st1 = Some (ok, st')" "entry_step a ?st1 c' st'" "c' = c1\<lparr>body := Neg l' ?ttl ts\<rparr>"
      "mem ?st1 = [] \<longrightarrow> ok" by blast
  have "has (ce_flags ce) DF_NEGATIVE" using cok_cent_ok [OF c] assms(4) by (simp add: cent_ok_def)
  then have "link_new a ce st = Some (ok, st')" using c1(1) r(1) by (simp add: link_new_def)
  moreover have "adjusted_slots st UNIV ce c'" using assms(4) r(3) by (simp add: adjusted_slots_def)
  then have "stored_as st ce c'" using r(3) c1(4-7) assms(4) by (simp add: stored_as_def)
  moreover have "qname c' = qname ce" using r(3) c1(4) by simp
  ultimately show ?thesis using entry_step_trans [OF es r(2)] r(4) by auto
qed

lemma link_new_recs:
  assumes "core C d st" and "cents st a = Some ce" and "detached ce" and "\<not> is_neg (body ce)"
  shows "\<exists>ok ce' st'. link_new a ce st = Some (ok, st') \<and> entry_step a st ce' st' \<and>
    (ok \<longrightarrow> stored_as st ce ce') \<and> qname ce' = qname ce \<and> (mem st = [] \<longrightarrow> ok)"
proof -
  have ok: "cent_ok ce" by (rule core_cent_ok [OF assms(1,2)])
  have nl: "\<forall>i < NRRTOT. \<not> linked (slot ce i)" using assms(3) ok by (simp add: detached_iff cent_ok_def)
  have "\<forall>i \<in> set [0..<ilim ce]. i < ilim ce" "\<forall>i \<in> set [0..<ilim ce]. \<not> linked (slot ce i)"
    using nl ilim_le [of ce] by auto
  from link_sets_spec [OF assms(1,2) this(1) distinct_upt this(2)] obtain r c' st' where
    l: "link_sets [0..<ilim ce] a st = Some (r, st')" "entry_step a st c' st'" "same_head ce c'" "cs c' = cs ce"
      "r \<longrightarrow> adjusted_slots st (set [0..<ilim ce]) ce c'" "mem st = [] \<longrightarrow> r" by blast
  have "\<not> has (ce_flags ce) DF_NEGATIVE" using ok assms(4) by (simp add: cent_ok_def)
  then have "link_new a ce st = Some (r, st')" using ok l(1) by (simp add: link_new_def)
  moreover have "adjusted_slots st (set [0..<ilim ce]) ce c' \<Longrightarrow> adjusted_slots st UNIV ce c'"
    unfolding adjusted_slots_def
  proof (intro allI impI)
    fix j assume j: "j < NRRTOT" and a: "\<forall>j < NRRTOT. map_option unlk (slot c' j) =
        map_option (\<lambda>s. unlk (if j \<in> set [0..<ilim ce] then adjust_ttl st s else s)) (slot ce j)"
    show "map_option unlk (slot c' j) = map_option (\<lambda>s. unlk (if j \<in> UNIV then adjust_ttl st s else s)) (slot ce j)"
    proof (cases "j < ilim ce")
      case True
      with a j show ?thesis by simp
    next
      case False
      then have "slot ce j = None" using slot_beyond [OF ok _ j] by simp
      with a j show ?thesis by simp
    qed
  qed
  moreover have "body ce \<noteq> Neg l ttl ts" for l ttl ts using assms(4) by auto
  ultimately show ?thesis using l(2-6) by (auto simp: stored_as_def same_head_def)
qed

lemma link_new_spec:
  assumes "core C d st" and "cents st a = Some ce" and "detached ce"
  shows "\<exists>ok ce' st'. link_new a ce st = Some (ok, st') \<and> entry_step a st ce' st' \<and>
    (ok \<longrightarrow> stored_as st ce ce') \<and> qname ce' = qname ce \<and> (mem st = [] \<longrightarrow> ok)"
  using link_new_recs [OF assms] link_new_neg [OF assms] by (cases "body ce") simp_all


text \<open>Entering a linked copy into the hash table.\<close>

definition entered :: "nat \<Rightarrow> hash_table \<Rightarrow> dns_cent \<Rightarrow> cache \<Rightarrow> cache" where
  "entered a ht c st = st\<lparr>hashtab := ht, ent_num := ent_num st + 1, cache_size := cache_size st + cs c\<rparr>"

lemma entered_fields [simp]:
  "cents (entered a ht c st) = cents st" "hashtab (entered a ht c st) = ht" "rrset_l (entered a ht c st) = rrset_l st"
  "cache_size (entered a ht c st) = cache_size st + cs c" "same_conf st0 (entered a ht c st) = same_conf st0 st"
  by (simp_all add: entered_def)

lemma enter_spec:
  assumes "core C 0 st" and "hash_data (hashtab st) = C" and "cents st a = Some c" and "a \<notin> C"
    and "dom (cents st) = insert a C" and "qname c = enc nm" and "dns_name nm"
    and "insert_loc (hashtab st) nm loc" and "\<forall>d. \<not> stored (qname_at st) (hashtab st) nm d"
  shows "\<exists>ht. add_dns_hash (hashtab st) a loc True = Some (True, ht) \<and> cache_inv (entered a ht c st)"
proof -
  have h: "hash_ok (qname_at st) (hashtab st)" "heap_ok st" using assms(1) by (simp_all add: core_def table_ok_def)
  have n: "a \<notin> hash_data (hashtab st)" using assms(2,4) by simp
  have q: "qname_at st a = Some (enc nm)" using assms(3,6) by (simp add: qname_at_def)
  from add_dns_hash_spec [OF h(1) assms(7,8,9) n q assms(7) refl] obtain ht where
    ht: "add_dns_hash (hashtab st) a loc True = Some (True, ht)" "hash_ok (qname_at st) ht"
      "hash_data ht = insert a (hash_data (hashtab st))" by blast
  let ?st = "entered a ht c st"
  have fin: "finite C" by (rule core_finite_C [OF assms(1)])
  have "qname_at ?st = qname_at st" by (rule qname_at_eq) simp
  then have "table_ok ?st" using ht(2,3) assms(2,5) by (simp add: table_ok_def)
  moreover have "heap_ok ?st" using h(2) by (simp add: heap_ok_def entered_def)
  moreover have "total (insert a C) ?st = cs c + total C st"
    using fin assms(3,4) by (simp add: total_def)
  ultimately have "cache_inv ?st"
    using assms(1,2,4,5) ht(3) fin by (simp add: cache_inv_def core_def entered_def)
  with ht(1) show ?thesis by blast
qed

text \<open>\<open>add_new\<close> in terms of these parts.\<close>

lemma add_new_unfold:
  "add_new cent loc st =
     (if num_rrs cent = 0 \<and> \<not> has (ce_flags cent) DF_NEGATIVE then purge_cache (purge_limit st) True st
      else do {
        (cp, st1) \<leftarrow> copy_cent cent st;
        case cp of None \<Rightarrow> Some st1
        | Some ce \<Rightarrow> do {
            let a = next_addr st1;
            (ok, st3) \<leftarrow> link_new a ce (with_new a ce st1);
            if \<not> ok then discard_copy a st3
            else do {
              let (ok', st4) = malloc st3;
              (added, ht) \<leftarrow> add_dns_hash (hashtab st4) a loc ok';
              if \<not> added then discard_copy a st4
              else do {
                ce2 \<leftarrow> cents st4 a;
                let st5 = entered a ht ce2 st4;
                purge_cache (purge_limit st5) True st5
              }
            }
          }
      })"
  by (simp add: add_new_def link_new_def with_new_def entered_def Let_def cong: if_cong option.case_cong)


lemma stored_as_detach:
  assumes "stored_as st2 (detach c) c'" and "same_conf st st2" and "cent_ok c"
  shows "stored_as st c c'"
proof -
  have a: "adjust_ttl st2 s = adjust_ttl st s" for s using adjust_ttl_conf [OF assms(2)] .
  have "adjusted st2 b t = adjusted st b t" for b t using assms(2) by (simp add: adjusted_def same_conf_def Let_def)
  moreover have "slot (detach c) j = map_option unlk (slot c j)" if "j < NRRTOT" for j
    using that assms(3) by (simp add: detach_def slots_detach)
  then have "adjusted_slots st2 UNIV (detach c) c' = adjusted_slots st UNIV c c'"
    by (simp add: adjusted_slots_def a option.map_comp comp_def cong: option.map_cong)
  moreover have "qname (detach c) = qname c" "cs (detach c) = cs c" "c_ns (detach c) = c_ns c" "c_soa (detach c) = c_soa c"
    "ce_flags (detach c) = ce_flags c" "body c = Neg l ttl ts \<Longrightarrow> body (detach c) = Neg None ttl ts" for l ttl ts
    by (simp_all add: detach_def)
  ultimately show ?thesis using assms(1) by (auto simp: stored_as_def)
qed

text \<open>The outcomes of adding a new name: nothing but purging happens, or the entry is entered first.\<close>

definition not_entered :: "cache \<Rightarrow> cache \<Rightarrow> bool" where
  "not_entered st st' \<longleftrightarrow> cache_inv st' \<and> pur st st'"

definition was_entered :: "dns_cent \<Rightarrow> cache \<Rightarrow> cache \<Rightarrow> bool" where
  "was_entered cent st st' \<longleftrightarrow> (\<exists>a c st5. cents st a = None \<and> cents st5 = (cents st)(a \<mapsto> c) \<and> stored_as st cent c \<and>
     cache_size st5 = cache_size st + cs cent \<and> same_conf st st5 \<and> cache_inv st5 \<and>
     purge_cache (purge_limit st5) True st5 = Some st' \<and> cache_inv st' \<and> pur st5 st')"

lemma cache_inv_back:
  assumes "core (dom (cents st)) 0 st'" and "cents st' = cents st" and "hashtab st' = hashtab st" and "cache_inv st"
    and "same_conf st st'"
  shows "not_entered st st'"
  using assms pur_fields [OF assms(2,5)] by (simp add: not_entered_def cache_inv_def)

lemma finish_new:
  assumes "cache_inv st" and "qname cent = enc nm" and "dns_name nm" and "cent_ok cent"
    and "insert_loc (hashtab st) nm loc" and "\<forall>d. \<not> stored (qname_at st) (hashtab st) nm d"
    and "length (rrset_l st) + NRRTOT < 2 ^ NTMPSORT"
    and "core (dom (cents st)) 0 st3" and "a = next_addr st" and "cents st3 = (cents st)(a \<mapsto> c)" and "hashtab st3 = hashtab st"
    and "same_conf st st3" and "stored_as st cent c" and "cache_size st3 = cache_size st"
    and "length (rrset_l st3) \<le> length (rrset_l st) + NRRTOT"
  shows "\<exists>st'. (let (ok', st4) = malloc st3 in do {
        (added, ht) \<leftarrow> add_dns_hash (hashtab st4) a loc ok';
        if \<not> added then discard_copy a st4
        else do { ce2 \<leftarrow> cents st4 a; let st5 = entered a ht ce2 st4; purge_cache (purge_limit st5) True st5 }
      }) = Some st' \<and> (not_entered st st' \<or> was_entered cent st st') \<and> (mem st = [] \<longrightarrow> was_entered cent st st')"
proof -
  have fresh: "cents st a = None" "a \<notin> dom (cents st)"
    using core_fresh [OF cache_inv_core [OF assms(1)]] assms(9) by auto
  have hd: "hash_data (hashtab st3) = dom (cents st)" using assms(1,11) by (simp add: cache_inv_def)
  obtain ok m where m: "malloc st3 = (ok, st3\<lparr>mem := m\<rparr>)" "mem st3 = [] \<longrightarrow> ok \<and> m = []" using malloc_step by blast
  let ?st4 = "st3\<lparr>mem := m\<rparr>"
  have core4: "core (dom (cents st)) 0 ?st4" using assms(8) by simp
  have at: "cents ?st4 a = Some c" using assms(10) by simp
  have sc: "same_conf st ?st4" using assms(12) m(2) by (auto simp: same_conf_def)
  show ?thesis
  proof (cases ok)
    case False
    have an: "a \<notin> hash_data (hashtab ?st4)" using hd fresh(2) by simp
    from discard_copy_spec [OF core4 at fresh(2) an] obtain st' where
      d: "discard_copy a ?st4 = Some st'" "core (dom (cents st)) 0 st'" "cents st' = (cents ?st4)(a := None)"
        "hashtab st' = hashtab ?st4" "same_conf ?st4 st'" by blast
    have "cents st' = cents st" using d(3) assms(10) fresh(1) by (simp add: fun_upd_idem)
    moreover have "hashtab st' = hashtab st" using d(4) assms(11) by simp
    ultimately have "not_entered st st'" using cache_inv_back [OF d(2)] assms(1) same_conf_trans [OF sc d(5)] by blast
    moreover have "mem st \<noteq> []" using m(2) False assms(12) by (auto simp: same_conf_def)
    ultimately show ?thesis using m(1) False d(1) by (simp add: add_dns_hash_def)
  next
    case True
    have il: "insert_loc (hashtab ?st4) nm loc" using assms(5,11) by simp
    have eqn: "qname_at ?st4 d = qname_at st d" if "d \<in> dom (cents st)" for d
      using that fresh assms(10) by (auto simp: qname_at_def)
    have ns: "\<forall>d. \<not> stored (qname_at ?st4) (hashtab ?st4) nm d"
    proof
      fix d
      have "stored (qname_at ?st4) (hashtab ?st4) nm d \<Longrightarrow> stored (qname_at st) (hashtab st) nm d"
        using hd eqn [of d] assms(11) by (auto simp: stored_def names_def)
      with assms(6) show "\<not> stored (qname_at ?st4) (hashtab ?st4) nm d" by blast
    qed
    have dm: "dom (cents ?st4) = insert a (dom (cents st))" using assms(10) by simp
    have qn: "qname c = enc nm" "cs c = cs cent" using assms(2,13) by (simp_all add: stored_as_def)
    have hd4: "hash_data (hashtab ?st4) = dom (cents st)" using hd by simp
    from enter_spec [OF core4 hd4 at fresh(2) dm qn(1) assms(3) il ns] obtain ht where
      ht: "add_dns_hash (hashtab ?st4) a loc True = Some (True, ht)" "cache_inv (entered a ht c ?st4)" by blast
    let ?st5 = "entered a ht c ?st4"
    have "length (rrset_l ?st5) < 2 ^ NTMPSORT" using assms(7,15) by simp
    from purge_cache_spec [OF ht(2) this, of "purge_limit ?st5" True] obtain st' where
      p: "purge_cache (purge_limit ?st5) True ?st5 = Some st'" "cache_inv st'" "pur ?st5 st'" by blast
    have "was_entered cent st st'"
      unfolding was_entered_def using fresh(1) assms(10,13,14) qn(2) sc ht(2) p
      by (intro exI [of _ a] exI [of _ c] exI [of _ ?st5]) simp
    with m(1) True ht(1) p(1) at show ?thesis by (simp add: Let_def)
  qed
qed

lemma add_new_spec:
  assumes "cache_inv st" and "qname cent = enc nm" and "dns_name nm" and "cent_ok cent" and "detached cent"
    and "insert_loc (hashtab st) nm loc" and "\<forall>d. \<not> stored (qname_at st) (hashtab st) nm d"
    and "length (rrset_l st) + NRRTOT < 2 ^ NTMPSORT"
  shows "\<exists>st'. add_new cent loc st = Some st' \<and> (not_entered st st' \<or> was_entered cent st st') \<and>
    (mem st = [] \<and> (num_rrs cent \<noteq> 0 \<or> is_neg (body cent)) \<longrightarrow> was_entered cent st st')"
proof -
  note core = cache_inv_core [OF assms(1)]
  have len: "length (rrset_l st) < 2 ^ NTMPSORT" using assms(8) by simp
  have neg: "has (ce_flags cent) DF_NEGATIVE = is_neg (body cent)" using assms(4) by (simp add: cent_ok_def)
  show ?thesis
  proof (cases "num_rrs cent = 0 \<and> \<not> has (ce_flags cent) DF_NEGATIVE")
    case True
    from purge_cache_spec [OF assms(1) len, of "purge_limit st" True] True neg show ?thesis
      by (auto simp: add_new_unfold not_entered_def)
  next
    case False
    from copy_cent_spec [OF assms(4), of st] obtain r m where
      cp: "copy_cent cent st = Some (r, st\<lparr>mem := m\<rparr>)" "r = None \<or> r = Some (detach cent)" "mem st = [] \<longrightarrow> r \<noteq> None \<and> m = []"
      by blast
    let ?st1 = "st\<lparr>mem := m\<rparr>" and ?a = "next_addr st"
    have sc1: "same_conf st ?st1" using cp(3) by (auto simp: same_conf_def)
    show ?thesis
    proof (cases "r = None")
      case True
      then have "add_new cent loc st = Some ?st1" using False cp(1) unfolding add_new_unfold by (simp only: if_False) simp
      moreover have "not_entered st ?st1" using cache_inv_back [of st ?st1] core assms(1) sc1 by simp
      ultimately show ?thesis using cp(3) True by auto
    next
      case some: False
      let ?ce = "detach cent" and ?st2 = "with_new ?a (detach cent) ?st1"
      have bok: "body_ok (body cent)" using assms(4) by (simp add: cent_ok_def)
      have core1: "core (dom (cents st)) 0 ?st1" "next_addr ?st1 = ?a" using core by simp_all
      from core_alloc(1) [OF core1(1) cent_ok_detach [OF assms(4)] detached_detach [OF bok]]
      have core2: "core (dom (cents st)) 0 ?st2" unfolding core1(2) .
      have "cents ?st2 ?a = Some ?ce" by simp
      from link_new_spec [OF core2 this detached_detach [OF bok]] obtain ok c st3 where
        l: "link_new ?a ?ce ?st2 = Some (ok, st3)" "entry_step ?a ?st2 c st3" "ok \<longrightarrow> stored_as ?st2 ?ce c"
          "qname c = qname ?ce" "mem ?st2 = [] \<longrightarrow> ok" by blast
      have sc2: "same_conf st ?st2" using sc1 by simp
      note f = entry_step_fields [OF l(2)]
      have sc3: "same_conf st st3" by (rule same_conf_trans [OF sc2 f(6)])
      have fresh: "?a \<notin> dom (cents st)" "cents st ?a = None" using core_fresh [OF core] by auto
      from core_entry_step [OF core2 _ l(2,4)] fresh have core3: "core (dom (cents st)) 0 st3" by simp
      have c3: "cents st3 = (cents st)(?a \<mapsto> c)" using f(1) by simp
      have ht3: "hashtab st3 = hashtab st" using f(2) by simp
      have run: "add_new cent loc st = (if \<not> ok then discard_copy ?a st3
          else (let (ok', st4) = malloc st3 in do {
        (added, ht) \<leftarrow> add_dns_hash (hashtab st4) ?a loc ok';
        if \<not> added then discard_copy ?a st4
        else do { ce2 \<leftarrow> cents st4 ?a; let st5 = entered ?a ht ce2 st4; purge_cache (purge_limit st5) True st5 }
      }))"
        using False cp(1,2) some l(1) unfolding add_new_unfold
        by (simp only: if_False, auto simp: Let_def) (unfold core1(2), simp_all only:)
      show ?thesis
      proof (cases ok)
        case False
        have at: "cents st3 ?a = Some c" using c3 by simp
        have an: "?a \<notin> hash_data (hashtab st3)" using assms(1) ht3 fresh(1) by (simp add: cache_inv_def)
        from discard_copy_spec [OF core3 at fresh(1) an] obtain st' where
          d: "discard_copy ?a st3 = Some st'" "core (dom (cents st)) 0 st'" "cents st' = (cents st3)(?a := None)"
            "hashtab st' = hashtab st3" "same_conf st3 st'" by blast
        have "cents st' = cents st" using d(3) c3 fresh(2) by (simp add: fun_upd_idem)
        then have "not_entered st st'" using cache_inv_back [OF d(2)] d(4) ht3 assms(1) same_conf_trans [OF sc3 d(5)] by simp
        moreover have "mem st \<noteq> []" using l(5) False cp(3) by auto
        ultimately show ?thesis using run False d(1) by simp
      next
        case True
        have "stored_as st cent c" using stored_as_detach [OF _ sc2 assms(4)] l(3) True by blast
        moreover have "length (rrset_l st3) \<le> length (rrset_l st) + NRRTOT" using length_entry_step [OF l(2)] length_others_le [of ?a "rrset_l st"] by simp
        moreover have "cache_size st3 = cache_size st" using f(3) by simp
        ultimately obtain st' where "add_new cent loc st = Some st'" "not_entered st st' \<or> was_entered cent st st'"
          "mem st = [] \<longrightarrow> was_entered cent st st'"
          using finish_new [OF assms(1-4,6-8) core3 refl c3 ht3 sc3] run True by auto
        then show ?thesis by blast
      qed
    qed
  qed
qed

end
