(* ===== verification/Cache_Add_Top.thy ===== *)
theory Cache_Add_Top
  imports Cache_Add_All
begin

text \<open>
  \<open>add_cache\<close> for a name the cache knows, and as a whole.
\<close>

subsection \<open>A name in the cache\<close>

definition refreshed :: "dns_cent \<Rightarrow> nat \<Rightarrow> cache \<Rightarrow> cache \<Rightarrow> bool" where
  "refreshed cent a st st' \<longleftrightarrow> (\<exists>c c1 c2 fl n m st4. cents st a = Some c \<and> pur_ent c c1 \<and> merged st cent c1 c2 \<and>
     cents st4 = (cents st)(a \<mapsto> c2\<lparr>ce_flags := fl, c_ns := n, c_soa := m\<rparr>) \<and> same_conf st st4 \<and>
     (\<forall>f. (DF_NEGATIVE OR DF_AUTH OR DF_WILD) AND f = 0 \<longrightarrow> has fl f = has (ce_flags c2) f) \<and> cache_inv st4 \<and> pur st4 st' \<and> cache_inv st')"

lemma mask_auth_wild: "has (fl OR (x AND (DF_AUTH OR DF_WILD))) DF_NEGATIVE = has fl DF_NEGATIVE"
  by (rule has_or) (simp add: df_defs and.assoc)

lemma mask_kept:
  assumes "(DF_NEGATIVE OR DF_AUTH OR DF_WILD) AND f = 0"
  shows "has (fl OR (x AND (DF_AUTH OR DF_WILD))) f = has fl f"
proof (rule has_or)
  have "(DF_AUTH OR DF_WILD) AND f = (DF_AUTH OR DF_WILD) AND ((DF_NEGATIVE OR DF_AUTH OR DF_WILD) AND f)"
    unfolding and.assoc [symmetric] by (simp add: df_defs)
  with assms show "(x AND (DF_AUTH OR DF_WILD)) AND f = 0" by (simp add: and.assoc)
qed

lemma cok_refs_flags:
  assumes "cok a c st" and "has fl DF_NEGATIVE = has (ce_flags c) DF_NEGATIVE"
  shows "cok a (c\<lparr>ce_flags := fl, c_ns := n, c_soa := m\<rparr>) st"
proof -
  let ?c = "c\<lparr>ce_flags := fl, c_ns := n, c_soa := m\<rparr>"
  have "cent_ok ?c" using cok_cent_ok [OF assms(1)] assms(2) by (simp add: cent_ok_def)
  moreover have "lents_of a ?c = lents_of a c" "ptr_ok a ?c = ptr_ok a c" by (simp_all add: lents_of_def ptr_ok_def)
  ultimately show ?thesis using assms(1) by (simp add: cok_def)
qed

lemma core_cache_inv:
  assumes "core (dom (cents st)) 0 st" and "hash_data (hashtab st) = dom (cents st)"
  shows "cache_inv st"
  using assms by (simp add: cache_inv_def)

lemma others_same_set:
  assumes "cache_inv st" and "cache_inv st'" and "\<forall>b. b \<noteq> a \<longrightarrow> cents st' b = cents st b"
    and "le \<in> set (others a (rrset_l st))"
  shows "le \<in> set (others a (rrset_l st'))"
proof -
  have le: "le \<in> set (rrset_l st)" "fst le \<noteq> a" using assms(4) by (simp_all add: others_def)
  from core_owner [OF cache_inv_core [OF assms(1)] le(1)] obtain c where c: "cents st (fst le) = Some c" by blast
  then have "cok (fst le) c st" "cok (fst le) c st'" using assms(1-3) le(2) cache_inv_cok by simp_all
  then have "mine (fst le) (rrset_l st') = mine (fst le) (rrset_l st)" by (simp add: cok_def)
  with le show ?thesis by (auto simp: mine_def others_def)
qed

lemma others_same_length:
  assumes "cache_inv st" and "cache_inv st'" and "\<forall>b. b \<noteq> a \<longrightarrow> cents st' b = cents st b"
  shows "length (others a (rrset_l st')) = length (others a (rrset_l st))"
proof -
  have d: "distinct (others a (rrset_l st))" "distinct (others a (rrset_l st'))"
    using assms(1,2) by (simp_all add: cache_inv_def core_def heap_ok_def others_def)
  have "set (others a (rrset_l st')) = set (others a (rrset_l st))"
    using others_same_set [OF assms(1,2,3)] others_same_set [OF assms(2,1)] assms(3) by auto
  with d show ?thesis by (metis distinct_card)
qed

lemma add_existing_spec:
  assumes "cache_inv st" and "cents st a = Some c" and "cent_ok cent" and "length (rrset_l st) + NRRTOT < 2 ^ NTMPSORT"
  shows "\<exists>st'. add_existing cent a st = Some st' \<and> refreshed cent a st st'"
proof -
  from purge_cent_spec [OF assms(1,2), of False False] obtain r st1 where
    p: "purge_cent a False False st = Some (r, st1)" "cache_inv st1" "pur st st1" "\<forall>b. b \<noteq> a \<longrightarrow> cents st1 b = cents st b"
      "case r of None \<Rightarrow> False | Some n \<Rightarrow> \<exists>c'. cents st1 a = Some c' \<and> pur_ent c c'" by (elim exE conjE) (fastforce split: option.splits)
  then obtain c1 where c1: "cents st1 a = Some c1" "pur_ent c c1" by (cases r) auto
  let ?D = "dom (cents st1)" and ?st2 = "st1\<lparr>cache_size := cache_size st1 + - cs c1\<rparr>"
  have a: "a \<in> ?D" using c1(1) by blast
  have core2: "core ?D (0 + - cs c1) ?st2" by (rule core_size [OF cache_inv_core [OF p(2)]])
  have at2: "cents ?st2 a = Some c1" using c1(1) by simp
  have "\<forall>i \<in> set [0..<ilim cent]. i < ilim cent" by simp
  from merge_sets_spec [OF core2 at2 assms(3) this] obtain ok c2 st3 where
    m: "merge_sets [0..<ilim cent] cent a ?st2 = Some (ok, st3)" "entry_step a ?st2 c2 st3" "merged ?st2 cent c1 c2" by blast
  note f = entry_step_fields [OF m(2)]
  have sc: "same_conf st st1" using p(3) by (simp add: pur_def)
  have sc3: "same_conf st st3" using same_conf_trans [OF sc] f(6) by simp
  have m': "merged st cent c1 c2"
    using merged_trans [OF merged_refl m(3)] sc by simp
  have qn: "qname c2 = qname c1" using m(3) by (simp add: merged_def same_head_def)
  from core_entry_step [OF core2 at2 m(2) qn] a have core3: "core ?D (- cs c2) st3" by simp
  have at3: "cents st3 a = Some c2" "cents st3 = (cents st)(a \<mapsto> c2)"
    using f(1) p(4) by (auto simp: fun_eq_iff)
  have d3: "dom (cents st3) = ?D" using f(1) a by auto
  have hd: "hash_data (hashtab st3) = ?D" using p(2) f(2) by (simp add: cache_inv_def)
  let ?size = "\<lambda>s. s\<lparr>cache_size := cache_size s + cs c2\<rparr>"
  have core4: "core ?D (- cs c2 + cs c2) (?size st3)" by (rule core_size [OF core3])
  have inv4: "cache_inv (?size st3)" using core4 d3 hd by (simp add: cache_inv_def)
  have run: "add_existing cent a st = (if \<not> ok then Some (?size st3)
      else (let ce4 = c2\<lparr>ce_flags := ce_flags c2 OR (ce_flags cent AND (DF_AUTH OR DF_WILD)),
         c_ns := merge_ref (c_ns cent) (c_ns c2), c_soa := merge_ref (c_soa cent) (c_soa c2)\<rparr>;
       st4 = (put_cent a ce4 st3)\<lparr>cache_size := cache_size st3 + cs ce4\<rparr> in
       purge_cache (purge_limit st4) True st4))"
    using p(1) c1(1) assms(3) m(1) at3(1) by (simp add: add_existing_def)
  show ?thesis
  proof (cases ok)
    case False
    have same: "c2\<lparr>ce_flags := ce_flags c2, c_ns := c_ns c2, c_soa := c_soa c2\<rparr> = c2" by simp
    have "refreshed cent a st (?size st3)"
      unfolding refreshed_def using assms(2) c1(2) m' at3(2) sc3 inv4
      by (intro exI [of _ c] exI [of _ c1] exI [of _ c2] exI [of _ "ce_flags c2"] exI [of _ "c_ns c2"] exI [of _ "c_soa c2"]
          exI [of _ "?size st3"]) simp
    with run False show ?thesis by simp
  next
    case True
    let ?fl = "ce_flags c2 OR (ce_flags cent AND (DF_AUTH OR DF_WILD))"
    let ?c4 = "c2\<lparr>ce_flags := ?fl, c_ns := merge_ref (c_ns cent) (c_ns c2), c_soa := merge_ref (c_soa cent) (c_soa c2)\<rparr>"
    let ?st4 = "put_cent a ?c4 (?size st3)"
    have "cok a ?c4 (?size st3)" using f(7) mask_auth_wild [of "ce_flags c2" "ce_flags cent"]
      by (intro cok_refs_flags) simp_all
    then have inv5: "cache_inv ?st4"
      using cache_inv_put [OF inv4, of a c2 "?size st3" ?c4] at3(1) by simp
    have "length (rrset_l ?st4) \<le> length (others a (rrset_l st1)) + NRRTOT"
      using length_entry_step [OF m(2)] by simp
    also have "length (others a (rrset_l st1)) = length (others a (rrset_l st))"
      by (rule others_same_length [OF assms(1) p(2,4)])
    finally have "length (rrset_l ?st4) < 2 ^ NTMPSORT" using assms(4) length_others_le [of a "rrset_l st"] by simp
    from purge_cache_spec [OF inv5 this, of "purge_limit ?st4" True] obtain st' where
      pc: "purge_cache (purge_limit ?st4) True ?st4 = Some st'" "cache_inv st'" "pur ?st4 st'" by blast
    have eq: "(put_cent a x st3)\<lparr>cache_size := k\<rparr> = put_cent a x (st3\<lparr>cache_size := k\<rparr>)" for x k
      by (simp add: put_cent_def)
    have "cents ?st4 = (cents st)(a \<mapsto> ?c4)" using at3(2) by simp
    moreover have "same_conf st ?st4" using sc3 by simp
    ultimately have "refreshed cent a st st'"
      unfolding refreshed_def using assms(2) c1(2) m' inv5 pc(2,3) mask_kept
      by (intro exI [of _ c] exI [of _ c1] exI [of _ c2] exI [of _ ?fl] exI [of _ "merge_ref (c_ns cent) (c_ns c2)"]
          exI [of _ "merge_ref (c_soa cent) (c_soa c2)"] exI [of _ ?st4]) simp
    moreover have "add_existing cent a st = Some st'" unfolding run using True pc(1) by (simp add: Let_def eq)
    ultimately show ?thesis by blast
  qed
qed


subsection \<open>The whole operation\<close>

text \<open>The loop over the sets of an old entry that finds local data.\<close>

lemma any_local_spec:
  assumes "cent_ok c" and "\<forall>i \<in> set is. i < ilim c"
  shows "any_local is c = Some (\<exists>i \<in> set is. local_slot c i)"
  using assms(2)
proof (induction "is")
  case (Cons i "is")
  have "RRARR_INDEX c i = Some (slot c i)" using assms(1) Cons.prems by simp
  with Cons show ?case by (cases "slot c i") (auto simp: local_slot_def)
qed simp

definition some_local :: "dns_cent \<Rightarrow> bool" where
  "some_local c \<longleftrightarrow> (\<exists>i < NRRTOT. local_slot c i)"

lemma any_local_all: "cent_ok c \<Longrightarrow> any_local [0..<ilim c] c = Some (some_local c)"
proof -
  assume c: "cent_ok c"
  have "i < NRRTOT \<Longrightarrow> local_slot c i \<Longrightarrow> i < ilim c" for i
    using slot_some_ilim [OF c] by (auto simp: local_slot_def)
  moreover have "i < ilim c \<Longrightarrow> i < NRRTOT" for i using ilim_le [of c] by simp
  ultimately have "(\<exists>i \<in> set [0..<ilim c]. local_slot c i) = some_local c"
    unfolding some_local_def Bex_def set_upt atLeastLessThan_iff by blast
  with any_local_spec [OF c, of "[0..<ilim c]"] show ?thesis by simp
qed

text \<open>
  The outcomes of \<open>add_cache\<close>: a new entry; the merge into an existing one; a negative entry in
  place of one without local sets; no change in favour of local sets.
\<close>

definition owns :: "dns_cent \<Rightarrow> nat \<Rightarrow> cache \<Rightarrow> bool" where
  "owns cent a st \<longleftrightarrow> (\<exists>nm. dns_name nm \<and> qname cent = enc nm \<and> stored (qname_at st) (hashtab st) nm a)"

definition add_outcome :: "dns_cent \<Rightarrow> cache \<Rightarrow> cache \<Rightarrow> bool" where
  "add_outcome cent st st' \<longleftrightarrow> not_entered st st' \<or> was_entered cent st st' \<or> (\<exists>a. refreshed cent a st st' \<and> owns cent a st) \<or>
     (\<exists>a c st1. owns cent a st \<and> cents st a = Some c \<and> \<not> some_local c \<and> is_neg (body cent) \<and>
        cents st1 = (cents st)(a := None) \<and> same_conf st st1 \<and> cache_inv st1 \<and>
        (not_entered st1 st' \<or> was_entered cent st1 st'))"

lemma add_cache_spec:
  assumes "cache_inv st" and "cent_ok cent" and "detached cent" and "length (rrset_l st) + NRRTOT < 2 ^ NTMPSORT"
  shows "\<exists>st'. add_cache cent st = Some st' \<and> add_outcome cent st st'"
proof -
  from assms(2) obtain nm where nm: "qname cent = enc nm" "dns_name nm" by (auto simp: cent_ok_def)
  have neg: "has (ce_flags cent) DF_NEGATIVE = is_neg (body cent)" using assms(2) by (simp add: cent_ok_def)
  have two: "add_cache cent st = add_cache_rounds (Suc (Suc 0)) cent st" by (simp add: add_cache_def numeral_2_eq_2)
  note core = cache_inv_core [OF assms(1)]
  consider loc where "dns_lookup (qname_at st) (hashtab st) (enc nm @ []) = Some (None, loc)"
      "\<forall>x. \<not> stored (qname_at st) (hashtab st) nm x" "insert_loc (hashtab st) nm loc"
  | a loc c where "dns_lookup (qname_at st) (hashtab st) (enc nm @ []) = Some (Some a, loc)"
      "stored (qname_at st) (hashtab st) nm a" "ent_loc (hashtab st) loc a" "cents st a = Some c" "cok a c st"
    using core_lookup [OF core nm(2), of "[]"] by metis
  then show ?thesis
  proof cases
    case 1
    from add_new_spec [OF assms(1) nm assms(2,3) 1(3,2) assms(4)] obtain st' where
      "add_new cent loc st = Some st'" "not_entered st st' \<or> was_entered cent st st'" by blast
    moreover have "add_cache cent st = add_new cent loc st" using 1(1) nm(1) by (simp add: two)
    ultimately show ?thesis by (auto simp: add_outcome_def)
  next
    case 2
    have ow: "owns cent a st" unfolding owns_def using nm 2(2) by blast
    have l: "dns_lookup (qname_at st) (hashtab st) (qname cent) = Some (Some a, loc)" using 2(1) nm(1) by simp
    show ?thesis
    proof (cases "is_neg (body cent)")
      case False
      from add_existing_spec [OF assms(1) 2(4) assms(2,4)] obtain st' where
        "add_existing cent a st = Some st'" "refreshed cent a st st'" by blast
      moreover have "add_cache cent st = add_existing cent a st" using l neg False by (simp add: two)
      ultimately show ?thesis using ow by (auto simp: add_outcome_def)
    next
      case n: True
      have al: "any_local [0..<ilim c] c = Some (some_local c)" "RRARR_LEN c = Some (ilim c)"
        using any_local_all cok_cent_ok [OF 2(5)] by simp_all
      have run1: "add_cache_rounds (Suc k) cent st = (if some_local c then Some st
          else do { st1 \<leftarrow> del_cache_ent a (Some loc) st; add_cache_rounds k cent st1 })" for k
        using l neg n 2(4) al by (cases "some_local c") simp_all
      note run = run1 [of "Suc 0", folded two]
      show ?thesis
      proof (cases "some_local c")
        case True
        with run assms(1) show ?thesis by (auto simp: add_outcome_def not_entered_def)
      next
        case noloc: False
        have "case Some loc of None \<Rightarrow> True | Some l \<Rightarrow> ent_loc (hashtab st) l a" using 2(3) by simp
        from del_cache_ent_spec [OF assms(1) 2(4) this] obtain ht where
          d: "del_cache_ent a (Some loc) st = Some ((dropped a st)\<lparr>hashtab := ht\<rparr>)"
            "cache_inv ((dropped a st)\<lparr>hashtab := ht\<rparr>)" by blast
        let ?st1 = "(dropped a st)\<lparr>hashtab := ht\<rparr>"
        have sc: "same_conf st ?st1" by simp
        have c1: "cents ?st1 = (cents st)(a := None)" by simp
        have len: "length (rrset_l ?st1) + NRRTOT < 2 ^ NTMPSORT"
          using assms(4) length_others_le [of a "rrset_l st"] by simp
        have gone: "\<not> stored (qname_at ?st1) (hashtab ?st1) nm x" for x
        proof
          assume s: "stored (qname_at ?st1) (hashtab ?st1) nm x"
          have "x \<in> dom (cents ?st1)" using s d(2) by (simp add: stored_def cache_inv_def)
          then have x: "x \<noteq> a" "x \<in> dom (cents st)" by (auto split: if_splits)
          then have "names nm (qname_at st) x" using s by (simp add: stored_def names_def qname_at_def)
          moreover have "x \<in> hash_data (hashtab st)" using x(2) assms(1) by (simp add: cache_inv_def)
          ultimately have "x = a"
            using 2(2) core unfolding stored_def core_def table_ok_def hash_ok_def by blast
          with x(1) show False by simp
        qed
        consider loc1 where "dns_lookup (qname_at ?st1) (hashtab ?st1) (enc nm @ []) = Some (None, loc1)"
            "insert_loc (hashtab ?st1) nm loc1"
          | b where "stored (qname_at ?st1) (hashtab ?st1) nm b"
          using core_lookup [OF cache_inv_core [OF d(2)] nm(2), of "[]"] by metis
        then show ?thesis
        proof cases
          case 2
          with gone show ?thesis by blast
        next
          case 1
          from add_new_spec [OF d(2) nm assms(2,3) 1(2) allI [OF gone] len] obtain st' where
            s': "add_new cent loc1 ?st1 = Some st'" "not_entered ?st1 st' \<or> was_entered cent ?st1 st'" by blast
          have "add_cache cent st = Some st'" using run noloc d(1) 1(1) nm(1) s'(1) by simp
          moreover have "add_outcome cent st st'"
            unfolding add_outcome_def using ow 2(4) noloc n c1 sc d(2) s'(2) by blast
          ultimately show ?thesis by blast
        qed
      qed
    qed
  qed
qed

end
