(* ===== verification/Cache_Lookup.thy ===== *)
theory Cache_Lookup
  imports Cache_Purge_All
begin

text \<open>
  Looking up a name: \<open>find_cent\<close>, the search shared by both phases of \<open>lookup_cache\<close>, against a
  reference search on lists of labels, and the result of \<open>lookup_cache\<close>.
\<close>

subsection \<open>The entry of a name\<close>

definition find_name :: "cache \<Rightarrow> bytes list \<Rightarrow> nat option" where
  "find_name st nm = (case dns_lookup (qname_at st) (hashtab st) (enc nm) of None \<Rightarrow> None | Some (ret, loc) \<Rightarrow> ret)"

lemma core_lookup_find:
  assumes "core C d st" and "dns_name nm"
  shows "\<exists>loc. dns_lookup (qname_at st) (hashtab st) (enc nm @ q) = Some (find_name st nm, loc)"
    and "find_name st nm = Some a \<longleftrightarrow> stored (qname_at st) (hashtab st) nm a"
    and "find_name st nm = Some a \<Longrightarrow> \<exists>c. cents st a = Some c \<and> cok a c st"
proof -
  have h: "hash_ok (qname_at st) (hashtab st)" using assms(1) by (simp add: core_def table_ok_def)
  have u: "x = y" if "stored (qname_at st) (hashtab st) nm x" "stored (qname_at st) (hashtab st) nm y" for x y
    using hash_ok_unique [OF h] that by blast
  have r: "\<exists>ret loc. dns_lookup (qname_at st) (hashtab st) (enc nm @ q) = Some (ret, loc) \<and>
      (\<forall>a. ret = Some a \<longleftrightarrow> stored (qname_at st) (hashtab st) nm a) \<and>
      (\<forall>a. ret = Some a \<longrightarrow> (\<exists>c. cents st a = Some c \<and> cok a c st))" for q
  proof (cases rule: core_lookup [OF assms, of q])
    case (1 loc)
    then show ?thesis by simp
  next
    case (2 a loc c)
    have "(Some a = Some b) = stored (qname_at st) (hashtab st) nm b" for b using u 2(2) by auto
    with 2 u show ?thesis by (intro exI [of _ "Some a"] exI [of _ loc]) auto
  qed
  from r [of "[]"] obtain ret loc where 0: "dns_lookup (qname_at st) (hashtab st) (enc nm) = Some (ret, loc)"
    "\<forall>a. ret = Some a \<longleftrightarrow> stored (qname_at st) (hashtab st) nm a"
    "\<forall>a. ret = Some a \<longrightarrow> (\<exists>c. cents st a = Some c \<and> cok a c st)" by auto
  then have f: "find_name st nm = ret" by (simp add: find_name_def)
  from r [of q] obtain ret' loc' where 1: "dns_lookup (qname_at st) (hashtab st) (enc nm @ q) = Some (ret', loc')"
    "\<forall>a. ret' = Some a \<longleftrightarrow> stored (qname_at st) (hashtab st) nm a" by blast
  have "ret' = ret" using 0(2) 1(2) by (metis option.exhaust)
  with 1(1) f show "\<exists>loc. dns_lookup (qname_at st) (hashtab st) (enc nm @ q) = Some (find_name st nm, loc)" by simp
  show "find_name st nm = Some a \<longleftrightarrow> stored (qname_at st) (hashtab st) nm a" using 0(2) f by simp
  show "find_name st nm = Some a \<Longrightarrow> \<exists>c. cents st a = Some c \<and> cok a c st" using 0(3) f by simp
qed

subsection \<open>The search for wildcard and local domains\<close>

text \<open>
  The reference: on the way up the domain tree the first name of the cache decides. A negative
  domain answers itself, a wildcard domain through its \<open>*\<close> entry, a local domain as such.
\<close>

fun up_ref :: "cache \<Rightarrow> bytes list \<Rightarrow> nat option \<times> wild" where
  "up_ref st [] = (None, NotWild)"
| "up_ref st (l # ls) = (case find_name st (l # ls) of
       None \<Rightarrow> up_ref st ls
     | Some a \<Rightarrow> (case cents st a of None \<Rightarrow> (None, NotWild)
         | Some ce \<Rightarrow>
             if has (ce_flags ce) DF_NEGATIVE then (Some a, w_neg)
             else if has (ce_flags ce) DF_WILD then
               (let r = find_name st ([42] # l # ls) in (r, if r = None then NotWild else w_wild))
             else if has (ce_flags ce) DF_LOCAL then (Some a, w_locnerr)
             else (None, NotWild)))"

definition find_ref :: "cache \<Rightarrow> bytes list \<Rightarrow> bool \<Rightarrow> nat option \<times> wild" where
  "find_ref st nm wild = (case find_name st nm of
       Some a \<Rightarrow> (Some a, NotWild)
     | None \<Rightarrow> if wild then up_ref st (tl nm) else (None, NotWild))"

lemma wild_name_enc:
  assumes "dns_name ls" and "length (enc ls) + 2 \<le> DNSNAMEBUFSIZE"
  shows "\<exists>q'. wild_name (enc ls @ q) = Some (enc ([42] # ls) @ q')"
proof -
  have ok: "labels_ok ls" using assms(1) by (rule dns_name_labels_ok)
  have r: "replicate DNSNAMEBUFSIZE (0 :: byte) = 0 # 0 # replicate (DNSNAMEBUFSIZE - 2) 0"
    by (simp add: DNSNAMEBUFSIZE_def numeral_eq_Suc)
  let ?b = "1 # 42 # replicate (DNSNAMEBUFSIZE - 2) (0 :: byte)"
  have b: "wr (replicate DNSNAMEBUFSIZE 0) 0 (1 :: byte) = Some (1 # 0 # replicate (DNSNAMEBUFSIZE - 2) 0)"
    "wr (1 # 0 # replicate (DNSNAMEBUFSIZE - 2) 0) 1 (42 :: byte) = Some ?b"
    unfolding r by (simp_all add: wr_def)
  have "rd_all (enc ls @ q) 0 (length (enc ls)) = Some (enc ls)" by (simp add: rd_all_def)
  moreover have "wr_all ?b 2 (enc ls) = Some (1 # 42 # enc ls @ drop (length (enc ls)) (replicate (DNSNAMEBUFSIZE - 2) 0))"
    using assms(2) by (simp add: wr_all_def)
  ultimately have "rhncpy ?b 2 (enc ls @ q) =
      Some (length (enc ls), 1 # 42 # enc ls @ drop (length (enc ls)) (replicate (DNSNAMEBUFSIZE - 2) 0))"
    using ok assms(2) by (simp add: rhncpy_def)
  with b show ?thesis by (simp add: wild_name_def)
qed

lemma len_byte: "0 < n \<Longrightarrow> n \<le> 63 \<Longrightarrow> of_nat n \<noteq> (0 :: byte) \<and> unat (of_nat n :: byte) = n"
proof -
  assume n: "0 < n" "n \<le> 63"
  then have "unat (of_nat n :: byte) = n" by (simp add: unat_of_nat_byte)
  with n(1) show ?thesis by auto
qed

lemma wild_up_ref:
  assumes "core C d st" and "dns_name (xs @ ls)" and "xs \<noteq> []"
  shows "wild_up (enc (xs @ ls) @ q) (length (enc_labels xs)) st = Some (up_ref st ls)"
  using assms(2,3)
proof (induction ls arbitrary: xs)
  case Nil
  have "rd (enc xs @ q) (length (enc_labels xs)) = Some 0" by (simp add: enc_def rd_len_byte)
  then show ?case by (subst wild_up.simps) simp
next
  case (Cons l ls)
  let ?nm = "l # ls" and ?p = "length (enc_labels xs)" and ?all = "enc (xs @ l # ls) @ q"
  have sub: "dns_name ?nm" using dns_name_drop [OF Cons.prems(1), of "length xs"] by simp
  have lab: "0 < length l" "length l \<le> 63" using sub by (simp_all add: dns_name_def)
  have split: "?all = enc_labels xs @ of_nat (length l) # l @ enc ls @ q"
    by (simp add: enc_append)
  then have rdl: "rd ?all ?p = Some (of_nat (length l))" by (simp add: rd_len_byte)
  have lb: "of_nat (length l) \<noteq> (0 :: byte)" "unat (of_nat (length l) :: byte) = length l"
    using len_byte [OF lab] by simp_all
  have dr: "drop ?p ?all = enc ?nm @ q" unfolding split by simp
  have next_pos: "?p + unat (of_nat (length l) :: byte) + 1 = length (enc_labels (xs @ [l]))"
    using lb(2) by (simp add: enc_labels_def enc_label_def)
  from core_lookup_find(1) [OF assms(1) sub, of q] obtain loc where
    lk: "dns_lookup (qname_at st) (hashtab st) (enc ?nm @ q) = Some (find_name st ?nm, loc)" by blast
  show ?case
  proof (cases "find_name st ?nm")
    case None
    have "wild_up ?all ?p st = wild_up ?all (length (enc_labels (xs @ [l]))) st"
      using rdl lb(1) lk dr None next_pos by (subst wild_up.simps) simp
    also have "\<dots> = Some (up_ref st ls)" using Cons.IH [of "xs @ [l]"] Cons.prems by simp
    finally show ?thesis using None by simp
  next
    case (Some a)
    from core_lookup_find(3) [OF assms(1) sub Some] obtain c where c: "cents st a = Some c" by blast
    have "length (enc ?nm) + 2 \<le> DNSNAMEBUFSIZE"
    proof -
      have "length (enc (xs @ ?nm)) = length (enc_labels xs) + length (enc ?nm)" by (simp add: enc_append)
      moreover have "2 \<le> length (enc_labels xs)"
        using Cons.prems by (cases xs) (auto simp: dns_name_def enc_labels_def enc_label_def Suc_le_eq)
      ultimately show ?thesis using Cons.prems(1) by (simp add: dns_name_def)
    qed
    from wild_name_enc [OF sub this, of q] obtain q' where w: "wild_name (enc ?nm @ q) = Some (enc ([42] # ?nm) @ q')" by blast
    have "dns_name ([42] # ?nm)" using sub \<open>length (enc ?nm) + 2 \<le> DNSNAMEBUFSIZE\<close> by (simp add: dns_name_def)
    from core_lookup_find(1) [OF assms(1) this, of q'] obtain loc' where
      "dns_lookup (qname_at st) (hashtab st) (enc ([42] # ?nm) @ q') = Some (find_name st ([42] # ?nm), loc')" by blast
    with rdl lb(1) lk dr Some c w show ?thesis by (subst wild_up.simps) (simp add: Let_def)
  qed
qed

lemma find_cent_ref:
  assumes "core C d st" and "dns_name nm"
  shows "find_cent (enc nm @ q) wild st = Some (find_ref st nm wild)"
proof -
  from core_lookup_find(1) [OF assms, of q] obtain loc where
    lk: "dns_lookup (qname_at st) (hashtab st) (enc nm @ q) = Some (find_name st nm, loc)" by blast
  show ?thesis
  proof (cases "find_name st nm \<noteq> None \<or> \<not> wild")
    case True
    with lk show ?thesis by (auto simp: find_cent_def find_ref_def split: option.splits)
  next
    case False
    show ?thesis
    proof (cases nm)
      case Nil
      with False lk show ?thesis by (simp add: find_cent_def find_ref_def rd_def)
    next
      case (Cons l ls)
      have lab: "0 < length l" "length l \<le> 63" using assms(2) Cons by (simp_all add: dns_name_def)
      have rdl: "rd (enc nm @ q) 0 = Some (of_nat (length l))" using Cons by (simp add: rd_def)
      have lb: "of_nat (length l) \<noteq> (0 :: byte)" "unat (of_nat (length l) :: byte) + 1 = length (enc_labels [l])"
    using len_byte [OF lab] by (simp_all add: enc_labels_def enc_label_def)
      from wild_up_ref [OF assms(1), of "[l]" ls q] assms(2) Cons
      have "wild_up (enc nm @ q) (length (enc_labels [l])) st = Some (up_ref st ls)" by simp
      with False lk rdl lb Cons show ?thesis by (simp add: find_cent_def find_ref_def)
    qed
  qed
qed


subsection \<open>The result of a lookup\<close>

text \<open>Nothing in the copy must be purged: its sets that may be purged are not timed out.\<close>

definition fresh_cent :: "cache \<Rightarrow> dns_cent \<Rightarrow> bool" where
  "fresh_cent st c \<longleftrightarrow> (\<forall>i < NRRTOT. \<forall>s. slot c i = Some s \<longrightarrow> \<not> purgeable st s)"

lemma purgeable_detach [simp]: "purgeable st (s\<lparr>rs_lent := l\<rparr>) = purgeable st s"
  by (simp add: purgeable_def timedout_def)

lemma fresh_detach:
  assumes "cent_ok c" and "\<forall>i < NRRTOT. \<not> pslot st c i"
  shows "fresh_cent st (detach c)"
  using assms by (auto simp: fresh_cent_def detach_def slots_detach pslot_def)

text \<open>
  What purging makes of an entry: exactly the lapsed sets are gone; everything else about the
  sets, and the whole body of a negative entry, is as it was.
\<close>

definition purged_as :: "cache \<Rightarrow> dns_cent \<Rightarrow> dns_cent \<Rightarrow> bool" where
  "purged_as st c c' \<longleftrightarrow> pur_ent c c' \<and> (is_neg (body c) \<longrightarrow> body c' = body c) \<and>
     (\<forall>i < NRRTOT. slot c' i = (case slot c i of None \<Rightarrow> None | Some s \<Rightarrow> if lapsed st s then None else Some s))"

lemma purged_asI:
  assumes "pur_ent c c'" and "is_neg (body c) \<longrightarrow> body c' = body c"
    and "\<forall>i < NRRTOT. slot c' i = (if pslot st c i then None else slot c i)"
  shows "purged_as st c c'"
  using assms unfolding purged_as_def pslot_lapsed by (auto split: option.splits)

lemma purged_as_same:
  assumes "\<forall>i < NRRTOT. \<not> pslot st c i"
  shows "purged_as st c c"
  by (rule purged_asI) (use assms in simp_all)

text \<open>
  The possible results: the name is not known; the entry has lapsed as a whole and is deleted;
  otherwise it is purged and the result is a copy of it, unless memory runs out.
\<close>

definition lookup_result :: "cache \<Rightarrow> nat option \<Rightarrow> dns_cent option \<Rightarrow> cache \<Rightarrow> bool" where
  "lookup_result st r cp st' \<longleftrightarrow> cache_inv st' \<and> pur st st' \<and> (case r of
       None \<Rightarrow> cp = None \<and> cents st' = cents st
     | Some a \<Rightarrow> (\<forall>b. b \<noteq> a \<longrightarrow> cents st' b = cents st b) \<and>
         (\<exists>c. cents st a = Some c \<and>
            (if lapsed_cent st c then cp = None \<and> cents st' a = None
             else \<exists>c1. cents st' a = Some c1 \<and> purged_as st c c1 \<and> fresh_cent st (detach c1) \<and>
               (cp = None \<and> mem st \<noteq> [] \<or> cp = Some (detach c1)))))"

lemma copy_found:
  assumes "cache_inv st1" and "cents st1 a = Some c" and "\<forall>i < NRRTOT. \<not> pslot st c i"
    and "pur st st1" and "\<forall>b. b \<noteq> a \<longrightarrow> cents st1 b = cents st b"
    and "cents st a = Some c0" and "\<not> lapsed_cent st c0" and "purged_as st c0 c"
  shows "\<exists>cp m. copy_cent c st1 = Some (cp, st1\<lparr>mem := m\<rparr>) \<and> lookup_result st (Some a) cp (st1\<lparr>mem := m\<rparr>)"
proof -
  have ok: "cent_ok c" using cache_inv_cok [OF assms(1,2)] by (rule cok_cent_ok)
  from copy_cent_spec [OF ok, of st1] obtain r m where
    c: "copy_cent c st1 = Some (r, st1\<lparr>mem := m\<rparr>)" "r = None \<or> r = Some (detach c)" "mem st1 = [] \<longrightarrow> r \<noteq> None \<and> m = []" by blast
  let ?st = "st1\<lparr>mem := m\<rparr>"
  have inv: "cache_inv ?st" using assms(1) by (simp add: cache_inv_def)
  have "pur st1 ?st" using c(3) by (intro pur_fields) (auto simp: same_conf_def)
  then have p: "pur st ?st" by (rule pur_trans [OF assms(4)])
  have "mem st = [] \<longrightarrow> mem st1 = []" using assms(4) by (simp add: pur_def same_conf_def)
  with c(2,3) have "lookup_result st (Some a) r ?st"
    using inv p assms(2,5-8) fresh_detach [OF ok assms(3)] by (auto simp: lookup_result_def)
  with c(1) show ?thesis by blast
qed

lemma up_ref_cent:
  assumes "core C d st" and "dns_name (x # ls)" and "fst (up_ref st ls) = Some a"
  shows "\<exists>c. cents st a = Some c"
  using assms(2,3)
proof (induction ls arbitrary: x)
  case (Cons l ls)
  have n: "dns_name (l # ls)" using dns_name_drop [OF Cons.prems(1), of 1] by simp
  have "1 \<le> length x" using Cons.prems(1) by (simp add: dns_name_def Suc_le_eq)
  then have w: "dns_name ([42] # l # ls)" using Cons.prems(1) unfolding dns_name_def by simp
  show ?case
  proof (cases "find_name st (l # ls)")
    case None
    with Cons.IH [OF n] Cons.prems(2) show ?thesis by simp
  next
    case (Some b)
    from core_lookup_find(3) [OF assms(1) n Some] obtain c where c: "cents st b = Some c" by blast
    have "a = b \<or> find_name st ([42] # l # ls) = Some a"
      using Cons.prems(2) Some c by (auto simp: Let_def split: if_splits)
    with c core_lookup_find(3) [OF assms(1) w] show ?thesis by blast
  qed
qed simp

lemma find_ref_cent:
  assumes "core C d st" and "dns_name nm" and "fst (find_ref st nm wild) = Some a"
  shows "\<exists>c. cents st a = Some c"
proof (cases "find_name st nm")
  case None
  show ?thesis
  proof (cases nm)
    case Nil
    with None assms(3) show ?thesis by (simp add: find_ref_def split: if_splits)
  next
    case (Cons x ls)
    with None assms up_ref_cent [OF assms(1), of x ls a] show ?thesis by (simp add: find_ref_def split: if_splits)
  qed
next
  case (Some b)
  with assms core_lookup_find(3) [OF assms(1,2) Some] show ?thesis by (auto simp: find_ref_def)
qed

lemma lookup_cache_rw_spec:
  assumes "cache_inv st" and "dns_name nm"
  shows "\<exists>cp st'. lookup_cache_rw (enc nm @ q) wild st = Some (cp, snd (find_ref st nm wild), st') \<and>
    lookup_result st (fst (find_ref st nm wild)) cp st'"
proof -
  obtain r w where f: "find_ref st nm wild = (r, w)" by fastforce
  have fc: "find_cent (enc nm @ q) wild st = Some (r, w)"
    using find_cent_ref [OF cache_inv_core [OF assms(1)] assms(2)] f by simp
  show ?thesis
  proof (cases r)
    case None
    with fc f assms(1) show ?thesis by (intro exI [of _ None] exI [of _ st]) (simp add: lookup_cache_rw_def lookup_result_def)
  next
    case (Some a)
    with find_ref_cent [OF cache_inv_core [OF assms(1)] assms(2), of wild a] f obtain c where c: "cents st a = Some c" by auto
    from purge_cent_spec [OF assms(1) c, of True False] obtain n st1 where
      p: "purge_cent a True False st = Some (n, st1)" "cache_inv st1" "pur st st1" "\<forall>b. b \<noteq> a \<longrightarrow> cents st1 b = cents st b"
      "n = None \<longleftrightarrow> lapsed_cent st c" "case n of None \<Rightarrow> cents st1 a = None
       | Some k \<Rightarrow> \<exists>c'. cents st1 a = Some c' \<and> pur_ent c c' \<and> (is_neg (body c) \<longrightarrow> body c' = body c) \<and>
         (\<forall>i < NRRTOT. slot c' i = (if pslot st c i then None else slot c i))"
      by (elim exE conjE) (fastforce split: option.splits)
    show ?thesis
    proof (cases n)
      case None
      with Some fc f p c show ?thesis
        by (intro exI [of _ None] exI [of _ st1]) (simp add: lookup_cache_rw_def lookup_result_def)
    next
      case (Some k)
      with p(6) obtain c' where c': "cents st1 a = Some c'" "pur_ent c c'" "is_neg (body c) \<longrightarrow> body c' = body c"
        "\<forall>i < NRRTOT. slot c' i = (if pslot st c i then None else slot c i)" by auto
      have np: "\<forall>i < NRRTOT. \<not> pslot st c' i" using c'(4) by (auto simp: pslot_def)
      have "\<not> lapsed_cent st c" using p(5) Some by simp
      from copy_found [OF p(2) c'(1) np p(3,4) c this purged_asI [OF c'(2-4)]] obtain cp m where
        "copy_cent c' st1 = Some (cp, st1\<lparr>mem := m\<rparr>)" "lookup_result st (Some a) cp (st1\<lparr>mem := m\<rparr>)" by blast
      with \<open>r = Some a\<close> Some fc f p(1) c'(1) show ?thesis
        by (intro exI [of _ cp] exI [of _ "st1\<lparr>mem := m\<rparr>"]) (simp add: lookup_cache_rw_def)
    qed
  qed
qed

lemma lookup_cache_spec:
  assumes "cache_inv st" and "dns_name nm"
  shows "\<exists>cp st'. lookup_cache (enc nm @ q) wild st = Some (cp, snd (find_ref st nm wild), st') \<and>
    lookup_result st (fst (find_ref st nm wild)) cp st'"
proof -
  obtain r w where f: "find_ref st nm wild = (r, w)" by fastforce
  have fc: "find_cent (enc nm @ q) wild st = Some (r, w)"
    using find_cent_ref [OF cache_inv_core [OF assms(1)] assms(2)] f by simp
  note rw = lookup_cache_rw_spec [OF assms, of q wild]
  show ?thesis
  proof (cases r)
    case None
    with fc f assms(1) show ?thesis
      by (intro exI [of _ None] exI [of _ st]) (simp add: lookup_cache_def lookup_cache_r_def lookup_result_def)
  next
    case (Some a)
    with find_ref_cent [OF cache_inv_core [OF assms(1)] assms(2), of wild a] f obtain c where c: "cents st a = Some c" by auto
    from purge_cent_spec [OF assms(1) c, of True True] obtain n where
      p: "purge_cent a True True st = Some (n, st)" "n = Some 0 \<longrightarrow> (\<forall>i < NRRTOT. \<not> pslot st c i)"
        "n = None \<longleftrightarrow> lapsed_cent st c"
      by (elim exE conjE) (fastforce split: option.splits)
    show ?thesis
    proof (cases "n = Some 0")
      case False
      then have "lookup_cache (enc nm @ q) wild st = lookup_cache_rw (enc nm @ q) wild st"
        using fc Some p(1) by (simp add: lookup_cache_def lookup_cache_r_def)
      with rw show ?thesis by simp
    next
      case True
      have np: "\<forall>i < NRRTOT. \<not> pslot st c i" using p(2) True by blast
      have nl: "\<not> lapsed_cent st c" using p(3) True by simp
      from copy_found [OF assms(1) c np pur_refl _ c nl purged_as_same [OF np]] obtain cp m where
        "copy_cent c st = Some (cp, st\<lparr>mem := m\<rparr>)" "lookup_result st (Some a) cp (st\<lparr>mem := m\<rparr>)" by blast
      with Some True fc f p(1) c show ?thesis
        by (intro exI [of _ cp] exI [of _ "st\<lparr>mem := m\<rparr>"]) (simp add: lookup_cache_def lookup_cache_r_def)
    qed
  qed
qed

end
