(* ===== verification/Cache_Ops.thy ===== *)
theory Cache_Ops
  imports Cache_Lookup Cache_Entry
begin

text \<open>
  Deleting entries: \<open>del_cache\<close>, \<open>empty_cache\<close> with and without a list of domains, and
  \<open>destroy_cache\<close>; changing entries in place: \<open>invalidate_record\<close> and \<open>set_cent_flags\<close>.
\<close>

subsection \<open>Deleting a name\<close>

lemma del_cache_spec:
  assumes "cache_inv st" and "dns_name nm"
  shows "\<exists>st'. del_cache (enc nm) st = Some st' \<and> cache_inv st' \<and> same_conf st st' \<and>
    cents st' = (case find_name st nm of None \<Rightarrow> cents st | Some a \<Rightarrow> (cents st)(a := None))"
proof -
  note core = cache_inv_core [OF assms(1)]
  have h: "hash_ok (qname_at st) (hashtab st)" using core by (simp add: core_def table_ok_def)
  from del_dns_hash_spec [OF h assms(2)] obtain ret ht where
    d: "del_dns_hash (qname_at st) (hashtab st) (enc nm) = Some (ret, ht)" "hash_ok (qname_at st) ht"
      "case ret of None \<Rightarrow> (\<forall>d. \<not> stored (qname_at st) (hashtab st) nm d) \<and> ht = hashtab st
       | Some d \<Rightarrow> stored (qname_at st) (hashtab st) nm d \<and> hash_data ht = hash_data (hashtab st) - {d}" by blast
  have f: "find_name st nm = ret"
    using d(3) core_lookup_find(2) [OF core assms(2)] by (cases ret; cases "find_name st nm") auto
  show ?thesis
  proof (cases ret)
    case None
    with d f assms(1) show ?thesis by (simp add: del_cache_def)
  next
    case (Some a)
    from core_lookup_find(3) [OF core assms(2)] f Some obtain c where c: "cents st a = Some c" "cok a c st" by blast
    let ?st = "st\<lparr>hashtab := ht\<rparr>"
    have hd: "hash_data ht = dom (cents st) - {a}" using d(3) Some assms(1) by (simp add: cache_inv_def)
    have core1: "core (dom (cents st)) 0 ?st" using core_table [OF core d(2)] hd by simp
    have del: "del_cent a ?st = Some (dropped a ?st)" using c by (intro del_cent_dropped) simp_all
    have "core (dom (cents st) - {a}) 0 (dropped a ?st)" using core_dropped [OF core1, of a] c(1) hd by auto
    then have "cache_inv (dropped a ?st)" using hd by (simp add: cache_inv_def)
    moreover have "del_cache (enc nm) st = Some (dropped a ?st)" using d(1) Some del by (simp add: del_cache_def)
    ultimately show ?thesis using f Some by simp
  qed
qed

subsection \<open>Deleting many entries\<close>

text \<open>The invariant of the heap and the counters, without the hash table.\<close>

definition sized :: "cache \<Rightarrow> bool" where
  "sized st \<longleftrightarrow> heap_ok st \<and> cache_size st = total (dom (cents st)) st \<and> ent_num st = int (card (dom (cents st)))"

lemma cache_inv_sized:
  "cache_inv st \<longleftrightarrow> sized st \<and> hash_ok (qname_at st) (hashtab st) \<and> hash_data (hashtab st) = dom (cents st)"
  by (auto simp: cache_inv_def core_def table_ok_def sized_def)

lemma dropped_sized:
  assumes "sized st" and "cents st a = Some c"
  shows "del_cent a st = Some (dropped a st)" and "sized (dropped a st)"
proof -
  have h: "heap_ok st" using assms(1) by (simp add: sized_def)
  show "del_cent a st = Some (dropped a st)" by (rule del_cent_dropped [OF assms(2) heap_ok_cok [OF h assms(2)]])
  let ?D = "dom (cents st)"
  have fin: "finite ?D" using h by (auto simp: heap_ok_def intro: finite_subset)
  have a: "a \<in> ?D" using assms(2) by blast
  have "total ?D st = cs c + total (?D - {a}) st"
    unfolding total_def using sum.remove [OF fin a, of "\<lambda>b. cs (the (cents st b))"] assms(2) by simp
  moreover have "total (?D - {a}) (dropped a st) = total (?D - {a}) st" unfolding total_def by (rule sum.cong) auto
  moreover have "card ?D = Suc (card (?D - {a}))" by (rule card.remove [OF fin a])
  moreover have "heap_ok (dropped a st)" using free_entry_heap [OF h, of a] by (simp add: heap_ok_def dropped_def)
  moreover have "dom (cents (dropped a st)) = ?D - {a}" by simp
  ultimately show "sized (dropped a st)" using assms unfolding sized_def by (simp add: dropped_def)
qed

definition without :: "nat set \<Rightarrow> cache \<Rightarrow> nat \<Rightarrow> dns_cent option" where
  "without D st a = (if a \<in> D then None else cents st a)"

lemma without_empty [simp]: "without {} st = cents st"
  by (simp add: without_def fun_eq_iff)

lemma subset_dom_upd: "a \<notin> S \<Longrightarrow> S \<subseteq> dom f \<Longrightarrow> S \<subseteq> dom (f(a := None))"
  by auto

lemma del_all_spec:
  assumes "sized st" and "distinct (map cdata ch)" and "cdata ` set ch \<subseteq> dom (cents st)"
  shows "\<exists>st'. del_all del_cent ch st = Some st' \<and> sized st' \<and> cents st' = without (cdata ` set ch) st \<and> same_conf st st'"
  using assms
proof (induction ch arbitrary: st)
  case (Cons he ch)
  then obtain c where c: "cents st (cdata he) = Some c" by auto
  note d = dropped_sized [OF Cons.prems(1) c]
  have "cdata ` set ch \<subseteq> dom (cents (dropped (cdata he) st))"
    using subset_dom_upd [of "cdata he" "cdata ` set ch" "cents st"] Cons.prems(2,3) by simp
  from Cons.IH [OF d(2) _ this] Cons.prems(2) obtain st' where
    IH: "del_all del_cent ch (dropped (cdata he) st) = Some st'" "sized st'"
      "cents st' = without (cdata ` set ch) (dropped (cdata he) st)" "same_conf (dropped (cdata he) st) st'" by auto
  have "cents st' = without (cdata ` set (he # ch)) st" unfolding IH(3) by (auto simp: without_def fun_eq_iff)
  moreover have "same_conf st st'" using same_conf_trans [OF _ IH(4), of st] by simp
  ultimately show ?case using d(1) IH(1,2) by simp
qed simp

text \<open>Deleting the entries of a chain that a list of domains selects.\<close>

lemma free_selected_spec:
  assumes "sized st" and "distinct (map cdata ch)" and "cdata ` set ch \<subseteq> dom (cents st)"
    and "\<And>he. he \<in> set ch \<Longrightarrow> \<exists>nm. qname_at st (cdata he) = Some nm \<and> selected nm sla = Some (sel (cdata he))"
  shows "\<exists>st'. free_selected (\<lambda>a s. qname_at s a) del_cent sla ch st = Some (filter (\<lambda>he. \<not> sel (cdata he)) ch, st') \<and>
    sized st' \<and> cents st' = without {a \<in> cdata ` set ch. sel a} st \<and> same_conf st st'"
  using assms
proof (induction ch arbitrary: st)
  case Nil
  then show ?case by simp
next
  case (Cons he ch)
  from Cons.prems(4) [of he] obtain nm where nm: "qname_at st (cdata he) = Some nm" "selected nm sla = Some (sel (cdata he))"
    by auto
  show ?case
  proof (cases "sel (cdata he)")
    case True
    from Cons.prems(3) obtain c where c: "cents st (cdata he) = Some c" by auto
    note d = dropped_sized [OF Cons.prems(1) c]
    let ?st = "dropped (cdata he) st"
    have sub: "cdata ` set ch \<subseteq> dom (cents ?st)"
      using subset_dom_upd [of "cdata he" "cdata ` set ch" "cents st"] Cons.prems(2,3) by simp
    have q: "qname_at ?st (cdata h) = qname_at st (cdata h)" if "h \<in> set ch" for h
    proof -
      have "cdata h \<noteq> cdata he" using that Cons.prems(2) by (metis distinct.simps(2) image_eqI list.map(2) list.set_map)
      then show ?thesis by (simp add: qname_at_def)
    qed
    have "\<exists>nm. qname_at ?st (cdata h) = Some nm \<and> selected nm sla = Some (sel (cdata h))" if "h \<in> set ch" for h
      using that q Cons.prems(4) [of h] by simp
    from Cons.IH [OF d(2) _ sub this] Cons.prems(2) obtain st' where
      IH: "free_selected (\<lambda>a s. qname_at s a) del_cent sla ch ?st = Some (filter (\<lambda>he. \<not> sel (cdata he)) ch, st')"
        "sized st'" "cents st' = without {a \<in> cdata ` set ch. sel a} ?st" "same_conf ?st st'" by auto
    have "cents st' = without {a \<in> cdata ` set (he # ch). sel a} st"
      unfolding IH(3) using True by (auto simp: without_def fun_eq_iff)
    moreover have "same_conf st st'" using same_conf_trans [OF _ IH(4), of st] by simp
    ultimately show ?thesis using nm True d(1) IH(1,2) by simp
  next
    case False
    have "\<exists>nm. qname_at st (cdata h) = Some nm \<and> selected nm sla = Some (sel (cdata h))" if "h \<in> set ch" for h
      using that Cons.prems(4) [of h] by simp
    from Cons.IH [OF Cons.prems(1) _ _ this] Cons.prems(2,3) obtain st' where
      IH: "free_selected (\<lambda>a s. qname_at s a) del_cent sla ch st = Some (filter (\<lambda>he. \<not> sel (cdata he)) ch, st')"
        "sized st'" "cents st' = without {a \<in> cdata ` set ch. sel a} st" "same_conf st st'" by auto
    have "{a \<in> cdata ` set (he # ch). sel a} = {a \<in> cdata ` set ch. sel a}" using False by auto
    with IH nm False show ?thesis by simp
  qed
qed


text \<open>Removing the selected entries of a bucket from the table.\<close>

abbreviation rest_of :: "(nat \<Rightarrow> bool) \<Rightarrow> hash_table \<Rightarrow> nat \<Rightarrow> dns_hash_ent list" where
  "rest_of sel ht i \<equiv> filter (\<lambda>he. \<not> sel (cdata he)) (ht ! i)"

definition bucket_sel :: "(nat \<Rightarrow> bool) \<Rightarrow> hash_table \<Rightarrow> nat \<Rightarrow> nat set" where
  "bucket_sel sel ht i = {a \<in> cdata ` set (ht ! i). sel a}"

lemma bucket_filter:
  assumes "hash_ok qn ht" and "i < HASH_NUM_BUCKETS"
  shows "hash_ok qn (ht[i := rest_of sel ht i])" and "hash_data (ht[i := rest_of sel ht i]) = hash_data ht - bucket_sel sel ht i"
proof -
  let ?ht = "ht[i := rest_of sel ht i]"
  have i: "i < length ht" using assms by (simp add: hash_ok_def)
  have once: "j = i" if "j < length ht" "he \<in> set (ht ! j)" "he' \<in> set (ht ! i)" "cdata he = cdata he'" for j he he'
  proof -
    note t = that
    obtain k where k: "k < length (ht ! i)" "ht ! i ! k = he'" using t(3) by (auto simp: in_set_conv_nth)
    let ?loc = "\<lparr>loc_bucket = i, loc_pos = k, loc_rhash = rhash he\<rparr>"
    have "ent_loc ht ?loc (cdata he')" using i k by (simp add: ent_loc_def)
    from ent_loc_data_once [OF assms(1) this t(1,2,4)] show ?thesis by simp
  qed
  have c: "chain_ok qn i (ht ! i)" using assms(1) i by (simp add: hash_ok_def)
  then have "chain_ok qn i (rest_of sel ht i)"
    by (auto simp: chain_ok_def sorted_wrt_map distinct_map_filter intro: sorted_wrt_filter)
  then have chains: "\<forall>j < length ?ht. chain_ok qn j (?ht ! j)"
    using assms(1) by (intro chains_update [OF _ i]) (simp_all add: hash_ok_def)
  show data: "hash_data ?ht = hash_data ht - bucket_sel sel ht i"
    unfolding hash_data_update [OF i] hash_data_bucket [OF i] bucket_sel_def using once by fastforce
  have "length ?ht = HASH_NUM_BUCKETS" using assms(1) by (simp add: hash_ok_def)
  with chains show "hash_ok qn ?ht"
    unfolding hash_ok_def data using assms(1) unfolding hash_ok_def by blast
qed

lemma cache_inv_without:
  assumes "cache_inv st" and "sized st'" and "cents st' = without D st" and "hash_ok (qname_at st) ht"
    and "hash_data ht = hash_data (hashtab st) - D"
  shows "cache_inv (st'\<lparr>hashtab := ht\<rparr>)"
proof -
  have d: "dom (cents st') = dom (cents st) - D" unfolding assms(3) by (auto simp: without_def dom_def)
  have hd: "hash_data ht = dom (cents st')" using assms(1,5) d by (simp add: cache_inv_def)
  have "hash_ok (qname_at (st'\<lparr>hashtab := ht\<rparr>)) ht"
  proof (rule hash_ok_cong [OF assms(4)])
    show "qname_at (st'\<lparr>hashtab := ht\<rparr>) a = qname_at st a" if "a \<in> hash_data ht" for a
      using that assms(5) by (simp add: qname_at_def assms(3) without_def)
  qed
  moreover have "sized (st'\<lparr>hashtab := ht\<rparr>)"
    using assms(2) by (simp add: sized_def heap_ok_def total_def)
  ultimately show ?thesis using hd by (simp add: cache_inv_sized)
qed

text \<open>One bucket of \<open>empty_cache\<close>.\<close>

definition empty_step :: "slist list option \<Rightarrow> nat \<Rightarrow> cache \<Rightarrow> cache option" where
  "empty_step sla i st = on_table (case sla of
         Some l \<Rightarrow> free_dns_hash_selected (\<lambda>a s. qname_at s a) del_cent l i
       | None \<Rightarrow> free_dns_hash_bucket del_cent i) st"

definition sel_by :: "slist list option \<Rightarrow> (nat \<Rightarrow> bool) \<Rightarrow> cache \<Rightarrow> bool" where
  "sel_by sla sel st \<longleftrightarrow> (\<forall>a \<in> dom (cents st). case sla of None \<Rightarrow> sel a
     | Some l \<Rightarrow> \<exists>nm. qname_at st a = Some nm \<and> selected nm l = Some (sel a))"

lemma empty_step_spec:
  assumes "cache_inv st" and "i < HASH_NUM_BUCKETS" and "sel_by sla sel st"
  shows "\<exists>st'. empty_step sla i st = Some st' \<and> cache_inv st' \<and> same_conf st st' \<and>
    hashtab st' = (hashtab st)[i := rest_of sel (hashtab st) i] \<and> cents st' = without (bucket_sel sel (hashtab st) i) st"
proof -
  let ?ht = "hashtab st" and ?ch = "hashtab st ! i"
  have inv: "sized st" "hash_ok (qname_at st) ?ht" "hash_data ?ht = dom (cents st)" using assms(1) by (simp_all add: cache_inv_sized)
  have i: "i < length ?ht" using inv(2) assms(2) by (simp add: hash_ok_def)
  have c: "chain_ok (qname_at st) i ?ch" using inv(2) i by (simp add: hash_ok_def)
  have d: "distinct (map cdata ?ch)" using c by (simp add: chain_ok_def)
  have sub: "cdata ` set ?ch \<subseteq> dom (cents st)" using hash_data_nth [OF i] inv(3) by auto
  note bf = bucket_filter [OF inv(2) assms(2), of sel]
  show ?thesis
  proof (cases sla)
    case None
    then have "\<forall>a \<in> dom (cents st). sel a" using assms(3) by (simp add: sel_by_def)
    then have all: "sel (cdata he)" if "he \<in> set ?ch" for he using that sub by blast
    then have r: "rest_of sel ?ht i = []" "bucket_sel sel ?ht i = cdata ` set ?ch" by (auto simp: bucket_sel_def)
    from del_all_spec [OF inv(1) d sub] obtain st' where
      s: "del_all del_cent ?ch st = Some st'" "sized st'" "cents st' = without (cdata ` set ?ch) st" "same_conf st st'" by blast
    have "empty_step sla i st = Some (st'\<lparr>hashtab := ?ht[i := []]\<rparr>)"
      using None i s(1) by (simp add: empty_step_def on_table_def free_dns_hash_bucket_def rd_in wr_in)
    moreover have "cache_inv (st'\<lparr>hashtab := ?ht[i := []]\<rparr>)"
      using cache_inv_without [OF assms(1) s(2,3)] bf unfolding r by simp
    ultimately show ?thesis using s(3,4) r by simp
  next
    case (Some l)
    have q: "\<exists>nm. qname_at st (cdata he) = Some nm \<and> selected nm l = Some (sel (cdata he))" if "he \<in> set ?ch" for he
    proof -
      have "cdata he \<in> dom (cents st)" using that sub by blast
      with assms(3) Some show ?thesis by (simp add: sel_by_def)
    qed
    from free_selected_spec [OF inv(1) d sub q] obtain st' where
      s: "free_selected (\<lambda>a s. qname_at s a) del_cent l ?ch st = Some (rest_of sel ?ht i, st')" "sized st'"
        "cents st' = without (bucket_sel sel ?ht i) st" "same_conf st st'" unfolding bucket_sel_def by blast
    have "empty_step sla i st = Some (st'\<lparr>hashtab := ?ht[i := rest_of sel ?ht i]\<rparr>)"
      using Some i s(1) by (simp add: empty_step_def on_table_def free_dns_hash_selected_def rd_in wr_in)
    moreover have "cache_inv (st'\<lparr>hashtab := ?ht[i := rest_of sel ?ht i]\<rparr>)"
      by (rule cache_inv_without [OF assms(1) s(2,3) bf])
    ultimately show ?thesis using s(3,4) by simp
  qed
qed

lemma sel_by_without: "sel_by sla sel st \<Longrightarrow> cents st' = without D st \<Longrightarrow> sel_by sla sel st'"
proof -
  assume s: "sel_by sla sel st" and w: "cents st' = without D st"
  have "a \<in> dom (cents st) \<and> qname_at st' a = qname_at st a" if "a \<in> dom (cents st')" for a
    using that by (auto simp: w qname_at_def without_def dom_def split: if_splits)
  with s show ?thesis by (cases sla) (simp_all add: sel_by_def)
qed

lemma empty_buckets_spec:
  assumes "cache_inv st" and "sel_by sla sel st" and "\<forall>i \<in> set is. i < HASH_NUM_BUCKETS" and "distinct is"
  shows "\<exists>st'. empty_buckets sla is st = Some st' \<and> cache_inv st' \<and> same_conf st st' \<and>
    cents st' = without (\<Union>i \<in> set is. bucket_sel sel (hashtab st) i) st"
  using assms
proof (induction "is" arbitrary: st)
  case (Cons i "is")
  from Cons.prems(3) have i: "i < HASH_NUM_BUCKETS" "\<forall>i \<in> set is. i < HASH_NUM_BUCKETS" by simp_all
  from empty_step_spec [OF Cons.prems(1) i(1) Cons.prems(2)] obtain st1 where
    s: "empty_step sla i st = Some st1" "cache_inv st1" "same_conf st st1"
      "hashtab st1 = (hashtab st)[i := rest_of sel (hashtab st) i]" "cents st1 = without (bucket_sel sel (hashtab st) i) st" by blast
  have "distinct is" "i \<notin> set is" using Cons.prems(4) by simp_all
  from Cons.IH [OF s(2) sel_by_without [OF Cons.prems(2) s(5)] i(2) this(1)] obtain st' where
    IH: "empty_buckets sla is st1 = Some st'" "cache_inv st'" "same_conf st1 st'"
      "cents st' = without (\<Union>j \<in> set is. bucket_sel sel (hashtab st1) j) st1" by blast
  have "bucket_sel sel (hashtab st1) j = bucket_sel sel (hashtab st) j" if "j \<in> set is" for j
  proof -
    have "j \<noteq> i" using that \<open>i \<notin> set is\<close> by auto
    then show ?thesis by (simp add: bucket_sel_def s(4))
  qed
  then have "(\<Union>j \<in> set is. bucket_sel sel (hashtab st1) j) = (\<Union>j \<in> set is. bucket_sel sel (hashtab st) j)" by simp
  then have "cents st' = without (\<Union>j \<in> set (i # is). bucket_sel sel (hashtab st) j) st"
    unfolding IH(4) by (auto simp: without_def fun_eq_iff s(5))
  moreover have "empty_buckets sla (i # is) st = Some st'" using s(1) IH(1) by (simp add: empty_step_def)
  ultimately show ?case using IH(2) same_conf_trans [OF s(3) IH(3)] by blast
qed simp

lemma hash_data_buckets:
  assumes "length ht = HASH_NUM_BUCKETS"
  shows "(\<Union>i \<in> set [0..<HASH_NUM_BUCKETS]. bucket_sel sel ht i) = {a \<in> hash_data ht. sel a}"
  using assms by (force simp: bucket_sel_def hash_data_def in_set_conv_nth)

lemma empty_cache_spec:
  assumes "cache_inv st" and "sel_by sla sel st"
  shows "\<exists>st'. empty_cache sla st = Some st' \<and> cache_inv st' \<and> same_conf st st' \<and>
    cents st' = without {a. sel a} st"
proof -
  from empty_buckets_spec [OF assms, of "[0..<HASH_NUM_BUCKETS]"] obtain st' where
    s: "empty_buckets sla [0..<HASH_NUM_BUCKETS] st = Some st'" "cache_inv st'" "same_conf st st'"
      "cents st' = without (\<Union>i \<in> set [0..<HASH_NUM_BUCKETS]. bucket_sel sel (hashtab st) i) st" by auto
  have "length (hashtab st) = HASH_NUM_BUCKETS" "hash_data (hashtab st) = dom (cents st)"
    using assms(1) by (simp_all add: cache_inv_sized hash_ok_def)
  with s(4) have "cents st' = without {a. sel a} st"
    unfolding hash_data_buckets [OF \<open>length (hashtab st) = HASH_NUM_BUCKETS\<close>] by (auto simp: without_def fun_eq_iff)
  with s(1-3) show ?thesis by (simp add: empty_cache_def)
qed


subsection \<open>The selection of names\<close>

text \<open>
  The reference: the first rule whose domain is a suffix of the name (the name itself for an
  exact rule) decides; without one the name is not selected.
\<close>

definition sub_domain :: "bytes list \<Rightarrow> bytes list \<Rightarrow> bool" where
  "sub_domain nm d \<longleftrightarrow> length d \<le> length nm \<and> fold_case (drop (length nm - length d) nm) = fold_case d"

fun selected_ref :: "bytes list \<Rightarrow> (bytes list \<times> bool \<times> bool) list \<Rightarrow> bool" where
  "selected_ref nm [] = False"
| "selected_ref nm ((d, exact, incl) # rules) =
     (if sub_domain nm d \<and> (exact \<longrightarrow> length d = length nm) then incl else selected_ref nm rules)"

definition sla_of :: "(bytes list \<times> bool \<times> bool) list \<Rightarrow> slist list" where
  "sla_of rules = map (\<lambda>(d, exact, incl). \<lparr>sl_domain = enc d, sl_exact = exact, sl_included = incl\<rparr>) rules"

lemma enc_labels_take_0: "labels_ok a \<Longrightarrow> n \<le> length a \<Longrightarrow> length (enc_labels (take n a)) = 0 \<longleftrightarrow> n = 0"
  by (cases a; cases n) (auto simp: enc_labels_def enc_label_def)

lemma selected_correct:
  assumes "dns_name nm" and "\<forall>(d, e, i) \<in> set rules. dns_name d"
  shows "selected (enc nm) (sla_of rules) = Some (selected_ref nm rules)"
  using assms(2)
proof (induction rules)
  case Nil
  then show ?case by (simp add: sla_of_def)
next
  case (Cons rule rules)
  obtain d exact incl where r: "rule = (d, exact, incl)" by (cases rule)
  have d: "dns_name d" using Cons.prems r by auto
  let ?m = "common_labels nm d"
  have ok: "labels_ok nm" "labels_ok d" using assms(1) d by (simp_all add: dns_name_labels_ok)
  have dm: "domain_match (enc nm) (enc d) = Some (?m, length (enc_labels (take (length nm - ?m) nm)),
      length (enc_labels (take (length d - ?m) d)))"
    using domain_match_enc [OF ok, of "[]" "[]"] dns_name_segments [OF assms(1)] dns_name_segments [OF d] by simp
  have le: "?m \<le> length nm" "?m \<le> length d" by (rule common_labels_le)+
  have full: "?m = length d \<longleftrightarrow> sub_domain nm d"
  proof
    assume m: "?m = length d"
    then show "sub_domain nm d" using common_labels_suffix [of nm d] le by (simp add: sub_domain_def)
  next
    assume "sub_domain nm d"
    then have "length d \<le> ?m" by (intro common_labels_maximal) (simp_all add: sub_domain_def)
    with le show "?m = length d" by simp
  qed
  have l: "length (enc_labels (take (length d - ?m) d)) = 0 \<longleftrightarrow> sub_domain nm d"
    using enc_labels_take_0 [OF ok(2), of "length d - ?m"] le full by auto
  have n: "length (enc_labels (take (length nm - ?m) nm)) = 0 \<longleftrightarrow> length d = length nm" if "sub_domain nm d"
    using enc_labels_take_0 [OF ok(1), of "length nm - ?m"] le full that by auto
  have IH: "selected (enc nm) (sla_of rules) = Some (selected_ref nm rules)" using Cons by auto
  have "selected (enc nm) (sla_of (rule # rules)) =
      (if length (enc_labels (take (length d - ?m) d)) = 0 \<and> (\<not> exact \<or> length (enc_labels (take (length nm - ?m) nm)) = 0)
       then Some incl else selected (enc nm) (sla_of rules))"
    using dm r by (cases exact) (simp_all add: sla_of_def)
  also have "\<dots> = Some (selected_ref nm (rule # rules))" using l n IH r by auto
  finally show ?case .
qed

subsection \<open>Destroying the cache\<close>

lemma distinct_concat_nth:
  assumes "\<forall>i < length xss. distinct (xss ! i)"
    and "\<forall>i < length xss. \<forall>j < length xss. i \<noteq> j \<longrightarrow> set (xss ! i) \<inter> set (xss ! j) = {}"
  shows "distinct (concat xss)"
  using assms
proof (induction xss)
  case (Cons xs xss)
  have "distinct xs" using Cons.prems(1) by force
  moreover have "distinct (concat xss)"
  proof (rule Cons.IH)
    show "\<forall>i < length xss. distinct (xss ! i)" using Cons.prems(1) by force
    show "\<forall>i < length xss. \<forall>j < length xss. i \<noteq> j \<longrightarrow> set (xss ! i) \<inter> set (xss ! j) = {}"
    proof (intro allI impI)
      fix i j assume "i < length xss" "j < length xss" "i \<noteq> j"
      with Cons.prems(2) [rule_format, of "Suc i" "Suc j"] show "set (xss ! i) \<inter> set (xss ! j) = {}" by simp
    qed
  qed
  moreover have "set xs \<inter> set (xss ! j) = {}" if "j < length xss" for j
    using Cons.prems(2) [rule_format, of 0 "Suc j"] that by simp
  then have "set xs \<inter> set (concat xss) = {}" by (fastforce simp: in_set_conv_nth [of _ xss])
  ultimately show ?case by simp
qed simp

lemma concat_distinct:
  assumes "hash_ok qn ht"
  shows "distinct (map cdata (concat ht))"
  unfolding map_concat
proof (rule distinct_concat_nth; intro allI impI)
  fix i assume "i < length (map (map cdata) ht)"
  then show "distinct (map (map cdata) ht ! i)" using assms by (simp add: hash_ok_def chain_ok_def)
next
  fix i j assume ij: "i < length (map (map cdata) ht)" "j < length (map (map cdata) ht)" "i \<noteq> j"
  show "set (map (map cdata) ht ! i) \<inter> set (map (map cdata) ht ! j) = {}"
  proof (rule ccontr)
    assume "set (map (map cdata) ht ! i) \<inter> set (map (map cdata) ht ! j) \<noteq> {}"
    with ij obtain he he' where h: "he \<in> set (ht ! i)" "he' \<in> set (ht ! j)" "cdata he = cdata he'" by auto
    then have "ent_ok qn i he" "ent_ok qn j he'" using assms ij by (auto simp: hash_ok_def chain_ok_def)
    with h(3) have "i = j" by (auto simp: ent_ok_def dest: dns_enc_inj)
    with ij(3) show False by simp
  qed
qed

lemma destroy_cache_spec:
  assumes "cache_inv st"
  shows "\<exists>st'. destroy_cache st = Some st' \<and> cache_inv st' \<and> cents st' = (\<lambda>a. None) \<and> hashtab st' = mk_dns_hash \<and>
    rrset_l st' = [] \<and> cache_size st' = 0 \<and> ent_num st' = 0"
proof -
  let ?ht = "hashtab st"
  have inv: "sized st" "hash_ok (qname_at st) ?ht" "hash_data ?ht = dom (cents st)" using assms by (simp_all add: cache_inv_sized)
  have len: "length ?ht = HASH_NUM_BUCKETS" using inv(2) by (simp add: hash_ok_def)
  have set_c: "cdata ` set (concat ?ht) = dom (cents st)" using inv(3) by (simp add: hash_data_def image_UN)
  have d: "distinct (map cdata (concat ?ht))" by (rule concat_distinct [OF inv(2)])
  from del_all_spec [OF inv(1) d] set_c obtain st' where
    s: "del_all del_cent (concat ?ht) st = Some st'" "sized st'" "cents st' = without (dom (cents st)) st" by auto
  have e: "cents st' = (\<lambda>a. None)" unfolding s(3) by (auto simp: without_def fun_eq_iff dom_def not_None_eq)
  let ?st = "st'\<lparr>hashtab := mk_dns_hash\<rparr>"
  have "destroy_cache st = Some ?st"
    using free_buckets_suffix [of 0 HASH_NUM_BUCKETS ?ht del_cent st] len s(1)
    by (simp add: destroy_cache_def on_table_def free_dns_hash_def mk_dns_hash_def)
  moreover have "hash_ok (qname_at ?st) mk_dns_hash" "hash_data mk_dns_hash = {}" using hash_ok_empty by blast+
  moreover have "heap_ok st'" "cache_size st' = 0" "ent_num st' = 0" using s(2) e by (simp_all add: sized_def total_def)
  moreover from this have "rrset_l st' = []" using e by (simp add: heap_ok_def)
  moreover have "sized ?st" using s(2) by (simp add: sized_def heap_ok_def total_def)
  ultimately show ?thesis using e by (simp add: cache_inv_sized)
qed

subsection \<open>Changing entries in place\<close>

text \<open>The sets of an entry after \<open>invalidate_record\<close>.\<close>

definition outdated :: "rr_set \<Rightarrow> rr_set" where
  "outdated s = s\<lparr>rs_ts := 0, rs_flags := rs_flags s AND NOT CF_AUTH\<rparr>"

lemma outdated_fields [simp]: "rs_lent (outdated s) = rs_lent s" "rs_rrs (outdated s) = rs_rrs s"
  by (simp_all add: outdated_def)

lemma invalidate_sets_spec:
  assumes "cok a c st" and "\<forall>i \<in> set is. i < ilim c" and "distinct is"
  shows "\<exists>c'. invalidate_sets is c = Some c' \<and> cok a c' st \<and> same_head c c' \<and> ce_flags c' = ce_flags c \<and> cs c' = cs c \<and>
    (\<forall>j < NRRTOT. slot c' j = (if j \<in> set is then map_option outdated (slot c j) else slot c j))"
  using assms
proof (induction "is" arbitrary: c)
  case Nil
  then show ?case by simp
next
  case (Cons i "is")
  have ok: "cent_ok c" using Cons.prems(1) by (rule cok_cent_ok)
  have i: "i < ilim c" "i < NRRTOT" "i \<notin> set is" using Cons.prems(2,3) ilim_le [of c] by auto
  have R: "RRARR_INDEX c i = Some (slot c i)" using ok i(1) by simp
  show ?case
  proof (cases "slot c i")
    case None
    from Cons.IH [OF Cons.prems(1)] Cons.prems(2,3) obtain c' where IH: "invalidate_sets is c = Some c'" "cok a c' st"
      "same_head c c'" "ce_flags c' = ce_flags c" "cs c' = cs c"
      "\<forall>j < NRRTOT. slot c' j = (if j \<in> set is then map_option outdated (slot c j) else slot c j)" by auto
    have "slot c' j = (if j \<in> set (i # is) then map_option outdated (slot c j) else slot c j)" if "j < NRRTOT" for j
      using IH(6) that None by (cases "j = i") simp_all
    with IH(1-5) R None show ?thesis by simp
  next
    case (Some s)
    have "rs_lent (outdated s) = rs_lent s" "rs_rrs (outdated s) = rs_rrs s" by simp_all
    from cok_set_same [OF Cons.prems(1) i(2) Some this] obtain c1 where c1: "set_slot c i (Some (outdated s)) = Some c1"
      "cok a c1 st" "slots (body c1) = (slots (body c))[i := Some (outdated s)]" "same_head c c1" "cs c1 = cs c"
      "ilim c1 = ilim c" "ce_flags c1 = ce_flags c" by blast
    from Cons.IH [OF c1(2)] Cons.prems(2,3) c1(6) obtain c' where IH: "invalidate_sets is c1 = Some c'" "cok a c' st"
      "same_head c1 c'" "ce_flags c' = ce_flags c1" "cs c' = cs c1"
      "\<forall>j < NRRTOT. slot c' j = (if j \<in> set is then map_option outdated (slot c1 j) else slot c1 j)" by auto
    have "slot c' j = (if j \<in> set (i # is) then map_option outdated (slot c j) else slot c j)" if "j < NRRTOT" for j
      using IH(6) that c1(3) Some ok i(3) by (cases "j = i") simp_all
    moreover have "invalidate_sets (i # is) c = Some c'" using R Some c1(1) IH(1) by (simp add: outdated_def)
    ultimately show ?thesis using IH(2,4,5) c1(5,7) same_head_trans [OF c1(4) IH(3)] by simp
  qed
qed

lemma has_clear_auth: "has (fl AND NOT DF_AUTH) DF_NEGATIVE = has fl DF_NEGATIVE"
  by (rule has_clear) (simp add: df_defs)

text \<open>The loop touches nothing but the record sets.\<close>

lemma set_slot_body:
  assumes "set_slot c i v = Some c1"
  shows "\<exists>b. c1 = c\<lparr>body := b\<rparr> \<and> is_neg b = is_neg (body c) \<and> has_ext b = has_ext (body c)"
  using assms by (auto simp: set_slot_def bind_eq_Some_conv split: cent_body.splits if_splits option.splits)

lemma invalidate_sets_body:
  assumes "invalidate_sets is c = Some c'"
  shows "\<exists>b. c' = c\<lparr>body := b\<rparr> \<and> is_neg b = is_neg (body c) \<and> has_ext b = has_ext (body c)"
  using assms
proof (induction "is" arbitrary: c)
  case (Cons i "is")
  then obtain r where r: "RRARR_INDEX c i = Some r" by (cases "RRARR_INDEX c i") simp_all
  show ?case
  proof (cases r)
    case None
    with Cons r show ?thesis by simp
  next
    case (Some s)
    with Cons.prems r obtain c1 v where c1: "set_slot c i v = Some c1" "invalidate_sets is c1 = Some c'"
      by (auto simp: bind_eq_Some_conv)
    from set_slot_body [OF c1(1)] obtain b1 where
      b1: "c1 = c\<lparr>body := b1\<rparr>" "is_neg b1 = is_neg (body c)" "has_ext b1 = has_ext (body c)" by blast
    from Cons.IH [OF c1(2)] b1 show ?thesis by auto
  qed
next
  case Nil
  then show ?case by (intro exI [of _ "body c"]) simp
qed

text \<open>The entry after \<open>invalidate_record\<close>, all of it.\<close>

fun outdated_body :: "cent_body \<Rightarrow> cent_body" where
  "outdated_body (Neg l ttl ts) = Neg l ttl 0"
| "outdated_body (Recs mu ext) = Recs (map (map_option outdated) mu) (map_option (map (map_option outdated)) ext)"

definition invalidated :: "dns_cent \<Rightarrow> dns_cent \<Rightarrow> bool" where
  "invalidated c c' \<longleftrightarrow> c' = c\<lparr>body := outdated_body (body c), ce_flags := ce_flags c AND NOT DF_AUTH\<rparr>"

lemma slots_outdated_body: "slots (outdated_body b) = map (map_option outdated) (slots b)"
  by (cases b) (auto split: option.splits)

lemma slot_invalidated:
  assumes "invalidated c c'" and "cent_ok c" and "i < NRRTOT"
  shows "slot c' i = map_option outdated (slot c i)"
  using assms by (simp add: invalidated_def slots_outdated_body length_slots cent_ok_def)

lemma outdated_body_slots:
  assumes "body_ok b" and "body_ok b'" and "\<not> is_neg b" and "is_neg b' = is_neg b" and "has_ext b' = has_ext b"
    and "\<forall>i < NRRTOT. slots b' ! i = map_option outdated (slots b ! i)"
  shows "b' = outdated_body b"
proof -
  have "slots b' = slots (outdated_body b)"
    unfolding slots_outdated_body by (rule nth_equalityI) (use assms length_slots in simp_all)
  with assms show ?thesis by (cases b; cases b') (auto split: option.splits)
qed

lemma invalidate_ent:
  assumes "cok a c st"
  shows "\<exists>c1. (if \<not> has (ce_flags c) DF_NEGATIVE then do { ilim \<leftarrow> RRARR_LEN c; invalidate_sets [0..<ilim] c }
      else case body c of Recs mu ext \<Rightarrow> None | Neg l ttl ts \<Rightarrow> Some (c\<lparr>body := Neg l ttl 0\<rparr>)) = Some c1 \<and>
    invalidated c (c1\<lparr>ce_flags := ce_flags c1 AND NOT DF_AUTH\<rparr>) \<and> cok a (c1\<lparr>ce_flags := ce_flags c1 AND NOT DF_AUTH\<rparr>) st \<and>
    cs c1 = cs c"
proof -
  have ok: "cent_ok c" using assms by (rule cok_cent_ok)
  have clear: "cok a c1 st \<Longrightarrow> cok a (c1\<lparr>ce_flags := ce_flags c1 AND NOT DF_AUTH\<rparr>) st" for c1
    by (rule cok_flags) (simp_all add: has_clear_auth)
  show ?thesis
  proof (cases "body c")
    case (Neg l ttl ts)
    let ?c = "c\<lparr>body := Neg l ttl 0\<rparr>"
    have n: "has (ce_flags c) DF_NEGATIVE" using ok Neg by (simp add: cent_ok_def)
    have "cent_ok ?c" using ok Neg by (simp add: cent_ok_def ext_size_def)
    moreover have "lents_of a ?c = lents_of a c" "ptr_ok a ?c = ptr_ok a c" using Neg by (simp_all add: lents_of_def ptr_ok_def)
    ultimately have "cok a ?c st" using assms by (simp add: cok_def)
    from clear [OF this] n Neg show ?thesis by (intro exI [of _ ?c]) (simp add: invalidated_def)
  next
    case (Recs mu ext)
    have n: "\<not> has (ce_flags c) DF_NEGATIVE" using ok Recs by (simp add: cent_ok_def)
    have "\<forall>i \<in> set [0..<ilim c]. i < ilim c" by simp
    from invalidate_sets_spec [OF assms this distinct_upt] obtain c1 where c1: "invalidate_sets [0..<ilim c] c = Some c1"
      "cok a c1 st" "same_head c c1" "ce_flags c1 = ce_flags c" "cs c1 = cs c"
      "\<forall>j < NRRTOT. slot c1 j = (if j \<in> set [0..<ilim c] then map_option outdated (slot c j) else slot c j)" by blast
    have "slot c1 j = map_option outdated (slot c j)" if "j < NRRTOT" for j
      using c1(6) that slot_beyond [OF ok _ that] by (cases "j < ilim c") simp_all
    then have "\<forall>j < NRRTOT. slot c1 j = map_option outdated (slot c j)" by blast
    moreover from invalidate_sets_body [OF c1(1)] obtain b where
      b: "c1 = c\<lparr>body := b\<rparr>" "is_neg b = is_neg (body c)" "has_ext b = has_ext (body c)" by blast
    ultimately have "b = outdated_body (body c)" using ok cok_cent_ok [OF c1(2)] Recs
      by (intro outdated_body_slots) (simp_all add: cent_ok_def)
    with b(1) have "invalidated c (c1\<lparr>ce_flags := ce_flags c1 AND NOT DF_AUTH\<rparr>)"
      unfolding invalidated_def by simp
    with clear [OF c1(2)] n ok c1(1,5) show ?thesis by simp
  qed
qed

lemma invalidate_record_spec:
  assumes "cache_inv st" and "dns_name nm"
  shows "\<exists>st'. invalidate_record (enc nm) st = Some st' \<and> cache_inv st' \<and> same_conf st st' \<and>
    (case find_name st nm of None \<Rightarrow> st' = st
     | Some a \<Rightarrow> \<exists>c c'. cents st a = Some c \<and> st' = put_cent a c' st \<and> invalidated c c')"
proof -
  note core = cache_inv_core [OF assms(1)]
  from core_lookup_find(1) [OF core assms(2), of "[]"] obtain loc where
    lk: "dns_lookup (qname_at st) (hashtab st) (enc nm) = Some (find_name st nm, loc)" by auto
  show ?thesis
  proof (cases "find_name st nm")
    case None
    with lk assms(1) show ?thesis by (simp add: invalidate_record_def)
  next
    case (Some a)
    from core_lookup_find(3) [OF core assms(2) Some] obtain c where c: "cents st a = Some c" "cok a c st" by blast
    from invalidate_ent [OF c(2)] obtain c1 where
      i: "(if \<not> has (ce_flags c) DF_NEGATIVE then do { ilim \<leftarrow> RRARR_LEN c; invalidate_sets [0..<ilim] c }
          else case body c of Recs mu ext \<Rightarrow> None | Neg l ttl ts \<Rightarrow> Some (c\<lparr>body := Neg l ttl 0\<rparr>)) = Some c1"
        "invalidated c (c1\<lparr>ce_flags := ce_flags c1 AND NOT DF_AUTH\<rparr>)"
        "cok a (c1\<lparr>ce_flags := ce_flags c1 AND NOT DF_AUTH\<rparr>) st" "cs c1 = cs c" by blast
    let ?c = "c1\<lparr>ce_flags := ce_flags c1 AND NOT DF_AUTH\<rparr>"
    have run: "invalidate_record (enc nm) st = Some (put_cent a ?c st)"
      unfolding invalidate_record_def using lk Some c(1) i(1) by simp
    have "qname ?c = qname c" "cs ?c = cs c" using i(2,4) unfolding invalidated_def by (metis dns_cent.select_convs(1) dns_cent.surjective dns_cent.update_convs(4,5), simp)
    from cache_inv_put [OF assms(1) c(1) frame_refl i(3) this] have "cache_inv (put_cent a ?c st)" .
    moreover have "same_conf st (put_cent a ?c st)" "cents (put_cent a ?c st) = (cents st)(a \<mapsto> ?c)" by simp_all
    ultimately show ?thesis using run c(1) i(2) Some
      by (intro exI [of _ "put_cent a ?c st"] conjI) (auto simp del: put_cent_fields)
  qed
qed

lemma set_cent_flags_spec:
  assumes "cache_inv st" and "dns_name nm" and "fl AND DF_NEGATIVE = 0"
  shows "\<exists>st'. set_cent_flags (enc nm) fl st = Some (find_name st nm \<noteq> None, st') \<and> cache_inv st' \<and> same_conf st st' \<and>
    (case find_name st nm of None \<Rightarrow> st' = st
     | Some a \<Rightarrow> \<exists>c. cents st a = Some c \<and> st' = put_cent a (c\<lparr>ce_flags := ce_flags c OR fl\<rparr>) st)"
proof -
  note core = cache_inv_core [OF assms(1)]
  from core_lookup_find(1) [OF core assms(2), of "[]"] obtain loc where
    lk: "dns_lookup (qname_at st) (hashtab st) (enc nm) = Some (find_name st nm, loc)" by auto
  show ?thesis
  proof (cases "find_name st nm")
    case None
    with lk assms(1) show ?thesis by (simp add: set_cent_flags_def)
  next
    case (Some a)
    from core_lookup_find(3) [OF core assms(2) Some] obtain c where c: "cents st a = Some c" "cok a c st" by blast
    let ?c = "c\<lparr>ce_flags := ce_flags c OR fl\<rparr>"
    have "cok a ?c st" using c(2) assms(3) by (intro cok_flags) (simp_all add: has_or)
    from cache_inv_put [OF assms(1) c(1) frame_refl this] have "cache_inv (put_cent a ?c st)" by simp
    moreover have "set_cent_flags (enc nm) fl st = Some (True, put_cent a ?c st)"
      using lk Some c(1) by (simp add: set_cent_flags_def)
    ultimately show ?thesis using c(1) Some by simp
  qed
qed

end
