(* ===== verification/Cache_Correct.thy ===== *)
theory Cache_Correct
  imports Cache_Add_Top Cache_Ops
begin

text \<open>
  What the cache promises: a step relation of its operations with the invariant of the reachable
  states, and the properties of the single operations.
\<close>

subsection \<open>The cache as a state machine\<close>

text \<open>
  The environment changes the time and decides which allocations fail. A new entry given to
  \<open>add_cache\<close> is well formed and not linked into the list, as \<open>init_cent\<close> and \<open>add_cent_rr\<close>
  build it; the list has to stay within what \<open>sort_rrl\<close> can sort.
\<close>

definition new_entry :: "dns_cent \<Rightarrow> bool" where
  "new_entry c \<longleftrightarrow> cent_ok c \<and> detached c"

definition has_room :: "cache \<Rightarrow> bool" where
  "has_room st \<longleftrightarrow> length (rrset_l st) + NRRTOT < 2 ^ NTMPSORT"

inductive step_adding :: "(dns_cent \<Rightarrow> bool) \<Rightarrow> cache \<Rightarrow> cache \<Rightarrow> bool" for ok where
  tick: "step_adding ok st (st\<lparr>now := t\<rparr>)"
| alloc: "step_adding ok st (st\<lparr>mem := m\<rparr>)"
| add: "ok cent \<Longrightarrow> new_entry cent \<Longrightarrow> has_room st \<Longrightarrow> add_cache cent st = Some st' \<Longrightarrow> step_adding ok st st'"
| lookup: "dns_name nm \<Longrightarrow> lookup_cache (enc nm @ q) wild st = Some (ret, w, st') \<Longrightarrow> step_adding ok st st'"
| delete: "dns_name nm \<Longrightarrow> del_cache (enc nm) st = Some st' \<Longrightarrow> step_adding ok st st'"
| invalidate: "dns_name nm \<Longrightarrow> invalidate_record (enc nm) st = Some st' \<Longrightarrow> step_adding ok st st'"
| flags: "dns_name nm \<Longrightarrow> fl AND DF_NEGATIVE = 0 \<Longrightarrow> set_cent_flags (enc nm) fl st = Some (b, st') \<Longrightarrow> step_adding ok st st'"
| purge: "length (rrset_l st) < 2 ^ NTMPSORT \<Longrightarrow> purge_cache sz lazy st = Some st' \<Longrightarrow> step_adding ok st st'"
| empty: "\<forall>(d, e, i) \<in> set rules. dns_name d \<Longrightarrow>
    empty_cache (if all then None else Some (sla_of rules)) st = Some st' \<Longrightarrow> step_adding ok st st'"
| destroy: "destroy_cache st = Some st' \<Longrightarrow> step_adding ok st st'"

inductive reachable_adding :: "(dns_cent \<Rightarrow> bool) \<Rightarrow> cache \<Rightarrow> bool" for ok where
  init: "reachable_adding ok (init_cache t mint maxt negt perm m)"
| step: "reachable_adding ok st \<Longrightarrow> step_adding ok st st' \<Longrightarrow> reachable_adding ok st'"

inductive_cases cache_stepE: "step_adding ok st st'"

abbreviation cache_step :: "cache \<Rightarrow> cache \<Rightarrow> bool" where
  "cache_step \<equiv> step_adding (\<lambda>c. True)"

abbreviation cache_reachable :: "cache \<Rightarrow> bool" where
  "cache_reachable \<equiv> reachable_adding (\<lambda>c. True)"

lemma sel_by_all: "sel_by None (\<lambda>a. True) st"
  by (simp add: sel_by_def)

text \<open>The entries that a list of rules selects.\<close>

definition rule_sel :: "(bytes list \<times> bool \<times> bool) list \<Rightarrow> cache \<Rightarrow> nat \<Rightarrow> bool" where
  "rule_sel rules st a \<longleftrightarrow> (\<exists>nm. qname_at st a = Some (enc nm) \<and> dns_name nm \<and> selected_ref nm rules)"

lemma sel_by_rules:
  assumes "cache_inv st" and "\<forall>(d, e, i) \<in> set rules. dns_name d"
  shows "sel_by (Some (sla_of rules)) (rule_sel rules st) st"
proof -
  have "\<exists>nm. qname_at st a = Some nm \<and> selected nm (sla_of rules) = Some (rule_sel rules st a)" if "a \<in> dom (cents st)" for a
  proof -
    from that obtain c where c: "cents st a = Some c" by blast
    from cok_name [OF cache_inv_cok [OF assms(1) c]] obtain ls where ls: "qname c = enc ls" "dns_name ls" by blast
    have q: "qname_at st a = Some (enc ls)" using c ls by (simp add: qname_at_def)
    have "rule_sel rules st a = selected_ref ls rules" using q ls(2) by (auto simp: rule_sel_def dest: dns_enc_inj)
    with q selected_correct [OF ls(2) assms(2)] show ?thesis by simp
  qed
  then show ?thesis by (simp add: sel_by_def)
qed

lemma was_entered_inv: "was_entered cent st st' \<Longrightarrow> cache_inv st'"
  by (auto simp: was_entered_def)

lemma add_outcome_inv: "add_outcome cent st st' \<Longrightarrow> cache_inv st'"
  by (auto simp: add_outcome_def not_entered_def refreshed_def was_entered_inv)

lemma cache_step_inv:
  assumes "step_adding ok st st'" and "cache_inv st"
  shows "cache_inv st'"
  using assms
proof (induction rule: step_adding.induct)
  case (tick st t)
  have "qname_at (st\<lparr>now := t\<rparr>) = qname_at st" by (rule qname_at_eq) simp
  with tick show ?case by (simp add: cache_inv_def core_def heap_ok_def table_ok_def total_def cok_def)
next
  case (alloc st m)
  then show ?case by (simp add: cache_inv_def)
next
  case (add cent st st')
  from add_cache_spec [of st cent] add have "add_outcome cent st st'" by (auto simp: new_entry_def has_room_def)
  then show ?case by (rule add_outcome_inv)
next
  case (lookup nm q wild st ret w st')
  with lookup_cache_spec [of st nm q wild] show ?case by (auto simp: lookup_result_def)
next
  case (delete nm st st')
  with del_cache_spec [of st nm] show ?case by auto
next
  case (invalidate nm st st')
  with invalidate_record_spec [of st nm] show ?case by auto
next
  case (flags nm fl st b st')
  with set_cent_flags_spec [of st nm fl] show ?case by auto
next
  case (purge st sz lazy st')
  with purge_cache_spec [of st sz lazy] show ?case by auto
next
  case (empty rules all st st')
  show ?case
  proof (cases all)
    case True
    with empty empty_cache_spec [OF _ sel_by_all, of st] show ?thesis by auto
  next
    case False
    with empty empty_cache_spec [OF _ sel_by_rules, of st rules] show ?thesis by auto
  qed
next
  case (destroy st st')
  with destroy_cache_spec [of st] show ?case by auto
qed

lemma cache_reachable_inv: "reachable_adding ok st \<Longrightarrow> cache_inv st"
  by (induction rule: reachable_adding.induct) (auto intro: init_cache_inv cache_step_inv)


text \<open>A concrete entry for the examples: the name \<open>a\<close> with an A record.\<close>

definition demo_set :: "flags \<Rightarrow> rr_set" where
  "demo_set fl = \<lparr>rs_lent = None, rs_ttl = 300, rs_ts = 1000, rs_flags = fl, rs_rrs = [[1, 2, 3, 4]]\<rparr>"

definition demo_cent :: "flags \<Rightarrow> dns_cent" where
  "demo_cent fl = \<lparr>qname = enc [str ''a''], cs = 167, num_rrs = 1, ce_flags = 0,
     body = Recs (Some (demo_set fl) # replicate 7 None) None, c_ns = cundef, c_soa = cundef\<rparr>"

definition demo_cache :: cache where
  "demo_cache = init_cache 1000 120 604800 900 2048 []"

lemma demo_name: "dns_name [str ''a'']" "enc [str ''a''] = [1, 97, 0]"
  by code_simp+

lemma demo_slot: "i < NRRTOT \<Longrightarrow> slot (demo_cent fl) i = (if i = 0 then Some (demo_set fl) else None)"
proof (cases i)
  case (Suc k)
  assume "i < NRRTOT"
  have "slot (demo_cent fl) i = (replicate 7 None @ replicate NRREXT None) ! k" by (simp add: demo_cent_def Suc)
  also have "\<dots> = None" using \<open>i < NRRTOT\<close> Suc by (simp add: nth_append nrr_defs)
  finally show ?thesis using Suc by simp
qed (simp add: demo_cent_def)

lemma demo_entry: "new_entry (demo_cent fl)" "qname (demo_cent fl) = enc [str ''a'']" "num_rrs (demo_cent fl) \<noteq> 0"
    "\<not> is_neg (body (demo_cent fl))" "slot (demo_cent fl) 0 = Some (demo_set fl)"
proof -
  have b: "body (demo_cent fl) = Recs (Some (demo_set fl) # replicate 7 None) None" by (simp add: demo_cent_def)
  have sl: "slots (body (demo_cent fl)) = Some (demo_set fl) # replicate 7 None @ replicate NRREXT None" by (simp add: b)
  have e: "ext_size (body (demo_cent fl)) = 0" "body_ok (body (demo_cent fl))" "is_neg (body (demo_cent fl)) = has 0 DF_NEGATIVE"
    by (simp_all add: b ext_size_def nrr_defs has_def)
  have "sets_size (slots (body (demo_cent fl))) = 60"
    unfolding sl by (simp add: slot_size_def rr_set_size_def demo_set_def sizeof_rr_set_def sizeof_rr_bucket_def)
  moreover have "sets_count (slots (body (demo_cent fl))) = 1" unfolding sl by simp
  moreover have q: "qname (demo_cent fl) = enc [str ''a'']" by (simp only: demo_cent_def dns_cent.simps)
  then have "\<exists>ls. qname (demo_cent fl) = enc ls \<and> dns_name ls" using demo_name(1) by blast
  moreover have "length (qname (demo_cent fl)) = 3" using demo_name(2) by (simp add: demo_cent_def)
  moreover have "cs (demo_cent fl) = 167" "num_rrs (demo_cent fl) = 1" "ce_flags (demo_cent fl) = 0" by (simp_all add: demo_cent_def)
  ultimately have ok: "cent_ok (demo_cent fl)" using e by (simp add: cent_ok_def sizeof_dns_cent_def)
  have "\<not> linked (slot (demo_cent fl) i)" if "i < NRRTOT" for i
    using demo_slot [OF that] by (simp add: linked_def demo_set_def)
  then have "detached (demo_cent fl)" using e(2) b by (simp add: detached_iff)
  with ok show "new_entry (demo_cent fl)" by (simp add: new_entry_def)
  show "qname (demo_cent fl) = enc [str ''a'']" "num_rrs (demo_cent fl) \<noteq> 0" "\<not> is_neg (body (demo_cent fl))"
    "slot (demo_cent fl) 0 = Some (demo_set fl)" using b sl by (simp_all add: demo_cent_def)
qed

lemma demo_cache_ok: "cache_inv demo_cache" "has_room demo_cache" "mem demo_cache = []" "cents demo_cache = (\<lambda>a. None)"
    "cache_reachable demo_cache" "cache_size demo_cache = 0" "purge_limit demo_cache = 2107392"
  using init_cache_inv reachable_adding.init
  by (simp_all add: demo_cache_def init_cache_def has_room_def nrr_defs NTMPSORT_def purge_limit_def MCSZ_def)


subsection \<open>Reachable states\<close>

text \<open>
  C3: in every state the cache reaches from \<open>init_cache\<close> by the operations of the step relation,
  by changes of the time and by outcomes of allocations, the invariant holds: the hash table finds
  exactly the live entries, each once; the list of purgeable items and the record sets point to
  each other; \<open>cache_size\<close> and \<open>ent_num\<close> count the entries. And there none of these operations is
  undefined (follows a dangling pointer, leaves an array or fails an assertion): \<open>lookup_cache\<close>,
  \<open>del_cache\<close>, \<open>invalidate_record\<close>, \<open>set_cent_flags\<close> with flags other than \<open>DF_NEGATIVE\<close>,
  \<open>empty_cache\<close> with and without rules and \<open>destroy_cache\<close> without a condition on the state;
  \<open>add_cache\<close> and \<open>purge_cache\<close> while the list is below the length \<open>sort_rrl\<close> has room for. The
  step relation leaves out \<open>add_reverse_cache\<close>, which does not keep \<open>cache_size\<close> (a finding).
\<close>
theorem cache_reachable_safe:
  assumes "cache_reachable st"
  shows "cache_inv st \<and>
    (\<forall>cent. new_entry cent \<longrightarrow> has_room st \<longrightarrow> (\<exists>st'. add_cache cent st = Some st')) \<and>
    (\<forall>nm q wild. dns_name nm \<longrightarrow> (\<exists>r w st'. lookup_cache (enc nm @ q) wild st = Some (r, w, st'))) \<and>
    (\<forall>nm. dns_name nm \<longrightarrow> (\<exists>st'. del_cache (enc nm) st = Some st') \<and> (\<exists>st'. invalidate_record (enc nm) st = Some st')) \<and>
    (\<forall>nm fl. dns_name nm \<longrightarrow> fl AND DF_NEGATIVE = 0 \<longrightarrow> (\<exists>b st'. set_cent_flags (enc nm) fl st = Some (b, st'))) \<and>
    (\<forall>sz lazy. has_room st \<longrightarrow> (\<exists>st'. purge_cache sz lazy st = Some st')) \<and>
    (\<exists>st'. empty_cache None st = Some st') \<and>
    (\<forall>rules. (\<forall>(d, e, i) \<in> set rules. dns_name d) \<longrightarrow> (\<exists>st'. empty_cache (Some (sla_of rules)) st = Some st')) \<and>
    (\<exists>st'. destroy_cache st = Some st')"
proof -
  have i: "cache_inv st" using assms by (rule cache_reachable_inv)
  have add: "\<forall>cent. new_entry cent \<longrightarrow> has_room st \<longrightarrow> (\<exists>st'. add_cache cent st = Some st')"
    using add_cache_spec [OF i] unfolding new_entry_def has_room_def by meson
  have purge: "\<forall>sz lazy. has_room st \<longrightarrow> (\<exists>st'. purge_cache sz lazy st = Some st')"
    using purge_cache_spec [OF i] unfolding has_room_def by (meson add_lessD1)
  have empty: "\<forall>rules. (\<forall>(d, e, i) \<in> set rules. dns_name d) \<longrightarrow> (\<exists>st'. empty_cache (Some (sla_of rules)) st = Some st')"
    using empty_cache_spec [OF i sel_by_rules [OF i]] by meson
  note del = del_cache_spec [OF i] invalidate_record_spec [OF i] and flags = set_cent_flags_spec [OF i]
  show ?thesis
    using i add purge empty lookup_cache_spec [OF i] del flags empty_cache_spec [OF i sel_by_all] destroy_cache_spec [OF i] by meson
qed

theorem cache_reachable_safe_witness:
  "cache_reachable demo_cache \<and> (\<exists>st. add_cache (demo_cent 0) demo_cache = Some st \<and> cache_reachable st)"
proof -
  from cache_reachable_safe [OF demo_cache_ok(5)] demo_entry(1) demo_cache_ok(2) obtain st where
    "add_cache (demo_cent 0) demo_cache = Some st" by blast
  with demo_cache_ok(2,5) demo_entry(1) show ?thesis by (blast intro: reachable_adding.step step_adding.add [where ok = "\<lambda>c. True"])
qed

subsection \<open>Adding\<close>

lemma pur_local:
  assumes "pur st st'" and "cents st a = Some c" and "i < NRRTOT" and "local_slot c i"
  shows "\<exists>c'. cents st' a = Some c' \<and> qname c' = qname c \<and> slot c' i = slot c i"
proof -
  have "kept c" using assms(3,4) by (auto simp: kept_def)
  with assms(1,2) obtain c' where "cents st' a = Some c'" "pur_ent c c'"
    unfolding pur_def by (cases "cents st' a") fastforce+
  with assms(3,4) pur_ent_local [of c c' i] show ?thesis by (auto simp: pur_ent_def)
qed

definition keeps_local :: "cache \<Rightarrow> cache \<Rightarrow> bool" where
  "keeps_local st st' \<longleftrightarrow> (\<forall>a c i. cents st a = Some c \<longrightarrow> i < NRRTOT \<longrightarrow> local_slot c i \<longrightarrow>
     (\<exists>c'. cents st' a = Some c' \<and> qname c' = qname c \<and> slot c' i = slot c i))"

lemma keeps_local_pur: "pur st st' \<Longrightarrow> keeps_local st st'"
  unfolding keeps_local_def using pur_local by blast

lemma keeps_local_trans:
  assumes "keeps_local st st1" and "keeps_local st1 st2"
  shows "keeps_local st st2"
  unfolding keeps_local_def
proof (intro allI impI)
  fix a c i assume a: "cents st a = Some c" "i < NRRTOT" "local_slot c i"
  with assms(1) obtain c1 where c1: "cents st1 a = Some c1" "qname c1 = qname c" "slot c1 i = slot c i"
    unfolding keeps_local_def by blast
  then have "local_slot c1 i" using a(3) by (simp add: local_slot_def)
  with assms(2) a(2) c1 obtain c2 where "cents st2 a = Some c2" "qname c2 = qname c1" "slot c2 i = slot c1 i"
    unfolding keeps_local_def by blast
  with c1 show "\<exists>c'. cents st2 a = Some c' \<and> qname c' = qname c \<and> slot c' i = slot c i" by simp
qed

lemma keeps_local_same:
  "(\<And>a c. cents st a = Some c \<Longrightarrow> cents st' a = Some c \<or> \<not> some_local c) \<Longrightarrow> keeps_local st st'"
  unfolding keeps_local_def some_local_def by blast

lemma keeps_local_new:
  assumes "not_entered st st' \<or> was_entered cent st st'"
  shows "keeps_local st st'"
  using assms
proof
  assume "not_entered st st'"
  then show ?thesis by (auto simp: not_entered_def intro: keeps_local_pur)
next
  assume "was_entered cent st st'"
  then obtain a c st5 where w: "cents st a = None" "cents st5 = (cents st)(a \<mapsto> c)" "pur st5 st'"
    unfolding was_entered_def by blast
  have "keeps_local st st5" using w(1,2) by (intro keeps_local_same) auto
  then show ?thesis using keeps_local_pur [OF w(3)] by (rule keeps_local_trans)
qed

lemma keeps_local_refreshed:
  assumes "refreshed cent a st st'" and "nonlocal_cent cent"
  shows "keeps_local st st'"
proof -
  from assms(1) obtain c c1 c2 fl n m st4 where r: "cents st a = Some c" "pur_ent c c1" "merged st cent c1 c2"
    "cents st4 = (cents st)(a \<mapsto> c2\<lparr>ce_flags := fl, c_ns := n, c_soa := m\<rparr>)" "pur st4 st'"
    unfolding refreshed_def by blast
  have "keeps_local st st4"
    unfolding keeps_local_def
  proof (intro allI impI)
    fix b cb i assume b: "cents st b = Some cb" "i < NRRTOT" "local_slot cb i"
    show "\<exists>c'. cents st4 b = Some c' \<and> qname c' = qname cb \<and> slot c' i = slot cb i"
    proof (cases "b = a")
      case True
      with b r(1) have c: "local_slot c i" "cb = c" by simp_all
      have 1: "slot c1 i = slot c i" by (rule pur_ent_local [OF r(2) b(2) c(1)])
      then have "local_slot c1 i" using c(1) by (simp add: local_slot_def)
      then have "slot c2 i = slot c1 i" using r(3) assms(2) b(2) by (simp add: merged_def)
      moreover have "qname c2 = qname c" using r(2,3) by (simp add: merged_def same_head_def pur_ent_def)
      ultimately show ?thesis using r(4) True 1 c(2) by simp
    qed (use b r(4) in simp)
  qed
  then show ?thesis using keeps_local_pur [OF r(5)] by (rule keeps_local_trans)
qed

text \<open>
  C17: local data (from the configuration or a hosts file) is never lost to data from the network:
  when \<open>add_cache\<close> adds an entry without local record sets, positive or negative, every local
  record set of the cache is still there, unchanged and under the same name, whatever the entry
  conflicts with, whatever \<open>add_cache\<close> purges to make room and whatever allocation fails.
\<close>
theorem add_cache_keeps_local:
  assumes "cache_inv st" and "new_entry cent" and "nonlocal_cent cent" and "has_room st"
  shows "\<exists>st'. add_cache cent st = Some st' \<and> keeps_local st st'"
proof -
  from add_cache_spec [OF assms(1)] assms(2,4) obtain st' where
    st': "add_cache cent st = Some st'" "add_outcome cent st st'" by (auto simp: new_entry_def has_room_def)
  have "keeps_local st st'"
  proof -
    consider "not_entered st st' \<or> was_entered cent st st'" | a where "refreshed cent a st st'"
      | a c st1 where "cents st a = Some c" "\<not> some_local c" "cents st1 = (cents st)(a := None)"
          "not_entered st1 st' \<or> was_entered cent st1 st'"
      using st'(2) unfolding add_outcome_def by blast
    then show ?thesis
    proof cases
      case 3
      have "keeps_local st st1" using 3(1-3) by (intro keeps_local_same) auto
      then show ?thesis using keeps_local_new [OF 3(4)] by (rule keeps_local_trans)
    qed (use keeps_local_new keeps_local_refreshed assms(3) in blast)+
  qed
  with st'(1) show ?thesis by blast
qed


text \<open>A name that is not in the cache, with memory and room: the entry is found afterwards.\<close>

lemma purge_cache_idle:
  assumes "cache_size st \<le> sz"
  shows "purge_cache sz True st = Some st"
proof -
  have "purge_loop f (\<lambda>s. sz < cache_size s) n le st = Some st" for f n le
    using assms by (cases le) simp_all
  then show ?thesis using assms by (simp add: purge_cache_def)
qed

lemma add_cache_fresh:
  assumes "cache_inv st" and "new_entry cent" and "has_room st" and "mem st = []"
    and "qname cent = enc nm" and "dns_name nm" and "find_name st nm = None"
    and "num_rrs cent \<noteq> 0 \<or> is_neg (body cent)" and "cache_size st + cs cent \<le> purge_limit st"
  shows "\<exists>st' a c. add_cache cent st = Some st' \<and> cache_inv st' \<and> find_name st' nm = Some a \<and> cents st a = None \<and>
    cents st' = (cents st)(a \<mapsto> c) \<and> stored_as st cent c"
proof -
  note core = cache_inv_core [OF assms(1)]
  have no: "\<forall>x. \<not> stored (qname_at st) (hashtab st) nm x"
    using core_lookup_find(2) [OF core assms(6)] assms(7) by auto
  from core_lookup [OF core assms(6), of "[]"] no obtain loc where
    l: "dns_lookup (qname_at st) (hashtab st) (enc nm) = Some (None, loc)" "insert_loc (hashtab st) nm loc" by auto
  have c: "cent_ok cent" "detached cent" using assms(2) by (simp_all add: new_entry_def)
  have "add_cache cent st = add_new cent loc st" using l(1) assms(5) by (simp add: add_cache_def numeral_2_eq_2)
  moreover from add_new_spec [OF assms(1,5,6) c l(2) no] assms(3,4,8) obtain st' where
    st': "add_new cent loc st = Some st'" "was_entered cent st st'" by (auto simp: has_room_def)
  ultimately have run: "add_cache cent st = Some st'" by simp
  from st'(2) obtain a c5 st5 where w: "cents st a = None" "cents st5 = (cents st)(a \<mapsto> c5)" "stored_as st cent c5"
    "cache_size st5 = cache_size st + cs cent" "same_conf st st5" "cache_inv st5"
    "purge_cache (purge_limit st5) True st5 = Some st'" unfolding was_entered_def by blast
  have "purge_limit st5 = purge_limit st" using w(5) by (simp add: purge_limit_def same_conf_def)
  then have "st' = st5" using purge_cache_idle [of st5 "purge_limit st5"] w(4,7) assms(9) by simp
  moreover have "find_name st5 nm = Some a"
  proof -
    have "qname c5 = enc nm" using w(3) assms(5) by (simp add: stored_as_def)
    then have "stored (qname_at st5) (hashtab st5) nm a"
      using w(2,6) assms(6) by (auto simp: stored_def names_def qname_at_def cache_inv_def)
    then show ?thesis using core_lookup_find(2) [OF cache_inv_core [OF w(6)] assms(6)] by simp
  qed
  ultimately show ?thesis using run w(1-3,6) by blast
qed

lemma find_name_empty:
  assumes "cache_inv st" and "cents st = (\<lambda>a. None)" and "dns_name nm"
  shows "find_name st nm = None"
proof (cases "find_name st nm")
  case (Some a)
  from core_lookup_find(3) [OF cache_inv_core [OF assms(1)] assms(3) Some] assms(2) show ?thesis by simp
qed simp

text \<open>The cache with the example entry in it.\<close>

lemma has_room_single:
  assumes "cache_inv st" and "cents st = [a \<mapsto> c]"
  shows "has_room st"
proof -
  have "cok a c st" using cache_inv_cok [OF assms(1)] assms(2) by simp
  then have m: "lents_of a c = mine a (rrset_l st)" "distinct (rrset_l st)" by (simp_all add: cok_def)
  have "fst ` set (rrset_l st) \<subseteq> {a}" using assms by (auto simp: cache_inv_def core_def heap_ok_def)
  then have "set (rrset_l st) = mine a (rrset_l st)" by (auto simp: mine_def)
  with m have "length (rrset_l st) = card (lents_of a c)" by (metis distinct_card)
  also have "\<dots> \<le> NRRTOT" by (rule card_lents_of)
  finally show ?thesis by (simp add: has_room_def nrr_defs NTMPSORT_def)
qed

lemma demo_add:
  "\<exists>st a c. add_cache (demo_cent fl) demo_cache = Some st \<and> cache_inv st \<and> has_room st \<and> find_name st [str ''a''] = Some a \<and>
    cents st a = Some c \<and> stored_as demo_cache (demo_cent fl) c"
proof -
  have "find_name demo_cache [str ''a''] = None"
    by (rule find_name_empty [OF demo_cache_ok(1,4) demo_name(1)])
  moreover have "cache_size demo_cache + cs (demo_cent fl) \<le> purge_limit demo_cache"
    using demo_cache_ok by (simp add: demo_cent_def)
  ultimately obtain st a c where "add_cache (demo_cent fl) demo_cache = Some st" "cache_inv st"
    "find_name st [str ''a''] = Some a" "cents st = (cents demo_cache)(a \<mapsto> c)" "stored_as demo_cache (demo_cent fl) c"
    using add_cache_fresh [OF demo_cache_ok(1) demo_entry(1) demo_cache_ok(2,3) demo_entry(2) demo_name(1)] demo_entry(3) by blast
  moreover from this demo_cache_ok(4) have "cents st = [a \<mapsto> c]" by simp
  moreover from this have "has_room st" using \<open>cache_inv st\<close> by (intro has_room_single)
  ultimately show ?thesis by (metis fun_upd_same)
qed

lemma stored_as_slot:
  assumes "stored_as st c c'" and "i < NRRTOT" and "slot c i = Some s"
  shows "\<exists>s'. slot c' i = Some s' \<and> unlk s' = unlk (adjust_ttl st s)"
proof -
  have "map_option unlk (slot c' i) = Some (unlk (adjust_ttl st s))"
    using assms unfolding stored_as_def adjusted_slots_def by simp
  then show ?thesis by (cases "slot c' i") simp_all
qed

text \<open>The local record of the example survives an address from the network.\<close>

theorem add_cache_keeps_local_witness:
  "\<exists>st st' a c. cents st a = Some c \<and> local_slot c 0 \<and> add_cache (demo_cent 0) st = Some st' \<and>
     (\<exists>c'. cents st' a = Some c' \<and> slot c' 0 = slot c 0)"
proof -
  obtain st a c where s: "cache_inv st" "has_room st" "cents st a = Some c" "stored_as demo_cache (demo_cent CF_LOCAL) c"
    using demo_add [of CF_LOCAL] by blast
  have z: "0 < NRRTOT" by (simp add: nrr_defs)
  from stored_as_slot [OF s(4) z demo_entry(5)] obtain s' where
    s': "slot c 0 = Some s'" "unlk s' = unlk (adjust_ttl demo_cache (demo_set CF_LOCAL))" by blast
  have "rs_flags s' = rs_flags (adjust_ttl demo_cache (demo_set CF_LOCAL))"
    using arg_cong [OF s'(2), of rs_flags] by simp
  then have "has (rs_flags s') CF_LOCAL" by (simp add: demo_set_def) (simp add: has_def cf_defs)
  with s'(1) have loc: "local_slot c 0" by (simp add: local_slot_def)
  have "nonlocal_cent (demo_cent 0)"
    unfolding nonlocal_cent_def local_slot_def using demo_slot by (auto simp: demo_set_def has_def split: if_splits)
  from add_cache_keeps_local [OF s(1) demo_entry(1) this s(2)] obtain st' where
    st': "add_cache (demo_cent 0) st = Some st'" "keeps_local st st'" by blast
  from st'(2) s(3) z loc obtain c' where "cents st' a = Some c'" "slot c' 0 = slot c 0"
    unfolding keeps_local_def by blast
  with s(3) loc st'(1) show ?thesis by blast
qed

text \<open>
  C19: adding an entry for a name the cache does not know makes it known, when memory and room
  suffice: a lookup of the name finds the entry, which holds the record sets of the argument with
  their times to live adjusted to the configured limits (zero for uncachable ones), the same
  references and, for a negative entry, the adjusted time; every other entry is as before.
\<close>
theorem add_cache_found:
  assumes "cache_inv st" and "new_entry cent" and "has_room st" and "mem st = []"
    and "qname cent = enc nm" and "dns_name nm" and "find_name st nm = None"
    and "num_rrs cent \<noteq> 0 \<or> is_neg (body cent)" and "cache_size st + cs cent \<le> purge_limit st"
  shows "\<exists>st' a c. add_cache cent st = Some st' \<and> find_name st' nm = Some a \<and> cents st a = None \<and>
    cents st' = (cents st)(a \<mapsto> c) \<and> stored_as st cent c"
  using add_cache_fresh [OF assms] by blast

theorem add_cache_found_witness:
  "\<exists>st a c. add_cache (demo_cent 0) demo_cache = Some st \<and> find_name st [str ''a''] = Some a \<and> cents st a = Some c \<and>
     stored_as demo_cache (demo_cent 0) c"
proof -
  have "cache_size demo_cache + cs (demo_cent 0) \<le> purge_limit demo_cache" "num_rrs (demo_cent 0) \<noteq> 0 \<or> is_neg (body (demo_cent 0))"
    using demo_cache_ok demo_entry by (simp_all add: demo_cent_def)
  with add_cache_found [OF demo_cache_ok(1) demo_entry(1) demo_cache_ok(2,3) demo_entry(2) demo_name(1)
      find_name_empty [OF demo_cache_ok(1,4) demo_name(1)]] show ?thesis by (metis fun_upd_same)
qed

subsection \<open>Conflicting record types\<close>

definition all_conflict_free :: "cache \<Rightarrow> bool" where
  "all_conflict_free st \<longleftrightarrow> (\<forall>a c. cents st a = Some c \<longrightarrow> conflict_free c)"

lemma conflict_free_slots: "slots (body c') = slots (body c) \<Longrightarrow> conflict_free c' = conflict_free c"
  by (simp add: conflict_free_def)

lemma all_cf_pur: "pur st st' \<Longrightarrow> all_conflict_free st \<Longrightarrow> all_conflict_free st'"
  unfolding all_conflict_free_def
proof (intro allI impI)
  fix a c' assume p: "pur st st'" and f: "\<forall>a c. cents st a = Some c \<longrightarrow> conflict_free c" and c': "cents st' a = Some c'"
  then obtain c where c: "cents st a = Some c" "pur_ent c c'"
    unfolding pur_def by (metis option.distinct(1) option.exhaust option.simps(5))
  then have "\<forall>i < NRRTOT. slot c' i = slot c i \<or> slot c' i = None" by (auto simp: pur_ent_def)
  with f c(1) show "conflict_free c'" using conflict_free_sub by blast
qed

lemma conflict_free_stored:
  assumes "stored_as st c c'" and "conflict_free c"
  shows "conflict_free c'"
  unfolding conflict_free_def
proof (intro allI impI)
  fix i j s t
  assume j: "i < NRRTOT" "j < NRRTOT" "slot c' i = Some s" "slot c' j = Some t"
    "\<not> has (rs_flags s) CF_NEGATIVE" "\<not> has (rs_flags t) CF_NEGATIVE"
  have old: "\<exists>u. slot c k = Some u \<and> has (rs_flags u) CF_NEGATIVE = has (rs_flags v) CF_NEGATIVE"
    if "k < NRRTOT" "slot c' k = Some v" for k v
  proof -
    have "Some (unlk v) = map_option (\<lambda>s. unlk (adjust_ttl st s)) (slot c k)"
      using assms(1) that unfolding stored_as_def adjusted_slots_def by simp (metis option.simps(9))
    then obtain u where u: "slot c k = Some u" "unlk v = unlk (adjust_ttl st u)" by (cases "slot c k") auto
    have "rs_flags v = rs_flags (adjust_ttl st u)" using arg_cong [OF u(2), of rs_flags] by simp
    then show ?thesis using u(1) by simp
  qed
  from old [OF j(1,3)] old [OF j(2,4)] obtain u v where "slot c i = Some u" "slot c j = Some v"
    "\<not> has (rs_flags u) CF_NEGATIVE" "\<not> has (rs_flags v) CF_NEGATIVE" using j(5,6) by blast
  with assms(2) j(1,2) show "\<not> rr_conflict i j" unfolding conflict_free_def by blast
qed


lemma all_cf_new:
  assumes "not_entered st st' \<or> was_entered cent st st'" and "all_conflict_free st" and "conflict_free cent"
  shows "all_conflict_free st'"
  using assms(1)
proof
  assume "not_entered st st'"
  then show ?thesis using assms(2) by (auto simp: not_entered_def intro: all_cf_pur)
next
  assume "was_entered cent st st'"
  then obtain a c st5 where w: "cents st5 = (cents st)(a \<mapsto> c)" "stored_as st cent c" "pur st5 st'"
    unfolding was_entered_def by blast
  have "all_conflict_free st5"
    using assms(2) conflict_free_stored [OF w(2) assms(3)] w(1) by (auto simp: all_conflict_free_def split: if_splits)
  then show ?thesis by (rule all_cf_pur [OF w(3)])
qed

lemma all_cf_refreshed:
  assumes "refreshed cent a st st'" and "all_conflict_free st"
  shows "all_conflict_free st'"
proof -
  from assms(1) obtain c c1 c2 fl n m st4 where r: "cents st a = Some c" "pur_ent c c1" "merged st cent c1 c2"
    "cents st4 = (cents st)(a \<mapsto> c2\<lparr>ce_flags := fl, c_ns := n, c_soa := m\<rparr>)" "pur st4 st'"
    unfolding refreshed_def by blast
  have "conflict_free c" using assms(2) r(1) by (simp add: all_conflict_free_def)
  moreover have "\<forall>i < NRRTOT. slot c1 i = slot c i \<or> slot c1 i = None" using r(2) by (auto simp: pur_ent_def)
  ultimately have "conflict_free c1" by (rule conflict_free_sub)
  then have "conflict_free c2" using r(3) by (simp add: merged_def)
  then have "conflict_free (c2\<lparr>ce_flags := fl, c_ns := n, c_soa := m\<rparr>)" by (simp add: conflict_free_def)
  with assms(2) r(4) have "all_conflict_free st4" by (auto simp: all_conflict_free_def split: if_splits)
  then show ?thesis by (rule all_cf_pur [OF r(5)])
qed

lemma was_entered_new:
  assumes "was_entered cent st st'" and "cache_inv st" and "qname cent = enc nm" and "dns_name nm"
  shows "find_name st nm = None"
proof (rule ccontr)
  assume "find_name st nm \<noteq> None"
  then obtain b where b: "find_name st nm = Some b" by blast
  from assms(1) obtain a c st5 where w: "cents st a = None" "cents st5 = (cents st)(a \<mapsto> c)" "stored_as st cent c" "cache_inv st5"
    unfolding was_entered_def by blast
  note found = core_lookup_find [OF cache_inv_core [OF assms(2)] assms(4)] and found5 = core_lookup_find(2) [OF cache_inv_core [OF w(4)] assms(4)]
  from found(3) [OF b] obtain cb where cb: "cents st b = Some cb" by blast
  have "names nm (qname_at st) b" using found(2) [of b] b by (simp add: stored_def)
  then have "stored (qname_at st5) (hashtab st5) nm b"
    using w cb by (auto simp: stored_def names_def qname_at_def cache_inv_def)
  moreover have "stored (qname_at st5) (hashtab st5) nm a"
    using w assms(3,4) by (auto simp: stored_def names_def qname_at_def cache_inv_def stored_as_def)
  ultimately have "a = b" using found5 [of a] found5 [of b] by simp
  with w(1) cb show False by simp
qed

lemma was_entered_others:
  assumes "was_entered cent st st'" and "all_conflict_free st" and "cents st' b = Some cb" and "\<not> conflict_free cb"
  shows "cents st b = None \<and> qname cb = qname cent"
proof -
  from assms(1) obtain a c st5 where w: "cents st a = None" "cents st5 = (cents st)(a \<mapsto> c)" "stored_as st cent c" "pur st5 st'"
    unfolding was_entered_def by blast
  from w(4) assms(3) obtain c5 where c5: "cents st5 b = Some c5" "pur_ent c5 cb"
    unfolding pur_def by (metis option.distinct(1) option.exhaust option.simps(5))
  then have "\<forall>i < NRRTOT. slot cb i = slot c5 i \<or> slot cb i = None" by (auto simp: pur_ent_def)
  with assms(4) have n: "\<not> conflict_free c5" using conflict_free_sub by blast
  have "b = a"
  proof (rule ccontr)
    assume "b \<noteq> a"
    with w(2) c5(1) have "cents st b = Some c5" by simp
    with assms(2) n show False by (simp add: all_conflict_free_def)
  qed
  with w(1-3) c5 show ?thesis by (simp add: stored_as_def pur_ent_def)
qed

text \<open>
  C23: the cache stays consistent with respect to conflicting record types (a CNAME and addresses,
  say): when no entry of the cache holds two positive record sets whose types exclude each other,
  none does after \<open>add_cache\<close>, whatever is added, with one exception, the entry made for a name
  the cache did not know from an argument that itself holds such sets. For a known name
  \<open>cr_check_add\<close> keeps the conflicting sets apart; the branch for a new name takes the argument as
  it is, unchecked.
\<close>
theorem add_cache_conflict_free:
  assumes "cache_inv st" and "new_entry cent" and "has_room st" and "all_conflict_free st"
    and "qname cent = enc nm" and "dns_name nm"
  shows "\<exists>st'. add_cache cent st = Some st' \<and>
    (conflict_free cent \<or> find_name st nm \<noteq> None \<longrightarrow> all_conflict_free st') \<and>
    (\<forall>a c. cents st' a = Some c \<longrightarrow> \<not> conflict_free c \<longrightarrow> cents st a = None \<and> qname c = qname cent)"
proof -
  from add_cache_spec [OF assms(1)] assms(2,3) obtain st' where
    st': "add_cache cent st = Some st'" "add_outcome cent st st'" by (auto simp: new_entry_def has_room_def)
  have neg: "conflict_free cent" if "is_neg (body cent)" using that by (simp add: conflict_free_def neg_slot)
  consider "not_entered st st'" | "was_entered cent st st'" | a where "refreshed cent a st st'"
    | a st1 where "is_neg (body cent)" "cents st1 = (cents st)(a := None)" "not_entered st1 st' \<or> was_entered cent st1 st'"
    using st'(2) unfolding add_outcome_def by blast
  then have "all_conflict_free st' \<or> \<not> conflict_free cent \<and> was_entered cent st st'"
  proof cases
    case 4
    have "all_conflict_free st1" using assms(4) 4(2) by (simp add: all_conflict_free_def)
    then show ?thesis using all_cf_new [OF 4(3) _ neg [OF 4(1)]] by blast
  qed (use all_cf_new all_cf_refreshed assms(4) all_cf_pur not_entered_def in blast)+
  then show ?thesis
  proof
    assume f: "all_conflict_free st'"
    then show ?thesis using st'(1) by (auto simp: all_conflict_free_def)
  next
    assume w: "\<not> conflict_free cent \<and> was_entered cent st st'"
    then have "find_name st nm = None" using was_entered_new assms(1,5,6) by blast
    moreover from w assms(4) have "\<forall>a c. cents st' a = Some c \<longrightarrow> \<not> conflict_free c \<longrightarrow> cents st a = None \<and> qname c = qname cent"
      using was_entered_others [of cent st st'] by blast
    ultimately show ?thesis using st'(1) w by blast
  qed
qed

theorem add_cache_conflict_free_witness:
  "\<exists>st. add_cache (demo_cent 0) demo_cache = Some st \<and> all_conflict_free st"
proof -
  have "all_conflict_free demo_cache" using demo_cache_ok(4) by (simp add: all_conflict_free_def)
  moreover have "conflict_free (demo_cent 0)"
    unfolding conflict_free_def using demo_slot rr_conflict_irrefl by (auto split: if_splits)
  ultimately show ?thesis
    using add_cache_conflict_free [OF demo_cache_ok(1) demo_entry(1) demo_cache_ok(2) _ demo_entry(2) demo_name(1)] by blast
qed

subsection \<open>Purging\<close>

text \<open>
  C20: \<open>purge_cache\<close> ends on every cache, one pass for each of its loops being enough. Afterwards
  the cache is within the limit, unless everything purgeable is gone: what the list still holds
  is local. It deletes nothing but record sets that are not local and entries that hold no local
  data, changes no entry flagged \<open>DF_LOCAL\<close>, and keeps the invariant.
\<close>
theorem purge_cache_limit:
  assumes "cache_inv st" and "has_room st"
  shows "\<exists>st'. purge_cache sz lazy st = Some st' \<and> cache_inv st' \<and> pur st st' \<and> untouched st st' \<and>
    (cache_size st' \<le> sz \<or> (\<forall>le \<in> set (rrset_l st'). lent_local le st' = Some True))"
proof -
  have "length (rrset_l st) < 2 ^ NTMPSORT" using assms(2) by (simp add: has_room_def)
  from purge_cache_spec [OF assms(1) this, of sz lazy] show ?thesis by blast
qed

theorem purge_cache_limit_witness:
  "\<exists>st st'. cents st \<noteq> (\<lambda>a. None) \<and> purge_cache 0 False st = Some st' \<and>
     (cache_size st' \<le> 0 \<or> (\<forall>le \<in> set (rrset_l st'). lent_local le st' = Some True))"
proof -
  obtain st a c where s: "cache_inv st" "has_room st" "cents st a = Some c" using demo_add by blast
  then have "cents st \<noteq> (\<lambda>a. None)" by auto
  with purge_cache_limit [OF s(1,2), of 0 False] show ?thesis by blast
qed

text \<open>
  C33: \<open>sort_rrl\<close>, a merge sort with an array of fragments, is the stable sort by time stamp of
  the library, for every list its array has room for.
\<close>
theorem sort_rrl_stable:
  assumes "cache_inv st" and "has_room st"
  shows "sort_rrl st = Some (st\<lparr>rrset_l := sort_key (stamp st) (rrset_l st)\<rparr>)"
  using assms by (intro sort_rrl_spec) (simp_all add: has_room_def)

theorem sort_rrl_stable_witness:
  "\<exists>st. cents st \<noteq> (\<lambda>a. None) \<and> sort_rrl st = Some (st\<lparr>rrset_l := sort_key (stamp st) (rrset_l st)\<rparr>)"
proof -
  obtain st a c where s: "cache_inv st" "has_room st" "cents st a = Some c" using demo_add by blast
  then have "cents st \<noteq> (\<lambda>a. None)" by auto
  with sort_rrl_stable [OF s(1,2)] show ?thesis by blast
qed

subsection \<open>Looking up and deleting\<close>

text \<open>
  C18: \<open>lookup_cache\<close> answers as the reference search does: the entry of the name or, with
  \<open>wild\<close>, what the nearest known domain above it says. What the cache holds of it that is still
  valid is returned: the result is a copy without links of the entry with exactly those record
  sets removed that have lapsed (their time is over, and they are neither local nor kept from
  purging), and the entry in the cache loses the same sets and no others. There is no result only
  when the search finds nothing, when the whole entry has lapsed (then it is deleted) or when
  memory runs out. No other entry of the cache changes.
\<close>
theorem lookup_cache_correct:
  assumes "cache_inv st" and "dns_name nm"
  shows "\<exists>cp st'. lookup_cache (enc nm @ q) wild st = Some (cp, snd (find_ref st nm wild), st') \<and>
    lookup_result st (fst (find_ref st nm wild)) cp st'"
  using assms by (rule lookup_cache_spec)

theorem lookup_cache_correct_witness:
  "\<exists>st a cp st'. find_ref st [str ''a''] True = (Some a, NotWild) \<and> lookup_cache [1, 97, 0] True st = Some (cp, NotWild, st') \<and>
     lookup_result st (Some a) cp st'"
proof -
  obtain st a where s: "cache_inv st" "find_name st [str ''a''] = Some a" using demo_add by blast
  have f: "find_ref st [str ''a''] True = (Some a, NotWild)" using s(2) by (simp add: find_ref_def)
  from lookup_cache_correct [OF s(1) demo_name(1), of "[]" True] f show ?thesis by (simp only: demo_name(2)) auto
qed

text \<open>
  C32: \<open>empty_cache\<close> with a list of included and excluded domains deletes exactly the entries
  whose names the list selects (by the first rule that matches) and leaves all others as they are.
\<close>
theorem empty_cache_selected:
  assumes "cache_inv st" and "\<forall>(d, e, i) \<in> set rules. dns_name d"
  shows "\<exists>st'. empty_cache (Some (sla_of rules)) st = Some st' \<and> cache_inv st' \<and>
    (\<forall>a. cents st' a = (if rule_sel rules st a then None else cents st a))"
proof -
  from empty_cache_spec [OF assms(1) sel_by_rules [OF assms]] obtain st' where
    "empty_cache (Some (sla_of rules)) st = Some st'" "cache_inv st'" "cents st' = without {a. rule_sel rules st a} st" by blast
  then show ?thesis by (simp add: without_def)
qed

theorem empty_cache_selected_witness:
  "\<exists>st a c st'. cents st a = Some c \<and> empty_cache (Some (sla_of [([str ''A''], True, True)])) st = Some st' \<and> cents st' a = None"
proof -
  obtain st a c where s: "cache_inv st" "cents st a = Some c" "find_name st [str ''a''] = Some a" "stored_as demo_cache (demo_cent 0) c"
    using demo_add by blast
  have n: "\<forall>(d, e, i) \<in> set [([str ''A''], True, True)]. dns_name d" by code_simp
  have "qname_at st a = Some (enc [str ''a''])"
    using s(2,4) demo_entry(2) by (simp only: qname_at_def stored_as_def option.map)
  moreover have "selected_ref [str ''a''] [([str ''A''], True, True)]" by code_simp
  ultimately have r: "rule_sel [([str ''A''], True, True)] st a" using demo_name(1) unfolding rule_sel_def by blast
  from empty_cache_selected [OF s(1) n] obtain st' where "empty_cache (Some (sla_of [([str ''A''], True, True)])) st = Some st'"
    "cents st' a = (if rule_sel [([str ''A''], True, True)] st a then None else cents st a)" by blast
  with r s(2) show ?thesis by (simp only: if_True) blast
qed

text \<open>
  C34: after \<open>invalidate_record\<close> every record set of the name has the fetch time 0 and no flag
  \<open>CF_AUTH\<close>, a negative entry the time 0, and the entry no flag \<open>DF_AUTH\<close>. Nothing else changes:
  the other flags, the records, times to live, links and references of the entry, all other entries
  and all other fields of the cache are as before. An unknown name changes nothing.
\<close>
theorem invalidate_record_correct:
  assumes "cache_inv st" and "dns_name nm"
  shows "\<exists>st'. invalidate_record (enc nm) st = Some st' \<and> cache_inv st' \<and>
    (case find_name st nm of None \<Rightarrow> st' = st
     | Some a \<Rightarrow> \<exists>c. cents st a = Some c \<and> st' = st\<lparr>cents := (cents st)(a \<mapsto>
         c\<lparr>body := outdated_body (body c), ce_flags := ce_flags c AND NOT DF_AUTH\<rparr>)\<rparr>)"
  using invalidate_record_spec [OF assms] by (auto simp: invalidated_def put_cent_def split: option.splits)

theorem invalidate_record_correct_witness:
  "\<exists>st st' a c. find_name st [str ''a''] = Some a \<and> invalidate_record [1, 97, 0] st = Some st' \<and> cents st a = Some c \<and>
     st' = st\<lparr>cents := (cents st)(a \<mapsto> c\<lparr>body := outdated_body (body c), ce_flags := ce_flags c AND NOT DF_AUTH\<rparr>)\<rparr>"
proof -
  obtain st a where s: "cache_inv st" "find_name st [str ''a''] = Some a" using demo_add by blast
  from invalidate_record_correct [OF s(1) demo_name(1)] s(2) show ?thesis by (simp only: demo_name(2) option.case) blast
qed

subsection \<open>Times to live\<close>

text \<open>
  The limits, and how \<open>add_cache\<close> stores a record set \<open>s\<close> it is given: the set \<open>t\<close> has the same
  records and time, and a time to live brought within the limits, or zero when \<open>CF_NOCACHE\<close> asks
  for it (the flag is then cleared).
\<close>

definition least_ttl :: "cache \<Rightarrow> rr_set \<Rightarrow> int" where
  "least_ttl st s = (if has (rs_flags s) CF_NEGATIVE then min (neg_ttl st) (min_ttl st) else min_ttl st)"

definition ttl_within :: "cache \<Rightarrow> rr_set \<Rightarrow> bool" where
  "ttl_within st s \<longleftrightarrow> rs_ttl s = 0 \<or> least_ttl st s \<le> rs_ttl s \<and> rs_ttl s \<le> max_ttl st"












lemma ttl_within_env [simp]: "ttl_within (st\<lparr>now := t\<rparr>) s = ttl_within st s" "ttl_within (st\<lparr>mem := m\<rparr>) s = ttl_within st s"
  by (simp_all add: ttl_within_def least_ttl_def)











end
