(* ===== verification/Cache_Lock.thy ===== *)
theory Cache_Lock
  imports Pdnsd_Prelude
begin

text \<open>
  The lock of the cache (\<open>cache.c\<close>): many readers or one writer, built from one mutex, two
  condition variables and counters. Every stretch of code between \<open>pthread_mutex_lock\<close> and
  \<open>pthread_mutex_unlock\<close> or \<open>pthread_cond_wait\<close> is one atomic step, a function on the shared
  variables; \<open>lock_step\<close> interleaves the steps of the threads. \<open>pthread_cond_signal\<close> wakes a
  thread that waits, \<open>pthread_cond_broadcast\<close> all of them, and a waiting thread may also wake
  for no reason, as POSIX allows. A thread that has woken tests the condition of its loop
  again before it goes on.
\<close>

subsection \<open>Shared variables and threads\<close>

record cache_lock =
  cache_w_lock :: bool
  cache_r_lock :: int
  r_pend :: int
  rw_pend :: int
  r_susp :: bool
  use_cache_lock :: bool

definition SUSP_THRESH :: "int \<Rightarrow> int" where
  "SUSP_THRESH n = n div 2 + 2"

definition SOFTLOCK_MAXTRIES :: nat where "SOFTLOCK_MAXTRIES = 1000"

text \<open>Which function waits for the write lock.\<close>

datatype wait_kind = Untimed | Timed | Yielding

text \<open>
  Where a thread is: outside, asleep on a condition variable, woken but not yet past the test
  of the loop, inside, between two tries of a soft lock, or at a point of
  \<open>yield_lock_cache_rw\<close>: before the second half of its first test, before giving up the lock,
  asleep in \<open>usleep_r\<close>.
\<close>

datatype pc = Outside
  | R_wait | R_woken | R_held | R_soft nat
  | W_wait wait_kind | W_woken wait_kind | W_held | W_soft nat
  | Y_test | Y_giveup | Y_sleep

datatype wake = No_wake | Signal_rw | Broadcast_r

subsection \<open>The sections under the mutex\<close>

text \<open>
  The loop of \<open>lock_cache_r\<close>: entered when the function is called and again after each wait.
  Without \<open>use_cache_lock\<close> (before there are threads) the caller goes on at once.
\<close>

definition r_loop :: "cache_lock \<Rightarrow> cache_lock \<times> pc" where
  "r_loop l = (let l1 = (if SUSP_THRESH (r_pend l) < rw_pend l then l\<lparr>r_susp := True\<rparr> else l)
     in if r_susp l1 \<or> cache_w_lock l1 then (l1, R_wait)
        else (l1\<lparr>cache_r_lock := cache_r_lock l1 + 1, r_pend := r_pend l1 - 1\<rparr>, R_held))"

definition lock_cache_r :: "cache_lock \<Rightarrow> cache_lock \<times> pc" where
  "lock_cache_r l = (if \<not> use_cache_lock l then (l, R_held) else r_loop (l\<lparr>r_pend := r_pend l + 1\<rparr>))"

definition unlock_cache_r :: "cache_lock \<Rightarrow> cache_lock \<times> wake" where
  "unlock_cache_r l = (if \<not> use_cache_lock l then (l, No_wake) else
     let l1 = (if 0 < cache_r_lock l then l\<lparr>cache_r_lock := cache_r_lock l - 1\<rparr> else l)
     in (l1, if cache_r_lock l1 = 0 then Signal_rw else No_wake))"

definition w_loop :: "wait_kind \<Rightarrow> cache_lock \<Rightarrow> cache_lock \<times> pc" where
  "w_loop k l = (if cache_w_lock l \<or> cache_r_lock l \<noteq> 0 then (l, W_wait k)
     else (l\<lparr>cache_w_lock := True, rw_pend := rw_pend l - 1\<rparr>, W_held))"

definition lock_cache_rw :: "cache_lock \<Rightarrow> cache_lock \<times> pc" where
  "lock_cache_rw l = (if \<not> use_cache_lock l then (l, W_held) else w_loop Untimed (l\<lparr>rw_pend := rw_pend l + 1\<rparr>))"

text \<open>\<open>timedlock_cache_rw\<close>, and its way out when the wait times out: it returns 0.\<close>

definition timedlock_cache_rw :: "cache_lock \<Rightarrow> cache_lock \<times> pc" where
  "timedlock_cache_rw l = (if \<not> use_cache_lock l then (l, Outside) else w_loop Timed (l\<lparr>rw_pend := rw_pend l + 1\<rparr>))"

definition timedlock_timeout :: "cache_lock \<Rightarrow> cache_lock" where
  "timedlock_timeout l = l\<lparr>rw_pend := rw_pend l - 1\<rparr>"

definition unlock_cache_rw :: "cache_lock \<Rightarrow> cache_lock \<times> wake" where
  "unlock_cache_rw l = (if \<not> use_cache_lock l then (l, No_wake) else
     (l\<lparr>cache_w_lock := False, r_susp := False\<rparr>,
      if r_pend l = 0 \<or> SUSP_THRESH (r_pend l) < rw_pend l then Signal_rw else Broadcast_r))"

text \<open>
  \<open>yield_lock_cache_rw\<close>: \<open>r_pend\<close> and \<open>rw_pend\<close> are read without the mutex, one after the
  other, then the lock is given up as in \<open>unlock_cache_rw\<close>, and taken again after a pause.
\<close>

definition yield_test_r :: "cache_lock \<Rightarrow> pc" where
  "yield_test_r l = (if \<not> use_cache_lock l then W_held else if r_pend l = 0 then Y_test else Y_giveup)"

definition yield_test_w :: "cache_lock \<Rightarrow> pc" where
  "yield_test_w l = (if rw_pend l = 0 then W_held else Y_giveup)"

definition yield_giveup :: "cache_lock \<Rightarrow> cache_lock \<times> wake" where
  "yield_giveup l = (l\<lparr>cache_w_lock := False, r_susp := False\<rparr>,
     if r_pend l = 0 \<or> SUSP_THRESH (r_pend l) < rw_pend l then Signal_rw else Broadcast_r)"

definition yield_relock :: "cache_lock \<Rightarrow> cache_lock \<times> pc" where
  "yield_relock l = w_loop Yielding (l\<lparr>rw_pend := rw_pend l + 1\<rparr>)"

text \<open>
  One try of the soft locks, the \<open>tr\<close>-th from 0, once \<open>softlock_mutex\<close> has the mutex. After
  the last try they return 0.
\<close>

definition softlock_cache_r :: "nat \<Rightarrow> cache_lock \<Rightarrow> cache_lock \<times> pc" where
  "softlock_cache_r tr l = (if \<not> use_cache_lock l then (l, Outside)
     else if \<not> cache_w_lock l then (l\<lparr>cache_r_lock := cache_r_lock l + 1\<rparr>, R_held)
     else if SOFTLOCK_MAXTRIES \<le> tr + 1 then (l, Outside) else (l, R_soft (tr + 1)))"

definition softunlock_cache_r :: "cache_lock \<Rightarrow> cache_lock" where
  "softunlock_cache_r l = (if \<not> use_cache_lock l then l
     else if 0 < cache_r_lock l then l\<lparr>cache_r_lock := cache_r_lock l - 1\<rparr> else l)"

definition softlock_cache_rw :: "nat \<Rightarrow> cache_lock \<Rightarrow> cache_lock \<times> pc" where
  "softlock_cache_rw tr l = (if \<not> use_cache_lock l then (l, Outside)
     else if \<not> (cache_w_lock l \<or> cache_r_lock l \<noteq> 0) then (l\<lparr>cache_w_lock := True\<rparr>, W_held)
     else if SOFTLOCK_MAXTRIES \<le> tr + 1 then (l, Outside) else (l, W_soft (tr + 1)))"

definition softunlock_cache_rw :: "cache_lock \<Rightarrow> cache_lock" where
  "softunlock_cache_rw l = (if \<not> use_cache_lock l then l else l\<lparr>cache_w_lock := False\<rparr>)"

subsection \<open>Interleaving\<close>

text \<open>The effect of a wake-up on the other threads.\<close>

fun rouse :: "pc \<Rightarrow> pc" where
  "rouse R_wait = R_woken"
| "rouse (W_wait k) = W_woken k"
| "rouse p = p"

text \<open>What a thread counts for.\<close>

fun asleep_r :: "pc \<Rightarrow> bool" where "asleep_r R_wait = True" | "asleep_r _ = False"
fun asleep_w :: "pc \<Rightarrow> bool" where "asleep_w (W_wait _) = True" | "asleep_w _ = False"
fun woken_r :: "pc \<Rightarrow> bool" where "woken_r R_woken = True" | "woken_r _ = False"
fun woken_w :: "pc \<Rightarrow> bool" where "woken_w (W_woken _) = True" | "woken_w _ = False"
fun reads :: "pc \<Rightarrow> bool" where "reads R_held = True" | "reads _ = False"
fun writes :: "pc \<Rightarrow> bool" where
  "writes W_held = True" | "writes Y_test = True" | "writes Y_giveup = True" | "writes _ = False"

inductive wakes :: "wake \<Rightarrow> pc list \<Rightarrow> pc list \<Rightarrow> bool" where
  No_wake: "wakes No_wake ps ps"
| Signal: "j < length ps \<Longrightarrow> asleep_w (ps ! j) \<Longrightarrow> wakes Signal_rw ps (ps[j := rouse (ps ! j)])"
| Signal_nobody: "\<not> list_ex asleep_w ps \<Longrightarrow> wakes Signal_rw ps ps"
| Broadcast: "wakes Broadcast_r ps (map (\<lambda>p. if asleep_r p then rouse p else p) ps)"

text \<open>
  Steps are labelled: the ordinary ones, the time-outs of \<open>timedlock_cache_rw\<close>, and the soft
  locks, which are used on exit only. A time-out may overtake the wake-up of the thread: POSIX
  lets \<open>pthread_cond_timedwait\<close> consume a signal and still return \<open>ETIMEDOUT\<close>. A soft unlock
  that cannot get the mutex changes nothing, and its thread counts as still inside.
\<close>

datatype label = Ordinary | Timeout | Soft

inductive lock_step :: "label \<Rightarrow> cache_lock \<times> pc list \<Rightarrow> cache_lock \<times> pc list \<Rightarrow> bool" where
  Lock_r: "i < length ps \<Longrightarrow> ps ! i = Outside \<Longrightarrow> lock_cache_r l = (l', p) \<Longrightarrow>
    lock_step Ordinary (l, ps) (l', ps[i := p])"
| Retry_r: "i < length ps \<Longrightarrow> ps ! i = R_woken \<Longrightarrow> r_loop l = (l', p) \<Longrightarrow>
    lock_step Ordinary (l, ps) (l', ps[i := p])"
| Unlock_r: "i < length ps \<Longrightarrow> ps ! i = R_held \<Longrightarrow> unlock_cache_r l = (l', w) \<Longrightarrow>
    wakes w (ps[i := Outside]) ps' \<Longrightarrow> lock_step Ordinary (l, ps) (l', ps')"
| Lock_rw: "i < length ps \<Longrightarrow> ps ! i = Outside \<Longrightarrow> lock_cache_rw l = (l', p) \<Longrightarrow>
    lock_step Ordinary (l, ps) (l', ps[i := p])"
| Lock_timed: "i < length ps \<Longrightarrow> ps ! i = Outside \<Longrightarrow> timedlock_cache_rw l = (l', p) \<Longrightarrow>
    lock_step Ordinary (l, ps) (l', ps[i := p])"
| Retry_rw: "i < length ps \<Longrightarrow> ps ! i = W_woken k \<Longrightarrow> w_loop k l = (l', p) \<Longrightarrow>
    lock_step Ordinary (l, ps) (l', ps[i := p])"
| Unlock_rw: "i < length ps \<Longrightarrow> ps ! i = W_held \<Longrightarrow> unlock_cache_rw l = (l', w) \<Longrightarrow>
    wakes w (ps[i := Outside]) ps' \<Longrightarrow> lock_step Ordinary (l, ps) (l', ps')"
| Yield_r: "i < length ps \<Longrightarrow> ps ! i = W_held \<Longrightarrow> lock_step Ordinary (l, ps) (l, ps[i := yield_test_r l])"
| Yield_w: "i < length ps \<Longrightarrow> ps ! i = Y_test \<Longrightarrow> lock_step Ordinary (l, ps) (l, ps[i := yield_test_w l])"
| Yield_giveup: "i < length ps \<Longrightarrow> ps ! i = Y_giveup \<Longrightarrow> yield_giveup l = (l', w) \<Longrightarrow>
    wakes w (ps[i := Y_sleep]) ps' \<Longrightarrow> lock_step Ordinary (l, ps) (l', ps')"
| Yield_relock: "i < length ps \<Longrightarrow> ps ! i = Y_sleep \<Longrightarrow> yield_relock l = (l', p) \<Longrightarrow>
    lock_step Ordinary (l, ps) (l', ps[i := p])"
| Spurious: "i < length ps \<Longrightarrow> lock_step Ordinary (l, ps) (l, ps[i := rouse (ps ! i)])"
| Timeout: "i < length ps \<Longrightarrow> ps ! i = W_wait Timed \<or> ps ! i = W_woken Timed \<Longrightarrow>
    lock_step Timeout (l, ps) (timedlock_timeout l, ps[i := Outside])"
| Softlock_r: "i < length ps \<Longrightarrow> ps ! i = Outside \<and> tr = 0 \<or> ps ! i = R_soft tr \<Longrightarrow>
    softlock_cache_r tr l = (l', p) \<Longrightarrow> lock_step Soft (l, ps) (l', ps[i := p])"
| Softlock_rw: "i < length ps \<Longrightarrow> ps ! i = Outside \<and> tr = 0 \<or> ps ! i = W_soft tr \<Longrightarrow>
    softlock_cache_rw tr l = (l', p) \<Longrightarrow> lock_step Soft (l, ps) (l', ps[i := p])"
| Soft_nomutex: "i < length ps \<Longrightarrow> ps ! i = R_soft tr \<or> ps ! i = W_soft tr \<Longrightarrow>
    lock_step Soft (l, ps) (l, ps[i := Outside])"
| Softunlock_r: "i < length ps \<Longrightarrow> ps ! i = R_held \<Longrightarrow>
    lock_step Soft (l, ps) (softunlock_cache_r l, ps[i := Outside])"
| Softunlock_rw: "i < length ps \<Longrightarrow> ps ! i = W_held \<Longrightarrow>
    lock_step Soft (l, ps) (softunlock_cache_rw l, ps[i := Outside])"

text \<open>The state when the first threads start, after \<open>init_cache_lock\<close>.\<close>

definition init_cache_lock :: "cache_lock \<Rightarrow> cache_lock" where
  "init_cache_lock l = l\<lparr>use_cache_lock := True\<rparr>"

definition lock0 :: cache_lock where
  "lock0 = \<lparr>cache_w_lock = False, cache_r_lock = 0, r_pend = 0, rw_pend = 0, r_susp = False,
     use_cache_lock = False\<rparr>"

inductive lock_reach :: "label set \<Rightarrow> cache_lock \<times> pc list \<Rightarrow> bool" for E where
  Start: "\<forall>p \<in> set ps. p = Outside \<Longrightarrow> lock_reach E (init_cache_lock lock0, ps)"
| Step: "lock_reach E s \<Longrightarrow> e \<in> E \<Longrightarrow> lock_step e s s' \<Longrightarrow> lock_reach E s'"

end
