(* ===== verification/Cache_Lock_Correct.thy ===== *)
theory Cache_Lock_Correct
  imports Cache_Lock
begin

text \<open>
  The lock of the cache keeps writers apart from everybody else, under every interleaving and
  with time-outs and soft locks; and it loses no wake-up as long as no wait times out and no
  soft lock is used: whenever the lock is free and a thread sleeps, some woken thread enters at
  its next step. The invariants relate the shared variables to the numbers of threads at the
  points of the program. The last lemma shows that a time-out can lose a wake-up for good.
\<close>

subsection \<open>Counting threads\<close>

definition cnt :: "(pc \<Rightarrow> bool) \<Rightarrow> pc list \<Rightarrow> int" where
  "cnt P ps = int (length (filter P ps))"

lemma cnt_simps [simp]:
  "cnt P [] = 0"
  "cnt P (p # ps) = of_bool (P p) + cnt P ps"
  by (simp_all add: cnt_def)

lemma cnt_nonneg: "0 \<le> cnt P ps"
  by (simp add: cnt_def)

lemmas cnts_nonneg = cnt_nonneg [of asleep_r] cnt_nonneg [of asleep_w] cnt_nonneg [of woken_r]
  cnt_nonneg [of woken_w] cnt_nonneg [of reads] cnt_nonneg [of writes]

lemma cnt_update:
  "i < length ps \<Longrightarrow> cnt P (ps[i := p]) = cnt P ps - of_bool (P (ps ! i)) + of_bool (P p)"
proof (induction ps arbitrary: i)
  case (Cons q ps)
  then show ?case by (cases i) auto
qed simp

lemma cnt_pos: "i < length ps \<Longrightarrow> P (ps ! i) \<Longrightarrow> 0 < cnt P ps"
  by (auto simp: cnt_def filter_empty_conv)

lemma cnt_posD: "0 < cnt P ps \<Longrightarrow> \<exists>i < length ps. P (ps ! i)"
  by (auto simp: cnt_def filter_empty_conv in_set_conv_nth)

lemma cnt_zero: "cnt P ps = 0 \<longleftrightarrow> \<not> list_ex P ps"
  by (auto simp: cnt_def filter_empty_conv list_ex_iff)

lemma cnt_two:
  assumes "i < length ps" "j < length ps" "i \<noteq> j" "P (ps ! i)" "P (ps ! j)"
  shows "2 \<le> cnt P ps"
proof -
  have "{i, j} \<subseteq> {k. k < length ps \<and> P (ps ! k)}"
    using assms by auto
  then have "card {i, j} \<le> card {k. k < length ps \<and> P (ps ! k)}"
    by (intro card_mono) auto
  with assms(3) show ?thesis
    by (simp add: cnt_def length_filter_conv_card)
qed

lemma cnt_map_rouse:
  "cnt P (map (\<lambda>p. if asleep_r p then rouse p else p) ps) =
     cnt P ps + (if P R_woken then cnt asleep_r ps else 0) - (if P R_wait then cnt asleep_r ps else 0)"
  by (induction ps) (auto elim: asleep_r.elims)

text \<open>The variables count the threads.\<close>

definition lock_inv :: "cache_lock \<times> pc list \<Rightarrow> bool" where
  "lock_inv = (\<lambda>(l, ps). use_cache_lock l \<and> cache_r_lock l = cnt reads ps \<and>
     cnt writes ps = of_bool (cache_w_lock l) \<and> (cache_w_lock l \<longrightarrow> cnt reads ps = 0) \<and>
     r_pend l = cnt asleep_r ps + cnt woken_r ps \<and>
     rw_pend l = cnt asleep_w ps + cnt woken_w ps)"

lemma wakes_counts:
  assumes "wakes w ps ps'"
  shows "length ps' = length ps \<and> cnt reads ps' = cnt reads ps \<and> cnt writes ps' = cnt writes ps \<and>
    cnt asleep_r ps' + cnt woken_r ps' = cnt asleep_r ps + cnt woken_r ps \<and>
    cnt asleep_w ps' + cnt woken_w ps' = cnt asleep_w ps + cnt woken_w ps \<and>
    cnt asleep_r ps' \<le> cnt asleep_r ps \<and> cnt asleep_w ps' \<le> cnt asleep_w ps \<and>
    (w = Signal_rw \<longrightarrow> cnt asleep_w ps = 0 \<or> 0 < cnt woken_w ps') \<and>
    (w = Broadcast_r \<longrightarrow> cnt asleep_r ps' = 0)"
  using assms
proof cases
  case (Signal j)
  with cnt_nonneg [of woken_w ps] show ?thesis by (cases "ps ! j") (auto simp: cnt_update)
next
  case Signal_nobody
  then show ?thesis by (simp add: cnt_zero)
next
  case Broadcast
  then show ?thesis by (simp add: cnt_map_rouse cnt_nonneg)
qed simp

lemmas lock_defs = r_loop_def lock_cache_r_def unlock_cache_r_def w_loop_def lock_cache_rw_def
  timedlock_cache_rw_def timedlock_timeout_def unlock_cache_rw_def yield_test_r_def yield_test_w_def
  yield_giveup_def yield_relock_def softlock_cache_r_def softunlock_cache_r_def
  softlock_cache_rw_def softunlock_cache_rw_def

lemma cnt_held:
  "i < length ps \<Longrightarrow> ps ! i = R_held \<Longrightarrow> 0 < cnt reads ps"
  "i < length ps \<Longrightarrow> ps ! i = R_woken \<Longrightarrow> 0 < cnt woken_r ps"
  "i < length ps \<Longrightarrow> ps ! i = W_held \<Longrightarrow> 0 < cnt writes ps"
  "i < length ps \<Longrightarrow> ps ! i = Y_giveup \<Longrightarrow> 0 < cnt writes ps"
  "i < length ps \<Longrightarrow> ps ! i = W_woken k \<Longrightarrow> 0 < cnt woken_w ps"
  by (auto intro!: cnt_pos)

text \<open>A thread that counts for nothing.\<close>

definition idle :: "pc \<Rightarrow> bool" where
  "idle p \<longleftrightarrow> \<not> asleep_r p \<and> \<not> asleep_w p \<and> \<not> woken_r p \<and> \<not> woken_w p \<and> \<not> reads p \<and> \<not> writes p"

lemma idle_soft [simp]: "idle Outside" "idle (R_soft tr)" "idle (W_soft tr)" "idle Y_sleep"
  by (simp_all add: idle_def)

text \<open>The outcomes of the loops.\<close>

definition is_free :: "cache_lock \<Rightarrow> bool" where
  "is_free l \<longleftrightarrow> \<not> cache_w_lock l \<and> cache_r_lock l = 0"

lemma is_free_updates [simp]:
  "is_free (l\<lparr>r_pend := a\<rparr>) = is_free l"
  "is_free (l\<lparr>rw_pend := a\<rparr>) = is_free l"
  "is_free (l\<lparr>r_susp := b\<rparr>) = is_free l"
  by (simp_all add: is_free_def)

lemma w_loopE:
  assumes "w_loop k l = (l', p)"
  obtains (wait) "p = W_wait k" "l' = l" "\<not> is_free l"
  | (enter) "p = W_held" "l' = l\<lparr>cache_w_lock := True, rw_pend := rw_pend l - 1\<rparr>" "is_free l"
  using assms by (auto simp: w_loop_def is_free_def split: if_splits)

lemma r_loopE:
  assumes "r_loop l = (l', p)"
  obtains (wait) "p = R_wait" "l' = l\<lparr>r_susp := True\<rparr>" "SUSP_THRESH (r_pend l) < rw_pend l"
  | (wait2) "p = R_wait" "l' = l" "rw_pend l \<le> SUSP_THRESH (r_pend l)" "r_susp l \<or> cache_w_lock l"
  | (enter) "p = R_held" "l' = l\<lparr>cache_r_lock := cache_r_lock l + 1, r_pend := r_pend l - 1\<rparr>"
      "rw_pend l \<le> SUSP_THRESH (r_pend l)" "\<not> r_susp l" "\<not> cache_w_lock l"
  using assms by (fastforce simp: r_loop_def Let_def split: if_splits)

text \<open>How an update of one thread changes the counters.\<close>

lemmas inv_simps = lock_inv_def cnt_update is_free_def

lemma inv_w_loop:
  assumes "w_loop k (l\<lparr>rw_pend := rw_pend l + 1\<rparr>) = (l', p)" and "lock_inv (l, ps)"
    and "i < length ps" and "idle (ps ! i)"
  shows "lock_inv (l', ps[i := p])"
  using assms(1)
proof (cases rule: w_loopE)
  case wait
  with assms show ?thesis by (simp add: inv_simps idle_def)
next
  case enter
  with assms show ?thesis by (simp add: inv_simps idle_def)
qed

lemma inv_w_retry:
  assumes "w_loop k l = (l', p)" and "lock_inv (l, ps)" and "i < length ps" and "ps ! i = W_woken k"
  shows "lock_inv (l', ps[i := p])"
  using assms(1)
proof (cases rule: w_loopE)
  case wait
  with assms show ?thesis by (simp add: inv_simps)
next
  case enter
  with assms show ?thesis by (simp add: inv_simps)
qed

lemma inv_lock_r:
  assumes "r_loop (l\<lparr>r_pend := r_pend l + 1\<rparr>) = (l', p)" and "lock_inv (l, ps)"
    and "i < length ps" and "idle (ps ! i)"
  shows "lock_inv (l', ps[i := p])"
  using assms(1)
proof (cases rule: r_loopE)
  case enter
  with assms show ?thesis by (simp add: inv_simps idle_def)
qed (use assms in \<open>simp_all add: inv_simps idle_def\<close>)

lemma inv_retry_r:
  assumes "r_loop l = (l', p)" and "lock_inv (l, ps)" and "i < length ps" and "ps ! i = R_woken"
  shows "lock_inv (l', ps[i := p])"
  using assms(1)
proof (cases rule: r_loopE)
  case enter
  with assms show ?thesis by (simp add: inv_simps)
qed (use assms in \<open>simp_all add: inv_simps\<close>)

text \<open>Leaving the lock wakes threads, which does not change what they count for.\<close>

lemma inv_leave_w:
  assumes "lock_inv (l, ps)" and "i < length ps" and "writes (ps ! i)" and "idle q"
    and "wakes w (ps[i := q]) ps'"
  shows "lock_inv (l\<lparr>cache_w_lock := False, r_susp := False\<rparr>, ps')"
proof -
  have "\<not> asleep_r (ps ! i)" "\<not> asleep_w (ps ! i)" "\<not> woken_r (ps ! i)" "\<not> woken_w (ps ! i)" "\<not> reads (ps ! i)"
    using assms(3) by (cases "ps ! i"; simp)+
  moreover have "cache_w_lock l"
    using cnt_pos [of i ps writes] assms(1-3) by (cases "cache_w_lock l") (simp_all add: lock_inv_def)
  ultimately show ?thesis
    using assms(1-4) wakes_counts [OF assms(5)] by (simp add: lock_inv_def cnt_update idle_def)
qed

lemma inv_leave_r:
  assumes "lock_inv (l, ps)" and "i < length ps" and "ps ! i = R_held" and "wakes w (ps[i := Outside]) ps'"
  shows "0 < cache_r_lock l" and "lock_inv (l\<lparr>cache_r_lock := cache_r_lock l - 1\<rparr>, ps')"
proof -
  show "0 < cache_r_lock l"
    using cnt_held(1) [OF assms(2,3)] assms(1) by (simp add: lock_inv_def)
  then show "lock_inv (l\<lparr>cache_r_lock := cache_r_lock l - 1\<rparr>, ps')"
    using assms(1-3) wakes_counts [OF assms(4)] by (auto simp: lock_inv_def cnt_update)
qed

lemma inv_idle:
  assumes "lock_inv (l, ps)" and "i < length ps" and "idle (ps ! i)" and "idle p"
  shows "lock_inv (l, ps[i := p])"
  using assms by (simp add: inv_simps idle_def)

lemma inv_writes:
  assumes "lock_inv (l, ps)" and "i < length ps" and "writes (ps ! i)" and "writes p"
  shows "lock_inv (l, ps[i := p])"
proof -
  have only: "\<not> asleep_r q \<and> \<not> asleep_w q \<and> \<not> woken_r q \<and> \<not> woken_w q \<and> \<not> reads q" if "writes q" for q
    using that by (cases q) simp_all
  show ?thesis
    using assms only [OF assms(3)] only [OF assms(4)] by (simp add: inv_simps)
qed

lemma inv_use: "lock_inv (l, ps) \<Longrightarrow> use_cache_lock l"
  by (simp add: lock_inv_def)

text \<open>Which threads a writer wakes when it leaves.\<close>

definition handover :: "cache_lock \<Rightarrow> wake" where
  "handover l = (if r_pend l = 0 \<or> SUSP_THRESH (r_pend l) < rw_pend l then Signal_rw else Broadcast_r)"

text \<open>The functions, once \<open>use_cache_lock\<close> is set.\<close>

lemma lock_calls:
  assumes "lock_inv (l, ps)"
  shows "lock_cache_r l = r_loop (l\<lparr>r_pend := r_pend l + 1\<rparr>)"
    and "lock_cache_rw l = w_loop Untimed (l\<lparr>rw_pend := rw_pend l + 1\<rparr>)"
    and "timedlock_cache_rw l = w_loop Timed (l\<lparr>rw_pend := rw_pend l + 1\<rparr>)"
    and "unlock_cache_rw l = (l\<lparr>cache_w_lock := False, r_susp := False\<rparr>, handover l)"
    and "yield_giveup l = (l\<lparr>cache_w_lock := False, r_susp := False\<rparr>, handover l)"
    and "writes (yield_test_r l)" and "writes (yield_test_w l)"
  using assms
  by (simp_all add: lock_inv_def lock_cache_r_def lock_cache_rw_def timedlock_cache_rw_def
      unlock_cache_rw_def yield_giveup_def handover_def yield_test_r_def yield_test_w_def)

lemma softlock_rE:
  assumes "softlock_cache_r tr l = (l', p)" and "use_cache_lock l"
  obtains (enter) "p = R_held" "l' = l\<lparr>cache_r_lock := cache_r_lock l + 1\<rparr>" "\<not> cache_w_lock l"
  | (fail) "idle p" "l' = l"
  using assms by (auto simp: softlock_cache_r_def split: if_splits)

lemma softlock_rwE:
  assumes "softlock_cache_rw tr l = (l', p)" and "use_cache_lock l"
  obtains (enter) "p = W_held" "l' = l\<lparr>cache_w_lock := True\<rparr>" "is_free l"
  | (fail) "idle p" "l' = l"
  using assms by (auto simp: softlock_cache_rw_def is_free_def split: if_splits)

lemma unlock_rE:
  assumes "unlock_cache_r l = (l', w)" and "use_cache_lock l" and "0 < cache_r_lock l"
  shows "l' = l\<lparr>cache_r_lock := cache_r_lock l - 1\<rparr>"
    and "w = (if cache_r_lock l - 1 = 0 then Signal_rw else No_wake)"
  using assms by (simp_all add: unlock_cache_r_def Let_def split: if_splits)

lemma inv_soft_r:
  assumes "lock_inv (l, ps)" and "i < length ps" and "idle (ps ! i)" and "\<not> cache_w_lock l"
  shows "lock_inv (l\<lparr>cache_r_lock := cache_r_lock l + 1\<rparr>, ps[i := R_held])"
  using assms by (simp add: inv_simps idle_def)

lemma inv_soft_rw:
  assumes "lock_inv (l, ps)" and "i < length ps" and "idle (ps ! i)" and "is_free l"
  shows "lock_inv (l\<lparr>cache_w_lock := True\<rparr>, ps[i := W_held])"
  using assms by (simp add: inv_simps idle_def)

lemma no_wake: "wakes No_wake ps ps"
  by (rule wakes.No_wake)

lemma lock_inv_step:
  assumes "lock_step e s s'" and inv: "lock_inv s"
  shows "lock_inv s'"
  using assms(1)
proof cases
  case (Lock_r i ps l l' p)
  with inv show ?thesis by (auto simp: lock_calls intro: inv_lock_r)
next
  case (Retry_r i ps l l' p)
  with inv show ?thesis by (auto intro: inv_retry_r)
next
  case (Unlock_r i ps l l' w ps')
  note inv' = inv [unfolded Unlock_r(2)]
  note r = unlock_rE [OF Unlock_r(6) inv_use [OF inv'] inv_leave_r(1) [OF inv' Unlock_r(4,5,7)]]
  show ?thesis using Unlock_r(3) r inv_leave_r(2) [OF inv' Unlock_r(4,5,7)] by simp
next
  case (Lock_rw i ps l l' p)
  with inv show ?thesis by (auto simp: lock_calls intro: inv_w_loop)
next
  case (Lock_timed i ps l l' p)
  with inv show ?thesis by (auto simp: lock_calls intro: inv_w_loop)
next
  case (Retry_rw i ps k l l' p)
  with inv show ?thesis by (auto intro: inv_w_retry)
next
  case (Unlock_rw i ps l l' w ps')
  with inv show ?thesis by (auto simp: lock_calls intro: inv_leave_w [where q = Outside])
next
  case (Yield_r i ps l)
  with inv show ?thesis by (auto simp: lock_calls intro: inv_writes)
next
  case (Yield_w i ps l)
  with inv show ?thesis by (auto simp: lock_calls intro: inv_writes)
next
  case (Yield_giveup i ps l l' w ps')
  with inv show ?thesis by (auto simp: lock_calls intro: inv_leave_w [where q = Y_sleep])
next
  case (Yield_relock i ps l l' p)
  with inv show ?thesis by (auto simp: yield_relock_def idle_def intro: inv_w_loop)
next
  case (Spurious i ps l)
  with inv show ?thesis by (cases "ps ! i") (simp_all add: inv_simps)
next
  case (Timeout i ps l)
  then have "\<not> asleep_r (ps ! i)" "\<not> woken_r (ps ! i)" "\<not> reads (ps ! i)" "\<not> writes (ps ! i)"
    "woken_w (ps ! i) = (\<not> asleep_w (ps ! i))"
    by auto
  with Timeout(1-4) inv show ?thesis
    by (simp add: inv_simps timedlock_timeout_def)
next
  case (Softlock_r i ps tr l l' p)
  note inv' = inv [unfolded Softlock_r(2)]
  from Softlock_r have "idle (ps ! i)" by auto
  with softlock_rE [OF Softlock_r(6) inv_use [OF inv']] inv' Softlock_r(3,4) show ?thesis
    by (metis inv_idle inv_soft_r)
next
  case (Softlock_rw i ps tr l l' p)
  note inv' = inv [unfolded Softlock_rw(2)]
  from Softlock_rw have "idle (ps ! i)" by auto
  with softlock_rwE [OF Softlock_rw(6) inv_use [OF inv']] inv' Softlock_rw(3,4) show ?thesis
    by (metis inv_idle inv_soft_rw)
next
  case (Soft_nomutex i ps tr l)
  then show ?thesis using inv by (auto intro: inv_idle)
next
  case (Softunlock_r i ps l)
  note inv' = inv [unfolded Softunlock_r(2)]
  show ?thesis
    using inv_leave_r [OF inv' Softunlock_r(4,5) no_wake] inv_use [OF inv'] Softunlock_r(3)
    by (simp add: softunlock_cache_r_def)
next
  case (Softunlock_rw i ps l)
  note inv' = inv [unfolded Softunlock_rw(2)]
  show ?thesis
    using inv_leave_w [OF inv' Softunlock_rw(4) _ _ no_wake, of Outside] inv_use [OF inv'] Softunlock_rw(3,5)
    by (simp add: softunlock_cache_rw_def lock_inv_def)
qed

lemma lock_inv_reach: "lock_reach E s \<Longrightarrow> lock_inv s"
proof (induction rule: lock_reach.induct)
  case (Start ps)
  then have "cnt P ps = 0" if "\<not> P Outside" for P
    using that by (simp add: cnt_zero list_ex_iff) metis
  then show ?case by (simp add: lock_inv_def init_cache_lock_def lock0_def)
qed (rule lock_inv_step)

text \<open>
  No wake-up is lost as long as nobody times out and the soft locks are not used: a suspension
  of the readers has a writer that will lift it; and while the lock is free and a thread
  sleeps, a woken thread is about to take it.
\<close>

definition awake_inv :: "cache_lock \<times> pc list \<Rightarrow> bool" where
  "awake_inv = (\<lambda>(l, ps).
     (r_susp l \<longrightarrow> 0 < rw_pend l \<or> cache_w_lock l) \<and>
     (0 < cnt asleep_r ps \<longrightarrow> 0 < rw_pend l \<or> cache_w_lock l) \<and>
     (is_free l \<longrightarrow> 0 < cnt asleep_r ps + cnt asleep_w ps \<longrightarrow>
        0 < cnt woken_w ps \<or>
        0 < cnt woken_r ps \<and> \<not> r_susp l \<and> rw_pend l \<le> SUSP_THRESH (r_pend l)))"

lemma SUSP_THRESH_pos: "0 \<le> n \<Longrightarrow> 0 < SUSP_THRESH n"
  by (simp add: SUSP_THRESH_def)

lemma SUSP_THRESH_Suc: "SUSP_THRESH n \<le> SUSP_THRESH (n + 1)"
  by (simp add: SUSP_THRESH_def zdiv_mono1)

lemma awake_held [simp]: "cache_w_lock l \<Longrightarrow> awake_inv (l, ps)"
  by (simp add: awake_inv_def is_free_def)

lemma awake_w_loop:
  assumes "w_loop k (l\<lparr>rw_pend := rw_pend l + 1\<rparr>) = (l', p)" and "lock_inv (l, ps)" and "awake_inv (l, ps)"
    and "i < length ps" and "idle (ps ! i)"
  shows "awake_inv (l', ps[i := p])"
  using assms(1)
proof (cases rule: w_loopE)
  case wait
  then show ?thesis
    using assms(2-5) cnts_nonneg [of ps] by (auto simp: awake_inv_def lock_inv_def cnt_update idle_def)
qed simp

lemma awake_w_retry:
  assumes "w_loop k l = (l', p)" and "awake_inv (l, ps)" and "i < length ps" and "ps ! i = W_woken k"
  shows "awake_inv (l', ps[i := p])"
  using assms(1)
proof (cases rule: w_loopE)
  case wait
  then show ?thesis using assms(2-4) by (auto simp: awake_inv_def cnt_update)
qed simp

lemma awake_lock_r:
  assumes "r_loop (l\<lparr>r_pend := r_pend l + 1\<rparr>) = (l', p)" and "lock_inv (l, ps)" and "awake_inv (l, ps)"
    and "i < length ps" and "idle (ps ! i)"
  shows "awake_inv (l', ps[i := p])"
  using assms(1)
proof (cases rule: r_loopE)
  case wait
  then show ?thesis
    using assms(2-5) cnts_nonneg [of ps] SUSP_THRESH_Suc [of "r_pend l"] SUSP_THRESH_pos [of "r_pend l + 1"]
    by (auto simp: awake_inv_def lock_inv_def cnt_update idle_def)
next
  case wait2
  then show ?thesis
    using assms(2-5) cnts_nonneg [of ps] SUSP_THRESH_Suc [of "r_pend l"]
    by (cases "cache_w_lock l") (simp, auto simp: awake_inv_def lock_inv_def cnt_update idle_def)
next
  case enter
  then show ?thesis
    using assms(2-5) cnts_nonneg [of ps] by (auto simp: awake_inv_def lock_inv_def cnt_update idle_def is_free_def)
qed

lemma awake_retry_r:
  assumes "r_loop l = (l', p)" and "lock_inv (l, ps)" and "awake_inv (l, ps)"
    and "i < length ps" and "ps ! i = R_woken"
  shows "awake_inv (l', ps[i := p])"
  using assms(1)
proof (cases rule: r_loopE)
  case wait
  then show ?thesis
    using assms(2-5) cnts_nonneg [of ps] SUSP_THRESH_pos [of "r_pend l"]
    by (auto simp: awake_inv_def lock_inv_def cnt_update)
next
  case wait2
  then show ?thesis
    using assms(2-5) cnts_nonneg [of ps]
    by (cases "cache_w_lock l") (simp, auto simp: awake_inv_def lock_inv_def cnt_update)
next
  case enter
  then show ?thesis
    using assms(2-5) cnts_nonneg [of ps] by (auto simp: awake_inv_def lock_inv_def cnt_update is_free_def)
qed

lemma awake_leave_w:
  assumes "lock_inv (l, ps)" and "i < length ps" and "writes (ps ! i)" and "idle q"
    and "wakes (handover l) (ps[i := q]) ps'"
  shows "awake_inv (l\<lparr>cache_w_lock := False, r_susp := False\<rparr>, ps')"
proof -
  let ?l' = "l\<lparr>cache_w_lock := False, r_susp := False\<rparr>"
  note w = wakes_counts [OF assms(5)]
  have inv: "lock_inv (?l', ps')"
    by (rule inv_leave_w [OF assms])
  show ?thesis
  proof (cases "handover l = Signal_rw")
    case True
    then have "r_pend l = 0 \<or> 0 < rw_pend l"
      using SUSP_THRESH_pos [of "r_pend l"] assms(1) cnts_nonneg [of ps]
      by (auto simp: handover_def lock_inv_def split: if_splits)
    with True w inv cnts_nonneg [of ps'] show ?thesis
      by (auto simp: awake_inv_def lock_inv_def)
  next
    case False
    then have "r_pend l \<noteq> 0" "rw_pend l \<le> SUSP_THRESH (r_pend l)" "handover l = Broadcast_r"
      by (auto simp: handover_def split: if_splits)
    with w inv cnts_nonneg [of ps'] show ?thesis
      by (auto simp: awake_inv_def lock_inv_def)
  qed
qed

lemma awake_leave_r:
  assumes "lock_inv (l, ps)" and "awake_inv (l, ps)" and "i < length ps" and "ps ! i = R_held"
    and "wakes (if cache_r_lock l - 1 = 0 then Signal_rw else No_wake) (ps[i := Outside]) ps'"
  shows "awake_inv (l\<lparr>cache_r_lock := cache_r_lock l - 1\<rparr>, ps')"
proof -
  note w = wakes_counts [OF assms(5)]
  have inv: "lock_inv (l\<lparr>cache_r_lock := cache_r_lock l - 1\<rparr>, ps')"
    using inv_leave_r assms by blast
  have "\<not> cache_w_lock l"
    using assms cnt_held(1) [of i ps] by (auto simp: lock_inv_def)
  with w inv assms(1-4) cnts_nonneg [of ps'] show ?thesis
    by (cases "cache_r_lock l - 1 = 0") (auto simp: awake_inv_def lock_inv_def is_free_def cnt_update)
qed

lemma awake_inv_step:
  assumes "lock_step Ordinary s s'" and inv: "lock_inv s" and awake: "awake_inv s"
  shows "awake_inv s'"
  using assms(1)
proof cases
  case (Lock_r i ps l l' p)
  with inv awake show ?thesis by (auto simp: lock_calls intro: awake_lock_r)
next
  case (Retry_r i ps l l' p)
  with inv awake show ?thesis by (auto intro: awake_retry_r)
next
  case (Unlock_r i ps l l' w ps')
  note inv' = inv [unfolded Unlock_r(1)] and awake' = awake [unfolded Unlock_r(1)]
  note r = unlock_rE [OF Unlock_r(5) inv_use [OF inv'] inv_leave_r(1) [OF inv' Unlock_r(3,4,6)]]
  show ?thesis
    using Unlock_r(2) r(1) awake_leave_r [OF inv' awake' Unlock_r(3,4) Unlock_r(6) [unfolded r(2)]] by simp
next
  case (Lock_rw i ps l l' p)
  with inv awake show ?thesis by (auto simp: lock_calls intro: awake_w_loop)
next
  case (Lock_timed i ps l l' p)
  with inv awake show ?thesis by (auto simp: lock_calls intro: awake_w_loop)
next
  case (Retry_rw i ps k l l' p)
  with awake show ?thesis by (auto intro: awake_w_retry)
next
  case (Unlock_rw i ps l l' w ps')
  with inv show ?thesis by (auto simp: lock_calls intro: awake_leave_w [where q = Outside])
next
  case (Yield_r i ps l)
  with inv show ?thesis using cnt_held(3) [of i ps] by (auto simp: lock_inv_def)
next
  case (Yield_w i ps l)
  with inv show ?thesis using cnt_pos [of i ps writes] by (auto simp: lock_inv_def)
next
  case (Yield_giveup i ps l l' w ps')
  with inv show ?thesis by (auto simp: lock_calls intro: awake_leave_w [where q = Y_sleep])
next
  case (Yield_relock i ps l l' p)
  with inv awake show ?thesis by (auto simp: yield_relock_def idle_def intro: awake_w_loop)
next
  case (Spurious i ps l)
  with inv awake cnts_nonneg [of ps] show ?thesis
    by (cases "ps ! i") (auto simp: awake_inv_def lock_inv_def cnt_update)
qed

lemma awake_reach: "lock_reach {Ordinary} s \<Longrightarrow> awake_inv s"
proof (induction rule: lock_reach.induct)
  case (Start ps)
  then have "cnt P ps = 0" if "\<not> P Outside" for P
    using that by (simp add: cnt_zero list_ex_iff) metis
  then show ?case by (simp add: awake_inv_def init_cache_lock_def lock0_def)
next
  case (Step s e s')
  then show ?case by (auto intro: awake_inv_step lock_inv_reach)
qed

subsection \<open>What the lock guarantees\<close>

lemma exclusion:
  assumes "lock_inv (l, ps)" and "i < length ps" and "writes (ps ! i)" and "j < length ps" and "i \<noteq> j"
  shows "\<not> writes (ps ! j) \<and> \<not> reads (ps ! j)"
proof -
  have "cnt writes ps = 1" "cnt reads ps = 0"
    using assms(1) cnt_pos [OF assms(2), of writes] assms(3) by (auto simp: lock_inv_def)
  then show ?thesis
    using cnt_two [OF assms(2,4,5), of writes] assms(3) cnt_pos [OF assms(4), of reads] by auto
qed

lemma woken_enters:
  assumes "awake_inv (l, ps)" and "lock_inv (l, ps)" and "is_free l"
    and "i < length ps" and "asleep_r (ps ! i) \<or> asleep_w (ps ! i)"
  shows "\<exists>j < length ps. ps ! j = R_woken \<and> snd (r_loop l) = R_held \<or>
    (\<exists>k. ps ! j = W_woken k \<and> snd (w_loop k l) = W_held)"
proof -
  have "0 < cnt asleep_r ps + cnt asleep_w ps"
    using assms(4,5) cnt_pos [of i ps asleep_r] cnt_pos [of i ps asleep_w] cnts_nonneg [of ps] by auto
  with assms(1,3) consider "0 < cnt woken_w ps" |
      "0 < cnt woken_r ps" "\<not> r_susp l" "rw_pend l \<le> SUSP_THRESH (r_pend l)"
    by (auto simp: awake_inv_def)
  then show ?thesis
  proof cases
    case 1
    then obtain j where "j < length ps" "woken_w (ps ! j)" by (auto dest: cnt_posD)
    moreover from this obtain k where "ps ! j = W_woken k" by (cases "ps ! j") auto
    ultimately show ?thesis using assms(3) by (auto simp: w_loop_def is_free_def)
  next
    case 2
    then obtain j where "j < length ps" "woken_r (ps ! j)" by (auto dest: cnt_posD)
    moreover from this have "ps ! j = R_woken" by (cases "ps ! j") auto
    ultimately show ?thesis using assms(3) 2(2,3) by (auto simp: r_loop_def is_free_def)
  qed
qed

text \<open>
  A time-out that overtakes a wake-up loses it: \<open>timedlock_cache_rw\<close> returns without passing
  the signal on, and without lifting a suspension of the readers it has caused. From then on
  the lock is free, but two writers sleep, and every reader that comes goes to sleep as well.
\<close>

definition stuck_pcs :: "pc list" where
  "stuck_pcs = [R_wait, R_wait, W_wait Untimed, W_wait Untimed, R_wait]"

lemma reach_call:
  assumes "lock_reach E (l, ps)" and "Ordinary \<in> E" and "i < length ps" and "ps ! i = Outside"
    and "lock_cache_r l = (l', p) \<or> lock_cache_rw l = (l', p) \<or> timedlock_cache_rw l = (l', p)"
  shows "lock_reach E (l', ps[i := p])"
  using assms(5)
  by (elim disjE; intro lock_reach.Step [OF assms(1,2)];
      blast intro: Lock_r Lock_rw Lock_timed assms(3,4))

lemma timeout_loses_wakeup:
  "\<exists>l. lock_reach {Ordinary, Timeout} (l, stuck_pcs) \<and> \<not> cache_w_lock l \<and> cache_r_lock l = 0"
proof -
  let ?E = "{Ordinary, Timeout}"
  let ?W = "W_wait Untimed" and ?T = "W_wait Timed"
  let ?l = "\<lambda>r rp wp s. \<lparr>cache_w_lock = False, cache_r_lock = r, r_pend = rp, rw_pend = wp, r_susp = s,
     use_cache_lock = True\<rparr>"
  note step = lock_defs SUSP_THRESH_def
  have 0: "lock_reach ?E (?l 0 0 0 False, [Outside, Outside, Outside, Outside, Outside])"
    using lock_reach.Start [of "[Outside, Outside, Outside, Outside, Outside]" ?E]
    by (simp add: init_cache_lock_def lock0_def)
  have 1: "lock_reach ?E (?l 1 0 0 False, [R_held, Outside, Outside, Outside, Outside])"
    using reach_call [OF 0, of 0 "?l 1 0 0 False" R_held] by (simp add: step)
  have 2: "lock_reach ?E (?l 1 0 1 False, [R_held, ?T, Outside, Outside, Outside])"
    using reach_call [OF 1, of 1 "?l 1 0 1 False" ?T] by (simp add: step)
  have 3: "lock_reach ?E (?l 1 0 2 False, [R_held, ?T, ?W, Outside, Outside])"
    using reach_call [OF 2, of 2 "?l 1 0 2 False" ?W] by (simp add: step)
  have 4: "lock_reach ?E (?l 1 0 3 False, [R_held, ?T, ?W, ?W, Outside])"
    using reach_call [OF 3, of 3 "?l 1 0 3 False" ?W] by (simp add: step)
  have 5: "lock_reach ?E (?l 1 1 3 True, [R_held, ?T, ?W, ?W, R_wait])"
    using reach_call [OF 4, of 4 "?l 1 1 3 True" R_wait] by (simp add: step)
  have "wakes Signal_rw [Outside, ?T, ?W, ?W, R_wait] [Outside, W_woken Timed, ?W, ?W, R_wait]"
    using Signal [of 1 "[Outside, ?T, ?W, ?W, R_wait]"] by simp
  then have "lock_step Ordinary (?l 1 1 3 True, [R_held, ?T, ?W, ?W, R_wait])
      (?l 0 1 3 True, [Outside, W_woken Timed, ?W, ?W, R_wait])"
    by (intro Unlock_r [where i = 0 and w = Signal_rw]) (simp_all add: step)
  then have "lock_reach ?E (?l 0 1 3 True, [Outside, W_woken Timed, ?W, ?W, R_wait])"
    by (intro lock_reach.Step [OF 5]) simp_all
  then have 6: "lock_reach ?E (?l 0 1 2 True, [Outside, Outside, ?W, ?W, R_wait])"
    using lock_reach.Step [OF _ _ Timeout [of 1 "[Outside, W_woken Timed, ?W, ?W, R_wait]" "?l 0 1 3 True"]]
    by (simp add: timedlock_timeout_def)
  have 7: "lock_reach ?E (?l 0 2 2 True, [R_wait, Outside, ?W, ?W, R_wait])"
    using reach_call [OF 6, of 0 "?l 0 2 2 True" R_wait] by (simp add: step)
  have "lock_reach ?E (?l 0 3 2 True, stuck_pcs)"
    using reach_call [OF 7, of 1 "?l 0 3 2 True" R_wait] by (simp add: step stuck_pcs_def)
  then show ?thesis by force
qed

subsection \<open>Properties\<close>

text \<open>
  C21: While a thread holds the write lock of the cache, no other thread holds it for writing or
  for reading, however the steps of the threads interleave, time-outs and soft locks included.
\<close>

theorem cache_lock_exclusive:
  assumes "lock_reach E (l, ps)" and "i < length ps" and "writes (ps ! i)" and "j < length ps" and "i \<noteq> j"
  shows "\<not> writes (ps ! j) \<and> \<not> reads (ps ! j)"
  using exclusion [OF lock_inv_reach [OF assms(1)] assms(2-5)] .

definition demo_lock :: cache_lock where
  "demo_lock = (init_cache_lock lock0)\<lparr>rw_pend := 2\<rparr>"

lemma demo_writer: "lock_reach E ((init_cache_lock lock0)\<lparr>cache_w_lock := True\<rparr>, [W_held, Outside])"
  if "Ordinary \<in> E"
proof -
  have "lock_reach E (init_cache_lock lock0, [Outside, Outside])"
    by (rule lock_reach.Start) simp
  from reach_call [OF this that, of 0 "(init_cache_lock lock0)\<lparr>cache_w_lock := True\<rparr>" W_held] show ?thesis
    by (simp add: lock_defs init_cache_lock_def lock0_def)
qed

lemma cache_lock_exclusive_witness: "\<not> writes ([W_held, Outside] ! 1) \<and> \<not> reads ([W_held, Outside] ! 1)"
  by (rule cache_lock_exclusive [OF demo_writer [of "{Ordinary}"], of 0]) simp_all

text \<open>
  C22: The lock of the cache loses no wake-up in ordinary operation: in every state that the
  threads can reach without time-outs and soft locks, if nobody holds the lock and some thread
  sleeps in a condition wait, then some woken thread gets the lock as soon as it runs.
\<close>

theorem cache_lock_no_lost_wakeup:
  assumes "lock_reach {Ordinary} (l, ps)" and "\<not> cache_w_lock l" and "cache_r_lock l = 0"
    and "i < length ps" and "asleep_r (ps ! i) \<or> asleep_w (ps ! i)"
  shows "\<exists>j < length ps. ps ! j = R_woken \<and> snd (r_loop l) = R_held \<or>
    (\<exists>k. ps ! j = W_woken k \<and> snd (w_loop k l) = W_held)"
  using woken_enters [OF awake_reach [OF assms(1)] lock_inv_reach [OF assms(1)] _ assms(4,5)] assms(2,3)
  by (simp add: is_free_def)

lemma demo_lock_reach: "lock_reach {Ordinary} (demo_lock, [Outside, W_woken Untimed, W_wait Untimed])"
proof -
  let ?W = "W_wait Untimed"
  let ?l = "\<lambda>r wp. \<lparr>cache_w_lock = False, cache_r_lock = r, r_pend = 0, rw_pend = wp, r_susp = False,
     use_cache_lock = True\<rparr>"
  note step = lock_defs SUSP_THRESH_def
  have 0: "lock_reach {Ordinary} (?l 0 0, [Outside, Outside, Outside])"
    using lock_reach.Start [of "[Outside, Outside, Outside]" "{Ordinary}"]
    by (simp add: init_cache_lock_def lock0_def)
  have 1: "lock_reach {Ordinary} (?l 1 0, [R_held, Outside, Outside])"
    using reach_call [OF 0, of 0 "?l 1 0" R_held] by (simp add: step)
  have 2: "lock_reach {Ordinary} (?l 1 1, [R_held, ?W, Outside])"
    using reach_call [OF 1, of 1 "?l 1 1" ?W] by (simp add: step)
  have 3: "lock_reach {Ordinary} (?l 1 2, [R_held, ?W, ?W])"
    using reach_call [OF 2, of 2 "?l 1 2" ?W] by (simp add: step)
  have "wakes Signal_rw [Outside, ?W, ?W] [Outside, W_woken Untimed, ?W]"
    using Signal [of 1 "[Outside, ?W, ?W]"] by simp
  then have "lock_step Ordinary (?l 1 2, [R_held, ?W, ?W]) (?l 0 2, [Outside, W_woken Untimed, ?W])"
    by (intro Unlock_r [where i = 0 and w = Signal_rw]) (simp_all add: step)
  then have "lock_reach {Ordinary} (?l 0 2, [Outside, W_woken Untimed, ?W])"
    by (intro lock_reach.Step [OF 3]) simp_all
  then show ?thesis by (simp add: demo_lock_def init_cache_lock_def lock0_def)
qed

lemma cache_lock_no_lost_wakeup_witness:
  "\<exists>j < 3. [Outside, W_woken Untimed, W_wait Untimed] ! j = R_woken \<and> snd (r_loop demo_lock) = R_held \<or>
    (\<exists>k. [Outside, W_woken Untimed, W_wait Untimed] ! j = W_woken k \<and> snd (w_loop k demo_lock) = W_held)"
  using cache_lock_no_lost_wakeup [OF demo_lock_reach, of 2]
  by (simp add: demo_lock_def init_cache_lock_def lock0_def numeral_3_eq_3)

end
