(* ===== verification/Answer_Rr.thy ===== *)
theory Answer_Rr
  imports Dns_Compress Dns_Parse
begin

text \<open>
  The composition of answers in \<open>dns_answer.c\<close>, lower half: records are appended to a growing
  message, with the names in them compressed (\<open>add_rr\<close>), and the pseudo-record of EDNS is added
  and removed.
\<close>

subsection \<open>The message under composition\<close>

text \<open>
  \<open>a_buf\<close> is the memory of \<open>*ans\<close> from its member \<open>hdr\<close> on, \<open>a_sz\<close> is \<open>*sz\<close>, \<open>a_cb\<close> the list of
  compressed names. The state of the cache \<open>a_st\<close> carries the outcomes of allocations; one is
  drawn for every call that may allocate. New memory is written here with contents 0.
\<close>

record answer =
  a_buf :: bytes
  a_sz :: nat
  a_cb :: "compel list"
  a_st :: cache

definition dnsmsghdroffset :: nat where "dnsmsghdroffset = 2"
definition ALLOCINITIALSIZE :: nat where "ALLOCINITIALSIZE = 256"
definition ALLOCCHUNKSIZEMASK :: nat where "ALLOCCHUNKSIZEMASK = 0x7f"

definition allocsz :: "answer \<Rightarrow> nat" where
  "allocsz a = dnsmsghdroffset + length (a_buf a)"

text \<open>The mask has the lowest 7 bits, so clearing them is rounding down to a multiple.\<close>

definition round_alloc :: "nat \<Rightarrow> nat" where
  "round_alloc newsz = (newsz + ALLOCCHUNKSIZEMASK) div (ALLOCCHUNKSIZEMASK + 1) * (ALLOCCHUNKSIZEMASK + 1)"

definition grow_ans :: "nat \<Rightarrow> answer \<Rightarrow> bool \<times> answer" where
  "grow_ans newsz a =
     (if allocsz a < newsz then
        (let (ok, st1) = malloc (a_st a) in
         if ok then (True, a\<lparr>a_buf := a_buf a @ replicate (round_alloc newsz - allocsz a) 0, a_st := st1\<rparr>)
         else (False, a\<lparr>a_st := st1\<rparr>))
      else (True, a))"

text \<open>\<open>memcpy\<close> to the end of the message.\<close>

definition put_bytes :: "bytes \<Rightarrow> answer \<Rightarrow> answer option" where
  "put_bytes v a = do { b \<leftarrow> wr_all (a_buf a) (a_sz a) v; Some (a\<lparr>a_buf := b, a_sz := a_sz a + length v\<rparr>) }"

text \<open>\<open>compress_name\<close> to the end of the message; 0 if it fails.\<close>

definition put_name :: "bytes \<Rightarrow> answer \<Rightarrow> (nat \<times> answer) option" where
  "put_name nm a = do {
     let (ok, st1) = malloc (a_st a);
     (rl, out, cb) \<leftarrow> compress_name nm (drop (a_sz a) (a_buf a)) (a_sz a) (a_cb a) ok;
     Some (rl, a\<lparr>a_buf := take (a_sz a) (a_buf a) @ out, a_sz := a_sz a + rl, a_cb := cb, a_st := st1\<rparr>)
   }"

subsection \<open>The data of a record\<close>

text \<open>
  One definition per branch of the \<open>switch\<close>. The result is \<open>rdlen\<close>, or \<open>None\<close> inside if
  \<open>add_rr\<close> returns 0 there.
\<close>

type_synonym put_result = "(nat option \<times> answer) option"

definition put_rr_name :: "bytes \<Rightarrow> answer \<Rightarrow> put_result" where
  "put_rr_name data a = do {
     (rdlen, a1) \<leftarrow> put_name data a;
     if rdlen = 0 then Some (None, a1)
     else if \<not> rdlen \<le> length data then None
     else Some (Some rdlen, a1)
   }"

definition put_rr_two_names :: "bytes \<Rightarrow> answer \<Rightarrow> put_result" where
  "put_rr_two_names data a = do {
     (rdlen, a1) \<leftarrow> put_name data a;
     if rdlen = 0 then Some (None, a1)
     else do {
       ilen \<leftarrow> rhnlen data;
       if \<not> rdlen \<le> ilen then None
       else do {
         (blen, a2) \<leftarrow> put_name (drop ilen data) a1;
         if blen = 0 then Some (None, a2)
         else if \<not> rdlen + blen \<le> length data then None
         else Some (Some (rdlen + blen), a2)
       }
     }
   }"

text \<open>\<open>T_MX\<close>, \<open>T_AFSDB\<close>, \<open>T_RT\<close>, \<open>T_KX\<close> with 2 bytes in front of the name, \<open>T_SRV\<close> with 6.\<close>

definition put_rr_pref_name :: "nat \<Rightarrow> bytes \<Rightarrow> answer \<Rightarrow> put_result" where
  "put_rr_pref_name n data a =
     (if \<not> n < length data then None
      else do {
        pref \<leftarrow> rd_all data 0 n;
        a1 \<leftarrow> put_bytes pref a;
        (blen, a2) \<leftarrow> put_name (drop n data) a1;
        if blen = 0 then Some (None, a2)
        else if \<not> n + blen \<le> length data then None
        else Some (Some (n + blen), a2)
      })"

definition put_rr_soa :: "bytes \<Rightarrow> answer \<Rightarrow> put_result" where
  "put_rr_soa data a = do {
     (rdlen, a1) \<leftarrow> put_name data a;
     if rdlen = 0 then Some (None, a1)
     else do {
       ilen \<leftarrow> rhnlen data;
       if \<not> rdlen \<le> ilen then None
       else do {
         (blen, a2) \<leftarrow> put_name (drop ilen data) a1;
         if blen = 0 then Some (None, a2)
         else do {
           il2 \<leftarrow> rhnlen (drop ilen data);
           if \<not> rdlen + blen \<le> ilen + il2 then None
           else do {
             tail \<leftarrow> rd_all data (ilen + il2) 20;
             a3 \<leftarrow> put_bytes tail a2;
             if \<not> rdlen + blen + 20 \<le> length data then None
             else Some (Some (rdlen + blen + 20), a3)
           }
         }
       }
     }
   }"

definition put_rr_px :: "bytes \<Rightarrow> answer \<Rightarrow> put_result" where
  "put_rr_px data a =
     (if \<not> 2 < length data then None
      else do {
        pref \<leftarrow> rd_all data 0 2;
        a1 \<leftarrow> put_bytes pref a;
        (blen, a2) \<leftarrow> put_name (drop 2 data) a1;
        if blen = 0 then Some (None, a2)
        else do {
          il \<leftarrow> rhnlen (drop 2 data);
          if \<not> 2 + blen \<le> 2 + il then None
          else do {
            (blen2, a3) \<leftarrow> put_name (drop (2 + il) data) a2;
            if blen2 = 0 then Some (None, a3)
            else if \<not> 2 + blen + blen2 \<le> length data then None
            else Some (Some (2 + blen + blen2), a3)
          }
        }
      })"

definition put_rr_nxt :: "bytes \<Rightarrow> answer \<Rightarrow> put_result" where
  "put_rr_nxt data a = do {
     (blen, a1) \<leftarrow> put_name data a;
     if blen = 0 then Some (None, a1)
     else do {
       ilen \<leftarrow> rhnlen data;
       if \<not> blen \<le> ilen then None
       else if \<not> ilen \<le> length data then None
       else if ilen < length data then do {
         bitmap \<leftarrow> rd_all data ilen (length data - ilen);
         a2 \<leftarrow> put_bytes bitmap a1;
         Some (Some (blen + (length data - ilen)), a2)
       }
       else Some (Some blen, a1)
     }
   }"

text \<open>The loop over the three strings of a NAPTR record.\<close>

fun naptr_skip :: "nat \<Rightarrow> bytes \<Rightarrow> nat \<Rightarrow> nat option" where
  "naptr_skip 0 data ilen = Some ilen"
| "naptr_skip (Suc j) data ilen = do {
     c \<leftarrow> rd data ilen;
     let ilen1 = ilen + unat c + 1;
     if \<not> ilen1 < length data then None else naptr_skip j data ilen1
   }"

definition put_rr_naptr :: "bytes \<Rightarrow> answer \<Rightarrow> put_result" where
  "put_rr_naptr data a =
     (if \<not> 4 < length data then None
      else do {
        ilen \<leftarrow> naptr_skip 3 data 4;
        hd \<leftarrow> rd_all data 0 ilen;
        a1 \<leftarrow> put_bytes hd a;
        (blen, a2) \<leftarrow> put_name (drop ilen data) a1;
        if blen = 0 then Some (None, a2)
        else if \<not> ilen + blen \<le> length data then None
        else Some (Some (ilen + blen), a2)
      })"

definition put_rr_default :: "bytes \<Rightarrow> answer \<Rightarrow> put_result" where
  "put_rr_default data a = do { a1 \<leftarrow> put_bytes data a; Some (Some (length data), a1) }"

definition put_rdata :: "nat \<Rightarrow> bytes \<Rightarrow> answer \<Rightarrow> put_result" where
  "put_rdata type data a =
     (if type \<in> set name_types then put_rr_name data a
      else if type = T_MINFO \<or> type = T_RP then put_rr_two_names data a
      else if type = T_MX \<or> type = T_AFSDB \<or> type = T_RT \<or> type = T_KX then put_rr_pref_name 2 data a
      else if type = T_SOA then put_rr_soa data a
      else if type = T_PX then put_rr_px data a
      else if type = T_SRV then put_rr_pref_name 6 data a
      else if type = T_NXT then put_rr_nxt data a
      else if type = T_NAPTR then put_rr_naptr data a
      else put_rr_default data a)"

subsection \<open>add_rr\<close>

datatype rr_section = S_ANSWER | S_AUTHORITY | S_ADDITIONAL

text \<open>Where the header counts the records of a section.\<close>

definition count_at :: "rr_section \<Rightarrow> nat" where
  "count_at section = (case section of S_ANSWER \<Rightarrow> 6 | S_AUTHORITY \<Rightarrow> 8 | S_ADDITIONAL \<Rightarrow> 10)"

definition count_up :: "nat \<Rightarrow> bytes \<Rightarrow> bytes option" where
  "count_up i b = do { n \<leftarrow> ntohs_at b i; (b1, _) \<leftarrow> PUTINT16 (n + 1) b i; Some b1 }"

definition put_rr_hdr :: "nat \<Rightarrow> 32 word \<Rightarrow> nat \<Rightarrow> nat \<Rightarrow> bytes \<Rightarrow> bytes option" where
  "put_rr_hdr type ttl rdlen rrht b = do {
     (b1, p1) \<leftarrow> PUTINT16 (of_nat type) b rrht;
     (b2, p2) \<leftarrow> PUTINT16 (of_nat C_IN) b1 p1;
     (b3, p3) \<leftarrow> PUTINT32 ttl b2 p2;
     (b4, p4) \<leftarrow> PUTINT16 (of_nat rdlen) b3 p3;
     Some b4
   }"

text \<open>The test whether an additional record makes an answer over UDP too long.\<close>

definition too_long :: "nat option \<Rightarrow> rr_section \<Rightarrow> nat \<Rightarrow> bool" where
  "too_long udp section sz = (case udp of None \<Rightarrow> False | Some u \<Rightarrow> u < sz \<and> section = S_ADDITIONAL)"

definition add_rr ::
    "bytes \<Rightarrow> nat \<Rightarrow> 32 word \<Rightarrow> bytes \<Rightarrow> rr_section \<Rightarrow> nat option \<Rightarrow> answer \<Rightarrow> (bool \<times> answer) option" where
  "add_rr rrn type ttl data section udp a = do {
     let (ok, st1) = malloc (a_st a);
     (nlen, nbuf, cb1) \<leftarrow> compress_name rrn (replicate DNSNAMEBUFSIZE 0) (a_sz a) (a_cb a) ok;
     let a1 = a\<lparr>a_cb := cb1, a_st := st1\<rparr>;
     if nlen = 0 then Some (False, a1)
     else do {
       let (ok2, a2) = grow_ans (dnsmsghdroffset + a_sz a + nlen + sizeof_rr_hdr_t + length data) a1;
       if \<not> ok2 then Some (False, a2)
       else do {
         nm \<leftarrow> rd_all nbuf 0 nlen;
         a3 \<leftarrow> put_bytes nm a2;
         (r, a4) \<leftarrow> put_rdata type data (a3\<lparr>a_sz := a_sz a3 + sizeof_rr_hdr_t\<rparr>);
         case r of None \<Rightarrow> Some (False, a4)
         | Some rdlen \<Rightarrow>
             if too_long udp section (a_sz a4) then Some (True, a4\<lparr>a_sz := a_sz a\<rparr>)
             else do {
               b \<leftarrow> put_rr_hdr type ttl rdlen (a_sz a3) (a_buf a4);
               b' \<leftarrow> count_up (count_at section) b;
               Some (True, a4\<lparr>a_buf := b'\<rparr>)
             }
       }
     }
   }"

subsection \<open>The pseudo-record of EDNS\<close>

definition add_opt_pseudo_rr ::
    "16 word \<Rightarrow> 16 word \<Rightarrow> byte \<Rightarrow> 16 word \<Rightarrow> answer \<Rightarrow> (bool \<times> answer) option" where
  "add_opt_pseudo_rr udpsize rcode ednsver Zflags a =
     (let (ok, a1) = grow_ans (dnsmsghdroffset + a_sz a + sizeof_opt_pseudo_rr) a in
      if \<not> ok then Some (False, a1)
      else do {
        let ptr = a_sz a1;
        b0 \<leftarrow> wr (a_buf a1) ptr 0;
        (b1, p1) \<leftarrow> PUTINT16 (of_nat T_OPT) b0 (ptr + 1);
        (b2, p2) \<leftarrow> PUTINT16 udpsize b1 p1;
        b3 \<leftarrow> wr b2 p2 (ucast (drop_bit 4 rcode));
        b4 \<leftarrow> wr b3 (p2 + 1) ednsver;
        (b5, p5) \<leftarrow> PUTINT16 Zflags b4 (p2 + 2);
        (b6, p6) \<leftarrow> PUTINT16 0 b5 p5;
        b7 \<leftarrow> count_up 10 b6;
        Some (True, a1\<lparr>a_buf := b7, a_sz := a_sz a1 + sizeof_opt_pseudo_rr\<rparr>)
      })"

text \<open>The message \<open>ans\<close> and its length; the result is the new length and the message.\<close>

definition remove_opt_pseudo_rr :: "bytes \<Rightarrow> nat \<Rightarrow> (nat \<times> bytes) option" where
  "remove_opt_pseudo_rr ans sz = do {
     acnt \<leftarrow> ntohs_at ans 10;
     if \<not> (0 < acnt \<and> sizeof_dns_hdr + sizeof_opt_pseudo_rr \<le> sz) then Some (0, ans)
     else do {
       let sz1 = sz - sizeof_opt_pseudo_rr;
       c \<leftarrow> rd ans sz1;
       if c \<noteq> 0 then Some (0, ans)
       else do {
         (type, p) \<leftarrow> GETINT16 ans (sz1 + 1);
         if unat type \<noteq> T_OPT then Some (0, ans)
         else do { (ans1, p1) \<leftarrow> PUTINT16 (acnt - 1) ans 10; Some (sz1, ans1) }
       }
     }
   }"

end
