(* ===== verification/Answer_Put.thy ===== *)
theory Answer_Put
  imports Answer_Rr Cache_Build
begin

text \<open>
  Writing to the end of a message: what \<open>put_name\<close> and \<open>put_bytes\<close> do to the message, in two
  layers. \<open>ans_safe\<close> is enough for memory safety and holds always; \<open>ans_reads\<close> says that the
  names in the list of compressed names can be read back from the message.
\<close>

subsection \<open>compress_name on longer data and with failing allocations\<close>

definition cb_names :: "compel list \<Rightarrow> bool" where
  "cb_names cb \<longleftrightarrow> (\<forall>(i, s) \<in> set cb. \<exists>ls. dns_name ls \<and> s = enc ls)"

lemma cb_names_simps [simp]:
  "cb_names []"
  "cb_names ((i, s) # cb) \<longleftrightarrow> (\<exists>ls. dns_name ls \<and> s = enc ls) \<and> cb_names cb"
  "cb_names (cb @ cb') \<longleftrightarrow> cb_names cb \<and> cb_names cb'"
  by (auto simp: cb_names_def Ball_def split: prod.splits)

lemma domain_match_names:
  assumes "dns_name a" and "dns_name b"
  shows "domain_match (enc a @ r) (enc b) =
    Some (common_labels a b, suffix_off a (common_labels a b), suffix_off b (common_labels a b))"
  using domain_match_enc [of a b r "[]"] assms dns_name_segments [OF assms(1)] dns_name_segments [OF assms(2)]
  by (simp add: suffix_off_def dns_name_labels_ok)

lemma find_longest_total:
  assumes "dns_name nm" and "cb_names cb" and "m \<le> length nm" and "0 < m \<longrightarrow> lrem = suffix_off nm m"
  shows "\<exists>m' lrem' coffs'. find_longest (enc nm @ r) cb (m, lrem, coffs) = Some (m', lrem', coffs') \<and>
    find_longest (enc nm) cb (m, lrem, coffs) = Some (m', lrem', coffs') \<and>
    m' \<le> length nm \<and> (0 < m' \<longrightarrow> lrem' = suffix_off nm m')"
  using assms(2-4)
proof (induction cb arbitrary: m lrem coffs)
  case Nil
  then show ?case by simp
next
  case (Cons g cb)
  obtain i s where g: "g = (i, s)" by (cases g)
  with Cons.prems obtain ls where ls: "dns_name ls" "s = enc ls" "cb_names cb" by auto
  note d = domain_match_names [OF assms(1) ls(1), of r] domain_match_names [OF assms(1) ls(1), of "[]"]
  let ?k = "common_labels nm ls"
  let ?acc = "if m < ?k \<and> (of_nat i + of_nat (suffix_off ls ?k) :: 32 word) \<le> 0x3fff
    then (?k, suffix_off nm ?k, of_nat i + of_nat (suffix_off ls ?k)) else (m, lrem, coffs)"
  have step: "find_longest (enc nm @ x) (g # cb) (m, lrem, coffs) = find_longest (enc nm @ x) cb ?acc" for x
    using domain_match_names [OF assms(1) ls(1), of x] by (simp add: g ls(2) Let_def)
  obtain a b c where acc: "?acc = (a, b, c)" by (cases ?acc) auto
  then have "a \<le> length nm" "0 < a \<longrightarrow> b = suffix_off nm a"
    using Cons.prems(2,3) common_labels_le(1) [of nm ls] by (auto split: if_splits)
  from Cons.IH [OF ls(3) this, of c] show ?case
    using step [of r] step [of "[]"] unfolding acc by simp
qed

lemma compress_name_nomem:
  assumes "compress_name nm out offs cb True = Some (rl, out', cb')"
  shows "compress_name nm out offs cb False = Some (if cb' = cb then (rl, out', cb') else (0, out', []))"
proof -
  obtain ilen longest lrem coffs where a: "rhnlen nm = Some ilen" "ilen \<le> DNSNAMEBUFSIZE"
      "find_longest nm cb (0, 0, 0) = Some (longest, lrem, coffs)"
    using assms by (auto simp: compress_name_def split: bind_splits if_splits)
  show ?thesis
  proof (cases "0 < longest")
    case True
    with assms a show ?thesis
      by (simp add: compress_name_def split: bind_splits if_splits) (auto split: bind_splits)
  next
    case False
    with assms a show ?thesis
      by (simp add: compress_name_def split: bind_splits if_splits) (auto split: bind_splits)
  qed
qed

lemma compress_name_tail:
  assumes "dns_name ls" and "cb_names cb"
  shows "compress_name (enc ls @ r) out offs cb al = compress_name (enc ls) out offs cb al"
proof -
  from find_longest_total [OF assms, of 0 0 r 0] obtain m lrem coffs where
    f: "find_longest (enc ls @ r) cb (0, 0, 0) = Some (m, lrem, coffs)"
      "find_longest (enc ls) cb (0, 0, 0) = Some (m, lrem, coffs)"
      "m \<le> length ls" "0 < m \<Longrightarrow> lrem = suffix_off ls m" by auto
  have lok: "labels_ok ls" using assms(1) by (rule dns_name_labels_ok)
  have rd: "rd_all (enc ls @ r) 0 k = rd_all (enc ls) 0 k" if "k \<le> length (enc ls)" for k
    using that by (simp add: rd_all_def)
  have le: "suffix_off ls m + 2 \<le> length (enc ls)" if "0 < m"
    using assms(1) that f(3) by (intro suffix_off_room) (simp_all add: dns_name_def)
  show ?thesis
    using f lok le by (cases "0 < m") (simp_all add: compress_name_def rd cong: if_cong)
qed

text \<open>
  The outcome of \<open>compress_name\<close> on data that starts with a name: 0 if an allocation fails, else
  as on the name alone with all allocations succeeding.
\<close>

lemma compress_name_cases:
  assumes "dns_name ls" and "cb_names cb" and "length (enc ls) \<le> length out"
  obtains (fail) out' where "compress_name (enc ls @ r) out offs cb al = Some (0, out', [])"
    "length out' = length out" "\<not> al"
  | (ok) rl out' cb' where "compress_name (enc ls @ r) out offs cb al = Some (rl, out', cb')"
    "compress_name (enc ls) out offs cb True = Some (rl, out', cb')"
    "length out' = length out" "0 < rl" "rl \<le> length (enc ls)" "cb_names cb'"
proof -
  from find_longest_total [OF assms(1,2), of 0 0 r 0] obtain m lrem coffs where
    f: "find_longest (enc ls @ r) cb (0, 0, 0) = Some (m, lrem, coffs)"
      "find_longest (enc ls) cb (0, 0, 0) = Some (m, lrem, coffs)"
      "m \<le> length ls" "0 < m \<Longrightarrow> lrem = suffix_off ls m" by auto
  have lok: "labels_ok ls" using assms(1) by (rule dns_name_labels_ok)
  have le: "suffix_off ls m + 2 \<le> length (enc ls)" if "0 < m"
    using assms(1) that f(3) by (intro suffix_off_room) (simp_all add: dns_name_def)
  note same = compress_name_tail [OF assms(1,2), of r out offs al]
  show thesis
  proof (cases "m = 0")
    case True
    from compress_name_full [OF assms(1,3) f(2) [unfolded True], of offs] obtain out' where
      o: "compress_name (enc ls) out offs cb True = Some (length (enc ls), out', cb @ [(offs, enc ls)])"
        "length out' = length out" by blast
    show thesis
    proof (cases al)
      case True
      with same o show thesis using assms(1,2) by (intro ok [of "length (enc ls)" out' "cb @ [(offs, enc ls)]"]) (auto simp: length_enc)
    next
      case False
      with same compress_name_nomem [OF o(1)] have "compress_name (enc ls @ r) out offs cb al = Some (0, out', [])"
        by simp
      with False o(2) show thesis by (intro fail)
    qed
  next
    case False
    then have m: "0 < m" by simp
    from compress_name_pointer [OF assms(1,3) f(2) [unfolded f(4) [OF m]] m f(3), of offs] obtain out' where
      o: "compress_name (enc ls) out offs cb True = Some (suffix_off ls m + 2, out',
        (if suffix_off ls m \<noteq> 0 then cb @ [(offs, enc ls)] else cb))" "length out' = length out" by blast
    note le = le [OF m]
    show thesis
    proof (cases "al \<or> suffix_off ls m = 0")
      case True
      then have "compress_name (enc ls) out offs cb al = compress_name (enc ls) out offs cb True"
        using f(2) f(4) [OF m] m lok by (cases al) (simp, auto simp: compress_name_def)
      with same o le show thesis using assms(1,2) 
        by (intro ok [of "suffix_off ls m + 2" out' "if suffix_off ls m \<noteq> 0 then cb @ [(offs, enc ls)] else cb"]) auto
    next
      case False
      with same compress_name_nomem [OF o(1)] have "compress_name (enc ls @ r) out offs cb al = Some (0, out', [])"
        by simp
      with False o(2) show thesis by (intro fail [of out']) auto
    qed
  qed
qed

subsection \<open>Writing at the end of the message\<close>

definition ans_safe :: "answer \<Rightarrow> bool" where
  "ans_safe a \<longleftrightarrow> sizeof_dns_hdr \<le> a_sz a \<and> a_sz a \<le> length (a_buf a) \<and> cb_names (a_cb a)"

text \<open>
  The message with any header \<open>hdr\<close>: the header is changed while records are added, and no name
  is read from it.
\<close>

definition ans_msg :: "bytes \<Rightarrow> answer \<Rightarrow> bytes" where
  "ans_msg hdr a = hdr @ drop sizeof_dns_hdr (take (a_sz a) (a_buf a))"

definition ans_reads :: "bytes \<Rightarrow> answer \<Rightarrow> bool" where
  "ans_reads hdr a \<longleftrightarrow> (\<exists>gs. a_cb a = map ent gs \<and> cb_inv (ans_msg hdr a) gs)"

text \<open>What one write leaves alone: the earlier message, the size of the memory, the cache.\<close>

definition writes_on :: "answer \<Rightarrow> answer \<Rightarrow> bool" where
  "writes_on a a' \<longleftrightarrow> length (a_buf a') = length (a_buf a) \<and> a_sz a \<le> a_sz a' \<and>
     take (a_sz a) (a_buf a') = take (a_sz a) (a_buf a) \<and> (\<exists>m. a_st a' = a_st a\<lparr>mem := m\<rparr>)"

lemma writes_on_refl [simp]: "writes_on a a"
  unfolding writes_on_def by (intro conjI exI [of _ "mem (a_st a)"]) simp_all

lemma writes_on_trans:
  assumes "writes_on a b" and "writes_on b c"
  shows "writes_on a c"
proof -
  have "take (a_sz a) (a_buf c) = take (a_sz a) (take (a_sz b) (a_buf c))"
    using assms(1) by (simp add: writes_on_def min_def)
  also have "\<dots> = take (a_sz a) (a_buf b)"
    using assms by (simp add: writes_on_def min_def)
  finally show ?thesis using assms by (auto simp: writes_on_def)
qed

lemma length_ans_msg: "ans_safe a \<Longrightarrow> length hdr = sizeof_dns_hdr \<Longrightarrow> length (ans_msg hdr a) = a_sz a"
  by (simp add: ans_msg_def ans_safe_def)

lemma ans_msg_extend:
  assumes "ans_safe a" and "writes_on a a'"
  shows "ans_msg hdr a' = ans_msg hdr a @ drop (a_sz a) (take (a_sz a') (a_buf a'))"
proof -
  let ?t = "take (a_sz a') (a_buf a')"
  have "take (a_sz a) ?t = take (a_sz a) (a_buf a)"
    using assms(2) by (simp add: writes_on_def min_def)
  then have t: "?t = take (a_sz a) (a_buf a) @ drop (a_sz a) ?t"
    by (metis append_take_drop_id)
  have "sizeof_dns_hdr \<le> length (take (a_sz a) (a_buf a))"
    using assms(1) by (simp add: ans_safe_def)
  then show ?thesis
    unfolding ans_msg_def by (subst t) simp
qed

lemma ans_reads_extend:
  assumes "ans_reads hdr a" and "ans_safe a" and "writes_on a a'" and "a_cb a' = a_cb a"
  shows "ans_reads hdr a'"
  using assms cb_inv_append unfolding ans_reads_def ans_msg_extend [OF assms(2,3)] by metis

lemma put_bytes_spec:
  assumes "ans_safe a" and "a_sz a + length v \<le> length (a_buf a)"
  shows "\<exists>a'. put_bytes v a = Some a' \<and> ans_safe a' \<and> writes_on a a' \<and> a_sz a' = a_sz a + length v \<and>
    a_cb a' = a_cb a \<and> (\<forall>hdr. ans_msg hdr a' = ans_msg hdr a @ v)"
proof -
  let ?b = "take (a_sz a) (a_buf a) @ v @ drop (a_sz a + length v) (a_buf a)"
  let ?a = "a\<lparr>a_buf := ?b, a_sz := a_sz a + length v\<rparr>"
  have p: "put_bytes v a = Some ?a"
    using assms(2) by (simp add: put_bytes_def wr_all_def)
  have s: "ans_safe ?a" using assms by (simp add: ans_safe_def)
  have w: "writes_on a ?a"
    unfolding writes_on_def using assms by (intro conjI exI [of _ "mem (a_st a)"]) (auto simp: ans_safe_def)
  have "drop (a_sz a) (take (a_sz a + length v) ?b) = v"
    using assms by (simp add: ans_safe_def)
  with ans_msg_extend [OF assms(1) w] have "ans_msg hdr ?a = ans_msg hdr a @ v" for hdr by simp
  with p s w show ?thesis by (intro exI [of _ ?a]) simp
qed

lemma put_name_tail: "ans_safe a \<Longrightarrow> dns_name ls \<Longrightarrow> put_name (enc ls @ r) a = put_name (enc ls) a"
  by (simp add: put_name_def ans_safe_def compress_name_tail split: prod.split)

text \<open>The bound under which offsets in the list are read back right.\<close>

definition small :: "nat \<Rightarrow> bool" where
  "small n \<longleftrightarrow> n + DNSNAMEBUFSIZE < 2 ^ 32"

lemma small_mono: "small n \<Longrightarrow> m \<le> n \<Longrightarrow> small m"
  by (simp add: small_def)

lemma put_name_spec:
  assumes "ans_safe a" and "dns_name ls" and "a_sz a + length (enc ls) \<le> length (a_buf a)"
  shows "\<exists>rl a'. put_name (enc ls @ r) a = Some (rl, a') \<and> ans_safe a' \<and> writes_on a a' \<and>
    a_sz a' = a_sz a + rl \<and> rl \<le> length (enc ls) \<and>
    (0 < rl \<longrightarrow> (\<forall>hdr. length hdr = sizeof_dns_hdr \<longrightarrow> ans_reads hdr a \<longrightarrow> small (a_sz a) \<longrightarrow> ans_reads hdr a' \<and>
      (\<exists>h ls'. h \<le> 127 \<and> name_at (ans_msg hdr a') h rl (a_sz a) ls' \<and> same_name ls' ls)))"
proof -
  let ?out = "drop (a_sz a) (a_buf a)"
  obtain ok m where m: "malloc (a_st a) = (ok, a_st a\<lparr>mem := m\<rparr>)" using malloc_step by blast
  have cb: "cb_names (a_cb a)" and sz: "sizeof_dns_hdr \<le> a_sz a" "a_sz a \<le> length (a_buf a)"
    using assms(1) by (simp_all add: ans_safe_def)
  have out: "length (enc ls) \<le> length ?out" using assms(3) by simp
  from assms(2) cb out show ?thesis
  proof (cases rule: compress_name_cases [of _ _ _ r "a_sz a" ok])
    case (fail out')
    let ?a = "a\<lparr>a_buf := take (a_sz a) (a_buf a) @ out', a_cb := [], a_st := a_st a\<lparr>mem := m\<rparr>\<rparr>"
    have "put_name (enc ls @ r) a = Some (0, ?a)"
      using fail m by (simp add: put_name_def)
    moreover have "ans_safe ?a" "writes_on a ?a" using fail sz by (auto simp: ans_safe_def writes_on_def)
    ultimately show ?thesis by (intro exI [of _ 0] exI [of _ ?a]) simp
  next
    case (ok rl out' cb')
    let ?a = "a\<lparr>a_buf := take (a_sz a) (a_buf a) @ out', a_sz := a_sz a + rl, a_cb := cb', a_st := a_st a\<lparr>mem := m\<rparr>\<rparr>"
    have p: "put_name (enc ls @ r) a = Some (rl, ?a)"
      using ok m by (simp add: put_name_def)
    have s: "ans_safe ?a" and w: "writes_on a ?a"
      using ok sz assms(3) by (auto simp: ans_safe_def writes_on_def)
    have msg: "ans_msg hdr ?a = ans_msg hdr a @ take rl out'" for hdr
      using ans_msg_extend [OF assms(1) w, of hdr] sz by simp
    have "ans_reads hdr ?a \<and> (\<exists>h ls'. h \<le> 127 \<and> name_at (ans_msg hdr ?a) h rl (a_sz a) ls' \<and> same_name ls' ls)"
      if hdr: "length hdr = sizeof_dns_hdr" "ans_reads hdr a" "small (a_sz a)" for hdr
    proof -
      from hdr(2) obtain gs where gs: "a_cb a = map ent gs" "cb_inv (ans_msg hdr a) gs"
        by (auto simp: ans_reads_def)
      note len = length_ans_msg [OF assms(1) hdr(1)]
      from compress_step [OF gs(2) assms(2) out, unfolded len] hdr(3) ok(2) gs(1) show ?thesis
        unfolding ans_reads_def msg by (auto simp: small_def)
    qed
    with p s w ok(5) show ?thesis by (intro exI [of _ rl] exI [of _ ?a]) simp
  qed
qed

subsection \<open>Fields\<close>

text \<open>The data of a record as a sequence of names and other bytes.\<close>

datatype field = FN "bytes list" | FB bytes

fun field_bytes :: "field \<Rightarrow> bytes" where
  "field_bytes (FN ls) = enc ls"
| "field_bytes (FB v) = v"

fun field_ok :: "field \<Rightarrow> bool" where
  "field_ok (FN ls) = dns_name ls"
| "field_ok (FB v) = True"

definition fields_bytes :: "field list \<Rightarrow> bytes" where
  "fields_bytes fs = concat (map field_bytes fs)"

lemma fields_bytes_simps [simp]:
  "fields_bytes [] = []" "fields_bytes (f # fs) = field_bytes f @ fields_bytes fs"
  by (simp_all add: fields_bytes_def)

text \<open>Writing them one after the other.\<close>

fun put_fields :: "field list \<Rightarrow> answer \<Rightarrow> put_result" where
  "put_fields [] a = Some (Some 0, a)"
| "put_fields (FB v # fs) a = do {
     a1 \<leftarrow> put_bytes v a;
     (r, a2) \<leftarrow> put_fields fs a1;
     Some (map_option ((+) (length v)) r, a2)
   }"
| "put_fields (FN ls # fs) a = do {
     (rl, a1) \<leftarrow> put_name (enc ls) a;
     if rl = 0 then Some (None, a1)
     else do {
       (r, a2) \<leftarrow> put_fields fs a1;
       Some (map_option ((+) rl) r, a2)
     }
   }"

text \<open>The fields a message holds at an offset, names up to case.\<close>

fun fields_at :: "bytes \<Rightarrow> nat \<Rightarrow> nat \<Rightarrow> field list \<Rightarrow> bool" where
  "fields_at msg off n [] \<longleftrightarrow> n = 0"
| "fields_at msg off n (FB v # fs) \<longleftrightarrow>
     (\<exists>n'. n = length v + n' \<and> rd_all msg off (length v) = Some v \<and> fields_at msg (off + length v) n' fs)"
| "fields_at msg off n (FN ls # fs) \<longleftrightarrow> (\<exists>k n' h ls'. n = k + n' \<and> h \<le> 127 \<and> name_at msg h k off ls' \<and>
     same_name ls' ls \<and> fields_at msg (off + k) n' fs)"

lemma rd_all_append: "rd_all msg off n = Some v \<Longrightarrow> rd_all (msg @ x) off n = Some v"
  by (auto simp: rd_all_def split: if_splits)

lemma fields_at_append: "fields_at msg off n fs \<Longrightarrow> fields_at (msg @ x) off n fs"
proof (induction msg off n fs rule: fields_at.induct)
  case (3 msg off n ls fs)
  then show ?case using name_at_append by simp blast
qed (auto intro: rd_all_append)

text \<open>What is known of a finished part: it is safe, and if the message was readable, it still is.\<close>

definition wrote :: "answer \<Rightarrow> field list \<Rightarrow> nat option \<Rightarrow> answer \<Rightarrow> bool" where
  "wrote a fs r a' \<longleftrightarrow> ans_safe a' \<and> writes_on a a' \<and> a_sz a' \<le> a_sz a + length (fields_bytes fs) \<and>
     (\<forall>n. r = Some n \<longrightarrow> a_sz a' = a_sz a + n \<and> (\<forall>hdr. length hdr = sizeof_dns_hdr \<longrightarrow> ans_reads hdr a \<longrightarrow>
        small (a_sz a + length (fields_bytes fs)) \<longrightarrow>
        ans_reads hdr a' \<and> fields_at (ans_msg hdr a') (a_sz a) n fs))"

lemma wroteD:
  assumes "wrote a fs r a'"
  shows "ans_safe a'" and "writes_on a a'" and "a_sz a' \<le> a_sz a + length (fields_bytes fs)"
    and "r = Some n \<Longrightarrow> a_sz a' = a_sz a + n"
    and "r = Some n \<Longrightarrow> length hdr = sizeof_dns_hdr \<Longrightarrow> ans_reads hdr a \<Longrightarrow>
      small (a_sz a + length (fields_bytes fs)) \<Longrightarrow>
      ans_reads hdr a' \<and> fields_at (ans_msg hdr a') (a_sz a) n fs"
  using assms unfolding wrote_def by blast+

lemma wrote_cons:
  assumes "ans_safe a" and "ans_safe a1" and "writes_on a a1" and "a_sz a1 = a_sz a + k" and "k \<le> length (field_bytes f)"
    and first: "\<And>hdr. length hdr = sizeof_dns_hdr \<Longrightarrow> ans_reads hdr a \<Longrightarrow> small (a_sz a) \<Longrightarrow>
      ans_reads hdr a1 \<and> fields_at (ans_msg hdr a1) (a_sz a) k [f]"
    and "wrote a1 fs r a2"
  shows "wrote a (f # fs) (map_option ((+) k) r) a2"
  unfolding wrote_def
proof (intro conjI allI impI)
  note w = wroteD [OF assms(7)]
  show "ans_safe a2" by (rule w)
  show "writes_on a a2" by (rule writes_on_trans [OF assms(3) w(2)])
  show "a_sz a2 \<le> a_sz a + length (fields_bytes (f # fs))"
    using w(3) assms(4,5) by simp
  fix n assume "map_option ((+) k) r = Some n"
  then obtain n' where n': "r = Some n'" "n = k + n'" by auto
  show "a_sz a2 = a_sz a + n" using w(4) [OF n'(1)] assms(4) n'(2) by simp
  fix hdr :: bytes
  assume h: "length hdr = sizeof_dns_hdr" "ans_reads hdr a" "small (a_sz a + length (fields_bytes (f # fs)))"
  from h(3) have sm: "small (a_sz a)" "small (a_sz a1 + length (fields_bytes fs))"
    using assms(4,5) by (auto elim: small_mono)
  from first [OF h(1,2) sm(1)] have f: "ans_reads hdr a1" "fields_at (ans_msg hdr a1) (a_sz a) k [f]" by simp_all
  from w(5) [OF n'(1) h(1) f(1) sm(2)] have r: "ans_reads hdr a2" "fields_at (ans_msg hdr a2) (a_sz a + k) n' fs"
    unfolding assms(4) by simp_all
  have "fields_at (ans_msg hdr a2) (a_sz a) k [f]"
    using f(2) fields_at_append unfolding ans_msg_extend [OF assms(2) w(2)] by blast
  with r show "ans_reads hdr a2" "fields_at (ans_msg hdr a2) (a_sz a) n (f # fs)"
    by (cases f; auto simp: n'(2))+
qed

lemma put_fields_spec:
  assumes "ans_safe a" and "list_all field_ok fs" and "a_sz a + length (fields_bytes fs) \<le> length (a_buf a)"
  shows "\<exists>r a'. put_fields fs a = Some (r, a') \<and> wrote a fs r a'"
  using assms
proof (induction fs arbitrary: a)
  case Nil
  then show ?case by (auto simp: wrote_def)
next
  case (Cons f fs)
  show ?case
  proof (cases f)
    case (FB v)
    with Cons.prems put_bytes_spec [of a v] obtain a1 where
      a1: "put_bytes v a = Some a1" "ans_safe a1" "writes_on a a1" "a_sz a1 = a_sz a + length v"
        "a_cb a1 = a_cb a" "\<And>hdr. ans_msg hdr a1 = ans_msg hdr a @ v" by auto
    have "a_sz a1 + length (fields_bytes fs) \<le> length (a_buf a1)"
      using a1(3,4) Cons.prems(3) by (simp add: FB writes_on_def)
    with Cons.IH [OF a1(2)] Cons.prems(2) obtain r a2 where
      a2: "put_fields fs a1 = Some (r, a2)" "wrote a1 fs r a2" by auto
    have "ans_reads hdr a1 \<and> fields_at (ans_msg hdr a1) (a_sz a) (length v) [f]"
      if "length hdr = sizeof_dns_hdr" "ans_reads hdr a" for hdr
      using that ans_reads_extend [OF that(2) Cons.prems(1) a1(3,5)] length_ans_msg [OF Cons.prems(1) that(1)]
      by (simp add: FB a1(6) rd_all_def)
    then have "wrote a (f # fs) (map_option ((+) (length v)) r) a2"
      by (intro wrote_cons [OF Cons.prems(1) a1(2,3,4) _ _ a2(2)]) (simp_all add: FB)
    with a1(1) a2(1) show ?thesis by (simp add: FB)
  next
    case (FN ls)
    with Cons.prems put_name_spec [of a ls "[]"] obtain rl a1 where
      a1: "put_name (enc ls) a = Some (rl, a1)" "ans_safe a1" "writes_on a a1" "a_sz a1 = a_sz a + rl"
        "rl \<le> length (enc ls)" "\<And>hdr. 0 < rl \<Longrightarrow> length hdr = sizeof_dns_hdr \<Longrightarrow> ans_reads hdr a \<Longrightarrow> small (a_sz a) \<Longrightarrow>
          ans_reads hdr a1 \<and> (\<exists>h ls'. h \<le> 127 \<and> name_at (ans_msg hdr a1) h rl (a_sz a) ls' \<and> same_name ls' ls)" by auto
    show ?thesis
    proof (cases "rl = 0")
      case True
      with a1 have "wrote a (f # fs) None a1" by (simp add: wrote_def)
      with a1(1) True show ?thesis by (auto simp: FN)
    next
      case False
      have "a_sz a1 + length (fields_bytes fs) \<le> length (a_buf a1)"
        using a1(3-5) Cons.prems(3) by (simp add: FN writes_on_def)
      with Cons.IH [OF a1(2)] Cons.prems(2) obtain r a2 where
        a2: "put_fields fs a1 = Some (r, a2)" "wrote a1 fs r a2" by auto
      have "ans_reads hdr a1 \<and> fields_at (ans_msg hdr a1) (a_sz a) rl [f]"
        if h: "length hdr = sizeof_dns_hdr" "ans_reads hdr a" "small (a_sz a)" for hdr
      proof -
        from a1(6) [OF _ h] False obtain h ls' where "ans_reads hdr a1" "h \<le> 127"
          "name_at (ans_msg hdr a1) h rl (a_sz a) ls'" "same_name ls' ls" by blast
        then show ?thesis
          unfolding FN fields_at.simps by (intro conjI exI [of _ rl] exI [of _ 0] exI [of _ h] exI [of _ ls']) simp_all
      qed
      then have "wrote a (f # fs) (map_option ((+) rl) r) a2"
        by (intro wrote_cons [OF Cons.prems(1) a1(2,3,4) _ _ a2(2)]) (simp_all add: FN a1(5))
      with a1(1) a2(1) False show ?thesis by (simp add: FN)
    qed
  qed
qed

end
