(* ===== verification/Answer_Fields.thy ===== *)
theory Answer_Fields
  imports Answer_Put Dns_Parse_Correct
begin

text \<open>
  The branches of \<open>add_rr\<close> write the fields of the data one after the other, and the branches of
  \<open>rrs2cent\<close> read them back: the two tables of record types agree.
\<close>

subsection \<open>Writing\<close>

lemma put_nameE:
  assumes "ans_safe a" and "dns_name ls" and "a_sz a + length (enc ls) + k \<le> length (a_buf a)"
  obtains rl a1 where "\<And>r. put_name (enc ls @ r) a = Some (rl, a1)" "put_name (enc ls) a = Some (rl, a1)"
    "ans_safe a1" "rl \<le> length (enc ls)" "a_sz a1 + k \<le> length (a_buf a1)"
proof -
  from put_name_spec [OF assms(1,2), of "[]"] assms(3) obtain rl a1 where
    a1: "put_name (enc ls) a = Some (rl, a1)" "ans_safe a1" "writes_on a a1" "a_sz a1 = a_sz a + rl"
      "rl \<le> length (enc ls)" by auto
  then have "a_sz a1 + k \<le> length (a_buf a1)" using assms(3) by (simp add: writes_on_def)
  with a1 that put_name_tail [OF assms(1,2)] show thesis by metis
qed

lemma put_bytesE:
  assumes "ans_safe a" and "a_sz a + length v + k \<le> length (a_buf a)"
  obtains a1 where "put_bytes v a = Some a1" "ans_safe a1" "a_sz a1 + k \<le> length (a_buf a1)"
proof -
  from put_bytes_spec [OF assms(1), of v] assms(2) obtain a1 where
    "put_bytes v a = Some a1" "ans_safe a1" "writes_on a a1" "a_sz a1 = a_sz a + length v" by auto
  with that assms(2) show thesis by (simp add: writes_on_def)
qed

text \<open>Room for the data, as \<open>add_rr\<close> provides it.\<close>

definition room_for :: "bytes \<Rightarrow> answer \<Rightarrow> bool" where
  "room_for data a \<longleftrightarrow> ans_safe a \<and> a_sz a + length data \<le> length (a_buf a)"

lemma put_rr_name_fields:
  assumes "room_for (enc ls) a" and "dns_name ls"
  shows "put_rr_name (enc ls) a = put_fields [FN ls] a"
proof -
  have "ans_safe a" "a_sz a + length (enc ls) + 0 \<le> length (a_buf a)" using assms(1) by (auto simp: room_for_def)
  then show ?thesis
    by (rule put_nameE [OF _ assms(2)]) (simp add: put_rr_name_def)
qed

lemma put_rr_two_names_fields:
  assumes "room_for (enc l1 @ enc l2) a" and "dns_name l1" and "dns_name l2"
  shows "put_rr_two_names (enc l1 @ enc l2) a = put_fields [FN l1, FN l2] a"
proof -
  have s: "ans_safe a" "a_sz a + length (enc l1) + length (enc l2) \<le> length (a_buf a)"
    using assms(1) by (auto simp: room_for_def)
  from put_nameE [OF s(1) assms(2) s(2)] obtain rl a1 where a1: "\<And>r. put_name (enc l1 @ r) a = Some (rl, a1)"
    "put_name (enc l1) a = Some (rl, a1)" "ans_safe a1" "rl \<le> length (enc l1)"
    "a_sz a1 + length (enc l2) + 0 \<le> length (a_buf a1)" by (metis add_0_right)
  from put_nameE [OF a1(3) assms(3) a1(5)] obtain bl a2 where a2: "put_name (enc l2) a1 = Some (bl, a2)"
    "bl \<le> length (enc l2)" by metis
  show ?thesis
    using a1 a2 dns_name_labels_ok [OF assms(2)] by (simp add: put_rr_two_names_def)
qed

lemma put_rr_pref_name_fields:
  assumes "room_for (p @ enc ls) a" and "dns_name ls" and "length p = n"
  shows "put_rr_pref_name n (p @ enc ls) a = put_fields [FB p, FN ls] a"
proof -
  have s: "ans_safe a" "a_sz a + length p + length (enc ls) \<le> length (a_buf a)"
    using assms(1) by (auto simp: room_for_def)
  from put_bytesE [OF s] obtain a1 where a1: "put_bytes p a = Some a1" "ans_safe a1"
    "a_sz a1 + length (enc ls) + 0 \<le> length (a_buf a1)" by (metis add_0_right)
  from put_nameE [OF a1(2) assms(2) a1(3)] obtain bl a2 where a2: "put_name (enc ls) a1 = Some (bl, a2)"
    "bl \<le> length (enc ls)" by metis
  have "rd_all (p @ enc ls) 0 n = Some p" using assms(3) by (simp add: rd_all_def)
  with a1 a2 assms(3) show ?thesis by (simp add: put_rr_pref_name_def length_enc)
qed

lemma put_rr_soa_fields:
  assumes "room_for (enc l1 @ enc l2 @ t) a" and "dns_name l1" and "dns_name l2" and "length t = 20"
  shows "put_rr_soa (enc l1 @ enc l2 @ t) a = put_fields [FN l1, FN l2, FB t] a"
proof -
  have s: "ans_safe a" "a_sz a + length (enc l1) + (length (enc l2) + 20) \<le> length (a_buf a)"
    using assms(1,4) by (auto simp: room_for_def)
  from put_nameE [OF s(1) assms(2) s(2)] obtain rl a1 where a1: "\<And>r. put_name (enc l1 @ r) a = Some (rl, a1)"
    "put_name (enc l1) a = Some (rl, a1)" "ans_safe a1" "rl \<le> length (enc l1)"
    "a_sz a1 + length (enc l2) + 20 \<le> length (a_buf a1)" by (metis add.assoc)
  from put_nameE [OF a1(3) assms(3) a1(5)] obtain bl a2 where a2: "\<And>r. put_name (enc l2 @ r) a1 = Some (bl, a2)"
    "put_name (enc l2) a1 = Some (bl, a2)" "ans_safe a2" "bl \<le> length (enc l2)"
    "a_sz a2 + length t + 0 \<le> length (a_buf a2)" using assms(4) by (metis add_0_right)
  from put_bytesE [OF a2(3,5)] obtain a3 where a3: "put_bytes t a2 = Some a3" by metis
  have "rd_all (enc l1 @ enc l2 @ t) (length (enc l1) + length (enc l2)) 20 = Some t"
    using assms(4) by (simp add: rd_all_def)
  with a1 a2 a3 assms(4) dns_name_labels_ok [OF assms(2)] dns_name_labels_ok [OF assms(3)] show ?thesis
    by (simp add: put_rr_soa_def)
qed

lemma put_rr_px_fields:
  assumes "room_for (p @ enc l1 @ enc l2) a" and "dns_name l1" and "dns_name l2" and "length p = 2"
  shows "put_rr_px (p @ enc l1 @ enc l2) a = put_fields [FB p, FN l1, FN l2] a"
proof -
  have s: "ans_safe a" "a_sz a + length p + (length (enc l1) + length (enc l2)) \<le> length (a_buf a)"
    using assms(1) by (auto simp: room_for_def)
  from put_bytesE [OF s] obtain a1 where a1: "put_bytes p a = Some a1" "ans_safe a1"
    "a_sz a1 + length (enc l1) + length (enc l2) \<le> length (a_buf a1)" by (metis add.assoc)
  from put_nameE [OF a1(2) assms(2) a1(3)] obtain rl a2 where a2: "\<And>r. put_name (enc l1 @ r) a1 = Some (rl, a2)"
    "put_name (enc l1) a1 = Some (rl, a2)" "ans_safe a2" "rl \<le> length (enc l1)"
    "a_sz a2 + length (enc l2) + 0 \<le> length (a_buf a2)" by (metis add_0_right)
  from put_nameE [OF a2(3) assms(3) a2(5)] obtain bl a3 where a3: "put_name (enc l2) a2 = Some (bl, a3)"
    "bl \<le> length (enc l2)" by metis
  have "rd_all (p @ enc l1 @ enc l2) 0 2 = Some p" "drop (2 + length (enc l1)) (p @ enc l1 @ enc l2) = enc l2"
    "drop 2 (p @ enc l1 @ enc l2) = enc l1 @ enc l2"
    using assms(4) by (simp_all add: rd_all_def)
  with a1 a2 a3 assms(4) dns_name_labels_ok [OF assms(2)] show ?thesis
    by (simp add: put_rr_px_def length_enc)
qed

text \<open>A bitmap that is empty is not copied.\<close>

definition bitmap_field :: "bytes \<Rightarrow> field list" where
  "bitmap_field t = (if t = [] then [] else [FB t])"

lemma put_rr_nxt_fields:
  assumes "room_for (enc ls @ t) a" and "dns_name ls"
  shows "put_rr_nxt (enc ls @ t) a = put_fields (FN ls # bitmap_field t) a"
proof -
  have s: "ans_safe a" "a_sz a + length (enc ls) + length t \<le> length (a_buf a)"
    using assms(1) by (auto simp: room_for_def)
  from put_nameE [OF s(1) assms(2) s(2)] obtain rl a1 where a1: "\<And>r. put_name (enc ls @ r) a = Some (rl, a1)"
    "put_name (enc ls) a = Some (rl, a1)" "ans_safe a1" "rl \<le> length (enc ls)"
    "a_sz a1 + length t + 0 \<le> length (a_buf a1)" by (metis add_0_right)
  from put_bytesE [OF a1(3,5)] obtain a2 where a2: "put_bytes t a1 = Some a2" by metis
  have "rd_all (enc ls @ t) (length (enc ls)) (length t) = Some t" by (simp add: rd_all_def)
  with a1 a2 dns_name_labels_ok [OF assms(2)] show ?thesis
    by (cases "t = []") (simp_all add: put_rr_nxt_def bitmap_field_def)
qed

lemma naptr_skip_strings:
  assumes "list_all char_string ss" and "r \<noteq> []"
  shows "naptr_skip (length ss) (p @ concat ss @ r) (length p) = Some (length p + length (concat ss))"
  using assms
proof (induction ss arbitrary: p)
  case (Cons s ss)
  then have s: "s \<noteq> []" "length s = unat (hd s) + 1" by (simp_all add: char_string_def)
  have "rd (p @ s @ concat ss @ r) (length p) = Some (hd s)"
    using s(1) by (simp add: rd_def nth_append hd_conv_nth)
  moreover have "naptr_skip (length ss) ((p @ s) @ concat ss @ r) (length (p @ s)) =
      Some (length (p @ s) + length (concat ss))"
    using Cons by (intro Cons.IH) simp_all
  ultimately show ?case using s(2) Cons.prems(2) by (simp add: add.assoc)
qed simp

lemma put_rr_naptr_fields:
  assumes "room_for (p @ x @ y @ z @ enc ls) a" and "length p = 4" and "char_string x" and "char_string y"
    and "char_string z" and "dns_name ls"
  shows "put_rr_naptr (p @ x @ y @ z @ enc ls) a = put_fields [FB (p @ x @ y @ z), FN ls] a"
proof -
  let ?p = "p @ x @ y @ z"
  have s: "ans_safe a" "a_sz a + length ?p + length (enc ls) \<le> length (a_buf a)"
    using assms(1) by (auto simp: room_for_def)
  from put_bytesE [OF s] obtain a1 where a1: "put_bytes ?p a = Some a1" "ans_safe a1"
    "a_sz a1 + length (enc ls) + 0 \<le> length (a_buf a1)" by (metis add_0_right)
  from put_nameE [OF a1(2) assms(6) a1(3)] obtain bl a2 where a2: "put_name (enc ls) a1 = Some (bl, a2)"
    "bl \<le> length (enc ls)" by metis
  have "naptr_skip 3 (p @ x @ y @ z @ enc ls) 4 = Some (length ?p)"
    using naptr_skip_strings [of "[x, y, z]" "enc ls" p] assms(2-5) by (simp add: numeral_3_eq_3 enc_def)
  moreover have "rd_all (p @ x @ y @ z @ enc ls) 0 (length ?p) = Some ?p" by (simp add: rd_all_def)
  moreover have "drop (length ?p) (p @ x @ y @ z @ enc ls) = enc ls" by simp
  ultimately show ?thesis using a1 a2 assms(2) by (simp add: put_rr_naptr_def length_enc del: drop_append)
qed

lemma put_rr_default_fields: "put_rr_default data a = put_fields [FB data] a"
  by (simp add: put_rr_default_def bind_map_option comp_def)

subsection \<open>The fields of each type\<close>

definition structured :: "nat list" where
  "structured = name_types @ [T_MINFO, T_RP, T_MX, T_AFSDB, T_RT, T_KX, T_SOA, T_PX, T_SRV, T_NXT, T_NAPTR]"

inductive rdata_fields :: "nat \<Rightarrow> field list \<Rightarrow> bool" where
  one: "type \<in> set name_types \<Longrightarrow> dns_name ls \<Longrightarrow> rdata_fields type [FN ls]"
| two: "type = T_MINFO \<or> type = T_RP \<Longrightarrow> dns_name ls \<Longrightarrow> dns_name ls' \<Longrightarrow> rdata_fields type [FN ls, FN ls']"
| pref: "type = T_MX \<or> type = T_AFSDB \<or> type = T_RT \<or> type = T_KX \<Longrightarrow> length p = 2 \<Longrightarrow> dns_name ls \<Longrightarrow>
    rdata_fields type [FB p, FN ls]"
| soa: "type = T_SOA \<Longrightarrow> dns_name ls \<Longrightarrow> dns_name ls' \<Longrightarrow> length t = 20 \<Longrightarrow> rdata_fields type [FN ls, FN ls', FB t]"
| px: "type = T_PX \<Longrightarrow> length p = 2 \<Longrightarrow> dns_name ls \<Longrightarrow> dns_name ls' \<Longrightarrow> rdata_fields type [FB p, FN ls, FN ls']"
| srv: "type = T_SRV \<Longrightarrow> length p = 6 \<Longrightarrow> dns_name ls \<Longrightarrow> rdata_fields type [FB p, FN ls]"
| nxt: "type = T_NXT \<Longrightarrow> dns_name ls \<Longrightarrow> length (enc ls @ t) \<le> 1040 \<Longrightarrow> rdata_fields type (FN ls # bitmap_field t)"
| naptr: "type = T_NAPTR \<Longrightarrow> length p = 4 \<Longrightarrow> char_string x \<Longrightarrow> char_string y \<Longrightarrow> char_string z \<Longrightarrow> dns_name ls \<Longrightarrow>
    rdata_fields type [FB (p @ x @ y @ z), FN ls]"
| other: "type \<notin> set structured \<Longrightarrow> rdata_ok type d \<Longrightarrow> rdata_fields type [FB d]"

lemma rdata_fields_ok: "rdata_fields type fs \<Longrightarrow> list_all field_ok fs"
  by (induction rule: rdata_fields.induct) (simp_all add: bitmap_field_def)

lemma fields_bytes_bitmap [simp]: "fields_bytes (bitmap_field t) = t"
  by (simp add: bitmap_field_def)

lemma rdata_ok_fields:
  assumes "rdata_ok type d"
  shows "\<exists>fs. rdata_fields type fs \<and> fields_bytes fs = d"
proof -
  have names: "type \<in> set name_types \<longrightarrow> (\<exists>ls. dns_name ls \<and> d = enc ls)"
    and two: "type = T_MINFO \<or> type = T_RP \<longrightarrow> (\<exists>ls ls'. dns_name ls \<and> dns_name ls' \<and> d = enc ls @ enc ls')"
    and pref: "type = T_MX \<or> type = T_AFSDB \<or> type = T_RT \<or> type = T_KX \<longrightarrow>
      (\<exists>p ls. length p = 2 \<and> dns_name ls \<and> d = p @ enc ls)"
    and soa: "type = T_SOA \<longrightarrow>
      (\<exists>ls ls' t. dns_name ls \<and> dns_name ls' \<and> length t = 20 \<and> d = enc ls @ enc ls' @ t)"
    and px: "type = T_PX \<longrightarrow> (\<exists>p ls ls'. length p = 2 \<and> dns_name ls \<and> dns_name ls' \<and> d = p @ enc ls @ enc ls')"
    and srv: "type = T_SRV \<longrightarrow> (\<exists>p ls. length p = 6 \<and> dns_name ls \<and> d = p @ enc ls)"
    and nxt: "type = T_NXT \<longrightarrow> (\<exists>ls t. dns_name ls \<and> d = enc ls @ t) \<and> length d \<le> 1040"
    and naptr: "type = T_NAPTR \<longrightarrow> (\<exists>p a b c ls. length p = 4 \<and> char_string a \<and> char_string b \<and> char_string c \<and>
      dns_name ls \<and> d = p @ a @ b @ c @ enc ls)"
    using assms unfolding rdata_ok_def by - (elim conjE, assumption)+
  consider "type \<notin> set structured" | "type \<in> set name_types" | "type = T_MINFO \<or> type = T_RP"
    | "type = T_MX \<or> type = T_AFSDB \<or> type = T_RT \<or> type = T_KX" | "type = T_SOA" | "type = T_PX" | "type = T_SRV"
    | "type = T_NXT" | "type = T_NAPTR"
    by (auto simp: structured_def)
  then show ?thesis
  proof cases
    case 1
    then show ?thesis using assms by (intro exI [of _ "[FB d]"]) (simp add: rdata_fields.other)
  next
    case 2
    with names obtain ls where "dns_name ls" "d = enc ls" by blast
    with 2 show ?thesis by (intro exI [of _ "[FN ls]"]) (simp add: rdata_fields.one)
  next
    case 3
    with two obtain ls ls' where "dns_name ls" "dns_name ls'" "d = enc ls @ enc ls'" by blast
    with 3 show ?thesis by (intro exI [of _ "[FN ls, FN ls']"]) (simp add: rdata_fields.two)
  next
    case 4
    with pref obtain p ls where "length p = 2" "dns_name ls" "d = p @ enc ls" by blast
    with 4 show ?thesis by (intro exI [of _ "[FB p, FN ls]"]) (simp add: rdata_fields.pref)
  next
    case 5
    with soa obtain ls ls' t where "dns_name ls" "dns_name ls'" "length t = 20" "d = enc ls @ enc ls' @ t" by blast
    with 5 show ?thesis by (intro exI [of _ "[FN ls, FN ls', FB t]"]) (simp add: rdata_fields.soa)
  next
    case 6
    with px obtain p ls ls' where "length p = 2" "dns_name ls" "dns_name ls'" "d = p @ enc ls @ enc ls'" by blast
    with 6 show ?thesis by (intro exI [of _ "[FB p, FN ls, FN ls']"]) (simp add: rdata_fields.px)
  next
    case 7
    with srv obtain p ls where "length p = 6" "dns_name ls" "d = p @ enc ls" by blast
    with 7 show ?thesis by (intro exI [of _ "[FB p, FN ls]"]) (simp add: rdata_fields.srv)
  next
    case 8
    with nxt obtain ls t where "dns_name ls" "d = enc ls @ t" "length d \<le> 1040" by blast
    with 8 show ?thesis by (intro exI [of _ "FN ls # bitmap_field t"]) (simp add: rdata_fields.nxt)
  next
    case 9
    with naptr obtain p x y z ls where "length p = 4" "char_string x" "char_string y" "char_string z" "dns_name ls"
      "d = p @ x @ y @ z @ enc ls" by blast
    with 9 show ?thesis by (intro exI [of _ "[FB (p @ x @ y @ z), FN ls]"]) (simp add: rdata_fields.naptr)
  qed
qed

lemma put_rdata_fields:
  assumes "rdata_fields type fs" and "room_for (fields_bytes fs) a"
  shows "put_rdata type (fields_bytes fs) a = put_fields fs a"
  using assms
proof cases
  case (one ls)
  with assms(2) show ?thesis using put_rr_name_fields by (simp add: put_rdata_def)
next
  case (two ls ls')
  have "put_rdata type = put_rr_two_names"
    using two(2) by (intro ext) (auto simp: put_rdata_def type_num_defs)
  with two assms(2) show ?thesis using put_rr_two_names_fields by simp
next
  case (pref p ls)
  have "put_rdata type = put_rr_pref_name 2"
    using pref(2) by (intro ext) (auto simp: put_rdata_def type_num_defs)
  with pref assms(2) show ?thesis using put_rr_pref_name_fields [of p ls a 2] by simp
next
  case (soa ls ls' t)
  have "put_rdata type = put_rr_soa"
    using soa(2) by (intro ext) (auto simp: put_rdata_def type_num_defs)
  with soa assms(2) show ?thesis using put_rr_soa_fields [of ls ls' t a] by simp
next
  case (px p ls ls')
  have "put_rdata type = put_rr_px"
    using px(2) by (intro ext) (auto simp: put_rdata_def type_num_defs)
  with px assms(2) show ?thesis using put_rr_px_fields [of p ls ls' a] by simp
next
  case (srv p ls)
  have "put_rdata type = put_rr_pref_name 6"
    using srv(2) by (intro ext) (auto simp: put_rdata_def type_num_defs)
  with srv assms(2) show ?thesis using put_rr_pref_name_fields [of p ls a 6] by simp
next
  case (nxt ls t)
  have "put_rdata type = put_rr_nxt"
    using nxt(2) by (intro ext) (auto simp: put_rdata_def type_num_defs)
  with nxt assms(2) show ?thesis using put_rr_nxt_fields [of ls t a] by simp
next
  case (naptr p x y z ls)
  have "put_rdata type = put_rr_naptr"
    using naptr(2) by (intro ext) (auto simp: put_rdata_def type_num_defs)
  with naptr assms(2) show ?thesis using put_rr_naptr_fields [of p x y z ls a] by simp
next
  case (other d)
  then show ?thesis by (simp add: put_rdata_def structured_def put_rr_default_fields)
qed

end
