(* ===== verification/Answer_Read.thy ===== *)
theory Answer_Read
  imports Answer_Fields
begin

text \<open>
  Reading fields back: wherever a message holds the fields of a record, the parser of
  \<open>dns_query.c\<close> obtains its data, with the names as the message spells them.
\<close>

fun same_field :: "field \<Rightarrow> field \<Rightarrow> bool" where
  "same_field (FN a) (FN b) \<longleftrightarrow> same_name a b"
| "same_field (FB v) (FB w) \<longleftrightarrow> v = w"
| "same_field _ _ \<longleftrightarrow> False"

definition same_fields :: "field list \<Rightarrow> field list \<Rightarrow> bool" where
  "same_fields = list_all2 same_field"

lemma same_fields_simps [simp]:
  "same_fields [] []"
  "same_fields (f # fs) (g # gs) \<longleftrightarrow> same_field f g \<and> same_fields fs gs"
  by (simp_all add: same_fields_def)

lemma same_name_refl [simp]: "same_name a a"
  by (simp add: same_name_def)

lemma same_fields_refl [simp]: "same_fields fs fs"
proof (induction fs)
  case (Cons f fs)
  then show ?case by (cases f) simp_all
qed simp

lemma decompress_name_reads:
  assumes "name_at msg h k bptr ls" and "h \<le> 127" and "dns_name ls" and "k \<le> blcnt" and "DNSNAMEBUFSIZE \<le> length db"
  shows "\<exists>db'. decompress_name msg (length msg) bptr blcnt db = Some (Inr (bptr + k, blcnt - k, db', length (enc ls))) \<and>
    length db' = length db \<and> take (length (enc ls)) db' = enc ls"
proof -
  have f: "field_name msg bptr blcnt k ls"
    using assms(1-4) by (auto simp: field_name_def intro!: exI [of _ h])
  have unique: "n' = k \<and> ls'' = ls" if "field_name msg bptr blcnt n' ls''" for n' ls''
    using that assms(1) by (auto simp: field_name_def dest: name_at_unique)
  from decompress_name_returns [OF refl assms(5), of msg bptr blcnt] obtain r where
    r: "decompress_name msg (length msg) bptr blcnt db = Some r"
    "case r of Inl rc \<Rightarrow> (rc = RC_FORMAT \<or> rc = RC_TRUNC) \<and> \<not> (\<exists>n ls. field_name msg bptr blcnt n ls)
      | Inr (src', sz', tgt', len) \<Rightarrow> \<exists>n ls. field_name msg bptr blcnt n ls \<and>
        src' = bptr + n \<and> sz' = blcnt - n \<and> len = length (enc ls) \<and>
        length tgt' = length db \<and> take len tgt' = enc ls"
    by (rule returnsE)
  with f obtain src' sz' tgt' len where "r = Inr (src', sz', tgt', len)"
    by (cases r) auto
  with r unique show ?thesis by auto
qed

lemma decompress_at_reads:
  assumes "name_at msg h k bptr ls" and "h \<le> 127" and "dns_name ls" and "k \<le> blcnt" and "off + DNSNAMEBUFSIZE \<le> length db"
  shows "\<exists>db'. decompress_at msg (length msg) bptr blcnt db off =
      Some (Inr (bptr + k, blcnt - k, db', length (enc ls))) \<and>
    length db' = length db \<and> take (off + length (enc ls)) db' = take off db @ enc ls"
proof -
  have "DNSNAMEBUFSIZE \<le> length (drop off db)" using assms(5) by simp
  from decompress_name_reads [OF assms(1-4) this] obtain t where
    "decompress_name msg (length msg) bptr blcnt (drop off db) = Some (Inr (bptr + k, blcnt - k, t, length (enc ls)))"
    "length t = length (drop off db)" "take (length (enc ls)) t = enc ls" by blast
  with assms(5) show ?thesis
    by (intro exI [of _ "take off db @ t"]) (simp add: decompress_at_def)
qed

text \<open>A name of \<open>k\<close> bytes at an offset, and how it is read into a buffer.\<close>

definition dec_ok :: "bytes \<Rightarrow> nat \<Rightarrow> nat \<Rightarrow> bytes list \<Rightarrow> bool" where
  "dec_ok msg bptr k ls \<longleftrightarrow> length (enc ls) \<le> DNSNAMEBUFSIZE \<and>
     (\<forall>blcnt db off. k \<le> blcnt \<longrightarrow> off + DNSNAMEBUFSIZE \<le> length db \<longrightarrow>
       (\<exists>db'. decompress_at msg (length msg) bptr blcnt db off =
            Some (Inr (bptr + k, blcnt - k, db', length (enc ls))) \<and>
          length db' = length db \<and> take (off + length (enc ls)) db' = take off db @ enc ls))"

lemma dec_okE:
  assumes "dec_ok msg bptr k ls" and "k \<le> blcnt" and "off + DNSNAMEBUFSIZE \<le> length db"
  obtains db' where "decompress_at msg (length msg) bptr blcnt db off =
      Some (Inr (bptr + k, blcnt - k, db', length (enc ls)))"
    "length db' = length db" "take (off + length (enc ls)) db' = take off db @ enc ls"
  using assms unfolding dec_ok_def by blast

lemma dec_ok_len: "dec_ok msg bptr k ls \<Longrightarrow> length (enc ls) \<le> DNSNAMEBUFSIZE"
  by (simp add: dec_ok_def)

lemma read_nameE:
  assumes "fields_at msg off n (FN ls # fs)" and "dns_name ls"
  obtains k n' ls' where "n = k + n'" "same_name ls' ls" "dns_name ls'" "dec_ok msg off k ls'"
    "fields_at msg (off + k) n' fs"
proof -
  from assms(1) obtain k n' h ls' where s: "n = k + n'" "h \<le> 127" "name_at msg h k off ls'" "same_name ls' ls"
    "fields_at msg (off + k) n' fs" by auto
  note d = same_name_dns [OF s(4) assms(2)]
  have "dec_ok msg off k ls'"
    using decompress_at_reads [OF s(3,2) d(1)] d(1) by (simp add: dec_ok_def dns_name_def)
  with that s d show thesis by blast
qed

lemma read_bytesE:
  assumes "fields_at msg off n (FB v # fs)"
  obtains n' where "n = length v + n'" "rd_all msg off (length v) = Some v" "fields_at msg (off + length v) n' fs"
  using assms by auto

lemma rr_name_reads:
  assumes "fields_at msg off n [FN ls]" and "dns_name ls"
  shows "\<exists>fs'. same_fields fs' [FN ls] \<and> rr_name msg (length msg) off n = Some (Inr (fields_bytes fs'))"
proof -
  from read_nameE [OF assms] obtain k n' ls' where r: "n = k + n'" "same_name ls' ls" "dec_ok msg off k ls'"
    "fields_at msg (off + k) n' []" .
  have "k \<le> n" "0 + DNSNAMEBUFSIZE \<le> length (replicate DNSNAMEBUFSIZE (0 :: byte))" using r(1) by simp_all
  with r(3) obtain db where
    d: "decompress_at msg (length msg) off n (replicate DNSNAMEBUFSIZE 0) 0 = Some (Inr (off + k, n - k, db, length (enc ls')))"
    "length db = DNSNAMEBUFSIZE" "take (length (enc ls')) db = enc ls'"
    by (rule dec_okE) simp
  have "rr_name msg (length msg) off n = Some (Inr (enc ls'))"
    using d r(1,4) dec_ok_len [OF r(3)] by (simp add: rr_name_def rd_all_take)
  with r(2) show ?thesis by (intro exI [of _ "[FN ls']"]) simp
qed

text \<open>Two names in a row, read into a buffer with room for both behind \<open>off0\<close> bytes.\<close>

lemma read_two_namesE:
  assumes "fields_at msg off n (FN l1 # FN l2 # fs)" and "dns_name l1" and "dns_name l2"
    and "off0 + DNSNAMEBUFSIZE + DNSNAMEBUFSIZE \<le> length db"
  obtains k1 k2 n' l1' l2' db1 db2 where "n = k1 + k2 + n'" "same_name l1' l1" "same_name l2' l2"
    "fields_at msg (off + k1 + k2) n' fs"
    "decompress_at msg (length msg) off n db off0 = Some (Inr (off + k1, n - k1, db1, length (enc l1')))"
    "decompress_at msg (length msg) (off + k1) (n - k1) db1 (off0 + length (enc l1')) =
      Some (Inr (off + k1 + k2, n - k1 - k2, db2, length (enc l2')))"
    "length db2 = length db" "off0 + length (enc l1') + length (enc l2') \<le> off0 + DNSNAMEBUFSIZE + DNSNAMEBUFSIZE"
    "take (off0 + length (enc l1') + length (enc l2')) db2 = take off0 db @ enc l1' @ enc l2'"
proof -
  from read_nameE [OF assms(1,2)] obtain k1 n1 l1' where r: "n = k1 + n1" "same_name l1' l1" "dec_ok msg off k1 l1'"
    "fields_at msg (off + k1) n1 (FN l2 # fs)" .
  from read_nameE [OF r(4) assms(3)] obtain k2 n' l2' where r2: "n1 = k2 + n'" "same_name l2' l2"
    "dec_ok msg (off + k1) k2 l2'" "fields_at msg (off + k1 + k2) n' fs" .
  have "k1 \<le> n" "off0 + DNSNAMEBUFSIZE \<le> length db" using r(1) assms(4) by simp_all
  from dec_okE [OF r(3) this] obtain db1 where
    d1: "decompress_at msg (length msg) off n db off0 = Some (Inr (off + k1, n - k1, db1, length (enc l1')))"
    "length db1 = length db" "take (off0 + length (enc l1')) db1 = take off0 db @ enc l1'" .
  note len = dec_ok_len [OF r(3)] dec_ok_len [OF r2(3)]
  have "k2 \<le> n - k1" "off0 + length (enc l1') + DNSNAMEBUFSIZE \<le> length db1"
    using r(1) r2(1) d1(2) assms(4) len(1) by simp_all
  from dec_okE [OF r2(3) this] obtain db2 where
    d2: "decompress_at msg (length msg) (off + k1) (n - k1) db1 (off0 + length (enc l1')) =
      Some (Inr (off + k1 + k2, n - k1 - k2, db2, length (enc l2')))" "length db2 = length db1"
    "take (off0 + length (enc l1') + length (enc l2')) db2 = take (off0 + length (enc l1')) db1 @ enc l2'" .
  show thesis
    using that [OF _ r(2) r2(2) r2(4) d1(1) d2(1)] r(1) r2(1) d1 d2 len by simp
qed

lemma rr_two_names_reads:
  assumes "fields_at msg off n [FN l1, FN l2]" and "dns_name l1" and "dns_name l2"
  shows "\<exists>fs'. same_fields fs' [FN l1, FN l2] \<and> rr_two_names msg (length msg) off n = Some (Inr (fields_bytes fs'))"
proof -
  let ?db = "replicate (DNSNAMEBUFSIZE + DNSNAMEBUFSIZE) (0 :: byte)"
  have "0 + DNSNAMEBUFSIZE + DNSNAMEBUFSIZE \<le> length ?db" by simp
  from read_two_namesE [OF assms this] obtain k1 k2 n' l1' l2' db1 db2 where
    r: "n = k1 + k2 + n'" "same_name l1' l1" "same_name l2' l2" "fields_at msg (off + k1 + k2) n' []"
      "decompress_at msg (length msg) off n ?db 0 = Some (Inr (off + k1, n - k1, db1, length (enc l1')))"
      "decompress_at msg (length msg) (off + k1) (n - k1) db1 (0 + length (enc l1')) =
        Some (Inr (off + k1 + k2, n - k1 - k2, db2, length (enc l2')))"
      "length db2 = length ?db" "0 + length (enc l1') + length (enc l2') \<le> 0 + DNSNAMEBUFSIZE + DNSNAMEBUFSIZE"
      "take (0 + length (enc l1') + length (enc l2')) db2 = take 0 ?db @ enc l1' @ enc l2'" .
  then have "rr_two_names msg (length msg) off n = Some (Inr (enc l1' @ enc l2'))"
    by (simp add: rr_two_names_def rd_all_take)
  with r(2,3) show ?thesis by (intro exI [of _ "[FN l1', FN l2']"]) simp
qed

lemma rr_pref_name_reads:
  assumes "fields_at msg off n [FB p, FN ls]" and "dns_name ls" and "length p = j"
  shows "\<exists>fs'. same_fields fs' [FB p, FN ls] \<and> rr_pref_name j msg (length msg) off n = Some (Inr (fields_bytes fs'))"
proof -
  from read_bytesE [OF assms(1)] obtain n1 where p: "n = j + n1" "rd_all msg off j = Some p"
    "fields_at msg (off + j) n1 [FN ls]" unfolding assms(3) .
  from read_nameE [OF p(3) assms(2)] obtain k n' ls' where r: "n1 = k + n'" "same_name ls' ls" "dec_ok msg (off + j) k ls'"
    "fields_at msg (off + j + k) n' []" .
  let ?db = "p @ drop j (replicate (j + DNSNAMEBUFSIZE) (0 :: byte))"
  have "k \<le> n - j" "j + DNSNAMEBUFSIZE \<le> length ?db" using p(1) r(1) assms(3) by simp_all
  from dec_okE [OF r(3) this] obtain db where
    d: "decompress_at msg (length msg) (off + j) (n - j) ?db j = Some (Inr (off + j + k, n - j - k, db, length (enc ls')))"
    "length db = length ?db" "take (j + length (enc ls')) db = take j ?db @ enc ls'" .
  have w: "wr_all (replicate (j + DNSNAMEBUFSIZE) 0) 0 p = Some ?db" using assms(3) by (simp add: wr_all_zero)
  have "rr_pref_name j msg (length msg) off n = Some (Inr (p @ enc ls'))"
    using d w p(1,2) r(1,4) dec_ok_len [OF r(3)] assms(3) by (simp add: rr_pref_name_def rd_all_take)
  with r(2) show ?thesis by (intro exI [of _ "[FB p, FN ls']"]) simp
qed

lemma rr_soa_reads:
  assumes "fields_at msg off n [FN l1, FN l2, FB t]" and "dns_name l1" and "dns_name l2" and "length t = 20"
  shows "\<exists>fs'. same_fields fs' [FN l1, FN l2, FB t] \<and> rr_soa msg (length msg) off n = Some (Inr (fields_bytes fs'))"
proof -
  let ?db = "replicate (DNSNAMEBUFSIZE + DNSNAMEBUFSIZE + 20) (0 :: byte)"
  have "0 + DNSNAMEBUFSIZE + DNSNAMEBUFSIZE \<le> length ?db" by simp
  from read_two_namesE [OF assms(1-3) this] obtain k1 k2 n' l1' l2' db1 db2 where
    r: "n = k1 + k2 + n'" "same_name l1' l1" "same_name l2' l2" "fields_at msg (off + k1 + k2) n' [FB t]"
      "decompress_at msg (length msg) off n ?db 0 = Some (Inr (off + k1, n - k1, db1, length (enc l1')))"
      "decompress_at msg (length msg) (off + k1) (n - k1) db1 (0 + length (enc l1')) =
        Some (Inr (off + k1 + k2, n - k1 - k2, db2, length (enc l2')))"
      "length db2 = length ?db" "0 + length (enc l1') + length (enc l2') \<le> 0 + DNSNAMEBUFSIZE + DNSNAMEBUFSIZE"
      "take (0 + length (enc l1') + length (enc l2')) db2 = take 0 ?db @ enc l1' @ enc l2'" .
  from r(4) assms(4) have t: "n' = 20" "rd_all msg (off + k1 + k2) 20 = Some t" by auto
  let ?k = "length (enc l1') + length (enc l2')"
  have w: "wr_all db2 ?k t = Some ((enc l1' @ enc l2') @ t @ drop (?k + 20) db2)"
    using r(7-9) assms(4) by (simp add: wr_all_def)
  have "rd_all ((enc l1' @ enc l2') @ t @ drop (?k + 20) db2) 0 (?k + 20) = Some (enc l1' @ enc l2' @ t)"
    using assms(4) by (simp add: rd_all_def)
  with r t w have "rr_soa msg (length msg) off n = Some (Inr (enc l1' @ enc l2' @ t))"
    by (simp add: rr_soa_def)
  with r(2,3) show ?thesis by (intro exI [of _ "[FN l1', FN l2', FB t]"]) simp
qed

lemma rr_px_reads:
  assumes "fields_at msg off n [FB p, FN l1, FN l2]" and "dns_name l1" and "dns_name l2" and "length p = 2"
  shows "\<exists>fs'. same_fields fs' [FB p, FN l1, FN l2] \<and> rr_px msg (length msg) off n = Some (Inr (fields_bytes fs'))"
proof -
  from read_bytesE [OF assms(1)] obtain n1 where p: "n = 2 + n1" "rd_all msg off 2 = Some p"
    "fields_at msg (off + 2) n1 [FN l1, FN l2]" unfolding assms(4) .
  let ?r = "replicate (2 + DNSNAMEBUFSIZE + DNSNAMEBUFSIZE) (0 :: byte)"
  let ?db = "p @ drop 2 ?r"
  have "2 + DNSNAMEBUFSIZE + DNSNAMEBUFSIZE \<le> length ?db" using assms(4) by simp
  from read_two_namesE [OF p(3) assms(2,3) this] obtain k1 k2 n' l1' l2' db1 db2 where
    r: "n1 = k1 + k2 + n'" "same_name l1' l1" "same_name l2' l2" "fields_at msg (off + 2 + k1 + k2) n' []"
      "decompress_at msg (length msg) (off + 2) n1 ?db 2 = Some (Inr (off + 2 + k1, n1 - k1, db1, length (enc l1')))"
      "decompress_at msg (length msg) (off + 2 + k1) (n1 - k1) db1 (2 + length (enc l1')) =
        Some (Inr (off + 2 + k1 + k2, n1 - k1 - k2, db2, length (enc l2')))"
      "length db2 = length ?db" "2 + length (enc l1') + length (enc l2') \<le> 2 + DNSNAMEBUFSIZE + DNSNAMEBUFSIZE"
      "take (2 + length (enc l1') + length (enc l2')) db2 = take 2 ?db @ enc l1' @ enc l2'" .
  have w: "wr_all ?r 0 p = Some ?db" using assms(4) by (simp add: wr_all_zero)
  have "n - 2 = n1" using p(1) by simp
  then have "rr_px msg (length msg) off n = Some (Inr (p @ enc l1' @ enc l2'))"
    using r w p(1,2) assms(4) by (simp add: rr_px_def rd_all_take)
  with r(2,3) show ?thesis by (intro exI [of _ "[FB p, FN l1', FN l2']"]) simp
qed

lemma rr_nxt_reads:
  assumes "fields_at msg off n (FN ls # bitmap_field t)" and "dns_name ls" and "length (enc ls @ t) \<le> 1040"
  shows "\<exists>fs'. same_fields fs' (FN ls # bitmap_field t) \<and> rr_nxt msg (length msg) off n = Some (Inr (fields_bytes fs'))"
proof -
  from read_nameE [OF assms(1,2)] obtain k n' ls' where r: "n = k + n'" "same_name ls' ls" "dec_ok msg off k ls'"
    "fields_at msg (off + k) n' (bitmap_field t)" .
  let ?db = "replicate 1040 (0 :: byte)"
  have "k \<le> n" "0 + DNSNAMEBUFSIZE \<le> length ?db" using r(1) by (simp_all add: DNSNAMEBUFSIZE_def)
  from dec_okE [OF r(3) this] obtain db where
    d: "decompress_at msg (length msg) off n ?db 0 = Some (Inr (off + k, n - k, db, length (enc ls')))"
    "length db = length ?db" "take (0 + length (enc ls')) db = take 0 ?db @ enc ls'" .
  have t: "n' = length t" "rd_all msg (off + k) n' = Some t"
  proof -
    have "rd_all msg (off + k) 0 = Some []" if "off + k \<le> length msg" using that by (simp add: rd_all_def)
    moreover have "off + k \<le> length msg"
      using assms(1) r(1,4) by (auto simp: bitmap_field_def dest!: name_at_in_msg split: if_splits)
    ultimately show "n' = length t" "rd_all msg (off + k) n' = Some t"
      using r(4) by (auto simp: bitmap_field_def split: if_splits)
  qed
  have len: "length (enc ls') + length t \<le> 1040"
    using assms(3) same_name_dns(2) [OF r(2) assms(2)] by simp
  have w: "wr_all db (length (enc ls')) t = Some (enc ls' @ t @ drop (length (enc ls') + length t) db)"
    using d len by (simp add: wr_all_def)
  have "rr_nxt msg (length msg) off n = Some (Inr (enc ls' @ t))"
    using d(1) t w r(1) len by (simp add: rr_nxt_def rd_all_def)
  with r(2) show ?thesis by (intro exI [of _ "FN ls' # bitmap_field t"]) simp
qed

lemma naptr_len_strings:
  assumes "list_all char_string ss" and "rd_all msg (bptr + len) (length (concat ss)) = Some (concat ss)"
    and "len + length (concat ss) < blcnt"
  shows "naptr_len (length ss) msg bptr blcnt len = Some (Some (len + length (concat ss)))"
  using assms
proof (induction ss arbitrary: len)
  case (Cons s ss)
  then have s: "s \<noteq> []" "length s = unat (hd s) + 1" by (simp_all add: char_string_def)
  from rd_all_split [OF Cons.prems(2), of "length s"] have
    r: "rd_all msg (bptr + (len + length s)) (length (concat ss)) = Some (concat ss)"
    by (simp add: add.assoc)
  have "rd msg (bptr + len) = Some (hd s)"
    using rd_all_nth [OF Cons.prems(2), of 0] s(1) by (simp add: nth_append hd_conv_nth)
  then show ?case
    using Cons.IH [OF _ r] Cons.prems(1,3) s(2) by (simp add: add.assoc)
qed simp

lemma char_string_length: "char_string s \<Longrightarrow> length s \<le> 256"
  using unat_byte_less [of "hd s"] unfolding char_string_def by linarith

lemma rr_naptr_reads:
  assumes "fields_at msg off n [FB (p @ x @ y @ z), FN ls]" and "dns_name ls" and "length p = 4"
    and "char_string x" and "char_string y" and "char_string z"
  shows "\<exists>fs'. same_fields fs' [FB (p @ x @ y @ z), FN ls] \<and>
    rr_naptr msg (length msg) off n = Some (Inr (fields_bytes fs'))"
proof -
  let ?p = "p @ x @ y @ z" and ?j = "length (p @ x @ y @ z)"
  from read_bytesE [OF assms(1)] obtain n1 where q: "n = ?j + n1" "rd_all msg off ?j = Some ?p"
    "fields_at msg (off + ?j) n1 [FN ls]" .
  from read_nameE [OF q(3) assms(2)] obtain k n' ls' where r: "n1 = k + n'" "same_name ls' ls" "dec_ok msg (off + ?j) k ls'"
    "fields_at msg (off + ?j + k) n' []" .
  have k: "0 < n1"
    using q(3) by (auto dest: name_at_in_msg)
  from rd_all_split [OF q(2), of 4] assms(3) have
    "rd_all msg (off + 4) (length (concat [x, y, z])) = Some (concat [x, y, z])" by simp
  from naptr_len_strings [OF _ this, of n] have
    l: "naptr_len 3 msg off n 4 = Some (Some ?j)"
    using assms(3-6) q(1) k by (simp add: numeral_3_eq_3)
  let ?R = "replicate (4 + 3 * 256 + DNSNAMEBUFSIZE) (0 :: byte)"
  let ?db = "?p @ drop ?j ?R"
  have j: "?j \<le> 4 + 3 * 256"
    using assms(3) char_string_length [OF assms(4)] char_string_length [OF assms(5)] char_string_length [OF assms(6)]
    by simp
  have "k \<le> n - ?j" "?j + DNSNAMEBUFSIZE \<le> length ?db" using q(1) r(1) j by simp_all
  from dec_okE [OF r(3) this] obtain db where
    d: "decompress_at msg (length msg) (off + ?j) (n - ?j) ?db ?j =
      Some (Inr (off + ?j + k, n - ?j - k, db, length (enc ls')))"
    "length db = length ?db" "take (?j + length (enc ls')) db = take ?j ?db @ enc ls'" .
  have w: "wr_all ?R 0 ?p = Some ?db" using j by (subst wr_all_zero) simp_all
  have "take ?j ?db = ?p" by simp
  with d(2,3) j dec_ok_len [OF r(3)] have data: "rd_all db 0 (?j + length (enc ls')) = Some (?p @ enc ls')"
    by (simp add: rd_all_def del: take_append)
  have n: "n - ?j - k = 0" "\<not> n < ?j" using q(1) r(1,4) by simp_all
  have "rr_naptr msg (length msg) off n = Some (Inr (?p @ enc ls'))"
    unfolding rr_naptr_def l using n q(2) w d(1) data by simp
  with r(2) show ?thesis by (intro exI [of _ "[FB ?p, FN ls']"]) simp
qed

text \<open>The types whose names are not compressed.\<close>

lemma rr_expand_reads:
  assumes "rd_all msg off n = Some d" and "length p = j" and "dns_name ls" and "d = p @ enc ls @ t"
  shows "rr_expand j msg (length msg) off n st = Some (Inr d, st)"
proof -
  have off: "off + n \<le> length msg" "n = length d" "take n (drop off msg) = d"
    using assms(1) by (auto simp: rd_all_def split: if_splits)
  then have "drop off msg = d @ drop n (drop off msg)" by (metis append_take_drop_id)
  moreover have "drop (off + j) msg = drop j (drop off msg)" by (simp add: add.commute)
  ultimately have rest: "drop (off + j) msg = enc ls @ (t @ drop n (drop off msg))"
    using assms(2,4) by (metis append.assoc append_eq_conv_conj)
  have len: "n - j \<le> length (drop (off + j) msg)" using off(1) by simp
  have "length (enc ls) \<le> n - j" using off(2) assms(2,4) by simp
  with rest assms(3) have "isnormalencdomname (drop (off + j) msg) (n - j) = Some True"
    unfolding isnormalencdomname_iff [OF len] by blast
  with assms(1) show ?thesis by (simp add: rr_expand_def rr_default_def)
qed

lemma rr_default_reads: "rd_all msg off n = Some d \<Longrightarrow> rr_default msg off n = Some (Inr d)"
  by (simp add: rr_default_def)

lemma rr_ipseckey_reads:
  assumes "rd_all msg off n = Some d" and "rdata_ok T_IPSECKEY d"
  shows "rr_ipseckey msg (length msg) off n st = Some (Inr d, st)"
proof -
  from assms(2) have ok: "3 \<le> length d" "d ! 1 \<le> 3" "d ! 1 = 1 \<longrightarrow> 7 \<le> length d" "d ! 1 = 2 \<longrightarrow> 19 \<le> length d"
    "d ! 1 = 3 \<longrightarrow> (\<exists>p ls t. length p = 3 \<and> dns_name ls \<and> d = p @ enc ls @ t)"
    unfolding rdata_ok_def by - (elim conjE, drule mp [OF _ refl], elim conjE, assumption)+
  have n: "n = length d" using assms(1) by (auto simp: rd_all_def split: if_splits)
  have g: "rd msg (off + 1) = Some (d ! 1)" using rd_all_nth [OF assms(1), of 1] ok(1) n by simp
  have "unat (d ! 1) \<le> 3" using ok(2) by (simp add: word_le_nat_alt)
  then have "unat (d ! 1) \<in> {0, 1, 2, 3}" by auto
  then consider "d ! 1 = 0" | "d ! 1 = 1" | "d ! 1 = 2" | "d ! 1 = 3"
    by (auto simp: word_unat_eq_iff)
  then show ?thesis
  proof cases
    case 4
    with ok(5) obtain p ls t where "length p = 3" "dns_name ls" "d = p @ enc ls @ t" by blast
    with rr_expand_reads [OF assms(1) this] 4 ok(1) n g show ?thesis by (simp add: rr_ipseckey_def)
  qed (use assms(1) ok n g in \<open>simp_all add: rr_ipseckey_def rr_default_def\<close>)
qed

subsection \<open>Every type\<close>

lemma rdata_ok_rrsig: "rdata_ok T_RRSIG d \<Longrightarrow> \<exists>p ls t. length p = 18 \<and> dns_name ls \<and> d = p @ enc ls @ t"
  unfolding rdata_ok_def by (elim conjE, drule mp [OF _ refl], assumption)+

lemma rdata_ok_nsec: "rdata_ok T_NSEC d \<Longrightarrow> \<exists>ls t. dns_name ls \<and> d = enc ls @ t"
  unfolding rdata_ok_def by (elim conjE, drule mp [OF _ refl], assumption)+

lemma rr_data_other:
  assumes "type \<notin> set structured" and "rdata_ok type d" and "rd_all msg off n = Some d"
  shows "rr_data type msg (length msg) off n st = Some (Inr d, st)"
proof -
  have n: "n = length d" using assms(3) by (auto simp: rd_all_def split: if_splits)
  note not = assms(1) [unfolded structured_def, simplified]
  consider "type = T_A" | "type = T_AAAA" | "type = T_IPSECKEY" | "type = T_RRSIG" | "type = T_NSEC"
    | "type \<notin> {T_A, T_AAAA, T_IPSECKEY, T_RRSIG, T_NSEC}" by blast
  then show ?thesis
  proof cases
    case 1
    with assms(2) have "length d = 4" by (simp add: rdata_ok_def)
    with 1 n assms(3) show ?thesis by (simp add: rr_data_def rr_default_def)
  next
    case 2
    with assms(2) have "length d = 16" by (simp add: rdata_ok_def)
    with 2 n not assms(3) show ?thesis by (simp add: rr_data_def rr_default_def type_num_defs)
  next
    case 3
    with rr_ipseckey_reads [OF assms(3)] assms(2) show ?thesis by (simp add: rr_data_def type_num_defs)
  next
    case 4
    with assms(2) obtain p ls t where p: "length p = 18" "dns_name ls" "d = p @ enc ls @ t"
      using rdata_ok_rrsig by blast
    then have "\<not> n < 18" using n by simp
    with rr_expand_reads [OF assms(3) p] 4 show ?thesis by (simp add: rr_data_def rr_rrsig_def type_num_defs)
  next
    case 5
    with assms(2) rdata_ok_nsec [of d] obtain ls t where "dns_name ls" "d = [] @ enc ls @ t" by auto
    with rr_expand_reads [OF assms(3), of "[]" 0 ls t st] 5 show ?thesis
      by (simp add: rr_data_def rr_nsec_def type_num_defs)
  next
    case 6
    with not assms(3) show ?thesis by (simp add: rr_data_def rr_default_def)
  qed
qed

lemma rr_data_reads:
  assumes "rdata_fields type fs" and "fields_at msg off n fs"
  shows "\<exists>fs'. same_fields fs' fs \<and> rr_data type msg (length msg) off n st = Some (Inr (fields_bytes fs'), st)"
  using assms
proof cases
  case (one ls)
  then have "rr_data type msg (length msg) off n st = map_option (\<lambda>r. (r, st)) (rr_name msg (length msg) off n)"
    by (auto simp: rr_data_def type_num_defs)
  with rr_name_reads [of msg off n ls] one assms(2) show ?thesis by auto
next
  case (two ls ls')
  then have "rr_data type msg (length msg) off n st = map_option (\<lambda>r. (r, st)) (rr_two_names msg (length msg) off n)"
    by (auto simp: rr_data_def type_num_defs)
  with rr_two_names_reads [of msg off n ls ls'] two assms(2) show ?thesis by auto
next
  case (pref p ls)
  then have "rr_data type msg (length msg) off n st = map_option (\<lambda>r. (r, st)) (rr_pref_name 2 msg (length msg) off n)"
    by (auto simp: rr_data_def rr_mx_def type_num_defs)
  with rr_pref_name_reads [of msg off n p ls 2] pref assms(2) show ?thesis by auto
next
  case (soa ls ls' t)
  then have "rr_data type msg (length msg) off n st = map_option (\<lambda>r. (r, st)) (rr_soa msg (length msg) off n)"
    by (auto simp: rr_data_def type_num_defs)
  with rr_soa_reads [of msg off n ls ls' t] soa assms(2) show ?thesis by auto
next
  case (px p ls ls')
  then have "rr_data type msg (length msg) off n st = map_option (\<lambda>r. (r, st)) (rr_px msg (length msg) off n)"
    by (auto simp: rr_data_def type_num_defs)
  with rr_px_reads [of msg off n p ls ls'] px assms(2) show ?thesis by auto
next
  case (srv p ls)
  then have "rr_data type msg (length msg) off n st = map_option (\<lambda>r. (r, st)) (rr_pref_name 6 msg (length msg) off n)"
    by (auto simp: rr_data_def rr_srv_def type_num_defs)
  with rr_pref_name_reads [of msg off n p ls 6] srv assms(2) show ?thesis by auto
next
  case (nxt ls t)
  then have "rr_data type msg (length msg) off n st = map_option (\<lambda>r. (r, st)) (rr_nxt msg (length msg) off n)"
    by (auto simp: rr_data_def type_num_defs)
  with rr_nxt_reads [of msg off n ls t] nxt assms(2) show ?thesis by auto
next
  case (naptr p x y z ls)
  then have "rr_data type msg (length msg) off n st = map_option (\<lambda>r. (r, st)) (rr_naptr msg (length msg) off n)"
    by (auto simp: rr_data_def type_num_defs)
  with rr_naptr_reads [of msg off n p x y z ls] naptr assms(2) show ?thesis by auto
next
  case (other d)
  with assms(2) have "rd_all msg off n = Some d" by auto
  with rr_data_other [OF other(2,3)] show ?thesis by (intro exI [of _ "[FB d]"]) (simp add: other(1))
qed

end
