(* ===== verification/Answer_Records.thy ===== *)
theory Answer_Records
  imports Answer_Read Dns_Parse_Cache
begin

text \<open>
  \<open>add_rr\<close> and the pseudo-record of EDNS: what a composed record looks like in the message, that
  the parser of \<open>dns_query.c\<close> reads it back, and the two operations on the OPT record.
\<close>

subsection \<open>Writing does not look at the message\<close>

text \<open>
  Two messages that agree from offset \<open>k\<close> on, before the end of the data: what is written to
  both is the same. The header of a record, filled in last, can thus be taken as filled in first.
\<close>

definition same_from :: "nat \<Rightarrow> answer \<Rightarrow> answer \<Rightarrow> bool" where
  "same_from k a b \<longleftrightarrow> length (a_buf b) = length (a_buf a) \<and> drop k (a_buf b) = drop k (a_buf a) \<and> k \<le> a_sz a \<and>
     a_sz b = a_sz a \<and> a_cb b = a_cb a \<and> a_st b = a_st a"

lemma drop_from:
  assumes "drop k b = drop k a" and "k \<le> n"
  shows "drop n b = drop n (a :: 'a list)"
proof -
  have "drop n b = drop (n - k) (drop k b)" "drop n a = drop (n - k) (drop k a)" using assms(2) by simp_all
  with assms(1) show ?thesis by simp
qed

lemma drop_take_from:
  assumes "drop k b = drop k a" and "length b = length a"
  shows "drop k (take n b @ x) = drop k (take n (a :: 'a list) @ x)"
  using assms by (simp add: drop_take)

lemma put_bytes_same_from:
  assumes "same_from k a b" and "put_bytes v a = Some a1"
  shows "\<exists>b1. put_bytes v b = Some b1 \<and> same_from k a1 b1"
proof -
  have s: "length (a_buf b) = length (a_buf a)" "drop k (a_buf b) = drop k (a_buf a)" "k \<le> a_sz a" "a_sz b = a_sz a"
    using assms(1) by (simp_all add: same_from_def)
  from drop_from [OF s(2), of "a_sz a + length v"] s(3)
  have d: "drop (a_sz a + length v) (a_buf b) = drop (a_sz a + length v) (a_buf a)" by simp
  have "drop k (take (a_sz a) (a_buf b) @ v @ drop (a_sz a + length v) (a_buf a)) =
      drop k (take (a_sz a) (a_buf a) @ v @ drop (a_sz a + length v) (a_buf a))"
    by (rule drop_take_from [OF s(2,1)])
  with assms s d show ?thesis
    by (auto simp: put_bytes_def wr_all_def same_from_def split: if_splits)
qed

lemma put_name_same_from:
  assumes "same_from k a b" and "put_name nm a = Some (rl, a1)"
  shows "\<exists>b1. put_name nm b = Some (rl, b1) \<and> same_from k a1 b1"
proof -
  have s: "length (a_buf b) = length (a_buf a)" "drop k (a_buf b) = drop k (a_buf a)" "k \<le> a_sz a" "a_sz b = a_sz a"
    "a_cb b = a_cb a" "a_st b = a_st a"
    using assms(1) by (simp_all add: same_from_def)
  note d = drop_from [OF s(2,3)]
  obtain ok st1 where m: "malloc (a_st a) = (ok, st1)" by (cases "malloc (a_st a)")
  with assms(2) obtain out cb where
    c: "compress_name nm (drop (a_sz a) (a_buf a)) (a_sz a) (a_cb a) ok = Some (rl, out, cb)"
      "a1 = a\<lparr>a_buf := take (a_sz a) (a_buf a) @ out, a_sz := a_sz a + rl, a_cb := cb, a_st := st1\<rparr>"
    by (auto simp: put_name_def split: bind_splits)
  have "put_name nm b = Some (rl, b\<lparr>a_buf := take (a_sz a) (a_buf b) @ out, a_sz := a_sz a + rl, a_cb := cb, a_st := st1\<rparr>)"
    using m c s d by (simp add: put_name_def)
  moreover have "drop k (take (a_sz a) (a_buf b) @ out) = drop k (take (a_sz a) (a_buf a) @ out)"
    by (rule drop_take_from [OF s(2,1)])
  ultimately show ?thesis using s c(2) by (simp add: same_from_def)
qed

lemma put_fields_same_from:
  "same_from k a b \<Longrightarrow> put_fields fs a = Some (r, a1) \<Longrightarrow> \<exists>b1. put_fields fs b = Some (r, b1) \<and> same_from k a1 b1"
proof (induction fs arbitrary: a b r)
  case (Cons f fs)
  show ?case
  proof (cases f)
    case (FB v)
    with Cons.prems(2) obtain a2 r2 where a2: "put_bytes v a = Some a2" "put_fields fs a2 = Some (r2, a1)"
      "r = map_option ((+) (length v)) r2" by (auto split: bind_splits)
    from put_bytes_same_from [OF Cons.prems(1) a2(1)] obtain b2 where
      b2: "put_bytes v b = Some b2" "same_from k a2 b2" by blast
    from Cons.IH [OF b2(2) a2(2)] b2(1) a2(3) FB show ?thesis by auto
  next
    case (FN ls)
    with Cons.prems(2) obtain a2 rl where a2: "put_name (enc ls) a = Some (rl, a2)"
      "(if rl = 0 then Some (None, a2) else do { (r, a3) \<leftarrow> put_fields fs a2; Some (map_option ((+) rl) r, a3) }) = Some (r, a1)"
      by (auto split: bind_splits)
    from put_name_same_from [OF Cons.prems(1) a2(1)] obtain b2 where
      b2: "put_name (enc ls) b = Some (rl, b2)" "same_from k a2 b2" by blast
    show ?thesis
    proof (cases "rl = 0")
      case True
      with a2(2) b2 FN show ?thesis by auto
    next
      case False
      with a2(2) obtain r2 where a3: "put_fields fs a2 = Some (r2, a1)" "r = map_option ((+) rl) r2"
        by (auto split: bind_splits)
      from Cons.IH [OF b2(2) a3(1)] b2(1) a3(2) False FN show ?thesis by auto
    qed
  qed
qed auto

subsection \<open>A record in a message\<close>

definition rr_hdr :: "nat \<Rightarrow> 32 word \<Rightarrow> nat \<Rightarrow> bytes" where
  "rr_hdr type ttl rdlen = be16 (of_nat type) @ be16 (of_nat C_IN) @ be32 ttl @ be16 (of_nat rdlen)"

lemma length_rr_hdr [simp]: "length (rr_hdr type ttl rdlen) = sizeof_rr_hdr_t"
  by (simp add: rr_hdr_def sizeof_rr_hdr_t_def)

lemma put_rr_hdr_put:
  assumes "i + sizeof_rr_hdr_t \<le> length b"
  shows "put_rr_hdr type ttl rdlen i b = Some (put b i (rr_hdr type ttl rdlen))"
proof -
  have "i + 10 \<le> length b" using assms by (simp add: sizeof_rr_hdr_t_def)
  then show ?thesis
    using put_put [of i "be16 (of_nat type)" "be16 (of_nat C_IN)" b]
      put_put [of i "be16 (of_nat type) @ be16 (of_nat C_IN)" "be32 ttl" b]
      put_put [of i "be16 (of_nat type) @ be16 (of_nat C_IN) @ be32 ttl" "be16 (of_nat rdlen)" b]
    by (simp add: put_rr_hdr_def PUTINT16_put PUTINT32_put rr_hdr_def add.assoc del: add_2_eq_Suc add_2_eq_Suc')
qed

text \<open>A record for the name \<open>ls\<close> that takes \<open>len\<close> bytes from \<open>off\<close>; its data are the fields \<open>fs\<close>.\<close>

definition record_at :: "bytes \<Rightarrow> nat \<Rightarrow> nat \<Rightarrow> bytes list \<Rightarrow> nat \<Rightarrow> 32 word \<Rightarrow> field list \<Rightarrow> bool" where
  "record_at msg off len ls type ttl fs \<longleftrightarrow> (\<exists>nlen rdlen h ls'. len = nlen + sizeof_rr_hdr_t + rdlen \<and> rdlen < 2 ^ 16 \<and>
     h \<le> 127 \<and> name_at msg h nlen off ls' \<and> same_name ls' ls \<and>
     rd_all msg (off + nlen) sizeof_rr_hdr_t = Some (rr_hdr type ttl rdlen) \<and>
     fields_at msg (off + nlen + sizeof_rr_hdr_t) rdlen fs)"

lemma record_at_append:
  assumes "record_at msg off len ls type ttl fs"
  shows "record_at (msg @ x) off len ls type ttl fs"
proof -
  from assms obtain nlen rdlen h ls' where "len = nlen + sizeof_rr_hdr_t + rdlen" "rdlen < 2 ^ 16" "h \<le> 127"
    "name_at msg h nlen off ls'" "same_name ls' ls" "rd_all msg (off + nlen) sizeof_rr_hdr_t = Some (rr_hdr type ttl rdlen)"
    "fields_at msg (off + nlen + sizeof_rr_hdr_t) rdlen fs" unfolding record_at_def by blast
  then show ?thesis
    unfolding record_at_def
    by (intro exI [of _ nlen] exI [of _ rdlen] exI [of _ h] exI [of _ ls'] conjI)
      (assumption | rule name_at_append rd_all_append fields_at_append)+
qed

lemma rd_all_parts:
  assumes "rd_all msg off n = Some (u @ v @ w)"
  shows "rd_all msg (off + length u) (length v) = Some v"
proof -
  from assms have t: "off + n \<le> length msg" "take n (drop off msg) = u @ v @ w"
    by (auto simp: rd_all_def split: if_splits)
  moreover from t have n: "n = length (u @ v @ w)" by (metis length_drop length_take min.absorb2 le_diff_conv2 add_leE add.commute)
  moreover have "take (length v) (drop (length u) (take n (drop off msg))) = take (length v) (drop (off + length u) msg)"
    using n by (simp add: drop_take min_def add.commute)
  ultimately show ?thesis by (auto simp: rd_all_def)
qed

text \<open>The parser's view of it.\<close>

lemma rd_all_in_msg: "rd_all msg off n = Some v \<Longrightarrow> off + n \<le> length msg"
  by (auto simp: rd_all_def split: if_splits)

lemma fields_at_in_msg: "fields_at msg off n fs \<Longrightarrow> off \<le> length msg \<Longrightarrow> off + n \<le> length msg"
proof (induction msg off n fs rule: fields_at.induct)
  case (2 msg off n v fs)
  then show ?case by (fastforce dest: rd_all_in_msg)
next
  case (3 msg off n ls fs)
  then show ?case by (fastforce dest!: name_at_in_msg)
qed simp

lemma record_at_step:
  assumes r: "record_at msg off len ls type ttl fs" and ls: "dns_name ls" and fs: "rdata_fields type fs" and type: "type < 2 ^ 16"
    and cached: "\<not> PDNSD_NOT_CACHED_TYPE (int type)" "type \<noteq> T_OPT"
    and p: "p_ptr p = off" "len \<le> p_lcnt p" and arr: "arr_ok (p_centa p)" "distinct (rrset_l (p_st p))" "mem (p_st p) = []"
  shows "\<exists>fs' centa. same_fields fs' fs \<and> arr_ok centa \<and>
    arr_recs centa = insert (map tolower (enc ls), type, fields_bytes fs') (arr_recs (p_centa p)) \<and>
    arr_ttl centa = ttls_with (map tolower (enc ls)) type (uint ttl) (arr_ttl (p_centa p)) \<and>
    rrs_step msg (length msg) fl queryts p =
      Some (None, p\<lparr>p_centa := centa, p_ptr := off + len, p_lcnt := p_lcnt p - len\<rparr>)"
proof -
  from r obtain nlen rdlen h ls' where d: "len = nlen + sizeof_rr_hdr_t + rdlen" "rdlen < 2 ^ 16" "h \<le> 127"
    "name_at msg h nlen off ls'" "same_name ls' ls" "rd_all msg (off + nlen) sizeof_rr_hdr_t = Some (rr_hdr type ttl rdlen)"
    "fields_at msg (off + nlen + sizeof_rr_hdr_t) rdlen fs" unfolding record_at_def by blast
  note dn = same_name_dns [OF d(5) ls]
  have "nlen \<le> p_lcnt p" using d(1) p(2) by simp
  from decompress_name_reads [OF d(4,3) dn(1) this, of "replicate DNSNAMEBUFSIZE 0"] obtain oname where
    o: "decompress_name msg (length msg) off (p_lcnt p) (replicate DNSNAMEBUFSIZE 0) =
        Some (Inr (off + nlen, p_lcnt p - nlen, oname, length (enc ls')))"
      "length oname = DNSNAMEBUFSIZE" "take (length (enc ls')) oname = enc ls'" by auto
  then have oname: "oname = enc ls' @ drop (length (enc ls')) oname" by (metis append_take_drop_id)
  note hdr = d(6) [unfolded rr_hdr_def]
  have be: "rd_all msg (off + nlen) 2 = Some (be16 (of_nat type))" "rd_all msg (off + nlen + 2) 2 = Some (be16 (of_nat C_IN))"
    "rd_all msg (off + nlen + 4) 4 = Some (be32 ttl)" "rd_all msg (off + nlen + 8) 2 = Some (be16 (of_nat rdlen))"
    using rd_all_parts [of msg "off + nlen" sizeof_rr_hdr_t "[]" "be16 (of_nat type)"]
      rd_all_parts [of msg "off + nlen" sizeof_rr_hdr_t "be16 (of_nat type)" "be16 (of_nat C_IN)"]
      rd_all_parts [of msg "off + nlen" sizeof_rr_hdr_t "be16 (of_nat type) @ be16 (of_nat C_IN)" "be32 ttl"]
      rd_all_parts [of msg "off + nlen" sizeof_rr_hdr_t "be16 (of_nat type) @ be16 (of_nat C_IN) @ be32 ttl"
        "be16 (of_nat rdlen)" "[]"] hdr
    by (simp_all add: add.assoc del: add_2_eq_Suc add_2_eq_Suc')
  have g: "GETINT16 msg (off + nlen) = Some (of_nat type, off + nlen + 2)"
    "GETINT16 msg (off + nlen + 2) = Some (of_nat C_IN, off + nlen + 4)"
    "GETINT32 msg (off + nlen + 4) = Some (ttl, off + nlen + 8)"
    "GETINT16 msg (off + nlen + 8) = Some (of_nat rdlen, off + nlen + 10)"
    using GETINT16_be [OF be(1)] GETINT16_be [OF be(2)] GETINT32_be [OF be(3)] GETINT16_be [OF be(4)] by simp_all
  have u: "unat (of_nat type :: 16 word) = type" "unat (of_nat rdlen :: 16 word) = rdlen" "unat (of_nat C_IN :: 16 word) = C_IN"
    using type d(2) by (simp_all add: unat_of_nat C_IN_def)
  have lt: "\<not> p_lcnt p - nlen < 10" "\<not> p_lcnt p - (nlen + 10) < rdlen"
    using p(2) d(1) by (simp_all add: sizeof_rr_hdr_t_def)
  let ?st = "p_st p" and ?off = "off + nlen + sizeof_rr_hdr_t"
  from rr_data_reads [OF fs d(7), of ?st] obtain fs' where
    f: "same_fields fs' fs" "rr_data type msg (length msg) ?off rdlen ?st = Some (Inr (fields_bytes fs'), ?st)" by blast
  have "?off + rdlen \<le> length msg" using rd_all_in_msg [OF be(4)] fields_at_in_msg [OF d(7)] by (simp add: sizeof_rr_hdr_t_def)
  from rr_data_spec [OF this, of type ?st] f(2) have ok: "rdata_ok type (fields_bytes fs')" by (auto simp: data_result_def)
  from rr_to_cache_spec [OF arr(1,2) dn(1) not_cached_type [OF cached(1)] ok, of "drop (length (enc ls')) oname" "uint ttl" fl queryts]
  obtain centa where c: "rr_to_cache (p_centa p) oname (int type) (uint ttl) (fields_bytes fs') fl queryts ?st = Some (RC_OK, centa, ?st)"
    "arr_ok centa" "arr_recs centa = insert (map tolower (enc ls'), type, fields_bytes fs') (arr_recs (p_centa p))"
    "arr_ttl centa = ttls_with (map tolower (enc ls')) type (uint ttl) (arr_ttl (p_centa p))"
    using arr(3) unfolding oname [symmetric] by auto
  have "rrs_step msg (length msg) fl queryts p =
      Some (None, p\<lparr>p_centa := centa, p_ptr := off + len, p_lcnt := p_lcnt p - len\<rparr>)"
    using c(1) o(1) g u p(1) lt d(1) f(2) cached
    by (simp add: rrs_step_def rrs_cached_def sizeof_rr_hdr_t_def Let_def)
  moreover have "map tolower (enc ls') = map tolower (enc ls)"
    using d(5) dn(1) ls by (simp add: same_name_def lower_enc dns_name_def)
  ultimately show ?thesis using f(1) c(2-4) by auto
qed

subsection \<open>The steps of add_rr\<close>

text \<open>\<open>a'\<close> continues the message of \<open>a\<close>; the header of the message may differ.\<close>

definition ans_continues :: "answer \<Rightarrow> answer \<Rightarrow> bool" where
  "ans_continues a a' \<longleftrightarrow> length (a_buf a) \<le> length (a_buf a') \<and> a_sz a \<le> a_sz a' \<and>
     drop sizeof_dns_hdr (take (a_sz a) (a_buf a')) = drop sizeof_dns_hdr (take (a_sz a) (a_buf a)) \<and>
     (\<exists>m. a_st a' = a_st a\<lparr>mem := m\<rparr>)"

lemma ans_continues_refl [simp]: "ans_continues a a"
  unfolding ans_continues_def by (intro conjI exI [of _ "mem (a_st a)"]) simp_all

lemma ans_continues_trans:
  assumes "ans_continues a b" and "ans_continues b c"
  shows "ans_continues a c"
proof -
  have le: "a_sz a - sizeof_dns_hdr \<le> a_sz b - sizeof_dns_hdr"
    using assms(1) by (simp add: ans_continues_def diff_le_mono)
  have "drop sizeof_dns_hdr (take (a_sz a) (a_buf c)) =
      take (a_sz a - sizeof_dns_hdr) (drop sizeof_dns_hdr (take (a_sz b) (a_buf c)))"
    using le by (simp add: drop_take min_def)
  also have "\<dots> = drop sizeof_dns_hdr (take (a_sz a) (a_buf b))"
    using assms le by (simp add: ans_continues_def drop_take min_def)
  finally show ?thesis using assms by (auto simp: ans_continues_def)
qed

lemma writes_on_continues: "writes_on a a' \<Longrightarrow> ans_continues a a'"
  by (simp add: writes_on_def ans_continues_def)

lemma ans_msg_continues:
  assumes "ans_safe a" and "ans_safe a'" and "ans_continues a a'"
  shows "ans_msg hdr a' = ans_msg hdr a @ drop (a_sz a) (take (a_sz a') (a_buf a'))"
proof -
  let ?t = "take (a_sz a') (a_buf a')"
  have sz: "sizeof_dns_hdr \<le> a_sz a" "a_sz a \<le> a_sz a'"
    using assms by (simp_all add: ans_safe_def ans_continues_def)
  have "drop sizeof_dns_hdr ?t = take (a_sz a - sizeof_dns_hdr) (drop sizeof_dns_hdr ?t) @ drop (a_sz a - sizeof_dns_hdr) (drop sizeof_dns_hdr ?t)"
    by (rule append_take_drop_id [symmetric])
  moreover have "drop (a_sz a - sizeof_dns_hdr) (drop sizeof_dns_hdr ?t) = drop (a_sz a) ?t"
    using sz by simp
  moreover have "take (a_sz a - sizeof_dns_hdr) (drop sizeof_dns_hdr ?t) = drop sizeof_dns_hdr (take (a_sz a) (a_buf a))"
    using assms(3) sz by (simp add: ans_continues_def drop_take min_def)
  ultimately show ?thesis unfolding ans_msg_def by (metis append.assoc)
qed

lemma round_alloc_le: "n \<le> round_alloc n"
proof -
  have "n + 127 = (n + 127) div 128 * 128 + (n + 127) mod 128" by simp
  moreover have "(n + 127) mod 128 < 128" by simp
  ultimately show ?thesis unfolding round_alloc_def ALLOCCHUNKSIZEMASK_def by simp
qed

lemma grow_ansE:
  assumes "ans_safe a"
  obtains ok a' where "grow_ans newsz a = (ok, a')" "ans_safe a'" "ans_continues a a'" "a_sz a' = a_sz a"
    "a_cb a' = a_cb a" "\<And>hdr. ans_msg hdr a' = ans_msg hdr a"
    "ok \<Longrightarrow> newsz \<le> dnsmsghdroffset + length (a_buf a')" "take (a_sz a) (a_buf a') = take (a_sz a) (a_buf a)"
proof -
  obtain ok m where m: "malloc (a_st a) = (ok, a_st a\<lparr>mem := m\<rparr>)" using malloc_step by blast
  note r = round_alloc_le [of newsz]
  show thesis
  proof (cases "allocsz a < newsz \<and> ok")
    case True
    let ?a = "a\<lparr>a_buf := a_buf a @ replicate (round_alloc newsz - allocsz a) 0, a_st := a_st a\<lparr>mem := m\<rparr>\<rparr>"
    have "grow_ans newsz a = (True, ?a)" using True m by (simp add: grow_ans_def)
    then show thesis
      by (rule that) (use assms True r in \<open>auto simp: ans_safe_def ans_continues_def ans_msg_def allocsz_def\<close>)
  next
    case False
    show thesis
    proof (cases "allocsz a < newsz")
      case True
      with False m have "grow_ans newsz a = (False, a\<lparr>a_st := a_st a\<lparr>mem := m\<rparr>\<rparr>)" by (simp add: grow_ans_def)
      then show thesis
        by (rule that) (use assms in \<open>auto simp: ans_safe_def ans_continues_def ans_msg_def\<close>)
    next
      case False
      then have "grow_ans newsz a = (True, a)" by (simp add: grow_ans_def)
      then show thesis
        by (rule that) (use assms False in \<open>auto simp: allocsz_def\<close>)
    qed
  qed
qed

text \<open>The owner, written to a buffer of its own first.\<close>

lemma owner_cases:
  assumes "ans_safe a" and "dns_name ls"
  obtains (nomem) st1 out where "malloc (a_st a) = (False, a_st a\<lparr>mem := st1\<rparr>)"
    "compress_name (enc ls) (replicate DNSNAMEBUFSIZE 0) (a_sz a) (a_cb a) False = Some (0, out, [])"
  | (named) al m nlen out cb where "malloc (a_st a) = (al, a_st a\<lparr>mem := m\<rparr>)"
    "compress_name (enc ls) (replicate DNSNAMEBUFSIZE 0) (a_sz a) (a_cb a) al = Some (nlen, out, cb)"
    "0 < nlen" "nlen \<le> length (enc ls)" "nlen \<le> length out" "cb_names cb"
    "\<And>hdr. length hdr = sizeof_dns_hdr \<Longrightarrow> ans_reads hdr a \<Longrightarrow> small (a_sz a) \<Longrightarrow>
      (\<exists>gs. cb = map ent gs \<and> cb_inv (ans_msg hdr a @ take nlen out) gs) \<and>
      (\<exists>h ls'. h \<le> 127 \<and> name_at (ans_msg hdr a @ take nlen out) h nlen (a_sz a) ls' \<and> same_name ls' ls)"
proof -
  obtain al m where m: "malloc (a_st a) = (al, a_st a\<lparr>mem := m\<rparr>)" using malloc_step by blast
  have cb: "cb_names (a_cb a)" using assms(1) by (simp add: ans_safe_def)
  have len: "length (enc ls) \<le> length (replicate DNSNAMEBUFSIZE (0 :: byte))" using assms(2) by (simp add: dns_name_def)
  from assms(2) cb len show thesis
  proof (cases rule: compress_name_cases [of _ _ _ "[]" "a_sz a" al])
    case (fail out')
    with m nomem show thesis by simp
  next
    case (ok rl out' cb')
    have "(\<exists>gs. cb' = map ent gs \<and> cb_inv (ans_msg hdr a @ take rl out') gs) \<and>
      (\<exists>h ls'. h \<le> 127 \<and> name_at (ans_msg hdr a @ take rl out') h rl (a_sz a) ls' \<and> same_name ls' ls)"
      if hdr: "length hdr = sizeof_dns_hdr" "ans_reads hdr a" "small (a_sz a)" for hdr
    proof -
      from hdr(2) obtain gs where gs: "a_cb a = map ent gs" "cb_inv (ans_msg hdr a) gs"
        by (auto simp: ans_reads_def)
      note l = length_ans_msg [OF assms(1) hdr(1)]
      from compress_step [OF gs(2) assms(2) len, unfolded l] hdr(3) ok(2) gs(1) show ?thesis
        by (auto simp: small_def)
    qed
    with m ok len show thesis by (intro named [of al m rl out' cb']) (simp_all add: dns_name_def)
  qed
qed

text \<open>The data, behind the space for the header of the record.\<close>

lemma put_rdata_filled:
  assumes a: "ans_safe a" and room: "a_sz a + sizeof_rr_hdr_t + length (fields_bytes fs) \<le> length (a_buf a)"
    and fs: "rdata_fields type fs"
  obtains (fail) a4 where "put_rdata type (fields_bytes fs) (a\<lparr>a_sz := a_sz a + sizeof_rr_hdr_t\<rparr>) = Some (None, a4)"
    "\<exists>m. a_st a4 = a_st a\<lparr>mem := m\<rparr>"
  | (ok) rdlen a4 b where
    "put_rdata type (fields_bytes fs) (a\<lparr>a_sz := a_sz a + sizeof_rr_hdr_t\<rparr>) = Some (Some rdlen, a4)"
    "put_rr_hdr type ttl rdlen (a_sz a) (a_buf a4) = Some b"
    "a_sz a4 = a_sz a + sizeof_rr_hdr_t + rdlen" "rdlen \<le> length (fields_bytes fs)" "ans_safe a4"
    "length (a_buf a4) = length (a_buf a)" "take (a_sz a) (a_buf a4) = take (a_sz a) (a_buf a)"
    "length b = length (a_buf a)" "take (a_sz a) b = take (a_sz a) (a_buf a)"
    "\<exists>m. a_st a4 = a_st a\<lparr>mem := m\<rparr>" "take sizeof_rr_hdr_t (drop (a_sz a) b) = rr_hdr type ttl rdlen"
    "\<And>hdr. length hdr = sizeof_dns_hdr \<Longrightarrow> ans_reads hdr a \<Longrightarrow>
      small (a_sz a + sizeof_rr_hdr_t + length (fields_bytes fs)) \<Longrightarrow> ans_reads hdr (a4\<lparr>a_buf := b\<rparr>) \<and>
      rd_all (ans_msg hdr (a4\<lparr>a_buf := b\<rparr>)) (a_sz a) sizeof_rr_hdr_t = Some (rr_hdr type ttl rdlen) \<and>
      fields_at (ans_msg hdr (a4\<lparr>a_buf := b\<rparr>)) (a_sz a + sizeof_rr_hdr_t) rdlen fs"
proof -
  let ?r = "a\<lparr>a_sz := a_sz a + sizeof_rr_hdr_t\<rparr>" and ?d = "fields_bytes fs" and ?k = "a_sz a + sizeof_rr_hdr_t"
  have r: "ans_safe ?r" "room_for ?d ?r"
    using a room by (simp_all add: ans_safe_def room_for_def)
  note put = put_rdata_fields [OF fs r(2)]
  note fok = rdata_fields_ok [OF fs]
  from put_fields_spec [OF r(1) fok] room obtain res a4 where
    p: "put_fields fs ?r = Some (res, a4)" "wrote ?r fs res a4" by auto
  note w = wroteD [OF p(2)]
  have l: "length (a_buf a4) = length (a_buf a)" "take ?k (a_buf a4) = take ?k (a_buf a)"
    "\<exists>m. a_st a4 = a_st a\<lparr>mem := m\<rparr>"
    using w(2) by (simp_all add: writes_on_def)
  then have l2: "take (a_sz a) (a_buf a4) = take (a_sz a) (a_buf a)"
    by (metis le_add1 min.absorb1 take_take)
  show thesis
  proof (cases res)
    case None
    with put p fail l(3) show thesis by simp
  next
    case (Some rdlen)
    note n = w(4) [OF Some]
    have nle: "rdlen \<le> length ?d" using n w(3) by simp
    let ?h = "rr_hdr type ttl rdlen"
    let ?b = "put (a_buf a4) (a_sz a) ?h"
    have fits: "a_sz a + sizeof_rr_hdr_t \<le> length (a_buf a4)" using room l(1) by simp
    have hb: "put_rr_hdr type ttl rdlen (a_sz a) (a_buf a4) = Some ?b" by (rule put_rr_hdr_put [OF fits])
    have hdr_at: "take sizeof_rr_hdr_t (drop (a_sz a) ?b) = ?h" using fits by (simp add: put_def)
    let ?r' = "?r\<lparr>a_buf := put (a_buf a) (a_sz a) ?h\<rparr>"
    have sf: "same_from ?k ?r ?r'" using room by (simp add: same_from_def put_def)
    from put_fields_same_from [OF sf p(1)] obtain b1 where
      b1: "put_fields fs ?r' = Some (res, b1)" "same_from ?k a4 b1" by blast
    have r': "ans_safe ?r'" using r(1) room by (simp add: ans_safe_def)
    from put_fields_spec [OF r' fok] room b1(1) have w': "wrote ?r' fs res b1" by auto
    note w' = wroteD [OF w']
    have t: "take ?k (a_buf b1) = take (a_sz a) (a_buf a) @ ?h"
      using w'(2) room take_put [of "a_sz a" "a_buf a" ?h] by (simp add: writes_on_def)
    have "a_buf b1 = take ?k (a_buf b1) @ drop ?k (a_buf b1)" by simp
    also have "\<dots> = ?b" unfolding t using b1(2) l2 by (simp add: same_from_def put_def)
    finally have b: "b1 = a4\<lparr>a_buf := ?b\<rparr>" using b1(2) by (simp add: same_from_def)
    have m': "ans_msg hdr ?r' = ans_msg hdr a @ ?h" for hdr
      using a room take_put [of "a_sz a" "a_buf a" ?h] by (simp add: ans_msg_def ans_safe_def)
    have "ans_reads hdr b1 \<and> rd_all (ans_msg hdr b1) (a_sz a) sizeof_rr_hdr_t = Some ?h \<and>
        fields_at (ans_msg hdr b1) ?k rdlen fs"
      if h: "length hdr = sizeof_dns_hdr" "ans_reads hdr a" "small (?k + length ?d)" for hdr
    proof -
      from h(2) have "ans_reads hdr ?r'" unfolding ans_reads_def m' using cb_inv_append by fastforce
      with w'(5) [OF Some h(1)] h(3) have "ans_reads hdr b1" "fields_at (ans_msg hdr b1) ?k rdlen fs" by simp_all
      moreover have "rd_all (ans_msg hdr ?r') (a_sz a) sizeof_rr_hdr_t = Some ?h"
        unfolding m' using length_ans_msg [OF a h(1)] by (simp add: rd_all_def)
      then have "rd_all (ans_msg hdr b1) (a_sz a) sizeof_rr_hdr_t = Some ?h"
        unfolding ans_msg_extend [OF r' w'(2)] by (rule rd_all_append)
      ultimately show ?thesis by simp
    qed
    then show thesis
      using put p(1) Some hb n nle w(1) l l2 fits room hdr_at unfolding b
      by (intro ok [of rdlen a4 ?b]) (simp_all add: put_def)
  qed
qed

subsection \<open>add_rr\<close>

lemma count_up_put:
  assumes "i + 2 \<le> length b"
  obtains n where "ntohs_at b i = Some n" "count_up i b = Some (put b i (be16 (n + 1)))"
proof -
  from assms obtain n where "ntohs_at b i = Some n" by (auto simp: ntohs_at_def GETINT16_def rd_def)
  with assms that show thesis by (simp add: count_up_def PUTINT16_put)
qed

lemma count_at_hdr: "count_at sect + 2 \<le> sizeof_dns_hdr"
  by (cases sect) (simp_all add: count_at_def sizeof_dns_hdr_def)

lemma drop_put: "i + length v \<le> n \<Longrightarrow> n \<le> length b \<Longrightarrow> drop n (put b i v) = drop n b"
  by (simp add: put_def)

lemma take_put_front: "i + length v \<le> n \<Longrightarrow> n \<le> length b \<Longrightarrow> take n (put b i v) = put (take n b) i v"
  by (cases "i = n") (auto simp: put_def drop_take min_def)

lemma ntohs_at_take:
  assumes "i + 2 \<le> n" and "n \<le> length b"
  shows "ntohs_at (take n b) i = ntohs_at b i"
  using assms by (simp add: ntohs_at_def GETINT16_def rd_def)

text \<open>
  The message after a record was added. The new part is a name, the header of the record with the
  length of what follows, and the data; where the names of the message can be read back, so
  can the new record, the whole of the new part.
\<close>

definition record_frame :: "answer \<Rightarrow> bytes list \<Rightarrow> nat \<Rightarrow> 32 word \<Rightarrow> bytes \<Rightarrow> answer \<Rightarrow> bool" where
  "record_frame a ls type ttl d a' \<longleftrightarrow> (\<exists>nlen rdlen. 0 < nlen \<and> nlen \<le> length (enc ls) \<and> rdlen \<le> length d \<and>
     a_sz a' = a_sz a + nlen + sizeof_rr_hdr_t + rdlen \<and>
     take sizeof_rr_hdr_t (drop (a_sz a + nlen) (a_buf a')) = rr_hdr type ttl rdlen)"

definition record_added :: "answer \<Rightarrow> bytes list \<Rightarrow> nat \<Rightarrow> 32 word \<Rightarrow> field list \<Rightarrow> rr_section \<Rightarrow> answer \<Rightarrow> bool" where
  "record_added a ls type ttl fs sect a' \<longleftrightarrow> ans_safe a' \<and> ans_continues a a' \<and> a_sz a < a_sz a' \<and>
     record_frame a ls type ttl (fields_bytes fs) a' \<and> a_sz a' \<le> a_sz a + length (enc ls) + sizeof_rr_hdr_t + length (fields_bytes fs) \<and>
     (\<exists>n. ntohs_at (a_buf a) (count_at sect) = Some n \<and>
        take (a_sz a) (a_buf a') = put (take (a_sz a) (a_buf a)) (count_at sect) (be16 (n + 1))) \<and>
     (\<forall>hdr. length hdr = sizeof_dns_hdr \<longrightarrow> ans_reads hdr a \<longrightarrow> length (fields_bytes fs) < 2 ^ 16 \<longrightarrow>
        small (a_sz a + length (enc ls) + sizeof_rr_hdr_t + length (fields_bytes fs)) \<longrightarrow>
        ans_reads hdr a' \<and> record_at (ans_msg hdr a') (a_sz a) (a_sz a' - a_sz a) ls type ttl fs)"

lemma add_rr_cases:
  assumes a: "ans_safe a" and ls: "dns_name ls" and fs: "rdata_fields type fs"
  obtains (failed) a' where "add_rr (enc ls) type ttl (fields_bytes fs) sect udp a = Some (False, a')"
    "\<exists>m. a_st a' = a_st a\<lparr>mem := m\<rparr>"
  | (discarded) a' where "add_rr (enc ls) type ttl (fields_bytes fs) sect udp a = Some (True, a')"
    "sect = S_ADDITIONAL" "udp \<noteq> None" "a_sz a' = a_sz a" "ans_safe a'" "ans_continues a a'"
    "take (a_sz a) (a_buf a') = take (a_sz a) (a_buf a)"
  | (written) a' where "add_rr (enc ls) type ttl (fields_bytes fs) sect udp a = Some (True, a')"
    "\<not> too_long udp sect (a_sz a')" "record_added a ls type ttl fs sect a'"
proof -
  let ?d = "fields_bytes fs"
  have sz: "sizeof_dns_hdr \<le> a_sz a" "a_sz a \<le> length (a_buf a)" using a by (simp_all add: ans_safe_def)
  from a ls show thesis
  proof (cases rule: owner_cases)
    case (nomem m out)
    then show thesis by (intro failed) (auto simp: add_rr_def)
  next
    case (named al m nlen out cb)
    let ?a1 = "a\<lparr>a_cb := cb, a_st := a_st a\<lparr>mem := m\<rparr>\<rparr>"
    have a1: "ans_safe ?a1" using a named(6) by (simp add: ans_safe_def)
    let ?newsz = "dnsmsghdroffset + a_sz a + nlen + sizeof_rr_hdr_t + length ?d"
    from grow_ansE [OF a1, of ?newsz] obtain ok a2 where g: "grow_ans ?newsz ?a1 = (ok, a2)" "ans_safe a2"
      "ans_continues ?a1 a2" "a_sz a2 = a_sz a" "a_cb a2 = cb" "\<And>hdr. ans_msg hdr a2 = ans_msg hdr ?a1"
      "ok \<Longrightarrow> ?newsz \<le> dnsmsghdroffset + length (a_buf a2)" "take (a_sz a) (a_buf a2) = take (a_sz a) (a_buf a)"
      by auto
    have st2: "\<exists>m. a_st a2 = a_st a\<lparr>mem := m\<rparr>" using g(3) by (auto simp: ans_continues_def)
    show thesis
    proof (cases ok)
      case False
      with named g st2 show thesis by (intro failed [of a2]) (auto simp: add_rr_def)
    next
      case True
      with g(7) have room: "a_sz a + nlen + sizeof_rr_hdr_t + length ?d \<le> length (a_buf a2)" by simp
      let ?o = "take nlen out"
      have o: "rd_all out 0 nlen = Some ?o" "length ?o = nlen" using named(5) by (simp_all add: rd_all_def)
      from put_bytes_spec [OF g(2), of ?o] room o(2) g(4) obtain a3 where
        p: "put_bytes ?o a2 = Some a3" "ans_safe a3" "writes_on a2 a3" "a_sz a3 = a_sz a + nlen" "a_cb a3 = cb"
          "\<And>hdr. ans_msg hdr a3 = ans_msg hdr a2 @ ?o" using g(5) by auto
      have l3: "length (a_buf a3) = length (a_buf a2)" "\<exists>m. a_st a3 = a_st a\<lparr>mem := m\<rparr>"
        using p(3) st2 by (auto simp: writes_on_def)
      have front: "take (a_sz a) (a_buf a3) = take (a_sz a) (a_buf a)"
        using p(3) g(4,8) by (simp add: writes_on_def)
      have r3: "a_sz a3 + sizeof_rr_hdr_t + length ?d \<le> length (a_buf a3)" using room p(4) l3(1) by simp
      have red: "add_rr (enc ls) type ttl ?d sect udp a = do {
         (r, a4) \<leftarrow> put_rdata type ?d (a3\<lparr>a_sz := a_sz a3 + sizeof_rr_hdr_t\<rparr>);
         case r of None \<Rightarrow> Some (False, a4)
         | Some rdlen \<Rightarrow>
             if too_long udp sect (a_sz a4) then Some (True, a4\<lparr>a_sz := a_sz a\<rparr>)
             else do {
               b \<leftarrow> put_rr_hdr type ttl rdlen (a_sz a3) (a_buf a4);
               b' \<leftarrow> count_up (count_at sect) b;
               Some (True, a4\<lparr>a_buf := b'\<rparr>)
             }
         }"
        using named(1-3) g(1) True o p(1) by (simp add: add_rr_def)
      from p(2) r3 fs show thesis
      proof (cases rule: put_rdata_filled [where ttl = ttl])
        case (fail a4)
        with red l3(2) show thesis by (intro failed [of a4]) auto
      next
        case (ok rdlen a4 b)
        have st4: "\<exists>m. a_st a4 = a_st a\<lparr>mem := m\<rparr>" using ok(10) l3(2) by auto
        have "take (a_sz a) (take (a_sz a3) (a_buf a4)) = take (a_sz a) (take (a_sz a3) (a_buf a3))"
          "take (a_sz a) (take (a_sz a3) b) = take (a_sz a) (take (a_sz a3) (a_buf a3))"
          unfolding ok(7,9) by simp_all
        then have f4: "take (a_sz a) (a_buf a4) = take (a_sz a) (a_buf a)" "take (a_sz a) b = take (a_sz a) (a_buf a)"
          using p(4) front by simp_all
        have big: "length (a_buf a) \<le> length (a_buf a2)" using g(3) by (simp add: ans_continues_def)
        show thesis
        proof (cases "too_long udp sect (a_sz a4)")
          case True
          show thesis
          proof (rule discarded [of "a4\<lparr>a_sz := a_sz a\<rparr>"])
            show "sect = S_ADDITIONAL" "udp \<noteq> None" using True by (auto simp: too_long_def split: option.splits)
            show "ans_safe (a4\<lparr>a_sz := a_sz a\<rparr>)" using ok(5,6) sz big l3(1) by (simp add: ans_safe_def)
            show "ans_continues a (a4\<lparr>a_sz := a_sz a\<rparr>)" using st4 f4(1) ok(6) big l3(1) by (simp add: ans_continues_def)
          qed (use red ok(1) True f4(1) in simp_all)
        next
          case False
          have "count_at sect + 2 \<le> length b" using count_at_hdr [of sect] sz ok(8) l3(1) big by linarith
          from count_up_put [OF this] obtain n where
            n: "ntohs_at b (count_at sect) = Some n" "count_up (count_at sect) b = Some (put b (count_at sect) (be16 (n + 1)))" .
          let ?b = "put b (count_at sect) (be16 (n + 1))"
          have cb: "count_at sect + length (be16 (n + 1)) \<le> sizeof_dns_hdr" using count_at_hdr [of sect] by simp
          have szb: "a_sz a \<le> length b" "a_sz a4 \<le> length b" using sz big ok(5,6,8) l3(1) by (simp_all add: ans_safe_def)
          have "ntohs_at (take (a_sz a) b) (count_at sect) = ntohs_at (take (a_sz a) (a_buf a)) (count_at sect)"
            unfolding f4(2) by simp
          then have n2: "ntohs_at (a_buf a) (count_at sect) = Some n"
            using n(1) ntohs_at_take count_at_hdr [of sect] sz szb by (metis le_trans)
          have fr: "take (a_sz a) ?b = put (take (a_sz a) (a_buf a)) (count_at sect) (be16 (n + 1))"
            using take_put_front [of "count_at sect" "be16 (n + 1)" "a_sz a" b] cb sz szb f4(2) by simp
          let ?a' = "a4\<lparr>a_buf := ?b\<rparr>"
          have safe: "ans_safe ?a'" using ok(5,6,8) cb szb sz by (simp add: ans_safe_def)
          have cont: "ans_continues a ?a'"
            unfolding ans_continues_def using st4 fr cb sz szb big ok(3,6,8) p(4) l3(1)
            by (simp add: drop_put)
          have msg: "ans_msg hdr ?a' = ans_msg hdr (a4\<lparr>a_buf := b\<rparr>)" for hdr
            using cb szb sz ok(3) p(4) by (simp add: ans_msg_def drop_take drop_put)
          have reads: "ans_reads hdr ?a' \<and> record_at (ans_msg hdr ?a') (a_sz a) (a_sz a4 - a_sz a) ls type ttl fs"
            if h: "length hdr = sizeof_dns_hdr" "ans_reads hdr a" "small (a_sz a + length (enc ls) + sizeof_rr_hdr_t + length ?d)"
              and len: "length ?d < 2 ^ 16" for hdr
          proof -
            let ?a4 = "a4\<lparr>a_buf := b\<rparr>"
            have sm: "small (a_sz a)" "small (a_sz a3 + sizeof_rr_hdr_t + length ?d)"
              using h(3) named(4) p(4) by (auto elim: small_mono)
            have m3: "ans_msg hdr a3 = ans_msg hdr a @ ?o" unfolding p(6) g(6) by (simp add: ans_msg_def)
            from named(7) [OF h(1,2) sm(1)] obtain gs k ls' where o2: "cb = map ent gs" "cb_inv (ans_msg hdr a @ ?o) gs"
              "k \<le> 127" "name_at (ans_msg hdr a @ ?o) k nlen (a_sz a) ls'" "same_name ls' ls" by blast
            then have "ans_reads hdr a3" unfolding ans_reads_def m3 p(5) by blast
            from ok(12) [OF h(1) this sm(2)] have r: "ans_reads hdr ?a4"
              "rd_all (ans_msg hdr ?a4) (a_sz a3) sizeof_rr_hdr_t = Some (rr_hdr type ttl rdlen)"
              "fields_at (ans_msg hdr ?a4) (a_sz a3 + sizeof_rr_hdr_t) rdlen fs" by blast+
            have s4: "ans_safe ?a4" "ans_continues a3 ?a4"
              using ok(3,5,8,9,10) ok(6) by (auto simp: ans_safe_def ans_continues_def)
            have "name_at (ans_msg hdr ?a4) k nlen (a_sz a) ls'"
              using name_at_append [OF o2(4)] unfolding ans_msg_continues [OF p(2) s4] m3 by simp
            moreover have "rdlen < 2 ^ 16" "a_sz a4 - a_sz a = nlen + sizeof_rr_hdr_t + rdlen"
              using ok(3,4) len p(4) by simp_all
            ultimately have "record_at (ans_msg hdr ?a4) (a_sz a) (a_sz a4 - a_sz a) ls type ttl fs"
              unfolding record_at_def using r(2,3) o2(3,5) unfolding p(4) by blast
            then show ?thesis using r(1) unfolding ans_reads_def msg by simp
          qed
          have "drop (a_sz a + nlen) ?b = drop (a_sz a + nlen) b"
            using cb szb sz ok(3) p(4) by (intro drop_put) simp_all
          then have "record_frame a ls type ttl ?d ?a'"
            unfolding record_frame_def using ok(3,4,11) p(4) named(3,4) by (intro exI [of _ nlen] exI [of _ rdlen]) simp
          note frame = this
          show thesis
          proof (rule written [of ?a'])
            show "record_added a ls type ttl fs sect ?a'"
              unfolding record_added_def using safe cont n2 fr reads frame ok(3,4) p(4) named(3,4) by auto
          qed (use red ok(1,2) n(2) False in simp_all)
        qed
      qed
    qed
  qed
qed

subsection \<open>Properties\<close>

text \<open>
  A message that is safe to write to and from which the names in the list of compressed names
  are read back, whatever its header holds.
\<close>

definition ans_ok :: "answer \<Rightarrow> bool" where
  "ans_ok a \<longleftrightarrow> ans_safe a \<and> (\<forall>hdr. length hdr = sizeof_dns_hdr \<longrightarrow> ans_reads hdr a)"

text \<open>Data that differ at most in the case of letters in names.\<close>

definition same_rdata :: "nat \<Rightarrow> bytes \<Rightarrow> bytes \<Rightarrow> bool" where
  "same_rdata type d' d \<longleftrightarrow> (\<exists>fs fs'. rdata_fields type fs \<and> same_fields fs' fs \<and> d = fields_bytes fs \<and> d' = fields_bytes fs')"

lemma ans_ok_added:
  assumes "ans_ok a" and "record_added a ls type ttl fs sect a'"
    and "small (a_sz a + length (enc ls) + sizeof_rr_hdr_t + length (fields_bytes fs))" and "length (fields_bytes fs) < 2 ^ 16"
  shows "ans_ok a'" and "record_at (take (a_sz a') (a_buf a')) (a_sz a) (a_sz a' - a_sz a) ls type ttl fs"
proof -
  have r: "ans_reads hdr a' \<and> record_at (ans_msg hdr a') (a_sz a) (a_sz a' - a_sz a) ls type ttl fs"
    if "length hdr = sizeof_dns_hdr" for hdr
    using that assms unfolding ans_ok_def record_added_def by blast
  have s: "ans_safe a'" using assms(2) by (simp add: record_added_def)
  with r show "ans_ok a'" by (simp add: ans_ok_def)
  let ?hdr = "take sizeof_dns_hdr (a_buf a')"
  have "length ?hdr = sizeof_dns_hdr" "ans_msg ?hdr a' = take (a_sz a') (a_buf a')"
    using s append_take_drop_id [of sizeof_dns_hdr "take (a_sz a') (a_buf a')"]
    by (simp_all add: ans_safe_def ans_msg_def min_def)
  with r [of ?hdr] show "record_at (take (a_sz a') (a_buf a')) (a_sz a) (a_sz a' - a_sz a) ls type ttl fs" by simp
qed




text \<open>A message after records were added one after the other, none of them left out.\<close>

type_synonym record_data = "bytes list \<times> nat \<times> 32 word \<times> bytes"

inductive added :: "answer \<Rightarrow> record_data list \<Rightarrow> answer \<Rightarrow> bool" where
  added_none: "added a [] a"
| added_rr: "added a rs a1 \<Longrightarrow> dns_name ls \<Longrightarrow> rdata_ok type d \<Longrightarrow> length d < 2 ^ 16 \<Longrightarrow> type < 2 ^ 16 \<Longrightarrow>
    \<not> PDNSD_NOT_CACHED_TYPE (int type) \<Longrightarrow> type \<noteq> T_OPT \<Longrightarrow>
    add_rr (enc ls) type ttl d sect udp a1 = Some (True, a2) \<Longrightarrow> a_sz a2 \<noteq> a_sz a1 \<Longrightarrow>
    added a (rs @ [(ls, type, ttl, d)]) a2"

fun record_ok :: "record_data \<Rightarrow> bool" where
  "record_ok (ls, type, ttl, d) \<longleftrightarrow> dns_name ls \<and> type < 2 ^ 16 \<and> \<not> PDNSD_NOT_CACHED_TYPE (int type) \<and> type \<noteq> T_OPT"

fun records_at :: "bytes \<Rightarrow> nat \<Rightarrow> nat \<Rightarrow> record_data list \<Rightarrow> bool" where
  "records_at msg off end [] \<longleftrightarrow> end = off"
| "records_at msg off end ((ls, type, ttl, d) # rs) \<longleftrightarrow> (\<exists>len fs. rdata_fields type fs \<and> d = fields_bytes fs \<and>
     record_at msg off len ls type ttl fs \<and> records_at msg (off + len) end rs)"

lemma records_at_le: "records_at msg off end rs \<Longrightarrow> off \<le> end"
proof (induction rs arbitrary: off)
  case (Cons r rs)
  then show ?case by (cases r) fastforce
qed simp

lemma records_at_append: "records_at msg off end rs \<Longrightarrow> records_at (msg @ x) off end rs"
proof (induction rs arbitrary: off)
  case (Cons r rs)
  then show ?case by (cases r) (auto intro!: record_at_append)
qed simp

lemma records_at_snoc:
  "records_at msg off mid rs \<Longrightarrow> records_at msg mid end [r] \<Longrightarrow> records_at msg off end (rs @ [r])"
proof (induction rs arbitrary: off)
  case (Cons q rs)
  then show ?case by (cases q) auto
qed simp

text \<open>A record \<open>r\<close> read back with the data \<open>d'\<close>, and as an element of the set of cached records.\<close>

fun same_record :: "record_data \<Rightarrow> bytes \<Rightarrow> bool" where
  "same_record (ls, type, ttl, d) d' \<longleftrightarrow> same_rdata type d' d"

fun parsed_as :: "record_data \<Rightarrow> bytes \<Rightarrow> bytes \<times> nat \<times> bytes" where
  "parsed_as (ls, type, ttl, d) d' = (map tolower (enc ls), type, d')"

text \<open>The times to live of the record sets after a record is read: unsigned, and the least one counts.\<close>

fun ttl_read :: "record_data \<Rightarrow> (bytes \<Rightarrow> nat \<Rightarrow> int option) \<Rightarrow> bytes \<Rightarrow> nat \<Rightarrow> int option" where
  "ttl_read (ls, type, ttl, d) f = ttls_with (map tolower (enc ls)) type (uint ttl) f"

lemma add_rr_added:
  assumes "ans_safe a" and "dns_name ls" and "rdata_fields type fs"
    and "add_rr (enc ls) type ttl (fields_bytes fs) sect udp a = Some (True, a')" and "a_sz a' \<noteq> a_sz a"
  shows "record_added a ls type ttl fs sect a'"
  using assms(1-3)
  by (cases rule: add_rr_cases [where ttl = ttl and sect = sect and udp = udp]) (use assms(4,5) in auto)

lemma added_step:
  assumes "ans_safe a" and "dns_name ls" and "rdata_ok type d"
    and "add_rr (enc ls) type ttl d sect udp a = Some (True, a')" and "a_sz a' \<noteq> a_sz a"
  obtains fs where "rdata_fields type fs" "d = fields_bytes fs" "record_added a ls type ttl fs sect a'"
proof -
  from rdata_ok_fields [OF assms(3)] obtain fs where fs: "rdata_fields type fs" "d = fields_bytes fs" by blast
  with that add_rr_added [OF assms(1,2) fs(1) assms(4) [unfolded fs(2)] assms(5)] show thesis by blast
qed

lemma added_safe:
  assumes "added a rs a'" and "ans_safe a"
  shows "ans_safe a' \<and> a_sz a \<le> a_sz a'"
  using assms
proof (induction rule: added.induct)
  case (added_rr a rs a1 ls type d ttl sect udp a2)
  then have "ans_safe a1" by simp
  from added_step [OF this added_rr.hyps(2,3,8,9)] obtain fs where "record_added a1 ls type ttl fs sect a2" .
  with added_rr show ?case by (simp add: record_added_def)
qed simp

lemma added_records:
  assumes "added a rs a'" and "ans_ok a" and "a_sz a' < 2 ^ 31"
  shows "ans_ok a' \<and> list_all record_ok rs \<and>
    (\<forall>hdr. length hdr = sizeof_dns_hdr \<longrightarrow> records_at (ans_msg hdr a') (a_sz a) (a_sz a') rs)"
  using assms
proof (induction rule: added.induct)
  case (added_rr a rs a1 ls type d ttl sect udp a2)
  have s1: "ans_safe a1" using added_safe [OF added_rr.hyps(1)] added_rr.prems(1) by (simp add: ans_ok_def)
  from added_step [OF this added_rr.hyps(2,3,8,9)] obtain fs where
    fs: "rdata_fields type fs" "d = fields_bytes fs" "record_added a1 ls type ttl fs sect a2" .
  then have a2: "ans_safe a2" "ans_continues a1 a2" "a_sz a1 < a_sz a2" by (simp_all add: record_added_def)
  with added_rr.prems(2) have "a_sz a1 < 2 ^ 31" by simp
  with added_rr.IH added_rr.prems(1) have IH: "ans_ok a1" "list_all record_ok rs"
    "\<And>hdr. length hdr = sizeof_dns_hdr \<Longrightarrow> records_at (ans_msg hdr a1) (a_sz a) (a_sz a1) rs" by blast+
  have sm: "small (a_sz a1 + length (enc ls) + sizeof_rr_hdr_t + length (fields_bytes fs))"
    using \<open>a_sz a1 < 2 ^ 31\<close> added_rr.hyps(2,4) fs(2)
    by (simp add: small_def dns_name_def DNSNAMEBUFSIZE_def sizeof_rr_hdr_t_def)
  have rec: "record_at (ans_msg hdr a2) (a_sz a1) (a_sz a2 - a_sz a1) ls type ttl fs" if "length hdr = sizeof_dns_hdr" for hdr
    using that IH(1) fs(3) sm added_rr.hyps(4) fs(2) unfolding ans_ok_def record_added_def by blast
  have "records_at (ans_msg hdr a2) (a_sz a) (a_sz a2) (rs @ [(ls, type, ttl, d)])" if h: "length hdr = sizeof_dns_hdr" for hdr
  proof (rule records_at_snoc)
    show "records_at (ans_msg hdr a2) (a_sz a) (a_sz a1) rs"
      unfolding ans_msg_continues [OF s1 a2(1,2)] by (rule records_at_append [OF IH(3) [OF h]])
    show "records_at (ans_msg hdr a2) (a_sz a1) (a_sz a2) [(ls, type, ttl, d)]"
      using rec [OF h] fs(1,2) a2(3) by (auto intro!: exI [of _ "a_sz a2 - a_sz a1"] exI [of _ fs])
  qed
  moreover have "record_ok (ls, type, ttl, d)" using added_rr.hyps by simp
  ultimately show ?case using IH(2) ans_ok_added(1) [OF IH(1) fs(3) sm] added_rr.hyps(4) fs(2) by simp
qed simp

text \<open>The parser's loop over the records of a message.\<close>

lemma records_at_loop:
  assumes "records_at msg off end rs" and "list_all record_ok rs" and "p_ptr p = off" and "p_lcnt p = end - off"
    and "arr_ok (p_centa p)" and "distinct (rrset_l (p_st p))" and "mem (p_st p) = []"
  shows "\<exists>ds centa. list_all2 same_record rs ds \<and> arr_ok centa \<and>
    arr_recs centa = arr_recs (p_centa p) \<union> set (map2 parsed_as rs ds) \<and>
    arr_ttl centa = fold ttl_read rs (arr_ttl (p_centa p)) \<and>
    rrs_loop (length rs) msg (length msg) fl queryts p =
      Some (p_retval p, p\<lparr>p_centa := centa, p_ptr := end, p_lcnt := 0\<rparr>)"
  using assms
proof (induction rs arbitrary: off p)
  case Nil
  then show ?case by (intro exI [of _ "[]"] exI [of _ "p_centa p"]) simp
next
  case (Cons r rs)
  obtain ls type ttl d where r: "r = (ls, type, ttl, d)" by (cases r)
  with Cons.prems(1) obtain len fs where f: "rdata_fields type fs" "d = fields_bytes fs"
    "record_at msg off len ls type ttl fs" "records_at msg (off + len) end rs" by auto
  have ok: "dns_name ls" "type < 2 ^ 16" "\<not> PDNSD_NOT_CACHED_TYPE (int type)" "type \<noteq> T_OPT" "list_all record_ok rs"
    using Cons.prems(2) r by simp_all
  have le: "len \<le> p_lcnt p" using records_at_le [OF f(4)] Cons.prems(4) by simp
  from record_at_step [OF f(3) ok(1) f(1) ok(2-4) Cons.prems(3) le Cons.prems(5-7), of fl queryts] obtain fs' centa where
    s: "same_fields fs' fs" "arr_ok centa" "arr_recs centa = insert (map tolower (enc ls), type, fields_bytes fs') (arr_recs (p_centa p))"
      "arr_ttl centa = ttls_with (map tolower (enc ls)) type (uint ttl) (arr_ttl (p_centa p))"
      "rrs_step msg (length msg) fl queryts p = Some (None, p\<lparr>p_centa := centa, p_ptr := off + len, p_lcnt := p_lcnt p - len\<rparr>)"
    by blast
  let ?p = "p\<lparr>p_centa := centa, p_ptr := off + len, p_lcnt := p_lcnt p - len\<rparr>"
  have "p_ptr ?p = off + len" "p_lcnt ?p = end - (off + len)" "arr_ok (p_centa ?p)" "distinct (rrset_l (p_st ?p))" "mem (p_st ?p) = []"
    using Cons.prems s(2) by simp_all
  from Cons.IH [OF f(4) ok(5) this] obtain ds centa' where
    t: "list_all2 same_record rs ds" "arr_ok centa'"
      "arr_recs centa' = arr_recs (p_centa ?p) \<union> set (map2 parsed_as rs ds)"
      "arr_ttl centa' = fold ttl_read rs (arr_ttl (p_centa ?p))"
      "rrs_loop (length rs) msg (length msg) fl queryts ?p = Some (p_retval ?p, ?p\<lparr>p_centa := centa', p_ptr := end, p_lcnt := 0\<rparr>)"
    by blast
  have "same_rdata type (fields_bytes fs') d" using s(1) f(1,2) by (auto simp: same_rdata_def)
  with t s r show ?case
    by (intro exI [of _ "fields_bytes fs' # ds"] exI [of _ centa']) simp
qed

text \<open>
  C8: what \<open>add_rr\<close> composes, \<open>rrs2cent\<close> reads, provided no record was left out (a record left out
  for lack of space can make later names unreadable: a finding). Let a message whose names can be
  read back (in particular, a message without names) have records of cached types added by any
  number of calls that succeed and all make the message longer. Then the parser, started on the
  new part of the message with the number of the records and with memory, returns \<open>RC_OK\<close>, has
  passed over exactly the new part, and has cached exactly these records, each under its name and
  type, with data that differ from the record's at most in the case of letters of names in them;
  each record set has as its time to live the least one of its records.
\<close>
theorem composed_records_parsed:
  assumes "added a rs a'" and "ans_ok a" and "a_sz a' < 2 ^ 31"
    and "p_ptr p = a_sz a" and "p_lcnt p = a_sz a' - a_sz a"
    and "arr_ok (p_centa p)" and "distinct (rrset_l (p_st p))" and "mem (p_st p) = []"
  shows "\<exists>ds p'. rrs2cent (take (a_sz a') (a_buf a')) (a_sz a') (length rs) fl queryts p = Some (RC_OK, p') \<and>
    p_ptr p' = a_sz a' \<and> p_lcnt p' = 0 \<and> p_st p' = p_st p \<and> arr_ok (p_centa p') \<and>
    list_all2 same_record rs ds \<and>
    arr_recs (p_centa p') = arr_recs (p_centa p) \<union> set (map2 parsed_as rs ds) \<and>
    arr_ttl (p_centa p') = fold ttl_read rs (arr_ttl (p_centa p))"
proof -
  note add = added_records [OF assms(1-3)]
  then have safe: "ans_safe a'" by (simp add: ans_ok_def)
  let ?hdr = "take sizeof_dns_hdr (a_buf a')" and ?msg = "take (a_sz a') (a_buf a')"
  have hdr: "length ?hdr = sizeof_dns_hdr" "ans_msg ?hdr a' = ?msg" "length ?msg = a_sz a'"
    using safe append_take_drop_id [of sizeof_dns_hdr ?msg] by (simp_all add: ans_safe_def ans_msg_def min_def)
  with add have at: "records_at ?msg (a_sz a) (a_sz a') rs" "list_all record_ok rs" by metis+
  let ?p = "p\<lparr>p_retval := RC_OK\<rparr>"
  have "p_ptr ?p = a_sz a" "p_lcnt ?p = a_sz a' - a_sz a" "arr_ok (p_centa ?p)" "distinct (rrset_l (p_st ?p))" "mem (p_st ?p) = []"
    using assms(4-8) by simp_all
  from records_at_loop [OF at this, of fl queryts] obtain ds centa where r: "list_all2 same_record rs ds" "arr_ok centa"
    "arr_recs centa = arr_recs (p_centa p) \<union> set (map2 parsed_as rs ds)"
    "arr_ttl centa = fold ttl_read rs (arr_ttl (p_centa p))"
    "rrs2cent ?msg (a_sz a') (length rs) fl queryts p = Some (RC_OK, ?p\<lparr>p_centa := centa, p_ptr := a_sz a', p_lcnt := 0\<rparr>)"
    unfolding rrs2cent_def hdr(3) by auto
  then show ?thesis
    by (intro exI [of _ ds] exI [of _ "?p\<lparr>p_centa := centa, p_ptr := a_sz a', p_lcnt := 0\<rparr>"]) simp
qed

text \<open>An empty message, with space for 64 bytes.\<close>

definition demo_answer :: answer where
  "demo_answer = \<lparr>a_buf = replicate 64 0, a_sz = sizeof_dns_hdr, a_cb = [], a_st = init_cache 5 0 0 0 0 []\<rparr>"

lemma demo_answer_ok: "ans_ok demo_answer"
  by (auto simp: ans_ok_def ans_safe_def ans_reads_def demo_answer_def sizeof_dns_hdr_def intro: cb_inv.intros)

lemma two_steps:
  assumes "do { (ok, a) \<leftarrow> F; (ok2, a2) \<leftarrow> G a; Some (ok, f a, ok2, f a2) } = Some (b, x, b2, y)"
  shows "\<exists>a a2. F = Some (b, a) \<and> f a = x \<and> G a = Some (b2, a2) \<and> f a2 = y"
  using assms by (auto split: bind_splits)

lemma demo_sizes:
  "do { (ok, a) \<leftarrow> add_rr [1, 97, 0] T_A 60 [10, 0, 0, 1] S_ANSWER None demo_answer;
     (ok2, a2) \<leftarrow> add_rr [1, 97, 0] T_A 60 [10, 0, 0, 2] S_ANSWER None a; Some (ok, a_sz a, ok2, a_sz a2) } =
   Some (True, 29, True, 45)"
  by code_simp

lemma demo_added:
  obtains a2 where "added demo_answer [([[97]], T_A, 60, [10, 0, 0, 1]), ([[97]], T_A, 60, [10, 0, 0, 2])] a2" "a_sz a2 = 45"
proof -
  from two_steps [where f = a_sz, OF demo_sizes] obtain a1 a2 where
    a: "add_rr [1, 97, 0] T_A 60 [10, 0, 0, 1] S_ANSWER None demo_answer = Some (True, a1)" "a_sz a1 = 29"
      "add_rr [1, 97, 0] T_A 60 [10, 0, 0, 2] S_ANSWER None a1 = Some (True, a2)" "a_sz a2 = 45" by blast
  have n: "dns_name [[97 :: byte]]" "enc [[97 :: byte]] = [1, 97, 0]"
    by (simp_all add: dns_name_def DNSNAMEBUFSIZE_def)
  have c: "\<not> PDNSD_NOT_CACHED_TYPE (int T_A)" by code_simp
  have t: "T_A < 2 ^ 16" "\<not> PDNSD_NOT_CACHED_TYPE (int T_A)" "T_A \<noteq> T_OPT" using c by (simp_all add: type_num_defs T_OPT_def)
  have d: "rdata_ok T_A [10, 0, 0, x]" for x by (simp add: rdata_ok_def type_num_defs)
  have "added demo_answer ([] @ [([[97]], T_A, 60, [10, 0, 0, 1])]) a1"
    by (rule added_rr [OF added_none n(1) d _ t]) (use a n in \<open>simp_all add: demo_answer_def sizeof_dns_hdr_def\<close>)
  from added_rr [OF this n(1) d [of 2] _ t, of 60 S_ANSWER None a2] a n(2) that show thesis by simp
qed

theorem composed_records_parsed_witness:
  "\<exists>(a' :: answer) p'. a_sz a' = 45 \<and> rrs2cent (take 45 (a_buf a')) 45 2 0 5 \<lparr>p_ptr = 12, p_lcnt = 33, p_centa = None, p_numopt = 0,
     p_ep = \<lparr>ei_udpsize = 0, ei_rcode = 0, ei_version = 0, ei_do_flg = 0\<rparr>, p_retval = 0, p_st = init_cache 5 0 0 0 0 []\<rparr> =
     Some (RC_OK, p') \<and> p_ptr p' = 45"
proof -
  from demo_added obtain a2 where
    a: "added demo_answer [([[97]], T_A, 60, [10, 0, 0, 1]), ([[97]], T_A, 60, [10, 0, 0, 2])] a2" "a_sz a2 = 45" .
  let ?p = "\<lparr>p_ptr = 12, p_lcnt = 33, p_centa = None, p_numopt = 0,
     p_ep = \<lparr>ei_udpsize = 0, ei_rcode = 0, ei_version = 0, ei_do_flg = 0\<rparr>, p_retval = 0, p_st = init_cache 5 0 0 0 0 []\<rparr>"
  have "a_sz a2 < 2 ^ 31" "p_ptr ?p = a_sz demo_answer" "p_lcnt ?p = a_sz a2 - a_sz demo_answer"
    "arr_ok (p_centa ?p)" "distinct (rrset_l (p_st ?p))" "mem (p_st ?p) = []"
    by (simp_all add: a(2) demo_answer_def sizeof_dns_hdr_def init_cache_def)
  from composed_records_parsed [OF a(1) demo_answer_ok this, of 0 5] obtain p' where
    "rrs2cent (take (a_sz a2) (a_buf a2)) (a_sz a2) 2 0 5 ?p = Some (RC_OK, p')" "p_ptr p' = a_sz a2"
    by (auto simp: numeral_2_eq_2)
  with a(2) show ?thesis by (auto intro!: exI [of _ a2])
qed


text \<open>
  A record that is left out leaves its names in the list of compressed names, although their
  bytes are no longer part of the message. Here the first address record of \<open>abcdefgh\<close> is too
  long for 30 bytes and is left out; the second one has its owner written as a pointer, fits, and the
  pointer leads to itself.
\<close>
lemma left_out_name_is_used:
  "do { (ok, a) \<leftarrow> add_rr [8, 97, 98, 99, 100, 101, 102, 103, 104, 0] T_A 60 [10, 0, 0, 1] S_ADDITIONAL (Some 30) demo_answer;
     (ok2, a2) \<leftarrow> add_rr [8, 97, 98, 99, 100, 101, 102, 103, 104, 0] T_A 60 [10, 0, 0, 2] S_ADDITIONAL (Some 30) a;
     Some (ok, a_sz a, ok2, a_sz a2, take 2 (drop 12 (a_buf a2))) } = Some (True, 12, True, 28, [0xc0, 12])"
  by code_simp

end
