(* ===== verification/Answer_Compose.thy ===== *)
theory Answer_Compose
  imports Answer_Rr Rr_Access Cache_Lookup
begin

text \<open>
  The composition of answers in \<open>dns_answer.c\<close>, upper half: the record sets of cache entries are
  added to the answer, with lists of the records already present and of those that may be added
  to the authority and additional sections, up to the whole answer to a query
  (\<open>compose_answer\<close>).
\<close>

subsection \<open>State\<close>

text \<open>
  \<open>sva_t\<close> and \<open>rr_ext_t\<close>. The members without fixed size, \<open>nm\<close> and \<open>tnm\<close>, are the memory of the list
  item from there on: a name and the data, and the data and (for NS and SOA) a name.
\<close>

record sva_t =
  sv_tp :: nat
  sv_dlen :: nat
  sv_nm :: bytes

record rr_ext_t =
  re_tp :: nat
  re_tsz :: nat
  re_ttl :: "32 word"
  re_tnm :: bytes

text \<open>
  The variables of \<open>compose_answer\<close> that the functions called by it change: the answer with the
  list of compressed names and the cache, the lists \<open>sva\<close> and \<open>ar\<close>, \<open>rcode\<close>, \<open>aa\<close>. \<open>k_rnd\<close> are the
  results of the coming calls of \<open>random\<close>, \<open>k_calls\<close> is the number of questions resolved before.
\<close>

record compose =
  k_ans :: answer
  k_sva :: "sva_t list"
  k_ar :: "rr_ext_t list"
  k_rcode :: nat
  k_aa :: bool
  k_rnd :: "nat list"
  k_calls :: nat

text \<open>The configuration \<open>global\<close>.\<close>

record answer_conf =
  rnd_recs :: bool
  udpbufsize :: nat

definition MAX_HOPS :: nat where "MAX_HOPS = 20"
definition QC_ALL :: nat where "QC_ALL = 255"
definition RRETP_ADD :: nat where "RRETP_ADD = 0"

definition k_cache :: "compose \<Rightarrow> cache" where
  "k_cache k = a_st (k_ans k)"

definition set_cache :: "cache \<Rightarrow> compose \<Rightarrow> compose" where
  "set_cache st k = k\<lparr>k_ans := (k_ans k)\<lparr>a_st := st\<rparr>\<rparr>"

text \<open>Calls of the functions of the lower half.\<close>

definition with_ans :: "(answer \<Rightarrow> (bool \<times> answer) option) \<Rightarrow> compose \<Rightarrow> (bool \<times> compose) option" where
  "with_ans f k = do { (ok, a) \<leftarrow> f (k_ans k); Some (ok, k\<lparr>k_ans := a\<rparr>) }"

text \<open>\<open>if (!f) return 0; g\<close>.\<close>

definition andthen ::
    "(compose \<Rightarrow> (bool \<times> compose) option) \<Rightarrow> (compose \<Rightarrow> (bool \<times> compose) option) \<Rightarrow> compose \<Rightarrow> (bool \<times> compose) option" where
  "andthen f g k = do { (ok, k1) \<leftarrow> f k; if ok then g k1 else Some (False, k1) }"

definition skip :: "compose \<Rightarrow> (bool \<times> compose) option" where
  "skip k = Some (True, k)"

subsection \<open>The lists\<close>

definition sva_add :: "bytes \<Rightarrow> nat \<Rightarrow> bytes \<Rightarrow> compose \<Rightarrow> (bool \<times> compose) option" where
  "sva_add rhn tp data k = do {
     rlen \<leftarrow> rhnlen rhn;
     let (ok, st1) = malloc (k_cache k);
     let k1 = set_cache st1 k;
     if \<not> ok then Some (False, k1\<lparr>k_sva := []\<rparr>)
     else do {
       nm \<leftarrow> rd_all rhn 0 rlen;
       Some (True, k1\<lparr>k_sva := k_sva k1 @ [\<lparr>sv_tp = tp, sv_dlen = length data, sv_nm = nm @ data\<rparr>]\<rparr>)
     }
   }"

definition add_ar :: "nat \<Rightarrow> 16 word \<Rightarrow> bytes \<Rightarrow> bytes \<Rightarrow> 32 word \<Rightarrow> compose \<Rightarrow> (bool \<times> compose) option" where
  "add_ar tp tsz tnm nm ttl k = do {
     nmsz \<leftarrow> (if tp = T_NS \<or> tp = T_SOA then rhnlen nm else Some 0);
     let (ok, st1) = malloc (k_cache k);
     let k1 = set_cache st1 k;
     if \<not> ok then Some (False, k1\<lparr>k_ar := []\<rparr>)
     else do {
       t \<leftarrow> rd_all tnm 0 (unat tsz);
       n \<leftarrow> rd_all nm 0 nmsz;
       Some (True, k1\<lparr>k_ar := k_ar k1 @ [\<lparr>re_tp = tp, re_tsz = unat tsz, re_ttl = ttl, re_tnm = t @ n\<rparr>]\<rparr>)
     }
   }"

definition ans_ttl :: "rr_set \<Rightarrow> int \<Rightarrow> int" where
  "ans_ttl rrset queryts =
     (if \<not> has (rs_flags rrset) CF_LOCAL then max 0 (rs_ttl rrset - max 0 (queryts - rs_ts rrset))
      else rs_ttl rrset)"

text \<open>The result is the copied name, if there is a CNAME record.\<close>

definition follow_cname_chain :: "dns_cent \<Rightarrow> bytes \<Rightarrow> bytes option option" where
  "follow_cname_chain c name = do {
     s \<leftarrow> getrrset_X c T_CNAME;
     case s of None \<Rightarrow> Some None
     | Some rrset \<Rightarrow>
         (case rs_rrs rrset of [] \<Rightarrow> Some None
          | data # _ \<Rightarrow>
              if \<not> length data \<le> DNSNAMEBUFSIZE then None
              else do { name' \<leftarrow> wr_all name 0 data; Some (Some name') })
   }"

text \<open>
  \<open>randrr\<close> selects a record of a list by its position. A loop that starts there wraps around at the
  end and stops before it comes back to the start, so it visits the records in the order \<open>rr_order\<close>.
\<close>

definition randrr :: "bytes list \<Rightarrow> compose \<Rightarrow> nat \<times> compose" where
  "randrr rrs k =
     (if rrs = [] then (0, k)
      else case k_rnd k of [] \<Rightarrow> (0, k) | r # rs \<Rightarrow> (r mod length rrs, k\<lparr>k_rnd := rs\<rparr>))"

definition rr_order :: "bool \<Rightarrow> bytes list \<Rightarrow> compose \<Rightarrow> bytes list \<times> compose" where
  "rr_order rnd rrs k =
     (if rnd then (let (i, k1) = randrr rrs k in (drop i rrs @ take i rrs, k1)) else (rrs, k))"

subsection \<open>Record sets\<close>

definition ar_recs :: "nat list" where "ar_recs = [T_NS, T_MD, T_MF, T_MB, T_MX, T_SRV]"
definition ar_offs :: "nat list" where "ar_offs = [0, 0, 0, 0, 2, 6]"

text \<open>One record of a set, in \<open>add_rrset\<close>.\<close>

definition add_rrset_rr ::
    "bytes \<Rightarrow> nat \<Rightarrow> 32 word \<Rightarrow> nat option \<Rightarrow> bytes \<Rightarrow> compose \<Rightarrow> (bool \<times> compose) option" where
  "add_rrset_rr rrn tp ttl udp data =
     andthen (with_ans (add_rr rrn tp ttl data S_ANSWER udp))
     (andthen (if tp = T_NS \<or> tp = T_A \<or> tp = T_AAAA then sva_add rrn tp data else skip)
       (\<lambda>k. case map_of (zip ar_recs ar_offs) tp of None \<Rightarrow> skip k
        | Some offs \<Rightarrow> if length data < offs then None
            else add_ar RRETP_ADD (of_nat (length data - offs)) (drop offs data) [0] 0 k))"

fun add_all :: "(bytes \<Rightarrow> compose \<Rightarrow> (bool \<times> compose) option) \<Rightarrow> bytes list \<Rightarrow> compose \<Rightarrow> (bool \<times> compose) option" where
  "add_all f [] k = Some (True, k)"
| "add_all f (d # ds) k = andthen (f d) (add_all f ds) k"

definition add_rrset ::
    "answer_conf \<Rightarrow> bytes \<Rightarrow> nat \<Rightarrow> int \<Rightarrow> dns_cent \<Rightarrow> nat option \<Rightarrow> compose \<Rightarrow> (bool \<times> compose) option" where
  "add_rrset cf rrn tp queryts cached udp k = do {
     s \<leftarrow> getrrset cached (int tp);
     case s of None \<Rightarrow> Some (True, k)
     | Some crrset \<Rightarrow>
         if rs_rrs crrset = [] then Some (True, k)
         else (let (rrs, k1) = rr_order (rnd_recs cf) (rs_rrs crrset) k in
           add_all (add_rrset_rr rrn tp (of_int (ans_ttl crrset queryts)) udp) rrs k1)
   }"

fun add_rrsets ::
    "answer_conf \<Rightarrow> bytes \<Rightarrow> nat list \<Rightarrow> int \<Rightarrow> dns_cent \<Rightarrow> nat option \<Rightarrow> compose \<Rightarrow> (bool \<times> compose) option" where
  "add_rrsets cf rrn [] queryts cached udp k = Some (True, k)"
| "add_rrsets cf rrn (tp # tps) queryts cached udp k =
     andthen (add_rrset cf rrn tp queryts cached udp) (add_rrsets cf rrn tps queryts cached udp) k"

text \<open>\<open>qtype>=T_MIN && qtype<=T_MAX && have_rr(cached,qtype)\<close>.\<close>

definition has_qtype :: "dns_cent \<Rightarrow> nat \<Rightarrow> bool option" where
  "has_qtype cached qtype = (if T_MIN \<le> qtype \<and> qtype \<le> T_MAX then have_rr cached qtype else Some False)"

definition add_to_response ::
    "answer_conf \<Rightarrow> bytes \<Rightarrow> nat \<Rightarrow> int \<Rightarrow> dns_cent \<Rightarrow> nat option \<Rightarrow> compose \<Rightarrow> (bool \<times> compose) option" where
  "add_to_response cf rrn qtype queryts cached udp k = do {
     have \<leftarrow> (if qtype \<noteq> T_CNAME \<and> qtype \<noteq> QT_ALL then has_qtype cached qtype else Some True);
     (ok, k1) \<leftarrow> (if \<not> have then add_rrset cf rrn T_CNAME queryts cached udp k else Some (True, k));
     if \<not> ok then Some (False, k1)
     else if qtype = QT_AXFR \<or> qtype = QT_IXFR then Some (False, k1)
     else if qtype = QT_MAILB then add_rrsets cf rrn [T_MB, T_MG, T_MR] queryts cached udp k1
     else if qtype = QT_MAILA then add_rrsets cf rrn [T_MD, T_MF] queryts cached udp k1
     else if qtype = QT_ALL then do {
       n \<leftarrow> NRRITERLIST cached;
       iterlist \<leftarrow> RRITERLIST cached;
       types \<leftarrow> rd_all iterlist 0 n;
       add_rrsets cf rrn types queryts cached udp k1
     }
     else if T_MIN \<le> qtype \<and> qtype \<le> T_MAX then add_rrset cf rrn qtype queryts cached udp k1
     else Some (False, k1)
   }"

subsection \<open>Additional records\<close>

text \<open>The search for a record in the list \<open>sva\<close>.\<close>

fun already_added :: "bytes \<Rightarrow> nat \<Rightarrow> bytes \<Rightarrow> sva_t list \<Rightarrow> bool option" where
  "already_added rhn tp data [] = Some False"
| "already_added rhn tp data (st # sva) = do {
     same \<leftarrow> (if sv_tp st = tp then rhnicmp (sv_nm st) rhn else Some False);
     same' \<leftarrow> (if same \<and> sv_dlen st = length data then do {
         p \<leftarrow> skiprhn (sv_nm st) 0;
         d \<leftarrow> rd_all (sv_nm st) p (length data);
         Some (d = data)
       } else Some False);
     if same' then Some True else already_added rhn tp data sva
   }"

definition add_additional_rr ::
    "bytes \<Rightarrow> nat \<Rightarrow> 32 word \<Rightarrow> rr_section \<Rightarrow> nat option \<Rightarrow> bytes \<Rightarrow> compose \<Rightarrow> (bool \<times> compose) option" where
  "add_additional_rr rhn tp ttl sect udp data k = do {
     dup \<leftarrow> already_added rhn tp data (k_sva k);
     if dup then Some (True, k)
     else andthen (with_ans (add_rr rhn tp ttl data sect udp)) (sva_add rhn tp data) k
   }"

definition add_additional_rrs ::
    "answer_conf \<Rightarrow> bytes \<Rightarrow> nat \<Rightarrow> 32 word \<Rightarrow> bytes list \<Rightarrow> rr_section \<Rightarrow> nat option \<Rightarrow> compose \<Rightarrow> (bool \<times> compose) option" where
  "add_additional_rrs cf rhn tp ttl rrb sect udp k =
     (let (rrs, k1) = rr_order (rnd_recs cf) rrb k in add_all (add_additional_rr rhn tp ttl sect udp) rrs k1)"

text \<open>The records of one set of an entry, if there are any.\<close>

definition add_additional_set ::
    "answer_conf \<Rightarrow> bytes \<Rightarrow> nat \<Rightarrow> int \<Rightarrow> dns_cent \<Rightarrow> nat option \<Rightarrow> compose \<Rightarrow> (bool \<times> compose) option" where
  "add_additional_set cf rhn tp queryts ae udp k = do {
     s \<leftarrow> getrrset_X ae tp;
     case s of None \<Rightarrow> Some (True, k)
     | Some rrset \<Rightarrow>
         if rs_rrs rrset = [] then Some (True, k)
         else add_additional_rrs cf rhn tp (of_int (ans_ttl rrset queryts)) (rs_rrs rrset) S_ADDITIONAL udp k
   }"

text \<open>\<open>lookup_cache(name,NULL)\<close>, and freeing the copy of an entry.\<close>

definition lookup_copy :: "bytes \<Rightarrow> compose \<Rightarrow> (dns_cent option \<times> compose) option" where
  "lookup_copy name k = do { (ae, w, st1) \<leftarrow> lookup_cache name False (k_cache k); Some (ae, set_cache st1 k) }"

definition free_copy :: "dns_cent \<Rightarrow> compose \<Rightarrow> compose option" where
  "free_copy c k = do { st1 \<leftarrow> free_cent c (k_cache k); Some (set_cache st1 k) }"

definition add_additional_a ::
    "answer_conf \<Rightarrow> bytes \<Rightarrow> int \<Rightarrow> nat option \<Rightarrow> compose \<Rightarrow> (bool \<times> compose) option" where
  "add_additional_a cf rhn queryts udp k = do {
     (ae, k1) \<leftarrow> lookup_copy rhn k;
     case ae of None \<Rightarrow> Some (True, k1)
     | Some c \<Rightarrow> do {
         (retval, k2) \<leftarrow> andthen (add_additional_set cf rhn T_A queryts c udp)
           (add_additional_set cf rhn T_AAAA queryts c udp) k1;
         k3 \<leftarrow> free_copy c k2;
         Some (retval, k3)
       }
   }"

subsection \<open>The question section\<close>

text \<open>\<open>dns_queryel_t\<close>.\<close>

record dns_queryel =
  qe_qtype :: "16 word"
  qe_qclass :: "16 word"
  qe_query :: bytes

definition answer_hdr :: "dns_hdr \<Rightarrow> dns_hdr" where
  "answer_hdr hdr = \<lparr>h_id = h_id hdr, h_rd = h_rd hdr, h_tc = False, h_aa = False, h_opcode = 0, h_qr = True,
     h_rcode = of_nat RC_OK, h_cd = False, h_ad = False, h_z = False, h_ra = True,
     h_qdcount = 0, h_ancount = 0, h_nscount = 0, h_arcount = 0\<rparr>"

definition new_answer :: "dns_hdr \<Rightarrow> cache \<Rightarrow> answer" where
  "new_answer hdr st =
     \<lparr>a_buf = bytes_of_hdr (answer_hdr hdr) @ replicate (ALLOCINITIALSIZE - dnsmsghdroffset - sizeof_dns_hdr) 0,
      a_sz = sizeof_dns_hdr, a_cb = [], a_st = st\<rparr>"

definition put_question :: "dns_queryel \<Rightarrow> answer \<Rightarrow> (bool \<times> answer) option" where
  "put_question qe a = do {
     len \<leftarrow> rhnlen (qe_query qe);
     let (ok, a1) = grow_ans (dnsmsghdroffset + a_sz a + len + 4) a;
     if \<not> ok then Some (False, a1)
     else do {
       (qclen, a2) \<leftarrow> put_name (qe_query qe) a1;
       if qclen = 0 then Some (False, a2)
       else do {
         (b1, p1) \<leftarrow> PUTINT16 (qe_qtype qe) (a_buf a2) (a_sz a2);
         (b2, p2) \<leftarrow> PUTINT16 (qe_qclass qe) b1 p1;
         b3 \<leftarrow> count_up 4 b2;
         Some (True, a2\<lparr>a_buf := b3, a_sz := a_sz a2 + 4\<rparr>)
       }
     }
   }"

fun put_questions :: "dns_queryel list \<Rightarrow> compose \<Rightarrow> (bool \<times> compose) option" where
  "put_questions [] k = Some (True, k)"
| "put_questions (qe # ql) k = andthen (with_ans (put_question qe)) (put_questions ql) k"

text \<open>A query that cannot be answered.\<close>

definition unsupported :: "dns_queryel \<Rightarrow> bool" where
  "unsupported qe \<longleftrightarrow>
     PDNSD_NOT_CACHED_TYPE (uint (qe_qtype qe)) \<and>
       (unat (qe_qtype qe) \<noteq> QT_MAILB \<and> unat (qe_qtype qe) \<noteq> QT_MAILA \<and> unat (qe_qtype qe) \<noteq> QT_ALL) \<or>
     unat (qe_qclass qe) \<noteq> C_IN \<and> unat (qe_qclass qe) \<noteq> QC_ALL"

subsection \<open>The answer section\<close>

text \<open>
  \<open>dns_cached_resolve\<close>, which asks the cache and then the servers, is a parameter: from the number
  of calls before, the name, the query type, \<open>c_soa\<close> and the cache it makes the return code, the entry,
  \<open>c_soa\<close> and the cache after the call.
\<close>

type_synonym resolver = "nat \<Rightarrow> bytes \<Rightarrow> nat \<Rightarrow> byte \<Rightarrow> cache \<Rightarrow> nat \<times> dns_cent option \<times> byte \<times> cache"

text \<open>How the loop goes on: \<open>goto error_ans\<close>, \<open>goto cleanup_return\<close>, the end of the loop for a question, another round.\<close>

datatype outcome = To_error | To_return | Answered | Again bytes

text \<open>\<open>ans->hdr.rcode=rcode=rc\<close> and \<open>ans->hdr.aa=1\<close>.\<close>

definition set_rcode :: "nat \<Rightarrow> compose \<Rightarrow> compose option" where
  "set_rcode rc k = do {
     g \<leftarrow> rd (a_buf (k_ans k)) 3;
     b \<leftarrow> wr (a_buf (k_ans k)) 3 ((g AND 0xf0) OR (of_nat rc AND 0xf));
     Some (k\<lparr>k_ans := (k_ans k)\<lparr>a_buf := b\<rparr>, k_rcode := rc\<rparr>)
   }"

definition set_aa :: "compose \<Rightarrow> compose option" where
  "set_aa k = do {
     f \<leftarrow> rd (a_buf (k_ans k)) 2;
     b \<leftarrow> wr (a_buf (k_ans k)) 2 (f OR 4);
     Some (k\<lparr>k_ans := (k_ans k)\<lparr>a_buf := b\<rparr>\<rparr>)
   }"

definition add_opt :: "answer_conf \<Rightarrow> edns_info option \<Rightarrow> compose \<Rightarrow> (bool \<times> compose) option" where
  "add_opt cf ednsinfo k = (case ednsinfo of None \<Rightarrow> Some (True, k)
     | Some ep \<Rightarrow> with_ans (add_opt_pseudo_rr (of_nat (udpbufsize cf)) (of_nat (k_rcode k)) 0 0) k)"

text \<open>The end of a name: \<open>skipsegs(name, scnt-n)\<close>.\<close>

definition last_segs :: "bytes \<Rightarrow> nat \<Rightarrow> nat \<Rightarrow> bytes option" where
  "last_segs name scnt n = do { p \<leftarrow> skipsegs name 0 (scnt - n); Some (drop p name) }"

text \<open>For a name that does not exist: the SOA record of the zone in the authority section.\<close>

definition add_soa :: "bytes \<Rightarrow> byte \<Rightarrow> int \<Rightarrow> nat option \<Rightarrow> compose \<Rightarrow> (bool \<times> compose) option" where
  "add_soa name soa queryts udp k =
     (if soa = cundef then Some (True, k)
      else do {
        scnt \<leftarrow> rhnsegcnt name;
        if \<not> unat soa < scnt then Some (True, k)
        else do {
          nm \<leftarrow> last_segs name scnt (unat soa);
          (cached, k1) \<leftarrow> lookup_copy nm k;
          case cached of None \<Rightarrow> Some (True, k1)
          | Some c \<Rightarrow> do {
              s \<leftarrow> getrrset_X c T_SOA;
              (ok, k2) \<leftarrow> (case s of None \<Rightarrow> Some (True, k1)
                | Some rrset \<Rightarrow> if has (rs_flags rrset) CF_NEGATIVE then Some (True, k1)
                    else add_all (\<lambda>d. with_ans (add_rr (qname c) T_SOA (of_int (ans_ttl rrset queryts)) d S_AUTHORITY udp))
                      (rs_rrs rrset) k1);
              k3 \<leftarrow> free_copy c k2;
              Some (ok, k3)
            }
        }
      })"

definition resolve_failed ::
    "answer_conf \<Rightarrow> edns_info option \<Rightarrow> nat option \<Rightarrow> int \<Rightarrow> bytes \<Rightarrow> nat \<Rightarrow> byte \<Rightarrow> compose \<Rightarrow> (outcome \<times> compose) option" where
  "resolve_failed cf ednsinfo udp queryts name rc soa k = do {
     k1 \<leftarrow> set_rcode rc k;
     (ok, k2) \<leftarrow> (if rc = RC_NAMEERR then andthen (add_soa name soa queryts udp) (add_opt cf ednsinfo) k1
       else Some (True, k1));
     Some (if ok then To_return else To_error, k2)
   }"

subsection \<open>The authority records of an answer\<close>

definition not_negative :: "rr_set option \<Rightarrow> rr_set option" where
  "not_negative s = (case s of None \<Rightarrow> None | Some rrset \<Rightarrow> if has (rs_flags rrset) CF_NEGATIVE then None else Some rrset)"

definition set_of :: "dns_cent option \<Rightarrow> nat \<Rightarrow> rr_set option option" where
  "set_of c tp = (case c of None \<Rightarrow> Some None | Some ce \<Rightarrow> getrrset ce (int tp))"

definition free_opt :: "dns_cent option \<Rightarrow> compose \<Rightarrow> compose option" where
  "free_opt c k = (case c of None \<Rightarrow> Some k | Some ce \<Rightarrow> free_copy ce k)"

text \<open>\<open>T_SOA\<close> if the answer has no record of the requested type.\<close>

definition auth_type :: "dns_cent \<Rightarrow> nat \<Rightarrow> nat option" where
  "auth_type c qtype = do {
     found \<leftarrow>
       (if T_MIN \<le> qtype \<and> qtype \<le> T_MAX then have_rr c qtype
        else if qtype = QT_MAILB then do {
          a \<leftarrow> have_rr_X c T_MB; b \<leftarrow> have_rr_X c T_MG; d \<leftarrow> have_rr_X c T_MR; Some (a \<or> b \<or> d) }
        else if qtype = QT_MAILA then do { a \<leftarrow> have_rr_X c T_MD; b \<leftarrow> have_rr_X c T_MF; Some (a \<or> b) }
        else Some True);
     Some (if found then T_NS else T_SOA)
   }"

text \<open>The set of that type for the name or, if there is none, for a domain the name is in.\<close>

definition authority_set ::
    "dns_cent \<Rightarrow> nat \<Rightarrow> compose \<Rightarrow> (rr_set option \<times> dns_cent option \<times> compose) option" where
  "authority_set c rretp k = do {
     s \<leftarrow> getrrset c (int rretp);
     if not_negative s \<noteq> None then Some (not_negative s, Some c, k)
     else do {
       scnt \<leftarrow> rhnsegcnt (qname c);
       let tcnt = (if rretp = T_NS then c_ns c else c_soa c);
       nm \<leftarrow> (if tcnt \<noteq> cundef \<and> unat tcnt < scnt then last_segs (qname c) scnt (unat tcnt) else Some (qname c));
       (cached, k1) \<leftarrow> lookup_copy nm k;
       s1 \<leftarrow> set_of cached rretp;
       owner \<leftarrow> (if not_negative s1 = None \<and> has (ce_flags c) DF_LOCAL then getlocalowner (qname c) rretp (k_cache k1)
         else Some None);
       (s2, cached2, k2) \<leftarrow> (case owner of None \<Rightarrow> Some (not_negative s1, cached, k1)
         | Some p \<Rightarrow> do {
             k2 \<leftarrow> free_opt cached k1;
             (cached2, k3) \<leftarrow> lookup_copy (drop p (qname c)) k2;
             s2 \<leftarrow> set_of cached2 rretp;
             Some (s2, cached2, k3)
           });
       k3 \<leftarrow> free_copy c k2;
       Some (s2, cached2, k3)
     }
   }"

definition add_authority_set :: "int \<Rightarrow> nat \<Rightarrow> rr_set option \<Rightarrow> dns_cent option \<Rightarrow> compose \<Rightarrow> (bool \<times> compose) option" where
  "add_authority_set queryts rretp s cached k =
     (case s of None \<Rightarrow> Some (True, k)
      | Some rrset \<Rightarrow> do {
          c \<leftarrow> cached;
          add_all (\<lambda>d. add_ar rretp (of_nat (length d)) d (qname c) (of_int (ans_ttl rrset queryts))) (rs_rrs rrset) k
        })"

subsection \<open>compose_answer\<close>

text \<open>The body of the \<open>do\<close> loop for a question.\<close>

definition answer_step ::
    "answer_conf \<Rightarrow> resolver \<Rightarrow> bool \<Rightarrow> edns_info option \<Rightarrow> nat option \<Rightarrow> int \<Rightarrow> nat \<Rightarrow> bytes \<Rightarrow> compose \<Rightarrow>
     (outcome \<times> compose) option" where
  "answer_step cf resolve rdflag ednsinfo udp queryts qtype name k =
     (let (rc, cached, soa, st1) = resolve (k_calls k) name qtype cundef (k_cache k);
          k1 = set_cache st1 (k\<lparr>k_calls := k_calls k + 1\<rparr>) in
      if rc \<noteq> RC_OK then resolve_failed cf ednsinfo udp queryts name rc soa k1
      else do {
        c \<leftarrow> cached;
        let k2 = (if has (ce_flags c) DF_LOCAL then k1 else k1\<lparr>k_aa := False\<rparr>);
        (ok, k3) \<leftarrow> add_to_response cf name qtype queryts c udp k2;
        if \<not> ok then do { k4 \<leftarrow> free_copy c k3; Some (To_error, k4) }
        else do {
          have \<leftarrow> (if rdflag \<and> qtype \<noteq> T_CNAME \<and> qtype \<noteq> QT_ALL then has_qtype c qtype else Some True);
          next_name \<leftarrow> (if have then Some None else follow_cname_chain c name);
          case next_name of
            Some name' \<Rightarrow> do { k4 \<leftarrow> free_copy c k3; Some (Again name', k4) }
          | None \<Rightarrow> do {
              rretp \<leftarrow> auth_type c qtype;
              (s, cached', k4) \<leftarrow> authority_set c rretp k3;
              (ok', k5) \<leftarrow> add_authority_set queryts rretp s cached' k4;
              k6 \<leftarrow> free_opt cached' k5;
              Some (if ok' then Answered else To_error, k6)
            }
        }
      })"

text \<open>The loop; the first argument is the number of rounds left, \<open>MAX_HOPS+1\<close> at first.\<close>

fun answer_rounds ::
    "nat \<Rightarrow> answer_conf \<Rightarrow> resolver \<Rightarrow> bool \<Rightarrow> edns_info option \<Rightarrow> nat option \<Rightarrow> int \<Rightarrow> nat \<Rightarrow> bytes \<Rightarrow> compose \<Rightarrow>
     (outcome \<times> compose) option" where
  "answer_rounds 0 cf resolve rdflag ednsinfo udp queryts qtype name k = Some (Answered, k)"
| "answer_rounds (Suc n) cf resolve rdflag ednsinfo udp queryts qtype name k = do {
     (r, k1) \<leftarrow> answer_step cf resolve rdflag ednsinfo udp queryts qtype name k;
     case r of Again name' \<Rightarrow> answer_rounds n cf resolve rdflag ednsinfo udp queryts qtype name' k1
     | _ \<Rightarrow> Some (r, k1)
   }"

fun answer_questions ::
    "answer_conf \<Rightarrow> resolver \<Rightarrow> bool \<Rightarrow> edns_info option \<Rightarrow> nat option \<Rightarrow> int \<Rightarrow> dns_queryel list \<Rightarrow> compose \<Rightarrow>
     (outcome \<times> compose) option" where
  "answer_questions cf resolve rdflag ednsinfo udp queryts [] k = Some (Answered, k)"
| "answer_questions cf resolve rdflag ednsinfo udp queryts (qe # ql) k = do {
     (n, name) \<leftarrow> rhncpy (replicate DNSNAMEBUFSIZE 0) 0 (qe_query qe);
     (r, k1) \<leftarrow> answer_rounds (MAX_HOPS + 1) cf resolve rdflag ednsinfo udp queryts (unat (qe_qtype qe)) name k;
     case r of Answered \<Rightarrow> answer_questions cf resolve rdflag ednsinfo udp queryts ql k1
     | _ \<Rightarrow> Some (r, k1)
   }"

text \<open>The loops over the list \<open>ar\<close> for the authority section and for the addresses.\<close>

fun add_authority :: "nat option \<Rightarrow> rr_ext_t list \<Rightarrow> compose \<Rightarrow> (bool \<times> compose) option" where
  "add_authority udp [] k = Some (True, k)"
| "add_authority udp (rre # ar) k =
     andthen (\<lambda>k. if re_tp rre = T_NS \<or> re_tp rre = T_SOA then do {
          data \<leftarrow> rd_all (re_tnm rre) 0 (re_tsz rre);
          add_additional_rr (drop (re_tsz rre) (re_tnm rre)) (re_tp rre) (re_ttl rre) S_AUTHORITY udp data k
        } else Some (True, k))
      (add_authority udp ar) k"

fun add_addresses :: "answer_conf \<Rightarrow> int \<Rightarrow> nat option \<Rightarrow> rr_ext_t list \<Rightarrow> compose \<Rightarrow> (bool \<times> compose) option" where
  "add_addresses cf queryts udp [] k = Some (True, k)"
| "add_addresses cf queryts udp (rre # ar) k =
     andthen (\<lambda>k. if re_tp rre = T_NS \<or> re_tp rre = RRETP_ADD then add_additional_a cf (re_tnm rre) queryts udp k
        else Some (True, k))
      (add_addresses cf queryts udp ar) k"

definition add_additional :: "answer_conf \<Rightarrow> edns_info option \<Rightarrow> nat option \<Rightarrow> int \<Rightarrow> compose \<Rightarrow> (bool \<times> compose) option" where
  "add_additional cf ednsinfo udp queryts k =
     (if (case udp of None \<Rightarrow> False | Some u \<Rightarrow> u < a_sz (k_ans k) + sizeof_opt_pseudo_rr) then Some (True, k)
      else andthen (add_opt cf ednsinfo) (add_addresses cf queryts udp (k_ar k)) k)"

definition finish_answer :: "answer_conf \<Rightarrow> edns_info option \<Rightarrow> nat option \<Rightarrow> int \<Rightarrow> compose \<Rightarrow> (outcome \<times> compose) option" where
  "finish_answer cf ednsinfo udp queryts k = do {
     (ok, k1) \<leftarrow> andthen (add_authority udp (k_ar k)) (add_additional cf ednsinfo udp queryts) k;
     if \<not> ok then Some (To_error, k1)
     else do { k2 \<leftarrow> (if k_aa k1 then set_aa k1 else Some k1); Some (To_return, k2) }
   }"

definition compose_body ::
    "answer_conf \<Rightarrow> resolver \<Rightarrow> dns_queryel list \<Rightarrow> bool \<Rightarrow> edns_info option \<Rightarrow> nat option \<Rightarrow> int \<Rightarrow> compose \<Rightarrow>
     (outcome \<times> compose) option" where
  "compose_body cf resolve ql rdflag ednsinfo udp queryts k = do {
     (ok, k1) \<leftarrow> put_questions ql k;
     if \<not> ok then Some (To_error, k1)
     else if list_ex unsupported ql then do { k2 \<leftarrow> set_rcode RC_NOTSUPP k1; Some (To_return, k2) }
     else do {
       (r, k2) \<leftarrow> answer_questions cf resolve rdflag ednsinfo udp queryts ql k1;
       if r = Answered then finish_answer cf ednsinfo udp queryts k2 else Some (r, k2)
     }
   }"

text \<open>
  The result: the answer, unless it is \<open>NULL\<close>, the code for \<open>*rcodep\<close>, and the cache. The answer is
  the memory of the message and its length.
\<close>

definition compose_answer ::
    "answer_conf \<Rightarrow> resolver \<Rightarrow> dns_queryel list \<Rightarrow> dns_hdr \<Rightarrow> edns_info option \<Rightarrow> nat option \<Rightarrow> int \<Rightarrow> nat list \<Rightarrow> cache \<Rightarrow>
     ((bytes \<times> nat) option \<times> nat \<times> cache) option" where
  "compose_answer cf resolve ql hdr ednsinfo udp queryts rnd st =
     (let (ok, st1) = malloc st in
      if \<not> ok then Some (None, RC_OK, st1)
      else do {
        (r, k) \<leftarrow> compose_body cf resolve ql (h_rd hdr) ednsinfo udp queryts
          \<lparr>k_ans = new_answer hdr st1, k_sva = [], k_ar = [], k_rcode = RC_OK, k_aa = True, k_rnd = rnd, k_calls = 0\<rparr>;
        Some (if r = To_error then None else Some (a_buf (k_ans k), a_sz (k_ans k)), k_rcode k, k_cache k)
      })"

end
