(* ===== verification/Answer_Query.thy ===== *)
theory Answer_Query
  imports Answer_Compose
begin

text \<open>
  Reading queries in \<open>dns_answer.c\<close>: the questions (\<open>decode_query\<close>), the pseudo-record of EDNS
  (\<open>decode_query_additional\<close>), and \<open>process_query\<close>, which answers a message with an answer, an error
  reply or nothing.
\<close>

subsection \<open>Decoding\<close>

text \<open>
  \<open>decode_query\<close> goes through \<open>qdcount\<close> questions; the result is the return code, the list, the
  place after the questions and the length of the rest. The list is empty after \<open>llist_free\<close>, which
  \<open>llist_grow\<close> calls too when it fails.
\<close>

fun decode_questions ::
    "nat \<Rightarrow> bytes \<Rightarrow> nat \<Rightarrow> nat \<Rightarrow> nat \<Rightarrow> dns_queryel list \<Rightarrow> cache \<Rightarrow>
     (nat \<times> dns_queryel list \<times> nat \<times> nat \<times> cache) option" where
  "decode_questions 0 data rlen ptr sz qp st = Some (RC_OK, qp, ptr, sz, st)"
| "decode_questions (Suc n) data rlen ptr sz qp st = do {
     r \<leftarrow> decompress_name data rlen ptr sz (replicate DNSNAMEBUFSIZE 0);
     case r of
       Inl res \<Rightarrow> Some (res, if res = RC_TRUNC then qp else [], ptr, sz, st)
     | Inr (ptr1, sz1, qbuf, qlen) \<Rightarrow>
         if sz1 < 4 then Some (RC_TRUNC, qp, ptr1, sz1, st)
         else do {
           let (ok, st1) = malloc st;
           if \<not> ok then Some (RC_SERVFAIL, [], ptr1, sz1, st1)
           else do {
             (qtype, ptr2) \<leftarrow> GETINT16 data ptr1;
             (qclass, ptr3) \<leftarrow> GETINT16 data ptr2;
             query \<leftarrow> rd_all qbuf 0 qlen;
             decode_questions n data rlen ptr3 (sz1 - 4)
               (qp @ [\<lparr>qe_qtype = qtype, qe_qclass = qclass, qe_query = query\<rparr>]) st1
           }
         }
   }"

definition decode_query ::
    "bytes \<Rightarrow> nat \<Rightarrow> cache \<Rightarrow> (nat \<times> dns_queryel list \<times> nat \<times> nat \<times> cache) option" where
  "decode_query data rlen st = do {
     qdcount \<leftarrow> ntohs_at data 4;
     decode_questions (unat qdcount) data rlen sizeof_dns_hdr (rlen - sizeof_dns_hdr) [] st
   }"

text \<open>\<open>*numopt\<close> and \<open>*ep\<close> are results besides the return code.\<close>

fun decode_query_additional ::
    "nat \<Rightarrow> bytes \<Rightarrow> nat \<Rightarrow> nat \<Rightarrow> nat \<Rightarrow> nat \<Rightarrow> edns_info \<Rightarrow> (nat \<times> nat \<times> edns_info) option" where
  "decode_query_additional 0 data rlen ptr sz numopt ep = Some (RC_OK, numopt, ep)"
| "decode_query_additional (Suc numrr) data rlen ptr sz numopt ep = do {
     r \<leftarrow> decompress_name data rlen ptr sz (replicate DNSNAMEBUFSIZE 0);
     case r of
       Inl res \<Rightarrow> Some (res, numopt, ep)
     | Inr (ptr0, sz0, nmbuf, nmlen) \<Rightarrow>
         if sz0 < sizeof_rr_hdr_t then Some (RC_TRUNC, numopt, ep)
         else do {
           let sz1 = sz0 - sizeof_rr_hdr_t;
           (type, ptr1) \<leftarrow> GETINT16 data ptr0;
           (class, ttlp) \<leftarrow> GETINT16 data ptr1;
           (rdlen, ptr2) \<leftarrow> GETINT16 data (ttlp + 4);
           if sz1 < unat rdlen then Some (RC_TRUNC, numopt, ep)
           else do {
             (numopt', ep') \<leftarrow>
               (if unat type = T_OPT then
                  (if numopt = 0 then do {
                     rc \<leftarrow> msg_rcode data;
                     t0 \<leftarrow> rd data ttlp;
                     t1 \<leftarrow> rd data (ttlp + 1);
                     t2 \<leftarrow> rd data (ttlp + 2);
                     Some (1, \<lparr>ei_udpsize = class, ei_rcode = push_bit 4 (ucast t0) OR ucast rc,
                       ei_version = ucast t1, ei_do_flg = drop_bit 7 t2 AND 1\<rparr>)
                   }
                   else Some (numopt + 1, ep))
                else Some (numopt, ep));
             decode_query_additional numrr data rlen (ptr2 + unat rdlen) (sz1 - unat rdlen) numopt' ep'
           }
         }
   }"

subsection \<open>Error replies\<close>

text \<open>The opcode and the response code are stored in fields of 4 bits.\<close>

definition mk_error_reply :: "16 word \<Rightarrow> 16 word \<Rightarrow> nat \<Rightarrow> dns_hdr" where
  "mk_error_reply i opcode rescode = \<lparr>h_id = i, h_rd = False, h_tc = False, h_aa = False, h_opcode = ucast opcode,
     h_qr = True, h_rcode = of_nat rescode, h_cd = False, h_ad = False, h_z = False, h_ra = True,
     h_qdcount = 0, h_ancount = 0, h_nscount = 0, h_arcount = 0\<rparr>"

text \<open>
  A reply: the memory of the message and its length, unless it is \<open>NULL\<close>, the code for \<open>*rcodep\<close> if
  that is set, \<open>*udp\<close>, and the cache.
\<close>

record reply =
  r_ans :: "(bytes \<times> nat) option"
  r_rcode :: "nat option"
  r_udp :: "nat option"
  r_cache :: cache

definition no_reply :: "nat option \<Rightarrow> cache \<Rightarrow> reply" where
  "no_reply udp st = \<lparr>r_ans = None, r_rcode = None, r_udp = udp, r_cache = st\<rparr>"

text \<open>
  The label \<open>error_reply\<close>. A code that does not fit in 4 bits needs an OPT record for its upper bits.
  The result of \<open>add_opt_pseudo_rr\<close> is ignored.
\<close>

definition error_reply :: "answer_conf \<Rightarrow> bytes \<Rightarrow> nat \<Rightarrow> nat \<Rightarrow> nat option \<Rightarrow> cache \<Rightarrow> reply option" where
  "error_reply cf data rlen res udp st = do {
     let (ok, st1) = malloc st;
     let ext = (of_nat res :: 32 word) AND NOT 0xf \<noteq> 0;
     if \<not> ok then Some \<lparr>r_ans = None, r_rcode = Some res, r_udp = udp, r_cache = st1\<rparr>
     else do {
       i \<leftarrow> ntohs_at data 0;
       opcode \<leftarrow> (if 3 \<le> rlen then do { f \<leftarrow> rd data 2; Some (ucast (ucast (drop_bit 3 f) :: 4 word)) } else Some 0);
       let a = \<lparr>a_buf = bytes_of_hdr (mk_error_reply i opcode res) @ (if ext then replicate sizeof_opt_pseudo_rr 0 else []),
         a_sz = sizeof_dns_hdr, a_cb = [], a_st = st1\<rparr>;
       (ok', a') \<leftarrow> (if ext then add_opt_pseudo_rr (of_nat (udpbufsize cf)) (of_nat res) 0 0 a else Some (True, a));
       Some \<lparr>r_ans = Some (a_buf a', a_sz a'), r_rcode = Some res, r_udp = udp, r_cache = a_st a'\<rparr>
     }
   }"

subsection \<open>process_query\<close>

definition UDP_BUFSIZE :: nat where "UDP_BUFSIZE = 512"

text \<open>What is done before the questions are read; \<open>Inl\<close> for a return or a jump to \<open>error_reply\<close>.\<close>

datatype verdict = Discard | Error nat | Accept

definition check_header :: "bytes \<Rightarrow> nat \<Rightarrow> verdict option" where
  "check_header data rlen =
     (if rlen < 2 then Some Discard
      else if rlen < sizeof_dns_hdr then Some (Error RC_FORMAT)
      else do {
        hdr \<leftarrow> hdr_of_bytes data;
        Some (if h_qr hdr then Discard
          else if h_opcode hdr \<noteq> 0 then Error RC_NOTSUPP
          else if h_z hdr then Error RC_FORMAT
          else if h_rcode hdr \<noteq> of_nat RC_OK then Discard
          else if h_ancount hdr \<noteq> 0 then Error RC_FORMAT
          else if h_nscount hdr \<noteq> 0 then Error RC_FORMAT
          else Accept)
      })"

text \<open>The additional section: an error, or the information of the OPT record and \<open>*udp\<close>.\<close>

definition check_edns ::
    "answer_conf \<Rightarrow> bytes \<Rightarrow> nat \<Rightarrow> nat \<Rightarrow> nat \<Rightarrow> dns_hdr \<Rightarrow> nat \<Rightarrow> nat option \<Rightarrow> (nat + edns_info option \<times> nat option) option" where
  "check_edns cf data rlen ptr sz hdr res udp =
     (if h_arcount hdr = 0 then Some (Inr (None, udp))
      else if res = RC_TRUNC then Some (Inl RC_FORMAT)
      else do {
        (res', numoptrr, ep) \<leftarrow> decode_query_additional (unat (h_arcount hdr)) data rlen ptr sz 0
          \<lparr>ei_udpsize = 0, ei_rcode = 0, ei_version = 0, ei_do_flg = 0\<rparr>;
        Some (if \<not> (res' = RC_OK \<or> res' = RC_TRUNC \<and> h_tc hdr) then Inl RC_FORMAT
          else if numoptrr = 0 then Inr (None, udp)
          else if ei_version ep \<noteq> 0 then Inl RC_BADVERS
          else if ei_rcode ep \<noteq> 0 then Inl RC_FORMAT
          else Inr (Some ep, case udp of None \<Rightarrow> None
            | Some u \<Rightarrow> if UDP_BUFSIZE < unat (ei_udpsize ep) then
                Some (if unat (ei_udpsize ep) < udpbufsize cf then unat (ei_udpsize ep) else udpbufsize cf)
              else Some u))
      })"

definition process_query ::
    "answer_conf \<Rightarrow> resolver \<Rightarrow> int \<Rightarrow> nat list \<Rightarrow> bytes \<Rightarrow> nat \<Rightarrow> nat option \<Rightarrow> cache \<Rightarrow> reply option" where
  "process_query cf resolve queryts rnd data rlen udp st = do {
     v \<leftarrow> check_header data rlen;
     case v of Discard \<Rightarrow> Some (no_reply udp st)
     | Error res \<Rightarrow> error_reply cf data rlen res udp st
     | Accept \<Rightarrow> do {
         hdr \<leftarrow> hdr_of_bytes data;
         (res, ql, ptr, sz, st1) \<leftarrow> decode_query data rlen st;
         if res = RC_TRUNC \<and> (\<not> h_tc hdr \<or> ql = []) then error_reply cf data rlen RC_FORMAT udp st1
         else if res \<noteq> RC_OK \<and> res \<noteq> RC_TRUNC then error_reply cf data rlen res udp st1
         else do {
           e \<leftarrow> check_edns cf data rlen ptr sz hdr res udp;
           case e of Inl res' \<Rightarrow> error_reply cf data rlen res' udp st1
           | Inr (ednsinfo, udp') \<Rightarrow>
               if ql = [] then error_reply cf data rlen RC_FORMAT udp' st1
               else do {
                 (ans, rcode, st2) \<leftarrow> compose_answer cf resolve ql hdr ednsinfo udp' queryts rnd st1;
                 case ans of None \<Rightarrow> error_reply cf data rlen RC_SERVFAIL udp' st2
                 | Some a \<Rightarrow> Some \<lparr>r_ans = Some a, r_rcode = Some rcode, r_udp = udp', r_cache = st2\<rparr>
               }
         }
       }
   }"

end
