(* ===== verification/Answer_Opt.thy ===== *)
theory Answer_Opt
  imports Answer_Records Answer_Query
begin

text \<open>
  The pseudo-record of EDNS: what \<open>add_opt_pseudo_rr\<close> writes, that \<open>remove_opt_pseudo_rr\<close> takes it
  away again, and that \<open>decode_query_additional\<close> reads its fields back.
\<close>

definition opt_bytes :: "16 word \<Rightarrow> 16 word \<Rightarrow> byte \<Rightarrow> 16 word \<Rightarrow> bytes" where
  "opt_bytes udpsize rcode ver z =
     [0] @ be16 (of_nat T_OPT) @ be16 udpsize @ [ucast (drop_bit 4 rcode)] @ [ver] @ be16 z @ be16 0"

lemma length_opt_bytes [simp]: "length (opt_bytes u r v z) = sizeof_opt_pseudo_rr"
  by (simp add: opt_bytes_def sizeof_opt_pseudo_rr_def sizeof_rr_hdr_t_def)

lemma put_next: "i' = i + length vs \<Longrightarrow> i + length vs + length ws \<le> length b \<Longrightarrow>
    put (put b i vs) i' ws = put b i (vs @ ws)"
  using put_put by blast

text \<open>The writes of \<open>add_opt_pseudo_rr\<close> from offset \<open>i\<close> on.\<close>

lemma opt_writes:
  assumes "i + 11 \<le> length b"
  shows "do {
        b0 \<leftarrow> wr b i 0;
        (b1, p1) \<leftarrow> PUTINT16 (of_nat T_OPT) b0 (i + 1);
        (b2, p2) \<leftarrow> PUTINT16 u b1 p1;
        b3 \<leftarrow> wr b2 p2 (ucast (drop_bit 4 r));
        b4 \<leftarrow> wr b3 (p2 + 1) v;
        (b5, p5) \<leftarrow> PUTINT16 z b4 (p2 + 2);
        (b6, p6) \<leftarrow> PUTINT16 0 b5 p5;
        F b6 } = F (put b i (opt_bytes u r v z))"
proof -
  let ?o1 = "[0] @ be16 (of_nat T_OPT)" and ?x = "[ucast (drop_bit 4 r)] :: bytes"
  have p: "put (put b i [0]) (i + 1) (be16 (of_nat T_OPT)) = put b i ?o1"
    "put (put b i ?o1) (i + 3) (be16 u) = put b i (?o1 @ be16 u)"
    "put (put b i (?o1 @ be16 u)) (i + 5) ?x = put b i ((?o1 @ be16 u) @ ?x)"
    "put (put b i ((?o1 @ be16 u) @ ?x)) (i + 6) [v] = put b i (((?o1 @ be16 u) @ ?x) @ [v])"
    "put (put b i (((?o1 @ be16 u) @ ?x) @ [v])) (i + 7) (be16 z) = put b i ((((?o1 @ be16 u) @ ?x) @ [v]) @ be16 z)"
    "put (put b i ((((?o1 @ be16 u) @ ?x) @ [v]) @ be16 z)) (i + 9) (be16 0) = put b i (opt_bytes u r v z)"
    using assms by (subst put_next; simp add: opt_bytes_def)+
  have e: "i + 5 + 1 = i + 6" by simp
  have w1: "wr b i 0 = Some (put b i [0])" using assms by (simp add: wr_put)
  have w2: "PUTINT16 (of_nat T_OPT) (put b i [0]) (i + 1) = Some (put b i ?o1, i + 3)"
    using assms PUTINT16_put [of "i + 1" "put b i [0]" "of_nat T_OPT"] p(1) by simp
  have w3: "PUTINT16 u (put b i ?o1) (i + 3) = Some (put b i (?o1 @ be16 u), i + 5)"
    using assms PUTINT16_put [of "i + 3" "put b i ?o1" u] p(2) by simp
  have w4: "wr (put b i (?o1 @ be16 u)) (i + 5) (ucast (drop_bit 4 r)) = Some (put b i ((?o1 @ be16 u) @ ?x))"
    using assms wr_put [of "i + 5" "put b i (?o1 @ be16 u)" "ucast (drop_bit 4 r)"] p(3) by simp
  have w5': "wr (put b i ((?o1 @ be16 u) @ ?x)) (i + 6) v = Some (put b i (((?o1 @ be16 u) @ ?x) @ [v]))"
    using assms wr_put [of "i + 6" "put b i ((?o1 @ be16 u) @ ?x)" v] p(4) by simp
  have w5: "wr (put b i ((?o1 @ be16 u) @ ?x)) (i + 5 + 1) v = Some (put b i (((?o1 @ be16 u) @ ?x) @ [v]))"
    unfolding e by (rule w5')
  have e6: "i + 5 + 2 = i + 7" "i + 7 + 2 = i + 9" by simp_all
  have "PUTINT16 z (put b i (((?o1 @ be16 u) @ ?x) @ [v])) (i + 7) =
      Some (put (put b i (((?o1 @ be16 u) @ ?x) @ [v])) (i + 7) (be16 z), i + 7 + 2)"
    using assms by (intro PUTINT16_put) simp
  then have w6: "PUTINT16 z (put b i (((?o1 @ be16 u) @ ?x) @ [v])) (i + 5 + 2) =
      Some (put b i ((((?o1 @ be16 u) @ ?x) @ [v]) @ be16 z), i + 9)"
    unfolding e6 p(5) .
  have w7: "PUTINT16 0 (put b i ((((?o1 @ be16 u) @ ?x) @ [v]) @ be16 z)) (i + 9) = Some (put b i (opt_bytes u r v z), i + 11)"
    using assms PUTINT16_put [of "i + 9" "put b i ((((?o1 @ be16 u) @ ?x) @ [v]) @ be16 z)" 0] p(6) by simp
  show ?thesis unfolding w1 w2 w3 w4 w5 w6 w7 bind.bind_lunit prod.case ..
qed

lemma add_opt_cases:
  assumes a: "ans_safe a"
  obtains (failed) a' where "add_opt_pseudo_rr u r v z a = Some (False, a')" "\<exists>m. a_st a' = a_st a\<lparr>mem := m\<rparr>"
    "length (a_buf a) < a_sz a + sizeof_opt_pseudo_rr"
  | (added) a' n where "add_opt_pseudo_rr u r v z a = Some (True, a')" "ans_safe a'" "ans_continues a a'"
    "a_sz a' = a_sz a + sizeof_opt_pseudo_rr" "ntohs_at (a_buf a) 10 = Some n"
    "take (a_sz a') (a_buf a') = put (take (a_sz a) (a_buf a)) 10 (be16 (n + 1)) @ opt_bytes u r v z" "a_cb a' = a_cb a"
    "a_sz a + sizeof_opt_pseudo_rr \<le> length (a_buf a) \<Longrightarrow> a_st a' = a_st a \<and> length (a_buf a') = length (a_buf a)"
proof -
  from grow_ansE [OF a, of "dnsmsghdroffset + a_sz a + sizeof_opt_pseudo_rr"] obtain ok a1 where
    g: "grow_ans (dnsmsghdroffset + a_sz a + sizeof_opt_pseudo_rr) a = (ok, a1)" "ans_safe a1" "ans_continues a a1" "a_sz a1 = a_sz a"
    "a_cb a1 = a_cb a" "ok \<Longrightarrow> dnsmsghdroffset + a_sz a + sizeof_opt_pseudo_rr \<le> dnsmsghdroffset + length (a_buf a1)"
    "take (a_sz a) (a_buf a1) = take (a_sz a) (a_buf a)" by blast
  have enough: "ok \<and> a1 = a" if "a_sz a + sizeof_opt_pseudo_rr \<le> length (a_buf a)"
    using g(1) that by (simp add: grow_ans_def allocsz_def)
  show thesis
  proof (cases ok)
    case False
    then have small: "length (a_buf a) < a_sz a + sizeof_opt_pseudo_rr" using enough by (meson not_le)
    from False g(1) have "add_opt_pseudo_rr u r v z a = Some (False, a1)" by (simp add: add_opt_pseudo_rr_def)
    moreover have "\<exists>m. a_st a1 = a_st a\<lparr>mem := m\<rparr>" using g(3) by (simp add: ans_continues_def)
    ultimately show thesis using small by (rule failed)
  next
    case True
    let ?i = "a_sz a" and ?o = "opt_bytes u r v z"
    have room: "?i + 11 \<le> length (a_buf a1)" using g(6) True by (simp add: sizeof_opt_pseudo_rr_def sizeof_rr_hdr_t_def)
    have sz: "12 \<le> ?i" using a by (simp add: ans_safe_def sizeof_dns_hdr_def)
    let ?b = "put (a_buf a1) ?i ?o"
    have lb: "length ?b = length (a_buf a1)" using room by (simp add: sizeof_opt_pseudo_rr_def sizeof_rr_hdr_t_def)
    then have "10 + 2 \<le> length ?b" using room sz by simp
    from count_up_put [OF this] obtain n where n: "ntohs_at ?b 10 = Some n" "count_up 10 ?b = Some (put ?b 10 (be16 (n + 1)))" .
    let ?b' = "put ?b 10 (be16 (n + 1))" and ?sz = "?i + sizeof_opt_pseudo_rr"
    let ?a' = "a1\<lparr>a_buf := ?b', a_sz := ?sz\<rparr>"
    have run: "add_opt_pseudo_rr u r v z a = Some (True, ?a')"
      unfolding add_opt_pseudo_rr_def g(1) Let_def prod.case
      using True opt_writes [OF room, of u r v z "\<lambda>b. do { b7 \<leftarrow> count_up 10 b; Some (True, a1\<lparr>a_buf := b7, a_sz := ?sz\<rparr>) }"] n(2) g(4)
      by simp
    have front: "take ?i ?b = take ?i (a_buf a)" using g(7) room a by (simp add: put_def ans_safe_def)
    have szb: "?sz \<le> length ?b" "?i \<le> length ?b" using room lb by (simp_all add: sizeof_opt_pseudo_rr_def sizeof_rr_hdr_t_def)
    have "ntohs_at (take ?i ?b) 10 = ntohs_at (take ?i (a_buf a)) 10" unfolding front ..
    then have n2: "ntohs_at (a_buf a) 10 = Some n"
      using n(1) ntohs_at_take [of 10 ?i ?b] ntohs_at_take [of 10 ?i "a_buf a"] sz szb(2) a by (simp add: ans_safe_def)
    have all: "take ?sz ?b = take ?i (a_buf a) @ ?o"
      using front take_put [of ?i "a_buf a1" ?o] room g(7) by simp
    have t: "take ?sz ?b' = put (take ?i (a_buf a)) 10 (be16 (n + 1)) @ ?o"
    proof -
      have "take ?sz ?b' = put (take ?sz ?b) 10 (be16 (n + 1))"
        using sz szb by (intro take_put_front) simp_all
      also have "\<dots> = put (take ?i (a_buf a)) 10 (be16 (n + 1)) @ ?o"
        unfolding all using sz a by (simp add: put_def ans_safe_def)
      finally show ?thesis .
    qed
    have len: "length ?b' = length (a_buf a1)" using lb szb sz by simp
    have fr: "drop sizeof_dns_hdr (take ?i ?b') = drop sizeof_dns_hdr (take ?i (a_buf a))"
    proof -
      have "take ?i ?b' = put (take ?i ?b) 10 (be16 (n + 1))" using sz szb by (intro take_put_front) simp_all
      then show ?thesis unfolding front using sz a by (simp add: drop_put sizeof_dns_hdr_def ans_safe_def)
    qed
    show thesis
    proof (rule added [of ?a' n])
      show "ans_safe ?a'" using g(2,4) len szb lb by (simp add: ans_safe_def)
      show "ans_continues a ?a'" using g(3) len fr by (simp add: ans_continues_def)
      show "a_st ?a' = a_st a \<and> length (a_buf ?a') = length (a_buf a)" if "a_sz a + sizeof_opt_pseudo_rr \<le> length (a_buf a)"
        using enough [OF that] len by simp
    qed (use run n2 t g(5) in simp_all)
  qed
qed

subsection \<open>Taking it away\<close>

lemma ntohs_at_append: "ntohs_at b i = Some n \<Longrightarrow> ntohs_at (b @ x) i = Some n"
  by (auto simp: ntohs_at_def GETINT16_def rd_def nth_append split: if_splits bind_splits)

lemma ntohs_at_some: "ntohs_at b i = Some n \<Longrightarrow> i + 2 \<le> length b"
  by (auto simp: ntohs_at_def GETINT16_def rd_def split: if_splits bind_splits)

lemma split16: "be16 (push_bit 8 (ucast (x :: byte)) OR ucast (y :: byte)) = [x, y]"
proof -
  have "ucast (drop_bit 8 (push_bit 8 (ucast x) OR ucast y :: 16 word)) = x"
    by (rule bit_word_eqI) (auto simp: bit_simps dest: bit_imp_le_length)
  moreover have "ucast (push_bit 8 (ucast x) OR ucast y :: 16 word) = y"
    by (rule bit_word_eqI) (auto simp: bit_simps)
  ultimately show ?thesis by (simp add: be16_def)
qed

lemma put_ntohs_at:
  assumes "ntohs_at b i = Some n"
  shows "put b i (be16 n) = b"
proof -
  from assms have n: "i + 1 < length b" "n = push_bit 8 (ucast (b ! i)) OR ucast (b ! (i + 1))"
    by (auto simp: ntohs_at_def GETINT16_def rd_def split: if_splits bind_splits)
  have "b = take i b @ b ! i # b ! (i + 1) # drop (i + 2) b"
    using n(1) by (metis Cons_nth_drop_Suc Suc_eq_plus1 Suc_lessD add_2_eq_Suc' append_take_drop_id)
  then show ?thesis unfolding n(2) split16 by (simp add: put_def)
qed

text \<open>
  C16: \<open>remove_opt_pseudo_rr\<close> undoes \<open>add_opt_pseudo_rr\<close>: on a message to which an OPT record was added
  (and whose counter of additional records did not overflow) it returns the length the message
  had, and up to this length the message is, header included, what it was.
\<close>
theorem opt_add_remove:
  assumes "ans_safe a" and "ntohs_at (a_buf a) 10 \<noteq> Some 0xffff" and "add_opt_pseudo_rr u r v z a = Some (True, a')"
  shows "\<exists>m. remove_opt_pseudo_rr (take (a_sz a') (a_buf a')) (a_sz a') = Some (a_sz a, m) \<and>
    take (a_sz a) m = take (a_sz a) (a_buf a)"
  using assms(1)
proof (cases rule: add_opt_cases [where u = u and r = r and v = v and z = z])
  case (failed b)
  with assms(3) show ?thesis by simp
next
  case (added b n)
  let ?t = "take (a_sz a) (a_buf a)" and ?o = "opt_bytes u r v z"
  have sz: "12 \<le> a_sz a" "length ?t = a_sz a" using assms(1) by (simp_all add: ans_safe_def sizeof_dns_hdr_def)
  have a': "a_sz a' = a_sz a + 11" "take (a_sz a') (a_buf a') = put ?t 10 (be16 (n + 1)) @ ?o"
    using added(1,4,6) assms(3) by (simp_all add: sizeof_opt_pseudo_rr_def sizeof_rr_hdr_t_def)
  let ?b = "put ?t 10 (be16 (n + 1))"
  have lb: "length ?b = a_sz a" using sz by simp
  have "n \<noteq> - 1" using assms(2) added(5) by auto
  then have n1: "0 < n + 1" by (metis add.inverse_inverse eq_neg_iff_add_eq_0 word_neq_0_conv)
  have "rd_all ?b 10 (length (be16 (n + 1))) = Some (be16 (n + 1))" using sz by (intro rd_all_put) simp
  then have c: "ntohs_at ?b 10 = Some (n + 1)" by (simp add: ntohs_at_be)
  then have c': "ntohs_at (?b @ ?o) 10 = Some (n + 1)" by (rule ntohs_at_append)
  have ty: "rd_all (?b @ ?o) (a_sz a + 1) 2 = Some (be16 (of_nat T_OPT))" "rd (?b @ ?o) (a_sz a) = Some 0"
    using lb by (simp_all add: rd_all_def rd_def opt_bytes_def nth_append)
  have p: "PUTINT16 (n + 1 - 1) (?b @ ?o) 10 = Some (put (?b @ ?o) 10 (be16 n), 12)"
    using PUTINT16_put [of 10 "?b @ ?o" n] lb sz by simp
  have "remove_opt_pseudo_rr (?b @ ?o) (a_sz a + 11) = Some (a_sz a, put (?b @ ?o) 10 (be16 n))"
    using c' n1 ty(2) GETINT16_be [OF ty(1)] p sz
    by (simp add: remove_opt_pseudo_rr_def sizeof_dns_hdr_def sizeof_opt_pseudo_rr_def sizeof_rr_hdr_t_def T_OPT_def Let_def)
  moreover have "take (a_sz a) (put (?b @ ?o) 10 (be16 n)) = put ?b 10 (be16 n)"
    using take_put_front [of 10 "be16 n" "a_sz a" "?b @ ?o"] lb sz by simp
  moreover have "put ?b 10 (be16 n) = put ?t 10 (be16 n)" using sz by (simp add: put_def)
  moreover have "ntohs_at ?t 10 = Some n" using added(5) ntohs_at_take [of 10 "a_sz a" "a_buf a"] sz assms(1)
    by (simp add: ans_safe_def)
  then have "put ?t 10 (be16 n) = ?t" by (rule put_ntohs_at)
  ultimately show ?thesis unfolding a'(2) unfolding a'(1) by auto
qed

theorem opt_add_remove_witness:
  "\<exists>a' m. add_opt_pseudo_rr 1024 16 0 0 demo_answer = Some (True, a') \<and>
     remove_opt_pseudo_rr (take (a_sz a') (a_buf a')) (a_sz a') = Some (12, m)"
proof -
  have s: "ans_safe demo_answer" using demo_answer_ok by (simp add: ans_ok_def)
  have n: "ntohs_at (a_buf demo_answer) 10 = Some 0" by code_simp
  have "length (a_buf demo_answer) = 64" "a_sz demo_answer = 12" by (simp_all add: demo_answer_def sizeof_dns_hdr_def)
  with s obtain a' where a': "add_opt_pseudo_rr 1024 16 0 0 demo_answer = Some (True, a')"
    by (cases rule: add_opt_cases [where u = 1024 and r = 16 and v = 0 and z = 0])
      (auto simp: sizeof_opt_pseudo_rr_def sizeof_rr_hdr_t_def)
  have "ntohs_at (a_buf demo_answer) 10 \<noteq> Some 0xffff" using n by simp
  from opt_add_remove [OF s this a'] a' \<open>a_sz demo_answer = 12\<close> show ?thesis by auto
qed

subsection \<open>Reading it\<close>

lemma opt_read:
  assumes "rd p 3 = Some g"
  shows "decode_query_additional 1 (p @ opt_bytes u r v z) (length p + 11) (length p) 11 0 ep =
    Some (RC_OK, 1, \<lparr>ei_udpsize = u, ei_rcode = push_bit 4 (ucast (ucast (drop_bit 4 r) :: byte)) OR ucast (ucast g :: 4 word),
      ei_version = ucast v, ei_do_flg = drop_bit 7 (ucast (drop_bit 8 z)) AND 1\<rparr>)"
proof -
  let ?m = "p @ opt_bytes u r v z" and ?i = "length p"
  have len: "length ?m = ?i + 11" by (simp add: sizeof_opt_pseudo_rr_def sizeof_rr_hdr_t_def)
  have o: "?m = p @ [0] @ be16 (of_nat T_OPT) @ be16 u @ [ucast (drop_bit 4 r)] @ [v] @ be16 z @ be16 0"
    by (simp add: opt_bytes_def)
  have r0: "rd ?m ?i = Some 0" by (simp add: rd_def opt_bytes_def nth_append)
  have n: "name_at ?m 0 1 ?i []" using r0 by (rule na_end)
  have d: "dns_name ([] :: bytes list)" by (simp add: dns_name_def DNSNAMEBUFSIZE_def)
  from decompress_name_reads [OF n _ d, of 11 "replicate DNSNAMEBUFSIZE 0"] obtain db where
    dc: "decompress_name ?m (?i + 11) ?i 11 (replicate DNSNAMEBUFSIZE 0) = Some (Inr (?i + 1, 10, db, 1))"
    unfolding len by auto
  have "rd_all ?m (?i + 1) 2 = Some (be16 (of_nat T_OPT))" "rd_all ?m (?i + 3) 2 = Some (be16 u)" "rd_all ?m (?i + 9) 2 = Some (be16 0)"
    unfolding o by (simp_all add: rd_all_def)
  from this [THEN GETINT16_be] have g: "GETINT16 ?m (?i + 1) = Some (of_nat T_OPT, ?i + 3)" "GETINT16 ?m (?i + 3) = Some (u, ?i + 5)"
    "GETINT16 ?m (?i + 5 + 4) = Some (0, ?i + 11)" by (simp_all add: add.commute)
  have t: "rd ?m (?i + 5) = Some (ucast (drop_bit 4 r))" "rd ?m (?i + 6) = Some v" "rd ?m (?i + 7) = Some (ucast (drop_bit 8 z))"
    by (simp_all add: rd_def opt_bytes_def nth_append be16_def sizeof_opt_pseudo_rr_def sizeof_rr_hdr_t_def nth_Cons')
  have rc: "msg_rcode ?m = Some (ucast g)"
    using assms by (auto simp: msg_rcode_def rd_def nth_append split: if_splits)
  have ty: "unat (of_nat T_OPT :: 16 word) = T_OPT" by (simp add: T_OPT_def)
  show ?thesis
    using dc g t rc ty by (simp add: numeral_eq_Suc sizeof_rr_hdr_t_def Let_def)
qed

subsection \<open>Error replies\<close>

lemma bytes_of_hdr_arcount:
  "put (bytes_of_hdr h) 10 (be16 n) = bytes_of_hdr (h\<lparr>h_arcount := n\<rparr>)" "ntohs_at (bytes_of_hdr h) 10 = Some (h_arcount h)"
  "length (bytes_of_hdr h) = sizeof_dns_hdr"
proof -
  have b: "bytes_of_hdr h = take 10 (bytes_of_hdr h) @ be16 (h_arcount h)" by (simp add: bytes_of_hdr_def be16_def)
  show "put (bytes_of_hdr h) 10 (be16 n) = bytes_of_hdr (h\<lparr>h_arcount := n\<rparr>)"
    by (simp add: bytes_of_hdr_def be16_def put_def)
  show "length (bytes_of_hdr h) = sizeof_dns_hdr" by (simp add: bytes_of_hdr_def sizeof_dns_hdr_def)
  have "rd_all (bytes_of_hdr h) 10 2 = Some (be16 (h_arcount h))" by (simp add: rd_all_def bytes_of_hdr_def be16_def)
  then show "ntohs_at (bytes_of_hdr h) 10 = Some (h_arcount h)" by (rule ntohs_at_be)
qed

text \<open>The code of a reply: 4 bits in the header, 8 more in the OPT record, if there is one.\<close>

definition reply_code :: "bytes \<Rightarrow> nat option" where
  "reply_code msg = do {
     h \<leftarrow> hdr_of_bytes msg;
     if h_arcount h = 0 then Some (unat (h_rcode h))
     else do {
       (rc, n, ep) \<leftarrow> decode_query_additional (unat (h_arcount h)) msg (length msg) sizeof_dns_hdr (length msg - sizeof_dns_hdr) 0
         \<lparr>ei_udpsize = 0, ei_rcode = 0, ei_version = 0, ei_do_flg = 0\<rparr>;
       if rc = RC_OK \<and> n = 1 then Some (unat (ei_rcode ep)) else None
     }
   }"

lemma split_code:
  assumes "res < 4096"
  shows "push_bit 4 (ucast (ucast (drop_bit 4 (of_nat res :: 16 word)) :: byte)) OR ucast (of_nat res :: 4 word) = (of_nat res :: 16 word)"
proof (rule bit_word_eqI)
  fix n assume "n < LENGTH(16)"
  have hi: "\<not> bit (of_nat res :: 16 word) n" if "12 \<le> n"
  proof -
    have "res < 2 ^ n" using assms that power_increasing [of 12 n "2 :: nat"] by simp
    then have "\<not> bit res n" by (simp add: bit_iff_odd)
    then show ?thesis by (simp add: bit_of_nat_iff)
  qed
  show "bit (push_bit 4 (ucast (ucast (drop_bit 4 (of_nat res :: 16 word)) :: byte)) OR ucast (of_nat res :: 4 word) :: 16 word) n
      = bit (of_nat res :: 16 word) n"
    using hi \<open>n < LENGTH(16)\<close> by (cases "12 \<le> n") (auto simp: bit_simps not_less)
qed

lemma upper_bits:
  assumes "res < 4096"
  shows "(of_nat res :: 32 word) AND NOT 0xf \<noteq> 0 \<longleftrightarrow> \<not> res < 16"
proof -
  let ?x = "of_nat res :: 32 word"
  have m: "(0xf :: 32 word) = mask 4" by (simp add: mask_eq_exp_minus_1)
  have "?x AND NOT 0xf = 0 \<longleftrightarrow> take_bit 4 ?x = ?x"
    unfolding m take_bit_eq_mask by (auto simp: bit_eq_iff bit_simps)
  also have "\<dots> \<longleftrightarrow> unat (take_bit 4 ?x) = unat ?x" by (simp add: word_unat_eq_iff)
  also have "\<dots> \<longleftrightarrow> take_bit 4 (unat ?x) = unat ?x" by (simp only: unsigned_take_bit_eq)
  also have "\<dots> \<longleftrightarrow> res mod 16 = res" using assms by (simp add: unat_of_nat take_bit_eq_mod)
  finally show ?thesis by (auto simp: mod_eq_self_iff_div_eq_0)
qed

text \<open>What \<open>error_reply\<close> makes, whatever the code.\<close>

lemma error_reply_spec:
  assumes "2 \<le> rlen" and "rlen \<le> length data" and "res < 4096"
  shows "\<exists>r m. error_reply cf data rlen res udp st = Some r \<and> r_rcode r = Some res \<and> r_udp r = udp \<and> r_cache r = st\<lparr>mem := m\<rparr> \<and>
    (case r_ans r of None \<Rightarrow> \<not> fst (malloc st)
     | Some (buf, sz) \<Rightarrow> sz = (if res < 16 then 12 else 23) \<and> length buf = sz \<and> take 2 buf = take 2 data \<and>
         reply_code buf = Some res \<and>
         (\<exists>h. hdr_of_bytes buf = Some h \<and> h_qr h \<and> h_rcode h = of_nat res \<and> h_qdcount h = 0 \<and> h_ancount h = 0 \<and> h_nscount h = 0 \<and>
           h_arcount h = (if res < 16 then 0 else 1) \<and>
           (if rlen < 3 then h_opcode h = 0 else rd data 2 = Some x \<longrightarrow> h_opcode h = ucast (drop_bit 3 x))))"
proof -
  obtain ok m where m: "malloc st = (ok, st\<lparr>mem := m\<rparr>)" using malloc_step by blast
  have "\<exists>i. ntohs_at data 0 = Some i \<and> be16 i = take 2 data"
  proof -
    obtain c0 c1 t where d: "data = c0 # c1 # t"
      using assms(1,2) by (cases data; cases "tl data") auto
    then have "ntohs_at data 0 = Some (push_bit 8 (ucast c0) OR ucast c1)"
      by (simp add: ntohs_at_def GETINT16_def rd_def)
    with split16 [of c0 c1] d show ?thesis by (auto simp: numeral_2_eq_2)
  qed
  then obtain i where i: "ntohs_at data 0 = Some i" "be16 i = take 2 data" by blast
  note ext = upper_bits [OF assms(3)]
  obtain oc where oc: "(if 3 \<le> rlen then do { f \<leftarrow> rd data 2; Some (ucast (ucast (drop_bit 3 f) :: 4 word)) } else Some 0) = Some (oc :: 16 word)"
    "if rlen < 3 then (ucast oc :: 4 word) = 0 else rd data 2 = Some x \<longrightarrow> (ucast oc :: 4 word) = ucast (drop_bit 3 x)"
  proof (cases "3 \<le> rlen")
    case True
    with assms(2) obtain f where f: "rd data 2 = Some f" by (auto simp: rd_def)
    have "(ucast (ucast (ucast (drop_bit 3 f) :: 4 word) :: 16 word) :: 4 word) = ucast (drop_bit 3 f)"
      by (rule bit_word_eqI) (auto simp: bit_simps)
    with True f show thesis by (intro that [of "ucast (ucast (drop_bit 3 f) :: 4 word)"]) auto
  next
    case False
    then show thesis by (intro that [of 0]) auto
  qed
  let ?h = "mk_error_reply i oc res"
  have two: "take 2 (bytes_of_hdr h) = be16 (h_id h)" for h by (simp add: bytes_of_hdr_def be16_def)
  show ?thesis
  proof (cases ok)
    case False
    with m show ?thesis by (auto simp: error_reply_def Let_def intro!: exI [of _ m])
  next
    case True
    show ?thesis
    proof (cases "res < 16")
      case True
      let ?r = "\<lparr>r_ans = Some (bytes_of_hdr ?h, 12), r_rcode = Some res, r_udp = udp, r_cache = st\<lparr>mem := m\<rparr>\<rparr>"
      have "error_reply cf data rlen res udp st = Some ?r"
        using m \<open>ok\<close> i(1) ext True oc(1) by (simp add: error_reply_def Let_def sizeof_dns_hdr_def)
      moreover have "hdr_of_bytes (bytes_of_hdr ?h) = Some ?h" using hdr_roundtrip [of ?h "[]"] by simp
      moreover from this True have "reply_code (bytes_of_hdr ?h) = Some res"
        by (simp add: reply_code_def mk_error_reply_def unat_of_nat)
      ultimately show ?thesis
        using True two [of ?h] i(2) bytes_of_hdr_arcount(3) [of ?h] oc(2)
        by (intro exI [of _ ?r] exI [of _ m]) (simp add: mk_error_reply_def sizeof_dns_hdr_def)
    next
      case False
      let ?a = "\<lparr>a_buf = bytes_of_hdr ?h @ replicate sizeof_opt_pseudo_rr 0, a_sz = sizeof_dns_hdr, a_cb = [], a_st = st\<lparr>mem := m\<rparr>\<rparr>"
      have a: "ans_safe ?a" by (simp add: ans_safe_def bytes_of_hdr_arcount(3))
      have room: "a_sz ?a + sizeof_opt_pseudo_rr \<le> length (a_buf ?a)" by (simp add: bytes_of_hdr_arcount(3))
      from a show ?thesis
      proof (cases rule: add_opt_cases [where u = "of_nat (udpbufsize cf)" and r = "of_nat res" and v = 0 and z = 0])
        case (failed a')
        with room show ?thesis by simp
      next
        case (added a' n)
        let ?o = "opt_bytes (of_nat (udpbufsize cf)) (of_nat res) 0 0" and ?h1 = "?h\<lparr>h_arcount := 1\<rparr>"
        have n: "n = 0" using added(5) ntohs_at_append [OF bytes_of_hdr_arcount(2) [of ?h], of "replicate sizeof_opt_pseudo_rr 0"]
          by (simp add: mk_error_reply_def)
        have len: "a_sz a' = 23" "length (a_buf a') = 23" "a_st a' = st\<lparr>mem := m\<rparr>"
          using added(4) added(8) [OF room]
          by (simp_all add: bytes_of_hdr_arcount(3) sizeof_dns_hdr_def sizeof_opt_pseudo_rr_def sizeof_rr_hdr_t_def)
        have buf: "a_buf a' = bytes_of_hdr ?h1 @ ?o"
          using added(6) len n bytes_of_hdr_arcount(1) [of ?h 1] bytes_of_hdr_arcount(3) [of ?h] by simp
        let ?r = "\<lparr>r_ans = Some (a_buf a', a_sz a'), r_rcode = Some res, r_udp = udp, r_cache = a_st a'\<rparr>"
        have run: "error_reply cf data rlen res udp st = Some ?r"
          using m \<open>ok\<close> i(1) ext False oc(1) added(1) by (simp add: error_reply_def Let_def)
        have hdr: "hdr_of_bytes (a_buf a') = Some ?h1" unfolding buf by (rule hdr_roundtrip)
        have l1: "length (bytes_of_hdr ?h1) = 12" by (simp add: bytes_of_hdr_arcount(3) sizeof_dns_hdr_def)
        obtain g where g: "rd (bytes_of_hdr ?h1) 3 = Some g" using l1 by (auto simp: rd_def)
        have "rd (a_buf a') 3 = Some g" using g l1 by (simp add: buf rd_def nth_append)
        with hdr have gc: "ucast g = (of_nat res :: 4 word)"
          by (auto simp: hdr_of_bytes_def mk_error_reply_def split: bind_splits)
        from opt_read [OF g, of "of_nat (udpbufsize cf)" "of_nat res" 0 0 "\<lparr>ei_udpsize = 0, ei_rcode = 0, ei_version = 0, ei_do_flg = 0\<rparr>"]
        have "reply_code (a_buf a') = Some res"
          using hdr len(2) l1 split_code [OF assms(3)] gc assms(3)
          by (simp add: reply_code_def buf sizeof_dns_hdr_def sizeof_opt_pseudo_rr_def sizeof_rr_hdr_t_def unat_of_nat
            del: decode_query_additional.simps)
        moreover have "take 2 (a_buf a') = take 2 data" using two [of ?h1] l1 i(2) by (simp add: buf mk_error_reply_def)
        ultimately show ?thesis
          using run hdr len False oc(2) by (intro exI [of _ ?r] exI [of _ m]) (simp add: mk_error_reply_def)
      qed
    qed
  qed
qed

text \<open>
  C14: error replies say what they should. For a query of at least 2 bytes and a response code of
  at most 12 bits, \<open>error_reply\<close> reports the code through \<open>*rcodep\<close> and, unless there is no memory for
  it, makes a message of 12 bytes, or of 23 if the code needs more than 4 bits, that lies exactly in its memory: a
  response with the query's identification and opcode (0 if the query is shorter than 3 bytes)
  and no records but the OPT record, from which a client reads the code.
\<close>
theorem error_reply_code:
  assumes "2 \<le> rlen" and "rlen \<le> length data" and "res < 4096"
  shows "\<exists>r m. error_reply cf data rlen res udp st = Some r \<and> r_rcode r = Some res \<and> r_udp r = udp \<and> r_cache r = st\<lparr>mem := m\<rparr> \<and>
    (case r_ans r of None \<Rightarrow> \<not> fst (malloc st)
     | Some (buf, sz) \<Rightarrow> sz = (if res < 16 then 12 else 23) \<and> length buf = sz \<and> take 2 buf = take 2 data \<and>
         reply_code buf = Some res \<and>
         (\<exists>h. hdr_of_bytes buf = Some h \<and> h_qr h \<and> h_rcode h = of_nat res \<and> h_qdcount h = 0 \<and> h_ancount h = 0 \<and> h_nscount h = 0 \<and>
           h_arcount h = (if res < 16 then 0 else 1) \<and>
           (if rlen < 3 then h_opcode h = 0 else rd data 2 = Some x \<longrightarrow> h_opcode h = ucast (drop_bit 3 x))))"
  by (rule error_reply_spec [OF assms])

theorem error_reply_code_witness:
  "\<exists>r buf. error_reply \<lparr>rnd_recs = False, udpbufsize = 1024\<rparr> [0xab, 0xcd, 0x08] 3 RC_BADVERS None (init_cache 5 0 0 0 0 []) = Some r \<and>
     r_ans r = Some (buf, 23) \<and> take 2 buf = [0xab, 0xcd] \<and> reply_code buf = Some 16"
proof -
  have m: "fst (malloc (init_cache 5 0 0 0 0 []))" by (simp add: malloc_def init_cache_def)
  have "(2 :: nat) \<le> 3" "3 \<le> length [0xab, 0xcd, 0x08 :: byte]" "RC_BADVERS < 4096" by (simp_all add: RC_BADVERS_def)
  from error_reply_code [OF this, of "\<lparr>rnd_recs = False, udpbufsize = 1024\<rparr>" None "init_cache 5 0 0 0 0 []"] m show ?thesis
    by (fastforce simp: RC_BADVERS_def split: option.splits)
qed

end
