(* ===== verification/Cache_Data.thy ===== *)
theory Cache_Data
  imports Cache_Correct Dns_Parse_Cache
begin

text \<open>
  The records in the cache have the form of their type: the data the parser of messages lets
  through (\<open>rdata_ok\<close>) is all that is ever found in the cache, whatever operations are applied.
\<close>

subsection \<open>Typed entries\<close>

definition cent_data :: "dns_cent \<Rightarrow> bool" where
  "cent_data c \<longleftrightarrow> (\<forall>(tp, d) \<in> recs_of c. rdata_ok tp d)"

definition data_ok :: "cache \<Rightarrow> bool" where
  "data_ok st \<longleftrightarrow> (\<forall>a c. cents st a = Some c \<longrightarrow> cent_data c)"

text \<open>A copy of an entry.\<close>

definition copy_ok :: "dns_cent \<Rightarrow> bool" where
  "copy_ok c \<longleftrightarrow> cent_ok c \<and> detached c \<and> cent_data c"

lemma recs_of_detach: "body_ok (body c) \<Longrightarrow> recs_of (detach c) = recs_of c"
  by (auto simp: recs_of_def detach_def slots_detach length_slots cached_type_def)

lemma data_ok_pur:
  assumes "data_ok st" and "pur st st'"
  shows "data_ok st'"
  unfolding data_ok_def
proof (intro allI impI)
  fix a c' assume c': "cents st' a = Some c'"
  with assms(2) obtain c where c1: "cents st a = Some c" by (cases "cents st a") (auto simp: pur_def)
  with assms(2) have "case cents st' a of None \<Rightarrow> \<not> kept c | Some c' \<Rightarrow> pur_ent c c'" by (simp add: pur_def)
  with c1 c' have c: "cents st a = Some c" "pur_ent c c'" by simp_all
  have "recs_of c' \<subseteq> recs_of c"
    using c(2) by (fastforce simp: recs_of_def pur_ent_def cached_type_def)
  with c(1) assms(1) show "cent_data c'" by (fastforce simp: data_ok_def cent_data_def)
qed

lemma lookup_cache_copy:
  assumes "cache_inv st" and "data_ok st" and "dns_name nm"
  obtains ae w st' where "lookup_cache (enc nm @ q) wild st = Some (ae, w, st')" "cache_inv st'" "data_ok st'"
    "\<forall>c. ae = Some c \<longrightarrow> copy_ok c"
proof -
  from lookup_cache_spec [OF assms(1,3), of q wild] obtain cp st' where
    l: "lookup_cache (enc nm @ q) wild st = Some (cp, snd (find_ref st nm wild), st')"
      "lookup_result st (fst (find_ref st nm wild)) cp st'" by blast
  have p: "cache_inv st'" "pur st st'" using l(2) by (simp_all add: lookup_result_def)
  note d = data_ok_pur [OF assms(2) p(2)]
  have "copy_ok c" if "cp = Some c" for c
  proof -
    from l(2) that obtain a c0 where c0: "cents st' a = Some c0" "c = detach c0"
      by (auto simp: lookup_result_def split: option.splits if_splits)
    have ok: "cent_ok c0" using core_cent_ok c0(1) p(1) unfolding cache_inv_def by blast
    then have b: "body_ok (body c0)" by (simp add: cent_ok_def)
    have "cent_data c0" using d c0(1) by (simp add: data_ok_def)
    with ok c0(2) recs_of_detach [OF b] show ?thesis
      by (simp add: copy_ok_def cent_ok_detach detached_detach [OF b] cent_data_def)
  qed
  with l(1) p(1) d that show thesis by blast
qed

end
