(* ===== verification/Answer_Safe.thy ===== *)
theory Answer_Safe
  imports Answer_Opt Cache_Data
begin

text \<open>
  The composition of answers never leaves the memory of the message, of the entries and of the
  lists, and keeps the cache intact, whatever the allocations do. The invariant \<open>kinv\<close> of the
  variables of \<open>compose_answer\<close> is kept by every operation that succeeds; the part \<open>cinv\<close> on the
  cache is kept by all. \<open>good\<close> says so of an operation, and its rules follow the code's control
  flow.
\<close>

subsection \<open>Entries and their data\<close>

lemma getrrset_slot:
  assumes "cent_ok c"
  shows "getrrset c (int tp) = Some (if cached_type tp then slot c (rr_idx tp) else None)"
proof (cases "body c")
  case (Neg l ttl ts)
  then have n: "has (ce_flags c) DF_NEGATIVE" using assms by (simp add: cent_ok_def)
  have "slot c (rr_idx tp) = None" if "cached_type tp" using that Neg by (simp add: cached_type_def)
  with n show ?thesis by (simp add: getrrset_def)
next
  case (Recs mu ext)
  then have c: "\<not> has (ce_flags c) DF_NEGATIVE" "length mu = NRRMU" "\<forall>e. ext = Some e \<longrightarrow> length e = NRREXT"
    using assms by (auto simp: cent_ok_def)
  show ?thesis
  proof (cases "T_MIN \<le> tp \<and> tp \<le> T_MAX")
    case False
    then have "\<not> cached_type tp" "\<not> (0 \<le> int tp - int T_MIN \<and> int tp - int T_MIN < int T_NUM)"
      by (auto simp: cached_type_def T_MIN_def T_MAX_def T_NUM_def)
    with c show ?thesis by (auto simp: getrrset_def Let_def)
  next
    case True
    then have t: "nat (int tp - int T_MIN) = tp - T_MIN" "0 \<le> int tp - int T_MIN" "int tp - int T_MIN < int T_NUM"
      by (auto simp: T_MIN_def T_MAX_def T_NUM_def)
    note r = rd_rrlkuptab [of tp]
    have g: "getrrset c (int tp) = (if rr_idx tp < NRRMU then rd mu (rr_idx tp)
         else if rr_idx tp - NRRMU < NRREXT then (case ext of None \<Rightarrow> Some None | Some e \<Rightarrow> rd e (rr_idx tp - NRRMU))
         else Some None)"
      using c t r True Recs by (simp add: getrrset_def Let_def)
    have k: "cached_type tp \<longleftrightarrow> rr_idx tp < NRRTOT" using True by (simp add: cached_type_def)
    consider "rr_idx tp < NRRMU" | "\<not> rr_idx tp < NRRMU" "rr_idx tp < NRRTOT" | "\<not> rr_idx tp < NRRTOT" by blast
    then show ?thesis
    proof cases
      case 1
      with g k c Recs show ?thesis by (simp add: rd_def nth_append nrr_defs split: option.splits)
    next
      case 2
      then have "rr_idx tp - NRRMU < NRREXT" by (simp add: nrr_defs)
      with 2 g k c Recs show ?thesis by (simp add: rd_def nth_append split: option.splits)
    next
      case 3
      then have "\<not> rr_idx tp < NRRMU" "\<not> rr_idx tp - NRRMU < NRREXT" by (simp_all add: nrr_defs)
      with 3 g k show ?thesis by simp
    qed
  qed
qed

lemma getrrset_X_slot:
  assumes "cent_ok c" and "tp \<in> set is_cached"
  shows "getrrset_X c tp = Some (slot c (rr_idx tp))" and "cached_type tp"
proof -
  have "cached_type tp" using places_ok(3) assms(2) by (simp add: cached_type_def)
  with getrrset_X_eq [OF assms] getrrset_slot [OF assms(1), of tp] show "getrrset_X c tp = Some (slot c (rr_idx tp))" "cached_type tp"
    by simp_all
qed

lemma have_rr_some: "cent_ok c \<Longrightarrow> T_MIN \<le> tp \<Longrightarrow> tp \<le> T_MAX \<Longrightarrow> \<exists>b. have_rr c tp = Some b"
  using have_rr_X_eq [of c tp] by auto

lemma slot_data:
  assumes "cent_data c" and "cached_type tp" and "slot c (rr_idx tp) = Some s" and "d \<in> set (rs_rrs s)"
  shows "rdata_ok tp d"
  using assms unfolding cent_data_def recs_of_def by auto

lemma cached_type_small: "cached_type tp \<Longrightarrow> tp < 2 ^ 16"
  by (simp add: cached_type_def T_MAX_def)

lemma free_cent_copy:
  assumes "cache_inv st" and "cent_ok c" and "detached c"
  shows "free_cent c st = Some st"
proof -
  have co: "core (dom (cents st)) 0 st" using assms(1) by (simp add: cache_inv_def)
  have m: "mine (next_addr st) (rrset_l st) = {}" by (rule core_mine_fresh [OF co])
  have d: "distinct (rrset_l st)" using co by (simp add: core_def heap_ok_def)
  note f = free_cent_spec [OF detached_cok [OF assms(2,3) d m]]
  have "others (next_addr st) (rrset_l st) = rrset_l st"
    using m by (auto simp: others_def mine_def filter_id_conv)
  with f show ?thesis by simp
qed

text \<open>Looking up a name and copying the entry.\<close>

definition cinv :: "compose \<Rightarrow> bool" where
  "cinv k \<longleftrightarrow> cache_inv (k_cache k) \<and> data_ok (k_cache k)"

lemma lookup_copy_ok:
  assumes "cinv k" and "dns_name nm"
  shows "\<exists>ae st'. lookup_copy (enc nm @ q) k = Some (ae, set_cache st' k) \<and> cache_inv st' \<and> data_ok st' \<and>
    (\<forall>c. ae = Some c \<longrightarrow> copy_ok c)"
proof -
  have inv: "cache_inv (k_cache k)" "data_ok (k_cache k)" using assms(1) by (simp_all add: cinv_def)
  from lookup_cache_copy [OF inv assms(2), of q] obtain ae w st' where
    "lookup_cache (enc nm @ q) False (k_cache k) = Some (ae, w, st')" "cache_inv st'" "data_ok st'"
    "\<forall>c. ae = Some c \<longrightarrow> copy_ok c" .
  then show ?thesis by (intro exI [of _ ae] exI [of _ st']) (simp add: lookup_copy_def)
qed

lemma k_cache_simps [simp]:
  "k_cache (set_cache st k) = st" "k_ans (set_cache st k) = (k_ans k)\<lparr>a_st := st\<rparr>"
  "k_sva (set_cache st k) = k_sva k" "k_ar (set_cache st k) = k_ar k" "k_rcode (set_cache st k) = k_rcode k"
  by (simp_all add: k_cache_def set_cache_def)

lemma set_cache_same [simp]: "set_cache (k_cache k) k = k"
  by (simp add: k_cache_def set_cache_def)

lemma free_copy_ok: "cinv k \<Longrightarrow> copy_ok c \<Longrightarrow> free_copy c k = Some k"
  by (simp add: free_copy_def cinv_def copy_ok_def free_cent_copy)

subsection \<open>The invariant\<close>

definition sva_ok :: "sva_t \<Rightarrow> bool" where
  "sva_ok e \<longleftrightarrow> (\<exists>ls d. dns_name ls \<and> sv_nm e = enc ls @ d \<and> sv_dlen e = length d)"

definition ar_ok :: "rr_ext_t \<Rightarrow> bool" where
  "ar_ok e \<longleftrightarrow> (re_tp e = T_NS \<or> re_tp e = T_SOA \<longrightarrow> (\<exists>ls d. dns_name ls \<and> re_tnm e = d @ enc ls \<and> re_tsz e = length d \<and>
       rdata_ok (re_tp e) d)) \<and>
     (re_tp e = T_NS \<or> re_tp e = RRETP_ADD \<longrightarrow> (\<exists>ls q. dns_name ls \<and> re_tnm e = enc ls @ q))"

text \<open>The identification in the header, that the message is a response, and the code in it.\<close>

definition hdr_keeps :: "bytes \<Rightarrow> nat \<Rightarrow> bytes \<Rightarrow> bool" where
  "hdr_keeps i rc b \<longleftrightarrow> take 2 b = i \<and> bit (b ! 2) 7 \<and> ucast (b ! 3) = (of_nat rc :: 4 word)"

definition kinv :: "bytes \<Rightarrow> compose \<Rightarrow> bool" where
  "kinv i k \<longleftrightarrow> cinv k \<and> ans_safe (k_ans k) \<and> hdr_keeps i (k_rcode k) (a_buf (k_ans k)) \<and> list_all sva_ok (k_sva k) \<and> list_all ar_ok (k_ar k)"

definition good :: "bytes \<Rightarrow> (compose \<Rightarrow> (bool \<times> compose) option) \<Rightarrow> bool" where
  "good i f \<longleftrightarrow> (\<forall>k. kinv i k \<longrightarrow> (\<exists>ok k'. f k = Some (ok, k') \<and> cinv k' \<and> (ok \<longrightarrow> kinv i k')))"

lemma goodE:
  assumes "good i f" and "kinv i k"
  obtains ok k' where "f k = Some (ok, k')" "cinv k'" "ok \<longrightarrow> kinv i k'"
  using assms unfolding good_def by blast

lemma kinv_cinv: "kinv i k \<Longrightarrow> cinv k"
  by (simp add: kinv_def)

lemma good_skip [simp]: "good i skip" "good i (\<lambda>k. Some (True, k))"
  by (auto simp: good_def skip_def kinv_def)

lemma good_andthen:
  assumes "good i f" and "good i g"
  shows "good i (andthen f g)"
  unfolding good_def
proof (intro allI impI)
  fix k assume "kinv i k"
  from goodE [OF assms(1) this] obtain ok k1 where f: "f k = Some (ok, k1)" "cinv k1" "ok \<longrightarrow> kinv i k1" .
  show "\<exists>ok k'. andthen f g k = Some (ok, k') \<and> cinv k' \<and> (ok \<longrightarrow> kinv i k')"
  proof (cases ok)
    case False
    with f show ?thesis by (simp add: andthen_def)
  next
    case True
    from goodE [OF assms(2) f(3) [THEN mp, OF True]] obtain ok2 k2 where "g k1 = Some (ok2, k2)" "cinv k2" "ok2 \<longrightarrow> kinv i k2" .
    with f True show ?thesis by (simp add: andthen_def)
  qed
qed

lemma good_add_all: "(\<And>d. d \<in> set ds \<Longrightarrow> good i (f d)) \<Longrightarrow> good i (add_all f ds)"
proof (induction ds)
  case Nil
  have "add_all f [] = (\<lambda>k. Some (True, k))" by (rule ext) simp
  then show ?case by simp
next
  case (Cons d ds)
  have "add_all f (d # ds) = andthen (f d) (add_all f ds)" by (rule ext) simp
  with Cons show ?case by (simp add: good_andthen)
qed

lemma cinv_ans: "cinv k \<Longrightarrow> \<exists>m. a_st a' = (a_st (k_ans k))\<lparr>mem := m\<rparr> \<Longrightarrow> cinv (k\<lparr>k_ans := a'\<rparr>)"
  by (auto simp: cinv_def k_cache_def cache_inv_def data_ok_def)

lemma kinv_set_cache: "kinv i k \<Longrightarrow> cache_inv st \<Longrightarrow> data_ok st \<Longrightarrow> kinv i (set_cache st k)"
  by (simp add: kinv_def cinv_def ans_safe_def)

lemma malloc_cinv:
  assumes "cinv k"
  obtains ok st where "malloc (k_cache k) = (ok, st)" "cache_inv st" "data_ok st"
proof -
  obtain ok m where "malloc (k_cache k) = (ok, (k_cache k)\<lparr>mem := m\<rparr>)" using malloc_step by blast
  with assms that show thesis by (simp add: cinv_def cache_inv_def data_ok_def)
qed

subsection \<open>The operations\<close>

lemma add_rr_tail: "ans_safe a \<Longrightarrow> dns_name ls \<Longrightarrow> add_rr (enc ls @ q) type ttl d sect udp a = add_rr (enc ls) type ttl d sect udp a"
  by (simp add: add_rr_def ans_safe_def compress_name_tail split: prod.split)

lemma hdr_keeps_take: "hdr_keeps i rc b \<Longrightarrow> take 4 b' = take 4 b \<Longrightarrow> 4 \<le> length b \<Longrightarrow> 4 \<le> length b' \<Longrightarrow> hdr_keeps i rc b'"
proof -
  assume a: "hdr_keeps i rc b" "take 4 b' = take 4 b" "4 \<le> length b" "4 \<le> length b'"
  have "take 2 b' = take 2 b" "b' ! 2 = b ! 2" "b' ! 3 = b ! 3"
    using arg_cong [OF a(2), of "take 2"] arg_cong [OF a(2), of "\<lambda>x. x ! 2"] arg_cong [OF a(2), of "\<lambda>x. x ! 3"] by simp_all
  with a show ?thesis by (simp add: hdr_keeps_def)
qed

lemma safe_length4: "ans_safe a \<Longrightarrow> 4 \<le> length (a_buf a)"
  by (simp add: ans_safe_def sizeof_dns_hdr_def)

lemma take4_put:
  assumes "take n b' = put (take n b) j v" and "4 \<le> j" and "j + length v \<le> n" and "n \<le> length b"
  shows "take 4 b' = take 4 b"
proof -
  have "take 4 b' = take 4 (take n b')" using assms(2,3) by (simp add: min_def)
  also have "\<dots> = take 4 b" unfolding assms(1) using assms(2-4) by (simp add: put_def)
  finally show ?thesis .
qed

lemma good_add_rr:
  assumes "dns_name ls" and "rdata_ok type d"
  shows "good i (with_ans (add_rr (enc ls @ q) type ttl d sect udp))"
  unfolding good_def
proof (intro allI impI)
  fix k assume k: "kinv i k"
  then have a: "ans_safe (k_ans k)" "cinv k" by (simp_all add: kinv_def)
  from rdata_ok_fields [OF assms(2)] obtain fs where fs: "rdata_fields type fs" "d = fields_bytes fs" by blast
  note tail = add_rr_tail [OF a(1) assms(1)]
  let ?goal = "\<exists>ok k'. with_ans (add_rr (enc ls @ q) type ttl d sect udp) k = Some (ok, k') \<and> cinv k' \<and> (ok \<longrightarrow> kinv i k')"
  have go: ?goal if r: "add_rr (enc ls) type ttl d sect udp (k_ans k) = Some (True, a')"
      and a': "ans_safe a'" "ans_continues (k_ans k) a'" "take 4 (a_buf a') = take 4 (a_buf (k_ans k))" for a'
  proof -
    have "cinv (k\<lparr>k_ans := a'\<rparr>)" using a'(2) by (intro cinv_ans [OF a(2)]) (simp add: ans_continues_def)
    moreover have "hdr_keeps i (k_rcode k) (a_buf a')"
      using hdr_keeps_take [OF _ a'(3) safe_length4 [OF a(1)] safe_length4 [OF a'(1)]] k by (simp add: kinv_def)
    ultimately show ?thesis using r a'(1) k by (simp add: with_ans_def tail kinv_def)
  qed
  from a(1) assms(1) fs(1) show ?goal
  proof (cases rule: add_rr_cases [where ttl = ttl and sect = sect and udp = udp])
    case (failed a')
    have "cinv (k\<lparr>k_ans := a'\<rparr>)" by (rule cinv_ans [OF a(2) failed(2)])
    with failed(1) show ?thesis by (simp add: with_ans_def tail fs(2))
  next
    case (discarded a')
    have "take 4 (take (a_sz (k_ans k)) (a_buf a')) = take 4 (take (a_sz (k_ans k)) (a_buf (k_ans k)))"
      unfolding discarded(7) ..
    then have "take 4 (a_buf a') = take 4 (a_buf (k_ans k))"
      using a(1) by (simp add: ans_safe_def sizeof_dns_hdr_def)
    with discarded fs(2) show ?thesis by (intro go [of a']) simp_all
  next
    case (written a')
    from written(3) obtain n where n: "take (a_sz (k_ans k)) (a_buf a') = put (take (a_sz (k_ans k)) (a_buf (k_ans k))) (count_at sect) (be16 (n + 1))"
      by (auto simp: record_added_def)
    have "take 4 (a_buf a') = take 4 (a_buf (k_ans k))"
      using a(1) count_at_hdr [of sect] by (intro take4_put [OF n]) (cases sect; simp add: count_at_def ans_safe_def sizeof_dns_hdr_def)+
    with written fs(2) show ?thesis by (intro go [of a']) (simp_all add: record_added_def)
  qed
qed

lemma good_sva_add:
  assumes "dns_name ls"
  shows "good i (sva_add (enc ls @ q) tp d)"
  unfolding good_def
proof (intro allI impI)
  fix k assume k: "kinv i k"
  from malloc_cinv [OF kinv_cinv [OF k]] obtain ok st where m: "malloc (k_cache k) = (ok, st)" "cache_inv st" "data_ok st" .
  have r: "rhnlen (enc ls @ q) = Some (length (enc ls))" "rd_all (enc ls @ q) 0 (length (enc ls)) = Some (enc ls)"
    using dns_name_labels_ok [OF assms] by (simp_all add: rd_all_def)
  note k1 = kinv_set_cache [OF k m(2,3)]
  show "\<exists>ok k'. sva_add (enc ls @ q) tp d k = Some (ok, k') \<and> cinv k' \<and> (ok \<longrightarrow> kinv i k')"
  proof (cases ok)
    case False
    with m r show ?thesis by (simp add: sva_add_def cinv_def k_cache_def)
  next
    case True
    let ?e = "\<lparr>sv_tp = tp, sv_dlen = length d, sv_nm = enc ls @ d\<rparr>"
    have "sva_ok ?e" using assms by (auto simp: sva_ok_def)
    then have "kinv i (set_cache st k\<lparr>k_sva := k_sva (set_cache st k) @ [?e]\<rparr>)"
      using k1 by (simp add: kinv_def cinv_def k_cache_def)
    with m r True show ?thesis by (simp add: sva_add_def kinv_cinv)
  qed
qed

lemma ar_data_short: "tp = T_NS \<or> tp = T_SOA \<Longrightarrow> rdata_ok tp d \<Longrightarrow> length d < 65536"
proof -
  have n: "\<exists>ls. dns_name ls \<and> d = enc ls" if "rdata_ok T_NS d"
    using that unfolding rdata_ok_def by (simp add: name_types_def)
  have s: "\<exists>ls ls' t. dns_name ls \<and> dns_name ls' \<and> length t = 20 \<and> d = enc ls @ enc ls' @ t" if "rdata_ok T_SOA d"
    using that unfolding rdata_ok_def by blast
  assume "tp = T_NS \<or> tp = T_SOA" "rdata_ok tp d"
  with n s show ?thesis by (auto simp: dns_name_def DNSNAMEBUFSIZE_def)
qed

lemma good_add_ar:
  assumes "(tp = T_NS \<or> tp = T_SOA) \<and> dns_name ls \<and> nm = enc ls \<and> rdata_ok tp d \<or>
    tp = RRETP_ADD \<and> (\<exists>ls. dns_name ls \<and> d = enc ls)"
  shows "good i (add_ar tp (of_nat (length d)) d nm ttl)"
  unfolding good_def
proof (intro allI impI)
  fix k assume k: "kinv i k"
  from malloc_cinv [OF kinv_cinv [OF k]] obtain ok st where m: "malloc (k_cache k) = (ok, st)" "cache_inv st" "data_ok st" .
  have short: "length d < 2 ^ 16"
    using assms ar_data_short by (auto simp: dns_name_def DNSNAMEBUFSIZE_def)
  have t: "rd_all d 0 (unat (of_nat (length d) :: 16 word)) = Some d" "unat (of_nat (length d) :: 16 word) = length d"
    using short by (simp_all add: rd_all_def unat_of_nat)
  obtain nmsz n where n: "(if tp = T_NS \<or> tp = T_SOA then rhnlen nm else Some 0) = Some nmsz" "rd_all nm 0 nmsz = Some n"
    "tp = T_NS \<or> tp = T_SOA \<longrightarrow> n = enc ls"
    using assms by (cases "tp = T_NS \<or> tp = T_SOA") (auto simp: dns_name_labels_ok rd_all_def RRETP_ADD_def type_num_defs)
  let ?e = "\<lparr>re_tp = tp, re_tsz = length d, re_ttl = ttl, re_tnm = d @ n\<rparr>"
  have e: "ar_ok ?e"
  proof -
    have "\<exists>ls q. dns_name ls \<and> d @ n = enc ls @ q" if "tp = T_NS \<or> tp = RRETP_ADD"
    proof (cases "tp = T_NS")
      case True
      then have "rdata_ok T_NS d" using assms by (auto simp: RRETP_ADD_def type_num_defs)
      then obtain ls where "dns_name ls" "d = enc ls" unfolding rdata_ok_def by (auto simp: type_num_defs)
      then show ?thesis by blast
    qed (use that assms in \<open>auto simp: RRETP_ADD_def type_num_defs\<close>)
    with assms n(3) show ?thesis unfolding ar_ok_def by (auto simp: RRETP_ADD_def type_num_defs)
  qed
  show "\<exists>ok k'. add_ar tp (of_nat (length d)) d nm ttl k = Some (ok, k') \<and> cinv k' \<and> (ok \<longrightarrow> kinv i k')"
  proof (cases ok)
    case False
    with m n(1) show ?thesis by (simp add: add_ar_def cinv_def k_cache_def)
  next
    case True
    have "kinv i (set_cache st k\<lparr>k_ar := k_ar (set_cache st k) @ [?e]\<rparr>)"
      using kinv_set_cache [OF k m(2,3)] e by (simp add: kinv_def cinv_def k_cache_def)
    with m n(1,2) t True show ?thesis by (simp add: add_ar_def kinv_cinv)
  qed
qed

lemma good_if: "(P \<Longrightarrow> good i f) \<Longrightarrow> (\<not> P \<Longrightarrow> good i g) \<Longrightarrow> good i (if P then f else g)"
  by simp

lemma rdata_ok_name: "rdata_ok tp d \<Longrightarrow> tp \<in> set name_types \<Longrightarrow> \<exists>ls. dns_name ls \<and> d = enc ls"
  unfolding rdata_ok_def by (elim conjE, drule mp, assumption, assumption)+

lemma rdata_ok_mx: "rdata_ok T_MX d \<Longrightarrow> \<exists>p ls. length p = 2 \<and> dns_name ls \<and> d = p @ enc ls"
  unfolding rdata_ok_def by (elim conjE, drule mp [OF _ disjI1 [OF refl]], assumption)+

lemma rdata_ok_srv: "rdata_ok T_SRV d \<Longrightarrow> \<exists>p ls. length p = 6 \<and> dns_name ls \<and> d = p @ enc ls"
  unfolding rdata_ok_def by (elim conjE, drule mp [OF _ refl], assumption)+

text \<open>The host named in the data of a record, by type.\<close>

lemma ar_data:
  assumes "map_of (zip ar_recs ar_offs) tp = Some offs" and "rdata_ok tp d"
  shows "offs \<le> length d" and "\<exists>ls. dns_name ls \<and> drop offs d = enc ls"
proof -
  have "tp \<in> set name_types \<and> offs = 0 \<or> tp = T_MX \<and> offs = 2 \<or> tp = T_SRV \<and> offs = 6"
    using assms(1) by (auto simp: ar_recs_def ar_offs_def name_types_def type_num_defs split: if_splits)
  then consider "tp \<in> set name_types" "offs = 0" | "tp = T_MX" "offs = 2" | "tp = T_SRV" "offs = 6" by blast
  then have "offs \<le> length d \<and> (\<exists>ls. dns_name ls \<and> drop offs d = enc ls)"
  proof cases
    case 1
    with rdata_ok_name [OF assms(2)] show ?thesis by simp
  next
    case 2
    with rdata_ok_mx [of d] assms(2) obtain p ls where "length p = 2" "dns_name ls" "d = p @ enc ls" by blast
    with 2 show ?thesis by (intro conjI exI [of _ ls]) simp_all
  next
    case 3
    with rdata_ok_srv [of d] assms(2) obtain p ls where "length p = 6" "dns_name ls" "d = p @ enc ls" by blast
    with 3 show ?thesis by (intro conjI exI [of _ ls]) simp_all
  qed
  then show "offs \<le> length d" "\<exists>ls. dns_name ls \<and> drop offs d = enc ls" by blast+
qed

lemma good_add_rrset_rr:
  assumes "dns_name ls" and "rdata_ok tp d"
  shows "good i (add_rrset_rr (enc ls @ q) tp ttl udp d)"
proof -
  let ?ar = "\<lambda>k. case map_of (zip ar_recs ar_offs) tp of None \<Rightarrow> skip k
        | Some offs \<Rightarrow> if length d < offs then None
            else add_ar RRETP_ADD (of_nat (length d - offs)) (drop offs d) [0] 0 k"
  have "good i ?ar"
  proof (cases "map_of (zip ar_recs ar_offs) tp")
    case None
    then have "?ar = skip" by (intro ext) simp
    then show ?thesis by simp
  next
    case (Some offs)
    note a = ar_data [OF Some assms(2)]
    have "?ar = add_ar RRETP_ADD (of_nat (length (drop offs d))) (drop offs d) [0] 0"
      using Some a(1) by (intro ext) simp
    moreover have "good i (add_ar RRETP_ADD (of_nat (length (drop offs d))) (drop offs d) [0] 0)"
      using a(2) by (intro good_add_ar) simp
    ultimately show ?thesis by simp
  qed
  then show ?thesis
    unfolding add_rrset_rr_def
    by (intro good_andthen good_if good_skip good_add_rr [OF assms] good_sva_add [OF assms(1)])
qed

subsection \<open>Record sets\<close>

lemma kinv_rnd [simp]: "kinv i (k\<lparr>k_rnd := r\<rparr>) = kinv i k" "kinv i (k\<lparr>k_calls := n\<rparr>) = kinv i k" "kinv i (k\<lparr>k_aa := b\<rparr>) = kinv i k"
  by (simp_all add: kinv_def cinv_def k_cache_def)

lemma rr_order_ok:
  obtains rrs' r where "rr_order rnd rrs k = (rrs', k\<lparr>k_rnd := r\<rparr>)" "set rrs' = set rrs"
proof -
  have set: "set (drop n rrs @ take n rrs) = set rrs" for n
    by (metis append_take_drop_id set_append Un_commute)
  have "\<exists>n r. randrr rrs k = (n, k\<lparr>k_rnd := r\<rparr>)"
    by (cases "k_rnd k") (auto simp: randrr_def intro: exI [of _ "k_rnd k"])
  then obtain n r where "randrr rrs k = (n, k\<lparr>k_rnd := r\<rparr>)" by blast
  with set [of n] that [of "drop n rrs @ take n rrs" r] that [of rrs "k_rnd k"] show thesis
    by (cases rnd) (simp_all add: rr_order_def)
qed

lemma good_order:
  assumes "\<And>d. d \<in> set rrs \<Longrightarrow> good i (f d)"
  shows "good i (\<lambda>k. let (rrs', k1) = rr_order rnd rrs k in add_all f rrs' k1)"
  unfolding good_def
proof (intro allI impI)
  fix k assume k: "kinv i k"
  from rr_order_ok [of rnd rrs k] obtain rrs' r where o: "rr_order rnd rrs k = (rrs', k\<lparr>k_rnd := r\<rparr>)" "set rrs' = set rrs" .
  have "good i (add_all f rrs')" using assms o(2) by (intro good_add_all) simp
  then show "\<exists>ok k'. (let (rrs', k1) = rr_order rnd rrs k in add_all f rrs' k1) = Some (ok, k') \<and> cinv k' \<and> (ok \<longrightarrow> kinv i k')"
    using k unfolding good_def o(1) by simp
qed

lemma good_add_rrset:
  assumes "copy_ok c" and "dns_name ls"
  shows "good i (add_rrset cf (enc ls @ q) tp queryts c udp)"
proof -
  have ok: "cent_ok c" "cent_data c" using assms(1) by (simp_all add: copy_ok_def)
  note g = getrrset_slot [OF ok(1), of tp]
  show ?thesis
  proof (cases "cached_type tp \<and> (\<exists>s. slot c (rr_idx tp) = Some s \<and> rs_rrs s \<noteq> [])")
    case False
    with g have "add_rrset cf (enc ls @ q) tp queryts c udp = (\<lambda>k. Some (True, k))"
      by (intro ext) (auto simp: add_rrset_def split: option.splits)
    then show ?thesis by simp
  next
    case True
    then obtain s where s: "cached_type tp" "slot c (rr_idx tp) = Some s" "rs_rrs s \<noteq> []" by blast
    with g have "add_rrset cf (enc ls @ q) tp queryts c udp = (\<lambda>k. let (rrs, k1) = rr_order (rnd_recs cf) (rs_rrs s) k in
        add_all (add_rrset_rr (enc ls @ q) tp (of_int (ans_ttl s queryts)) udp) rrs k1)"
      by (intro ext) (simp add: add_rrset_def)
    moreover have "good i (add_rrset_rr (enc ls @ q) tp (of_int (ans_ttl s queryts)) udp d)" if "d \<in> set (rs_rrs s)" for d
      using slot_data [OF ok(2) s(1,2) that] by (rule good_add_rrset_rr [OF assms(2)])
    ultimately show ?thesis by (simp only:) (rule good_order)
  qed
qed

lemma good_add_rrsets:
  assumes "copy_ok c" and "dns_name ls"
  shows "good i (add_rrsets cf (enc ls @ q) tps queryts c udp)"
proof (induction tps)
  case Nil
  have "add_rrsets cf (enc ls @ q) [] queryts c udp = (\<lambda>k. Some (True, k))" by (rule ext) simp
  then show ?case by simp
next
  case (Cons tp tps)
  have "add_rrsets cf (enc ls @ q) (tp # tps) queryts c udp =
      andthen (add_rrset cf (enc ls @ q) tp queryts c udp) (add_rrsets cf (enc ls @ q) tps queryts c udp)"
    by (rule ext) simp
  then show ?case by (simp only:) (intro good_andthen good_add_rrset [OF assms] Cons)
qed

lemma has_qtype_some: "cent_ok c \<Longrightarrow> \<exists>b. has_qtype c tp = Some b"
  using have_rr_some [of c tp] by (auto simp: has_qtype_def)

lemma iterlist_some:
  assumes "cent_ok c"
  shows "\<exists>n l. NRRITERLIST c = Some n \<and> RRITERLIST c = Some l \<and> n = length l"
  using assms by (cases "body c") (auto simp: cent_ok_def RRITERLIST_def NRRITERLIST_def rrmuiterlist_def rrcachiterlist_def nrr_defs)

lemma good_const_false: "good i (\<lambda>k. Some (False, k))"
  by (simp add: good_def kinv_def)

lemma good_if_fun: "(P \<Longrightarrow> good i f) \<Longrightarrow> (\<not> P \<Longrightarrow> good i g) \<Longrightarrow> good i (\<lambda>k. if P then f k else g k)"
  by (cases P) simp_all

lemma good_add_to_response:
  assumes "copy_ok c" and "dns_name ls"
  shows "good i (add_to_response cf (enc ls @ q) qtype queryts c udp)"
proof -
  have ok: "cent_ok c" using assms(1) by (simp add: copy_ok_def)
  obtain hv where h: "(if qtype \<noteq> T_CNAME \<and> qtype \<noteq> QT_ALL then has_qtype c qtype else Some True) = Some hv"
    using has_qtype_some [OF ok, of qtype] by (cases "qtype \<noteq> T_CNAME \<and> qtype \<noteq> QT_ALL") auto
  obtain n l where it: "NRRITERLIST c = Some n" "RRITERLIST c = Some l" "n = length l" using iterlist_some [OF ok] by blast
  then have rd: "rd_all l 0 n = Some l" by (simp add: rd_all_def)
  let ?rn = "enc ls @ q"
  let ?f = "\<lambda>k. if \<not> hv then add_rrset cf ?rn T_CNAME queryts c udp k else Some (True, k)"
  let ?g = "\<lambda>k. if qtype = QT_AXFR \<or> qtype = QT_IXFR then Some (False, k)
     else if qtype = QT_MAILB then add_rrsets cf ?rn [T_MB, T_MG, T_MR] queryts c udp k
     else if qtype = QT_MAILA then add_rrsets cf ?rn [T_MD, T_MF] queryts c udp k
     else if qtype = QT_ALL then add_rrsets cf ?rn l queryts c udp k
     else if T_MIN \<le> qtype \<and> qtype \<le> T_MAX then add_rrset cf ?rn qtype queryts c udp k
     else Some (False, k)"
  have "add_to_response cf ?rn qtype queryts c udp = andthen ?f ?g"
    unfolding add_to_response_def h it(1,2) andthen_def bind.bind_lunit rd
    by (intro ext Option.bind_cong refl) (simp split: prod.split)
  moreover have "good i (andthen ?f ?g)"
    by (intro good_andthen good_if_fun good_skip good_const_false good_add_rrset [OF assms] good_add_rrsets [OF assms])
  ultimately show ?thesis by simp
qed

subsection \<open>Additional records\<close>

lemma sva_match:
  assumes "sva_ok st" and "dns_name ls"
  shows "\<exists>b. (do { same \<leftarrow> (if sv_tp st = tp then rhnicmp (sv_nm st) (enc ls @ q) else Some False);
       if same \<and> sv_dlen st = length d then do {
         p \<leftarrow> skiprhn (sv_nm st) 0; d' \<leftarrow> rd_all (sv_nm st) p (length d); Some (d' = d) } else Some False }) = Some b"
proof -
  from assms(1) obtain ns e where e: "dns_name ns" "sv_nm st = enc ns @ e" "sv_dlen st = length e" by (auto simp: sva_ok_def)
  note lo = dns_name_labels_ok [OF e(1)] dns_name_labels_ok [OF assms(2)]
  have "skiprhn (enc ns @ e) 0 = Some (length (enc ns))" using skiprhn_enc [OF lo(1), of "[]" e] by simp
  with e lo show ?thesis by (auto simp: rd_all_def)
qed

lemma already_added_some:
  "list_all sva_ok sva \<Longrightarrow> dns_name ls \<Longrightarrow> \<exists>b. already_added (enc ls @ q) tp d sva = Some b"
proof (induction sva)
  case (Cons st sva)
  then have "sva_ok st" by simp
  from sva_match [OF this Cons.prems(2), of tp q d] Cons show ?case by (auto split: bind_splits)
qed simp

lemma good_add_additional_rr:
  assumes "dns_name ls" and "rdata_ok tp d"
  shows "good i (add_additional_rr (enc ls @ q) tp ttl sect udp d)"
  unfolding good_def
proof (intro allI impI)
  fix k assume k: "kinv i k"
  then have "list_all sva_ok (k_sva k)" by (simp add: kinv_def)
  from already_added_some [OF this assms(1)] obtain b where b: "already_added (enc ls @ q) tp d (k_sva k) = Some b" by blast
  have g: "good i (andthen (with_ans (add_rr (enc ls @ q) tp ttl d sect udp)) (sva_add (enc ls @ q) tp d))"
    by (intro good_andthen good_add_rr [OF assms] good_sva_add [OF assms(1)])
  show "\<exists>ok k'. add_additional_rr (enc ls @ q) tp ttl sect udp d k = Some (ok, k') \<and> cinv k' \<and> (ok \<longrightarrow> kinv i k')"
    using g k b unfolding good_def by (cases b) (simp_all add: add_additional_rr_def kinv_cinv)
qed

lemma good_add_additional_set:
  assumes "copy_ok c" and "dns_name ls" and "tp \<in> set is_cached"
  shows "good i (add_additional_set cf (enc ls @ q) tp queryts c udp)"
proof -
  have ok: "cent_ok c" "cent_data c" using assms(1) by (simp_all add: copy_ok_def)
  note g = getrrset_X_slot [OF ok(1) assms(3)]
  show ?thesis
  proof (cases "\<exists>s. slot c (rr_idx tp) = Some s \<and> rs_rrs s \<noteq> []")
    case False
    with g have "add_additional_set cf (enc ls @ q) tp queryts c udp = (\<lambda>k. Some (True, k))"
      by (intro ext) (auto simp: add_additional_set_def split: option.splits)
    then show ?thesis by simp
  next
    case True
    then obtain s where s: "slot c (rr_idx tp) = Some s" "rs_rrs s \<noteq> []" by blast
    with g have "add_additional_set cf (enc ls @ q) tp queryts c udp = (\<lambda>k. let (rrs, k1) = rr_order (rnd_recs cf) (rs_rrs s) k in
        add_all (add_additional_rr (enc ls @ q) tp (of_int (ans_ttl s queryts)) S_ADDITIONAL udp) rrs k1)"
      by (intro ext) (simp add: add_additional_set_def add_additional_rrs_def)
    moreover have "good i (add_additional_rr (enc ls @ q) tp (of_int (ans_ttl s queryts)) S_ADDITIONAL udp d)" if "d \<in> set (rs_rrs s)" for d
      using slot_data [OF ok(2) g(2) s(1) that] by (rule good_add_additional_rr [OF assms(2)])
    ultimately show ?thesis by (simp only:) (rule good_order)
  qed
qed

text \<open>An operation on a copy of an entry, which is freed afterwards.\<close>

lemma good_freeing:
  assumes "good i f" and "copy_ok c" and "kinv i k"
  shows "\<exists>ok k'. (do { (ok, k1) \<leftarrow> f k; k2 \<leftarrow> free_copy c k1; Some (ok, k2) }) = Some (ok, k') \<and> cinv k' \<and> (ok \<longrightarrow> kinv i k')"
proof -
  from goodE [OF assms(1,3)] obtain ok k1 where k1: "f k = Some (ok, k1)" "cinv k1" "ok \<longrightarrow> kinv i k1" .
  with free_copy_ok [OF k1(2) assms(2)] show ?thesis by simp
qed

lemma lookup_copyE:
  assumes "kinv i k" and "dns_name nm"
  obtains ae k' where "lookup_copy (enc nm @ q) k = Some (ae, k')" "kinv i k'" "\<forall>c. ae = Some c \<longrightarrow> copy_ok c"
  using lookup_copy_ok [OF kinv_cinv [OF assms(1)] assms(2), of q] kinv_set_cache [OF assms(1)] that by blast

lemma good_add_additional_a:
  assumes "dns_name ls"
  shows "good i (add_additional_a cf (enc ls @ q) queryts udp)"
  unfolding good_def
proof (intro allI impI)
  fix k assume k: "kinv i k"
  from lookup_copyE [OF k assms, of q] obtain ae k1 where
    l: "lookup_copy (enc ls @ q) k = Some (ae, k1)" "kinv i k1" "\<forall>c. ae = Some c \<longrightarrow> copy_ok c" .
  show "\<exists>ok k'. add_additional_a cf (enc ls @ q) queryts udp k = Some (ok, k') \<and> cinv k' \<and> (ok \<longrightarrow> kinv i k')"
  proof (cases ae)
    case None
    with l show ?thesis by (simp add: add_additional_a_def kinv_cinv)
  next
    case (Some c)
    have c: "copy_ok c" using l(3) Some by simp
    have t: "T_A \<in> set is_cached" "T_AAAA \<in> set is_cached" by (simp_all add: is_cached_def type_num_defs)
    have "good i (andthen (add_additional_set cf (enc ls @ q) T_A queryts c udp) (add_additional_set cf (enc ls @ q) T_AAAA queryts c udp))"
      by (intro good_andthen good_add_additional_set [OF c assms] t)
    from good_freeing [OF this c l(2)] l(1) Some show ?thesis by (simp add: add_additional_a_def)
  qed
qed

subsection \<open>The question section\<close>

lemma take4_wr: "4 \<le> j \<Longrightarrow> j + length v \<le> length b \<Longrightarrow> take 4 (put b j v) = take 4 b"
  by (simp add: put_def)

definition qe_ok :: "dns_queryel \<Rightarrow> bool" where
  "qe_ok qe \<longleftrightarrow> (\<exists>ls. dns_name ls \<and> qe_query qe = enc ls)"

lemma put_question_spec:
  assumes "ans_safe a" and "qe_ok qe"
  shows "\<exists>ok a' m. put_question qe a = Some (ok, a') \<and> a_st a' = a_st a\<lparr>mem := m\<rparr> \<and>
    (ok \<longrightarrow> ans_safe a' \<and> take 4 (a_buf a') = take 4 (a_buf a))"
proof -
  from assms(2) obtain ls where ls: "dns_name ls" "qe_query qe = enc ls" by (auto simp: qe_ok_def)
  let ?n = "length (enc ls)"
  from grow_ansE [OF assms(1), of "dnsmsghdroffset + a_sz a + ?n + 4"] obtain ok a1 where
    g: "grow_ans (dnsmsghdroffset + a_sz a + ?n + 4) a = (ok, a1)" "ans_safe a1" "ans_continues a a1" "a_sz a1 = a_sz a"
      "ok \<Longrightarrow> dnsmsghdroffset + a_sz a + ?n + 4 \<le> dnsmsghdroffset + length (a_buf a1)"
      "take (a_sz a) (a_buf a1) = take (a_sz a) (a_buf a)" by metis
  obtain m1 where m1: "a_st a1 = a_st a\<lparr>mem := m1\<rparr>" using g(3) by (auto simp: ans_continues_def)
  have len: "rhnlen (qe_query qe) = Some ?n" using dns_name_labels_ok [OF ls(1)] ls(2) by simp
  show ?thesis
  proof (cases ok)
    case False
    with g(1) len m1 show ?thesis by (intro exI [of _ False] exI [of _ a1] exI [of _ m1]) (simp add: put_question_def)
  next
    case True
    with g(5) have room: "a_sz a1 + ?n + 4 \<le> length (a_buf a1)" using g(4) by simp
    then have "a_sz a1 + ?n \<le> length (a_buf a1)" by simp
    from put_name_spec [OF g(2) ls(1) this, of "[]"] obtain rl a2 where
      p: "put_name (enc ls) a1 = Some (rl, a2)" "ans_safe a2" "writes_on a1 a2" "a_sz a2 = a_sz a1 + rl" "rl \<le> ?n" by auto
    obtain m2 where m2: "a_st a2 = a_st a\<lparr>mem := m2\<rparr>" using p(3) m1 by (auto simp: writes_on_def)
    have sz: "12 \<le> a_sz a" "a_sz a \<le> length (a_buf a)" "12 \<le> a_sz a2"
      using assms(1) p(2) by (simp_all add: ans_safe_def sizeof_dns_hdr_def)
    have room2: "a_sz a2 + 4 \<le> length (a_buf a2)" using p(3-5) room by (simp add: writes_on_def)
    have t: "take 4 (a_buf a2) = take 4 (a_buf a)"
    proof -
      have "take (a_sz a) (a_buf a2) = take (a_sz a) (a_buf a)" using p(3) g(4,6) by (simp add: writes_on_def)
      from arg_cong [OF this, of "take 4"] sz show ?thesis by (simp add: min_def split: if_splits)
    qed
    show ?thesis
    proof (cases "rl = 0")
      case True
      with \<open>ok\<close> g(1) len p(1) ls(2) m2 show ?thesis by (intro exI [of _ False] exI [of _ a2] exI [of _ m2]) (simp add: put_question_def)
    next
      case False
      let ?b1 = "put (a_buf a2) (a_sz a2) (be16 (qe_qtype qe))"
      let ?b2 = "put ?b1 (a_sz a2 + 2) (be16 (qe_qclass qe))"
      have l2: "length ?b2 = length (a_buf a2)" using room2 by simp
      then have "4 + 2 \<le> length ?b2" using sz room2 by simp
      from count_up_put [OF this] obtain n where n: "count_up 4 ?b2 = Some (put ?b2 4 (be16 (n + 1)))" .
      have w: "PUTINT16 (qe_qtype qe) (a_buf a2) (a_sz a2) = Some (?b1, a_sz a2 + 2)"
        "PUTINT16 (qe_qclass qe) ?b1 (a_sz a2 + 2) = Some (?b2, a_sz a2 + 2 + 2)"
        using room2 by (simp_all add: PUTINT16_put del: add_2_eq_Suc add_2_eq_Suc')
      let ?a' = "a2\<lparr>a_buf := put ?b2 4 (be16 (n + 1)), a_sz := a_sz a2 + 4\<rparr>"
      have "put_question qe a = Some (True, ?a')"
        using \<open>ok\<close> False g(1) len p(1) ls(2) w n by (simp add: put_question_def)
      moreover have "ans_safe ?a'" using p(2) l2 room2 sz by (simp add: ans_safe_def sizeof_dns_hdr_def)
      moreover have "take 4 (a_buf ?a') = take 4 (a_buf a)"
        using t l2 room2 sz by (simp add: take4_wr)
      ultimately show ?thesis using m2 by (intro exI [of _ True] exI [of _ ?a'] exI [of _ m2]) simp
    qed
  qed
qed

text \<open>Operations on the message that keep the start of the header.\<close>

lemma good_with_ans:
  assumes "\<And>a. ans_safe a \<Longrightarrow> \<exists>ok a' m. f a = Some (ok, a') \<and> a_st a' = a_st a\<lparr>mem := m\<rparr> \<and>
    (ok \<longrightarrow> ans_safe a' \<and> take 4 (a_buf a') = take 4 (a_buf a))"
  shows "good i (with_ans f)"
  unfolding good_def
proof (intro allI impI)
  fix k assume k: "kinv i k"
  then have a: "ans_safe (k_ans k)" by (simp add: kinv_def)
  from assms [OF a] obtain ok a' m where f: "f (k_ans k) = Some (ok, a')" "a_st a' = a_st (k_ans k)\<lparr>mem := m\<rparr>"
    "ok \<longrightarrow> ans_safe a' \<and> take 4 (a_buf a') = take 4 (a_buf (k_ans k))" by blast
  have c: "cinv (k\<lparr>k_ans := a'\<rparr>)" using f(2) by (intro cinv_ans [OF kinv_cinv [OF k]]) blast
  have "kinv i (k\<lparr>k_ans := a'\<rparr>)" if ok
  proof -
    from f(3) that have a': "ans_safe a'" "take 4 (a_buf a') = take 4 (a_buf (k_ans k))" by simp_all
    have "hdr_keeps i (k_rcode k) (a_buf a')"
      using hdr_keeps_take [OF _ a'(2) safe_length4 [OF a] safe_length4 [OF a'(1)]] k by (simp add: kinv_def)
    with c a'(1) k show ?thesis by (simp add: kinv_def)
  qed
  with f(1) c show "\<exists>ok k'. with_ans f k = Some (ok, k') \<and> cinv k' \<and> (ok \<longrightarrow> kinv i k')"
    by (simp add: with_ans_def)
qed

lemma good_put_questions: "list_all qe_ok ql \<Longrightarrow> good i (put_questions ql)"
proof (induction ql)
  case Nil
  have "put_questions [] = (\<lambda>k. Some (True, k))" by (rule ext) simp
  then show ?case by simp
next
  case (Cons qe ql)
  have "put_questions (qe # ql) = andthen (with_ans (put_question qe)) (put_questions ql)" by (rule ext) simp
  with Cons show ?case by (auto intro!: good_andthen good_with_ans put_question_spec)
qed

lemma good_add_opt: "good i (add_opt cf e)"
proof (cases e)
  case None
  then have "add_opt cf e = (\<lambda>k. Some (True, k))" by (intro ext) (simp add: add_opt_def)
  then show ?thesis by simp
next
  case (Some ep)
  have g: "good i (with_ans (add_opt_pseudo_rr u r v z))" for u r v z
  proof (rule good_with_ans)
    fix a assume a: "ans_safe a"
    then show "\<exists>ok a' m. add_opt_pseudo_rr u r v z a = Some (ok, a') \<and> a_st a' = a_st a\<lparr>mem := m\<rparr> \<and>
      (ok \<longrightarrow> ans_safe a' \<and> take 4 (a_buf a') = take 4 (a_buf a))"
    proof (cases rule: add_opt_cases [where u = u and r = r and v = v and z = z])
      case (failed a')
      then show ?thesis by auto
    next
      case (added a' n)
      have "take 4 (a_buf a') = take 4 (take (a_sz a') (a_buf a'))" using added(2) by (simp add: ans_safe_def sizeof_dns_hdr_def)
      also have "\<dots> = take 4 (a_buf a)" unfolding added(6) using a by (simp add: put_def ans_safe_def sizeof_dns_hdr_def)
      finally show ?thesis using added(1-3) by (auto simp: ans_continues_def)
    qed
  qed
  show ?thesis
    unfolding good_def
  proof (intro allI impI)
    fix k assume "kinv i k"
    with g [of "of_nat (udpbufsize cf)" "of_nat (k_rcode k)" 0 0] Some
    show "\<exists>ok k'. add_opt cf e k = Some (ok, k') \<and> cinv k' \<and> (ok \<longrightarrow> kinv i k')" by (simp add: good_def add_opt_def)
  qed
qed

subsection \<open>Flags of the header\<close>

lemma put_one: "n < length b \<Longrightarrow> put b n [v] = b[n := v]"
  by (simp add: put_def upd_conv_take_nth_drop)

lemma set_rcode_kinv:
  assumes "kinv i k"
  obtains k' where "set_rcode rc k = Some k'" "kinv i k'"
proof -
  have a: "ans_safe (k_ans k)" "hdr_keeps i (k_rcode k) (a_buf (k_ans k))" "12 \<le> length (a_buf (k_ans k))"
    using assms by (simp_all add: kinv_def ans_safe_def sizeof_dns_hdr_def)
  then obtain g where g: "rd (a_buf (k_ans k)) 3 = Some g" by (auto simp: rd_def)
  let ?v = "g AND 0xf0 OR (of_nat rc AND 0xf)"
  let ?b = "put (a_buf (k_ans k)) 3 [?v]"
  have w: "wr (a_buf (k_ans k)) 3 ?v = Some ?b" using a(3) by (simp add: wr_put)
  have m: "(0xf :: byte) = mask 4" "(0xf0 :: byte) = push_bit 4 (mask 4)" by (simp_all add: mask_eq_exp_minus_1 push_bit_eq_mult)
  have "ucast ?v = (of_nat rc :: 4 word)"
    unfolding m by (rule bit_word_eqI) (auto simp: bit_simps)
  then have "hdr_keeps i rc ?b" using a by (simp add: hdr_keeps_def put_one)
  with w g a assms that show thesis by (simp add: set_rcode_def kinv_def cinv_def k_cache_def ans_safe_def)
qed

lemma set_aa_kinv:
  assumes "kinv i k"
  obtains k' where "set_aa k = Some k'" "kinv i k'" "k_rcode k' = k_rcode k"
proof -
  have a: "ans_safe (k_ans k)" "hdr_keeps i (k_rcode k) (a_buf (k_ans k))" "12 \<le> length (a_buf (k_ans k))"
    using assms by (simp_all add: kinv_def ans_safe_def sizeof_dns_hdr_def)
  let ?v = "a_buf (k_ans k) ! 2 OR 4"
  let ?b = "put (a_buf (k_ans k)) 2 [?v]"
  have r: "rd (a_buf (k_ans k)) 2 = Some (a_buf (k_ans k) ! 2)" using a(3) by (simp add: rd_def)
  have w: "wr (a_buf (k_ans k)) 2 ?v = Some ?b" using a(3) by (simp add: wr_put)
  have "hdr_keeps i (k_rcode k) ?b" using a by (simp add: hdr_keeps_def put_one bit_or_iff)
  with r w a assms that show thesis by (simp add: set_aa_def kinv_def cinv_def k_cache_def ans_safe_def)
qed

subsection \<open>Names that do not exist\<close>

lemma last_segs_enc:
  assumes "dns_name ls" and "n < length ls"
  obtains ls' where "last_segs (enc ls @ q) (length ls) n = Some (enc ls' @ q)" "dns_name ls'"
proof
  let ?k = "length ls - n"
  show "last_segs (enc ls @ q) (length ls) n = Some (enc (drop ?k ls) @ q)"
    using dns_name_labels_ok [OF assms(1)] by (simp add: last_segs_def skipsegs_enc drop_enc_labels del: drop_append)
  show "dns_name (drop ?k ls)" by (rule dns_name_drop [OF assms(1)])
qed

lemma copy_ok_qname:
  assumes "copy_ok c"
  obtains ls where "qname c = enc ls" "dns_name ls"
  using assms by (auto simp: copy_ok_def cent_ok_def)

lemma good_add_soa:
  assumes "dns_name ls"
  shows "good i (add_soa (enc ls @ q) soa queryts udp)"
  unfolding good_def
proof (intro allI impI)
  fix k assume k: "kinv i k"
  have n: "rhnsegcnt (enc ls @ q) = Some (length ls)" using dns_name_labels_ok [OF assms] by simp
  let ?goal = "\<exists>ok k'. add_soa (enc ls @ q) soa queryts udp k = Some (ok, k') \<and> cinv k' \<and> (ok \<longrightarrow> kinv i k')"
  show ?goal
  proof (cases "soa = cundef \<or> \<not> unat soa < length ls")
    case True
    with n k show ?thesis by (auto simp: add_soa_def kinv_cinv)
  next
    case False
    then have "unat soa < length ls" by simp
    from last_segs_enc [OF assms this, of q] obtain ls' where
      l: "last_segs (enc ls @ q) (length ls) (unat soa) = Some (enc ls' @ q)" "dns_name ls'" .
    from lookup_copyE [OF k l(2), of q] obtain ae k1 where
      k1: "lookup_copy (enc ls' @ q) k = Some (ae, k1)" "kinv i k1" "\<forall>c. ae = Some c \<longrightarrow> copy_ok c" .
    show ?thesis
    proof (cases ae)
      case None
      with False n l(1) k1 show ?thesis by (simp add: add_soa_def kinv_cinv)
    next
      case (Some c)
      then have c: "copy_ok c" "cent_ok c" "cent_data c" using k1(3) by (simp_all add: copy_ok_def)
      from copy_ok_qname [OF c(1)] obtain qs where qs: "qname c = enc qs" "dns_name qs" .
      have "T_SOA \<in> set is_cached" by (simp add: is_cached_def type_num_defs)
      note g = getrrset_X_slot [OF c(2) this]
      let ?f = "\<lambda>k. case slot c (rr_idx T_SOA) of None \<Rightarrow> Some (True, k)
        | Some rrset \<Rightarrow> if has (rs_flags rrset) CF_NEGATIVE then Some (True, k)
            else add_all (\<lambda>d. with_ans (add_rr (qname c) T_SOA (of_int (ans_ttl rrset queryts)) d S_AUTHORITY udp)) (rs_rrs rrset) k"
      have "good i ?f"
      proof (cases "slot c (rr_idx T_SOA)")
        case None
        then show ?thesis by simp
      next
        case (Some s)
        have "good i (with_ans (add_rr (enc qs @ []) T_SOA (of_int (ans_ttl s queryts)) d S_AUTHORITY udp))" if "d \<in> set (rs_rrs s)" for d
          using slot_data [OF c(3) g(2) Some that] by (rule good_add_rr [OF qs(2)])
        then have "good i (add_all (\<lambda>d. with_ans (add_rr (qname c) T_SOA (of_int (ans_ttl s queryts)) d S_AUTHORITY udp)) (rs_rrs s))"
          by (intro good_add_all) (simp add: qs(1))
        then show ?thesis by (simp only: Some option.case) (intro good_if_fun good_skip)
      qed
      from good_freeing [OF this c(1) k1(2)] False n l(1) k1(1) Some g(1) show ?thesis
        by (simp add: add_soa_def)
    qed
  qed
qed

definition name_buf :: "bytes \<Rightarrow> bool" where
  "name_buf b \<longleftrightarrow> (\<exists>ls q. dns_name ls \<and> b = enc ls @ q) \<and> length b = DNSNAMEBUFSIZE"

text \<open>Operations that may go on in several ways.\<close>

definition good_out :: "bytes \<Rightarrow> (compose \<Rightarrow> (outcome \<times> compose) option) \<Rightarrow> bool" where
  "good_out i f \<longleftrightarrow> (\<forall>k. kinv i k \<longrightarrow> (\<exists>r k'. f k = Some (r, k') \<and> cinv k' \<and> (r \<noteq> To_error \<longrightarrow> kinv i k') \<and>
     (\<forall>nm. r = Again nm \<longrightarrow> name_buf nm)))"

lemma good_resolve_failed:
  assumes "name_buf name"
  shows "good_out i (resolve_failed cf e udp queryts name rc soa)"
  unfolding good_out_def
proof (intro allI impI)
  fix k assume k: "kinv i k"
  from assms obtain ls q where nm: "dns_name ls" "name = enc ls @ q" by (auto simp: name_buf_def)
  from set_rcode_kinv [OF k] obtain k1 where k1: "set_rcode rc k = Some k1" "kinv i k1" .
  have "good i (andthen (add_soa name soa queryts udp) (add_opt cf e))"
    unfolding nm(2) by (intro good_andthen good_add_soa [OF nm(1)] good_add_opt)
  from goodE [OF this k1(2)] obtain ok k2 where
    "andthen (add_soa name soa queryts udp) (add_opt cf e) k1 = Some (ok, k2)" "cinv k2" "ok \<longrightarrow> kinv i k2" .
  with k1 show "\<exists>r k'. resolve_failed cf e udp queryts name rc soa k = Some (r, k') \<and> cinv k' \<and> (r \<noteq> To_error \<longrightarrow> kinv i k') \<and>
     (\<forall>nm. r = Again nm \<longrightarrow> name_buf nm)" by (auto simp: resolve_failed_def kinv_cinv)
qed

subsection \<open>Authority records\<close>

lemma localowner_up_ok:
  assumes "cache_inv st" and "T_MIN \<le> tp" and "tp \<le> T_MAX" and "dns_name (xs @ ls)"
  shows "\<exists>r. localowner_up (enc (xs @ ls)) (length (enc_labels xs)) tp st = Some r \<and>
    (\<forall>p. r = Some p \<longrightarrow> (\<exists>ls'. dns_name ls' \<and> drop p (enc (xs @ ls)) = enc ls'))"
  using assms(4)
proof (induction ls arbitrary: xs)
  case Nil
  have "rd (enc xs) (length (enc_labels xs)) = Some 0" by (simp add: enc_def rd_len_byte)
  then show ?case by (subst localowner_up.simps) simp
next
  case (Cons l ls)
  let ?nm = "l # ls" and ?p = "length (enc_labels xs)" and ?all = "enc (xs @ l # ls)"
  have sub: "dns_name ?nm" using dns_name_drop [OF Cons.prems, of "length xs"] by simp
  have lab: "0 < length l" "length l \<le> 63" using sub by (simp_all add: dns_name_def)
  have split: "?all = enc_labels xs @ of_nat (length l) # l @ enc ls" by (simp add: enc_append)
  then have rdl: "rd ?all ?p = Some (of_nat (length l))" by (simp add: rd_len_byte)
  have lb: "of_nat (length l) \<noteq> (0 :: byte)" "unat (of_nat (length l) :: byte) = length l"
    using len_byte [OF lab] by simp_all
  have dr: "drop ?p ?all = enc ?nm" unfolding split by simp
  have next_pos: "?p + unat (of_nat (length l) :: byte) + 1 = length (enc_labels (xs @ [l]))"
    using lb(2) by (simp add: enc_labels_def enc_label_def)
  have co: "core (dom (cents st)) 0 st" using assms(1) by (simp add: cache_inv_def)
  from core_lookup_find(1) [OF co sub, of "[]"] obtain loc where
    lk: "dns_lookup (qname_at st) (hashtab st) (enc ?nm) = Some (find_name st ?nm, loc)" by auto
  have up: "\<exists>r. localowner_up ?all (?p + unat (of_nat (length l) :: byte) + 1) tp st = Some r \<and>
      (\<forall>p. r = Some p \<longrightarrow> (\<exists>ls'. dns_name ls' \<and> drop p ?all = enc ls'))"
    unfolding next_pos using Cons.IH [of "xs @ [l]"] Cons.prems by simp
  show ?case
  proof (cases "find_name st ?nm")
    case None
    then have "localowner_up ?all ?p tp st = localowner_up ?all (?p + unat (of_nat (length l) :: byte) + 1) tp st"
      using rdl lb(1) lk dr by (subst localowner_up.simps) simp
    with up show ?thesis by simp
  next
    case (Some a)
    from core_lookup_find(3) [OF co sub Some] obtain c where c: "cents st a = Some c" by blast
    have "cent_ok c" using core_cent_ok c co by blast
    from have_rr_some [OF this assms(2,3)] obtain h where "have_rr c tp = Some h" by blast
    then have "localowner_up ?all ?p tp st = (if \<not> has (ce_flags c) DF_LOCAL then Some None
        else if h then Some (Some ?p) else localowner_up ?all (?p + unat (of_nat (length l) :: byte) + 1) tp st)"
      using rdl lb(1) lk dr Some c by (subst localowner_up.simps) simp
    with up dr sub show ?thesis by auto
  qed
qed

lemma getlocalowner_ok:
  assumes "cache_inv st" and "T_MIN \<le> tp" and "tp \<le> T_MAX" and "dns_name ls"
  obtains r where "getlocalowner (enc ls) tp st = Some r"
    "\<forall>p. r = Some p \<longrightarrow> (\<exists>ls'. dns_name ls' \<and> drop p (enc ls) = enc ls')"
proof (cases ls)
  case Nil
  then have "getlocalowner (enc ls) tp st = Some None" by (simp add: getlocalowner_def enc_def rd_def)
  with that show thesis by simp
next
  case (Cons l ls')
  have lab: "0 < length l" "length l \<le> 63" using assms(4) Cons by (simp_all add: dns_name_def)
  have lb: "of_nat (length l) \<noteq> (0 :: byte)" "unat (of_nat (length l) :: byte) = length l"
    using len_byte [OF lab] by simp_all
  have "rd (enc ls) 0 = Some (of_nat (length l))" using Cons by (simp add: enc_Cons enc_label_def rd_def)
  then have "getlocalowner (enc ls) tp st = localowner_up (enc ([l] @ ls')) (length (enc_labels [l])) tp st"
    using lb Cons by (simp add: getlocalowner_def enc_labels_def enc_label_def)
  moreover have "dns_name ([l] @ ls')" using assms(4) Cons by simp
  ultimately show thesis using localowner_up_ok [OF assms(1-3), of "[l]" ls'] that Cons by auto
qed

lemma auth_type_ok:
  assumes "cent_ok c"
  obtains tp where "auth_type c qtype = Some tp" "tp = T_NS \<or> tp = T_SOA"
proof -
  have h: "\<exists>b. have_rr_X c t = Some b" if "T_MIN \<le> t" "t \<le> T_MAX" for t
    using have_rr_X_eq [OF assms, of t] that by auto
  have t: "\<exists>b. have_rr_X c T_MB = Some b" "\<exists>b. have_rr_X c T_MG = Some b" "\<exists>b. have_rr_X c T_MR = Some b"
    "\<exists>b. have_rr_X c T_MD = Some b" "\<exists>b. have_rr_X c T_MF = Some b"
    by (rule h; simp add: type_num_defs T_MIN_def T_MAX_def)+
  have "\<exists>f. (if T_MIN \<le> qtype \<and> qtype \<le> T_MAX then have_rr c qtype
        else if qtype = QT_MAILB then do { a \<leftarrow> have_rr_X c T_MB; b \<leftarrow> have_rr_X c T_MG; d \<leftarrow> have_rr_X c T_MR; Some (a \<or> b \<or> d) }
        else if qtype = QT_MAILA then do { a \<leftarrow> have_rr_X c T_MD; b \<leftarrow> have_rr_X c T_MF; Some (a \<or> b) }
        else Some True) = Some f" (is "\<exists>f. ?e = Some f")
    using have_rr_some [OF assms, of qtype] t by auto
  then obtain f where f: "?e = Some f" by blast
  have "auth_type c qtype = Some (if f then T_NS else T_SOA)" unfolding auth_type_def f by simp
  with that show thesis by (cases f) auto
qed

text \<open>What \<open>authority_set\<close> finds belongs to the entry it hands on.\<close>

lemma authority_set_ok:
  assumes "kinv i k" and "copy_ok c" and "tp = T_NS \<or> tp = T_SOA"
  obtains s cached k' where "authority_set c tp k = Some (s, cached, k')" "kinv i k'"
    "\<forall>ce. cached = Some ce \<longrightarrow> copy_ok ce"
    "\<forall>r. s = Some r \<longrightarrow> (\<exists>ce. cached = Some ce \<and> slot ce (rr_idx tp) = Some r)"
proof -
  have tp: "T_MIN \<le> tp" "tp \<le> T_MAX" "tp \<in> set is_cached"
    using assms(3) by (auto simp: type_num_defs T_MIN_def T_MAX_def is_cached_def)
  have ct: "cached_type tp" using getrrset_X_slot(2) [OF _ tp(3)] assms(2) by (auto simp: copy_ok_def)
  have g: "getrrset ce (int tp) = Some (slot ce (rr_idx tp))" if "copy_ok ce" for ce
    using getrrset_slot [of ce tp] that ct by (simp add: copy_ok_def)
  have so: "set_of cached tp = Some (case cached of None \<Rightarrow> None | Some ce \<Rightarrow> slot ce (rr_idx tp))"
    if "\<forall>ce. cached = Some ce \<longrightarrow> copy_ok ce" for cached
    using g that by (cases cached) (simp_all add: set_of_def)
  have fo: "free_opt cached k1 = Some k1" if "\<forall>ce. cached = Some ce \<longrightarrow> copy_ok ce" "kinv i k1" for cached k1
    using free_copy_ok [OF kinv_cinv] that by (cases cached) (simp_all add: free_opt_def)
  from copy_ok_qname [OF assms(2)] obtain ls where ls: "qname c = enc ls" "dns_name ls" .
  show thesis
  proof (cases "not_negative (slot c (rr_idx tp)) = None")
    case False
    then have "authority_set c tp k = Some (not_negative (slot c (rr_idx tp)), Some c, k)"
      using g [OF assms(2)] by (simp add: authority_set_def)
    moreover have "not_negative (slot c (rr_idx tp)) = slot c (rr_idx tp)"
      using False by (auto simp: not_negative_def split: option.splits if_splits)
    ultimately show thesis using assms(1,2) by (intro that) auto
  next
    case True
    let ?tcnt = "if tp = T_NS then c_ns c else c_soa c"
    have seg: "rhnsegcnt (qname c) = Some (length ls)" using dns_name_labels_ok [OF ls(2)] ls(1) by simp
    obtain ls' where nm: "(if ?tcnt \<noteq> cundef \<and> unat ?tcnt < length ls then last_segs (qname c) (length ls) (unat ?tcnt) else Some (qname c)) =
        Some (enc ls')" "dns_name ls'"
    proof (cases "?tcnt \<noteq> cundef \<and> unat ?tcnt < length ls")
      case True
      with last_segs_enc [OF ls(2), of "unat ?tcnt" "[]"] ls(1) that show thesis by auto
    next
      case False
      with that [of ls] ls show thesis by (simp only: if_False)
    qed
    from lookup_copyE [OF assms(1) nm(2), of "[]"] obtain cached k1 where
      l: "lookup_copy (enc ls') k = Some (cached, k1)" "kinv i k1" "\<forall>ce. cached = Some ce \<longrightarrow> copy_ok ce" by auto
    let ?s1 = "case cached of None \<Rightarrow> None | Some ce \<Rightarrow> slot ce (rr_idx tp)"
    note inv = kinv_cinv [OF l(2), unfolded cinv_def, THEN conjunct1]
    from getlocalowner_ok [OF inv tp(1,2) ls(2)] obtain ow where
      ow: "getlocalowner (qname c) tp (k_cache k1) = Some ow"
        "\<forall>p. ow = Some p \<longrightarrow> (\<exists>ls'. dns_name ls' \<and> drop p (qname c) = enc ls')" unfolding ls(1) .
    define own where "own = (if not_negative ?s1 = None \<and> has (ce_flags c) DF_LOCAL then ow else None)"
    have run: "authority_set c tp k = do {
        (s2, cached2, k2) \<leftarrow> (case own of None \<Rightarrow> Some (not_negative ?s1, cached, k1)
         | Some p \<Rightarrow> do {
             k2 \<leftarrow> free_opt cached k1;
             (cached2, k3) \<leftarrow> lookup_copy (drop p (qname c)) k2;
             s2 \<leftarrow> set_of cached2 tp;
             Some (s2, cached2, k3)
           });
       k3 \<leftarrow> free_copy c k2;
       Some (s2, cached2, k3) }"
      using True g [OF assms(2)] seg nm(1) l(1) so [OF l(3)] ow(1) by (simp add: authority_set_def own_def Let_def)
    show thesis
    proof (cases own)
      case None
      then have "authority_set c tp k = Some (not_negative ?s1, cached, k1)"
        using run free_copy_ok [OF kinv_cinv [OF l(2)] assms(2)] by simp
      moreover have "not_negative ?s1 = Some r \<Longrightarrow> \<exists>ce. cached = Some ce \<and> slot ce (rr_idx tp) = Some r" for r
        by (auto simp: not_negative_def split: option.splits if_splits)
      ultimately show thesis using l by (intro that) auto
    next
      case (Some p)
      with ow(2) obtain os where os: "dns_name os" "drop p (qname c) = enc os" by (auto simp: own_def split: if_splits)
      from lookup_copyE [OF l(2) os(1), of "[]"] obtain cached2 k2 where
        l2: "lookup_copy (enc os) k1 = Some (cached2, k2)" "kinv i k2" "\<forall>ce. cached2 = Some ce \<longrightarrow> copy_ok ce" by auto
      have "authority_set c tp k = Some (case cached2 of None \<Rightarrow> None | Some ce \<Rightarrow> slot ce (rr_idx tp), cached2, k2)"
        using run Some fo [OF l(3,2)] os(2) l2(1) so [OF l2(3)] free_copy_ok [OF kinv_cinv [OF l2(2)] assms(2)] by simp
      with l2 show thesis by (intro that) (auto split: option.splits)
    qed
  qed
qed

lemma good_add_authority_set:
  assumes "\<forall>ce. cached = Some ce \<longrightarrow> copy_ok ce" and "\<forall>r. s = Some r \<longrightarrow> (\<exists>ce. cached = Some ce \<and> slot ce (rr_idx tp) = Some r)"
    and "tp = T_NS \<or> tp = T_SOA"
  shows "good i (add_authority_set queryts tp s cached)"
proof (cases s)
  case None
  then have "add_authority_set queryts tp s cached = (\<lambda>k. Some (True, k))" by (intro ext) (simp add: add_authority_set_def)
  then show ?thesis by simp
next
  case (Some r)
  with assms(1,2) obtain ce where ce: "cached = Some ce" "copy_ok ce" "slot ce (rr_idx tp) = Some r" by blast
  from copy_ok_qname [OF ce(2)] obtain ls where ls: "qname ce = enc ls" "dns_name ls" .
  have "tp \<in> set is_cached" using assms(3) by (auto simp: is_cached_def type_num_defs)
  then have ct: "cached_type tp" using getrrset_X_slot(2) [of ce tp] ce(2) by (simp add: copy_ok_def)
  have "good i (add_ar tp (of_nat (length d)) d (qname ce) (of_int (ans_ttl r queryts)))" if "d \<in> set (rs_rrs r)" for d
    using slot_data [OF _ ct ce(3) that] ce(2) assms(3) ls by (intro good_add_ar [of _ ls]) (simp add: copy_ok_def)
  then have "good i (add_all (\<lambda>d. add_ar tp (of_nat (length d)) d (qname ce) (of_int (ans_ttl r queryts))) (rs_rrs r))"
    by (rule good_add_all)
  moreover have "add_authority_set queryts tp s cached =
      add_all (\<lambda>d. add_ar tp (of_nat (length d)) d (qname ce) (of_int (ans_ttl r queryts))) (rs_rrs r)"
    using Some ce(1) by (intro ext) (simp add: add_authority_set_def)
  ultimately show ?thesis by simp
qed

subsection \<open>The answer section\<close>

text \<open>
  What is relied on of the resolver: it keeps the invariant of the cache, and if it returns \<open>RC_OK\<close> it
  hands over a copy of an entry.
\<close>

definition resolver_ok :: "resolver \<Rightarrow> bool" where
  "resolver_ok resolve \<longleftrightarrow> (\<forall>n ls q qtype soa st rc c soa' st'. dns_name ls \<longrightarrow> cache_inv st \<longrightarrow> data_ok st \<longrightarrow>
     resolve n (enc ls @ q) qtype soa st = (rc, c, soa', st') \<longrightarrow>
     cache_inv st' \<and> data_ok st' \<and> (rc = RC_OK \<longrightarrow> (\<exists>ce. c = Some ce \<and> copy_ok ce)))"

lemma follow_cname_ok:
  assumes "copy_ok c" and "name_buf name"
  obtains r where "follow_cname_chain c name = Some r" "\<forall>nm. r = Some nm \<longrightarrow> name_buf nm"
proof -
  have "T_CNAME \<in> set is_cached" "T_CNAME \<in> set name_types" by (simp_all add: is_cached_def name_types_def type_num_defs)
  note g = getrrset_X_slot [OF _ this(1), of c] and nt = this(2)
  show thesis
  proof (cases "\<exists>s d ds. slot c (rr_idx T_CNAME) = Some s \<and> rs_rrs s = d # ds")
    case False
    with g assms(1) have "follow_cname_chain c name = Some None"
      by (auto simp: follow_cname_chain_def copy_ok_def split: option.splits list.splits)
    with that show thesis by simp
  next
    case True
    then obtain s d ds where s: "slot c (rr_idx T_CNAME) = Some s" "rs_rrs s = d # ds" by blast
    have "rdata_ok T_CNAME d" using slot_data [OF _ g(2) s(1), of d] assms(1) s(2) by (simp add: copy_ok_def)
    from rdata_ok_name [OF this nt] obtain ls where ls: "dns_name ls" "d = enc ls" by blast
    have d: "length d \<le> DNSNAMEBUFSIZE" using ls by (simp add: dns_name_def)
    then have "wr_all name 0 d = Some (enc ls @ drop (length d) name)"
      using assms(2) ls(2) by (simp add: wr_all_def name_buf_def)
    moreover from this have "name_buf (enc ls @ drop (length d) name)"
      using ls assms(2) d by (auto simp: name_buf_def)
    ultimately show thesis using g s d assms(1) that by (simp add: follow_cname_chain_def copy_ok_def)
  qed
qed

lemma good_answer_step:
  assumes "resolver_ok resolve" and "name_buf name"
  shows "good_out i (answer_step cf resolve rdflag e udp queryts qtype name)"
  unfolding good_out_def
proof (intro allI impI)
  fix k assume k: "kinv i k"
  let ?goal = "\<exists>r k'. answer_step cf resolve rdflag e udp queryts qtype name k = Some (r, k') \<and> cinv k' \<and>
    (r \<noteq> To_error \<longrightarrow> kinv i k') \<and> (\<forall>nm. r = Again nm \<longrightarrow> name_buf nm)"
  from assms(2) obtain ls q where nm: "dns_name ls" "name = enc ls @ q" by (auto simp: name_buf_def)
  obtain rc cached soa st1 where r: "resolve (k_calls k) name qtype cundef (k_cache k) = (rc, cached, soa, st1)"
    by (cases "resolve (k_calls k) name qtype cundef (k_cache k)")
  have c: "cache_inv (k_cache k)" "data_ok (k_cache k)" using kinv_cinv [OF k] by (simp_all add: cinv_def)
  have st1: "cache_inv st1" "data_ok st1" "rc = RC_OK \<longrightarrow> (\<exists>ce. cached = Some ce \<and> copy_ok ce)"
    using assms(1) nm(1) c r unfolding resolver_ok_def nm(2) by blast+
  define k1 where "k1 = set_cache st1 (k\<lparr>k_calls := k_calls k + 1\<rparr>)"
  have k1: "kinv i k1" unfolding k1_def using k st1 by (intro kinv_set_cache) simp_all
  show ?goal
  proof (cases "rc = RC_OK")
    case False
    with r have "answer_step cf resolve rdflag e udp queryts qtype name k = resolve_failed cf e udp queryts name rc soa k1"
      by (simp add: answer_step_def k1_def)
    then show ?thesis using good_resolve_failed [OF assms(2), unfolded good_out_def, rule_format, OF k1] by simp
  next
    case True
    with st1(3) obtain ce where ce: "cached = Some ce" "copy_ok ce" by blast
    then have ok: "cent_ok ce" by (simp add: copy_ok_def)
    define k2 where "k2 = (if has (ce_flags ce) DF_LOCAL then k1 else k1\<lparr>k_aa := False\<rparr>)"
    have k2: "kinv i k2" using k1 by (simp add: k2_def)
    note g = good_add_to_response [OF ce(2) nm(1), of i cf q qtype queryts udp, folded nm(2)]
    from goodE [OF g k2] obtain okr k3 where
      k3: "add_to_response cf name qtype queryts ce udp k2 = Some (okr, k3)" "cinv k3" "okr \<longrightarrow> kinv i k3" .
    note fr = free_copy_ok [OF k3(2) ce(2)]
    obtain hv where h: "(if rdflag \<and> qtype \<noteq> T_CNAME \<and> qtype \<noteq> QT_ALL then has_qtype ce qtype else Some True) = Some hv"
      using has_qtype_some [OF ok, of qtype] by (cases "rdflag \<and> qtype \<noteq> T_CNAME \<and> qtype \<noteq> QT_ALL") auto
    from follow_cname_ok [OF ce(2) assms(2)] obtain fl where
      fl: "follow_cname_chain ce name = Some fl" "\<forall>nm. fl = Some nm \<longrightarrow> name_buf nm" .
    from auth_type_ok [OF ok, of qtype] obtain tp where tp: "auth_type ce qtype = Some tp" "tp = T_NS \<or> tp = T_SOA" .
    define nx where "nx = (if hv then None else fl)"
    have run: "answer_step cf resolve rdflag e udp queryts qtype name k =
       (if \<not> okr then Some (To_error, k3)
        else case nx of Some name' \<Rightarrow> Some (Again name', k3)
          | None \<Rightarrow> do {
              (s, cached', k4) \<leftarrow> authority_set ce tp k3;
              (ok', k5) \<leftarrow> add_authority_set queryts tp s cached' k4;
              k6 \<leftarrow> free_opt cached' k5;
              Some (if ok' then Answered else To_error, k6)
            })"
      unfolding answer_step_def r Let_def prod.case ce(1) bind.bind_lunit k1_def [symmetric] k2_def [symmetric] k3(1) h fl(1) tp(1)
      using True fr by (cases hv; cases fl) (simp_all add: nx_def)
    show ?thesis
    proof (cases okr)
      case False
      with run k3(2) show ?thesis by simp
    next
      case True
      note k3' = k3(3) [THEN mp, OF True]
      show ?thesis
      proof (cases nx)
        case (Some name')
        then have "name_buf name'" using fl(2) by (auto simp: nx_def split: if_splits)
        with run True Some k3(2) k3' show ?thesis by simp
      next
        case None
        from authority_set_ok [OF k3' ce(2) tp(2)] obtain s cached' k4 where
          a: "authority_set ce tp k3 = Some (s, cached', k4)" "kinv i k4" "\<forall>ce. cached' = Some ce \<longrightarrow> copy_ok ce"
          "\<forall>r. s = Some r \<longrightarrow> (\<exists>ce. cached' = Some ce \<and> slot ce (rr_idx tp) = Some r)" .
        from goodE [OF good_add_authority_set [OF a(3,4) tp(2)] a(2)] obtain ok' k5 where
          k5: "add_authority_set queryts tp s cached' k4 = Some (ok', k5)" "cinv k5" "ok' \<longrightarrow> kinv i k5" .
        have "free_opt cached' k5 = Some k5" using free_copy_ok [OF k5(2)] a(3) by (cases cached') (simp_all add: free_opt_def)
        with run True None a(1) k5 show ?thesis by simp
      qed
    qed
  qed
qed

lemma good_answer_rounds:
  assumes "resolver_ok resolve"
  shows "name_buf name \<Longrightarrow> good_out i (answer_rounds n cf resolve rdflag e udp queryts qtype name)"
proof (induction n arbitrary: name)
  case 0
  show ?case by (auto simp: good_out_def kinv_cinv)
next
  case (Suc n)
  show ?case
    unfolding good_out_def
  proof (intro allI impI)
    fix k assume k: "kinv i k"
    from good_answer_step [OF assms Suc.prems, of i cf rdflag e udp queryts qtype] k obtain r k1 where
      s: "answer_step cf resolve rdflag e udp queryts qtype name k = Some (r, k1)" "cinv k1" "r \<noteq> To_error \<longrightarrow> kinv i k1"
        "\<forall>nm. r = Again nm \<longrightarrow> name_buf nm" unfolding good_out_def by blast
    show "\<exists>r k'. answer_rounds (Suc n) cf resolve rdflag e udp queryts qtype name k = Some (r, k') \<and> cinv k' \<and>
      (r \<noteq> To_error \<longrightarrow> kinv i k') \<and> (\<forall>nm. r = Again nm \<longrightarrow> name_buf nm)"
    proof (cases r)
      case (Again nm)
      with s have k1: "kinv i k1" "name_buf nm" by simp_all
      from Suc.IH [OF k1(2)] k1(1) obtain r' k' where
        "answer_rounds n cf resolve rdflag e udp queryts qtype nm k1 = Some (r', k')" "cinv k'" "r' \<noteq> To_error \<longrightarrow> kinv i k'"
        "\<forall>nm. r' = Again nm \<longrightarrow> name_buf nm" unfolding good_out_def by blast
      with s(1) Again show ?thesis by simp
    qed (use s in simp_all)
  qed
qed

lemma rhncpy_buf:
  assumes "dns_name ls"
  obtains b where "rhncpy (replicate DNSNAMEBUFSIZE 0) 0 (enc ls) = Some (length (enc ls), b)" "name_buf b"
proof -
  have l: "length (enc ls) \<le> DNSNAMEBUFSIZE" using assms by (simp add: dns_name_def)
  then have "rhncpy (replicate DNSNAMEBUFSIZE 0) 0 (enc ls) = Some (length (enc ls), enc ls @ replicate (DNSNAMEBUFSIZE - length (enc ls)) 0)"
    using dns_name_labels_ok [OF assms] by (simp add: rhncpy_def rd_all_def wr_all_def)
  with assms l that show thesis by (auto simp: name_buf_def)
qed

text \<open>The result of a round is never to go on for ever.\<close>

lemma answer_rounds_ends: "answer_rounds n cf resolve rdflag e udp queryts qtype name k = Some (r, k') \<Longrightarrow> \<forall>nm. r \<noteq> Again nm"
  by (induction n arbitrary: name k) (auto split: bind_splits outcome.splits)

lemma good_answer_questions:
  assumes "resolver_ok resolve"
  shows "list_all qe_ok ql \<Longrightarrow> good_out i (answer_questions cf resolve rdflag e udp queryts ql)"
proof (induction ql)
  case Nil
  show ?case by (auto simp: good_out_def kinv_cinv)
next
  case (Cons qe ql)
  then obtain ls where ls: "dns_name ls" "qe_query qe = enc ls" by (auto simp: qe_ok_def)
  from rhncpy_buf [OF ls(1)] obtain b where b: "rhncpy (replicate DNSNAMEBUFSIZE 0) 0 (enc ls) = Some (length (enc ls), b)" "name_buf b" .
  show ?case
    unfolding good_out_def
  proof (intro allI impI)
    fix k assume k: "kinv i k"
    from good_answer_rounds [OF assms b(2), of i "MAX_HOPS + 1" cf rdflag e udp queryts "unat (qe_qtype qe)"] k obtain r k1 where
      s: "answer_rounds (MAX_HOPS + 1) cf resolve rdflag e udp queryts (unat (qe_qtype qe)) b k = Some (r, k1)" "cinv k1"
        "r \<noteq> To_error \<longrightarrow> kinv i k1" "\<forall>nm. r = Again nm \<longrightarrow> name_buf nm" unfolding good_out_def by blast
    have run: "answer_questions cf resolve rdflag e udp queryts (qe # ql) k =
        (case r of Answered \<Rightarrow> answer_questions cf resolve rdflag e udp queryts ql k1 | _ \<Rightarrow> Some (r, k1))"
      unfolding answer_questions.simps ls(2) b(1) bind.bind_lunit prod.case s(1) ..
    show "\<exists>r k'. answer_questions cf resolve rdflag e udp queryts (qe # ql) k = Some (r, k') \<and> cinv k' \<and>
      (r \<noteq> To_error \<longrightarrow> kinv i k') \<and> (\<forall>nm. r = Again nm \<longrightarrow> name_buf nm)"
    proof (cases r)
      case Answered
      with s(3) have "kinv i k1" by simp
      with Cons have "\<exists>r k'. answer_questions cf resolve rdflag e udp queryts ql k1 = Some (r, k') \<and> cinv k' \<and>
        (r \<noteq> To_error \<longrightarrow> kinv i k') \<and> (\<forall>nm. r = Again nm \<longrightarrow> name_buf nm)" unfolding good_out_def by simp
      then show ?thesis unfolding run Answered by simp
    qed (use s run in simp_all)
  qed
qed

subsection \<open>The other sections\<close>

lemma good_add_authority: "list_all ar_ok ar \<Longrightarrow> good i (add_authority udp ar)"
proof (induction ar)
  case Nil
  have "add_authority udp [] = (\<lambda>k. Some (True, k))" by (rule ext) simp
  then show ?case by simp
next
  case (Cons rre ar)
  let ?f = "\<lambda>k. if re_tp rre = T_NS \<or> re_tp rre = T_SOA then do {
          data \<leftarrow> rd_all (re_tnm rre) 0 (re_tsz rre);
          add_additional_rr (drop (re_tsz rre) (re_tnm rre)) (re_tp rre) (re_ttl rre) S_AUTHORITY udp data k
        } else Some (True, k)"
  have "good i ?f"
  proof (cases "re_tp rre = T_NS \<or> re_tp rre = T_SOA")
    case False
    then have "?f = (\<lambda>k. Some (True, k))" by (intro ext) simp
    then show ?thesis by (simp only: good_skip)
  next
    case True
    moreover have "ar_ok rre" using Cons.prems by simp
    ultimately have "\<exists>ls d. dns_name ls \<and> re_tnm rre = d @ enc ls \<and> re_tsz rre = length d \<and> rdata_ok (re_tp rre) d"
      unfolding ar_ok_def by blast
    then obtain ls d where e: "dns_name ls" "re_tnm rre = d @ enc ls" "re_tsz rre = length d" "rdata_ok (re_tp rre) d"
      by blast
    then have "?f = add_additional_rr (enc ls @ []) (re_tp rre) (re_ttl rre) S_AUTHORITY udp d"
      using True by (intro ext) (simp add: rd_all_def)
    then show ?thesis using good_add_additional_rr [OF e(1,4)] by (simp only:)
  qed
  moreover have "add_authority udp (rre # ar) = andthen ?f (add_authority udp ar)" by (rule ext) simp
  ultimately show ?case using Cons by (simp add: good_andthen)
qed

lemma good_add_addresses: "list_all ar_ok ar \<Longrightarrow> good i (add_addresses cf queryts udp ar)"
proof (induction ar)
  case Nil
  have "add_addresses cf queryts udp [] = (\<lambda>k. Some (True, k))" by (rule ext) simp
  then show ?case by simp
next
  case (Cons rre ar)
  let ?f = "\<lambda>k. if re_tp rre = T_NS \<or> re_tp rre = RRETP_ADD then add_additional_a cf (re_tnm rre) queryts udp k else Some (True, k)"
  have "good i ?f"
  proof (rule good_if_fun [OF _ good_skip(2)])
    assume "re_tp rre = T_NS \<or> re_tp rre = RRETP_ADD"
    with Cons.prems obtain ls q where "dns_name ls" "re_tnm rre = enc ls @ q" by (auto simp: ar_ok_def)
    then show "good i (add_additional_a cf (re_tnm rre) queryts udp)" by (simp add: good_add_additional_a)
  qed
  moreover have "add_addresses cf queryts udp (rre # ar) = andthen ?f (add_addresses cf queryts udp ar)" by (rule ext) simp
  ultimately show ?case using Cons by (simp add: good_andthen)
qed

text \<open>The lists an operation goes through are those at its start.\<close>

lemma good_at: "(\<And>k. kinv i k \<Longrightarrow> good i (f k)) \<Longrightarrow> good i (\<lambda>k. f k k)"
  unfolding good_def by blast

lemma good_add_additional: "good i (add_additional cf e udp queryts)"
proof -
  let ?f = "\<lambda>ar k. if (case udp of None \<Rightarrow> False | Some u \<Rightarrow> u < a_sz (k_ans k) + sizeof_opt_pseudo_rr) then Some (True, k)
      else andthen (add_opt cf e) (add_addresses cf queryts udp ar) k"
  have "good i (?f (k_ar k))" if "kinv i k" for k
  proof -
    from that have "list_all ar_ok (k_ar k)" by (simp add: kinv_def)
    then have "good i (andthen (add_opt cf e) (add_addresses cf queryts udp (k_ar k)))"
      by (intro good_andthen good_add_opt good_add_addresses)
    then show ?thesis unfolding good_def by (auto simp: kinv_cinv)
  qed
  then have "good i (\<lambda>k. ?f (k_ar k) k)" by (rule good_at [where f = "\<lambda>k. ?f (k_ar k)"])
  moreover have "add_additional cf e udp queryts = (\<lambda>k. ?f (k_ar k) k)"
    by (intro ext) (simp add: add_additional_def)
  ultimately show ?thesis by (simp only:)
qed

lemma good_finish: "good_out i (finish_answer cf e udp queryts)"
  unfolding good_out_def
proof (intro allI impI)
  fix k assume k: "kinv i k"
  then have "list_all ar_ok (k_ar k)" by (simp add: kinv_def)
  then have "good i (andthen (add_authority udp (k_ar k)) (add_additional cf e udp queryts))"
    by (intro good_andthen good_add_authority good_add_additional)
  from goodE [OF this k] obtain ok k1 where
    k1: "andthen (add_authority udp (k_ar k)) (add_additional cf e udp queryts) k = Some (ok, k1)" "cinv k1" "ok \<longrightarrow> kinv i k1" .
  show "\<exists>r k'. finish_answer cf e udp queryts k = Some (r, k') \<and> cinv k' \<and> (r \<noteq> To_error \<longrightarrow> kinv i k') \<and>
     (\<forall>nm. r = Again nm \<longrightarrow> name_buf nm)"
  proof (cases "ok \<and> k_aa k1")
    case False
    with k1 show ?thesis by (auto simp: finish_answer_def)
  next
    case True
    with k1(3) have "kinv i k1" by simp
    from set_aa_kinv [OF this] obtain k2 where "set_aa k1 = Some k2" "kinv i k2" .
    with k1(1) True show ?thesis by (simp add: finish_answer_def kinv_cinv)
  qed
qed

lemma good_compose_body:
  assumes "resolver_ok resolve" and "list_all qe_ok ql"
  shows "good_out i (compose_body cf resolve ql rdflag e udp queryts)"
  unfolding good_out_def
proof (intro allI impI)
  fix k assume k: "kinv i k"
  let ?P = "\<lambda>x. \<exists>r k'. x = Some (r, k') \<and> cinv k' \<and> (r \<noteq> To_error \<longrightarrow> kinv i k') \<and> (\<forall>nm. r = Again nm \<longrightarrow> name_buf nm)"
  from goodE [OF good_put_questions [OF assms(2)] k] obtain ok k1 where
    k1: "put_questions ql k = Some (ok, k1)" "cinv k1" "ok \<longrightarrow> kinv i k1" .
  show "?P (compose_body cf resolve ql rdflag e udp queryts k)"
  proof (cases ok)
    case False
    with k1 show ?thesis by (simp add: compose_body_def)
  next
    case True
    then have i1: "kinv i k1" using k1(3) by simp
    show ?thesis
    proof (cases "list_ex unsupported ql")
      case True
      from set_rcode_kinv [OF i1] obtain k2 where "set_rcode RC_NOTSUPP k1 = Some k2" "kinv i k2" .
      with True \<open>ok\<close> k1(1) show ?thesis by (simp add: compose_body_def kinv_cinv)
    next
      case False
      from good_answer_questions [OF assms, of i cf rdflag e udp queryts] i1 obtain r k2 where
        k2: "answer_questions cf resolve rdflag e udp queryts ql k1 = Some (r, k2)" "cinv k2" "r \<noteq> To_error \<longrightarrow> kinv i k2"
          "\<forall>nm. r = Again nm \<longrightarrow> name_buf nm" unfolding good_out_def by blast
      have run: "compose_body cf resolve ql rdflag e udp queryts k =
          (if r = Answered then finish_answer cf e udp queryts k2 else Some (r, k2))"
        using k1(1) \<open>ok\<close> False k2(1) by (simp add: compose_body_def)
      show ?thesis
      proof (cases "r = Answered")
        case True
        with k2(3) have "kinv i k2" by simp
        with good_finish [of i cf e udp queryts] have "?P (finish_answer cf e udp queryts k2)" unfolding good_out_def by blast
        then show ?thesis unfolding run using True by simp
      next
        case False
        with run k2 show ?thesis by simp
      qed
    qed
  qed
qed

subsection \<open>The whole answer\<close>

lemma bit_at_bit: "bit (bit_at n b) m \<longleftrightarrow> b \<and> m = n \<and> n < 8"
  by (cases b) (auto simp: bit_at_def bit_simps)

lemma new_answer_kinv:
  assumes "cache_inv st" and "data_ok st"
  shows "kinv (be16 (h_id hdr)) \<lparr>k_ans = new_answer hdr st, k_sva = [], k_ar = [], k_rcode = RC_OK, k_aa = b, k_rnd = rnd, k_calls = n\<rparr>"
proof -
  have "hdr_keeps (be16 (h_id hdr)) RC_OK (bytes_of_hdr (answer_hdr hdr) @ z)" for z
  proof -
    have "take 2 (bytes_of_hdr h @ z) = be16 (h_id h)" for h
      by (simp add: bytes_of_hdr_def be16_def)
    moreover have "bit ((bytes_of_hdr (answer_hdr hdr) @ z) ! 2) 7"
      by (simp add: bytes_of_hdr_def answer_hdr_def bit_simps bit_at_bit)
    moreover have "ucast ((bytes_of_hdr (answer_hdr hdr) @ z) ! 3) = (of_nat RC_OK :: 4 word)"
      by (rule bit_word_eqI) (auto simp: bytes_of_hdr_def answer_hdr_def bit_simps bit_at_bit RC_OK_def)
    ultimately show ?thesis by (simp add: hdr_keeps_def) (simp add: answer_hdr_def)
  qed
  with assms show ?thesis
    by (simp add: kinv_def cinv_def k_cache_def new_answer_def ans_safe_def bytes_of_hdr_arcount(3) cb_names_def)
qed

lemma compose_answer_spec:
  assumes "cache_inv st" and "data_ok st" and "resolver_ok resolve" and "list_all qe_ok ql"
  obtains ans rc st' where "compose_answer cf resolve ql hdr e udp queryts rnd st = Some (ans, rc, st')"
    "cache_inv st'" "data_ok st'"
    "\<forall>buf len. ans = Some (buf, len) \<longrightarrow> sizeof_dns_hdr \<le> len \<and> len \<le> length buf \<and> hdr_keeps (be16 (h_id hdr)) rc buf"
proof -
  obtain ok m where m: "malloc st = (ok, st\<lparr>mem := m\<rparr>)" using malloc_step by blast
  have st1: "cache_inv (st\<lparr>mem := m\<rparr>)" "data_ok (st\<lparr>mem := m\<rparr>)" using assms(1,2) by (simp_all add: cache_inv_def data_ok_def)
  show thesis
  proof (cases ok)
    case False
    with m st1 show thesis by (intro that [of None RC_OK "st\<lparr>mem := m\<rparr>"]) (simp_all add: compose_answer_def)
  next
    case True
    let ?k = "\<lparr>k_ans = new_answer hdr (st\<lparr>mem := m\<rparr>), k_sva = [], k_ar = [], k_rcode = RC_OK, k_aa = True, k_rnd = rnd, k_calls = 0\<rparr>"
    note i = new_answer_kinv [OF st1, of hdr True rnd 0]
    from good_compose_body [OF assms(3,4), of "be16 (h_id hdr)" cf "h_rd hdr" e udp queryts] i obtain r k where
      r: "compose_body cf resolve ql (h_rd hdr) e udp queryts ?k = Some (r, k)" "cinv k" "r \<noteq> To_error \<longrightarrow> kinv (be16 (h_id hdr)) k"
      unfolding good_out_def by blast
    have run: "compose_answer cf resolve ql hdr e udp queryts rnd st =
        Some (if r = To_error then None else Some (a_buf (k_ans k), a_sz (k_ans k)), k_rcode k, k_cache k)"
      using m True r(1) by (simp add: compose_answer_def)
    show thesis
    proof (rule that [OF run])
      show "cache_inv (k_cache k)" "data_ok (k_cache k)" using r(2) by (simp_all add: cinv_def)
      show "\<forall>buf len. (if r = To_error then None else Some (a_buf (k_ans k), a_sz (k_ans k))) = Some (buf, len) \<longrightarrow>
          sizeof_dns_hdr \<le> len \<and> len \<le> length buf \<and> hdr_keeps (be16 (h_id hdr)) (k_rcode k) buf"
        using r(3) by (auto simp: kinv_def ans_safe_def)
    qed
  qed
qed

end
