(* ===== verification/Answer_Process.thy ===== *)
theory Answer_Process
  imports Answer_Safe
begin

text \<open>
  Queries: decoding stays inside the message and makes a list of names, and \<open>process_query\<close> returns
  for whatever bytes a client sends, with a reply that belongs to the query or with none.
\<close>

subsection \<open>Decoding\<close>

lemma decode_questions_spec:
  assumes "ptr + sz \<le> length data" and "list_all qe_ok qp"
  shows "\<exists>res ql ptr' sz' m. decode_questions n data (length data) ptr sz qp st = Some (res, ql, ptr', sz', st\<lparr>mem := m\<rparr>) \<and>
    list_all qe_ok ql \<and> ptr' + sz' \<le> length data \<and> res \<in> {RC_OK, RC_TRUNC, RC_FORMAT, RC_SERVFAIL}"
  using assms
proof (induction n arbitrary: ptr sz qp st)
  case 0
  then show ?case by (intro exI [of _ RC_OK] exI [of _ qp] exI [of _ ptr] exI [of _ sz] exI [of _ "mem st"]) simp
next
  case (Suc n)
  from Suc.prems(1) show ?case
  proof (cases rule: decompress_name_at)
    case (bad rc)
    with Suc.prems show ?thesis
      by (intro exI [of _ rc] exI [of _ "if rc = RC_TRUNC then qp else []"] exI [of _ ptr] exI [of _ sz] exI [of _ "mem st"]) auto
  next
    case (name p1 s1 ls b)
    show ?thesis
    proof (cases "s1 < 4")
      case True
      with name Suc.prems show ?thesis
        by (intro exI [of _ RC_TRUNC] exI [of _ qp] exI [of _ p1] exI [of _ s1] exI [of _ "mem st"]) simp
    next
      case False
      obtain ok m where m: "malloc st = (ok, st\<lparr>mem := m\<rparr>)" using malloc_step by blast
      show ?thesis
      proof (cases ok)
        case False
        with name \<open>\<not> s1 < 4\<close> m Suc.prems show ?thesis
          by (intro exI [of _ RC_SERVFAIL] exI [of _ "[]"] exI [of _ p1] exI [of _ s1] exI [of _ m]) simp
      next
        case True
        have l: "p1 + 4 \<le> length data" using name(4) False Suc.prems(1) by simp
        then obtain t where t: "GETINT16 data p1 = Some (t, p1 + 2)" using GETINT16_some [of p1 data] by auto
        obtain c where c: "GETINT16 data (p1 + 2) = Some (c, p1 + 2 + 2)" using GETINT16_some [of "p1 + 2" data] l by auto
        let ?qp = "qp @ [\<lparr>qe_qtype = t, qe_qclass = c, qe_query = enc ls\<rparr>]"
        have run: "decode_questions (Suc n) data (length data) ptr sz qp st =
            decode_questions n data (length data) (p1 + 2 + 2) (s1 - 4) ?qp (st\<lparr>mem := m\<rparr>)"
          using name(1,3) False m True t c by (simp del: add_2_eq_Suc add_2_eq_Suc')
        have "qe_ok \<lparr>qe_qtype = t, qe_qclass = c, qe_query = enc ls\<rparr>" using name(2) by (auto simp: qe_ok_def)
        then have "list_all qe_ok ?qp" using Suc.prems(2) by simp
        moreover have "p1 + 2 + 2 + (s1 - 4) \<le> length data" using name(4) False Suc.prems(1) by simp
        ultimately obtain res ql ptr' sz' m' where
          "decode_questions n data (length data) (p1 + 2 + 2) (s1 - 4) ?qp (st\<lparr>mem := m\<rparr>) = Some (res, ql, ptr', sz', st\<lparr>mem := m, mem := m'\<rparr>)"
          "list_all qe_ok ql" "ptr' + sz' \<le> length data" "res \<in> {RC_OK, RC_TRUNC, RC_FORMAT, RC_SERVFAIL}"
          using Suc.IH [of "p1 + 2 + 2" "s1 - 4" ?qp "st\<lparr>mem := m\<rparr>"] by blast
        then show ?thesis unfolding run
          by (intro exI [of _ res] exI [of _ ql] exI [of _ ptr'] exI [of _ sz'] exI [of _ m']) simp
      qed
    qed
  qed
qed

lemma decode_query_spec:
  assumes "sizeof_dns_hdr \<le> length data"
  obtains res ql ptr sz m where "decode_query data (length data) st = Some (res, ql, ptr, sz, st\<lparr>mem := m\<rparr>)"
    "list_all qe_ok ql" "ptr + sz \<le> length data" "res \<in> {RC_OK, RC_TRUNC, RC_FORMAT, RC_SERVFAIL}"
proof -
  from GETINT16_some [of 4 data] assms obtain q where q: "ntohs_at data 4 = Some q"
    by (auto simp: ntohs_at_def sizeof_dns_hdr_def)
  have "sizeof_dns_hdr + (length data - sizeof_dns_hdr) \<le> length data" using assms by simp
  moreover have "list_all qe_ok []" by simp
  ultimately obtain res ql ptr sz m where
    "decode_questions (unat q) data (length data) sizeof_dns_hdr (length data - sizeof_dns_hdr) [] st = Some (res, ql, ptr, sz, st\<lparr>mem := m\<rparr>)"
    "list_all qe_ok ql" "ptr + sz \<le> length data" "res \<in> {RC_OK, RC_TRUNC, RC_FORMAT, RC_SERVFAIL}"
    using decode_questions_spec [of sizeof_dns_hdr "length data - sizeof_dns_hdr" data "[]" "unat q" st] by blast
  with q show thesis by (intro that) (simp_all only: decode_query_def bind.bind_lunit)
qed

lemma decode_query_additional_some:
  assumes "ptr + sz \<le> length data" and "sizeof_dns_hdr \<le> length data"
  shows "\<exists>r. decode_query_additional n data (length data) ptr sz numopt ep = Some r"
  using assms(1)
proof (induction n arbitrary: ptr sz numopt ep)
  case (Suc n)
  from Suc.prems show ?case
  proof (cases rule: decompress_name_at)
    case (bad rc)
    then show ?thesis by simp
  next
    case (name p s ls b)
    show ?thesis
    proof (cases "s < sizeof_rr_hdr_t")
      case True
      with name(1) show ?thesis by simp
    next
      case False
      then have l: "p + 10 \<le> length data" using name(4) Suc.prems by (simp add: sizeof_rr_hdr_t_def)
      obtain t where t: "GETINT16 data p = Some (t, p + 2)" using GETINT16_some [of p data] l by auto
      obtain c where c: "GETINT16 data (p + 2) = Some (c, p + 2 + 2)" using GETINT16_some [of "p + 2" data] l by auto
      obtain d where d: "GETINT16 data (p + 2 + 2 + 4) = Some (d, p + 2 + 2 + 4 + 2)" using GETINT16_some [of "p + 2 + 2 + 4" data] l by auto
      have "\<exists>rc t0 t1 t2. msg_rcode data = Some rc \<and> rd data (p + 2 + 2) = Some t0 \<and> rd data (p + 2 + 2 + 1) = Some t1 \<and> rd data (p + 2 + 2 + 2) = Some t2"
        using l assms(2) by (auto simp: msg_rcode_def rd_def sizeof_dns_hdr_def)
      then obtain rc t0 t1 t2 where b: "msg_rcode data = Some rc" "rd data (p + 2 + 2) = Some t0" "rd data (p + 2 + 2 + 1) = Some t1" "rd data (p + 2 + 2 + 2) = Some t2"
        by blast
      show ?thesis
      proof (cases "s - sizeof_rr_hdr_t < unat d")
        case True
        with name(1) False t c d show ?thesis by (simp del: add_2_eq_Suc add_2_eq_Suc')
      next
        case short: False
        have "p + 2 + 2 + 4 + 2 + unat d + (s - sizeof_rr_hdr_t - unat d) \<le> length data"
          using name(4) Suc.prems False short by (simp add: sizeof_rr_hdr_t_def)
        note IH = Suc.IH [OF this]
        show ?thesis
          using name(1) False t c d short b IH by (simp del: add_2_eq_Suc add_2_eq_Suc')
      qed
    qed
  qed
qed simp

lemma check_edns_some:
  assumes "ptr + sz \<le> length data" and "sizeof_dns_hdr \<le> length data"
  obtains (bad) res' where "check_edns cf data (length data) ptr sz hdr res udp = Some (Inl res')" "res' = RC_FORMAT \<or> res' = RC_BADVERS"
  | (good) e udp' where "check_edns cf data (length data) ptr sz hdr res udp = Some (Inr (e, udp'))"
proof -
  from decode_query_additional_some [OF assms] obtain rc n ep where
    "decode_query_additional (unat (h_arcount hdr)) data (length data) ptr sz 0 \<lparr>ei_udpsize = 0, ei_rcode = 0, ei_version = 0, ei_do_flg = 0\<rparr> =
      Some (rc, n, ep)" by (metis prod.exhaust)
  then have "\<exists>r. check_edns cf data (length data) ptr sz hdr res udp = Some r \<and> (\<forall>rc'. r = Inl rc' \<longrightarrow> rc' = RC_FORMAT \<or> rc' = RC_BADVERS)"
    by (auto simp: check_edns_def)
  with that show thesis by (metis sum.exhaust prod.exhaust)
qed

subsection \<open>process_query\<close>

text \<open>A reply to the message \<open>data\<close>, and what is left of the cache.\<close>

definition replies :: "bytes \<Rightarrow> reply \<Rightarrow> bool" where
  "replies data r \<longleftrightarrow> cache_inv (r_cache r) \<and> data_ok (r_cache r) \<and>
     (\<forall>buf len. r_ans r = Some (buf, len) \<longrightarrow> sizeof_dns_hdr \<le> len \<and> len \<le> length buf \<and> take 2 buf = take 2 data \<and>
        (\<exists>h rc. hdr_of_bytes buf = Some h \<and> h_qr h \<and> r_rcode r = Some rc \<and> h_rcode h = of_nat rc))"

lemma error_reply_replies:
  assumes "2 \<le> length data" and "res < 4096" and "cache_inv st" and "data_ok st"
  shows "\<exists>r. error_reply cf data (length data) res udp st = Some r \<and> replies data r"
proof -
  from error_reply_spec [OF assms(1) order_refl assms(2), of cf udp st 0] obtain r m where
    r: "error_reply cf data (length data) res udp st = Some r" "r_rcode r = Some res" "r_cache r = st\<lparr>mem := m\<rparr>"
    and ans: "\<And>buf len. r_ans r = Some (buf, len) \<Longrightarrow> (len = (if res < 16 then 12 else 23)) \<and> length buf = len \<and> take 2 buf = take 2 data \<and>
      (\<exists>h. hdr_of_bytes buf = Some h \<and> h_qr h \<and> h_rcode h = of_nat res)" by fastforce
  have "cache_inv (r_cache r) \<and> data_ok (r_cache r)" using r(3) assms(3,4) by (simp add: cache_inv_def data_ok_def)
  with r(1,2) ans show ?thesis by (fastforce simp: replies_def sizeof_dns_hdr_def)
qed

lemma hdr_of_bytes_some:
  assumes "sizeof_dns_hdr \<le> length b"
  obtains h where "hdr_of_bytes b = Some h" "h_qr h = bit (b ! 2) 7" "h_rcode h = ucast (b ! 3)" "be16 (h_id h) = take 2 b"
proof -
  have n: "\<exists>v. ntohs_at b i = Some v" if "i + 2 \<le> 12" for i
    using GETINT16_some [of i b] assms that by (auto simp: ntohs_at_def sizeof_dns_hdr_def)
  obtain c0 c1 t where d: "b = c0 # c1 # t"
    using assms by (cases b; cases "tl b") (auto simp: sizeof_dns_hdr_def)
  have "ntohs_at b 0 = Some (push_bit 8 (ucast c0) OR ucast c1)"
    by (simp add: d ntohs_at_def GETINT16_def rd_def)
  moreover obtain q a s r where "ntohs_at b 4 = Some q" "ntohs_at b 6 = Some a" "ntohs_at b 8 = Some s" "ntohs_at b 10 = Some r"
    using n [of 4] n [of 6] n [of 8] n [of 10] by auto
  moreover have "rd b 2 = Some (b ! 2)" "rd b 3 = Some (b ! 3)" using assms by (simp_all add: rd_def sizeof_dns_hdr_def)
  moreover have "be16 (push_bit 8 (ucast c0) OR ucast c1) = take 2 b" using split16 [of c0 c1] by (simp add: d)
  ultimately have "\<exists>h. hdr_of_bytes b = Some h \<and> h_qr h = bit (b ! 2) 7 \<and> h_rcode h = ucast (b ! 3) \<and> be16 (h_id h) = take 2 b"
    by (simp add: hdr_of_bytes_def)
  with that show thesis by blast
qed

lemma hdr_of_bytes_length: "hdr_of_bytes b = Some h \<Longrightarrow> sizeof_dns_hdr \<le> length b"
  by (auto simp: hdr_of_bytes_def sizeof_dns_hdr_def dest!: ntohs_at_some split: bind_splits)

text \<open>What happens to the query before the questions are read.\<close>

lemma check_header_cases:
  obtains (discard) "check_header data (length data) = Some Discard"
  | (error) res where "check_header data (length data) = Some (Error res)" "2 \<le> length data" "res < 4096"
      "\<And>h. hdr_of_bytes data = Some h \<Longrightarrow> sizeof_dns_hdr \<le> length data \<Longrightarrow> \<not> h_qr h"
  | (accept) h where "check_header data (length data) = Some Accept" "sizeof_dns_hdr \<le> length data" "hdr_of_bytes data = Some h" "\<not> h_qr h"
proof (cases "length data < sizeof_dns_hdr")
  case True
  then show thesis using discard error [of RC_FORMAT]
    by (cases "length data < 2") (simp_all add: check_header_def RC_FORMAT_def)
next
  case False
  then have l: "sizeof_dns_hdr \<le> length data" "2 \<le> length data" by (simp_all add: sizeof_dns_hdr_def)
  from hdr_of_bytes_some [OF l(1)] obtain h where h: "hdr_of_bytes data = Some h" .
  define v where "v = (if h_qr h then Discard
          else if h_opcode h \<noteq> 0 then Error RC_NOTSUPP
          else if h_z h then Error RC_FORMAT
          else if h_rcode h \<noteq> of_nat RC_OK then Discard
          else if h_ancount h \<noteq> 0 then Error RC_FORMAT
          else if h_nscount h \<noteq> 0 then Error RC_FORMAT
          else Accept)"
  have c: "check_header data (length data) = Some v" using l h by (simp add: check_header_def v_def)
  show thesis
  proof (cases v)
    case Discard
    with c discard show thesis by simp
  next
    case (Error res)
    then have "\<not> h_qr h" "res = RC_NOTSUPP \<or> res = RC_FORMAT" by (auto simp: v_def split: if_splits)
    with c Error l h error [of res] show thesis by (auto simp: RC_NOTSUPP_def RC_FORMAT_def)
  next
    case Accept
    then have "\<not> h_qr h" by (auto simp: v_def split: if_splits)
    with c Accept l h accept show thesis by simp
  qed
qed

lemma error_replies:
  assumes "c \<in> {RC_FORMAT, RC_SERVFAIL, RC_BADVERS}" and "2 \<le> length data" and "cache_inv s" and "data_ok s"
  shows "\<exists>r. error_reply cf data (length data) c udp s = Some r \<and> replies data r"
  using assms by (intro error_reply_replies) (auto simp: RC_FORMAT_def RC_SERVFAIL_def RC_BADVERS_def)

text \<open>The end of \<open>process_query\<close>, when the query was decoded.\<close>

lemma composed_replies:
  assumes "cache_inv st" and "data_ok st" and "resolver_ok resolve" and "list_all qe_ok ql"
    and "2 \<le> length data" and "be16 (h_id h) = take 2 data"
  shows "\<exists>r. (if ql = [] then error_reply cf data (length data) RC_FORMAT udp st
     else do {
       (ans, rcode, st2) \<leftarrow> compose_answer cf resolve ql h e udp queryts rnd st;
       case ans of None \<Rightarrow> error_reply cf data (length data) RC_SERVFAIL udp st2
       | Some a \<Rightarrow> Some \<lparr>r_ans = Some a, r_rcode = Some rcode, r_udp = udp, r_cache = st2\<rparr>
     }) = Some r \<and> replies data r" (is "\<exists>r. ?p = Some r \<and> _")
proof -
  from compose_answer_spec [OF assms(1-4), where cf = cf and hdr = h and e = e and udp = udp and queryts = queryts and rnd = rnd]
  obtain ans rc st2 where a: "compose_answer cf resolve ql h e udp queryts rnd st = Some (ans, rc, st2)" "cache_inv st2" "data_ok st2"
    "\<forall>buf len. ans = Some (buf, len) \<longrightarrow> sizeof_dns_hdr \<le> len \<and> len \<le> length buf \<and> hdr_keeps (be16 (h_id h)) rc buf" .
  show ?thesis
  proof (cases "ql = [] \<or> ans = None")
    case True
    have "RC_FORMAT \<in> {RC_FORMAT, RC_SERVFAIL, RC_BADVERS}" "RC_SERVFAIL \<in> {RC_FORMAT, RC_SERVFAIL, RC_BADVERS}" by simp_all
    with True a error_replies [OF _ assms(5)] assms(1,2) show ?thesis by (cases "ql = []") simp_all
  next
    case False
    then obtain buf len where ans: "ans = Some (buf, len)" "ql \<noteq> []" by auto
    from a(4) ans(1) have b: "sizeof_dns_hdr \<le> len" "len \<le> length buf" "hdr_keeps (be16 (h_id h)) rc buf" by simp_all
    then have "sizeof_dns_hdr \<le> length buf" by simp
    from hdr_of_bytes_some [OF this] obtain hb where
      hb: "hdr_of_bytes buf = Some hb" "h_qr hb = bit (buf ! 2) 7" "h_rcode hb = ucast (buf ! 3)" .
    let ?r = "\<lparr>r_ans = Some (buf, len), r_rcode = Some rc, r_udp = udp, r_cache = st2\<rparr>"
    have "?p = Some ?r" using ans a(1) by simp
    moreover have "replies data ?r" using a(2,3) b hb assms(6) by (simp add: replies_def hdr_keeps_def)
    ultimately show ?thesis by blast
  qed
qed

text \<open>A query whose header passes the checks.\<close>

lemma accepted_replies:
  assumes "cache_inv st" and "data_ok st" and "resolver_ok resolve"
    and "check_header data (length data) = Some Accept" and "sizeof_dns_hdr \<le> length data" and "hdr_of_bytes data = Some h"
  shows "\<exists>r. process_query cf resolve queryts rnd data (length data) udp st = Some r \<and> replies data r"
    (is "\<exists>r. ?p = Some r \<and> _")
proof -
  have l2: "2 \<le> length data" using assms(5) by (simp add: sizeof_dns_hdr_def)
  from hdr_of_bytes_some [OF assms(5)] assms(6) have hid: "be16 (h_id h) = take 2 data" by force
  from decode_query_spec [OF assms(5), of st] obtain res ql ptr sz m where
    q: "decode_query data (length data) st = Some (res, ql, ptr, sz, st\<lparr>mem := m\<rparr>)" "list_all qe_ok ql"
      "ptr + sz \<le> length data" "res \<in> {RC_OK, RC_TRUNC, RC_FORMAT, RC_SERVFAIL}" .
  let ?st1 = "st\<lparr>mem := m\<rparr>"
  have st1: "cache_inv ?st1" "data_ok ?st1" using assms(1,2) by (simp_all add: cache_inv_def data_ok_def)
  show ?thesis
  proof (cases "res = RC_TRUNC \<and> (\<not> h_tc h \<or> ql = []) \<or> res \<noteq> RC_OK \<and> res \<noteq> RC_TRUNC")
    case True
    let ?c = "if res = RC_TRUNC then RC_FORMAT else res"
    have "?p = error_reply cf data (length data) ?c udp ?st1"
      using assms(4,6) q(1) True by (auto simp: process_query_def)
    moreover have "?c \<in> {RC_FORMAT, RC_SERVFAIL, RC_BADVERS}" using q(4) True by auto
    note error_replies [OF this l2 st1]
    ultimately show ?thesis by simp
  next
    case go: False
    from q(3) assms(5) show ?thesis
    proof (cases rule: check_edns_some [where cf = cf and hdr = h and res = res and udp = udp])
      case (bad res')
      then have "?p = error_reply cf data (length data) res' udp ?st1"
        using assms(4,6) q(1) go by (auto simp: process_query_def)
      moreover have "res' \<in> {RC_FORMAT, RC_SERVFAIL, RC_BADVERS}" using bad(2) by auto
      note error_replies [OF this l2 st1]
      ultimately show ?thesis by simp
    next
      case (good e udp')
      have run: "?p = (if ql = [] then error_reply cf data (length data) RC_FORMAT udp' ?st1
           else do {
               (ans, rcode, st2) \<leftarrow> compose_answer cf resolve ql h e udp' queryts rnd ?st1;
               case ans of None \<Rightarrow> error_reply cf data (length data) RC_SERVFAIL udp' st2
               | Some a \<Rightarrow> Some \<lparr>r_ans = Some a, r_rcode = Some rcode, r_udp = udp', r_cache = st2\<rparr>
             })"
        using assms(4,6) q(1) go good by (auto simp: process_query_def)
      show ?thesis unfolding run by (rule composed_replies [OF st1 assms(3) q(2) l2 hid])
    qed
  qed
qed

text \<open>
  C5: \<open>process_query\<close> is total and safe on every sequence of bytes a client may send, whatever
  allocations fail: it never reads outside the query nor writes outside the reply, and the cache stays
  intact. A reply lies in its memory, carries the identification of the query and is marked as a
  response, the code in its header is the one reported through \<open>*rcodep\<close>; messages shorter than an
  identification and responses are not answered. Relied on is that the resolver keeps the cache
  intact and returns a copy of an entry when it reports success.
\<close>
theorem process_query_replies:
  assumes "cache_inv st" and "data_ok st" and "resolver_ok resolve"
  shows "\<exists>r. process_query cf resolve queryts rnd data (length data) udp st = Some r \<and> replies data r \<and>
    (length data < 2 \<or> (\<exists>h. hdr_of_bytes data = Some h \<and> h_qr h) \<longrightarrow> r_ans r = None)"
proof (cases rule: check_header_cases [of data])
  case discard
  with assms show ?thesis by (simp add: process_query_def no_reply_def replies_def)
next
  case (error res)
  have "\<not> (\<exists>h. hdr_of_bytes data = Some h \<and> h_qr h)"
    using error(4) by (cases "sizeof_dns_hdr \<le> length data") (auto dest: hdr_of_bytes_length)
  with error error_reply_replies [OF error(2,3) assms(1,2), of cf udp] show ?thesis by (auto simp: process_query_def)
next
  case (accept h)
  from accept(2) have "2 \<le> length data" by (simp add: sizeof_dns_hdr_def)
  with accept(3,4) accepted_replies [OF assms accept(1-3), of cf queryts rnd udp] show ?thesis by auto
qed

text \<open>A resolver that knows the cache only.\<close>

definition cache_only :: resolver where
  "cache_only n name qtype soa st = (case lookup_cache name False st of
     Some (Some c, w, st') \<Rightarrow> (RC_OK, Some c, soa, st')
   | Some (None, w, st') \<Rightarrow> (RC_NAMEERR, None, soa, st')
   | None \<Rightarrow> (RC_SERVFAIL, None, soa, st))"

lemma cache_only_ok: "resolver_ok cache_only"
  unfolding resolver_ok_def
proof (intro allI impI)
  fix n ls q qtype soa st rc c soa' st'
  assume a: "dns_name ls" "cache_inv st" "data_ok st" "cache_only n (enc ls @ q) qtype soa st = (rc, c, soa', st')"
  from lookup_cache_copy [OF a(2,3,1), of q] obtain ae w st1 where
    l: "lookup_cache (enc ls @ q) False st = Some (ae, w, st1)" "cache_inv st1" "data_ok st1" "\<forall>c. ae = Some c \<longrightarrow> copy_ok c" .
  with a(4) show "cache_inv st' \<and> data_ok st' \<and> (rc = RC_OK \<longrightarrow> (\<exists>ce. c = Some ce \<and> copy_ok ce))"
    by (cases ae) (auto simp: cache_only_def RC_OK_def RC_NAMEERR_def)
qed

definition demo_query :: bytes where
  "demo_query = [0xab, 0xcd, 1, 0, 0, 1, 0, 0, 0, 0, 0, 0, 1, 97, 0, 0, 1, 0, 1]"

theorem process_query_replies_witness:
  "\<exists>r. process_query \<lparr>rnd_recs = False, udpbufsize = 1024\<rparr> cache_only 0 [] demo_query 19 (Some 512) (init_cache 5 0 0 0 0 []) = Some r \<and>
     replies demo_query r"
proof -
  let ?st = "init_cache 5 0 0 0 0 []"
  have d: "data_ok ?st" "length demo_query = 19" by (simp_all add: data_ok_def init_cache_def demo_query_def)
  from process_query_replies [OF init_cache_inv d(1) cache_only_ok, of "\<lparr>rnd_recs = False, udpbufsize = 1024\<rparr>" 0 "[]"
      demo_query "Some 512"]
  show ?thesis unfolding d(2) by blast
qed

end
