(* ===== verification/Cache_Typed.thy ===== *)
theory Cache_Typed
  imports Cache_Data
begin

text \<open>
  Type preservation for the cache: no operation of \<open>cache.c\<close> stores a record whose data do not have
  the form its type prescribes, provided the entries handed to \<open>add_cache\<close> are typed.
\<close>

subsection \<open>Entries made from other entries\<close>

lemma cached_type_idx: "cached_type tp \<Longrightarrow> rr_idx tp < NRRTOT"
  by (simp add: cached_type_def)

text \<open>The records of \<open>c\<close> in one slot are those of a typed entry, or none.\<close>

definition slot_typed :: "dns_cent \<Rightarrow> nat \<Rightarrow> bool" where
  "slot_typed c i \<longleftrightarrow> (\<forall>tp s d. cached_type tp \<longrightarrow> rr_idx tp = i \<longrightarrow> slot c i = Some s \<longrightarrow> d \<in> set (rs_rrs s) \<longrightarrow> rdata_ok tp d)"

lemma cent_data_slots: "cent_data c \<longleftrightarrow> (\<forall>i < NRRTOT. slot_typed c i)"
  by (auto simp: cent_data_def recs_of_def slot_typed_def dest: cached_type_idx)

lemma slot_typed_None: "slot c i = None \<Longrightarrow> slot_typed c i"
  by (simp add: slot_typed_def)

lemma slot_typed_copy: "slot_typed c i \<Longrightarrow> slot c' i = slot c i \<Longrightarrow> slot_typed c' i"
  by (simp add: slot_typed_def)

lemma slot_typed_same:
  assumes "slot_typed c i" and "map_option rs_rrs (slot c' i) = map_option rs_rrs (slot c i)"
  shows "slot_typed c' i"
  using assms by (cases "slot c i") (force simp: slot_typed_def)+

lemma adjust_ttl_rrs [simp]: "rs_rrs (adjust_ttl st s) = rs_rrs s"
  by (simp add: adjust_ttl_def)

lemma rrs_unlk: "unlk t = unlk s \<Longrightarrow> rs_rrs t = rs_rrs s"
  by (cases t, cases s) simp

lemma cent_data_pur_ent: "pur_ent c c' \<Longrightarrow> cent_data c \<Longrightarrow> cent_data c'"
  unfolding cent_data_slots pur_ent_def by (blast intro: slot_typed_None slot_typed_copy)

lemma cent_data_merged: "merged st cent c c' \<Longrightarrow> cent_data cent \<Longrightarrow> cent_data c \<Longrightarrow> cent_data c'"
  unfolding cent_data_slots
proof (intro allI impI)
  fix j assume m: "merged st cent c c'" and ct: "\<forall>i < NRRTOT. slot_typed cent i" "\<forall>i < NRRTOT. slot_typed c i"
    and j: "j < NRRTOT"
  have "slot c' j = slot c j \<or> slot c' j = None \<or>
      (\<exists>s t. slot cent j = Some s \<and> slot c' j = Some t \<and> unlk t = unlk (adjust_ttl st s))"
    using m j unfolding merged_def by blast
  then consider "slot c' j = slot c j" | "slot c' j = None"
    | s t where "slot cent j = Some s" "slot c' j = Some t" "unlk t = unlk (adjust_ttl st s)"
    by (elim disjE exE conjE)
  then show "slot_typed c' j"
  proof cases
    case 1
    with ct(2) j show ?thesis by (blast intro: slot_typed_copy)
  next
    case 2
    then show ?thesis by (rule slot_typed_None)
  next
    case (3 s t)
    then have "map_option rs_rrs (slot c' j) = map_option rs_rrs (slot cent j)" using rrs_unlk [OF 3(3)] by simp
    with ct(1) j show ?thesis by (blast intro: slot_typed_same)
  qed
qed

lemma cent_data_adjusted:
  assumes "adjusted_slots st I c c'" and "cent_data c"
  shows "cent_data c'"
  unfolding cent_data_slots
proof (intro allI impI)
  fix j assume j: "j < NRRTOT"
  with assms(1) have e: "map_option unlk (slot c' j) = map_option (\<lambda>s. unlk (if j \<in> I then adjust_ttl st s else s)) (slot c j)"
    by (simp add: adjusted_slots_def)
  have "map_option rs_rrs (slot c' j) = map_option rs_rrs (slot c j)"
    using e by (cases "slot c j") (auto dest!: rrs_unlk split: if_splits)
  with assms(2) j show "slot_typed c' j" unfolding cent_data_slots by (blast intro: slot_typed_same)
qed

lemma cent_data_invalidated:
  assumes "invalidated c c'" and "cent_data c" and "cent_ok c"
  shows "cent_data c'"
  unfolding cent_data_slots
proof (intro allI impI)
  fix j assume j: "j < NRRTOT"
  with assms(1,3) have "slot c' j = map_option outdated (slot c j)" by (intro slot_invalidated)
  then have "map_option rs_rrs (slot c' j) = map_option rs_rrs (slot c j)" by (cases "slot c j") (simp_all add: outdated_def)
  with assms(2) j show "slot_typed c' j" unfolding cent_data_slots by (blast intro: slot_typed_same)
qed

lemma cent_data_head: "cent_data (c\<lparr>ce_flags := fl\<rparr>) = cent_data c" "cent_data (c\<lparr>c_ns := n\<rparr>) = cent_data c"
    "cent_data (c\<lparr>c_soa := n\<rparr>) = cent_data c"
  by (simp_all add: cent_data_slots slot_typed_def)

lemma parsed_cent_data: "parsed c \<Longrightarrow> cent_data c"
  by (simp add: parsed_def cent_data_def)

subsection \<open>States\<close>

lemma data_ok_cents: "cents st' = cents st \<Longrightarrow> data_ok st' = data_ok st"
  by (simp add: data_ok_def)

lemma data_ok_upd: "data_ok st \<Longrightarrow> cents st' = (cents st)(a \<mapsto> c) \<Longrightarrow> cent_data c \<Longrightarrow> data_ok st'"
  by (simp add: data_ok_def)

lemma data_ok_remove: "data_ok st \<Longrightarrow> cents st' = (cents st)(a := None) \<Longrightarrow> data_ok st'"
  by (simp add: data_ok_def)

lemma data_ok_get: "data_ok st \<Longrightarrow> cents st a = Some c \<Longrightarrow> cent_data c"
  by (simp add: data_ok_def)

lemma data_ok_not_entered: "not_entered st st' \<Longrightarrow> data_ok st \<Longrightarrow> data_ok st'"
  by (auto simp: not_entered_def intro: data_ok_pur)

lemma data_ok_was_entered:
  assumes "was_entered cent st st'" and "data_ok st" and "cent_data cent"
  shows "data_ok st'"
proof -
  from assms(1) obtain a c st5 where w: "cents st5 = (cents st)(a \<mapsto> c)" "adjusted_slots st UNIV cent c" "pur st5 st'"
    unfolding was_entered_def stored_as_def by blast
  have "data_ok st5" using assms(2) w(1) cent_data_adjusted [OF w(2) assms(3)] by (rule data_ok_upd)
  then show ?thesis using w(3) by (rule data_ok_pur)
qed

lemma data_ok_refreshed:
  assumes "refreshed cent a st st'" and "data_ok st" and "cent_data cent"
  shows "data_ok st'"
proof -
  from assms(1) obtain c c1 c2 fl n m st4 where w: "cents st a = Some c" "pur_ent c c1" "merged st cent c1 c2"
    "cents st4 = (cents st)(a \<mapsto> c2\<lparr>ce_flags := fl, c_ns := n, c_soa := m\<rparr>)" "pur st4 st'"
    unfolding refreshed_def by blast
  have "cent_data c2" using cent_data_merged [OF w(3) assms(3) cent_data_pur_ent [OF w(2) data_ok_get [OF assms(2) w(1)]]] .
  then have "data_ok st4" using data_ok_upd [OF assms(2) w(4)] by (simp add: cent_data_head)
  then show ?thesis using w(5) by (rule data_ok_pur)
qed

lemma data_ok_add_outcome:
  assumes "add_outcome cent st st'" and "data_ok st" and "cent_data cent"
  shows "data_ok st'"
  using assms(1) unfolding add_outcome_def
proof (elim disjE exE conjE)
  fix a c st1 assume st1: "cents st1 = (cents st)(a := None)" and "not_entered st1 st'"
  then show ?thesis using data_ok_remove [OF assms(2) st1] by (blast intro: data_ok_not_entered)
next
  fix a c st1 assume st1: "cents st1 = (cents st)(a := None)" and "was_entered cent st1 st'"
  then show ?thesis using data_ok_remove [OF assms(2) st1] assms(3) by (blast intro: data_ok_was_entered)
qed (use assms in \<open>blast intro: data_ok_not_entered data_ok_was_entered data_ok_refreshed\<close>)+

lemma add_cache_typed:
  assumes "cache_inv st" and "data_ok st" and "has_room st" and "new_entry cent" and "cent_data cent"
  obtains st' where "add_cache cent st = Some st'" "cache_inv st'" "data_ok st'"
proof -
  from assms(1,3,4) add_cache_spec [of st cent] obtain st' where st': "add_cache cent st = Some st'" "add_outcome cent st st'"
    by (auto simp: new_entry_def has_room_def)
  with that [OF st'(1) add_outcome_inv [OF st'(2)] data_ok_add_outcome [OF st'(2) assms(2,5)]] show thesis by blast
qed

lemma data_ok_without: "data_ok st \<Longrightarrow> cents st' = without D st \<Longrightarrow> data_ok st'"
  by (simp add: data_ok_def without_def)

lemma cache_step_typed:
  assumes "step_adding cent_data st st'" and "cache_inv st" and "data_ok st"
  shows "data_ok st'"
  using assms
proof (induction rule: step_adding.induct)
  case (add cent st st')
  then obtain st2 where "add_cache cent st = Some st2" "data_ok st2"
    using add_cache_typed [of st cent] by blast
  with add show ?case by simp
next
  case (lookup nm q wild st ret w st')
  from lookup_cache_copy [OF lookup(3,4,1), of q wild] obtain ae w' st2 where
    "lookup_cache (enc nm @ q) wild st = Some (ae, w', st2)" "data_ok st2" .
  with lookup(2) show ?case by simp
next
  case (delete nm st st')
  have "cents st' = cents st \<or> (\<exists>a. cents st' = (cents st)(a := None))"
    using del_cache_spec [OF delete(3,1)] delete(2) by (auto split: option.splits)
  then show ?case using delete(4) by (metis data_ok_cents data_ok_remove)
next
  case (invalidate nm st st')
  consider "st' = st"
    | a c c' where "cents st a = Some c" "cents st' = (cents st)(a \<mapsto> c')" "invalidated c c'"
    using invalidate_record_spec [OF invalidate(3,1)] invalidate(2) by (auto simp: put_cent_def split: option.splits)
  then show ?case
  proof cases
    case (2 a c c')
    have "cent_data c'"
      by (rule cent_data_invalidated [OF 2(3) data_ok_get [OF invalidate(4) 2(1)] cok_cent_ok [OF cache_inv_cok [OF invalidate(3) 2(1)]]])
    with invalidate(4) 2(2) show ?thesis by (auto intro: data_ok_upd)
  qed (simp add: invalidate(4))
next
  case (flags nm fl st b st')
  consider "st' = st"
    | a c where "cents st a = Some c" "st' = put_cent a (c\<lparr>ce_flags := ce_flags c OR fl\<rparr>) st"
    using set_cent_flags_spec [OF flags(4,1,2)] flags(3) by (auto split: option.splits)
  then show ?case
  proof cases
    case (2 a c)
    then have "cents st' = (cents st)(a \<mapsto> c\<lparr>ce_flags := ce_flags c OR fl\<rparr>)" by (simp add: put_cent_def)
    with flags(5) data_ok_get [OF flags(5) 2(1)] show ?thesis by (simp add: data_ok_upd cent_data_head)
  qed (simp add: flags(5))
next
  case (purge st sz lazy st')
  have "pur st st'" using purge_cache_spec [OF purge(3,1), of sz lazy] purge(2) by auto
  with purge(4) show ?case by (rule data_ok_pur)
next
  case (empty rules all st st')
  obtain D where "cents st' = without D st"
  proof (cases all)
    case True
    with empty(2) that empty_cache_spec [OF empty(3) sel_by_all] show ?thesis by auto
  next
    case False
    with empty(2) that empty_cache_spec [OF empty(3) sel_by_rules [OF empty(3,1)]] show ?thesis by auto
  qed
  with empty(4) show ?case by (rule data_ok_without)
next
  case (destroy st st')
  have "cents st' = (\<lambda>a. None)" using destroy_cache_spec [OF destroy(2)] destroy(1) by auto
  then show ?case by (simp add: data_ok_def)
qed (simp_all add: data_ok_def)

subsection \<open>Reachable states\<close>

lemma typed_reachable_inv: "reachable_adding cent_data st \<Longrightarrow> cache_inv st \<and> data_ok st"
proof (induction rule: reachable_adding.induct)
  case (init t mint maxt negt perm m)
  show ?case using init_cache_inv by (simp add: data_ok_def init_cache_def)
next
  case (step st st')
  then show ?case using cache_step_inv cache_step_typed by blast
qed

text \<open>
  C11: types are preserved: as long as only typed entries are added, all data in the cache have the
  form of their record type, after any sequence of operations, and every copy that \<open>lookup_cache\<close>
  hands out is a detached, well-formed entry with typed data. Entries made by the message parser
  are typed.
\<close>
theorem cache_types_preserved:
  assumes "reachable_adding cent_data st"
  shows "(\<forall>a c tp d. cents st a = Some c \<longrightarrow> (tp, d) \<in> recs_of c \<longrightarrow> rdata_ok tp d) \<and>
    (\<forall>nm q wild c w st'. dns_name nm \<longrightarrow> lookup_cache (enc nm @ q) wild st = Some (Some c, w, st') \<longrightarrow>
       copy_ok c \<and> reachable_adding cent_data st') \<and>
    (\<forall>cent. parsed cent \<longrightarrow> has_room st \<longrightarrow> (\<exists>st'. add_cache cent st = Some st' \<and> reachable_adding cent_data st'))"
proof (intro conjI allI impI)
  note i = typed_reachable_inv [OF assms]
  show "rdata_ok tp d" if "cents st a = Some c" "(tp, d) \<in> recs_of c" for a c tp d
    using data_ok_get [OF _ that(1)] i that(2) by (auto simp: cent_data_def)
  show "copy_ok c" "reachable_adding cent_data st'"
    if nm: "dns_name nm" and l: "lookup_cache (enc nm @ q) wild st = Some (Some c, w, st')" for nm q wild c w st'
  proof -
    from lookup_cache_copy [OF conjunct1 [OF i] conjunct2 [OF i] nm, of q wild] obtain ae w2 st2 where
      "lookup_cache (enc nm @ q) wild st = Some (ae, w2, st2)" "\<forall>c. ae = Some c \<longrightarrow> copy_ok c" .
    with l show "copy_ok c" by simp
    show "reachable_adding cent_data st'"
      by (rule reachable_adding.step [OF assms step_adding.lookup [OF nm l]])
  qed
  show "\<exists>st'. add_cache cent st = Some st' \<and> reachable_adding cent_data st'" if p: "parsed cent" and r: "has_room st" for cent
  proof -
    have n: "new_entry cent" using p by (simp add: parsed_def new_entry_def)
    obtain st' where "add_cache cent st = Some st'"
      using add_cache_typed [of st cent] i r n parsed_cent_data [OF p] by blast
    with reachable_adding.step [OF assms step_adding.add [where ok = cent_data, OF parsed_cent_data [OF p] n r]] show ?thesis by blast
  qed
qed

lemma demo_typed: "parsed (demo_cent 0)"
proof -
  have "rdata_ok tp d" if "(tp, d) \<in> recs_of (demo_cent 0)" for tp d
  proof -
    from that have tp: "cached_type tp" "rr_idx tp = 0" "d = [1, 2, 3, 4]"
      using demo_slot [of "rr_idx tp" 0] by (auto simp: recs_of_def demo_set_def dest: cached_type_idx split: if_splits)
    have "rr_idx T_A = 0" "cached_type T_A" by code_simp+
    then have "tp = T_A" using rr_idx_inj [of tp T_A] tp by simp
    then show ?thesis using tp(3) by (simp add: rdata_ok_def type_num_defs name_types_def)
  qed
  moreover have "\<not> has (ce_flags (demo_cent 0)) DF_LOCAL" by (simp add: demo_cent_def has_def)
  ultimately show ?thesis using demo_entry(1) unfolding parsed_def new_entry_def by blast
qed

theorem cache_types_preserved_witness:
  "reachable_adding cent_data demo_cache \<and> parsed (demo_cent 0) \<and>
    (\<exists>st'. add_cache (demo_cent 0) demo_cache = Some st' \<and> reachable_adding cent_data st')"
proof -
  have r: "reachable_adding cent_data demo_cache" by (simp add: demo_cache_def reachable_adding.init)
  from cache_types_preserved [OF this] demo_typed demo_cache_ok(2) r show ?thesis by blast
qed

end
