(* ===== verification/Loops.thy ===== *)
theory Loops
  imports Pdnsd_Prelude
begin

text \<open>
  Loops over lists and index ranges in the option monad: the body may be undefined, and the state after
  the loop satisfies what the body keeps.
\<close>

fun fold_opt :: "('a \<Rightarrow> 's \<Rightarrow> 's option) \<Rightarrow> 'a list \<Rightarrow> 's \<Rightarrow> 's option" where
  "fold_opt f [] s = Some s"
| "fold_opt f (x # xs) s = do { s' \<leftarrow> f x s; fold_opt f xs s' }"

lemma fold_opt_append: "fold_opt f (xs @ ys) s = do { s' \<leftarrow> fold_opt f xs s; fold_opt f ys s' }"
  by (induction xs arbitrary: s) (auto split: Option.bind_splits)

lemma fold_opt_inv:
  assumes "P s" and "\<And>x s. x \<in> set xs \<Longrightarrow> P s \<Longrightarrow> returns (f x s) P"
  shows "returns (fold_opt f xs s) P"
  using assms
proof (induction xs arbitrary: s)
  case (Cons x xs)
  from Cons.prems obtain s' where "f x s = Some s'" "P s'" by (meson list.set_intros(1) returnsE)
  with Cons show ?case by simp
qed simp

text \<open>A loop whose body is total is a fold.\<close>

lemma fold_opt_total: "(\<And>x s. x \<in> set xs \<Longrightarrow> f x s = Some (g x s)) \<Longrightarrow> fold_opt f xs s = Some (fold g xs s)"
  by (induction xs arbitrary: s) simp_all

lemma fold_opt_cong [fundef_cong]:
  assumes "xs = ys" and "s = t" and "\<And>x s. x \<in> set ys \<Longrightarrow> f x s = g x s"
  shows "fold_opt f xs s = fold_opt g ys t"
  using assms(3) unfolding assms(1,2) by (induction ys arbitrary: t) (auto intro!: Option.bind_cong)

text \<open>The first element for which a test that may be undefined holds.\<close>

fun first_opt :: "('a \<Rightarrow> bool option) \<Rightarrow> 'a list \<Rightarrow> 'a option option" where
  "first_opt f [] = Some None"
| "first_opt f (x # xs) = do { b \<leftarrow> f x; if b then Some (Some x) else first_opt f xs }"

lemma first_opt_total:
  assumes "\<And>x. x \<in> set xs \<Longrightarrow> f x = Some (p x)"
  shows "first_opt f xs = Some (List.find p xs)"
  using assms by (induction xs) simp_all

text \<open>Is there one?\<close>

definition any_opt :: "('a \<Rightarrow> bool option) \<Rightarrow> 'a list \<Rightarrow> bool option" where
  "any_opt f xs = map_option (\<lambda>r. r \<noteq> None) (first_opt f xs)"

lemma any_opt_Nil [simp]: "any_opt f [] = Some False"
  by (simp add: any_opt_def)

lemma any_opt_total:
  assumes "\<And>x. x \<in> set xs \<Longrightarrow> f x = Some (p x)"
  shows "any_opt f xs = Some (\<exists>x \<in> set xs. p x)"
  using first_opt_total [of xs f p, OF assms] find_None_iff [of p xs] by (auto simp: any_opt_def)

text \<open>A function that may be undefined, on every element.\<close>

fun map_opt :: "('a \<Rightarrow> 'b option) \<Rightarrow> 'a list \<Rightarrow> 'b list option" where
  "map_opt f [] = Some []"
| "map_opt f (x # xs) = do { y \<leftarrow> f x; ys \<leftarrow> map_opt f xs; Some (y # ys) }"

lemma map_opt_inv:
  assumes "\<And>x. x \<in> set xs \<Longrightarrow> returns (f x) (P x)"
  shows "\<exists>ys. map_opt f xs = Some ys \<and> list_all2 P xs ys"
  using assms
proof (induction xs)
  case (Cons x xs)
  from Cons.prems obtain y where "f x = Some y" "P x y" by (meson list.set_intros(1) returnsE)
  moreover from Cons obtain ys where "map_opt f xs = Some ys" "list_all2 P xs ys" by auto
  ultimately show ?case by simp
qed simp

lemma map_opt_id: "map_opt (\<lambda>x. x) (map Some xs) = Some xs"
  by (induction xs) simp_all

text \<open>Tests that are defined on every element.\<close>

lemma first_opt_some:
  assumes "\<And>x. x \<in> set xs \<Longrightarrow> \<exists>b. f x = Some b"
  shows "\<exists>r. first_opt f xs = Some r \<and> (\<forall>x. r = Some x \<longrightarrow> x \<in> set xs)"
  using assms
proof (induction xs)
  case (Cons x xs)
  from Cons.prems [of x] obtain b where "f x = Some b" by auto
  moreover from Cons have "\<exists>r. first_opt f xs = Some r \<and> (\<forall>x. r = Some x \<longrightarrow> x \<in> set xs)" by auto
  ultimately show ?case by (cases b) auto
qed simp

lemma any_opt_some: "(\<And>x. x \<in> set xs \<Longrightarrow> \<exists>b. f x = Some b) \<Longrightarrow> \<exists>b. any_opt f xs = Some b"
  using first_opt_some [of xs f] by (auto simp: any_opt_def)

end
