(* ===== verification/Query_Net.thy ===== *)
theory Query_Net
  imports Answer_Query Loops
begin

text \<open>
  \<open>dns_query.c\<close>, 80--163 and 683--1093: the state of a query to one name server and the state machine
  that sends it over UDP or TCP and receives the reply. The results of system calls, of \<open>get_rand16\<close>
  and of allocations come from the environment.
\<close>

subsection \<open>The environment\<close>

datatype errno = ENOERR | EINPROGRESS | EPIPE | ECONNREFUSED | EWOULDBLOCK | ECONNRESET | EADDRINUSE | EADDRNOTAVAIL
  | ENETUNREACH | EHOSTUNREACH | ENOPROTOOPT | ENETDOWN | EHOSTDOWN | ENONET | EOTHER nat

text \<open>A system call fails with \<open>errno\<close>, returns a number, or hands over data.\<close>

datatype sysres = Fail errno | Count nat | Data bytes

text \<open>
  \<open>w_sys n\<close> is the result of the \<open>n\<close>th system call, \<open>w_rand n\<close> of the \<open>n\<close>th call of \<open>get_rand16\<close>;
  \<open>w_n\<close> and \<open>w_r\<close> count the calls so far, \<open>w_sent\<close> are the data handed to \<open>write\<close> and \<open>send\<close>,
  \<open>w_port\<close> is the port of the last successful \<open>bind\<close>, \<open>w_sched\<close> are the calls of \<open>sched_server_test\<close>
  (the addresses and the new state of the servers). The state of the cache carries the outcomes of
  allocations.
\<close>

record world =
  w_sys :: "nat \<Rightarrow> sysres"
  w_rand :: "nat \<Rightarrow> 16 word"
  w_n :: nat
  w_r :: nat
  w_sent :: "bytes list"
  w_port :: "int option"
  w_sched :: "(bytes list \<times> int) list"
  w_cache :: cache

definition sys :: "world \<Rightarrow> sysres \<times> world" where
  "sys w = (w_sys w (w_n w), w\<lparr>w_n := w_n w + 1\<rparr>)"

definition get_rand16 :: "world \<Rightarrow> 16 word \<times> world" where
  "get_rand16 w = (w_rand w (w_r w), w\<lparr>w_r := w_r w + 1\<rparr>)"

definition w_malloc :: "world \<Rightarrow> bool \<times> world" where
  "w_malloc w = (let (ok, st) = malloc (w_cache w) in (ok, w\<lparr>w_cache := st\<rparr>))"

text \<open>\<open>write\<close> and \<open>send\<close> of \<open>bs\<close>: the number of bytes taken; \<open>read\<close> and \<open>recv\<close> of at most \<open>n\<close> bytes.\<close>

definition sys_write :: "bytes \<Rightarrow> world \<Rightarrow> (errno + nat) \<times> world" where
  "sys_write bs w = (case sys w of
     (Fail e, w1) \<Rightarrow> (Inl e, w1)
   | (Count k, w1) \<Rightarrow> (Inr (min k (length bs)), w1\<lparr>w_sent := w_sent w1 @ [take k bs]\<rparr>)
   | (Data d, w1) \<Rightarrow> (Inr (length bs), w1\<lparr>w_sent := w_sent w1 @ [bs]\<rparr>))"

definition sys_read :: "nat \<Rightarrow> world \<Rightarrow> (errno + bytes) \<times> world" where
  "sys_read n w = (case sys w of
     (Fail e, w1) \<Rightarrow> (Inl e, w1)
   | (Count k, w1) \<Rightarrow> (Inr [], w1)
   | (Data d, w1) \<Rightarrow> (Inr (take n d), w1))"

text \<open>\<open>socket\<close>, \<open>fcntl\<close> and \<open>connect\<close> fail or succeed.\<close>

definition sys_call :: "world \<Rightarrow> errno option \<times> world" where
  "sys_call w = (case sys w of (Fail e, w1) \<Rightarrow> (Some e, w1) | (_, w1) \<Rightarrow> (None, w1))"

definition sys_bind :: "int \<Rightarrow> world \<Rightarrow> errno option \<times> world" where
  "sys_bind prt w = (case sys_call w of
     (Some e, w1) \<Rightarrow> (Some e, w1) | (None, w1) \<Rightarrow> (None, w1\<lparr>w_port := Some prt\<rparr>))"

subsection \<open>Allocated buffers\<close>

datatype bufp = Null | Freed | Live bytes

text \<open>Freeing memory twice and using it after it was freed are undefined.\<close>

definition free_buf :: "bufp \<Rightarrow> bufp option" where
  "free_buf p = (case p of Null \<Rightarrow> Some Null | Freed \<Rightarrow> None | Live b \<Rightarrow> Some Freed)"

definition deref :: "bufp \<Rightarrow> bytes option" where
  "deref p = (case p of Live b \<Rightarrow> Some b | _ \<Rightarrow> None)"

text \<open>
  \<open>realloc\<close>: the pointer it returns and what its argument points to afterwards. With size 0 and a
  pointer to allocated memory it frees the memory and returns a null pointer, as the C libraries of
  GNU and Android document. New bytes are 0 here.
\<close>

definition resized :: "nat \<Rightarrow> bytes \<Rightarrow> bytes" where
  "resized n b = take n b @ replicate (n - length b) 0"

definition realloc :: "bufp \<Rightarrow> nat \<Rightarrow> bool \<Rightarrow> (bufp \<times> bufp) option" where
  "realloc p n ok = (case p of
     Freed \<Rightarrow> None
   | Null \<Rightarrow> Some (if ok then Live (replicate n 0) else Null, Null)
   | Live b \<Rightarrow> if n = 0 then Some (Null, Freed) else if ok then Some (Live (resized n b), Freed) else Some (Null, Live b))"

definition realloc_or_cleanup :: "bufp \<Rightarrow> nat \<Rightarrow> bool \<Rightarrow> bufp option" where
  "realloc_or_cleanup p n ok = do {
     (retval, p') \<leftarrow> realloc p n ok;
     if retval = Null then do { p'' \<leftarrow> free_buf p'; Some Null } else Some retval
   }"

subsection \<open>A query to one server\<close>

datatype qstate = QS_INITIAL | QS_TCPINITIAL | QS_TCPWRITE | QS_TCPREAD | QS_UDPINITIAL | QS_UDPRECEIVE | QS_CANCELED | QS_DONE

datatype query_method = UDP_ONLY | TCP_ONLY | TCP_UDP | UDP_TCP

text \<open>\<open>rejectlist_t\<close>: addresses and masks; the policy is \<open>C_FAIL\<close> or \<open>C_NEGATE\<close>.\<close>

datatype reject_policy = C_FAIL | C_NEGATE

record rejectlist =
  rl_policy :: reject_policy
  rl_inherit :: bool
  rl_a4 :: "(bytes \<times> bytes) list"
  rl_a6 :: "(bytes \<times> bytes) list"

text \<open>
  \<open>query_stat_t\<close>. \<open>q_a\<close> is the IPv4 address; \<open>q_msg\<close> the memory of \<open>msg\<close> from its member \<open>hdr\<close> on,
  \<open>q_len\<close> its member \<open>len\<close>.
\<close>

record query_stat =
  q_a :: bytes
  q_port :: nat
  q_timeout :: int
  q_flags :: flags
  q_state :: qstate
  q_qm :: query_method
  q_nocache :: bool
  q_auth_serv :: nat
  q_lean_query :: bool
  q_edns_query :: bool
  q_needs_testing :: nat
  q_trusted :: bool
  q_aa :: bool
  q_tc :: bool
  q_ra :: bool
  q_failed :: nat
  q_nsdomain :: "bytes option"
  q_rejectlist :: "rejectlist option"
  q_transl :: nat
  q_recvl :: "16 word"
  q_iolen :: nat
  q_msg :: bufp
  q_len :: "16 word"
  q_recvbuf :: bufp
  q_myrid :: "16 word"
  q_s_errno :: errno

subsection \<open>bind_socket\<close>

text \<open>The smallest power of 2 that is not below \<open>rg\<close>, from \<open>m = 1\<close> on.\<close>

function pow_above :: "nat \<Rightarrow> nat \<Rightarrow> nat" where
  "pow_above rg m = (if m < rg \<and> m \<noteq> 0 then pow_above rg (2 * m) else m)"
  by pat_completeness auto
termination
  by (relation "measure (\<lambda>(rg, m). rg - m)") auto

declare pow_above.simps [simp del]

text \<open>A random number below \<open>rg\<close>, in at most \<open>n\<close> tries.\<close>

fun rand_below :: "nat \<Rightarrow> nat \<Rightarrow> 16 word \<Rightarrow> world \<Rightarrow> nat option \<times> world" where
  "rand_below 0 rg m w = (None, w)"
| "rand_below (Suc n) rg m w =
     (let (r, w1) = get_rand16 w; prt = unat (r AND m) in
      if prt < rg then (Some prt, w1) else rand_below n rg m w1)"

text \<open>
  The scan of the whole range after \<open>maxtry2\<close> random ports were in use, from \<open>pstart\<close> around;
  \<open>None\<close>: more than the given number of ports were tried.
\<close>

fun bind_scan :: "nat \<Rightarrow> int \<Rightarrow> int \<Rightarrow> int \<Rightarrow> int \<Rightarrow> world \<Rightarrow> (bool \<times> world) option" where
  "bind_scan 0 pstart prt lo hi w = None"
| "bind_scan (Suc n) pstart prt lo hi w =
     (let prt' = (if prt + 1 > hi then lo else prt + 1) in
      if prt' = pstart then Some (False, w)
      else case sys_bind prt' w of
        (None, w1) \<Rightarrow> Some (True, w1)
      | (Some e, w1) \<Rightarrow> if e \<noteq> EADDRINUSE \<and> e \<noteq> EADDRNOTAVAIL then Some (False, w1)
          else bind_scan n pstart prt' lo hi w1)"

text \<open>The tries with random ports; the first argument is \<open>maxtry2 - try2\<close>.\<close>

fun bind_tries :: "nat \<Rightarrow> nat \<Rightarrow> 16 word \<Rightarrow> int \<Rightarrow> int \<Rightarrow> world \<Rightarrow> (bool \<times> world) option" where
  "bind_tries 0 rg m lo hi w = None"
| "bind_tries (Suc n) rg m lo hi w =
     (case rand_below 0x10000 rg m w of
        (None, w1) \<Rightarrow> Some (False, w1)
      | (Some r, w1) \<Rightarrow>
          (let prt = int r + lo in
           case sys_bind prt w1 of
             (None, w2) \<Rightarrow> Some (True, w2)
           | (Some e, w2) \<Rightarrow> if e \<noteq> EADDRINUSE \<and> e \<noteq> EADDRNOTAVAIL then Some (False, w2)
               else if n = 0 then bind_scan rg prt prt lo hi w2
               else bind_tries n rg m lo hi w2))"

text \<open>The options of the configuration that queries depend on.\<close>

datatype neg_policy = C_ON | C_OFF | C_DEFAULT | C_AUTH

record query_conf =
  query_port_start :: int
  query_port_end :: int
  q_udpbufsize :: nat
  neg_domain_pol :: neg_policy
  neg_rrs_pol :: neg_policy
  deleg_only_zones :: "bytes list"
  paranoid :: bool

text \<open>
  \<open>bind_socket\<close>. The parser of the configuration accepts ports up to 65535 only, so \<open>htons\<close> cuts
  nothing off a port; the model passes the number itself to \<open>bind\<close>.
\<close>

definition bind_socket :: "query_conf \<Rightarrow> world \<Rightarrow> (bool \<times> world) option" where
  "bind_socket cf w =
     (if query_port_start cf < 0 then Some (True, w)
      else
        let rg = query_port_end cf - query_port_start cf + 1 in
        if rg \<le> 0 \<or> rg > 0x10000 then Some (False, w)
        else
          let m = (if rg \<le> 0x8000 then of_nat (pow_above (nat rg) 1 - 1) else 0xffff) in
          bind_tries (nat rg * 2) (nat rg) m (query_port_start cf) (query_port_end cf) w)"

subsection \<open>p_query_sm\<close>

definition USE_UDP :: "query_stat \<Rightarrow> bool" where
  "USE_UDP st \<longleftrightarrow> q_qm st = UDP_ONLY \<or> q_qm st = UDP_TCP"

definition tentative_tcp_query :: "query_stat \<Rightarrow> bool" where
  "tentative_tcp_query st \<longleftrightarrow> q_qm st = TCP_UDP \<and> (q_state st = QS_TCPWRITE \<or> q_state st = QS_TCPREAD \<and> q_iolen st = 0)"

text \<open>\<open>st->msg->hdr.id=htons(st->myrid)\<close>\<close>

definition set_id :: "query_stat \<Rightarrow> query_stat option" where
  "set_id st = do {
     b \<leftarrow> deref (q_msg st);
     (b', p) \<leftarrow> PUTINT16 (q_myrid st) b 0;
     Some (st\<lparr>q_msg := Live b'\<rparr>)
   }"

definition switch_to_udp :: "query_stat \<Rightarrow> world \<Rightarrow> (query_stat \<times> world) option" where
  "switch_to_udp st w = do {
     let (r, w1) = get_rand16 w;
     st1 \<leftarrow> set_id (st\<lparr>q_qm := UDP_ONLY, q_myrid := r\<rparr>);
     Some (st1\<lparr>q_state := QS_UDPINITIAL\<rparr>, w1)
   }"

definition switch_to_tcp :: "query_stat \<Rightarrow> query_stat" where
  "switch_to_tcp st = st\<lparr>q_qm := TCP_ONLY, q_state := QS_INITIAL, q_failed := 0\<rparr>"

text \<open>The result is the return code, \<open>None\<close> for -1, the state of the query and the environment.\<close>

type_synonym sm_result = "(nat option \<times> query_stat \<times> world) option"

definition sm_failed :: "nat \<Rightarrow> query_stat \<Rightarrow> world \<Rightarrow> sm_result" where
  "sm_failed retval st w = Some (Some retval, st\<lparr>q_state := QS_DONE\<rparr>, w)"

definition sm_wait :: "qstate \<Rightarrow> query_stat \<Rightarrow> world \<Rightarrow> sm_result" where
  "sm_wait s st w = Some (None, st\<lparr>q_state := s\<rparr>, w)"

definition sm_done :: "query_stat \<Rightarrow> world \<Rightarrow> sm_result" where
  "sm_done st w = Some (Some RC_OK, st\<lparr>q_state := QS_DONE\<rparr>, w)"

definition sm_udp_initial :: "query_conf \<Rightarrow> query_stat \<Rightarrow> world \<Rightarrow> sm_result" where
  "sm_udp_initial cf st w =
     (case sys_call w of
        (Some e, w1) \<Rightarrow> sm_failed RC_SERVFAIL st w1
      | (None, w1) \<Rightarrow> do {
          (bound, w2) \<leftarrow> bind_socket cf w1;
          if \<not> bound then sm_failed RC_SERVFAIL st w2
          else case sys_call w2 of
            (Some e, w3) \<Rightarrow> sm_failed RC_SERVFAIL (if e = ECONNREFUSED then st\<lparr>q_s_errno := e\<rparr> else st) w3
          | (None, w3) \<Rightarrow> do {
              b \<leftarrow> deref (q_msg st);
              out \<leftarrow> rd_all b 0 (q_transl st);
              case sys_write out w3 of
                (Inl e, w4) \<Rightarrow> sm_failed RC_SERVFAIL (st\<lparr>q_s_errno := e\<rparr>) w4
              | (Inr k, w4) \<Rightarrow> sm_wait QS_UDPRECEIVE st w4
            }
        })"

definition sm_udp_receive :: "query_conf \<Rightarrow> query_stat \<Rightarrow> world \<Rightarrow> sm_result" where
  "sm_udp_receive cf st w = do {
     let udpbufsize = (if q_edns_query st then q_udpbufsize cf else UDP_BUFSIZE);
     let (ok, w1) = w_malloc w;
     p \<leftarrow> realloc_or_cleanup (q_recvbuf st) udpbufsize ok;
     let st1 = st\<lparr>q_recvbuf := p\<rparr>;
     if p = Null then sm_failed RC_FATALERR st1 w1
     else case sys_read udpbufsize w1 of
       (Inl e, w2) \<Rightarrow> sm_failed RC_SERVFAIL (st1\<lparr>q_s_errno := e\<rparr>) w2
     | (Inr d, w2) \<Rightarrow> do {
         b \<leftarrow> deref p;
         b' \<leftarrow> wr_all b 0 d;
         let st2 = st1\<lparr>q_recvbuf := Live b', q_recvl := of_nat (length d)\<rparr>;
         if unat (q_recvl st2) < sizeof_dns_hdr then sm_wait QS_UDPRECEIVE st2 w2
         else do {
           recvid \<leftarrow> ntohs_at b' 0;
           if recvid \<noteq> q_myrid st2 then sm_wait QS_UDPRECEIVE st2 w2 else sm_done st2 w2
         }
       }
   }"

definition sm_tcp_failed :: "query_conf \<Rightarrow> query_stat \<Rightarrow> world \<Rightarrow> sm_result" where
  "sm_tcp_failed cf st w =
     (if q_qm st = TCP_UDP then do { (st1, w1) \<leftarrow> switch_to_udp st w; sm_udp_initial cf st1 w1 }
      else sm_failed RC_SERVFAIL st w)"

text \<open>The second half of \<open>QS_TCPREAD\<close>, when the length is known.\<close>

definition sm_tcp_body :: "query_conf \<Rightarrow> query_stat \<Rightarrow> world \<Rightarrow> sm_result" where
  "sm_tcp_body cf st w =
     (let offset = q_iolen st - 2; rem = unat (q_recvl st) - offset in
      if rem = 0 then sm_done st w
      else case sys_read rem w of
        (Inl e, w1) \<Rightarrow> if e = EWOULDBLOCK then sm_wait QS_TCPREAD st w1
          else sm_tcp_failed cf (st\<lparr>q_s_errno := e\<rparr>) w1
      | (Inr d, w1) \<Rightarrow>
          if d = [] then sm_tcp_failed cf st w1
          else do {
            b \<leftarrow> deref (q_recvbuf st);
            b' \<leftarrow> wr_all b offset d;
            let st1 = st\<lparr>q_recvbuf := Live b', q_iolen := q_iolen st + length d\<rparr>;
            if length d < rem then sm_wait QS_TCPREAD st1 w1 else sm_done st1 w1
          })"

definition sm_tcp_read :: "query_conf \<Rightarrow> query_stat \<Rightarrow> world \<Rightarrow> sm_result" where
  "sm_tcp_read cf st w =
     (if q_iolen st = 0 then
        case sys_read 2 w of
          (Inl e, w1) \<Rightarrow> if e = EWOULDBLOCK then sm_wait QS_TCPREAD st w1
            else sm_tcp_failed cf (st\<lparr>q_s_errno := e\<rparr>) w1
        | (Inr d, w1) \<Rightarrow>
            if length d \<noteq> 2 then sm_tcp_failed cf st w1
            else do {
              (len, p) \<leftarrow> GETINT16 d 0;
              let (ok, w2) = w_malloc w1;
              p \<leftarrow> realloc_or_cleanup (q_recvbuf st) (unat len) ok;
              let st1 = st\<lparr>q_iolen := 2, q_recvl := len, q_recvbuf := p\<rparr>;
              if p = Null then sm_failed RC_FATALERR st1 w2 else sm_tcp_body cf st1 w2
            }
      else sm_tcp_body cf st w)"

definition sm_tcp_write :: "query_conf \<Rightarrow> query_stat \<Rightarrow> world \<Rightarrow> sm_result" where
  "sm_tcp_write cf st w =
     (let rem = dnsmsghdroffset + q_transl st - q_iolen st; st_read = st\<lparr>q_state := QS_TCPREAD, q_iolen := 0\<rparr> in
      if rem = 0 then sm_tcp_read cf st_read w
      else do {
        b \<leftarrow> deref (q_msg st);
        out \<leftarrow> rd_all ([ucast (drop_bit 8 (q_len st)), ucast (q_len st)] @ b) (q_iolen st) rem;
        case sys_write out w of
          (Inl e, w1) \<Rightarrow>
            if e = EWOULDBLOCK then sm_wait QS_TCPWRITE st w1
            else if q_iolen st = 0 \<and> (e = ECONNREFUSED \<or> e = ECONNRESET \<or> e = EPIPE)
              then sm_tcp_failed cf (st\<lparr>q_s_errno := e\<rparr>) w1
            else sm_failed RC_SERVFAIL (st\<lparr>q_s_errno := e\<rparr>) w1
        | (Inr k, w1) \<Rightarrow>
            if k < rem then sm_wait QS_TCPWRITE (st\<lparr>q_iolen := q_iolen st + k\<rparr>) w1
            else sm_tcp_read cf st_read w1
      })"

definition sm_tcp_initial :: "query_conf \<Rightarrow> query_stat \<Rightarrow> world \<Rightarrow> sm_result" where
  "sm_tcp_initial cf st w =
     (case sys_call w of
        (Some e, w1) \<Rightarrow> sm_failed RC_SERVFAIL st w1
      | (None, w1) \<Rightarrow> do {
          (bound, w2) \<leftarrow> bind_socket cf w1;
          if \<not> bound then sm_failed RC_SERVFAIL st w2
          else case sys_call w2 of
            (Some e, w3) \<Rightarrow> sm_failed RC_SERVFAIL st w3
          | (None, w3) \<Rightarrow> (case sys_call w3 of
              (Some e, w4) \<Rightarrow> sm_failed RC_SERVFAIL st w4
            | (None, w4) \<Rightarrow>
                (let st1 = st\<lparr>q_iolen := 0\<rparr> in
                 case sys_call w4 of
                   (Some e, w5) \<Rightarrow>
                     if e = EINPROGRESS \<or> e = EPIPE then sm_wait QS_TCPWRITE st1 w5
                     else if e = ECONNREFUSED then sm_tcp_failed cf (st1\<lparr>q_s_errno := e\<rparr>) w5
                     else sm_failed RC_SERVFAIL st1 w5
                 | (None, w5) \<Rightarrow> sm_tcp_write cf (st1\<lparr>q_state := QS_TCPWRITE\<rparr>) w5))
        })"

definition p_query_sm :: "query_conf \<Rightarrow> query_stat \<Rightarrow> world \<Rightarrow> sm_result" where
  "p_query_sm cf st w = (case q_state st of
     QS_TCPINITIAL \<Rightarrow> sm_tcp_initial cf st w
   | QS_TCPWRITE \<Rightarrow> sm_tcp_write cf st w
   | QS_TCPREAD \<Rightarrow> sm_tcp_read cf st w
   | QS_UDPINITIAL \<Rightarrow> sm_udp_initial cf st w
   | QS_UDPRECEIVE \<Rightarrow> sm_udp_receive cf st w
   | _ \<Rightarrow> sm_failed RC_SERVFAIL st w)"

end
