(* ===== verification/Query_Exec.thy ===== *)
theory Query_Exec
  imports Query_Net Rr_Access
begin

text \<open>
  \<open>p_exec_query\<close> of \<open>dns_query.c\<close>, 1144--1372: the query to one server is composed and sent, and the
  header of the reply is checked; a server that refuses is asked again without recursion or without
  EDNS.
\<close>

subsection \<open>Composing the query\<close>

definition query_type :: "query_stat \<Rightarrow> nat \<Rightarrow> nat" where
  "query_type st thint = (if q_lean_query st then thint else QT_ALL)"

definition first_state :: "query_stat \<Rightarrow> qstate" where
  "first_state st = (if USE_UDP st then QS_UDPINITIAL else QS_TCPINITIAL)"

definition query_hdr :: "16 word \<Rightarrow> bool \<Rightarrow> bool \<Rightarrow> dns_hdr" where
  "query_hdr rid named trusted = \<lparr>h_id = rid, h_rd = (named \<and> trusted), h_tc = False, h_aa = False, h_opcode = 0,
     h_qr = False, h_rcode = of_nat RC_OK, h_cd = False, h_ad = False, h_z = False, h_ra = False,
     h_qdcount = of_bool named, h_ancount = 0, h_nscount = 0, h_arcount = 0\<rparr>"

text \<open>
  The case \<open>QS_INITIAL\<close>; \<open>name\<close> may be a null pointer. The result is false if the allocation
  fails, which makes \<open>p_exec_query\<close> return \<open>RC_FATALERR\<close>.
\<close>

definition put_query ::
    "query_conf \<Rightarrow> query_stat \<Rightarrow> bytes \<Rightarrow> nat \<Rightarrow> nat \<Rightarrow> bytes \<Rightarrow> world \<Rightarrow> (bytes \<times> nat \<times> world) option" where
  "put_query cf st n rrnlen thint b w = do {
     nm \<leftarrow> rd_all n 0 rrnlen;
     b1 \<leftarrow> wr_all b sizeof_dns_hdr nm;
     (b2, p2) \<leftarrow> PUTINT16 (of_nat (query_type st thint)) b1 (sizeof_dns_hdr + rrnlen);
     (b3, p3) \<leftarrow> PUTINT16 (of_nat C_IN) b2 p2;
     let transl = sizeof_dns_hdr + rrnlen + 4;
     if q_edns_query st then do {
       (ok, a) \<leftarrow> add_opt_pseudo_rr (of_nat (q_udpbufsize cf)) (of_nat RC_OK) 0 0
         \<lparr>a_buf = b3, a_sz = transl, a_cb = [], a_st = w_cache w\<rparr>;
       Some (a_buf a, a_sz a, w\<lparr>w_cache := a_st a\<rparr>)
     }
     else Some (b3, transl, w)
   }"

definition exec_initial ::
    "query_conf \<Rightarrow> bytes option \<Rightarrow> nat \<Rightarrow> query_stat \<Rightarrow> world \<Rightarrow> (bool \<times> query_stat \<times> world) option" where
  "exec_initial cf name thint st w = do {
     rrnlen \<leftarrow> (case name of None \<Rightarrow> Some 0 | Some n \<Rightarrow> rhnlen n);
     let allocsz = sizeof_dns_hdr + (if name = None then 0
       else rrnlen + 4 + (if q_edns_query st then sizeof_opt_pseudo_rr else 0));
     let (ok, w1) = w_malloc w;
     if \<not> ok then Some (False, st\<lparr>q_msg := Null, q_state := QS_DONE\<rparr>, w1)
     else do {
       let (rid, w2) = get_rand16 w1;
       b \<leftarrow> wr_all (replicate allocsz 0) 0 (bytes_of_hdr (query_hdr rid (name \<noteq> None) (q_trusted st)));
       (b1, transl, w3) \<leftarrow> (case name of None \<Rightarrow> Some (b, sizeof_dns_hdr, w2)
         | Some n \<Rightarrow> put_query cf st n rrnlen thint b w2);
       Some (True, st\<lparr>q_msg := Live b1, q_myrid := rid, q_transl := transl mod 2 ^ 16, q_len := of_nat transl,
         q_recvbuf := Null, q_state := first_state st\<rparr>, w3)
     }
   }"

subsection \<open>The reply\<close>

definition sched_server_test :: "bytes list \<Rightarrow> int \<Rightarrow> world \<Rightarrow> world" where
  "sched_server_test addrs up w = w\<lparr>w_sched := w_sched w @ [(addrs, up)]\<rparr>"

definition unreachable :: "errno \<Rightarrow> bool" where
  "unreachable e \<longleftrightarrow> e \<in> {ENETUNREACH, EHOSTUNREACH, ENOPROTOOPT, ECONNREFUSED, ENETDOWN, EHOSTDOWN, ENONET}"

text \<open>What \<open>p_exec_query\<close> returns before it reads the records: -1, a code, or there is a reply.\<close>

datatype exec_outcome = Call_again | Returns nat | Replied nat

type_synonym exec_result = "(exec_outcome \<times> query_stat \<times> world) option"

definition free_bufs :: "query_stat \<Rightarrow> query_stat option" where
  "free_bufs st = do {
     m \<leftarrow> free_buf (q_msg st);
     r \<leftarrow> free_buf (q_recvbuf st);
     Some (st\<lparr>q_msg := m, q_recvbuf := r, q_state := QS_DONE\<rparr>)
   }"

definition discard_reply :: "nat \<Rightarrow> query_stat \<Rightarrow> world \<Rightarrow> exec_result" where
  "discard_reply rv st w = do { st1 \<leftarrow> free_bufs st; Some (Returns (if rv \<noteq> RC_OK then rv else RC_SERVFAIL), st1, w) }"

definition query_failed :: "nat \<Rightarrow> query_stat \<Rightarrow> world \<Rightarrow> exec_result" where
  "query_failed rv st w = do {
     st1 \<leftarrow> free_bufs st;
     Some (if q_needs_testing st1 \<noteq> 0 \<and> unreachable (q_s_errno st1)
       then (Returns rv, st1\<lparr>q_needs_testing := 0\<rparr>, sched_server_test [q_a st1] 0 w)
       else (Returns rv, st1, w))
   }"

text \<open>Outcome of the checks of the header: discard with a code, accept, or one of the ways to try again.\<close>

datatype reply_verdict = Discard nat | Accept | Accept_failed | No_recursion | No_edns

definition malformed :: "dns_hdr \<Rightarrow> 16 word \<Rightarrow> bool" where
  "malformed h rid \<longleftrightarrow> h_id h \<noteq> rid \<or> \<not> h_qr h \<or> unat (h_opcode h) \<noteq> 0 \<or> h_z h"

definition judge :: "bool \<Rightarrow> dns_hdr \<Rightarrow> dns_hdr \<Rightarrow> query_stat \<Rightarrow> reply_verdict" where
  "judge entp h q st =
     (let rcode = unat (h_rcode h) in
      if rcode = RC_OK \<or> rcode = RC_NAMEERR then Accept
      else if \<not> entp then Discard rcode
      else if rcode = RC_SERVFAIL \<or> rcode = RC_NOTSUPP \<or> rcode = RC_REFUSED then
        if h_rd q \<and> \<not> h_ra h then No_recursion
        else if rcode \<noteq> RC_SERVFAIL \<and> q_edns_query st \<and> h_arcount q \<noteq> 0 then No_edns
        else if h_ancount h \<noteq> 0 \<and> q_auth_serv st = 2 then Accept_failed
        else Discard rcode
      else if rcode = RC_FORMAT \<and> q_edns_query st \<and> h_arcount q \<noteq> 0 then No_edns
      else Discard rcode)"

text \<open>The label \<open>resetstate_tryagain\<close>, up to the jump.\<close>

definition reset_state :: "query_stat \<Rightarrow> world \<Rightarrow> (query_stat \<times> world) option" where
  "reset_state st w = do {
     let (r, w1) = get_rand16 w;
     st1 \<leftarrow> set_id (st\<lparr>q_myrid := r\<rparr>);
     Some (st1\<lparr>q_state := first_state st1\<rparr>, w1)
   }"

definition clear_rd :: "query_stat \<Rightarrow> query_stat option" where
  "clear_rd st = do {
     b \<leftarrow> deref (q_msg st);
     f \<leftarrow> rd b 2;
     b' \<leftarrow> wr b 2 (f AND NOT 1);
     Some (st\<lparr>q_msg := Live b'\<rparr>)
   }"

text \<open>The label \<open>try_withoutedns\<close>; \<open>None\<close> inside: the record could not be removed.\<close>

definition clear_edns :: "query_stat \<Rightarrow> query_stat option option" where
  "clear_edns st = do {
     b \<leftarrow> deref (q_msg st);
     (transl, b') \<leftarrow> remove_opt_pseudo_rr b (q_transl st);
     acnt \<leftarrow> ntohs_at b' 10;
     let st1 = st\<lparr>q_msg := Live b'\<rparr>;
     Some (if transl \<noteq> 0 \<and> acnt = 0
       then Some (st1\<lparr>q_transl := transl mod 2 ^ 16, q_len := of_nat transl, q_edns_query := False\<rparr>) else None)
   }"

text \<open>
  From the label \<open>tryagain\<close> on; \<open>n\<close> bounds the number of tries, three are enough because recursion
  and EDNS are each switched off at most once.
\<close>

definition server_up :: "query_stat \<Rightarrow> world \<Rightarrow> query_stat \<times> world" where
  "server_up st w = (if q_needs_testing st \<noteq> 0 then (st\<lparr>q_needs_testing := 0\<rparr>, sched_server_test [q_a st] 1 w) else (st, w))"

fun exec_loop :: "nat \<Rightarrow> query_conf \<Rightarrow> bool \<Rightarrow> query_stat \<Rightarrow> world \<Rightarrow> exec_result" where
  "exec_loop 0 cf entp st w = None"
| "exec_loop (Suc n) cf entp st w = do {
     (rv, st1, w1) \<leftarrow> p_query_sm cf st w;
     case rv of None \<Rightarrow> Some (Call_again, st1, w1)
     | Some rc \<Rightarrow>
         if rc \<noteq> RC_OK then query_failed rc st1 w1
         else if unat (q_recvl st1) < sizeof_dns_hdr then discard_reply RC_OK st1 w1
         else do {
           r \<leftarrow> deref (q_recvbuf st1);
           h \<leftarrow> hdr_of_bytes r;
           if malformed h (q_myrid st1) then discard_reply RC_OK st1 w1
           else do {
             let (st2, w2) = server_up st1 w1;
             m \<leftarrow> deref (q_msg st2);
             q \<leftarrow> hdr_of_bytes m;
             let rcode = unat (h_rcode h);
             case judge entp h q st2 of
               Discard rc' \<Rightarrow> discard_reply rc' st2 w2
             | Accept \<Rightarrow> Some (Replied rcode, st2\<lparr>q_state := QS_DONE\<rparr>, w2)
             | Accept_failed \<Rightarrow> Some (Replied rcode, st2\<lparr>q_failed := 3, q_state := QS_DONE\<rparr>, w2)
             | No_recursion \<Rightarrow> do {
                 st3 \<leftarrow> clear_rd st2;
                 (st4, w3) \<leftarrow> reset_state st3 w2;
                 exec_loop n cf entp st4 w3
               }
             | No_edns \<Rightarrow> do {
                 e \<leftarrow> clear_edns st2;
                 case e of None \<Rightarrow> discard_reply rcode st2 w2
                 | Some st3 \<Rightarrow> do {
                     (st4, w3) \<leftarrow> reset_state st3 w2;
                     exec_loop n cf entp st4 w3
                   }
               }
           }
         }
   }"

definition exec_send :: "query_conf \<Rightarrow> bool \<Rightarrow> bytes option \<Rightarrow> nat \<Rightarrow> query_stat \<Rightarrow> world \<Rightarrow> exec_result" where
  "exec_send cf entp name thint st w = (case q_state st of
     QS_INITIAL \<Rightarrow> do {
       (ok, st1, w1) \<leftarrow> exec_initial cf name thint st w;
       if ok then exec_loop 3 cf entp st1 w1 else Some (Returns RC_FATALERR, st1, w1)
     }
   | QS_CANCELED \<Rightarrow> Some (Returns RC_SERVFAIL, st\<lparr>q_state := QS_DONE\<rparr>, w)
   | QS_DONE \<Rightarrow> Some (Returns RC_SERVFAIL, st, w)
   | _ \<Rightarrow> exec_loop 3 cf entp st w)"

text \<open>\<open>p_cancel_query\<close>\<close>

definition p_cancel_query :: "query_stat \<Rightarrow> query_stat option" where
  "p_cancel_query st = do {
     st1 \<leftarrow> (if q_state st \<in> {QS_TCPWRITE, QS_TCPREAD, QS_UDPRECEIVE, QS_TCPINITIAL, QS_UDPINITIAL} then do {
         r \<leftarrow> free_buf (q_recvbuf st);
         m \<leftarrow> free_buf (q_msg st);
         Some (st\<lparr>q_recvbuf := r, q_msg := m\<rparr>)
       } else Some st);
     Some (if q_state st1 \<noteq> QS_INITIAL \<and> q_state st1 \<noteq> QS_DONE then st1\<lparr>q_state := QS_CANCELED\<rparr> else st1)
   }"

end
