(* ===== verification/Query_Reply.thy ===== *)
theory Query_Reply
  imports Query_Exec Dns_Parse
begin

text \<open>
  \<open>dns_query.c\<close>, 1095--1116 and 1374--1922: the records of a reply are read, checked against the
  policies of the configuration, and turned into the entry that answers the query, a list of name
  servers, and entries for the cache.
\<close>

definition lookup_cent_array :: "dns_cent list \<Rightarrow> bytes \<Rightarrow> dns_cent option option" where
  "lookup_cent_array ca nm = first_opt (\<lambda>ce. rhnicmp (qname ce) nm) ca"

definition soa_minimum :: "bytes \<Rightarrow> int option" where
  "soa_minimum d = do {
     p1 \<leftarrow> skiprhn d 0;
     p2 \<leftarrow> skiprhn d p1;
     (m, p) \<leftarrow> GETINT32 d (p2 + 4 * 4);
     Some (uint m)
   }"

subsection \<open>Reading the sections\<close>

text \<open>The entries of an array; all its elements are initialized.\<close>

definition entries :: "cent_array \<Rightarrow> dns_cent list option" where
  "entries a = map_opt (\<lambda>x. x) (da_list a)"

record sections =
  ans_sec :: "dns_cent list"
  auth_sec :: "dns_cent list"
  add_sec :: "dns_cent list"

text \<open>The question of the reply must be the one that was asked: its place and the bytes left after it.\<close>

definition check_question :: "bytes \<Rightarrow> nat \<Rightarrow> bytes \<Rightarrow> nat \<Rightarrow> (nat \<times> nat) option option" where
  "check_question buf recvl name qtype = do {
     r \<leftarrow> decompress_name buf recvl sizeof_dns_hdr (recvl - sizeof_dns_hdr) (replicate DNSNAMEBUFSIZE 0);
     case r of Inl rc \<Rightarrow> Some None
     | Inr (rrp, lcnt, nbuf, len) \<Rightarrow> do {
         eq \<leftarrow> rhnicmp nbuf name;
         if \<not> eq then Some None
         else if lcnt < 4 then Some None
         else do {
           (qt, p1) \<leftarrow> GETINT16 buf rrp;
           (qc, p2) \<leftarrow> GETINT16 buf p1;
           Some (if unat qt \<noteq> qtype then None else Some (p2, lcnt - 4))
         }
       }
   }"

text \<open>
  The three calls of \<open>rrs2cent\<close>, after the first entry of the answer section was made. The result has
  the return code, the code of the reply, corrected by EDNS, and the state of the query.
\<close>

definition no_edns_info :: edns_info where
  "no_edns_info = \<lparr>ei_udpsize = 0, ei_rcode = 0, ei_version = 0, ei_do_flg = 0\<rparr>"

definition read_section :: "bytes \<Rightarrow> nat \<Rightarrow> nat \<Rightarrow> flags \<Rightarrow> int \<Rightarrow> nat \<Rightarrow> parse \<Rightarrow> (nat \<times> parse) option" where
  "read_section buf recvl cnt fl queryts rv p =
     (let p0 = p\<lparr>p_centa := None, p_numopt := 0\<rparr> in
      if rv = RC_OK \<and> cnt \<noteq> 0 then rrs2cent buf recvl cnt fl queryts p0 else Some (rv, p0))"

definition read_sections ::
    "bytes \<Rightarrow> nat \<Rightarrow> dns_hdr \<Rightarrow> flags \<Rightarrow> int \<Rightarrow> cent_array \<Rightarrow> nat \<Rightarrow> nat \<Rightarrow> query_stat \<Rightarrow> world \<Rightarrow>
     (nat \<times> nat \<times> query_stat \<times> sections \<times> world) option" where
  "read_sections buf recvl h fl queryts a rrp lcnt st w = do {
     (rv1, p1) \<leftarrow> rrs2cent buf recvl (unat (h_ancount h)) fl queryts
       \<lparr>p_ptr = rrp, p_lcnt = lcnt, p_centa = a, p_numopt = 0, p_ep = no_edns_info, p_retval = 0, p_st = w_cache w\<rparr>;
     (rv2, p2) \<leftarrow> read_section buf recvl (unat (h_nscount h)) (fl OR CF_ADDITIONAL) queryts rv1 p1;
     (rv3, p3) \<leftarrow> read_section buf recvl (unat (h_arcount h)) (fl OR CF_ADDITIONAL) queryts rv2 p2;
     let rcode = unat (h_rcode h);
     let changed = (rv2 = RC_OK \<and> p_numopt p3 \<noteq> 0 \<and> rcode \<noteq> unat (ei_rcode (p_ep p3)));
     an \<leftarrow> entries (p_centa p1);
     au \<leftarrow> entries (p_centa p2);
     ad \<leftarrow> entries (p_centa p3);
     Some (rv3, if changed then unat (ei_rcode (p_ep p3)) else rcode,
       if changed \<and> q_failed st = 0 then st\<lparr>q_failed := 1\<rparr> else st,
       \<lparr>ans_sec = an, auth_sec = au, add_sec = ad\<rparr>, w\<lparr>w_cache := p_st p3\<rparr>)
   }"

subsection \<open>References to name servers and start of authority\<close>

text \<open>\<open>*x\<close> becomes \<open>ml\<close> if it is undefined or smaller.\<close>

definition raise_ref :: "nat \<Rightarrow> byte \<Rightarrow> byte" where
  "raise_ref ml x = (if x = cundef \<or> unat x < ml then of_nat ml else x)"

definition match_auth :: "nat \<Rightarrow> dns_cent \<Rightarrow> dns_cent \<Rightarrow> dns_cent option" where
  "match_auth auth_serv ce cent = do {
     (ml, rem, r) \<leftarrow> domain_match (qname ce) (qname cent);
     if rem = 0 \<and> (ml \<noteq> 0 \<or> auth_serv \<noteq> 2) then do {
       ns \<leftarrow> getrrset_X ce T_NS;
       soa \<leftarrow> getrrset_X ce T_SOA;
       let c1 = (if ns \<noteq> None then cent\<lparr>c_ns := raise_ref ml (c_ns cent)\<rparr> else cent);
       Some (if soa \<noteq> None then c1\<lparr>c_soa := raise_ref ml (c_soa c1)\<rparr> else c1)
     }
     else Some cent
   }"

definition set_refs :: "nat \<Rightarrow> nat \<Rightarrow> nat \<Rightarrow> dns_cent list \<Rightarrow> dns_cent \<Rightarrow> dns_cent option" where
  "set_refs qtype auth_serv n auth cent = do {
     scnt \<leftarrow> rhnsegcnt (qname cent);
     ns \<leftarrow> getrrset_X cent T_NS;
     let c1 = (if ns \<noteq> None then cent\<lparr>c_ns := of_nat scnt\<rparr> else cent);
     soa \<leftarrow> getrrset_X cent T_SOA;
     let c2 = (if soa \<noteq> None then c1\<lparr>c_soa := of_nat scnt\<rparr> else c1);
     rrset \<leftarrow> getrrset c2 (int qtype);
     if QT_MIN \<le> qtype \<and> qtype \<le> QT_MAX \<or> rrset \<noteq> None \<or> n = 1 \<and> num_rrs c2 = 0
     then fold_opt (match_auth auth_serv) auth c2
     else Some c2
   }"

subsection \<open>Rejected addresses\<close>

definition mask_equiv :: "bytes \<Rightarrow> bytes \<times> bytes \<Rightarrow> bool" where
  "mask_equiv a am = (\<forall>(x, y, m) \<in> set (zip a (zip (fst am) (snd am))). (x XOR y) AND m = 0)"

definition rejected_addr :: "nat \<Rightarrow> (bytes \<times> bytes) list \<Rightarrow> bytes \<Rightarrow> bool option" where
  "rejected_addr n ams d =
     (if ams = [] then Some False else do { a \<leftarrow> rd_all d 0 n; Some (\<exists>am \<in> set ams. mask_equiv a am) })"

definition rejected_cent :: "rejectlist \<Rightarrow> dns_cent \<Rightarrow> bool option" where
  "rejected_cent rl cent = do {
     a \<leftarrow> getrrset_X cent T_A;
     r4 \<leftarrow> (case a of None \<Rightarrow> Some False | Some s \<Rightarrow> any_opt (rejected_addr 4 (rl_a4 rl)) (rs_rrs s));
     if r4 then Some True
     else do {
       aaaa \<leftarrow> getrrset_X cent T_AAAA;
       case aaaa of None \<Rightarrow> Some False | Some s \<Rightarrow> any_opt (rejected_addr 16 (rl_a6 rl)) (rs_rrs s)
     }
   }"

definition reject_answer :: "query_stat \<Rightarrow> sections \<Rightarrow> bool option" where
  "reject_answer st secs = (case q_rejectlist st of None \<Rightarrow> Some False
     | Some rl \<Rightarrow> any_opt (rejected_cent rl) (ans_sec secs @ auth_sec secs @ add_sec secs))"

subsection \<open>Delegation-only zones\<close>

text \<open>The first zone that \<open>name\<close> is in, and whether \<open>name\<close> is longer than the zone.\<close>

fun zone_of :: "bytes \<Rightarrow> bytes list \<Rightarrow> bool option option" where
  "zone_of name [] = Some None"
| "zone_of name (z # zs) = do {
     (m, rem, zrem) \<leftarrow> domain_match name z;
     if m \<noteq> 0 \<and> zrem = 0 then Some (Some (rem \<noteq> 0)) else zone_of name zs
   }"

text \<open>Is there a delegation in these entries, and \<open>authcnt\<close>.\<close>

fun find_delegation :: "bytes list \<Rightarrow> dns_cent list \<Rightarrow> nat \<Rightarrow> (bool \<times> nat) option" where
  "find_delegation zones [] authcnt = Some (False, authcnt)"
| "find_delegation zones (ce # ces) authcnt = do {
     ns \<leftarrow> getrrset_X ce T_NS;
     soa \<leftarrow> getrrset_X ce T_SOA;
     if ns \<noteq> None \<or> soa \<noteq> None then do {
       z \<leftarrow> zone_of (qname ce) zones;
       if z = Some False then find_delegation zones ces (authcnt + 1) else Some (True, authcnt + 1)
     }
     else find_delegation zones ces authcnt
   }"

definition missing_delegation :: "query_conf \<Rightarrow> bytes \<Rightarrow> sections \<Rightarrow> (bool \<times> nat) option" where
  "missing_delegation cf name secs = do {
     z \<leftarrow> zone_of name (deleg_only_zones cf);
     if z = Some True then do {
       (found, authcnt) \<leftarrow> find_delegation (deleg_only_zones cf) (ans_sec secs @ auth_sec secs) 0;
       Some (\<not> found, authcnt)
     }
     else Some (False, 0)
   }"

subsection \<open>Negative caching\<close>

text \<open>The time to live of a negative answer, from the SOA record of an entry if there is one.\<close>

definition soa_ttl :: "rr_set option \<Rightarrow> int option option" where
  "soa_ttl rrset = (case rrset of None \<Rightarrow> Some None
     | Some s \<Rightarrow> (case rs_rrs s of [] \<Rightarrow> Some None
         | d # ds \<Rightarrow> do { mn \<leftarrow> soa_minimum d; Some (Some (if rs_ttl s > mn then mn else rs_ttl s)) }))"

definition name_error_ttl :: "bytes \<Rightarrow> dns_cent \<Rightarrow> dns_cent list \<Rightarrow> int \<Rightarrow> int option" where
  "name_error_ttl name e auth negttl =
     (if c_soa e = cundef then Some negttl
      else do {
        scnt \<leftarrow> rhnsegcnt name;
        if unat (c_soa e) < scnt then do {
          p \<leftarrow> skipsegs name 0 (scnt - unat (c_soa e));
          cent \<leftarrow> lookup_cent_array auth (drop p name);
          case cent of None \<Rightarrow> Some negttl
          | Some c \<Rightarrow> do { s \<leftarrow> getrrset_X c T_SOA; t \<leftarrow> soa_ttl s; Some (case t of None \<Rightarrow> negttl | Some x \<Rightarrow> x) }
        }
        else Some negttl
      })"

definition neg_set_ttl :: "bytes \<Rightarrow> dns_cent \<Rightarrow> dns_cent list \<Rightarrow> int \<Rightarrow> int option" where
  "neg_set_ttl name e auth negttl = do {
     s \<leftarrow> getrrset_X e T_SOA;
     t \<leftarrow> soa_ttl s;
     case t of Some x \<Rightarrow> Some x
     | None \<Rightarrow> do {
         scnt \<leftarrow> rhnsegcnt name;
         p \<leftarrow> (if c_soa e \<noteq> cundef \<and> unat (c_soa e) < scnt then skipsegs name 0 (scnt - unat (c_soa e)) else Some 0);
         cent \<leftarrow> lookup_cent_array auth (drop p name);
         case cent of None \<Rightarrow> Some negttl
         | Some c \<Rightarrow> do { s' \<leftarrow> getrrset_X c T_SOA; t' \<leftarrow> soa_ttl s'; Some (case t' of None \<Rightarrow> negttl | Some x \<Rightarrow> x) }
       }
   }"

text \<open>A negative record set for the type asked for; false if there is no memory.\<close>

definition neg_rrset ::
    "query_conf \<Rightarrow> bytes \<Rightarrow> nat \<Rightarrow> flags \<Rightarrow> int \<Rightarrow> query_stat \<Rightarrow> dns_cent list \<Rightarrow> dns_cent \<Rightarrow> cache \<Rightarrow>
     (bool \<times> dns_cent \<times> cache) option" where
  "neg_rrset cf name thint fl queryts st auth e c = do {
     let aa = (q_aa st \<and> \<not> q_tc st);
     rrset \<leftarrow> getrrset e (int thint);
     if T_MIN \<le> thint \<and> thint \<le> T_MAX \<and> rrset = None \<and> \<not> q_tc st \<and> q_failed st \<le> 1 \<and>
        (neg_rrs_pol cf = C_ON \<or> neg_rrs_pol cf = C_AUTH \<and> aa \<or> neg_rrs_pol cf = C_DEFAULT \<and> (aa \<or> q_ra st))
     then do {
       ttl \<leftarrow> neg_set_ttl name e auth (neg_ttl c);
       add_cent_rrset_by_type e (int thint) ttl queryts (CF_NEGATIVE OR fl) c
     }
     else Some (True, e, c)
   }"

subsection \<open>The list of name servers\<close>

text \<open>
  The records of the list are kept here as the list of their contents: a domain, or the byte 0xff
  for the domain before, and the name of a server.
\<close>

definition ns_known :: "bytes \<Rightarrow> bytes list \<Rightarrow> bool option" where
  "ns_known d ns = any_opt (\<lambda>p. do {
     b \<leftarrow> rd p 0;
     off \<leftarrow> (if b = 0xff then Some 1 else skiprhn p 0);
     rhnicmp (drop off p) d
   }) ns"

text \<open>\<open>None\<close> inside: \<open>dlist_grow\<close> failed.\<close>

fun add_ns_rrs :: "bytes \<Rightarrow> bool \<Rightarrow> bytes list \<Rightarrow> bytes list \<times> nat \<times> world \<Rightarrow>
    (bytes list option \<times> nat \<times> world) option" where
  "add_ns_rrs owner fst_rr [] (ns, k, w) = Some (Some ns, k, w)"
| "add_ns_rrs owner fst_rr (d # ds) (ns, k, w) = do {
     known \<leftarrow> ns_known d ns;
     if known then add_ns_rrs owner fst_rr ds (ns, k, w)
     else do {
       sz1 \<leftarrow> (if fst_rr then rhnlen owner else Some 1);
       sz2 \<leftarrow> rhnlen d;
       let (ok, w1) = w_malloc w;
       if \<not> ok then Some (None, k, w1)
       else do {
         o1 \<leftarrow> (if fst_rr then rd_all owner 0 sz1 else Some [0xff]);
         n1 \<leftarrow> rd_all d 0 sz2;
         add_ns_rrs owner False ds (ns @ [o1 @ n1], k + 1, w1)
       }
     }
   }"

definition in_bailiwick :: "query_stat \<Rightarrow> bytes \<Rightarrow> bool option" where
  "in_bailiwick st nm =
     (if q_trusted st then Some True
      else case q_nsdomain st of None \<Rightarrow> Some True
        | Some d \<Rightarrow> do { (m, rem, r) \<leftarrow> domain_match d nm; Some (rem = 0) })"

definition accepts_ns :: "query_stat \<Rightarrow> dns_cent \<Rightarrow> bool option" where
  "accepts_ns st cent = do {
     b \<leftarrow> rd (qname cent) 0;
     if b \<noteq> 0 \<or> q_auth_serv st \<noteq> 2 then do {
       ok \<leftarrow> in_bailiwick st (qname cent);
       Some (ok \<and> b \<noteq> 0xff)
     }
     else Some False
   }"

definition add_ns_type :: "dns_cent \<Rightarrow> nat \<Rightarrow> bytes list option \<times> nat \<times> world \<Rightarrow> (bytes list option \<times> nat \<times> world) option" where
  "add_ns_type cent tp = (\<lambda>(ns, k, w). case ns of None \<Rightarrow> Some (None, k, w)
     | Some l \<Rightarrow> do {
         s \<leftarrow> getrrset cent (int tp);
         case s of None \<Rightarrow> Some (Some l, k, w) | Some rrset \<Rightarrow> add_ns_rrs (qname cent) True (rs_rrs rrset) (l, k, w)
       })"

definition add_ns_cent :: "query_stat \<Rightarrow> dns_cent \<Rightarrow> bytes list option \<times> nat \<times> world \<Rightarrow> (bytes list option \<times> nat \<times> world) option" where
  "add_ns_cent st cent x = do {
     ok \<leftarrow> accepts_ns st cent;
     if ok then do { x1 \<leftarrow> add_ns_type cent T_NS x; add_ns_type cent T_SOA x1 } else Some x
   }"

definition add_ns_list :: "query_stat \<Rightarrow> sections \<Rightarrow> bytes list \<Rightarrow> world \<Rightarrow> (bytes list option \<times> nat \<times> world) option" where
  "add_ns_list st secs ns w =
     (if q_failed st \<le> 1 then fold_opt (add_ns_cent st) (ans_sec secs @ auth_sec secs) (Some ns, 0, w)
      else Some (Some ns, 0, w))"

subsection \<open>The result\<close>

text \<open>
  What is left of a reply: the return code, the entry \<open>*entp\<close>, the state of the query, the list of
  name servers, \<open>*c_soa\<close> and the environment.
\<close>

record exec_out =
  x_rv :: nat
  x_ent :: "dns_cent option"
  x_st :: query_stat
  x_ns :: "bytes list"
  x_c_soa :: "byte option"
  x_w :: world

text \<open>The entries of the sections are freed, the first one of the answer section only on request.\<close>

definition free_sections :: "bool \<Rightarrow> sections \<Rightarrow> world \<Rightarrow> world option" where
  "free_sections with_first secs w = do {
     let first = (if with_first then take 1 (ans_sec secs) else []);
     c \<leftarrow> fold_opt free_cent (first @ tl (ans_sec secs) @ auth_sec secs @ add_sec secs) (w_cache w);
     Some (w\<lparr>w_cache := c\<rparr>)
   }"

text \<open>The label \<open>free_ent_centarrays_recvbuf_return\<close>; freeing the buffer is left to the caller.\<close>

definition reply_failed ::
    "nat \<Rightarrow> sections \<Rightarrow> query_stat \<Rightarrow> bytes list \<Rightarrow> byte option \<Rightarrow> world \<Rightarrow> exec_out option" where
  "reply_failed rv secs st ns soa w = do {
     w1 \<leftarrow> free_sections True secs w;
     Some \<lparr>x_rv = rv, x_ent = None, x_st = st, x_ns = ns, x_c_soa = soa, x_w = w1\<rparr>
   }"

text \<open>An entry that is not the answer is added to the cache, if it may be believed.\<close>

definition cache_cent :: "query_stat \<Rightarrow> dns_cent \<Rightarrow> cache \<Rightarrow> cache option" where
  "cache_cent st cent c = do {
     b \<leftarrow> rd (qname cent) 0;
     if b \<noteq> 0 \<or> q_auth_serv st \<noteq> 2 then do {
       ok \<leftarrow> in_bailiwick st (qname cent);
       if ok then add_cache cent c else Some c
     }
     else Some c
   }"

definition add_reply_entries ::
    "bool \<Rightarrow> bool \<Rightarrow> nat \<Rightarrow> dns_cent option \<Rightarrow> sections \<Rightarrow> query_stat \<Rightarrow> bytes list \<Rightarrow> byte option \<Rightarrow> world \<Rightarrow> exec_out option" where
  "add_reply_entries neg_ans reject_ans rv ent' secs st ns soa w = do {
     c \<leftarrow> (if q_failed st = 0 \<and> \<not> reject_ans
       then fold_opt (cache_cent st) ((if neg_ans then [] else tl (ans_sec secs)) @ auth_sec secs @ add_sec secs) (w_cache w)
       else Some (w_cache w));
     w1 \<leftarrow> free_sections False secs (w\<lparr>w_cache := c\<rparr>);
     Some \<lparr>x_rv = rv, x_ent = ent', x_st = st, x_ns = ns, x_c_soa = soa, x_w = w1\<rparr>
   }"

text \<open>The label \<open>cleanup_return_OK\<close>.\<close>

definition cleanup_return_OK ::
    "bool \<Rightarrow> nat \<Rightarrow> bool \<Rightarrow> sections \<Rightarrow> query_stat \<Rightarrow> bytes list \<Rightarrow> byte option \<Rightarrow> world \<Rightarrow> exec_out option" where
  "cleanup_return_OK neg_ans num_ns reject_ans secs st ns soa w =
     (if q_failed st \<noteq> 0 \<and> neg_ans \<and> num_ns = 0 then reply_failed RC_SERVFAIL secs st [] soa w
      else
        let (ok, w1) = w_malloc w in
        if \<not> ok then reply_failed RC_FATALERR secs st [] soa w1
        else do {
          e \<leftarrow> rd (ans_sec secs) 0;
          add_reply_entries neg_ans reject_ans RC_OK (Some e) secs st ns soa w1
        })"

definition set_first :: "dns_cent \<Rightarrow> sections \<Rightarrow> sections" where
  "set_first e secs = secs\<lparr>ans_sec := (ans_sec secs)[0 := e]\<rparr>"

text \<open>The label \<open>name_error\<close>.\<close>

definition name_error ::
    "query_conf \<Rightarrow> bytes \<Rightarrow> int \<Rightarrow> bool \<Rightarrow> sections \<Rightarrow> query_stat \<Rightarrow> bytes list \<Rightarrow> byte option \<Rightarrow> world \<Rightarrow> exec_out option" where
  "name_error cf name queryts reject_ans secs st ns soa w = do {
     e \<leftarrow> rd (ans_sec secs) 0;
     if neg_domain_pol cf = C_ON \<or> neg_domain_pol cf = C_AUTH \<and> q_aa st then do {
       ttl \<leftarrow> name_error_ttl name e (auth_sec secs) (neg_ttl (w_cache w));
       (e1, c) \<leftarrow> negate_cent e ttl queryts (w_cache w);
       let e2 = (if q_nocache st then e1\<lparr>ce_flags := ce_flags e1 OR DF_NOCACHE\<rparr> else e1);
       cleanup_return_OK True 0 reject_ans (set_first e2 secs) st ns soa (w\<lparr>w_cache := c\<rparr>)
     }
     else do {
       c \<leftarrow> free_cent e (w_cache w);
       add_reply_entries True reject_ans RC_NAMEERR None secs st ns (map_option (\<lambda>x. c_soa e) soa) (w\<lparr>w_cache := c\<rparr>)
     }
   }"

text \<open>From the checks of delegation on, when the name was not rejected.\<close>

definition positive_reply ::
    "query_conf \<Rightarrow> bytes \<Rightarrow> nat \<Rightarrow> flags \<Rightarrow> int \<Rightarrow> bool \<Rightarrow> sections \<Rightarrow> query_stat \<Rightarrow> bytes list \<Rightarrow> byte option \<Rightarrow> world \<Rightarrow>
     exec_out option" where
  "positive_reply cf name thint fl queryts reject_ans secs st ns soa w = do {
     e \<leftarrow> rd (ans_sec secs) 0;
     (ok, e1, c) \<leftarrow> neg_rrset cf name thint fl queryts st (auth_sec secs) e (w_cache w);
     let secs1 = set_first e1 secs;
     let w1 = w\<lparr>w_cache := c\<rparr>;
     if \<not> ok then reply_failed RC_FATALERR secs1 st ns soa w1
     else do {
       (ns', num_ns, w2) \<leftarrow> add_ns_list st secs1 ns w1;
       case ns' of None \<Rightarrow> reply_failed RC_FATALERR secs1 st [] soa w2
       | Some l \<Rightarrow> cleanup_return_OK (num_rrs e = 0) num_ns reject_ans secs1 st l soa w2
     }
   }"

definition judge_reply ::
    "query_conf \<Rightarrow> bytes \<Rightarrow> nat \<Rightarrow> flags \<Rightarrow> int \<Rightarrow> nat \<Rightarrow> sections \<Rightarrow> query_stat \<Rightarrow> bytes list \<Rightarrow> byte option \<Rightarrow> world \<Rightarrow>
     exec_out option" where
  "judge_reply cf name thint fl queryts rcode secs st ns soa w = do {
     rej \<leftarrow> reject_answer st secs;
     if rcode = RC_NAMEERR then name_error cf name queryts rej secs st ns soa w
     else if rej then do {
       rl \<leftarrow> q_rejectlist st;
       if rl_policy rl = C_NEGATE \<and> q_failed st \<le> 1 then name_error cf name queryts rej secs st ns soa w
       else reply_failed RC_SERVFAIL secs st ns soa w
     }
     else do {
       (missing, authcnt) \<leftarrow> (if deleg_only_zones cf \<noteq> [] \<and> q_auth_serv st < 3 then missing_delegation cf name secs
         else Some (False, 0));
       if missing \<and> authcnt \<noteq> 0 \<and> q_failed st \<le> 1 then name_error cf name queryts rej secs st ns soa w
       else if missing \<and> q_auth_serv st < 2 then reply_failed RC_SERVFAIL secs st ns soa w
       else positive_reply cf name thint fl queryts rej secs st ns soa w
     }
   }"

text \<open>The records of a reply, with the bit \<open>rd\<close> of the query.\<close>

definition reply_records ::
    "query_conf \<Rightarrow> bytes \<Rightarrow> nat \<Rightarrow> bool \<Rightarrow> query_stat \<Rightarrow> bytes list \<Rightarrow> byte option \<Rightarrow> world \<Rightarrow> exec_out option" where
  "reply_records cf name thint rdflag st ns soa w = do {
     mem0 \<leftarrow> deref (q_recvbuf st);
     let recvl = unat (q_recvl st);
     let buf = take recvl mem0;
     let qtype = query_type st thint;
     let queryts = now (w_cache w);
     let servfail = \<lparr>x_rv = RC_SERVFAIL, x_ent = None, x_st = st, x_ns = ns, x_c_soa = soa, x_w = w\<rparr>;
     h \<leftarrow> hdr_of_bytes buf;
     if h_qdcount h \<noteq> 1 then Some servfail
     else do {
       r \<leftarrow> check_question buf recvl name qtype;
       case r of None \<Rightarrow> Some servfail
       | Some (rrp, lcnt) \<Rightarrow> do {
           let st1 = st\<lparr>q_aa := h_aa h \<and> q_failed st = 0, q_tc := h_tc h, q_ra := rdflag \<and> h_ra h\<rparr>;
           let aa = (q_aa st1 \<and> \<not> q_tc st1);
           let fl = (if aa then q_flags st1 OR CF_AUTH else q_flags st1);
           (a, c1) \<leftarrow> da_grow1 malloc None None (w_cache w);
           let w1 = w\<lparr>w_cache := c1\<rparr>;
           if a = None then Some (servfail\<lparr>x_rv := RC_FATALERR, x_st := st1, x_w := w1\<rparr>)
           else do {
             (ce, c2) \<leftarrow> init_cent name 0 0 (if aa \<and> qtype = QT_ALL then DF_AUTH else 0) c1;
             let w2 = w\<lparr>w_cache := c2\<rparr>;
             case ce of None \<Rightarrow> Some (servfail\<lparr>x_rv := RC_FATALERR, x_st := st1, x_w := w2\<rparr>)
             | Some e \<Rightarrow> do {
                 a1 \<leftarrow> da_set a 0 e;
                 (rv, rcode, st2, secs, w3) \<leftarrow> read_sections buf recvl h fl queryts a1 rrp lcnt st1 w2;
                 if \<not> (rv = RC_OK \<or> rv = RC_TRUNC \<and> h_tc h \<or> rv = RC_SERVFAIL)
                 then reply_failed (if rv \<noteq> RC_FATALERR then RC_SERVFAIL else rv) secs st2 ns soa w3
                 else do {
                   let st3 = (if rv = RC_SERVFAIL \<and> q_failed st2 = 0 then st2\<lparr>q_failed := 1\<rparr> else st2);
                   an \<leftarrow> map_opt (set_refs qtype (q_auth_serv st3) (length (ans_sec secs)) (auth_sec secs)) (ans_sec secs);
                   judge_reply cf name thint fl queryts rcode (secs\<lparr>ans_sec := an\<rparr>) st3 ns soa w3
                 }
               }
           }
         }
     }
   }"

subsection \<open>p_exec_query\<close>

text \<open>
  \<open>None\<close> for the return code is -1. With \<open>entp\<close> a null pointer (the query of an up test) only the
  code matters.
\<close>

record exec_ret =
  e_rv :: "nat option"
  e_ent :: "dns_cent option"
  e_st :: query_stat
  e_ns :: "bytes list"
  e_c_soa :: "byte option"
  e_w :: world

definition p_exec_query ::
    "query_conf \<Rightarrow> bool \<Rightarrow> bytes option \<Rightarrow> nat \<Rightarrow> query_stat \<Rightarrow> bytes list \<Rightarrow> byte option \<Rightarrow> world \<Rightarrow> exec_ret option" where
  "p_exec_query cf entp name thint st ns soa w = do {
     (out, st1, w1) \<leftarrow> exec_send cf entp name thint st w;
     case out of
       Call_again \<Rightarrow> Some \<lparr>e_rv = None, e_ent = None, e_st = st1, e_ns = ns, e_c_soa = soa, e_w = w1\<rparr>
     | Returns rv \<Rightarrow> Some \<lparr>e_rv = Some rv, e_ent = None, e_st = st1, e_ns = ns, e_c_soa = soa, e_w = w1\<rparr>
     | Replied rcode \<Rightarrow> do {
         m \<leftarrow> deref (q_msg st1);
         q \<leftarrow> hdr_of_bytes m;
         m' \<leftarrow> free_buf (q_msg st1);
         let st2 = st1\<lparr>q_msg := m'\<rparr>;
         x \<leftarrow> (if entp then do { n \<leftarrow> name; reply_records cf n thint (h_rd q) st2 ns soa w1 }
           else Some \<lparr>x_rv = rcode, x_ent = None, x_st = st2, x_ns = ns, x_c_soa = soa, x_w = w1\<rparr>);
         r' \<leftarrow> free_buf (q_recvbuf (x_st x));
         Some \<lparr>e_rv = Some (x_rv x), e_ent = x_ent x, e_st = (x_st x)\<lparr>q_recvbuf := r'\<rparr>, e_ns = x_ns x, e_c_soa = x_c_soa x,
           e_w = x_w x\<rparr>
       }
   }"

end
