(* ===== verification/Query_Net_Correct.thy ===== *)
theory Query_Net_Correct
  imports Query_Net Answer_Opt
begin

text \<open>
  The state machine of a query: it binds a port of the configured range, keeps its buffers within
  their bounds, and stops in a state that can go on or with a reply or an error.
\<close>

subsection \<open>The environment\<close>

definition same_world :: "world \<Rightarrow> world \<Rightarrow> bool" where
  "same_world w w' \<longleftrightarrow> w_sys w' = w_sys w \<and> w_rand w' = w_rand w \<and> (\<exists>m. w_cache w' = (w_cache w)\<lparr>mem := m\<rparr>)"

lemma same_cache: "\<exists>m. st = st\<lparr>mem := m\<rparr>" for st :: cache
  by (intro exI [of _ "mem st"]) simp

lemma same_world_refl [simp]: "same_world w w"
  by (simp add: same_world_def same_cache)

lemma same_world_trans [trans]: "same_world w w1 \<Longrightarrow> same_world w1 w2 \<Longrightarrow> same_world w w2"
  by (auto simp: same_world_def)

lemma same_world_upd [simp]:
  "same_world w (w'\<lparr>w_n := n\<rparr>) = same_world w w'" "same_world w (w'\<lparr>w_r := n\<rparr>) = same_world w w'"
  "same_world w (w'\<lparr>w_sched := x\<rparr>) = same_world w w'" "same_world w (w'\<lparr>w_sent := s\<rparr>) = same_world w w'" "same_world w (w'\<lparr>w_port := p\<rparr>) = same_world w w'"
  by (simp_all add: same_world_def)

lemma sys_same: "sys w = (r, w') \<Longrightarrow> same_world w w'"
  by (auto simp: sys_def)

lemma get_rand16_same: "get_rand16 w = (r, w') \<Longrightarrow> same_world w w'"
  by (auto simp: get_rand16_def)

lemma w_malloc_same: "w_malloc w = (ok, w') \<Longrightarrow> same_world w w'"
  by (auto simp: w_malloc_def malloc_def same_world_def same_cache split: list.splits)

lemma sys_call_same: "sys_call w = (r, w') \<Longrightarrow> same_world w w'"
  by (auto simp: sys_call_def sys_def split: sysres.splits)

lemma sys_bind_same: "sys_bind p w = (r, w') \<Longrightarrow> same_world w w'"
  by (auto simp: sys_bind_def sys_call_def sys_def split: sysres.splits option.splits)

lemma sys_bind_port: "sys_bind p w = (None, w') \<Longrightarrow> w_port w' = Some p"
  by (auto simp: sys_bind_def split: option.splits prod.splits)

lemma sys_write_same: "sys_write b w = (r, w') \<Longrightarrow> same_world w w'"
  by (auto simp: sys_write_def sys_def split: sysres.splits)

lemma sys_read_same: "sys_read n w = (r, w') \<Longrightarrow> same_world w w'"
  by (auto simp: sys_read_def sys_def split: sysres.splits)

lemma sys_read_length: "sys_read n w = (Inr d, w') \<Longrightarrow> length d \<le> n"
  by (auto simp: sys_read_def split: sysres.splits prod.splits)

lemma sys_read_data: "sys_read n w = (Inr d, w') \<Longrightarrow> d \<noteq> [] \<Longrightarrow> \<exists>b. w_sys w (w_n w) = Data b \<and> d = take n b"
  by (auto simp: sys_read_def sys_def split: sysres.splits)

lemmas same_worlds = sys_same get_rand16_same w_malloc_same sys_call_same sys_bind_same sys_write_same sys_read_same

subsection \<open>bind_socket\<close>

lemma rand_below_spec:
  "rand_below n rg m w = (r, w') \<Longrightarrow> same_world w w' \<and> (\<forall>p. r = Some p \<longrightarrow> p < rg)"
proof (induction n arbitrary: w)
  case (Suc n)
  obtain x w1 where g: "get_rand16 w = (x, w1)" by (cases "get_rand16 w")
  note s = get_rand16_same [OF g]
  show ?case
  proof (cases "unat (x AND m) < rg")
    case True
    with Suc.prems g s show ?thesis by auto
  next
    case False
    with Suc.prems g have "rand_below n rg m w1 = (r, w')" by simp
    from Suc.IH [OF this] same_world_trans [OF s] show ?thesis by blast
  qed
qed simp

definition bound_in :: "int \<Rightarrow> int \<Rightarrow> world \<Rightarrow> bool \<times> world \<Rightarrow> bool" where
  "bound_in lo hi w = (\<lambda>(b, w'). same_world w w' \<and> (b \<longrightarrow> (\<exists>p. w_port w' = Some p \<and> lo \<le> p \<and> p \<le> hi)))"

text \<open>The scan ends: \<open>k\<close> more steps around the range lead back to \<open>pstart\<close>.\<close>

lemma bind_scan_spec:
  assumes "lo \<le> prt" and "prt \<le> hi" and "pstart = lo + (prt - lo + int k) mod (hi - lo + 1)" and "0 < k" and "k \<le> n"
  shows "returns (bind_scan n pstart prt lo hi w) (bound_in lo hi w)"
  using assms
proof (induction n arbitrary: prt k w)
  case (Suc n)
  define prt' where "prt' = (if prt + 1 > hi then lo else prt + 1)"
  have p': "lo \<le> prt'" "prt' \<le> hi" using Suc.prems by (auto simp: prt'_def)
  have m: "prt' - lo = (prt - lo + 1) mod (hi - lo + 1)" using Suc.prems by (auto simp: prt'_def)
  obtain r w1 where b: "sys_bind prt' w = (r, w1)" by (cases "sys_bind prt' w")
  note s = sys_bind_same [OF b]
  have e: "bind_scan (Suc n) pstart prt lo hi w = (if prt' = pstart then Some (False, w)
      else case r of None \<Rightarrow> Some (True, w1)
        | Some e \<Rightarrow> if e \<noteq> EADDRINUSE \<and> e \<noteq> EADDRNOTAVAIL then Some (False, w1) else bind_scan n pstart prt' lo hi w1)"
    using b unfolding prt'_def by (simp add: Let_def)
  show ?case
  proof (cases "prt' = pstart")
    case True
    then show ?thesis unfolding e by (simp add: bound_in_def)
  next
    case False
    have "k \<noteq> 1" using False Suc.prems(3) m by auto
    with Suc.prems(4) have k: "0 < k - 1" "k - 1 \<le> n" "int k = 1 + int (k - 1)" using Suc.prems(5) by auto
    have "pstart = lo + (prt' - lo + int (k - 1)) mod (hi - lo + 1)"
      unfolding m Suc.prems(3) k(3) by (simp add: mod_simps algebra_simps)
    from Suc.IH [OF p' this k(1,2), of w1] have IH: "returns (bind_scan n pstart prt' lo hi w1) (bound_in lo hi w1)" .
    have g: "returns (bind_scan n pstart prt' lo hi w1) (bound_in lo hi w)"
      using IH by (rule returns_mono) (auto simp: bound_in_def intro: same_world_trans [OF s])
    from False b s p' g sys_bind_port [of prt' w w1] show ?thesis
      unfolding e by (cases r) (auto simp: bound_in_def)
  qed
qed simp

lemma bind_tries_spec:
  assumes "0 < rg" and "hi = lo + int rg - 1" and "0 < n"
  shows "returns (bind_tries n rg m lo hi w) (bound_in lo hi w)"
  using assms(3)
proof (induction n arbitrary: w)
  case (Suc n)
  obtain r w1 where r: "rand_below 0x10000 rg m w = (r, w1)" by (cases "rand_below 0x10000 rg m w")
  from rand_below_spec [OF r] have s1: "same_world w w1" and lt: "\<forall>p. r = Some p \<longrightarrow> p < rg" by simp_all
  show ?case
  proof (cases r)
    case None
    with r s1 show ?thesis by (simp add: bound_in_def)
  next
    case (Some x)
    let ?p = "int x + lo"
    have p: "lo \<le> ?p" "?p \<le> hi" using lt Some assms(2) by auto
    obtain e w2 where b: "sys_bind ?p w1 = (e, w2)" by (cases "sys_bind ?p w1")
    have s2: "same_world w w2" using s1 sys_bind_same [OF b] by (rule same_world_trans)
    have lift: "returns t (bound_in lo hi w)" if "returns t (bound_in lo hi w2)" for t
      using that by (rule returns_mono) (auto simp: bound_in_def intro: same_world_trans [OF s2])
    show ?thesis
    proof (cases e)
      case None
      with r Some b s2 p sys_bind_port [of ?p w1 w2] show ?thesis by (simp add: bound_in_def)
    next
      case (Some err)
      have scan: "returns (bind_scan rg ?p ?p lo hi w2) (bound_in lo hi w)"
        using p assms(1,2) lt \<open>r = Some x\<close> by (intro lift bind_scan_spec [of lo ?p hi ?p rg rg]) auto
      have tries: "returns (bind_tries n rg m lo hi w2) (bound_in lo hi w)" if "n \<noteq> 0"
        using Suc.IH that by (intro lift) simp
      from r \<open>r = Some x\<close> b Some s2 scan tries show ?thesis by (auto simp: bound_in_def Let_def)
    qed
  qed
qed simp

lemma bind_socket_spec:
  "returns (bind_socket cf w) (\<lambda>(b, w'). same_world w w' \<and>
     (b \<and> 0 \<le> query_port_start cf \<longrightarrow> (\<exists>p. w_port w' = Some p \<and> query_port_start cf \<le> p \<and> p \<le> query_port_end cf)))"
proof (cases "query_port_start cf < 0 \<or> query_port_end cf - query_port_start cf + 1 \<le> 0 \<or>
    query_port_end cf - query_port_start cf + 1 > 0x10000")
  case True
  then show ?thesis by (auto simp: bind_socket_def Let_def)
next
  case False
  let ?n = "nat (query_port_end cf - query_port_start cf + 1)"
  have n: "0 < ?n" "query_port_end cf = query_port_start cf + int ?n - 1" "0 < ?n * 2" using False by auto
  have "returns (bind_socket cf w) (bound_in (query_port_start cf) (query_port_end cf) w)"
    using False bind_tries_spec [OF n] by (simp add: bind_socket_def Let_def)
  then show ?thesis by (rule returns_mono) (auto simp: bound_in_def)
qed

subsection \<open>The state machine\<close>

text \<open>What the state machine leaves as it is; of the message only the identification may change.\<close>

definition msg_tail :: "query_stat \<Rightarrow> bytes option" where
  "msg_tail st = map_option (drop 2) (deref (q_msg st))"

lemma msg_tail_upd [simp]:
  "msg_tail (st\<lparr>q_state := a\<rparr>) = msg_tail st" "msg_tail (st\<lparr>q_qm := b\<rparr>) = msg_tail st" "msg_tail (st\<lparr>q_recvl := c\<rparr>) = msg_tail st"
  "msg_tail (st\<lparr>q_iolen := d\<rparr>) = msg_tail st" "msg_tail (st\<lparr>q_recvbuf := e\<rparr>) = msg_tail st" "msg_tail (st\<lparr>q_myrid := f\<rparr>) = msg_tail st"
  "msg_tail (st\<lparr>q_s_errno := g\<rparr>) = msg_tail st"
  by (simp_all add: msg_tail_def)

definition same_query :: "query_stat \<Rightarrow> query_stat \<Rightarrow> bool" where
  "same_query st st' \<longleftrightarrow> q_a st' = q_a st \<and> q_port st' = q_port st \<and> q_timeout st' = q_timeout st \<and> q_flags st' = q_flags st \<and>
     q_nocache st' = q_nocache st \<and> q_auth_serv st' = q_auth_serv st \<and> q_lean_query st' = q_lean_query st \<and>
     q_edns_query st' = q_edns_query st \<and> q_needs_testing st' = q_needs_testing st \<and> q_trusted st' = q_trusted st \<and>
     q_aa st' = q_aa st \<and> q_tc st' = q_tc st \<and> q_ra st' = q_ra st \<and> q_failed st' = q_failed st \<and>
     q_nsdomain st' = q_nsdomain st \<and> q_rejectlist st' = q_rejectlist st \<and> q_transl st' = q_transl st \<and> q_len st' = q_len st \<and>
     msg_tail st' = msg_tail st"

lemma same_query_refl [simp]: "same_query st st"
  by (simp add: same_query_def)

lemma same_query_trans: "same_query st st1 \<Longrightarrow> same_query st1 st2 \<Longrightarrow> same_query st st2"
  by (simp add: same_query_def)

lemma same_query_upd [simp]:
  "same_query st (st1\<lparr>q_state := a\<rparr>) = same_query st st1" "same_query st (st1\<lparr>q_qm := b\<rparr>) = same_query st st1"
  "same_query st (st1\<lparr>q_recvl := c\<rparr>) = same_query st st1" "same_query st (st1\<lparr>q_iolen := d\<rparr>) = same_query st st1"
  "same_query st (st1\<lparr>q_recvbuf := e\<rparr>) = same_query st st1"
  "same_query st (st1\<lparr>q_myrid := f\<rparr>) = same_query st st1" "same_query st (st1\<lparr>q_s_errno := g\<rparr>) = same_query st st1"
  by (simp_all add: same_query_def)

text \<open>The message to send is there, and at most \<open>transl\<close> bytes of it are sent.\<close>

definition msg_live :: "query_stat \<Rightarrow> bool" where
  "msg_live st \<longleftrightarrow> (\<exists>b. q_msg st = Live b \<and> q_transl st \<le> length b \<and> sizeof_dns_hdr \<le> length b)"

definition sm_inv :: "query_stat \<Rightarrow> bool" where
  "sm_inv st \<longleftrightarrow> msg_live st \<and> q_recvbuf st \<noteq> Freed \<and>
     (q_state st = QS_TCPWRITE \<longrightarrow> q_iolen st \<le> dnsmsghdroffset + q_transl st) \<and>
     (q_state st = QS_TCPREAD \<and> q_iolen st \<noteq> 0 \<longrightarrow> 2 \<le> q_iolen st \<and> q_iolen st \<le> 2 + unat (q_recvl st) \<and>
        (\<exists>b. q_recvbuf st = Live b \<and> length b = unat (q_recvl st)))"

text \<open>No server announces an empty message over TCP, or there is no buffer of an earlier reply.\<close>

definition no_empty_reply :: "query_stat \<Rightarrow> world \<Rightarrow> bool" where
  "no_empty_reply st w \<longleftrightarrow> q_recvbuf st = Null \<or> (\<forall>n d. w_sys w n = Data d \<longrightarrow> take 2 d \<noteq> [0, 0])"

definition received :: "query_stat \<Rightarrow> bool" where
  "received st \<longleftrightarrow> (\<exists>b. q_recvbuf st = Live b \<and> unat (q_recvl st) \<le> length b)"

definition sm_post :: "query_stat \<Rightarrow> world \<Rightarrow> nat option \<times> query_stat \<times> world \<Rightarrow> bool" where
  "sm_post st w = (\<lambda>(rv, st', w'). same_query st st' \<and> same_world w w' \<and> msg_live st' \<and> q_recvbuf st' \<noteq> Freed \<and>
     (case rv of
        None \<Rightarrow> q_state st' \<in> {QS_TCPWRITE, QS_TCPREAD, QS_UDPRECEIVE} \<and> sm_inv st'
      | Some rc \<Rightarrow> q_state st' = QS_DONE \<and> (rc = RC_OK \<and> received st' \<or> rc = RC_SERVFAIL \<or> rc = RC_FATALERR)))"

lemma sm_post_trans: "sm_post st1 w1 r \<Longrightarrow> same_query st st1 \<Longrightarrow> same_world w w1 \<Longrightarrow> sm_post st w r"
  unfolding sm_post_def by (auto intro: same_query_trans same_world_trans)

lemma returns_sm_post:
  "returns r (sm_post st1 w1) \<Longrightarrow> same_query st st1 \<Longrightarrow> same_world w w1 \<Longrightarrow> returns r (sm_post st w)"
  by (erule returns_mono) (rule sm_post_trans)

lemma msg_live_same:
  "msg_live st \<Longrightarrow> q_msg st' = q_msg st \<Longrightarrow> q_transl st' = q_transl st \<Longrightarrow> msg_live st'"
  by (simp add: msg_live_def)

lemma rc_fail [simp]: "RC_FATALERR \<noteq> RC_OK" "RC_SERVFAIL \<noteq> RC_OK"
  by (simp_all add: RC_OK_def RC_FATALERR_def RC_SERVFAIL_def)

lemma sm_failed_post:
  "msg_live st \<Longrightarrow> q_recvbuf st \<noteq> Freed \<Longrightarrow> rc = RC_SERVFAIL \<or> rc = RC_FATALERR \<Longrightarrow> returns (sm_failed rc st w) (sm_post st w)"
  by (auto simp: sm_failed_def sm_post_def msg_live_def)

lemma sm_wait_post:
  "sm_inv (st\<lparr>q_state := s\<rparr>) \<Longrightarrow> s \<in> {QS_TCPWRITE, QS_TCPREAD, QS_UDPRECEIVE} \<Longrightarrow> returns (sm_wait s st w) (sm_post st w)"
  by (auto simp: sm_wait_def sm_post_def sm_inv_def msg_live_def)

lemma sm_done_post: "msg_live st \<Longrightarrow> received st \<Longrightarrow> returns (sm_done st w) (sm_post st w)"
  by (auto simp: sm_done_def sm_post_def msg_live_def received_def)

lemma realloc_or_cleanup_ok:
  assumes "p \<noteq> Freed" and "p = Null \<or> 0 < n"
  shows "\<exists>p'. realloc_or_cleanup p n ok = Some p' \<and> (p' = Null \<or> (\<exists>b. p' = Live b \<and> length b = n))"
  using assms by (cases p) (auto simp: realloc_or_cleanup_def realloc_def free_buf_def resized_def)

subsection \<open>UDP\<close>

lemma sm_udp_initial_post:
  assumes "msg_live st" and "q_recvbuf st \<noteq> Freed"
  shows "returns (sm_udp_initial cf st w) (sm_post st w)"
proof -
  obtain b where b: "q_msg st = Live b" "q_transl st \<le> length b" using assms(1) by (auto simp: msg_live_def)
  obtain e1 w1 where c1: "sys_call w = (e1, w1)" by (cases "sys_call w")
  obtain bd w2 where c2: "bind_socket cf w1 = Some (bd, w2)" "same_world w1 w2"
    using bind_socket_spec [of cf w1] by (rule returnsE) auto
  obtain e3 w3 where c3: "sys_call w2 = (e3, w3)" by (cases "sys_call w2")
  let ?out = "take (q_transl st) b"
  have out: "rd_all b 0 (q_transl st) = Some ?out" using b(2) by (simp add: rd_all_def)
  obtain r w4 where c4: "sys_write ?out w3 = (r, w4)" by (cases "sys_write ?out w3")
  have s: "same_world w w1" "same_world w w2" "same_world w w3" "same_world w w4"
    using sys_call_same [OF c1] c2(2) sys_call_same [OF c3] sys_write_same [OF c4] by (blast intro: same_world_trans)+
  have f: "returns (sm_failed RC_SERVFAIL (st\<lparr>q_s_errno := e\<rparr>) w') (sm_post st w)"
      "returns (sm_failed RC_SERVFAIL st w') (sm_post st w)" if "same_world w w'" for e w'
    using assms that by (auto intro!: returns_sm_post [OF sm_failed_post] intro: msg_live_same)
  have wt: "returns (sm_wait QS_UDPRECEIVE st w4) (sm_post st w)"
    using assms s(4) by (intro returns_sm_post [OF sm_wait_post]) (auto simp: sm_inv_def intro: msg_live_same)
  show ?thesis
    using c1 c2(1) c3 c4 b out s f wt
    by (cases e1; cases e3; cases r) (simp_all add: sm_udp_initial_def deref_def)
qed

lemma sm_udp_receive_post:
  assumes "msg_live st" and "q_recvbuf st \<noteq> Freed" and "0 < q_udpbufsize cf"
  shows "returns (sm_udp_receive cf st w) (sm_post st w)"
proof -
  define n where "n = (if q_edns_query st then q_udpbufsize cf else UDP_BUFSIZE)"
  have n: "0 < n" using assms(3) by (simp add: n_def UDP_BUFSIZE_def)
  obtain ok w1 where m: "w_malloc w = (ok, w1)" by (cases "w_malloc w")
  obtain p where p: "realloc_or_cleanup (q_recvbuf st) n ok = Some p" "p = Null \<or> (\<exists>b. p = Live b \<and> length b = n)"
    using realloc_or_cleanup_ok [OF assms(2)] n by blast
  obtain r w2 where r: "sys_read n w1 = (r, w2)" by (cases "sys_read n w1")
  have s: "same_world w w1" "same_world w w2"
    using w_malloc_same [OF m] sys_read_same [OF r] by (blast intro: same_world_trans)+
  let ?st1 = "st\<lparr>q_recvbuf := p\<rparr>"
  have l1: "msg_live ?st1" "q_recvbuf ?st1 \<noteq> Freed" using assms(1) p(2) by (auto intro: msg_live_same)
  note e = sm_udp_receive_def n_def [symmetric] m p(1)
  show ?thesis
  proof (cases "p = Null")
    case True
    have "returns (sm_failed RC_FATALERR ?st1 w1) (sm_post st w)"
      using l1 s(1) by (intro returns_sm_post [OF sm_failed_post]) auto
    with True show ?thesis by (simp add: e)
  next
    case False
    with p(2) obtain b where b: "p = Live b" "length b = n" by blast
    show ?thesis
    proof (cases r)
      case (Inl err)
      have "returns (sm_failed RC_SERVFAIL (?st1\<lparr>q_s_errno := err\<rparr>) w2) (sm_post st w)"
        using l1 s(2) by (intro returns_sm_post [OF sm_failed_post]) (auto intro: msg_live_same)
      with False Inl r show ?thesis by (simp add: e)
    next
      case (Inr d)
      have d: "length d \<le> n" using sys_read_length r Inr by simp
      then have w: "wr_all b 0 d = Some (d @ drop (length d) b)" using b(2) by (simp add: wr_all_def)
      let ?b = "d @ drop (length d) b"
      let ?st2 = "?st1\<lparr>q_recvbuf := Live ?b, q_recvl := of_nat (length d)\<rparr>"
      have len: "length ?b = n" "unat (of_nat (length d) :: 16 word) \<le> n"
        using d b(2) by (auto simp: unat_of_nat intro: le_trans [OF mod_less_eq_dividend])
      have l2: "msg_live ?st2" "received ?st2" using assms(1) len by (auto simp: received_def intro: msg_live_same)
      have wt: "returns (sm_wait QS_UDPRECEIVE ?st2 w2) (sm_post st w)"
        using l2 s(2) by (intro returns_sm_post [OF sm_wait_post]) (auto simp: sm_inv_def intro: msg_live_same)
      have dn: "returns (sm_done ?st2 w2) (sm_post st w)"
        using l2 s(2) by (intro returns_sm_post [OF sm_done_post]) auto
      have id: "\<exists>i. ntohs_at ?b 0 = Some i" if "sizeof_dns_hdr \<le> unat (of_nat (length d) :: 16 word)"
        using that len by (auto simp: sizeof_dns_hdr_def ntohs_at_def GETINT16_def rd_def)
      show ?thesis
        using False Inr r b(1) w wt dn id by (auto simp: e deref_def not_less Let_def)
    qed
  qed
qed

subsection \<open>TCP\<close>

lemma set_id_spec:
  assumes "msg_live st"
  obtains st' where "set_id st = Some st'" "msg_live st'" "same_query st st'" "q_recvbuf st' = q_recvbuf st" "q_qm st' = q_qm st"
proof -
  from assms obtain b where b: "q_msg st = Live b" "q_transl st \<le> length b" "12 \<le> length b"
    by (auto simp: msg_live_def sizeof_dns_hdr_def)
  have "PUTINT16 (q_myrid st) b 0 = Some (put b 0 (be16 (q_myrid st)), 2)"
    using PUTINT16_put [of 0 b "q_myrid st"] b(3) by simp
  with b have "set_id st = Some (st\<lparr>q_msg := Live (put b 0 (be16 (q_myrid st)))\<rparr>)"
    "msg_live (st\<lparr>q_msg := Live (put b 0 (be16 (q_myrid st)))\<rparr>)"
    by (simp_all add: set_id_def deref_def msg_live_def sizeof_dns_hdr_def)
  moreover have "same_query st (st\<lparr>q_msg := Live (put b 0 (be16 (q_myrid st)))\<rparr>)"
    using b by (simp add: same_query_def msg_tail_def deref_def put_def numeral_2_eq_2)
  ultimately show thesis using that by simp
qed

lemma switch_to_udp_spec:
  assumes "msg_live st"
  obtains st' w' where "switch_to_udp st w = Some (st', w')" "msg_live st'" "same_query st st'" "same_world w w'"
    "q_recvbuf st' = q_recvbuf st"
proof -
  obtain r w1 where r: "get_rand16 w = (r, w1)" by (cases "get_rand16 w")
  have "msg_live (st\<lparr>q_qm := UDP_ONLY, q_myrid := r\<rparr>)" using assms by (simp add: msg_live_def)
  from set_id_spec [OF this] obtain st1 where "set_id (st\<lparr>q_qm := UDP_ONLY, q_myrid := r\<rparr>) = Some st1" "msg_live st1"
    "same_query (st\<lparr>q_qm := UDP_ONLY, q_myrid := r\<rparr>) st1" "q_recvbuf st1 = q_recvbuf st" by auto
  with r get_rand16_same [OF r] that [of "st1\<lparr>q_state := QS_UDPINITIAL\<rparr>" w1] show thesis
    by (simp add: switch_to_udp_def msg_live_def same_query_def)
qed

lemma sm_tcp_failed_post:
  assumes "msg_live st" and "q_recvbuf st \<noteq> Freed"
  shows "returns (sm_tcp_failed cf st w) (sm_post st w)"
proof (cases "q_qm st = TCP_UDP")
  case True
  from switch_to_udp_spec [OF assms(1), of w] obtain st1 w1 where
    s: "switch_to_udp st w = Some (st1, w1)" "msg_live st1" "same_query st st1" "same_world w w1" "q_recvbuf st1 = q_recvbuf st" .
  have "returns (sm_udp_initial cf st1 w1) (sm_post st w)"
    using s assms(2) by (intro returns_sm_post [OF sm_udp_initial_post]) simp_all
  with True s(1) show ?thesis by (simp add: sm_tcp_failed_def)
next
  case False
  with sm_failed_post [OF assms] show ?thesis by (simp add: sm_tcp_failed_def)
qed

lemma sm_tcp_body_post:
  assumes "msg_live st" and "2 \<le> q_iolen st" and "q_iolen st \<le> 2 + unat (q_recvl st)"
    and "q_recvbuf st = Live b" and "length b = unat (q_recvl st)"
  shows "returns (sm_tcp_body cf st w) (sm_post st w)"
proof -
  define rem where "rem = unat (q_recvl st) - (q_iolen st - 2)"
  obtain r w1 where r: "sys_read rem w = (r, w1)" by (cases "sys_read rem w")
  note s = sys_read_same [OF r]
  have nf: "q_recvbuf st \<noteq> Freed" using assms(4) by simp
  have f: "returns (sm_tcp_failed cf st w1) (sm_post st w)" "returns (sm_tcp_failed cf (st\<lparr>q_s_errno := e\<rparr>) w1) (sm_post st w)" for e
    using assms(1) nf s by (auto intro!: returns_sm_post [OF sm_tcp_failed_post] intro: msg_live_same)
  have wt: "returns (sm_wait QS_TCPREAD st w1) (sm_post st w)"
    using assms s by (intro returns_sm_post [OF sm_wait_post]) (auto simp: sm_inv_def intro: msg_live_same)
  have dn: "returns (sm_done st w) (sm_post st w)"
    using assms by (intro sm_done_post) (auto simp: received_def)
  have e: "sm_tcp_body cf st w = (if rem = 0 then sm_done st w else case r of
      Inl e \<Rightarrow> if e = EWOULDBLOCK then sm_wait QS_TCPREAD st w1 else sm_tcp_failed cf (st\<lparr>q_s_errno := e\<rparr>) w1
    | Inr d \<Rightarrow> if d = [] then sm_tcp_failed cf st w1
        else do {
          b \<leftarrow> deref (q_recvbuf st);
          b' \<leftarrow> wr_all b (q_iolen st - 2) d;
          let st1 = st\<lparr>q_recvbuf := Live b', q_iolen := q_iolen st + length d\<rparr>;
          if length d < rem then sm_wait QS_TCPREAD st1 w1 else sm_done st1 w1
        })"
    by (simp only: sm_tcp_body_def Let_def rem_def [symmetric] r prod.case)
  show ?thesis
  proof (cases "rem = 0 \<or> (\<exists>x. r = Inl x) \<or> r = Inr []")
    case True
    with f wt dn show ?thesis unfolding e by (auto split: sum.splits)
  next
    case False
    then obtain d where d: "r = Inr d" "d \<noteq> []" "0 < rem" by (cases r) auto
    have len: "length d \<le> rem" using sys_read_length r d(1) by simp
    define b' where "b' = take (q_iolen st - 2) b @ d @ drop (q_iolen st - 2 + length d) b"
    have w: "wr_all b (q_iolen st - 2) d = Some b'" and lb: "length b' = length b"
      using len assms(2-5) d(3) by (auto simp: wr_all_def b'_def rem_def)
    let ?st = "st\<lparr>q_recvbuf := Live b', q_iolen := q_iolen st + length d\<rparr>"
    have io: "q_iolen ?st \<le> 2 + unat (q_recvl st)" using len assms(2,3) by (simp add: rem_def)
    have wt2: "returns (sm_wait QS_TCPREAD ?st w1) (sm_post st w)"
      using assms s io lb by (intro returns_sm_post [OF sm_wait_post]) (auto simp: sm_inv_def intro: msg_live_same)
    have dn2: "returns (sm_done ?st w1) (sm_post st w)"
      using assms s lb by (intro returns_sm_post [OF sm_done_post]) (auto simp: received_def intro: msg_live_same)
    show ?thesis using d w wt2 dn2 assms(4) unfolding e by (simp add: deref_def Let_def)
  qed
qed

lemma sm_tcp_read_post:
  assumes "msg_live st" and "q_recvbuf st \<noteq> Freed" and "no_empty_reply st w"
    and "q_iolen st \<noteq> 0 \<Longrightarrow> 2 \<le> q_iolen st \<and> q_iolen st \<le> 2 + unat (q_recvl st) \<and>
      (\<exists>b. q_recvbuf st = Live b \<and> length b = unat (q_recvl st))"
  shows "returns (sm_tcp_read cf st w) (sm_post st w)"
proof (cases "q_iolen st = 0")
  case False
  with assms(4) obtain b where "2 \<le> q_iolen st" "q_iolen st \<le> 2 + unat (q_recvl st)" "q_recvbuf st = Live b"
    "length b = unat (q_recvl st)" by blast
  from sm_tcp_body_post [OF assms(1) this] False show ?thesis by (simp add: sm_tcp_read_def)
next
  case True
  obtain r w1 where r: "sys_read 2 w = (r, w1)" by (cases "sys_read 2 w")
  note s = sys_read_same [OF r]
  have f: "returns (sm_tcp_failed cf st w1) (sm_post st w)" "returns (sm_tcp_failed cf (st\<lparr>q_s_errno := e\<rparr>) w1) (sm_post st w)" for e
    using assms(1,2) s by (auto intro!: returns_sm_post [OF sm_tcp_failed_post] intro: msg_live_same)
  have wt: "returns (sm_wait QS_TCPREAD st w1) (sm_post st w)"
    using assms True s by (intro returns_sm_post [OF sm_wait_post]) (auto simp: sm_inv_def intro: msg_live_same)
  show ?thesis
  proof (cases "(\<exists>x. r = Inl x) \<or> (\<exists>d. r = Inr d \<and> length d \<noteq> 2)")
    case True
    with \<open>q_iolen st = 0\<close> r f wt show ?thesis by (auto simp: sm_tcp_read_def)
  next
    case False
    then obtain d where d: "r = Inr d" "length d = 2" by (cases r) auto
    then obtain x y where xy: "d = [x, y]" by (auto simp: numeral_2_eq_2 length_Suc_conv)
    obtain len p where g: "GETINT16 d 0 = Some (len, p)" using xy by (simp add: GETINT16_def)
    have ne: "q_recvbuf st = Null \<or> 0 < unat len"
    proof (rule ccontr)
      assume n: "\<not> ?thesis"
      then have "push_bit 8 (ucast x) OR ucast y = (0 :: 16 word)" using g xy by (simp add: GETINT16_def unat_eq_0)
      then have "[x, y] = be16 0" using split16 [of x y] by simp
      then have "x = 0 \<and> y = 0" by (simp add: be16_def)
      moreover obtain b where "w_sys w (w_n w) = Data b" "d = take 2 b" using sys_read_data r d xy by blast
      ultimately show False using n assms(3) xy unfolding no_empty_reply_def by metis
    qed
    obtain ok w2 where m: "w_malloc w1 = (ok, w2)" by (cases "w_malloc w1")
    have s2: "same_world w w2" using s w_malloc_same [OF m] by (rule same_world_trans)
    obtain p where p: "realloc_or_cleanup (q_recvbuf st) (unat len) ok = Some p" "p = Null \<or> (\<exists>b. p = Live b \<and> length b = unat len)"
      using realloc_or_cleanup_ok [OF assms(2) ne] by blast
    let ?st = "st\<lparr>q_iolen := 2, q_recvl := len, q_recvbuf := p\<rparr>"
    have l: "msg_live ?st" using assms(1) by (simp add: msg_live_def)
    have e: "sm_tcp_read cf st w = (if p = Null then sm_failed RC_FATALERR ?st w2 else sm_tcp_body cf ?st w2)"
      using True r d g m p(1) by (simp add: sm_tcp_read_def)
    show ?thesis
    proof (cases "p = Null")
      case True
      have "returns (sm_failed RC_FATALERR ?st w2) (sm_post st w)"
        using l s2 True by (intro returns_sm_post [OF sm_failed_post]) auto
      with True e show ?thesis by simp
    next
      case False
      with p(2) obtain b where b: "p = Live b" "length b = unat len" by blast
      have "returns (sm_tcp_body cf ?st w2) (sm_post st w)"
        using l s2 b by (intro returns_sm_post [OF sm_tcp_body_post [where b = b]]) auto
      with False e show ?thesis by simp
    qed
  qed
qed

lemma no_empty_reply_same: "no_empty_reply st w \<Longrightarrow> q_recvbuf st' = q_recvbuf st \<Longrightarrow> same_world w w' \<Longrightarrow> no_empty_reply st' w'"
  by (simp add: no_empty_reply_def same_world_def)

lemma sm_tcp_write_post:
  assumes "msg_live st" and "q_recvbuf st \<noteq> Freed" and "no_empty_reply st w" and "q_iolen st \<le> dnsmsghdroffset + q_transl st"
  shows "returns (sm_tcp_write cf st w) (sm_post st w)"
proof -
  define rem where "rem = dnsmsghdroffset + q_transl st - q_iolen st"
  obtain b where b: "q_msg st = Live b" "q_transl st \<le> length b" using assms(1) by (auto simp: msg_live_def)
  let ?m = "[ucast (drop_bit 8 (q_len st)), ucast (q_len st)] @ b"
  define out where "out = take rem (drop (q_iolen st) ?m)"
  have out: "rd_all ?m (q_iolen st) rem = Some out" "length out = rem"
    using b(2) assms(4) by (auto simp: rd_all_def out_def rem_def dnsmsghdroffset_def)
  obtain r w1 where r: "sys_write out w = (r, w1)" by (cases "sys_write out w")
  note s = sys_write_same [OF r]
  let ?st = "st\<lparr>q_state := QS_TCPREAD, q_iolen := 0\<rparr>"
  have rd: "returns (sm_tcp_read cf ?st w') (sm_post st w)" if "same_world w w'" for w'
    using assms(1-3) that no_empty_reply_same [OF assms(3) _ that, of ?st]
    by (intro returns_sm_post [OF sm_tcp_read_post]) (auto intro: msg_live_same)
  have f: "returns (sm_tcp_failed cf (st\<lparr>q_s_errno := e\<rparr>) w1) (sm_post st w)"
      "returns (sm_failed RC_SERVFAIL (st\<lparr>q_s_errno := e\<rparr>) w1) (sm_post st w)" for e
    using assms(1,2) s by (auto intro!: returns_sm_post [OF sm_tcp_failed_post] returns_sm_post [OF sm_failed_post] intro: msg_live_same)
  have wt: "returns (sm_wait QS_TCPWRITE (st\<lparr>q_iolen := k\<rparr>) w1) (sm_post st w)" if "k \<le> dnsmsghdroffset + q_transl st" for k
    using assms(1,2) s that by (intro returns_sm_post [OF sm_wait_post]) (auto simp: sm_inv_def intro: msg_live_same)
  have wt0: "returns (sm_wait QS_TCPWRITE st w1) (sm_post st w)"
    using assms(1,2,4) s by (intro returns_sm_post [OF sm_wait_post]) (auto simp: sm_inv_def intro: msg_live_same)
  have k: "k \<le> rem" if "r = Inr k" for k
    using r that out(2) by (auto simp: sys_write_def split: sysres.splits prod.splits)
  have e: "sm_tcp_write cf st w = (if rem = 0 then sm_tcp_read cf ?st w else case r of
      Inl e \<Rightarrow> if e = EWOULDBLOCK then sm_wait QS_TCPWRITE st w1
        else if q_iolen st = 0 \<and> (e = ECONNREFUSED \<or> e = ECONNRESET \<or> e = EPIPE)
          then sm_tcp_failed cf (st\<lparr>q_s_errno := e\<rparr>) w1
        else sm_failed RC_SERVFAIL (st\<lparr>q_s_errno := e\<rparr>) w1
    | Inr k \<Rightarrow> if k < rem then sm_wait QS_TCPWRITE (st\<lparr>q_iolen := q_iolen st + k\<rparr>) w1 else sm_tcp_read cf ?st w1)"
    unfolding sm_tcp_write_def Let_def rem_def [symmetric] b(1) deref_def bufp.case Option.bind.simps out(1) r prod.case ..
  show ?thesis
  proof (cases r)
    case (Inl e)
    with rd [OF same_world_refl] f wt0 show ?thesis unfolding e by simp
  next
    case (Inr k)
    with k have "k \<le> rem" by blast
    then have "q_iolen st + k \<le> dnsmsghdroffset + q_transl st" using assms(4) by (simp add: rem_def)
    with Inr rd [OF same_world_refl] rd [OF s] wt show ?thesis unfolding e by simp
  qed
qed

lemma sm_tcp_initial_post:
  assumes "msg_live st" and "q_recvbuf st \<noteq> Freed" and "no_empty_reply st w"
  shows "returns (sm_tcp_initial cf st w) (sm_post st w)"
proof -
  obtain e1 w1 where c1: "sys_call w = (e1, w1)" by (cases "sys_call w")
  obtain bd w2 where c2: "bind_socket cf w1 = Some (bd, w2)" "same_world w1 w2"
    using bind_socket_spec [of cf w1] by (rule returnsE) auto
  obtain e3 w3 where c3: "sys_call w2 = (e3, w3)" by (cases "sys_call w2")
  obtain e4 w4 where c4: "sys_call w3 = (e4, w4)" by (cases "sys_call w3")
  obtain e5 w5 where c5: "sys_call w4 = (e5, w5)" by (cases "sys_call w4")
  have s: "same_world w w1" "same_world w w2" "same_world w w3" "same_world w w4" "same_world w w5"
    using c2(2) c1 c3 c4 c5 [THEN sys_call_same] by (blast dest: sys_call_same intro: same_world_trans)+
  let ?st1 = "st\<lparr>q_iolen := 0\<rparr>"
  have l: "msg_live ?st1" "q_recvbuf ?st1 \<noteq> Freed" using assms by (simp_all add: msg_live_def)
  have f: "returns (sm_failed RC_SERVFAIL st w') (sm_post st w)" "returns (sm_failed RC_SERVFAIL ?st1 w') (sm_post st w)"
      "returns (sm_tcp_failed cf (?st1\<lparr>q_s_errno := e\<rparr>) w') (sm_post st w)" if "same_world w w'" for e w'
    using assms(1,2) l that by (auto intro!: returns_sm_post [OF sm_failed_post] returns_sm_post [OF sm_tcp_failed_post] intro: msg_live_same)
  have wt: "returns (sm_wait QS_TCPWRITE ?st1 w5) (sm_post st w)"
    using l s(5) by (intro returns_sm_post [OF sm_wait_post]) (auto simp: sm_inv_def intro: msg_live_same)
  have tw: "returns (sm_tcp_write cf (?st1\<lparr>q_state := QS_TCPWRITE\<rparr>) w5) (sm_post st w)"
    using l s(5) no_empty_reply_same [OF assms(3) _ s(5)]
    by (intro returns_sm_post [OF sm_tcp_write_post]) (auto intro: msg_live_same)
  show ?thesis
    using c1 c2(1) c3 c4 c5 s f wt tw
    by (cases e1; cases e3; cases e4; cases e5) (simp_all add: sm_tcp_initial_def Let_def)
qed

text \<open>
  Over TCP a reply after an earlier one must not be announced as empty; over UDP nothing is asked of
  the peer.
\<close>

definition udp_state :: "query_stat \<Rightarrow> bool" where
  "udp_state st \<longleftrightarrow> q_state st = QS_UDPINITIAL \<or> q_state st = QS_UDPRECEIVE"

lemma p_query_sm_post:
  assumes "sm_inv st" and "udp_state st \<or> no_empty_reply st w" and "0 < q_udpbufsize cf"
  shows "returns (p_query_sm cf st w) (sm_post st w)"
proof -
  have i: "msg_live st" "q_recvbuf st \<noteq> Freed" using assms(1) by (simp_all add: sm_inv_def)
  have f: "returns (sm_failed RC_SERVFAIL st w) (sm_post st w)" using i by (intro sm_failed_post) simp_all
  have t: "no_empty_reply st w" if "q_state st = QS_TCPINITIAL \<or> q_state st = QS_TCPWRITE \<or> q_state st = QS_TCPREAD"
    using assms(2) that by (auto simp: udp_state_def)
  show ?thesis
    using sm_tcp_initial_post [OF i t, of cf] sm_udp_initial_post [OF i, of cf w] sm_udp_receive_post [OF i assms(3), of w] f
      sm_tcp_write_post [OF i t, of cf] sm_tcp_read_post [OF i t, of cf] assms(1)
    by (cases "q_state st") (simp_all add: p_query_sm_def sm_inv_def)
qed

text \<open>A query over UDP stays one.\<close>

lemma p_query_sm_udp:
  assumes "p_query_sm cf st w = Some (rv, st', w')" and "udp_state st"
  shows "q_qm st' = q_qm st" "rv = None \<longrightarrow> udp_state st'"
  using assms
  by (auto simp: p_query_sm_def udp_state_def sm_udp_initial_def sm_udp_receive_def sm_failed_def sm_wait_def sm_done_def Let_def
      split: prod.splits option.splits sum.splits if_splits bind_splits)

end
