(* ===== verification/Query_Exec_Correct.thy ===== *)
theory Query_Exec_Correct
  imports Query_Exec Query_Net_Correct
begin

text \<open>
  The query to one server as a whole: the message that is sent, the safety of sending it and of
  judging the reply in any network environment, and that three tries are enough.
\<close>

subsection \<open>Trying again\<close>

definition rd_bit :: "query_stat \<Rightarrow> bool" where
  "rd_bit st \<longleftrightarrow> (case msg_tail st of Some (f # _) \<Rightarrow> bit f 0 | _ \<Rightarrow> False)"

text \<open>How often the query may be sent again: without recursion and without EDNS.\<close>

definition tries :: "query_stat \<Rightarrow> nat" where
  "tries st = of_bool (rd_bit st) + of_bool (q_edns_query st)"

text \<open>What stays the same during a query.\<close>

definition fixed_part :: "query_stat \<Rightarrow> bytes \<times> flags \<times> bool \<times> nat \<times> bool \<times> bool \<times> bytes option \<times> rejectlist option" where
  "fixed_part st = (q_a st, q_flags st, q_nocache st, q_auth_serv st, q_lean_query st, q_trusted st, q_nsdomain st, q_rejectlist st)"

lemma same_query_fixed: "same_query st st' \<Longrightarrow> fixed_part st' = fixed_part st \<and> q_edns_query st' = q_edns_query st \<and>
    rd_bit st' = rd_bit st \<and> q_failed st' = q_failed st"
  by (simp add: same_query_def fixed_part_def rd_bit_def)

lemma same_query_tries: "same_query st st' \<Longrightarrow> tries st' = tries st"
  using same_query_fixed [of st st'] by (simp add: tries_def)

lemma msg_liveE:
  assumes "msg_live st"
  obtains b0 b1 f b where "q_msg st = Live (b0 # b1 # f # b)" "q_transl st \<le> 3 + length b" "9 \<le> length b"
proof -
  from assms obtain m where m: "q_msg st = Live m" "q_transl st \<le> length m" "12 \<le> length m"
    by (auto simp: msg_live_def sizeof_dns_hdr_def)
  from m(3) obtain b0 b1 f b where "m = b0 # b1 # f # b" by (auto simp: numeral_eq_Suc Suc_le_length_iff)
  with that m show thesis by auto
qed

lemma rd_bit_live: "q_msg st = Live (b0 # b1 # f # b) \<Longrightarrow> rd_bit st = bit f 0"
  by (simp add: rd_bit_def msg_tail_def deref_def)

lemma hdr_some: "12 \<le> length b \<Longrightarrow> \<exists>h. hdr_of_bytes b = Some h"
  by (auto simp: hdr_of_bytes_def ntohs_at_def GETINT16_def rd_def)

lemma hdr_rd_bit:
  assumes "q_msg st = Live m" and "hdr_of_bytes m = Some h" and "12 \<le> length m"
  shows "h_rd h = rd_bit st"
proof -
  from assms(3) obtain b0 b1 f b where "m = b0 # b1 # f # b" by (auto simp: numeral_eq_Suc Suc_le_length_iff)
  with assms(1,2) rd_bit_live [of st b0 b1 f b] show ?thesis
    by (auto simp: hdr_of_bytes_def rd_def split: bind_splits)
qed

lemma clear_rd_spec:
  assumes "msg_live st"
  obtains m where "clear_rd st = Some (st\<lparr>q_msg := m\<rparr>)" "msg_live (st\<lparr>q_msg := m\<rparr>)" "\<not> rd_bit (st\<lparr>q_msg := m\<rparr>)"
proof -
  from assms obtain b0 b1 f b where b: "q_msg st = Live (b0 # b1 # f # b)" "q_transl st \<le> 3 + length b" "9 \<le> length b"
    by (rule msg_liveE)
  let ?f = "f AND NOT 1"
  let ?m = "Live (b0 # b1 # ?f # b)"
  have "clear_rd st = Some (st\<lparr>q_msg := ?m\<rparr>)" using b by (simp add: clear_rd_def deref_def rd_def wr_def)
  moreover have "msg_live (st\<lparr>q_msg := ?m\<rparr>)" using b by (simp add: msg_live_def sizeof_dns_hdr_def)
  moreover have "\<not> bit ?f 0" by (simp add: bit_simps)
  then have "\<not> rd_bit (st\<lparr>q_msg := ?m\<rparr>)" using rd_bit_live [of "st\<lparr>q_msg := ?m\<rparr>"] by simp
  ultimately show thesis by (rule that)
qed

lemma remove_opt_some:
  assumes "12 \<le> length b" and "sz \<le> length b"
  shows "\<exists>n b'. remove_opt_pseudo_rr b sz = Some (n, b') \<and> n \<le> sz \<and> length b' = length b \<and> take 3 (drop 2 b') = take 3 (drop 2 b)"
proof -
  obtain acnt where a: "ntohs_at b 10 = Some acnt" using assms(1) by (auto simp: ntohs_at_def GETINT16_def rd_def)
  show ?thesis
  proof (cases "0 < acnt \<and> sizeof_dns_hdr + sizeof_opt_pseudo_rr \<le> sz")
    case False
    with a show ?thesis by (simp add: remove_opt_pseudo_rr_def)
  next
    case True
    let ?s = "sz - sizeof_opt_pseudo_rr"
    have s: "?s + 11 \<le> length b" using True assms(2) by (simp add: sizeof_opt_pseudo_rr_def sizeof_rr_hdr_t_def sizeof_dns_hdr_def)
    then obtain c tp p where c: "rd b ?s = Some c" "GETINT16 b (?s + 1) = Some (tp, p)"
      by (auto simp: GETINT16_def rd_def)
    have "PUTINT16 (acnt - 1) b 10 = Some (put b 10 (be16 (acnt - 1)), 12)"
      using PUTINT16_put [of 10 b "acnt - 1"] assms(1) by simp
    moreover have "take 3 (drop 2 (put b 10 (be16 (acnt - 1)))) = take 3 (drop 2 b)"
      using assms(1) by (simp add: put_def take_drop)
    ultimately show ?thesis using True a c assms by (simp add: remove_opt_pseudo_rr_def Let_def)
  qed
qed

lemma clear_edns_spec:
  assumes "msg_live st"
  obtains "clear_edns st = Some None"
  | m n where "clear_edns st = Some (Some (st\<lparr>q_msg := m, q_transl := n mod 2 ^ 16, q_len := of_nat n, q_edns_query := False\<rparr>))"
      "msg_live (st\<lparr>q_msg := m, q_transl := n mod 2 ^ 16, q_len := of_nat n, q_edns_query := False\<rparr>)"
      "rd_bit (st\<lparr>q_msg := m, q_transl := n mod 2 ^ 16, q_len := of_nat n, q_edns_query := False\<rparr>) = rd_bit st"
proof -
  from assms obtain b0 b1 f b where b: "q_msg st = Live (b0 # b1 # f # b)" "q_transl st \<le> 3 + length b" "9 \<le> length b"
    by (rule msg_liveE)
  let ?b = "b0 # b1 # f # b"
  obtain n b' where r: "remove_opt_pseudo_rr ?b (q_transl st) = Some (n, b')" "n \<le> q_transl st" "length b' = length ?b"
    "take 3 (drop 2 b') = take 3 (drop 2 ?b)"
    using remove_opt_some [of ?b "q_transl st"] b by auto
  obtain acnt where a: "ntohs_at b' 10 = Some acnt" using r(3) b(3) by (auto simp: ntohs_at_def GETINT16_def rd_def)
  let ?st = "st\<lparr>q_msg := Live b', q_transl := n mod 2 ^ 16, q_len := of_nat n, q_edns_query := False\<rparr>"
  have e: "clear_edns st = Some (if n \<noteq> 0 \<and> acnt = 0 then Some ?st else None)"
    using b(1) r(1) a by (simp add: clear_edns_def deref_def)
  show thesis
  proof (cases "n \<noteq> 0 \<and> acnt = 0")
    case False
    with e that(1) show thesis by auto
  next
    case True
    have "n mod 2 ^ 16 \<le> length b'" using r(2,3) b(2) by (auto intro: le_trans [OF mod_less_eq_dividend])
    then have l: "msg_live ?st" using r(3) b(3) by (simp add: msg_live_def sizeof_dns_hdr_def)
    obtain c0 c1 g c where c: "b' = c0 # c1 # g # c" using r(3) by (auto simp: length_Suc_conv)
    then have "g = f" using r(4) by simp
    then have "rd_bit ?st = rd_bit st" using rd_bit_live [of ?st c0 c1 g c] rd_bit_live [OF b(1)] c by simp
    with True e l that(2) show thesis by simp
  qed
qed

subsection \<open>The loop\<close>

text \<open>
  A query between two calls: it can be sent or received, over UDP alone or with peers that do not
  announce empty messages.
\<close>

definition quiet :: "world \<Rightarrow> bool" where
  "quiet w \<longleftrightarrow> (\<forall>n d. w_sys w n = Data d \<longrightarrow> take 2 d \<noteq> [0, 0])"

definition exec_ready :: "query_stat \<Rightarrow> world \<Rightarrow> bool" where
  "exec_ready st w \<longleftrightarrow> sm_inv st \<and> (udp_state st \<and> USE_UDP st \<or> quiet w)"

definition header_ok :: "query_stat \<Rightarrow> nat \<Rightarrow> bool" where
  "header_ok st rc \<longleftrightarrow> (\<exists>b h. q_recvbuf st = Live b \<and> sizeof_dns_hdr \<le> unat (q_recvl st) \<and> unat (q_recvl st) \<le> length b \<and>
     hdr_of_bytes b = Some h \<and> \<not> malformed h (q_myrid st) \<and> rc = unat (h_rcode h))"

text \<open>
  \<open>p_exec_query\<close> before the records of a reply are read: it waits with its buffers intact, or ends
  with an error and both buffers freed, or has a reply that passed the checks of the header.
\<close>

definition exec_post :: "bool \<Rightarrow> query_stat \<Rightarrow> world \<Rightarrow> exec_outcome \<times> query_stat \<times> world \<Rightarrow> bool" where
  "exec_post entp st w = (\<lambda>(out, st', w'). same_world w w' \<and> fixed_part st' = fixed_part st \<and>
     (case out of
        Call_again \<Rightarrow> exec_ready st' w' \<and> q_state st' \<in> {QS_TCPWRITE, QS_TCPREAD, QS_UDPRECEIVE}
      | Returns rc \<Rightarrow> rc \<noteq> RC_OK \<and> q_state st' = QS_DONE \<and> q_msg st' = Freed \<and> q_recvbuf st' \<in> {Null, Freed}
      | Replied rc \<Rightarrow> q_state st' = QS_DONE \<and> msg_live st' \<and> header_ok st' rc \<and>
          (q_failed st' = q_failed st \<and> (rc = RC_OK \<or> rc = RC_NAMEERR) \<or> entp \<and> q_failed st' = 3)))"

lemma exec_post_trans:
  "exec_post entp st1 w1 r \<Longrightarrow> same_world w w1 \<Longrightarrow> fixed_part st1 = fixed_part st \<Longrightarrow> q_failed st1 = q_failed st \<Longrightarrow> exec_post entp st w r"
  unfolding exec_post_def by (auto intro: same_world_trans split: exec_outcome.splits)

lemma returns_exec_post:
  "returns r (exec_post entp st1 w1) \<Longrightarrow> same_world w w1 \<Longrightarrow> fixed_part st1 = fixed_part st \<Longrightarrow> q_failed st1 = q_failed st \<Longrightarrow>
    returns r (exec_post entp st w)"
  by (erule returns_mono) (rule exec_post_trans)

lemma free_bufs_some:
  assumes "msg_live st" and "q_recvbuf st \<noteq> Freed"
  obtains r where "free_bufs st = Some (st\<lparr>q_msg := Freed, q_recvbuf := r, q_state := QS_DONE\<rparr>)" "r \<in> {Null, Freed}"
proof -
  obtain b where b: "q_msg st = Live b" using assms(1) by (auto simp: msg_live_def)
  have r: "\<exists>r. free_buf (q_recvbuf st) = Some r \<and> r \<in> {Null, Freed}"
    using assms(2) by (cases "q_recvbuf st") (simp_all add: free_buf_def)
  have m: "free_buf (q_msg st) = Some Freed" by (simp add: b free_buf_def)
  from r obtain r where "free_buf (q_recvbuf st) = Some r" "r \<in> {Null, Freed}" by blast
  then show thesis by (intro that [of r]) (simp_all add: free_bufs_def m)
qed

lemma fixed_part_upd [simp]:
  "fixed_part (st\<lparr>q_state := a\<rparr>) = fixed_part st" "fixed_part (st\<lparr>q_msg := b\<rparr>) = fixed_part st" "fixed_part (st\<lparr>q_recvbuf := b\<rparr>) = fixed_part st"
  "fixed_part (st\<lparr>q_transl := d\<rparr>) = fixed_part st" "fixed_part (st\<lparr>q_len := e\<rparr>) = fixed_part st" "fixed_part (st\<lparr>q_edns_query := f\<rparr>) = fixed_part st"
  "fixed_part (st\<lparr>q_needs_testing := g\<rparr>) = fixed_part st" "fixed_part (st\<lparr>q_failed := d\<rparr>) = fixed_part st"
  "fixed_part (st\<lparr>q_myrid := e\<rparr>) = fixed_part st"
  by (simp_all add: fixed_part_def)

lemma discard_reply_post:
  assumes "msg_live st" and "q_recvbuf st \<noteq> Freed"
  shows "returns (discard_reply rc st w) (exec_post entp st w)"
proof -
  from assms obtain r where "free_bufs st = Some (st\<lparr>q_msg := Freed, q_recvbuf := r, q_state := QS_DONE\<rparr>)" "r \<in> {Null, Freed}"
    by (rule free_bufs_some)
  then show ?thesis by (auto simp: discard_reply_def exec_post_def)
qed

lemma query_failed_post:
  assumes "msg_live st" and "q_recvbuf st \<noteq> Freed" and "rc \<noteq> RC_OK"
  shows "returns (query_failed rc st w) (exec_post entp st w)"
proof -
  from assms(1,2) obtain r where f: "free_bufs st = Some (st\<lparr>q_msg := Freed, q_recvbuf := r, q_state := QS_DONE\<rparr>)" "r \<in> {Null, Freed}"
    by (rule free_bufs_some)
  let ?st = "st\<lparr>q_msg := Freed, q_recvbuf := r, q_state := QS_DONE\<rparr>"
  have e: "query_failed rc st w = Some (if q_needs_testing st \<noteq> 0 \<and> unreachable (q_s_errno st)
      then (Returns rc, ?st\<lparr>q_needs_testing := 0\<rparr>, sched_server_test [q_a st] 0 w) else (Returns rc, ?st, w))"
    using f by (simp add: query_failed_def)
  have "exec_post entp st w (Returns rc, ?st\<lparr>q_needs_testing := 0\<rparr>, sched_server_test [q_a st] 0 w)"
    using f(2) assms(3) by (simp add: exec_post_def sched_server_test_def)
  moreover have "exec_post entp st w (Returns rc, ?st, w)" using f(2) assms(3) by (simp add: exec_post_def)
  ultimately show ?thesis unfolding e by simp
qed

lemma reset_state_spec:
  assumes "msg_live st" and "q_recvbuf st \<noteq> Freed" and "USE_UDP st \<or> quiet w"
  obtains st1 w1 where "reset_state st w = Some (st1, w1)" "exec_ready st1 w1" "same_query st st1" "same_world w w1"
proof -
  obtain r w1 where r: "get_rand16 w = (r, w1)" by (cases "get_rand16 w")
  note s = get_rand16_same [OF r]
  have l: "msg_live (st\<lparr>q_myrid := r\<rparr>)" using assms(1) by (simp add: msg_live_def)
  from set_id_spec [OF l] obtain st1 where i: "set_id (st\<lparr>q_myrid := r\<rparr>) = Some st1" "msg_live st1"
    "same_query (st\<lparr>q_myrid := r\<rparr>) st1" "q_recvbuf st1 = q_recvbuf st" "q_qm st1 = q_qm st" by auto
  let ?st = "st1\<lparr>q_state := first_state st1\<rparr>"
  have u: "USE_UDP ?st = USE_UDP st" "USE_UDP st1 = USE_UDP st" using i(5) by (simp_all add: USE_UDP_def)
  have "sm_inv ?st" using i(2,4) assms(2) by (simp add: sm_inv_def msg_live_def first_state_def)
  moreover have "udp_state ?st" if "USE_UDP ?st" using that u by (simp add: udp_state_def first_state_def)
  moreover have "quiet w1 = quiet w" using s by (simp add: quiet_def same_world_def)
  ultimately have "exec_ready ?st w1" using assms(3) u by (auto simp: exec_ready_def)
  moreover have "same_query st ?st" using i(3) by (simp add: same_query_def msg_tail_def)
  moreover have "reset_state st w = Some (?st, w1)" using r i(1) by (simp add: reset_state_def)
  ultimately show thesis using s by (intro that)
qed

lemma server_up_spec: "\<exists>n w'. server_up st w = (st\<lparr>q_needs_testing := n\<rparr>, w') \<and> same_world w w'"
proof (cases "q_needs_testing st = 0")
  case True
  moreover have "st = st\<lparr>q_needs_testing := q_needs_testing st\<rparr>" by simp
  ultimately show ?thesis unfolding server_up_def by (metis same_world_refl)
next
  case False
  then show ?thesis by (auto simp: server_up_def sched_server_test_def)
qed

text \<open>When the server is asked again: recursion was wanted, or EDNS was used.\<close>

lemma judge_again:
  "judge entp h q st = No_recursion \<Longrightarrow> h_rd q" "judge entp h q st = No_edns \<Longrightarrow> q_edns_query st"
  "judge entp h q st = Accept \<Longrightarrow> unat (h_rcode h) = RC_OK \<or> unat (h_rcode h) = RC_NAMEERR" "judge entp h q st = Accept_failed \<Longrightarrow> entp"
  by (auto simp: judge_def Let_def split: if_splits)

text \<open>A reply whose header is well-formed; \<open>again\<close> sends the query once more.\<close>

definition judged :: "(query_stat \<Rightarrow> world \<Rightarrow> exec_result) \<Rightarrow> bool \<Rightarrow> dns_hdr \<Rightarrow> query_stat \<Rightarrow> world \<Rightarrow> exec_result" where
  "judged again entp h st w = do {
     m \<leftarrow> deref (q_msg st);
     q \<leftarrow> hdr_of_bytes m;
     let rcode = unat (h_rcode h);
     case judge entp h q st of
       Discard rc' \<Rightarrow> discard_reply rc' st w
     | Accept \<Rightarrow> Some (Replied rcode, st\<lparr>q_state := QS_DONE\<rparr>, w)
     | Accept_failed \<Rightarrow> Some (Replied rcode, st\<lparr>q_failed := 3, q_state := QS_DONE\<rparr>, w)
     | No_recursion \<Rightarrow> do { st3 \<leftarrow> clear_rd st; (st4, w3) \<leftarrow> reset_state st3 w; again st4 w3 }
     | No_edns \<Rightarrow> do {
         e \<leftarrow> clear_edns st;
         case e of None \<Rightarrow> discard_reply rcode st w
         | Some st3 \<Rightarrow> do { (st4, w3) \<leftarrow> reset_state st3 w; again st4 w3 }
       }
   }"

lemma judged_post:
  assumes "msg_live st" and "header_ok st (unat (h_rcode h))" and "q_recvbuf st \<noteq> Freed" and "USE_UDP st \<or> quiet w"
    and again: "\<And>st' w'. exec_ready st' w' \<Longrightarrow> tries st' < tries st \<Longrightarrow> returns (again st' w') (exec_post entp st' w')"
  shows "returns (judged again entp h st w) (exec_post entp st w)"
proof -
  obtain m where m: "q_msg st = Live m" "12 \<le> length m" using assms(1) by (auto simp: msg_live_def sizeof_dns_hdr_def)
  obtain q where q: "hdr_of_bytes m = Some q" using hdr_some [OF m(2)] by blast
  have rd: "h_rd q = rd_bit st" by (rule hdr_rd_bit [OF m(1) q m(2)])
  note dc = discard_reply_post [OF assms(1,3)]
  have go: "\<exists>st4 w3. reset_state st3 w = Some (st4, w3) \<and> returns (again st4 w3) (exec_post entp st w)"
    if "msg_live st3" "q_recvbuf st3 = q_recvbuf st" "q_qm st3 = q_qm st" "fixed_part st3 = fixed_part st" "q_failed st3 = q_failed st"
      "tries st3 < tries st" for st3
  proof -
    have "USE_UDP st3 = USE_UDP st" using that(3) by (simp add: USE_UDP_def)
    with that(1,2) assms(3,4) obtain st4 w3 where r: "reset_state st3 w = Some (st4, w3)" "exec_ready st4 w3" "same_query st3 st4" "same_world w w3"
      using reset_state_spec [of st3 w] by auto
    have "tries st4 < tries st" using that(6) same_query_tries [OF r(3)] by simp
    from again [OF r(2) this] have "returns (again st4 w3) (exec_post entp st w)"
      by (rule returns_exec_post) (simp_all add: r(4) same_query_fixed [OF r(3)] that(4,5))
    with r(1) show ?thesis by blast
  qed
  have e: "judged again entp h st w = (case judge entp h q st of
       Discard rc' \<Rightarrow> discard_reply rc' st w
     | Accept \<Rightarrow> Some (Replied (unat (h_rcode h)), st\<lparr>q_state := QS_DONE\<rparr>, w)
     | Accept_failed \<Rightarrow> Some (Replied (unat (h_rcode h)), st\<lparr>q_failed := 3, q_state := QS_DONE\<rparr>, w)
     | No_recursion \<Rightarrow> do { st3 \<leftarrow> clear_rd st; (st4, w3) \<leftarrow> reset_state st3 w; again st4 w3 }
     | No_edns \<Rightarrow> do {
         e \<leftarrow> clear_edns st;
         case e of None \<Rightarrow> discard_reply (unat (h_rcode h)) st w
         | Some st3 \<Rightarrow> do { (st4, w3) \<leftarrow> reset_state st3 w; again st4 w3 }
       })"
    using m(1) q by (simp add: judged_def deref_def Let_def)
  show ?thesis
  proof (cases "judge entp h q st")
    case (Discard rc)
    with dc show ?thesis by (simp add: e)
  next
    case Accept
    with judge_again(3) [OF Accept] assms(1,2) show ?thesis by (simp add: e exec_post_def msg_live_def header_ok_def)
  next
    case Accept_failed
    have "exec_post entp st w (Replied (unat (h_rcode h)), st\<lparr>q_failed := 3, q_state := QS_DONE\<rparr>, w)"
      using judge_again(4) [OF Accept_failed] assms(1,2) by (simp add: exec_post_def msg_live_def header_ok_def)
    then show ?thesis unfolding e Accept_failed by simp
  next
    case No_recursion
    from assms(1) obtain m' where c: "clear_rd st = Some (st\<lparr>q_msg := m'\<rparr>)" "msg_live (st\<lparr>q_msg := m'\<rparr>)" "\<not> rd_bit (st\<lparr>q_msg := m'\<rparr>)"
      by (rule clear_rd_spec)
    have "tries (st\<lparr>q_msg := m'\<rparr>) < tries st" using c(3) rd judge_again(1) [OF No_recursion] by (simp add: tries_def)
    with go [OF c(2)] No_recursion c(1) show ?thesis by (auto simp: e)
  next
    case No_edns
    from assms(1) show ?thesis
    proof (cases rule: clear_edns_spec)
      case 1
      with No_edns dc show ?thesis by (simp add: e)
    next
      case (2 m' n)
      have "tries (st\<lparr>q_msg := m', q_transl := n mod 2 ^ 16, q_len := of_nat n, q_edns_query := False\<rparr>) < tries st"
        using 2(3) judge_again(2) [OF No_edns] by (simp add: tries_def)
      with go [OF 2(2)] No_edns 2(1) show ?thesis by (auto simp: e)
    qed
  qed
qed

lemma exec_loop_judged:
  assumes "p_query_sm cf st w = Some (Some RC_OK, st1, w1)" and "sizeof_dns_hdr \<le> unat (q_recvl st1)"
    and "q_recvbuf st1 = Live b" and "hdr_of_bytes b = Some h" and "\<not> malformed h (q_myrid st1)"
  shows "exec_loop (Suc n) cf entp st w =
    judged (exec_loop n cf entp) entp h (fst (server_up st1 w1)) (snd (server_up st1 w1))"
  using assms by (cases "server_up st1 w1") (simp add: deref_def judged_def)

lemma exec_loop_post:
  assumes "exec_ready st w" and "tries st < n" and "0 < q_udpbufsize cf"
  shows "returns (exec_loop n cf entp st w) (exec_post entp st w)"
  using assms(1,2)
proof (induction n arbitrary: st w)
  case (Suc n)
  have i: "sm_inv st" "udp_state st \<or> no_empty_reply st w" using Suc.prems(1) by (auto simp: exec_ready_def quiet_def no_empty_reply_def)
  from p_query_sm_post [OF i assms(3)] obtain rv st1 w1 where sm: "p_query_sm cf st w = Some (rv, st1, w1)"
    "sm_post st w (rv, st1, w1)" by (rule returnsE) (metis prod_cases3)
  have s: "same_query st st1" "same_world w w1" "msg_live st1" "q_recvbuf st1 \<noteq> Freed" using sm(2) by (simp_all add: sm_post_def)
  note f = same_query_fixed [OF s(1)]
  have qw: "quiet w1 = quiet w" using s(2) by (simp add: quiet_def same_world_def)
  have u: "USE_UDP st1 = USE_UDP st" if "udp_state st" using p_query_sm_udp(1) [OF sm(1) that] by (simp add: USE_UDP_def)
  have lift: "returns r (exec_post entp st w)" if "returns r (exec_post entp st1' w1')" "same_world w1 w1'" "fixed_part st1' = fixed_part st1"
      "q_failed st1' = q_failed st1" for r st1' w1'
    using that(1) by (rule returns_exec_post) (simp_all add: same_world_trans [OF s(2) that(2)] that(3,4) f)
  have lift1: "returns r (exec_post entp st w)" if "returns r (exec_post entp st1 w1)" for r
    using lift [OF that] by simp
  show ?case
  proof (cases rv)
    case None
    have "exec_ready st1 w1"
      using sm(2) None Suc.prems(1) p_query_sm_udp(2) [OF sm(1)] u qw by (auto simp: sm_post_def exec_ready_def)
    then have "exec_post entp st w (Call_again, st1, w1)" using sm(2) None f s(2) by (simp add: exec_post_def sm_post_def)
    with None sm(1) show ?thesis by simp
  next
    case (Some rc)
    show ?thesis
    proof (cases "rc = RC_OK \<and> sizeof_dns_hdr \<le> unat (q_recvl st1)")
      case False
      have "returns (query_failed rc st1 w1) (exec_post entp st w)" if "rc \<noteq> RC_OK"
        using query_failed_post [OF s(3,4) that] by (rule lift1)
      moreover have "returns (discard_reply RC_OK st1 w1) (exec_post entp st w)"
        using discard_reply_post [OF s(3,4)] by (rule lift1)
      ultimately show ?thesis using False Some sm(1) by (auto simp: not_le)
    next
      case True
      then obtain b where b: "q_recvbuf st1 = Live b" "unat (q_recvl st1) \<le> length b"
        using sm(2) Some rc_fail [symmetric] by (auto simp: sm_post_def received_def)
      with True obtain h where h: "hdr_of_bytes b = Some h" using hdr_some [of b] by (auto simp: sizeof_dns_hdr_def)
      obtain k w2 where up: "server_up st1 w1 = (st1\<lparr>q_needs_testing := k\<rparr>, w2)" "same_world w1 w2" using server_up_spec by blast
      let ?st2 = "st1\<lparr>q_needs_testing := k\<rparr>"
      show ?thesis
      proof (cases "malformed h (q_myrid st1)")
        case True
        then have "exec_loop (Suc n) cf entp st w = discard_reply RC_OK st1 w1"
          using Some sm(1) \<open>rc = RC_OK \<and> sizeof_dns_hdr \<le> unat (q_recvl st1)\<close> b h by (simp add: deref_def)
        with discard_reply_post [OF s(3,4)] lift1 show ?thesis by simp
      next
        case False
        have st2: "msg_live ?st2" "q_recvbuf ?st2 \<noteq> Freed" using s(3,4) by (simp_all add: msg_live_def)
        have ho: "header_ok ?st2 (unat (h_rcode h))" using True b h False by (simp add: header_ok_def)
        have tr: "tries ?st2 = tries st" using same_query_tries [OF s(1)] by (simp add: tries_def rd_bit_def msg_tail_def)
        have uq: "USE_UDP ?st2 \<or> quiet w2"
          using Suc.prems(1) u qw up(2) by (auto simp: exec_ready_def USE_UDP_def quiet_def same_world_def)
        have "returns (judged (exec_loop n cf entp) entp h ?st2 w2) (exec_post entp ?st2 w2)"
          using Suc.IH Suc.prems(2) tr by (intro judged_post [OF st2(1) ho st2(2) uq]) simp
        moreover have "exec_loop (Suc n) cf entp st w = judged (exec_loop n cf entp) entp h ?st2 w2"
          using exec_loop_judged [OF _ _ b(1) h False] sm(1) Some True up(1) by simp
        ultimately show ?thesis using lift [OF _ up(2)] by (simp add: fixed_part_def)
      qed
    qed
  qed
qed simp

subsection \<open>The message\<close>

text \<open>The query for a name and a type: header, question and, with EDNS, the OPT record.\<close>

definition query_message :: "query_conf \<Rightarrow> query_stat \<Rightarrow> 16 word \<Rightarrow> nat \<Rightarrow> bytes \<Rightarrow> bytes" where
  "query_message cf st rid thint nm =
     bytes_of_hdr ((query_hdr rid True (q_trusted st))\<lparr>h_arcount := of_bool (q_edns_query st)\<rparr>) @
     nm @ be16 (of_nat (query_type st thint)) @ be16 (of_nat C_IN) @
     (if q_edns_query st then opt_bytes (of_nat (q_udpbufsize cf)) (of_nat RC_OK) 0 0 else [])"

lemma wr_all_next: "wr_all (p @ replicate (length v + k) 0) (length p) v = Some (p @ v @ replicate k 0)"
  by (simp add: wr_all_def)

lemma PUTINT16_next: "PUTINT16 v (p @ replicate (2 + k) 0) (length p) = Some (p @ be16 v @ replicate k 0, length p + 2)"
proof -
  have "put (p @ replicate (2 + k) 0) (length p) (be16 v) = p @ be16 v @ replicate k 0" by (simp add: put_def be16_def)
  then show ?thesis by (subst PUTINT16_put) simp_all
qed

lemma add_opt_next:
  assumes "length h = sizeof_dns_hdr" and "ntohs_at h 10 = Some 0"
  obtains a where "add_opt_pseudo_rr u r v z
      \<lparr>a_buf = (h @ t) @ replicate sizeof_opt_pseudo_rr 0, a_sz = length (h @ t), a_cb = [], a_st = c\<rparr> = Some (True, a)"
    "a_buf a = put h 10 (be16 1) @ t @ opt_bytes u r v z" "a_sz a = length (a_buf a)" "a_st a = c"
proof -
  let ?a = "\<lparr>a_buf = (h @ t) @ replicate sizeof_opt_pseudo_rr 0, a_sz = length (h @ t), a_cb = [], a_st = c\<rparr>"
  have s: "ans_safe ?a" using assms(1) by (simp add: ans_safe_def cb_names_def)
  have room: "a_sz ?a + sizeof_opt_pseudo_rr \<le> length (a_buf ?a)" by simp
  from s show thesis
  proof (cases rule: add_opt_cases [where u = u and r = r and v = v and z = z])
    case (failed a')
    with room show ?thesis by simp
  next
    case (added a' n)
    have "ntohs_at (a_buf ?a) 10 = Some 0" using ntohs_at_append [OF assms(2), of "t @ replicate sizeof_opt_pseudo_rr 0"] by simp
    then have n: "n = 0" using added(5) by simp
    have len: "a_sz a' = length (a_buf a')" "a_st a' = c" using added(4) added(8) [OF room] by simp_all
    have "a_buf a' = put (h @ t) 10 (be16 1) @ opt_bytes u r v z" using added(6) len n by simp
    also have "put (h @ t) 10 (be16 1) = put h 10 (be16 1) @ t" using assms(1) by (simp add: put_def sizeof_dns_hdr_def)
    finally show ?thesis using that added(1) len by simp
  qed
qed

lemma put_query_spec:
  assumes "dns_name ls" and "hdr = query_hdr rid True (q_trusted st)"
    and "b = bytes_of_hdr hdr @ replicate (length (enc ls) + 4 + (if q_edns_query st then sizeof_opt_pseudo_rr else 0)) 0"
  shows "put_query cf st (enc ls @ q) (length (enc ls)) thint b w =
    Some (query_message cf st rid thint (enc ls), length (query_message cf st rid thint (enc ls)), w)"
proof -
  let ?h = "bytes_of_hdr hdr" and ?o = "if q_edns_query st then sizeof_opt_pseudo_rr else 0"
  let ?q = "be16 (of_nat (query_type st thint))" and ?c = "be16 (of_nat C_IN) :: bytes"
  note lh = bytes_of_hdr_arcount(3)
  have nm: "rd_all (enc ls @ q) 0 (length (enc ls)) = Some (enc ls)" by (simp add: rd_all_def)
  have w1: "wr_all b sizeof_dns_hdr (enc ls) = Some ((?h @ enc ls) @ replicate (2 + (2 + ?o)) 0)"
  proof -
    have e: "length (enc ls) + 4 + ?o = length (enc ls) + (2 + (2 + ?o))" by simp
    show ?thesis using wr_all_next [of ?h "enc ls" "2 + (2 + ?o)"] unfolding assms(3) e lh append_assoc .
  qed
  have w2: "PUTINT16 (of_nat (query_type st thint)) ((?h @ enc ls) @ replicate (2 + (2 + ?o)) 0) (sizeof_dns_hdr + length (enc ls)) =
      Some (((?h @ enc ls) @ ?q) @ replicate (2 + ?o) 0, sizeof_dns_hdr + length (enc ls) + 2)"
    using PUTINT16_next [of _ "?h @ enc ls" "2 + ?o"] lh [of hdr] by simp
  have w3: "PUTINT16 (of_nat C_IN) (((?h @ enc ls) @ ?q) @ replicate (2 + ?o) 0) (sizeof_dns_hdr + length (enc ls) + 2) =
      Some ((?h @ enc ls @ ?q @ ?c) @ replicate ?o 0, sizeof_dns_hdr + length (enc ls) + 4)"
    using PUTINT16_next [of _ "(?h @ enc ls) @ ?q" ?o] lh [of hdr] by (simp add: be16_def)
  have run: "put_query cf st (enc ls @ q) (length (enc ls)) thint b w =
     (if q_edns_query st then do {
       (ok, a) \<leftarrow> add_opt_pseudo_rr (of_nat (q_udpbufsize cf)) (of_nat RC_OK) 0 0
         \<lparr>a_buf = (?h @ enc ls @ ?q @ ?c) @ replicate ?o 0, a_sz = sizeof_dns_hdr + length (enc ls) + 4, a_cb = [], a_st = w_cache w\<rparr>;
       Some (a_buf a, a_sz a, w\<lparr>w_cache := a_st a\<rparr>)
     }
     else Some ((?h @ enc ls @ ?q @ ?c) @ replicate ?o 0, sizeof_dns_hdr + length (enc ls) + 4, w))"
    by (simp only: put_query_def nm w1 w2 w3 bind.bind_lunit prod.case Let_def)
  show ?thesis
  proof (cases "q_edns_query st")
    case False
    have "hdr\<lparr>h_arcount := 0\<rparr> = hdr" by (simp add: assms(2) query_hdr_def)
    with False lh [of hdr] show ?thesis unfolding run query_message_def assms(2) [symmetric] by (simp add: be16_def)
  next
    case True
    let ?t = "enc ls @ ?q @ ?c"
    have ar: "ntohs_at ?h 10 = Some 0" using bytes_of_hdr_arcount(2) [of hdr] by (simp add: assms(2) query_hdr_def)
    from add_opt_next [OF lh ar, of "of_nat (q_udpbufsize cf)" "of_nat RC_OK" 0 0 ?t "w_cache w"] obtain a where
      a: "add_opt_pseudo_rr (of_nat (q_udpbufsize cf)) (of_nat RC_OK) 0 0
         \<lparr>a_buf = (?h @ ?t) @ replicate sizeof_opt_pseudo_rr 0, a_sz = length (?h @ ?t), a_cb = [], a_st = w_cache w\<rparr> = Some (True, a)"
      "a_buf a = put ?h 10 (be16 1) @ ?t @ opt_bytes (of_nat (q_udpbufsize cf)) (of_nat RC_OK) 0 0" "a_sz a = length (a_buf a)" "a_st a = w_cache w" .
    have m: "a_buf a = query_message cf st rid thint (enc ls)"
      using a(2) True bytes_of_hdr_arcount(1) [of hdr 1] by (simp add: query_message_def assms(2))
    have l: "length (?h @ ?t) = sizeof_dns_hdr + length (enc ls) + 4" using lh [of hdr] by (simp add: be16_def)
    show ?thesis using True a(1,3,4) unfolding run l m by (simp add: m)
  qed
qed

lemma length_query_message:
  "length (query_message cf st rid thint nm) = sizeof_dns_hdr + length nm + 4 + (if q_edns_query st then sizeof_opt_pseudo_rr else 0)"
  by (simp add: query_message_def bytes_of_hdr_arcount(3) be16_def)

text \<open>What \<open>QS_INITIAL\<close> sets up.\<close>

definition started :: "query_stat \<Rightarrow> 16 word \<Rightarrow> bytes \<Rightarrow> query_stat" where
  "started st rid m = st\<lparr>q_msg := Live m, q_myrid := rid, q_transl := length m, q_len := of_nat (length m),
     q_recvbuf := Null, q_state := first_state st\<rparr>"

lemma exec_initial_spec:
  assumes "dns_name ls"
  obtains (failed) w' where "exec_initial cf (Some (enc ls @ q)) thint st w = Some (False, st\<lparr>q_msg := Null, q_state := QS_DONE\<rparr>, w')"
      "same_world w w'" "\<not> fst (malloc (w_cache w))"
  | (sent) rid w' where "exec_initial cf (Some (enc ls @ q)) thint st w =
      Some (True, started st rid (query_message cf st rid thint (enc ls)), w')" "same_world w w'"
      "rid = w_rand w (w_r w)" "w_n w' = w_n w" "mem (w_cache w) = [] \<Longrightarrow> mem (w_cache w') = []"
proof -
  obtain ok w1 where m: "w_malloc w = (ok, w1)" by (cases "w_malloc w")
  obtain rid w2 where r: "get_rand16 w1 = (rid, w2)" by (cases "get_rand16 w1")
  have s: "same_world w w1" "same_world w w2"
    using w_malloc_same [OF m] get_rand16_same [OF r] by (blast intro: same_world_trans)+
  have v: "rid = w_rand w (w_r w)" "w_n w2 = w_n w" "mem (w_cache w) = [] \<Longrightarrow> mem (w_cache w2) = []"
    using m r by (auto simp: w_malloc_def malloc_def get_rand16_def split: prod.splits)
  have n: "rhnlen (enc ls @ q) = Some (length (enc ls))" using dns_name_labels_ok [OF assms] by simp
  show thesis
  proof (cases ok)
    case False
    have "\<not> fst (malloc (w_cache w))" using m False by (auto simp: w_malloc_def split: prod.splits)
    with False failed [of w1] m n s(1) show ?thesis by (simp add: exec_initial_def)
  next
    case True
    let ?hdr = "query_hdr rid True (q_trusted st)" and ?m = "query_message cf st rid thint (enc ls)"
    let ?k = "length (enc ls) + 4 + (if q_edns_query st then sizeof_opt_pseudo_rr else 0)"
    have w: "wr_all (replicate (sizeof_dns_hdr + ?k) 0) 0 (bytes_of_hdr ?hdr) = Some (bytes_of_hdr ?hdr @ replicate ?k 0)"
      using wr_all_next [of "[]" "bytes_of_hdr ?hdr" ?k] bytes_of_hdr_arcount(3) [of ?hdr] by simp
    have "length (enc ls) < 2 ^ 15" using assms by (simp add: dns_name_def DNSNAMEBUFSIZE_def)
    then have "length ?m < 2 ^ 16"
      by (simp add: length_query_message sizeof_dns_hdr_def sizeof_opt_pseudo_rr_def sizeof_rr_hdr_t_def)
    then have l: "length ?m mod 2 ^ 16 = length ?m" by simp
    have h: "query_hdr rid (Some (enc ls @ q) \<noteq> None) (q_trusted st) = ?hdr" by simp
    have k: "sizeof_dns_hdr + (if Some (enc ls @ q) = None then 0
        else length (enc ls) + 4 + (if q_edns_query st then sizeof_opt_pseudo_rr else 0)) = sizeof_dns_hdr + ?k" by simp
    have "exec_initial cf (Some (enc ls @ q)) thint st w = Some (True, started st rid ?m, w2)"
      unfolding exec_initial_def option.case n bind.bind_lunit Let_def k m prod.case h r w
        put_query_spec [OF assms refl refl, of cf st q thint rid w2] l started_def using True by simp
    with sent s(2) v show ?thesis by blast
  qed
qed

text \<open>The query of an up test has no question.\<close>

lemma exec_initial_none:
  obtains (failed) w' where "exec_initial cf None thint st w = Some (False, st\<lparr>q_msg := Null, q_state := QS_DONE\<rparr>, w')"
      "same_world w w'"
  | (sent) rid w' where "exec_initial cf None thint st w =
      Some (True, started st rid (bytes_of_hdr (query_hdr rid False (q_trusted st))), w')" "same_world w w'"
proof -
  obtain ok w1 where m: "w_malloc w = (ok, w1)" by (cases "w_malloc w")
  obtain rid w2 where r: "get_rand16 w1 = (rid, w2)" by (cases "get_rand16 w1")
  have s: "same_world w w1" "same_world w w2"
    using w_malloc_same [OF m] get_rand16_same [OF r] by (blast intro: same_world_trans)+
  show thesis
  proof (cases ok)
    case False
    with failed [of w1] m s(1) show ?thesis by (simp add: exec_initial_def)
  next
    case True
    let ?hdr = "query_hdr rid False (q_trusted st)"
    have w: "wr_all (replicate sizeof_dns_hdr 0) 0 (bytes_of_hdr ?hdr) = Some (bytes_of_hdr ?hdr)"
      using wr_all_next [of "[]" "bytes_of_hdr ?hdr" 0] bytes_of_hdr_arcount(3) [of ?hdr] by simp
    have "exec_initial cf None thint st w = Some (True, started st rid (bytes_of_hdr ?hdr), w2)"
      using True m r w bytes_of_hdr_arcount(3) [of ?hdr] by (simp add: exec_initial_def started_def sizeof_dns_hdr_def)
    with sent s(2) show ?thesis by blast
  qed
qed

lemma started_ready:
  assumes "sizeof_dns_hdr \<le> length m" and "USE_UDP st \<or> quiet w"
  shows "exec_ready (started st rid m) w" "fixed_part (started st rid m) = fixed_part st" "q_failed (started st rid m) = q_failed st"
  using assms by (auto simp: exec_ready_def started_def sm_inv_def msg_live_def udp_state_def first_state_def USE_UDP_def fixed_part_def)

lemma tries_le: "tries st < 3"
  by (simp add: tries_def)

text \<open>
  Before the first call nothing is allocated; afterwards the query waits.
\<close>

definition exec_start :: "query_stat \<Rightarrow> world \<Rightarrow> bool" where
  "exec_start st w \<longleftrightarrow> (q_state st = QS_INITIAL \<and> q_recvbuf st \<in> {Null, Freed} \<and> (USE_UDP st \<or> quiet w)) \<or>
     (q_state st \<in> {QS_TCPINITIAL, QS_TCPWRITE, QS_TCPREAD, QS_UDPINITIAL, QS_UDPRECEIVE} \<and> exec_ready st w)"

text \<open>After an error no memory is left: there is none, or it was freed.\<close>

definition exec_ends :: "bool \<Rightarrow> query_stat \<Rightarrow> world \<Rightarrow> exec_outcome \<times> query_stat \<times> world \<Rightarrow> bool" where
  "exec_ends entp st w = (\<lambda>(out, st', w').
     exec_post entp st w (out, st', w') \<or>
     out = Returns RC_FATALERR \<and> st' = st\<lparr>q_msg := Null, q_state := QS_DONE\<rparr> \<and> q_recvbuf st \<in> {Null, Freed} \<and> same_world w w')"

lemma exec_send_ends:
  assumes "exec_start st w" and "0 < q_udpbufsize cf" and "case name of None \<Rightarrow> True | Some n \<Rightarrow> \<exists>ls q. dns_name ls \<and> n = enc ls @ q"
  shows "returns (exec_send cf entp name thint st w) (exec_ends entp st w)"
proof (cases "q_state st = QS_INITIAL")
  case False
  then have r: "exec_ready st w" using assms(1) by (simp add: exec_start_def)
  have "returns (exec_loop 3 cf entp st w) (exec_ends entp st w)"
    using exec_loop_post [OF r tries_le assms(2), of entp] by (rule returns_mono) (auto simp: exec_ends_def)
  with False assms(1) show ?thesis by (auto simp: exec_send_def exec_start_def)
next
  case True
  then have u: "USE_UDP st \<or> quiet w" "q_recvbuf st = Null \<or> q_recvbuf st = Freed" using assms(1) by (simp_all add: exec_start_def)
  have q: "quiet w' = quiet w" if "same_world w w'" for w' using that by (simp add: quiet_def same_world_def)
  have go: "returns (exec_loop 3 cf entp (started st rid m) w') (exec_ends entp st w)"
    if "sizeof_dns_hdr \<le> length m" "same_world w w'" for rid m w'
  proof -
    note s = started_ready [OF that(1), of st w' rid]
    have "returns (exec_loop 3 cf entp (started st rid m) w') (exec_post entp (started st rid m) w')"
      using s(1) u(1) q [OF that(2)] by (intro exec_loop_post [OF _ tries_le assms(2)]) simp
    then have "returns (exec_loop 3 cf entp (started st rid m) w') (exec_post entp st w)"
      by (rule returns_exec_post) (use that(2) s(2,3) u(1) q [OF that(2)] in auto)
    then show ?thesis by (rule returns_mono) (auto simp: exec_ends_def)
  qed
  show ?thesis
  proof (cases name)
    case None
    show ?thesis
    proof (cases rule: exec_initial_none [of cf thint st w])
      case (failed w')
      with True None u(2) show ?thesis by (simp add: exec_send_def exec_ends_def)
    next
      case (sent rid w')
      with True None go [OF _ sent(2)] bytes_of_hdr_arcount(3) show ?thesis by (simp add: exec_send_def)
    qed
  next
    case (Some n)
    then obtain ls q where ls: "dns_name ls" "n = enc ls @ q" using assms(3) by auto
    from ls(1) show ?thesis
    proof (cases rule: exec_initial_spec [where cf = cf and q = q and thint = thint and st = st and w = w])
      case (failed w')
      with True Some ls u(2) show ?thesis by (simp add: exec_send_def exec_ends_def)
    next
      case (sent rid w')
      with True Some ls go [OF _ sent(2)] show ?thesis by (simp add: exec_send_def length_query_message)
    qed
  qed
qed

subsection \<open>An empty reply\<close>

lemma sys_at: "sys (w\<lparr>w_n := n\<rparr>) = (w_sys w n, w\<lparr>w_n := n + 1\<rparr>)"
  by (simp add: sys_def)

lemma tcp_connects:
  assumes "msg_live st" and "query_port_start cf < 0" and "\<And>i. i < 4 \<Longrightarrow> w_sys w (n + i) = Count 0" and "w_sys w (n + 4) = Data []"
  shows "\<exists>s. sm_tcp_initial cf st (w\<lparr>w_n := n\<rparr>) = sm_tcp_read cf (st\<lparr>q_state := QS_TCPREAD, q_iolen := 0\<rparr>) (w\<lparr>w_n := n + 5, w_sent := s\<rparr>)"
proof -
  obtain b where b: "q_msg st = Live b" "q_transl st \<le> length b" using assms(1) by (auto simp: msg_live_def)
  let ?m = "[ucast (drop_bit 8 (q_len st)), ucast (q_len st)] @ b"
  obtain out where out: "rd_all ?m 0 (dnsmsghdroffset + q_transl st) = Some out" "length out = dnsmsghdroffset + q_transl st"
    using b(2) rd_all_some [of 0 "dnsmsghdroffset + q_transl st" ?m] by (auto simp: dnsmsghdroffset_def)
  have r: "w_sys w n = Count 0" "w_sys w (Suc n) = Count 0" "w_sys w (Suc (Suc n)) = Count 0" "w_sys w (Suc (Suc (Suc n))) = Count 0"
      "w_sys w (Suc (Suc (Suc (Suc n)))) = Data []"
    using assms(3) [of 0] assms(3) [of 1] assms(3) [of 2] assms(3) [of 3] assms(4) by (simp_all add: numeral_eq_Suc)
  have pos: "0 < dnsmsghdroffset + q_transl st" by (simp add: dnsmsghdroffset_def)
  show ?thesis
    using assms(2) b(1) out r pos
    by (auto simp: sm_tcp_initial_def sm_tcp_write_def sys_call_def sys_write_def sys_at bind_socket_def deref_def Let_def numeral_eq_Suc)
qed

text \<open>A whole reply of \<open>n\<close> bytes arrives.\<close>

lemma tcp_replies:
  assumes "q_recvbuf st = Null" and "q_iolen st = 0" and "mem (w_cache w) = []" and "w_sys w n = Data (be16 (of_nat (length d)))"
    and "w_sys w (n + 1) = Data d" and "0 < length d" and "length d < 2 ^ 16"
  shows "sm_tcp_read cf st (w\<lparr>w_n := n\<rparr>) = Some (Some RC_OK, st\<lparr>q_state := QS_DONE, q_iolen := 2 + length d,
    q_recvl := of_nat (length d), q_recvbuf := Live d\<rparr>, w\<lparr>w_n := n + 2\<rparr>)"
proof -
  have l: "unat (of_nat (length d) :: 16 word) = length d" using assms(7) by (simp add: unat_of_nat)
  have "rd_all (be16 (of_nat (length d))) 0 2 = Some (be16 (of_nat (length d)))" by (simp add: rd_all_def)
  from GETINT16_be [OF this] have g: "GETINT16 (be16 (of_nat (length d))) 0 = Some (of_nat (length d), 2)" by (simp add: numeral_2_eq_2)
  have m: "w_malloc (w\<lparr>w_n := k\<rparr>) = (True, w\<lparr>w_n := k\<rparr>)" for k using assms(3) by (simp add: w_malloc_def malloc_def)
  have ra: "realloc_or_cleanup Null (length d) True = Some (Live (replicate (length d) 0))"
    by (simp add: realloc_or_cleanup_def realloc_def)
  show ?thesis
    using assms(1,2,4-6) l g m ra
    by (simp add: sm_tcp_read_def sm_tcp_body_def sys_read_def sys_at deref_def wr_all_zero sm_done_def Let_def)
qed

text \<open>An empty one is announced while the last one is still in memory.\<close>

lemma tcp_empty:
  assumes "q_recvbuf st = Live b" and "q_iolen st = 0" and "w_sys w n = Data [0, 0]"
  shows "sm_tcp_read cf st (w\<lparr>w_n := n\<rparr>) = None"
proof -
  have "GETINT16 [0, 0] 0 = Some (0, 2)" by (simp add: GETINT16_def rd_def)
  moreover have "realloc_or_cleanup (Live b) 0 ok = None" for ok by (simp add: realloc_or_cleanup_def realloc_def free_buf_def)
  ultimately show ?thesis
    using assms by (simp add: sm_tcp_read_def sys_read_def sys_at split: prod.split)
qed


lemma retry_empty:
  assumes "msg_live st" and "q_recvbuf st = Live b" and "q_qm st = TCP_ONLY" and "query_port_start cf < 0"
    and "\<And>i. i < 4 \<Longrightarrow> w_sys w (w_n w + i) = Count 0" and "w_sys w (w_n w + 4) = Data []" and "w_sys w (w_n w + 5) = Data [0, 0]"
  obtains st1 w1 where "reset_state st w = Some (st1, w1)" "exec_loop (Suc k) cf entp st1 w1 = None"
proof -
  obtain r w1 where r: "get_rand16 w = (r, w1)" by (cases "get_rand16 w")
  have w1: "w_sys w1 = w_sys w" "w_n w1 = w_n w" using r by (auto simp: get_rand16_def)
  then have w0: "w1\<lparr>w_n := w_n w\<rparr> = w1" by simp
  have l: "msg_live (st\<lparr>q_myrid := r\<rparr>)" using assms(1) by (simp add: msg_live_def)
  from set_id_spec [OF l] obtain st1 where i: "set_id (st\<lparr>q_myrid := r\<rparr>) = Some st1" "msg_live st1"
    "q_recvbuf st1 = Live b" "q_qm st1 = TCP_ONLY" using assms(2,3) by auto
  let ?st = "st1\<lparr>q_state := first_state st1\<rparr>"
  have t: "q_state ?st = QS_TCPINITIAL" using i(4) by (simp add: first_state_def USE_UDP_def)
  have l': "msg_live ?st" using i(2) by (simp add: msg_live_def)
  from tcp_connects [OF l' assms(4), of w1 "w_n w"] assms(5,6) obtain s where
    c: "sm_tcp_initial cf ?st w1 = sm_tcp_read cf (?st\<lparr>q_state := QS_TCPREAD, q_iolen := 0\<rparr>) (w1\<lparr>w_n := w_n w + 5, w_sent := s\<rparr>)"
    unfolding w0 by (auto simp: w1)
  have e: "w1\<lparr>w_n := w_n w + 5, w_sent := s\<rparr> = w1\<lparr>w_sent := s, w_n := w_n w + 5\<rparr>" by simp
  have "sm_tcp_initial cf ?st w1 = None"
    unfolding c e using i(3) assms(7) w1(1) by (intro tcp_empty) simp_all
  then have "p_query_sm cf ?st w1 = None" using t by (simp add: p_query_sm_def)
  then have "exec_loop (Suc k) cf entp ?st w1 = None" by simp
  moreover have "reset_state st w = Some (?st, w1)" using r i(1) by (simp add: reset_state_def)
  ultimately show thesis using that by blast
qed

text \<open>
  The peer accepts the connection and the query, refuses recursion, accepts a second connection and
  announces 0 bytes.
\<close>

definition refusal :: "16 word \<Rightarrow> bytes" where
  "refusal rid = be16 rid @ [0x80, 2, 0, 0, 0, 0, 0, 0, 0, 0]"

definition refusing_peer :: "16 word \<Rightarrow> nat \<Rightarrow> sysres" where
  "refusing_peer rid n = (if n \<in> {4, 11} then Data [] else if n = 5 then Data (be16 12) else if n = 6 then Data (refusal rid)
     else if n = 12 then Data [0, 0] else Count 0)"

lemma refusal_hdr:
  "hdr_of_bytes (refusal rid) = Some \<lparr>h_id = rid, h_rd = False, h_tc = False, h_aa = False, h_opcode = 0, h_qr = True, h_rcode = 2,
     h_cd = False, h_ad = False, h_z = False, h_ra = False, h_qdcount = 0, h_ancount = 0, h_nscount = 0, h_arcount = 0\<rparr>"
proof -
  have "rd_all (refusal rid) 0 2 = Some (be16 rid)" by (simp add: refusal_def rd_all_def be16_def)
  from ntohs_at_be [OF this] have "ntohs_at (refusal rid) 0 = Some rid" .
  then show ?thesis by (simp add: hdr_of_bytes_def refusal_def be16_def ntohs_at_def GETINT16_def rd_def bit_simps)
qed

text \<open>Concrete values.\<close>

definition demo_query_stat :: "query_method \<Rightarrow> query_stat" where
  "demo_query_stat qm = \<lparr>q_a = [192, 0, 2, 1], q_port = 53, q_timeout = 30, q_flags = 0, q_state = QS_INITIAL, q_qm = qm,
     q_nocache = False, q_auth_serv = 0, q_lean_query = True, q_edns_query = True, q_needs_testing = 0, q_trusted = True,
     q_aa = False, q_tc = False, q_ra = False, q_failed = 0, q_nsdomain = None, q_rejectlist = None, q_transl = 0, q_recvl = 0,
     q_iolen = 0, q_msg = Null, q_len = 0, q_recvbuf = Null, q_myrid = 0, q_s_errno = ENOERR\<rparr>"

definition demo_query_conf :: query_conf where
  "demo_query_conf = \<lparr>query_port_start = - 1, query_port_end = 0, q_udpbufsize = 1024, neg_domain_pol = C_AUTH, neg_rrs_pol = C_DEFAULT,
     deleg_only_zones = [], paranoid = False\<rparr>"

definition demo_world :: "(nat \<Rightarrow> sysres) \<Rightarrow> world" where
  "demo_world f = \<lparr>w_sys = f, w_rand = (\<lambda>n. 0), w_n = 0, w_r = 0, w_sent = [], w_port = None, w_sched = [],
     w_cache = init_cache 5 0 0 0 0 []\<rparr>"

text \<open>
  C15: a defect of the TCP code: if a server refuses recursion over TCP and, when the query is sent again
  without it, announces a reply of 0 bytes, then \<open>realloc\<close> of the old buffer to 0 bytes frees it and
  \<open>realloc_or_cleanup\<close> takes the null pointer for a failure and frees the buffer again: the behaviour
  of \<open>p_exec_query\<close> is undefined, whatever is asked and whatever the identification of the query is.
\<close>
theorem empty_reply_double_free:
  assumes "q_state st = QS_INITIAL" and "q_qm st = TCP_ONLY" and "q_trusted st" and "dns_name ls" and "query_port_start cf < 0"
    and "w_sys w = refusing_peer (w_rand w (w_r w))" and "w_n w = 0" and "mem (w_cache w) = []"
  shows "exec_send cf True (Some (enc ls @ q)) thint st w = None"
  using assms(4)
proof (cases rule: exec_initial_spec [where cf = cf and q = q and thint = thint and st = st and w = w])
  case (failed w')
  with assms(8) show ?thesis by (simp add: malloc_def)
next
  case (sent rid w')
  let ?st = "started st rid (query_message cf st rid thint (enc ls))"
  have sys: "w_sys w' = refusing_peer rid" "w_n w' = 0" using sent assms(6,7) by (simp_all add: same_world_def)
  then have w0: "w'\<lparr>w_n := 0\<rparr> = w'" by simp
  have sw: "w\<lparr>w_n := n, w_sent := s\<rparr> = w\<lparr>w_sent := s, w_n := n\<rparr>" for w n s by simp
  have ml: "msg_live ?st" by (simp add: started_def msg_live_def length_query_message)
  have sti: "q_state ?st = QS_TCPINITIAL" "q_recvbuf ?st = Null" using assms(2) by (simp_all add: started_def first_state_def USE_UDP_def)
  from tcp_connects [OF ml assms(5), of w' 0] obtain s where
    c: "sm_tcp_initial cf ?st (w'\<lparr>w_n := 0\<rparr>) = sm_tcp_read cf (?st\<lparr>q_state := QS_TCPREAD, q_iolen := 0\<rparr>) (w'\<lparr>w_sent := s, w_n := 5\<rparr>)"
    unfolding sw by (auto simp: sys refusing_peer_def)
  let ?st1 = "?st\<lparr>q_state := QS_DONE, q_iolen := 14, q_recvl := 12, q_recvbuf := Live (refusal rid)\<rparr>" and ?w1 = "w'\<lparr>w_sent := s, w_n := 7\<rparr>"
  have mem: "mem (w_cache w') = []" using assms(8) sent by simp
  have "sm_tcp_read cf (?st\<lparr>q_state := QS_TCPREAD, q_iolen := 0\<rparr>) (w'\<lparr>w_sent := s, w_n := 5\<rparr>) = Some (Some RC_OK, ?st1, ?w1)"
    using tcp_replies [of "?st\<lparr>q_state := QS_TCPREAD, q_iolen := 0\<rparr>" "w'\<lparr>w_sent := s\<rparr>" 5 "refusal rid" cf] sti(2) mem
    by (simp add: sys refusing_peer_def refusal_def be16_def)
  with c sti(1) have sm: "p_query_sm cf ?st w' = Some (Some RC_OK, ?st1, ?w1)" unfolding w0 by (simp add: p_query_sm_def)
  let ?h = "\<lparr>h_id = rid, h_rd = False, h_tc = False, h_aa = False, h_opcode = 0, h_qr = True, h_rcode = 2,
     h_cd = False, h_ad = False, h_z = False, h_ra = False, h_qdcount = 0, h_ancount = 0, h_nscount = 0, h_arcount = 0\<rparr>"
  obtain k w2 where up: "server_up ?st1 ?w1 = (?st1\<lparr>q_needs_testing := k\<rparr>, w2)" "same_world ?w1 w2" using server_up_spec by blast
  have "w_n w2 = 7" using up(1) by (auto simp: server_up_def sched_server_test_def split: if_splits)
  moreover have "w_sys w2 = refusing_peer rid" using up(2) sys(1) by (simp add: same_world_def)
  ultimately have s2: "w_n w2 = 7" "\<And>i. i < 4 \<Longrightarrow> w_sys w2 (7 + i) = Count 0" "w_sys w2 11 = Data []" "w_sys w2 12 = Data [0, 0]"
    by (auto simp: refusing_peer_def)
  let ?st2 = "?st1\<lparr>q_needs_testing := k\<rparr>"
  have nm: "\<not> malformed ?h (q_myrid ?st1)" by (simp add: malformed_def started_def)
  have le: "sizeof_dns_hdr \<le> unat (q_recvl ?st1)" by (simp add: sizeof_dns_hdr_def)
  have rb: "q_recvbuf ?st1 = Live (refusal rid)" by simp
  have three: "3 = Suc 2" by simp
  have e: "exec_loop 3 cf True ?st w' = judged (exec_loop 2 cf True) True ?h ?st2 w2"
    unfolding three exec_loop_judged [OF sm le rb refusal_hdr nm] up(1) by simp
  have ml2: "msg_live ?st2" using ml by (simp add: msg_live_def)
  from ml2 obtain m' where cl: "clear_rd ?st2 = Some (?st2\<lparr>q_msg := m'\<rparr>)" "msg_live (?st2\<lparr>q_msg := m'\<rparr>)" by (rule clear_rd_spec)
  obtain st4 w4 where rs: "reset_state (?st2\<lparr>q_msg := m'\<rparr>) w2 = Some (st4, w4)" "exec_loop 2 cf True st4 w4 = None"
    using retry_empty [OF cl(2) _ _ assms(5), where k = 1 and entp = True and w = w2 and b = "refusal rid"] s2 assms(2) by (auto simp: started_def numeral_2_eq_2)
  have "judge True ?h ((query_hdr rid True (q_trusted st))\<lparr>h_arcount := a\<rparr>) ?st2 = No_recursion" for a
    using assms(3) by (simp add: judge_def query_hdr_def rc_defs RC_REFUSED_def)
  then have "judged (exec_loop 2 cf True) True ?h ?st2 w2 = None"
    using cl(1) rs by (simp add: judged_def deref_def started_def query_message_def hdr_roundtrip)
  with e sent(1) assms(1) show ?thesis by (simp add: exec_send_def)
qed

theorem empty_reply_double_free_witness:
  "exec_send demo_query_conf True (Some (enc [str ''a''] @ [])) T_A (demo_query_stat TCP_ONLY) (demo_world (refusing_peer 0)) = None"
proof -
  have "dns_name [str ''a'']" by (simp add: dns_name_def DNSNAMEBUFSIZE_def str_def)
  then show ?thesis
    by (intro empty_reply_double_free) (simp_all add: demo_query_stat_def demo_query_conf_def demo_world_def init_cache_def)
qed

subsection \<open>The properties of the query\<close>

lemma query_message_parts:
  "query_message cf st rid thint nm =
     (bytes_of_hdr ((query_hdr rid True (q_trusted st))\<lparr>h_arcount := of_bool (q_edns_query st)\<rparr>) @
       nm @ be16 (of_nat (query_type st thint)) @ be16 (of_nat C_IN)) @
     (if q_edns_query st then opt_bytes (of_nat (q_udpbufsize cf)) (of_nat RC_OK) 0 0 else [])"
  by (simp add: query_message_def)

lemma name_at_enc:
  assumes "dns_name ls"
  shows "name_at (p @ enc ls @ r) 0 (length (enc ls)) (length p) ls"
proof -
  have l: "dns_labels ls" using assms by (simp add: dns_name_def)
  have e: "p @ enc ls @ r = p @ enc_labels ls @ 0 # r" by (simp add: enc_def)
  have "rd (p @ enc_labels ls @ 0 # r) (length p + length (enc_labels ls)) = Some 0" by (simp add: rd_def nth_append)
  then have "name_at (p @ enc_labels ls @ 0 # r) 0 1 (length p + length (enc_labels ls)) []" by (rule na_end)
  from name_at_labels [OF l this] show ?thesis unfolding e by (simp add: enc_def)
qed

text \<open>The question and the OPT record are read back.\<close>

lemma query_message_question:
  assumes "dns_name ls" and "malloc st0 = (True, st1)" and "m = query_message cf st rid thint (enc ls)"
    and "o1 = (if q_edns_query st then opt_bytes (of_nat (q_udpbufsize cf)) (of_nat RC_OK) 0 0 else [])"
  shows "decode_query m (length m) st0 =
    Some (RC_OK, [\<lparr>qe_qtype = of_nat (query_type st thint), qe_qclass = of_nat C_IN, qe_query = enc ls\<rparr>],
      sizeof_dns_hdr + length (enc ls) + 4, length o1, st1)"
proof -
  let ?h = "(query_hdr rid True (q_trusted st))\<lparr>h_arcount := of_bool (q_edns_query st)\<rparr>"
  let ?q = "be16 (of_nat (query_type st thint)) :: bytes" and ?c = "be16 (of_nat C_IN) :: bytes"
  let ?i = "sizeof_dns_hdr + length (enc ls)"
  have m: "m = bytes_of_hdr ?h @ enc ls @ ?q @ ?c @ o1" unfolding assms(3,4) by (simp add: query_message_parts)
  have lh: "length (bytes_of_hdr ?h) = sizeof_dns_hdr" by (rule bytes_of_hdr_arcount(3))
  have hdr: "hdr_of_bytes m = Some ?h" unfolding m by (rule hdr_roundtrip)
  have n: "name_at m 0 (length (enc ls)) sizeof_dns_hdr ls"
    using name_at_enc [OF assms(1), of "bytes_of_hdr ?h" "?q @ ?c @ o1"] unfolding m lh by simp
  have len: "length m = ?i + 4 + length o1" unfolding m by (simp add: lh be16_def)
  then have le: "length (enc ls) \<le> length m - sizeof_dns_hdr" by simp
  from decompress_name_reads [OF n _ assms(1) le, of "replicate DNSNAMEBUFSIZE 0"] obtain db where
    dc: "decompress_name m (length m) sizeof_dns_hdr (length m - sizeof_dns_hdr) (replicate DNSNAMEBUFSIZE 0) =
      Some (Inr (?i, 4 + length o1, db, length (enc ls)))"
      "length db = DNSNAMEBUFSIZE" "take (length (enc ls)) db = enc ls"
    unfolding len by auto
  have nm: "rd_all db 0 (length (enc ls)) = Some (enc ls)"
    using dc(2,3) assms(1) rd_all_take [of "length (enc ls)" db] by (simp add: dns_name_def)
  have "rd_all m ?i 2 = Some ?q" "rd_all m (?i + 2) 2 = Some ?c"
    unfolding m using lh by (simp_all add: rd_all_def be16_def)
  from this [THEN GETINT16_be] have g: "GETINT16 m ?i = Some (of_nat (query_type st thint), ?i + 2)"
    "GETINT16 m (?i + 2) = Some (of_nat C_IN, ?i + 4)" by (simp_all add: add.assoc)
  have qd: "ntohs_at m 4 = Some 1" using hdr by (auto simp: hdr_of_bytes_def query_hdr_def split: bind_splits)
  show ?thesis using qd dc(1) assms(2) g nm by (simp add: decode_query_def)
qed

lemma query_message_opt:
  assumes "m = query_message cf st rid thint (enc ls)"
    and "o1 = (if q_edns_query st then opt_bytes (of_nat (q_udpbufsize cf)) (of_nat RC_OK) 0 0 else [])"
  shows "\<exists>ep'. decode_query_additional (of_bool (q_edns_query st)) m (length m) (sizeof_dns_hdr + length (enc ls) + 4) (length o1) 0 ep =
       Some (RC_OK, of_bool (q_edns_query st), ep') \<and>
       (q_edns_query st \<longrightarrow> ei_udpsize ep' = of_nat (q_udpbufsize cf) \<and> ei_version ep' = 0)"
proof (cases "q_edns_query st")
  case True
  define p where "p = bytes_of_hdr ((query_hdr rid True (q_trusted st))\<lparr>h_arcount := 1\<rparr>) @
    enc ls @ be16 (of_nat (query_type st thint)) @ be16 (of_nat C_IN)"
  have m: "m = p @ opt_bytes (of_nat (q_udpbufsize cf)) (of_nat RC_OK) 0 0"
    using True by (simp add: assms(1) query_message_parts p_def)
  have l: "sizeof_dns_hdr + length (enc ls) + 4 = length p" by (simp add: p_def bytes_of_hdr_arcount(3) be16_def)
  then obtain g where g: "rd p 3 = Some g" by (auto simp: rd_def)
  have l2: "length m = length p + 11" "length o1 = 11"
    using True by (simp_all add: m assms(2) sizeof_opt_pseudo_rr_def sizeof_rr_hdr_t_def)
  obtain ep' where r: "decode_query_additional 1 m (length p + 11) (length p) 11 0 ep = Some (RC_OK, 1, ep')"
    "ei_udpsize ep' = of_nat (q_udpbufsize cf)" "ei_version ep' = 0"
    using opt_read [OF g, of "of_nat (q_udpbufsize cf)" "of_nat RC_OK" 0 0 ep] unfolding m [symmetric] by force
  have b: "of_bool (q_edns_query st) = (1 :: nat)" using True by simp
  show ?thesis unfolding b l2 l using r by blast
qed simp

text \<open>
  C9: the query pdnsd sends is what its own parser of queries reads. Given memory, the state
  \<open>QS_INITIAL\<close> makes a message that fills its memory, with a header that asks for recursion exactly if the
  server is trusted, from which \<open>decode_query\<close> reads exactly one question, with the name, the type and
  the class IN, and \<open>decode_query_additional\<close> one OPT record with the configured buffer size exactly
  if EDNS is used.
\<close>
theorem query_read_back:
  assumes "dns_name ls" and "fst (malloc (w_cache w))" and "fst (malloc st0)"
  shows "\<exists>rid w' m. exec_initial cf (Some (enc ls @ q)) thint st w = Some (True, started st rid m, w') \<and>
    hdr_of_bytes m = Some ((query_hdr rid True (q_trusted st))\<lparr>h_arcount := of_bool (q_edns_query st)\<rparr>) \<and>
    (\<exists>ptr sz st1. decode_query m (length m) st0 =
       Some (RC_OK, [\<lparr>qe_qtype = of_nat (query_type st thint), qe_qclass = of_nat C_IN, qe_query = enc ls\<rparr>], ptr, sz, st1) \<and>
       (\<exists>ep'. decode_query_additional (of_bool (q_edns_query st)) m (length m) ptr sz 0 ep = Some (RC_OK, of_bool (q_edns_query st), ep') \<and>
         (q_edns_query st \<longrightarrow> ei_udpsize ep' = of_nat (q_udpbufsize cf) \<and> ei_version ep' = 0)))"
  using assms(1)
proof (cases rule: exec_initial_spec [where cf = cf and q = q and thint = thint and st = st and w = w])
  case (failed w')
  with assms(2) show ?thesis by simp
next
  case (sent rid w')
  obtain st1 where "malloc st0 = (True, st1)" using assms(3) by (cases "malloc st0") simp
  note d = query_message_question [OF assms(1) this refl refl, of cf st rid thint]
  have "hdr_of_bytes (query_message cf st rid thint (enc ls)) =
      Some ((query_hdr rid True (q_trusted st))\<lparr>h_arcount := of_bool (q_edns_query st)\<rparr>)"
    unfolding query_message_def by (rule hdr_roundtrip)
  with sent(1) d query_message_opt [OF refl refl, where cf = cf and st = st and rid = rid and thint = thint and ls = ls and ep = ep] show ?thesis by blast
qed

theorem query_read_back_witness:
  "\<exists>rid w' m. exec_initial demo_query_conf (Some (enc [str ''a''] @ [])) T_A (demo_query_stat UDP_ONLY) (demo_world (\<lambda>n. Count 0)) =
     Some (True, started (demo_query_stat UDP_ONLY) rid m, w') \<and>
    (\<exists>ptr sz st1. decode_query m (length m) (init_cache 5 0 0 0 0 []) =
       Some (RC_OK, [\<lparr>qe_qtype = 1, qe_qclass = 1, qe_query = enc [str ''a'']\<rparr>], ptr, sz, st1))"
proof -
  have d: "dns_name [str ''a'']" by (simp add: dns_name_def DNSNAMEBUFSIZE_def str_def)
  have m: "fst (malloc (w_cache (demo_world (\<lambda>n. Count 0))))" "fst (malloc (init_cache 5 0 0 0 0 []))"
    by (simp_all add: malloc_def demo_world_def init_cache_def)
  have t: "of_nat (query_type (demo_query_stat UDP_ONLY) T_A) = (1 :: 16 word)" "(of_nat C_IN :: 16 word) = 1"
    by (simp_all add: query_type_def demo_query_stat_def T_A_def C_IN_def)
  from query_read_back [OF d m, of demo_query_conf "[]" T_A "demo_query_stat UDP_ONLY"] show ?thesis unfolding t by blast
qed

text \<open>
  C12: \<open>p_exec_query\<close> up to the records of the reply is safe in every environment that meets one
  condition, part of \<open>exec_start\<close>: the query goes over UDP, or no peer announces an empty message over
  TCP (without it the buffer can be freed twice: \<open>empty_reply_double_free\<close>). If the query is new, or
  waits after earlier calls, then three tries are enough and no operation is undefined (no buffer is left, used after it was freed, or
  freed twice). A call ends with the query waiting in a state from which it can go on; or with an error
  and no buffer allocated; or with a reply in a buffer that holds all its bytes, whose header answers
  this query with success or a name error, or with another code that is marked as a failure.
\<close>
theorem exec_query_safe:
  assumes "exec_start st w" and "0 < q_udpbufsize cf" and "case name of None \<Rightarrow> True | Some n \<Rightarrow> \<exists>ls q. dns_name ls \<and> n = enc ls @ q"
  shows "\<exists>out st' w'. exec_send cf entp name thint st w = Some (out, st', w') \<and> (case out of
       Call_again \<Rightarrow> q_state st' \<in> {QS_TCPWRITE, QS_TCPREAD, QS_UDPRECEIVE} \<and> exec_start st' w'
     | Returns rc \<Rightarrow> rc \<noteq> RC_OK \<and> q_state st' = QS_DONE \<and> q_msg st' \<in> {Null, Freed} \<and> q_recvbuf st' \<in> {Null, Freed}
     | Replied rc \<Rightarrow> q_state st' = QS_DONE \<and> msg_live st' \<and> header_ok st' rc \<and>
         (rc = RC_OK \<or> rc = RC_NAMEERR \<or> entp \<and> q_failed st' = 3))"
proof -
  obtain out st' w' where e: "exec_send cf entp name thint st w = Some (out, st', w')" "exec_ends entp st w (out, st', w')"
    using exec_send_ends [OF assms, of entp thint] by (rule returnsE) (metis prod_cases3)
  have n: "RC_FATALERR \<noteq> RC_OK" by simp
  show ?thesis
  proof (cases "exec_post entp st w (out, st', w')")
    case True
    with e(1) show ?thesis
      by (intro exI [of _ out] exI [of _ st'] exI [of _ w']) (auto simp: exec_post_def exec_start_def split: exec_outcome.splits)
  next
    case False
    with e(2) have o: "out = Returns RC_FATALERR" "st' = st\<lparr>q_msg := Null, q_state := QS_DONE\<rparr>" "q_recvbuf st \<in> {Null, Freed}"
      by (simp_all add: exec_ends_def)
    with e(1) n show ?thesis by auto
  qed
qed

theorem exec_query_safe_witness:
  "\<exists>out st' w'. exec_send demo_query_conf True (Some (enc [str ''a''] @ [])) T_A (demo_query_stat UDP_TCP) (demo_world (\<lambda>n. Data [0, 0])) =
     Some (out, st', w')"
proof -
  have d: "dns_name [str ''a'']" by (simp add: dns_name_def DNSNAMEBUFSIZE_def str_def)
  then have n: "case Some (enc [str ''a''] @ []) of None \<Rightarrow> True | Some n \<Rightarrow> \<exists>ls q. dns_name ls \<and> n = enc ls @ q" by auto
  have "exec_start (demo_query_stat UDP_TCP) w" for w by (simp add: exec_start_def demo_query_stat_def USE_UDP_def)
  moreover have "0 < q_udpbufsize demo_query_conf" by (simp add: demo_query_conf_def)
  ultimately show ?thesis using exec_query_safe [OF _ _ n] by blast
qed

text \<open>
  C36: the source port of a query: for any range of ports in the configuration (and whatever the random
  numbers and the outcomes of \<open>bind\<close> are) \<open>bind_socket\<close> returns, after a bounded number of tries, either
  without success or with the socket bound to a port of the range; no other part of the state changes.
\<close>
theorem bind_socket_in_range:
  assumes "0 \<le> query_port_start cf"
  shows "\<exists>b w'. bind_socket cf w = Some (b, w') \<and> same_world w w' \<and>
    (b = False \<or> (\<exists>p. w_port w' = Some p \<and> query_port_start cf \<le> p \<and> p \<le> query_port_end cf))"
  using bind_socket_spec [of cf w] by (rule returnsE) (use assms in auto)

theorem bind_socket_in_range_witness:
  "\<exists>b w'. bind_socket (demo_query_conf\<lparr>query_port_start := 1024, query_port_end := 65535\<rparr>) (demo_world (\<lambda>n. Fail EADDRINUSE)) = Some (b, w') \<and>
    (b = False \<or> (\<exists>p. w_port w' = Some p \<and> 1024 \<le> p \<and> p \<le> 65535))"
proof -
  let ?cf = "demo_query_conf\<lparr>query_port_start := 1024, query_port_end := 65535\<rparr>"
  have "0 \<le> query_port_start ?cf" "query_port_start ?cf = 1024" "query_port_end ?cf = 65535" by simp_all
  with bind_socket_in_range [of ?cf] show ?thesis by metis
qed

end
