(* ===== verification/Query_Cached.thy ===== *)
theory Query_Cached
  imports Answer_Compose Loops
begin

text \<open>
  \<open>dns_query.c\<close>, 3288--3322 and 3325--3579: the decision whether a query is answered from the cache or
  by asking name servers, and what of the answer of the servers enters the cache.
\<close>

subsection \<open>Requery decision\<close>

text \<open>\<open>set_flags_ttl\<close> and \<open>set_all_flags_ttl\<close>: \<open>*flags\<close> and \<open>*ttl\<close> are threaded.\<close>

definition join_flags_ttl :: "rr_set \<Rightarrow> flags \<times> int \<Rightarrow> flags \<times> int" where
  "join_flags_ttl rrset = (\<lambda>(fl, ttl).
     let t = rs_ts rrset + CLAT_ADJ (rs_ttl rrset) in
     (fl OR rs_flags rrset, if ttl = 0 \<or> ttl > t then t else ttl))"

definition set_flags_ttl :: "dns_cent \<Rightarrow> nat \<Rightarrow> flags \<times> int \<Rightarrow> (bool \<times> flags \<times> int) option" where
  "set_flags_ttl cached tp ft = do {
     rrset \<leftarrow> getrrset cached (int tp);
     Some (case rrset of None \<Rightarrow> (False, ft) | Some s \<Rightarrow> (True, join_flags_ttl s ft))
   }"

definition set_all_flags_ttl :: "dns_cent \<Rightarrow> flags \<times> int \<Rightarrow> (flags \<times> int) option" where
  "set_all_flags_ttl cached ft = do {
     ilim \<leftarrow> RRARR_LEN cached;
     fold_opt (\<lambda>i ft. do {
       rrset \<leftarrow> RRARR_INDEX cached i;
       Some (case rrset of None \<Rightarrow> ft | Some s \<Rightarrow> join_flags_ttl s ft)
     }) [0..<ilim] ft
   }"

text \<open>Several types in turn, the result of \<open>set_flags_ttl\<close> ignored.\<close>

definition set_types_flags_ttl :: "dns_cent \<Rightarrow> nat list \<Rightarrow> flags \<times> int \<Rightarrow> (flags \<times> int) option" where
  "set_types_flags_ttl cached tps ft = fold_opt (\<lambda>tp ft. map_option snd (set_flags_ttl cached tp ft)) tps ft"

text \<open>The branch of \<open>lookup_cache_status\<close> for an entry that is not negative: \<open>flags\<close>, \<open>ttl\<close> and \<open>neg\<close>.\<close>

definition requery_flags :: "dns_cent \<Rightarrow> nat \<Rightarrow> int \<Rightarrow> ((flags \<times> int) \<times> bool) option" where
  "requery_flags cached thint queryts =
     (if thint = QT_ALL then map_option (\<lambda>ft. (ft, False)) (set_all_flags_ttl cached (0, 0))
      else do {
        (found, ft) \<leftarrow> set_flags_ttl cached T_CNAME (0, 0);
        cneg \<leftarrow> (if found then do { s \<leftarrow> getrrset_X cached T_CNAME; s' \<leftarrow> s; Some (has (rs_flags s') CF_NEGATIVE) }
          else Some True);
        if \<not> cneg then Some (ft, False)
        else if T_MIN \<le> thint \<and> thint \<le> T_MAX then do {
          (found', ft') \<leftarrow> set_flags_ttl cached thint (0, 0);
          neg \<leftarrow> (if found' then do {
              s \<leftarrow> getrrset cached (int thint);
              s' \<leftarrow> s;
              Some (has (rs_flags s') CF_NEGATIVE \<and> snd ft' \<ge> queryts)
            } else Some False);
          Some (ft', neg)
        }
        else if thint = QT_MAILB then map_option (\<lambda>ft. (ft, False)) (set_types_flags_ttl cached [T_MB, T_MG, T_MR] (0, 0))
        else if thint = QT_MAILA then map_option (\<lambda>ft. (ft, False)) (set_types_flags_ttl cached [T_MD, T_MF] (0, 0))
        else Some ((0, 0), False)
      })"

definition need_req :: "dns_cent \<Rightarrow> nat \<Rightarrow> flags \<Rightarrow> bool" where
  "need_req cached thint fl \<longleftrightarrow> \<not> has fl CF_LOCAL \<and>
     (if thint = QT_ALL then \<not> has (ce_flags cached) DF_AUTH
      else QT_MIN \<le> thint \<and> thint \<le> QT_MAX \<and> \<not> (has fl CF_AUTH \<and> \<not> has fl CF_ADDITIONAL))"

text \<open>\<open>*c_soa\<close> for a name that is locally negated; \<open>c_soa\<close> may be a null pointer.\<close>

definition local_c_soa :: "dns_cent \<Rightarrow> byte option \<Rightarrow> cache \<Rightarrow> byte option option" where
  "local_c_soa cached c_soa_p st = (case c_soa_p of None \<Rightarrow> Some None
     | Some x \<Rightarrow>
         if c_soa cached \<noteq> cundef then Some (Some (c_soa cached))
         else do {
           soa \<leftarrow> have_rr_X cached T_SOA;
           if soa then do { n \<leftarrow> rhnsegcnt (qname cached); Some (Some (of_nat n)) }
           else do {
             owner \<leftarrow> getlocalowner (qname cached) T_SOA st;
             case owner of None \<Rightarrow> Some (Some x)
             | Some p \<Rightarrow> do { n \<leftarrow> rhnsegcnt (drop p (qname cached)); Some (Some (of_nat n)) }
           }
         })"

text \<open>The result is the return code, the entry, the flags, \<open>*c_soa\<close> and the cache.\<close>

definition lookup_cache_status ::
    "bytes \<Rightarrow> nat \<Rightarrow> int \<Rightarrow> byte option \<Rightarrow> cache \<Rightarrow> (nat \<times> dns_cent option \<times> flags \<times> byte option \<times> cache) option" where
  "lookup_cache_status name thint queryts c_soa_p st = do {
     (ret, wild, st1) \<leftarrow> lookup_cache name True st;
     case ret of None \<Rightarrow> Some (RC_NOTCACHED, None, 0, c_soa_p, st1)
     | Some cached \<Rightarrow>
         if has (ce_flags cached) DF_LOCAL then
           if has (ce_flags cached) DF_NEGATIVE \<or> wild = w_locnerr then do {
             soa \<leftarrow> local_c_soa cached c_soa_p st1;
             st2 \<leftarrow> free_cent cached st1;
             Some (RC_NAMEERR, None, 0, soa, st2)
           }
           else Some (RC_OK, Some cached, 0, c_soa_p, st1)
         else if has (ce_flags cached) DF_NEGATIVE then
           (case body cached of Recs mu ext \<Rightarrow> None
            | Neg l ttl ts \<Rightarrow>
                Some (if ts + CLAT_ADJ ttl \<ge> queryts then RC_CACHED else RC_STALE, Some cached, 0, c_soa_p, st1))
         else do {
           ((fl, ttl), neg) \<leftarrow> requery_flags cached thint queryts;
           let timed = (\<not> has fl CF_LOCAL \<and> ttl < queryts);
           Some (if \<not> neg \<and> (need_req cached thint fl \<or> timed) then RC_STALE else RC_CACHED, Some cached, fl, c_soa_p, st1)
         }
   }"

subsection \<open>Asking the servers\<close>

text \<open>
  The question put to name servers is a parameter, from the name, the type, \<open>c_soa\<close> and the cache to
  the return code, the entry, \<open>nocache\<close>, \<open>c_soa\<close> and the cache.
\<close>

type_synonym asking = "bytes \<Rightarrow> nat \<Rightarrow> byte option \<Rightarrow> cache \<Rightarrow> (nat \<times> dns_cent option \<times> bool \<times> byte option \<times> cache) option"

text \<open>The end of \<open>p_dns_resolve\<close>, when there is a server to ask.\<close>

definition resolve_and_cache ::
    "asking \<Rightarrow> bytes \<Rightarrow> nat \<Rightarrow> byte option \<Rightarrow> cache \<Rightarrow> (nat \<times> dns_cent option \<times> byte option \<times> cache) option" where
  "resolve_and_cache ask name thint c_soa_p st = do {
     (rc, cp, nocache, soa, st1) \<leftarrow> ask name thint c_soa_p st;
     if rc = RC_OK then do {
       cached \<leftarrow> cp;
       if \<not> nocache then do {
         st2 \<leftarrow> add_cache cached st1;
         (tc, w, st3) \<leftarrow> lookup_cache name False st2;
         case tc of None \<Rightarrow> Some (rc, Some cached, soa, st3)
         | Some c \<Rightarrow> do { st4 \<leftarrow> free_cent cached st3; Some (rc, Some c, soa, st4) }
       }
       else Some (rc, Some cached, soa, st1)
     }
     else if rc = RC_CACHED \<or> rc = RC_STALE then Some (rc, cp, soa, st1)
     else Some (rc, None, soa, st1)
   }"

subsection \<open>Resolving\<close>

type_synonym resolving = "bytes \<Rightarrow> nat \<Rightarrow> byte option \<Rightarrow> cache \<Rightarrow> (nat \<times> dns_cent option \<times> byte option \<times> cache) option"

definition free_cached :: "dns_cent option \<Rightarrow> cache \<Rightarrow> cache option" where
  "free_cached c st = (case c of None \<Rightarrow> Some st | Some x \<Rightarrow> free_cent x st)"

text \<open>
  \<open>p_dns_cached_resolve\<close>: \<open>linkdown\<close> is the outcome of the test for a server that is up (false if
  \<open>lndown_kluge\<close> is off), \<open>resolve\<close> is \<open>p_dns_resolve\<close> or \<open>p_recursive_query\<close>.
\<close>

definition p_dns_cached_resolve ::
    "bool \<Rightarrow> resolving \<Rightarrow> bytes \<Rightarrow> nat \<Rightarrow> int \<Rightarrow> byte option \<Rightarrow> cache \<Rightarrow>
     (nat \<times> dns_cent option \<times> byte option \<times> cache) option" where
  "p_dns_cached_resolve linkdown resolve name thint queryts c_soa_p st = do {
     (rc, cached, fl, soa, st1) \<leftarrow> lookup_cache_status name thint queryts c_soa_p st;
     if rc = RC_OK then Some (RC_CACHED, cached, soa, st1)
     else if rc = RC_NAMEERR then Some (RC_NAMEERR, None, soa, st1)
     else if linkdown \<and> \<not> has fl CF_LOCAL then do {
       st2 \<leftarrow> free_cached cached st1;
       Some (RC_SERVFAIL, None, soa, st2)
     }
     else if rc \<noteq> RC_CACHED then do {
       (rc', cp, soa', st2) \<leftarrow> resolve name thint soa st1;
       if rc' = RC_OK \<or> rc' = RC_CACHED \<or> rc' = RC_STALE then do {
         st3 \<leftarrow> free_cached cached st2;
         Some (rc', cp, soa', st3)
       }
       else if rc' = RC_SERVFAIL \<and> cached \<noteq> None \<and> has fl CF_NOPURGE then Some (RC_STALE, cached, soa', st2)
       else do {
         st3 \<leftarrow> free_cached cached st2;
         Some (rc', None, soa', st3)
       }
     }
     else Some (RC_CACHED, cached, soa, st1)
   }"

definition r_dns_cached_resolve ::
    "bool \<Rightarrow> resolving \<Rightarrow> bytes \<Rightarrow> nat \<Rightarrow> int \<Rightarrow> byte option \<Rightarrow> cache \<Rightarrow>
     (nat \<times> dns_cent option \<times> byte option \<times> cache) option" where
  "r_dns_cached_resolve linkdown resolve name thint queryts c_soa_p st = do {
     (rc, cp, soa, st1) \<leftarrow> p_dns_cached_resolve linkdown resolve name thint queryts c_soa_p st;
     if rc = RC_OK \<or> rc = RC_CACHED \<or> rc = RC_STALE then do {
       cached \<leftarrow> cp;
       if has (ce_flags cached) DF_NEGATIVE then do {
         st2 \<leftarrow> free_cent cached st1;
         Some (RC_NAMEERR, None, map_option (\<lambda>x. c_soa cached) soa, st2)
       }
       else Some (RC_OK, Some cached, soa, st1)
     }
     else Some (rc, None, soa, st1)
   }"

end
