(* ===== verification/Query_Cached_Correct.thy ===== *)
theory Query_Cached_Correct
  imports Query_Cached Cache_Typed Answer_Safe
begin

text \<open>
  The requery decision and the resolver that \<open>dns_answer.c\<close> calls: no undefined operation, the cache
  stays well-formed, and an answer is taken from the cache exactly when it is local or fresh.
\<close>

subsection \<open>Record sets by type\<close>

definition set_at :: "dns_cent \<Rightarrow> nat \<Rightarrow> rr_set option" where
  "set_at c tp = (if cached_type tp then slot c (rr_idx tp) else None)"

lemma getrrset_set_at [simp]: "cent_ok c \<Longrightarrow> getrrset c (int tp) = Some (set_at c tp)"
  by (simp add: getrrset_slot set_at_def)

lemma getrrset_X_set_at [simp]: "cent_ok c \<Longrightarrow> tp \<in> set is_cached \<Longrightarrow> getrrset_X c tp = Some (set_at c tp)"
  using getrrset_X_slot [of c tp] by (simp add: set_at_def)

lemma set_at_data: "cent_data c \<Longrightarrow> set_at c tp = Some s \<Longrightarrow> d \<in> set (rs_rrs s) \<Longrightarrow> rdata_ok tp d"
  by (auto simp: set_at_def slot_data split: if_splits)

subsection \<open>Freshness\<close>

text \<open>The time until which a record set may be used without asking again.\<close>

definition good_until :: "rr_set \<Rightarrow> int" where
  "good_until s = rs_ts s + CLAT_ADJ (rs_ttl s)"

text \<open>The record set that answers a query for a record type: an alias goes before the type itself.\<close>

definition answering :: "dns_cent \<Rightarrow> nat \<Rightarrow> rr_set option" where
  "answering c tp = (case set_at c T_CNAME of
     Some s \<Rightarrow> if has (rs_flags s) CF_NEGATIVE then set_at c tp else Some s
   | None \<Rightarrow> set_at c tp)"

fun current :: "int \<Rightarrow> nat \<Rightarrow> dns_cent \<Rightarrow> bool" where
  "current qts tp c = (case body c of
     Neg l ttl ts \<Rightarrow> qts \<le> ts + CLAT_ADJ ttl
   | Recs mu ext \<Rightarrow> (case answering c tp of None \<Rightarrow> False
       | Some s \<Rightarrow> has (rs_flags s) CF_LOCAL \<or> qts \<le> good_until s))"

lemma join_flags_0 [simp]: "join_flags_ttl s (0, 0) = (rs_flags s, good_until s)"
  by (simp add: join_flags_ttl_def good_until_def Let_def)

lemma cname_cached: "T_CNAME \<in> set is_cached"
  by (simp add: is_cached_def type_num_defs)

lemma set_flags_ttl_eq [simp]: "cent_ok c \<Longrightarrow> set_flags_ttl c tp ft =
    Some (case set_at c tp of None \<Rightarrow> (False, ft) | Some s \<Rightarrow> (True, join_flags_ttl s ft))"
  by (simp add: set_flags_ttl_def)

lemma qtype_order: "T_MIN \<le> tp \<Longrightarrow> tp \<le> T_MAX \<Longrightarrow> tp \<noteq> QT_ALL \<and> \<not> (QT_MIN \<le> tp \<and> tp \<le> QT_MAX)"
  by (simp add: T_MIN_def T_MAX_def QT_ALL_def QT_MIN_def)

lemma requery_flags_type:
  assumes "cent_ok c" and "T_MIN \<le> tp" and "tp \<le> T_MAX"
  shows "requery_flags c tp qts = Some (case answering c tp of
     None \<Rightarrow> ((0, 0), False)
   | Some s \<Rightarrow> ((rs_flags s, good_until s), set_at c tp = Some s \<and>
       (case set_at c T_CNAME of None \<Rightarrow> True | Some s' \<Rightarrow> has (rs_flags s') CF_NEGATIVE) \<and>
       has (rs_flags s) CF_NEGATIVE \<and> qts \<le> good_until s))"
  using assms qtype_order [OF assms(2,3)] cname_cached
  by (auto simp: requery_flags_def answering_def split: option.splits)

lemma set_all_flags_ttl_some: "cent_ok c \<Longrightarrow> \<exists>ft'. set_all_flags_ttl c ft = Some ft'"
proof -
  assume ok: "cent_ok c"
  have "fold_opt (\<lambda>i ft. do { rrset \<leftarrow> RRARR_INDEX c i; Some (case rrset of None \<Rightarrow> ft | Some s \<Rightarrow> join_flags_ttl s ft) })
      [0..<ilim c] ft = Some (fold (\<lambda>i ft. case slot c i of None \<Rightarrow> ft | Some s \<Rightarrow> join_flags_ttl s ft) [0..<ilim c] ft)"
    using ok by (intro fold_opt_total) simp
  with ok show ?thesis by (simp add: set_all_flags_ttl_def)
qed

lemma set_types_flags_ttl_some: "cent_ok c \<Longrightarrow> \<exists>ft'. set_types_flags_ttl c tps ft = Some ft'"
  by (induction tps arbitrary: ft) (simp_all add: set_types_flags_ttl_def)

lemma requery_flags_some: "cent_ok c \<Longrightarrow> \<exists>fl ttl neg. requery_flags c tp qts = Some ((fl, ttl), neg)"
  using set_all_flags_ttl_some [of c "(0, 0)"] set_types_flags_ttl_some [of c _ "(0, 0)"] cname_cached
  by (auto simp: requery_flags_def split: option.splits)

subsection \<open>The state of a name in the cache\<close>

lemma local_c_soa_some:
  assumes "copy_ok c" and "cache_inv st"
  shows "\<exists>soa. local_c_soa c p st = Some soa \<and> (soa = None \<longleftrightarrow> p = None)"
proof -
  have ok: "cent_ok c" using assms(1) by (simp add: copy_ok_def)
  then obtain ls where ls: "qname c = enc ls" "dns_name ls" by (auto simp: cent_ok_def)
  have t: "T_MIN \<le> T_SOA" "T_SOA \<le> T_MAX" by (simp_all add: type_num_defs T_MIN_def T_MAX_def)
  then obtain b where b: "have_rr_X c T_SOA = Some b" using have_rr_X_eq [OF ok, of T_SOA] t by (cases "have_rr_X c T_SOA") simp_all
  from getlocalowner_ok [OF assms(2) t ls(2)] obtain r where
    r: "getlocalowner (enc ls) T_SOA st = Some r" "\<forall>p. r = Some p \<longrightarrow> (\<exists>ls'. dns_name ls' \<and> drop p (enc ls) = enc ls')" .
  show ?thesis
    using ls b r by (cases p; cases r) (auto simp: local_c_soa_def dns_name_labels_ok)
qed

definition status_ok :: "nat \<times> dns_cent option \<times> flags \<times> byte option \<times> cache \<Rightarrow> bool" where
  "status_ok = (\<lambda>(rc, cp, fl, soa, st). cache_inv st \<and> data_ok st \<and>
     (case cp of None \<Rightarrow> rc = RC_NAMEERR \<or> rc = RC_NOTCACHED
      | Some c \<Rightarrow> copy_ok c \<and> (rc = RC_OK \<or> rc = RC_CACHED \<or> rc = RC_STALE)))"

lemma rc_distinct:
  "RC_NAMEERR \<noteq> RC_OK" "RC_NOTCACHED \<noteq> RC_OK" "RC_CACHED \<noteq> RC_OK" "RC_STALE \<noteq> RC_OK" "RC_SERVFAIL \<noteq> RC_OK"
  "RC_NOTCACHED \<noteq> RC_NAMEERR" "RC_CACHED \<noteq> RC_NAMEERR" "RC_STALE \<noteq> RC_NAMEERR" "RC_SERVFAIL \<noteq> RC_NAMEERR"
  "RC_SERVFAIL \<noteq> RC_CACHED" "RC_SERVFAIL \<noteq> RC_STALE" "RC_CACHED \<noteq> RC_NOTCACHED" "RC_STALE \<noteq> RC_NOTCACHED" "RC_STALE \<noteq> RC_CACHED"
  by (simp_all add: RC_OK_def RC_NAMEERR_def RC_NOTCACHED_def RC_CACHED_def RC_STALE_def RC_SERVFAIL_def)

lemmas rc_differ [simp] = rc_distinct rc_distinct [symmetric]

lemma lookup_cache_status_spec:
  assumes "cache_inv st" and "data_ok st" and "dns_name ls"
  shows "\<exists>rc cp fl soa st1. lookup_cache_status (enc ls @ q) thint qts p st = Some (rc, cp, fl, soa, st1) \<and>
    status_ok (rc, cp, fl, soa, st1) \<and> (soa = None \<longleftrightarrow> p = None)"
proof -
  from lookup_cache_copy [OF assms, of q True] obtain ae w st1 where
    l: "lookup_cache (enc ls @ q) True st = Some (ae, w, st1)" "cache_inv st1" "data_ok st1" "\<forall>c. ae = Some c \<longrightarrow> copy_ok c" .
  show ?thesis
  proof (cases ae)
    case None
    with l show ?thesis by (simp add: lookup_cache_status_def status_ok_def)
  next
    case (Some c)
    with l have c: "copy_ok c" "cent_ok c" "detached c" by (simp_all add: copy_ok_def)
    obtain soa where soa: "local_c_soa c p st1 = Some soa" "soa = None \<longleftrightarrow> p = None" using local_c_soa_some [OF c(1) l(2)] by blast
    have free: "free_cent c st1 = Some st1" by (rule free_cent_copy [OF l(2) c(2,3)])
    obtain fl ttl neg where r: "requery_flags c thint qts = Some ((fl, ttl), neg)" using requery_flags_some [OF c(2)] by blast
    show ?thesis
    proof (cases "has (ce_flags c) DF_LOCAL")
      case True
      with l Some c(1) soa free show ?thesis by (simp add: lookup_cache_status_def status_ok_def)
    next
      case False
      have "has (ce_flags c) DF_NEGATIVE = is_neg (body c)" using c(2) by (simp add: cent_ok_def)
      with False l Some c(1) r show ?thesis
        by (cases "body c") (simp_all add: lookup_cache_status_def status_ok_def Let_def)
    qed
  qed
qed

lemma lookup_cache_status_type:
  assumes "lookup_cache name True st = Some (Some c, w, st1)" and "cent_ok c" and "\<not> has (ce_flags c) DF_LOCAL"
    and "T_MIN \<le> tp" and "tp \<le> T_MAX" and "0 < qts"
  shows "\<exists>fl. lookup_cache_status name tp qts p st = Some (if current qts tp c then RC_CACHED else RC_STALE, Some c, fl, p, st1)"
proof (cases "body c")
  case (Neg l ttl ts)
  then have "has (ce_flags c) DF_NEGATIVE" using assms(2) by (simp add: cent_ok_def)
  with Neg assms(1,3) show ?thesis by (simp add: lookup_cache_status_def)
next
  case (Recs mu ext)
  then have n: "\<not> has (ce_flags c) DF_NEGATIVE" using assms(2) by (simp add: cent_ok_def)
  have h0: "\<not> has (0 :: flags) CF_LOCAL" by (simp add: has_def)
  show ?thesis
    using Recs n h0 assms(1,3,6) qtype_order [OF assms(4,5)]
    by (cases "answering c tp")
      (auto simp: lookup_cache_status_def requery_flags_type [OF assms(2,4,5)] need_req_def Let_def)
qed

text \<open>
  What \<open>lookup_cache_status\<close> makes of an entry: a local entry that denies the name, or lies below a
  local name that denies it, is an error, any other local entry the answer; other entries are
  used or asked for again.
\<close>

definition decided :: "int \<Rightarrow> nat \<Rightarrow> wild \<Rightarrow> dns_cent \<Rightarrow> nat \<times> dns_cent option" where
  "decided qts tp w c =
     (if has (ce_flags c) DF_LOCAL
      then if has (ce_flags c) DF_NEGATIVE \<or> w = w_locnerr then (RC_NAMEERR, None) else (RC_OK, Some c)
      else (if current qts tp c then RC_CACHED else RC_STALE, Some c))"

lemma lookup_cache_status_decided:
  assumes "lookup_cache name True st = Some (Some c, w, st1)" and "copy_ok c" and "cache_inv st1"
    and "T_MIN \<le> tp" and "tp \<le> T_MAX" and "0 < qts"
  shows "\<exists>fl soa. lookup_cache_status name tp qts p st =
    Some (fst (decided qts tp w c), snd (decided qts tp w c), fl, soa, st1) \<and> (soa = p \<or> fst (decided qts tp w c) = RC_NAMEERR)"
proof (cases "has (ce_flags c) DF_LOCAL")
  case True
  have c: "cent_ok c" "detached c" using assms(2) by (simp_all add: copy_ok_def)
  obtain soa where soa: "local_c_soa c p st1 = Some soa" using local_c_soa_some [OF assms(2,3)] by blast
  have free: "free_cent c st1 = Some st1" by (rule free_cent_copy [OF assms(3) c])
  from True assms(1) soa free show ?thesis by (auto simp: lookup_cache_status_def decided_def)
next
  case False
  have "cent_ok c" using assms(2) by (simp add: copy_ok_def)
  with lookup_cache_status_type [OF assms(1) _ False assms(4-6), of p] False show ?thesis by (auto simp: decided_def)
qed

text \<open>
  C10: the requery decision for a query for one record type. A name that is not in the cache is to be
  asked for. A local entry is the answer, or a name error if it denies the name or lies below a local
  name that does. Any other entry is used as it is exactly if the set that answers the query (the
  alias if there is one, else the set of the type, else nothing) is local or not older than its time
  to live, at least \<open>CACHE_LAT\<close>, allows; a negative entry exactly if its own time has not run out.
  Otherwise the servers are to be asked again. A set stored as negative is treated like any other.
\<close>
theorem requery_decision:
  assumes "cache_inv st" and "data_ok st" and "dns_name ls" and "T_MIN \<le> tp" and "tp \<le> T_MAX" and "0 < qts"
  shows "\<exists>ret w st' rc cp fl soa. lookup_cache (enc ls @ q) True st = Some (ret, w, st') \<and>
    lookup_cache_status (enc ls @ q) tp qts p st = Some (rc, cp, fl, soa, st') \<and>
    (rc, cp) = (case ret of None \<Rightarrow> (RC_NOTCACHED, None) | Some c \<Rightarrow> decided qts tp w c) \<and>
    (soa = p \<or> rc = RC_NAMEERR)"
proof -
  from lookup_cache_copy [OF assms(1-3), of q True] obtain ae w st1 where
    l: "lookup_cache (enc ls @ q) True st = Some (ae, w, st1)" "cache_inv st1" "\<forall>c. ae = Some c \<longrightarrow> copy_ok c" .
  show ?thesis
  proof (cases ae)
    case None
    with l(1) show ?thesis by (auto simp: lookup_cache_status_def)
  next
    case (Some c)
    with l lookup_cache_status_decided [of "enc ls @ q" st c w st1 tp qts p] assms(4-6) show ?thesis
      by (cases "decided qts tp w c") auto
  qed
qed

theorem requery_decision_witness:
  "\<exists>st a c ret w st' rc cp fl soa. cents st a = Some c \<and> lookup_cache (enc [str ''a''] @ []) True st = Some (ret, w, st') \<and>
    lookup_cache_status (enc [str ''a''] @ []) T_A 1 None st = Some (rc, cp, fl, soa, st') \<and>
    (rc, cp) = (case ret of None \<Rightarrow> (RC_NOTCACHED, None) | Some c \<Rightarrow> decided 1 T_A w c)"
proof -
  obtain st a c where s: "add_cache (demo_cent 0) demo_cache = Some st" "cache_inv st" "cents st a = Some c"
    using demo_add by blast
  have "data_ok demo_cache" using demo_cache_ok(4) by (simp add: data_ok_def)
  from add_cache_typed [OF demo_cache_ok(1) this demo_cache_ok(2) demo_entry(1) parsed_cent_data [OF demo_typed]] s
  have d: "data_ok st" by auto
  have t: "T_MIN \<le> T_A" "T_A \<le> T_MAX" "0 < (1 :: int)" by (simp_all add: type_num_defs T_MIN_def T_MAX_def)
  from requery_decision [OF s(2) d demo_name(1) t, of "[]" None] s(3) show ?thesis by blast
qed

subsection \<open>Resolving\<close>

text \<open>What is relied on of the question to the servers, and of \<open>p_dns_resolve\<close>.\<close>

definition has_entry :: "nat \<Rightarrow> dns_cent option \<Rightarrow> bool" where
  "has_entry rc cp \<longleftrightarrow> (rc = RC_OK \<or> rc = RC_CACHED \<or> rc = RC_STALE \<longrightarrow> (\<exists>c. cp = Some c \<and> copy_ok c))"

definition asking_ok :: "asking \<Rightarrow> bool" where
  "asking_ok ask \<longleftrightarrow> (\<forall>ls q tp p st. dns_name ls \<longrightarrow> cache_inv st \<longrightarrow> data_ok st \<longrightarrow>
     returns (ask (enc ls @ q) tp p st) (\<lambda>(rc, cp, nocache, soa, st').
       cache_inv st' \<and> data_ok st' \<and> has_room st' \<and> (soa = None \<longleftrightarrow> p = None) \<and> has_entry rc cp))"

definition resolving_ok :: "resolving \<Rightarrow> bool" where
  "resolving_ok resolve \<longleftrightarrow> (\<forall>ls q tp p st. dns_name ls \<longrightarrow> cache_inv st \<longrightarrow> data_ok st \<longrightarrow>
     returns (resolve (enc ls @ q) tp p st) (\<lambda>(rc, cp, soa, st').
       cache_inv st' \<and> data_ok st' \<and> (soa = None \<longleftrightarrow> p = None) \<and> has_entry rc cp))"

lemma copy_new_entry: "copy_ok c \<Longrightarrow> new_entry c \<and> cent_data c"
  by (simp add: copy_ok_def new_entry_def)

lemma free_copy_cent: "cache_inv st \<Longrightarrow> copy_ok c \<Longrightarrow> free_cent c st = Some st"
  by (simp add: copy_ok_def free_cent_copy)

lemma free_cached_copy: "cache_inv st \<Longrightarrow> (\<And>x. c = Some x \<Longrightarrow> copy_ok x) \<Longrightarrow> free_cached c st = Some st"
  by (cases c) (simp_all add: free_cached_def free_copy_cent)

lemma add_and_merge:
  assumes "cache_inv st" and "data_ok st" and "has_room st" and "copy_ok c" and "dns_name ls"
  obtains st2 tc w st3 where "add_cache c st = Some st2" "lookup_cache (enc ls @ q) False st2 = Some (tc, w, st3)"
    "cache_inv st3" "data_ok st3" "\<forall>c. tc = Some c \<longrightarrow> copy_ok c"
proof -
  from copy_new_entry [OF assms(4)] have n: "new_entry c" "cent_data c" by simp_all
  from add_cache_typed [OF assms(1-3) n] obtain st2 where
    st2: "add_cache c st = Some st2" "cache_inv st2" "data_ok st2" .
  from lookup_cache_copy [OF st2(2,3) assms(5), of q False] obtain tc w st3 where
    "lookup_cache (enc ls @ q) False st2 = Some (tc, w, st3)" "cache_inv st3" "data_ok st3" "\<forall>c. tc = Some c \<longrightarrow> copy_ok c" .
  with that st2(1) show thesis by blast
qed

lemma asking_okE:
  assumes "asking_ok ask" and "dns_name ls" and "cache_inv st" and "data_ok st"
  obtains rc cp nc soa st1 where "ask (enc ls @ q) tp p st = Some (rc, cp, nc, soa, st1)"
    "cache_inv st1" "data_ok st1" "has_room st1" "soa = None \<longleftrightarrow> p = None" "has_entry rc cp"
proof -
  have "returns (ask (enc ls @ q) tp p st) (\<lambda>(rc, cp, nocache, soa, st').
       cache_inv st' \<and> data_ok st' \<and> has_room st' \<and> (soa = None \<longleftrightarrow> p = None) \<and> has_entry rc cp)"
    using assms unfolding asking_ok_def by blast
  then show thesis by (rule returnsE) (use that in auto)
qed

lemma resolving_okE:
  assumes "resolving_ok resolve" and "dns_name ls" and "cache_inv st" and "data_ok st"
  obtains rc cp soa st1 where "resolve (enc ls @ q) tp p st = Some (rc, cp, soa, st1)"
    "cache_inv st1" "data_ok st1" "soa = None \<longleftrightarrow> p = None" "has_entry rc cp"
proof -
  have "returns (resolve (enc ls @ q) tp p st) (\<lambda>(rc, cp, soa, st').
       cache_inv st' \<and> data_ok st' \<and> (soa = None \<longleftrightarrow> p = None) \<and> has_entry rc cp)"
    using assms unfolding resolving_ok_def by blast
  then show thesis by (rule returnsE) (use that in auto)
qed

lemma resolve_and_cache_ok:
  assumes "asking_ok ask"
  shows "resolving_ok (resolve_and_cache ask)"
  unfolding resolving_ok_def
proof (intro allI impI)
  fix ls q tp p st assume a: "dns_name ls" "cache_inv st" "data_ok st"
  from asking_okE [OF assms a, of q tp p] obtain rc cp nc soa st1 where
    r: "ask (enc ls @ q) tp p st = Some (rc, cp, nc, soa, st1)"
    "cache_inv st1" "data_ok st1" "has_room st1" "soa = None \<longleftrightarrow> p = None" "has_entry rc cp" .
  show "returns (resolve_and_cache ask (enc ls @ q) tp p st) (\<lambda>(rc, cp, soa, st').
       cache_inv st' \<and> data_ok st' \<and> (soa = None \<longleftrightarrow> p = None) \<and> has_entry rc cp)"
  proof (cases "rc = RC_OK \<and> \<not> nc")
    case True
    with r(6) obtain c where c: "cp = Some c" "copy_ok c" by (auto simp: has_entry_def)
    from add_and_merge [OF r(2,3,4) c(2) a(1), of q] obtain st2 tc w st3 where
      m: "add_cache c st1 = Some st2" "lookup_cache (enc ls @ q) False st2 = Some (tc, w, st3)"
      "cache_inv st3" "data_ok st3" "\<forall>c. tc = Some c \<longrightarrow> copy_ok c" .
    have f: "free_cent c st3 = Some st3" by (rule free_copy_cent [OF m(3) c(2)])
    show ?thesis
      using True r(1,5) c m f by (cases tc) (simp_all add: resolve_and_cache_def has_entry_def)
  next
    case False
    have "resolve_and_cache ask (enc ls @ q) tp p st =
        (if rc = RC_OK then do { c \<leftarrow> cp; Some (rc, Some c, soa, st1) }
         else Some (rc, if rc = RC_CACHED \<or> rc = RC_STALE then cp else None, soa, st1))"
      using False r(1) by (simp add: resolve_and_cache_def)
    with r(2,3,5,6) show ?thesis by (auto simp: has_entry_def)
  qed
qed

lemma p_dns_cached_resolve_ok:
  assumes "resolving_ok resolve" and "dns_name ls" and "cache_inv st" and "data_ok st"
  shows "returns (p_dns_cached_resolve linkdown resolve (enc ls @ q) tp qts p st) (\<lambda>(rc, cp, soa, st').
       cache_inv st' \<and> data_ok st' \<and> (soa = None \<longleftrightarrow> p = None) \<and> has_entry rc cp)"
proof -
  from lookup_cache_status_spec [OF assms(3,4,2), of q tp qts p] obtain rc cp fl soa st1 where
    s: "lookup_cache_status (enc ls @ q) tp qts p st = Some (rc, cp, fl, soa, st1)" and
    ok: "status_ok (rc, cp, fl, soa, st1)" and sp: "soa = None \<longleftrightarrow> p = None" by blast
  from ok have st1: "cache_inv st1" "data_ok st1" and cp: "\<And>c. cp = Some c \<Longrightarrow> copy_ok c"
    and rc: "case cp of None \<Rightarrow> rc = RC_NAMEERR \<or> rc = RC_NOTCACHED | Some c \<Rightarrow> rc = RC_OK \<or> rc = RC_CACHED \<or> rc = RC_STALE"
    by (auto simp: status_ok_def split: option.splits)
  have f1: "free_cached cp st1 = Some st1" by (rule free_cached_copy [OF st1(1) cp])
  from resolving_okE [OF assms(1,2) st1, of q tp soa] obtain rc' cp' soa' st2 where
    r: "resolve (enc ls @ q) tp soa st1 = Some (rc', cp', soa', st2)"
    "cache_inv st2" "data_ok st2" "soa' = None \<longleftrightarrow> soa = None" "has_entry rc' cp'" .
  have f2: "free_cached cp st2 = Some st2" by (rule free_cached_copy [OF r(2) cp])
  have e: "has_entry rc cp" if "cp \<noteq> None \<or> rc = RC_NAMEERR" for rc
    using that cp by (cases cp) (auto simp: has_entry_def)
  consider "rc = RC_OK" | "rc = RC_NAMEERR"
    | "rc \<noteq> RC_OK" "rc \<noteq> RC_NAMEERR" "linkdown \<and> \<not> has fl CF_LOCAL"
    | "rc = RC_CACHED" "\<not> (linkdown \<and> \<not> has fl CF_LOCAL)"
    | "rc \<noteq> RC_OK" "rc \<noteq> RC_NAMEERR" "rc \<noteq> RC_CACHED" "\<not> (linkdown \<and> \<not> has fl CF_LOCAL)" by blast
  then show ?thesis
  proof cases
    case 5
    have a: "p_dns_cached_resolve linkdown resolve (enc ls @ q) tp qts p st =
       (if rc' = RC_OK \<or> rc' = RC_CACHED \<or> rc' = RC_STALE then Some (rc', cp', soa', st2)
        else if rc' = RC_SERVFAIL \<and> cp \<noteq> None \<and> has fl CF_NOPURGE then Some (RC_STALE, cp, soa', st2)
        else Some (rc', None, soa', st2))"
      using 5 s r(1) f2 by (auto simp: p_dns_cached_resolve_def)
    show ?thesis unfolding a using r(2-5) sp e [of RC_STALE] by (auto simp: has_entry_def)
  next
    case 1
    then have "cp \<noteq> None" using rc by (auto split: option.splits)
    with e [of RC_CACHED] have "has_entry RC_CACHED cp" by blast
    with 1 s st1 sp show ?thesis by (simp add: p_dns_cached_resolve_def)
  next
    case 2
    with s st1 sp show ?thesis by (simp add: p_dns_cached_resolve_def has_entry_def RC_NAMEERR_def RC_OK_def RC_CACHED_def RC_STALE_def)
  next
    case 3
    with s st1 sp f1 show ?thesis
      by (simp add: p_dns_cached_resolve_def has_entry_def RC_SERVFAIL_def RC_OK_def RC_CACHED_def RC_STALE_def)
  next
    case 4
    then have "cp \<noteq> None" using rc by (auto simp: RC_CACHED_def RC_NAMEERR_def RC_NOTCACHED_def split: option.splits)
    with e [of RC_CACHED] have "has_entry RC_CACHED cp" by blast
    with 4 s st1 sp show ?thesis by (auto simp: p_dns_cached_resolve_def)
  qed
qed

lemma r_dns_cached_resolve_ok:
  assumes "resolving_ok resolve" and "dns_name ls" and "cache_inv st" and "data_ok st"
  obtains rc cp soa st1 where "r_dns_cached_resolve linkdown resolve (enc ls @ q) tp qts p st = Some (rc, cp, soa, st1)"
    "cache_inv st1" "data_ok st1" "soa = None \<longleftrightarrow> p = None"
    "rc = RC_OK \<longrightarrow> (\<exists>c. cp = Some c \<and> copy_ok c \<and> \<not> has (ce_flags c) DF_NEGATIVE)" "rc \<noteq> RC_CACHED \<and> rc \<noteq> RC_STALE"
proof -
  from p_dns_cached_resolve_ok [OF assms, of linkdown q tp qts p] obtain rc cp soa st1 where
    r: "p_dns_cached_resolve linkdown resolve (enc ls @ q) tp qts p st = Some (rc, cp, soa, st1)"
    "cache_inv st1" "data_ok st1" "soa = None \<longleftrightarrow> p = None" "has_entry rc cp" by (rule returnsE) auto
  show thesis
  proof (cases "rc = RC_OK \<or> rc = RC_CACHED \<or> rc = RC_STALE")
    case False
    with r have "r_dns_cached_resolve linkdown resolve (enc ls @ q) tp qts p st = Some (rc, None, soa, st1)"
      by (simp add: r_dns_cached_resolve_def)
    with that r False show thesis by blast
  next
    case True
    with r(5) obtain c where c: "cp = Some c" "copy_ok c" by (auto simp: has_entry_def)
    show thesis
    proof (cases "has (ce_flags c) DF_NEGATIVE")
      case True
      with \<open>rc = RC_OK \<or> rc = RC_CACHED \<or> rc = RC_STALE\<close> r c free_copy_cent [OF r(2) c(2)]
      have "r_dns_cached_resolve linkdown resolve (enc ls @ q) tp qts p st =
          Some (RC_NAMEERR, None, map_option (\<lambda>x. c_soa c) soa, st1)"
        by (auto simp: r_dns_cached_resolve_def)
      with that r show thesis by (simp add: RC_NAMEERR_def RC_OK_def RC_CACHED_def RC_STALE_def)
    next
      case False
      with \<open>rc = RC_OK \<or> rc = RC_CACHED \<or> rc = RC_STALE\<close> r c
      have "r_dns_cached_resolve linkdown resolve (enc ls @ q) tp qts p st = Some (RC_OK, Some c, soa, st1)"
        by (auto simp: r_dns_cached_resolve_def)
      with that r c(2) False show thesis by (simp add: RC_OK_def RC_CACHED_def RC_STALE_def)
    qed
  qed
qed

text \<open>The resolver that \<open>dns_answer.c\<close> uses, on top of a question to the servers per call.\<close>

definition resolver_of :: "bool \<Rightarrow> (nat \<Rightarrow> resolving) \<Rightarrow> int \<Rightarrow> resolver" where
  "resolver_of linkdown resolve queryts n name qtype soa st =
     (case r_dns_cached_resolve linkdown (resolve n) name qtype queryts (Some soa) st of
        Some (rc, c, Some soa', st') \<Rightarrow> (rc, c, soa', st')
      | _ \<Rightarrow> (RC_FATALERR, None, soa, st))"

lemma resolver_of_ok:
  assumes "\<And>n. resolving_ok (resolve n)"
  shows "resolver_ok (resolver_of linkdown resolve qts)"
  unfolding resolver_ok_def
proof (intro allI impI)
  fix n ls q qtype soa st rc c soa' st'
  assume a: "dns_name ls" "cache_inv st" "data_ok st"
    and r: "resolver_of linkdown resolve qts n (enc ls @ q) qtype soa st = (rc, c, soa', st')"
  from r_dns_cached_resolve_ok [OF assms a, of linkdown n q qtype qts "Some soa"] obtain rc2 cp soa2 st1 where
    s: "r_dns_cached_resolve linkdown (resolve n) (enc ls @ q) qtype qts (Some soa) st = Some (rc2, cp, soa2, st1)"
    "cache_inv st1" "data_ok st1" "soa2 = None \<longleftrightarrow> Some soa = None"
    "rc2 = RC_OK \<longrightarrow> (\<exists>c. cp = Some c \<and> copy_ok c \<and> \<not> has (ce_flags c) DF_NEGATIVE)" .
  then obtain x where "soa2 = Some x" by blast
  with r s show "cache_inv st' \<and> data_ok st' \<and> (rc = RC_OK \<longrightarrow> (\<exists>ce. c = Some ce \<and> copy_ok ce))"
    by (auto simp: resolver_of_def)
qed

end
