(* ===== verification/Cache_Room.thy ===== *)
theory Cache_Room
  imports Cache_Typed
begin

text \<open>
  How many items the list of purgeable items can hold: \<open>sort_rrl\<close> has room for \<open>2 ^ NTMPSORT\<close>. The
  weight of the cache is the number of record sets and negative entries; it bounds the length of the
  list, an addition raises it by at most \<open>NRRTOT\<close>, and lookups and purges do not raise it.
\<close>

definition cent_weight :: "dns_cent \<Rightarrow> nat" where
  "cent_weight c = (if is_neg (body c) then 1 else card {i. i < NRRTOT \<and> slot c i \<noteq> None})"

definition cache_weight :: "cache \<Rightarrow> nat" where
  "cache_weight st = (\<Sum>a \<in> dom (cents st). cent_weight (the (cents st a)))"

text \<open>Room for \<open>n\<close> more entries.\<close>

definition room :: "nat \<Rightarrow> cache \<Rightarrow> bool" where
  "room n st \<longleftrightarrow> cache_weight st + NRRTOT * n < 2 ^ NTMPSORT"

lemma cent_weight_le: "cent_weight c \<le> NRRTOT"
proof (cases "is_neg (body c)")
  case False
  have "card {i. i < NRRTOT \<and> slot c i \<noteq> None} \<le> card {..<NRRTOT}" by (intro card_mono) auto
  with False show ?thesis by (simp add: cent_weight_def)
qed (simp add: cent_weight_def nrr_defs)

lemma cent_weight_pur: "pur_ent c c' \<Longrightarrow> cent_weight c' \<le> cent_weight c"
  unfolding cent_weight_def pur_ent_def by (auto intro!: card_mono)

lemma dom_cents_finite: "cache_inv st \<Longrightarrow> finite (dom (cents st))"
  by (auto simp: cache_inv_def core_def heap_ok_def intro: finite_subset)

lemma card_items_of: "card (lents_of a c) \<le> cent_weight c"
proof (cases "body c")
  case (Neg l ttl ts)
  then have "lents_of a c \<subseteq> {(a, -1)}" by (auto simp: lents_of_def split: option.splits)
  from card_mono [OF _ this] Neg show ?thesis by (simp add: cent_weight_def)
next
  case (Recs mu ext)
  then have "lents_of a c \<subseteq> (\<lambda>i. (a, int i)) ` {i. i < NRRTOT \<and> slot c i \<noteq> None}" by (auto simp: lents_of_def)
  then have "card (lents_of a c) \<le> card ((\<lambda>i. (a, int i)) ` {i. i < NRRTOT \<and> slot c i \<noteq> None})" by (intro card_mono) auto
  also have "\<dots> \<le> card {i. i < NRRTOT \<and> slot c i \<noteq> None}" by (intro card_image_le) simp
  finally show ?thesis using Recs by (simp add: cent_weight_def)
qed

lemma length_rrset_l:
  assumes "cache_inv st"
  shows "length (rrset_l st) \<le> cache_weight st"
proof -
  have co: "heap_ok st" using assms by (simp add: cache_inv_def core_def)
  then have d: "distinct (rrset_l st)" by (simp add: heap_ok_def)
  have "set (rrset_l st) \<subseteq> (\<Union>a \<in> dom (cents st). lents_of a (the (cents st a)))"
  proof
    fix le assume le: "le \<in> set (rrset_l st)"
    then have "fst le \<in> dom (cents st)" using co unfolding heap_ok_def by blast
    then obtain c where c: "cents st (fst le) = Some c" by blast
    then have "lents_of (fst le) c = mine (fst le) (rrset_l st)" using co by (simp add: heap_ok_def cok_def)
    then have "le \<in> lents_of (fst le) c" using le by (simp add: mine_def)
    with c show "le \<in> (\<Union>a \<in> dom (cents st). lents_of a (the (cents st a)))" by force
  qed
  moreover have "finite (lents_of a c)" for a c
  proof (rule finite_subset)
    show "lents_of a c \<subseteq> {a} \<times> ({-1} \<union> int ` {..<NRRTOT})" by (auto simp: lents_of_def split: cent_body.splits option.splits)
  qed simp
  ultimately have "card (set (rrset_l st)) \<le> card (\<Union>a \<in> dom (cents st). lents_of a (the (cents st a)))"
    using dom_cents_finite [OF assms] by (intro card_mono) auto
  also have "\<dots> \<le> (\<Sum>a \<in> dom (cents st). card (lents_of a (the (cents st a))))"
    by (rule card_UN_le [OF dom_cents_finite [OF assms]])
  also have "\<dots> \<le> cache_weight st"
    unfolding cache_weight_def by (intro sum_mono card_items_of)
  finally show ?thesis using distinct_card [OF d] by simp
qed

lemma room_has_room: "cache_inv st \<Longrightarrow> room n st \<Longrightarrow> 0 < n \<Longrightarrow> has_room st"
  using length_rrset_l [of st] by (cases n) (simp_all add: room_def has_room_def)

lemma weight_pur:
  assumes "pur st st'" and "finite (dom (cents st))"
  shows "cache_weight st' \<le> cache_weight st"
proof -
  have s: "dom (cents st') \<subseteq> dom (cents st)" using assms(1) by (fastforce simp: pur_def)
  have "cache_weight st' \<le> (\<Sum>a \<in> dom (cents st'). cent_weight (the (cents st a)))"
    unfolding cache_weight_def
  proof (rule sum_mono)
    fix a assume "a \<in> dom (cents st')"
    with s obtain c c' where "cents st a = Some c" "cents st' a = Some c'" by blast
    with assms(1) have "pur_ent c c'" unfolding pur_def by force
    with \<open>cents st a = Some c\<close> \<open>cents st' a = Some c'\<close> show "cent_weight (the (cents st' a)) \<le> cent_weight (the (cents st a))"
      by (simp add: cent_weight_pur)
  qed
  also have "\<dots> \<le> cache_weight st" unfolding cache_weight_def by (intro sum_mono2 assms(2) s) simp
  finally show ?thesis .
qed

lemma weight_remove:
  assumes "cents st' = (cents st)(a := None)" and "finite (dom (cents st))"
  shows "cache_weight st' \<le> cache_weight st"
proof -
  have "dom (cents st') = dom (cents st) - {a}" using assms(1) by auto
  then have "cache_weight st' = (\<Sum>b \<in> dom (cents st) - {a}. cent_weight (the (cents st' b)))"
    by (simp add: cache_weight_def)
  also have "\<dots> = (\<Sum>b \<in> dom (cents st) - {a}. cent_weight (the (cents st b)))"
    using assms(1) by (intro sum.cong) auto
  also have "\<dots> \<le> cache_weight st" unfolding cache_weight_def by (intro sum_mono2 assms(2)) auto
  finally show ?thesis .
qed

lemma weight_upd:
  assumes "cents st' = (cents st)(a \<mapsto> c)" and "finite (dom (cents st))"
  shows "cache_weight st' \<le> cache_weight st + NRRTOT"
proof -
  let ?D = "dom (cents st) - {a}"
  have d: "dom (cents st') = insert a ?D" using assms(1) by auto
  have "cache_weight st' = cent_weight (the (cents st' a)) + (\<Sum>b \<in> ?D. cent_weight (the (cents st' b)))"
    unfolding cache_weight_def d using assms(2) by (intro sum.insert) auto
  also have "the (cents st' a) = c" using assms(1) by simp
  finally have "cache_weight st' = cent_weight c + (\<Sum>b \<in> ?D. cent_weight (the (cents st' b)))" .
  moreover have "(\<Sum>b \<in> ?D. cent_weight (the (cents st' b))) = (\<Sum>b \<in> ?D. cent_weight (the (cents st b)))"
    using assms(1) by (intro sum.cong) auto
  moreover have "\<dots> \<le> cache_weight st" unfolding cache_weight_def by (intro sum_mono2 assms(2)) auto
  ultimately show ?thesis using cent_weight_le [of c] by simp
qed

lemma weight_add_outcome:
  assumes "add_outcome cent st st'" and "cache_inv st"
  shows "cache_weight st' \<le> cache_weight st + NRRTOT"
proof -
  note fin = dom_cents_finite [OF assms(2)]
  have entered: "cache_weight s' \<le> cache_weight s + NRRTOT"
    if "not_entered s s' \<or> was_entered cent s s'" "finite (dom (cents s))" for s s'
    using that(1)
  proof
    assume "not_entered s s'"
    then have "cache_weight s' \<le> cache_weight s" using that(2) by (simp add: not_entered_def weight_pur)
    then show ?thesis by simp
  next
    assume "was_entered cent s s'"
    then obtain a c s5 where w: "cents s5 = (cents s)(a \<mapsto> c)" "pur s5 s'" "cache_inv s5" unfolding was_entered_def by blast
    with weight_upd [OF w(1) that(2)] weight_pur [OF w(2) dom_cents_finite [OF w(3)]] show ?thesis by simp
  qed
  from assms(1) consider "not_entered st st' \<or> was_entered cent st st'" | a where "refreshed cent a st st'"
    | a st1 where "cents st1 = (cents st)(a := None)" "cache_inv st1" "not_entered st1 st' \<or> was_entered cent st1 st'"
    unfolding add_outcome_def by blast
  then show ?thesis
  proof cases
    case 1
    then show ?thesis using entered fin by blast
  next
    case (2 a)
    then obtain c st4 where w: "cents st4 = (cents st)(a \<mapsto> c)" "pur st4 st'" "cache_inv st4" unfolding refreshed_def by blast
    with weight_upd [OF w(1) fin] weight_pur [OF w(2) dom_cents_finite [OF w(3)]] show ?thesis by simp
  next
    case (3 a st1)
    with entered [OF 3(3) dom_cents_finite [OF 3(2)]] weight_remove [OF 3(1) fin] show ?thesis by simp
  qed
qed

text \<open>Adding an entry to a cache with room.\<close>

lemma add_cache_room:
  assumes "cache_inv st" and "data_ok st" and "room (Suc n) st" and "new_entry cent" and "cent_data cent"
  obtains st' where "add_cache cent st = Some st'" "add_outcome cent st st'" "cache_inv st'" "data_ok st'" "room n st'"
proof -
  have r: "has_room st" using room_has_room [OF assms(1,3)] by simp
  from assms(1,4) r add_cache_spec [of st cent] obtain st' where st': "add_cache cent st = Some st'" "add_outcome cent st st'"
    by (auto simp: new_entry_def has_room_def)
  have "room n st'" using assms(3) weight_add_outcome [OF st'(2) assms(1)] by (simp add: room_def)
  with that [OF st' add_outcome_inv [OF st'(2)] data_ok_add_outcome [OF st'(2) assms(2,5)]] show thesis by blast
qed

lemma room_pur: "room n st \<Longrightarrow> pur st st' \<Longrightarrow> cache_inv st \<Longrightarrow> room n st'"
  using weight_pur [of st st'] dom_cents_finite [of st] by (simp add: room_def)

lemma room_mem [simp]: "room n (st\<lparr>mem := m\<rparr>) = room n st"
  by (simp add: room_def cache_weight_def)

lemma room_mono: "room n st \<Longrightarrow> m \<le> n \<Longrightarrow> room m st"
  unfolding room_def by (meson add_le_cancel_left mult_le_mono2 order_le_less_trans)

end
