(* ===== verification/Query_Records.thy ===== *)
theory Query_Records
  imports Query_Reply Query_Exec_Correct Query_Cached_Correct Cache_Room
begin

text \<open>
  Reading the records of a reply: the operations on the entries made from them, and the three
  sections, are defined on every message.
\<close>

subsection \<open>Entries made by the parser\<close>

lemma parsed_refs [simp]: "parsed (c\<lparr>c_ns := x\<rparr>) = parsed c" "parsed (c\<lparr>c_soa := x\<rparr>) = parsed c"
  by (simp_all add: parsed_def cent_ok_def detached_def lents_of_def recs_of_def)

lemma parsed_ok: "parsed c \<Longrightarrow> cent_ok c"
  by (simp add: parsed_def)

lemma parsed_new: "parsed c \<Longrightarrow> new_entry c" "parsed c \<Longrightarrow> cent_data c" "parsed c \<Longrightarrow> copy_ok c"
  by (simp_all add: parsed_cent_data copy_ok_def) (simp_all add: parsed_def new_entry_def)

lemma parsed_name: "parsed c \<Longrightarrow> \<exists>ls. qname c = enc ls \<and> dns_name ls"
  by (simp add: parsed_def cent_ok_def)

lemma parsed_data: "parsed c \<Longrightarrow> set_at c tp = Some s \<Longrightarrow> d \<in> set (rs_rrs s) \<Longrightarrow> rdata_ok tp d"
  using parsed_cent_data set_at_data by blast

lemma free_parsed_all: "\<forall>c \<in> set es. parsed c \<Longrightarrow> distinct (rrset_l st) \<Longrightarrow> fold_opt free_cent es st = Some st"
  by (induction es) (simp_all add: free_parsed)

text \<open>Making an entry negative.\<close>

lemma has_either: "has (x OR y) f \<longleftrightarrow> has x f \<or> has y f"
  by (auto simp: has_def bit_eq_iff bit_simps)

lemma del_rrsets_detached: "\<forall>v \<in> set ss. \<not> linked v \<Longrightarrow> del_rrsets ss st = Some (sets_size ss, st)"
proof (induction ss)
  case (Cons v ss)
  then have IH: "del_rrsets ss st = Some (sets_size ss, st)" by simp
  show ?case
  proof (cases v)
    case None
    with IH show ?thesis by (simp add: slot_size_def)
  next
    case (Some s)
    with Cons.prems have "rs_lent s = None" by (cases "rs_lent s") (auto simp: linked_def)
    with IH Some show ?thesis by (simp add: del_rrset_def slot_size_def)
  qed
qed (simp add: sets_size_def)

lemma negate_parsed:
  assumes "parsed c"
  shows "\<exists>c'. negate_cent c ttl ts st = Some (c', st) \<and> parsed c' \<and> qname c' = qname c \<and> is_neg (body c')"
proof -
  have ok: "cent_ok c" "detached c" "body_ok (body c)" using assms by (simp_all add: parsed_def cent_ok_def)
  have neg: "has (ce_flags c OR DF_NEGATIVE) DF_NEGATIVE" by (simp add: has_either) (simp add: has_def df_defs)
  have loc: "has (ce_flags c OR DF_NEGATIVE) DF_LOCAL = has (ce_flags c) DF_LOCAL" by (simp add: has_either) (simp add: has_def df_defs)
  show ?thesis
  proof (cases "body c")
    case (Neg l ttl' ts')
    then have "has (ce_flags c) DF_NEGATIVE" "l = None" using ok by (simp_all add: cent_ok_def detached_iff)
    with Neg have r: "negate_cent c ttl ts st = Some (c\<lparr>body := Neg None ttl ts\<rparr>, st)" by (simp add: negate_cent_def)
    have "parsed (c\<lparr>body := Neg None ttl ts\<rparr>)"
      using assms Neg by (auto simp: parsed_def cent_ok_def detached_def lents_of_def recs_of_def ext_size_def cached_type_def)
    with r show ?thesis by simp
  next
    case (Recs mu ext)
    let ?e = "case ext of None \<Rightarrow> [] | Some e \<Rightarrow> e"
    have n: "\<not> has (ce_flags c) DF_NEGATIVE" using ok(1) Recs by (simp add: cent_ok_def)
    have un: "\<forall>i < NRRTOT. \<not> linked (slot c i)" using ok by (simp add: detached_iff)
    have "\<forall>v \<in> set (slots (body c)). \<not> linked v" using un ok(1) by (auto simp: in_set_conv_nth)
    with Recs have u: "\<forall>v \<in> set mu. \<not> linked v" "\<forall>v \<in> set ?e. \<not> linked v" by (auto split: option.splits)
    let ?c = "c\<lparr>cs := cs c - sets_size mu - sets_size ?e - (if ext = None then 0 else sizeof_rrext), num_rrs := 0,
       ce_flags := ce_flags c OR DF_NEGATIVE, body := Neg None ttl ts\<rparr>"
    have r: "negate_cent c ttl ts st = Some (?c, st)"
      using n Recs del_rrsets_detached [OF u(1), of st] del_rrsets_detached [OF u(2), of st] by (simp add: negate_cent_def)
    have size: "sets_size (replicate k None) = 0" for k by (induction k) (simp_all add: sets_size_def slot_size_def)
    have count: "sets_count (replicate k None) = 0" for k by (induction k) simp_all
    have "cs ?c = sizeof_dns_cent + int (length (qname ?c))"
      using ok(1) Recs size by (auto simp: cent_ok_def ext_size_def sets_size_def split: option.splits)
    then have "cent_ok ?c" using ok(1) neg by (simp add: cent_ok_def ext_size_def size count)
    moreover have "detached ?c" by (simp add: detached_def lents_of_def)
    moreover have "recs_of ?c = {}" by (auto simp: recs_of_def cached_type_def)
    ultimately have "parsed ?c" using assms loc by (simp add: parsed_def)
    with r show ?thesis by simp
  qed
qed

text \<open>A negative record set.\<close>

lemma add_set_parsed:
  assumes "parsed c" and "distinct (rrset_l st)" and "cached_type tp" and "set_at c tp = None"
  shows "\<exists>ok c' m. add_cent_rrset_by_type c (int tp) ttl ts fl st = Some (ok, c', st\<lparr>mem := m\<rparr>) \<and> parsed c' \<and> qname c' = qname c"
proof -
  have ok: "cent_ok c" "detached c" using assms(1) by (simp_all add: parsed_def)
  have t: "T_MIN \<le> tp" "tp \<le> T_MAX" "rr_idx tp < NRRTOT" using assms(3) by (simp_all add: cached_type_def)
  obtain a where a: "mine a (rrset_l st) = {}" using fresh_owner by blast
  have none: "slot c (rr_idx tp) = None" using assms(3,4) by (simp add: set_at_def)
  from add_cent_rrset_spec [OF detached_cok [OF ok assms(2) a] t(3) none, of ttl ts fl] obtain b c' st' where
    r: "add_cent_rrset_by_index c (rr_idx tp) ttl ts fl st = Some (b, c', st')" "cok a c' st'" "frame a st st'"
      "\<not> is_neg (body c')" "same_head c c'"
      "slots (body c') = (if b then (slots (body c))[rr_idx tp := Some (fresh_set ttl ts fl)] else slots (body c))" by blast
  have b: "body_ok (body c)" "cent_ok c'" "body_ok (body c')" using ok(1) cok_cent_ok [OF r(2)] by (simp_all add: cent_ok_def)
  have un: "\<forall>i < NRRTOT. \<not> linked (slot c i)" using ok(2) b(1) by (simp add: detached_iff)
  have "\<not> linked (slot c' i)" if "i < NRRTOT" for i
    using un that ok(1) t(3) r(6) by (cases "i = rr_idx tp") (auto simp: linked_def fresh_set_def split: if_splits)
  then have d: "detached c'" using b(3) r(4) by (subst detached_iff) auto
  have "recs_of c' \<subseteq> recs_of c"
    using r(6) ok(1) t(3) by (auto simp: recs_of_def fresh_set_def cached_type_def nth_list_update split: if_splits)
  then have p: "parsed c'" using assms(1) b(2) d has_local_head [OF r(5)] unfolding parsed_def by blast
  from detached_frame [OF r(3,2) d a] obtain m where "st' = st\<lparr>mem := m\<rparr>" by blast
  moreover have i: "nat (int tp - int T_MIN) = tp - T_MIN" "0 \<le> int tp - int T_MIN" "int tp - int T_MIN < int T_NUM"
    using t(1,2) by (simp_all add: nat_diff_distrib T_NUM_def T_MIN_def T_MAX_def)
  moreover have "add_cent_rrset_by_type c (int tp) ttl ts fl st = Some (b, c', st')"
    using r(1) i rd_rrlkuptab [of tp] t(1,2) by (simp add: add_cent_rrset_by_type_def Let_def)
  moreover have "qname c' = qname c" using r(5) by (simp add: same_head_def)
  ultimately show ?thesis using p by blast
qed

subsection \<open>Reading the sections\<close>

lemma rrs2cent_spec:
  assumes "parse_ok msg p"
  obtains rc p' where "rrs2cent msg (length msg) n fl queryts p = Some (rc, p')" "parse_step p p'"
    "rc \<noteq> RC_FATALERR \<longrightarrow> arr_grows n (p_centa p) (p_centa p')"
    "rc = RC_OK \<and> p_ptr p' + p_lcnt p' = p_ptr p + p_lcnt p \<or> parse_err p rc"
proof -
  have "parse_ok msg (p\<lparr>p_retval := RC_OK\<rparr>)" using assms by (simp add: parse_ok_def)
  from rrs_loop_spec [OF this, of n fl queryts] that show thesis
    unfolding rrs2cent_def parse_step_def parse_err_def by auto
qed

lemma parse_err_not_ok: "parse_err p rc \<Longrightarrow> rc \<noteq> RC_OK"
  by (auto simp: parse_err_def rc2_defs)

definition parse_code :: "nat \<Rightarrow> bool" where
  "parse_code rc \<longleftrightarrow> rc = RC_OK \<or> rc = RC_FORMAT \<or> rc = RC_TRUNC \<or> rc = RC_FATALERR"

lemma parse_err_code: "parse_err p rc \<Longrightarrow> parse_code rc"
  by (auto simp: parse_err_def parse_code_def)

lemma arr_entries:
  assumes "arr_ok a"
  shows "entries a = Some (cent_entries a)" "\<forall>c \<in> set (cent_entries a). parsed c"
  using assms map_opt_id by (auto simp: arr_ok_def entries_def cent_entries_list)

text \<open>One section: an earlier error is passed on.\<close>

definition sec_post :: "nat \<Rightarrow> bytes \<Rightarrow> parse \<Rightarrow> nat \<times> parse \<Rightarrow> bool" where
  "sec_post n msg p = (\<lambda>(rv, p'). parse_code rv \<and> arr_ok (p_centa p') \<and> (\<exists>m. p_st p' = (p_st p)\<lparr>mem := m\<rparr>) \<and>
     (rv = RC_OK \<longrightarrow> p_ptr p' + p_lcnt p' \<le> length msg) \<and>
     (rv \<noteq> RC_FATALERR \<longrightarrow> length (cent_entries (p_centa p')) \<le> n))"

lemma read_section_post:
  assumes "parse_code rv" and "rv = RC_OK \<Longrightarrow> p_ptr p + p_lcnt p \<le> length msg" and "distinct (rrset_l (p_st p))"
  shows "\<exists>rv' p'. read_section msg (length msg) cnt fl queryts rv p = Some (rv', p') \<and> sec_post cnt msg p (rv', p') \<and>
    (rv \<noteq> RC_OK \<longrightarrow> rv' = rv)"
proof -
  let ?p = "p\<lparr>p_centa := None, p_numopt := 0\<rparr>"
  have st: "\<exists>m. p_st p = (p_st p)\<lparr>mem := m\<rparr>" by (intro exI [of _ "mem (p_st p)"]) simp
  have e0: "cent_entries None = []" by (simp add: cent_entries_def da_list_def)
  show ?thesis
  proof (cases "rv = RC_OK \<and> cnt \<noteq> 0")
    case False
    then show ?thesis using assms(1,2) st e0 by (auto simp: read_section_def sec_post_def Let_def)
  next
    case True
    then have "parse_ok msg ?p" using assms by (simp add: parse_ok_def)
    then obtain rc p' where r: "rrs2cent msg (length msg) cnt fl queryts ?p = Some (rc, p')" "parse_step ?p p'"
      "rc \<noteq> RC_FATALERR \<longrightarrow> arr_grows cnt (p_centa ?p) (p_centa p')"
      "rc = RC_OK \<and> p_ptr p' + p_lcnt p' = p_ptr ?p + p_lcnt ?p \<or> parse_err ?p rc"
      by (rule rrs2cent_spec [where n = cnt and fl = fl and queryts = queryts])
    have "sec_post cnt msg p (rc, p')"
      using r(2-4) assms(2) True parse_err_not_ok [of ?p rc] parse_err_code [of ?p rc] e0
      by (auto simp: sec_post_def parse_step_def arr_grows_def parse_code_def)
    with True r(1) show ?thesis by (simp add: read_section_def)
  qed
qed

definition all_cents :: "sections \<Rightarrow> dns_cent list" where
  "all_cents secs = ans_sec secs @ auth_sec secs @ add_sec secs"

text \<open>The first entry of the answer section is the one for the name that was asked for.\<close>

definition secs_ok :: "bytes list \<Rightarrow> sections \<Rightarrow> bool" where
  "secs_ok ls secs \<longleftrightarrow> (\<forall>c \<in> set (all_cents secs). parsed c) \<and> (\<exists>e es. ans_sec secs = e # es \<and> qname e = enc ls)"

lemma read_sections_ok:
  assumes "arr_ok a" and "cent_entries a = [e]" and "qname e = enc ls" and "rrp + lcnt \<le> length buf" and "distinct (rrset_l (w_cache w))"
  shows "\<exists>rv rcode st' secs m. read_sections buf (length buf) h fl queryts a rrp lcnt st w =
      Some (rv, rcode, st', secs, w\<lparr>w_cache := (w_cache w)\<lparr>mem := m\<rparr>\<rparr>) \<and>
    parse_code rv \<and> (\<exists>n. st' = st\<lparr>q_failed := n\<rparr>) \<and> (\<forall>c \<in> set (all_cents secs). parsed c) \<and>
    (rv \<noteq> RC_FATALERR \<longrightarrow> secs_ok ls secs \<and> length (all_cents secs) \<le> 3 * 2 ^ 16)"
proof -
  let ?p = "\<lparr>p_ptr = rrp, p_lcnt = lcnt, p_centa = a, p_numopt = 0, p_ep = no_edns_info, p_retval = 0, p_st = w_cache w\<rparr>"
  have "parse_ok buf ?p" using assms(1,4,5) by (simp add: parse_ok_def)
  then obtain rv1 p1 where r1: "rrs2cent buf (length buf) (unat (h_ancount h)) fl queryts ?p = Some (rv1, p1)" "parse_step ?p p1"
    "rv1 \<noteq> RC_FATALERR \<longrightarrow> arr_grows (unat (h_ancount h)) (p_centa ?p) (p_centa p1)"
    "rv1 = RC_OK \<and> p_ptr p1 + p_lcnt p1 = p_ptr ?p + p_lcnt ?p \<or> parse_err ?p rv1"
    by (rule rrs2cent_spec [where n = "unat (h_ancount h)" and fl = fl and queryts = queryts])
  obtain m1 where m1: "p_st p1 = (w_cache w)\<lparr>mem := m1\<rparr>" using r1(2) by (auto simp: parse_step_def)
  have c1: "parse_code rv1" using r1(4) parse_err_code by (auto simp: parse_code_def)
  have i1: "p_ptr p1 + p_lcnt p1 \<le> length buf" if "rv1 = RC_OK" using r1(4) parse_err_not_ok that assms(4) by auto
  have d1: "distinct (rrset_l (p_st p1))" using m1 assms(5) by simp
  from read_section_post [OF c1 i1 d1, of "unat (h_nscount h)" "fl OR CF_ADDITIONAL" queryts] obtain rv2 p2 where
    r2: "read_section buf (length buf) (unat (h_nscount h)) (fl OR CF_ADDITIONAL) queryts rv1 p1 = Some (rv2, p2)"
    "sec_post (unat (h_nscount h)) buf p1 (rv2, p2)" "rv1 \<noteq> RC_OK \<longrightarrow> rv2 = rv1" by blast
  obtain m2 where m2: "p_st p2 = (w_cache w)\<lparr>mem := m2\<rparr>" using r2(2) m1 by (auto simp: sec_post_def)
  have c2: "parse_code rv2" and i2: "rv2 = RC_OK \<Longrightarrow> p_ptr p2 + p_lcnt p2 \<le> length buf"
    using r2(2) by (auto simp: sec_post_def)
  have d2: "distinct (rrset_l (p_st p2))" using m2 assms(5) by simp
  from read_section_post [OF c2 i2 d2, of "unat (h_arcount h)" "fl OR CF_ADDITIONAL" queryts] obtain rv3 p3 where
    r3: "read_section buf (length buf) (unat (h_arcount h)) (fl OR CF_ADDITIONAL) queryts rv2 p2 = Some (rv3, p3)"
    "sec_post (unat (h_arcount h)) buf p2 (rv3, p3)" "rv2 \<noteq> RC_OK \<longrightarrow> rv3 = rv2" by blast
  obtain m3 where m3: "p_st p3 = (w_cache w)\<lparr>mem := m3\<rparr>" using r3(2) m2 by (auto simp: sec_post_def)
  have ok: "arr_ok (p_centa p1)" "arr_ok (p_centa p2)" "arr_ok (p_centa p3)"
    using r1(2) r2(2) r3(2) by (auto simp: parse_step_def sec_post_def)
  let ?secs = "\<lparr>ans_sec = cent_entries (p_centa p1), auth_sec = cent_entries (p_centa p2), add_sec = cent_entries (p_centa p3)\<rparr>"
  let ?changed = "rv2 = RC_OK \<and> p_numopt p3 \<noteq> 0 \<and> unat (h_rcode h) \<noteq> unat (ei_rcode (p_ep p3))"
  let ?st = "if ?changed \<and> q_failed st = 0 then st\<lparr>q_failed := 1\<rparr> else st"
  have run: "read_sections buf (length buf) h fl queryts a rrp lcnt st w =
      Some (rv3, if ?changed then unat (ei_rcode (p_ep p3)) else unat (h_rcode h), ?st, ?secs, w\<lparr>w_cache := (w_cache w)\<lparr>mem := m3\<rparr>\<rparr>)"
    using r1(1) r2(1) r3(1) arr_entries(1) [OF ok(1)] arr_entries(1) [OF ok(2)] arr_entries(1) [OF ok(3)] m3
    by (simp add: read_sections_def Let_def)
  have p: "\<forall>c \<in> set (all_cents ?secs). parsed c"
    using arr_entries(2) [OF ok(1)] arr_entries(2) [OF ok(2)] arr_entries(2) [OF ok(3)] by (auto simp: all_cents_def)
  have st: "\<exists>n. (if b then st\<lparr>q_failed := 1\<rparr> else st) = st\<lparr>q_failed := n\<rparr>" for b
    by (intro exI [of _ "if b then 1 else q_failed st"]) simp
  have u: "unat x \<le> 65535" for x :: "16 word"
  proof -
    have "unat x < 2 ^ LENGTH(16)" by (rule unsigned_less)
    then show ?thesis by simp
  qed
  have "secs_ok ls ?secs \<and> length (all_cents ?secs) \<le> 3 * 2 ^ 16" if f: "rv3 \<noteq> RC_FATALERR"
  proof -
    have nf: "rv2 \<noteq> RC_FATALERR" "rv1 \<noteq> RC_FATALERR" using f r3(3) r2(3) by (auto simp: rc2_defs)
    have g: "arr_grows (unat (h_ancount h)) a (p_centa p1)" using r1(3) nf(2) by simp
    then obtain t where t: "map qname (cent_entries (p_centa p1)) = enc ls # t" using assms(2,3) by (auto simp: arr_grows_def prefix_def)
    have "length (cent_entries (p_centa p1)) \<le> 65536" "length (cent_entries (p_centa p2)) \<le> 65535" "length (cent_entries (p_centa p3)) \<le> 65535"
      using g assms(2) r2(2) r3(2) f nf u [of "h_ancount h"] u [of "h_nscount h"] u [of "h_arcount h"]
      by (simp_all add: arr_grows_def sec_post_def)
    moreover have "\<exists>e es. cent_entries (p_centa p1) = e # es \<and> qname e = enc ls" using t by (auto simp: map_eq_Cons_conv)
    ultimately show ?thesis using p by (simp add: secs_ok_def all_cents_def)
  qed
  moreover have "parse_code rv3" using r3(2) by (simp add: sec_post_def)
  moreover obtain k where k: "?st = st\<lparr>q_failed := k\<rparr>" using st by blast
  ultimately show ?thesis unfolding run k using p by blast
qed

end
