(* ===== verification/Query_Reply_Correct.thy ===== *)
theory Query_Reply_Correct
  imports Query_Records
begin

text \<open>
  Judging a reply: the policies of the configuration are decided, the entry for the question and the
  list of name servers are made, and entries enter the cache, without an undefined operation.
\<close>

subsection \<open>References\<close>

lemma domain_match_eq [simp]:
  assumes "dns_name a" and "dns_name b"
  shows "domain_match (enc a @ r) (enc b @ s) =
    Some (common_labels a b, length (enc_labels (take (length a - common_labels a b) a)),
      length (enc_labels (take (length b - common_labels a b) b)))"
  using domain_match_enc [of a b r s] dns_name_segments assms dns_name_labels_ok by fastforce

lemmas domain_match_eq0 [simp] = domain_match_eq [where r = "[]" and s = "[]", simplified]

lemma match_auth_ok:
  assumes "parsed ce" and "parsed c"
  shows "returns (match_auth n ce c) (\<lambda>c'. parsed c' \<and> qname c' = qname c)"
proof -
  from parsed_name [OF assms(1)] parsed_name [OF assms(2)] obtain a b where
    "qname ce = enc a" "dns_name a" "qname c = enc b" "dns_name b" by blast
  moreover have "T_NS \<in> set is_cached" "T_SOA \<in> set is_cached" by (simp_all add: is_cached_def type_num_defs)
  ultimately show ?thesis using assms parsed_ok [OF assms(1)] by (simp add: match_auth_def Let_def)
qed

lemma set_refs_ok:
  assumes "\<forall>ce \<in> set auth. parsed ce" and "parsed c"
  shows "returns (set_refs qtype n k auth c) (\<lambda>c'. parsed c' \<and> qname c' = qname c)"
proof -
  from parsed_name [OF assms(2)] obtain ls where ls: "qname c = enc ls" "dns_name ls" by blast
  have t: "T_NS \<in> set is_cached" "T_SOA \<in> set is_cached" by (simp_all add: is_cached_def type_num_defs)
  define c1 where "c1 = (if set_at c T_NS \<noteq> None then c\<lparr>c_ns := of_nat (length ls)\<rparr> else c)"
  define c2 where "c2 = (if set_at c T_SOA \<noteq> None then c1\<lparr>c_soa := of_nat (length ls)\<rparr> else c1)"
  have p: "parsed c1" "parsed c2" "qname c2 = qname c" using assms(2) by (simp_all add: c1_def c2_def)
  have f: "returns (fold_opt (match_auth n) auth c2) (\<lambda>c'. parsed c' \<and> qname c' = qname c)"
  proof (rule fold_opt_inv)
    show "parsed c2 \<and> qname c2 = qname c" using p by simp
    show "returns (match_auth n x s) (\<lambda>c'. parsed c' \<and> qname c' = qname c)"
      if "x \<in> set auth" "parsed s \<and> qname s = qname c" for x s
      using match_auth_ok [of x s n] assms(1) that by simp
  qed
  have "getrrset_X c T_NS = Some (set_at c T_NS)" "getrrset_X c T_SOA = Some (set_at c T_SOA)" "getrrset c2 (int qtype) = Some (set_at c2 qtype)"
    "rhnsegcnt (qname c) = Some (length ls)"
    using t ls parsed_ok [OF assms(2)] parsed_ok [OF p(1)] parsed_ok [OF p(2)] by (simp_all add: dns_name_labels_ok)
  then have e: "set_refs qtype n k auth c =
      (if QT_MIN \<le> qtype \<and> qtype \<le> QT_MAX \<or> set_at c2 qtype \<noteq> None \<or> k = 1 \<and> num_rrs c2 = 0
       then fold_opt (match_auth n) auth c2 else Some c2)"
    by (simp only: set_refs_def bind.bind_lunit Let_def c1_def [symmetric] c2_def [symmetric])
  show ?thesis unfolding e using f p by simp
qed

lemma set_refs_all:
  assumes "\<forall>ce \<in> set auth. parsed ce" and "\<forall>c \<in> set es. parsed c"
  obtains es' where "map_opt (set_refs qtype n k auth) es = Some es'" "\<forall>c \<in> set es'. parsed c" "map qname es' = map qname es"
proof -
  have "\<exists>es'. map_opt (set_refs qtype n k auth) es = Some es' \<and> list_all2 (\<lambda>c c'. parsed c' \<and> qname c' = qname c) es es'"
    using assms set_refs_ok by (intro map_opt_inv) blast
  then obtain es' where e: "map_opt (set_refs qtype n k auth) es = Some es'" "list_all2 (\<lambda>c c'. parsed c' \<and> qname c' = qname c) es es'" by blast
  have "\<forall>c \<in> set es'. parsed c" "map qname es' = map qname es"
    using e(2) by (induction es es' rule: list_all2_induct) auto
  with that e(1) show thesis by blast
qed

subsection \<open>Rejected addresses and delegation\<close>

lemma rejected_addr_some: "length d = n \<Longrightarrow> \<exists>b. rejected_addr n ams d = Some b"
  by (auto simp: rejected_addr_def rd_all_def)

lemma rejected_cent_some:
  assumes "parsed c"
  shows "\<exists>b. rejected_cent rl c = Some b"
proof -
  have t: "T_A \<in> set is_cached" "T_AAAA \<in> set is_cached" by (simp_all add: is_cached_def type_num_defs)
  have "\<exists>b. any_opt (rejected_addr 4 (rl_a4 rl)) (rs_rrs s) = Some b" if "set_at c T_A = Some s" for s
    using parsed_data [OF assms that] by (intro any_opt_some rejected_addr_some) (auto simp: rdata_ok_def)
  moreover have "\<exists>b. any_opt (rejected_addr 16 (rl_a6 rl)) (rs_rrs s) = Some b" if "set_at c T_AAAA = Some s" for s
    using parsed_data [OF assms that] by (intro any_opt_some rejected_addr_some) (auto simp: rdata_ok_def)
  ultimately show ?thesis
    using t parsed_ok [OF assms] by (fastforce simp: rejected_cent_def split: option.split)
qed

lemma reject_answer_some:
  assumes "\<forall>c \<in> set (all_cents secs). parsed c"
  shows "\<exists>b. reject_answer st secs = Some b \<and> (b \<longrightarrow> q_rejectlist st \<noteq> None)"
proof (cases "q_rejectlist st")
  case (Some rl)
  have "\<exists>b. any_opt (rejected_cent rl) (ans_sec secs @ auth_sec secs @ add_sec secs) = Some b"
    using assms rejected_cent_some by (intro any_opt_some) (auto simp: all_cents_def)
  with Some show ?thesis by (auto simp: reject_answer_def)
qed (simp add: reject_answer_def)

lemma zone_of_some:
  assumes "\<forall>z \<in> set zones. \<exists>l. dns_name l \<and> z = enc l" and "dns_name ls"
  shows "\<exists>r. zone_of (enc ls @ q) zones = Some r"
  using assms(1)
proof (induction zones)
  case (Cons z zones)
  then obtain l where "z = enc l" "dns_name l" by auto
  with Cons assms(2) domain_match_eq [OF assms(2), of l q "[]"] show ?case by simp
qed simp

lemma find_delegation_some:
  assumes "\<forall>z \<in> set zones. \<exists>l. dns_name l \<and> z = enc l" and "\<forall>c \<in> set es. parsed c"
  shows "\<exists>b n. find_delegation zones es k = Some (b, n)"
  using assms(2)
proof (induction es arbitrary: k)
  case (Cons c es)
  have t: "T_NS \<in> set is_cached" "T_SOA \<in> set is_cached" by (simp_all add: is_cached_def type_num_defs)
  have p: "parsed c" using Cons.prems by simp
  then obtain ls where ls: "qname c = enc ls" "dns_name ls" using parsed_name by blast
  obtain r where r: "zone_of (enc ls) zones = Some r" using zone_of_some [OF assms(1) ls(2), of "[]"] by auto
  show ?case using Cons t parsed_ok [OF p] ls(1) r by simp
qed simp

lemma missing_delegation_some:
  assumes "\<forall>z \<in> set (deleg_only_zones cf). \<exists>l. dns_name l \<and> z = enc l" and "\<forall>c \<in> set (all_cents secs). parsed c" and "dns_name ls"
  shows "\<exists>b n. missing_delegation cf (enc ls @ q) secs = Some (b, n)"
proof -
  obtain r where r: "zone_of (enc ls @ q) (deleg_only_zones cf) = Some r" using zone_of_some [OF assms(1,3)] by blast
  obtain b n where "find_delegation (deleg_only_zones cf) (ans_sec secs @ auth_sec secs) 0 = Some (b, n)"
    using find_delegation_some [OF assms(1), of "ans_sec secs @ auth_sec secs" 0] assms(2) by (auto simp: all_cents_def)
  with r show ?thesis by (simp add: missing_delegation_def)
qed

subsection \<open>Negative caching\<close>

lemma lookup_cent_array_some:
  assumes "\<forall>c \<in> set es. parsed c" and "dns_name ls"
  shows "\<exists>r. lookup_cent_array es (enc ls @ q) = Some r \<and> (\<forall>c. r = Some c \<longrightarrow> c \<in> set es)"
  unfolding lookup_cent_array_def
proof (rule first_opt_some)
  fix c assume "c \<in> set es"
  with assms(1) obtain l where "qname c = enc l" "dns_name l" using parsed_name by blast
  then show "\<exists>b. rhnicmp (qname c) (enc ls @ q) = Some b"
    using rhnicmp_enc [of l ls "[]" q] assms(2) by (simp add: dns_name_labels_ok)
qed

lemma soa_minimum_some:
  assumes "rdata_ok T_SOA d"
  shows "\<exists>x. soa_minimum d = Some x"
proof -
  from assms obtain a b t where d: "dns_name a" "dns_name b" "length t = 20" "d = enc a @ enc b @ t"
    unfolding rdata_ok_def by (elim exE conjE) (auto simp: type_num_defs)
  define p where "p = length (enc a) + length (enc b) + 4 * 4"
  have k: "skiprhn d 0 = Some (length (enc a))" "skiprhn d (length (enc a)) = Some (length (enc a) + length (enc b))"
    using skiprhn_enc [of a "[]" "enc b @ t"] skiprhn_enc [of b "enc a" t] d by (simp_all add: dns_name_labels_ok)
  have "p + 4 \<le> length d" using d(3) by (simp add: p_def d(4))
  then obtain m where "GETINT32 d p = Some (m, p + 4)" using GETINT32_some [of p d] by blast
  with k show ?thesis by (simp add: soa_minimum_def p_def)
qed

lemma soa_ttl_some:
  assumes "parsed c"
  shows "\<exists>t. soa_ttl (set_at c T_SOA) = Some t"
proof (cases "set_at c T_SOA")
  case (Some s)
  show ?thesis
  proof (cases "rs_rrs s")
    case (Cons d ds)
    then obtain x where "soa_minimum d = Some x" using soa_minimum_some parsed_data [OF assms Some] by fastforce
    with Some Cons show ?thesis by (simp add: soa_ttl_def)
  qed (simp add: soa_ttl_def Some)
qed (simp add: soa_ttl_def)

lemma soa_cached: "T_SOA \<in> set is_cached"
  by (simp add: is_cached_def type_num_defs)

lemma neg_ttls_some:
  assumes "dns_name ls" and "parsed e" and "\<forall>c \<in> set auth. parsed c"
  shows "\<exists>t. name_error_ttl (enc ls @ q) e auth nt = Some t" "\<exists>t. neg_set_ttl (enc ls @ q) e auth nt = Some t"
proof -
  have n: "rhnsegcnt (enc ls @ q) = Some (length ls)" "skipsegs (enc ls @ q) 0 k = Some (length (enc_labels (take k ls)))" for k
    using dns_name_labels_ok [OF assms(1)] by (simp_all add: skipsegs_enc)
  have l: "\<exists>r. lookup_cent_array auth (drop (length (enc_labels (take k ls))) (enc ls @ q)) = Some r \<and> (\<forall>c. r = Some c \<longrightarrow> c \<in> set auth)" for k
    unfolding drop_enc_labels by (rule lookup_cent_array_some [OF assms(3) dns_name_drop [OF assms(1)]])
  have l0: "\<exists>r. lookup_cent_array auth (enc ls @ q) = Some r \<and> (\<forall>c. r = Some c \<longrightarrow> c \<in> set auth)"
    by (rule lookup_cent_array_some [OF assms(3,1)])
  have s: "\<exists>t. getrrset_X c T_SOA = Some (set_at c T_SOA) \<and> soa_ttl (set_at c T_SOA) = Some t" if "c \<in> set auth \<or> c = e" for c
    using that assms(2,3) parsed_ok soa_cached soa_ttl_some by auto
  have c: "\<exists>t. (case r of None \<Rightarrow> Some nt | Some c \<Rightarrow>
      do { s \<leftarrow> getrrset_X c T_SOA; t \<leftarrow> soa_ttl s; Some (case t of None \<Rightarrow> nt | Some x \<Rightarrow> x) }) = Some t"
    if "\<forall>c. r = Some c \<longrightarrow> c \<in> set auth" for r
  proof (cases r)
    case (Some a)
    with that obtain t where "getrrset_X a T_SOA = Some (set_at a T_SOA)" "soa_ttl (set_at a T_SOA) = Some t" using s by blast
    with Some show ?thesis by simp
  qed simp
  show "\<exists>t. name_error_ttl (enc ls @ q) e auth nt = Some t"
  proof (cases "c_soa e \<noteq> cundef \<and> unat (c_soa e) < length ls")
    case True
    obtain r where "lookup_cent_array auth (drop (length (enc_labels (take (length ls - unat (c_soa e)) ls))) (enc ls @ q)) = Some r"
      "\<forall>c. r = Some c \<longrightarrow> c \<in> set auth" using l by blast
    with c [of r] True n show ?thesis by (simp add: name_error_ttl_def)
  qed (auto simp: name_error_ttl_def n)
  obtain t where t: "getrrset_X e T_SOA = Some (set_at e T_SOA)" "soa_ttl (set_at e T_SOA) = Some t" using s by blast
  show "\<exists>t. neg_set_ttl (enc ls @ q) e auth nt = Some t"
  proof (cases t)
    case (Some x)
    with t show ?thesis by (simp add: neg_set_ttl_def)
  next
    case None
    define p where "p = (if c_soa e \<noteq> cundef \<and> unat (c_soa e) < length ls then length (enc_labels (take (length ls - unat (c_soa e)) ls)) else 0)"
    have "\<exists>r. lookup_cent_array auth (drop p (enc ls @ q)) = Some r \<and> (\<forall>c. r = Some c \<longrightarrow> c \<in> set auth)"
      using l l0 by (auto simp: p_def)
    then obtain r where r: "lookup_cent_array auth (drop p (enc ls @ q)) = Some r" "\<forall>c. r = Some c \<longrightarrow> c \<in> set auth" by blast
    have "(if c_soa e \<noteq> cundef \<and> unat (c_soa e) < length ls then skipsegs (enc ls @ q) 0 (length ls - unat (c_soa e)) else Some 0) = Some p"
      by (simp add: p_def n(2))
    with t None n(1) r c [OF r(2)] show ?thesis by (simp add: neg_set_ttl_def)
  qed
qed

definition thint_ok :: "nat \<Rightarrow> bool" where
  "thint_ok tp \<longleftrightarrow> (T_MIN \<le> tp \<and> tp \<le> T_MAX \<longrightarrow> cached_type tp)"

lemma neg_rrset_ok:
  assumes "dns_name ls" and "parsed e" and "\<forall>c \<in> set auth. parsed c" and "thint_ok tp" and "distinct (rrset_l c)"
  shows "\<exists>ok e' m. neg_rrset cf (enc ls @ q) tp fl queryts st auth e c = Some (ok, e', c\<lparr>mem := m\<rparr>) \<and> parsed e' \<and> qname e' = qname e"
proof -
  obtain t where t: "neg_set_ttl (enc ls @ q) e auth (neg_ttl c) = Some t" using neg_ttls_some(2) [OF assms(1-3)] by blast
  have m: "\<exists>m. c = c\<lparr>mem := m\<rparr>" by (intro exI [of _ "mem c"]) simp
  define b where "b \<longleftrightarrow> T_MIN \<le> tp \<and> tp \<le> T_MAX \<and> set_at e tp = None \<and> \<not> q_tc st \<and> q_failed st \<le> 1 \<and>
      (neg_rrs_pol cf = C_ON \<or> neg_rrs_pol cf = C_AUTH \<and> (q_aa st \<and> \<not> q_tc st) \<or>
       neg_rrs_pol cf = C_DEFAULT \<and> ((q_aa st \<and> \<not> q_tc st) \<or> q_ra st))"
  have e: "neg_rrset cf (enc ls @ q) tp fl queryts st auth e c =
      (if b then add_cent_rrset_by_type e (int tp) t queryts (CF_NEGATIVE OR fl) c else Some (True, e, c))"
    unfolding neg_rrset_def getrrset_set_at [OF parsed_ok [OF assms(2)]] by (simp only: bind.bind_lunit Let_def t b_def)
  show ?thesis
  proof (cases b)
    case True
    then have "cached_type tp" "set_at e tp = None" using assms(4) by (simp_all add: thint_ok_def b_def)
    from add_set_parsed [OF assms(2,5) this, of t queryts "CF_NEGATIVE OR fl"] True show ?thesis by (simp add: e)
  next
    case False
    with m assms(2) show ?thesis by (auto simp: e)
  qed
qed

subsection \<open>The list of name servers\<close>

text \<open>An item is a domain, or 0xff for the last one, and the name of a server.\<close>

definition ns_item :: "bytes \<Rightarrow> bool" where
  "ns_item p \<longleftrightarrow> (\<exists>o1 ls. dns_name ls \<and> p = o1 @ enc ls \<and> (o1 = [0xff] \<or> (\<exists>d. dns_name d \<and> o1 = enc d)))"

lemma enc_head: "dns_name d \<Longrightarrow> \<exists>b r. enc d = b # r \<and> b \<noteq> 0xff \<and> (b = 0 \<longleftrightarrow> d = [])"
proof -
  assume d: "dns_name d"
  show ?thesis
  proof (cases d)
    case (Cons l ls)
    have l: "0 < length l" "length l \<le> 63" using d Cons by (auto simp: dns_name_def)
    have "unat (of_nat (length l) :: byte) = length l" using l by (simp add: unat_of_nat)
    then have "(of_nat (length l) :: byte) \<noteq> 0xff" "(of_nat (length l) :: byte) \<noteq> 0" using l by (auto simp: word_unat_eq_iff)
    with Cons show ?thesis by (simp add: enc_def)
  qed (simp add: enc_def)
qed

lemma ns_known_some:
  assumes "\<forall>p \<in> set ns. ns_item p" and "dns_name ls"
  shows "\<exists>b. ns_known (enc ls @ q) ns = Some b"
  unfolding ns_known_def
proof (rule any_opt_some)
  fix p assume "p \<in> set ns"
  with assms(1) obtain o1 l where p: "dns_name l" "p = o1 @ enc l" "o1 = [0xff] \<or> (\<exists>d. dns_name d \<and> o1 = enc d)"
    unfolding ns_item_def by blast
  have c: "\<exists>b. rhnicmp (enc l) (enc ls @ q) = Some b"
    using rhnicmp_enc [of l ls "[]" q] p(1) assms(2) by (simp add: dns_name_labels_ok)
  show "\<exists>b. do {
     b \<leftarrow> rd p 0;
     off \<leftarrow> (if b = 0xff then Some 1 else skiprhn p 0);
     rhnicmp (drop off p) (enc ls @ q) } = Some b"
    using p(3)
  proof
    assume "o1 = [0xff]"
    with p(2) c show ?thesis by (simp add: rd_def)
  next
    assume "\<exists>d. dns_name d \<and> o1 = enc d"
    then obtain d where d: "dns_name d" "o1 = enc d" by blast
    then obtain b r where b: "enc d = b # r" "b \<noteq> 0xff" using enc_head by blast
    have "skiprhn p 0 = Some (length (enc d))"
      using skiprhn_enc [of d "[]" "enc l"] d p(2) by (simp add: dns_name_labels_ok)
    moreover have "rd p 0 = Some b" using p(2) d(2) b(1) by (simp add: rd_def)
    moreover have "drop (length (enc d)) p = enc l" using p(2) d(2) by simp
    ultimately show ?thesis using b(2) c by simp
  qed
qed

end
