(* ===== verification/Query_Bailiwick.thy ===== *)
theory Query_Bailiwick
  imports Query_Reply_Correct
begin

text \<open>
  What the records of a reply may change in the cache: an untrusted server that was asked for names
  of a domain changes no entry outside this domain, other than through purges.
\<close>

definition in_domain :: "bytes list \<Rightarrow> bytes \<Rightarrow> bool" where
  "in_domain d nm \<longleftrightarrow> (\<exists>ls. dns_name ls \<and> nm = enc ls \<and> common_labels d ls = length d)"

definition guarded :: "bytes list \<Rightarrow> cache \<Rightarrow> cache \<Rightarrow> bool" where
  "guarded d st st' \<longleftrightarrow>
     (\<forall>a c'. cents st' a = Some c' \<longrightarrow> in_domain d (qname c') \<or> (\<exists>c. cents st a = Some c \<and> pur_ent c c')) \<and>
     (\<forall>a c. cents st a = Some c \<longrightarrow> \<not> in_domain d (qname c) \<longrightarrow> Cache_Purge_Ent.kept c \<longrightarrow>
        (\<exists>c'. cents st' a = Some c' \<and> pur_ent c c'))"

lemma pur_ent_qname: "pur_ent c c' \<Longrightarrow> qname c' = qname c"
  by (simp add: pur_ent_def)

lemma guardedD:
  assumes "guarded d st st'"
  shows "cents st' a = Some c' \<Longrightarrow> \<not> in_domain d (qname c') \<Longrightarrow> \<exists>c. cents st a = Some c \<and> pur_ent c c'"
    and "cents st a = Some c \<Longrightarrow> \<not> in_domain d (qname c) \<Longrightarrow> Cache_Purge_Ent.kept c \<Longrightarrow> \<exists>c'. cents st' a = Some c' \<and> pur_ent c c'"
  using assms unfolding guarded_def by blast+

lemma guardedI:
  assumes "\<And>a c'. cents st' a = Some c' \<Longrightarrow> \<not> in_domain d (qname c') \<Longrightarrow> \<exists>c. cents st a = Some c \<and> pur_ent c c'"
    and "\<And>a c. cents st a = Some c \<Longrightarrow> \<not> in_domain d (qname c) \<Longrightarrow> Cache_Purge_Ent.kept c \<Longrightarrow> \<exists>c'. cents st' a = Some c' \<and> pur_ent c c'"
  shows "guarded d st st'"
  using assms unfolding guarded_def by blast

lemma guarded_refl [simp]: "guarded d st st"
  by (rule guardedI) auto

lemma guarded_trans:
  assumes "guarded d st st'" and "guarded d st' st''"
  shows "guarded d st st''"
proof (rule guardedI)
  fix a c'' assume c: "cents st'' a = Some c''" "\<not> in_domain d (qname c'')"
  from guardedD(1) [OF assms(2) c] obtain c' where c': "cents st' a = Some c'" "pur_ent c' c''" by blast
  with c(2) have "\<not> in_domain d (qname c')" using pur_ent_qname by metis
  from guardedD(1) [OF assms(1) c'(1) this] c'(2) show "\<exists>c. cents st a = Some c \<and> pur_ent c c''"
    by (blast intro: pur_ent_trans)
next
  fix a c assume c: "cents st a = Some c" "\<not> in_domain d (qname c)" "Cache_Purge_Ent.kept c"
  from guardedD(2) [OF assms(1) c] obtain c' where c': "cents st' a = Some c'" "pur_ent c c'" by blast
  with c(2,3) have "\<not> in_domain d (qname c')" "Cache_Purge_Ent.kept c'" using pur_ent_qname pur_ent_kept by metis+
  from guardedD(2) [OF assms(2) c'(1) this] c'(2) show "\<exists>c''. cents st'' a = Some c'' \<and> pur_ent c c''"
    by (blast intro: pur_ent_trans)
qed

lemma guarded_pur:
  assumes "pur st st'"
  shows "guarded d st st'"
proof (rule guardedI)
  fix a c' assume c': "cents st' a = Some c'"
  then have "cents st a \<noteq> None" using assms unfolding pur_def by (metis option.distinct(1))
  then obtain c where "cents st a = Some c" by blast
  moreover from this have "pur_ent c c'" using assms c' unfolding pur_def by fastforce
  ultimately show "\<exists>c. cents st a = Some c \<and> pur_ent c c'" by blast
next
  fix a c assume c: "cents st a = Some c" "Cache_Purge_Ent.kept c"
  with assms show "\<exists>c'. cents st' a = Some c' \<and> pur_ent c c'"
    unfolding pur_def by (cases "cents st' a") fastforce+
qed

text \<open>A change of one entry of the domain.\<close>

lemma guarded_at:
  assumes "\<And>b. b \<noteq> a \<Longrightarrow> cents st' b = cents st b"
    and "\<And>c. cents st a = Some c \<Longrightarrow> in_domain d (qname c)" and "\<And>c. cents st' a = Some c \<Longrightarrow> in_domain d (qname c)"
  shows "guarded d st st'"
proof (rule guardedI)
  fix b c' assume c: "cents st' b = Some c'" "\<not> in_domain d (qname c')"
  then have "b \<noteq> a" using assms(3) by blast
  with assms(1) c(1) show "\<exists>c. cents st b = Some c \<and> pur_ent c c'" by auto
next
  fix b c assume c: "cents st b = Some c" "\<not> in_domain d (qname c)"
  then have "b \<noteq> a" using assms(2) by blast
  with assms(1) c(1) show "\<exists>c'. cents st' b = Some c' \<and> pur_ent c c'" by auto
qed

lemma common_labels_fold: "fold_case a = fold_case b \<Longrightarrow> common_labels d a = common_labels d b"
  by (simp add: common_labels_def)

text \<open>The entry that \<open>add_cache\<close> looks for has the name of the new one.\<close>

lemma owns_domain:
  assumes "owns cent a st" and "in_domain d (qname cent)" and "cents st a = Some c"
  shows "in_domain d (qname c)"
proof -
  from assms(1) obtain nm where nm: "dns_name nm" "qname cent = enc nm" "names nm (qname_at st) a"
    by (auto simp: owns_def stored_def)
  from nm(3) assms(3) obtain ls where ls: "qname c = enc ls" "dns_name ls" "fold_case ls = fold_case nm"
    by (auto simp: names_def qname_at_def)
  from assms(2) nm(1,2) have "common_labels d nm = length d" unfolding in_domain_def by (metis dns_enc_inj)
  with ls common_labels_fold [OF ls(3), of d] show ?thesis unfolding in_domain_def by auto
qed

lemma guarded_entered:
  assumes "not_entered st st' \<or> was_entered cent st st'" and "in_domain d (qname cent)"
  shows "guarded d st st'"
  using assms(1)
proof
  assume "not_entered st st'"
  then show ?thesis by (simp add: not_entered_def guarded_pur)
next
  assume "was_entered cent st st'"
  then obtain a c st5 where w: "cents st a = None" "cents st5 = (cents st)(a \<mapsto> c)" "qname c = qname cent" "pur st5 st'"
    unfolding was_entered_def stored_as_def by blast
  have "guarded d st st5" by (rule guarded_at [where a = a]) (use w assms(2) in auto)
  then show ?thesis using guarded_pur [OF w(4)] by (rule guarded_trans)
qed

lemma guarded_add_outcome:
  assumes "add_outcome cent st st'" and "in_domain d (qname cent)"
  shows "guarded d st st'"
proof -
  from assms(1) consider (entered) "not_entered st st' \<or> was_entered cent st st'"
    | (old) a where "refreshed cent a st st'" "owns cent a st"
    | (neg) a c st1 where "owns cent a st" "cents st a = Some c" "cents st1 = (cents st)(a := None)"
        "not_entered st1 st' \<or> was_entered cent st1 st'"
    unfolding add_outcome_def by blast
  then show ?thesis
  proof cases
    case entered
    then show ?thesis using assms(2) by (rule guarded_entered)
  next
    case (old a)
    then obtain c c1 c2 fl n m st4 where r: "cents st a = Some c" "pur_ent c c1" "merged st cent c1 c2"
      "cents st4 = (cents st)(a \<mapsto> c2\<lparr>ce_flags := fl, c_ns := n, c_soa := m\<rparr>)" "pur st4 st'"
      unfolding refreshed_def by blast
    have "in_domain d (qname c)" using owns_domain [OF old(2) assms(2) r(1)] .
    moreover have "qname c2 = qname c" using r(2,3) by (simp add: pur_ent_def merged_def same_head_def)
    ultimately have "guarded d st st4" by (intro guarded_at [where a = a]) (use r(1,4) in auto)
    then show ?thesis using guarded_pur [OF r(5)] by (rule guarded_trans)
  next
    case (neg a c st1)
    have "guarded d st st1"
      by (rule guarded_at [where a = a]) (use neg(2,3) owns_domain [OF neg(1) assms(2)] in auto)
    then show ?thesis using guarded_entered [OF neg(4) assms(2)] by (rule guarded_trans)
  qed
qed

subsection \<open>Entries from a reply\<close>

text \<open>The condition under which an untrusted server is restricted to a domain.\<close>

definition bail :: "query_stat \<Rightarrow> cache \<Rightarrow> cache \<Rightarrow> bool" where
  "bail st c c' \<longleftrightarrow> (\<forall>d q. \<not> q_trusted st \<longrightarrow> q_nsdomain st = Some (enc d @ q) \<longrightarrow> dns_name d \<longrightarrow> guarded d c c')"

lemma bail_refl [simp]: "bail st c c"
  by (simp add: bail_def)

lemma bail_trans: "bail st c c' \<Longrightarrow> bail st c' c'' \<Longrightarrow> bail st c c''"
  unfolding bail_def by (blast intro: guarded_trans)

lemma bail_mem [simp]: "bail st (c\<lparr>mem := m\<rparr>) c' = bail st c c'" "bail st c (c'\<lparr>mem := m\<rparr>) = bail st c c'"
  by (simp_all add: bail_def guarded_def)

definition domain_ok :: "query_stat \<Rightarrow> bool" where
  "domain_ok st \<longleftrightarrow> (\<forall>z. q_nsdomain st = Some z \<longrightarrow> (\<exists>d q. dns_name d \<and> z = enc d @ q))"

lemma in_bailiwick_spec:
  assumes "domain_ok st" and "dns_name ls"
  obtains b where "in_bailiwick st (enc ls) = Some b"
    "\<And>d q. \<lbrakk>b; \<not> q_trusted st; q_nsdomain st = Some (enc d @ q); dns_name d\<rbrakk> \<Longrightarrow> in_domain d (enc ls)"
proof (cases "q_trusted st \<or> q_nsdomain st = None")
  case True
  then show thesis by (intro that [of True]) (auto simp: in_bailiwick_def)
next
  case False
  then obtain z where z: "\<not> q_trusted st" "q_nsdomain st = Some z" by blast
  with assms(1) obtain d q where d: "dns_name d" "z = enc d @ q" by (auto simp: domain_ok_def)
  have len: "length (enc_labels (take k xs)) = 0 \<Longrightarrow> k = 0 \<or> xs = []" for k and xs :: "bytes list" by (cases k; cases xs) auto
  have run: "in_bailiwick st (enc ls) = Some (length (enc_labels (take (length d - common_labels d ls) d)) = 0)"
    using z d domain_match_eq [OF d(1) assms(2), of q "[]"] by (simp add: in_bailiwick_def)
  have "in_domain d' (enc ls)"
    if "length (enc_labels (take (length d - common_labels d ls) d)) = 0" "q_nsdomain st = Some (enc d' @ q')" "dns_name d'" for d' q'
  proof -
    have "enc d' @ q' = enc d @ q" using that(2) z(2) d(2) by simp
    then have "rhnlen (enc d' @ q') = rhnlen (enc d @ q)" by simp
    then have "length (enc d') = length (enc d)" using that(3) d(1) by (simp add: dns_name_labels_ok)
    with \<open>enc d' @ q' = enc d @ q\<close> have "d' = d" using that(3) d(1) dns_enc_inj by (metis append_eq_append_conv)
    moreover have "common_labels d ls = length d" using len [OF that(1)] common_labels_le(1) [of d ls] by auto
    ultimately show ?thesis using assms(2) by (auto simp: in_domain_def)
  qed
  with run show thesis by (intro that)
qed

definition cache_ready :: "nat \<Rightarrow> cache \<Rightarrow> bool" where
  "cache_ready n c \<longleftrightarrow> cache_inv c \<and> data_ok c \<and> room n c"

lemma cache_ready_mem [simp]: "cache_ready n (c\<lparr>mem := m\<rparr>) = cache_ready n c"
  by (simp add: cache_ready_def cache_inv_def data_ok_def)

lemma cache_ready_mono: "cache_ready n c \<Longrightarrow> m \<le> n \<Longrightarrow> cache_ready m c"
  using room_mono by (auto simp: cache_ready_def)

lemma cache_ready_distinct: "cache_ready n c \<Longrightarrow> distinct (rrset_l c)"
  by (simp add: cache_ready_def cache_inv_def core_def heap_ok_def)

lemma cache_cent_ok:
  assumes "cache_ready (Suc n) c" and "domain_ok st" and "parsed e"
  shows "returns (cache_cent st e c) (\<lambda>c'. cache_ready n c' \<and> bail st c c')"
proof -
  from parsed_name [OF assms(3)] obtain ls where ls: "qname e = enc ls" "dns_name ls" by blast
  obtain x r where x: "enc ls = x # r" using enc_head [OF ls(2)] by blast
  have keep: "cache_ready n c" using cache_ready_mono [OF assms(1)] by simp
  from in_bailiwick_spec [OF assms(2) ls(2)] obtain b where
    b: "in_bailiwick st (enc ls) = Some b"
      "\<And>d q. \<lbrakk>b; \<not> q_trusted st; q_nsdomain st = Some (enc d @ q); dns_name d\<rbrakk> \<Longrightarrow> in_domain d (enc ls)" by blast
  have run: "cache_cent st e c = (if (x \<noteq> 0 \<or> q_auth_serv st \<noteq> 2) \<and> b then add_cache e c else Some c)"
    using ls(1) b(1) x by (simp add: cache_cent_def rd_def)
  show ?thesis
  proof (cases "(x \<noteq> 0 \<or> q_auth_serv st \<noteq> 2) \<and> b")
    case True
    from assms(1) have "cache_inv c" "data_ok c" "room (Suc n) c" by (simp_all add: cache_ready_def)
    then obtain c' where c': "add_cache e c = Some c'" "add_outcome e c c'" "cache_inv c'" "data_ok c'" "room n c'"
      using parsed_new(1,2) [OF assms(3)] by (rule add_cache_room)
    have "bail st c c'"
      unfolding bail_def using b(2) True ls(1) guarded_add_outcome [OF c'(2)] by simp
    then have "returns (add_cache e c) (\<lambda>c'. cache_ready n c' \<and> bail st c c')"
      using c' by (simp add: cache_ready_def)
    with True show ?thesis unfolding run by simp
  next
    case False
    show ?thesis unfolding run if_not_P [OF False] using keep by simp
  qed
qed

lemma cache_cents_ok:
  assumes "cache_ready n c" and "domain_ok st" and "\<forall>e \<in> set es. parsed e" and "length es \<le> n"
  shows "returns (fold_opt (cache_cent st) es c) (\<lambda>c'. cache_ready (n - length es) c' \<and> bail st c c')"
  using assms(1,3,4)
proof (induction es arbitrary: n c)
  case (Cons e es)
  then obtain k where k: "n = Suc k" by (cases n) auto
  from cache_cent_ok [of k c st e] Cons.prems assms(2) k obtain c1 where
    c1: "cache_cent st e c = Some c1" "cache_ready k c1" "bail st c c1" by (auto elim: returnsE)
  from Cons.IH [OF c1(2)] Cons.prems k c1(3)
  have "returns (fold_opt (cache_cent st) es c1) (\<lambda>c'. cache_ready (k - length es) c' \<and> bail st c c')"
    by (auto elim!: returns_mono intro: bail_trans)
  with c1(1) k show ?case by simp
qed simp

end
