(* ===== verification/Query_Judge.thy ===== *)
theory Query_Judge
  imports Query_Bailiwick
begin

text \<open>
  The result of a reply: the list of name servers, the entry that answers the question, and the
  additions to the cache.
\<close>

subsection \<open>The list of name servers\<close>

lemma w_malloc_step: "\<exists>ok m. w_malloc w = (ok, w\<lparr>w_cache := (w_cache w)\<lparr>mem := m\<rparr>\<rparr>)"
proof -
  obtain ok m where "malloc (w_cache w) = (ok, (w_cache w)\<lparr>mem := m\<rparr>)" using malloc_step by blast
  then show ?thesis by (auto simp: w_malloc_def)
qed

definition ns_result :: "world \<Rightarrow> bytes list option \<times> nat \<times> world \<Rightarrow> bool" where
  "ns_result w = (\<lambda>(r, k, w'). (\<forall>l. r = Some l \<longrightarrow> (\<forall>p \<in> set l. ns_item p)) \<and> (\<exists>m. w' = w\<lparr>w_cache := (w_cache w)\<lparr>mem := m\<rparr>\<rparr>))"

lemma ns_result_same: "\<forall>p \<in> set ns. ns_item p \<Longrightarrow> ns_result w (Some ns, k, w)"
  by (auto simp: ns_result_def intro: exI [of _ "mem (w_cache w)"])

lemma ns_result_trans: "ns_result (w\<lparr>w_cache := (w_cache w)\<lparr>mem := m\<rparr>\<rparr>) r \<Longrightarrow> ns_result w r"
  by (auto simp: ns_result_def)

text \<open>The data of the sets for name servers and start of authority begin with a name.\<close>

lemma add_ns_rrs_ok:
  assumes "dns_name d" and "\<forall>x \<in> set ds. \<exists>ls t. dns_name ls \<and> x = enc ls @ t" and "\<forall>p \<in> set ns. ns_item p"
  shows "returns (add_ns_rrs (enc d) first ds (ns, k, w)) (ns_result w)"
  using assms(2,3)
proof (induction ds arbitrary: first ns k w)
  case (Cons x ds)
  then obtain ls t where x: "dns_name ls" "x = enc ls @ t" by auto
  obtain b where b: "ns_known x ns = Some b" using ns_known_some [OF Cons.prems(2) x(1), of t] x(2) by blast
  obtain ok m where m: "w_malloc w = (ok, w\<lparr>w_cache := (w_cache w)\<lparr>mem := m\<rparr>\<rparr>)" using w_malloc_step by blast
  let ?o = "if first then enc d else [0xff]"
  have "ns_item (?o @ enc ls)" unfolding ns_item_def using assms(1) x(1) by (intro exI [of _ ?o] exI [of _ ls]) auto
  then have ns: "\<forall>p \<in> set (ns @ [?o @ enc ls]). ns_item p" using Cons.prems(2) by simp
  have len: "rhnlen (enc d) = Some (length (enc d))" "rhnlen x = Some (length (enc ls))"
    using assms(1) x by (simp_all add: dns_name_labels_ok)
  have "rd_all (enc d) 0 (length (enc d)) = Some (enc d)" "rd_all x 0 (length (enc ls)) = Some (enc ls)"
    using x(2) by (simp_all add: rd_all_def)
  then have run: "add_ns_rrs (enc d) first (x # ds) (ns, k, w) =
      (if b then add_ns_rrs (enc d) first ds (ns, k, w)
       else if ok then add_ns_rrs (enc d) False ds (ns @ [?o @ enc ls], k + 1, w\<lparr>w_cache := (w_cache w)\<lparr>mem := m\<rparr>\<rparr>)
       else Some (None, k, w\<lparr>w_cache := (w_cache w)\<lparr>mem := m\<rparr>\<rparr>))"
    using b m len by (cases first) simp_all
  have 1: "returns (add_ns_rrs (enc d) first ds (ns, k, w)) (ns_result w)" using Cons by simp
  have 2: "returns (add_ns_rrs (enc d) False ds (ns @ [?o @ enc ls], k + 1, w\<lparr>w_cache := (w_cache w)\<lparr>mem := m\<rparr>\<rparr>)) (ns_result w)"
    by (rule returns_mono [OF Cons.IH ns_result_trans]) (use Cons.prems(1) ns in auto)
  have 3: "ns_result w (None, k, w\<lparr>w_cache := (w_cache w)\<lparr>mem := m\<rparr>\<rparr>)" by (auto simp: ns_result_def)
  show ?case unfolding run using 1 2 3 by simp
qed (simp add: ns_result_same)

lemma add_ns_type_ok:
  assumes "parsed c" and "tp = T_NS \<or> tp = T_SOA" and "ns_result w x"
  shows "returns (add_ns_type c tp x) (ns_result w)"
proof -
  obtain r k w' where x: "x = (r, k, w')" by (cases x)
  obtain m where m: "w' = w\<lparr>w_cache := (w_cache w)\<lparr>mem := m\<rparr>\<rparr>" using assms(3) x by (auto simp: ns_result_def)
  obtain d where d: "qname c = enc d" "dns_name d" using parsed_name [OF assms(1)] by blast
  show ?thesis
  proof (cases r)
    case None
    with assms(3) x show ?thesis by (simp add: add_ns_type_def)
  next
    case (Some l)
    then have l: "\<forall>p \<in> set l. ns_item p" using assms(3) x by (simp add: ns_result_def)
    show ?thesis
    proof (cases "set_at c tp")
      case None
      with Some assms(3) x parsed_ok [OF assms(1)] show ?thesis by (simp add: add_ns_type_def)
    next
      case (Some s)
      have "\<exists>ls t. dns_name ls \<and> v = enc ls @ t" if "v \<in> set (rs_rrs s)" for v
      proof -
        have v: "rdata_ok tp v" using parsed_data [OF assms(1) Some that] .
        from assms(2) show ?thesis
        proof
          assume "tp = T_NS"
          with v have "\<exists>ls. dns_name ls \<and> v = enc ls @ []" by (simp add: rdata_ok_def name_types_def)
          then show ?thesis by blast
        next
          assume "tp = T_SOA"
          with v show ?thesis unfolding rdata_ok_def by blast
        qed
      qed
      then have "returns (add_ns_rrs (enc d) True (rs_rrs s) (l, k, w')) (ns_result w)"
        unfolding m by (intro returns_mono [OF add_ns_rrs_ok [OF d(2) _ l] ns_result_trans]) auto
      with Some \<open>r = Some l\<close> x d(1) parsed_ok [OF assms(1)] show ?thesis by (simp add: add_ns_type_def)
    qed
  qed
qed

lemma add_ns_cent_ok:
  assumes "parsed c" and "domain_ok st" and "ns_result w x"
  shows "returns (add_ns_cent st c x) (ns_result w)"
proof -
  obtain d where d: "qname c = enc d" "dns_name d" using parsed_name [OF assms(1)] by blast
  obtain y r where y: "enc d = y # r" using enc_head [OF d(2)] by blast
  from in_bailiwick_spec [OF assms(2) d(2)] obtain b where b: "in_bailiwick st (enc d) = Some b" by blast
  have "\<exists>ok. accepts_ns st c = Some ok" using d(1) y b by (simp add: accepts_ns_def rd_def)
  then obtain ok where ok: "accepts_ns st c = Some ok" by blast
  obtain x1 where x1: "add_ns_type c T_NS x = Some x1" "ns_result w x1"
    using add_ns_type_ok [OF assms(1) _ assms(3), of T_NS] by (auto elim: returnsE)
  show ?thesis using ok x1(1) add_ns_type_ok [OF assms(1) _ x1(2), of T_SOA] assms(3) by (simp add: add_ns_cent_def)
qed

lemma add_ns_list_ok:
  assumes "\<forall>c \<in> set (all_cents secs). parsed c" and "domain_ok st" and "\<forall>p \<in> set ns. ns_item p"
  shows "returns (add_ns_list st secs ns w) (ns_result w)"
proof -
  have "returns (fold_opt (add_ns_cent st) (ans_sec secs @ auth_sec secs) (Some ns, 0, w)) (ns_result w)"
    using assms(1) by (intro fold_opt_inv ns_result_same [OF assms(3)] add_ns_cent_ok [OF _ assms(2)]) (auto simp: all_cents_def)
  then show ?thesis using ns_result_same [OF assms(3)] by (simp add: add_ns_list_def)
qed

subsection \<open>The result\<close>

text \<open>
  What a reply leaves: a well-formed cache that a restricted server did not change outside its
  domain, an entry for the name exactly in case of success, a list of well-formed items, and the
  buffer as it was.
\<close>

definition reply_post :: "bytes list \<Rightarrow> query_stat \<Rightarrow> cache \<Rightarrow> exec_out \<Rightarrow> bool" where
  "reply_post ls st c x \<longleftrightarrow> cache_ready 0 (w_cache (x_w x)) \<and> bail st c (w_cache (x_w x)) \<and>
     (case x_ent x of None \<Rightarrow> x_rv x \<noteq> RC_OK | Some e \<Rightarrow> x_rv x = RC_OK \<and> parsed e \<and> qname e = enc ls) \<and>
     (\<forall>p \<in> set (x_ns x). ns_item p) \<and> q_recvbuf (x_st x) = q_recvbuf st"

text \<open>What the steps need.\<close>

definition reply_ready :: "bytes list \<Rightarrow> sections \<Rightarrow> query_stat \<Rightarrow> bytes list \<Rightarrow> world \<Rightarrow> bool" where
  "reply_ready ls secs st ns w \<longleftrightarrow> secs_ok ls secs \<and> cache_ready (length (all_cents secs)) (w_cache w) \<and> domain_ok st \<and>
     (\<forall>p \<in> set ns. ns_item p)"

lemma in_set_tlD: "x \<in> set (tl xs) \<Longrightarrow> x \<in> set xs"
  by (cases xs) simp_all

lemma free_sections_ok:
  assumes "\<forall>c \<in> set (all_cents secs). parsed c" and "distinct (rrset_l (w_cache w))"
  shows "free_sections b secs w = Some w"
proof -
  have "\<forall>c \<in> set ((if b then take 1 (ans_sec secs) else []) @ tl (ans_sec secs) @ auth_sec secs @ add_sec secs). parsed c"
    using assms(1) by (auto simp: all_cents_def dest: in_set_takeD in_set_tlD split: if_splits)
  from free_parsed_all [OF this assms(2)] show ?thesis by (simp add: free_sections_def Let_def)
qed

lemma reply_readyD:
  assumes "reply_ready ls secs st ns w"
  shows "\<forall>c \<in> set (all_cents secs). parsed c" "distinct (rrset_l (w_cache w))" "cache_ready 0 (w_cache w)" "domain_ok st"
    "\<forall>p \<in> set ns. ns_item p" "cache_ready (length (all_cents secs)) (w_cache w)"
  using assms cache_ready_distinct cache_ready_mono [of _ "w_cache w" 0] by (auto simp: reply_ready_def secs_ok_def)

lemma reply_ready_mem [simp]: "reply_ready ls secs st ns (w\<lparr>w_cache := (w_cache w)\<lparr>mem := m\<rparr>\<rparr>) = reply_ready ls secs st ns w"
  by (simp add: reply_ready_def)

lemma reply_readyE:
  assumes "reply_ready ls secs st ns w"
  obtains e es where "ans_sec secs = e # es" "parsed e" "qname e = enc ls"
  using assms by (auto simp: reply_ready_def secs_ok_def all_cents_def)

lemma reply_failed_ok:
  assumes "reply_ready ls secs st ns w" and "rv \<noteq> RC_OK"
  shows "returns (reply_failed rv secs st ns soa w) (reply_post ls st (w_cache w))"
  using free_sections_ok [OF reply_readyD(1,2) [OF assms(1)]] reply_readyD [OF assms(1)] assms(2)
  by (simp add: reply_failed_def reply_post_def)

lemma add_reply_entries_ok:
  assumes "reply_ready ls secs st ns w"
    and "case ent' of None \<Rightarrow> rv \<noteq> RC_OK | Some e \<Rightarrow> rv = RC_OK \<and> parsed e \<and> qname e = enc ls"
  shows "returns (add_reply_entries neg rej rv ent' secs st ns soa w) (reply_post ls st (w_cache w))"
proof -
  note r = reply_readyD [OF assms(1)]
  let ?es = "(if neg then [] else tl (ans_sec secs)) @ auth_sec secs @ add_sec secs"
  have es: "\<forall>e \<in> set ?es. parsed e" "length ?es \<le> length (all_cents secs)"
    using r(1) by (auto simp: all_cents_def dest: in_set_tlD)
  have "returns (fold_opt (cache_cent st) ?es (w_cache w)) (\<lambda>c. cache_ready 0 c \<and> bail st (w_cache w) c)"
    by (rule returns_mono [OF cache_cents_ok [OF r(6,4) es]]) (auto intro: cache_ready_mono)
  then have "\<exists>c. (if q_failed st = 0 \<and> \<not> rej then fold_opt (cache_cent st) ?es (w_cache w) else Some (w_cache w)) = Some c \<and>
      cache_ready 0 c \<and> bail st (w_cache w) c"
    using r(3) by (auto elim: returnsE)
  then obtain c where c: "(if q_failed st = 0 \<and> \<not> rej then fold_opt (cache_cent st) ?es (w_cache w) else Some (w_cache w)) = Some c"
    "cache_ready 0 c" "bail st (w_cache w) c" by blast
  have "distinct (rrset_l (w_cache (w\<lparr>w_cache := c\<rparr>)))" using cache_ready_distinct [OF c(2)] by simp
  from free_sections_ok [OF r(1) this] have "add_reply_entries neg rej rv ent' secs st ns soa w =
      Some \<lparr>x_rv = rv, x_ent = ent', x_st = st, x_ns = ns, x_c_soa = soa, x_w = w\<lparr>w_cache := c\<rparr>\<rparr>"
    unfolding add_reply_entries_def c(1) by simp
  with c(2,3) assms(2) r(5) show ?thesis by (cases ent') (simp_all add: reply_post_def)
qed

lemma cleanup_return_ok:
  assumes "reply_ready ls secs st ns w"
  shows "returns (cleanup_return_OK neg n rej secs st ns soa w) (reply_post ls st (w_cache w))"
proof -
  obtain e es where e: "ans_sec secs = e # es" "parsed e" "qname e = enc ls" using assms by (rule reply_readyE)
  obtain ok m where m: "w_malloc w = (ok, w\<lparr>w_cache := (w_cache w)\<lparr>mem := m\<rparr>\<rparr>)" using w_malloc_step by blast
  let ?w = "w\<lparr>w_cache := (w_cache w)\<lparr>mem := m\<rparr>\<rparr>"
  have rdy: "reply_ready ls secs st ns ?w" using assms by simp
  have post: "reply_post ls st (w_cache ?w) = reply_post ls st (w_cache w)" by (intro ext) (simp add: reply_post_def)
  have codes: "RC_SERVFAIL \<noteq> RC_OK" "RC_FATALERR \<noteq> RC_OK" by simp_all
  have f: "returns (reply_failed RC_SERVFAIL secs st [] soa w) (reply_post ls st (w_cache w))"
    using assms by (intro reply_failed_ok codes) (simp add: reply_ready_def)
  have g: "returns (reply_failed RC_FATALERR secs st [] soa ?w) (reply_post ls st (w_cache w))"
    unfolding post [symmetric] using rdy by (intro reply_failed_ok codes) (simp add: reply_ready_def)
  have "case Some e of None \<Rightarrow> RC_OK \<noteq> RC_OK | Some e \<Rightarrow> RC_OK = RC_OK \<and> parsed e \<and> qname e = enc ls" using e by simp
  from add_reply_entries_ok [OF rdy this, of neg rej soa]
  have a: "returns (add_reply_entries neg rej RC_OK (Some e) secs st ns soa ?w) (reply_post ls st (w_cache w))" unfolding post .
  have "rd (ans_sec secs) 0 = Some e" using e(1) by (simp add: rd_def)
  with m f g a show ?thesis by (simp add: cleanup_return_OK_def Let_def)
qed

lemma set_first_ready:
  assumes "reply_ready ls secs st ns w" and "parsed e" and "qname e = enc ls"
  shows "reply_ready ls (set_first e secs) st ns w"
proof -
  obtain e0 es where e: "ans_sec secs = e0 # es" using assms(1) by (rule reply_readyE)
  then have a: "all_cents secs = e0 # es @ auth_sec secs @ add_sec secs" by (simp add: all_cents_def)
  have b: "all_cents (set_first e secs) = e # es @ auth_sec secs @ add_sec secs" "ans_sec (set_first e secs) = e # es"
    using e by (simp_all add: all_cents_def set_first_def)
  from assms e show ?thesis unfolding reply_ready_def secs_ok_def a b by simp
qed

lemma parsed_nocache: "parsed c \<Longrightarrow> parsed (c\<lparr>ce_flags := ce_flags c OR DF_NOCACHE\<rparr>)"
proof -
  assume p: "parsed c"
  have "has (ce_flags c OR DF_NOCACHE) DF_NEGATIVE = has (ce_flags c) DF_NEGATIVE" "has (ce_flags c OR DF_NOCACHE) DF_LOCAL = has (ce_flags c) DF_LOCAL"
    by (simp_all add: has_either) (simp_all add: has_def df_defs)
  with p show ?thesis by (simp add: parsed_def cent_ok_def detached_def lents_of_def recs_of_def)
qed

text \<open>Steps before a result: the cache differs in the memory only, the state of the query in marks.\<close>

lemma reply_post_mem [simp]: "reply_post ls st (c\<lparr>mem := m\<rparr>) = reply_post ls st c"
  by (intro ext) (simp add: reply_post_def)

lemma name_error_ok:
  assumes "reply_ready ls secs st ns w" and "dns_name ls"
  shows "returns (name_error cf (enc ls @ q) ts rej secs st ns soa w) (reply_post ls st (w_cache w))"
proof -
  note r = reply_readyD [OF assms(1)]
  obtain e es where e: "ans_sec secs = e # es" "parsed e" "qname e = enc ls" using assms(1) by (rule reply_readyE)
  have rd: "rd (ans_sec secs) 0 = Some e" using e(1) by (simp add: rd_def)
  have same: "w\<lparr>w_cache := w_cache w\<rparr> = w" by simp
  have free: "free_cent e (w_cache w) = Some (w_cache w)" using free_parsed [OF e(2) r(2)] .
  have "RC_NAMEERR \<noteq> RC_OK" by simp
  then have 1: "returns (add_reply_entries True rej RC_NAMEERR None secs st ns soa' w) (reply_post ls st (w_cache w))" for soa'
    using assms(1) by (intro add_reply_entries_ok) simp_all
  obtain t where t: "name_error_ttl (enc ls @ q) e (auth_sec secs) (neg_ttl (w_cache w)) = Some t"
    using neg_ttls_some(1) [OF assms(2) e(2), of "auth_sec secs" q "neg_ttl (w_cache w)"] r(1) by (auto simp: all_cents_def)
  obtain e1 where e1: "negate_cent e t ts (w_cache w) = Some (e1, w_cache w)" "parsed e1" "qname e1 = qname e"
    using negate_parsed [OF e(2)] by blast
  define e2 where "e2 = (if q_nocache st then e1\<lparr>ce_flags := ce_flags e1 OR DF_NOCACHE\<rparr> else e1)"
  have e2: "parsed e2" "qname e2 = enc ls" using e1 e(3) parsed_nocache by (simp_all add: e2_def)
  have 2: "returns (cleanup_return_OK True 0 rej (set_first e2 secs) st ns soa w) (reply_post ls st (w_cache w))"
    by (rule cleanup_return_ok [OF set_first_ready [OF assms(1) e2]])
  show ?thesis
  proof (cases "neg_domain_pol cf = C_ON \<or> neg_domain_pol cf = C_AUTH \<and> q_aa st")
    case True
    with rd t e1(1) 2 show ?thesis by (simp add: name_error_def e2_def [symmetric] Let_def)
  next
    case False
    show ?thesis unfolding name_error_def if_not_P [OF False] rd free bind.bind_lunit same by (rule 1)
  qed
qed

lemma positive_reply_ok:
  assumes "reply_ready ls secs st ns w" and "dns_name ls" and "thint_ok tp"
  shows "returns (positive_reply cf (enc ls @ q) tp fl ts rej secs st ns soa w) (reply_post ls st (w_cache w))"
proof -
  note r = reply_readyD [OF assms(1)]
  obtain e es where e: "ans_sec secs = e # es" "parsed e" "qname e = enc ls" using assms(1) by (rule reply_readyE)
  have rd: "rd (ans_sec secs) 0 = Some e" using e(1) by (simp add: rd_def)
  have "\<forall>c \<in> set (auth_sec secs). parsed c" using r(1) by (simp add: all_cents_def)
  from neg_rrset_ok [OF assms(2) e(2) this assms(3) r(2)] obtain ok e1 m where
    n: "neg_rrset cf (enc ls @ q) tp fl ts st (auth_sec secs) e (w_cache w) = Some (ok, e1, (w_cache w)\<lparr>mem := m\<rparr>)"
    "parsed e1" "qname e1 = qname e" by blast
  define secs1 where "secs1 = set_first e1 secs"
  define w1 where "w1 = w\<lparr>w_cache := (w_cache w)\<lparr>mem := m\<rparr>\<rparr>"
  have r1: "reply_ready ls secs1 st ns w1" unfolding secs1_def w1_def reply_ready_mem
    using set_first_ready [OF assms(1) n(2)] n(3) e(3) by simp
  from add_ns_list_ok [OF reply_readyD(1) [OF r1] reply_readyD(4,5) [OF r1], of w1] obtain x where
    x: "add_ns_list st secs1 ns w1 = Some x" "ns_result w1 x" by (rule returnsE)
  obtain l k w2 where x2: "x = (l, k, w2)" by (cases x)
  obtain m2 where w2: "w2 = w1\<lparr>w_cache := (w_cache w1)\<lparr>mem := m2\<rparr>\<rparr>" using x(2) x2 by (auto simp: ns_result_def)
  have post: "reply_post ls st (w_cache w1) = reply_post ls st (w_cache w)" "reply_post ls st (w_cache w2) = reply_post ls st (w_cache w)"
    by (simp_all add: w2 w1_def)
  have code: "RC_FATALERR \<noteq> RC_OK" by simp
  have 1: "returns (reply_failed RC_FATALERR secs1 st ns soa w1) (reply_post ls st (w_cache w))"
    using reply_failed_ok [OF r1 code] post by simp
  have r2: "reply_ready ls secs1 st l' w2" if "\<forall>p \<in> set l'. ns_item p" for l' using r1 that by (simp add: reply_ready_def w2)
  have 2: "returns (case l of None \<Rightarrow> reply_failed RC_FATALERR secs1 st [] soa w2
      | Some l' \<Rightarrow> cleanup_return_OK b k rej secs1 st l' soa w2) (reply_post ls st (w_cache w))" for b
  proof (cases l)
    case None
    with reply_failed_ok [OF r2 [of "[]"] code] post show ?thesis by simp
  next
    case (Some l')
    then have "\<forall>p \<in> set l'. ns_item p" using x(2) x2 by (simp add: ns_result_def)
    from cleanup_return_ok [OF r2 [OF this]] Some post show ?thesis by simp
  qed
  have "positive_reply cf (enc ls @ q) tp fl ts rej secs st ns soa w =
      (if \<not> ok then reply_failed RC_FATALERR secs1 st ns soa w1
       else case l of None \<Rightarrow> reply_failed RC_FATALERR secs1 st [] soa w2
         | Some l' \<Rightarrow> cleanup_return_OK (num_rrs e = 0) k rej secs1 st l' soa w2)"
    unfolding positive_reply_def rd n(1) bind.bind_lunit prod.case Let_def secs1_def [symmetric] w1_def [symmetric] x(1) x2 ..
  with 1 2 show ?thesis by simp
qed

definition deleg_ok :: "query_conf \<Rightarrow> bool" where
  "deleg_ok cf \<longleftrightarrow> (\<forall>z \<in> set (deleg_only_zones cf). \<exists>l. dns_name l \<and> z = enc l)"

lemma judge_reply_ok:
  assumes "reply_ready ls secs st ns w" and "dns_name ls" and "thint_ok tp" and "deleg_ok cf"
  shows "returns (judge_reply cf (enc ls @ q) tp fl ts rcode secs st ns soa w) (reply_post ls st (w_cache w))"
proof -
  note r = reply_readyD [OF assms(1)]
  have code: "RC_SERVFAIL \<noteq> RC_OK" by simp
  note ok = name_error_ok [OF assms(1,2)] reply_failed_ok [OF assms(1) code] positive_reply_ok [OF assms(1-3)]
  obtain rej where rej: "reject_answer st secs = Some rej" "rej \<longrightarrow> q_rejectlist st \<noteq> None"
    using reject_answer_some [OF r(1)] by blast
  have "\<exists>b n. (if deleg_only_zones cf \<noteq> [] \<and> q_auth_serv st < 3 then missing_delegation cf (enc ls @ q) secs else Some (False, 0)) = Some (b, n)"
    using missing_delegation_some [OF _ r(1) assms(2), of cf q] assms(4) by (simp add: deleg_ok_def)
  then obtain b n where b: "(if deleg_only_zones cf \<noteq> [] \<and> q_auth_serv st < 3 then missing_delegation cf (enc ls @ q) secs
      else Some (False, 0)) = Some (b, n)" by blast
  show ?thesis
  proof (cases "rcode = RC_NAMEERR \<or> \<not> rej")
    case True
    then show ?thesis unfolding judge_reply_def rej(1) bind.bind_lunit b prod.case using ok by auto
  next
    case False
    then obtain rl where "q_rejectlist st = Some rl" using rej(2) by auto
    with False show ?thesis unfolding judge_reply_def rej(1) bind.bind_lunit using ok by simp
  qed
qed

end
