(* ===== verification/Query_Safe.thy ===== *)
theory Query_Safe
  imports Query_Judge
begin

text \<open>
  The query to one server with its reply: whatever bytes arrive, \<open>p_exec_query\<close> ends with a well-formed
  cache, and a server that may only speak for a domain changes nothing outside of it.
\<close>

subsection \<open>The question of a reply\<close>

lemma check_question_spec:
  assumes "sizeof_dns_hdr \<le> length buf" and "dns_name ls"
  shows "returns (check_question buf (length buf) (enc ls @ q) qtype) (\<lambda>r. \<forall>p k. r = Some (p, k) \<longrightarrow> p + k \<le> length buf)"
proof -
  have "sizeof_dns_hdr + (length buf - sizeof_dns_hdr) \<le> length buf" using assms(1) by simp
  then show ?thesis
  proof (cases rule: decompress_name_at)
    case (bad rc)
    then show ?thesis by (simp add: check_question_def)
  next
    case (name p k l b)
    have "b = enc l @ drop (length (enc l)) b" using name(3) by (auto simp: rd_all_def split: if_splits) (metis append_take_drop_id)
    then obtain t where b: "b = enc l @ t" by blast
    have eq: "rhnicmp b (enc ls @ q) = Some (fold_case l = fold_case ls)"
      using name(2) assms(2) by (simp add: b dns_name_labels_ok)
    show ?thesis
    proof (cases "fold_case l = fold_case ls \<and> 4 \<le> k")
      case False
      then show ?thesis using name(1) eq by (auto simp: check_question_def)
    next
      case True
      have len: "p + k \<le> length buf" using name(4) assms(1) by simp
      with True obtain t where t: "GETINT16 buf p = Some (t, p + 2)" using GETINT16_some [of p buf] by auto
      obtain c where c: "GETINT16 buf (p + 2) = Some (c, p + 2 + 2)" using GETINT16_some [of "p + 2" buf] len True by auto
      from True have k: "\<not> k < 4" and "p + 2 + 2 + (k - 4) \<le> length buf" using len by auto
      with name(1) eq True t c show ?thesis by (simp add: check_question_def del: add_2_eq_Suc')
    qed
  qed
qed

subsection \<open>The first entry\<close>

lemma first_array: "\<exists>a m. da_grow1 malloc None None st = Some (a, st\<lparr>mem := m\<rparr>) \<and> (\<forall>d. a = Some d \<longrightarrow> da_ok a \<and> da_elems d = [None])"
  for st :: cache
proof -
  obtain ok m where m: "malloc st = (ok, st\<lparr>mem := m\<rparr>)" using malloc_step by blast
  have same: "st\<lparr>mem := mem st\<rparr> = st" by simp
  have "da_ok None" by (simp add: da_ok_def)
  from da_grow1_cases [OF this, of malloc None st] m show ?thesis
    by (elim disjE exE conjE) (auto intro: same_cache)
qed

lemma first_entry:
  assumes "dns_name ls" and "fl = DF_AUTH \<or> fl = 0"
  shows "\<exists>r m. init_cent (enc ls @ q) 0 0 fl st = Some (r, st\<lparr>mem := m\<rparr>) \<and> (\<forall>c. r = Some c \<longrightarrow> parsed c \<and> qname c = enc ls)"
proof -
  obtain r m where r: "init_cent (enc ls @ q) 0 0 fl st = Some (r, st\<lparr>mem := m\<rparr>)"
    "\<forall>c. r = Some c \<longrightarrow> cent_ok c \<and> detached c \<and> qname c = enc ls \<and> ce_flags c = fl \<and> slots (body c) = replicate NRRTOT None"
    using init_cent_spec [OF assms(1), of q 0 0 fl st] by blast
  have "parsed c" if "r = Some c" for c
  proof -
    from r(2) that have c: "cent_ok c" "detached c" "ce_flags c = fl" "slots (body c) = replicate NRRTOT None" by auto
    then have "recs_of c = {}" by (auto simp: recs_of_def cached_type_def)
    moreover have "\<not> has fl DF_LOCAL" using assms(2) by (auto simp: has_def df_defs)
    ultimately show ?thesis using c(1-3) by (simp add: parsed_def)
  qed
  with r show ?thesis by blast
qed

lemma one_entry:
  assumes "da_ok (Some d)" and "da_elems d = [None]" and "parsed e"
  obtains a where "da_set (Some d) 0 e = Some a" "arr_ok a" "cent_entries a = [e]"
proof -
  let ?a = "Some (d\<lparr>da_elems := [Some e]\<rparr>)"
  have "da_set (Some d) 0 e = Some ?a" using assms(2) by (simp add: da_set_def wr_def)
  moreover have l: "da_list ?a = map Some [e]" by (simp add: da_list_def)
  moreover have "da_ok ?a" using assms(1,2) by (simp add: da_ok_def)
  moreover have "cent_entries ?a = [e]" using l by (rule cent_entries_list)
  moreover have "\<forall>c \<in> set [e]. parsed c" "distinct (map cent_key [e])" using assms(3) by simp_all
  ultimately show thesis using that unfolding arr_ok_def by metis
qed

subsection \<open>The records of a reply\<close>

lemma unless_ok: "x_rv x \<noteq> RC_OK \<Longrightarrow> x_ent x = None \<Longrightarrow> cache_ready 0 (w_cache (x_w x)) \<Longrightarrow> bail st c (w_cache (x_w x)) \<Longrightarrow>
    \<forall>p \<in> set (x_ns x). ns_item p \<Longrightarrow> q_recvbuf (x_st x) = q_recvbuf st \<Longrightarrow> reply_post ls st c x"
  by (simp add: reply_post_def)

lemma bail_same: "q_trusted st' = q_trusted st \<Longrightarrow> q_nsdomain st' = q_nsdomain st \<Longrightarrow> q_recvbuf st' = q_recvbuf st \<Longrightarrow>
    reply_post ls st' = reply_post ls st"
  by (intro ext) (simp add: reply_post_def bail_def)

text \<open>What was read, and the entry for the question, are judged.\<close>

lemma judge_sections_ok:
  assumes "\<forall>c \<in> set (all_cents secs). parsed c" and "rv \<noteq> RC_FATALERR \<longrightarrow> secs_ok ls secs \<and> length (all_cents secs) \<le> 3 * 2 ^ 16"
    and "cache_ready (3 * 2 ^ 16) (w_cache w)" and "domain_ok st" and "\<forall>p \<in> set ns. ns_item p"
    and "dns_name ls" and "thint_ok tp" and "deleg_ok cf"
  shows "returns (if \<not> (rv = RC_OK \<or> rv = RC_TRUNC \<and> tc \<or> rv = RC_SERVFAIL)
      then reply_failed (if rv \<noteq> RC_FATALERR then RC_SERVFAIL else rv) secs st ns soa w
      else do {
        let st3 = (if rv = RC_SERVFAIL \<and> q_failed st = 0 then st\<lparr>q_failed := 1\<rparr> else st);
        an \<leftarrow> map_opt (set_refs qtype (q_auth_serv st3) (length (ans_sec secs)) (auth_sec secs)) (ans_sec secs);
        judge_reply cf (enc ls @ q) tp fl ts rcode (secs\<lparr>ans_sec := an\<rparr>) st3 ns soa w
      }) (reply_post ls st (w_cache w))"
proof (cases "rv = RC_OK \<or> rv = RC_TRUNC \<and> tc \<or> rv = RC_SERVFAIL")
  case False
  have "(if rv \<noteq> RC_FATALERR then RC_SERVFAIL else rv) \<noteq> RC_OK" by simp
  moreover have "cache_ready 0 (w_cache w)" using cache_ready_mono [OF assms(3)] by simp
  ultimately have "returns (reply_failed (if rv \<noteq> RC_FATALERR then RC_SERVFAIL else rv) secs st ns soa w) (reply_post ls st (w_cache w))"
    using free_sections_ok [OF assms(1) cache_ready_distinct [OF assms(3)]] assms(5)
    by (simp add: reply_failed_def reply_post_def)
  with False show ?thesis by simp
next
  case True
  then have "rv \<noteq> RC_FATALERR" by (auto simp: rc2_defs)
  then have secs: "secs_ok ls secs" "length (all_cents secs) \<le> 3 * 2 ^ 16" using assms(2) by simp_all
  let ?st = "if rv = RC_SERVFAIL \<and> q_failed st = 0 then st\<lparr>q_failed := 1\<rparr> else st"
  have "\<forall>ce \<in> set (auth_sec secs). parsed ce" "\<forall>c \<in> set (ans_sec secs). parsed c" using assms(1) by (auto simp: all_cents_def)
  then obtain an where an: "map_opt (set_refs qtype (q_auth_serv ?st) (length (ans_sec secs)) (auth_sec secs)) (ans_sec secs) = Some an"
    "\<forall>c \<in> set an. parsed c" "map qname an = map qname (ans_sec secs)" by (rule set_refs_all)
  have len: "length an = length (ans_sec secs)" using an(3) by (metis length_map)
  have "reply_ready ls (secs\<lparr>ans_sec := an\<rparr>) ?st ns w"
  proof -
    have "\<exists>e es. an = e # es \<and> qname e = enc ls" using secs(1) an(3) by (auto simp: secs_ok_def map_eq_Cons_conv)
    moreover have "\<forall>c \<in> set (all_cents (secs\<lparr>ans_sec := an\<rparr>)). parsed c" using an(2) assms(1) by (auto simp: all_cents_def)
    moreover have "cache_ready (length (all_cents (secs\<lparr>ans_sec := an\<rparr>))) (w_cache w)"
      using cache_ready_mono [OF assms(3)] secs(2) len by (simp add: all_cents_def)
    moreover have "domain_ok ?st" using assms(4) by (simp add: domain_ok_def)
    ultimately show ?thesis using assms(5) by (simp add: reply_ready_def secs_ok_def)
  qed
  from judge_reply_ok [OF this assms(6-8)]
  have "returns (judge_reply cf (enc ls @ q) tp fl ts rcode (secs\<lparr>ans_sec := an\<rparr>) ?st ns soa w) (reply_post ls ?st (w_cache w))" .
  moreover have "reply_post ls ?st = reply_post ls st" by (rule bail_same) simp_all
  ultimately show ?thesis using True an(1) by (simp add: Let_def)
qed

lemma hdr_take: "12 \<le> n \<Longrightarrow> n \<le> length b \<Longrightarrow> \<exists>h. hdr_of_bytes (take n b) = Some h"
  by (rule hdr_some) simp

lemma reply_records_ok:
  assumes "q_recvbuf st = Live b" and "sizeof_dns_hdr \<le> unat (q_recvl st)" and "unat (q_recvl st) \<le> length b"
    and "cache_ready (3 * 2 ^ 16) (w_cache w)" and "domain_ok st" and "\<forall>p \<in> set ns. ns_item p"
    and "dns_name ls" and "thint_ok tp" and "deleg_ok cf"
  shows "returns (reply_records cf (enc ls @ q) tp rdf st ns soa w) (reply_post ls st (w_cache w))"
proof -
  define buf where "buf = take (unat (q_recvl st)) b"
  have len: "unat (q_recvl st) = length buf" "sizeof_dns_hdr \<le> length buf" using assms(2,3) by (simp_all add: buf_def)
  obtain h where h: "hdr_of_bytes buf = Some h" using hdr_some [of buf] len(2) by (auto simp: sizeof_dns_hdr_def)
  have buf: "take (length buf) b = buf" using assms(3) by (simp add: buf_def)
  define qtype where "qtype = query_type st tp"
  define st1 where "st1 = st\<lparr>q_aa := h_aa h \<and> q_failed st = 0, q_tc := h_tc h, q_ra := rdf \<and> h_ra h\<rparr>"
  define aa where "aa \<longleftrightarrow> q_aa st1 \<and> \<not> q_tc st1"
  define fl where "fl = (if aa then q_flags st1 OR CF_AUTH else q_flags st1)"
  define servfail where "servfail = \<lparr>x_rv = RC_SERVFAIL, x_ent = None, x_st = st, x_ns = ns, x_c_soa = soa, x_w = w\<rparr>"
  have ready: "cache_ready 0 (w_cache w)" using cache_ready_mono [OF assms(4)] by simp
  have st1: "domain_ok st1" "reply_post ls st1 = reply_post ls st" "q_recvbuf st1 = q_recvbuf st"
    using assms(5) by (auto simp: st1_def domain_ok_def intro: bail_same)
  have fail: "reply_post ls st (w_cache w) (servfail\<lparr>x_rv := RC_FATALERR, x_st := st1, x_w := w\<lparr>w_cache := (w_cache w)\<lparr>mem := m\<rparr>\<rparr>\<rparr>)"
    "reply_post ls st (w_cache w) servfail" for m
    using ready assms(6) st1(3) by (simp_all add: servfail_def reply_post_def)
  obtain r where r: "check_question buf (length buf) (enc ls @ q) qtype = Some r" "\<forall>p k. r = Some (p, k) \<longrightarrow> p + k \<le> length buf"
    using check_question_spec [OF len(2) assms(7), of q qtype] by (rule returnsE)
  obtain a :: cent_array and m1 where a: "da_grow1 malloc None None (w_cache w) = Some (a, (w_cache w)\<lparr>mem := m1\<rparr>)"
    "\<forall>d. a = Some d \<longrightarrow> da_ok a \<and> da_elems d = [None]" using first_array by blast
  define df where "df = (if aa \<and> qtype = QT_ALL then DF_AUTH else 0)"
  have df: "df = DF_AUTH \<or> df = 0" by (simp add: df_def)
  obtain ce m2 where ce: "init_cent (enc ls @ q) 0 0 df ((w_cache w)\<lparr>mem := m1\<rparr>) =
      Some (ce, (w_cache w)\<lparr>mem := m1\<rparr>\<lparr>mem := m2\<rparr>)" "\<forall>c. ce = Some c \<longrightarrow> parsed c \<and> qname c = enc ls"
    using first_entry [OF assms(7) df, of q "(w_cache w)\<lparr>mem := m1\<rparr>"] by blast
  have mm: "(w_cache w)\<lparr>mem := m1\<rparr>\<lparr>mem := m2\<rparr> = (w_cache w)\<lparr>mem := m2\<rparr>" by simp
  define w2 where "w2 = w\<lparr>w_cache := (w_cache w)\<lparr>mem := m2\<rparr>\<rparr>"
  let ?go = "\<lambda>a1 p k. do {
     (rv, rcode, st2, secs, w3) \<leftarrow> read_sections buf (length buf) h fl (now (w_cache w)) a1 p k st1 w2;
     if \<not> (rv = RC_OK \<or> rv = RC_TRUNC \<and> h_tc h \<or> rv = RC_SERVFAIL)
     then reply_failed (if rv \<noteq> RC_FATALERR then RC_SERVFAIL else rv) secs st2 ns soa w3
     else do {
       let st3 = (if rv = RC_SERVFAIL \<and> q_failed st2 = 0 then st2\<lparr>q_failed := 1\<rparr> else st2);
       an \<leftarrow> map_opt (set_refs qtype (q_auth_serv st3) (length (ans_sec secs)) (auth_sec secs)) (ans_sec secs);
       judge_reply cf (enc ls @ q) tp fl (now (w_cache w)) rcode (secs\<lparr>ans_sec := an\<rparr>) st3 ns soa w3
     }
   }"
  have run: "reply_records cf (enc ls @ q) tp rdf st ns soa w =
      (if h_qdcount h \<noteq> 1 then Some servfail
       else case r of None \<Rightarrow> Some servfail
       | Some (p, k) \<Rightarrow>
           if a = None then Some (servfail\<lparr>x_rv := RC_FATALERR, x_st := st1, x_w := w\<lparr>w_cache := (w_cache w)\<lparr>mem := m1\<rparr>\<rparr>\<rparr>)
           else (case ce of None \<Rightarrow> Some (servfail\<lparr>x_rv := RC_FATALERR, x_st := st1, x_w := w2\<rparr>)
           | Some e \<Rightarrow> do { a1 \<leftarrow> da_set a 0 e; ?go a1 p k }))"
    unfolding reply_records_def deref_def assms(1) bufp.case bind.bind_lunit Let_def len(1) buf h r(1) a(1) prod.case
      st1_def [symmetric] qtype_def [symmetric] aa_def [symmetric] fl_def [symmetric] servfail_def [symmetric] df_def [symmetric] ce(1) mm w2_def [symmetric]
    by (rule refl)
  have go: "returns (do { a1 \<leftarrow> da_set a 0 e; ?go a1 p k }) (reply_post ls st (w_cache w))"
    if e: "ce = Some e" and pk: "r = Some (p, k)" and "a \<noteq> None" for e p k
  proof -
    obtain d where d: "a = Some d" "da_ok (Some d)" "da_elems d = [None]" using \<open>a \<noteq> None\<close> a(2) by auto
    have pe: "parsed e" "qname e = enc ls" using ce(2) e by simp_all
    from one_entry [OF d(2,3) pe(1)] obtain a1 where a1: "da_set a 0 e = Some a1" "arr_ok a1" "cent_entries a1 = [e]" using d(1) by auto
    have "p + k \<le> length buf" using r(2) pk by blast
    moreover have "distinct (rrset_l (w_cache w2))" using cache_ready_distinct [OF ready] by (simp add: w2_def)
    ultimately obtain rv rcode st2 secs m where rs:
      "read_sections buf (length buf) h fl (now (w_cache w)) a1 p k st1 w2 = Some (rv, rcode, st2, secs, w2\<lparr>w_cache := (w_cache w2)\<lparr>mem := m\<rparr>\<rparr>)"
      "\<exists>n. st2 = st1\<lparr>q_failed := n\<rparr>" "\<forall>c \<in> set (all_cents secs). parsed c"
      "rv \<noteq> RC_FATALERR \<longrightarrow> secs_ok ls secs \<and> length (all_cents secs) \<le> 3 * 2 ^ 16"
      using read_sections_ok [OF a1(2,3) pe(2), of p k buf w2 h fl "now (w_cache w)" st1] by blast
    let ?w3 = "w2\<lparr>w_cache := (w_cache w2)\<lparr>mem := m\<rparr>\<rparr>"
    have w3: "cache_ready (3 * 2 ^ 16) (w_cache ?w3)" "reply_post ls st (w_cache ?w3) = reply_post ls st (w_cache w)"
      using assms(4) by (simp_all add: w2_def)
    have st2: "domain_ok st2" "reply_post ls st2 = reply_post ls st"
      using rs(2) st1(1,2) bail_same [of st2 st1 ls] by (auto simp: domain_ok_def)
    show ?thesis
      unfolding a1(1) bind.bind_lunit rs(1) prod.case
      by (rule judge_sections_ok [OF rs(3,4) w3(1) st2(1) assms(6-9), unfolded st2(2) w3(2)])
  qed
  show ?thesis
  proof (cases "h_qdcount h \<noteq> 1 \<or> r = None")
    case True
    then show ?thesis unfolding run using fail(2) by auto
  next
    case False
    then obtain p k where pk: "r = Some (p, k)" by auto
    show ?thesis
    proof (cases "a = None \<or> ce = None")
      case True
      with False pk show ?thesis unfolding run w2_def using fail(1) by auto
    next
      case a: False
      then obtain e where e: "ce = Some e" by auto
      have c: "(h_qdcount h \<noteq> 1) = False" "(a = None) = False" using a False by simp_all
      show ?thesis unfolding run pk option.case prod.case c if_False e by (rule go [OF e pk]) (use a in simp)
    qed
  qed
qed

subsection \<open>The whole query\<close>

text \<open>What the caller provides: a name, a type and a configuration that are well-formed, and room in the cache.\<close>

definition exec_args_ok :: "query_conf \<Rightarrow> bytes list \<Rightarrow> nat \<Rightarrow> query_stat \<Rightarrow> bytes list \<Rightarrow> world \<Rightarrow> bool" where
  "exec_args_ok cf ls tp st ns w \<longleftrightarrow> dns_name ls \<and> thint_ok tp \<and> deleg_ok cf \<and> 0 < q_udpbufsize cf \<and> domain_ok st \<and>
     (\<forall>p \<in> set ns. ns_item p) \<and> cache_ready (3 * 2 ^ 16) (w_cache w)"

definition query_post :: "bytes list \<Rightarrow> query_stat \<Rightarrow> world \<Rightarrow> exec_ret \<Rightarrow> bool" where
  "query_post ls st w r \<longleftrightarrow> cache_ready 0 (w_cache (e_w r)) \<and> bail st (w_cache w) (w_cache (e_w r)) \<and> (\<forall>p \<in> set (e_ns r). ns_item p) \<and>
     (case e_ent r of None \<Rightarrow> e_rv r \<noteq> Some RC_OK | Some e \<Rightarrow> e_rv r = Some RC_OK \<and> parsed e \<and> qname e = enc ls) \<and>
     (case e_rv r of None \<Rightarrow> exec_start (e_st r) (e_w r) | Some rc \<Rightarrow> q_recvbuf (e_st r) \<in> {Null, Freed})"

lemma exec_query_post:
  assumes "exec_start st w" and "exec_args_ok cf ls tp st ns w"
  shows "returns (p_exec_query cf True (Some (enc ls @ q)) tp st ns soa w) (query_post ls st w)"
proof -
  have a: "dns_name ls" "thint_ok tp" "deleg_ok cf" "0 < q_udpbufsize cf" "domain_ok st" "\<forall>p \<in> set ns. ns_item p"
    "cache_ready (3 * 2 ^ 16) (w_cache w)" using assms(2) by (simp_all add: exec_args_ok_def)
  have ready: "cache_ready 0 (w_cache w)" using cache_ready_mono [OF a(7)] by simp
  have "case Some (enc ls @ q) of None \<Rightarrow> True | Some n \<Rightarrow> \<exists>ls q. dns_name ls \<and> n = enc ls @ q" using a(1) by auto
  from exec_send_ends [OF assms(1) a(4) this, of True tp] obtain x where
    x: "exec_send cf True (Some (enc ls @ q)) tp st w = Some x" "exec_ends True st w x" by (rule returnsE)
  obtain out st1 w1 where o: "x = (out, st1, w1)" by (cases x)
  have same: "\<exists>m. w_cache w1 = (w_cache w)\<lparr>mem := m\<rparr>" using x(2) by (auto simp: o exec_ends_def exec_post_def same_world_def)
  show ?thesis
  proof (cases out)
    case Call_again
    then have "exec_start st1 w1" using x(2) by (auto simp: o exec_ends_def exec_post_def exec_start_def)
    with x(1) o Call_again same ready a(6) show ?thesis by (auto simp: p_exec_query_def query_post_def)
  next
    case (Returns rc)
    have "RC_OK \<noteq> RC_FATALERR" by (simp add: rc2_defs)
    with Returns x(2) have "rc \<noteq> RC_OK" "q_recvbuf st1 = Null \<or> q_recvbuf st1 = Freed" by (auto simp: o exec_ends_def exec_post_def)
    with x(1) o Returns same ready a(6) show ?thesis by (auto simp: p_exec_query_def query_post_def)
  next
    case (Replied rc)
    then have r: "fixed_part st1 = fixed_part st" "msg_live st1" "header_ok st1 rc"
      using x(2) by (auto simp: o exec_ends_def exec_post_def)
    obtain m where m: "q_msg st1 = Live m" "12 \<le> length m" using r(2) by (auto simp: msg_live_def sizeof_dns_hdr_def)
    obtain h where h: "hdr_of_bytes m = Some h" using hdr_some [OF m(2)] by blast
    obtain b where b: "q_recvbuf st1 = Live b" "sizeof_dns_hdr \<le> unat (q_recvl st1)" "unat (q_recvl st1) \<le> length b"
      using r(3) by (auto simp: header_ok_def)
    let ?st = "st1\<lparr>q_msg := Freed\<rparr>"
    have w1: "cache_ready (3 * 2 ^ 16) (w_cache w1)" using same a(7) by auto
    have d: "domain_ok ?st" "bail ?st (w_cache w1) = bail st (w_cache w)"
      using r(1) a(5) same by (auto simp: fixed_part_def domain_ok_def bail_def guarded_def)
    have "returns (reply_records cf (enc ls @ q) tp (h_rd h) ?st ns soa w1) (reply_post ls ?st (w_cache w1))"
      by (rule reply_records_ok [OF _ _ _ w1 d(1) a(6,1-3)]) (use b in simp_all)
    then obtain y where y: "reply_records cf (enc ls @ q) tp (h_rd h) ?st ns soa w1 = Some y" "reply_post ls ?st (w_cache w1) y"
      by (rule returnsE)
    have buf: "q_recvbuf (x_st y) = Live b" using y(2) b(1) by (simp add: reply_post_def)
    have run: "p_exec_query cf True (Some (enc ls @ q)) tp st ns soa w = Some \<lparr>e_rv = Some (x_rv y), e_ent = x_ent y,
        e_st = (x_st y)\<lparr>q_recvbuf := Freed\<rparr>, e_ns = x_ns y, e_c_soa = x_c_soa y, e_w = x_w y\<rparr>"
      using x(1) o Replied m(1) h y(1) buf by (simp add: p_exec_query_def deref_def free_buf_def)
    show ?thesis unfolding run using y(2) d(2) by (auto simp: query_post_def reply_post_def split: option.splits)
  qed
qed

lemma demo_world_ready: "cache_ready (3 * 2 ^ 16) (w_cache (demo_world f))"
proof -
  have "cents (w_cache (demo_world f)) = (\<lambda>a. None)" by (simp add: demo_world_def init_cache_def)
  then have "room (3 * 2 ^ 16) (w_cache (demo_world f))" "data_ok (w_cache (demo_world f))"
    by (simp_all add: room_def cache_weight_def data_ok_def nrr_defs NTMPSORT_def)
  then show ?thesis using init_cache_inv by (simp add: cache_ready_def demo_world_def)
qed

lemma demo_args_ok:
  assumes "dns_name d" and "dns_name ls"
  shows "exec_args_ok demo_query_conf ls T_A (demo_query_stat m\<lparr>q_nsdomain := Some (enc d @ [])\<rparr>) [] (demo_world f)"
proof -
  have "cached_type T_A" unfolding cached_type_def by code_simp
  then have "thint_ok T_A" by (simp add: thint_ok_def)
  moreover have "deleg_ok demo_query_conf" "0 < q_udpbufsize demo_query_conf" by (simp_all add: deleg_ok_def demo_query_conf_def)
  ultimately show ?thesis using assms demo_world_ready [of f] by (auto simp: exec_args_ok_def domain_ok_def)
qed

text \<open>
  C6: a query with its reply is safe whatever bytes the peer sends, with one condition, part of
  \<open>exec_start\<close>: the query goes over UDP, or no peer announces an empty message over TCP (a length of
  0, which can make the code free its buffer twice: \<open>empty_reply_double_free\<close>). Called as the code
  calls it (a well-formed name, a type that is cached or no record type, zones of the configuration that
  are names, room in the cache), \<open>p_exec_query\<close> ends without an undefined operation, leaves a cache whose
  invariant holds and whose record data is well-formed for its types, returns an entry exactly if it
  returns \<open>RC_OK\<close>, and then one for the name asked, well-formed and not in the cache, a list of
  name servers made of well-formed names, and either waits in a state from which it can go on or keeps no buffer.
\<close>
theorem exec_reply_safe:
  assumes "exec_start st w" and "exec_args_ok cf ls tp st ns w"
  shows "\<exists>r. p_exec_query cf True (Some (enc ls @ q)) tp st ns soa w = Some r \<and>
    cache_inv (w_cache (e_w r)) \<and> data_ok (w_cache (e_w r)) \<and>
    (case e_ent r of None \<Rightarrow> e_rv r \<noteq> Some RC_OK | Some e \<Rightarrow> e_rv r = Some RC_OK \<and> parsed e \<and> qname e = enc ls) \<and>
    list_all ns_item (e_ns r) \<and>
    (case e_rv r of None \<Rightarrow> exec_start (e_st r) (e_w r) | Some rc \<Rightarrow> q_recvbuf (e_st r) \<in> {Null, Freed})"
  using exec_query_post [OF assms, of q soa]
  by (rule returnsE) (auto simp: query_post_def cache_ready_def list_all_iff)

theorem exec_reply_safe_witness:
  "\<exists>r. p_exec_query demo_query_conf True (Some (enc [str ''a''] @ [])) T_A (demo_query_stat UDP_ONLY\<lparr>q_nsdomain := Some (enc [] @ [])\<rparr>)
     [] None (demo_world (\<lambda>n. Data (replicate 12 0))) = Some r \<and> cache_inv (w_cache (e_w r))"
proof -
  have d: "dns_name [str ''a'']" "dns_name []" by (simp_all add: dns_name_def DNSNAMEBUFSIZE_def str_def)
  have "exec_start (demo_query_stat UDP_ONLY\<lparr>q_nsdomain := Some (enc [] @ [])\<rparr>) w" for w
    by (simp add: exec_start_def demo_query_stat_def USE_UDP_def)
  from exec_reply_safe [OF this demo_args_ok [OF d(2,1)]] show ?thesis by blast
qed

text \<open>
  C7: no cache poisoning outside the bailiwick: a server that is not trusted and that answers for a
  domain can send what it likes; in the cache, every entry whose name is not in this domain is one that
  was there before, at most with record sets purged for lack of space, and such an entry with
  local data stays with all its local sets.
\<close>
theorem reply_in_bailiwick:
  assumes "exec_start st w" and "exec_args_ok cf ls tp st ns w"
    and "\<not> q_trusted st" and "q_nsdomain st = Some (enc d @ z)" and "dns_name d"
  shows "\<exists>r. p_exec_query cf True (Some (enc ls @ q)) tp st ns soa w = Some r \<and>
    (\<forall>a c'. cents (w_cache (e_w r)) a = Some c' \<and> \<not> in_domain d (qname c') \<longrightarrow> (\<exists>c. cents (w_cache w) a = Some c \<and> pur_ent c c')) \<and>
    (\<forall>a c. cents (w_cache w) a = Some c \<and> \<not> in_domain d (qname c) \<and> Cache_Purge_Ent.kept c \<longrightarrow>
       (\<exists>c'. cents (w_cache (e_w r)) a = Some c' \<and> pur_ent c c'))"
proof -
  obtain r where r: "p_exec_query cf True (Some (enc ls @ q)) tp st ns soa w = Some r" "query_post ls st w r"
    using exec_query_post [OF assms(1,2), of q soa] by (rule returnsE)
  then have "guarded d (w_cache w) (w_cache (e_w r))" using assms(3-5) by (auto simp: query_post_def bail_def)
  with r(1) guardedD [OF this] show ?thesis by blast
qed

theorem reply_in_bailiwick_witness:
  "\<exists>r. p_exec_query demo_query_conf True (Some (enc [str ''b'', str ''a''] @ [])) T_A
     (demo_query_stat UDP_ONLY\<lparr>q_nsdomain := Some (enc [str ''a''] @ []), q_trusted := False\<rparr>) [] None
     (demo_world (\<lambda>n. Data (replicate 12 0))) = Some r \<and>
     (\<forall>a c'. cents (w_cache (e_w r)) a = Some c' \<longrightarrow> in_domain [str ''a''] (qname c'))"
proof -
  have d: "dns_name [str ''b'', str ''a'']" "dns_name [str ''a'']" by (simp_all add: dns_name_def DNSNAMEBUFSIZE_def str_def)
  let ?st = "demo_query_stat UDP_ONLY\<lparr>q_nsdomain := Some (enc [str ''a''] @ []), q_trusted := False\<rparr>"
  let ?w = "demo_world (\<lambda>n. Data (replicate 12 0))"
  have s: "exec_start ?st ?w" by (simp add: exec_start_def demo_query_stat_def USE_UDP_def)
  have a: "exec_args_ok demo_query_conf [str ''b'', str ''a''] T_A ?st [] ?w"
    using demo_args_ok [OF d(2,1), of UDP_ONLY "\<lambda>n. Data (replicate 12 0)"] by (simp add: exec_args_ok_def domain_ok_def)
  have "\<not> q_trusted ?st" "q_nsdomain ?st = Some (enc [str ''a''] @ [])" by simp_all
  from reply_in_bailiwick [OF s a this d(2)] obtain r where
    r: "p_exec_query demo_query_conf True (Some (enc [str ''b'', str ''a''] @ [])) T_A ?st [] None ?w = Some r"
    "\<forall>a c'. cents (w_cache (e_w r)) a = Some c' \<and> \<not> in_domain [str ''a''] (qname c') \<longrightarrow>
       (\<exists>c. cents (w_cache ?w) a = Some c \<and> pur_ent c c')" by blast
  moreover have "cents (w_cache ?w) a = None" for a by (simp add: demo_world_def init_cache_def)
  ultimately show ?thesis by (metis option.distinct(1))
qed

end
