(* ===== verification/Spec2Isabelle.thy ===== *)
theory Spec2Isabelle
  imports Names_Text Dns_Compress Keywords Rr_Access Reverse_Names Dns_Parse_Cache Cache_Correct
    Cache_Lock_Correct Answer_Process Cache_Typed Query_Safe
begin

text \<open>
  A verification library for \<open>pdnsd\<close>, the caching DNS proxy the application ships as its native
  resolver (\<open>src/orbotservice/src/main/jni/pdnsd/src/\<close>; all file names below are relative to it).

  The program. A client's question is answered from a cache (\<open>cache.c\<close>, indexed by the hash table
  of \<open>hash.c\<close>); what is missing is asked from name servers by the queries of \<open>dns_query.c\<close>, which
  compose a message, send it over UDP or TCP and judge the reply. The records of their messages are
  parsed by \<open>rrs2cent\<close> of \<open>dns_query.c\<close>, with the compressed names decoded by
  \<open>decompress_name\<close> of \<open>dns.c\<close>, into an array of cache entries (\<open>list.c\<close>) that \<open>add_cache\<close>
  merges into the cache. Answers are composed by \<open>dns_answer.c\<close>: \<open>process_query\<close> decodes the query,
  \<open>compose_answer\<close> fills the sections from cache entries, \<open>add_rr\<close> appends one record, with
  the names in it compressed by \<open>compress_name\<close>. Names
  in wire format and as text are handled by \<open>helpers.c\<close>, the record types by \<open>rr_types.h\<close>, the
  keywords of the configuration by \<open>conf-keywords.h\<close> and \<open>consts.c\<close>.

  Conventions. A C function that can run into undefined behaviour or fail an assertion returns an
  option: \<open>None\<close> is an access outside a buffer or an array, a dangling pointer, the wrong member
  of a union, a failed \<open>PDNSD_ASSERT\<close>. So every statement of the form \<open>f x = Some r\<close> includes
  the memory safety and the termination of that call. Return codes of the code are values of the
  result. Buffers are lists of bytes, accessed by \<open>rd\<close>, \<open>wr\<close>, \<open>rd_all\<close> and \<open>wr_all\<close>
  (Pdnsd_Prelude), which check the bounds. Integers have the width of the C type where wrap-around
  matters (hash values, offsets of compression pointers, 16 and 32 bit fields of messages, flags,
  counters); sizes, times and times to live are mathematical integers. The outcomes of \<open>malloc\<close>
  and \<open>realloc\<close> are a parameter: a function or the list \<open>mem\<close> of outcomes to come in the state of
  the cache. The configuration is that of the build for this application: Linux, IPv4, LP64,
  \<open>HASH_SZ\<close> 10, local AAAA records allowed.

  Theories and code.

  Pdnsd_Prelude: bytes, checked access to buffers, the collection of rewrite rules for them.

  Names, Names_Correct: \<open>rhnlen\<close>, \<open>skiprhn\<close>, \<open>skipsegs\<close>, \<open>rhnsegcnt\<close>, \<open>rhnicmp\<close>, \<open>rhncpy\<close>,
  \<open>isnormalencdomname\<close> of \<open>helpers.h\<close> and \<open>helpers.c\<close>. A name is abstractly a list of labels,
  \<open>enc\<close> its encoding and \<open>fold_case\<close> its spelling without case; \<open>dns_name\<close> is the invariant
  (labels of 1 to 63 bytes, at most 256 bytes in all). Names_Text: \<open>str2rhn\<close>, \<open>parsestr2rhn\<close> and
  \<open>rhn2str\<close> against a grammar of dotted strings; the printed texts are a prefix code (\<open>esc_text_inj\<close>),
  which the parsers do not decode. Names_Match: \<open>domain_match\<close> of \<open>dns.c\<close>.

  Dns_Names: \<open>decompress_name\<close>, against the inductive relation \<open>name_at\<close> of names in messages.
  Dns_Compress: \<open>compress_name\<close> and the list of earlier names; the message under composition is
  an invariant under which every written name is read back. Dns_Wire: the header of messages,
  \<open>GETINT16\<close>, \<open>PUTINT16\<close> and so on of \<open>dns.h\<close>. Reverse_Names: \<open>a2ptrstr\<close> of \<open>dns.c\<close>.

  Rr_Types: the numbers, names and indices of record types and the table of conflicts of
  \<open>rr_types.h\<close>, \<open>rr_tp_byname\<close> of \<open>rr_types.c\<close>. Rr_Access: the macros for single types in
  \<open>cache.h\<close> and \<open>rr_types.h\<close>. Keywords: the tables of \<open>conf-keywords.h\<close> and \<open>consts.c\<close> and
  \<open>binsearch_keyword\<close>. Dyn_List: the dynamic arrays and lists of \<open>list.c\<close> and \<open>list.h\<close>.

  Hash: \<open>hash.c\<close>. The locale \<open>name_map\<close> states what its clients rely on (a partial map from names
  without regard to case); its interpretation \<open>nt\<close> is on the model of the table, whose entries
  are addresses of the heap.

  Cache: the model of \<open>cache.c\<close> and \<open>cache.h\<close>, in the order of the code, and \<open>add_host\<close> of
  \<open>dns.c\<close>. The record \<open>cache\<close> holds the heap of entries (a map from addresses), the hash table,
  the list \<open>rrset_l\<close> of purgeable items, the counters and the configuration. A pointer to an
  element of the list is the pair of the address of its entry and the index of its record set,
  -1 for a negative entry.
  Cache_Inv: the invariant \<open>cok\<close> of one entry (its counters; its record sets and the list point
  to each other) and what the operations on one entry do to it. Cache_Core: the invariant
  \<open>cache_inv\<close> of the whole cache, and its preservation when an entry is changed in place, freed or
  removed from the table. Cache_Purge, Cache_Purge_Ent, Cache_Purge_All: purging of sets, of an
  entry, of the cache; the relation \<open>pur\<close> bounds what purging may change, and \<open>lapsed\<close> and
  \<open>lapsed_cent\<close> say, on the fields alone, what must go. Cache_Sort: the merge
  sort of \<open>sort_rrl\<close>. Cache_Entry, Cache_Add, Cache_Add_All, Cache_Add_Top: \<open>add_cache\<close> from its
  parts, on every outcome of its allocations: conflicts, replacing and merging of record sets,
  linking, entering. Cache_Lookup: the search for a name and for wildcards against a reference
  search on labels, and what a lookup returns (\<open>lookup_result\<close>). Cache_Ops: deleting, emptying with an include/exclude list, destroying,
  invalidating, setting flags. Cache_Correct: the cache as a transition system (\<open>cache_step\<close>,
  \<open>cache_reachable\<close>) and the properties of its operations; \<open>ttl_inv\<close> bounds the stored times to
  live. The steps do not include \<open>add_reverse_cache\<close>, which is modelled in Cache but breaks a
  counter. Cache_Build: building an entry with
  \<open>add_cent_rr\<close> before it is in the cache.

  Cache_Data, Cache_Typed: record data keep the form of their type in every operation. Cache_Room: the
  weight of the cache, which bounds the list of purgeable items and grows with every addition by at
  most the number of record types. Loops: loops over lists whose body may be undefined.

  Cache_Lock, Cache_Lock_Correct: the lock of the cache. Every section under the mutex is one
  function on the shared variables, \<open>lock_step\<close> interleaves the threads, and \<open>lock_reach\<close> says
  which states they can get to; the properties are the exclusion of writers and that no wake-up
  is lost. The operations of the cache are the sections between locking and unlocking, one
  after the other.

  Dns_Parse: \<open>rr_to_cache\<close> and \<open>rrs2cent\<close> of \<open>dns_query.c\<close>, one definition per kind of record.
  Dns_Parse_Correct: for every kind, the data stored has the form of its type (\<open>rdata_ok\<close>) and
  nothing is read outside the message. Dns_Parse_Cache: the array of entries as a set of records,
  to which \<open>rr_to_cache\<close> adds one, with the times to live of its record sets (\<open>arr_ttl\<close>); \<open>rrs2cent\<close> keeps the array well-formed on every message.

  Query_Cached, Query_Cached_Correct: \<open>lookup_cache_status\<close>, the decision between the cache and the
  servers, and \<open>p_dns_cached_resolve\<close> with \<open>r_dns_cached_resolve\<close>, for which the servers are a parameter.
  Query_Net, Query_Net_Correct: the query to one server as the state machine \<open>p_query_sm\<close> (one
  definition per state; the record \<open>query_stat\<close> is \<open>query_stat_t\<close>). The record \<open>world\<close> is the
  environment: the results of the system calls and the random numbers to come, arbitrary functions.
  Buffers are null, freed or live, so that using memory after it was freed, or freeing it twice, is
  undefined. Query_Exec, Query_Exec_Correct: the first half of \<open>p_exec_query\<close>, the message that is
  sent, the checks of the header of the reply and the repetition without recursion or EDNS.
  Query_Reply: the second half, one definition per step between two labels: the sections, the
  references, reject lists, delegation-only zones, negative caching, the list of name servers, the
  additions to the cache. Query_Records, Query_Reply_Correct, Query_Judge: these steps are defined on
  every reply. Query_Bailiwick: what they may change in the cache (\<open>guarded\<close>). Query_Safe: the two
  properties of the whole \<open>p_exec_query\<close>.

  Answer_Rr, Answer_Compose, Answer_Query: \<open>dns_answer.c\<close> but its threads, in the order of the code.
  Answer_Rr is \<open>add_rr\<close> and the OPT record: the message under composition is the record \<open>answer\<close>, with
  the list of compressed names. Answer_Compose goes from the record sets of an entry to
  \<open>compose_answer\<close>, whose variables are the record \<open>compose\<close>; every \<open>goto\<close> is a constructor of
  \<open>outcome\<close>. Answer_Query is \<open>decode_query\<close>, \<open>decode_query_additional\<close> and \<open>process_query\<close>.
  Answer_Put, Answer_Fields, Answer_Read, Answer_Records: what \<open>add_rr\<close> writes, and that the parser of
  Dns_Parse reads the composed records back. Answer_Opt: the OPT record and error replies.
  Answer_Safe: the invariant \<open>kinv\<close> of \<open>compose_answer\<close> and that every operation keeps it (\<open>good\<close>).
  Answer_Process: \<open>process_query\<close> on arbitrary bytes. The resolver \<open>dns_cached_resolve\<close> is a parameter,
  with the contract \<open>resolver_ok\<close>.

  Bounds and fuel. The loops of \<open>purge_cache\<close> carry a bound, the length of the list when the loop
  starts; \<open>purge_loop_spec\<close> shows that one pass ends every loop. The jump to \<open>retry\<close> in
  \<open>add_cache\<close> is a recursion of two rounds; \<open>add_cache_spec\<close> shows that the second one never
  needs a third. The array of fragments of \<open>sort_rrl\<close> has room for lists below \<open>2 ^ 32\<close> elements,
  which is the hypothesis \<open>has_room\<close>. The loop of \<open>rrs2cent\<close> runs over the given number of
  records. \<open>exec_loop\<close> carries the fuel 3: recursion and EDNS are each switched off at most once
  (\<open>tries\<close>, \<open>exec_loop_post\<close>). \<open>bind_tries\<close> and \<open>bind_scan\<close> carry the bounds of the code, twice the
  range of ports and the range. A query needs room in the cache for the records of one message,
  \<open>3 * 2 ^ 16\<close> entries. All other loops are recursive functions with a proof of termination.

  Not modelled. The mutexes of the other components. The file of the disk cache and the dump and
  status output. The threads of \<open>dns_answer.c\<close> that serve sockets; in \<open>dns_query.c\<close> the choice of
  servers, the parallel queries to them (\<open>p_recursive_query\<close>) and the iteration from the root
  servers; \<open>servers.c\<close>, \<open>conf-parser.c\<close>: sockets, threads, timers and files, with parts that only
  compute. \<open>loc2str\<close> of \<open>rr_types.c\<close>. The recorder's
  encoder (\<open>lame\<close>) and \<open>libancillary\<close> are third-party code; the JNI wrapper only calls the encoder.
\<close>

end
